(* ===== verification/Prelude.thy ===== *)
theory Prelude
  imports Main "HOL-Library.Word" "HOL-Library.Sublist"
begin

text \<open>
  Shared vocabulary of the development: the machine integers of the code, the
  faults a C++ execution can run into, the error-propagating sequencing of state
  transformers (\<open>bind_r\<close>, \<open>for_each\<close>), generic facts on lists, words and
  residues, and the interfaces (locales) for iterating a state transformer over a
  vector and for draining a work queue.
\<close>

section \<open>Types\<close>

type_synonym byte = "8 word"
type_synonym u32 = "32 word"
type_synonym u64 = "64 word"

text \<open>
  What can go wrong at run time. \<open>AssertFailure\<close> is an \<^verbatim>\<open>assert\<close> that
  fails in a build without \<^verbatim>\<open>NDEBUG\<close>; the others stand for undefined behaviour:
  an access outside an array, a use of a destroyed object, \<^verbatim>\<open>vector::erase(end())\<close>,
  and a client that uses one of its own handle objects outside its lifetime.
\<close>

datatype fault = AssertFailure | OutOfBounds | UseAfterFree | EraseEnd | ClientLifetime

type_synonym 'a result = "fault + 'a"

text \<open>
  Collections for running the model on concrete states: the definitions behind the client's
  calls, and those behind the actions of the broker.
\<close>

named_theorems client_ops
named_theorems broker_ops

section \<open>Sequencing with faults\<close>

definition bind_r :: "'e + 'a \<Rightarrow> ('a \<Rightarrow> 'e + 'b) \<Rightarrow> 'e + 'b" where
  "bind_r m f = (case m of Inl e \<Rightarrow> Inl e | Inr x \<Rightarrow> f x)"

lemma bind_r_simps [simp]:
  "bind_r (Inl e) f = Inl e"
  "bind_r (Inr x) f = f x"
  by (simp_all add: bind_r_def)

lemma bind_r_eq_Inr [simp]:
  "bind_r m f = Inr y \<longleftrightarrow> (\<exists>x. m = Inr x \<and> f x = Inr y)"
  by (cases m) auto

lemma bind_r_eq_Inl [simp]:
  "bind_r m f = Inl e \<longleftrightarrow> m = Inl e \<or> (\<exists>x. m = Inr x \<and> f x = Inl e)"
  by (cases m) auto

text \<open>A range-based \<^verbatim>\<open>for\<close> loop whose body may fault.\<close>

primrec for_each :: "('a \<Rightarrow> 's \<Rightarrow> 'e + 's) \<Rightarrow> 'a list \<Rightarrow> 's \<Rightarrow> 'e + 's" where
  "for_each f [] s = Inr s"
| "for_each f (x # xs) s = bind_r (f x s) (for_each f xs)"

lemma for_each_append:
  "for_each f (xs @ ys) s = bind_r (for_each f xs s) (for_each f ys)"
  by (induction xs arbitrary: s) (auto simp: bind_r_def split: sum.splits)

lemma for_each_map: "for_each f (map g xs) s = for_each (\<lambda>x. f (g x)) xs s"
  by (induction xs arbitrary: s) (auto simp: bind_r_def split: sum.splits)

text \<open>
  \<open>safe_r Q m\<close>: the computation \<open>m\<close> either stops because of the client's own
  error, or it returns and \<open>Q\<close> holds; it never runs into a fault of the program.
\<close>

definition safe_r :: "('a \<Rightarrow> bool) \<Rightarrow> 'a result \<Rightarrow> bool" where
  "safe_r Q m = (case m of Inl e \<Rightarrow> e = ClientLifetime | Inr x \<Rightarrow> Q x)"

lemma safe_r_simps [simp]:
  "safe_r Q (Inl e) \<longleftrightarrow> e = ClientLifetime"
  "safe_r Q (Inr x) \<longleftrightarrow> Q x"
  by (simp_all add: safe_r_def)

lemma safe_r_bind:
  "safe_r Q m \<Longrightarrow> (\<And>x. Q x \<Longrightarrow> safe_r R (f x)) \<Longrightarrow> safe_r R (bind_r m f)"
  by (cases m) auto

lemma safe_r_mono: "safe_r Q m \<Longrightarrow> (\<And>x. Q x \<Longrightarrow> R x) \<Longrightarrow> safe_r R m"
  by (cases m) auto

lemma safe_r_Inr: "safe_r Q m \<Longrightarrow> m = Inr x \<Longrightarrow> Q x"
  by simp

lemma safe_r_Inl: "safe_r Q m \<Longrightarrow> m = Inl e \<Longrightarrow> e = ClientLifetime"
  by simp

text \<open>
  A loop body that is safe under an invariant and changes the state only along a preorder
  (a frame): then so is the loop. \<open>pre x s\<close> is what the body needs of its element;
  it must survive the frame, since earlier iterations run first.
\<close>

locale framed_loop =
  fixes body :: "'a \<Rightarrow> 's \<Rightarrow> 's result" and inv :: "'s \<Rightarrow> bool"
    and frame :: "'s \<Rightarrow> 's \<Rightarrow> bool" and pre :: "'a \<Rightarrow> 's \<Rightarrow> bool"
  assumes frame_refl: "frame s s"
    and frame_trans: "frame s s' \<Longrightarrow> frame s' s'' \<Longrightarrow> frame s s''"
    and body_safe: "inv s \<Longrightarrow> pre x s \<Longrightarrow> safe_r (\<lambda>s'. inv s' \<and> frame s s') (body x s)"
    and pre_frame: "inv s \<Longrightarrow> frame s s' \<Longrightarrow> pre x s \<Longrightarrow> pre x s'"
begin

lemma loop_safe:
  "inv s \<Longrightarrow> (\<And>x. x \<in> set xs \<Longrightarrow> pre x s) \<Longrightarrow>
     safe_r (\<lambda>s'. inv s' \<and> frame s s') (for_each body xs s)"
proof (induction xs arbitrary: s)
  case Nil
  then show ?case by (simp add: frame_refl)
next
  case (Cons x xs)
  have "safe_r (\<lambda>s'. inv s' \<and> frame s s') (body x s)"
    using body_safe Cons.prems by simp
  moreover have "safe_r (\<lambda>s''. inv s'' \<and> frame s s'') (for_each body xs s')"
    if "inv s' \<and> frame s s'" for s'
  proof -
    have "safe_r (\<lambda>s''. inv s'' \<and> frame s' s'') (for_each body xs s')"
      using Cons.IH that Cons.prems pre_frame by (metis list.set_intros(2))
    then show ?thesis by (rule safe_r_mono) (use that frame_trans in blast)
  qed
  ultimately show ?case by (auto intro: safe_r_bind)
qed

lemma loop_frame:
  assumes "inv s" and "\<And>x. x \<in> set xs \<Longrightarrow> pre x s" and "for_each body xs s = Inr s'"
  shows "inv s'" and "frame s s'"
  using loop_safe [OF assms(1), of xs] assms(2,3) by simp_all

end

lemma subseq_set_subset: "subseq xs ys \<Longrightarrow> set xs \<subseteq> set ys"
  by (auto dest: list_emb_set)

lemma subseq_distinct: "subseq xs ys \<Longrightarrow> distinct ys \<Longrightarrow> distinct xs"
  by (auto simp: subseq_conv_nths)

lemma subseq_distinct_eq:
  assumes "subseq xs ys" and "distinct ys" and "set ys \<subseteq> set xs"
  shows "xs = ys"
proof -
  have "set xs = set ys" using subseq_set_subset [OF assms(1)] assms(3) by blast
  then have "length ys \<le> length xs" using distinct_card [OF assms(2)] card_length [of xs] by simp
  then show ?thesis using assms(1) list_emb_length [OF assms(1)] by (simp add: subseq_same_length)
qed

lemma subseq_mapE:
  assumes "subseq ys (map f xs)"
  obtains zs where "ys = map f zs" and "subseq zs xs"
  using assms
proof (induction xs arbitrary: ys thesis)
  case (Cons x xs)
  show ?case
  proof (cases "subseq ys (map f xs)")
    case True
    with Cons.IH Cons.prems(1) show ?thesis by (metis list_emb_Cons)
  next
    case False
    with Cons.prems(2) obtain ys' where "ys = f x # ys'" "subseq ys' (map f xs)"
      by (cases ys) (auto split: if_splits)
    with Cons.IH Cons.prems(1) show ?thesis by (metis list.simps(9) subseq_Cons2)
  qed
next
  case Nil
  then show ?case using Nil.prems(1) [of "[]"] by simp
qed

text \<open>
  A loop that writes a log: each iteration that is switched on adds the entry of its element.
  Elements may be switched off, never on, by the iterations before them.
\<close>

locale logging_loop = framed_loop body inv frame pre
  for body :: "'a \<Rightarrow> 's \<Rightarrow> 's result" and inv :: "'s \<Rightarrow> bool"
    and frame :: "'s \<Rightarrow> 's \<Rightarrow> bool" and pre :: "'a \<Rightarrow> 's \<Rightarrow> bool" +
  fixes log :: "'s \<Rightarrow> 'l list" and entry :: "'a \<Rightarrow> 'l" and on :: "'a \<Rightarrow> 's \<Rightarrow> bool"
  assumes body_log: "inv s \<Longrightarrow> pre x s \<Longrightarrow> body x s = Inr s' \<Longrightarrow> log s' = log s @ (if on x s then [entry x] else [])"
    and on_frame: "inv s \<Longrightarrow> pre x s \<Longrightarrow> frame s s' \<Longrightarrow> on x s' \<Longrightarrow> on x s"
begin

lemma loop_log:
  "inv s \<Longrightarrow> (\<And>x. x \<in> set xs \<Longrightarrow> pre x s) \<Longrightarrow> for_each body xs s = Inr s' \<Longrightarrow>
     \<exists>ys. subseq ys xs \<and> log s' = log s @ map entry ys \<and> (\<forall>y\<in>set ys. on y s) \<and> (\<forall>x\<in>set xs - set ys. \<not> on x s')"
proof (induction xs arbitrary: s)
  case Nil
  then show ?case by simp
next
  case (Cons x xs)
  from Cons.prems(3) obtain t where t: "body x s = Inr t" "for_each body xs t = Inr s'" by auto
  have f: "inv t" "frame s t" using body_safe [OF Cons.prems(1), of x] Cons.prems(2) t(1) by auto
  have pre: "pre y t" if "y \<in> set xs" for y
    using pre_frame [OF Cons.prems(1) f(2)] Cons.prems(2) that by simp
  have f': "frame t s'" using loop_safe [OF f(1), of xs] pre t(2) by simp
  from Cons.IH [OF f(1) _ t(2)] pre obtain ys where ys: "subseq ys xs" "log s' = log t @ map entry ys"
    "\<forall>y\<in>set ys. on y t" "\<forall>x\<in>set xs - set ys. \<not> on x s'" by blast
  have on: "\<forall>y\<in>set ys. on y s"
  proof
    fix y assume y: "y \<in> set ys"
    then have "y \<in> set (x # xs)" using subseq_set_subset [OF ys(1)] by auto
    then show "on y s" using on_frame [OF Cons.prems(1) Cons.prems(2) f(2)] ys(3) y by blast
  qed
  have lx: "log t = log s @ (if on x s then [entry x] else [])"
    using body_log [OF Cons.prems(1) _ t(1)] Cons.prems(2) by simp
  show ?case
  proof (cases "on x s")
    case True
    with ys on lx show ?thesis by (intro exI [of _ "x # ys"]) auto
  next
    case False
    then have "\<not> on x s'"
      using on_frame [OF Cons.prems(1) _ frame_trans [OF f(2) f']] Cons.prems(2) by auto
    with False ys on lx show ?thesis by (intro exI [of _ ys]) auto
  qed
qed

end

section \<open>Lists and residues\<close>

lemma remove1_filter_distinct:
  "distinct xs \<Longrightarrow> remove1 a (filter P xs) = filter P (remove1 a xs)"
  by (simp add: distinct_remove1_removeAll removeAll_filter_not_eq conj_commute)

text \<open>Two positions less than one lap apart share a slot only if they are equal.\<close>

lemma mod_window_eq:
  fixes i j n :: nat
  assumes "i mod n = j mod n" and "i \<le> j" and "j < i + n"
  shows "i = j"
proof -
  from assms(1,2) have "n dvd j - i"
    using mod_eq_dvd_iff_nat by metis
  with assms(3) have "j - i = 0"
    by (metis dvd_imp_le less_diff_conv2 assms(2) add.commute not_less zero_less_iff_neq_zero)
  with assms(2) show ?thesis by simp
qed

lemma mod_Suc_step:
  fixes k n :: nat
  assumes "0 < n"
  shows "Suc k mod n = (if Suc (k mod n) = n then 0 else Suc (k mod n))"
  by (simp add: mod_Suc)

section \<open>Words\<close>

lemma unat_of_nat_u32: "k < 2 ^ 32 \<Longrightarrow> unat (of_nat k :: u32) = k"
  by (simp add: unat_of_nat take_bit_nat_eq_self)

lemma of_nat_u32_eq_iff:
  "a < 2 ^ 32 \<Longrightarrow> b < 2 ^ 32 \<Longrightarrow> (of_nat a :: u32) = of_nat b \<longleftrightarrow> a = b"
  by (metis unat_of_nat_u32)

lemma of_nat_u32_eq_0_iff: "a < 2 ^ 32 \<Longrightarrow> (of_nat a :: u32) = 0 \<longleftrightarrow> a = 0"
  using of_nat_u32_eq_iff [of a 0] by simp

lemma of_nat_Suc_u32_neq_0 [simp]: "Suc k < 2 ^ 32 \<Longrightarrow> (of_nat (Suc k) :: u32) \<noteq> 0"
  using of_nat_u32_eq_0_iff [of "Suc k"] by simp

lemma unat_of_nat_u64: "k < 2 ^ 64 \<Longrightarrow> unat (of_nat k :: u64) = k"
  by (simp add: unat_of_nat take_bit_nat_eq_self)

lemma unat_exp_u64: "j < 64 \<Longrightarrow> unat (2 ^ j :: u64) = 2 ^ j"
  using unat_of_nat_u64 [of "2 ^ j"] power_strict_increasing [of j 64 "2::nat"] by simp

lemma unat_sub_u64: "unat (x :: u64) \<le> unat r \<Longrightarrow> unat (r - x) = unat r - unat x"
  by (simp add: unat_sub_if')

lemma unat_add_u64: "unat r + unat (x :: u64) < 2 ^ 64 \<Longrightarrow> unat (r + x) = unat r + unat x"
  by (simp add: unat_word_ariths)

lemma of_nat_u64_inject: "i < 2 ^ 64 \<Longrightarrow> j < 2 ^ 64 \<Longrightarrow> (of_nat i :: u64) = of_nat j \<longleftrightarrow> i = j"
  by (metis unat_of_nat_u64)

section \<open>Invariants of step relations\<close>

text \<open>
  A step relation with an invariant that every step keeps as long as \<open>ok\<close> holds, where
  \<open>ok\<close> (a bound on a counter, say) can only be lost, never regained, along a run.
\<close>

locale step_invariant =
  fixes init :: "'s \<Rightarrow> bool" and step :: "'s \<Rightarrow> 's \<Rightarrow> bool"
    and ok :: "'s \<Rightarrow> bool" and inv :: "'s \<Rightarrow> bool"
  assumes inv_init: "init s \<Longrightarrow> inv s"
    and ok_back: "step s s' \<Longrightarrow> ok s' \<Longrightarrow> ok s"
    and inv_step: "step s s' \<Longrightarrow> ok s \<Longrightarrow> inv s \<Longrightarrow> inv s'"
begin

lemma inv_run:
  assumes "init s0" and "step\<^sup>*\<^sup>* s0 s" and "ok s"
  shows "inv s"
  using assms(2,3)
proof (induction rule: rtranclp_induct)
  case base
  show ?case using assms(1) by (rule inv_init)
next
  case (step y z)
  then show ?case using ok_back inv_step by blast
qed

end

end
