(* ===== verification/Ring_Buffer.thy ===== *)
theory Ring_Buffer
  imports Prelude
begin

text \<open>
  The shared-memory ring of \<^verbatim>\<open>src/lib/ring_buffer/ring_buffer.h\<close>: \<^verbatim>\<open>Slot\<close>,
  \<^verbatim>\<open>RingBuffer\<close> and its writer. The operations take the build mode as a flag
  (\<open>ndebug\<close> is true in the Release build, which compiles the assertions away).
  The ring is related to an abstract log, the list of all fragments ever written, by
  the window invariant \<open>rb_inv\<close>: the last \<open>n\<close> fragments of the log are in
  the \<open>n\<close> slots, each under its sequence number.
\<close>

section \<open>Slots\<close>

record SlotHeader =
  h_sn :: u32
  h_sz :: u32

text \<open>\<^verbatim>\<open>sizeof(SlotData)\<close>, the length of \<^verbatim>\<open>std::array<uint8_t, 56>\<close>.\<close>

definition SlotData_size :: nat where
  "SlotData_size = 56"

record Slot =
  slot_header :: SlotHeader
  slot_data :: "byte list"

definition no_header :: SlotHeader where
  "no_header = \<lparr>h_sn = 0, h_sz = 0\<rparr>"

definition new_Slot :: Slot where
  "new_Slot = \<lparr>slot_header = no_header, slot_data = replicate SlotData_size 0\<rparr>"

text \<open>
  \<^verbatim>\<open>Slot::update\<close>: the assertion, the header cleared, the bytes copied over the
  front of the data, the new header stored.
\<close>

definition slot_update :: "bool \<Rightarrow> Slot \<Rightarrow> byte list \<Rightarrow> u32 \<Rightarrow> Slot result" where
  "slot_update ndebug s d n =
     (if \<not> ndebug \<and> \<not> length d < SlotData_size then Inl AssertFailure
      else let s1 = s\<lparr>slot_header := no_header\<rparr> in
        if length (slot_data s1) < length d then Inl OutOfBounds
        else let s2 = s1\<lparr>slot_data := d @ drop (length d) (slot_data s1)\<rparr> in
          Inr (s2\<lparr>slot_header := \<lparr>h_sn = n, h_sz = of_nat (length d)\<rparr>\<rparr>))"

section \<open>The ring and its writer\<close>

datatype WriteResult = Write_OK | MSG_TOO_BIG | EMPTY_MSG

record RingBuffer =
  current_slot :: u32
  current_sn :: u32
  slots :: "Slot list"

definition new_RingBuffer :: "bool \<Rightarrow> nat \<Rightarrow> RingBuffer result" where
  "new_RingBuffer ndebug n_slots =
     (if \<not> ndebug \<and> \<not> 0 < n_slots then Inl AssertFailure
      else Inr \<lparr>current_slot = 0, current_sn = 1, slots = replicate n_slots new_Slot\<rparr>)"

text \<open>
  \<^verbatim>\<open>RingBuffer::move_next\<close>. Both counters are 32 bits wide and wrap; the slot
  counter is compared with the vector's size after the increment.
\<close>

definition rb_move_next :: "RingBuffer \<Rightarrow> RingBuffer" where
  "rb_move_next b =
     (let b1 = b\<lparr>current_sn := current_sn b + 1\<rparr>;
          b2 = b1\<lparr>current_slot := current_slot b1 + 1\<rparr>
      in if unat (current_slot b2) = length (slots b2)
         then b2\<lparr>current_slot := 0\<rparr> else b2)"

text \<open>
  One iteration of the loop in \<^verbatim>\<open>RingBuffer::write\<close>: update the current slot with
  the piece \<open>d\<close> and move on.
\<close>

definition rb_write_piece :: "bool \<Rightarrow> RingBuffer \<Rightarrow> byte list \<Rightarrow> RingBuffer result" where
  "rb_write_piece ndebug b d =
     (let i = unat (current_slot b) in
      if i < length (slots b) then
        bind_r (slot_update ndebug (slots b ! i) d (current_sn b))
          (\<lambda>s. Inr (rb_move_next (b\<lparr>slots := (slots b)[i := s]\<rparr>)))
      else Inl OutOfBounds)"

text \<open>
  The \<^verbatim>\<open>while\<close> loop of \<^verbatim>\<open>RingBuffer::write\<close>. Its guard
  \<^verbatim>\<open>current_byte != sview.size()\<close> is written with \<open><\<close>: the index starts at 0 and
  grows by at most what remains, so it never passes the size.
\<close>

function write_loop :: "bool \<Rightarrow> byte list \<Rightarrow> nat \<Rightarrow> RingBuffer \<Rightarrow> RingBuffer result" where
  "write_loop ndebug sview current_byte b =
     (if current_byte < length sview then
        let remaining = length sview - current_byte;
            to_write = min SlotData_size remaining
        in bind_r (rb_write_piece ndebug b (take to_write (drop current_byte sview)))
             (write_loop ndebug sview (current_byte + to_write))
      else Inr b)"
  by pat_completeness auto
termination
  by (relation "measure (\<lambda>(ndebug, sview, current_byte, b). length sview - current_byte)")
     (auto simp: SlotData_size_def)

declare write_loop.simps [simp del]

definition rb_write :: "bool \<Rightarrow> RingBuffer \<Rightarrow> byte list \<Rightarrow> (WriteResult \<times> RingBuffer) result" where
  "rb_write ndebug b sview =
     (if length (slots b) * SlotData_size < length sview then Inr (MSG_TOO_BIG, b)
      else if sview = [] then Inr (EMPTY_MSG, b)
      else bind_r (write_loop ndebug sview 0 b) (\<lambda>b'. Inr (Write_OK, b')))"

section \<open>Fragments of a message\<close>

text \<open>The pieces the writer cuts a message into: full slots, then the rest.\<close>

function chunks :: "byte list \<Rightarrow> byte list list" where
  "chunks xs = (if xs = [] then [] else take SlotData_size xs # chunks (drop SlotData_size xs))"
  by pat_completeness auto
termination
  by (relation "measure length") (auto simp: SlotData_size_def)

declare chunks.simps [simp del]

lemma chunks_Nil [simp]: "chunks [] = []"
  by (subst chunks.simps) simp

lemma chunks_nonempty:
  "xs \<noteq> [] \<Longrightarrow> chunks xs = take SlotData_size xs # chunks (drop SlotData_size xs)"
  by (subst chunks.simps) simp

lemma concat_chunks: "concat (chunks xs) = xs"
proof (induction xs rule: chunks.induct)
  case (1 xs)
  then show ?case by (cases "xs = []") (simp_all add: chunks_nonempty)
qed

lemma chunks_size:
  "f \<in> set (chunks xs) \<Longrightarrow> 0 < length f \<and> length f \<le> SlotData_size"
proof (induction xs rule: chunks.induct)
  case (1 xs)
  show ?case
  proof (cases "xs = []")
    case False
    with "1.prems" consider "f = take SlotData_size xs" | "f \<in> set (chunks (drop SlotData_size xs))"
      by (auto simp: chunks_nonempty)
    then show ?thesis
      using False "1.IH" by cases (auto simp: SlotData_size_def)
  qed (use "1.prems" in simp)
qed

lemma length_chunks:
  "length (chunks xs) = (length xs + SlotData_size - 1) div SlotData_size"
proof (induction xs rule: chunks.induct)
  case (1 xs)
  show ?case
  proof (cases "xs = []")
    case True
    then show ?thesis by (simp add: SlotData_size_def)
  next
    case False
    then have "length (chunks xs) = Suc ((length xs - 56 + 55) div 56)"
      using "1.IH" by (simp add: chunks_nonempty SlotData_size_def)
    also have "\<dots> = (length xs + 55) div 56"
    proof (cases "length xs \<le> 56")
      case True
      have "(length xs + 55) div 56 = 1"
        using False True by (intro div_nat_eqI) (auto simp: Suc_le_eq)
      with True show ?thesis by simp
    next
      case False
      then have "length xs + 55 = (length xs - 56 + 55) + 56" by simp
      then show ?thesis by (simp del: diff_is_0_eq)
    qed
    finally show ?thesis by (simp add: SlotData_size_def)
  qed
qed

lemma chunks_single:
  "xs \<noteq> [] \<Longrightarrow> length xs \<le> SlotData_size \<Longrightarrow> chunks xs = [xs]"
  by (simp add: chunks_nonempty)

text \<open>The write loop is the iteration of single pieces over the fragments.\<close>

lemma write_loop_chunks:
  "write_loop ndebug sview cb b =
     for_each (\<lambda>d b. rb_write_piece ndebug b d) (chunks (drop cb sview)) b"
proof (induction ndebug sview cb b rule: write_loop.induct)
  case (1 ndebug sview cb b)
  show ?case
  proof (cases "cb < length sview")
    case True
    let ?w = "min SlotData_size (length sview - cb)"
    have tw: "take ?w (drop cb sview) = take SlotData_size (drop cb sview)"
      by (simp add: min_def)
    have dw: "chunks (drop (cb + ?w) sview) = chunks (drop SlotData_size (drop cb sview))"
      by (simp add: min_def add.commute)
    have "write_loop ndebug sview cb b =
        bind_r (rb_write_piece ndebug b (take SlotData_size (drop cb sview)))
          (write_loop ndebug sview (cb + ?w))"
      using True by (subst write_loop.simps) (simp add: Let_def tw)
    also have "\<dots> = bind_r (rb_write_piece ndebug b (take SlotData_size (drop cb sview)))
          (for_each (\<lambda>d b. rb_write_piece ndebug b d) (chunks (drop (cb + ?w) sview)))"
      using "1.IH" [OF True refl refl] tw
      by (cases "rb_write_piece ndebug b (take SlotData_size (drop cb sview))") simp_all
    finally show ?thesis
      using True unfolding dw by (simp add: chunks_nonempty)
  next
    case False
    then show ?thesis by (subst write_loop.simps) simp
  qed
qed

section \<open>The log behind the ring\<close>

text \<open>\<open>slot_holds s k f\<close>: slot \<open>s\<close> carries fragment number \<open>k\<close> (from 0) with bytes \<open>f\<close>.\<close>

definition slot_holds :: "Slot \<Rightarrow> nat \<Rightarrow> byte list \<Rightarrow> bool" where
  "slot_holds s k f \<longleftrightarrow>
     slot_header s = \<lparr>h_sn = of_nat (Suc k), h_sz = of_nat (length f)\<rparr> \<and>
     take (length f) (slot_data s) = f"

definition rb_inv :: "RingBuffer \<Rightarrow> byte list list \<Rightarrow> bool" where
  "rb_inv b L \<longleftrightarrow>
     0 < length (slots b) \<and> length (slots b) \<le> 2 ^ 32 \<and>
     (\<forall>s\<in>set (slots b). length (slot_data s) = SlotData_size) \<and>
     (\<forall>f\<in>set L. 0 < length f \<and> length f \<le> SlotData_size) \<and>
     current_sn b = of_nat (Suc (length L)) \<and>
     current_slot b = of_nat (length L mod length (slots b)) \<and>
     (\<forall>k<length L. length L \<le> k + length (slots b) \<longrightarrow>
        slot_holds (slots b ! (k mod length (slots b))) k (L ! k)) \<and>
     (\<forall>j<length (slots b). length L \<le> j \<longrightarrow> slot_header (slots b ! j) = no_header)"

lemma rb_inv_new:
  assumes "0 < n" and "n \<le> 2 ^ 32"
  shows "\<exists>b. new_RingBuffer ndebug n = Inr b \<and> rb_inv b [] \<and> length (slots b) = n"
  using assms by (auto simp: new_RingBuffer_def rb_inv_def new_Slot_def)

lemma unat_current_slot:
  assumes "rb_inv b L"
  shows "unat (current_slot b) = length L mod length (slots b)"
    and "length L mod length (slots b) < length (slots b)"
proof -
  from assms have pos: "0 < length (slots b)" "length (slots b) \<le> 2 ^ 32"
    by (auto simp: rb_inv_def)
  show lt: "length L mod length (slots b) < length (slots b)"
    using pos by simp
  with pos have "length L mod length (slots b) < 2 ^ 32"
    by linarith
  with assms show "unat (current_slot b) = length L mod length (slots b)"
    by (simp add: rb_inv_def unat_of_nat_u32)
qed

text \<open>Advancing a 32-bit slot counter is advancing the position modulo the ring.\<close>

lemma slot_counter_step:
  fixes k n :: nat
  assumes "0 < n" and "n \<le> 2 ^ 32"
  shows "(if unat (of_nat (k mod n) + 1 :: u32) = n then 0 else of_nat (k mod n) + 1 :: u32)
       = of_nat (Suc k mod n)"
proof -
  have lt: "k mod n < n" using assms(1) by simp
  show ?thesis
  proof (cases "Suc (k mod n) < 2 ^ 32")
    case True
    then have "unat (of_nat (k mod n) + 1 :: u32) = Suc (k mod n)"
      using unat_of_nat_u32 [OF True] by (simp add: add.commute)
    then show ?thesis
      using mod_Suc_step [OF assms(1), of k] by (simp add: add.commute)
  next
    case False
    with lt assms(2) have eq: "Suc (k mod n) = 2 ^ 32" and n: "n = 2 ^ 32" by linarith+
    have "(of_nat (k mod n) + 1 :: u32) = of_nat (Suc (k mod n))"
      by (simp add: add.commute)
    also have "\<dots> = 0"
      unfolding eq by simp
    finally show ?thesis
      using mod_Suc_step [OF assms(1), of k] eq n by simp
  qed
qed

lemma rb_move_next_fields:
  assumes "rb_inv b L" and "length ss = length (slots b)"
  shows "slots (rb_move_next (b\<lparr>slots := ss\<rparr>)) = ss"
    and "current_sn (rb_move_next (b\<lparr>slots := ss\<rparr>)) = of_nat (Suc (Suc (length L)))"
    and "current_slot (rb_move_next (b\<lparr>slots := ss\<rparr>)) =
           of_nat (Suc (length L) mod length (slots b))"
proof -
  from assms(1) have n: "0 < length (slots b)" "length (slots b) \<le> 2 ^ 32"
    and sn: "current_sn b = of_nat (Suc (length L))"
    and cs: "current_slot b = of_nat (length L mod length (slots b))"
    by (auto simp: rb_inv_def)
  show "slots (rb_move_next (b\<lparr>slots := ss\<rparr>)) = ss"
    by (simp add: rb_move_next_def Let_def)
  show "current_sn (rb_move_next (b\<lparr>slots := ss\<rparr>)) = of_nat (Suc (Suc (length L)))"
    by (simp add: rb_move_next_def Let_def sn)
  show "current_slot (rb_move_next (b\<lparr>slots := ss\<rparr>)) =
      of_nat (Suc (length L) mod length (slots b))"
    using slot_counter_step [OF n, of "length L"] assms(2)
    by (simp add: rb_move_next_def Let_def cs if_distrib [of current_slot] cong: if_cong)
qed

text \<open>A piece of legal size is stored, and the log grows by it.\<close>

lemma slot_update_ok:
  assumes "length (slot_data s) = SlotData_size" and "length d \<le> SlotData_size"
    and "ndebug \<or> length d < SlotData_size"
  shows "slot_update ndebug s d n =
    Inr \<lparr>slot_header = \<lparr>h_sn = n, h_sz = of_nat (length d)\<rparr>,
         slot_data = d @ drop (length d) (slot_data s)\<rparr>"
  using assms by (auto simp: slot_update_def Let_def)

lemma rb_write_piece_inv:
  assumes inv: "rb_inv b L" and d: "0 < length d" "length d \<le> SlotData_size"
    and mode: "ndebug \<or> length d < SlotData_size"
  shows "\<exists>b'. rb_write_piece ndebug b d = Inr b' \<and> rb_inv b' (L @ [d]) \<and>
           length (slots b') = length (slots b)"
proof -
  let ?n = "length (slots b)" and ?i = "length L mod length (slots b)"
  let ?s = "\<lparr>slot_header = \<lparr>h_sn = current_sn b, h_sz = of_nat (length d)\<rparr>,
             slot_data = d @ drop (length d) (slot_data (slots b ! ?i))\<rparr>"
  let ?ss = "(slots b)[?i := ?s]"
  let ?b = "rb_move_next (b\<lparr>slots := ?ss\<rparr>)"
  note cs = unat_current_slot [OF inv]
  have len: "length (slot_data (slots b ! ?i)) = SlotData_size"
    using inv cs(2) by (simp add: rb_inv_def)
  have run: "rb_write_piece ndebug b d = Inr ?b"
    using cs slot_update_ok [OF len d(2) mode] by (simp add: rb_write_piece_def Let_def)
  have "length ?ss = ?n" by simp
  note fields = rb_move_next_fields [OF inv this]
  have stored: "slot_holds ?s (length L) d"
    using inv by (simp add: slot_holds_def rb_inv_def)
  have data: "\<forall>s\<in>set ?ss. length (slot_data s) = SlotData_size"
    using inv len d(2) by (auto simp: rb_inv_def dest!: set_update_subset_insert [THEN subsetD])
  have win: "slot_holds (?ss ! (k mod ?n)) k ((L @ [d]) ! k)"
    if k: "k < Suc (length L)" "Suc (length L) \<le> k + ?n" for k
  proof (cases "k = length L")
    case True
    then show ?thesis using stored cs(2) by simp
  next
    case False
    with k have lt: "k < length L" by simp
    have "k mod ?n \<noteq> ?i"
      using mod_window_eq [of k ?n "length L"] lt k(2) by auto
    moreover have "slot_holds (slots b ! (k mod ?n)) k (L ! k)"
      using inv lt k(2) by (auto simp: rb_inv_def)
    ultimately show ?thesis using lt by (simp add: nth_append)
  qed
  have fresh: "slot_header (?ss ! j) = no_header" if "j < ?n" "Suc (length L) \<le> j" for j
  proof -
    from that have "?i = length L" by simp
    with that have "?ss ! j = slots b ! j" by simp
    with inv that show ?thesis by (simp add: rb_inv_def)
  qed
  obtain b' where b': "b' = ?b" by simp
  note f' = fields [folded b']
  from inv have base: "0 < ?n" "?n \<le> 2 ^ 32" "\<forall>f\<in>set (L @ [d]). 0 < length f \<and> length f \<le> SlotData_size"
    using d by (auto simp: rb_inv_def)
  have "rb_inv b' (L @ [d])"
    unfolding rb_inv_def f' using base data win fresh by auto
  with run f'(1) show ?thesis unfolding b' by simp
qed

lemma write_pieces_inv:
  assumes "rb_inv b L"
    and "\<forall>d\<in>set ds. 0 < length d \<and> length d \<le> SlotData_size \<and> (ndebug \<or> length d < SlotData_size)"
  shows "\<exists>b'. for_each (\<lambda>d b. rb_write_piece ndebug b d) ds b = Inr b' \<and>
           rb_inv b' (L @ ds) \<and> length (slots b') = length (slots b)"
  using assms
proof (induction ds arbitrary: b L)
  case Nil
  then show ?case by simp
next
  case (Cons d ds)
  from Cons.prems obtain b1 where b1: "rb_write_piece ndebug b d = Inr b1"
      "rb_inv b1 (L @ [d])" "length (slots b1) = length (slots b)"
    using rb_write_piece_inv [OF Cons.prems(1), of d ndebug] by auto
  with Cons.IH [OF b1(2)] Cons.prems(2) show ?case by auto
qed

section \<open>What a reader may rely on\<close>

text \<open>
  The interface between the ring and its readers: \<open>view b j\<close> is slot \<open>j\<close>,
  \<open>inv b L\<close> relates the ring to the log of fragments. A reader at log position
  \<open>p\<close> looks at slot \<open>p mod cap\<close>; the lemmas say what it finds there.
\<close>

locale slot_window =
  fixes view :: "'b \<Rightarrow> nat \<Rightarrow> Slot"
    and cap :: "'b \<Rightarrow> nat"
    and inv :: "'b \<Rightarrow> byte list list \<Rightarrow> bool"
  assumes cap_pos: "inv b L \<Longrightarrow> 0 < cap b"
    and retained: "inv b L \<Longrightarrow> k < length L \<Longrightarrow> length L \<le> k + cap b \<Longrightarrow>
          slot_holds (view b (k mod cap b)) k (L ! k)"
    and unwritten: "inv b L \<Longrightarrow> j < cap b \<Longrightarrow> length L \<le> j \<Longrightarrow>
          slot_header (view b j) = no_header"
begin

lemma last_lap:
  assumes "inv b L" and "p < length L"
  obtains k where "p \<le> k" and "k < length L" and "length L \<le> k + cap b"
    and "k mod cap b = p mod cap b"
proof
  let ?n = "cap b" and ?d = "length L - 1 - p"
  have n: "0 < ?n" using assms(1) by (rule cap_pos)
  let ?k = "p + ?d div ?n * ?n"
  have d: "?d div ?n * ?n + ?d mod ?n = ?d" by (rule div_mult_mod_eq)
  have m: "?d mod ?n < ?n" using n by simp
  show "p \<le> ?k" by simp
  show "?k < length L" using d assms(2) by linarith
  show "length L \<le> ?k + ?n" using d m assms(2) by linarith
  show "?k mod ?n = p mod ?n" by simp
qed

lemma header_current:
  assumes "inv b L" and "p < length L" and "length L \<le> p + cap b"
  shows "h_sn (slot_header (view b (p mod cap b))) = of_nat (Suc p)"
    and "h_sz (slot_header (view b (p mod cap b))) = of_nat (length (L ! p))"
    and "take (length (L ! p)) (slot_data (view b (p mod cap b))) = L ! p"
  using retained [OF assms] by (simp_all add: slot_holds_def)

lemma header_overtaken:
  assumes "inv b L" and "p + cap b < length L"
  obtains k where "p < k" and "k < length L"
    and "h_sn (slot_header (view b (p mod cap b))) = of_nat (Suc k)"
proof -
  from assms(2) have "p < length L" by simp
  from last_lap [OF assms(1) this] obtain k where
    k: "p \<le> k" "k < length L" "length L \<le> k + cap b" "k mod cap b = p mod cap b" .
  have "p < k" using k assms(2) by linarith
  moreover have "h_sn (slot_header (view b (p mod cap b))) = of_nat (Suc k)"
    using retained [OF assms(1) k(2,3)] k(4) by (simp add: slot_holds_def)
  ultimately show thesis using that k(2) by blast
qed

lemma header_caught_up:
  assumes "inv b L"
  shows "length L < cap b \<Longrightarrow> slot_header (view b (length L mod cap b)) = no_header"
    and "cap b \<le> length L \<Longrightarrow>
      h_sn (slot_header (view b (length L mod cap b))) = of_nat (Suc (length L - cap b))"
proof -
  show "slot_header (view b (length L mod cap b)) = no_header" if "length L < cap b"
    using unwritten [OF assms that] that by simp
  show "h_sn (slot_header (view b (length L mod cap b))) = of_nat (Suc (length L - cap b))"
    if "cap b \<le> length L"
  proof -
    have "0 < cap b" using assms by (rule cap_pos)
    then have "slot_holds (view b ((length L - cap b) mod cap b)) (length L - cap b) (L ! (length L - cap b))"
      using assms that by (intro retained) auto
    moreover have "(length L - cap b) mod cap b = length L mod cap b"
      using that by (simp add: le_mod_geq)
    ultimately show ?thesis by (simp add: slot_holds_def)
  qed
qed

end

interpretation ring: slot_window "\<lambda>b j. slots b ! j" "\<lambda>b. length (slots b)" rb_inv
  by unfold_locales (auto simp: rb_inv_def)

section \<open>Behaviour of write\<close>

text \<open>
  C35: In the Release build \<^verbatim>\<open>RingBuffer::write\<close> always returns. It rejects a message
  that is larger than the whole ring and an empty one without touching the ring, and
  stores any other message as its fragments of at most 56 bytes, whose concatenation
  is the message, after those already written; the ring keeps its invariant and size.
\<close>

theorem rb_write_release:
  assumes "rb_inv b L"
  shows "\<exists>res b'. rb_write True b m = Inr (res, b') \<and>
     (if length (slots b) * SlotData_size < length m then res = MSG_TOO_BIG \<and> b' = b
      else if m = [] then res = EMPTY_MSG \<and> b' = b
      else res = Write_OK \<and> length (slots b') = length (slots b) \<and>
           rb_inv b' (L @ chunks m) \<and> concat (chunks m) = m)"
proof -
  have "\<forall>d\<in>set (chunks m). 0 < length d \<and> length d \<le> SlotData_size \<and> (True \<or> length d < SlotData_size)"
    using chunks_size by blast
  from write_pieces_inv [OF assms this] show ?thesis
    by (auto simp: rb_write_def write_loop_chunks concat_chunks)
qed

theorem rb_write_release_witness:
  "\<exists>b. new_RingBuffer True 2 = Inr b \<and>
     (\<exists>res b'. rb_write True b (replicate 60 7) = Inr (res, b') \<and> res = Write_OK \<and>
        rb_inv b' ([] @ chunks (replicate 60 7)))"
proof -
  obtain b where b: "new_RingBuffer True 2 = Inr b" "rb_inv b []" "length (slots b) = 2"
    using rb_inv_new [of 2 True] by auto
  show ?thesis
    using rb_write_release [OF b(2), of "replicate 60 7"] b(1,3) by (auto simp: SlotData_size_def)
qed

text \<open>A full piece trips the assertion of \<^verbatim>\<open>Slot::update\<close> in the Debug build.\<close>

lemma rb_write_piece_debug_full:
  assumes "rb_inv b L" and "length d = SlotData_size"
  shows "rb_write_piece False b d = Inl AssertFailure"
  using assms unat_current_slot [OF assms(1)]
  by (simp add: rb_write_piece_def slot_update_def Let_def)

text \<open>
  The assertion \<^verbatim>\<open>d.size() < sizeof(SlotData)\<close> of \<^verbatim>\<open>Slot::update\<close> is too strict
  by one: in the Debug build the program aborts on exactly those acceptable messages
  that have at least 56 bytes, although the writer itself cuts them into pieces of
  56 bytes; shorter messages are stored as one fragment.
\<close>

theorem rb_write_debug:
  assumes "rb_inv b L" and "m \<noteq> []" and "length m \<le> length (slots b) * SlotData_size"
  shows "if SlotData_size \<le> length m then rb_write False b m = Inl AssertFailure
    else \<exists>b'. rb_write False b m = Inr (Write_OK, b') \<and> rb_inv b' (L @ [m])"
proof (cases "SlotData_size \<le> length m")
  case True
  then show ?thesis
    using rb_write_piece_debug_full [OF assms(1), of "take SlotData_size m"] assms
    by (simp add: rb_write_def write_loop_chunks chunks_nonempty)
next
  case False
  then show ?thesis
    using write_pieces_inv [OF assms(1), of "[m]" False] assms
    by (auto simp: rb_write_def write_loop_chunks chunks_single)
qed

theorem rb_write_debug_witness:
  "\<exists>b. new_RingBuffer False 2 = Inr b \<and> rb_write False b (replicate 56 7) = Inl AssertFailure \<and>
     (\<exists>b'. rb_write False b [1, 2] = Inr (Write_OK, b') \<and> rb_inv b' ([] @ [[1, 2]]))"
proof -
  obtain b where b: "new_RingBuffer False 2 = Inr b" "rb_inv b []" "length (slots b) = 2"
    using rb_inv_new [of 2 False] by auto
  show ?thesis
    using rb_write_debug [OF b(2), of "replicate 56 7"] rb_write_debug [OF b(2), of "[1, 2]"] b(1,3)
    by (auto simp: SlotData_size_def)
qed

end
