(* ===== verification/Ring_Reader.thy ===== *)
theory Ring_Reader
  imports Ring_Buffer
begin

text \<open>
  \<^verbatim>\<open>ReadResult\<close> and \<^verbatim>\<open>RingBufferReader\<close> of
  \<^verbatim>\<open>src/lib/ring_buffer/ring_buffer.h\<close>, run between writes (the interleaved
  execution is in \<open>Ring_Interleaving\<close>). The reader's \<^verbatim>\<open>for(;;)\<close> loop is a
  partial function: \<open>None\<close> is a loop that never ends. The reader is compared with
  an abstract cursor on the log of fragments.
\<close>

section \<open>Results\<close>

datatype Read_Result = Read_OK | NO_DATA | LOSS

text \<open>\<^verbatim>\<open>_result\<close> is indeterminate (\<open>None\<close>) until the first read sets it.\<close>

record ReadResult =
  rr_result :: "Read_Result option"
  rr_data :: "byte list"

definition rr_clear :: "ReadResult \<Rightarrow> ReadResult" where
  "rr_clear rr = rr\<lparr>rr_data := []\<rparr>"

text \<open>\<^verbatim>\<open>ReadResult::append\<close>: a size of 0 stands for a full slot.\<close>

definition rr_append :: "ReadResult \<Rightarrow> byte list \<Rightarrow> u32 \<Rightarrow> ReadResult result" where
  "rr_append rr d n =
     (let k = (if n \<noteq> 0 then unat n else SlotData_size) in
      if length d < k then Inl OutOfBounds
      else Inr (rr\<lparr>rr_data := rr_data rr @ take k d\<rparr>))"

definition rr_set_result :: "ReadResult \<Rightarrow> Read_Result \<Rightarrow> ReadResult" where
  "rr_set_result rr x = rr\<lparr>rr_result := Some x\<rparr>"

section \<open>The reader\<close>

record RingBufferReader =
  expected_sn :: u32
  r_current_slot :: u32
  r_result :: ReadResult

definition new_RingBufferReader :: RingBufferReader where
  "new_RingBufferReader =
     \<lparr>expected_sn = 1, r_current_slot = 0, r_result = \<lparr>rr_result = None, rr_data = []\<rparr>\<rparr>"

definition reader_move_next :: "RingBuffer \<Rightarrow> u32 \<times> u32 \<Rightarrow> u32 \<times> u32" where
  "reader_move_next b w =
     (let n = fst w + 1; cs = snd w + 1
      in (n, if unat cs = length (slots b) then 0 else cs))"

definition finish_read :: "RingBufferReader \<Rightarrow> Read_Result \<Rightarrow> RingBufferReader" where
  "finish_read r x = r\<lparr>r_result := rr_set_result (r_result r) x\<rparr>"

text \<open>
  The \<^verbatim>\<open>for(;;)\<close> of \<^verbatim>\<open>read_next\<close>. As in the code, every iteration looks at
  \<^verbatim>\<open>_slots[_current_slot]\<close>, while only the local pair \<open>w\<close> moves.
\<close>

partial_function (option) read_loop ::
  "RingBuffer \<Rightarrow> u32 \<times> u32 \<Rightarrow> RingBufferReader \<Rightarrow> RingBufferReader result option" where
  "read_loop b w r =
     (if unat (r_current_slot r) < length (slots b) then
        let cslot = slots b ! unat (r_current_slot r);
            h = slot_header cslot
        in if h_sn h = 0 then Some (Inr (finish_read r NO_DATA))
           else if h_sn h \<noteq> expected_sn r then Some (Inr (finish_read r LOSS))
           else (case rr_append (r_result r) (slot_data cslot) (h_sz h) of
                   Inl e \<Rightarrow> Some (Inl e)
                 | Inr rr \<Rightarrow>
                     let r1 = r\<lparr>r_result := rr\<rparr>;
                         w1 = reader_move_next b w;
                         h_now = slot_header cslot
                     in if h_sn h \<noteq> h_sn h_now then Some (Inr (finish_read r1 LOSS))
                        else if h_sz h_now \<noteq> 0 then
                          Some (Inr (finish_read
                            (r1\<lparr>expected_sn := fst w1, r_current_slot := snd w1\<rparr>) Read_OK))
                        else read_loop b w1 r1)
      else Some (Inl OutOfBounds))"

definition read_next :: "RingBuffer \<Rightarrow> RingBufferReader \<Rightarrow> RingBufferReader result option" where
  "read_next b r =
     read_loop b (expected_sn r, r_current_slot r) (r\<lparr>r_result := rr_clear (r_result r)\<rparr>)"

section \<open>A cursor on the log\<close>

definition reader_at :: "nat \<Rightarrow> nat \<Rightarrow> RingBufferReader \<Rightarrow> bool" where
  "reader_at n p r \<longleftrightarrow> expected_sn r = of_nat (Suc p) \<and> r_current_slot r = of_nat (p mod n)"

text \<open>
  What a read at position \<open>p\<close> of the log returns on a ring of \<open>n\<close> slots: the
  result, the bytes, and the next position.
\<close>

definition log_read :: "nat \<Rightarrow> byte list list \<Rightarrow> nat \<Rightarrow> Read_Result \<times> byte list \<times> nat" where
  "log_read n L p =
     (if p < length L \<and> length L \<le> p + n then (Read_OK, L ! p, Suc p)
      else if p = length L \<and> length L < n then (NO_DATA, [], p)
      else (LOSS, [], p))"

lemma reader_at_new: "reader_at n 0 new_RingBufferReader"
  by (simp add: reader_at_def new_RingBufferReader_def)

lemma reader_at_slot:
  assumes "rb_inv b L" and "reader_at (length (slots b)) p r"
  shows "unat (r_current_slot r) = p mod length (slots b)"
    and "p mod length (slots b) < length (slots b)"
proof -
  from assms(1) have pos: "0 < length (slots b)" "length (slots b) \<le> 2 ^ 32"
    by (auto simp: rb_inv_def)
  show lt: "p mod length (slots b) < length (slots b)"
    using pos by simp
  with pos have "p mod length (slots b) < 2 ^ 32" by linarith
  with assms(2) show "unat (r_current_slot r) = p mod length (slots b)"
    by (simp add: reader_at_def unat_of_nat_u32)
qed

lemma reader_move_next_at:
  assumes "rb_inv b L"
  shows "reader_move_next b (of_nat (Suc p), of_nat (p mod length (slots b))) =
     (of_nat (Suc (Suc p)), of_nat (Suc p mod length (slots b)))"
  using assms slot_counter_step [of "length (slots b)" p]
  by (simp add: reader_move_next_def Let_def rb_inv_def cong: if_cong)

section \<open>The three outcomes\<close>

text \<open>The header of the reader's slot decides the first two outcomes at once.\<close>

lemma read_next_no_data:
  assumes "unat (r_current_slot r) < length (slots b)"
    and "h_sn (slot_header (slots b ! unat (r_current_slot r))) = 0"
  shows "read_next b r = Some (Inr (finish_read (r\<lparr>r_result := rr_clear (r_result r)\<rparr>) NO_DATA))"
  using assms by (simp add: read_next_def read_loop.simps Let_def)

lemma read_next_loss:
  assumes "unat (r_current_slot r) < length (slots b)"
    and "h_sn (slot_header (slots b ! unat (r_current_slot r))) \<noteq> 0"
    and "h_sn (slot_header (slots b ! unat (r_current_slot r))) \<noteq> expected_sn r"
  shows "read_next b r = Some (Inr (finish_read (r\<lparr>r_result := rr_clear (r_result r)\<rparr>) LOSS))"
  using assms by (simp add: read_next_def read_loop.simps Let_def)

lemma unat_fragment_size:
  "length f \<le> SlotData_size \<Longrightarrow> unat (of_nat (length f) :: u32) = length f"
  by (simp add: SlotData_size_def unat_of_nat_u32)

lemma read_next_ok:
  assumes inv: "rb_inv b L" and at: "reader_at (length (slots b)) p r"
    and p: "p < length L" "length L \<le> p + length (slots b)" and bound: "length L < 2 ^ 32"
  shows "\<exists>r'. read_next b r = Some (Inr r') \<and> r_result r' = \<lparr>rr_result = Some Read_OK, rr_data = L ! p\<rparr> \<and>
    reader_at (length (slots b)) (Suc p) r'"
proof -
  let ?n = "length (slots b)"
  have "L ! p \<in> set L" using p(1) by simp
  then have f: "0 < length (L ! p)" "length (L ! p) \<le> SlotData_size"
    using inv by (auto simp: rb_inv_def)
  note slot = reader_at_slot [OF inv at]
  note hdr = ring.header_current [OF inv p]
  have len: "length (slot_data (slots b ! (p mod ?n))) = SlotData_size"
    using inv slot(2) by (simp add: rb_inv_def)
  have sz: "h_sz (slot_header (slots b ! (p mod ?n))) \<noteq> 0"
    using f by (simp add: hdr(2) of_nat_u32_eq_0_iff SlotData_size_def)
  have sn: "(of_nat (Suc p) :: u32) \<noteq> 0"
    using p bound by (intro of_nat_Suc_u32_neq_0) linarith
  have "rr_append (rr_clear (r_result r)) (slot_data (slots b ! (p mod ?n)))
      (h_sz (slot_header (slots b ! (p mod ?n)))) =
    Inr ((r_result r)\<lparr>rr_data := L ! p\<rparr>)"
    using sz f len hdr unat_fragment_size [OF f(2)]
    by (simp add: rr_append_def rr_clear_def Let_def)
  then show ?thesis
    using slot hdr sz sn at reader_move_next_at [OF inv, of p]
    by (simp add: read_next_def read_loop.simps Let_def reader_at_def finish_read_def
        rr_set_result_def del: of_nat_Suc)
qed

lemma read_next_lost:
  assumes inv: "rb_inv b L" and at: "reader_at (length (slots b)) p r"
    and hdr: "h_sn (slot_header (slots b ! (p mod length (slots b)))) = of_nat (Suc k)"
    and k: "k \<noteq> p" "Suc k < 2 ^ 32" "Suc p < 2 ^ 32"
  shows "\<exists>r'. read_next b r = Some (Inr r') \<and> r_result r' = \<lparr>rr_result = Some LOSS, rr_data = []\<rparr> \<and>
    reader_at (length (slots b)) p r'"
proof -
  have "(of_nat (Suc k) :: u32) \<noteq> of_nat (Suc p)"
    using of_nat_u32_eq_iff [OF k(2,3)] k(1) by simp
  then have "read_next b r = Some (Inr (finish_read (r\<lparr>r_result := rr_clear (r_result r)\<rparr>) LOSS))"
    using reader_at_slot [OF inv at] hdr at of_nat_Suc_u32_neq_0 [OF k(2)]
    by (intro read_next_loss) (simp_all add: reader_at_def del: of_nat_Suc)
  then show ?thesis
    using at by (simp add: reader_at_def finish_read_def rr_set_result_def rr_clear_def del: of_nat_Suc)
qed

lemma read_next_empty:
  assumes inv: "rb_inv b L" and at: "reader_at (length (slots b)) p r"
    and hdr: "h_sn (slot_header (slots b ! (p mod length (slots b)))) = 0"
  shows "\<exists>r'. read_next b r = Some (Inr r') \<and> r_result r' = \<lparr>rr_result = Some NO_DATA, rr_data = []\<rparr> \<and>
    reader_at (length (slots b)) p r'"
proof -
  have "read_next b r = Some (Inr (finish_read (r\<lparr>r_result := rr_clear (r_result r)\<rparr>) NO_DATA))"
    using reader_at_slot [OF inv at] hdr by (intro read_next_no_data) simp_all
  then show ?thesis
    using at by (simp add: reader_at_def finish_read_def rr_set_result_def rr_clear_def del: of_nat_Suc)
qed

section \<open>Refinement of the log cursor\<close>

text \<open>
  C8: As long as fewer than \<open>2 ^ 32 - 1\<close> fragments have been written,
  \<^verbatim>\<open>RingBufferReader::read_next\<close> always returns and implements the cursor on the log:
  a reader at position \<open>p\<close> gets exactly fragment \<open>p\<close> and moves on while that
  fragment is among the last \<open>n\<close>; it gets \<open>LOSS\<close> and stays when the fragment
  has been overwritten; at the end of the log it gets no data and stays.
\<close>

theorem read_next_refines_log:
  assumes inv: "rb_inv b L" and at: "reader_at (length (slots b)) p r"
    and p: "p \<le> length L" and bound: "Suc (length L) < 2 ^ 32"
  shows "\<exists>r'. read_next b r = Some (Inr r') \<and>
    (case log_read (length (slots b)) L p of (x, d, q) \<Rightarrow>
       r_result r' = \<lparr>rr_result = Some x, rr_data = d\<rparr> \<and> reader_at (length (slots b)) q r')"
proof -
  let ?n = "length (slots b)"
  consider (ok) "p < length L" "length L \<le> p + ?n"
    | (over) "p + ?n < length L"
    | (empty) "p = length L" "length L < ?n"
    | (lap) "p = length L" "?n \<le> length L"
    using p by linarith
  then show ?thesis
  proof cases
    case ok
    then show ?thesis
      using read_next_ok [OF inv at ok] bound by (simp add: log_read_def)
  next
    case over
    obtain k where "p < k" "k < length L" "h_sn (slot_header (slots b ! (p mod ?n))) = of_nat (Suc k)"
      using ring.header_overtaken [OF inv over] by blast
    then show ?thesis
      using read_next_lost [OF inv at, of k] over bound by (simp add: log_read_def del: of_nat_Suc)
  next
    case empty
    then show ?thesis
      using read_next_empty [OF inv at] ring.header_caught_up(1) [OF inv] inv
      by (simp add: log_read_def no_header_def)
  next
    case lap
    have "0 < ?n" using inv by (simp add: rb_inv_def)
    then have "length L - ?n \<noteq> p" "Suc (length L - ?n) < 2 ^ 32"
      using lap bound by linarith+
    then show ?thesis
      using read_next_lost [OF inv at, of "length L - ?n"] ring.header_caught_up(2) [OF inv lap(2)] lap bound
      by (simp add: log_read_def del: of_nat_Suc)
  qed
qed

text \<open>A concrete ring for the witnesses: two slots, one message of one byte.\<close>

lemma small_ring:
  obtains b where "new_RingBuffer True 2 = Inr b" and "rb_inv b []" and "length (slots b) = 2"
  using rb_inv_new [of 2 True] by auto

theorem read_next_refines_log_witness:
  "\<exists>b b' r'. new_RingBuffer True 2 = Inr b \<and> rb_write True b [42] = Inr (Write_OK, b') \<and>
     read_next b' new_RingBufferReader = Some (Inr r') \<and>
     r_result r' = \<lparr>rr_result = Some Read_OK, rr_data = [42]\<rparr>"
proof -
  obtain b where b: "new_RingBuffer True 2 = Inr b" "rb_inv b []" "length (slots b) = 2"
    by (rule small_ring)
  obtain b' where b': "rb_write True b [42] = Inr (Write_OK, b')" "rb_inv b' [[42]]" "length (slots b') = 2"
    using write_pieces_inv [OF b(2), of "[[42]]" True] b(3)
    by (auto simp: rb_write_def write_loop_chunks chunks_single SlotData_size_def)
  show ?thesis
    using read_next_refines_log [OF b'(2) reader_at_new] b(1) b'(1,3) by (auto simp: log_read_def)
qed

text \<open>
  A reader that has read everything reports \<open>NO_DATA\<close> only during the first lap.
  Once the ring has been filled (\<open>n\<close> or more fragments), the slot after the last
  fragment still holds the fragment written one lap earlier, so a reader that has missed
  nothing is told \<open>LOSS\<close>; the next fragment written is nevertheless delivered to it.
\<close>

theorem read_next_spurious_loss:
  assumes inv: "rb_inv b L" and at: "reader_at (length (slots b)) (length L) r"
    and lap: "length (slots b) \<le> length L" and bound: "Suc (Suc (length L)) < 2 ^ 32"
    and f: "0 < length f" "length f \<le> SlotData_size"
  shows "\<exists>r1 b' r2. read_next b r = Some (Inr r1) \<and> rr_result (r_result r1) = Some LOSS \<and>
     rb_write_piece True b f = Inr b' \<and>
     read_next b' r1 = Some (Inr r2) \<and> r_result r2 = \<lparr>rr_result = Some Read_OK, rr_data = f\<rparr>"
proof -
  have n: "0 < length (slots b)" using inv by (simp add: rb_inv_def)
  obtain k where k: "k < length L" "h_sn (slot_header (slots b ! (length L mod length (slots b)))) = of_nat (Suc k)"
    using ring.header_caught_up(2) [OF inv lap] lap n by (metis diff_less order_less_le_trans)
  obtain r1 where r1: "read_next b r = Some (Inr r1)" "rr_result (r_result r1) = Some LOSS"
      "reader_at (length (slots b)) (length L) r1"
    using read_next_lost [OF inv at k(2)] k(1) bound by auto
  obtain b' where b': "rb_write_piece True b f = Inr b'" "rb_inv b' (L @ [f])"
      "length (slots b') = length (slots b)"
    using rb_write_piece_inv [OF inv f] by auto
  have "reader_at (length (slots b')) (length L) r1" using r1(3) b'(3) by simp
  from read_next_ok [OF b'(2) this] obtain r2 where
    "read_next b' r1 = Some (Inr r2)" "r_result r2 = \<lparr>rr_result = Some Read_OK, rr_data = f\<rparr>"
    using bound n b'(3) by auto
  with r1 b'(1) show ?thesis by blast
qed

theorem read_next_spurious_loss_witness:
  "\<exists>b r1 b' r2. rb_inv b [[1], [2]] \<and> length (slots b) = 2 \<and>
     read_next b \<lparr>expected_sn = 3, r_current_slot = 0, r_result = \<lparr>rr_result = None, rr_data = []\<rparr>\<rparr> = Some (Inr r1) \<and>
     rr_result (r_result r1) = Some LOSS \<and> rb_write_piece True b [3] = Inr b' \<and>
     read_next b' r1 = Some (Inr r2) \<and> r_result r2 = \<lparr>rr_result = Some Read_OK, rr_data = [3]\<rparr>"
proof -
  obtain b0 where b0: "new_RingBuffer True 2 = Inr b0" "rb_inv b0 []" "length (slots b0) = 2"
    by (rule small_ring)
  obtain b where b: "rb_inv b [[1], [2]]" "length (slots b) = 2"
    using write_pieces_inv [OF b0(2), of "[[1], [2]]" True] b0(3) by (auto simp: SlotData_size_def)
  have at: "reader_at (length (slots b)) (length [[1], [2 :: byte]])
      \<lparr>expected_sn = 3, r_current_slot = 0, r_result = \<lparr>rr_result = None, rr_data = []\<rparr>\<rparr>"
    by (simp add: reader_at_def b(2))
  show ?thesis
    using read_next_spurious_loss [OF b(1) at, of "[3]"] b by (auto simp: SlotData_size_def)
qed

section \<open>Loss is permanent\<close>

text \<open>
  \<open>LOSS\<close> does not resynchronise the reader. Once a reader has been overtaken
  (its fragment is overwritten), every later read returns \<open>LOSS\<close> again and leaves
  the position where it was, whatever else is written, until the 32-bit sequence
  numbers are used up.
\<close>

theorem read_next_loss_is_permanent:
  assumes inv: "rb_inv b L" and at: "reader_at (length (slots b)) p r"
    and over: "p + length (slots b) < length L"
    and ds: "\<forall>d\<in>set ds. 0 < length d \<and> length d \<le> SlotData_size"
    and bound: "Suc (length L + length ds) < 2 ^ 32"
  shows "\<exists>b' r'. for_each (\<lambda>d b. rb_write_piece True b d) ds b = Inr b' \<and>
     read_next b' r = Some (Inr r') \<and> rr_result (r_result r') = Some LOSS \<and>
     expected_sn r' = expected_sn r \<and> r_current_slot r' = r_current_slot r"
proof -
  obtain b' where b': "for_each (\<lambda>d b. rb_write_piece True b d) ds b = Inr b'"
      "rb_inv b' (L @ ds)" "length (slots b') = length (slots b)"
    using write_pieces_inv [OF inv, of ds True] ds by auto
  have over': "p + length (slots b') < length (L @ ds)" using over b'(3) by simp
  have at': "reader_at (length (slots b')) p r" using at b'(3) by simp
  obtain k where k: "p < k" "k < length (L @ ds)"
      "h_sn (slot_header (slots b' ! (p mod length (slots b')))) = of_nat (Suc k)"
    using ring.header_overtaken [OF b'(2) over'] by blast
  have "k \<noteq> p" "Suc k < 2 ^ 32" "Suc p < 2 ^ 32"
    using k(1,2) bound by auto
  from read_next_lost [OF b'(2) at' k(3) this] obtain r' where
    "read_next b' r = Some (Inr r')" "r_result r' = \<lparr>rr_result = Some LOSS, rr_data = []\<rparr>"
    "reader_at (length (slots b')) p r'" by blast
  then show ?thesis using b'(1) at' by (simp add: reader_at_def)
qed

theorem read_next_loss_is_permanent_witness:
  "\<exists>b b' r'. rb_inv b [[1], [2], [3]] \<and>
     for_each (\<lambda>d b. rb_write_piece True b d) [[4], [5]] b = Inr b' \<and>
     read_next b' new_RingBufferReader = Some (Inr r') \<and> rr_result (r_result r') = Some LOSS"
proof -
  obtain b0 where b0: "new_RingBuffer True 2 = Inr b0" "rb_inv b0 []" "length (slots b0) = 2"
    by (rule small_ring)
  obtain b where b: "rb_inv b [[1], [2], [3]]" "length (slots b) = 2"
    using write_pieces_inv [OF b0(2), of "[[1], [2], [3]]" True] b0(3) by (auto simp: SlotData_size_def)
  show ?thesis
    using read_next_loss_is_permanent [OF b(1) reader_at_new, of "[[4], [5]]"] b
    by (auto simp: SlotData_size_def simp del: for_each.simps)
qed

section \<open>Round trip\<close>

text \<open>A client that reads \<open>k\<close> times and expects data each time.\<close>

fun read_oks :: "nat \<Rightarrow> RingBuffer \<Rightarrow> RingBufferReader \<Rightarrow> (byte list list \<times> RingBufferReader) option" where
  "read_oks 0 b r = Some ([], r)"
| "read_oks (Suc k) b r =
     (case read_next b r of
        Some (Inr r1) \<Rightarrow>
          (if rr_result (r_result r1) = Some Read_OK
           then map_option (\<lambda>(ds, r2). (rr_data (r_result r1) # ds, r2)) (read_oks k b r1)
           else None)
      | _ \<Rightarrow> None)"

lemma read_oks_segment:
  assumes inv: "rb_inv b L" and at: "reader_at (length (slots b)) p r"
    and p: "p + k \<le> length L" "length L \<le> p + length (slots b)" and bound: "length L < 2 ^ 32"
  shows "\<exists>r'. read_oks k b r = Some (take k (drop p L), r') \<and> reader_at (length (slots b)) (p + k) r'"
  using at p
proof (induction k arbitrary: p r)
  case 0
  then show ?case by simp
next
  case (Suc k)
  have lt: "p < length L" using Suc.prems(2) by simp
  from read_next_ok [OF inv Suc.prems(1) lt Suc.prems(3) bound] obtain r1 where r1:
    "read_next b r = Some (Inr r1)" "r_result r1 = \<lparr>rr_result = Some Read_OK, rr_data = L ! p\<rparr>"
    "reader_at (length (slots b)) (Suc p) r1" by blast
  from Suc.IH [OF r1(3)] Suc.prems obtain r2 where
    "read_oks k b r1 = Some (take k (drop (Suc p) L), r2)" "reader_at (length (slots b)) (Suc p + k) r2"
    by auto
  with r1 lt show ?case
    by (simp add: Cons_nth_drop_Suc [OF lt, symmetric])
qed

lemma length_chunks_le:
  assumes "length m \<le> n * SlotData_size"
  shows "length (chunks m) \<le> n"
proof -
  have "(length m + SlotData_size - 1) div SlotData_size \<le> (n * SlotData_size + SlotData_size - 1) div SlotData_size"
    using assms by (intro div_le_mono) simp
  also have "\<dots> = n" by (simp add: SlotData_size_def)
  finally show ?thesis by (simp add: length_chunks)
qed

text \<open>
  C34: A message written to the ring comes back: a reader that was at the end of the log
  gets, with as many reads as the message has fragments (its length divided by 56,
  rounded up), the fragments in order, all with result \<open>OK\<close>, and their concatenation
  is the message. In particular a message of at most 56 bytes takes one read, and a
  longer one is never returned by a single read.
\<close>

theorem write_read_roundtrip:
  assumes inv: "rb_inv b L" and at: "reader_at (length (slots b)) (length L) r"
    and m: "m \<noteq> []" "length m \<le> length (slots b) * SlotData_size"
    and bound: "length L + length (slots b) < 2 ^ 32"
  shows "\<exists>b' ds r'. rb_write True b m = Inr (Write_OK, b') \<and>
     read_oks ((length m + 55) div 56) b' r = Some (ds, r') \<and> concat ds = m \<and>
     length ds = (length m + 55) div 56 \<and>
     reader_at (length (slots b)) (length L + length ds) r'"
proof -
  obtain b' where b': "rb_write True b m = Inr (Write_OK, b')" "rb_inv b' (L @ chunks m)"
      "length (slots b') = length (slots b)"
    using write_pieces_inv [OF inv, of "chunks m" True] chunks_size m
    by (fastforce simp: rb_write_def write_loop_chunks)
  have k: "length (chunks m) = (length m + 55) div 56"
    by (simp add: length_chunks SlotData_size_def)
  have le: "length (chunks m) \<le> length (slots b)"
    using m(2) by (rule length_chunks_le)
  have at': "reader_at (length (slots b')) (length L) r" using at b'(3) by simp
  obtain r' where "read_oks (length (chunks m)) b' r = Some (chunks m, r')"
      "reader_at (length (slots b)) (length L + length (chunks m)) r'"
    using read_oks_segment [OF b'(2) at', of "length (chunks m)"] le bound b'(3) by auto
  then show ?thesis
    using b'(1) concat_chunks [of m] unfolding k by (metis k)
qed

theorem write_read_roundtrip_witness:
  "\<exists>b b' ds r'. new_RingBuffer True 2 = Inr b \<and> rb_write True b (replicate 60 7) = Inr (Write_OK, b') \<and>
     read_oks 2 b' new_RingBufferReader = Some (ds, r') \<and> concat ds = replicate 60 7 \<and> length ds = 2"
proof -
  obtain b where b: "new_RingBuffer True 2 = Inr b" "rb_inv b []" "length (slots b) = 2"
    by (rule small_ring)
  have at: "reader_at (length (slots b)) (length ([] :: byte list list)) new_RingBufferReader"
    using reader_at_new by simp
  have m: "replicate 60 (7 :: byte) \<noteq> []" "length (replicate 60 (7 :: byte)) \<le> length (slots b) * SlotData_size"
    "length ([] :: byte list list) + length (slots b) < 2 ^ 32"
    by (simp_all add: b(3) SlotData_size_def)
  have k: "(length (replicate 60 (7 :: byte)) + 55) div 56 = 2" by simp
  from write_read_roundtrip [OF b(2) at m] b(1) show ?thesis unfolding k by blast
qed

section \<open>The edges: sequence number 0 and size 0\<close>

text \<open>
  C39: The sequence number is 32 bits wide and starts at 1, so fragment number
  \<open>2 ^ 32 - 1\<close> (counting from 0) is stored under sequence number 0, the mark of an
  unused slot. A reader whose next fragment it is finds it in its slot but is told
  \<open>NO_DATA\<close>, and its position does not move.
\<close>

theorem sequence_number_wraps_to_no_data:
  assumes inv: "rb_inv b L" and p: "p = 2 ^ 32 - 1" and at: "reader_at (length (slots b)) p r"
    and kept: "p < length L" "length L \<le> p + length (slots b)"
  shows "take (length (L ! p)) (slot_data (slots b ! (p mod length (slots b)))) = L ! p \<and>
    (\<exists>r'. read_next b r = Some (Inr r') \<and> r_result r' = \<lparr>rr_result = Some NO_DATA, rr_data = []\<rparr> \<and>
       expected_sn r' = expected_sn r \<and> r_current_slot r' = r_current_slot r)"
proof -
  note hdr = ring.header_current [OF inv kept]
  have "(of_nat (Suc p) :: u32) = 0" unfolding p by simp
  then obtain r' where "read_next b r = Some (Inr r')"
      "r_result r' = \<lparr>rr_result = Some NO_DATA, rr_data = []\<rparr>" "reader_at (length (slots b)) p r'"
    using read_next_empty [OF inv at] hdr(1) by auto
  with hdr(3) at show ?thesis by (simp add: reader_at_def)
qed

theorem sequence_number_wraps_to_no_data_witness:
  "\<exists>b L r'. rb_inv b L \<and> length L = 2 ^ 32 \<and>
     read_next b \<lparr>expected_sn = 0, r_current_slot = 0, r_result = \<lparr>rr_result = None, rr_data = []\<rparr>\<rparr> = Some (Inr r') \<and>
     rr_result (r_result r') = Some NO_DATA"
proof -
  obtain b0 where b0: "rb_inv b0 []" "length (slots b0) = 1"
    using rb_inv_new [of 1 True] by auto
  obtain L :: "byte list list" where L: "length L = 2 ^ 32" "\<forall>d\<in>set L. d = [0]"
    by (metis Ex_list_of_length in_set_replicate length_replicate)
  have ok: "\<forall>d\<in>set L. 0 < length d \<and> length d \<le> SlotData_size \<and> (True \<or> length d < SlotData_size)"
    using L(2) by (auto simp: SlotData_size_def)
  obtain b where b: "rb_inv b L" "length (slots b) = 1"
    using write_pieces_inv [OF b0(1) ok] b0(2) by auto
  have at: "reader_at (length (slots b)) (2 ^ 32 - 1)
      \<lparr>expected_sn = 0, r_current_slot = 0, r_result = \<lparr>rr_result = None, rr_data = []\<rparr>\<rparr>"
    by (simp add: reader_at_def b(2))
  have kept: "2 ^ 32 - 1 < length L" "length L \<le> 2 ^ 32 - 1 + length (slots b)"
    by (simp_all add: L(1) b(2))
  from sequence_number_wraps_to_no_data [OF b(1) refl at kept] b(1) L(1)
  obtain r' where "read_next b \<lparr>expected_sn = 0, r_current_slot = 0,
        r_result = \<lparr>rr_result = None, rr_data = []\<rparr>\<rparr> = Some (Inr r')"
      "r_result r' = \<lparr>rr_result = Some NO_DATA, rr_data = []\<rparr>" by blast
  with b(1) L(1) show ?thesis by (metis ReadResult.select_convs(1))
qed

definition stuck_slot :: "RingBuffer \<Rightarrow> RingBufferReader \<Rightarrow> bool" where
  "stuck_slot b r \<longleftrightarrow> unat (r_current_slot r) < length (slots b) \<and>
     (let s = slots b ! unat (r_current_slot r) in
        h_sn (slot_header s) \<noteq> 0 \<and> h_sn (slot_header s) = expected_sn r \<and>
        h_sz (slot_header s) = 0 \<and> SlotData_size \<le> length (slot_data s))"

lemma read_loop_stuck: "stuck_slot b r \<Longrightarrow> read_loop b w r = None"
proof (rule ccontr)
  assume stuck: "stuck_slot b r" and "read_loop b w r \<noteq> None"
  then obtain y where y: "read_loop b w r = Some y" by auto
  have "\<not> stuck_slot b r"
  proof (rule read_loop.raw_induct [where P = "\<lambda>b w r y. \<not> stuck_slot b r", OF _ y])
    fix f b w r y
    assume IH: "\<And>b w r y. f b w r = Some y \<Longrightarrow> \<not> stuck_slot b r"
      and eq: "(if unat (r_current_slot r) < length (slots b) then
        let cslot = slots b ! unat (r_current_slot r);
            h = slot_header cslot
        in if h_sn h = 0 then Some (Inr (finish_read r NO_DATA))
           else if h_sn h \<noteq> expected_sn r then Some (Inr (finish_read r LOSS))
           else (case rr_append (r_result r) (slot_data cslot) (h_sz h) of
                   Inl e \<Rightarrow> Some (Inl e)
                 | Inr rr \<Rightarrow>
                     let r1 = r\<lparr>r_result := rr\<rparr>;
                         w1 = reader_move_next b w;
                         h_now = slot_header cslot
                     in if h_sn h \<noteq> h_sn h_now then Some (Inr (finish_read r1 LOSS))
                        else if h_sz h_now \<noteq> 0 then
                          Some (Inr (finish_read
                            (r1\<lparr>expected_sn := fst w1, r_current_slot := snd w1\<rparr>) Read_OK))
                        else f b w1 r1)
      else Some (Inl OutOfBounds)) = Some y"
    show "\<not> stuck_slot b r"
    proof
      assume s: "stuck_slot b r"
      let ?s = "slots b ! unat (r_current_slot r)"
      from s have "unat (r_current_slot r) < length (slots b)" "expected_sn r \<noteq> 0"
        "h_sn (slot_header ?s) = expected_sn r" "h_sz (slot_header ?s) = 0"
        "SlotData_size \<le> length (slot_data ?s)"
        unfolding stuck_slot_def Let_def by metis+
      then have "f b (reader_move_next b w) (r\<lparr>r_result := (r_result r)\<lparr>rr_data :=
          rr_data (r_result r) @ take SlotData_size (slot_data (slots b ! unat (r_current_slot r)))\<rparr>\<rparr>) = Some y"
        using eq by (simp add: Let_def rr_append_def)
      from IH [OF this] s show False by (auto simp: stuck_slot_def Let_def)
    qed
  qed
  with stuck show False by simp
qed

text \<open>
  The loop of \<^verbatim>\<open>read_next\<close> looks at \<^verbatim>\<open>_slots[_current_slot]\<close> in every
  iteration although only the local copies \<^verbatim>\<open>w_esn\<close>, \<^verbatim>\<open>w_cs\<close> advance. A slot with
  the expected sequence number and size 0, which \<^verbatim>\<open>append\<close> treats as a full,
  non-final slot, therefore makes it loop forever. The writer never stores such a header:
  on every ring it produces the loop returns (see the refinement above).
\<close>

theorem read_next_diverges_on_size_0:
  "stuck_slot b r \<Longrightarrow> read_next b r = None"
  unfolding read_next_def by (rule read_loop_stuck) (simp add: stuck_slot_def)

theorem read_next_diverges_on_size_0_witness:
  "read_next \<lparr>current_slot = 0, current_sn = 2,
      slots = [\<lparr>slot_header = \<lparr>h_sn = 1, h_sz = 0\<rparr>, slot_data = replicate 56 0\<rparr>]\<rparr>
     new_RingBufferReader = None"
  by (rule read_next_diverges_on_size_0)
    (simp add: stuck_slot_def new_RingBufferReader_def SlotData_size_def)

end
