(* ===== verification/Ring_Interleaving.thy ===== *)
theory Ring_Interleaving
  imports Ring_Reader
begin

text \<open>
  The ring under concurrency: one writer and any number of readers
  (\<^verbatim>\<open>src/lib/ring_buffer/ring_buffer.h\<close>), interleaved at the level of single
  header loads and stores and single byte copies, on sequentially consistent memory.
  The writer's private counters change together with its final header store. Ghost
  fields record the messages accepted, the fragments published, and the data each
  reader has been handed.
\<close>

section \<open>Threads\<close>

datatype writer_pc = W_Idle | W_Copy nat

datatype reader_pc = R_Idle | R_Load | R_Copy SlotHeader "byte list" | R_Check SlotHeader

record reader_thread =
  rt_reader :: RingBufferReader
  rt_pc :: reader_pc
  rt_w :: "u32 \<times> u32"
  rt_got :: "byte list list"

record ring_sys =
  ring :: RingBuffer
  w_pc :: writer_pc
  w_pending :: "byte list list"
  readers :: "nat \<Rightarrow> reader_thread"
  g_msgs :: "byte list list"
  g_log :: "byte list list"

text \<open>
  The writer inside \<^verbatim>\<open>RingBuffer::write\<close>: \<open>w_pending\<close> are the fragments of the
  message still to be stored. For each, \<^verbatim>\<open>Slot::update\<close> clears the header, copies
  the bytes one by one, and stores the new header; then \<^verbatim>\<open>move_next\<close>.
\<close>

definition writer_step :: "ring_sys \<Rightarrow> ring_sys result" where
  "writer_step s =
     (let b = ring s; i = unat (current_slot b) in
      if \<not> i < length (slots b) then Inl OutOfBounds
      else case w_pending s of
        [] \<Rightarrow> Inr s
      | d # ds \<Rightarrow>
          (case w_pc s of
             W_Idle \<Rightarrow>
               Inr (s\<lparr>ring := b\<lparr>slots := (slots b)[i := (slots b ! i)\<lparr>slot_header := no_header\<rparr>]\<rparr>,
                      w_pc := W_Copy 0\<rparr>)
           | W_Copy k \<Rightarrow>
               if k < length d then
                 if k < length (slot_data (slots b ! i)) then
                   Inr (s\<lparr>ring := b\<lparr>slots := (slots b)[i :=
                            (slots b ! i)\<lparr>slot_data := (slot_data (slots b ! i))[k := d ! k]\<rparr>]\<rparr>,
                          w_pc := W_Copy (Suc k)\<rparr>)
                 else Inl OutOfBounds
               else
                 Inr (s\<lparr>ring := rb_move_next (b\<lparr>slots := (slots b)[i :=
                          (slots b ! i)\<lparr>slot_header :=
                             \<lparr>h_sn = current_sn b, h_sz = of_nat (length d)\<rparr>\<rparr>]\<rparr>),
                        w_pc := W_Idle, w_pending := ds, g_log := g_log s @ [d]\<rparr>)))"

text \<open>
  A reader inside \<^verbatim>\<open>RingBufferReader::read_next\<close>: load the header, copy the bytes
  one by one, load the header again.
\<close>

definition copy_size :: "SlotHeader \<Rightarrow> nat" where
  "copy_size h = (if h_sz h \<noteq> 0 then unat (h_sz h) else SlotData_size)"

definition end_read :: "reader_thread \<Rightarrow> Read_Result \<Rightarrow> reader_thread" where
  "end_read t x = t\<lparr>rt_reader := finish_read (rt_reader t) x, rt_pc := R_Idle\<rparr>"

definition reader_step :: "RingBuffer \<Rightarrow> reader_thread \<Rightarrow> reader_thread result" where
  "reader_step b t =
     (let r = rt_reader t; i = unat (r_current_slot r); cslot = slots b ! i; h_now = slot_header cslot in
      if \<not> i < length (slots b) then Inl OutOfBounds
      else case rt_pc t of
        R_Idle \<Rightarrow>
          Inr (t\<lparr>rt_reader := r\<lparr>r_result := rr_clear (r_result r)\<rparr>,
                 rt_w := (expected_sn r, r_current_slot r), rt_pc := R_Load\<rparr>)
      | R_Load \<Rightarrow>
          if h_sn h_now = 0 then Inr (end_read t NO_DATA)
          else if h_sn h_now \<noteq> expected_sn r then Inr (end_read t LOSS)
          else Inr (t\<lparr>rt_pc := R_Copy h_now []\<rparr>)
      | R_Copy h buf \<Rightarrow>
          if length buf < copy_size h then
            if length buf < length (slot_data cslot) then
              Inr (t\<lparr>rt_pc := R_Copy h (buf @ [slot_data cslot ! length buf])\<rparr>)
            else Inl OutOfBounds
          else
            Inr (t\<lparr>rt_reader := r\<lparr>r_result := (r_result r)\<lparr>rr_data := rr_data (r_result r) @ buf\<rparr>\<rparr>,
                   rt_w := reader_move_next b (rt_w t), rt_pc := R_Check h\<rparr>)
      | R_Check h \<Rightarrow>
          if h_sn h \<noteq> h_sn h_now then Inr (end_read t LOSS)
          else if h_sz h_now \<noteq> 0 then
            Inr ((end_read (t\<lparr>rt_reader := r\<lparr>expected_sn := fst (rt_w t), r_current_slot := snd (rt_w t)\<rparr>\<rparr>) Read_OK)
                   \<lparr>rt_got := rt_got t @ [rr_data (r_result r)]\<rparr>)
          else Inr (t\<lparr>rt_pc := R_Load\<rparr>))"

section \<open>Interleaving\<close>

definition new_reader_thread :: reader_thread where
  "new_reader_thread = \<lparr>rt_reader = new_RingBufferReader, rt_pc = R_Idle, rt_w = (0, 0), rt_got = []\<rparr>"

definition new_ring_sys :: "RingBuffer \<Rightarrow> ring_sys" where
  "new_ring_sys b = \<lparr>ring = b, w_pc = W_Idle, w_pending = [], readers = (\<lambda>_. new_reader_thread),
     g_msgs = [], g_log = []\<rparr>"

text \<open>
  A step is a call of \<^verbatim>\<open>write\<close> that accepts a message, a step of the writer inside
  such a call, or a step of some reader.
\<close>

inductive ring_step :: "ring_sys \<Rightarrow> ring_sys \<Rightarrow> bool" where
  call_write: "w_pending s = [] \<Longrightarrow> w_pc s = W_Idle \<Longrightarrow> m \<noteq> [] \<Longrightarrow>
     length m \<le> length (slots (ring s)) * SlotData_size \<Longrightarrow>
     ring_step s (s\<lparr>w_pending := chunks m, g_msgs := g_msgs s @ [m]\<rparr>)"
| writer: "w_pending s \<noteq> [] \<Longrightarrow> writer_step s = Inr s' \<Longrightarrow> ring_step s s'"
| reader: "reader_step (ring s) (readers s i) = Inr t \<Longrightarrow>
     ring_step s (s\<lparr>readers := (readers s)(i := t)\<rparr>)"

inductive_simps ring_step_iff: "ring_step s s'"

definition ring_init :: "nat \<Rightarrow> ring_sys \<Rightarrow> bool" where
  "ring_init n s \<longleftrightarrow> (\<exists>b. new_RingBuffer True n = Inr b \<and> s = new_ring_sys b)"

definition ring_reachable :: "nat \<Rightarrow> ring_sys \<Rightarrow> bool" where
  "ring_reachable n s \<longleftrightarrow> 0 < n \<and> n \<le> 2 ^ 32 \<and> (\<exists>s0. ring_init n s0 \<and> ring_step\<^sup>*\<^sup>* s0 s)"

text \<open>The 32-bit sequence numbers are not used up yet.\<close>

definition sn_left :: "ring_sys \<Rightarrow> bool" where
  "sn_left s \<longleftrightarrow> Suc (length (g_log s)) < 2 ^ 32"

section \<open>Invariant\<close>

text \<open>
  \<open>begun\<close> counts the fragments whose slot has been cleared. The slots hold exactly the
  published fragments that no later one has begun to overwrite; all others are blank.
\<close>

definition begun :: "ring_sys \<Rightarrow> nat" where
  "begun s = length (g_log s) + (case w_pc s of W_Idle \<Rightarrow> 0 | W_Copy _ \<Rightarrow> 1)"

definition win :: "RingBuffer \<Rightarrow> byte list list \<Rightarrow> nat \<Rightarrow> bool" where
  "win b L B \<longleftrightarrow>
     (\<forall>k<length L. B \<le> k + length (slots b) \<longrightarrow>
        slot_holds (slots b ! (k mod length (slots b))) k (L ! k)) \<and>
     (\<forall>j<length (slots b). (\<forall>k<length L. B \<le> k + length (slots b) \<longrightarrow> k mod length (slots b) \<noteq> j) \<longrightarrow>
        slot_header (slots b ! j) = no_header)"

definition writer_inv :: "ring_sys \<Rightarrow> bool" where
  "writer_inv s \<longleftrightarrow>
     (case w_pc s of
        W_Idle \<Rightarrow> True
      | W_Copy i \<Rightarrow> (\<exists>d ds. w_pending s = d # ds \<and> i \<le> length d \<and>
          take i (slot_data (slots (ring s) ! unat (current_slot (ring s)))) = take i d))"

definition shape_inv :: "nat \<Rightarrow> ring_sys \<Rightarrow> bool" where
  "shape_inv n s \<longleftrightarrow>
     0 < n \<and> n \<le> 2 ^ 32 \<and> length (slots (ring s)) = n \<and>
     (\<forall>x\<in>set (slots (ring s)). length (slot_data x) = SlotData_size) \<and>
     (\<forall>f\<in>set (g_log s @ w_pending s). 0 < length f \<and> length f \<le> SlotData_size) \<and>
     current_sn (ring s) = of_nat (Suc (length (g_log s))) \<and>
     current_slot (ring s) = of_nat (length (g_log s) mod n) \<and>
     concat (map chunks (g_msgs s)) = g_log s @ w_pending s"

definition reader_inv :: "nat \<Rightarrow> byte list list \<Rightarrow> nat \<Rightarrow> reader_thread \<Rightarrow> bool" where
  "reader_inv n L B t \<longleftrightarrow>
     (let p = length (rt_got t); r = rt_reader t in
      p \<le> length L \<and> rt_got t = take p L \<and> reader_at n p r \<and>
      (case rt_pc t of
         R_Idle \<Rightarrow> True
       | R_Load \<Rightarrow> rr_data (r_result r) = [] \<and> rt_w t = (expected_sn r, r_current_slot r)
       | R_Copy h buf \<Rightarrow>
           rr_data (r_result r) = [] \<and> rt_w t = (expected_sn r, r_current_slot r) \<and>
           p < length L \<and> h = \<lparr>h_sn = of_nat (Suc p), h_sz = of_nat (length (L ! p))\<rparr> \<and>
           length buf \<le> length (L ! p) \<and> (B \<le> p + n \<longrightarrow> buf = take (length buf) (L ! p))
       | R_Check h \<Rightarrow>
           rt_w t = (of_nat (Suc (Suc p)), of_nat (Suc p mod n)) \<and>
           p < length L \<and> h = \<lparr>h_sn = of_nat (Suc p), h_sz = of_nat (length (L ! p))\<rparr> \<and>
           (B \<le> p + n \<longrightarrow> rr_data (r_result r) = L ! p)))"

definition sys_inv :: "nat \<Rightarrow> ring_sys \<Rightarrow> bool" where
  "sys_inv n s \<longleftrightarrow> shape_inv n s \<and> writer_inv s \<and> win (ring s) (g_log s) (begun s) \<and>
     (\<forall>i. reader_inv n (g_log s) (begun s) (readers s i))"

section \<open>Readers keep the invariant\<close>

lemma win_retained:
  "win b L B \<Longrightarrow> k < length L \<Longrightarrow> B \<le> k + length (slots b) \<Longrightarrow>
     slot_holds (slots b ! (k mod length (slots b))) k (L ! k)"
  by (simp add: win_def)

lemma win_header_match:
  assumes win: "win b L B" and p: "p \<le> length L" and bound: "Suc (length L) < 2 ^ 32"
    and n: "0 < length (slots b)"
    and sn: "h_sn (slot_header (slots b ! (p mod length (slots b)))) = of_nat (Suc p)"
  shows "p < length L" and "B \<le> p + length (slots b)"
    and "slot_holds (slots b ! (p mod length (slots b))) p (L ! p)"
proof -
  let ?n = "length (slots b)"
  have "slot_header (slots b ! (p mod ?n)) \<noteq> no_header"
    using sn p bound of_nat_Suc_u32_neq_0 [of p] by (auto simp: no_header_def)
  then obtain k where k: "k < length L" "B \<le> k + ?n" "k mod ?n = p mod ?n"
    using win n unfolding win_def by (metis mod_less_divisor)
  have "h_sn (slot_header (slots b ! (p mod ?n))) = of_nat (Suc k)"
    using win_retained [OF win k(1,2)] k(3) by (simp add: slot_holds_def)
  then have "k = p"
    using sn of_nat_u32_eq_iff [of "Suc k" "Suc p"] k(1) p bound by simp
  with k win_retained [OF win k(1,2)]
  show "p < length L" "B \<le> p + ?n" "slot_holds (slots b ! (p mod ?n)) p (L ! p)"
    by simp_all
qed

lemma reader_inv_mono:
  assumes "reader_inv n L B t" and "B \<le> B'"
  shows "reader_inv n (L @ M) B' t"
  using assms
  by (cases "rt_pc t") (auto simp: reader_inv_def Let_def nth_append)

lemma reader_at_unat:
  assumes "0 < n" and "n \<le> 2 ^ 32" and "reader_at n p r"
  shows "unat (r_current_slot r) = p mod n"
proof -
  have "p mod n < n" using assms(1) by simp
  then have "p mod n < 2 ^ 32" using assms(2) by linarith
  then show ?thesis using assms(3) by (simp add: reader_at_def unat_of_nat_u32)
qed

lemma reader_at_finish [simp]: "reader_at n p (finish_read r x) = reader_at n p r"
  by (simp add: reader_at_def finish_read_def)

lemma reader_at_result [simp]: "reader_at n p (r\<lparr>r_result := x\<rparr>) = reader_at n p r"
  by (simp add: reader_at_def)

lemma reader_inv_end_read:
  "reader_inv n L B t \<Longrightarrow> reader_inv n L B (end_read t x)"
  by (simp add: reader_inv_def end_read_def Let_def)

text \<open>What a reader step relies on.\<close>

definition ring_ok :: "nat \<Rightarrow> RingBuffer \<Rightarrow> byte list list \<Rightarrow> nat \<Rightarrow> bool" where
  "ring_ok n b L B \<longleftrightarrow> 0 < n \<and> n \<le> 2 ^ 32 \<and> length (slots b) = n \<and>
     (\<forall>x\<in>set (slots b). length (slot_data x) = SlotData_size) \<and>
     (\<forall>f\<in>set L. 0 < length f \<and> length f \<le> SlotData_size) \<and>
     win b L B \<and> Suc (length L) < 2 ^ 32"

lemma sys_inv_ring_ok:
  "sys_inv n s \<Longrightarrow> sn_left s \<Longrightarrow> ring_ok n (ring s) (g_log s) (begun s)"
  by (auto simp: sys_inv_def shape_inv_def ring_ok_def sn_left_def)

lemma reader_slot:
  assumes "ring_ok n b L B" and "reader_inv n L B t"
  shows "unat (r_current_slot (rt_reader t)) = length (rt_got t) mod n"
    and "length (rt_got t) mod n < length (slots b)"
    and "length (slot_data (slots b ! (length (rt_got t) mod n))) = SlotData_size"
  using assms reader_at_unat [of n "length (rt_got t)" "rt_reader t"]
  by (auto simp: ring_ok_def reader_inv_def Let_def)

lemma reader_step_idle:
  assumes "ring_ok n b L B" and "reader_inv n L B t" and "rt_pc t = R_Idle"
  shows "\<exists>t'. reader_step b t = Inr t' \<and> reader_inv n L B t'"
  using assms reader_slot [OF assms(1,2)]
  by (simp add: reader_step_def Let_def reader_inv_def rr_clear_def)

lemma reader_step_load:
  assumes ok: "ring_ok n b L B" and inv: "reader_inv n L B t" and pc: "rt_pc t = R_Load"
  shows "\<exists>t'. reader_step b t = Inr t' \<and> reader_inv n L B t'"
proof -
  let ?p = "length (rt_got t)" and ?h = "slot_header (slots b ! (length (rt_got t) mod n))"
  note slot = reader_slot [OF ok inv]
  from inv have p: "?p \<le> length L" "expected_sn (rt_reader t) = of_nat (Suc ?p)"
    by (auto simp: reader_inv_def Let_def reader_at_def)
  show ?thesis
  proof (cases "h_sn ?h = 0 \<or> h_sn ?h \<noteq> of_nat (Suc ?p)")
    case True
    then show ?thesis
      using slot p pc reader_inv_end_read [OF inv] by (auto simp: reader_step_def Let_def)
  next
    case False
    then have sn: "h_sn ?h = of_nat (Suc ?p)" and "h_sn ?h \<noteq> 0" by auto
    from ok sn have "?p < length L" "slot_holds (slots b ! (?p mod n)) ?p (L ! ?p)"
      using win_header_match [of b L B ?p] p(1) by (auto simp: ring_ok_def)
    then have "reader_inv n L B (t\<lparr>rt_pc := R_Copy ?h []\<rparr>)"
      using inv pc by (simp add: reader_inv_def Let_def slot_holds_def)
    then show ?thesis
      using slot p pc False by (auto simp: reader_step_def Let_def)
  qed
qed

lemma reader_step_copy:
  assumes ok: "ring_ok n b L B" and inv: "reader_inv n L B t" and pc: "rt_pc t = R_Copy h buf"
  shows "\<exists>t'. reader_step b t = Inr t' \<and> reader_inv n L B t'"
proof -
  let ?p = "length (rt_got t)" and ?s = "slots b ! (length (rt_got t) mod n)"
  note slot = reader_slot [OF ok inv]
  from inv pc have c: "?p < length L" "h_sz h = of_nat (length (L ! ?p))" "length buf \<le> length (L ! ?p)"
    "B \<le> ?p + n \<longrightarrow> buf = take (length buf) (L ! ?p)"
    by (auto simp: reader_inv_def Let_def)
  then have f: "0 < length (L ! ?p)" "length (L ! ?p) \<le> SlotData_size"
    using ok by (auto simp: ring_ok_def)
  then have size: "copy_size h = length (L ! ?p)"
    using c(2) unat_fragment_size [OF f(2)]
    by (simp add: copy_size_def of_nat_u32_eq_0_iff SlotData_size_def)
  show ?thesis
  proof (cases "length buf < length (L ! ?p)")
    case True
    have "buf @ [slot_data ?s ! length buf] = take (Suc (length buf)) (L ! ?p)" if "B \<le> ?p + n"
    proof -
      from ok c(1) that have "slot_holds ?s ?p (L ! ?p)"
        using win_retained [of b L B ?p] by (auto simp: ring_ok_def)
      then have "slot_data ?s ! length buf = (L ! ?p) ! length buf"
        using True by (metis nth_take slot_holds_def)
      then show ?thesis using c(4) that True by (simp add: take_Suc_conv_app_nth)
    qed
    then have "reader_inv n L B (t\<lparr>rt_pc := R_Copy h (buf @ [slot_data ?s ! length buf])\<rparr>)"
      using inv pc True by (simp add: reader_inv_def Let_def)
    then show ?thesis
      using slot pc True f(2) by (auto simp: reader_step_def Let_def size)
  next
    case False
    have "reader_move_next b (of_nat (Suc ?p), of_nat (?p mod n)) = (of_nat (Suc (Suc ?p)), of_nat (Suc ?p mod n))"
      using ok slot_counter_step [of n ?p]
      by (simp add: reader_move_next_def Let_def ring_ok_def cong: if_cong)
    then have "reader_inv n L B (t\<lparr>rt_reader := (rt_reader t)\<lparr>r_result := (r_result (rt_reader t))
        \<lparr>rr_data := rr_data (r_result (rt_reader t)) @ buf\<rparr>\<rparr>, rt_w := reader_move_next b (rt_w t), rt_pc := R_Check h\<rparr>)"
      using inv pc False by (simp add: reader_inv_def Let_def reader_at_def del: of_nat_Suc)
    then show ?thesis
      using slot pc False by (auto simp: reader_step_def Let_def size)
  qed
qed

lemma reader_check_match:
  assumes ok: "ring_ok n b L B" and inv: "reader_inv n L B t" and pc: "rt_pc t = R_Check h"
    and same: "h_sn (slot_header (slots b ! (length (rt_got t) mod n))) = h_sn h"
  shows "rr_data (r_result (rt_reader t)) = L ! length (rt_got t)"
    and "h_sz (slot_header (slots b ! (length (rt_got t) mod n))) \<noteq> 0"
proof -
  let ?p = "length (rt_got t)"
  from inv pc have c: "?p < length L" "h_sn h = of_nat (Suc ?p)"
    "B \<le> ?p + n \<longrightarrow> rr_data (r_result (rt_reader t)) = L ! ?p"
    by (auto simp: reader_inv_def Let_def)
  then have f: "0 < length (L ! ?p)" "length (L ! ?p) \<le> SlotData_size"
    using ok by (auto simp: ring_ok_def)
  from ok same c have "B \<le> ?p + n" "slot_holds (slots b ! (?p mod n)) ?p (L ! ?p)"
    using win_header_match [of b L B ?p] by (auto simp: ring_ok_def)
  with c f show "rr_data (r_result (rt_reader t)) = L ! ?p"
    and "h_sz (slot_header (slots b ! (?p mod n))) \<noteq> 0"
    by (auto simp: slot_holds_def of_nat_u32_eq_0_iff SlotData_size_def)
qed

lemma reader_step_check:
  assumes ok: "ring_ok n b L B" and inv: "reader_inv n L B t" and pc: "rt_pc t = R_Check h"
  shows "\<exists>t'. reader_step b t = Inr t' \<and> reader_inv n L B t'"
proof -
  let ?p = "length (rt_got t)"
  note slot = reader_slot [OF ok inv]
  show ?thesis
  proof (cases "h_sn (slot_header (slots b ! (?p mod n))) = h_sn h")
    case False
    then show ?thesis
      using slot pc reader_inv_end_read [OF inv] by (auto simp: reader_step_def Let_def)
  next
    case True
    note m = reader_check_match [OF ok inv pc True]
    let ?t = "(end_read (t\<lparr>rt_reader := (rt_reader t)\<lparr>expected_sn := fst (rt_w t), r_current_slot := snd (rt_w t)\<rparr>\<rparr>)
      Read_OK)\<lparr>rt_got := rt_got t @ [rr_data (r_result (rt_reader t))]\<rparr>"
    have "reader_inv n L B ?t"
      using inv pc m(1)
      by (auto simp: reader_inv_def Let_def end_read_def finish_read_def reader_at_def
          take_Suc_conv_app_nth simp del: of_nat_Suc)
    then show ?thesis
      using slot pc True m(2) by (auto simp: reader_step_def Let_def)
  qed
qed

lemma reader_step_inv:
  assumes "ring_ok n b L B" and "reader_inv n L B t"
  shows "\<exists>t'. reader_step b t = Inr t' \<and> reader_inv n L B t'"
  using assms reader_step_idle reader_step_load reader_step_copy reader_step_check
  by (cases "rt_pc t") blast+

section \<open>The writer keeps the invariant\<close>

text \<open>Touching the writer's own slot, which holds no fragment of the window.\<close>

lemma window_avoids_writer:
  assumes "k < len" and "Suc len \<le> k + n"
  shows "k mod n \<noteq> len mod n"
  using mod_window_eq [of k n len] assms by auto

lemma win_clear:
  assumes "win b L (length L)" and "0 < length (slots b)" and "slot_header x = no_header"
  shows "win (b\<lparr>slots := (slots b)[length L mod length (slots b) := x]\<rparr>) L (Suc (length L))"
proof -
  let ?n = "length (slots b)" and ?ss = "(slots b)[length L mod length (slots b) := x]"
  have "slot_holds (?ss ! (k mod ?n)) k (L ! k)" if "k < length L" "Suc (length L) \<le> k + ?n" for k
    using assms(1) that window_avoids_writer [OF that] by (simp add: win_def)
  moreover have "slot_header (?ss ! j) = no_header"
    if j: "j < ?n" "\<forall>k<length L. Suc (length L) \<le> k + ?n \<longrightarrow> k mod ?n \<noteq> j" for j
  proof (cases "j = length L mod ?n")
    case True
    then show ?thesis using assms(2,3) by simp
  next
    case False
    have "k mod ?n \<noteq> j" if k: "k < length L" "length L \<le> k + ?n" for k
    proof (cases "length L = k + ?n")
      case True
      then have "length L mod ?n = k mod ?n" by (simp only: mod_add_self2)
      with False show ?thesis by simp
    next
      case False
      with k have "Suc (length L) \<le> k + ?n" by linarith
      with j(2) k(1) show ?thesis by blast
    qed
    with assms(1) j(1) False show ?thesis by (simp add: win_def)
  qed
  ultimately show ?thesis by (simp add: win_def)
qed

lemma win_own_slot:
  assumes "win b L (Suc (length L))" and "0 < length (slots b)"
    and "slot_header x = slot_header (slots b ! (length L mod length (slots b)))"
  shows "win (b\<lparr>slots := (slots b)[length L mod length (slots b) := x]\<rparr>) L (Suc (length L))"
proof -
  let ?n = "length (slots b)" and ?ss = "(slots b)[length L mod length (slots b) := x]"
  have hdr: "slot_header (?ss ! j) = slot_header (slots b ! j)" if "j < ?n" for j
    using that assms(3) by (cases "j = length L mod ?n") auto
  have "slot_holds (?ss ! (k mod ?n)) k (L ! k)" if "k < length L" "Suc (length L) \<le> k + ?n" for k
    using assms(1) that window_avoids_writer [OF that] by (simp add: win_def)
  then show ?thesis using assms(1) hdr by (simp add: win_def)
qed

lemma win_publish:
  assumes "win b L (Suc (length L))" and "0 < length (slots b)" and "slot_holds x (length L) d"
  shows "win (b\<lparr>slots := (slots b)[length L mod length (slots b) := x]\<rparr>) (L @ [d]) (Suc (length L))"
proof -
  let ?n = "length (slots b)" and ?ss = "(slots b)[length L mod length (slots b) := x]"
  have "slot_holds (?ss ! (k mod ?n)) k ((L @ [d]) ! k)"
    if k: "k < Suc (length L)" "Suc (length L) \<le> k + ?n" for k
  proof (cases "k = length L")
    case True
    then show ?thesis using assms(2,3) by simp
  next
    case False
    then show ?thesis
      using assms(1) k window_avoids_writer [of k "length L" ?n] by (simp add: win_def nth_append)
  qed
  moreover have "slot_header (?ss ! j) = no_header"
    if j: "j < ?n" "\<forall>k<Suc (length L). Suc (length L) \<le> k + ?n \<longrightarrow> k mod ?n \<noteq> j" for j
  proof -
    have "j \<noteq> length L mod ?n"
      using j(2) [rule_format, of "length L"] assms(2) by linarith
    with assms(1) j show ?thesis by (simp add: win_def)
  qed
  ultimately show ?thesis by (simp add: win_def)
qed

lemma win_slots_only: "slots b' = slots b \<Longrightarrow> win b' L B = win b L B"
  by (simp add: win_def)

lemma writer_slot:
  assumes "shape_inv n s"
  shows "unat (current_slot (ring s)) = length (g_log s) mod n"
    and "length (g_log s) mod n < length (slots (ring s))"
    and "length (slot_data (slots (ring s) ! (length (g_log s) mod n))) = SlotData_size"
proof -
  have "length (g_log s) mod n < n" using assms by (simp add: shape_inv_def)
  moreover from this have "length (g_log s) mod n < 2 ^ 32"
    using assms unfolding shape_inv_def by linarith
  ultimately show "unat (current_slot (ring s)) = length (g_log s) mod n"
    and "length (g_log s) mod n < length (slots (ring s))"
    and "length (slot_data (slots (ring s) ! (length (g_log s) mod n))) = SlotData_size"
    using assms by (auto simp: shape_inv_def unat_of_nat_u32)
qed

lemma all_data_update:
  "\<forall>x\<in>set xs. length (slot_data x) = m \<Longrightarrow> length (slot_data y) = m \<Longrightarrow>
     \<forall>x\<in>set (xs[i := y]). length (slot_data x) = m"
  using set_update_subset_insert [of xs i y] by auto


lemma writer_step_clear:
  assumes inv: "sys_inv n s" and pc: "w_pc s = W_Idle" and pend: "w_pending s = d # ds"
  shows "\<exists>s'. writer_step s = Inr s' \<and> sys_inv n s'"
proof -
  let ?j = "length (g_log s) mod n" and ?b = "ring s"
  let ?x = "(slots ?b ! ?j)\<lparr>slot_header := no_header\<rparr>"
  let ?s = "s\<lparr>ring := ?b\<lparr>slots := (slots ?b)[?j := ?x]\<rparr>, w_pc := W_Copy 0\<rparr>"
  from inv have sh: "shape_inv n s" by (simp add: sys_inv_def)
  note slot = writer_slot [OF sh]
  have n: "length (slots ?b) = n" "0 < n" using sh by (auto simp: shape_inv_def)
  have "shape_inv n ?s"
    using sh all_data_update [of "slots ?b" SlotData_size ?x ?j] slot(3) by (simp add: shape_inv_def)
  moreover have "win (ring ?s) (g_log ?s) (begun ?s)"
    using inv win_clear [of ?b "g_log s" ?x] n pc by (simp add: sys_inv_def begun_def)
  moreover have "reader_inv n (g_log ?s) (begun ?s) (readers ?s i)" for i
    using inv reader_inv_mono [of n "g_log s" "begun s" "readers s i" "begun ?s" "[]"] pc
    by (simp add: sys_inv_def begun_def)
  moreover have "writer_inv ?s" using pend by (simp add: writer_inv_def)
  ultimately have "sys_inv n ?s" by (simp add: sys_inv_def)
  moreover have "writer_step s = Inr ?s"
    using slot pc pend by (simp add: writer_step_def Let_def)
  ultimately show ?thesis by blast
qed

lemma writer_step_byte:
  assumes inv: "sys_inv n s" and pc: "w_pc s = W_Copy k" and pend: "w_pending s = d # ds"
    and k: "k < length d"
  shows "\<exists>s'. writer_step s = Inr s' \<and> sys_inv n s'"
proof -
  let ?j = "length (g_log s) mod n" and ?b = "ring s"
  let ?x = "(slots ?b ! ?j)\<lparr>slot_data := (slot_data (slots ?b ! ?j))[k := d ! k]\<rparr>"
  let ?s = "s\<lparr>ring := ?b\<lparr>slots := (slots ?b)[?j := ?x]\<rparr>, w_pc := W_Copy (Suc k)\<rparr>"
  from inv have sh: "shape_inv n s" by (simp add: sys_inv_def)
  note slot = writer_slot [OF sh]
  have n: "length (slots ?b) = n" "0 < n" using sh by (auto simp: shape_inv_def)
  have kd: "k < SlotData_size" using sh pend k by (auto simp: shape_inv_def)
  have "shape_inv n ?s"
    using sh all_data_update [of "slots ?b" SlotData_size ?x ?j] slot(3) by (simp add: shape_inv_def)
  moreover have "win (ring ?s) (g_log ?s) (begun ?s)"
    using inv win_own_slot [of ?b "g_log s" ?x] n pc by (simp add: sys_inv_def begun_def)
  moreover have "reader_inv n (g_log ?s) (begun ?s) (readers ?s i)" for i
    using inv pc by (simp add: sys_inv_def begun_def)
  moreover have "writer_inv ?s"
    using inv pc pend k slot kd
    by (auto simp: sys_inv_def writer_inv_def take_Suc_conv_app_nth)
  ultimately have "sys_inv n ?s" by (simp add: sys_inv_def)
  moreover have "writer_step s = Inr ?s"
    using slot pc pend k kd by (simp add: writer_step_def Let_def)
  ultimately show ?thesis by blast
qed

lemma writer_step_store:
  assumes inv: "sys_inv n s" and pc: "w_pc s = W_Copy k" and pend: "w_pending s = d # ds"
    and k: "\<not> k < length d"
  shows "\<exists>s'. writer_step s = Inr s' \<and> sys_inv n s'"
proof -
  let ?L = "g_log s" and ?j = "length (g_log s) mod n" and ?b = "ring s"
  let ?x = "(slots ?b ! ?j)\<lparr>slot_header := \<lparr>h_sn = current_sn ?b, h_sz = of_nat (length d)\<rparr>\<rparr>"
  let ?b' = "rb_move_next (?b\<lparr>slots := (slots ?b)[?j := ?x]\<rparr>)"
  let ?s = "s\<lparr>ring := ?b', w_pc := W_Idle, w_pending := ds, g_log := ?L @ [d]\<rparr>"
  from inv have sh: "shape_inv n s" by (simp add: sys_inv_def)
  note slot = writer_slot [OF sh]
  have n: "length (slots ?b) = n" "0 < n" "n \<le> 2 ^ 32" using sh by (auto simp: shape_inv_def)
  have b': "slots ?b' = (slots ?b)[?j := ?x]" "current_sn ?b' = of_nat (Suc (Suc (length ?L)))"
    using sh by (simp_all add: rb_move_next_def Let_def shape_inv_def)
  have cs': "current_slot ?b' = of_nat (Suc (length ?L) mod n)"
    using slot_counter_step [OF n(2,3), of "length ?L"] sh n(1)
    by (simp add: rb_move_next_def Let_def shape_inv_def if_distrib [of current_slot] cong: if_cong)
  have holds: "slot_holds ?x (length ?L) d"
    using inv pc pend k sh slot by (auto simp: slot_holds_def sys_inv_def writer_inv_def shape_inv_def)
  have "shape_inv n ?s"
    using sh all_data_update [of "slots ?b" SlotData_size ?x ?j] slot(3) b' cs' pend
    by (simp add: shape_inv_def)
  moreover have "win (ring ?s) (g_log ?s) (begun ?s)"
    using inv win_publish [of ?b ?L ?x d] n pc holds win_slots_only [of ?b' "?b\<lparr>slots := (slots ?b)[?j := ?x]\<rparr>"] b'
    by (simp add: sys_inv_def begun_def)
  moreover have "reader_inv n (g_log ?s) (begun ?s) (readers ?s i)" for i
    using inv reader_inv_mono [of n ?L "begun s" "readers s i" "begun ?s" "[d]"] pc
    by (simp add: sys_inv_def begun_def)
  moreover have "writer_inv ?s" by (simp add: writer_inv_def)
  ultimately have "sys_inv n ?s" by (simp add: sys_inv_def)
  moreover have "writer_step s = Inr ?s"
    using slot pc pend k by (simp add: writer_step_def Let_def)
  ultimately show ?thesis by blast
qed

lemma writer_step_inv:
  assumes "sys_inv n s" and "w_pending s \<noteq> []"
  shows "\<exists>s'. writer_step s = Inr s' \<and> sys_inv n s'"
proof -
  obtain d ds where pend: "w_pending s = d # ds" using assms(2) by (cases "w_pending s") auto
  show ?thesis
  proof (cases "w_pc s")
    case W_Idle
    then show ?thesis using writer_step_clear assms(1) pend by blast
  next
    case (W_Copy k)
    then show ?thesis
      using writer_step_byte [OF assms(1) W_Copy pend] writer_step_store [OF assms(1) W_Copy pend] by blast
  qed
qed

section \<open>Reachable states\<close>

lemma sys_inv_init:
  assumes "ring_init n s" and "0 < n" and "n \<le> 2 ^ 32"
  shows "sys_inv n s"
proof -
  obtain b where b: "new_RingBuffer True n = Inr b" "s = new_ring_sys b" "rb_inv b []" "length (slots b) = n"
    using assms rb_inv_new [of n True] by (auto simp: ring_init_def)
  then show ?thesis
    by (auto simp: sys_inv_def shape_inv_def writer_inv_def win_def reader_inv_def Let_def rb_inv_def
        new_ring_sys_def begun_def new_reader_thread_def reader_at_new)
qed

lemma writer_step_log: "writer_step s = Inr s' \<Longrightarrow> \<exists>M. g_log s' = g_log s @ M"
  by (auto simp: writer_step_def Let_def split: if_splits list.splits writer_pc.splits)

lemma ring_step_log: "ring_step s s' \<Longrightarrow> \<exists>M. g_log s' = g_log s @ M"
  by (auto simp: ring_step_iff dest: writer_step_log)

lemma ring_step_inv:
  assumes "ring_step s s'" and "sn_left s" and inv: "sys_inv n s"
  shows "sys_inv n s'"
  using assms(1)
proof cases
  case (call_write m)
  have "\<forall>f\<in>set (chunks m). 0 < length f \<and> length f \<le> SlotData_size"
    using chunks_size by blast
  with inv call_write show ?thesis
    by (auto simp: sys_inv_def shape_inv_def writer_inv_def begun_def)
next
  case writer
  with writer_step_inv [OF inv] show ?thesis by auto
next
  case (reader i t)
  have "reader_inv n (g_log s) (begun s) t"
    using reader_step_inv [OF sys_inv_ring_ok [OF inv assms(2)], of "readers s i"] inv reader(2)
    by (auto simp: sys_inv_def)
  with inv reader(1) show ?thesis
    by (auto simp: sys_inv_def shape_inv_def writer_inv_def begun_def split: writer_pc.splits)
qed

interpretation ring_run: step_invariant "\<lambda>s. ring_init n s \<and> 0 < n \<and> n \<le> 2 ^ 32" ring_step sn_left "sys_inv n" for n
proof unfold_locales
  show "sys_inv n s" if "ring_init n s \<and> 0 < n \<and> n \<le> 2 ^ 32" for s
    using that sys_inv_init by blast
  show "sn_left s" if "ring_step s s'" "sn_left s'" for s s'
    using ring_step_log [OF that(1)] that(2) by (auto simp: sn_left_def)
  show "sys_inv n s'" if "ring_step s s'" "sn_left s" "sys_inv n s" for s s'
    using ring_step_inv that by blast
qed

lemma reachable_inv: "ring_reachable n s \<Longrightarrow> sn_left s \<Longrightarrow> sys_inv n s"
  using ring_run.inv_run by (auto simp: ring_reachable_def)

section \<open>What concurrent readers get\<close>

text \<open>
  C2: Under every interleaving of the writer with any number of readers, the data a
  reader has been handed with result \<open>OK\<close> is, at every moment, a prefix of the
  fragments of the messages accepted by \<^verbatim>\<open>write\<close>: nothing torn, lost in the middle,
  duplicated or reordered, as long as fewer than \<open>2 ^ 32 - 1\<close> fragments have been
  published.
\<close>

theorem concurrent_reads_are_prefix:
  assumes "ring_reachable n s" and "sn_left s"
  shows "\<exists>rest. concat (map chunks (g_msgs s)) = rt_got (readers s i) @ rest"
proof -
  have "sys_inv n s" using assms by (rule reachable_inv)
  then have "concat (map chunks (g_msgs s)) = g_log s @ w_pending s"
    and "rt_got (readers s i) = take (length (rt_got (readers s i))) (g_log s)"
    by (auto simp: sys_inv_def shape_inv_def reader_inv_def Let_def)
  then show ?thesis by (metis append.assoc append_take_drop_id)
qed

text \<open>
  No interleaving makes the writer or a reader touch memory outside the ring: in every
  reachable state every next step of every thread is defined.
\<close>

theorem concurrent_steps_never_fault:
  assumes "ring_reachable n s" and "sn_left s"
  shows "(\<exists>t. reader_step (ring s) (readers s i) = Inr t) \<and> (\<exists>s'. writer_step s = Inr s')"
proof -
  have inv: "sys_inv n s" using assms by (rule reachable_inv)
  have "\<exists>s'. writer_step s = Inr s'"
  proof (cases "w_pending s = []")
    case True
    have "shape_inv n s" using inv by (simp add: sys_inv_def)
    from True writer_slot [OF this] show ?thesis by (simp add: writer_step_def Let_def)
  next
    case False
    then show ?thesis using writer_step_inv [OF inv] by blast
  qed
  then show ?thesis
    using reader_step_inv [OF sys_inv_ring_ok [OF inv assms(2)], of "readers s i"] inv
    by (auto simp: sys_inv_def)
qed

text \<open>A run used by the witnesses: a ring of two slots, nothing written yet.\<close>

lemma idle_ring_reachable:
  obtains b where "ring_reachable 2 (new_ring_sys b)" and "sn_left (new_ring_sys b)"
    and "rb_inv b []" and "length (slots b) = 2"
proof -
  obtain b where b: "new_RingBuffer True 2 = Inr b" "rb_inv b []" "length (slots b) = 2"
    by (rule small_ring)
  then have "ring_reachable 2 (new_ring_sys b)"
    by (auto simp: ring_reachable_def ring_init_def)
  then show thesis using that b by (simp add: sn_left_def new_ring_sys_def)
qed

lemma one_message_reachable:
  obtains s where "ring_reachable 2 s" and "sn_left s" and "g_msgs s = [[7]]"
proof -
  obtain b where b: "ring_reachable 2 (new_ring_sys b)" "rb_inv b []" "length (slots b) = 2"
    by (rule idle_ring_reachable)
  let ?s = "(new_ring_sys b)\<lparr>w_pending := chunks [7], g_msgs := g_msgs (new_ring_sys b) @ [[7]]\<rparr>"
  have "ring_step (new_ring_sys b) ?s"
    by (rule call_write) (simp_all add: new_ring_sys_def b(3) SlotData_size_def)
  with b(1) have "ring_reachable 2 ?s"
    by (auto simp: ring_reachable_def intro: rtranclp.rtrancl_into_rtrancl)
  then show thesis using that by (simp add: sn_left_def new_ring_sys_def)
qed

text \<open>A run as a list of turns; a turn that is not possible changes nothing.\<close>

datatype ring_turn = Call_write "byte list" | Writer_turn | Reader_turn nat

fun ring_do :: "ring_turn \<Rightarrow> ring_sys \<Rightarrow> ring_sys" where
  "ring_do (Call_write m) s =
     (if w_pending s = [] \<and> w_pc s = W_Idle \<and> m \<noteq> [] \<and> length m \<le> length (slots (ring s)) * SlotData_size
      then s\<lparr>w_pending := chunks m, g_msgs := g_msgs s @ [m]\<rparr> else s)"
| "ring_do Writer_turn s = (if w_pending s = [] then s else case writer_step s of Inl _ \<Rightarrow> s | Inr s' \<Rightarrow> s')"
| "ring_do (Reader_turn i) s =
     (case reader_step (ring s) (readers s i) of Inl _ \<Rightarrow> s | Inr t \<Rightarrow> s\<lparr>readers := (readers s)(i := t)\<rparr>)"

lemma ring_do_step: "ring_step\<^sup>*\<^sup>* s (ring_do a s)"
proof (cases a)
  case (Call_write m)
  then show ?thesis by (auto intro: call_write)
next
  case Writer_turn
  then show ?thesis by (auto split: sum.split intro: ring_step.writer)
next
  case (Reader_turn i)
  then show ?thesis by (auto split: sum.split intro: ring_step.reader)
qed

lemma ring_dos: "ring_step\<^sup>*\<^sup>* s (fold ring_do as s)"
proof (induction as arbitrary: s)
  case (Cons a as)
  then show ?case using rtranclp_trans [OF ring_do_step [of s a]] by simp
qed simp

text \<open>A ring of two slots: a reader gets the first message, then the second is written.\<close>

definition sample_ring :: "ring_turn list \<Rightarrow> ring_sys" where
  "sample_ring as = fold ring_do as (new_ring_sys (projr (new_RingBuffer True 2)))"

definition first_read :: "ring_turn list" where
  "first_read = [Call_write [7], Writer_turn, Writer_turn, Writer_turn] @ replicate 5 (Reader_turn 0)"

definition second_written :: "ring_turn list" where
  "second_written = first_read @ [Call_write [8, 9]] @ replicate 4 Writer_turn"

lemma sample_ring_reachable: "ring_reachable 2 (sample_ring as)"
  unfolding ring_reachable_def sample_ring_def
  by (intro conjI exI [of _ "new_ring_sys (projr (new_RingBuffer True 2))"] ring_dos)
    (auto simp: ring_init_def new_RingBuffer_def)

lemma first_read_run:
  "(\<lambda>s. (rt_got (readers s 0), g_log s, g_msgs s)) (sample_ring first_read) = ([[7]], [[7]], [[7]])"
  by code_simp

lemmas first_read_data = first_read_run [simplified]

lemma second_written_run:
  "(\<lambda>s. (g_log s, g_msgs s, w_pc s, w_pending s)) (sample_ring second_written)
     = ([[7], [8, 9]], [[7], [8, 9]], W_Idle, [])"
  by code_simp

lemmas second_written_data = second_written_run [simplified]

theorem concurrent_reads_are_prefix_witness:
  "\<exists>rest. ring_reachable 2 (sample_ring first_read) \<and> rt_got (readers (sample_ring first_read) 0) = [[7]] \<and>
     chunks [7] = [[7]] @ rest"
proof -
  have "sn_left (sample_ring first_read)" by (simp add: sn_left_def first_read_data)
  then show ?thesis
    using concurrent_reads_are_prefix [OF sample_ring_reachable, of first_read 0] sample_ring_reachable [of first_read]
    by (auto simp: first_read_data)
qed

theorem concurrent_steps_never_fault_witness:
  "\<exists>s s'. ring_reachable 2 s \<and> g_msgs s = [[7]] \<and> writer_step s = Inr s'"
proof -
  obtain s where s: "ring_reachable 2 s" "sn_left s" "g_msgs s = [[7]]"
    by (rule one_message_reachable)
  then show ?thesis using concurrent_steps_never_fault [OF s(1,2)] by auto
qed

section \<open>The interleaved writer and the sequential one\<close>

text \<open>
  \<open>write_fragments L b0\<close>: the sequential writer, begun on \<open>b0\<close>, writes the fragments \<open>L\<close>. Inside a
  fragment the interleaved ring is that of the sequential writer before this fragment, but for the
  current slot: its header is cleared and the first bytes are those of the fragment.
\<close>

abbreviation write_fragments :: "byte list list \<Rightarrow> RingBuffer \<Rightarrow> RingBuffer result" where
  "write_fragments L b0 \<equiv> for_each (\<lambda>d b. rb_write_piece True b d) L b0"

definition half_written :: "RingBuffer \<Rightarrow> nat \<Rightarrow> byte list \<Rightarrow> RingBuffer" where
  "half_written b k d = (let i = unat (current_slot b) in
     b\<lparr>slots := (slots b)[i := \<lparr>slot_header = no_header, slot_data = take k d @ drop k (slot_data (slots b ! i))\<rparr>]\<rparr>)"

definition follows_writer :: "RingBuffer \<Rightarrow> ring_sys \<Rightarrow> bool" where
  "follows_writer b0 s \<longleftrightarrow> (case w_pc s of
     W_Idle \<Rightarrow> write_fragments (g_log s) b0 = Inr (ring s)
   | W_Copy k \<Rightarrow> \<exists>b d ds. write_fragments (g_log s) b0 = Inr b \<and> w_pending s = d # ds \<and> unat (current_slot b) < length (slots b) \<and>
       k \<le> length d \<and> k \<le> length (slot_data (slots b ! unat (current_slot b))) \<and> ring s = half_written b k d)"

lemma header_cleared: "(x :: Slot)\<lparr>slot_header := h\<rparr> = \<lparr>slot_header = h, slot_data = slot_data x\<rparr>"
  by (cases x) simp

lemma slot_update_release:
  "length d \<le> length (slot_data x) \<Longrightarrow> slot_update True x d m =
     Inr \<lparr>slot_header = \<lparr>h_sn = m, h_sz = of_nat (length d)\<rparr>, slot_data = d @ drop (length d) (slot_data x)\<rparr>"
  by (cases x) (simp add: slot_update_def)

lemma take_drop_byte:
  assumes "k < length d" "k < length xs"
  shows "(take k d @ drop k xs)[k := d ! k] = take (Suc k) d @ drop (Suc k) xs"
  using assms by (simp add: list_update_append take_Suc_conv_app_nth Cons_nth_drop_Suc [symmetric])

lemma writer_step_follows:
  assumes f: "follows_writer b0 s" and step: "writer_step s = Inr s'" and p: "w_pending s \<noteq> []"
  shows "follows_writer b0 s'"
proof (cases "w_pc s")
  case W_Idle
  obtain d ds where d: "w_pending s = d # ds" using p by (cases "w_pending s") auto
  then show ?thesis
    using f step W_Idle
    by (auto simp: follows_writer_def writer_step_def half_written_def header_cleared Let_def split: if_splits)
next
  case (W_Copy k)
  then obtain b d ds where b: "write_fragments (g_log s) b0 = Inr b" "w_pending s = d # ds" "unat (current_slot b) < length (slots b)"
    "k \<le> length d" "k \<le> length (slot_data (slots b ! unat (current_slot b)))" "ring s = half_written b k d"
    using f by (auto simp: follows_writer_def)
  let ?i = "unat (current_slot b)"
  let ?xs = "slot_data (slots b ! ?i)"
  have slot: "slots (ring s) ! ?i = \<lparr>slot_header = no_header, slot_data = take k d @ drop k ?xs\<rparr>"
    "length (slots (ring s)) = length (slots b)" "current_slot (ring s) = current_slot b" "current_sn (ring s) = current_sn b"
    using b(3,6) by (simp_all add: half_written_def Let_def)
  show ?thesis
  proof (cases "k < length d")
    case True
    then have "k < length ?xs" "s' = s\<lparr>ring := half_written b (Suc k) d, w_pc := W_Copy (Suc k)\<rparr>"
      using step W_Copy b slot take_drop_byte [of k d ?xs]
      by (auto simp: writer_step_def Let_def half_written_def split: if_splits)
    then show ?thesis using b True by (simp add: follows_writer_def)
  next
    case False
    then have k: "k = length d" "length d \<le> length ?xs" using b(4,5) by auto
    have "rb_write_piece True b d = Inr (ring s')" "g_log s' = g_log s @ [d]" "w_pc s' = W_Idle"
      using step W_Copy b slot k
      by (auto simp: writer_step_def Let_def half_written_def rb_write_piece_def slot_update_release)
    then show ?thesis using b(1) by (simp add: follows_writer_def for_each_append)
  qed
qed

text \<open>The messages accepted, of legal size, are the fragments written and those still to write.\<close>

definition accepted :: "nat \<Rightarrow> ring_sys \<Rightarrow> bool" where
  "accepted n s \<longleftrightarrow> length (slots (ring s)) = n \<and> concat (map chunks (g_msgs s)) = g_log s @ w_pending s \<and>
     (\<forall>m\<in>set (g_msgs s). m \<noteq> [] \<and> length m \<le> n * SlotData_size)"

lemma writer_step_accepted:
  "writer_step s = Inr s' \<Longrightarrow> accepted n s \<Longrightarrow> accepted n s'"
  by (auto simp: accepted_def writer_step_def Let_def rb_move_next_def split: if_splits list.splits writer_pc.splits)

lemma ring_step_follows:
  assumes "ring_step s s'" "follows_writer b0 s \<and> accepted n s"
  shows "follows_writer b0 s' \<and> accepted n s'"
  using assms
proof (induction rule: ring_step.induct)
  case (call_write s m)
  then show ?case by (simp add: follows_writer_def accepted_def)
next
  case (writer s s')
  then show ?case using writer_step_follows writer_step_accepted by blast
next
  case (reader s i t)
  then show ?case by (simp add: follows_writer_def accepted_def split: writer_pc.splits)
qed

lemma ring_follows:
  assumes "ring_reachable n s"
  shows "\<exists>b0. new_RingBuffer True n = Inr b0 \<and> follows_writer b0 s \<and> accepted n s"
proof -
  obtain b0 where b0: "new_RingBuffer True n = Inr b0" "ring_step\<^sup>*\<^sup>* (new_ring_sys b0) s"
    using assms by (auto simp: ring_reachable_def ring_init_def)
  have "follows_writer b0 (new_ring_sys b0) \<and> accepted n (new_ring_sys b0)"
    using b0(1) by (auto simp: follows_writer_def accepted_def new_ring_sys_def new_RingBuffer_def)
  from b0(2) this have "follows_writer b0 s \<and> accepted n s"
    by (induction rule: rtranclp_induct) (auto dest: ring_step_follows)
  with b0(1) show ?thesis by blast
qed

text \<open>Whole messages, one call of \<^verbatim>\<open>write\<close> after the other, with their answers.\<close>

primrec write_messages :: "byte list list \<Rightarrow> RingBuffer \<Rightarrow> (WriteResult list \<times> RingBuffer) result" where
  "write_messages [] b = Inr ([], b)"
| "write_messages (m # ms) b = bind_r (rb_write True b m) (\<lambda>(r, b). bind_r (write_messages ms b) (\<lambda>(rs, b). Inr (r # rs, b)))"

lemma write_piece_slots: "rb_write_piece ndebug b d = Inr b' \<Longrightarrow> length (slots b') = length (slots b)"
  by (auto simp: rb_write_piece_def Let_def rb_move_next_def split: if_splits)

lemma write_fragments_slots: "write_fragments L b = Inr b' \<Longrightarrow> length (slots b') = length (slots b)"
  by (induction L arbitrary: b) (auto dest: write_piece_slots)

lemma write_messages_fragments:
  assumes "write_fragments (concat (map chunks ms)) b = Inr b'"
    and "\<forall>m\<in>set ms. m \<noteq> [] \<and> length m \<le> length (slots b) * SlotData_size"
  shows "write_messages ms b = Inr (replicate (length ms) Write_OK, b')"
  using assms
proof (induction ms arbitrary: b)
  case (Cons m ms)
  then obtain b1 where b1: "write_fragments (chunks m) b = Inr b1" "write_fragments (concat (map chunks ms)) b1 = Inr b'"
    by (auto simp: for_each_append)
  have "rb_write True b m = Inr (Write_OK, b1)"
    using Cons.prems(2) b1(1) write_loop_chunks [of True m 0 b] by (auto simp: rb_write_def)
  then show ?case using Cons.IH [OF b1(2)] Cons.prems(2) write_fragments_slots [OF b1(1)] by simp
qed simp

text \<open>
  C37: Whenever the writer is between two fragments, whatever the readers have done meanwhile, the
  interleaved ring is, to the last byte of every slot, the ring that the sequential writer
  leaves: \<open>rb_write_piece\<close>, one after the other, for the fragments published so far, on a new
  ring. When the writer is between two messages, it is the ring that the calls of \<^verbatim>\<open>write\<close> for
  the messages leave, all of which answer \<^verbatim>\<open>OK\<close>. So what is shown of the sequential writer holds of
  the interleaved one; in particular, while sequence numbers are left, the window invariant.
\<close>

theorem quiescent_ring_is_sequential:
  assumes "ring_reachable n s" and "w_pc s = W_Idle"
  shows "\<exists>b0. new_RingBuffer True n = Inr b0 \<and> for_each (\<lambda>d b. rb_write_piece True b d) (g_log s) b0 = Inr (ring s) \<and>
    (w_pending s = [] \<longrightarrow> write_messages (g_msgs s) b0 = Inr (replicate (length (g_msgs s)) Write_OK, ring s)) \<and>
    (sn_left s \<longrightarrow> rb_inv (ring s) (g_log s))"
proof -
  obtain b0 where b0: "new_RingBuffer True n = Inr b0" "write_fragments (g_log s) b0 = Inr (ring s)" "accepted n s"
    using ring_follows [OF assms(1)] assms(2) by (auto simp: follows_writer_def)
  have n: "length (slots b0) = n" using b0(1) by (auto simp: new_RingBuffer_def)
  have "write_messages (g_msgs s) b0 = Inr (replicate (length (g_msgs s)) Write_OK, ring s)" if "w_pending s = []"
    by (rule write_messages_fragments) (use b0 n that in \<open>auto simp: accepted_def\<close>)
  moreover have "rb_inv (ring s) (g_log s)" if "sn_left s"
  proof -
    have "shape_inv n s" using reachable_inv [OF assms(1) that] by (simp add: sys_inv_def)
    then have "0 < n" "n \<le> 2 ^ 32" "\<forall>d\<in>set (g_log s). 0 < length d \<and> length d \<le> SlotData_size" by (auto simp: shape_inv_def)
    moreover obtain b where "new_RingBuffer True n = Inr b" "rb_inv b []" using rb_inv_new [OF calculation(1,2)] by blast
    ultimately show ?thesis using write_pieces_inv [of b0 "[]" "g_log s" True] b0(1,2) by auto
  qed
  ultimately show ?thesis using b0(1,2) by blast
qed

theorem quiescent_ring_is_sequential_witness:
  "\<exists>b0. new_RingBuffer True 2 = Inr b0 \<and> write_messages [[7], [8, 9]] b0 = Inr ([Write_OK, Write_OK], ring (sample_ring second_written)) \<and>
     rb_inv (ring (sample_ring second_written)) [[7], [8, 9]]"
proof -
  have "sn_left (sample_ring second_written)" by (simp add: sn_left_def second_written_data)
  then show ?thesis
    using quiescent_ring_is_sequential [OF sample_ring_reachable, of second_written]
    by (simp add: second_written_data) blast
qed

section \<open>Readers are wait-free\<close>

text \<open>The number of own steps a call of \<^verbatim>\<open>read_next\<close> still needs, at most.\<close>

definition steps_left :: "reader_thread \<Rightarrow> nat" where
  "steps_left t =
     (case rt_pc t of
        R_Idle \<Rightarrow> 0
      | R_Load \<Rightarrow> SlotData_size + 3
      | R_Copy h buf \<Rightarrow> copy_size h - length buf + 2
      | R_Check h \<Rightarrow> 1)"

lemma copy_size_le:
  assumes "ring_ok n b L B" and "p < length L" and "h_sz h = of_nat (length (L ! p))"
  shows "copy_size h \<le> SlotData_size"
proof -
  have "L ! p \<in> set L" using assms(2) by simp
  then have "length (L ! p) \<le> SlotData_size" using assms(1) by (auto simp: ring_ok_def)
  from unat_fragment_size [OF this] this assms(3) show ?thesis by (simp add: copy_size_def)
qed

lemma steps_left_decreases:
  assumes ok: "ring_ok n b L B" and inv: "reader_inv n L B t" and busy: "rt_pc t \<noteq> R_Idle"
    and step: "reader_step b t = Inr t'"
  shows "steps_left t' < steps_left t"
proof (cases "rt_pc t")
  case R_Load
  have "reader_inv n L B t'" using reader_step_inv [OF ok inv] step by auto
  then have "copy_size h \<le> SlotData_size" if "rt_pc t' = R_Copy h buf" for h buf
    using that copy_size_le [OF ok, of "length (rt_got t')" h] by (auto simp: reader_inv_def Let_def)
  with step R_Load show ?thesis
    by (fastforce simp: reader_step_def Let_def steps_left_def end_read_def split: if_splits)
next
  case (R_Copy h buf)
  with step show ?thesis
    by (auto simp: reader_step_def Let_def steps_left_def split: if_splits)
next
  case (R_Check h)
  note slot = reader_slot [OF ok inv]
  from step R_Check slot reader_check_match(2) [OF ok inv R_Check] show ?thesis
    by (auto simp: reader_step_def Let_def steps_left_def end_read_def split: if_splits)
qed (use busy in simp)

text \<open>
  C38: Readers are wait-free: a call of \<^verbatim>\<open>read_next\<close> ends after at most 60 steps of
  the reader itself, whatever the writer and the other readers do in between. Each step of
  the reader brings it closer to the end, no step of another thread takes it further away.
\<close>

theorem readers_are_wait_free:
  assumes "ring_reachable n s" and "sn_left s" and "rt_pc (readers s i) \<noteq> R_Idle"
  shows "\<exists>t. reader_step (ring s) (readers s i) = Inr t \<and>
    steps_left t < steps_left (readers s i) \<and> steps_left (readers s i) \<le> 59"
proof -
  have inv: "sys_inv n s" using assms(1,2) by (rule reachable_inv)
  note ok = sys_inv_ring_ok [OF inv assms(2)]
  have r: "reader_inv n (g_log s) (begun s) (readers s i)" using inv by (simp add: sys_inv_def)
  obtain t where t: "reader_step (ring s) (readers s i) = Inr t"
    using reader_step_inv [OF ok r] by blast
  have "copy_size h \<le> SlotData_size" if "rt_pc (readers s i) = R_Copy h buf" for h buf
    using that r copy_size_le [OF ok, of "length (rt_got (readers s i))" h]
    by (auto simp: reader_inv_def Let_def)
  then have "steps_left (readers s i) \<le> 59"
    by (fastforce simp: steps_left_def SlotData_size_def split: reader_pc.splits)
  with t steps_left_decreases [OF ok r assms(3) t] show ?thesis by blast
qed

theorem readers_are_wait_free_witness:
  "\<exists>s t. ring_reachable 2 s \<and> rt_pc (readers s 0) = R_Load \<and>
     reader_step (ring s) (readers s 0) = Inr t \<and> steps_left t < steps_left (readers s 0)"
proof -
  obtain b where b: "ring_reachable 2 (new_ring_sys b)" "sn_left (new_ring_sys b)" "length (slots b) = 2"
    by (rule idle_ring_reachable)
  obtain t where t: "reader_step b new_reader_thread = Inr t"
    by (simp add: reader_step_def new_reader_thread_def new_RingBufferReader_def Let_def b(3))
  let ?s = "(new_ring_sys b)\<lparr>readers := (readers (new_ring_sys b))(0 := t)\<rparr>"
  have "ring_step (new_ring_sys b) ?s"
    by (rule ring_step.reader) (use t in \<open>simp add: new_ring_sys_def\<close>)
  with b(1) have s: "ring_reachable 2 ?s"
    by (auto simp: ring_reachable_def intro: rtranclp.rtrancl_into_rtrancl)
  have pc: "rt_pc (readers ?s 0) = R_Load"
    using t by (auto simp: reader_step_def new_reader_thread_def Let_def split: if_splits)
  have "sn_left ?s" using b(2) by (simp add: sn_left_def)
  from readers_are_wait_free [OF s this, of 0] s pc show ?thesis by auto
qed

end
