(* ===== verification/Broker_Types.thy ===== *)
theory Broker_Types
  imports Prelude
begin

text \<open>
  The data of the in-process broker: \<^verbatim>\<open>src/lib/broker/broker_common.h\<close>,
  \<^verbatim>\<open>TopicImpl.h\<close>, \<^verbatim>\<open>ConsumerImpl.h\<close>, \<^verbatim>\<open>SnapshotHandler.h\<close>, the fields of
  \<^verbatim>\<open>ProducerImpl\<close> and \<^verbatim>\<open>OldBroker::PImpl\<close>, and the programs a client runs against
  the broker. Objects live in heaps indexed by addresses that are never reused, so an
  access to a destroyed object is visible as a missing entry (\<open>UseAfterFree\<close>).
\<close>

section \<open>Events, topics, filters\<close>

type_synonym addr = nat
type_synonym StreamTypeID = string
type_synonym StreamName = string
type_synonym StreamID = u64

text \<open>
  An event object: the classes it is an instance of (its dynamic class first, then the
  bases), which is what \<^verbatim>\<open>dynamic_cast\<close> consults, and its contents.
\<close>

record Event =
  ev_classes :: "string list"
  ev_value :: "byte list"

datatype NotificationKind = START_PRODUCER | EVENT | STOP_PRODUCER

record TopicImpl =
  t_type :: StreamTypeID
  t_name :: StreamName

text \<open>
  \<^verbatim>\<open>NotificationImpl\<close>: the events are pointers, and \<^verbatim>\<open>topic\<close> is a reference to
  the topic inside a producer, given here by that producer's address.
\<close>

record NotificationImpl =
  n_kind :: NotificationKind
  n_events :: "addr list"
  n_stream_id :: StreamID
  n_topic :: addr

record StreamFilterImpl =
  f_type :: StreamTypeID
  f_is_match :: "StreamName \<Rightarrow> bool"

text \<open>
  \<^verbatim>\<open>Notification<Stream>\<close> of \<^verbatim>\<open>Consumer.h\<close>, as its handler sees it: an event pointer
  that is null is \<open>None\<close>, any other is given by the event it points to.
\<close>

record Notification =
  kind :: NotificationKind
  events :: "Event option list"
  stream_id :: StreamID
  name :: StreamName

section \<open>Client programs\<close>

text \<open>
  What client code (the main program, or a notification handler) does with the broker: it
  creates, uses and destroys \<^verbatim>\<open>Producer<Stream>\<close> and \<^verbatim>\<open>Consumer<Stream>\<close> objects,
  deciding on each call from what the previous ones returned, and leaves a new client state
  of type \<open>'u\<close>. A handler is a function of the typed notification and that state.
\<close>

datatype (dead 'u) client =
    Done 'u
  | NewProducer StreamTypeID StreamName "Event list" "addr \<Rightarrow> 'u client"
  | PublishEvent addr Event "'u client"
  | DeleteProducer addr "'u client"
  | NewConsumer StreamTypeID "StreamName \<Rightarrow> bool" "Notification \<Rightarrow> 'u \<Rightarrow> 'u client" "addr \<Rightarrow> 'u client"
  | DeleteConsumer addr "'u client"

type_synonym 'u handler = "Notification \<Rightarrow> 'u \<Rightarrow> 'u client"

text \<open>
  The closures a \<^verbatim>\<open>NotificationHandlerImpl\<close> ever holds: the one built by
  \<^verbatim>\<open>Consumer<Stream>::make_untyped_handler\<close> around a typed handler, and the empty one
  that \<^verbatim>\<open>OldBroker::destroy_consumer\<close> puts in its place.
\<close>

datatype (dead 'u) NotificationHandlerImpl = Untyped StreamTypeID "'u handler" | Ignore

record 'u ConsumerImpl =
  c_filter :: StreamFilterImpl
  c_notify :: "'u NotificationHandlerImpl"

datatype SnapshotHandler = NullSnapshotHandler "addr list"

record ProducerImpl =
  p_id :: StreamID
  p_topic :: TopicImpl
  p_snapshot_handler :: SnapshotHandler
  p_consumers :: "addr list"

section \<open>The broker\<close>

datatype Action =
    InitProducer addr
  | DestroyProducer addr
  | Publish addr addr
  | InitConsumer addr
  | DestroyConsumer addr

text \<open>
  The whole state: the build mode and each stream's \<^verbatim>\<open>EventType\<close> with its base classes
  (both constant), the global stream counter, the heaps, the three members of
  \<^verbatim>\<open>OldBroker::PImpl\<close>, the \<^verbatim>\<open>Producer\<close> and \<^verbatim>\<open>Consumer\<close> objects the client has
  (each with its stream), the client's own state, and, as a ghost, the handler calls made:
  the consumer, the notification, and the typed notification its handler was given.
\<close>

record 'u world =
  ndebug :: bool
  stream_event :: "StreamTypeID \<Rightarrow> string \<times> string list"
  current_stream_id :: StreamID
  next_addr :: addr
  producer_heap :: "addr \<rightharpoonup> ProducerImpl"
  consumer_heap :: "addr \<rightharpoonup> 'u ConsumerImpl"
  event_heap :: "addr \<rightharpoonup> Event"
  producers :: "addr list"
  consumers :: "addr list"
  pending_actions :: "Action list"
  producer_handles :: "addr \<rightharpoonup> StreamTypeID"
  consumer_handles :: "addr \<rightharpoonup> StreamTypeID"
  user :: 'u
  trace :: "(addr \<times> NotificationImpl \<times> Notification) list"

definition new_world :: "bool \<Rightarrow> (StreamTypeID \<Rightarrow> string \<times> string list) \<Rightarrow> StreamID \<Rightarrow> 'u \<Rightarrow> 'u world" where
  "new_world nd se sid u =
     \<lparr>ndebug = nd, stream_event = se, current_stream_id = sid, next_addr = 0,
      producer_heap = Map.empty, consumer_heap = Map.empty, event_heap = Map.empty,
      producers = [], consumers = [], pending_actions = [],
      producer_handles = Map.empty, consumer_handles = Map.empty, user = u, trace = []\<rparr>"

section \<open>Snapshot handlers\<close>

text \<open>\<^verbatim>\<open>NullSnapshotHandler\<close>, the only snapshot handler there is.\<close>

definition free_event :: "addr \<Rightarrow> 'u world \<Rightarrow> 'u world" where
  "free_event e s = s\<lparr>event_heap := (event_heap s)(e := None)\<rparr>"

definition snapshot_init :: "SnapshotHandler \<Rightarrow> addr list \<Rightarrow> SnapshotHandler" where
  "snapshot_init h evs = (case h of NullSnapshotHandler v \<Rightarrow> NullSnapshotHandler v)"

definition snapshot_add_new_event :: "SnapshotHandler \<Rightarrow> addr \<Rightarrow> 'u world \<Rightarrow> 'u world" where
  "snapshot_add_new_event h e s = (case h of NullSnapshotHandler v \<Rightarrow> free_event e s)"

definition snapshot_get_snapshot :: "SnapshotHandler \<Rightarrow> addr list" where
  "snapshot_get_snapshot h = (case h of NullSnapshotHandler v \<Rightarrow> v)"

lemma snapshot_add_new_event_eq: "snapshot_add_new_event h e s = free_event e s"
  by (cases h) (simp add: snapshot_add_new_event_def)

end
