(* ===== verification/Old_Broker.thy ===== *)
theory Old_Broker
  imports Broker_Types
begin

text \<open>
  The operations of the broker: the queueing API of \<^verbatim>\<open>OldBroker\<close>, the client objects
  \<^verbatim>\<open>Producer<Stream>\<close> and \<^verbatim>\<open>Consumer<Stream>\<close>, the handler calls, \<^verbatim>\<open>ProducerImpl\<close>,
  the action visitors and \<^verbatim>\<open>do_work\<close>, and the destructor. Handlers run arbitrary
  client programs, so every API call can be re-entrant; none of them runs \<^verbatim>\<open>do_work\<close>.
\<close>

section \<open>The queueing API of OldBroker\<close>

definition enqueue :: "Action \<Rightarrow> 'u world \<Rightarrow> 'u world" where
  "enqueue a s = s\<lparr>pending_actions := pending_actions s @ [a]\<rparr>"

text \<open>The constructor of \<^verbatim>\<open>ProducerImpl\<close>, with the pre-incremented global counter.\<close>

definition new_ProducerImpl :: "SnapshotHandler \<Rightarrow> TopicImpl \<Rightarrow> addr list \<Rightarrow> 'u world \<Rightarrow> addr \<times> 'u world" where
  "new_ProducerImpl h topic snapshot s =
     (let p = next_addr s;
          sid = current_stream_id s + 1;
          impl = \<lparr>p_id = sid, p_topic = topic, p_snapshot_handler = snapshot_init h snapshot, p_consumers = []\<rparr>
      in (p, s\<lparr>current_stream_id := sid, next_addr := Suc p,
               producer_heap := (producer_heap s)(p \<mapsto> impl)\<rparr>))"

definition make_producer :: "SnapshotHandler \<Rightarrow> TopicImpl \<Rightarrow> addr list \<Rightarrow> 'u world \<Rightarrow> addr \<times> 'u world" where
  "make_producer h topic snapshot s =
     (let (p, s1) = new_ProducerImpl h topic snapshot s in (p, enqueue (InitProducer p) s1))"

definition publish :: "addr \<Rightarrow> addr \<Rightarrow> 'u world \<Rightarrow> 'u world" where
  "publish p e s = enqueue (Publish p e) s"

definition destroy_producer :: "addr \<Rightarrow> 'u world \<Rightarrow> 'u world" where
  "destroy_producer p s = enqueue (DestroyProducer p) s"

definition make_consumer :: "StreamFilterImpl \<Rightarrow> 'u NotificationHandlerImpl \<Rightarrow> 'u world \<Rightarrow> addr \<times> 'u world" where
  "make_consumer f h s =
     (let c = next_addr s;
          s1 = s\<lparr>next_addr := Suc c,
                 consumer_heap := (consumer_heap s)(c \<mapsto> \<lparr>c_filter = f, c_notify = h\<rparr>)\<rparr>
      in (c, enqueue (InitConsumer c) s1))"

definition destroy_consumer :: "addr \<Rightarrow> 'u world \<Rightarrow> 'u world result" where
  "destroy_consumer c s =
     (case consumer_heap s c of
        None \<Rightarrow> Inl UseAfterFree
      | Some ci \<Rightarrow>
          Inr (enqueue (DestroyConsumer c)
            (s\<lparr>consumer_heap := (consumer_heap s)(c \<mapsto> ci\<lparr>c_notify := Ignore\<rparr>)\<rparr>)))"

section \<open>Producer and Consumer objects\<close>

text \<open>
  \<^verbatim>\<open>Stream::clone_event\<close> copies an event into a fresh object of the stream's
  \<^verbatim>\<open>EventType\<close>; \<^verbatim>\<open>Stream::make_snapshot_handler\<close> makes a null handler.
\<close>

definition classes_of :: "string \<times> string list \<Rightarrow> string list" where
  "classes_of cls = fst cls # snd cls"

definition clone_event :: "StreamTypeID \<Rightarrow> Event \<Rightarrow> 'u world \<Rightarrow> addr \<times> 'u world" where
  "clone_event t ev s =
     (let e = next_addr s in
      (e, s\<lparr>next_addr := Suc e,
            event_heap := (event_heap s)(e \<mapsto> ev\<lparr>ev_classes := classes_of (stream_event s t)\<rparr>)\<rparr>))"

definition make_snapshot_handler :: SnapshotHandler where
  "make_snapshot_handler = NullSnapshotHandler []"

fun convert_snapshot :: "StreamTypeID \<Rightarrow> Event list \<Rightarrow> 'u world \<Rightarrow> addr list \<times> 'u world" where
  "convert_snapshot t [] s = ([], s)"
| "convert_snapshot t (ev # evs) s =
     (let (e, s1) = clone_event t ev s; (es, s2) = convert_snapshot t evs s1 in (e # es, s2))"

text \<open>
  The constructor of \<^verbatim>\<open>Producer<Stream>\<close>. The vector of cloned snapshot events is a
  temporary: its elements are freed at the end of the initializer.
\<close>

definition Producer_new :: "StreamTypeID \<Rightarrow> StreamName \<Rightarrow> Event list \<Rightarrow> 'u world \<Rightarrow> addr \<times> 'u world" where
  "Producer_new t nm snapshot s =
     (let (es, s1) = convert_snapshot t snapshot s;
          (p, s2) = make_producer make_snapshot_handler \<lparr>t_type = t, t_name = nm\<rparr> es s1;
          s3 = fold free_event es s2
      in (p, s3\<lparr>producer_handles := (producer_handles s3)(p \<mapsto> t)\<rparr>))"

text \<open>
  A method call or destructor on a client object outside its lifetime is the client's own
  error, kept apart from the faults of the broker.
\<close>

definition Producer_publish :: "addr \<Rightarrow> Event \<Rightarrow> 'u world \<Rightarrow> 'u world result" where
  "Producer_publish p ev s =
     (case producer_handles s p of
        None \<Rightarrow> Inl ClientLifetime
      | Some t \<Rightarrow> (let (e, s1) = clone_event t ev s in Inr (publish p e s1)))"

definition Producer_delete :: "addr \<Rightarrow> 'u world \<Rightarrow> 'u world result" where
  "Producer_delete p s =
     (case producer_handles s p of
        None \<Rightarrow> Inl ClientLifetime
      | Some t \<Rightarrow>
          (let s1 = destroy_producer p s
           in Inr (s1\<lparr>producer_handles := (producer_handles s1)(p := None)\<rparr>)))"

definition Consumer_new ::
  "StreamTypeID \<Rightarrow> (StreamName \<Rightarrow> bool) \<Rightarrow> 'u handler \<Rightarrow> 'u world \<Rightarrow> addr \<times> 'u world" where
  "Consumer_new t f h s =
     (let (c, s1) = make_consumer \<lparr>f_type = t, f_is_match = f\<rparr> (Untyped t h) s
      in (c, s1\<lparr>consumer_handles := (consumer_handles s1)(c \<mapsto> t)\<rparr>))"

text \<open>The filters of the other two constructors of \<^verbatim>\<open>Consumer<Stream>\<close>.\<close>

definition name_filter :: "StreamName \<Rightarrow> StreamName \<Rightarrow> bool" where
  "name_filter nm = (\<lambda>n. nm = n)"

definition any_filter :: "StreamName \<Rightarrow> bool" where
  "any_filter = (\<lambda>n. True)"

definition Consumer_delete :: "addr \<Rightarrow> 'u world \<Rightarrow> 'u world result" where
  "Consumer_delete c s =
     (case consumer_handles s c of
        None \<Rightarrow> Inl ClientLifetime
      | Some t \<Rightarrow>
          bind_r (destroy_consumer c s)
            (\<lambda>s1. Inr (s1\<lparr>consumer_handles := (consumer_handles s1)(c := None)\<rparr>)))"

text \<open>Running a client program.\<close>

primrec run_client :: "'u client \<Rightarrow> 'u world \<Rightarrow> 'u world result" where
  "run_client (Done u) s = Inr (s\<lparr>user := u\<rparr>)"
| "run_client (NewProducer t nm snapshot k) s =
     (case Producer_new t nm snapshot s of (p, s1) \<Rightarrow> run_client (k p) s1)"
| "run_client (PublishEvent p ev k) s = bind_r (Producer_publish p ev s) (run_client k)"
| "run_client (DeleteProducer p k) s = bind_r (Producer_delete p s) (run_client k)"
| "run_client (NewConsumer t f h k) s =
     (case Consumer_new t f h s of (c, s1) \<Rightarrow> run_client (k c) s1)"
| "run_client (DeleteConsumer c k) s = bind_r (Consumer_delete c s) (run_client k)"

section \<open>Calling handlers\<close>

definition dynamic_cast :: "string \<Rightarrow> Event \<Rightarrow> Event option" where
  "dynamic_cast T ev = (if T \<in> set (ev_classes ev) then Some ev else None)"

fun typed_events :: "string \<Rightarrow> addr list \<Rightarrow> 'u world \<Rightarrow> Event option list result" where
  "typed_events T [] s = Inr []"
| "typed_events T (e # es) s =
     (case event_heap s e of
        None \<Rightarrow> Inl UseAfterFree
      | Some ev \<Rightarrow> bind_r (typed_events T es s) (\<lambda>evs. Inr (dynamic_cast T ev # evs)))"

text \<open>The closure of \<^verbatim>\<open>make_untyped_handler\<close>: build the typed notification, call the handler.\<close>

definition typed_notification :: "StreamTypeID \<Rightarrow> NotificationImpl \<Rightarrow> 'u world \<Rightarrow> Notification result" where
  "typed_notification t m s =
     (case producer_heap s (n_topic m) of
        None \<Rightarrow> Inl UseAfterFree
      | Some P \<Rightarrow>
          bind_r (typed_events (fst (stream_event s t)) (n_events m) s)
            (\<lambda>evs. Inr \<lparr>kind = n_kind m, events = evs, stream_id = n_stream_id m,
                        name = t_name (p_topic P)\<rparr>))"

definition notify :: "NotificationImpl \<Rightarrow> addr \<Rightarrow> 'u world \<Rightarrow> 'u world result" where
  "notify m c s =
     (case consumer_heap s c of
        None \<Rightarrow> Inl UseAfterFree
      | Some ci \<Rightarrow>
          (case c_notify ci of
             Ignore \<Rightarrow> Inr s
           | Untyped t h \<Rightarrow>
               bind_r (typed_notification t m s)
                 (\<lambda>n. run_client (h n (user s)) (s\<lparr>trace := trace s @ [(c, m, n)]\<rparr>))))"

section \<open>ProducerImpl\<close>

definition is_match :: "TopicImpl \<Rightarrow> StreamFilterImpl \<Rightarrow> bool" where
  "is_match topic f \<longleftrightarrow> f_type f = t_type topic \<and> f_is_match f (t_name topic)"

definition maybe_add :: "addr \<Rightarrow> addr \<Rightarrow> 'u world \<Rightarrow> 'u world result" where
  "maybe_add p c s =
     (case (producer_heap s p, consumer_heap s c) of
        (Some P, Some ci) \<Rightarrow>
          (if is_match (p_topic P) (c_filter ci) then
             notify \<lparr>n_kind = START_PRODUCER, n_events = [], n_stream_id = p_id P, n_topic = p\<rparr> c
               (s\<lparr>producer_heap := (producer_heap s)(p \<mapsto> P\<lparr>p_consumers := p_consumers P @ [c]\<rparr>)\<rparr>)
           else Inr s)
      | _ \<Rightarrow> Inl UseAfterFree)"

definition maybe_remove :: "addr \<Rightarrow> addr \<Rightarrow> 'u world \<Rightarrow> 'u world result" where
  "maybe_remove c p s =
     (case producer_heap s p of
        None \<Rightarrow> Inl UseAfterFree
      | Some P \<Rightarrow>
          Inr (s\<lparr>producer_heap := (producer_heap s)(p \<mapsto> P\<lparr>p_consumers := remove1 c (p_consumers P)\<rparr>)\<rparr>))"

definition producer_init :: "addr \<Rightarrow> addr list \<Rightarrow> 'u world \<Rightarrow> 'u world result" where
  "producer_init p cs s = for_each (maybe_add p) cs s"

definition producer_publish :: "addr \<Rightarrow> addr \<Rightarrow> 'u world \<Rightarrow> 'u world result" where
  "producer_publish p e s =
     (case producer_heap s p of
        None \<Rightarrow> Inl UseAfterFree
      | Some P \<Rightarrow>
          bind_r (for_each (notify \<lparr>n_kind = EVENT, n_events = [e], n_stream_id = p_id P, n_topic = p\<rparr>)
                    (p_consumers P) s)
            (\<lambda>s1. Inr (snapshot_add_new_event (p_snapshot_handler P) e s1)))"

text \<open>The destructor: the body notifies, then the object is gone.\<close>

definition delete_ProducerImpl :: "addr \<Rightarrow> 'u world \<Rightarrow> 'u world result" where
  "delete_ProducerImpl p s =
     (case producer_heap s p of
        None \<Rightarrow> Inl UseAfterFree
      | Some P \<Rightarrow>
          bind_r (for_each (notify \<lparr>n_kind = STOP_PRODUCER, n_events = [], n_stream_id = p_id P, n_topic = p\<rparr>)
                    (p_consumers P) s)
            (\<lambda>s1. Inr (s1\<lparr>producer_heap := (producer_heap s1)(p := None)\<rparr>)))"

definition delete_ConsumerImpl :: "addr \<Rightarrow> 'u world \<Rightarrow> 'u world" where
  "delete_ConsumerImpl c s = s\<lparr>consumer_heap := (consumer_heap s)(c := None)\<rparr>"

section \<open>Actions\<close>

definition visit_init_producer :: "addr \<Rightarrow> 'u world \<Rightarrow> 'u world result" where
  "visit_init_producer p s =
     (let s1 = s\<lparr>producers := producers s @ [p]\<rparr> in producer_init p (consumers s1) s1)"

definition visit_publish :: "addr \<Rightarrow> addr \<Rightarrow> 'u world \<Rightarrow> 'u world result" where
  "visit_publish p e s = producer_publish p e s"

definition visit_destroy_producer :: "addr \<Rightarrow> 'u world \<Rightarrow> 'u world result" where
  "visit_destroy_producer p s =
     (if p \<in> set (producers s) then delete_ProducerImpl p (s\<lparr>producers := remove1 p (producers s)\<rparr>)
      else if ndebug s then Inl EraseEnd else Inl AssertFailure)"

definition visit_init_consumer :: "addr \<Rightarrow> 'u world \<Rightarrow> 'u world result" where
  "visit_init_consumer c s =
     (let s1 = s\<lparr>consumers := consumers s @ [c]\<rparr>
      in for_each (\<lambda>p. maybe_add p c) (producers s1) s1)"

definition visit_destroy_consumer :: "addr \<Rightarrow> 'u world \<Rightarrow> 'u world result" where
  "visit_destroy_consumer c s =
     bind_r (for_each (maybe_remove c) (producers s) s)
       (\<lambda>s1. if c \<in> set (consumers s1)
             then Inr (delete_ConsumerImpl c (s1\<lparr>consumers := remove1 c (consumers s1)\<rparr>))
             else Inl EraseEnd)"

fun visit :: "Action \<Rightarrow> 'u world \<Rightarrow> 'u world result" where
  "visit (InitProducer p) s = visit_init_producer p s"
| "visit (DestroyProducer p) s = visit_destroy_producer p s"
| "visit (Publish p e) s = visit_publish p e s"
| "visit (InitConsumer c) s = visit_init_consumer c s"
| "visit (DestroyConsumer c) s = visit_destroy_consumer c s"

text \<open>
  \<^verbatim>\<open>do_work\<close> runs until the queue is empty; handlers may refill it for ever, so it is a
  partial function.
\<close>

partial_function (option) do_work :: "'u world \<Rightarrow> 'u world result option" where
  "do_work s =
     (case pending_actions s of
        [] \<Rightarrow> Some (Inr s)
      | a # q \<Rightarrow>
          (case visit a (s\<lparr>pending_actions := q\<rparr>) of
             Inl e \<Rightarrow> Some (Inl e)
           | Inr s1 \<Rightarrow> do_work s1))"

section \<open>The destructor of the broker\<close>

text \<open>
  \<^verbatim>\<open>~OldBroker\<close> destroys the members of \<^verbatim>\<open>PImpl\<close> in reverse order of declaration:
  the queue with the objects its actions own, the consumers, and last the producers.
\<close>

fun delete_action :: "Action \<Rightarrow> 'u world \<Rightarrow> 'u world result" where
  "delete_action (InitProducer p) s = delete_ProducerImpl p s"
| "delete_action (Publish p e) s = Inr (free_event e s)"
| "delete_action (InitConsumer c) s = Inr (delete_ConsumerImpl c s)"
| "delete_action (DestroyProducer p) s = Inr s"
| "delete_action (DestroyConsumer c) s = Inr s"

definition delete_OldBroker :: "'u world \<Rightarrow> 'u world result" where
  "delete_OldBroker s =
     bind_r (for_each delete_action (pending_actions s) (s\<lparr>pending_actions := []\<rparr>))
       (\<lambda>s1. let s2 = fold delete_ConsumerImpl (consumers s1) (s1\<lparr>consumers := []\<rparr>)
             in for_each delete_ProducerImpl (producers s2) (s2\<lparr>producers := []\<rparr>))"

lemmas client_op_defs [client_ops] = Producer_new_def Producer_publish_def Producer_delete_def Consumer_new_def Consumer_delete_def
  make_producer_def new_ProducerImpl_def publish_def destroy_producer_def make_consumer_def
  destroy_consumer_def enqueue_def clone_event_def make_snapshot_handler_def snapshot_init_def classes_of_def
  Let_def

lemmas broker_op_defs [broker_ops] = visit_init_producer_def visit_publish_def visit_destroy_producer_def visit_init_consumer_def
  visit_destroy_consumer_def producer_init_def producer_publish_def delete_ProducerImpl_def
  delete_ConsumerImpl_def maybe_add_def maybe_remove_def notify_def typed_notification_def dynamic_cast_def
  is_match_def any_filter_def name_filter_def snapshot_add_new_event_def free_event_def

end
