(* ===== verification/Broker_Invariant.thy ===== *)
theory Broker_Invariant
  imports Old_Broker
begin

text \<open>
  Ownership, lifetime, typing and routing of the broker's objects. \<open>core_inv\<close> says that
  every live object has exactly one owner, that the queued actions only refer to objects
  that will be alive when they run, and that events and handlers agree on their types;
  \<open>client_frame\<close> says what client code may change; \<open>routed\<close> that a producer's
  list of consumers is exactly the matching ones. Client programs keep \<open>core_inv\<close>
  and never cause a fault of the broker, whatever they call, from wherever they run.
\<close>

section \<open>What the queue owns and refers to\<close>

fun init_producers :: "Action list \<Rightarrow> addr list" where
  "init_producers [] = []"
| "init_producers (InitProducer p # q) = p # init_producers q"
| "init_producers (a # q) = init_producers q"

fun init_consumers :: "Action list \<Rightarrow> addr list" where
  "init_consumers [] = []"
| "init_consumers (InitConsumer c # q) = c # init_consumers q"
| "init_consumers (a # q) = init_consumers q"

fun queued_events :: "Action list \<Rightarrow> addr list" where
  "queued_events [] = []"
| "queued_events (Publish p e # q) = e # queued_events q"
| "queued_events (a # q) = queued_events q"

text \<open>
  \<open>queue_ok q P C HP HC\<close>: run from live producers \<open>P\<close> and consumers \<open>C\<close>,
  the actions of \<open>q\<close> refer to live objects only, and leave exactly the objects
  \<open>HP\<close> and \<open>HC\<close>, those the client still has a handle for.
\<close>

fun queue_ok :: "Action list \<Rightarrow> addr set \<Rightarrow> addr set \<Rightarrow> addr set \<Rightarrow> addr set \<Rightarrow> bool" where
  "queue_ok [] P C HP HC \<longleftrightarrow> P = HP \<and> C = HC"
| "queue_ok (InitProducer p # q) P C HP HC \<longleftrightarrow> p \<notin> P \<and> queue_ok q (insert p P) C HP HC"
| "queue_ok (DestroyProducer p # q) P C HP HC \<longleftrightarrow> p \<in> P \<and> queue_ok q (P - {p}) C HP HC"
| "queue_ok (Publish p e # q) P C HP HC \<longleftrightarrow> p \<in> P \<and> queue_ok q P C HP HC"
| "queue_ok (InitConsumer c # q) P C HP HC \<longleftrightarrow> c \<notin> C \<and> queue_ok q P (insert c C) HP HC"
| "queue_ok (DestroyConsumer c # q) P C HP HC \<longleftrightarrow> c \<in> C \<and> queue_ok q P (C - {c}) HP HC"

lemma init_producers_append [simp]: "init_producers (q @ r) = init_producers q @ init_producers r"
  by (induction q rule: init_producers.induct) auto

lemma init_consumers_append [simp]: "init_consumers (q @ r) = init_consumers q @ init_consumers r"
  by (induction q rule: init_consumers.induct) auto

lemma queued_events_append [simp]: "queued_events (q @ r) = queued_events q @ queued_events r"
  by (induction q rule: queued_events.induct) auto

lemma set_queued_events: "e \<in> set (queued_events q) \<longleftrightarrow> (\<exists>p. Publish p e \<in> set q)"
  by (induction q rule: queued_events.induct) auto

text \<open>Appending one action acts on the final sets.\<close>

lemma queue_ok_snoc:
  "queue_ok (q @ [a]) P C HP' HC' \<longleftrightarrow>
     (\<exists>HP HC. queue_ok q P C HP HC \<and> queue_ok [a] HP HC HP' HC')"
proof (induction q arbitrary: P C)
  case (Cons x q)
  then show ?case by (cases x) auto
qed auto

lemma queue_ok_handles:
  "queue_ok q P C HP HC \<Longrightarrow> HP \<subseteq> P \<union> set (init_producers q) \<and> HC \<subseteq> C \<union> set (init_consumers q)"
  by (induction q P C HP HC rule: queue_ok.induct) auto

lemma queue_ok_publish:
  "queue_ok q P C HP HC \<Longrightarrow> Publish p e \<in> set q \<Longrightarrow> p \<in> P \<union> set (init_producers q)"
  by (induction q P C HP HC rule: queue_ok.induct) auto

section \<open>The invariant\<close>

text \<open>
  \<open>xp\<close> and \<open>xe\<close> are producers and events owned by a local variable of the action
  being executed rather than by a vector or the queue.
\<close>

definition owned_inv :: "addr list \<Rightarrow> addr list \<Rightarrow> 'u world \<Rightarrow> bool" where
  "owned_inv xp xe s \<longleftrightarrow>
     distinct (xp @ producers s @ init_producers (pending_actions s)) \<and>
     dom (producer_heap s) = set (xp @ producers s @ init_producers (pending_actions s)) \<and>
     distinct (consumers s @ init_consumers (pending_actions s)) \<and>
     dom (consumer_heap s) = set (consumers s @ init_consumers (pending_actions s)) \<and>
     distinct (xe @ queued_events (pending_actions s)) \<and>
     dom (event_heap s) = set (xe @ queued_events (pending_actions s))"

definition lifetime_inv :: "'u world \<Rightarrow> bool" where
  "lifetime_inv s \<longleftrightarrow>
     queue_ok (pending_actions s) (set (producers s)) (set (consumers s))
       (dom (producer_handles s)) (dom (consumer_handles s)) \<and>
     (\<forall>a \<in> dom (producer_heap s) \<union> dom (consumer_heap s) \<union> dom (event_heap s). a < next_addr s) \<and>
     (\<forall>p \<in> set (init_producers (pending_actions s)). \<forall>P. producer_heap s p = Some P \<longrightarrow> p_consumers P = [])"

text \<open>A consumer's handler is in place, and of its filter's type, while the client has the handle.\<close>

definition handler_ok :: "bool \<Rightarrow> 'u ConsumerImpl \<Rightarrow> bool" where
  "handler_ok has_handle ci =
     (case c_notify ci of Untyped t h \<Rightarrow> t = f_type (c_filter ci) \<and> has_handle | Ignore \<Rightarrow> \<not> has_handle)"

definition typing_inv :: "'u world \<Rightarrow> bool" where
  "typing_inv s \<longleftrightarrow>
     (\<forall>p t. producer_handles s p = Some t \<longrightarrow> (\<exists>P. producer_heap s p = Some P \<and> t_type (p_topic P) = t)) \<and>
     (\<forall>c ci. consumer_heap s c = Some ci \<longrightarrow>
        handler_ok (c \<in> dom (consumer_handles s)) ci) \<and>
     (\<forall>p e P ev. Publish p e \<in> set (pending_actions s) \<longrightarrow> producer_heap s p = Some P \<longrightarrow>
        event_heap s e = Some ev \<longrightarrow> ev_classes ev = classes_of (stream_event s (t_type (p_topic P)))) \<and>
     (\<forall>x \<in> set (trace s). None \<notin> set (events (snd (snd x))))"

definition core_inv :: "addr list \<Rightarrow> addr list \<Rightarrow> 'u world \<Rightarrow> bool" where
  "core_inv xp xe s \<longleftrightarrow> owned_inv xp xe s \<and> lifetime_inv s \<and> typing_inv s"

lemmas core_inv_defs = core_inv_def owned_inv_def lifetime_inv_def typing_inv_def

text \<open>
  \<open>object_frame s s'\<close>: between the two states objects have been created and destroyed,
  but never brought back, and those that live on have kept their identity.
\<close>

definition object_frame :: "'u world \<Rightarrow> 'u world \<Rightarrow> bool" where
  "object_frame s s' \<longleftrightarrow>
     (\<forall>a<next_addr s.
        (producer_heap s' a = None \<or>
           map_option p_topic (producer_heap s' a) = map_option p_topic (producer_heap s a) \<and>
           map_option p_id (producer_heap s' a) = map_option p_id (producer_heap s a)) \<and>
        (consumer_heap s' a = None \<or>
           map_option c_filter (consumer_heap s' a) = map_option c_filter (consumer_heap s a)))"

text \<open>
  \<open>trace_frame s s'\<close>: moreover no handler of an object without handle has been called,
  and no handle has come back.
\<close>

definition trace_frame :: "'u world \<Rightarrow> 'u world \<Rightarrow> bool" where
  "trace_frame s s' \<longleftrightarrow>
     object_frame s s' \<and> next_addr s \<le> next_addr s' \<and>
     (\<forall>a<next_addr s. consumer_handles s a = None \<longrightarrow> consumer_handles s' a = None) \<and>
     (\<exists>t. trace s' = trace s @ t \<and>
        (\<forall>x\<in>set t. fst x \<in> dom (consumer_handles s) \<or> next_addr s \<le> fst x))"

lemma object_frame_refl [simp]: "object_frame s s"
  by (simp add: object_frame_def)

lemma object_frame_trans:
  assumes "object_frame s s'" and "object_frame s' s''" and "next_addr s \<le> next_addr s'"
  shows "object_frame s s''"
  unfolding object_frame_def
proof (intro allI impI)
  fix a assume "a < next_addr s"
  then show "(producer_heap s'' a = None \<or>
           map_option p_topic (producer_heap s'' a) = map_option p_topic (producer_heap s a) \<and>
           map_option p_id (producer_heap s'' a) = map_option p_id (producer_heap s a)) \<and>
        (consumer_heap s'' a = None \<or>
           map_option c_filter (consumer_heap s'' a) = map_option c_filter (consumer_heap s a))"
    using assms unfolding object_frame_def by (metis None_eq_map_option_iff order_less_le_trans)
qed

lemma trace_frame_refl: "trace_frame s s"
  by (simp add: trace_frame_def)

lemma trace_frame_trans:
  assumes f: "trace_frame s s'" and g: "trace_frame s' s''"
  shows "trace_frame s s''"
proof -
  have le: "next_addr s \<le> next_addr s'" "next_addr s' \<le> next_addr s''"
    and gone: "a < next_addr s \<Longrightarrow> consumer_handles s a = None \<Longrightarrow> consumer_handles s' a = None"
      "a < next_addr s' \<Longrightarrow> consumer_handles s' a = None \<Longrightarrow> consumer_handles s'' a = None" for a
    using f g unfolding trace_frame_def by blast+
  obtain t t' where t: "trace s'' = trace s @ t @ t'"
    "\<forall>x\<in>set t. fst x \<in> dom (consumer_handles s) \<or> next_addr s \<le> fst x"
    "\<forall>x\<in>set t'. fst x \<in> dom (consumer_handles s') \<or> next_addr s' \<le> fst x"
    using f g unfolding trace_frame_def by auto
  have "fst x \<in> dom (consumer_handles s) \<or> next_addr s \<le> fst x" if "x \<in> set t'" for x
    using t(3) that gone(1) [of "fst x"] le(1) by (meson domIff not_less order_trans)
  then have "\<forall>x\<in>set (t @ t'). fst x \<in> dom (consumer_handles s) \<or> next_addr s \<le> fst x"
    using t(2) unfolding set_append ball_Un by blast
  then have "\<exists>u. trace s'' = trace s @ u \<and> (\<forall>x\<in>set u. fst x \<in> dom (consumer_handles s) \<or> next_addr s \<le> fst x)"
    using t(1) by blast
  then show ?thesis
    unfolding trace_frame_def using gone le object_frame_trans [of s s' s''] f g
    by (meson order_less_le_trans order_trans trace_frame_def)
qed

text \<open>
  What an action may do to the rest of the system while handlers run: actions are appended,
  objects created and handles given up; existing objects keep their contents, filters
  included, except for the consumer lists of the producers in \<open>A\<close>. Client code itself
  stays within the frame for the empty set.
\<close>

definition world_frame :: "addr set \<Rightarrow> 'u world \<Rightarrow> 'u world \<Rightarrow> bool" where
  "world_frame A s s' \<longleftrightarrow>
     trace_frame s s' \<and>
     ndebug s' = ndebug s \<and> stream_event s' = stream_event s \<and>
     producers s' = producers s \<and> consumers s' = consumers s \<and>
     (\<exists>q. pending_actions s' = pending_actions s @ q) \<and>
     (\<forall>a<next_addr s. event_heap s' a = event_heap s a \<and>
        (a \<notin> A \<longrightarrow> producer_heap s' a = producer_heap s a) \<and>
        map_option p_topic (producer_heap s' a) = map_option p_topic (producer_heap s a) \<and>
        map_option c_filter (consumer_heap s' a) = map_option c_filter (consumer_heap s a) \<and>
        map_option p_id (producer_heap s' a) = map_option p_id (producer_heap s a))"

abbreviation client_frame :: "'u world \<Rightarrow> 'u world \<Rightarrow> bool" where
  "client_frame \<equiv> world_frame {}"

lemmas client_frame_def = world_frame_def [of "{}"] trace_frame_def object_frame_def

lemma world_frame_refl: "world_frame A s s"
  by (simp add: world_frame_def trace_frame_refl)

text \<open>Projections of the frame, so that proofs need not unfold it.\<close>

lemma world_frameD:
  assumes "world_frame A s s'"
  shows "trace_frame s s'" and "producers s' = producers s" and "consumers s' = consumers s"
    and "stream_event s' = stream_event s" and "ndebug s' = ndebug s" and "next_addr s \<le> next_addr s'"
    and "\<exists>q. pending_actions s' = pending_actions s @ q"
    and "a < next_addr s \<Longrightarrow> event_heap s' a = event_heap s a"
    and "a < next_addr s \<Longrightarrow> a \<notin> A \<Longrightarrow> producer_heap s' a = producer_heap s a"
    and "a < next_addr s \<Longrightarrow> map_option p_topic (producer_heap s' a) = map_option p_topic (producer_heap s a)"
    and "a < next_addr s \<Longrightarrow> map_option c_filter (consumer_heap s' a) = map_option c_filter (consumer_heap s a)"
    and "a < next_addr s \<Longrightarrow> map_option p_id (producer_heap s' a) = map_option p_id (producer_heap s a)"
  using assms unfolding world_frame_def trace_frame_def by blast+

lemma world_frame_trans:
  assumes f: "world_frame A s s'" and g: "world_frame B s' s''"
  shows "world_frame (A \<union> B) s s''"
proof -
  note fd = world_frameD [OF f] and gd = world_frameD [OF g]
  have le: "a < next_addr s \<Longrightarrow> a < next_addr s'" for a using fd(6) by linarith
  have q: "\<exists>q. pending_actions s'' = pending_actions s @ q"
    using fd(7) gd(7) by auto
  show ?thesis
    unfolding world_frame_def using fd(2-5,8-12) gd(2-5,8-12) le q trace_frame_trans [OF fd(1) gd(1)] by simp
qed

lemma world_frame_mono: "world_frame A s s' \<Longrightarrow> A \<subseteq> B \<Longrightarrow> world_frame B s s'"
  unfolding world_frame_def by blast

lemma client_frame_trans: "client_frame s s' \<Longrightarrow> client_frame s' s'' \<Longrightarrow> client_frame s s''"
  using world_frame_trans [of "{}" s s' "{}" s''] by simp

section \<open>Client calls keep the invariant\<close>

lemma core_inv_bound:
  assumes "core_inv xp xe s"
  shows "producer_heap s a = Some P \<Longrightarrow> a < next_addr s"
    and "consumer_heap s a = Some ci \<Longrightarrow> a < next_addr s"
    and "event_heap s a = Some ev \<Longrightarrow> a < next_addr s"
  using assms unfolding core_inv_def lifetime_inv_def by blast+

lemma core_inv_fresh:
  assumes "core_inv xp xe s" and "next_addr s \<le> a"
  shows "producer_heap s a = None" and "consumer_heap s a = None" and "event_heap s a = None"
    and "a \<notin> set xp" and "a \<notin> set (producers s)" and "a \<notin> set (init_producers (pending_actions s))"
    and "a \<notin> set (consumers s)" and "a \<notin> set (init_consumers (pending_actions s))"
    and "a \<notin> set (queued_events (pending_actions s))" and "a \<notin> set xe"
    and "producer_handles s a = None" and "consumer_handles s a = None"
    and "Publish a e \<notin> set (pending_actions s)"
proof -
  show n: "producer_heap s a = None" "consumer_heap s a = None" "event_heap s a = None"
    using core_inv_bound [OF assms(1), of a] assms(2) by (metis not_less option.exhaust)+
  then have "a \<notin> dom (producer_heap s)" "a \<notin> dom (consumer_heap s)" "a \<notin> dom (event_heap s)"
    by (simp_all add: domIff)
  then show nm: "a \<notin> set xp" "a \<notin> set (producers s)" "a \<notin> set (init_producers (pending_actions s))"
    "a \<notin> set (consumers s)" "a \<notin> set (init_consumers (pending_actions s))"
    "a \<notin> set (queued_events (pending_actions s))" "a \<notin> set xe"
    using assms(1) by (auto simp: core_inv_def owned_inv_def)
  have "dom (producer_handles s) \<subseteq> set (producers s) \<union> set (init_producers (pending_actions s))"
    "dom (consumer_handles s) \<subseteq> set (consumers s) \<union> set (init_consumers (pending_actions s))"
    using assms(1) queue_ok_handles unfolding core_inv_def lifetime_inv_def by blast+
  with nm show "producer_handles s a = None" "consumer_handles s a = None"
    by auto
  show "Publish a e \<notin> set (pending_actions s)"
    using assms(1) nm queue_ok_publish unfolding core_inv_def lifetime_inv_def by fastforce
qed

lemma convert_snapshot_eq:
  assumes "convert_snapshot t evs s = (es, s1)"
  shows "es = [next_addr s ..< next_addr s + length evs] \<and>
    (\<exists>h. s1 = s\<lparr>next_addr := next_addr s + length evs, event_heap := h\<rparr> \<and>
       (\<forall>a. a \<notin> set es \<longrightarrow> h a = event_heap s a))"
  using assms
proof (induction evs arbitrary: s es s1)
  case Nil
  then show ?case by (auto intro: exI [of _ "event_heap s"])
next
  case (Cons ev evs)
  obtain e s0 where c: "clone_event t ev s = (e, s0)" by fastforce
  obtain es' where cs: "convert_snapshot t evs s0 = (es', s1)" "es = e # es'"
    using Cons.prems c by (auto split: prod.splits)
  have e: "e = next_addr s"
    and s0: "s0 = s\<lparr>next_addr := Suc e, event_heap := (event_heap s)(e \<mapsto> ev\<lparr>ev_classes := classes_of (stream_event s t)\<rparr>)\<rparr>"
    using c by (auto simp: clone_event_def Let_def)
  from Cons.IH [OF cs(1)] obtain h where h: "es' = [next_addr s0 ..< next_addr s0 + length evs]"
    "s1 = s0\<lparr>next_addr := next_addr s0 + length evs, event_heap := h\<rparr>"
    "\<forall>a. a \<notin> set es' \<longrightarrow> h a = event_heap s0 a" by blast
  have "es = [next_addr s ..< next_addr s + length (ev # evs)]"
    using cs(2) h(1) e s0 by (simp add: upt_conv_Cons del: upt_Suc)
  moreover have "s1 = s\<lparr>next_addr := next_addr s + length (ev # evs), event_heap := h\<rparr>"
    using h(2) s0 e by simp
  moreover have "\<forall>a. a \<notin> set es \<longrightarrow> h a = event_heap s a"
    using h(3) s0 cs(2) by auto
  ultimately show ?case by blast
qed

lemma fold_free_event:
  "fold free_event es s = s\<lparr>event_heap := (\<lambda>a. if a \<in> set es then None else event_heap s a)\<rparr>"
  by (induction es arbitrary: s) (auto simp: free_event_def fun_eq_iff intro!: world.equality)

text \<open>The cloned snapshot comes and goes: all that remains is a queued producer.\<close>

lemma Producer_new_eq:
  assumes "\<And>a. next_addr s \<le> a \<Longrightarrow> event_heap s a = None"
  shows "Producer_new t nm snapshot s =
    (let p = next_addr s + length snapshot in
      (p, s\<lparr>current_stream_id := current_stream_id s + 1, next_addr := Suc p,
            producer_heap := (producer_heap s)(p \<mapsto> \<lparr>p_id = current_stream_id s + 1,
              p_topic = \<lparr>t_type = t, t_name = nm\<rparr>, p_snapshot_handler = NullSnapshotHandler [], p_consumers = []\<rparr>),
            pending_actions := pending_actions s @ [InitProducer p],
            producer_handles := (producer_handles s)(p \<mapsto> t)\<rparr>))"
proof -
  obtain es s1 where c: "convert_snapshot t snapshot s = (es, s1)" by fastforce
  from convert_snapshot_eq [OF c] obtain h where h: "es = [next_addr s ..< next_addr s + length snapshot]"
    "s1 = s\<lparr>next_addr := next_addr s + length snapshot, event_heap := h\<rparr>"
    "\<forall>a. a \<notin> set es \<longrightarrow> h a = event_heap s a" by blast
  have "(\<lambda>a. if a \<in> set es then None else h a) = event_heap s"
    using h(3) assms h(1) by (auto simp: fun_eq_iff)
  then show ?thesis
    unfolding Producer_new_def c
    by (auto simp: make_producer_def new_ProducerImpl_def enqueue_def fold_free_event h(2) Let_def
        make_snapshot_handler_def snapshot_init_def intro!: world.equality cong: if_cong)
qed

lemma Producer_new_inv:
  assumes inv: "core_inv xp xe s" and new: "Producer_new t nm snapshot s = (p, s')"
  shows "core_inv xp xe s'" and "client_frame s s'"
proof -
  let ?p = "next_addr s + length snapshot"
  let ?impl = "\<lparr>p_id = current_stream_id s + 1, p_topic = \<lparr>t_type = t, t_name = nm\<rparr>,
    p_snapshot_handler = NullSnapshotHandler [], p_consumers = []\<rparr>"
  note fresh = core_inv_fresh [OF inv, of ?p, simplified]
  have s': "s' = s\<lparr>current_stream_id := current_stream_id s + 1, next_addr := Suc ?p,
      producer_heap := (producer_heap s)(?p \<mapsto> ?impl),
      pending_actions := pending_actions s @ [InitProducer ?p],
      producer_handles := (producer_handles s)(?p \<mapsto> t)\<rparr>"
    using new core_inv_fresh(3) [OF inv] by (auto simp: Producer_new_eq Let_def)
  have "owned_inv xp xe s'"
    using inv fresh by (auto simp: core_inv_def owned_inv_def s')
  moreover have "queue_ok (pending_actions s') (set (producers s')) (set (consumers s'))
      (dom (producer_handles s')) (dom (consumer_handles s'))"
    using inv fresh(11) unfolding core_inv_def lifetime_inv_def
    by (auto simp: s' queue_ok_snoc domIff intro!: exI [of _ "dom (producer_handles s)"])
  then have "lifetime_inv s'"
    using inv unfolding core_inv_def lifetime_inv_def by (auto simp: s' less_Suc_eq trans_less_add1)
  moreover have "typing_inv s'"
    using inv fresh unfolding core_inv_def typing_inv_def by (auto simp: s')
  ultimately show "core_inv xp xe s'" by (simp add: core_inv_def)
  show "client_frame s s'"
    by (auto simp: client_frame_def s')
qed

lemma Producer_publish_safe:
  assumes inv: "core_inv xp xe s"
  shows "safe_r (\<lambda>s'. core_inv xp xe s' \<and> client_frame s s') (Producer_publish p ev s)"
proof (cases "producer_handles s p")
  case None
  then show ?thesis by (simp add: Producer_publish_def)
next
  case (Some t)
  let ?e = "next_addr s"
  let ?s = "s\<lparr>next_addr := Suc ?e,
      event_heap := (event_heap s)(?e \<mapsto> ev\<lparr>ev_classes := classes_of (stream_event s t)\<rparr>),
      pending_actions := pending_actions s @ [Publish p ?e]\<rparr>"
  note fresh = core_inv_fresh [OF inv, of ?e, simplified]
  obtain P where P: "producer_heap s p = Some P" "t_type (p_topic P) = t"
    using inv Some unfolding core_inv_def typing_inv_def by blast
  have nopub: "Publish q ?e \<notin> set (pending_actions s)" for q
    using fresh(9) set_queued_events by metis
  have "owned_inv xp xe ?s"
    using inv fresh by (auto simp: core_inv_def owned_inv_def)
  moreover have "queue_ok (pending_actions ?s) (set (producers ?s)) (set (consumers ?s))
      (dom (producer_handles ?s)) (dom (consumer_handles ?s))"
    using inv Some unfolding core_inv_def lifetime_inv_def
    by (auto simp: queue_ok_snoc intro!: exI [of _ "dom (producer_handles s)"])
  then have "lifetime_inv ?s"
    using inv unfolding core_inv_def lifetime_inv_def by (auto simp: less_Suc_eq)
  moreover have "typing_inv ?s"
    using inv P nopub unfolding core_inv_def typing_inv_def
    by auto
  ultimately have "core_inv xp xe ?s" by (simp add: core_inv_def)
  moreover have "client_frame s ?s"
    by (auto simp: client_frame_def)
  moreover have "Producer_publish p ev s = Inr ?s"
    using Some by (simp add: Producer_publish_def clone_event_def publish_def enqueue_def Let_def)
  ultimately show ?thesis by simp
qed

lemma Producer_delete_safe:
  assumes inv: "core_inv xp xe s"
  shows "safe_r (\<lambda>s'. core_inv xp xe s' \<and> client_frame s s') (Producer_delete p s)"
proof (cases "producer_handles s p")
  case None
  then show ?thesis by (simp add: Producer_delete_def)
next
  case (Some t)
  let ?s = "s\<lparr>pending_actions := pending_actions s @ [DestroyProducer p],
      producer_handles := (producer_handles s)(p := None)\<rparr>"
  have "owned_inv xp xe ?s"
    using inv by (auto simp: core_inv_def owned_inv_def)
  moreover have "queue_ok (pending_actions ?s) (set (producers ?s)) (set (consumers ?s))
      (dom (producer_handles ?s)) (dom (consumer_handles ?s))"
    using inv Some unfolding core_inv_def lifetime_inv_def
    by (auto simp: queue_ok_snoc intro!: exI [of _ "dom (producer_handles s)"])
  then have "lifetime_inv ?s"
    using inv unfolding core_inv_def lifetime_inv_def by auto
  moreover have "typing_inv ?s"
    using inv unfolding core_inv_def typing_inv_def by auto
  ultimately have "core_inv xp xe ?s" by (simp add: core_inv_def)
  moreover have "client_frame s ?s"
    by (auto simp: client_frame_def)
  moreover have "Producer_delete p s = Inr ?s"
    using Some by (simp add: Producer_delete_def destroy_producer_def enqueue_def Let_def)
  ultimately show ?thesis by simp
qed

lemma Consumer_new_inv:
  assumes inv: "core_inv xp xe s" and new: "Consumer_new t f h s = (c, s')"
  shows "core_inv xp xe s'" and "client_frame s s'"
proof -
  let ?c = "next_addr s"
  note fresh = core_inv_fresh [OF inv, of ?c, simplified]
  have s': "s' = s\<lparr>next_addr := Suc ?c,
      consumer_heap := (consumer_heap s)(?c \<mapsto> \<lparr>c_filter = \<lparr>f_type = t, f_is_match = f\<rparr>, c_notify = Untyped t h\<rparr>),
      pending_actions := pending_actions s @ [InitConsumer ?c],
      consumer_handles := (consumer_handles s)(?c \<mapsto> t)\<rparr>"
    using new by (auto simp: Consumer_new_def make_consumer_def enqueue_def Let_def)
  have "owned_inv xp xe s'"
    using inv fresh by (auto simp: core_inv_def owned_inv_def s')
  moreover have "queue_ok (pending_actions s') (set (producers s')) (set (consumers s'))
      (dom (producer_handles s')) (dom (consumer_handles s'))"
    using inv fresh(12) unfolding core_inv_def lifetime_inv_def
    by (auto simp: s' queue_ok_snoc domIff intro!: exI [of _ "dom (consumer_handles s)"])
  then have "lifetime_inv s'"
    using inv unfolding core_inv_def lifetime_inv_def by (auto simp: s' less_Suc_eq)
  moreover have "typing_inv s'"
    using inv fresh unfolding core_inv_def typing_inv_def 
    by (auto simp: s' handler_ok_def [of _ "\<lparr>c_filter = \<lparr>f_type = t, f_is_match = f\<rparr>, c_notify = Untyped t h\<rparr>"])
  ultimately show "core_inv xp xe s'" by (simp add: core_inv_def)
  show "client_frame s s'"
    by (auto simp: client_frame_def s')
qed

lemma Consumer_delete_safe:
  assumes inv: "core_inv xp xe s"
  shows "safe_r (\<lambda>s'. core_inv xp xe s' \<and> client_frame s s') (Consumer_delete c s)"
proof (cases "consumer_handles s c")
  case None
  then show ?thesis by (simp add: Consumer_delete_def)
next
  case (Some t)
  then have "c \<in> dom (consumer_heap s)"
    using inv queue_ok_handles unfolding core_inv_def lifetime_inv_def owned_inv_def
    by (metis (no_types, opaque_lifting) domI set_append subset_iff)
  then obtain ci where ci: "consumer_heap s c = Some ci" by auto
  let ?s = "s\<lparr>consumer_heap := (consumer_heap s)(c \<mapsto> ci\<lparr>c_notify := Ignore\<rparr>),
      pending_actions := pending_actions s @ [DestroyConsumer c],
      consumer_handles := (consumer_handles s)(c := None)\<rparr>"
  have "owned_inv xp xe ?s"
    using inv ci by (auto simp: core_inv_def owned_inv_def)
  moreover have "queue_ok (pending_actions ?s) (set (producers ?s)) (set (consumers ?s))
      (dom (producer_handles ?s)) (dom (consumer_handles ?s))"
    using inv Some unfolding core_inv_def lifetime_inv_def
    by (auto simp: queue_ok_snoc intro!: exI [of _ "dom (consumer_handles s)"])
  then have "lifetime_inv ?s"
    using inv ci unfolding core_inv_def lifetime_inv_def by auto
  moreover have "typing_inv ?s"
    using inv unfolding core_inv_def typing_inv_def by (auto simp: handler_ok_def [of _ "ci\<lparr>c_notify := Ignore\<rparr>"])
  ultimately have "core_inv xp xe ?s" by (simp add: core_inv_def)
  moreover have "client_frame s ?s"
    using ci by (auto simp: client_frame_def)
  moreover have "Consumer_delete c s = Inr ?s"
    using Some ci by (simp add: Consumer_delete_def destroy_consumer_def enqueue_def)
  ultimately show ?thesis by simp
qed

text \<open>Sequencing: the frames of two steps compose.\<close>

lemma safe_frame_weaken:
  assumes "world_frame A s s'" and "safe_r (\<lambda>s''. I s'' \<and> world_frame B s' s'') m"
  shows "safe_r (\<lambda>s''. I s'' \<and> world_frame (A \<union> B) s s'') m"
  using assms(2) by (rule safe_r_mono) (use assms(1) world_frame_trans in blast)

lemma safe_frame_bind:
  assumes "safe_r (\<lambda>s'. I s' \<and> world_frame A s s') m"
    and "\<And>s'. I s' \<Longrightarrow> world_frame A s s' \<Longrightarrow> safe_r (\<lambda>s''. J s'' \<and> world_frame B s' s'') (f s')"
  shows "safe_r (\<lambda>s''. J s'' \<and> world_frame (A \<union> B) s s'') (bind_r m f)"
  using assms(1) by (rule safe_r_bind) (use assms(2) safe_frame_weaken in blast)

text \<open>Any client program, in any state, keeps the invariant and stays within the frame.\<close>

lemma run_client_safe:
  "core_inv xp xe s \<Longrightarrow> safe_r (\<lambda>s'. core_inv xp xe s' \<and> client_frame s s') (run_client prog s)"
proof (induction prog arbitrary: s)
  case (Done u)
  have "core_inv xp xe (s\<lparr>user := u\<rparr>)"
    using Done by (auto simp: core_inv_defs)
  moreover have "client_frame s (s\<lparr>user := u\<rparr>)"
    by (auto simp: client_frame_def)
  ultimately show ?case by simp
next
  case (NewProducer t nm snapshot k)
  obtain p s1 where new: "Producer_new t nm snapshot s = (p, s1)" by fastforce
  note i = Producer_new_inv [OF NewProducer.prems new]
  from safe_frame_weaken [OF i(2) NewProducer.IH [OF rangeI i(1), of p]] new show ?case by simp
next
  case (NewConsumer t f h k)
  obtain c s1 where new: "Consumer_new t f h s = (c, s1)" by fastforce
  note i = Consumer_new_inv [OF NewConsumer.prems new]
  from safe_frame_weaken [OF i(2) NewConsumer.IH(2) [OF rangeI i(1), of c]] new show ?case by simp
next
  case (PublishEvent p ev k)
  from safe_frame_bind [OF Producer_publish_safe [OF PublishEvent.prems] PublishEvent.IH] show ?case by simp
next
  case (DeleteProducer p k)
  from safe_frame_bind [OF Producer_delete_safe [OF DeleteProducer.prems] DeleteProducer.IH] show ?case by simp
next
  case (DeleteConsumer c k)
  from safe_frame_bind [OF Consumer_delete_safe [OF DeleteConsumer.prems] DeleteConsumer.IH] show ?case by simp
qed

end
