(* ===== verification/Broker_Safety.thy ===== *)
theory Broker_Safety
  imports Broker_Invariant
begin

text \<open>
  Running the queue: every handler call and every action keeps the invariant. From it
  follow memory safety of the broker for arbitrary client code, exact routing, type
  safety of the events handed out, absence of leaks, and silence towards consumers that
  have been destroyed.
\<close>

section \<open>Calling handlers\<close>

definition notify_pre :: "NotificationImpl \<Rightarrow> addr \<Rightarrow> 'u world \<Rightarrow> bool" where
  "notify_pre m c s \<longleftrightarrow>
     (\<exists>ci P. consumer_heap s c = Some ci \<and> producer_heap s (n_topic m) = Some P \<and>
        is_match (p_topic P) (c_filter ci) \<and>
        (\<forall>e\<in>set (n_events m). \<exists>ev. event_heap s e = Some ev \<and>
           ev_classes ev = classes_of (stream_event s (t_type (p_topic P)))))"

lemma typed_events_ok:
  "(\<forall>e\<in>set es. \<exists>ev. event_heap s e = Some ev \<and> T \<in> set (ev_classes ev)) \<Longrightarrow>
     \<exists>evs. typed_events T es s = Inr evs \<and> None \<notin> set evs"
  by (induction es) (auto simp: dynamic_cast_def)

lemma typed_notification_ok:
  assumes "producer_heap s (n_topic m) = Some P"
    and "\<forall>e\<in>set (n_events m). \<exists>ev. event_heap s e = Some ev \<and> ev_classes ev = classes_of (stream_event s t)"
  shows "\<exists>n. typed_notification t m s = Inr n \<and> None \<notin> set (events n)"
proof -
  have "\<forall>e\<in>set (n_events m). \<exists>ev. event_heap s e = Some ev \<and> fst (stream_event s t) \<in> set (ev_classes ev)"
    using assms(2) by (auto simp: classes_of_def)
  from typed_events_ok [OF this] assms(1) show ?thesis
    by (auto simp: typed_notification_def)
qed

lemma notify_safe:
  assumes inv: "core_inv xp xe s" and pre: "notify_pre m c s"
  shows "safe_r (\<lambda>s'. core_inv xp xe s' \<and> client_frame s s') (notify m c s)"
proof -
  obtain ci P where c: "consumer_heap s c = Some ci" "producer_heap s (n_topic m) = Some P"
    "is_match (p_topic P) (c_filter ci)"
    "\<forall>e\<in>set (n_events m). \<exists>ev. event_heap s e = Some ev \<and>
           ev_classes ev = classes_of (stream_event s (t_type (p_topic P)))"
    using pre by (auto simp: notify_pre_def)
  have ok: "handler_ok (c \<in> dom (consumer_handles s)) ci"
    using inv c(1) unfolding core_inv_def typing_inv_def by blast
  show ?thesis
  proof (cases "c_notify ci")
    case Ignore
    then show ?thesis using inv c(1) by (simp add: notify_def world_frame_refl)
  next
    case (Untyped t h)
    have t: "t = t_type (p_topic P)" and handle: "c \<in> dom (consumer_handles s)"
      using ok Untyped c(3) by (simp_all add: handler_ok_def is_match_def)
    obtain n where n: "typed_notification t m s = Inr n" "None \<notin> set (events n)"
      using typed_notification_ok [OF c(2), of t] c(4) t by auto
    let ?s = "s\<lparr>trace := trace s @ [(c, m, n)]\<rparr>"
    have "core_inv xp xe ?s"
      using inv n(2) by (auto simp: core_inv_defs)
    moreover have "client_frame s ?s"
      using handle by (auto simp: client_frame_def)
    ultimately have "safe_r (\<lambda>s'. core_inv xp xe s' \<and> client_frame s s') (run_client (h n (user s)) ?s)"
      using safe_frame_weaken [OF _ run_client_safe, of "{}" s ?s] by simp
    then show ?thesis using c(1) Untyped n(1) by (simp add: notify_def)
  qed
qed

lemma notify_pre_frame:
  assumes inv: "core_inv xp xe s" and frame: "world_frame A s s'" and pre: "notify_pre m c s"
  shows "notify_pre m c s'"
proof -
  obtain ci P where c: "consumer_heap s c = Some ci" "producer_heap s (n_topic m) = Some P"
    "is_match (p_topic P) (c_filter ci)"
    "\<forall>e\<in>set (n_events m). \<exists>ev. event_heap s e = Some ev \<and>
           ev_classes ev = classes_of (stream_event s (t_type (p_topic P)))"
    using pre by (auto simp: notify_pre_def)
  note d = world_frameD [OF frame]
  note b = core_inv_bound [OF inv]
  obtain ci' where "consumer_heap s' c = Some ci'" "c_filter ci' = c_filter ci"
    using d(11) [OF b(2) [OF c(1)]] c(1) by auto
  moreover obtain P' where "producer_heap s' (n_topic m) = Some P'" "p_topic P' = p_topic P"
    using d(10) [OF b(1) [OF c(2)]] c(2) by auto
  moreover have "\<forall>e\<in>set (n_events m). \<exists>ev. event_heap s' e = Some ev \<and>
           ev_classes ev = classes_of (stream_event s' (t_type (p_topic P)))"
    using c(4) d(4,8) b(3) by metis
  ultimately show ?thesis using c(3) by (auto simp: notify_pre_def)
qed

interpretation notify_loop: framed_loop "notify m" "core_inv xp xe" client_frame "notify_pre m" for m xp xe
  by unfold_locales (blast intro: world_frame_refl client_frame_trans notify_safe notify_pre_frame)+

section \<open>Routing\<close>

text \<open>\<open>matches s P c\<close>: consumer \<open>c\<close> is alive and its filter accepts the topic of \<open>P\<close>.\<close>

definition matches :: "'u world \<Rightarrow> ProducerImpl \<Rightarrow> addr \<Rightarrow> bool" where
  "matches s P c = (case consumer_heap s c of None \<Rightarrow> False | Some ci \<Rightarrow> is_match (p_topic P) (c_filter ci))"

definition routed :: "'u world \<Rightarrow> addr \<Rightarrow> addr list \<Rightarrow> bool" where
  "routed s p cs \<longleftrightarrow> (\<exists>P. producer_heap s p = Some P \<and> p_consumers P = filter (matches s P) cs)"

definition broker_inv :: "'u world \<Rightarrow> bool" where
  "broker_inv s \<longleftrightarrow> core_inv [] [] s \<and> (\<forall>p\<in>set (producers s). routed s p (consumers s))"

lemma matches_cong:
  "consumer_heap s' = consumer_heap s \<Longrightarrow> p_topic P' = p_topic P \<Longrightarrow> matches s' P' = matches s P"
  by (rule ext) (simp add: matches_def split: option.split)

lemma routed_cong:
  assumes "consumer_heap s' = consumer_heap s" and "producer_heap s' p = producer_heap s p"
  shows "routed s' p cs = routed s p cs"
  using assms matches_cong [OF assms(1)] by (simp add: routed_def)

lemma consumers_stay:
  assumes inv: "core_inv xp xe s" and frame: "world_frame A s s'"
  shows "dom (consumer_heap s) \<subseteq> dom (consumer_heap s')"
proof
  fix a assume "a \<in> dom (consumer_heap s)"
  then show "a \<in> dom (consumer_heap s')"
    using world_frameD(11) [OF frame, of a] core_inv_bound(2) [OF inv, of a]
    by (auto simp: map_option_case split: option.splits)
qed

lemma matches_frame:
  assumes "world_frame A s s'" and "c < next_addr s" and "p_topic P' = p_topic P"
  shows "matches s' P' c = matches s P c"
  using world_frameD(11) [OF assms(1,2)] assms(3)
  by (auto simp: matches_def split: option.splits)

lemma routed_frame:
  assumes inv: "core_inv xp xe s" and frame: "world_frame A s s'" and r: "routed s p cs" and p: "p \<notin> A"
    and cs: "set cs \<subseteq> dom (consumer_heap s)"
  shows "routed s' p cs"
proof -
  obtain P where P: "producer_heap s p = Some P" "p_consumers P = filter (matches s P) cs"
    using r by (auto simp: routed_def)
  have "producer_heap s' p = Some P"
    using world_frameD(9) [OF frame core_inv_bound(1) [OF inv P(1)] p] P(1) by simp
  moreover have "filter (matches s' P) cs = filter (matches s P) cs"
    using matches_frame [OF frame] core_inv_bound(2) [OF inv] cs by (intro filter_cong) auto
  ultimately show ?thesis using P(2) by (simp add: routed_def)
qed

lemma core_inv_set_consumers:
  assumes "core_inv xp xe s" and "producer_heap s p = Some P" and "p \<notin> set (init_producers (pending_actions s))"
  shows "core_inv xp xe (s\<lparr>producer_heap := (producer_heap s)(p \<mapsto> P\<lparr>p_consumers := cs\<rparr>)\<rparr>)"
proof -
  let ?s = "s\<lparr>producer_heap := (producer_heap s)(p \<mapsto> P\<lparr>p_consumers := cs\<rparr>)\<rparr>"
  have "owned_inv xp xe ?s"
    using assms by (auto simp: core_inv_def owned_inv_def)
  moreover have "lifetime_inv ?s"
    using assms unfolding core_inv_def lifetime_inv_def by auto
  moreover have "t_type (p_topic P) = t" if "producer_handles s p = Some t" for t
    using assms(1,2) that unfolding core_inv_def typing_inv_def by fastforce
  then have "typing_inv ?s"
    using assms unfolding core_inv_def typing_inv_def by auto
  ultimately show ?thesis by (simp add: core_inv_def)
qed

text \<open>\<^verbatim>\<open>ProducerImpl::maybe_add\<close> extends the routing of its producer by one consumer.\<close>

lemma maybe_add_safe:
  assumes inv: "core_inv xp xe s" and c: "c \<in> dom (consumer_heap s)" and r: "routed s p cs"
    and init: "p \<notin> set (init_producers (pending_actions s))" and cs: "set cs \<subseteq> dom (consumer_heap s)"
  shows "safe_r (\<lambda>s'. (core_inv xp xe s' \<and> routed s' p (cs @ [c])) \<and> world_frame {p} s s') (maybe_add p c s)"
proof -
  obtain P where P: "producer_heap s p = Some P" "p_consumers P = filter (matches s P) cs"
    using r by (auto simp: routed_def)
  obtain ci where ci: "consumer_heap s c = Some ci" using c by auto
  show ?thesis
  proof (cases "is_match (p_topic P) (c_filter ci)")
    case False
    then have "routed s p (cs @ [c])"
      using P ci by (auto simp: routed_def matches_def)
    then show ?thesis using False P(1) ci inv by (simp add: maybe_add_def world_frame_refl)
  next
    case True
    let ?m = "\<lparr>n_kind = START_PRODUCER, n_events = [], n_stream_id = p_id P, n_topic = p\<rparr>"
    let ?P = "P\<lparr>p_consumers := p_consumers P @ [c]\<rparr>"
    let ?s = "s\<lparr>producer_heap := (producer_heap s)(p \<mapsto> ?P)\<rparr>"
    have i: "core_inv xp xe ?s" by (rule core_inv_set_consumers [OF inv P(1) init])
    have f: "world_frame {p} s ?s"
      using P(1) by (auto simp: world_frame_def trace_frame_def object_frame_def)
    have "matches ?s ?P = matches s P"
      by (rule matches_cong) simp_all
    moreover have "matches s P c" using ci True by (simp add: matches_def)
    ultimately have "p_consumers ?P = filter (matches ?s ?P) (cs @ [c])" using P(2) by simp
    then have r1: "routed ?s p (cs @ [c])"
      unfolding routed_def by (intro exI [of _ ?P]) simp
    have dom: "set (cs @ [c]) \<subseteq> dom (consumer_heap ?s)" using c cs by simp
    have "notify_pre ?m c ?s"
      using ci True by (simp add: notify_pre_def)
    from notify_safe [OF i this]
    have "safe_r (\<lambda>s'. (core_inv xp xe s' \<and> routed s' p (cs @ [c])) \<and> client_frame ?s s') (notify ?m c ?s)"
      by (rule safe_r_mono) (use routed_frame [OF i _ r1 _ dom] in blast)
    from safe_frame_weaken [OF f this] show ?thesis
      using P(1) ci True by (simp add: maybe_add_def)
  qed
qed

section \<open>Actions\<close>

lemma init_outside_queue:
  assumes "core_inv xp xe s" and "p \<in> set (producers s)"
  shows "p \<notin> set (init_producers (pending_actions s))"
  using assms by (auto simp: core_inv_def owned_inv_def)

text \<open>Taking an action off the queue: what it owned is now owned by a vector or a local variable.\<close>

lemma pop_init_producer:
  assumes core: "core_inv [] [] s" and q: "pending_actions s = InitProducer p # q"
  shows "core_inv [] [] (s\<lparr>pending_actions := q, producers := producers s @ [p]\<rparr>)"
    and "p \<notin> set (producers s)" and "\<exists>P. producer_heap s p = Some P \<and> p_consumers P = []"
proof -
  let ?s = "s\<lparr>pending_actions := q, producers := producers s @ [p]\<rparr>"
  have "owned_inv [] [] ?s"
    using core q by (auto simp: core_inv_def owned_inv_def)
  moreover have "lifetime_inv ?s"
    using core q unfolding core_inv_def lifetime_inv_def by auto
  moreover have "typing_inv ?s"
    using core q unfolding core_inv_def typing_inv_def by auto
  ultimately show "core_inv [] [] ?s" by (simp add: core_inv_def)
  have "p \<in> dom (producer_heap s)" using core q by (auto simp: core_inv_def owned_inv_def)
  then show "\<exists>P. producer_heap s p = Some P \<and> p_consumers P = []"
    using core q by (auto simp: core_inv_def lifetime_inv_def)
  show "p \<notin> set (producers s)" using core q by (auto simp: core_inv_def owned_inv_def)
qed

lemma pop_init_consumer:
  assumes core: "core_inv [] [] s" and q: "pending_actions s = InitConsumer c # q"
  shows "core_inv [] [] (s\<lparr>pending_actions := q, consumers := consumers s @ [c]\<rparr>)"
    and "set (consumers s @ [c]) \<subseteq> dom (consumer_heap s)"
proof -
  let ?s = "s\<lparr>pending_actions := q, consumers := consumers s @ [c]\<rparr>"
  have "owned_inv [] [] ?s"
    using core q by (auto simp: core_inv_def owned_inv_def)
  moreover have "lifetime_inv ?s"
    using core q unfolding core_inv_def lifetime_inv_def by auto
  moreover have "typing_inv ?s"
    using core q unfolding core_inv_def typing_inv_def by auto
  ultimately show "core_inv [] [] ?s" by (simp add: core_inv_def)
  show "set (consumers s @ [c]) \<subseteq> dom (consumer_heap s)"
    using core q by (auto simp: core_inv_def owned_inv_def)
qed

lemma pop_publish:
  assumes inv: "broker_inv s" and q: "pending_actions s = Publish p e # q"
  obtains P ev where "core_inv [] [e] (s\<lparr>pending_actions := q\<rparr>)" and "p \<in> set (producers s)"
    and "producer_heap s p = Some P" and "p_consumers P = filter (matches s P) (consumers s)"
    and "event_heap s e = Some ev" and "ev_classes ev = classes_of (stream_event s (t_type (p_topic P)))"
proof -
  let ?s = "s\<lparr>pending_actions := q\<rparr>"
  have core: "core_inv [] [] s" using inv by (simp add: broker_inv_def)
  have p: "p \<in> set (producers s)" using core q by (simp add: core_inv_def lifetime_inv_def)
  obtain P where P: "producer_heap s p = Some P" "p_consumers P = filter (matches s P) (consumers s)"
    using inv p by (auto simp: broker_inv_def routed_def)
  have "e \<in> dom (event_heap s)" using core q by (auto simp: core_inv_def owned_inv_def)
  then obtain ev where ev: "event_heap s e = Some ev" "ev_classes ev = classes_of (stream_event s (t_type (p_topic P)))"
    using core q P(1) unfolding core_inv_def typing_inv_def by fastforce
  have "owned_inv [] [e] ?s"
    using core q by (auto simp: core_inv_def owned_inv_def)
  moreover have "lifetime_inv ?s"
    using core q unfolding core_inv_def lifetime_inv_def by auto
  moreover have "typing_inv ?s"
    using core q unfolding core_inv_def typing_inv_def by auto
  ultimately have "core_inv [] [e] ?s" by (simp add: core_inv_def)
  with that p P ev show ?thesis by blast
qed

lemma pop_destroy_producer:
  assumes inv: "broker_inv s" and q: "pending_actions s = DestroyProducer p # q"
  obtains P where "core_inv [p] [] (s\<lparr>pending_actions := q, producers := remove1 p (producers s)\<rparr>)"
    and "p \<in> set (producers s)" and "distinct (producers s)"
    and "producer_heap s p = Some P" and "p_consumers P = filter (matches s P) (consumers s)"
proof -
  let ?s = "s\<lparr>pending_actions := q, producers := remove1 p (producers s)\<rparr>"
  have core: "core_inv [] [] s" using inv by (simp add: broker_inv_def)
  have p: "p \<in> set (producers s)" using core q by (simp add: core_inv_def lifetime_inv_def)
  have dist: "distinct (producers s)" using core by (simp add: core_inv_def owned_inv_def)
  obtain P where P: "producer_heap s p = Some P" "p_consumers P = filter (matches s P) (consumers s)"
    using inv p by (auto simp: broker_inv_def routed_def)
  have "owned_inv [p] [] ?s"
    using core q p by (auto simp: core_inv_def owned_inv_def)
  moreover have "lifetime_inv ?s"
    using core q dist unfolding core_inv_def lifetime_inv_def by auto
  moreover have "typing_inv ?s"
    using core q unfolding core_inv_def typing_inv_def by auto
  ultimately have "core_inv [p] [] ?s" by (simp add: core_inv_def)
  with that p dist P show ?thesis by blast
qed

text \<open>Adding many consumers to one producer, and one consumer to many producers.\<close>

lemma init_loop_safe:
  "core_inv xp xe s \<Longrightarrow> p \<in> set (producers s) \<Longrightarrow> routed s p done \<Longrightarrow>
   set done \<subseteq> dom (consumer_heap s) \<Longrightarrow> set cs \<subseteq> dom (consumer_heap s) \<Longrightarrow>
   safe_r (\<lambda>s'. (core_inv xp xe s' \<and> routed s' p (done @ cs)) \<and> world_frame {p} s s') (for_each (maybe_add p) cs s)"
proof (induction cs arbitrary: s "done")
  case Nil
  then show ?case by (simp add: world_frame_refl)
next
  case (Cons c cs)
  have c: "c \<in> dom (consumer_heap s)" using Cons.prems(5) by simp
  have *: "safe_r (\<lambda>s''. (core_inv xp xe s'' \<and> routed s'' p (done @ c # cs)) \<and> world_frame {p} s' s'')
      (for_each (maybe_add p) cs s')"
    if i: "core_inv xp xe s' \<and> routed s' p (done @ [c])" and f: "world_frame {p} s s'" for s'
  proof -
    have "set (done @ [c]) \<subseteq> dom (consumer_heap s')" "set cs \<subseteq> dom (consumer_heap s')"
      using Cons.prems(4,5) consumers_stay [OF Cons.prems(1) f] by (simp_all, blast+)
    with i Cons.IH [of s' "done @ [c]"] show ?thesis
      using Cons.prems(2) world_frameD(2) [OF f] by simp
  qed
  from safe_frame_bind [OF maybe_add_safe [OF Cons.prems(1) c Cons.prems(3) init_outside_queue
      [OF Cons.prems(1,2)] Cons.prems(4)] *] show ?case by simp
qed

lemma add_loop_safe:
  "core_inv xp xe s \<Longrightarrow> distinct ps \<Longrightarrow> set ps \<subseteq> set (producers s) \<Longrightarrow> (\<forall>p\<in>set ps. routed s p cs) \<Longrightarrow>
   set (cs @ [c]) \<subseteq> dom (consumer_heap s) \<Longrightarrow>
   safe_r (\<lambda>s'. (core_inv xp xe s' \<and> (\<forall>p\<in>set ps. routed s' p (cs @ [c]))) \<and> world_frame (set ps) s s')
     (for_each (\<lambda>p. maybe_add p c) ps s)"
proof (induction ps arbitrary: s)
  case Nil
  then show ?case by (simp add: world_frame_refl)
next
  case (Cons p ps)
  have p: "p \<in> set (producers s)" "p \<notin> set ps" using Cons.prems(2,3) by auto
  have c: "c \<in> dom (consumer_heap s)" "set cs \<subseteq> dom (consumer_heap s)" using Cons.prems(5) by auto
  have *: "safe_r (\<lambda>s''. (core_inv xp xe s'' \<and> (\<forall>p\<in>set (p # ps). routed s'' p (cs @ [c]))) \<and> world_frame (set ps) s' s'')
      (for_each (\<lambda>p. maybe_add p c) ps s')"
    if i: "core_inv xp xe s' \<and> routed s' p (cs @ [c])" and f: "world_frame {p} s s'" for s'
  proof -
    have dom: "set (cs @ [c]) \<subseteq> dom (consumer_heap s')"
      using Cons.prems(5) consumers_stay [OF Cons.prems(1) f] by (rule order_trans)
    have "\<forall>q\<in>set ps. routed s' q cs"
      using routed_frame [OF Cons.prems(1) f _ _ c(2)] Cons.prems(4) p(2) by auto
    then have "safe_r (\<lambda>s''. (core_inv xp xe s'' \<and> (\<forall>p\<in>set ps. routed s'' p (cs @ [c]))) \<and> world_frame (set ps) s' s'')
      (for_each (\<lambda>p. maybe_add p c) ps s')"
      using Cons.IH [of s'] i dom Cons.prems(2,3) world_frameD(2) [OF f] by simp
    moreover have "routed s'' p (cs @ [c])" if "world_frame (set ps) s' s''" for s''
      using routed_frame [OF _ that _ p(2) dom] i by blast
    ultimately show ?thesis by (auto elim: safe_r_mono)
  qed
  from safe_frame_bind [OF maybe_add_safe [OF Cons.prems(1) c(1) _ init_outside_queue
      [OF Cons.prems(1) p(1)] c(2)] *] Cons.prems(4) show ?case by simp
qed

lemma visit_init_producer_safe:
  assumes inv: "broker_inv s" and q: "pending_actions s = InitProducer p # q"
  shows "safe_r (\<lambda>s'. broker_inv s' \<and> trace_frame s s') (visit (InitProducer p) (s\<lparr>pending_actions := q\<rparr>))"
proof -
  let ?s = "s\<lparr>pending_actions := q, producers := producers s @ [p]\<rparr>"
  have core: "core_inv [] [] s" using inv by (simp add: broker_inv_def)
  note pop = pop_init_producer [OF core q]
  note i = pop(1)
  have cs: "set (consumers s) \<subseteq> dom (consumer_heap ?s)"
    using core by (auto simp: core_inv_def owned_inv_def)
  have "safe_r (\<lambda>s'. (core_inv [] [] s' \<and> routed s' p ([] @ consumers s)) \<and> world_frame {p} ?s s')
      (for_each (maybe_add p) (consumers s) ?s)"
    using init_loop_safe [OF i, of p "[]"] pop cs by (auto simp: routed_def)
  moreover have "broker_inv s' \<and> trace_frame s s'"
    if i': "core_inv [] [] s' \<and> routed s' p ([] @ consumers s)" and f: "world_frame {p} ?s s'" for s'
  proof -
    have "routed ?s x (consumers s)" if "x \<in> set (producers s)" for x
      using inv that routed_cong [of ?s s x] by (simp add: broker_inv_def)
    then have "routed s' x (consumers s)" if "x \<in> set (producers s)" for x
      using routed_frame [OF i f _ _ cs] that pop(2) by fastforce
    with i' f show ?thesis
      using world_frameD(1,2,3) [OF f] by (auto simp: broker_inv_def trace_frame_def object_frame_def)
  qed
  ultimately show ?thesis
    by (auto simp: visit_init_producer_def producer_init_def elim: safe_r_mono)
qed

lemma visit_init_consumer_safe:
  assumes inv: "broker_inv s" and q: "pending_actions s = InitConsumer c # q"
  shows "safe_r (\<lambda>s'. broker_inv s' \<and> trace_frame s s') (visit (InitConsumer c) (s\<lparr>pending_actions := q\<rparr>))"
proof -
  let ?s = "s\<lparr>pending_actions := q, consumers := consumers s @ [c]\<rparr>"
  have core: "core_inv [] [] s" using inv by (simp add: broker_inv_def)
  note i = pop_init_consumer(1) [OF core q]
  have "\<forall>p\<in>set (producers s). routed ?s p (consumers s)"
    using inv routed_cong [of ?s s] by (simp add: broker_inv_def)
  moreover have "distinct (producers s)" using core by (simp add: core_inv_def owned_inv_def)
  ultimately have "safe_r (\<lambda>s'. (core_inv [] [] s' \<and> (\<forall>p\<in>set (producers s). routed s' p (consumers s @ [c]))) \<and>
      world_frame (set (producers s)) ?s s') (for_each (\<lambda>p. maybe_add p c) (producers s) ?s)"
    using add_loop_safe [OF i, of "producers s" "consumers s" c] pop_init_consumer(2) [OF core q] by simp
  moreover have "broker_inv s' \<and> trace_frame s s'"
    if "core_inv [] [] s' \<and> (\<forall>p\<in>set (producers s). routed s' p (consumers s @ [c]))"
      and f: "world_frame (set (producers s)) ?s s'" for s'
    using that(1) world_frameD(1,2,3) [OF f] by (auto simp: broker_inv_def trace_frame_def object_frame_def)
  ultimately show ?thesis
    by (auto simp: visit_init_consumer_def elim: safe_r_mono)
qed

text \<open>The consumers of a routed producer can be notified of its topic.\<close>

lemma routed_notify_pre:
  assumes "routed s p cs" and "producer_heap s p = Some P" and "c \<in> set (p_consumers P)" and "n_topic m = p"
    and "\<forall>e\<in>set (n_events m). \<exists>ev. event_heap s e = Some ev \<and>
           ev_classes ev = classes_of (stream_event s (t_type (p_topic P)))"
  shows "notify_pre m c s"
  using assms by (auto simp: routed_def notify_pre_def matches_def split: option.splits)

lemma routed_frame_all:
  assumes "core_inv xp xe s" and "client_frame s s'" and "\<forall>p\<in>ps. routed s p cs"
    and "set cs \<subseteq> dom (consumer_heap s)"
  shows "\<forall>p\<in>ps. routed s' p cs"
  using assms routed_frame [OF assms(1,2)] by blast

lemma visit_publish_safe:
  assumes inv: "broker_inv s" and q: "pending_actions s = Publish p e # q"
  shows "safe_r (\<lambda>s'. broker_inv s' \<and> trace_frame s s') (visit (Publish p e) (s\<lparr>pending_actions := q\<rparr>))"
proof -
  let ?s = "s\<lparr>pending_actions := q\<rparr>"
  have core: "core_inv [] [] s" using inv by (simp add: broker_inv_def)
  from pop_publish [OF inv q] obtain P ev where i: "core_inv [] [e] ?s" and p: "p \<in> set (producers s)"
    and P: "producer_heap s p = Some P" and ev: "event_heap s e = Some ev"
      "ev_classes ev = classes_of (stream_event s (t_type (p_topic P)))" by metis
  have r: "\<forall>p\<in>set (producers s). routed ?s p (consumers s)"
    using inv routed_cong [of ?s s] by (simp add: broker_inv_def)
  have cs: "set (consumers s) \<subseteq> dom (consumer_heap ?s)"
    using core by (auto simp: core_inv_def owned_inv_def)
  let ?m = "\<lparr>n_kind = EVENT, n_events = [e], n_stream_id = p_id P, n_topic = p\<rparr>"
  have "notify_pre ?m c ?s" if "c \<in> set (p_consumers P)" for c
    using routed_notify_pre [of ?s p "consumers s" P c ?m] r p P ev that by simp
  from notify_loop.loop_safe [OF i this]
  have loop: "safe_r (\<lambda>s'. core_inv [] [e] s' \<and> client_frame ?s s') (for_each (notify ?m) (p_consumers P) ?s)" .
  have "broker_inv (free_event e s') \<and> trace_frame s (free_event e s')"
    if i': "core_inv [] [e] s'" and f: "client_frame ?s s'" for s'
  proof -
    have "owned_inv [] [] (free_event e s')"
      using i' by (auto simp: core_inv_def owned_inv_def free_event_def)
    moreover have "lifetime_inv (free_event e s')"
      using i' unfolding core_inv_def lifetime_inv_def free_event_def by auto
    moreover have "typing_inv (free_event e s')"
      using i' unfolding core_inv_def typing_inv_def free_event_def by auto
    moreover have "\<forall>p\<in>set (producers s). routed (free_event e s') p (consumers s)"
      using routed_frame_all [OF i f r cs] routed_cong [of "free_event e s'" s'] by (simp add: free_event_def)
    ultimately show ?thesis
      using world_frameD(1,2,3) [OF f]
      by (auto simp: broker_inv_def core_inv_def trace_frame_def object_frame_def free_event_def)
  qed
  then show ?thesis
    using loop P by (auto simp: visit_publish_def producer_publish_def snapshot_add_new_event_def
        intro!: safe_r_bind [OF loop] split: SnapshotHandler.splits)
qed

lemma handle_gone:
  assumes "queue_ok q P C HP HC"
  shows "x \<notin> P \<Longrightarrow> x \<notin> set (init_producers q) \<Longrightarrow> x \<notin> HP"
    and "x \<notin> C \<Longrightarrow> x \<notin> set (init_consumers q) \<Longrightarrow> x \<notin> HC"
  using queue_ok_handles [OF assms] by blast+

lemma visit_destroy_producer_safe:
  assumes inv: "broker_inv s" and q: "pending_actions s = DestroyProducer p # q"
  shows "safe_r (\<lambda>s'. broker_inv s' \<and> trace_frame s s') (visit (DestroyProducer p) (s\<lparr>pending_actions := q\<rparr>))"
proof -
  let ?s = "s\<lparr>pending_actions := q, producers := remove1 p (producers s)\<rparr>"
  have core: "core_inv [] [] s" using inv by (simp add: broker_inv_def)
  from pop_destroy_producer [OF inv q] obtain P where i: "core_inv [p] [] ?s" and p: "p \<in> set (producers s)"
    and dist: "distinct (producers s)" and P: "producer_heap s p = Some P" by metis
  have r: "\<forall>x\<in>set (producers s). routed ?s x (consumers s)"
    using inv routed_cong [of ?s s] by (simp add: broker_inv_def)
  have cs: "set (consumers s) \<subseteq> dom (consumer_heap ?s)"
    using core by (auto simp: core_inv_def owned_inv_def)
  let ?m = "\<lparr>n_kind = STOP_PRODUCER, n_events = [], n_stream_id = p_id P, n_topic = p\<rparr>"
  have "notify_pre ?m c ?s" if "c \<in> set (p_consumers P)" for c
    using routed_notify_pre [of ?s p "consumers s" P c ?m] r p P that by simp
  from notify_loop.loop_safe [OF i this]
  have loop: "safe_r (\<lambda>s'. core_inv [p] [] s' \<and> client_frame ?s s') (for_each (notify ?m) (p_consumers P) ?s)" .
  have "broker_inv (s'\<lparr>producer_heap := (producer_heap s')(p := None)\<rparr>) \<and>
      trace_frame s (s'\<lparr>producer_heap := (producer_heap s')(p := None)\<rparr>)"
    if i': "core_inv [p] [] s'" and f: "client_frame ?s s'" for s'
  proof -
    let ?t = "s'\<lparr>producer_heap := (producer_heap s')(p := None)\<rparr>"
    have other: "p \<notin> set (producers s')" "p \<notin> set (init_producers (pending_actions s'))"
      using i' by (auto simp: core_inv_def owned_inv_def)
    then have "producer_handles s' p = None"
      using i' handle_gone(1) unfolding core_inv_def lifetime_inv_def by (metis domIff)
    with i' have "typing_inv ?t"
      unfolding core_inv_def typing_inv_def by auto
    moreover have "owned_inv [] [] ?t"
      using i' by (auto simp: core_inv_def owned_inv_def)
    moreover have "lifetime_inv ?t"
      using i' unfolding core_inv_def lifetime_inv_def by auto
    moreover have "routed ?t x (consumers s')" if "x \<in> set (producers s')" for x
      using routed_frame_all [OF i f r cs] routed_cong [of ?t s' x] that other world_frameD(2,3) [OF f] dist
      by (auto simp: set_remove1_eq)
    ultimately show ?thesis
      using world_frameD(1) [OF f] by (auto simp: broker_inv_def core_inv_def trace_frame_def object_frame_def)
  qed
  then show ?thesis
    using P p by (auto simp: visit_destroy_producer_def delete_ProducerImpl_def intro!: safe_r_bind [OF loop])
qed

lemma remove_loop:
  assumes "distinct ps" and "set ps \<subseteq> dom (producer_heap s)"
  shows "for_each (maybe_remove c) ps s = Inr (s\<lparr>producer_heap :=
      (\<lambda>a. if a \<in> set ps then map_option (\<lambda>P. P\<lparr>p_consumers := remove1 c (p_consumers P)\<rparr>) (producer_heap s a)
           else producer_heap s a)\<rparr>)"
  using assms
proof (induction ps arbitrary: s)
  case (Cons p ps)
  then obtain P where P: "producer_heap s p = Some P" by auto
  let ?s = "s\<lparr>producer_heap := (producer_heap s)(p \<mapsto> P\<lparr>p_consumers := remove1 c (p_consumers P)\<rparr>)\<rparr>"
  have "set ps \<subseteq> dom (producer_heap ?s)" "distinct ps" using Cons.prems by auto
  from Cons.IH [OF this(2,1)] Cons.prems P show ?case
    by (auto simp: maybe_remove_def fun_eq_iff intro!: world.equality)
qed simp

text \<open>The producers after \<open>c\<close> has been taken off all their lists.\<close>

definition without_consumer :: "addr \<Rightarrow> 'u world \<Rightarrow> addr \<rightharpoonup> ProducerImpl" where
  "without_consumer c s = (\<lambda>a. if a \<in> set (producers s)
     then map_option (\<lambda>P. P\<lparr>p_consumers := remove1 c (p_consumers P)\<rparr>) (producer_heap s a) else producer_heap s a)"

lemma without_consumer_heap:
  shows "without_consumer c s a = Some P \<Longrightarrow> \<exists>P'. producer_heap s a = Some P' \<and> p_topic P' = p_topic P"
    and "producer_heap s a = Some P \<Longrightarrow> \<exists>P'. without_consumer c s a = Some P' \<and> p_topic P' = p_topic P"
    and "dom (without_consumer c s) = dom (producer_heap s)"
    and "map_option p_topic (without_consumer c s a) = map_option p_topic (producer_heap s a)"
    and "map_option p_id (without_consumer c s a) = map_option p_id (producer_heap s a)"
  by (auto simp: without_consumer_def option.map_comp comp_def split: if_splits)

lemma destroy_consumer_run:
  assumes "core_inv [] [] s" and "pending_actions s = DestroyConsumer c # q"
  shows "visit (DestroyConsumer c) (s\<lparr>pending_actions := q\<rparr>) =
    Inr (s\<lparr>pending_actions := q, producer_heap := without_consumer c s, consumers := remove1 c (consumers s),
      consumer_heap := (consumer_heap s)(c := None)\<rparr>)"
    and "c \<in> set (consumers s)" and "c \<notin> set (init_consumers q)"
proof -
  show c: "c \<in> set (consumers s)" using assms by (simp add: core_inv_def lifetime_inv_def)
  then show "c \<notin> set (init_consumers q)" using assms by (auto simp: core_inv_def owned_inv_def)
  have "distinct (producers s)" "set (producers s) \<subseteq> dom (producer_heap s)"
    using assms(1) by (auto simp: core_inv_def owned_inv_def)
  then show "visit (DestroyConsumer c) (s\<lparr>pending_actions := q\<rparr>) =
    Inr (s\<lparr>pending_actions := q, producer_heap := without_consumer c s, consumers := remove1 c (consumers s),
      consumer_heap := (consumer_heap s)(c := None)\<rparr>)"
    using remove_loop [of "producers s" "s\<lparr>pending_actions := q\<rparr>" c] c
    by (simp add: visit_destroy_consumer_def delete_ConsumerImpl_def without_consumer_def cong: if_cong)
qed

lemma destroy_consumer_core:
  assumes core: "core_inv [] [] s" and q: "pending_actions s = DestroyConsumer c # q"
  shows "core_inv [] [] (s\<lparr>pending_actions := q, producer_heap := without_consumer c s, consumers := remove1 c (consumers s),
      consumer_heap := (consumer_heap s)(c := None)\<rparr>)"
proof -
  let ?h = "without_consumer c s"
  let ?t = "s\<lparr>pending_actions := q, producer_heap := ?h, consumers := remove1 c (consumers s),
      consumer_heap := (consumer_heap s)(c := None)\<rparr>"
  note c = destroy_consumer_run(2,3) [OF core q]
  have dist: "distinct (consumers s)" using core by (simp add: core_inv_def owned_inv_def)
  have "owned_inv [] [] ?t"
    using core q c without_consumer_heap(3) [of c s] dist by (auto simp: core_inv_def owned_inv_def)
  moreover have "lifetime_inv ?t"
  proof -
    have "p_consumers P = []" if "p \<in> set (init_producers q)" "?h p = Some P" for p P
    proof -
      have "p \<notin> set (producers s)" using core q that(1) by (auto simp: core_inv_def owned_inv_def)
      then show ?thesis using core q that by (simp add: core_inv_def lifetime_inv_def without_consumer_def)
    qed
    then show ?thesis
      using core q dist without_consumer_heap(3) [of c s] unfolding core_inv_def lifetime_inv_def by auto
  qed
  moreover have "typing_inv ?t"
  proof -
    have "queue_ok q (set (producers s)) (set (consumers s) - {c}) (dom (producer_handles s)) (dom (consumer_handles s))"
      using core q by (simp add: core_inv_def lifetime_inv_def)
    from handle_gone(2) [OF this, of c] c(2) have "c \<notin> dom (consumer_handles s)" by simp
    moreover have "\<exists>P. ?h p = Some P \<and> t_type (p_topic P) = t" if "producer_handles s p = Some t" for p t
      using core that without_consumer_heap(2) [of s p] unfolding core_inv_def typing_inv_def by metis
    moreover have "ev_classes ev = classes_of (stream_event s (t_type (p_topic P)))"
      if "Publish p e \<in> set q" "?h p = Some P" "event_heap s e = Some ev" for p e P ev
      using core q that(1,3) without_consumer_heap(1) [OF that(2)] unfolding core_inv_def typing_inv_def
      by (metis list.set_intros(2))
    ultimately show ?thesis using core unfolding core_inv_def typing_inv_def by simp
  qed
  ultimately show ?thesis by (simp add: core_inv_def)
qed

lemma visit_destroy_consumer_safe:
  assumes inv: "broker_inv s" and q: "pending_actions s = DestroyConsumer c # q"
  shows "safe_r (\<lambda>s'. broker_inv s' \<and> trace_frame s s') (visit (DestroyConsumer c) (s\<lparr>pending_actions := q\<rparr>))"
proof -
  have core: "core_inv [] [] s" using inv by (simp add: broker_inv_def)
  have dist: "distinct (consumers s)" using core by (simp add: core_inv_def owned_inv_def)
  let ?drop = "\<lambda>P. P\<lparr>p_consumers := remove1 c (p_consumers P)\<rparr>"
  let ?t = "s\<lparr>pending_actions := q, producer_heap := without_consumer c s, consumers := remove1 c (consumers s),
      consumer_heap := (consumer_heap s)(c := None)\<rparr>"
  have "routed ?t p (remove1 c (consumers s))" if p: "p \<in> set (producers s)" for p
  proof -
    obtain P where P: "producer_heap s p = Some P" "p_consumers P = filter (matches s P) (consumers s)"
      using inv p by (auto simp: broker_inv_def routed_def)
    have "matches ?t (?drop P) x = matches s P x" if "x \<in> set (remove1 c (consumers s))" for x
      using that dist by (auto simp: matches_def split: option.split)
    then have "filter (matches ?t (?drop P)) (remove1 c (consumers s)) = filter (matches s P) (remove1 c (consumers s))"
      by (intro filter_cong) auto
    then show ?thesis
      using P p remove1_filter_distinct [OF dist] by (simp add: routed_def without_consumer_def)
  qed
  then have "broker_inv ?t" using destroy_consumer_core [OF core q] by (simp add: broker_inv_def)
  moreover have "trace_frame s ?t" by (simp add: trace_frame_def object_frame_def without_consumer_heap(4,5))
  ultimately show ?thesis using destroy_consumer_run(1) [OF core q] by simp
qed

end
