(* ===== verification/Broker_Run.thy ===== *)
theory Broker_Run
  imports Broker_Safety
begin

text \<open>
  Whole executions of the broker: a program alternates client code with the actions that
  \<^verbatim>\<open>do_work\<close> takes from the queue. The invariant of every action is lifted to all
  reachable states, and gives memory safety, ownership, exact routing and type
  safety, for arbitrary client programs and handlers.
\<close>

section \<open>Executions\<close>

text \<open>One step: client code runs, or \<^verbatim>\<open>do_work\<close> executes the first action of the queue.\<close>

inductive broker_step :: "'u world \<Rightarrow> 'u world \<Rightarrow> bool" where
  client: "run_client prog s = Inr s' \<Longrightarrow> broker_step s s'"
| action: "pending_actions s = a # q \<Longrightarrow> visit a (s\<lparr>pending_actions := q\<rparr>) = Inr s' \<Longrightarrow> broker_step s s'"

inductive_cases broker_stepE: "broker_step s s'"

definition broker_init :: "'u world \<Rightarrow> bool" where
  "broker_init s \<longleftrightarrow> (\<exists>nd se sid u. s = new_world nd se sid u)"

definition broker_reachable :: "'u world \<Rightarrow> bool" where
  "broker_reachable s \<longleftrightarrow> (\<exists>s0. broker_init s0 \<and> broker_step\<^sup>*\<^sup>* s0 s)"

lemma broker_reachable_step: "broker_reachable s \<Longrightarrow> broker_step s s' \<Longrightarrow> broker_reachable s'"
  unfolding broker_reachable_def by (meson rtranclp.rtrancl_into_rtrancl)

lemma broker_reachable_steps: "broker_reachable s \<Longrightarrow> broker_step\<^sup>*\<^sup>* s s' \<Longrightarrow> broker_reachable s'"
  unfolding broker_reachable_def by (meson rtranclp_trans)

lemma visit_safe:
  assumes "broker_inv s" and "pending_actions s = a # q"
  shows "safe_r (\<lambda>s'. broker_inv s' \<and> trace_frame s s') (visit a (s\<lparr>pending_actions := q\<rparr>))"
proof (cases a)
  case (InitProducer p)
  with assms visit_init_producer_safe show ?thesis by blast
next
  case (DestroyProducer p)
  with assms visit_destroy_producer_safe show ?thesis by blast
next
  case (Publish p e)
  with assms visit_publish_safe show ?thesis by blast
next
  case (InitConsumer c)
  with assms visit_init_consumer_safe show ?thesis by blast
next
  case (DestroyConsumer c)
  with assms visit_destroy_consumer_safe show ?thesis by blast
qed

lemma client_safe:
  assumes inv: "broker_inv s"
  shows "safe_r (\<lambda>s'. broker_inv s' \<and> trace_frame s s') (run_client prog s)"
proof -
  have core: "core_inv [] [] s" and r: "\<forall>p\<in>set (producers s). routed s p (consumers s)"
    using inv by (simp_all add: broker_inv_def)
  have cs: "set (consumers s) \<subseteq> dom (consumer_heap s)"
    using core by (auto simp: core_inv_def owned_inv_def)
  have "broker_inv s' \<and> trace_frame s s'" if "core_inv [] [] s' \<and> client_frame s s'" for s'
    using that routed_frame_all [OF core _ r cs] world_frameD(1-3) [of "{}" s s'] by (simp add: broker_inv_def)
  with run_client_safe [OF core] show ?thesis by (rule safe_r_mono)
qed

lemma broker_inv_new_world: "broker_inv (new_world nd se sid u)"
  by (auto simp: broker_inv_def core_inv_defs new_world_def)

lemma broker_step_inv:
  assumes "broker_step s s'" and "broker_inv s"
  shows "broker_inv s' \<and> trace_frame s s'"
  using assms(1)
proof (cases rule: broker_step.cases)
  case (client prog)
  then show ?thesis using client_safe [OF assms(2), of prog] by simp
next
  case (action a q)
  then show ?thesis using visit_safe [OF assms(2), of a q] by simp
qed

interpretation broker_run: step_invariant broker_init broker_step "\<lambda>_. True" broker_inv
  by unfold_locales (auto simp: broker_init_def broker_inv_new_world dest: broker_step_inv)

lemma broker_reachable_inv: "broker_reachable s \<Longrightarrow> broker_inv s"
  unfolding broker_reachable_def using broker_run.inv_run by blast

lemma steps_trace_frame: "broker_step\<^sup>*\<^sup>* s s' \<Longrightarrow> broker_inv s \<Longrightarrow> broker_inv s' \<and> trace_frame s s'"
  by (induction rule: rtranclp_induct) (auto simp: trace_frame_refl dest: broker_step_inv intro: trace_frame_trans)

section \<open>The work loop\<close>

text \<open>\<^verbatim>\<open>do_work\<close> is a run of actions, down to an empty queue or to the action that faults.\<close>

definition work_outcome :: "'u world \<Rightarrow> 'u world result \<Rightarrow> bool" where
  "work_outcome s r =
     (case r of
        Inr s' \<Rightarrow> broker_step\<^sup>*\<^sup>* s s' \<and> pending_actions s' = []
      | Inl e \<Rightarrow> \<exists>t a q. broker_step\<^sup>*\<^sup>* s t \<and> pending_actions t = a # q \<and>
                   visit a (t\<lparr>pending_actions := q\<rparr>) = Inl e)"

lemma work_outcome_step:
  assumes "broker_step s s'" and "work_outcome s' r"
  shows "work_outcome s r"
  using assms by (auto simp: work_outcome_def split: sum.splits intro: converse_rtranclp_into_rtranclp)

lemma do_work_outcome: "do_work s = Some r \<Longrightarrow> work_outcome s r"
proof (induction rule: do_work.raw_induct [rotated, consumes 1, case_names step])
  case (step rec s r)
  show ?case
  proof (cases "pending_actions s")
    case Nil
    then show ?thesis using step(2) by (auto simp: work_outcome_def)
  next
    case (Cons a q)
    show ?thesis
    proof (cases "visit a (s\<lparr>pending_actions := q\<rparr>)")
      case (Inl e)
      then have "r = Inl e" using step(2) Cons by simp
      with Cons Inl show ?thesis unfolding work_outcome_def by auto
    next
      case (Inr s1)
      have "broker_step s s1" using Cons Inr by (rule broker_step.action)
      moreover have "work_outcome s1 r" using step Cons Inr by simp
      ultimately show ?thesis by (rule work_outcome_step)
    qed
  qed
qed

section \<open>A running example\<close>

text \<open>One producer, one consumer of its stream that counts its notifications, one event.\<close>

definition demo_prog :: "nat client" where
  "demo_prog = NewProducer ''S'' ''x'' [] (\<lambda>p. NewConsumer ''S'' any_filter (\<lambda>n u. Done (Suc u))
     (\<lambda>c. PublishEvent p \<lparr>ev_classes = [], ev_value = [7]\<rparr> (Done 0)))"

definition demo_world :: "nat world" where
  "demo_world = new_world True (\<lambda>t. (''E'', [''Event''])) 0 0"

definition demo_queued :: "nat world" where
  "demo_queued = demo_world\<lparr>current_stream_id := 1, next_addr := 3,
     producer_heap := [0 \<mapsto> \<lparr>p_id = 1, p_topic = \<lparr>t_type = ''S'', t_name = ''x''\<rparr>,
       p_snapshot_handler = NullSnapshotHandler [], p_consumers = []\<rparr>],
     consumer_heap := [1 \<mapsto> \<lparr>c_filter = \<lparr>f_type = ''S'', f_is_match = any_filter\<rparr>,
       c_notify = Untyped ''S'' (\<lambda>n u. Done (Suc u))\<rparr>],
     event_heap := [2 \<mapsto> \<lparr>ev_classes = [''E'', ''Event''], ev_value = [7]\<rparr>],
     pending_actions := [InitProducer 0, InitConsumer 1, Publish 0 2],
     producer_handles := [0 \<mapsto> ''S''], consumer_handles := [1 \<mapsto> ''S'']\<rparr>"

lemma demo_run: "run_client demo_prog demo_world = Inr demo_queued"
  by (simp add: demo_prog_def demo_world_def demo_queued_def new_world_def client_ops numeral_2_eq_2)


definition demo_done :: "nat world" where
  "demo_done = demo_queued\<lparr>
     producer_heap := [0 \<mapsto> \<lparr>p_id = 1, p_topic = \<lparr>t_type = ''S'', t_name = ''x''\<rparr>,
       p_snapshot_handler = NullSnapshotHandler [], p_consumers = [1]\<rparr>],
     event_heap := Map.empty, producers := [0], consumers := [1], pending_actions := [], user := 2,
     trace := [(1, \<lparr>n_kind = START_PRODUCER, n_events = [], n_stream_id = 1, n_topic = 0\<rparr>,
                   \<lparr>kind = START_PRODUCER, events = [], stream_id = 1, name = ''x''\<rparr>),
               (1, \<lparr>n_kind = EVENT, n_events = [2], n_stream_id = 1, n_topic = 0\<rparr>,
                   \<lparr>kind = EVENT, events = [Some \<lparr>ev_classes = [''E'', ''Event''], ev_value = [7]\<rparr>],
                    stream_id = 1, name = ''x''\<rparr>)]\<rparr>"

lemma demo_work: "do_work demo_queued = Some (Inr demo_done)"
  by (simp add: demo_queued_def demo_done_def demo_world_def new_world_def do_work.simps broker_ops Let_def
      numeral_2_eq_2)

text \<open>The states between the actions of the example.\<close>

definition demo_started :: "nat world" where
  "demo_started = demo_queued\<lparr>producers := [0], pending_actions := [InitConsumer 1, Publish 0 2]\<rparr>"

definition demo_joined :: "nat world" where
  "demo_joined = demo_done\<lparr>event_heap := event_heap demo_queued, pending_actions := [Publish 0 2], user := 1,
     trace := take 1 (trace demo_done)\<rparr>"

lemma demo_steps:
  "visit (InitProducer 0) (demo_queued\<lparr>pending_actions := [InitConsumer 1, Publish 0 2]\<rparr>) = Inr demo_started"
  "visit (InitConsumer 1) (demo_started\<lparr>pending_actions := [Publish 0 2]\<rparr>) = Inr demo_joined"
  "visit (Publish 0 2) (demo_joined\<lparr>pending_actions := []\<rparr>) = Inr demo_done"
  by (simp_all add: demo_queued_def demo_done_def demo_started_def demo_joined_def demo_world_def new_world_def broker_ops
      Let_def numeral_2_eq_2)

lemma demo_reachable: "broker_reachable demo_queued" "broker_reachable demo_done"
proof -
  have "broker_init demo_world" by (auto simp: broker_init_def demo_world_def)
  then have "broker_reachable demo_world" by (auto simp: broker_reachable_def)
  then show q: "broker_reachable demo_queued"
    using demo_run by (blast intro: broker_reachable_step broker_step.client)
  show "broker_reachable demo_done"
    using broker_reachable_steps [OF q] do_work_outcome [OF demo_work] by (simp add: work_outcome_def)
qed

lemma demo_queues:
  "pending_actions demo_queued = [InitProducer 0, InitConsumer 1, Publish 0 2]"
  "pending_actions demo_started = [InitConsumer 1, Publish 0 2]"
  "pending_actions demo_joined = [Publish 0 2]"
  by (simp_all add: demo_queued_def demo_started_def demo_joined_def)

lemma demo_reachable_steps: "broker_reachable demo_started" "broker_reachable demo_joined"
  using demo_reachable(1) demo_queues demo_steps by (blast intro: broker_reachable_step broker_step.action)+

section \<open>Properties of all executions\<close>

text \<open>
  C1: the broker is memory safe for arbitrary client code. In every state a program can
  reach, neither a client program nor \<^verbatim>\<open>do_work\<close>, with whatever the handlers call from
  inside, uses a destroyed object, erases the end of a vector or fails the assertion of
  \<^verbatim>\<open>DestroyProducer\<close>: the only fault left is a client that uses one of its own
  \<^verbatim>\<open>Producer\<close> or \<^verbatim>\<open>Consumer\<close> objects outside its lifetime; and \<^verbatim>\<open>do_work\<close>
  only returns once the queue is empty.
\<close>

theorem broker_memory_safe:
  assumes "broker_reachable s"
  shows "(run_client prog s = Inl e \<longrightarrow> e = ClientLifetime) \<and>
    (do_work s = Some (Inl e) \<longrightarrow> e = ClientLifetime) \<and>
    (do_work s = Some (Inr s') \<longrightarrow> broker_reachable s' \<and> pending_actions s' = [])"
proof -
  have inv: "broker_inv s" using assms by (rule broker_reachable_inv)
  have "e = ClientLifetime" if w: "do_work s = Some (Inl e)"
  proof -
    obtain t a q where t: "broker_step\<^sup>*\<^sup>* s t" "pending_actions t = a # q" "visit a (t\<lparr>pending_actions := q\<rparr>) = Inl e"
      using do_work_outcome [OF w] by (auto simp: work_outcome_def)
    then show ?thesis using visit_safe [OF _ t(2)] steps_trace_frame [OF t(1) inv] by fastforce
  qed
  moreover have "broker_reachable s' \<and> pending_actions s' = []" if "do_work s = Some (Inr s')"
    using do_work_outcome [OF that] broker_reachable_steps [OF assms] by (auto simp: work_outcome_def)
  ultimately show ?thesis using client_safe [OF inv, of prog] by auto
qed

theorem broker_memory_safe_witness:
  "do_work demo_queued = Some (Inr demo_done) \<and> broker_reachable demo_done \<and> pending_actions demo_done = [] \<and>
   do_work demo_queued \<noteq> Some (Inl UseAfterFree)"
  using broker_memory_safe [OF demo_reachable(1), of "Done 0" UseAfterFree demo_done] demo_work by simp

text \<open>
  C9: ownership is exact and nothing leaks. Whenever the queue is empty, the live
  \<^verbatim>\<open>ProducerImpl\<close> and \<^verbatim>\<open>ConsumerImpl\<close> objects are those of the broker's two vectors,
  each once, and those of the \<^verbatim>\<open>Producer\<close> and \<^verbatim>\<open>Consumer\<close> objects the client still
  has; no event is left, however many were published.
\<close>

theorem broker_owns_exactly:
  assumes "broker_reachable s" and "pending_actions s = []"
  shows "distinct (producers s) \<and> distinct (consumers s) \<and>
    dom (producer_heap s) = set (producers s) \<and> dom (producer_handles s) = set (producers s) \<and>
    dom (consumer_heap s) = set (consumers s) \<and> dom (consumer_handles s) = set (consumers s) \<and>
    event_heap s = Map.empty"
  using broker_reachable_inv [OF assms(1)] assms(2)
  by (simp add: broker_inv_def core_inv_def owned_inv_def lifetime_inv_def)

theorem broker_owns_exactly_witness: "dom (producer_heap demo_done) = {0} \<and> event_heap demo_done = Map.empty"
  using broker_owns_exactly [OF demo_reachable(2)] by (simp add: demo_done_def)

text \<open>
  C7: routing is exact. In every reachable state the list of consumers cached in a live
  producer is the list of the broker's consumers whose filter has the producer's stream
  type and accepts its name, in the order the consumers were registered.
\<close>

theorem broker_routes_exactly:
  assumes "broker_reachable s" and "p \<in> set (producers s)"
  shows "\<exists>P. producer_heap s p = Some P \<and>
    p_consumers P = filter (\<lambda>c. \<exists>ci. consumer_heap s c = Some ci \<and> f_type (c_filter ci) = t_type (p_topic P) \<and>
      f_is_match (c_filter ci) (t_name (p_topic P))) (consumers s)"
proof -
  obtain P where P: "producer_heap s p = Some P" "p_consumers P = filter (matches s P) (consumers s)"
    using broker_reachable_inv [OF assms(1)] assms(2) by (auto simp: broker_inv_def routed_def)
  have "matches s P = (\<lambda>c. \<exists>ci. consumer_heap s c = Some ci \<and> f_type (c_filter ci) = t_type (p_topic P) \<and>
      f_is_match (c_filter ci) (t_name (p_topic P)))"
    by (auto simp: matches_def is_match_def fun_eq_iff split: option.splits)
  with P show ?thesis by auto
qed

theorem broker_routes_exactly_witness:
  "\<exists>P. producer_heap demo_done 0 = Some P \<and> p_consumers P = [1] \<and> [1] = filter (\<lambda>c. \<exists>ci. consumer_heap demo_done c = Some ci \<and>
      f_type (c_filter ci) = t_type (p_topic P) \<and> f_is_match (c_filter ci) (t_name (p_topic P))) (consumers demo_done)"
proof -
  have P: "producer_heap demo_done 0 = Some \<lparr>p_id = 1, p_topic = \<lparr>t_type = ''S'', t_name = ''x''\<rparr>,
       p_snapshot_handler = NullSnapshotHandler [], p_consumers = [1]\<rparr>" and p: "0 \<in> set (producers demo_done)"
    by (simp_all add: demo_done_def)
  show ?thesis using broker_routes_exactly [OF demo_reachable(2) p] unfolding P option.inject ex_simps by auto
qed

text \<open>
  C30: a handler never sees a null event. Every event pointer that a \<^verbatim>\<open>Notification\<close>
  carries has passed the \<^verbatim>\<open>dynamic_cast\<close> to the stream's event type.
\<close>

theorem events_well_typed:
  assumes "broker_reachable s" and "(c, m, n) \<in> set (trace s)"
  shows "None \<notin> set (events n)"
  using broker_reachable_inv [OF assms(1)] assms(2) unfolding broker_inv_def core_inv_def typing_inv_def by fastforce

theorem events_well_typed_witness:
  "None \<notin> set (events (snd (snd (trace demo_done ! 1))))"
  by (rule events_well_typed [OF demo_reachable(2), of 1 "fst (snd (trace demo_done ! 1))"]) (simp add: demo_done_def)

end
