(* ===== verification/Broker_Delivery.thy ===== *)
theory Broker_Delivery
  imports Broker_Run
begin

text \<open>
  What consumers get: for each kind of action, which handlers are called, in which order and
  with which notification, when handlers are arbitrary client code that may create and
  destroy producers and consumers while the notifications are going out.
\<close>

section \<open>One handler call\<close>

text \<open>Client code reaches neither the trace nor the broker's vectors.\<close>

lemma run_client_keeps:
  "run_client prog s = Inr s' \<Longrightarrow> trace s' = trace s \<and> producers s' = producers s \<and> consumers s' = consumers s"
proof (induction prog arbitrary: s)
  case (NewProducer t nm snapshot k)
  obtain p s1 where new: "Producer_new t nm snapshot s = (p, s1)" by fastforce
  obtain es s0 where c: "convert_snapshot t snapshot s = (es, s0)" by fastforce
  have "trace s0 = trace s \<and> producers s0 = producers s \<and> consumers s0 = consumers s"
    using convert_snapshot_eq [OF c] by auto
  then have "trace s1 = trace s \<and> producers s1 = producers s \<and> consumers s1 = consumers s"
    using new c by (auto simp: Producer_new_def make_producer_def new_ProducerImpl_def enqueue_def fold_free_event Let_def)
  moreover have "run_client (k p) s1 = Inr s'" using NewProducer.prems new by simp
  ultimately show ?case using NewProducer.IH [OF rangeI] by simp
next
  case (NewConsumer t f h k)
  obtain c s1 where new: "Consumer_new t f h s = (c, s1)" by fastforce
  then have "trace s1 = trace s \<and> producers s1 = producers s \<and> consumers s1 = consumers s" by (auto simp: client_ops)
  moreover have "run_client (k c) s1 = Inr s'" using NewConsumer.prems new by simp
  ultimately show ?case using NewConsumer.IH(2) [OF rangeI] by simp
qed (fastforce simp: client_ops split: option.splits)+

definition keeps_vectors :: "('u world \<Rightarrow> 'u world result) \<Rightarrow> bool" where
  "keeps_vectors f \<longleftrightarrow> (\<forall>s s'. f s = Inr s' \<longrightarrow> producers s' = producers s \<and> consumers s' = consumers s)"

lemma keeps_vectorsD: "keeps_vectors f \<Longrightarrow> f s = Inr s' \<Longrightarrow> producers s' = producers s \<and> consumers s' = consumers s"
  by (simp add: keeps_vectors_def)

lemma notify_keeps: "keeps_vectors (notify m c)"
  by (auto simp: keeps_vectors_def notify_def split: option.splits NotificationHandlerImpl.splits dest!: run_client_keeps)

lemma maybe_add_keeps: "keeps_vectors (maybe_add p c)"
  using notify_keeps unfolding keeps_vectors_def maybe_add_def
  by (fastforce split: option.splits prod.splits if_splits)

lemma maybe_remove_keeps: "keeps_vectors (maybe_remove c p)"
  by (auto simp: keeps_vectors_def maybe_remove_def split: option.splits)

lemma for_each_keeps: "(\<And>x. keeps_vectors (f x)) \<Longrightarrow> keeps_vectors (for_each f xs)"
proof (induction xs)
  case (Cons x xs)
  then show ?case by (fastforce simp: keeps_vectors_def)
qed (simp add: keeps_vectors_def)

lemmas loops_keep = for_each_keeps [OF notify_keeps] for_each_keeps [OF maybe_add_keeps]
  for_each_keeps [OF maybe_remove_keeps]

fun producers_after :: "Action \<Rightarrow> addr list \<Rightarrow> addr list" where
  "producers_after (InitProducer p) ps = ps @ [p]"
| "producers_after (DestroyProducer p) ps = remove1 p ps"
| "producers_after a ps = ps"

fun consumers_after :: "Action \<Rightarrow> addr list \<Rightarrow> addr list" where
  "consumers_after (InitConsumer c) cs = cs @ [c]"
| "consumers_after (DestroyConsumer c) cs = remove1 c cs"
| "consumers_after a cs = cs"

lemma visit_vectors:
  "visit a s = Inr s' \<Longrightarrow> producers s' = producers_after a (producers s) \<and> consumers s' = consumers_after a (consumers s)"
  by (cases a)
    (auto simp: visit_init_producer_def visit_publish_def visit_destroy_producer_def visit_init_consumer_def
      visit_destroy_consumer_def producer_init_def producer_publish_def delete_ProducerImpl_def delete_ConsumerImpl_def
      snapshot_add_new_event_eq free_event_def Let_def
      split: option.splits if_splits dest!: loops_keep [THEN keeps_vectorsD])

text \<open>The typed notification that a matching consumer gets for \<open>m\<close>.\<close>

definition delivered :: "'u world \<Rightarrow> NotificationImpl \<Rightarrow> Notification" where
  "delivered s m =
     \<lparr>kind = n_kind m, events = map (event_heap s) (n_events m), stream_id = n_stream_id m,
      name = (case producer_heap s (n_topic m) of None \<Rightarrow> [] | Some P \<Rightarrow> t_name (p_topic P))\<rparr>"

lemma typed_events_eq:
  "(\<forall>e\<in>set es. \<exists>ev. event_heap s e = Some ev \<and> T \<in> set (ev_classes ev)) \<Longrightarrow>
     typed_events T es s = Inr (map (event_heap s) es)"
  by (induction es) (auto simp: dynamic_cast_def)

lemma notify_log:
  assumes inv: "core_inv xp xe s" and pre: "notify_pre m c s" and run: "notify m c s = Inr s'"
  shows "trace s' = trace s @ (if c \<in> dom (consumer_handles s) then [(c, m, delivered s m)] else [])"
proof -
  obtain ci P where c: "consumer_heap s c = Some ci" "producer_heap s (n_topic m) = Some P"
    "is_match (p_topic P) (c_filter ci)"
    "\<forall>e\<in>set (n_events m). \<exists>ev. event_heap s e = Some ev \<and>
           ev_classes ev = classes_of (stream_event s (t_type (p_topic P)))"
    using pre by (auto simp: notify_pre_def)
  have ok: "handler_ok (c \<in> dom (consumer_handles s)) ci"
    using inv c(1) unfolding core_inv_def typing_inv_def by blast
  show ?thesis
  proof (cases "c_notify ci")
    case Ignore
    then show ?thesis using run ok c(1) by (simp add: notify_def handler_ok_def)
  next
    case (Untyped t h)
    then have t: "t = t_type (p_topic P)" "c \<in> dom (consumer_handles s)"
      using ok c(3) by (simp_all add: handler_ok_def is_match_def)
    have "\<forall>e\<in>set (n_events m). \<exists>ev. event_heap s e = Some ev \<and> fst (stream_event s t) \<in> set (ev_classes ev)"
      using c(4) t(1) by (auto simp: classes_of_def)
    then have "typed_notification t m s = Inr (delivered s m)"
      using c(2) by (simp add: typed_events_eq typed_notification_def delivered_def)
    then have "run_client (h (delivered s m) (user s)) (s\<lparr>trace := trace s @ [(c, m, delivered s m)]\<rparr>) = Inr s'"
      using run c(1) Untyped by (simp add: notify_def)
    from run_client_keeps [OF this] t(2) show ?thesis by auto
  qed
qed

lemma delivered_frame:
  assumes inv: "core_inv xp xe s" and frame: "world_frame A s s'" and pre: "notify_pre m c s"
  shows "delivered s' m = delivered s m"
proof -
  obtain P where P: "producer_heap s (n_topic m) = Some P" "\<forall>e\<in>set (n_events m). \<exists>ev. event_heap s e = Some ev"
    using pre unfolding notify_pre_def by blast
  have "map (event_heap s') (n_events m) = map (event_heap s) (n_events m)"
    using P(2) world_frameD(8) [OF frame] core_inv_bound(3) [OF inv] by (auto intro!: map_cong)
  moreover have "map_option p_topic (producer_heap s' (n_topic m)) = Some (p_topic P)"
    using world_frameD(10) [OF frame core_inv_bound(1) [OF inv P(1)]] P(1) by simp
  ultimately show ?thesis using P(1) by (auto simp: delivered_def)
qed

text \<open>A consumer that has lost its handle does not get it back.\<close>

lemma handle_frame:
  assumes inv: "core_inv xp xe s" and frame: "trace_frame s s'" and c: "consumer_heap s c = Some ci"
    and h: "c \<in> dom (consumer_handles s')"
  shows "c \<in> dom (consumer_handles s)"
  using frame h core_inv_bound(2) [OF inv c] unfolding trace_frame_def by auto

interpretation notify_log: logging_loop "notify m" "core_inv xp xe" client_frame
  "\<lambda>c s. notify_pre m c s \<and> delivered s m = n" trace "\<lambda>c. (c, m, n)" "\<lambda>c s. c \<in> dom (consumer_handles s)" for m n xp xe
proof (unfold_locales, goal_cases)
  case (4 s s' c)
  then show ?case using notify_pre_frame delivered_frame by blast
next
  case (5 s c s')
  then show ?case using notify_log by blast
next
  case (6 s c s')
  then show ?case using handle_frame [OF 6(1) world_frameD(1)] unfolding notify_pre_def by blast
qed (blast intro: world_frame_refl client_frame_trans notify_safe)+

section \<open>Adding consumers to producers\<close>

text \<open>
  A producer \<open>p\<close> of id \<open>sid p\<close> and topic \<open>tpc p\<close>, and a live consumer
  \<open>c\<close>: what \<^verbatim>\<open>maybe_add\<close> needs, when it calls the handler, and with what.
\<close>

definition start_pre :: "(addr \<Rightarrow> StreamID) \<Rightarrow> (addr \<Rightarrow> TopicImpl) \<Rightarrow> addr set \<Rightarrow> addr \<times> addr \<Rightarrow> 'u world \<Rightarrow> bool" where
  "start_pre sid tpc A pc s \<longleftrightarrow>
     fst pc \<in> A \<and> fst pc \<in> set (producers s) \<and> snd pc \<in> dom (consumer_heap s) \<and>
     (\<exists>P. producer_heap s (fst pc) = Some P \<and> p_id P = sid (fst pc) \<and> p_topic P = tpc (fst pc))"

definition start_on :: "(addr \<Rightarrow> TopicImpl) \<Rightarrow> addr \<times> addr \<Rightarrow> 'u world \<Rightarrow> bool" where
  "start_on tpc pc s \<longleftrightarrow>
     snd pc \<in> dom (consumer_handles s) \<and>
     (\<exists>ci. consumer_heap s (snd pc) = Some ci \<and> is_match (tpc (fst pc)) (c_filter ci))"

definition start_entry ::
  "(addr \<Rightarrow> StreamID) \<Rightarrow> (addr \<Rightarrow> TopicImpl) \<Rightarrow> addr \<times> addr \<Rightarrow> addr \<times> NotificationImpl \<times> Notification" where
  "start_entry sid tpc pc =
     (snd pc, \<lparr>n_kind = START_PRODUCER, n_events = [], n_stream_id = sid (fst pc), n_topic = fst pc\<rparr>,
      \<lparr>kind = START_PRODUCER, events = [], stream_id = sid (fst pc), name = t_name (tpc (fst pc))\<rparr>)"

lemma maybe_add_log:
  assumes inv: "core_inv xp xe s" and pre: "start_pre sid tpc A (p, c) s"
  shows "safe_r (\<lambda>s'. (core_inv xp xe s' \<and> world_frame A s s') \<and>
      trace s' = trace s @ (if start_on tpc (p, c) s then [start_entry sid tpc (p, c)] else [])) (maybe_add p c s)"
proof -
  obtain P ci where P: "producer_heap s p = Some P" "p_id P = sid p" "p_topic P = tpc p" "consumer_heap s c = Some ci"
    and p: "p \<in> A" "p \<in> set (producers s)"
    using pre by (auto simp: start_pre_def)
  show ?thesis
  proof (cases "is_match (tpc p) (c_filter ci)")
    case False
    then show ?thesis using P inv by (simp add: maybe_add_def start_on_def world_frame_refl)
  next
    case True
    let ?m = "\<lparr>n_kind = START_PRODUCER, n_events = [], n_stream_id = sid p, n_topic = p\<rparr>"
    let ?s = "s\<lparr>producer_heap := (producer_heap s)(p \<mapsto> P\<lparr>p_consumers := p_consumers P @ [c]\<rparr>)\<rparr>"
    have i: "core_inv xp xe ?s"
      by (rule core_inv_set_consumers [OF inv P(1) init_outside_queue [OF inv p(2)]])
    have f: "world_frame A s ?s" using P(1) p(1) by (auto simp: world_frame_def trace_frame_def object_frame_def)
    have pre: "notify_pre ?m c ?s" using P True by (simp add: notify_pre_def)
    have "core_inv xp xe s' \<and> world_frame A s s'" if "notify ?m c ?s = Inr s'" for s'
      using notify_safe [OF i pre] that world_frame_trans [OF f, of "{}" s'] by auto
    moreover have "trace s' = trace s @ (if start_on tpc (p, c) s then [start_entry sid tpc (p, c)] else [])"
      if "notify ?m c ?s = Inr s'" for s'
      using notify_log [OF i pre that] P True by (auto simp: start_on_def start_entry_def delivered_def)
    moreover have "e = ClientLifetime" if "notify ?m c ?s = Inl e" for e
      using notify_safe [OF i pre] that by simp
    ultimately have "safe_r (\<lambda>s'. (core_inv xp xe s' \<and> world_frame A s s') \<and>
      trace s' = trace s @ (if start_on tpc (p, c) s then [start_entry sid tpc (p, c)] else [])) (notify ?m c ?s)"
      by (cases "notify ?m c ?s") auto
    then show ?thesis using P True by (simp add: maybe_add_def)
  qed
qed

lemma start_pre_frame:
  assumes inv: "core_inv xp xe s" and frame: "world_frame A s s'" and pre: "start_pre sid tpc A pc s"
  shows "start_pre sid tpc A pc s'"
proof -
  obtain P where P: "producer_heap s (fst pc) = Some P" "p_id P = sid (fst pc)" "p_topic P = tpc (fst pc)"
    using pre by (auto simp: start_pre_def)
  have b: "fst pc < next_addr s" using core_inv_bound(1) [OF inv P(1)] .
  obtain P' where "producer_heap s' (fst pc) = Some P'" "p_topic P' = p_topic P" "p_id P' = p_id P"
    using world_frameD(10,12) [OF frame b] P(1) by auto
  then show ?thesis
    using pre P consumers_stay [OF inv frame] world_frameD(2) [OF frame] by (auto simp: start_pre_def)
qed

lemma start_on_frame:
  assumes inv: "core_inv xp xe s" and pre: "start_pre sid tpc A pc s" and frame: "world_frame A s s'"
    and on: "start_on tpc pc s'"
  shows "start_on tpc pc s"
proof -
  obtain ci where ci: "consumer_heap s (snd pc) = Some ci" using pre by (auto simp: start_pre_def)
  have "map_option c_filter (consumer_heap s' (snd pc)) = Some (c_filter ci)"
    using world_frameD(11) [OF frame core_inv_bound(2) [OF inv ci]] ci by simp
  then show ?thesis
    using on ci handle_frame [OF inv world_frameD(1) [OF frame] ci] by (auto simp: start_on_def)
qed

interpretation start_log: logging_loop "\<lambda>(p, c). maybe_add p c" "core_inv xp xe" "world_frame A" "start_pre sid tpc A"
  trace "start_entry sid tpc" "start_on tpc" for xp xe A sid tpc
proof (unfold_locales, goal_cases)
  case (2 s s' s'')
  then show ?case using world_frame_trans [of A s s' A s''] by simp
next
  case (3 s pc)
  then show ?case using maybe_add_log [OF 3(1), of sid tpc A "fst pc" "snd pc"] by (auto elim: safe_r_mono simp: case_prod_beta)
next
  case (5 s pc s')
  then show ?case using maybe_add_log [OF 5(1), of sid tpc A "fst pc" "snd pc"] by (simp add: case_prod_beta)
qed (blast intro: world_frame_refl start_pre_frame start_on_frame)+

lemma subseq_filter_all: "subseq ys xs \<Longrightarrow> \<forall>y\<in>set ys. P y \<Longrightarrow> subseq ys (filter P xs)"
  using subseq_filter [of ys xs P] by simp

section \<open>The effect of each action on the handlers\<close>

text \<open>
  \<open>delivers s s' cs entry\<close>: from \<open>s\<close> to \<open>s'\<close> the consumers of \<open>cs\<close>
  have been notified once each, in that order, with their \<open>entry\<close>, except that those
  whose \<^verbatim>\<open>Consumer\<close> object is gone by \<open>s'\<close> may have been left out, and those whose
  object was already gone in \<open>s\<close> have been; no other handler has been called.
\<close>

definition delivers ::
  "'u world \<Rightarrow> 'u world \<Rightarrow> addr list \<Rightarrow> (addr \<Rightarrow> addr \<times> NotificationImpl \<times> Notification) \<Rightarrow> bool" where
  "delivers s s' cs entry \<longleftrightarrow>
     (\<exists>ds. subseq ds cs \<and> trace s' = trace s @ map entry ds \<and>
        (\<forall>c\<in>set ds. c \<in> dom (consumer_handles s)) \<and>
        (\<forall>c\<in>set cs - set ds. c \<notin> dom (consumer_handles s')))"

lemma notify_all_delivers:
  assumes "core_inv xp xe s" and "\<And>c. c \<in> set cs \<Longrightarrow> notify_pre m c s" and "for_each (notify m) cs s = Inr s'"
  shows "delivers s s' cs (\<lambda>c. (c, m, delivered s m))"
  using notify_log.loop_log [OF assms(1) _ assms(3), of "delivered s m"] assms(2) by (simp add: delivers_def)

lemma visit_publish_delivers:
  assumes inv: "broker_inv s" and q: "pending_actions s = Publish p e # q"
    and run: "visit (Publish p e) (s\<lparr>pending_actions := q\<rparr>) = Inr s'"
  shows "\<exists>P ev. producer_heap s p = Some P \<and> event_heap s e = Some ev \<and>
    delivers s s' (filter (matches s P) (consumers s))
      (\<lambda>c. (c, \<lparr>n_kind = EVENT, n_events = [e], n_stream_id = p_id P, n_topic = p\<rparr>,
             \<lparr>kind = EVENT, events = [Some ev], stream_id = p_id P, name = t_name (p_topic P)\<rparr>))"
proof -
  let ?s = "s\<lparr>pending_actions := q\<rparr>"
  from pop_publish [OF inv q] obtain P ev where i: "core_inv [] [e] ?s" and p: "p \<in> set (producers s)"
    and P: "producer_heap s p = Some P" "p_consumers P = filter (matches s P) (consumers s)"
    and ev: "event_heap s e = Some ev" "ev_classes ev = classes_of (stream_event s (t_type (p_topic P)))" by metis
  let ?m = "\<lparr>n_kind = EVENT, n_events = [e], n_stream_id = p_id P, n_topic = p\<rparr>"
  have "routed ?s p (consumers s)" using inv p routed_cong [of ?s s p] by (simp add: broker_inv_def)
  then have pre: "notify_pre ?m c ?s" if "c \<in> set (p_consumers P)" for c
    using routed_notify_pre [of ?s p "consumers s" P c ?m] P(1) ev that by simp
  obtain t where t: "for_each (notify ?m) (p_consumers P) ?s = Inr t" "s' = snapshot_add_new_event (p_snapshot_handler P) e t"
    using run P(1) by (auto simp: visit_publish_def producer_publish_def)
  have "delivers ?s t (p_consumers P) (\<lambda>c. (c, ?m, delivered ?s ?m))"
    by (rule notify_all_delivers [OF i pre t(1)])
  moreover have "delivered ?s ?m = \<lparr>kind = EVENT, events = [Some ev], stream_id = p_id P, name = t_name (p_topic P)\<rparr>"
    using P(1) ev(1) by (simp add: delivered_def)
  ultimately have "delivers s s' (p_consumers P) (\<lambda>c. (c, ?m, \<lparr>kind = EVENT, events = [Some ev], stream_id = p_id P,
      name = t_name (p_topic P)\<rparr>))"
    using t(2) by (simp add: delivers_def snapshot_add_new_event_eq free_event_def)
  with P ev(1) show ?thesis by auto
qed

lemma visit_destroy_producer_delivers:
  assumes inv: "broker_inv s" and q: "pending_actions s = DestroyProducer p # q"
    and run: "visit (DestroyProducer p) (s\<lparr>pending_actions := q\<rparr>) = Inr s'"
  shows "\<exists>P. producer_heap s p = Some P \<and> producer_heap s' p = None \<and> producers s' = remove1 p (producers s) \<and>
    delivers s s' (filter (matches s P) (consumers s))
      (\<lambda>c. (c, \<lparr>n_kind = STOP_PRODUCER, n_events = [], n_stream_id = p_id P, n_topic = p\<rparr>,
             \<lparr>kind = STOP_PRODUCER, events = [], stream_id = p_id P, name = t_name (p_topic P)\<rparr>))"
proof -
  let ?s = "s\<lparr>pending_actions := q, producers := remove1 p (producers s)\<rparr>"
  from pop_destroy_producer [OF inv q] obtain P where i: "core_inv [p] [] ?s" and p: "p \<in> set (producers s)"
    and P: "producer_heap s p = Some P" "p_consumers P = filter (matches s P) (consumers s)" by metis
  let ?m = "\<lparr>n_kind = STOP_PRODUCER, n_events = [], n_stream_id = p_id P, n_topic = p\<rparr>"
  have "routed ?s p (consumers s)" using inv p routed_cong [of ?s s p] by (simp add: broker_inv_def)
  then have pre: "notify_pre ?m c ?s" if "c \<in> set (p_consumers P)" for c
    using routed_notify_pre [of ?s p "consumers s" P c ?m] P(1) that by simp
  obtain t where t: "for_each (notify ?m) (p_consumers P) ?s = Inr t" "s' = t\<lparr>producer_heap := (producer_heap t)(p := None)\<rparr>"
    using run P(1) p by (auto simp: visit_destroy_producer_def delete_ProducerImpl_def)
  have "delivers ?s t (p_consumers P) (\<lambda>c. (c, ?m, delivered ?s ?m))"
    by (rule notify_all_delivers [OF i pre t(1)])
  moreover have "client_frame ?s t"
    by (rule notify_loop.loop_frame(2) [OF i pre t(1)])
  then have "producers s' = remove1 p (producers s)" using world_frameD(2) t(2) by fastforce
  moreover have "delivered ?s ?m = \<lparr>kind = STOP_PRODUCER, events = [], stream_id = p_id P, name = t_name (p_topic P)\<rparr>"
    using P(1) by (simp add: delivered_def)
  ultimately show ?thesis using t(2) P by (simp add: delivers_def)
qed

lemma visit_init_producer_delivers:
  assumes inv: "broker_inv s" and q: "pending_actions s = InitProducer p # q"
    and run: "visit (InitProducer p) (s\<lparr>pending_actions := q\<rparr>) = Inr s'"
  shows "\<exists>P. producer_heap s p = Some P \<and> producers s' = producers s @ [p] \<and>
    delivers s s' (filter (matches s P) (consumers s))
      (\<lambda>c. (c, \<lparr>n_kind = START_PRODUCER, n_events = [], n_stream_id = p_id P, n_topic = p\<rparr>,
             \<lparr>kind = START_PRODUCER, events = [], stream_id = p_id P, name = t_name (p_topic P)\<rparr>))"
proof -
  let ?s = "s\<lparr>pending_actions := q, producers := producers s @ [p]\<rparr>"
  have core: "core_inv [] [] s" using inv by (simp add: broker_inv_def)
  note pop = pop_init_producer [OF core q]
  obtain P where P: "producer_heap s p = Some P" using pop(3) by blast
  let ?sid = "\<lambda>_::addr. p_id P" and ?tpc = "\<lambda>_::addr. p_topic P" and ?cs = "consumers s"
  have dom: "set ?cs \<subseteq> dom (consumer_heap s)" using core by (auto simp: core_inv_def owned_inv_def)
  have run': "for_each (\<lambda>(p, c). maybe_add p c) (map (Pair p) ?cs) ?s = Inr s'"
    using run by (simp add: visit_init_producer_def producer_init_def for_each_map)
  have pre: "start_pre ?sid ?tpc {p} pc ?s" if "pc \<in> set (map (Pair p) ?cs)" for pc
    using that dom P by (auto simp: start_pre_def)
  from start_log.loop_log [OF pop(1) pre run'] obtain ys where ys: "subseq ys (map (Pair p) ?cs)"
    "trace s' = trace s @ map (start_entry ?sid ?tpc) ys" "\<forall>y\<in>set ys. start_on ?tpc y ?s"
    "\<forall>x\<in>set (map (Pair p) ?cs) - set ys. \<not> start_on ?tpc x s'" by auto
  have frame: "world_frame {p} ?s s'" by (rule start_log.loop_frame(2) [OF pop(1) pre run'])
  obtain ds where ds: "ys = map (Pair p) ds" "subseq ds ?cs"
    using ys(1) by (rule subseq_mapE)
  have m: "matches s P c \<and> c \<in> dom (consumer_handles s)" if "c \<in> set ds" for c
    using ys(3) that ds(1) by (auto simp: start_on_def matches_def)
  have "c \<notin> dom (consumer_handles s')" if c: "c \<in> set (filter (matches s P) ?cs) - set ds" for c
  proof -
    have "matches s' P c"
      using matches_frame [OF frame, of c P P] core_inv_bound(2) [OF core, of c] c by (auto simp: matches_def split: option.splits)
    moreover have "\<not> start_on ?tpc (p, c) s'" using ys(4) ds(1) c by auto
    ultimately show ?thesis by (auto simp: start_on_def matches_def split: option.splits)
  qed
  then have "delivers s s' (filter (matches s P) ?cs) (\<lambda>c. start_entry ?sid ?tpc (p, c))"
    unfolding delivers_def using ys(2) ds m subseq_filter_all [OF ds(2), of "matches s P"] by (intro exI [of _ ds]) auto
  moreover have "producers s' = producers s @ [p]" using world_frameD(2) [OF frame] by simp
  ultimately show ?thesis using P by (auto simp: start_entry_def)
qed

text \<open>
  A new consumer hears of the matching producers, of id \<open>sid p\<close> and topic
  \<open>tpc p\<close>: of all of them, in order, unless it is destroyed meanwhile.
\<close>

lemma visit_init_consumer_delivers:
  assumes inv: "broker_inv s" and q: "pending_actions s = InitConsumer c # q"
    and run: "visit (InitConsumer c) (s\<lparr>pending_actions := q\<rparr>) = Inr s'"
  shows "\<exists>ci sid tpc ds. consumer_heap s c = Some ci \<and> consumers s' = consumers s @ [c] \<and>
    (\<forall>p\<in>set (producers s). \<exists>P. producer_heap s p = Some P \<and> p_id P = sid p \<and> p_topic P = tpc p) \<and>
    subseq ds (filter (\<lambda>p. is_match (tpc p) (c_filter ci)) (producers s)) \<and>
    trace s' = trace s @ map (\<lambda>p. (c, \<lparr>n_kind = START_PRODUCER, n_events = [], n_stream_id = sid p, n_topic = p\<rparr>,
             \<lparr>kind = START_PRODUCER, events = [], stream_id = sid p, name = t_name (tpc p)\<rparr>)) ds \<and>
    (ds \<noteq> [] \<longrightarrow> c \<in> dom (consumer_handles s)) \<and>
    (c \<in> dom (consumer_handles s') \<longrightarrow> ds = filter (\<lambda>p. is_match (tpc p) (c_filter ci)) (producers s))"
proof -
  let ?s = "s\<lparr>pending_actions := q, consumers := consumers s @ [c]\<rparr>" and ?ps = "producers s"
  have core: "core_inv [] [] s" using inv by (simp add: broker_inv_def)
  note i = pop_init_consumer(1) [OF core q]
  obtain ci where ci: "consumer_heap s c = Some ci" using pop_init_consumer(2) [OF core q] by auto
  define sid where "sid = (\<lambda>p. case producer_heap s p of None \<Rightarrow> 0 | Some P \<Rightarrow> p_id P)"
  define tpc where "tpc = (\<lambda>p. case producer_heap s p of None \<Rightarrow> \<lparr>t_type = [], t_name = []\<rparr> | Some P \<Rightarrow> p_topic P)"
  have ps: "\<exists>P. producer_heap s p = Some P \<and> p_id P = sid p \<and> p_topic P = tpc p" if "p \<in> set ?ps" for p
  proof -
    have "p \<in> dom (producer_heap s)" using core that by (auto simp: core_inv_def owned_inv_def)
    then show ?thesis by (auto simp: sid_def tpc_def)
  qed
  have run': "for_each (\<lambda>(p, c). maybe_add p c) (map (\<lambda>p. (p, c)) ?ps) ?s = Inr s'"
    using run by (simp add: visit_init_consumer_def for_each_map)
  have pre: "start_pre sid tpc (set ?ps) pc ?s" if "pc \<in> set (map (\<lambda>p. (p, c)) ?ps)" for pc
    using that ps ci by (auto simp: start_pre_def)
  from start_log.loop_log [OF i pre run'] obtain ys where ys: "subseq ys (map (\<lambda>p. (p, c)) ?ps)"
    "trace s' = trace s @ map (start_entry sid tpc) ys" "\<forall>y\<in>set ys. start_on tpc y ?s"
    "\<forall>x\<in>set (map (\<lambda>p. (p, c)) ?ps) - set ys. \<not> start_on tpc x s'" by auto
  have frame: "world_frame (set ?ps) ?s s'" by (rule start_log.loop_frame(2) [OF i pre run'])
  obtain ds where ds: "ys = map (\<lambda>p. (p, c)) ds" "subseq ds ?ps"
    using ys(1) by (rule subseq_mapE)
  let ?match = "\<lambda>p. is_match (tpc p) (c_filter ci)"
  have on: "?match p \<and> c \<in> dom (consumer_handles s)" if "p \<in> set ds" for p
    using ys(3) that ds(1) ci by (auto simp: start_on_def)
  then have sub: "subseq ds (filter ?match ?ps)" using subseq_filter_all [OF ds(2), of ?match] by simp
  have "ds = filter ?match ?ps" if h: "c \<in> dom (consumer_handles s')"
  proof (rule subseq_distinct_eq [OF sub])
    show "distinct (filter ?match ?ps)" using core by (simp add: core_inv_def owned_inv_def)
    have "map_option c_filter (consumer_heap s' c) = Some (c_filter ci)"
      using world_frameD(11) [OF frame, of c] core_inv_bound(2) [OF core ci] ci by simp
    then obtain ci' where ci': "consumer_heap s' c = Some ci'" "c_filter ci' = c_filter ci" by auto
    show "set (filter ?match ?ps) \<subseteq> set ds"
    proof
      fix p assume p: "p \<in> set (filter ?match ?ps)"
      then have "start_on tpc (p, c) s'" using ci' h by (simp add: start_on_def)
      then show "p \<in> set ds" using ys(4) ds(1) p by auto
    qed
  qed
  moreover have "c \<in> dom (consumer_handles s)" if "ds \<noteq> []" using on [of "hd ds"] that by simp
  moreover have "trace s' = trace s @ map (\<lambda>p. (c, \<lparr>n_kind = START_PRODUCER, n_events = [], n_stream_id = sid p, n_topic = p\<rparr>,
             \<lparr>kind = START_PRODUCER, events = [], stream_id = sid p, name = t_name (tpc p)\<rparr>)) ds"
    using ys(2) ds(1) by (simp add: start_entry_def comp_def)
  moreover have "consumers s' = consumers s @ [c]" using world_frameD(3) [OF frame] by simp
  ultimately show ?thesis using ci sub ps by blast
qed

section \<open>Properties\<close>

text \<open>
  C3: an event reaches exactly the matching consumers. When \<^verbatim>\<open>do_work\<close> executes a
  queued \<^verbatim>\<open>Publish\<close>, the handlers of the consumers whose filter accepts the producer's
  topic are called once each, in registration order, with the published event; a consumer is
  skipped only if its \<^verbatim>\<open>Consumer\<close> object has been destroyed by then, also by one of
  these very handlers; afterwards the event is freed.
\<close>

theorem publish_reaches_matching_consumers:
  assumes "broker_reachable s" and "pending_actions s = Publish p e # q"
    and "visit (Publish p e) (s\<lparr>pending_actions := q\<rparr>) = Inr s'"
  shows "(\<exists>P ev. producer_heap s p = Some P \<and> event_heap s e = Some ev \<and>
    delivers s s' (filter (matches s P) (consumers s))
      (\<lambda>c. (c, \<lparr>n_kind = EVENT, n_events = [e], n_stream_id = p_id P, n_topic = p\<rparr>,
             \<lparr>kind = EVENT, events = [Some ev], stream_id = p_id P, name = t_name (p_topic P)\<rparr>))) \<and>
    event_heap s' e = None"
proof -
  have inv: "broker_inv s" using assms(1) by (rule broker_reachable_inv)
  have "event_heap s' e = None"
    using assms(3) by (auto simp: visit_publish_def producer_publish_def snapshot_add_new_event_eq free_event_def
        split: option.splits)
  with visit_publish_delivers [OF inv assms(2,3)] show ?thesis by blast
qed

theorem publish_reaches_matching_consumers_witness:
  "\<exists>P ev. producer_heap demo_joined 0 = Some P \<and> event_heap demo_joined 2 = Some ev \<and>
    delivers demo_joined demo_done (filter (matches demo_joined P) (consumers demo_joined))
      (\<lambda>c. (c, \<lparr>n_kind = EVENT, n_events = [2], n_stream_id = p_id P, n_topic = 0\<rparr>,
             \<lparr>kind = EVENT, events = [Some ev], stream_id = p_id P, name = t_name (p_topic P)\<rparr>))"
  using publish_reaches_matching_consumers [OF demo_reachable_steps(2) demo_queues(3) demo_steps(3)] by (rule conjunct1)

text \<open>
  C12: a producer's beginning and end are announced to exactly the matching consumers: when
  its queued \<^verbatim>\<open>InitProducer\<close> is executed each of them gets \<open>START_PRODUCER\<close>, and when
  its queued \<^verbatim>\<open>DestroyProducer\<close> is executed each gets \<open>STOP_PRODUCER\<close> before the
  producer is gone, with the producer's stream id and name.
\<close>

theorem producer_lifecycle_is_announced:
  assumes "broker_reachable s" and "pending_actions s = a # q" and "a = InitProducer p \<or> a = DestroyProducer p"
    and "visit a (s\<lparr>pending_actions := q\<rparr>) = Inr s'"
  shows "\<exists>P. producer_heap s p = Some P \<and>
    (let k = (if a = InitProducer p then START_PRODUCER else STOP_PRODUCER) in
     delivers s s' (filter (matches s P) (consumers s))
      (\<lambda>c. (c, \<lparr>n_kind = k, n_events = [], n_stream_id = p_id P, n_topic = p\<rparr>,
             \<lparr>kind = k, events = [], stream_id = p_id P, name = t_name (p_topic P)\<rparr>))) \<and>
    producers s' = producers_after a (producers s) \<and> (a = DestroyProducer p \<longrightarrow> producer_heap s' p = None)"
  using assms(3)
proof
  assume a: "a = InitProducer p"
  show ?thesis using visit_init_producer_delivers [OF broker_reachable_inv [OF assms(1)], of p q s'] assms a by auto
next
  assume a: "a = DestroyProducer p"
  show ?thesis using visit_destroy_producer_delivers [OF broker_reachable_inv [OF assms(1)], of p q s'] assms a by auto
qed

theorem producer_lifecycle_is_announced_witness:
  "\<exists>P. producer_heap demo_queued 0 = Some P \<and> producers demo_started = [0] \<and>
    delivers demo_queued demo_started (filter (matches demo_queued P) (consumers demo_queued))
      (\<lambda>c. (c, \<lparr>n_kind = START_PRODUCER, n_events = [], n_stream_id = p_id P, n_topic = 0\<rparr>,
             \<lparr>kind = START_PRODUCER, events = [], stream_id = p_id P, name = t_name (p_topic P)\<rparr>))"
  using producer_lifecycle_is_announced [OF demo_reachable(1) demo_queues(1) _ demo_steps(1), of 0]
  by (auto simp: demo_started_def)

text \<open>
  a new consumer is told of every matching producer. When its queued
  \<^verbatim>\<open>InitConsumer\<close> is executed it gets one \<open>START_PRODUCER\<close> for each live producer
  that its filter accepts, in creation order, unless its handler destroys the consumer on
  the way.
\<close>

theorem new_consumer_hears_of_producers:
  assumes "broker_reachable s" and "pending_actions s = InitConsumer c # q"
    and "visit (InitConsumer c) (s\<lparr>pending_actions := q\<rparr>) = Inr s'"
  shows "\<exists>ci sid tpc ds. consumer_heap s c = Some ci \<and> consumers s' = consumers s @ [c] \<and>
    (\<forall>p\<in>set (producers s). \<exists>P. producer_heap s p = Some P \<and> p_id P = sid p \<and> p_topic P = tpc p) \<and>
    subseq ds (filter (\<lambda>p. is_match (tpc p) (c_filter ci)) (producers s)) \<and>
    trace s' = trace s @ map (\<lambda>p. (c, \<lparr>n_kind = START_PRODUCER, n_events = [], n_stream_id = sid p, n_topic = p\<rparr>,
             \<lparr>kind = START_PRODUCER, events = [], stream_id = sid p, name = t_name (tpc p)\<rparr>)) ds \<and>
    (c \<in> dom (consumer_handles s') \<longrightarrow> ds = filter (\<lambda>p. is_match (tpc p) (c_filter ci)) (producers s))"
  using visit_init_consumer_delivers [OF broker_reachable_inv [OF assms(1)] assms(2,3)] by blast

theorem new_consumer_hears_of_producers_witness:
  "\<exists>ci sid tpc. consumer_heap demo_started 1 = Some ci \<and>
    map (\<lambda>x. n_topic (fst (snd x))) (trace demo_joined) = filter (\<lambda>p. is_match (tpc p) (c_filter ci)) (producers demo_started) \<and>
    map (\<lambda>x. n_stream_id (fst (snd x))) (trace demo_joined) = map sid (filter (\<lambda>p. is_match (tpc p) (c_filter ci)) (producers demo_started))"
proof -
  have h: "1 \<in> dom (consumer_handles demo_joined)" "trace demo_started = []"
    by (auto simp: demo_joined_def demo_done_def demo_started_def demo_queued_def demo_world_def new_world_def)
  from new_consumer_hears_of_producers [OF demo_reachable_steps(1) demo_queues(2) demo_steps(2)] h
  obtain ci sid tpc where "consumer_heap demo_started 1 = Some ci"
    "trace demo_joined = map (\<lambda>p. (1, \<lparr>n_kind = START_PRODUCER, n_events = [], n_stream_id = sid p, n_topic = p\<rparr>,
       \<lparr>kind = START_PRODUCER, events = [], stream_id = sid p, name = t_name (tpc p)\<rparr>))
       (filter (\<lambda>p. is_match (tpc p) (c_filter ci)) (producers demo_started))"
    by auto
  then show ?thesis by (intro exI [of _ ci] exI [of _ sid] exI [of _ tpc]) (simp add: comp_def)
qed

end
