(* ===== verification/Broker_Protocol.thy ===== *)
theory Broker_Protocol
  imports Broker_Delivery
begin

text \<open>
  The protocol between one producer and one consumer: the notifications a consumer gets
  from a producer are one \<open>START_PRODUCER\<close>, then events, then at most one
  \<open>STOP_PRODUCER\<close>, and nothing before or after.
\<close>

section \<open>Sessions\<close>

definition session :: "'u world \<Rightarrow> addr \<Rightarrow> addr \<Rightarrow> NotificationKind list" where
  "session s c p = map (\<lambda>x. n_kind (fst (snd x))) (filter (\<lambda>x. fst x = c \<and> n_topic (fst (snd x)) = p) (trace s))"

fun open_session :: "NotificationKind list \<Rightarrow> bool" where
  "open_session [] \<longleftrightarrow> False"
| "open_session (k # ks) \<longleftrightarrow> k = START_PRODUCER \<and> (\<forall>x\<in>set ks. x = EVENT)"

definition closed_session :: "NotificationKind list \<Rightarrow> bool" where
  "closed_session ks \<longleftrightarrow> ks \<noteq> [] \<and> last ks = STOP_PRODUCER \<and> open_session (butlast ks)"

lemma open_session_event: "open_session ks \<Longrightarrow> open_session (ks @ [EVENT])"
  by (cases ks) auto

lemma open_session_stop: "open_session ks \<Longrightarrow> closed_session (ks @ [STOP_PRODUCER])"
  by (simp add: closed_session_def)

text \<open>The broker routes from \<open>p\<close> to \<open>c\<close>.\<close>

definition connected :: "'u world \<Rightarrow> addr \<Rightarrow> addr \<Rightarrow> bool" where
  "connected s c p \<longleftrightarrow>
     p \<in> set (producers s) \<and> c \<in> set (consumers s) \<and> (\<exists>P. producer_heap s p = Some P \<and> matches s P c)"

definition session_ok :: "'u world \<Rightarrow> addr \<Rightarrow> addr \<Rightarrow> bool" where
  "session_ok s c p \<longleftrightarrow>
     (session s c p = [] \<or> open_session (session s c p) \<or> closed_session (session s c p)) \<and>
     (c \<in> dom (consumer_handles s) \<longrightarrow>
        (if connected s c p then open_session (session s c p)
         else session s c p = [] \<or> closed_session (session s c p))) \<and>
     (p \<in> set (init_producers (pending_actions s)) \<or> next_addr s \<le> p \<or>
      c \<in> set (init_consumers (pending_actions s)) \<or> next_addr s \<le> c \<longrightarrow> session s c p = [])"

lemma session_append:
  assumes "trace s' = trace s @ map (\<lambda>x. (x, m, n)) ds" and "distinct ds"
  shows "session s' c p = session s c p @ (if c \<in> set ds \<and> n_topic m = p then [n_kind m] else [])"
proof -
  have "filter (\<lambda>x. x = c \<and> n_topic m = p) ds = (if c \<in> set ds \<and> n_topic m = p then [c] else [])"
    using assms(2) by (induction ds) auto
  then have "map (\<lambda>x. n_kind (fst (snd x))) (filter (\<lambda>x. fst x = c \<and> n_topic (fst (snd x)) = p) (map (\<lambda>x. (x, m, n)) ds)) =
      (if c \<in> set ds \<and> n_topic m = p then [n_kind m] else [])"
    by (simp add: filter_map comp_def)
  with assms(1) show ?thesis by (simp add: session_def)
qed

section \<open>What a step leaves alone\<close>

text \<open>Vectors only lose objects that are destroyed.\<close>

definition vectors_kept :: "'u world \<Rightarrow> 'u world \<Rightarrow> bool" where
  "vectors_kept s s' \<longleftrightarrow>
     (\<forall>p\<in>set (producers s). p \<in> set (producers s') \<or> producer_heap s' p = None) \<and>
     (\<forall>c\<in>set (consumers s). c \<in> set (consumers s') \<or> consumer_heap s' c = None)"

lemma live_objects:
  assumes "broker_inv s"
  shows "dom (producer_heap s) = set (producers s) \<union> set (init_producers (pending_actions s))"
    and "dom (consumer_heap s) = set (consumers s) \<union> set (init_consumers (pending_actions s))"
    and "set (producers s) \<inter> set (init_producers (pending_actions s)) = {}"
    and "set (consumers s) \<inter> set (init_consumers (pending_actions s)) = {}"
    and "distinct (producers s)" and "distinct (consumers s)"
    and "dom (consumer_handles s) \<subseteq> dom (consumer_heap s)"
proof -
  show o: "dom (producer_heap s) = set (producers s) \<union> set (init_producers (pending_actions s))"
    "dom (consumer_heap s) = set (consumers s) \<union> set (init_consumers (pending_actions s))"
    "set (producers s) \<inter> set (init_producers (pending_actions s)) = {}"
    "set (consumers s) \<inter> set (init_consumers (pending_actions s)) = {}"
    "distinct (producers s)" "distinct (consumers s)"
    using assms by (simp_all add: broker_inv_def core_inv_def owned_inv_def)
  have "queue_ok (pending_actions s) (set (producers s)) (set (consumers s))
      (dom (producer_handles s)) (dom (consumer_handles s))"
    using assms by (simp add: broker_inv_def core_inv_def lifetime_inv_def)
  from queue_ok_handles [OF this] show "dom (consumer_handles s) \<subseteq> dom (consumer_heap s)" unfolding o by blast
qed

lemma live_bound:
  assumes "broker_inv s"
  shows "p \<in> dom (producer_heap s) \<Longrightarrow> p < next_addr s" and "c \<in> dom (consumer_heap s) \<Longrightarrow> c < next_addr s"
  using assms unfolding broker_inv_def core_inv_def lifetime_inv_def by blast+

text \<open>An object that is waiting for its \<^verbatim>\<open>Init\<close> action was waiting before, or is new.\<close>

lemma waiting_before:
  assumes inv: "broker_inv s" and inv': "broker_inv s'" and frame: "object_frame s s'" and vec: "vectors_kept s s'"
  shows "p \<in> set (init_producers (pending_actions s')) \<Longrightarrow> p \<in> set (init_producers (pending_actions s)) \<or> next_addr s \<le> p"
    and "c \<in> set (init_consumers (pending_actions s')) \<Longrightarrow> c \<in> set (init_consumers (pending_actions s)) \<or> next_addr s \<le> c"
proof -
  assume p: "p \<in> set (init_producers (pending_actions s'))"
  then have "producer_heap s' p \<noteq> None" "p \<notin> set (producers s')" using live_objects [OF inv'] by blast+
  moreover from this(1) have "producer_heap s p \<noteq> None" if "p < next_addr s"
    using frame that unfolding object_frame_def by (metis None_eq_map_option_iff)
  ultimately show "p \<in> set (init_producers (pending_actions s)) \<or> next_addr s \<le> p"
    using live_objects(1) [OF inv] vec unfolding vectors_kept_def by (metis UnE domIff not_less)
next
  assume c: "c \<in> set (init_consumers (pending_actions s'))"
  then have "consumer_heap s' c \<noteq> None" "c \<notin> set (consumers s')" using live_objects [OF inv'] by blast+
  moreover from this(1) have "consumer_heap s c \<noteq> None" if "c < next_addr s"
    using frame that unfolding object_frame_def by (metis None_eq_map_option_iff)
  ultimately show "c \<in> set (init_consumers (pending_actions s)) \<or> next_addr s \<le> c"
    using live_objects(2) [OF inv] vec unfolding vectors_kept_def by (metis UnE domIff not_less)
qed

text \<open>A connection between two objects that exist before and after is not affected.\<close>

lemma matches_object_frame:
  assumes "object_frame s s'" and "p < next_addr s" and "c < next_addr s"
    and "producer_heap s p = Some P" and "producer_heap s' p = Some P'" and "c \<in> dom (consumer_heap s')"
  shows "matches s' P' c = matches s P c"
proof -
  have "p_topic P' = p_topic P" using assms(1,2,4,5) unfolding object_frame_def by fastforce
  moreover have "map_option c_filter (consumer_heap s' c) = map_option c_filter (consumer_heap s c)"
    using assms(1,3,6) unfolding object_frame_def by auto
  ultimately show ?thesis by (auto simp: matches_def split: option.splits)
qed

lemma connected_frame:
  assumes inv: "broker_inv s" and inv': "broker_inv s'" and frame: "object_frame s s'"
    and p: "p \<in> set (producers s)" "p \<in> set (producers s')" and c: "c \<in> set (consumers s)" "c \<in> set (consumers s')"
  shows "connected s' c p = connected s c p"
proof -
  have d: "p \<in> dom (producer_heap s)" "p \<in> dom (producer_heap s')" "c \<in> dom (consumer_heap s)" "c \<in> dom (consumer_heap s')"
    using live_objects [OF inv] live_objects [OF inv'] p c by blast+
  obtain P P' where P: "producer_heap s p = Some P" "producer_heap s' p = Some P'" using d by blast
  show ?thesis
    using matches_object_frame [OF frame live_bound(1) [OF inv d(1)] live_bound(2) [OF inv d(3)] P d(4)] P p c
    by (simp add: connected_def)
qed

lemma session_ok_keep:
  assumes ok: "session_ok s c p" and inv: "broker_inv s" and inv': "broker_inv s'" and frame: "trace_frame s s'"
    and vec: "vectors_kept s s'" and same: "session s' c p = session s c p"
    and con: "c \<in> dom (consumer_handles s') \<Longrightarrow> connected s' c p = connected s c p"
  shows "session_ok s' c p"
proof -
  have obj: "object_frame s s'" and le: "next_addr s \<le> next_addr s'"
    using frame by (simp_all add: trace_frame_def)
  have fresh: "session s c p = []" if "p \<in> set (init_producers (pending_actions s')) \<or> next_addr s' \<le> p \<or>
      c \<in> set (init_consumers (pending_actions s')) \<or> next_addr s' \<le> c"
    using that ok waiting_before [OF inv inv' obj vec] le unfolding session_ok_def by (meson order_trans)
  have "c \<in> dom (consumer_handles s) \<or> next_addr s \<le> c" if "c \<in> dom (consumer_handles s')"
    using frame that unfolding trace_frame_def by (meson domIff not_less)
  moreover have "\<not> connected s c p \<and> session s c p = []" if "next_addr s \<le> c"
    using that ok live_objects(2) [OF inv] live_bound(2) [OF inv, of c] by (auto simp: session_ok_def connected_def)
  ultimately show ?thesis
    using ok fresh con unfolding session_ok_def same by (auto split: if_splits)
qed

lemma session_ok_new:
  assumes inv': "broker_inv s'" and p: "p < next_addr s'" "p \<notin> set (init_producers (pending_actions s'))"
    and c: "c \<in> set (consumers s')"
    and ses: "if connected s' c p then open_session (session s' c p) else closed_session (session s' c p)"
  shows "session_ok s' c p"
  using assms live_objects(2,4) [OF inv'] live_bound(2) [OF inv', of c]
  by (auto simp: session_ok_def split: if_splits)

section \<open>Every step follows the protocol\<close>

lemma client_vectors:
  assumes "run_client prog s = Inr s'"
  shows "vectors_kept s s'" and "session s' c p = session s c p"
  using run_client_keeps [OF assms] by (simp_all add: vectors_kept_def session_def)

lemma client_session_ok:
  assumes ok: "session_ok s c p" and inv: "broker_inv s" and run: "run_client prog s = Inr s'"
  shows "session_ok s' c p"
proof -
  have s': "broker_inv s'" "trace_frame s s'" using client_safe [OF inv, of prog] run by simp_all
  have v: "producers s' = producers s" "consumers s' = consumers s" using run_client_keeps [OF run] by simp_all
  have "connected s' c p = connected s c p"
  proof (cases "p \<in> set (producers s) \<and> c \<in> set (consumers s)")
    case True
    then show ?thesis using connected_frame [OF inv s'(1)] s'(2) v by (simp add: trace_frame_def)
  qed (auto simp: connected_def v)
  then show ?thesis by (rule session_ok_keep [OF ok inv s' client_vectors [OF run]])
qed

lemma connected_iff:
  assumes "producer_heap s p = Some P" and "p \<in> set (producers s)"
  shows "connected s c p \<longleftrightarrow> c \<in> set (filter (matches s P) (consumers s))"
  using assms by (auto simp: connected_def)

text \<open>A notification of kind \<open>k\<close> from \<open>p\<close> to all its consumers.\<close>

lemma deliver_session:
  assumes del: "delivers s s' cs (\<lambda>c. (c, m, n))" and dist: "distinct cs" and m: "n_topic m = p" "n_kind m = k"
  shows "\<exists>ds. (\<forall>c p'. session s' c p' = session s c p' @ (if c \<in> set ds \<and> p = p' then [k] else [])) \<and>
    set ds \<subseteq> set cs \<and> set ds \<subseteq> dom (consumer_handles s) \<and> set cs \<inter> dom (consumer_handles s') \<subseteq> set ds"
proof -
  obtain ds where ds: "subseq ds cs" "trace s' = trace s @ map (\<lambda>c. (c, m, n)) ds"
    "\<forall>c\<in>set ds. c \<in> dom (consumer_handles s)" "\<forall>c\<in>set cs - set ds. c \<notin> dom (consumer_handles s')"
    using del unfolding delivers_def by blast
  have "distinct ds" using ds(1) dist by (rule subseq_distinct)
  from session_append [OF ds(2) this] m
  have "\<forall>c p'. session s' c p' = session s c p' @ (if c \<in> set ds \<and> p = p' then [k] else [])" by simp
  with ds(3,4) subseq_set_subset [OF ds(1)] show ?thesis by (intro exI [of _ ds]) blast
qed

lemma broadcast_session_ok:
  assumes ok: "\<And>c p. session_ok s c p" and inv: "broker_inv s" and inv': "broker_inv s'" and frame: "trace_frame s s'"
    and vec: "vectors_kept s s'" and p: "p < next_addr s'" "p \<notin> set (init_producers (pending_actions s'))"
    and ses: "\<forall>c p'. session s' c p' = session s c p' @ (if c \<in> set ds \<and> p = p' then [k] else [])"
    and new: "\<And>c. c \<in> set ds \<Longrightarrow> c \<in> set (consumers s') \<and> (if connected s' c p
        then open_session (session s c p @ [k]) else closed_session (session s c p @ [k]))"
    and con: "\<And>c p'. c \<in> dom (consumer_handles s') \<Longrightarrow> \<not> (c \<in> set ds \<and> p = p') \<Longrightarrow> connected s' c p' = connected s c p'"
  shows "session_ok s' c p'"
proof (cases "c \<in> set ds \<and> p = p'")
  case True
  then have "session s' c p = session s c p @ [k]" using ses by simp
  then have "session_ok s' c p" using session_ok_new [OF inv' p, of c] new [of c] True by (metis (full_types))
  then show ?thesis using True by simp
next
  case False
  then show ?thesis using session_ok_keep [OF ok inv inv' frame vec] ses con by simp
qed

text \<open>Connections between objects that stay in the vectors are stable.\<close>

lemma connected_stable:
  assumes "broker_inv s" and "broker_inv s'" and "trace_frame s s'"
    and "p \<in> set (producers s) \<longleftrightarrow> p \<in> set (producers s')" and "c \<in> set (consumers s) \<longleftrightarrow> c \<in> set (consumers s')"
  shows "connected s' c p = connected s c p"
proof (cases "p \<in> set (producers s) \<and> c \<in> set (consumers s)")
  case True
  then show ?thesis using connected_frame [OF assms(1,2)] assms(3-5) by (simp add: trace_frame_def)
qed (use assms(4,5) in \<open>auto simp: connected_def\<close>)

lemma publish_session_ok:
  assumes ok: "\<And>c p. session_ok s c p" and inv: "broker_inv s" and q: "pending_actions s = Publish p e # q"
    and run: "visit (Publish p e) (s\<lparr>pending_actions := q\<rparr>) = Inr s'"
  shows "session_ok s' c p'"
proof -
  have s': "broker_inv s'" "trace_frame s s'" using visit_safe [OF inv q] run by simp_all
  have v: "producers s' = producers s" "consumers s' = consumers s" using visit_vectors [OF run] by simp_all
  have con: "connected s' c p' = connected s c p'" for c p'
    by (rule connected_stable [OF inv s']) (simp_all add: v)
  obtain P ev where P: "producer_heap s p = Some P" and del: "delivers s s' (filter (matches s P) (consumers s))
      (\<lambda>c. (c, \<lparr>n_kind = EVENT, n_events = [e], n_stream_id = p_id P, n_topic = p\<rparr>,
             \<lparr>kind = EVENT, events = [Some ev], stream_id = p_id P, name = t_name (p_topic P)\<rparr>))"
    using visit_publish_delivers [OF inv q run] by blast
  obtain p: "p \<in> set (producers s)" using pop_publish [OF inv q] by blast
  have dist: "distinct (filter (matches s P) (consumers s))" using live_objects(6) [OF inv] by simp
  obtain ds where ds: "\<forall>c p'. session s' c p' = session s c p' @ (if c \<in> set ds \<and> p = p' then [EVENT] else [])"
    "set ds \<subseteq> set (filter (matches s P) (consumers s))" "set ds \<subseteq> dom (consumer_handles s)"
    using deliver_session [OF del dist, of p EVENT] by auto
  show ?thesis
  proof (rule broadcast_session_ok [OF ok inv s' _ _ _ ds(1)])
    show "vectors_kept s s'" by (simp add: vectors_kept_def v)
    show "p < next_addr s'" "p \<notin> set (init_producers (pending_actions s'))"
      using live_objects [OF s'(1)] live_bound(1) [OF s'(1), of p] p v by auto
    fix c assume c: "c \<in> set ds"
    then have conn: "connected s c p" using ds(2) connected_iff [OF P p] by blast
    then have "open_session (session s c p)" using ok [of c p] ds(3) c by (auto simp: session_ok_def)
    then show "c \<in> set (consumers s') \<and> (if connected s' c p
        then open_session (session s c p @ [EVENT]) else closed_session (session s c p @ [EVENT]))"
      using con conn v(2) open_session_event by (auto simp: connected_def [of s])
  qed (rule con)
qed

lemma init_producer_session_ok:
  assumes ok: "\<And>c p. session_ok s c p" and inv: "broker_inv s" and q: "pending_actions s = InitProducer p # q"
    and run: "visit (InitProducer p) (s\<lparr>pending_actions := q\<rparr>) = Inr s'"
  shows "session_ok s' c p'"
proof -
  have s': "broker_inv s'" "trace_frame s s'" using visit_safe [OF inv q] run by simp_all
  have v: "producers s' = producers s @ [p]" "consumers s' = consumers s" using visit_vectors [OF run] by simp_all
  have p: "p \<in> set (producers s')" "p \<notin> set (producers s)"
    using v live_objects(5) [OF s'(1)] by simp_all
  have con: "connected s' c p' = connected s c p'" if "p' \<noteq> p" for c p'
    by (rule connected_stable [OF inv s']) (use that v in auto)
  obtain P where P: "producer_heap s p = Some P" and del: "delivers s s' (filter (matches s P) (consumers s))
      (\<lambda>c. (c, \<lparr>n_kind = START_PRODUCER, n_events = [], n_stream_id = p_id P, n_topic = p\<rparr>,
             \<lparr>kind = START_PRODUCER, events = [], stream_id = p_id P, name = t_name (p_topic P)\<rparr>))"
    using visit_init_producer_delivers [OF inv q run] by blast
  have d: "p \<in> dom (producer_heap s')" "p \<in> dom (producer_heap s)" using live_objects(1) [OF s'(1)] p(1) P by auto
  then obtain P' where P': "producer_heap s' p = Some P'" by blast
  have m: "matches s' P' c = matches s P c" if "c \<in> set (consumers s)" for c
    using matches_object_frame [OF _ live_bound(1) [OF inv d(2)] live_bound(2) [OF inv, of c] P P'] s'(2) that
      live_objects(2) [OF inv] live_objects(2) [OF s'(1)] v(2) by (auto simp: trace_frame_def)
  have dist: "distinct (filter (matches s P) (consumers s))" using live_objects(6) [OF inv] by simp
  obtain ds where ds: "\<forall>c p'. session s' c p' = session s c p' @ (if c \<in> set ds \<and> p = p' then [START_PRODUCER] else [])"
    "set ds \<subseteq> set (filter (matches s P) (consumers s))"
    "set (filter (matches s P) (consumers s)) \<inter> dom (consumer_handles s') \<subseteq> set ds"
    using deliver_session [OF del dist, of p START_PRODUCER] by auto
  show ?thesis
  proof (rule broadcast_session_ok [OF ok inv s' _ _ _ ds(1)])
    show "vectors_kept s s'" by (simp add: vectors_kept_def v)
    show "p < next_addr s'" "p \<notin> set (init_producers (pending_actions s'))"
      using live_objects [OF s'(1)] live_bound(1) [OF s'(1) d(1)] p(1) by auto
    fix c assume c: "c \<in> set ds"
    have "session s c p = []" using ok [of c p] q by (simp add: session_ok_def)
    then show "c \<in> set (consumers s') \<and> (if connected s' c p
        then open_session (session s c p @ [START_PRODUCER]) else closed_session (session s c p @ [START_PRODUCER]))"
      using ds(2) c m v p(1) P' by (auto simp: connected_def)
  next
    fix c p' assume h: "c \<in> dom (consumer_handles s')" and n: "\<not> (c \<in> set ds \<and> p = p')"
    show "connected s' c p' = connected s c p'"
    proof (cases "p' = p")
      case True
      then have "c \<notin> set (filter (matches s P) (consumers s))" using n h ds(3) by blast
      then show ?thesis using True p(2) m P' v by (auto simp: connected_def)
    qed (rule con)
  qed
qed

lemma destroy_producer_session_ok:
  assumes ok: "\<And>c p. session_ok s c p" and inv: "broker_inv s" and q: "pending_actions s = DestroyProducer p # q"
    and run: "visit (DestroyProducer p) (s\<lparr>pending_actions := q\<rparr>) = Inr s'"
  shows "session_ok s' c p'"
proof -
  have s': "broker_inv s'" "trace_frame s s'" using visit_safe [OF inv q] run by simp_all
  obtain p: "p \<in> set (producers s)" using pop_destroy_producer [OF inv q] by blast
  have v: "set (producers s') = set (producers s) - {p}" "consumers s' = consumers s"
    using visit_vectors [OF run] live_objects(5) [OF inv] by simp_all
  have con: "connected s' c p' = connected s c p'" if "p' \<noteq> p" for c p'
    by (rule connected_stable [OF inv s']) (use that v in auto)
  have gone: "\<not> connected s' c p" for c using v by (simp add: connected_def)
  obtain P where P: "producer_heap s p = Some P" "producer_heap s' p = None"
    and del: "delivers s s' (filter (matches s P) (consumers s))
      (\<lambda>c. (c, \<lparr>n_kind = STOP_PRODUCER, n_events = [], n_stream_id = p_id P, n_topic = p\<rparr>,
             \<lparr>kind = STOP_PRODUCER, events = [], stream_id = p_id P, name = t_name (p_topic P)\<rparr>))"
    using visit_destroy_producer_delivers [OF inv q run] by blast
  have dist: "distinct (filter (matches s P) (consumers s))" using live_objects(6) [OF inv] by simp
  obtain ds where ds: "\<forall>c p'. session s' c p' = session s c p' @ (if c \<in> set ds \<and> p = p' then [STOP_PRODUCER] else [])"
    "set ds \<subseteq> set (filter (matches s P) (consumers s))" "set ds \<subseteq> dom (consumer_handles s)"
    "set (filter (matches s P) (consumers s)) \<inter> dom (consumer_handles s') \<subseteq> set ds"
    using deliver_session [OF del dist, of p STOP_PRODUCER] by auto
  show ?thesis
  proof (rule broadcast_session_ok [OF ok inv s' _ _ _ ds(1)])
    show "vectors_kept s s'" using v P(2) by (simp add: vectors_kept_def)
    have "p \<in> dom (producer_heap s)" using P(1) by blast
    then show "p < next_addr s'" using live_bound(1) [OF inv, of p] s'(2) by (auto simp: trace_frame_def)
    show "p \<notin> set (init_producers (pending_actions s'))" using live_objects(1) [OF s'(1)] P(2) by blast
    fix c assume c: "c \<in> set ds"
    then have "connected s c p" using ds(2) connected_iff [OF P(1) p] by blast
    then have "open_session (session s c p)" using ok [of c p] ds(3) c by (auto simp: session_ok_def)
    then show "c \<in> set (consumers s') \<and> (if connected s' c p
        then open_session (session s c p @ [STOP_PRODUCER]) else closed_session (session s c p @ [STOP_PRODUCER]))"
      using ds(2) c v(2) gone open_session_stop by auto
  next
    fix c p' assume h: "c \<in> dom (consumer_handles s')" and n: "\<not> (c \<in> set ds \<and> p = p')"
    show "connected s' c p' = connected s c p'"
    proof (cases "p' = p")
      case True
      then have "c \<notin> set (filter (matches s P) (consumers s))" using n h ds(4) by blast
      then show ?thesis using True gone connected_iff [OF P(1) p] by blast
    qed (rule con)
  qed
qed

lemma destroy_consumer_session_ok:
  assumes ok: "\<And>c p. session_ok s c p" and inv: "broker_inv s" and q: "pending_actions s = DestroyConsumer c0 # q"
    and run: "visit (DestroyConsumer c0) (s\<lparr>pending_actions := q\<rparr>) = Inr s'"
  shows "session_ok s' c p'"
proof -
  have s': "broker_inv s'" "trace_frame s s'" using visit_safe [OF inv q] run by simp_all
  have v: "producers s' = producers s" "set (consumers s') = set (consumers s) - {c0}"
    using visit_vectors [OF run] live_objects(6) [OF inv] by simp_all
  have "core_inv [] [] s" using inv by (simp add: broker_inv_def)
  from destroy_consumer_run(1) [OF this q] run have s'_heap: "trace s' = trace s" "consumer_heap s' c0 = None" by auto
  show ?thesis
  proof (rule session_ok_keep [OF ok inv s'])
    show "vectors_kept s s'" using v s'_heap(2) by (auto simp: vectors_kept_def)
    show "session s' c p' = session s c p'" using s'_heap(1) by (simp add: session_def)
    assume "c \<in> dom (consumer_handles s')"
    then have "c \<noteq> c0" using live_objects(7) [OF s'(1)] s'_heap(2) by blast
    then show "connected s' c p' = connected s c p'"
      by (intro connected_stable [OF inv s']) (use v in auto)
  qed
qed

text \<open>The new consumer's sessions: each matching producer that is announced opens one.\<close>

lemma session_append_starts:
  assumes "trace s' = trace s @ map (\<lambda>p. (c0, \<lparr>n_kind = START_PRODUCER, n_events = [], n_stream_id = sid p, n_topic = p\<rparr>, n p)) ds"
    and "distinct ds"
  shows "session s' c p = session s c p @ (if c = c0 \<and> p \<in> set ds then [START_PRODUCER] else [])"
proof -
  have "filter (\<lambda>x. c0 = c \<and> x = p) ds = (if c = c0 \<and> p \<in> set ds then [p] else [])"
    using assms(2) by (induction ds) auto
  then show ?thesis unfolding session_def assms(1) by (simp add: filter_map comp_def)
qed

lemma init_consumer_session_ok:
  assumes ok: "\<And>c p. session_ok s c p" and inv: "broker_inv s" and q: "pending_actions s = InitConsumer c0 # q"
    and run: "visit (InitConsumer c0) (s\<lparr>pending_actions := q\<rparr>) = Inr s'"
  shows "session_ok s' c p"
proof -
  have s': "broker_inv s'" "trace_frame s s'" using visit_safe [OF inv q] run by simp_all
  have v: "producers s' = producers s" "consumers s' = consumers s @ [c0]" using visit_vectors [OF run] by simp_all
  have c0: "c0 \<in> set (consumers s')" "c0 \<notin> set (consumers s)" using v live_objects(6) [OF s'(1)] by simp_all
  obtain ci sid tpc ds where ci: "consumer_heap s c0 = Some ci"
    and ps: "\<forall>p\<in>set (producers s). \<exists>P. producer_heap s p = Some P \<and> p_id P = sid p \<and> p_topic P = tpc p"
    and sub: "subseq ds (filter (\<lambda>p. is_match (tpc p) (c_filter ci)) (producers s))"
    and tr: "trace s' = trace s @ map (\<lambda>p. (c0, \<lparr>n_kind = START_PRODUCER, n_events = [], n_stream_id = sid p, n_topic = p\<rparr>,
             \<lparr>kind = START_PRODUCER, events = [], stream_id = sid p, name = t_name (tpc p)\<rparr>)) ds"
    and all: "c0 \<in> dom (consumer_handles s') \<longrightarrow> ds = filter (\<lambda>p. is_match (tpc p) (c_filter ci)) (producers s)"
    using visit_init_consumer_delivers [OF inv q run] by blast
  have dist: "distinct ds" using subseq_distinct [OF sub] live_objects(5) [OF inv] by simp
  note ses = session_append_starts [OF tr dist]
  have conn: "connected s' c0 p \<longleftrightarrow> p \<in> set (filter (\<lambda>p. is_match (tpc p) (c_filter ci)) (producers s))" for p
  proof (cases "p \<in> set (producers s)")
    case True
    then obtain P where P: "producer_heap s p = Some P" "p_topic P = tpc p" using ps by blast
    have d: "p \<in> dom (producer_heap s')" "p \<in> dom (producer_heap s)" "c0 \<in> dom (consumer_heap s')" "c0 \<in> dom (consumer_heap s)"
      using live_objects [OF s'(1)] True v c0(1) P(1) ci by auto
    then obtain P' where P': "producer_heap s' p = Some P'" by blast
    have "matches s' P' c0 = is_match (tpc p) (c_filter ci)"
      using matches_object_frame [OF _ live_bound(1) [OF inv d(2)] live_bound(2) [OF inv d(4)] P(1) P' d(3)] s'(2) P(2) ci
      by (simp add: trace_frame_def matches_def)
    then show ?thesis using True v c0(1) P' by (simp add: connected_def)
  qed (simp add: connected_def v)
  show ?thesis
  proof (cases "c = c0 \<and> p \<in> set ds")
    case True
    then have p: "p \<in> set (filter (\<lambda>p. is_match (tpc p) (c_filter ci)) (producers s))" using subseq_set_subset [OF sub] by blast
    have "session s c0 p = []" using ok [of c0 p] q by (simp add: session_ok_def)
    then have "open_session (session s' c0 p)" using ses True by simp
    moreover have "p < next_addr s'" "p \<notin> set (init_producers (pending_actions s'))"
      using live_objects [OF s'(1)] live_bound(1) [OF s'(1), of p] p v by auto
    ultimately show ?thesis using session_ok_new [OF s'(1), of p c0] c0(1) conn p True by metis
  next
    case False
    show ?thesis
    proof (rule session_ok_keep [OF ok inv s'])
      show "vectors_kept s s'" by (simp add: vectors_kept_def v)
      show "session s' c p = session s c p" using ses False by auto
      assume h: "c \<in> dom (consumer_handles s')"
      show "connected s' c p = connected s c p"
      proof (cases "c = c0")
        case True
        then have "\<not> connected s' c p" using conn all h False by blast
        then show ?thesis using True c0(2) by (simp add: connected_def)
      next
        case ne: False
        show ?thesis by (rule connected_stable [OF inv s']) (use ne v in auto)
      qed
    qed
  qed
qed

section \<open>The protocol in all executions\<close>

lemma action_session_ok:
  assumes "\<And>c p. session_ok s c p" and "broker_inv s" and "pending_actions s = a # q"
    and "visit a (s\<lparr>pending_actions := q\<rparr>) = Inr s'"
  shows "session_ok s' c p"
proof (cases a)
  case (InitProducer p)
  with assms init_producer_session_ok show ?thesis by blast
next
  case (DestroyProducer p)
  with assms destroy_producer_session_ok show ?thesis by blast
next
  case (Publish p e)
  with assms publish_session_ok show ?thesis by blast
next
  case (InitConsumer c)
  with assms init_consumer_session_ok show ?thesis by blast
next
  case (DestroyConsumer c)
  with assms destroy_consumer_session_ok show ?thesis by blast
qed

lemma step_session_ok:
  assumes "broker_step s s'" and "broker_inv s" and "\<forall>c p. session_ok s c p"
  shows "\<forall>c p. session_ok s' c p"
  using assms(1)
proof (cases rule: broker_step.cases)
  case (client prog)
  then show ?thesis using client_session_ok assms by blast
next
  case (action a q)
  then show ?thesis using action_session_ok assms by blast
qed

interpretation protocol_run: step_invariant broker_init broker_step "\<lambda>_. True" "\<lambda>s. broker_inv s \<and> (\<forall>c p. session_ok s c p)"
proof (unfold_locales, goal_cases)
  case (1 s)
  then obtain nd se sid u where s: "s = new_world nd se sid u" unfolding broker_init_def by blast
  have "session_ok s c p" for c p by (simp add: s session_ok_def session_def connected_def new_world_def)
  then show ?case by (simp add: s broker_inv_new_world)
next
  case (3 s s')
  then show ?case using broker_step_inv step_session_ok by blast
qed

text \<open>
  C4: the protocol between a producer and a consumer. In every reachable state, what a
  consumer has been told by a producer is nothing, or one \<open>START_PRODUCER\<close> followed by
  events only, or that followed by one final \<open>STOP_PRODUCER\<close>. While the client still has
  the \<^verbatim>\<open>Consumer\<close> object, the session is open exactly when the broker holds both and the
  consumer's filter accepts the producer: no start is missed, no stop is missed, and there
  are no events outside a session.
\<close>

theorem notification_protocol:
  assumes "broker_reachable s"
  shows "(session s c p = [] \<or> open_session (session s c p) \<or> closed_session (session s c p)) \<and>
    (c \<in> dom (consumer_handles s) \<longrightarrow>
       (if connected s c p then open_session (session s c p)
        else session s c p = [] \<or> closed_session (session s c p)))"
proof -
  obtain s0 where "broker_init s0" "broker_step\<^sup>*\<^sup>* s0 s" using assms by (auto simp: broker_reachable_def)
  from protocol_run.inv_run [OF this] show ?thesis by (simp add: session_ok_def)
qed

theorem notification_protocol_witness:
  "connected demo_done 1 0 \<and> session demo_done 1 0 = [START_PRODUCER, EVENT] \<and> open_session (session demo_done 1 0)"
proof -
  have c: "connected demo_done 1 0" "1 \<in> dom (consumer_handles demo_done)"
    by (auto simp: connected_def matches_def is_match_def any_filter_def demo_done_def demo_queued_def)
  have "session demo_done 1 0 = [START_PRODUCER, EVENT]" by (simp add: session_def demo_done_def)
  with notification_protocol [OF demo_reachable(2), of 1 0] c show ?thesis by simp
qed

end
