(* ===== verification/Broker_Work.thy ===== *)
theory Broker_Work
  imports Broker_Run
begin

text \<open>
  Whether \<^verbatim>\<open>do_work\<close> returns. With handlers that do not call the broker an action
  queues nothing; with handlers that work within a budget \<^verbatim>\<open>do_work\<close> terminates; a handler that publishes to the stream it listens to keeps
  it running for ever.
\<close>

section \<open>Passive handlers\<close>

definition passive_handler :: "'u handler \<Rightarrow> bool" where
  "passive_handler h \<longleftrightarrow> (\<forall>n u. \<exists>u'. h n u = Done u')"

definition passive_world :: "'u world \<Rightarrow> bool" where
  "passive_world s \<longleftrightarrow> (\<forall>c ci t h. consumer_heap s c = Some ci \<longrightarrow> c_notify ci = Untyped t h \<longrightarrow> passive_handler h)"

text \<open>
  \<open>calm s m\<close>: the computation \<open>m\<close>, started in \<open>s\<close>, does not fail because of
  the client, queues nothing, adds no consumer and no event, and leaves the handles alone.
\<close>

definition quiet :: "'u world \<Rightarrow> 'u world \<Rightarrow> bool" where
  "quiet s s' \<longleftrightarrow>
     pending_actions s' = pending_actions s \<and> consumer_handles s' = consumer_handles s \<and>
     consumer_heap s' \<subseteq>\<^sub>m consumer_heap s \<and> event_heap s' \<subseteq>\<^sub>m event_heap s"

definition calm :: "'u world \<Rightarrow> 'u world result \<Rightarrow> bool" where
  "calm s m = (case m of Inl e \<Rightarrow> e \<noteq> ClientLifetime | Inr s' \<Rightarrow> quiet s s')"

lemma calm_simps [simp]:
  "calm s (Inl e) \<longleftrightarrow> e \<noteq> ClientLifetime"
  "calm s (Inr s') \<longleftrightarrow> quiet s s'"
  by (simp_all add: calm_def)

lemma passive_world_quiet: "passive_world s \<Longrightarrow> quiet s s' \<Longrightarrow> passive_world s'"
  unfolding passive_world_def quiet_def map_le_def by (metis domI)

lemma quiet_refl [simp]: "quiet s s"
  by (simp add: quiet_def)

lemma quiet_trans: "quiet s s' \<Longrightarrow> quiet s' s'' \<Longrightarrow> quiet s s''"
  unfolding quiet_def by (auto intro: map_le_trans)

lemma calm_bind:
  assumes m: "calm s m" and f: "\<And>t. quiet s t \<Longrightarrow> calm t (f t)"
  shows "calm s (bind_r m f)"
proof (cases m)
  case (Inr t)
  then have t: "quiet s t" using m by simp
  then have "calm t (f t)" by (rule f)
  then show ?thesis using Inr t by (cases "f t") (auto intro: quiet_trans)
qed (use m in simp)

text \<open>Fields that quietness and passivity do not look at.\<close>

lemma quiet_upd [simp]:
  "quiet (s\<lparr>producer_heap := x\<rparr>) s' = quiet s s'" "quiet s (s'\<lparr>producer_heap := x\<rparr>) = quiet s s'"
  "quiet (s\<lparr>producers := ps\<rparr>) s' = quiet s s'" "quiet t (t\<lparr>event_heap := (event_heap t)(e := None)\<rparr>)"
  "quiet (s\<lparr>consumers := ps\<rparr>) s' = quiet s s'" "quiet s (s'\<lparr>consumers := ps\<rparr>) = quiet s s'"
  "quiet t (t\<lparr>consumers := cs, consumer_heap := (consumer_heap t)(c := None)\<rparr>)"
  by (auto simp: quiet_def map_le_def)

lemma calm_upd [simp]:
  "calm (s\<lparr>producer_heap := x\<rparr>) m = calm s m" "calm (s\<lparr>producers := ps\<rparr>) m = calm s m"
  "calm (s\<lparr>consumers := ps\<rparr>) m = calm s m"
  by (cases m; simp)+

lemma passive_world_upd [simp]:
  "passive_world (s\<lparr>pending_actions := q\<rparr>) = passive_world s" "passive_world (s\<lparr>producers := ps\<rparr>) = passive_world s"
  "passive_world (s\<lparr>consumers := ps\<rparr>) = passive_world s" "passive_world (s\<lparr>producer_heap := x\<rparr>) = passive_world s"
  by (simp_all add: passive_world_def)

lemma calm_for_each:
  assumes "\<And>x t. passive_world t \<Longrightarrow> calm t (f x t)"
  shows "passive_world s \<Longrightarrow> calm s (for_each f xs s)"
proof (induction xs arbitrary: s)
  case (Cons x xs)
  have "calm s (f x s)" using Cons.prems by (rule assms)
  then show ?case using Cons passive_world_quiet by (auto intro!: calm_bind)
qed simp

section \<open>Actions in a passive world\<close>

lemma typed_events_no_client: "typed_events T es s \<noteq> Inl ClientLifetime"
  by (induction es) (auto split: option.splits)

lemma calm_notify:
  assumes "passive_world s"
  shows "calm s (notify m c s)"
proof (cases "consumer_heap s c")
  case (Some ci)
  show ?thesis
  proof (cases "c_notify ci")
    case (Untyped t h)
    show ?thesis
    proof (cases "typed_notification t m s")
      case (Inl e)
      then have "e \<noteq> ClientLifetime"
        using typed_events_no_client by (auto simp: typed_notification_def split: option.splits)
      then show ?thesis using Inl Some Untyped by (simp add: notify_def)
    next
      case (Inr n)
      obtain u' where "h n (user s) = Done u'"
        using assms Some Untyped unfolding passive_world_def passive_handler_def by blast
      then show ?thesis using Inr Some Untyped by (simp add: notify_def quiet_def)
    qed
  qed (simp add: Some notify_def)
qed (simp add: notify_def)

lemma calm_maybe_add: "passive_world s \<Longrightarrow> calm s (maybe_add p c s)"
  using calm_notify [of "s\<lparr>producer_heap := (producer_heap s)(p \<mapsto> P)\<rparr>" for P]
  by (auto simp: maybe_add_def split: option.splits)

lemma calm_maybe_remove: "passive_world s \<Longrightarrow> calm s (maybe_remove c p s)"
  by (auto simp: maybe_remove_def split: option.splits)

lemma calm_visit:
  assumes "passive_world s"
  shows "calm s (visit a s)"
proof (cases a)
  case (InitProducer p)
  have "calm s (for_each (maybe_add p) (consumers s) (s\<lparr>producers := producers s @ [p]\<rparr>))"
    using calm_for_each [of "maybe_add p", OF calm_maybe_add, of "s\<lparr>producers := producers s @ [p]\<rparr>"] assms by simp
  then show ?thesis using InitProducer by (simp add: visit_init_producer_def producer_init_def)
next
  case (DestroyProducer p)
  have "calm s (delete_ProducerImpl p (s\<lparr>producers := remove1 p (producers s)\<rparr>))"
  proof (cases "producer_heap s p")
    case (Some P)
    have "calm s (for_each (notify m) (p_consumers P) (s\<lparr>producers := remove1 p (producers s)\<rparr>))" for m
      using calm_for_each [of "notify m", OF calm_notify, of "s\<lparr>producers := remove1 p (producers s)\<rparr>"] assms by simp
    then show ?thesis using Some by (auto simp: delete_ProducerImpl_def intro!: calm_bind)
  qed (simp add: delete_ProducerImpl_def)
  then show ?thesis using DestroyProducer by (simp add: visit_destroy_producer_def)
next
  case (Publish p e)
  then show ?thesis
    using calm_for_each [OF calm_notify] assms
    by (auto simp: visit_publish_def producer_publish_def snapshot_add_new_event_eq free_event_def split: option.splits
        intro!: calm_bind)
next
  case (InitConsumer c)
  have "calm s (for_each (\<lambda>p. maybe_add p c) (producers s) (s\<lparr>consumers := consumers s @ [c]\<rparr>))"
    using calm_for_each [of "\<lambda>p. maybe_add p c", OF calm_maybe_add, of "s\<lparr>consumers := consumers s @ [c]\<rparr>"] assms by simp
  then show ?thesis using InitConsumer by (simp add: visit_init_consumer_def)
next
  case (DestroyConsumer c)
  have "calm s (for_each (maybe_remove c) (producers s) s)" using calm_for_each [of "maybe_remove c", OF calm_maybe_remove] assms by blast
  then show ?thesis
    using DestroyConsumer by (auto simp: visit_destroy_consumer_def delete_ConsumerImpl_def intro!: calm_bind)
qed

section \<open>Handlers with a budget\<close>

text \<open>Every way a client program can end leaves a client state in \<open>Q\<close>.\<close>

primrec ends :: "('u \<Rightarrow> bool) \<Rightarrow> 'u client \<Rightarrow> bool" where
  "ends Q (Done u) \<longleftrightarrow> Q u"
| "ends Q (NewProducer t nm snapshot k) \<longleftrightarrow> (\<forall>p. ends Q (k p))"
| "ends Q (PublishEvent p ev k) \<longleftrightarrow> ends Q k"
| "ends Q (DeleteProducer p k) \<longleftrightarrow> ends Q k"
| "ends Q (NewConsumer t f h k) \<longleftrightarrow> (\<forall>c. ends Q (k c))"
| "ends Q (DeleteConsumer c k) \<longleftrightarrow> ends Q k"

definition idle :: "'u client \<Rightarrow> bool" where
  "idle prog = (case prog of Done u \<Rightarrow> True | _ \<Rightarrow> False)"

text \<open>
  A budget \<open>b\<close> on the client state: the program may not increase it, and must spend some
  of it if it calls the broker at all; the handlers it installs are bound by it too.
\<close>

definition within :: "('u \<Rightarrow> nat) \<Rightarrow> 'u client \<Rightarrow> 'u \<Rightarrow> bool" where
  "within b prog u \<longleftrightarrow> (if idle prog then ends (\<lambda>u'. b u' \<le> b u) prog else ends (\<lambda>u'. b u' < b u) prog)"

primrec installs :: "('u \<Rightarrow> nat) \<Rightarrow> 'u client \<Rightarrow> bool" where
  "installs b (Done u) \<longleftrightarrow> True"
| "installs b (NewProducer t nm snapshot k) \<longleftrightarrow> (\<forall>p. installs b (k p))"
| "installs b (PublishEvent p ev k) \<longleftrightarrow> installs b k"
| "installs b (DeleteProducer p k) \<longleftrightarrow> installs b k"
| "installs b (NewConsumer t f h k) \<longleftrightarrow>
     (\<forall>n u. within b (h n u) u \<and> installs b (h n u)) \<and> (\<forall>c. installs b (k c))"
| "installs b (DeleteConsumer c k) \<longleftrightarrow> installs b k"

definition budgeted :: "('u \<Rightarrow> nat) \<Rightarrow> 'u world \<Rightarrow> bool" where
  "budgeted b s \<longleftrightarrow> (\<forall>c ci t h n u. consumer_heap s c = Some ci \<longrightarrow> c_notify ci = Untyped t h \<longrightarrow>
     within b (h n u) u \<and> installs b (h n u))"

lemma run_client_ends: "ends Q prog \<Longrightarrow> run_client prog s = Inr s' \<Longrightarrow> Q (user s')"
proof (induction prog arbitrary: s)
  case (NewConsumer t f h k)
  obtain c s1 where new: "Consumer_new t f h s = (c, s1)" by fastforce
  then show ?case using NewConsumer.IH(2) [OF rangeI, of c s1] NewConsumer.prems by simp
qed (auto split: prod.splits)

lemma Producer_new_consumer_heap: "Producer_new t nm snapshot s = (p, s') \<Longrightarrow> consumer_heap s' = consumer_heap s"
proof -
  obtain es s0 where c: "convert_snapshot t snapshot s = (es, s0)" by fastforce
  have "consumer_heap s0 = consumer_heap s" using convert_snapshot_eq [OF c] by auto
  then show "Producer_new t nm snapshot s = (p, s') \<Longrightarrow> consumer_heap s' = consumer_heap s"
    using c by (auto simp: Producer_new_def make_producer_def new_ProducerImpl_def enqueue_def fold_free_event Let_def)
qed

lemma budgeted_cong: "consumer_heap s' = consumer_heap s \<Longrightarrow> budgeted b s' = budgeted b s"
  by (simp add: budgeted_def)

lemma run_client_budgeted: "installs b prog \<Longrightarrow> budgeted b s \<Longrightarrow> run_client prog s = Inr s' \<Longrightarrow> budgeted b s'"
proof (induction prog arbitrary: s)
  case (Done u)
  then show ?case using budgeted_cong [of s' s b] by auto
next
  case (NewProducer t nm snapshot k)
  obtain p s1 where new: "Producer_new t nm snapshot s = (p, s1)" by fastforce
  have "budgeted b s1" using NewProducer.prems(2) budgeted_cong Producer_new_consumer_heap [OF new] by blast
  then show ?case using NewProducer.IH [OF rangeI] NewProducer.prems new by fastforce
next
  case (NewConsumer t f h k)
  obtain c s1 where new: "Consumer_new t f h s = (c, s1)" by fastforce
  have "budgeted b s1" using NewConsumer.prems new by (auto simp: budgeted_def client_ops split: if_splits)
  then show ?case using NewConsumer.IH(2) [OF rangeI] NewConsumer.prems new by fastforce
next
  case (PublishEvent p ev k)
  then obtain s1 where s1: "Producer_publish p ev s = Inr s1" "run_client k s1 = Inr s'" by auto
  have "consumer_heap s1 = consumer_heap s" using s1(1) by (auto simp: client_ops split: option.splits)
  then show ?case using PublishEvent budgeted_cong s1(2) by auto
next
  case (DeleteProducer p k)
  then obtain s1 where s1: "Producer_delete p s = Inr s1" "run_client k s1 = Inr s'" by auto
  have "consumer_heap s1 = consumer_heap s" using s1(1) by (auto simp: client_ops split: option.splits)
  then show ?case using DeleteProducer budgeted_cong s1(2) by auto
next
  case (DeleteConsumer c k)
  then obtain s1 where s1: "Consumer_delete c s = Inr s1" "run_client k s1 = Inr s'" by auto
  have "budgeted b s1" using s1(1) DeleteConsumer.prems(2)
    by (auto simp: budgeted_def client_ops split: option.splits if_splits)
  then show ?case using DeleteConsumer s1(2) by auto
qed

text \<open>
  \<open>frugal b s m\<close>: if \<open>m\<close>, started in \<open>s\<close>, returns, handlers are still bound by
  the budget, and either some of it has been spent or nothing has been queued.
\<close>

definition spends :: "('u \<Rightarrow> nat) \<Rightarrow> 'u world \<Rightarrow> 'u world \<Rightarrow> bool" where
  "spends b s s' \<longleftrightarrow> budgeted b s' \<and>
     (b (user s') < b (user s) \<or> b (user s') \<le> b (user s) \<and> pending_actions s' = pending_actions s)"

lemma spends_refl: "budgeted b s \<Longrightarrow> spends b s s"
  by (simp add: spends_def)

lemma spends_trans: "spends b s s' \<Longrightarrow> spends b s' s'' \<Longrightarrow> spends b s s''"
  unfolding spends_def by auto

definition frugal :: "('u \<Rightarrow> nat) \<Rightarrow> ('u world \<Rightarrow> 'u world result) \<Rightarrow> bool" where
  "frugal b f \<longleftrightarrow> (\<forall>s s'. budgeted b s \<longrightarrow> f s = Inr s' \<longrightarrow> spends b s s')"

lemma frugalD: "frugal b f \<Longrightarrow> budgeted b s \<Longrightarrow> f s = Inr s' \<Longrightarrow> spends b s s'"
  unfolding frugal_def by blast

lemma frugal_notify: "frugal b (notify m c)"
  unfolding frugal_def
proof (intro allI impI)
  fix s s' assume bud: "budgeted b s" and run: "notify m c s = Inr s'"
  obtain ci where ci: "consumer_heap s c = Some ci" using run by (auto simp: notify_def split: option.splits)
  show "spends b s s'"
  proof (cases "c_notify ci")
    case Ignore
    then show ?thesis using run ci bud by (simp add: notify_def spends_refl)
  next
    case (Untyped t h)
    then obtain n where run': "run_client (h n (user s)) (s\<lparr>trace := trace s @ [(c, m, n)]\<rparr>) = Inr s'"
      using run ci by (auto simp: notify_def)
    have w: "within b (h n (user s)) (user s)" "installs b (h n (user s))"
      using bud ci Untyped unfolding budgeted_def by blast+
    have "budgeted b s'"
      using run_client_budgeted [OF w(2) _ run'] bud budgeted_cong [of "s\<lparr>trace := trace s @ [(c, m, n)]\<rparr>" s b] by simp
    then show ?thesis
    proof (cases "idle (h n (user s))")
      case True
      then obtain u where "h n (user s) = Done u" by (auto simp: idle_def split: client.splits)
      then show ?thesis using w(1) run' \<open>budgeted b s'\<close> by (auto simp: within_def idle_def spends_def)
    next
      case False
      then show ?thesis using w(1) run_client_ends [OF _ run'] \<open>budgeted b s'\<close> by (auto simp: within_def spends_def)
    qed
  qed
qed

lemma frugal_for_each:
  assumes "\<And>x. frugal b (f x)"
  shows "frugal b (for_each f xs)"
proof (induction xs)
  case Nil
  then show ?case by (auto simp: frugal_def spends_refl)
next
  case (Cons x xs)
  show ?case
    unfolding frugal_def
  proof (intro allI impI)
    fix s s' assume bud: "budgeted b s" and run: "for_each f (x # xs) s = Inr s'"
    then obtain t where t: "f x s = Inr t" "for_each f xs t = Inr s'" by auto
    have "spends b s t" using frugalD [OF assms bud t(1)] .
    then show "spends b s s'" using frugalD [OF Cons.IH _ t(2)] spends_trans by (auto simp: spends_def)
  qed
qed

text \<open>Fields that the budget does not look at.\<close>

lemma budgeted_upd [simp]:
  "budgeted b (s\<lparr>pending_actions := q\<rparr>) = budgeted b s" "budgeted b (s\<lparr>producers := ps\<rparr>) = budgeted b s"
  "budgeted b (s\<lparr>consumers := ps\<rparr>) = budgeted b s" "budgeted b (s\<lparr>producer_heap := x\<rparr>) = budgeted b s"
  "budgeted b (s\<lparr>event_heap := y\<rparr>) = budgeted b s"
  by (simp_all add: budgeted_def)

lemma spends_upd [simp]:
  "spends b (s\<lparr>producers := ps\<rparr>) s' = spends b s s'" "spends b (s\<lparr>consumers := ps\<rparr>) s' = spends b s s'"
  "spends b (s\<lparr>producer_heap := x\<rparr>) s' = spends b s s'" "spends b s (s'\<lparr>producer_heap := x\<rparr>) = spends b s s'"
  "spends b s (s'\<lparr>event_heap := y\<rparr>) = spends b s s'"
  by (simp_all add: spends_def)

lemma spends_delete_consumer: "spends b s t \<Longrightarrow> spends b s (delete_ConsumerImpl c (t\<lparr>consumers := cs\<rparr>))"
  by (auto simp: spends_def delete_ConsumerImpl_def budgeted_def)

lemma frugal_maybe_add: "frugal b (maybe_add p c)"
  unfolding frugal_def
proof (intro allI impI)
  fix s s' assume "budgeted b s" and "maybe_add p c s = Inr s'"
  then show "spends b s s'"
    using frugalD [OF frugal_notify, of b "s\<lparr>producer_heap := (producer_heap s)(p \<mapsto> P)\<rparr>" for P]
    by (auto simp: maybe_add_def spends_refl split: option.splits if_splits)
qed

lemma frugal_maybe_remove: "frugal b (maybe_remove c p)"
  by (auto simp: frugal_def maybe_remove_def spends_refl split: option.splits)

lemma frugal_visit: "frugal b (visit a)"
  unfolding frugal_def
proof (intro allI impI)
  fix s s' assume bud: "budgeted b s" and run: "visit a s = Inr s'"
  note loop = frugalD [OF frugal_for_each]
  show "spends b s s'"
  proof (cases a)
    case (InitProducer p)
    then show ?thesis using loop [OF frugal_maybe_add, of b "s\<lparr>producers := producers s @ [p]\<rparr>"] bud run
      by (simp add: visit_init_producer_def producer_init_def)
  next
    case (DestroyProducer p)
    then obtain P t where P: "producer_heap s p = Some P" and t: "for_each (notify \<lparr>n_kind = STOP_PRODUCER, n_events = [], n_stream_id = p_id P, n_topic = p\<rparr>)
        (p_consumers P) (s\<lparr>producers := remove1 p (producers s)\<rparr>) = Inr t" "s' = t\<lparr>producer_heap := (producer_heap t)(p := None)\<rparr>"
      using run by (auto simp: visit_destroy_producer_def delete_ProducerImpl_def split: option.splits if_splits)
    then show ?thesis using loop [OF frugal_notify _ t(1)] bud by simp
  next
    case (Publish p e)
    then obtain P t where P: "producer_heap s p = Some P" and t: "for_each (notify \<lparr>n_kind = EVENT, n_events = [e], n_stream_id = p_id P, n_topic = p\<rparr>)
        (p_consumers P) s = Inr t" "s' = free_event e t"
      using run by (auto simp: visit_publish_def producer_publish_def snapshot_add_new_event_eq split: option.splits)
    then show ?thesis using loop [OF frugal_notify bud t(1)] by (simp add: free_event_def)
  next
    case (InitConsumer c)
    then show ?thesis using loop [of b "\<lambda>p. maybe_add p c", OF frugal_maybe_add, of "s\<lparr>consumers := consumers s @ [c]\<rparr>"] bud run
      by (simp add: visit_init_consumer_def)
  next
    case (DestroyConsumer c)
    then obtain t where t: "for_each (maybe_remove c) (producers s) s = Inr t"
      "s' = delete_ConsumerImpl c (t\<lparr>consumers := remove1 c (consumers t)\<rparr>)"
      using run by (auto simp: visit_destroy_consumer_def split: if_splits)
    then show ?thesis using loop [OF frugal_maybe_remove bud t(1)] spends_delete_consumer by simp
  qed
qed

section \<open>Termination\<close>

text \<open>
  C11: \<^verbatim>\<open>do_work\<close> returns. Handlers may call the broker, and so queue more actions
  while the queue is being executed, and may install further handlers, as long as there is a
  budget on the client's state that no handler increases and that every handler call that
  calls the broker decreases. Then, from every reachable state, \<^verbatim>\<open>do_work\<close> terminates,
  with an empty queue unless the client misused one of its own objects.
\<close>

theorem do_work_returns:
  assumes "broker_reachable s" and "budgeted b s"
  shows "do_work s = Some (Inl ClientLifetime) \<or>
    (\<exists>s'. do_work s = Some (Inr s') \<and> pending_actions s' = [] \<and> broker_reachable s' \<and> b (user s') \<le> b (user s))"
  using assms
proof (induction "(b (user s), length (pending_actions s))" arbitrary: s rule: wf_induct_rule [OF wf_lex_prod [OF wf_less_than wf_less_than]])
  case (1 s)
  show ?case
  proof (cases "pending_actions s")
    case Nil
    then show ?thesis using 1 by (subst (2) do_work.simps) simp
  next
    case (Cons a q)
    let ?s = "s\<lparr>pending_actions := q\<rparr>"
    have inv: "broker_inv s" using 1(2) by (rule broker_reachable_inv)
    show ?thesis
    proof (cases "visit a ?s")
      case (Inl e)
      then have "e = ClientLifetime" using visit_safe [OF inv Cons] by simp
      then show ?thesis using Inl Cons by (subst do_work.simps) simp
    next
      case (Inr s1)
      have r: "broker_reachable s1" using 1(2) broker_step.action [OF Cons Inr] by (rule broker_reachable_step)
      have sp: "spends b ?s s1" using frugalD [OF frugal_visit _ Inr] 1(3) by simp
      then have "((b (user s1), length (pending_actions s1)), (b (user s), length (pending_actions s))) \<in> less_than <*lex*> less_than"
        using Cons by (auto simp: spends_def)
      from 1(1) [OF this r] sp have "do_work s1 = Some (Inl ClientLifetime) \<or>
        (\<exists>s'. do_work s1 = Some (Inr s') \<and> pending_actions s' = [] \<and> broker_reachable s' \<and> b (user s') \<le> b (user s1))"
        by (simp add: spends_def)
      moreover have "do_work s = do_work s1" using Cons Inr by (subst do_work.simps) simp
      moreover have "b (user s1) \<le> b (user s)" using sp by (auto simp: spends_def)
      ultimately show ?thesis by (auto intro: order_trans)
    qed
  qed
qed

text \<open>A handler that publishes as long as the client's counter is positive.\<close>

definition countdown :: "addr \<Rightarrow> Event \<Rightarrow> nat handler" where
  "countdown p ev = (\<lambda>n u. if u = 0 then Done 0 else PublishEvent p ev (Done (u - 1)))"

theorem do_work_returns_witness:
  "\<exists>s. run_client (NewProducer ''S'' ''x'' [] (\<lambda>p. NewConsumer ''S'' any_filter (countdown p \<lparr>ev_classes = [], ev_value = [7]\<rparr>)
      (\<lambda>c. Done 3))) demo_world = Inr s \<and> user s = 3 \<and>
     (do_work s = Some (Inl ClientLifetime) \<or> (\<exists>s'. do_work s = Some (Inr s') \<and> pending_actions s' = []))"
proof -
  let ?prog = "NewProducer ''S'' ''x'' [] (\<lambda>p. NewConsumer ''S'' any_filter (countdown p \<lparr>ev_classes = [], ev_value = [7]\<rparr>)
      (\<lambda>c. Done 3))"
  obtain s where s: "run_client ?prog demo_world = Inr s" "user s = 3"
    by (simp add: demo_world_def new_world_def client_ops)
  have "broker_reachable demo_world" unfolding broker_reachable_def broker_init_def demo_world_def by blast
  then have r: "broker_reachable s" using broker_step.client [OF s(1)] by (rule broker_reachable_step)
  have i: "installs (\<lambda>u. u) ?prog" by (simp add: countdown_def within_def idle_def)
  have "budgeted (\<lambda>u. u) demo_world" by (simp add: budgeted_def demo_world_def new_world_def)
  then have "budgeted (\<lambda>u. u) s" by (rule run_client_budgeted [OF i _ s(1)])
  from do_work_returns [OF r this] s show ?thesis by blast
qed

section \<open>Divergence\<close>

text \<open>A handler that answers every notification by publishing an event on producer \<open>p\<close>.\<close>

definition echo :: "addr \<Rightarrow> Event \<Rightarrow> 'u handler" where
  "echo p ev = (\<lambda>n u. PublishEvent p ev (Done u))"

text \<open>One event of producer \<open>p\<close> is queued, and its one consumer echoes.\<close>

definition echoing :: "addr \<Rightarrow> addr \<Rightarrow> StreamTypeID \<Rightarrow> Event \<Rightarrow> 'u world \<Rightarrow> bool" where
  "echoing p c t ev s \<longleftrightarrow>
     (\<exists>e ev' P f. pending_actions s = [Publish p e] \<and> event_heap s e = Some ev' \<and> e < next_addr s \<and>
        producer_handles s p = Some t \<and> producer_heap s p = Some P \<and> p_consumers P = [c] \<and>
        consumer_heap s c = Some \<lparr>c_filter = f, c_notify = Untyped t (echo p ev)\<rparr>)"

lemma echoing_step:
  assumes e: "echoing p c t ev s" and q: "pending_actions s = a # q"
  shows "\<exists>s1. visit a (s\<lparr>pending_actions := q\<rparr>) = Inr s1 \<and> echoing p c t ev s1"
proof -
  obtain e ev' P f where s: "pending_actions s = [Publish p e]" "event_heap s e = Some ev'" "e < next_addr s"
    "producer_handles s p = Some t" "producer_heap s p = Some P" "p_consumers P = [c]"
    "consumer_heap s c = Some \<lparr>c_filter = f, c_notify = Untyped t (echo p ev)\<rparr>"
    using e unfolding echoing_def by blast
  have a: "a = Publish p e" "q = []" using s(1) q by simp_all
  show ?thesis
    using s(2-7) by (simp add: a visit_publish_def producer_publish_def snapshot_add_new_event_eq free_event_def notify_def
        typed_notification_def echo_def client_ops echoing_def)
qed

text \<open>
  C40: a handler that feeds its own stream hangs \<^verbatim>\<open>do_work\<close>. Because the loop also
  executes the actions that handlers queue, a consumer that answers each notification by
  publishing on the producer it listens to makes \<^verbatim>\<open>do_work\<close> never return.
\<close>

theorem do_work_livelock:
  assumes "echoing p c t ev s"
  shows "do_work s = None"
proof (rule ccontr)
  assume "do_work s \<noteq> None"
  then obtain r where "do_work s = Some r" by blast
  then have "\<not> echoing p c t ev s"
  proof (induction rule: do_work.raw_induct [rotated, consumes 1, case_names step])
    case (step rec s r)
    show ?case
    proof
      assume e: "echoing p c t ev s"
      then obtain a q where q: "pending_actions s = a # q" unfolding echoing_def by blast
      from echoing_step [OF e q] step q show False by (auto split: sum.splits)
    qed
  qed
  with assms show False by blast
qed

definition echo_world :: "unit world" where
  "echo_world = (new_world True (\<lambda>t. (''E'', [''Event''])) 0 ())\<lparr>current_stream_id := 1, next_addr := 2,
     producer_heap := [0 \<mapsto> \<lparr>p_id = 1, p_topic = \<lparr>t_type = ''S'', t_name = ''x''\<rparr>,
       p_snapshot_handler = NullSnapshotHandler [], p_consumers = []\<rparr>],
     consumer_heap := [1 \<mapsto> \<lparr>c_filter = \<lparr>f_type = ''S'', f_is_match = any_filter\<rparr>,
       c_notify = Untyped ''S'' (echo 0 \<lparr>ev_classes = [], ev_value = [7]\<rparr>)\<rparr>],
     pending_actions := [InitProducer 0, InitConsumer 1],
     producer_handles := [0 \<mapsto> ''S''], consumer_handles := [1 \<mapsto> ''S'']\<rparr>"

text \<open>The program that creates the producer and the echoing consumer and calls \<^verbatim>\<open>do_work\<close> hangs.\<close>

theorem do_work_livelock_witness:
  "run_client (NewProducer ''S'' ''x'' [] (\<lambda>p. NewConsumer ''S'' any_filter (echo p \<lparr>ev_classes = [], ev_value = [7]\<rparr>)
      (\<lambda>c. Done ()))) (new_world True (\<lambda>t. (''E'', [''Event''])) 0 ()) = Inr echo_world \<and>
   (\<exists>s1 s2. visit (InitProducer 0) (echo_world\<lparr>pending_actions := [InitConsumer 1]\<rparr>) = Inr s1 \<and>
     visit (InitConsumer 1) (s1\<lparr>pending_actions := []\<rparr>) = Inr s2 \<and> do_work s2 = None)"
proof (intro conjI)
  show "run_client (NewProducer ''S'' ''x'' [] (\<lambda>p. NewConsumer ''S'' any_filter (echo p \<lparr>ev_classes = [], ev_value = [7]\<rparr>)
      (\<lambda>c. Done ()))) (new_world True (\<lambda>t. (''E'', [''Event''])) 0 ()) = Inr echo_world"
    by (simp add: echo_world_def new_world_def client_ops)
  let ?ev = "\<lparr>ev_classes = [], ev_value = [7]\<rparr>"
  obtain s1 where s1: "visit (InitProducer 0) (echo_world\<lparr>pending_actions := [InitConsumer 1]\<rparr>) = Inr s1"
    "s1 = echo_world\<lparr>pending_actions := [InitConsumer 1], producers := [0]\<rparr>"
    by (simp add: echo_world_def new_world_def broker_ops Let_def)
  obtain s2 where s2: "visit (InitConsumer 1) (s1\<lparr>pending_actions := []\<rparr>) = Inr s2" "echoing 0 1 ''S'' ?ev s2"
    by (simp add: s1(2) echo_world_def new_world_def broker_ops echo_def client_ops echoing_def)
  from do_work_livelock [OF s2(2)] s1(1) s2(1)
  show "\<exists>s1 s2. visit (InitProducer 0) (echo_world\<lparr>pending_actions := [InitConsumer 1]\<rparr>) = Inr s1 \<and>
     visit (InitConsumer 1) (s1\<lparr>pending_actions := []\<rparr>) = Inr s2 \<and> do_work s2 = None" by blast
qed

end
