(* ===== verification/Broker_Spec.thy ===== *)
theory Broker_Spec
  imports Broker_Protocol Broker_Work
begin

text \<open>
  What the broker promises, without its machinery: a specification whose state is the list of
  producers with their ids and topics and the list of consumers with their filters, and in
  which every notification is computed afresh from the two lists. There are no heaps, no
  pointers, no consumer lists cached in the producers. \<^verbatim>\<open>do_work\<close> implements it whenever
  handlers do not call the broker.
\<close>

section \<open>The specification\<close>

type_synonym producer_view = "addr \<times> StreamID \<times> TopicImpl"

text \<open>A consumer: its name, its filter, and whether its \<^verbatim>\<open>Consumer\<close> object still exists.\<close>

type_synonym consumer_view = "addr \<times> StreamFilterImpl \<times> bool"

record spec =
  sp_producers :: "producer_view list"
  sp_consumers :: "consumer_view list"

datatype spec_action =
    SInitProducer producer_view
  | SDestroyProducer addr
  | SPublish addr Event
  | SInitConsumer consumer_view
  | SDestroyConsumer addr

definition hears :: "producer_view \<Rightarrow> consumer_view \<Rightarrow> bool" where
  "hears pv cv \<longleftrightarrow> snd (snd cv) \<and> is_match (snd (snd pv)) (fst (snd cv))"

definition told :: "NotificationKind \<Rightarrow> Event list \<Rightarrow> producer_view \<Rightarrow> consumer_view \<Rightarrow> addr \<times> Notification" where
  "told k evs pv cv =
     (fst cv, \<lparr>kind = k, events = map Some evs, stream_id = fst (snd pv), name = t_name (snd (snd pv))\<rparr>)"

text \<open>Everyone who hears the producers \<open>pvs\<close>, producer by producer.\<close>

definition broadcast :: "NotificationKind \<Rightarrow> Event list \<Rightarrow> producer_view list \<Rightarrow> consumer_view list \<Rightarrow> (addr \<times> Notification) list" where
  "broadcast k evs pvs cvs = concat (map (\<lambda>pv. map (told k evs pv) (filter (hears pv) cvs)) pvs)"

fun spec_step :: "spec_action \<Rightarrow> spec \<Rightarrow> spec" where
  "spec_step (SInitProducer pv) st = st\<lparr>sp_producers := sp_producers st @ [pv]\<rparr>"
| "spec_step (SDestroyProducer p) st = st\<lparr>sp_producers := filter (\<lambda>pv. fst pv \<noteq> p) (sp_producers st)\<rparr>"
| "spec_step (SPublish p ev) st = st"
| "spec_step (SInitConsumer cv) st = st\<lparr>sp_consumers := sp_consumers st @ [cv]\<rparr>"
| "spec_step (SDestroyConsumer c) st = st\<lparr>sp_consumers := filter (\<lambda>cv. fst cv \<noteq> c) (sp_consumers st)\<rparr>"

fun spec_output :: "spec_action \<Rightarrow> spec \<Rightarrow> (addr \<times> Notification) list" where
  "spec_output (SInitProducer pv) st = broadcast START_PRODUCER [] [pv] (sp_consumers st)"
| "spec_output (SDestroyProducer p) st =
     broadcast STOP_PRODUCER [] (filter (\<lambda>pv. fst pv = p) (sp_producers st)) (sp_consumers st)"
| "spec_output (SPublish p ev) st = broadcast EVENT [ev] (filter (\<lambda>pv. fst pv = p) (sp_producers st)) (sp_consumers st)"
| "spec_output (SInitConsumer cv) st = broadcast START_PRODUCER [] (sp_producers st) [cv]"
| "spec_output (SDestroyConsumer c) st = []"

fun spec_outputs :: "spec_action list \<Rightarrow> spec \<Rightarrow> (addr \<times> Notification) list" where
  "spec_outputs [] st = []"
| "spec_outputs (a # q) st = spec_output a st @ spec_outputs q (spec_step a st)"

section \<open>The specification's view of a state\<close>

definition producer_view :: "'u world \<Rightarrow> addr \<Rightarrow> producer_view" where
  "producer_view s p =
     (p, case producer_heap s p of None \<Rightarrow> (0, \<lparr>t_type = [], t_name = []\<rparr>) | Some P \<Rightarrow> (p_id P, p_topic P))"

definition consumer_view :: "'u world \<Rightarrow> addr \<Rightarrow> consumer_view" where
  "consumer_view s c =
     (c, case consumer_heap s c of None \<Rightarrow> \<lparr>f_type = [], f_is_match = \<lambda>_. False\<rparr> | Some ci \<Rightarrow> c_filter ci,
      c \<in> dom (consumer_handles s))"

definition spec_of :: "'u world \<Rightarrow> spec" where
  "spec_of s = \<lparr>sp_producers = map (producer_view s) (producers s), sp_consumers = map (consumer_view s) (consumers s)\<rparr>"

fun action_view :: "'u world \<Rightarrow> Action \<Rightarrow> spec_action" where
  "action_view s (InitProducer p) = SInitProducer (producer_view s p)"
| "action_view s (DestroyProducer p) = SDestroyProducer p"
| "action_view s (Publish p e) =
     SPublish p (case event_heap s e of None \<Rightarrow> \<lparr>ev_classes = [], ev_value = []\<rparr> | Some ev \<Rightarrow> ev)"
| "action_view s (InitConsumer c) = SInitConsumer (consumer_view s c)"
| "action_view s (DestroyConsumer c) = SDestroyConsumer c"

text \<open>What the handlers have been given: the trace without the untyped notifications.\<close>

definition heard :: "'u world \<Rightarrow> (addr \<times> Notification) list" where
  "heard s = map (\<lambda>x. (fst x, snd (snd x))) (trace s)"

section \<open>Views do not change under a quiet step\<close>

lemma producer_view_frame:
  assumes "broker_inv s" and "object_frame s s'" and "producer_heap s p \<noteq> None" and "producer_heap s' p \<noteq> None"
  shows "producer_view s' p = producer_view s p"
proof -
  obtain P P' where P: "producer_heap s p = Some P" "producer_heap s' p = Some P'" using assms(3,4) by blast
  have "p < next_addr s" using core_inv_bound(1) [of "[]" "[]" s p P] assms(1) P(1) by (simp add: broker_inv_def)
  then have "map_option p_topic (producer_heap s' p) = map_option p_topic (producer_heap s p) \<and>
      map_option p_id (producer_heap s' p) = map_option p_id (producer_heap s p)"
    using assms(2) [unfolded object_frame_def, rule_format, of p] P by simp
  with P show ?thesis by (simp add: producer_view_def)
qed

lemma consumer_view_frame:
  assumes "consumer_heap s' \<subseteq>\<^sub>m consumer_heap s" and "consumer_handles s' = consumer_handles s" and "consumer_heap s' c \<noteq> None"
  shows "consumer_view s' c = consumer_view s c"
proof -
  have "consumer_heap s' c = consumer_heap s c" using assms(1,3) unfolding map_le_def by blast
  with assms(2) show ?thesis by (simp add: consumer_view_def)
qed

text \<open>In a passive world, whoever can be told is told.\<close>

lemma delivers_all:
  assumes "delivers s s' cs entry" and "distinct cs" and "consumer_handles s' = consumer_handles s"
  shows "trace s' = trace s @ map entry (filter (\<lambda>c. c \<in> dom (consumer_handles s)) cs)"
proof -
  obtain ds where ds: "subseq ds cs" "trace s' = trace s @ map entry ds" "\<forall>c\<in>set ds. c \<in> dom (consumer_handles s)"
    "\<forall>c\<in>set cs - set ds. c \<notin> dom (consumer_handles s)"
    using assms(1,3) unfolding delivers_def by auto
  have "subseq ds (filter (\<lambda>c. c \<in> dom (consumer_handles s)) cs)" by (rule subseq_filter_all [OF ds(1,3)])
  then have "ds = filter (\<lambda>c. c \<in> dom (consumer_handles s)) cs"
    by (rule subseq_distinct_eq) (use assms(2) ds(4) in auto)
  with ds(2) show ?thesis by simp
qed

lemma hears_consumer_view:
  assumes "producer_heap s p = Some P"
  shows "filter (hears (producer_view s p)) (map (consumer_view s) cs) =
    map (consumer_view s) (filter (\<lambda>c. c \<in> dom (consumer_handles s)) (filter (matches s P) cs))"
proof -
  have "hears (producer_view s p) (consumer_view s c) \<longleftrightarrow> matches s P c \<and> c \<in> dom (consumer_handles s)" for c
  proof (cases "consumer_heap s c")
    case None
    then show ?thesis using assms by (simp add: hears_def producer_view_def consumer_view_def matches_def is_match_def)
  qed (use assms in \<open>auto simp: hears_def producer_view_def consumer_view_def matches_def\<close>)
  then show ?thesis by (simp add: filter_map comp_def conj_commute)
qed

lemma broadcast_one:
  assumes "producer_heap s p = Some P"
  shows "broadcast k evs [producer_view s p] (map (consumer_view s) cs) =
    map (\<lambda>c. (c, \<lparr>kind = k, events = map Some evs, stream_id = p_id P, name = t_name (p_topic P)\<rparr>))
      (filter (\<lambda>c. c \<in> dom (consumer_handles s)) (filter (matches s P) cs))"
proof -
  have "broadcast k evs [producer_view s p] (map (consumer_view s) cs) =
      map (told k evs (producer_view s p)) (filter (hears (producer_view s p)) (map (consumer_view s) cs))"
    by (simp add: broadcast_def)
  then show ?thesis
    unfolding hears_consumer_view [OF assms] using assms by (simp add: told_def producer_view_def consumer_view_def comp_def)
qed

section \<open>Every action implements its specification\<close>

lemma passive_step:
  assumes inv: "broker_inv s" and q: "pending_actions s = a # q" and p: "passive_world s"
    and run: "visit a (s\<lparr>pending_actions := q\<rparr>) = Inr s'"
  shows "broker_inv s'" and "object_frame s s'" and "pending_actions s' = q" and "consumer_handles s' = consumer_handles s"
    and "consumer_heap s' \<subseteq>\<^sub>m consumer_heap s" and "event_heap s' \<subseteq>\<^sub>m event_heap s" and "passive_world s'"
proof -
  have c: "quiet (s\<lparr>pending_actions := q\<rparr>) s'" using calm_visit [of "s\<lparr>pending_actions := q\<rparr>" a] p run by simp
  then show "pending_actions s' = q" "consumer_handles s' = consumer_handles s"
    "consumer_heap s' \<subseteq>\<^sub>m consumer_heap s" "event_heap s' \<subseteq>\<^sub>m event_heap s" by (simp_all add: quiet_def)
  show "passive_world s'" using passive_world_quiet [OF _ c] p by simp
  show "broker_inv s'" "object_frame s s'" using visit_safe [OF inv q] run by (simp_all add: trace_frame_def)
qed

text \<open>The views of the objects that are live before and after.\<close>

lemma producer_views:
  assumes "broker_inv s" and "broker_inv s'" and "object_frame s s'" and "set ps \<subseteq> dom (producer_heap s)" and "set ps \<subseteq> dom (producer_heap s')"
  shows "map (producer_view s') ps = map (producer_view s) ps"
proof (intro map_cong refl)
  fix p assume "p \<in> set ps"
  then have "producer_heap s p \<noteq> None" "producer_heap s' p \<noteq> None" using assms(4,5) by blast+
  then show "producer_view s' p = producer_view s p" by (rule producer_view_frame [OF assms(1,3)])
qed

lemma action_views:
  assumes inv: "broker_inv s" and inv': "broker_inv s'" and frame: "object_frame s s'" and ch: "consumer_heap s' \<subseteq>\<^sub>m consumer_heap s"
    and h: "consumer_handles s' = consumer_handles s" and eh: "event_heap s' \<subseteq>\<^sub>m event_heap s"
    and q: "pending_actions s = a # q" "pending_actions s' = q"
  shows "map (action_view s') q = map (action_view s) q"
proof (intro map_cong refl)
  fix x assume x: "x \<in> set q"
  show "action_view s' x = action_view s x"
  proof (cases x)
    case (InitProducer p)
    have "p \<in> set (init_producers q)" using x InitProducer by (induction q rule: init_producers.induct) auto
    then have "p \<in> dom (producer_heap s')" "p \<in> dom (producer_heap s)"
      using live_objects(1) [OF inv'] live_objects(1) [OF inv] q by (cases a; auto)+
    then show ?thesis using InitProducer producer_view_frame [OF inv frame] by auto
  next
    case (InitConsumer c)
    have "c \<in> set (init_consumers q)" using x InitConsumer by (induction q rule: init_consumers.induct) auto
    then have "c \<in> dom (consumer_heap s')" using live_objects(2) [OF inv'] q by blast
    then show ?thesis using InitConsumer consumer_view_frame [OF ch h] by auto
  next
    case (Publish p e)
    then have "e \<in> set (queued_events q)" using x by (auto simp: set_queued_events)
    then have "e \<in> dom (event_heap s')"
      using inv' q by (simp add: broker_inv_def core_inv_def owned_inv_def)
    then have "event_heap s' e = event_heap s e" using eh unfolding map_le_def by blast
    then show ?thesis using Publish by simp
  qed simp_all
qed

lemma heard_delivers:
  assumes "delivers s s' (filter (matches s P) (consumers s)) (\<lambda>c. (c, m, \<lparr>kind = k, events = map Some evs, stream_id = p_id P,
      name = t_name (p_topic P)\<rparr>))"
    and "broker_inv s" and "consumer_handles s' = consumer_handles s" and "producer_heap s p = Some P"
  shows "heard s' = heard s @ broadcast k evs [producer_view s p] (map (consumer_view s) (consumers s))"
  using delivers_all [OF assms(1) _ assms(3)] live_objects(6) [OF assms(2)]
  by (simp add: heard_def broadcast_one [OF assms(4)] comp_def)

lemma filter_view:
  assumes "p \<in> set ps" and "distinct ps"
  shows "filter (\<lambda>pv. fst pv = p) (map (producer_view s) ps) = [producer_view s p]"
    and "filter (\<lambda>pv. fst pv \<noteq> p) (map (producer_view s) ps) = map (producer_view s) (remove1 p ps)"
proof -
  have f: "fst (producer_view s x) = x" for x by (simp add: producer_view_def)
  have "filter (\<lambda>x. x = p) ps = [p]" using assms by (induction ps) (auto simp: filter_empty_conv)
  then show "filter (\<lambda>pv. fst pv = p) (map (producer_view s) ps) = [producer_view s p]"
    by (simp add: filter_map comp_def f)
  show "filter (\<lambda>pv. fst pv \<noteq> p) (map (producer_view s) ps) = map (producer_view s) (remove1 p ps)"
    using assms(2) by (simp add: filter_map comp_def f distinct_remove1_removeAll removeAll_filter_not_eq eq_commute)
qed

lemma spec_of_step:
  assumes inv: "broker_inv s" and q: "pending_actions s = a # q" and p: "passive_world s"
    and run: "visit a (s\<lparr>pending_actions := q\<rparr>) = Inr s'"
  shows "spec_of s' = spec_step (action_view s a) (spec_of s)"
proof -
  note st = passive_step [OF inv q p run]
  have v: "producers s' = producers_after a (producers s)" "consumers s' = consumers_after a (consumers s)"
    using visit_vectors [OF run] by simp_all
  have "set (producers s') \<subseteq> dom (producer_heap s)"
    using live_objects(1) [OF inv] v(1) q by (cases a) (auto dest: notin_set_remove1 set_mp [OF set_remove1_subset])
  then have ps: "map (producer_view s') (producers s') = map (producer_view s) (producers s')"
    using producer_views [OF inv st(1,2)] live_objects(1) [OF st(1)] by blast
  have cs: "map (consumer_view s') (consumers s') = map (consumer_view s) (consumers s')"
  proof (intro map_cong refl)
    fix c assume "c \<in> set (consumers s')"
    then have "consumer_heap s' c \<noteq> None" using live_objects(2) [OF st(1)] by blast
    then show "consumer_view s' c = consumer_view s c" by (rule consumer_view_frame [OF st(5,4)])
  qed
  have f: "fst (consumer_view s x) = x" "fst (producer_view s x) = x" for x by (simp_all add: consumer_view_def producer_view_def)
  have rem: "filter (\<lambda>v. fst v \<noteq> x) (map g xs) = map g (remove1 x xs)" if "distinct xs" "\<And>y. fst (g y) = y" for x g and xs :: "addr list"
    using that by (simp add: filter_map comp_def distinct_remove1_removeAll removeAll_filter_not_eq eq_commute)
  have "spec_of s' = \<lparr>sp_producers = map (producer_view s) (producers s'), sp_consumers = map (consumer_view s) (consumers s')\<rparr>"
    by (simp only: spec_of_def ps cs)
  then show ?thesis
    unfolding v using live_objects(5,6) [OF inv] by (cases a) (simp_all add: spec_of_def rem f)
qed

lemma heard_new_consumer:
  assumes ps: "\<forall>p\<in>set (producers s). \<exists>P. producer_heap s p = Some P \<and> p_id P = sid p \<and> p_topic P = tpc p"
    and ci: "consumer_heap s c = Some ci" and sub: "subseq ds (filter (\<lambda>p. is_match (tpc p) (c_filter ci)) (producers s))"
    and off: "ds \<noteq> [] \<longrightarrow> c \<in> dom (consumer_handles s)"
    and on: "c \<in> dom (consumer_handles s) \<longrightarrow> ds = filter (\<lambda>p. is_match (tpc p) (c_filter ci)) (producers s)"
  shows "map (\<lambda>p. (c, \<lparr>kind = START_PRODUCER, events = [], stream_id = sid p, name = t_name (tpc p)\<rparr>)) ds =
    broadcast START_PRODUCER [] (map (producer_view s) (producers s)) [consumer_view s c]"
proof -
  have view: "producer_view s p = (p, sid p, tpc p)" if "p \<in> set (producers s)" for p
    using ps that by (auto simp: producer_view_def)
  have one: "map (told START_PRODUCER [] pv) (filter (hears pv) [cv]) =
      (if hears pv cv then [told START_PRODUCER [] pv cv] else [])" for pv cv by simp
  have "broadcast START_PRODUCER [] (map (producer_view s) xs) [consumer_view s c] =
      map (\<lambda>p. (c, \<lparr>kind = START_PRODUCER, events = [], stream_id = sid p, name = t_name (tpc p)\<rparr>))
        (filter (\<lambda>p. c \<in> dom (consumer_handles s) \<and> is_match (tpc p) (c_filter ci)) xs)" if "set xs \<subseteq> set (producers s)" for xs
    using that
  proof (induction xs)
    case (Cons p xs)
    then show ?case using view [of p] ci
      by (auto simp: broadcast_def hears_def told_def consumer_view_def)
  qed (simp add: broadcast_def)
  from this [of "producers s"] show ?thesis
  proof (cases "c \<in> dom (consumer_handles s)")
    case False
    then have "ds = []" using off by blast
    with False \<open>set (producers s) \<subseteq> set (producers s) \<Longrightarrow> _\<close> show ?thesis by simp
  next
    case True
    with on \<open>set (producers s) \<subseteq> set (producers s) \<Longrightarrow> _\<close> show ?thesis by simp
  qed
qed

lemma heard_step:
  assumes inv: "broker_inv s" and q: "pending_actions s = a # q" and p: "passive_world s"
    and run: "visit a (s\<lparr>pending_actions := q\<rparr>) = Inr s'"
  shows "heard s' = heard s @ spec_output (action_view s a) (spec_of s)"
proof -
  note h = passive_step(4) [OF inv q p run]
  show ?thesis
  proof (cases a)
    case (InitProducer x)
    from visit_init_producer_delivers [OF inv, of x q s'] q run InitProducer obtain P where
      P: "producer_heap s x = Some P" and d: "delivers s s' (filter (matches s P) (consumers s))
      (\<lambda>c. (c, \<lparr>n_kind = START_PRODUCER, n_events = [], n_stream_id = p_id P, n_topic = x\<rparr>,
        \<lparr>kind = START_PRODUCER, events = map Some [], stream_id = p_id P, name = t_name (p_topic P)\<rparr>))" by auto
    from heard_delivers [OF d inv h P] show ?thesis using InitProducer by (simp add: spec_of_def)
  next
    case (DestroyProducer x)
    from visit_destroy_producer_delivers [OF inv, of x q s'] q run DestroyProducer obtain P where
      P: "producer_heap s x = Some P" and d: "delivers s s' (filter (matches s P) (consumers s))
      (\<lambda>c. (c, \<lparr>n_kind = STOP_PRODUCER, n_events = [], n_stream_id = p_id P, n_topic = x\<rparr>,
        \<lparr>kind = STOP_PRODUCER, events = map Some [], stream_id = p_id P, name = t_name (p_topic P)\<rparr>))" by auto
    obtain x: "x \<in> set (producers s)" using pop_destroy_producer [OF inv] q DestroyProducer by blast
    from heard_delivers [OF d inv h P] show ?thesis
      using DestroyProducer filter_view(1) [OF x live_objects(5) [OF inv], of s] by (simp add: spec_of_def)
  next
    case (Publish x e)
    from visit_publish_delivers [OF inv, of x e q s'] q run Publish obtain P ev where
      P: "producer_heap s x = Some P" and ev: "event_heap s e = Some ev" and d: "delivers s s' (filter (matches s P) (consumers s))
      (\<lambda>c. (c, \<lparr>n_kind = EVENT, n_events = [e], n_stream_id = p_id P, n_topic = x\<rparr>,
        \<lparr>kind = EVENT, events = map Some [ev], stream_id = p_id P, name = t_name (p_topic P)\<rparr>))" by auto
    obtain x: "x \<in> set (producers s)" using pop_publish [OF inv] q Publish by blast
    from heard_delivers [OF d inv h P] show ?thesis
      using Publish ev filter_view(1) [OF x live_objects(5) [OF inv], of s] by (simp add: spec_of_def)
  next
    case (InitConsumer c)
    from visit_init_consumer_delivers [OF inv, of c q s'] q run InitConsumer obtain ci sid tpc ds where
      d: "consumer_heap s c = Some ci" "\<forall>p\<in>set (producers s). \<exists>P. producer_heap s p = Some P \<and> p_id P = sid p \<and> p_topic P = tpc p"
      "subseq ds (filter (\<lambda>p. is_match (tpc p) (c_filter ci)) (producers s))"
      "trace s' = trace s @ map (\<lambda>p. (c, \<lparr>n_kind = START_PRODUCER, n_events = [], n_stream_id = sid p, n_topic = p\<rparr>,
             \<lparr>kind = START_PRODUCER, events = [], stream_id = sid p, name = t_name (tpc p)\<rparr>)) ds"
      "ds \<noteq> [] \<longrightarrow> c \<in> dom (consumer_handles s)"
      "c \<in> dom (consumer_handles s) \<longrightarrow> ds = filter (\<lambda>p. is_match (tpc p) (c_filter ci)) (producers s)"
      unfolding h by blast
    from heard_new_consumer [OF d(2,1,3,5,6)] show ?thesis
      using d(4) InitConsumer by (simp add: heard_def spec_of_def comp_def)
  next
    case (DestroyConsumer c)
    have "core_inv [] [] s" using inv by (simp add: broker_inv_def)
    from destroy_consumer_run(1) [OF this, of c q] q run DestroyConsumer have "trace s' = trace s" by auto
    then show ?thesis using DestroyConsumer by (simp add: heard_def)
  qed
qed

section \<open>do-work implements the specification\<close>

lemma do_work_spec:
  assumes "broker_inv s" and "passive_world s"
  shows "\<exists>s'. do_work s = Some (Inr s') \<and> pending_actions s' = [] \<and>
    heard s' = heard s @ spec_outputs (map (action_view s) (pending_actions s)) (spec_of s) \<and>
    spec_of s' = fold spec_step (map (action_view s) (pending_actions s)) (spec_of s)"
  using assms
proof (induction "pending_actions s" arbitrary: s)
  case Nil
  then show ?case by (subst do_work.simps) simp
next
  case (Cons a q)
  have q: "pending_actions s = a # q" using Cons.hyps(2) by simp
  obtain s1 where s1: "visit a (s\<lparr>pending_actions := q\<rparr>) = Inr s1"
    using calm_visit [of "s\<lparr>pending_actions := q\<rparr>" a] visit_safe [OF Cons.prems(1) q] Cons.prems(2)
    by (cases "visit a (s\<lparr>pending_actions := q\<rparr>)") auto
  note st = passive_step [OF Cons.prems(1) q Cons.prems(2) s1]
  have v: "map (action_view s1) q = map (action_view s) q"
    by (rule action_views [OF Cons.prems(1) st(1,2,5,4,6) q st(3)])
  obtain s' where s': "do_work s1 = Some (Inr s')" "pending_actions s' = []"
    "heard s' = heard s1 @ spec_outputs (map (action_view s1) (pending_actions s1)) (spec_of s1)"
    "spec_of s' = fold spec_step (map (action_view s1) (pending_actions s1)) (spec_of s1)"
    using Cons.hyps(1) [of s1] st(1,3,7) by blast
  have "do_work s = Some (Inr s')" using q s1 s'(1) by (subst do_work.simps) simp
  moreover have "heard s' = heard s @ spec_outputs (map (action_view s) (pending_actions s)) (spec_of s)"
    using s'(3) heard_step [OF Cons.prems(1) q Cons.prems(2) s1] spec_of_step [OF Cons.prems(1) q Cons.prems(2) s1]
    by (simp add: q st(3) v)
  moreover have "spec_of s' = fold spec_step (map (action_view s) (pending_actions s)) (spec_of s)"
    using s'(4) spec_of_step [OF Cons.prems(1) q Cons.prems(2) s1] by (simp add: q st(3) v)
  ultimately show ?case using s'(2) by blast
qed

text \<open>
  C5: \<^verbatim>\<open>do_work\<close> implements the specification. From every reachable state whose handlers
  do not call the broker it returns, and then the handlers have been given exactly the
  notifications that the specification computes for the queued actions, in that order, and the
  broker's producers and consumers are those of the specification.
\<close>

theorem do_work_implements_spec:
  assumes "broker_reachable s" and "passive_world s"
  shows "\<exists>s'. do_work s = Some (Inr s') \<and> pending_actions s' = [] \<and>
    heard s' = heard s @ spec_outputs (map (action_view s) (pending_actions s)) (spec_of s) \<and>
    spec_of s' = fold spec_step (map (action_view s) (pending_actions s)) (spec_of s)"
  using do_work_spec [OF broker_reachable_inv [OF assms(1)] assms(2)] .

theorem do_work_implements_spec_witness:
  "\<exists>s'. do_work demo_queued = Some (Inr s') \<and>
    heard s' = [(1, \<lparr>kind = START_PRODUCER, events = [], stream_id = 1, name = ''x''\<rparr>),
      (1, \<lparr>kind = EVENT, events = [Some \<lparr>ev_classes = [''E'', ''Event''], ev_value = [7]\<rparr>], stream_id = 1, name = ''x''\<rparr>)]"
proof -
  have "passive_world demo_queued" by (auto simp: passive_world_def passive_handler_def demo_queued_def)
  from do_work_implements_spec [OF demo_reachable(1) this] obtain s' where s': "do_work demo_queued = Some (Inr s')"
    "heard s' = heard demo_queued @ spec_outputs (map (action_view demo_queued) (pending_actions demo_queued)) (spec_of demo_queued)"
    by blast
  moreover have "heard demo_queued @ spec_outputs (map (action_view demo_queued) (pending_actions demo_queued)) (spec_of demo_queued) =
    [(1, \<lparr>kind = START_PRODUCER, events = [], stream_id = 1, name = ''x''\<rparr>),
      (1, \<lparr>kind = EVENT, events = [Some \<lparr>ev_classes = [''E'', ''Event''], ev_value = [7]\<rparr>], stream_id = 1, name = ''x''\<rparr>)]"
    by (simp add: demo_queued_def demo_world_def new_world_def heard_def spec_of_def producer_view_def consumer_view_def
        broadcast_def hears_def told_def is_match_def any_filter_def numeral_2_eq_2)
  ultimately show ?thesis by auto
qed

end
