(* ===== verification/Broker_Destructor.thy ===== *)
theory Broker_Destructor
  imports Broker_Run
begin

text \<open>
  The destructor of the broker. Because \<^verbatim>\<open>PImpl\<close> declares \<^verbatim>\<open>producers\<close> before
  \<^verbatim>\<open>consumers\<close>, the consumers are destroyed first, and the destructor of a producer
  then notifies consumers that no longer exist.
\<close>

section \<open>The three members, in reverse order of declaration\<close>

lemma delete_queue:
  assumes "distinct (init_producers q)"
    and "\<forall>p\<in>set (init_producers q). \<exists>P. producer_heap s p = Some P \<and> p_consumers P = []"
  shows "for_each delete_action q s =
    Inr (s\<lparr>producer_heap := producer_heap s |` (- set (init_producers q)),
           consumer_heap := consumer_heap s |` (- set (init_consumers q)),
           event_heap := event_heap s |` (- set (queued_events q))\<rparr>)"
  using assms
proof (induction q arbitrary: s)
  case Nil
  then show ?case by (auto intro!: world.equality)
next
  case (Cons a q)
  show ?case
  proof (cases a)
    case (InitProducer p)
    then obtain P where P: "producer_heap s p = Some P" "p_consumers P = []" using Cons.prems by auto
    let ?s = "s\<lparr>producer_heap := (producer_heap s)(p := None)\<rparr>"
    have "\<forall>p'\<in>set (init_producers q). \<exists>P. producer_heap ?s p' = Some P \<and> p_consumers P = []"
      using Cons.prems InitProducer by auto
    from Cons.IH [OF _ this] Cons.prems(1) P show ?thesis
      by (auto simp: InitProducer delete_ProducerImpl_def restrict_map_def fun_eq_iff intro!: world.equality)
  next
    case (Publish p e)
    then show ?thesis
      using Cons.IH [of "free_event e s"] Cons.prems
      by (auto simp: free_event_def restrict_map_def fun_eq_iff intro!: world.equality)
  next
    case (InitConsumer c)
    then show ?thesis
      using Cons.IH [of "delete_ConsumerImpl c s"] Cons.prems
      by (auto simp: delete_ConsumerImpl_def restrict_map_def fun_eq_iff intro!: world.equality)
  qed (use Cons in auto)
qed

lemma delete_consumers:
  "fold delete_ConsumerImpl cs s = s\<lparr>consumer_heap := consumer_heap s |` (- set cs)\<rparr>"
  by (induction cs arbitrary: s)
    (auto simp: delete_ConsumerImpl_def restrict_map_def fun_eq_iff intro!: world.equality)

text \<open>Without any consumer left, a producer can only be destroyed if it has none on its list.\<close>

lemma delete_producers:
  assumes "distinct ps" and "set ps \<subseteq> dom (producer_heap s)" and "consumer_heap s = Map.empty"
  shows "for_each delete_ProducerImpl ps s =
    (if \<exists>p\<in>set ps. \<exists>P. producer_heap s p = Some P \<and> p_consumers P \<noteq> [] then Inl UseAfterFree
     else Inr (s\<lparr>producer_heap := producer_heap s |` (- set ps)\<rparr>))"
  using assms
proof (induction ps arbitrary: s)
  case Nil
  then show ?case by (auto intro!: world.equality)
next
  case (Cons p ps)
  obtain P where P: "producer_heap s p = Some P" using Cons.prems(2) by auto
  show ?case
  proof (cases "p_consumers P")
    case Nil
    let ?s = "s\<lparr>producer_heap := (producer_heap s)(p := None)\<rparr>"
    have "set ps \<subseteq> dom (producer_heap ?s)" "distinct ps" "p \<notin> set ps" "consumer_heap ?s = Map.empty"
      using Cons.prems by auto
    note IH = Cons.IH [OF this(2,1,4)]
    have same: "(\<exists>p'\<in>set ps. \<exists>P. producer_heap ?s p' = Some P \<and> p_consumers P \<noteq> []) \<longleftrightarrow>
        (\<exists>p'\<in>set (p # ps). \<exists>P. producer_heap s p' = Some P \<and> p_consumers P \<noteq> [])"
      using P Nil \<open>p \<notin> set ps\<close> by auto
    have restr: "producer_heap ?s |` (- set ps) = producer_heap s |` (- set (p # ps))"
      by (auto simp: restrict_map_def fun_eq_iff)
    have "for_each delete_ProducerImpl (p # ps) s = for_each delete_ProducerImpl ps ?s"
      using P Nil by (simp add: delete_ProducerImpl_def)
    then show ?thesis unfolding IH same restr by simp
  next
    case (Cons c cs)
    then show ?thesis using P Cons.prems \<open>consumer_heap s = Map.empty\<close>
      by (auto simp: delete_ProducerImpl_def notify_def)
  qed
qed

section \<open>Properties\<close>

text \<open>
  C10: destroying the broker is safe exactly when no live producer routes to a consumer. In
  every reachable state, whatever is still queued: if some live producer has a matching
  consumer, \<^verbatim>\<open>~ProducerImpl\<close> calls \<^verbatim>\<open>notify\<close> on a \<^verbatim>\<open>ConsumerImpl\<close> that has
  already been destroyed; otherwise every object the broker owns is freed and no handler is
  called.
\<close>

theorem broker_destructor_use_after_free:
  assumes "broker_reachable s"
  shows "if \<exists>p\<in>set (producers s). \<exists>P. producer_heap s p = Some P \<and> p_consumers P \<noteq> []
    then delete_OldBroker s = Inl UseAfterFree
    else \<exists>s'. delete_OldBroker s = Inr s' \<and> producer_heap s' = Map.empty \<and> consumer_heap s' = Map.empty \<and>
      event_heap s' = Map.empty \<and> trace s' = trace s"
proof -
  let ?q = "pending_actions s"
  have core: "core_inv [] [] s" using broker_reachable_inv [OF assms] by (simp add: broker_inv_def)
  have own: "distinct (producers s)" "distinct (init_producers ?q)" "set (producers s) \<inter> set (init_producers ?q) = {}"
    "dom (producer_heap s) = set (producers s) \<union> set (init_producers ?q)"
    "dom (consumer_heap s) = set (consumers s) \<union> set (init_consumers ?q)"
    "dom (event_heap s) = set (queued_events ?q)"
    using core by (simp_all add: core_inv_def owned_inv_def)
  have init: "\<forall>p\<in>set (init_producers ?q). \<exists>P. producer_heap (s\<lparr>pending_actions := []\<rparr>) p = Some P \<and> p_consumers P = []"
  proof
    fix p assume p: "p \<in> set (init_producers ?q)"
    then obtain P where P: "producer_heap s p = Some P" using own(4) by blast
    moreover have "p_consumers P = []" using core p P by (simp add: core_inv_def lifetime_inv_def)
    ultimately show "\<exists>P. producer_heap (s\<lparr>pending_actions := []\<rparr>) p = Some P \<and> p_consumers P = []" by simp
  qed
  have empty: "event_heap s |` (- set (queued_events ?q)) = Map.empty"
    "consumer_heap s |` (- set (init_consumers ?q)) |` (- set (consumers s)) = Map.empty"
    using own(5,6) by (auto simp: restrict_map_def fun_eq_iff domIff)
  define t where "t = s\<lparr>pending_actions := [], producer_heap := producer_heap s |` (- set (init_producers ?q)),
      event_heap := Map.empty, consumers := [], consumer_heap := Map.empty, producers := []\<rparr>"
  have run: "delete_OldBroker s = for_each delete_ProducerImpl (producers s) t"
    using delete_queue [OF own(2) init] empty
    by (simp add: delete_OldBroker_def delete_consumers t_def Let_def)
  have same: "producer_heap t p = producer_heap s p" if "p \<in> set (producers s)" for p
    using that own(3) by (auto simp: t_def restrict_map_def)
  have "for_each delete_ProducerImpl (producers s) t =
    (if \<exists>p\<in>set (producers s). \<exists>P. producer_heap t p = Some P \<and> p_consumers P \<noteq> [] then Inl UseAfterFree
     else Inr (t\<lparr>producer_heap := producer_heap t |` (- set (producers s))\<rparr>))"
  proof (rule delete_producers)
    show "set (producers s) \<subseteq> dom (producer_heap t)" using own(3,4) by (auto simp: t_def)
  qed (simp_all add: own(1) t_def)
  moreover have "producer_heap t |` (- set (producers s)) = Map.empty"
    using own(4) by (auto simp: t_def restrict_map_def fun_eq_iff domIff)
  ultimately show ?thesis using run same by (auto simp: t_def)
qed

theorem broker_destructor_use_after_free_witness: "delete_OldBroker demo_done = Inl UseAfterFree"
proof -
  have "\<exists>p\<in>set (producers demo_done). \<exists>P. producer_heap demo_done p = Some P \<and> p_consumers P \<noteq> []"
    by (simp add: demo_done_def)
  with broker_destructor_use_after_free [OF demo_reachable(2)] show ?thesis by presburger
qed

end
