(* ===== verification/Broker_Moments.thy ===== *)
theory Broker_Moments
  imports Broker_Run
begin

text \<open>
  The moments inside a step of the broker. An action calls handlers from its loops, and a
  handler runs a client program that may destroy any \<^verbatim>\<open>Consumer\<close>; what is left to do at such a
  moment is a list of tasks: the rest of the handler's program, the calls that the loop has still to
  make, and what follows the loop. The machine that works off the tasks, one call at a time, is
  shown to have the same executions as the broker; on it one can say what happens from the middle
  of a handler on.
\<close>

section \<open>Tasks\<close>

datatype (dead 'u) task =
    T_client "'u client"
  | T_notify NotificationImpl addr
  | T_add addr addr
  | T_remove addr addr
  | T_new_event SnapshotHandler addr
  | T_free_producer addr
  | T_erase_consumer addr
  | T_visit Action

text \<open>What a task does, as a whole, by the operations of the broker.\<close>

fun run_task :: "'u task \<Rightarrow> 'u world \<Rightarrow> 'u world result" where
  "run_task (T_client prog) s = run_client prog s"
| "run_task (T_notify m c) s = notify m c s"
| "run_task (T_add p c) s = maybe_add p c s"
| "run_task (T_remove c p) s = maybe_remove c p s"
| "run_task (T_new_event h e) s = Inr (snapshot_add_new_event h e s)"
| "run_task (T_free_producer p) s = Inr (s\<lparr>producer_heap := (producer_heap s)(p := None)\<rparr>)"
| "run_task (T_erase_consumer c) s =
     (if c \<in> set (consumers s) then Inr (delete_ConsumerImpl c (s\<lparr>consumers := remove1 c (consumers s)\<rparr>))
      else Inl EraseEnd)"
| "run_task (T_visit a) s = visit a s"

text \<open>The first call of a client program, and the rest of it.\<close>

fun client_call :: "'u client \<Rightarrow> 'u world \<Rightarrow> ('u task list \<times> 'u world) result" where
  "client_call (Done u) s = Inr ([], s\<lparr>user := u\<rparr>)"
| "client_call (NewProducer t nm snapshot k) s =
     (case Producer_new t nm snapshot s of (p, s1) \<Rightarrow> Inr ([T_client (k p)], s1))"
| "client_call (PublishEvent p ev k) s = bind_r (Producer_publish p ev s) (\<lambda>s1. Inr ([T_client k], s1))"
| "client_call (DeleteProducer p k) s = bind_r (Producer_delete p s) (\<lambda>s1. Inr ([T_client k], s1))"
| "client_call (NewConsumer t f h k) s =
     (case Consumer_new t f h s of (c, s1) \<Rightarrow> Inr ([T_client (k c)], s1))"
| "client_call (DeleteConsumer c k) s = bind_r (Consumer_delete c s) (\<lambda>s1. Inr ([T_client k], s1))"

text \<open>The calls an action makes from its loop, each made when its turn comes.\<close>

definition notify_tasks :: "NotificationKind \<Rightarrow> addr list \<Rightarrow> addr \<Rightarrow> ProducerImpl \<Rightarrow> 'u task list" where
  "notify_tasks k es p P = map (T_notify \<lparr>n_kind = k, n_events = es, n_stream_id = p_id P, n_topic = p\<rparr>) (p_consumers P)"

fun action_call :: "Action \<Rightarrow> 'u world \<Rightarrow> ('u task list \<times> 'u world) result" where
  "action_call (InitProducer p) s = Inr (map (T_add p) (consumers s), s\<lparr>producers := producers s @ [p]\<rparr>)"
| "action_call (Publish p e) s =
     (case producer_heap s p of None \<Rightarrow> Inl UseAfterFree
      | Some P \<Rightarrow> Inr (notify_tasks EVENT [e] p P @ [T_new_event (p_snapshot_handler P) e], s))"
| "action_call (DestroyProducer p) s =
     (if p \<in> set (producers s) then
        (case producer_heap s p of None \<Rightarrow> Inl UseAfterFree
         | Some P \<Rightarrow> Inr (notify_tasks STOP_PRODUCER [] p P @ [T_free_producer p],
             s\<lparr>producers := remove1 p (producers s)\<rparr>))
      else if ndebug s then Inl EraseEnd else Inl AssertFailure)"
| "action_call (InitConsumer c) s =
     Inr (map (\<lambda>p. T_add p c) (producers s), s\<lparr>consumers := consumers s @ [c]\<rparr>)"
| "action_call (DestroyConsumer c) s = Inr (map (T_remove c) (producers s) @ [T_erase_consumer c], s)"

fun task_call :: "'u task \<Rightarrow> 'u world \<Rightarrow> ('u task list \<times> 'u world) result" where
  "task_call (T_client prog) s = client_call prog s"
| "task_call (T_notify m c) s =
     (case consumer_heap s c of None \<Rightarrow> Inl UseAfterFree
      | Some ci \<Rightarrow> (case c_notify ci of Ignore \<Rightarrow> Inr ([], s)
         | Untyped t h \<Rightarrow> bind_r (typed_notification t m s)
             (\<lambda>n. Inr ([T_client (h n (user s))], s\<lparr>trace := trace s @ [(c, m, n)]\<rparr>))))"
| "task_call (T_add p c) s =
     (case (producer_heap s p, consumer_heap s c) of
        (Some P, Some ci) \<Rightarrow>
          Inr (if is_match (p_topic P) (c_filter ci) then
             ([T_notify \<lparr>n_kind = START_PRODUCER, n_events = [], n_stream_id = p_id P, n_topic = p\<rparr> c],
              s\<lparr>producer_heap := (producer_heap s)(p \<mapsto> P\<lparr>p_consumers := p_consumers P @ [c]\<rparr>)\<rparr>)
           else ([], s))
      | _ \<Rightarrow> Inl UseAfterFree)"
| "task_call (T_visit a) s = action_call a s"
| "task_call t s = bind_r (run_task t s) (\<lambda>s1. Inr ([], s1))"

section \<open>The machine\<close>

text \<open>
  With no task left, client code begins or \<^verbatim>\<open>do_work\<close> takes the first action of the queue.
\<close>

inductive moment_step :: "'u task list \<times> 'u world \<Rightarrow> 'u task list \<times> 'u world \<Rightarrow> bool" where
  begin_client: "moment_step ([], s) ([T_client prog], s)"
| begin_action: "pending_actions s = a # q \<Longrightarrow> moment_step ([], s) ([T_visit a], s\<lparr>pending_actions := q\<rparr>)"
| call: "task_call t s = Inr (us, s') \<Longrightarrow> moment_step (t # ts, s) (us @ ts, s')"

definition moment :: "'u task list \<Rightarrow> 'u world \<Rightarrow> bool" where
  "moment ts s \<longleftrightarrow> (\<exists>s0. broker_init s0 \<and> moment_step\<^sup>*\<^sup>* ([], s0) (ts, s))"

lemma run_task_loops:
  "run_task (T_notify m c) = notify m c" "run_task (T_add p c) = maybe_add p c" "run_task (T_remove c p) = maybe_remove c p"
  by (simp_all add: fun_eq_iff)

lemma client_call_run: "run_client prog s = bind_r (client_call prog s) (\<lambda>(us, s'). for_each run_task us s')"
  by (cases prog) (auto simp: bind_r_def split: sum.split prod.split)

lemma notify_tasks_run:
  "for_each run_task (notify_tasks k es p P) s
     = for_each (notify \<lparr>n_kind = k, n_events = es, n_stream_id = p_id P, n_topic = p\<rparr>) (p_consumers P) s"
  by (simp add: notify_tasks_def for_each_map run_task_loops)

lemma action_call_run: "visit a s = bind_r (action_call a s) (\<lambda>(us, s'). for_each run_task us s')"
proof (cases a)
  case (InitProducer p)
  then show ?thesis by (simp add: visit_init_producer_def producer_init_def for_each_map run_task_loops)
next
  case (DestroyProducer p)
  then show ?thesis
    by (auto simp: visit_destroy_producer_def delete_ProducerImpl_def for_each_append notify_tasks_run bind_r_def
        split: option.split sum.split)
next
  case (Publish p e)
  then show ?thesis
    by (auto simp: visit_publish_def producer_publish_def for_each_append notify_tasks_run bind_r_def
        split: option.split sum.split)
next
  case (InitConsumer c)
  then show ?thesis by (simp add: visit_init_consumer_def for_each_map run_task_loops)
next
  case (DestroyConsumer c)
  then show ?thesis
    by (auto simp: visit_destroy_consumer_def for_each_append for_each_map run_task_loops bind_r_def split: sum.split)
qed

text \<open>A task is its first call and then the tasks that this call leaves behind.\<close>

lemma task_call_run: "run_task t s = bind_r (task_call t s) (\<lambda>(us, s'). for_each run_task us s')"
proof (cases t)
  case (T_client prog)
  then show ?thesis by (simp add: client_call_run)
next
  case (T_notify m c)
  then show ?thesis
    by (auto simp: notify_def bind_r_def split: option.split NotificationHandlerImpl.split sum.split)
next
  case (T_add p c)
  then show ?thesis by (auto simp: maybe_add_def bind_r_def split: option.split sum.split)
next
  case (T_visit a)
  then show ?thesis by (simp add: action_call_run)
qed (auto simp: bind_r_def split: sum.split)

text \<open>Every moment is inside a step of the broker: when the tasks are done, the state is reachable.\<close>

lemma moment_finishes:
  assumes "moment ts s" and "for_each run_task ts s = Inr s'"
  shows "broker_reachable s'"
proof -
  obtain s0 where s0: "broker_init s0" "moment_step\<^sup>*\<^sup>* ([], s0) (ts, s)" using assms(1) by (auto simp: moment_def)
  have "\<forall>s'. for_each run_task (fst cfg) (snd cfg) = Inr s' \<longrightarrow> broker_reachable s'"
    if "moment_step\<^sup>*\<^sup>* ([], s0) cfg" for cfg
    using that
  proof (induction rule: rtranclp_induct)
    case base
    then show ?case using s0(1) by (auto simp: broker_reachable_def)
  next
    case (step c1 c2)
    from step(2) show ?case
    proof cases
      case (begin_client s prog)
      then show ?thesis using step(3) by (auto intro: broker_reachable_step broker_step.client)
    next
      case (begin_action s a q)
      then show ?thesis using step(3) by (auto intro: broker_reachable_step broker_step.action)
    next
      case (call t s us s1 ts)
      then show ?thesis using step(3) by (simp add: task_call_run [of t s] for_each_append)
    qed
  qed
  then show ?thesis using s0(2) assms(2) by auto
qed

text \<open>And every step of the broker is a run of the machine.\<close>

definition performed :: "'u task \<Rightarrow> bool" where
  "performed t \<longleftrightarrow> (\<forall>s s' ts. run_task t s = Inr s' \<longrightarrow> moment_step\<^sup>*\<^sup>* (t # ts, s) (ts, s'))"

lemma performed_list:
  assumes "\<forall>t\<in>set us. performed t" "for_each run_task us s = Inr s'"
  shows "moment_step\<^sup>*\<^sup>* (us @ ts, s) (ts, s')"
  using assms
proof (induction us arbitrary: s)
  case (Cons t us)
  then obtain s1 where "run_task t s = Inr s1" "for_each run_task us s1 = Inr s'" by auto
  then have "moment_step\<^sup>*\<^sup>* (t # us @ ts, s) (us @ ts, s1)" "moment_step\<^sup>*\<^sup>* (us @ ts, s1) (ts, s')"
    using Cons by (auto simp: performed_def)
  then show ?case by simp
qed simp

lemma performed_call:
  assumes "\<And>s us s1. task_call t s = Inr (us, s1) \<Longrightarrow> \<forall>u\<in>set us. performed u"
  shows "performed t"
  unfolding performed_def
proof (intro allI impI)
  fix s s' ts
  assume "run_task t s = Inr s'"
  then obtain us s1 where u: "task_call t s = Inr (us, s1)" "for_each run_task us s1 = Inr s'"
    by (auto simp: task_call_run [of t s])
  have "moment_step (t # ts, s) (us @ ts, s1)" using u(1) by (rule call)
  then show "moment_step\<^sup>*\<^sup>* (t # ts, s) (ts, s')"
    using performed_list [OF assms [OF u(1)] u(2)] by (rule converse_rtranclp_into_rtranclp)
qed

lemma performed_client: "performed (T_client prog)"
proof (induction prog)
  case (Done u)
  show ?case by (rule performed_call) simp
qed (rule performed_call; auto split: prod.splits)+

lemma performed_all: "performed t"
proof -
  have notify: "performed (T_notify m c)" for m c and ts :: "'a task list"
    by (rule performed_call)
      (auto split: option.splits NotificationHandlerImpl.splits intro: performed_client)
  have add: "performed (T_add p c)" for p c
    by (rule performed_call) (auto split: option.splits if_splits intro: notify)
  have other: "performed (T_remove c p)" "performed (T_new_event h e)" "performed (T_free_producer p)"
    "performed (T_erase_consumer c)" for c p h e
    by (rule performed_call, auto split: if_splits)+
  have "performed (T_visit a)" for a
    by (rule performed_call, cases a)
      (auto simp: notify_tasks_def split: option.splits if_splits intro: notify add other)
  then show ?thesis using notify add other performed_client by (cases t) auto
qed

lemma broker_step_moments:
  assumes "broker_step s s'"
  shows "moment_step\<^sup>*\<^sup>* ([], s) ([], s')"
  using assms
proof cases
  case (client prog)
  have "moment_step\<^sup>*\<^sup>* ([T_client prog], s) ([], s')"
    using performed_all [of "T_client prog"] client by (simp add: performed_def)
  with begin_client show ?thesis by (rule converse_rtranclp_into_rtranclp)
next
  case (action a q)
  have "run_task (T_visit a) (s\<lparr>pending_actions := q\<rparr>) = Inr s'" using action(2) by simp
  then have "moment_step\<^sup>*\<^sup>* ([T_visit a], s\<lparr>pending_actions := q\<rparr>) ([], s')"
    using performed_all unfolding performed_def by blast
  with begin_action [OF action(1)] show ?thesis by (rule converse_rtranclp_into_rtranclp)
qed

lemma moment_iff: "moment [] s \<longleftrightarrow> broker_reachable s"
proof
  show "broker_reachable s" if "moment [] s" using moment_finishes [OF that] by simp
  have "moment_step\<^sup>*\<^sup>* ([], s0) ([], s)" if "broker_step\<^sup>*\<^sup>* s0 s" for s0
    using that by (induction rule: rtranclp_induct) (auto dest: broker_step_moments)
  then show "moment [] s" if "broker_reachable s"
    using that by (auto simp: broker_reachable_def moment_def)
qed

section \<open>Silence\<close>

text \<open>
  A consumer whose \<^verbatim>\<open>Consumer\<close> object is gone: the broker may still have the \<^verbatim>\<open>ConsumerImpl\<close>,
  but not the handler. No call brings it back.
\<close>

definition silent :: "addr \<Rightarrow> 'u world \<Rightarrow> bool" where
  "silent c s \<longleftrightarrow> c < next_addr s \<and> (\<forall>ci. consumer_heap s c = Some ci \<longrightarrow> c_notify ci = Ignore)"

definition fresh_above :: "'u world \<Rightarrow> bool" where
  "fresh_above s \<longleftrightarrow> (\<forall>c. next_addr s \<le> c \<longrightarrow> consumer_heap s c = None)"

definition adds_no_call :: "addr \<Rightarrow> 'u world \<Rightarrow> 'u world \<Rightarrow> bool" where
  "adds_no_call c s s' \<longleftrightarrow> (\<exists>t. trace s' = trace s @ t \<and> (\<forall>x\<in>set t. fst x \<noteq> c))"

lemma adds_no_call_refl: "trace s' = trace s \<Longrightarrow> adds_no_call c s s'"
  by (simp add: adds_no_call_def)

lemma adds_no_call_trans: "adds_no_call c s s' \<Longrightarrow> adds_no_call c s' s'' \<Longrightarrow> adds_no_call c s s''"
  unfolding adds_no_call_def by (metis (no_types, lifting) Un_iff append.assoc set_append)

definition calls_kept :: "addr \<Rightarrow> 'u world \<Rightarrow> 'u world \<Rightarrow> bool" where
  "calls_kept c s s' \<longleftrightarrow> (silent c s \<longrightarrow> silent c s' \<and> adds_no_call c s s') \<and> (fresh_above s \<longrightarrow> fresh_above s')"

lemma calls_kept_same:
  assumes "consumer_heap s' = consumer_heap s" "next_addr s \<le> next_addr s'" "trace s' = trace s"
  shows "calls_kept c s s'"
  using assms by (auto simp: calls_kept_def silent_def fresh_above_def adds_no_call_def)

lemma Producer_new_calls: "Producer_new t nm snapshot s = (p, s') \<Longrightarrow> calls_kept c s s'"
proof -
  assume n: "Producer_new t nm snapshot s = (p, s')"
  obtain es s1 where e: "convert_snapshot t snapshot s = (es, s1)" by fastforce
  then obtain h where "s1 = s\<lparr>next_addr := next_addr s + length snapshot, event_heap := h\<rparr>"
    using convert_snapshot_eq [OF e] by blast
  then show ?thesis using n e by (intro calls_kept_same) (auto simp: client_ops fold_free_event)
qed

lemma client_call_calls:
  assumes "client_call prog s = Inr (us, s')"
  shows "calls_kept c s s'"
proof (cases prog)
  case (NewProducer t nm snapshot k)
  then show ?thesis using assms Producer_new_calls by (auto split: prod.splits)
next
  case (NewConsumer t f h k)
  then show ?thesis
    using assms by (auto simp: client_ops calls_kept_def silent_def fresh_above_def adds_no_call_def)
next
  case (DeleteConsumer c' k)
  then show ?thesis
    using assms by (auto simp: client_ops calls_kept_def silent_def fresh_above_def adds_no_call_def
        split: option.splits if_splits)
qed (use assms in \<open>auto simp: client_ops split: option.splits intro!: calls_kept_same\<close>)

lemma task_call_calls:
  assumes "task_call t s = Inr (us, s')"
  shows "calls_kept c s s'"
proof (cases t)
  case (T_client prog)
  then show ?thesis using assms client_call_calls by auto
next
  case (T_notify m c')
  then show ?thesis
    using assms by (auto simp: calls_kept_def silent_def fresh_above_def adds_no_call_def
        split: option.splits NotificationHandlerImpl.splits)
next
  case (T_visit a)
  then show ?thesis using assms by (cases a) (auto split: option.splits if_splits intro!: calls_kept_same)
next
  case (T_erase_consumer c')
  then show ?thesis
    using assms by (auto simp: delete_ConsumerImpl_def calls_kept_def silent_def fresh_above_def adds_no_call_def
        split: if_splits)
qed (use assms in \<open>auto simp: maybe_remove_def snapshot_add_new_event_eq free_event_def
      split: option.splits if_splits intro!: calls_kept_same\<close>)

lemma moment_step_calls: "moment_step cfg cfg' \<Longrightarrow> calls_kept c (snd cfg) (snd cfg')"
  by (induction rule: moment_step.induct) (auto intro: calls_kept_same task_call_calls)

lemma moment_steps_calls: "moment_step\<^sup>*\<^sup>* cfg cfg' \<Longrightarrow> calls_kept c (snd cfg) (snd cfg')"
proof (induction rule: rtranclp_induct)
  case (step c1 c2)
  then show ?case using moment_step_calls [OF step(2), of c] by (auto simp: calls_kept_def intro: adds_no_call_trans)
qed (simp add: calls_kept_same)

lemma moment_fresh: "moment ts s \<Longrightarrow> fresh_above s"
proof -
  assume "moment ts s"
  then obtain s0 where s0: "broker_init s0" "moment_step\<^sup>*\<^sup>* ([], s0) (ts, s)" by (auto simp: moment_def)
  have "fresh_above s0" using s0(1) by (auto simp: broker_init_def new_world_def fresh_above_def)
  then show "fresh_above s" using moment_steps_calls [OF s0(2)] by (auto simp: calls_kept_def)
qed

lemma Consumer_delete_silent:
  assumes "Consumer_delete c s = Inr s1" "fresh_above s"
  shows "silent c s1" "trace s1 = trace s"
  using assms by (auto simp: client_ops silent_def fresh_above_def split: option.splits simp flip: not_le)

text \<open>
  C6: a destroyed consumer is silent at once. At any moment of any execution, between two calls of a
  client program or in the middle of a handler that an action has called from one of its loops,
  let the program destroy a \<^verbatim>\<open>Consumer\<close>. Then from this call on, through the rest of the handler and
  of the action (with the calls that the loop has still to make) and through all that follows, its
  handler is never called again, although the broker still routes to the \<^verbatim>\<open>ConsumerImpl\<close>
  until the queued \<^verbatim>\<open>DestroyConsumer\<close> is executed; in particular not until the action ends.
\<close>

theorem destroyed_consumer_is_silent:
  assumes here: "moment (T_client (DeleteConsumer c k) # ts) s" and del: "Consumer_delete c s = Inr s1"
  shows "(moment_step\<^sup>*\<^sup>* (T_client k # ts, s1) (ts2, s2) \<longrightarrow> (\<exists>t. trace s2 = trace s @ t \<and> (\<forall>x\<in>set t. fst x \<noteq> c)))
    \<and> (for_each run_task (T_client k # ts) s1 = Inr s3 \<longrightarrow>
        broker_reachable s3 \<and> (\<exists>t. trace s3 = trace s @ t \<and> (\<forall>x\<in>set t. fst x \<noteq> c)))"
proof -
  have s1: "silent c s1" "trace s1 = trace s" using Consumer_delete_silent [OF del moment_fresh [OF here]] .
  have later: "\<exists>t. trace s2 = trace s @ t \<and> (\<forall>x\<in>set t. fst x \<noteq> c)" if "moment_step\<^sup>*\<^sup>* (T_client k # ts, s1) (ts2, s2)"
    for ts2 s2
    using moment_steps_calls [OF that, of c] s1 by (simp add: calls_kept_def adds_no_call_def)
  have ends: "moment_step\<^sup>*\<^sup>* (T_client k # ts, s1) ([], s3)" if "for_each run_task (T_client k # ts) s1 = Inr s3"
    using performed_list [OF ballI [OF performed_all] that, of "[]"] by simp
  have "moment_step (T_client (DeleteConsumer c k) # ts, s) ([T_client k] @ ts, s1)"
    by (rule call) (use del in simp)
  then have "moment (T_client k # ts) s1" using here by (auto simp: moment_def intro: rtranclp.rtrancl_into_rtrancl)
  then have "broker_reachable s3" if "for_each run_task (T_client k # ts) s1 = Inr s3"
    using moment_finishes that by blast
  then show ?thesis using later ends by blast
qed

text \<open>
  Two consumers of one stream. The handler of the first, called for an event, destroys the second,
  whose address the client has kept; the loop has still to call the second.
\<close>

definition killer :: "nat handler" where
  "killer n u = (if kind n = EVENT then DeleteConsumer u (Done u) else Done u)"

definition kill_prog :: "nat client" where
  "kill_prog = NewProducer ''S'' ''x'' [] (\<lambda>p. NewConsumer ''S'' any_filter killer
     (\<lambda>_. NewConsumer ''S'' any_filter (\<lambda>n u. Done u)
     (\<lambda>c. PublishEvent p \<lparr>ev_classes = [], ev_value = [7]\<rparr> (Done c))))"

fun turn :: "'u task list \<times> 'u world \<Rightarrow> 'u task list \<times> 'u world" where
  "turn ([], s) = (case pending_actions s of [] \<Rightarrow> ([], s) | a # q \<Rightarrow> ([T_visit a], s\<lparr>pending_actions := q\<rparr>))"
| "turn (t # ts, s) = (case task_call t s of Inl _ \<Rightarrow> (t # ts, s) | Inr (us, s') \<Rightarrow> (us @ ts, s'))"

lemma turn_step: "moment_step\<^sup>*\<^sup>* cfg (turn cfg)"
  by (induction cfg rule: turn.induct)
    (auto split: list.split sum.split intro!: r_into_rtranclp begin_action call)

lemma turns_steps: "moment_step\<^sup>*\<^sup>* cfg ((turn ^^ n) cfg)"
proof (induction n)
  case (Suc n)
  then show ?case using turn_step [of "(turn ^^ n) cfg"] by (simp add: rtranclp_trans)
qed simp

definition kill_world :: "nat world" where
  "kill_world = demo_world\<lparr>current_stream_id := 1, next_addr := 4,
     producer_heap := [0 \<mapsto> \<lparr>p_id = 1, p_topic = \<lparr>t_type = ''S'', t_name = ''x''\<rparr>,
       p_snapshot_handler = NullSnapshotHandler [], p_consumers = [1, 2]\<rparr>],
     consumer_heap := [1 \<mapsto> \<lparr>c_filter = \<lparr>f_type = ''S'', f_is_match = any_filter\<rparr>, c_notify = Untyped ''S'' killer\<rparr>,
       2 \<mapsto> \<lparr>c_filter = \<lparr>f_type = ''S'', f_is_match = any_filter\<rparr>, c_notify = Untyped ''S'' (\<lambda>n u. Done u)\<rparr>],
     event_heap := [3 \<mapsto> \<lparr>ev_classes = [''E'', ''Event''], ev_value = [7]\<rparr>],
     producers := [0], consumers := [1, 2], producer_handles := [0 \<mapsto> ''S''],
     consumer_handles := [1 \<mapsto> ''S'', 2 \<mapsto> ''S''], user := 2,
     trace := [(1, \<lparr>n_kind = START_PRODUCER, n_events = [], n_stream_id = 1, n_topic = 0\<rparr>,
                   \<lparr>kind = START_PRODUCER, events = [], stream_id = 1, name = ''x''\<rparr>),
               (2, \<lparr>n_kind = START_PRODUCER, n_events = [], n_stream_id = 1, n_topic = 0\<rparr>,
                   \<lparr>kind = START_PRODUCER, events = [], stream_id = 1, name = ''x''\<rparr>),
               (1, \<lparr>n_kind = EVENT, n_events = [3], n_stream_id = 1, n_topic = 0\<rparr>,
                   \<lparr>kind = EVENT, events = [Some \<lparr>ev_classes = [''E'', ''Event''], ev_value = [7]\<rparr>],
                    stream_id = 1, name = ''x''\<rparr>)]\<rparr>"

definition kill_rest :: "nat task list" where
  "kill_rest = [T_notify \<lparr>n_kind = EVENT, n_events = [3], n_stream_id = 1, n_topic = 0\<rparr> 2,
     T_new_event (NullSnapshotHandler []) 3]"

lemma kill_turns:
  "(turn ^^ 20) ([T_client kill_prog], demo_world) = (T_client (DeleteConsumer 2 (Done 2)) # kill_rest, kill_world)"
  by (simp add: eval_nat_numeral kill_prog_def killer_def kill_rest_def kill_world_def demo_world_def new_world_def
      notify_tasks_def client_ops broker_ops fun_upd_twist)

lemma kill_moment: "moment (T_client (DeleteConsumer 2 (Done 2)) # kill_rest) kill_world"
proof -
  have "broker_init demo_world" by (auto simp: broker_init_def demo_world_def)
  moreover have "moment_step\<^sup>*\<^sup>* ([], demo_world) (T_client (DeleteConsumer 2 (Done 2)) # kill_rest, kill_world)"
    using turns_steps [of "([T_client kill_prog], demo_world)" 20] begin_client [of demo_world kill_prog]
    unfolding kill_turns by simp
  ultimately show ?thesis by (auto simp: moment_def)
qed

theorem destroyed_consumer_is_silent_witness:
  "\<exists>s1 s3 t. Consumer_delete 2 kill_world = Inr s1 \<and> for_each run_task (T_client (Done 2) # kill_rest) s1 = Inr s3
     \<and> broker_reachable s3 \<and> trace s3 = trace kill_world @ t \<and> 2 \<notin> fst ` set t"
proof -
  obtain s1 where s1: "Consumer_delete 2 kill_world = Inr s1" by (simp add: kill_world_def client_ops)
  then obtain s3 where s3: "for_each run_task (T_client (Done 2) # kill_rest) s1 = Inr s3"
    by (auto simp: kill_world_def client_ops kill_rest_def broker_ops)
  then obtain t where t: "broker_reachable s3" "trace s3 = trace kill_world @ t" "\<forall>x\<in>set t. fst x \<noteq> 2"
    using destroyed_consumer_is_silent [OF kill_moment s1, of "[]" undefined s3] by blast
  then have "2 \<notin> fst ` set t" by force
  then show ?thesis using s1 s3 t by blast
qed

end
