(* ===== verification/Broker_Ids.thy ===== *)
theory Broker_Ids
  imports Broker_Run
begin

text \<open>
  Stream ids. Each \<^verbatim>\<open>ProducerImpl\<close> takes the next value of a global 64-bit counter, and
  every notification carries the id of its producer; ids tell producers apart for as long as
  the counter has not gone round.
\<close>

section \<open>Ids count the producers\<close>

text \<open>
  \<open>f p\<close> is the rank of producer \<open>p\<close> among all producers made since the counter was
  \<open>sid0\<close>, 0 for addresses that are no producer's.
\<close>

definition ranked :: "StreamID \<Rightarrow> (addr \<Rightarrow> nat) \<Rightarrow> nat \<Rightarrow> 'u world \<Rightarrow> bool" where
  "ranked sid0 f n s \<longleftrightarrow>
     inj_on f {p. 0 < f p} \<and> (\<forall>p. f p \<le> n) \<and> (\<forall>p. 0 < f p \<longrightarrow> p < next_addr s) \<and> n \<le> next_addr s \<and>
     current_stream_id s = sid0 + of_nat n \<and>
     (\<forall>p P. producer_heap s p = Some P \<longrightarrow> 0 < f p \<and> p_id P = sid0 + of_nat (f p)) \<and>
     (\<forall>x\<in>set (trace s). let m = fst (snd x) in
        0 < f (n_topic m) \<and> n_stream_id m = sid0 + of_nat (f (n_topic m)) \<and> stream_id (snd (snd x)) = n_stream_id m)"

definition ids_ok :: "StreamID \<Rightarrow> 'u world \<Rightarrow> bool" where
  "ids_ok sid0 s \<longleftrightarrow> (\<exists>f n. ranked sid0 f n s)"

text \<open>Changes that do not touch ids.\<close>

lemma ids_ok_cong:
  assumes "ids_ok sid0 s" and "current_stream_id s' = current_stream_id s" and "next_addr s \<le> next_addr s'"
    and "\<And>p P'. producer_heap s' p = Some P' \<Longrightarrow> \<exists>P. producer_heap s p = Some P \<and> p_id P' = p_id P"
    and "trace s' = trace s"
  shows "ids_ok sid0 s'"
proof -
  obtain f n where r: "ranked sid0 f n s" using assms(1) by (auto simp: ids_ok_def)
  have "0 < f p \<and> p_id P' = sid0 + of_nat (f p)" if "producer_heap s' p = Some P'" for p P'
    using assms(4) [OF that] r unfolding ranked_def by metis
  moreover have "\<forall>p. 0 < f p \<longrightarrow> p < next_addr s'" "n \<le> next_addr s'"
    using r assms(3) unfolding ranked_def by (meson order_less_le_trans order_trans)+
  ultimately have "ranked sid0 f n s'" using r assms(2,5) unfolding ranked_def by simp
  then show ?thesis by (auto simp: ids_ok_def)
qed

lemma ids_ok_new:
  assumes ok: "ids_ok sid0 s" and p: "next_addr s \<le> p"
    and s': "current_stream_id s' = current_stream_id s + 1" "next_addr s' = Suc p"
      "producer_heap s' = (producer_heap s)(p \<mapsto> P)" "p_id P = current_stream_id s + 1" "trace s' = trace s"
  shows "ids_ok sid0 s'"
proof -
  obtain f n where r: "ranked sid0 f n s" using ok by (auto simp: ids_ok_def)
  have fp: "f p = 0" using r p unfolding ranked_def by (meson not_gr_zero not_less)
  have le: "f q \<le> n" for q using r unfolding ranked_def by blast
  have "inj_on (f(p := Suc n)) {q. 0 < (f(p := Suc n)) q}"
  proof (rule inj_onI)
    fix x y assume xy: "x \<in> {q. 0 < (f(p := Suc n)) q}" "y \<in> {q. 0 < (f(p := Suc n)) q}" "(f(p := Suc n)) x = (f(p := Suc n)) y"
    show "x = y"
    proof (cases "x = p \<or> y = p")
      case True
      then show ?thesis using xy(3) le [of x] le [of y] by (auto split: if_splits)
    next
      case False
      then show ?thesis using xy r unfolding ranked_def inj_on_def by simp
    qed
  qed
  moreover have "\<forall>q. (f(p := Suc n)) q \<le> Suc n" using le by (simp add: le_SucI)
  moreover have "\<forall>q. 0 < (f(p := Suc n)) q \<longrightarrow> q < next_addr s'" "Suc n \<le> next_addr s'"
    using r p s'(2) unfolding ranked_def by (auto simp: less_Suc_eq intro: order_less_le_trans)
  moreover have "current_stream_id s' = sid0 + of_nat (Suc n)"
    using r s'(1) unfolding ranked_def by simp
  moreover have "0 < (f(p := Suc n)) q \<and> p_id Q = sid0 + of_nat ((f(p := Suc n)) q)" if "producer_heap s' q = Some Q" for q Q
    using r that s'(3,4) unfolding ranked_def by (auto split: if_splits)
  moreover have "let m = fst (snd x) in 0 < (f(p := Suc n)) (n_topic m) \<and>
      n_stream_id m = sid0 + of_nat ((f(p := Suc n)) (n_topic m)) \<and> stream_id (snd (snd x)) = n_stream_id m" if "x \<in> set (trace s')" for x
  proof -
    have x: "0 < f (n_topic (fst (snd x)))" "n_stream_id (fst (snd x)) = sid0 + of_nat (f (n_topic (fst (snd x))))"
      "stream_id (snd (snd x)) = n_stream_id (fst (snd x))"
      using r that s'(5) by (auto simp: ranked_def Let_def)
    then have "n_topic (fst (snd x)) \<noteq> p" using fp by auto
    with x show ?thesis by (simp add: Let_def)
  qed
  ultimately have "ranked sid0 (f(p := Suc n)) (Suc n) s'" unfolding ranked_def by blast
  then show ?thesis by (auto simp: ids_ok_def)
qed

lemma ids_ok_notified:
  assumes ok: "ids_ok sid0 s" and P: "producer_heap s (n_topic m) = Some P" "p_id P = n_stream_id m"
    and n: "stream_id n = n_stream_id m"
  shows "ids_ok sid0 (s\<lparr>trace := trace s @ [(c, m, n)]\<rparr>)"
proof -
  obtain f k where r: "ranked sid0 f k s" using ok by (auto simp: ids_ok_def)
  then have "0 < f (n_topic m)" "n_stream_id m = sid0 + of_nat (f (n_topic m))"
    using P unfolding ranked_def by metis+
  then have "ranked sid0 f k (s\<lparr>trace := trace s @ [(c, m, n)]\<rparr>)"
    using r n unfolding ranked_def by simp
  then show ?thesis by (auto simp: ids_ok_def)
qed

lemma ids_ok_bound: "ids_ok sid0 s \<Longrightarrow> producer_heap s p = Some P \<Longrightarrow> p < next_addr s"
  unfolding ids_ok_def ranked_def by blast

section \<open>All operations keep the ids\<close>

text \<open>Ids are in order afterwards, and the producers of before are still there with theirs.\<close>

definition ids_step :: "StreamID \<Rightarrow> 'u world \<Rightarrow> 'u world \<Rightarrow> bool" where
  "ids_step sid0 s s' \<longleftrightarrow> ids_ok sid0 s' \<and>
     (\<forall>p P. producer_heap s p = Some P \<longrightarrow> (\<exists>P'. producer_heap s' p = Some P' \<and> p_id P' = p_id P))"

lemma ids_step_refl: "ids_ok sid0 s \<Longrightarrow> ids_step sid0 s s"
  by (simp add: ids_step_def)

lemma ids_step_trans: "ids_step sid0 s s' \<Longrightarrow> ids_step sid0 s' s'' \<Longrightarrow> ids_step sid0 s s''"
  unfolding ids_step_def by metis

lemma ids_step_same:
  assumes "ids_ok sid0 s" and "current_stream_id s' = current_stream_id s" and "next_addr s \<le> next_addr s'"
    and "producer_heap s' = producer_heap s" and "trace s' = trace s"
  shows "ids_step sid0 s s'"
  using ids_ok_cong [OF assms(1-3) _ assms(5)] assms(4) by (simp add: ids_step_def)

lemma Producer_new_ids:
  assumes ok: "ids_ok sid0 s" and new: "Producer_new t nm snapshot s = (p, s')"
  shows "ids_step sid0 s s'"
proof -
  obtain es s1 where c: "convert_snapshot t snapshot s = (es, s1)" by fastforce
  from convert_snapshot_eq [OF c] obtain h where s1: "s1 = s\<lparr>next_addr := next_addr s + length snapshot, event_heap := h\<rparr>" by blast
  let ?p = "next_addr s + length snapshot"
  have p: "next_addr s \<le> ?p" by simp
  have "ids_ok sid0 s'"
    by (rule ids_ok_new [OF ok p])
      (use new c s1 in \<open>auto simp: Producer_new_def make_producer_def new_ProducerImpl_def enqueue_def fold_free_event Let_def\<close>)
  moreover have "producer_heap s' q = Some Q" if "producer_heap s q = Some Q" for q Q
    using ids_ok_bound [OF ok that] that new c s1
    by (auto simp: Producer_new_def make_producer_def new_ProducerImpl_def enqueue_def fold_free_event Let_def)
  ultimately show ?thesis by (auto simp: ids_step_def)
qed

lemma run_client_ids: "ids_ok sid0 s \<Longrightarrow> run_client prog s = Inr s' \<Longrightarrow> ids_step sid0 s s'"
proof (induction prog arbitrary: s)
  case (Done u)
  then show ?case by (auto intro: ids_step_same)
next
  case (NewProducer t nm snapshot k)
  obtain p s1 where new: "Producer_new t nm snapshot s = (p, s1)" by fastforce
  note st = Producer_new_ids [OF NewProducer.prems(1) new]
  have "ids_step sid0 s1 s'"
    using NewProducer.IH [OF rangeI, of s1 p] NewProducer.prems(2) st new by (simp add: ids_step_def)
  then show ?case using st by (rule ids_step_trans [rotated])
next
  case (NewConsumer t f h k)
  obtain c s1 where new: "Consumer_new t f h s = (c, s1)" by fastforce
  have st: "ids_step sid0 s s1" by (rule ids_step_same [OF NewConsumer.prems(1)]) (use new in \<open>auto simp: client_ops\<close>)
  have "ids_step sid0 s1 s'"
    using NewConsumer.IH(2) [OF rangeI, of s1 c] NewConsumer.prems(2) st new by (simp add: ids_step_def)
  then show ?case using st by (rule ids_step_trans [rotated])
next
  case (PublishEvent p ev k)
  then obtain s1 where s1: "Producer_publish p ev s = Inr s1" "run_client k s1 = Inr s'" by auto
  have st: "ids_step sid0 s s1"
    by (rule ids_step_same [OF PublishEvent.prems(1)]) (use s1(1) in \<open>auto simp: client_ops split: option.splits\<close>)
  show ?case using ids_step_trans [OF st] PublishEvent.IH [OF _ s1(2)] st by (simp add: ids_step_def)
next
  case (DeleteProducer p k)
  then obtain s1 where s1: "Producer_delete p s = Inr s1" "run_client k s1 = Inr s'" by auto
  have st: "ids_step sid0 s s1"
    by (rule ids_step_same [OF DeleteProducer.prems(1)]) (use s1(1) in \<open>auto simp: client_ops split: option.splits\<close>)
  show ?case using ids_step_trans [OF st] DeleteProducer.IH [OF _ s1(2)] st by (simp add: ids_step_def)
next
  case (DeleteConsumer c k)
  then obtain s1 where s1: "Consumer_delete c s = Inr s1" "run_client k s1 = Inr s'" by auto
  have st: "ids_step sid0 s s1"
    by (rule ids_step_same [OF DeleteConsumer.prems(1)]) (use s1(1) in \<open>auto simp: client_ops split: option.splits\<close>)
  show ?case using ids_step_trans [OF st] DeleteConsumer.IH [OF _ s1(2)] st by (simp add: ids_step_def)
qed

text \<open>Handler calls carry the id of a live producer.\<close>

definition id_of :: "addr \<Rightarrow> StreamID \<Rightarrow> 'u world \<Rightarrow> bool" where
  "id_of p i s \<longleftrightarrow> (\<exists>P. producer_heap s p = Some P \<and> p_id P = i)"

lemma id_of_step: "ids_step sid0 s s' \<Longrightarrow> id_of p i s \<Longrightarrow> id_of p i s'"
  unfolding ids_step_def id_of_def by metis

lemma notify_ids:
  assumes ok: "ids_ok sid0 s" and m: "id_of (n_topic m) (n_stream_id m) s" and run: "notify m c s = Inr s'"
  shows "ids_step sid0 s s'"
proof -
  obtain ci where ci: "consumer_heap s c = Some ci" using run by (auto simp: notify_def split: option.splits)
  show ?thesis
  proof (cases "c_notify ci")
    case Ignore
    then show ?thesis using run ci ok by (simp add: notify_def ids_step_refl)
  next
    case (Untyped t h)
    then obtain n where n: "typed_notification t m s = Inr n"
      "run_client (h n (user s)) (s\<lparr>trace := trace s @ [(c, m, n)]\<rparr>) = Inr s'"
      using run ci by (auto simp: notify_def)
    have "stream_id n = n_stream_id m" using n(1) by (auto simp: typed_notification_def split: option.splits)
    then have "ids_ok sid0 (s\<lparr>trace := trace s @ [(c, m, n)]\<rparr>)"
      using ids_ok_notified [OF ok] m unfolding id_of_def by blast
    from run_client_ids [OF this n(2)] show ?thesis by (simp add: ids_step_def)
  qed
qed

lemma for_each_ids:
  assumes "\<And>x t t'. ids_ok sid0 t \<Longrightarrow> pre t \<Longrightarrow> f x t = Inr t' \<Longrightarrow> ids_step sid0 t t'"
    and "\<And>t t'. pre t \<Longrightarrow> ids_step sid0 t t' \<Longrightarrow> pre t'"
  shows "ids_ok sid0 s \<Longrightarrow> pre s \<Longrightarrow> for_each f xs s = Inr s' \<Longrightarrow> ids_step sid0 s s'"
proof (induction xs arbitrary: s)
  case (Cons x xs)
  then obtain t where t: "f x s = Inr t" "for_each f xs t = Inr s'" by auto
  have st: "ids_step sid0 s t" using assms(1) [OF Cons.prems(1,2) t(1)] .
  then have "ids_ok sid0 t" "pre t" using assms(2) [OF Cons.prems(2)] by (auto simp: ids_step_def)
  then show ?case using ids_step_trans [OF st] Cons.IH [OF _ _ t(2)] by blast
qed (simp add: ids_step_refl)

lemma notify_loop_ids:
  assumes "ids_ok sid0 s" and "id_of (n_topic m) (n_stream_id m) s" and "for_each (notify m) cs s = Inr s'"
  shows "ids_step sid0 s s'"
  by (rule for_each_ids [of sid0 "id_of (n_topic m) (n_stream_id m)" "notify m", OF notify_ids id_of_step assms])

lemma maybe_add_ids:
  assumes ok: "ids_ok sid0 s" and run: "maybe_add p c s = Inr s'"
  shows "ids_step sid0 s s'"
proof -
  obtain P ci where P: "producer_heap s p = Some P" "consumer_heap s c = Some ci"
    using run by (auto simp: maybe_add_def split: option.splits)
  show ?thesis
  proof (cases "is_match (p_topic P) (c_filter ci)")
    case False
    then show ?thesis using run P ok by (simp add: maybe_add_def ids_step_refl)
  next
    case True
    let ?s = "s\<lparr>producer_heap := (producer_heap s)(p \<mapsto> P\<lparr>p_consumers := p_consumers P @ [c]\<rparr>)\<rparr>"
    have "ids_ok sid0 ?s" by (rule ids_ok_cong [OF ok]) (use P in \<open>auto split: if_splits\<close>)
    then have st: "ids_step sid0 s ?s" using P(1) by (auto simp: ids_step_def)
    have "ids_step sid0 ?s s'"
      by (rule notify_ids [OF \<open>ids_ok sid0 ?s\<close>]) (use run P True in \<open>auto simp: maybe_add_def id_of_def\<close>)
    with st show ?thesis by (rule ids_step_trans)
  qed
qed

lemma maybe_add_loop_ids:
  assumes "ids_ok sid0 s" and "for_each (\<lambda>x. maybe_add (f x) (g x)) xs s = Inr s'"
  shows "ids_step sid0 s s'"
  by (rule for_each_ids [of sid0 "\<lambda>_. True" "\<lambda>x. maybe_add (f x) (g x)"]) (use assms maybe_add_ids in auto)

lemma maybe_remove_loop_ids:
  assumes "ids_ok sid0 s" and "for_each (maybe_remove c) ps s = Inr s'"
  shows "ids_step sid0 s s'"
proof (rule for_each_ids [of sid0 "\<lambda>_. True" "maybe_remove c"])
  fix p t t' assume ok: "ids_ok sid0 t" and run: "maybe_remove c p t = Inr t'"
  have "ids_ok sid0 t'"
    by (rule ids_ok_cong [OF ok]) (use run in \<open>auto simp: maybe_remove_def split: option.splits if_splits\<close>)
  then show "ids_step sid0 t t'"
    using run by (auto simp: ids_step_def maybe_remove_def split: option.splits)
qed (use assms in auto)

lemma visit_ids:
  assumes ok: "ids_ok sid0 s" and run: "visit a s = Inr s'"
  shows "ids_ok sid0 s'"
proof (cases a)
  case (InitProducer p)
  have "ids_ok sid0 (s\<lparr>producers := producers s @ [p]\<rparr>)" by (rule ids_ok_cong [OF ok]) auto
  then show ?thesis
    using maybe_add_loop_ids [of sid0 "s\<lparr>producers := producers s @ [p]\<rparr>" "\<lambda>_. p" "\<lambda>c. c"] run InitProducer
    by (auto simp: visit_init_producer_def producer_init_def ids_step_def)
next
  case (InitConsumer c)
  have "ids_ok sid0 (s\<lparr>consumers := consumers s @ [c]\<rparr>)" by (rule ids_ok_cong [OF ok]) auto
  then show ?thesis
    using maybe_add_loop_ids [of sid0 "s\<lparr>consumers := consumers s @ [c]\<rparr>" "\<lambda>p. p" "\<lambda>_. c"] run InitConsumer
    by (auto simp: visit_init_consumer_def ids_step_def)
next
  case (Publish p e)
  then obtain P t where P: "producer_heap s p = Some P"
    and t: "for_each (notify \<lparr>n_kind = EVENT, n_events = [e], n_stream_id = p_id P, n_topic = p\<rparr>) (p_consumers P) s = Inr t"
      "s' = free_event e t"
    using run by (auto simp: visit_publish_def producer_publish_def snapshot_add_new_event_eq split: option.splits)
  have "ids_ok sid0 t" using notify_loop_ids [OF ok _ t(1)] P by (simp add: id_of_def ids_step_def)
  then show ?thesis by (rule ids_ok_cong) (simp_all add: t(2) free_event_def)
next
  case (DestroyProducer p)
  let ?s = "s\<lparr>producers := remove1 p (producers s)\<rparr>"
  obtain P t where P: "producer_heap s p = Some P"
    and t: "for_each (notify \<lparr>n_kind = STOP_PRODUCER, n_events = [], n_stream_id = p_id P, n_topic = p\<rparr>) (p_consumers P) ?s = Inr t"
      "s' = t\<lparr>producer_heap := (producer_heap t)(p := None)\<rparr>"
    using run DestroyProducer
    by (auto simp: visit_destroy_producer_def delete_ProducerImpl_def split: option.splits if_splits)
  have "ids_ok sid0 ?s" by (rule ids_ok_cong [OF ok]) auto
  then have "ids_ok sid0 t" using notify_loop_ids [OF _ _ t(1)] P by (simp add: id_of_def ids_step_def)
  then show ?thesis by (rule ids_ok_cong) (auto simp: t(2) split: if_splits)
next
  case (DestroyConsumer c)
  then obtain t where t: "for_each (maybe_remove c) (producers s) s = Inr t"
    "s' = delete_ConsumerImpl c (t\<lparr>consumers := remove1 c (consumers t)\<rparr>)"
    using run by (auto simp: visit_destroy_consumer_def split: if_splits)
  have "ids_ok sid0 t" using maybe_remove_loop_ids [OF ok t(1)] by (simp add: ids_step_def)
  then show ?thesis by (rule ids_ok_cong) (simp_all add: t(2) delete_ConsumerImpl_def)
qed

lemma broker_step_ids:
  assumes "broker_step s s'" and "ids_ok sid0 s"
  shows "ids_ok sid0 s'"
  using assms(1)
proof (cases rule: broker_step.cases)
  case (client prog)
  then show ?thesis using run_client_ids [OF assms(2)] by (simp add: ids_step_def)
next
  case (action a q)
  have "ids_ok sid0 (s\<lparr>pending_actions := q\<rparr>)" by (rule ids_ok_cong [OF assms(2)]) auto
  then show ?thesis using visit_ids action(2) by blast
qed

interpretation ids_run: step_invariant "\<lambda>s. \<exists>nd se u. s = new_world nd se sid0 u" broker_step "\<lambda>_. True" "ids_ok sid0" for sid0
proof (unfold_locales, goal_cases)
  case (1 s)
  then have "ranked sid0 (\<lambda>_. 0) 0 s" by (auto simp: ranked_def new_world_def)
  then show ?case unfolding ids_ok_def by blast
next
  case (3 s s')
  then show ?case using broker_step_ids by blast
qed

section \<open>Ids tell producers apart\<close>

text \<open>
  C31: a stream id identifies its producer. As long as fewer than 2 to the 64 objects have
  been made since the counter had its initial value, two notifications with the same stream
  id come from the same producer, destroyed ones included, and so do a notification and a live
  producer of that id.
\<close>

theorem stream_id_identifies_producer:
  assumes "broker_step\<^sup>*\<^sup>* (new_world nd se sid0 u) s" and "next_addr s < 2 ^ 64"
    and "x \<in> set (trace s)" and "y \<in> set (trace s)"
  shows "(stream_id (snd (snd x)) = stream_id (snd (snd y)) \<longrightarrow> n_topic (fst (snd x)) = n_topic (fst (snd y))) \<and>
    (\<forall>p P. producer_heap s p = Some P \<longrightarrow> stream_id (snd (snd x)) = p_id P \<longrightarrow> n_topic (fst (snd x)) = p)"
proof -
  have "ids_ok sid0 s" using ids_run.inv_run [OF _ assms(1)] by blast
  then obtain f n where r: "ranked sid0 f n s" by (auto simp: ids_ok_def)
  have inj: "p = q" if "0 < f p" "0 < f q" "sid0 + of_nat (f p) = sid0 + of_nat (f q)" for p q
  proof -
    have "f p < 2 ^ 64" "f q < 2 ^ 64" using r assms(2) unfolding ranked_def by (meson order_le_less_trans order_trans)+
    then have "f p = f q" using of_nat_u64_inject that(3) by simp
    then show ?thesis using r that unfolding ranked_def inj_on_def by blast
  qed
  have e: "0 < f (n_topic (fst (snd x))) \<and> stream_id (snd (snd x)) = sid0 + of_nat (f (n_topic (fst (snd x))))"
    if "x \<in> set (trace s)" for x using r that unfolding ranked_def by (simp add: Let_def)
  have h: "0 < f p \<and> p_id P = sid0 + of_nat (f p)" if "producer_heap s p = Some P" for p P
    using r that unfolding ranked_def by blast
  show ?thesis using inj e [OF assms(3)] e [OF assms(4)] h by (metis (no_types))
qed

theorem stream_id_identifies_producer_witness:
  "(let x = trace demo_done ! 0; y = trace demo_done ! 1 in
    stream_id (snd (snd x)) = stream_id (snd (snd y)) \<and> n_topic (fst (snd x)) = n_topic (fst (snd y)))"
proof -
  have "broker_step\<^sup>*\<^sup>* demo_world demo_queued" using broker_step.client [OF demo_run] by blast
  also have "broker_step\<^sup>*\<^sup>* demo_queued demo_done" using do_work_outcome [OF demo_work] by (simp add: work_outcome_def)
  finally have run: "broker_step\<^sup>*\<^sup>* (new_world True (\<lambda>t. (''E'', [''Event''])) 0 0) demo_done" by (simp add: demo_world_def)
  have n: "next_addr demo_done < 2 ^ 64" by (simp add: demo_done_def demo_queued_def)
  have l: "length (trace demo_done) = 2" "stream_id (snd (snd (trace demo_done ! 0))) = stream_id (snd (snd (trace demo_done ! 1)))"
    by (simp_all add: demo_done_def)
  then have x: "trace demo_done ! 0 \<in> set (trace demo_done)" "trace demo_done ! 1 \<in> set (trace demo_done)"
    by (simp_all only: nth_mem)
  from stream_id_identifies_producer [OF run n x] l(2) show ?thesis unfolding Let_def by blast
qed

end
