(* ===== verification/Main_Program.thy ===== *)
theory Main_Program
  imports Broker_Destructor
begin

text \<open>
  The program of \<^verbatim>\<open>src/main.cpp\<close>: \<^verbatim>\<open>SimpleEvent\<close>, its stream, the scope of the
  \<^verbatim>\<open>publish\<close> benchmark with its destructors, and the endless loop of
  \<^verbatim>\<open>vg_workout\<close>, which shares its body.
\<close>

section \<open>The program\<close>

text \<open>The stream type and its \<^verbatim>\<open>EventType\<close>; an event holds the time it was made.\<close>

definition SimpleStream :: StreamTypeID where
  "SimpleStream = ''SimpleStream<SimpleEvent>''"

definition SimpleStream_EventType :: "StreamTypeID \<Rightarrow> string \<times> string list" where
  "SimpleStream_EventType t = (''SimpleEvent'', [''Event''])"

definition SimpleEvent :: "byte list \<Rightarrow> Event" where
  "SimpleEvent now = \<lparr>ev_classes = [''SimpleEvent'', ''Event''], ev_value = now\<rparr>"

text \<open>
  The broker, the producer with the empty name, and the consumer of all names whose handler
  does nothing; \<open>nd\<close> is the build mode and \<open>sid\<close> the global stream counter so far.
\<close>

definition bm_setup :: "bool \<Rightarrow> StreamID \<Rightarrow> addr \<times> addr \<times> unit world" where
  "bm_setup nd sid =
     (let b = new_world nd SimpleStream_EventType sid ();
          (p, b1) = Producer_new SimpleStream [] [] b;
          (c, b2) = Consumer_new SimpleStream any_filter (\<lambda>n u. Done ()) b1
      in (p, c, b2))"

definition bm_iteration :: "addr \<Rightarrow> Event \<Rightarrow> unit world \<Rightarrow> unit world result option" where
  "bm_iteration p ev b =
     (case Producer_publish p ev b of Inl e \<Rightarrow> Some (Inl e) | Inr b1 \<Rightarrow> do_work b1)"

fun bm_loop :: "nat \<Rightarrow> addr \<Rightarrow> Event \<Rightarrow> unit world \<Rightarrow> unit world result option" where
  "bm_loop 0 p ev b = Some (Inr b)"
| "bm_loop (Suc n) p ev b =
     (case bm_iteration p ev b of
        None \<Rightarrow> None
      | Some (Inl e) \<Rightarrow> Some (Inl e)
      | Some (Inr b1) \<Rightarrow> bm_loop n p ev b1)"

text \<open>The end of the scope destroys \<^verbatim>\<open>c\<close>, then \<^verbatim>\<open>p\<close>, then \<^verbatim>\<open>b\<close>.\<close>

definition bm_teardown :: "addr \<Rightarrow> addr \<Rightarrow> unit world \<Rightarrow> unit world result" where
  "bm_teardown p c b =
     bind_r (Consumer_delete c b) (\<lambda>b1. bind_r (Producer_delete p b1) delete_OldBroker)"

definition publish_benchmark :: "bool \<Rightarrow> StreamID \<Rightarrow> byte list \<Rightarrow> nat \<Rightarrow> unit world result option" where
  "publish_benchmark nd sid now iterations =
     (case bm_setup nd sid of (p, c, b) \<Rightarrow>
        (case bm_loop iterations p (SimpleEvent now) b of
           None \<Rightarrow> None
         | Some (Inl e) \<Rightarrow> Some (Inl e)
         | Some (Inr b1) \<Rightarrow> Some (bm_teardown p c b1)))"

text \<open>\<^verbatim>\<open>vg_workout\<close> never leaves its loop.\<close>

partial_function (option) vg_loop :: "addr \<Rightarrow> Event \<Rightarrow> unit world \<Rightarrow> unit world result option" where
  "vg_loop p ev b =
     (case bm_iteration p ev b of
        None \<Rightarrow> None
      | Some (Inl e) \<Rightarrow> Some (Inl e)
      | Some (Inr b1) \<Rightarrow> vg_loop p ev b1)"

definition vg_workout :: "bool \<Rightarrow> StreamID \<Rightarrow> byte list \<Rightarrow> unit world result option" where
  "vg_workout nd sid now = (case bm_setup nd sid of (p, c, b) \<Rightarrow> vg_loop p (SimpleEvent now) b)"

text \<open>The \<^verbatim>\<open>alloc\<close> benchmark clones an event and frees it, over and over.\<close>

fun alloc_benchmark :: "nat \<Rightarrow> Event \<Rightarrow> 'u world \<Rightarrow> 'u world" where
  "alloc_benchmark 0 ev b = b"
| "alloc_benchmark (Suc n) ev b =
     (case clone_event SimpleStream ev b of (e, b1) \<Rightarrow> alloc_benchmark n ev (free_event e b1))"

text \<open>
  \<^verbatim>\<open>main\<close>: with an argument the endless loop, else the registered benchmarks, run by the
  benchmark library (\<open>run_benchmarks\<close>; \<open>None\<close>: they do not return); the result is the
  exit code.
\<close>

definition main :: "nat \<Rightarrow> bool \<Rightarrow> StreamID \<Rightarrow> byte list \<Rightarrow> unit result option \<Rightarrow> int result option" where
  "main argc nd sid now run_benchmarks =
     (if 1 < argc then map_option (\<lambda>r. bind_r r (\<lambda>_. Inr 0)) (vg_workout nd sid now)
      else map_option (\<lambda>r. bind_r r (\<lambda>_. Inr 0)) run_benchmarks)"

section \<open>The states of the loop\<close>

definition bm_world :: "bool \<Rightarrow> StreamID \<Rightarrow> addr list \<Rightarrow> unit world" where
  "bm_world nd sid cs = (new_world nd SimpleStream_EventType (sid + 1) ())\<lparr>next_addr := 2,
     producer_heap := [0 \<mapsto> \<lparr>p_id = sid + 1, p_topic = \<lparr>t_type = SimpleStream, t_name = []\<rparr>,
       p_snapshot_handler = NullSnapshotHandler [], p_consumers = cs\<rparr>],
     consumer_heap := [1 \<mapsto> \<lparr>c_filter = \<lparr>f_type = SimpleStream, f_is_match = any_filter\<rparr>,
       c_notify = Untyped SimpleStream (\<lambda>n u. Done ())\<rparr>],
     producer_handles := [0 \<mapsto> SimpleStream], consumer_handles := [1 \<mapsto> SimpleStream]\<rparr>"

text \<open>After \<open>k\<close> iterations, with the handler calls \<open>tr\<close> so far.\<close>

definition bm_steady :: "bool \<Rightarrow> StreamID \<Rightarrow> nat \<Rightarrow> (addr \<times> NotificationImpl \<times> Notification) list \<Rightarrow> unit world" where
  "bm_steady nd sid k tr = (bm_world nd sid [1])\<lparr>producers := [0], consumers := [1], next_addr := k + 2, trace := tr\<rparr>"

lemma bm_setup_eq: "bm_setup nd sid = (0, 1, (bm_world nd sid [])\<lparr>pending_actions := [InitProducer 0, InitConsumer 1]\<rparr>)"
  by (simp add: bm_setup_def bm_world_def new_world_def client_ops)

lemma bm_first:
  "\<exists>tr. bm_iteration 0 ev (snd (snd (bm_setup nd sid))) = Some (Inr (bm_steady nd sid 1 tr)) \<and>
     map (\<lambda>x. n_kind (fst (snd x))) tr = [START_PRODUCER, EVENT]"
  by (simp add: bm_setup_eq bm_iteration_def bm_steady_def bm_world_def new_world_def client_ops do_work.simps broker_ops)

lemma bm_next:
  "\<exists>x. bm_iteration 0 ev (bm_steady nd sid k tr) = Some (Inr (bm_steady nd sid (Suc k) (tr @ [x]))) \<and>
     n_kind (fst (snd x)) = EVENT"
  by (simp add: bm_iteration_def bm_steady_def bm_world_def new_world_def client_ops do_work.simps broker_ops fun_upd_idem)

definition bm_kinds :: "nat \<Rightarrow> NotificationKind list" where
  "bm_kinds n = START_PRODUCER # replicate n EVENT"

lemma bm_loop_steady:
  assumes "map (\<lambda>x. n_kind (fst (snd x))) tr = bm_kinds k"
  shows "\<exists>tr'. bm_loop n 0 ev (bm_steady nd sid k tr) = Some (Inr (bm_steady nd sid (k + n) tr')) \<and>
     map (\<lambda>x. n_kind (fst (snd x))) tr' = bm_kinds (k + n)"
  using assms
proof (induction n arbitrary: k tr)
  case (Suc n)
  obtain x where x: "bm_iteration 0 ev (bm_steady nd sid k tr) = Some (Inr (bm_steady nd sid (Suc k) (tr @ [x])))"
    "n_kind (fst (snd x)) = EVENT" using bm_next by blast
  have "map (\<lambda>x. n_kind (fst (snd x))) (tr @ [x]) = bm_kinds (Suc k)"
    using Suc.prems x(2) by (simp add: bm_kinds_def replicate_append_same)
  from Suc.IH [OF this] x(1) show ?case by simp
qed auto

lemma bm_loop_run:
  assumes "0 < n" and "bm_setup nd sid = (p, c, b)"
  shows "\<exists>tr. bm_loop n p ev b = Some (Inr (bm_steady nd sid n tr)) \<and>
     map (\<lambda>x. n_kind (fst (snd x))) tr = bm_kinds n"
proof -
  have b: "p = 0" "b = snd (snd (bm_setup nd sid))" using assms(2) by (auto simp: bm_setup_eq)
  obtain m where m: "n = Suc m" using assms(1) by (cases n) auto
  obtain tr where tr: "bm_iteration 0 ev b = Some (Inr (bm_steady nd sid 1 tr))"
    "map (\<lambda>x. n_kind (fst (snd x))) tr = bm_kinds 1"
    using bm_first [of ev nd sid] b(2) by (auto simp: bm_kinds_def)
  from bm_loop_steady [OF tr(2), of m ev nd sid] tr(1) m b(1) show ?thesis by auto
qed

lemma alloc_benchmark_event_heap:
  "(\<And>a. next_addr b \<le> a \<Longrightarrow> event_heap b a = None) \<Longrightarrow> event_heap (alloc_benchmark n ev b) = event_heap b"
proof (induction n arbitrary: b)
  case (Suc n)
  let ?b = "free_event (next_addr b) (snd (clone_event SimpleStream ev b))"
  have "event_heap ?b = event_heap b"
    using Suc.prems by (auto simp: free_event_def clone_event_def Let_def fun_eq_iff)
  moreover have "event_heap ?b a = None" if "next_addr ?b \<le> a" for a
    using that Suc.prems by (auto simp: free_event_def clone_event_def Let_def)
  ultimately show ?case using Suc.IH [of ?b] by (simp add: clone_event_def Let_def)
qed simp

section \<open>Properties\<close>

text \<open>
  the work of the benchmark. After any number of iterations, at least one, of publish
  and \<^verbatim>\<open>do_work\<close>, the handler has been called once for the producer's start and once
  per event, the queue is empty, every event has been freed, and the broker holds the one
  producer and the one consumer, no more.
\<close>

theorem publish_benchmark_loop:
  assumes "0 < n" and "bm_setup nd sid = (p, c, b)"
  shows "\<exists>b'. bm_loop n p ev b = Some (Inr b') \<and>
    map (\<lambda>x. n_kind (fst (snd x))) (trace b') = START_PRODUCER # replicate n EVENT \<and>
    pending_actions b' = [] \<and> event_heap b' = Map.empty \<and>
    dom (producer_heap b') = {p} \<and> dom (consumer_heap b') = {c}"
proof -
  have "p = 0" "c = 1" using assms(2) by (simp_all add: bm_setup_eq)
  with bm_loop_run [OF assms, of ev] show ?thesis
    by (auto simp: bm_steady_def bm_world_def new_world_def bm_kinds_def)
qed

theorem publish_benchmark_loop_witness:
  "\<exists>b'. bm_loop 3 0 (SimpleEvent [1]) (snd (snd (bm_setup False 0))) = Some (Inr b') \<and> event_heap b' = Map.empty \<and>
     map (\<lambda>x. n_kind (fst (snd x))) (trace b') = [START_PRODUCER, EVENT, EVENT, EVENT]"
proof -
  have "bm_setup False 0 = (0, 1, snd (snd (bm_setup False 0)))" by (simp add: bm_setup_eq)
  from publish_benchmark_loop [of 3, OF _ this, of "SimpleEvent [1]"] show ?thesis by (auto simp: numeral_3_eq_3)
qed

text \<open>
  C36: the benchmark ends in undefined behaviour. At the end of the scope the
  \<^verbatim>\<open>Consumer\<close> and the \<^verbatim>\<open>Producer\<close> queue actions that are never executed, so the
  producer is still routed to the consumer when \<^verbatim>\<open>~OldBroker\<close> destroys the consumers
  before the producers: with at least one iteration, in either build mode, the destructor of
  the producer calls \<^verbatim>\<open>notify\<close> on the destroyed consumer. Without any iteration the
  scope ends cleanly.
\<close>

theorem publish_benchmark_use_after_free:
  "if 0 < n then publish_benchmark nd sid now n = Some (Inl UseAfterFree)
   else \<exists>s. publish_benchmark nd sid now n = Some (Inr s) \<and> producer_heap s = Map.empty \<and> consumer_heap s = Map.empty"
proof (cases "0 < n")
  case True
  obtain tr where "bm_loop n 0 (SimpleEvent now) ((bm_world nd sid [])\<lparr>pending_actions := [InitProducer 0, InitConsumer 1]\<rparr>) =
      Some (Inr (bm_steady nd sid n tr))"
    using bm_loop_run [OF True bm_setup_eq] by blast
  moreover have "bm_teardown 0 1 (bm_steady nd sid n tr) = Inl UseAfterFree"
    by (simp add: bm_teardown_def bm_steady_def bm_world_def new_world_def client_ops delete_OldBroker_def
        delete_ConsumerImpl_def delete_ProducerImpl_def notify_def)
  ultimately show ?thesis using True by (simp add: publish_benchmark_def bm_setup_eq)
next
  case False
  have "\<exists>s. bm_teardown 0 1 ((bm_world nd sid [])\<lparr>pending_actions := [InitProducer 0, InitConsumer 1]\<rparr>) = Inr s \<and>
      producer_heap s = Map.empty \<and> consumer_heap s = Map.empty"
    by (simp add: bm_teardown_def bm_world_def new_world_def client_ops delete_OldBroker_def
        delete_ConsumerImpl_def delete_ProducerImpl_def notify_def)
  then show ?thesis using False by (auto simp: publish_benchmark_def bm_setup_eq)
qed

text \<open>
  \<^verbatim>\<open>vg_workout\<close> runs for ever: it neither returns nor faults, and so the program,
  started with an argument, never exits by itself.
\<close>

theorem vg_workout_never_ends: "vg_workout nd sid now = None \<and> main (Suc (Suc n)) nd sid now run_benchmarks = None"
proof -
  have "vg_workout nd sid now = None"
  proof (rule ccontr)
    let ?ev = "SimpleEvent now"
    define loop_state where "loop_state = (\<lambda>b. b = snd (snd (bm_setup nd sid)) \<or> (\<exists>k tr. b = bm_steady nd sid k tr))"
    have next_state: "\<exists>b1. bm_iteration 0 ?ev b = Some (Inr b1) \<and> loop_state b1" if "loop_state b" for b
      using that bm_first [of ?ev nd sid] bm_next [of ?ev nd sid] unfolding loop_state_def by blast
    assume "vg_workout nd sid now \<noteq> None"
    then obtain r where "vg_loop 0 ?ev (snd (snd (bm_setup nd sid))) = Some r"
      by (auto simp: vg_workout_def bm_setup_eq)
    then have "0 = (0::addr) \<longrightarrow> ?ev = ?ev \<longrightarrow> \<not> loop_state (snd (snd (bm_setup nd sid)))"
    proof (rule vg_loop.raw_induct [where P = "\<lambda>p ev b r. p = 0 \<longrightarrow> ev = ?ev \<longrightarrow> \<not> loop_state b", rotated])
      fix rec p ev b r
      assume IH: "\<And>p ev b r. rec p ev b = Some r \<Longrightarrow> p = 0 \<longrightarrow> ev = ?ev \<longrightarrow> \<not> loop_state b"
        and eq: "(case bm_iteration p ev b of None \<Rightarrow> None | Some (Inl e) \<Rightarrow> Some (Inl e) | Some (Inr b1) \<Rightarrow> rec p ev b1) = Some r"
      show "p = 0 \<longrightarrow> ev = ?ev \<longrightarrow> \<not> loop_state b"
        using next_state [of b] eq IH by (auto split: option.splits sum.splits)
    qed
    then show False by (simp add: loop_state_def)
  qed
  then show ?thesis by (simp add: main_def)
qed

end
