(* ===== verification/Utils.thy ===== *)
theory Utils
  imports Prelude
begin

text \<open>
  \<^verbatim>\<open>src/lib/utils/allocators.h\<close>: \<^verbatim>\<open>keryx_allocate_unique\<close> and the deleter of the
  pointer it returns; \<^verbatim>\<open>src/lib/utils/mp_utils.h\<close>: the index of a type in a type list; and
  the loops of \<^verbatim>\<open>src/benchmarks/alloc_bm.cpp\<close> and of the \<^verbatim>\<open>alloc\<close> benchmark of
  \<^verbatim>\<open>src/main.cpp\<close>. The memory resource is Boost's: its \<^verbatim>\<open>allocate\<close> and
  \<^verbatim>\<open>deallocate\<close> are parameters, with what its documentation promises as a hypothesis.
\<close>

section \<open>Memory resources\<close>

text \<open>
  A resource in state \<open>'r\<close>: \<open>allocate\<close> may fail (\<open>None\<close>: it throws and leaves
  the resource as it was), \<open>live\<close> is its table of allocated blocks with their sizes.
\<close>

definition resource_laws ::
  "(nat \<Rightarrow> 'r \<Rightarrow> (nat \<times> 'r) option) \<Rightarrow> (nat \<Rightarrow> nat \<Rightarrow> 'r \<Rightarrow> 'r) \<Rightarrow> ('r \<Rightarrow> nat \<rightharpoonup> nat) \<Rightarrow> bool" where
  "resource_laws allocate deallocate live \<longleftrightarrow>
     (\<forall>n r p r'. allocate n r = Some (p, r') \<longrightarrow> live r p = None \<and> live r' = (live r)(p \<mapsto> n)) \<and>
     (\<forall>n r p. live r p = Some n \<longrightarrow> live (deallocate p n r) = (live r)(p := None))"

text \<open>The memory a program sees: the resource, and the objects that have been constructed.\<close>

record ('r, 'o) memory =
  rsrc :: 'r
  objects :: "nat \<rightharpoonup> 'o"

datatype 'x exception = BadAlloc | Thrown 'x

section \<open>keryx-allocate-unique and alloc-deleter\<close>

text \<open>
  \<open>construct p\<close> is the placement construction of the object at \<open>p\<close>, which may use
  the memory itself, and may throw.
\<close>

definition keryx_allocate_unique ::
  "(nat \<Rightarrow> 'r \<Rightarrow> (nat \<times> 'r) option) \<Rightarrow> (nat \<Rightarrow> nat \<Rightarrow> 'r \<Rightarrow> 'r) \<Rightarrow> nat \<Rightarrow>
   (nat \<Rightarrow> ('r, 'o) memory \<Rightarrow> ('x + 'o) \<times> ('r, 'o) memory) \<Rightarrow>
   ('r, 'o) memory \<Rightarrow> ('x exception + nat) \<times> ('r, 'o) memory" where
  "keryx_allocate_unique allocate deallocate sz construct m =
     (case allocate sz (rsrc m) of
        None \<Rightarrow> (Inl BadAlloc, m)
      | Some (p, r1) \<Rightarrow>
          (case construct p (m\<lparr>rsrc := r1\<rparr>) of
             (Inr obj, m1) \<Rightarrow> (Inr p, m1\<lparr>objects := (objects m1)(p \<mapsto> obj)\<rparr>)
           | (Inl ex, m1) \<Rightarrow> (Inl (Thrown ex), m1\<lparr>rsrc := deallocate p sz (rsrc m1)\<rparr>)))"

text \<open>\<open>destroy obj\<close> is the destructor, which may use the memory too.\<close>

definition alloc_deleter ::
  "(nat \<Rightarrow> nat \<Rightarrow> 'r \<Rightarrow> 'r) \<Rightarrow> nat \<Rightarrow> ('o \<Rightarrow> ('r, 'o) memory \<Rightarrow> ('r, 'o) memory) \<Rightarrow> nat \<Rightarrow>
   ('r, 'o) memory \<Rightarrow> ('r, 'o) memory result" where
  "alloc_deleter deallocate sz destroy p m =
     (case objects m p of
        None \<Rightarrow> Inl UseAfterFree
      | Some obj \<Rightarrow>
          (let m1 = destroy obj m;
               m2 = m1\<lparr>objects := (objects m1)(p := None)\<rparr>
           in Inr (m2\<lparr>rsrc := deallocate p sz (rsrc m2)\<rparr>)))"

text \<open>
  A constructor or destructor that gives back what it takes when it throws, and does not free
  the block it runs in.
\<close>

definition construct_laws :: "('r \<Rightarrow> nat \<rightharpoonup> nat) \<Rightarrow> (nat \<Rightarrow> ('r, 'o) memory \<Rightarrow> ('x + 'o) \<times> ('r, 'o) memory) \<Rightarrow> bool" where
  "construct_laws live construct \<longleftrightarrow>
     (\<forall>p m m1 obj. construct p m = (Inr obj, m1) \<longrightarrow> live (rsrc m1) p = live (rsrc m) p \<and> objects m1 p = objects m p) \<and>
     (\<forall>p m m1 ex. construct p m = (Inl ex, m1) \<longrightarrow> live (rsrc m1) = live (rsrc m) \<and> objects m1 = objects m)"

text \<open>
  \<^verbatim>\<open>keryx_allocate_unique\<close> does not leak. Whether the allocation fails or the
  constructor throws, the memory is what it was: the block has been given back and no object
  is left; otherwise the result is a live block of the requested size holding the object.
\<close>

theorem allocate_unique_no_leak:
  assumes "resource_laws allocate deallocate live" and "construct_laws live construct"
  shows "case keryx_allocate_unique allocate deallocate sz construct m of
      (Inl e, m') \<Rightarrow> live (rsrc m') = live (rsrc m) \<and> objects m' = objects m
    | (Inr p, m') \<Rightarrow> live (rsrc m) p = None \<and> live (rsrc m') p = Some sz \<and> objects m' p \<noteq> None"
proof (cases "allocate sz (rsrc m)")
  case None
  then show ?thesis by (simp add: keryx_allocate_unique_def)
next
  case (Some pr)
  obtain p r1 where pr: "pr = (p, r1)" by fastforce
  have r1: "live (rsrc m) p = None" "live r1 = (live (rsrc m))(p \<mapsto> sz)"
    using assms(1) Some pr unfolding resource_laws_def by blast+
  obtain res m1 where c: "construct p (m\<lparr>rsrc := r1\<rparr>) = (res, m1)" by fastforce
  show ?thesis
  proof (cases res)
    case (Inl ex)
    have "live (rsrc m1) = live r1" "objects m1 = objects m"
      using assms(2) c Inl unfolding construct_laws_def by fastforce+
    moreover from this have "live (deallocate p sz (rsrc m1)) = (live r1)(p := None)"
      using assms(1) r1 unfolding resource_laws_def by simp
    moreover have "(live r1)(p := None) = live (rsrc m)" using r1 by auto
    ultimately show ?thesis using Some pr c Inl by (simp add: keryx_allocate_unique_def)
  next
    case (Inr obj)
    have "live (rsrc m1) p = live r1 p"
      using assms(2) c Inr unfolding construct_laws_def by fastforce
    then show ?thesis using Some pr c Inr r1 by (simp add: keryx_allocate_unique_def)
  qed
qed

text \<open>A resource that hands out increasing addresses and may run out, as an instance.\<close>

definition bump_allocate :: "nat \<Rightarrow> (nat \<rightharpoonup> nat) \<times> nat \<Rightarrow> (nat \<times> (nat \<rightharpoonup> nat) \<times> nat) option" where
  "bump_allocate n r = (if fst r (snd r) = None then Some (snd r, (fst r)(snd r \<mapsto> n), Suc (snd r)) else None)"

definition bump_deallocate :: "nat \<Rightarrow> nat \<Rightarrow> (nat \<rightharpoonup> nat) \<times> nat \<Rightarrow> (nat \<rightharpoonup> nat) \<times> nat" where
  "bump_deallocate p n r = ((fst r)(p := None), snd r)"

lemma bump_laws: "resource_laws bump_allocate bump_deallocate fst"
  by (auto simp: resource_laws_def bump_allocate_def bump_deallocate_def split: if_splits)

definition throwing :: "nat \<Rightarrow> ('r, 'o) memory \<Rightarrow> (string + 'o) \<times> ('r, 'o) memory" where
  "throwing p m = (Inl ''no space'', m)"

theorem allocate_unique_no_leak_witness:
  "\<exists>m'. keryx_allocate_unique bump_allocate bump_deallocate 8 throwing
     (\<lparr>rsrc = (Map.empty, 0), objects = Map.empty\<rparr> :: ((nat \<rightharpoonup> nat) \<times> nat, unit) memory) = (Inl (Thrown ''no space''), m') \<and>
   fst (rsrc m') = Map.empty"
proof -
  let ?m = "\<lparr>rsrc = (Map.empty, 0), objects = Map.empty\<rparr> :: ((nat \<rightharpoonup> nat) \<times> nat, unit) memory"
  have "construct_laws fst (throwing :: nat \<Rightarrow> ((nat \<rightharpoonup> nat) \<times> nat, unit) memory \<Rightarrow> _)"
    by (simp add: construct_laws_def throwing_def)
  from allocate_unique_no_leak [OF bump_laws this, where m = ?m and sz = 8] show ?thesis
    by (simp add: keryx_allocate_unique_def bump_allocate_def throwing_def)
qed

text \<open>
  \<^verbatim>\<open>alloc_deleter\<close> undoes \<^verbatim>\<open>keryx_allocate_unique\<close>. When a smart pointer made by
  it goes out of scope, and constructor and destructor use no memory of their own, every block
  is as before the allocation and the object is gone.
\<close>

theorem deleter_undoes_allocate:
  assumes "resource_laws allocate deallocate live"
    and "\<And>p m. construct p m = (Inr (mk p), m)" and "\<And>obj m. destroy obj m = m"
    and "objects m = Map.empty" and "keryx_allocate_unique allocate deallocate sz construct m = (Inr p, m1)"
  shows "\<exists>m2. alloc_deleter deallocate sz destroy p m1 = Inr m2 \<and> live (rsrc m2) = live (rsrc m) \<and> objects m2 = objects m"
proof -
  obtain r1 where r1: "allocate sz (rsrc m) = Some (p, r1)" "m1 = m\<lparr>rsrc := r1, objects := (objects m)(p \<mapsto> mk p)\<rparr>"
    using assms(5) by (auto simp: keryx_allocate_unique_def assms(2) split: option.splits prod.splits)
  have l: "live (rsrc m) p = None" "live r1 = (live (rsrc m))(p \<mapsto> sz)"
    using assms(1) r1(1) unfolding resource_laws_def by blast+
  then have "live (deallocate p sz r1) = (live r1)(p := None)"
    using assms(1) unfolding resource_laws_def by simp
  also have "\<dots> = live (rsrc m)" using l by auto
  finally show ?thesis
    using r1(2) assms(4) by (simp add: alloc_deleter_def assms(3) Let_def)
qed

theorem deleter_undoes_allocate_witness:
  "\<exists>m1 m2. keryx_allocate_unique bump_allocate bump_deallocate 8 (\<lambda>p m. (Inr p, m) :: (unit + nat) \<times> _)
      \<lparr>rsrc = (Map.empty, 0), objects = Map.empty\<rparr> = (Inr 0, m1) \<and>
    alloc_deleter bump_deallocate 8 (\<lambda>obj m. m) 0 m1 = Inr m2 \<and> fst (rsrc m2) = Map.empty"
proof -
  let ?m = "\<lparr>rsrc = (Map.empty, 0), objects = Map.empty\<rparr> :: ((nat \<rightharpoonup> nat) \<times> nat, nat) memory"
  obtain m1 where m1: "keryx_allocate_unique bump_allocate bump_deallocate 8 (\<lambda>p m. (Inr p, m) :: (unit + nat) \<times> _) ?m = (Inr 0, m1)"
    by (simp add: keryx_allocate_unique_def bump_allocate_def)
  have "objects ?m = Map.empty" by simp
  from deleter_undoes_allocate [OF bump_laws _ _ this m1, where mk = id and destroy = "\<lambda>obj m. m"] m1 show ?thesis by auto
qed

section \<open>Allocation benchmarks\<close>

text \<open>
  The loops of \<^verbatim>\<open>alloc_bm.cpp\<close> that allocate and deallocate directly, over whatever
  resource; the block has room for \<^verbatim>\<open>sizeof(Item)\<close> items of \<^verbatim>\<open>sizeof(Item)\<close> bytes.
\<close>

fun alloc_bm :: "(nat \<Rightarrow> 'r \<Rightarrow> (nat \<times> 'r) option) \<Rightarrow> (nat \<Rightarrow> nat \<Rightarrow> 'r \<Rightarrow> 'r) \<Rightarrow> nat \<Rightarrow> nat \<Rightarrow> 'r \<Rightarrow> 'r option" where
  "alloc_bm allocate deallocate item 0 r = Some r"
| "alloc_bm allocate deallocate item (Suc n) r =
     (case allocate (item * item) r of
        None \<Rightarrow> None
      | Some (p, r1) \<Rightarrow> alloc_bm allocate deallocate item n (deallocate p (item * item) r1))"

lemma alloc_bm_live:
  assumes "resource_laws allocate deallocate live"
  shows "alloc_bm allocate deallocate item n r = Some r' \<Longrightarrow> live r' = live r"
proof (induction n arbitrary: r)
  case (Suc n)
  then obtain p r1 where p: "allocate (item * item) r = Some (p, r1)"
    "alloc_bm allocate deallocate item n (deallocate p (item * item) r1) = Some r'"
    by (auto split: option.splits)
  have l: "live r p = None" "live r1 = (live r)(p \<mapsto> item * item)" using assms p(1) unfolding resource_laws_def by blast+
  have "live (deallocate p (item * item) r1) = (live r1)(p := None)"
    using assms l(2) unfolding resource_laws_def by simp
  then show ?case using Suc.IH [OF p(2)] l by auto
qed simp

section \<open>The index of a type in a type list\<close>

text \<open>\<open>None\<close>: the primary template has no \<^verbatim>\<open>value\<close>, the program does not compile.\<close>

fun GetTypeIdxImp :: "int \<Rightarrow> 't \<Rightarrow> 't list \<Rightarrow> int option" where
  "GetTypeIdxImp N Target [] = None"
| "GetTypeIdxImp N Target (First # Rest) =
     (if Target = First then Some N else GetTypeIdxImp (N + 1) Target Rest)"

definition GetTypeIdx :: "'t \<Rightarrow> 't list \<Rightarrow> int option" where
  "GetTypeIdx Target TypeList = GetTypeIdxImp 0 Target TypeList"

lemma GetTypeIdxImp_Some:
  "GetTypeIdxImp N T ts = Some i \<longleftrightarrow>
     (\<exists>k<length ts. i = N + int k \<and> ts ! k = T \<and> T \<notin> set (take k ts))"
proof (induction ts arbitrary: N)
  case (Cons t ts)
  show ?case
  proof (cases "T = t")
    case True
    then show ?thesis by (force simp: nth_Cons' take_Cons' split: if_splits)
  next
    case False
    have "(\<exists>k<length (t # ts). i = N + int k \<and> (t # ts) ! k = T \<and> T \<notin> set (take k (t # ts))) \<longleftrightarrow>
        (\<exists>k<length ts. i = N + 1 + int k \<and> ts ! k = T \<and> T \<notin> set (take k ts))"
      using False by (simp add: Ex_less_Suc2 add.assoc)
    with False Cons.IH [of "N + 1"] show ?thesis by simp
  qed
qed simp

text \<open>
  \<^verbatim>\<open>GetTypeIdx\<close> is the position of the first occurrence of the type, and is defined
  exactly when the type occurs.
\<close>

theorem GetTypeIdx_first:
  "(GetTypeIdx T ts = None \<longleftrightarrow> T \<notin> set ts) \<and>
   (GetTypeIdx T ts = Some i \<longleftrightarrow> (\<exists>k<length ts. i = int k \<and> ts ! k = T \<and> T \<notin> set (take k ts)))"
proof -
  have "GetTypeIdxImp N T ts = None \<longleftrightarrow> T \<notin> set ts" for N by (induction ts arbitrary: N) auto
  then show ?thesis by (simp add: GetTypeIdx_def GetTypeIdxImp_Some)
qed

end
