(* ===== verification/Cpp_Object.thy ===== *)
theory Cpp_Object
  imports Prelude
begin

text \<open>
  The part of C++ that the vendored value wrappers (\<^verbatim>\<open>expected.hpp\<close>,
  \<^verbatim>\<open>inplace_function.h\<close>) are about: computations on objects that may throw, terminate
  or be undefined, and the operations and traits of a type that is a template parameter.
\<close>

section \<open>Computations that may throw\<close>

text \<open>
  Undefined behaviour: an access to a member of a union that is not the active one, control
  that reaches \<^verbatim>\<open>__builtin_unreachable\<close>, a call through a destroyed object; and, counted
  with it, \<open>LostObject\<close>: storage that is reused while it holds an object whose destructor is
  not trivial and is then never run.
\<close>

datatype ub = InactiveMember | LostObject | Unreachable | DeadObject

text \<open>What is thrown: by client code, by \<^verbatim>\<open>expected::value\<close>, by an empty function.\<close>

datatype 'x exn = UserExn | Bad_expected_access 'x | Bad_function_call

datatype ('s, 'x, 'a) outcome =
    Done 's 'a
  | Thrown 's "'x exn"
  | Undefined ub
  | Terminated

type_synonym ('s, 'x, 'a) act = "'s \<Rightarrow> ('s, 'x, 'a) outcome"

definition ret_a :: "'a \<Rightarrow> ('s, 'x, 'a) act" where
  "ret_a a = (\<lambda>s. Done s a)"

definition bind_a :: "('s, 'x, 'a) act \<Rightarrow> ('a \<Rightarrow> ('s, 'x, 'b) act) \<Rightarrow> ('s, 'x, 'b) act" where
  "bind_a m f = (\<lambda>s. case m s of
      Done s' a \<Rightarrow> f a s'
    | Thrown s' x \<Rightarrow> Thrown s' x
    | Undefined u \<Rightarrow> Undefined u
    | Terminated \<Rightarrow> Terminated)"

definition seq_a :: "('s, 'x, 'a) act \<Rightarrow> ('s, 'x, 'b) act \<Rightarrow> ('s, 'x, 'b) act" where
  "seq_a m n = bind_a m (\<lambda>_. n)"

text \<open>A function marked \<^verbatim>\<open>noexcept\<close>: an exception that reaches it ends the program.\<close>

definition noexcept_a :: "('s, 'x, 'a) act \<Rightarrow> ('s, 'x, 'a) act" where
  "noexcept_a m = (\<lambda>s. case m s of Thrown _ _ \<Rightarrow> Terminated | r \<Rightarrow> r)"

definition noexcept_if :: "bool \<Rightarrow> ('s, 'x, 'a) act \<Rightarrow> ('s, 'x, 'a) act" where
  "noexcept_if b m = (if b then noexcept_a m else m)"

text \<open>\<^verbatim>\<open>try { m } catch (...) { h; throw; }\<close>\<close>

definition try_rethrow :: "('s, 'x, 'a) act \<Rightarrow> ('s, 'x, unit) act \<Rightarrow> ('s, 'x, 'a) act" where
  "try_rethrow m h = (\<lambda>s. case m s of
      Thrown s' x \<Rightarrow> (case h s' of
          Done s'' _ \<Rightarrow> Thrown s'' x
        | Thrown s'' y \<Rightarrow> Thrown s'' y
        | Undefined u \<Rightarrow> Undefined u
        | Terminated \<Rightarrow> Terminated)
    | r \<Rightarrow> r)"

lemma act_simps [simp]:
  "ret_a a s = Done s a"
  "bind_a m f s = (case m s of Done s' a \<Rightarrow> f a s' | Thrown s' x \<Rightarrow> Thrown s' x
     | Undefined u \<Rightarrow> Undefined u | Terminated \<Rightarrow> Terminated)"
  "seq_a m n s = (case m s of Done s' a \<Rightarrow> n s' | Thrown s' x \<Rightarrow> Thrown s' x
     | Undefined u \<Rightarrow> Undefined u | Terminated \<Rightarrow> Terminated)"
  "noexcept_a m s = (case m s of Thrown _ _ \<Rightarrow> Terminated | r \<Rightarrow> r)"
  "noexcept_if True m = noexcept_a m"
  "noexcept_if False m = m"
  by (simp_all add: ret_a_def bind_a_def seq_a_def noexcept_a_def noexcept_if_def)

lemma try_rethrow_simp [simp]:
  "try_rethrow m h s = (case m s of
      Thrown s' x \<Rightarrow> (case h s' of Done s'' _ \<Rightarrow> Thrown s'' x | Thrown s'' y \<Rightarrow> Thrown s'' y
        | Undefined u \<Rightarrow> Undefined u | Terminated \<Rightarrow> Terminated)
    | r \<Rightarrow> r)"
  by (simp add: try_rethrow_def)

text \<open>
  \<open>act_ok Q R m\<close>: the computation ended in one of the ways C++ defines; \<open>Q\<close> holds of the
  state and the value it returned, \<open>R\<close> of the state an exception left behind.
\<close>

definition act_ok :: "('s \<Rightarrow> 'a \<Rightarrow> bool) \<Rightarrow> ('s \<Rightarrow> bool) \<Rightarrow> ('s, 'x, 'a) outcome \<Rightarrow> bool" where
  "act_ok Q R m = (case m of Done s a \<Rightarrow> Q s a | Thrown s x \<Rightarrow> R s | Undefined u \<Rightarrow> False | Terminated \<Rightarrow> True)"

lemma act_ok_simps [simp]:
  "act_ok Q R (Done s a) \<longleftrightarrow> Q s a"
  "act_ok Q R (Thrown s x) \<longleftrightarrow> R s"
  "\<not> act_ok Q R (Undefined u)"
  "act_ok Q R Terminated"
  by (simp_all add: act_ok_def)

text \<open>\<open>done_ok Q m\<close>: the computation returned, and \<open>Q\<close> holds.\<close>

definition done_ok :: "('s \<Rightarrow> 'a \<Rightarrow> bool) \<Rightarrow> ('s, 'x, 'a) outcome \<Rightarrow> bool" where
  "done_ok Q m = (case m of Done s a \<Rightarrow> Q s a | _ \<Rightarrow> False)"

lemma done_ok_simps [simp]:
  "done_ok Q (Done s a) \<longleftrightarrow> Q s a"
  "\<not> done_ok Q (Thrown s x)"
  "\<not> done_ok Q (Undefined u)"
  "\<not> done_ok Q Terminated"
  by (simp_all add: done_ok_def)

lemma done_ok_noexcept [simp]: "done_ok Q (noexcept_a m s) \<longleftrightarrow> done_ok Q (m s)"
  by (cases "m s") auto

lemma done_ok_noexcept_if [simp]: "done_ok Q (noexcept_if b m s) \<longleftrightarrow> done_ok Q (m s)"
  by (cases b; cases "m s") auto

lemma done_ok_mono:
  "done_ok Q r \<Longrightarrow> (\<And>s a. Q s a \<Longrightarrow> Q' s a) \<Longrightarrow> done_ok Q' r"
  by (cases r) auto

lemma act_ok_bind:
  "act_ok Q R (m s) \<Longrightarrow> (\<And>s' a. Q s' a \<Longrightarrow> act_ok P R (f a s')) \<Longrightarrow> act_ok P R (bind_a m f s)"
  by (cases "m s") auto

lemma act_ok_seq:
  "act_ok Q R (m s) \<Longrightarrow> (\<And>s' a. Q s' a \<Longrightarrow> act_ok P R (n s')) \<Longrightarrow> act_ok P R (seq_a m n s)"
  by (cases "m s") auto

lemma act_ok_noexcept:
  "act_ok Q R (m s) \<Longrightarrow> act_ok Q R' (noexcept_a m s)"
  by (cases "m s") auto

lemma act_ok_noexcept_if:
  "act_ok Q R (m s) \<Longrightarrow> act_ok Q R (noexcept_if b m s)"
  by (cases b; cases "m s") auto

lemma act_ok_mono:
  "act_ok Q R r \<Longrightarrow> (\<And>s a. Q s a \<Longrightarrow> Q' s a) \<Longrightarrow> (\<And>s. R s \<Longrightarrow> R' s) \<Longrightarrow> act_ok Q' R' r"
  by (cases r) auto

section \<open>Types as template parameters\<close>

text \<open>The type traits of \<^verbatim>\<open><type_traits>\<close> that the templates ask for.\<close>

record type_traits =
  is_void :: bool
  default_constructible :: bool
  copy_constructible :: bool
  move_constructible :: bool
  copy_assignable :: bool
  move_assignable :: bool
  nothrow_copy_constructible :: bool
  nothrow_move_constructible :: bool
  nothrow_move_assignable :: bool
  trivially_destructible :: bool
  trivially_copy_constructible :: bool
  trivially_move_constructible :: bool
  trivially_copy_assignable :: bool
  trivially_move_assignable :: bool

text \<open>
  The operations of a type. A constructor gives the new object, or \<open>None\<close> when it throws; a
  move constructor also gives what is left of its source. An assignment gives whether it
  returned normally and the objects afterwards.
\<close>

record 't cpp_type = type_traits +
  default_ctor :: "'t option"
  copy_ctor :: "'t \<Rightarrow> 't option"
  move_ctor :: "'t \<Rightarrow> 't option \<times> 't"
  copy_assign :: "'t \<Rightarrow> 't \<Rightarrow> bool \<times> 't"
  move_assign :: "'t \<Rightarrow> 't \<Rightarrow> bool \<times> 't \<times> 't"

text \<open>
  The value category of the expression a function is called on: \<^verbatim>\<open>&\<close>, \<^verbatim>\<open>&&\<close>,
  \<^verbatim>\<open>const &\<close>, \<^verbatim>\<open>const &&\<close>. Only \<^verbatim>\<open>&&\<close> moves: a \<^verbatim>\<open>const &&\<close> binds to the
  copy constructor.
\<close>

datatype cat = LRef | RRef | CLRef | CRRef

definition is_const_cat :: "cat \<Rightarrow> bool" where
  "is_const_cat c \<longleftrightarrow> c = CLRef \<or> c = CRRef"

text \<open>\<^verbatim>\<open>T(std::forward<Arg>(v))\<close> and \<^verbatim>\<open>l = std::forward<Arg>(v)\<close>.\<close>

definition init_from :: "cat \<Rightarrow> 't cpp_type \<Rightarrow> 't \<Rightarrow> 't option \<times> 't" where
  "init_from c T v = (if c = RRef then move_ctor T v else (copy_ctor T v, v))"

definition assign_from :: "cat \<Rightarrow> 't cpp_type \<Rightarrow> 't \<Rightarrow> 't \<Rightarrow> bool \<times> 't \<times> 't" where
  "assign_from c T l r = (if c = RRef then move_assign T l r
     else (let (ok, l') = copy_assign T l r in (ok, l', r)))"

text \<open>
  \<^verbatim>\<open>std::swap(a, b)\<close>: \<^verbatim>\<open>T t(move(a)); a = move(b); b = move(t);\<close> gives whether it returned
  normally, and both objects.
\<close>

definition std_swap :: "'t cpp_type \<Rightarrow> 't \<Rightarrow> 't \<Rightarrow> bool \<times> 't \<times> 't" where
  "std_swap T a b = (case move_ctor T a of
      (None, a1) \<Rightarrow> (False, a1, b)
    | (Some t, a1) \<Rightarrow> (case move_assign T a1 b of
        (False, a2, b1) \<Rightarrow> (False, a2, b1)
      | (True, a2, b1) \<Rightarrow> (case move_assign T b1 t of (ok, b2, t1) \<Rightarrow> (ok, a2, b2))))"

text \<open>
  \<open>regular T\<close>: copies and moves do not throw and give the value of their source. \<open>lawful T\<close>:
  what the traits say of exceptions is true.
\<close>

definition regular :: "'t cpp_type \<Rightarrow> bool" where
  "regular T \<longleftrightarrow> (\<forall>v. copy_ctor T v = Some v) \<and> (\<forall>v. fst (move_ctor T v) = Some v)
     \<and> (\<forall>l r. copy_assign T l r = (True, r))
     \<and> (\<forall>l r. fst (move_assign T l r) \<and> fst (snd (move_assign T l r)) = r)"

definition lawful :: "'t cpp_type \<Rightarrow> bool" where
  "lawful T \<longleftrightarrow> (nothrow_copy_constructible T \<longrightarrow> (\<forall>v. copy_ctor T v \<noteq> None))
     \<and> (nothrow_move_constructible T \<longrightarrow> (\<forall>v. fst (move_ctor T v) \<noteq> None))
     \<and> (nothrow_move_assignable T \<longrightarrow> (\<forall>l r. fst (move_assign T l r)))"

lemma regularD:
  assumes "regular T"
  shows "copy_ctor T v = Some v" "fst (move_ctor T v) = Some v" "copy_assign T l r = (True, r)"
    "fst (move_assign T l r)" "fst (snd (move_assign T l r)) = r"
    "fst (init_from c T v) = Some v" "fst (assign_from c T l r)" "fst (snd (assign_from c T l r)) = r"
  using assms by (simp_all add: regular_def init_from_def assign_from_def)

definition moved_from :: "cat \<Rightarrow> 't cpp_type \<Rightarrow> 't \<Rightarrow> 't" where
  "moved_from c T v = (if c = RRef then snd (move_ctor T v) else v)"

definition moved_assign :: "cat \<Rightarrow> 't cpp_type \<Rightarrow> 't \<Rightarrow> 't \<Rightarrow> 't" where
  "moved_assign c T l r = (if c = RRef then snd (snd (move_assign T l r)) else r)"

lemma regular_eqs:
  assumes "regular T"
  shows "copy_ctor T v = Some v" "move_ctor T v = (Some v, moved_from RRef T v)"
    "init_from c T v = (Some v, moved_from c T v)"
    "copy_assign T l r = (True, r)" "move_assign T l r = (True, r, moved_assign RRef T l r)"
    "assign_from c T l r = (True, r, moved_assign c T l r)"
  using assms
  by (auto simp: regular_def moved_from_def moved_assign_def init_from_def assign_from_def
      intro!: prod_eqI)

lemma moved_const [simp]:
  "c \<noteq> RRef \<Longrightarrow> moved_from c T v = v"
  "c \<noteq> RRef \<Longrightarrow> moved_assign c T l v = v"
  by (simp_all add: moved_from_def moved_assign_def)

lemma regular_lawful: "regular T \<Longrightarrow> lawful T"
  by (simp add: regular_def lawful_def)

lemma regular_swap:
  assumes "regular T"
  shows "std_swap T a b = (True, b, a)"
proof -
  obtain a1 where m: "move_ctor T a = (Some a, a1)"
    using assms by (metis regularD(2) prod.collapse)
  obtain b1 where n: "move_assign T a1 b = (True, b, b1)"
    using assms by (metis (full_types) regularD(4,5) prod.collapse)
  obtain t1 where p: "move_assign T b1 a = (True, a, t1)"
    using assms by (metis (full_types) regularD(4,5) prod.collapse)
  show ?thesis by (simp add: std_swap_def m n p)
qed

text \<open>A type like \<^verbatim>\<open>int\<close>: everything is trivial and a move is a copy.\<close>

definition scalar_type :: "'t \<Rightarrow> 't cpp_type" where
  "scalar_type d = \<lparr>is_void = False, default_constructible = True, copy_constructible = True,
     move_constructible = True, copy_assignable = True, move_assignable = True,
     nothrow_copy_constructible = True, nothrow_move_constructible = True,
     nothrow_move_assignable = True, trivially_destructible = True,
     trivially_copy_constructible = True, trivially_move_constructible = True,
     trivially_copy_assignable = True, trivially_move_assignable = True,
     default_ctor = Some d, copy_ctor = Some, move_ctor = (\<lambda>v. (Some v, v)),
     copy_assign = (\<lambda>l r. (True, r)), move_assign = (\<lambda>l r. (True, r, r))\<rparr>"

text \<open>
  A type like \<^verbatim>\<open>std::string\<close>: not trivial, a move leaves \<open>d\<close> behind, and the copy of some
  values throws.
\<close>

definition owning_type :: "'t \<Rightarrow> ('t \<Rightarrow> bool) \<Rightarrow> 't cpp_type" where
  "owning_type d bad = \<lparr>is_void = False, default_constructible = True, copy_constructible = True,
     move_constructible = True, copy_assignable = True, move_assignable = True,
     nothrow_copy_constructible = False, nothrow_move_constructible = True,
     nothrow_move_assignable = True, trivially_destructible = False,
     trivially_copy_constructible = False, trivially_move_constructible = False,
     trivially_copy_assignable = False, trivially_move_assignable = False,
     default_ctor = Some d, copy_ctor = (\<lambda>v. if bad v then None else Some v),
     move_ctor = (\<lambda>v. (Some v, d)),
     copy_assign = (\<lambda>l r. if bad r then (False, l) else (True, r)),
     move_assign = (\<lambda>l r. (True, r, d))\<rparr>"

lemma scalar_type_regular: "regular (scalar_type d)"
  by (simp add: regular_def scalar_type_def)

lemma owning_type_regular: "(\<And>v. \<not> bad v) \<Longrightarrow> regular (owning_type d bad)"
  by (simp add: regular_def owning_type_def)

lemma owning_type_lawful: "lawful (owning_type d bad)"
  by (simp add: lawful_def owning_type_def)

end
