(* ===== verification/Expected_Storage.thy ===== *)
theory Expected_Storage
  imports Cpp_Object
begin

text \<open>
  The base classes of \<^verbatim>\<open>tl::expected\<close> (\<^verbatim>\<open>externals/include/expected.hpp\<close>, namespace
  \<^verbatim>\<open>detail\<close>): the union that stores a value or an error in each of its specialisations, the
  operations on it, and the classes that choose or delete the special member functions. The
  broker's \<^verbatim>\<open>EventPtrOrError\<close> is such a type.

  An object is the union with its active member, and the flag \<^verbatim>\<open>m_has_val\<close>; the two are
  separate, as in the code, so that a flag that disagrees with the union is a state of the
  model. The argument of an operation (the right-hand side of an assignment, the arguments of
  a constructor) is the second component of the state.
\<close>

section \<open>unexpected\<close>

datatype 'e unexpected = Unexpected (m_val: 'e)

text \<open>\<^verbatim>\<open>unexpected<E>::value()\<close>; its implicit copies, moves and assignments are those of \<^verbatim>\<open>E\<close>.\<close>

definition unexpected_value :: "'e unexpected \<Rightarrow> 'e" where
  "unexpected_value u = m_val u"

definition unexpected_eq :: "'e unexpected \<Rightarrow> 'e unexpected \<Rightarrow> bool" where
  "unexpected_eq l r \<longleftrightarrow> unexpected_value l = unexpected_value r"

definition unexpected_neq :: "'e unexpected \<Rightarrow> 'e unexpected \<Rightarrow> bool" where
  "unexpected_neq l r \<longleftrightarrow> unexpected_value l \<noteq> unexpected_value r"

definition unexpected_lt :: "'e::ord unexpected \<Rightarrow> 'e unexpected \<Rightarrow> bool" where
  "unexpected_lt l r \<longleftrightarrow> unexpected_value l < unexpected_value r"

definition unexpected_le :: "'e::ord unexpected \<Rightarrow> 'e unexpected \<Rightarrow> bool" where
  "unexpected_le l r \<longleftrightarrow> unexpected_value l \<le> unexpected_value r"

definition unexpected_gt :: "'e::ord unexpected \<Rightarrow> 'e unexpected \<Rightarrow> bool" where
  "unexpected_gt l r \<longleftrightarrow> unexpected_value r < unexpected_value l"

definition unexpected_ge :: "'e::ord unexpected \<Rightarrow> 'e unexpected \<Rightarrow> bool" where
  "unexpected_ge l r \<longleftrightarrow> unexpected_value r \<le> unexpected_value l"

text \<open>
  \<^verbatim>\<open>unexpected<E>(std::forward<G>(e))\<close> gives the object, or throws, and what is left of \<^verbatim>\<open>e\<close>.
\<close>

definition make_unexpected :: "cat \<Rightarrow> 'e cpp_type \<Rightarrow> 'e \<Rightarrow> 'e unexpected option \<times> 'e" where
  "make_unexpected c E e = (let (r, e') = init_from c E e in (map_option Unexpected r, e'))"

definition unexpected_type :: "'e cpp_type \<Rightarrow> 'e unexpected cpp_type" where
  "unexpected_type E = \<lparr>is_void = False, default_constructible = False,
     copy_constructible = copy_constructible E, move_constructible = move_constructible E,
     copy_assignable = copy_assignable E, move_assignable = move_assignable E,
     nothrow_copy_constructible = nothrow_copy_constructible E,
     nothrow_move_constructible = nothrow_move_constructible E,
     nothrow_move_assignable = nothrow_move_assignable E,
     trivially_destructible = trivially_destructible E,
     trivially_copy_constructible = trivially_copy_constructible E,
     trivially_move_constructible = trivially_move_constructible E,
     trivially_copy_assignable = trivially_copy_assignable E,
     trivially_move_assignable = trivially_move_assignable E,
     default_ctor = None,
     copy_ctor = (\<lambda>u. map_option Unexpected (copy_ctor E (m_val u))),
     move_ctor = (\<lambda>u. map_prod (map_option Unexpected) Unexpected (move_ctor E (m_val u))),
     copy_assign = (\<lambda>l r. map_prod id Unexpected (copy_assign E (m_val l) (m_val r))),
     move_assign = (\<lambda>l r. map_prod id (map_prod Unexpected Unexpected)
                            (move_assign E (m_val l) (m_val r)))\<rparr>"

text \<open>\<^verbatim>\<open>detail::throw_exception\<close>, which is unreachable code in a build without exceptions.\<close>

definition throw_exception :: "bool \<Rightarrow> 'x exn \<Rightarrow> ('s, 'x, 'a) act" where
  "throw_exception exceptions_enabled x =
     (\<lambda>s. if exceptions_enabled then Thrown s x else Undefined Unreachable)"

text \<open>\<^verbatim>\<open>std::conjunction\<close>, and a trait of a type that may be \<^verbatim>\<open>void\<close>.\<close>

fun conjunction :: "bool list \<Rightarrow> bool" where
  "conjunction [] = True"
| "conjunction [b] = b"
| "conjunction (b # bs) = (if b then conjunction bs else b)"

definition is_void_or :: "'t cpp_type \<Rightarrow> bool \<Rightarrow> bool" where
  "is_void_or T b = (if is_void T then True else b)"

definition is_copy_constructible_or_void :: "'t cpp_type \<Rightarrow> bool" where
  "is_copy_constructible_or_void T = is_void_or T (copy_constructible T)"

definition is_move_constructible_or_void :: "'t cpp_type \<Rightarrow> bool" where
  "is_move_constructible_or_void T = is_void_or T (move_constructible T)"

definition is_copy_assignable_or_void :: "'t cpp_type \<Rightarrow> bool" where
  "is_copy_assignable_or_void T = is_void_or T (copy_assignable T)"

definition is_move_assignable_or_void :: "'t cpp_type \<Rightarrow> bool" where
  "is_move_assignable_or_void T = is_void_or T (move_assignable T)"

section \<open>The storage\<close>

text \<open>The active member of the union; \<open>No_init\<close> is \<^verbatim>\<open>m_no_init\<close>, \<^verbatim>\<open>m_dummy\<close> or none.\<close>

datatype ('t, 'e) member = No_init | M_val 't | M_unexpect "'e unexpected"

record ('t, 'e) exp_obj =
  m_union :: "('t, 'e) member"
  m_has_val :: bool

type_synonym ('t, 'e, 'r) exp_state = "('t, 'e) exp_obj \<times> 'r"

text \<open>Ending the lifetime of a member by a call of its destructor.\<close>

definition destroy_m_val :: "(('t, 'e, 'r) exp_state, 'x, unit) act" where
  "destroy_m_val = (\<lambda>(x, r). case m_union x of
      M_val _ \<Rightarrow> Done (x\<lparr>m_union := No_init\<rparr>, r) ()
    | _ \<Rightarrow> Undefined InactiveMember)"

definition destroy_m_unexpect :: "(('t, 'e, 'r) exp_state, 'x, unit) act" where
  "destroy_m_unexpect = (\<lambda>(x, r). case m_union x of
      M_unexpect _ \<Rightarrow> Done (x\<lparr>m_union := No_init\<rparr>, r) ()
    | _ \<Rightarrow> Undefined InactiveMember)"

text \<open>
  The constructors and the destructor of a specialisation of \<^verbatim>\<open>expected_storage_base\<close>. A
  constructor of a member is an action on the arguments; the specialisations for \<^verbatim>\<open>void\<close> have
  no constructor of a value from an \<^verbatim>\<open>initializer_list\<close>.
\<close>

record ('t, 'e, 'r, 'x) storage_base =
  sb_default :: "('r, 'x, ('t, 'e) exp_obj) act"
  sb_no_init :: "('t, 'e) exp_obj"
  sb_in_place :: "('r, 'x, 't) act \<Rightarrow> ('r, 'x, ('t, 'e) exp_obj) act"
  sb_in_place_il :: "(('r, 'x, 't) act \<Rightarrow> ('r, 'x, ('t, 'e) exp_obj) act) option"
  sb_unexpect :: "('r, 'x, 'e unexpected) act \<Rightarrow> ('r, 'x, ('t, 'e) exp_obj) act"
  sb_unexpect_il :: "('r, 'x, 'e unexpected) act \<Rightarrow> ('r, 'x, ('t, 'e) exp_obj) act"
  sb_dtor :: "(('t, 'e, 'r) exp_state, 'x, unit) act"

text \<open>The initialisers \<^verbatim>\<open>m_val(...), m_has_val(true)\<close> and \<^verbatim>\<open>m_unexpect(...), m_has_val(false)\<close>.\<close>

definition init_m_val :: "('r, 'x, 't) act \<Rightarrow> ('r, 'x, ('t, 'e) exp_obj) act" where
  "init_m_val mk = bind_a mk (\<lambda>t. ret_a \<lparr>m_union = M_val t, m_has_val = True\<rparr>)"

definition init_m_unexpect :: "('r, 'x, 'e unexpected) act \<Rightarrow> ('r, 'x, ('t, 'e) exp_obj) act" where
  "init_m_unexpect mk = bind_a mk (\<lambda>u. ret_a \<lparr>m_union = M_unexpect u, m_has_val = False\<rparr>)"

text \<open>\<^verbatim>\<open>T{}\<close>\<close>

definition value_init :: "'t cpp_type \<Rightarrow> ('r, 'x, 't) act" where
  "value_init T = (\<lambda>r. case default_ctor T of Some t \<Rightarrow> Done r t | None \<Rightarrow> Thrown r UserExn)"

text \<open>Neither \<^verbatim>\<open>T\<close> nor \<^verbatim>\<open>E\<close> is trivially destructible.\<close>

definition storage_base_ff :: "'t cpp_type \<Rightarrow> ('t, 'e, 'r, 'x) storage_base" where
  "storage_base_ff T = \<lparr>
     sb_default = init_m_val (value_init T),
     sb_no_init = \<lparr>m_union = No_init, m_has_val = False\<rparr>,
     sb_in_place = init_m_val, sb_in_place_il = Some init_m_val,
     sb_unexpect = init_m_unexpect, sb_unexpect_il = init_m_unexpect,
     sb_dtor = (\<lambda>(x, r). if m_has_val x then destroy_m_val (x, r) else destroy_m_unexpect (x, r))\<rparr>"

text \<open>Both are: the destructor is trivial.\<close>

definition storage_base_tt :: "'t cpp_type \<Rightarrow> ('t, 'e, 'r, 'x) storage_base" where
  "storage_base_tt T = \<lparr>
     sb_default = init_m_val (value_init T),
     sb_no_init = \<lparr>m_union = No_init, m_has_val = False\<rparr>,
     sb_in_place = init_m_val, sb_in_place_il = Some init_m_val,
     sb_unexpect = init_m_unexpect, sb_unexpect_il = init_m_unexpect,
     sb_dtor = (\<lambda>s. Done s ())\<rparr>"

text \<open>\<^verbatim>\<open>T\<close> is trivial, \<^verbatim>\<open>E\<close> is not.\<close>

definition storage_base_tf :: "'t cpp_type \<Rightarrow> ('t, 'e, 'r, 'x) storage_base" where
  "storage_base_tf T = \<lparr>
     sb_default = init_m_val (value_init T),
     sb_no_init = \<lparr>m_union = No_init, m_has_val = False\<rparr>,
     sb_in_place = init_m_val, sb_in_place_il = Some init_m_val,
     sb_unexpect = init_m_unexpect, sb_unexpect_il = init_m_unexpect,
     sb_dtor = (\<lambda>(x, r). if \<not> m_has_val x then destroy_m_unexpect (x, r) else Done (x, r) ())\<rparr>"

text \<open>\<^verbatim>\<open>E\<close> is trivial, \<^verbatim>\<open>T\<close> is not.\<close>

definition storage_base_ft :: "'t cpp_type \<Rightarrow> ('t, 'e, 'r, 'x) storage_base" where
  "storage_base_ft T = \<lparr>
     sb_default = init_m_val (value_init T),
     sb_no_init = \<lparr>m_union = No_init, m_has_val = False\<rparr>,
     sb_in_place = init_m_val, sb_in_place_il = Some init_m_val,
     sb_unexpect = init_m_unexpect, sb_unexpect_il = init_m_unexpect,
     sb_dtor = (\<lambda>(x, r). if m_has_val x then destroy_m_val (x, r) else Done (x, r) ())\<rparr>"

text \<open>\<^verbatim>\<open>T\<close> is \<^verbatim>\<open>void\<close>, \<^verbatim>\<open>E\<close> is trivially destructible.\<close>

definition storage_base_void_t :: "('t, 'e, 'r, 'x) storage_base" where
  "storage_base_void_t = \<lparr>
     sb_default = ret_a \<lparr>m_union = No_init, m_has_val = True\<rparr>,
     sb_no_init = \<lparr>m_union = No_init, m_has_val = False\<rparr>,
     sb_in_place = (\<lambda>_. ret_a \<lparr>m_union = No_init, m_has_val = True\<rparr>), sb_in_place_il = None,
     sb_unexpect = init_m_unexpect, sb_unexpect_il = init_m_unexpect,
     sb_dtor = (\<lambda>s. Done s ())\<rparr>"

text \<open>\<^verbatim>\<open>T\<close> is \<^verbatim>\<open>void\<close>, \<^verbatim>\<open>E\<close> is not trivially destructible.\<close>

definition storage_base_void_f :: "('t, 'e, 'r, 'x) storage_base" where
  "storage_base_void_f = \<lparr>
     sb_default = ret_a \<lparr>m_union = No_init, m_has_val = True\<rparr>,
     sb_no_init = \<lparr>m_union = No_init, m_has_val = False\<rparr>,
     sb_in_place = (\<lambda>_. ret_a \<lparr>m_union = No_init, m_has_val = True\<rparr>), sb_in_place_il = None,
     sb_unexpect = init_m_unexpect, sb_unexpect_il = init_m_unexpect,
     sb_dtor = (\<lambda>(x, r). if \<not> m_has_val x then destroy_m_unexpect (x, r) else Done (x, r) ())\<rparr>"

text \<open>The specialisation that the types select.\<close>

definition storage_base :: "'t cpp_type \<Rightarrow> 'e cpp_type \<Rightarrow> ('t, 'e, 'r, 'x) storage_base" where
  "storage_base T E =
     (if is_void T then (if trivially_destructible E then storage_base_void_t else storage_base_void_f)
      else if trivially_destructible T
        then (if trivially_destructible E then storage_base_tt T else storage_base_tf T)
        else (if trivially_destructible E then storage_base_ft T else storage_base_ff T))"

lemmas storage_base_defs = storage_base_def storage_base_ff_def storage_base_tt_def
  storage_base_tf_def storage_base_ft_def storage_base_void_t_def storage_base_void_f_def

section \<open>Operations on the storage\<close>

text \<open>
  The storage of a new member. A union that still holds an object with a destructor that
  matters loses it.
\<close>

definition holds_nontrivial :: "'t cpp_type \<Rightarrow> 'e cpp_type \<Rightarrow> ('t, 'e) exp_obj \<Rightarrow> bool" where
  "holds_nontrivial T E x = (case m_union x of
      No_init \<Rightarrow> False
    | M_val _ \<Rightarrow> \<not> trivially_destructible T
    | M_unexpect _ \<Rightarrow> \<not> trivially_destructible E)"

definition claim_storage :: "'t cpp_type \<Rightarrow> 'e cpp_type \<Rightarrow> (('t, 'e, 'r) exp_state, 'x, unit) act" where
  "claim_storage T E = (\<lambda>(x, r). if holds_nontrivial T E x then Undefined LostObject
     else Done (x\<lparr>m_union := No_init\<rparr>, r) ())"

text \<open>\<^verbatim>\<open>new (addressof(m_val)) T(...); m_has_val = true\<close>, and the same for the error.\<close>

definition new_m_val ::
    "'t cpp_type \<Rightarrow> 'e cpp_type \<Rightarrow> (('t, 'e, 'r) exp_state, 'x, 't) act \<Rightarrow>
     (('t, 'e, 'r) exp_state, 'x, unit) act" where
  "new_m_val T E mk = seq_a (claim_storage T E)
     (bind_a mk (\<lambda>t (x, r). Done (x\<lparr>m_union := M_val t, m_has_val := True\<rparr>, r) ()))"

definition new_m_unexpect ::
    "'t cpp_type \<Rightarrow> 'e cpp_type \<Rightarrow> (('t, 'e, 'r) exp_state, 'x, 'e unexpected) act \<Rightarrow>
     (('t, 'e, 'r) exp_state, 'x, unit) act" where
  "new_m_unexpect T E mk = seq_a (claim_storage T E)
     (bind_a mk (\<lambda>u (x, r). Done (x\<lparr>m_union := M_unexpect u, m_has_val := False\<rparr>, r) ()))"

definition construct ::
    "'t cpp_type \<Rightarrow> 'e cpp_type \<Rightarrow> (('t, 'e, 'r) exp_state, 'x, 't) act \<Rightarrow>
     (('t, 'e, 'r) exp_state, 'x, unit) act" where
  "construct T E mk = noexcept_a (new_m_val T E mk)"

definition construct_error ::
    "'t cpp_type \<Rightarrow> 'e cpp_type \<Rightarrow> (('t, 'e, 'r) exp_state, 'x, 'e unexpected) act \<Rightarrow>
     (('t, 'e, 'r) exp_state, 'x, unit) act" where
  "construct_error T E mk = noexcept_a (new_m_unexpect T E mk)"

text \<open>The accessors \<^verbatim>\<open>get\<close> and \<^verbatim>\<open>geterr\<close>; \<open>None\<close> is an inactive member.\<close>

definition op_get :: "('t, 'e) exp_obj \<Rightarrow> 't option" where
  "op_get x = (case m_union x of M_val t \<Rightarrow> Some t | _ \<Rightarrow> None)"

definition op_geterr :: "('t, 'e) exp_obj \<Rightarrow> 'e unexpected option" where
  "op_geterr x = (case m_union x of M_unexpect u \<Rightarrow> Some u | _ \<Rightarrow> None)"

text \<open>
  A constructor called on \<^verbatim>\<open>std::forward<Rhs>(rhs).get()\<close>, and on \<^verbatim>\<open>geterr()\<close>: the source is
  the second object of the state.
\<close>

definition ctor_get ::
    "cat \<Rightarrow> 't cpp_type \<Rightarrow> (('t, 'e, ('t, 'e) exp_obj) exp_state, 'x, 't) act" where
  "ctor_get c T = (\<lambda>(x, rhs). case op_get rhs of
      None \<Rightarrow> Undefined InactiveMember
    | Some v \<Rightarrow> (case init_from c T v of
        (Some t, v') \<Rightarrow> Done (x, rhs\<lparr>m_union := M_val v'\<rparr>) t
      | (None, v') \<Rightarrow> Thrown (x, rhs\<lparr>m_union := M_val v'\<rparr>) UserExn))"

definition ctor_geterr ::
    "cat \<Rightarrow> 'e cpp_type \<Rightarrow> (('t, 'e, ('t, 'e) exp_obj) exp_state, 'x, 'e unexpected) act" where
  "ctor_geterr c E = (\<lambda>(x, rhs). case op_geterr rhs of
      None \<Rightarrow> Undefined InactiveMember
    | Some v \<Rightarrow> (case init_from c (unexpected_type E) v of
        (Some t, v') \<Rightarrow> Done (x, rhs\<lparr>m_union := M_unexpect v'\<rparr>) t
      | (None, v') \<Rightarrow> Thrown (x, rhs\<lparr>m_union := M_unexpect v'\<rparr>) UserExn))"

text \<open>\<^verbatim>\<open>get() = std::forward<Rhs>(rhs).get()\<close>, and the same for \<^verbatim>\<open>geterr()\<close>.\<close>

definition assign_get ::
    "cat \<Rightarrow> 't cpp_type \<Rightarrow> (('t, 'e, ('t, 'e) exp_obj) exp_state, 'x, unit) act" where
  "assign_get c T = (\<lambda>(x, rhs). case (op_get x, op_get rhs) of
      (Some l, Some v) \<Rightarrow> (case assign_from c T l v of
        (ok, l', v') \<Rightarrow>
          (let s = (x\<lparr>m_union := M_val l'\<rparr>, rhs\<lparr>m_union := M_val v'\<rparr>)
           in if ok then Done s () else Thrown s UserExn))
    | _ \<Rightarrow> Undefined InactiveMember)"

definition assign_geterr ::
    "cat \<Rightarrow> 'e cpp_type \<Rightarrow> (('t, 'e, ('t, 'e) exp_obj) exp_state, 'x, unit) act" where
  "assign_geterr c E = (\<lambda>(x, rhs). case (op_geterr x, op_geterr rhs) of
      (Some l, Some v) \<Rightarrow> (case assign_from c (unexpected_type E) l v of
        (ok, l', v') \<Rightarrow>
          (let s = (x\<lparr>m_union := M_unexpect l'\<rparr>, rhs\<lparr>m_union := M_unexpect v'\<rparr>)
           in if ok then Done s () else Thrown s UserExn))
    | _ \<Rightarrow> Undefined InactiveMember)"

definition construct_with ::
    "cat \<Rightarrow> 't cpp_type \<Rightarrow> 'e cpp_type \<Rightarrow> (('t, 'e, ('t, 'e) exp_obj) exp_state, 'x, unit) act" where
  "construct_with c T E = noexcept_a (new_m_val T E (ctor_get c T))"

text \<open>\<^verbatim>\<open>auto tmp = std::move(geterr())\<close> and \<^verbatim>\<open>geterr() = std::move(tmp)\<close>.\<close>

definition move_geterr_out :: "'e cpp_type \<Rightarrow> (('t, 'e, 'r) exp_state, 'x, 'e unexpected) act" where
  "move_geterr_out E = (\<lambda>(x, r). case op_geterr x of
      None \<Rightarrow> Undefined InactiveMember
    | Some v \<Rightarrow> (case move_ctor (unexpected_type E) v of
        (Some t, v') \<Rightarrow> Done (x\<lparr>m_union := M_unexpect v'\<rparr>, r) t
      | (None, v') \<Rightarrow> Thrown (x\<lparr>m_union := M_unexpect v'\<rparr>, r) UserExn))"

definition move_geterr_back ::
    "'e cpp_type \<Rightarrow> 'e unexpected \<Rightarrow> (('t, 'e, 'r) exp_state, 'x, unit) act" where
  "move_geterr_back E tmp = (\<lambda>(x, r). case op_geterr x of
      None \<Rightarrow> Undefined InactiveMember
    | Some l \<Rightarrow> (case move_assign (unexpected_type E) l tmp of
        (ok, l', tmp') \<Rightarrow> (if ok then Done (x\<lparr>m_union := M_unexpect l'\<rparr>, r) ()
                           else Thrown (x\<lparr>m_union := M_unexpect l'\<rparr>, r) UserExn)))"

end
