(* ===== verification/Expected_Base.thy ===== *)
theory Expected_Base
  imports Expected_Storage
begin

text \<open>
  The rest of the base classes of \<^verbatim>\<open>tl::expected\<close>: the overloads of \<^verbatim>\<open>assign\<close>, the void
  specialisation, copy and move construction and assignment, and the deletion of special
  members. The invariant \<open>exp_wf\<close> ties the flag to the active member of the union.
\<close>

section \<open>The overloads of assign\<close>

text \<open>The state of an operation with another \<^verbatim>\<open>expected\<close> of the same type as argument.\<close>

type_synonym ('t, 'e) exp_pair = "('t, 'e, ('t, 'e) exp_obj) exp_state"

definition assign_common ::
    "cat \<Rightarrow> 't cpp_type \<Rightarrow> 'e cpp_type \<Rightarrow> (('t, 'e) exp_pair, 'x, unit) act" where
  "assign_common c T E = (\<lambda>(x, rhs).
     if m_has_val x then
       (if m_has_val rhs then assign_get c T (x, rhs)
        else seq_a destroy_m_val (construct_error T E (ctor_geterr c E)) (x, rhs))
     else
       (if \<not> m_has_val rhs then assign_geterr c E (x, rhs) else Done (x, rhs) ()))"

text \<open>Copies, by what \<^verbatim>\<open>T\<close> can do without throwing.\<close>

definition assign_copy_nothrow ::
    "'t cpp_type \<Rightarrow> 'e cpp_type \<Rightarrow> (('t, 'e) exp_pair, 'x, unit) act" where
  "assign_copy_nothrow T E = noexcept_a (\<lambda>(x, rhs).
     if \<not> m_has_val x \<and> m_has_val rhs
     then seq_a destroy_m_unexpect (construct T E (ctor_get CLRef T)) (x, rhs)
     else assign_common CLRef T E (x, rhs))"

definition assign_copy_nothrow_move ::
    "'t cpp_type \<Rightarrow> 'e cpp_type \<Rightarrow> (('t, 'e) exp_pair, 'x, unit) act" where
  "assign_copy_nothrow_move T E = noexcept_a (\<lambda>(x, rhs).
     if \<not> m_has_val x \<and> m_has_val rhs
     then bind_a (ctor_get CLRef T) (\<lambda>tmp.
            seq_a destroy_m_unexpect
              (construct T E (\<lambda>s. case fst (move_ctor T tmp) of
                  Some t \<Rightarrow> Done s t | None \<Rightarrow> Thrown s UserExn))) (x, rhs)
     else assign_common CLRef T E (x, rhs))"

definition assign_copy_throwing ::
    "'t cpp_type \<Rightarrow> 'e cpp_type \<Rightarrow> (('t, 'e) exp_pair, 'x, unit) act" where
  "assign_copy_throwing T E = (\<lambda>(x, rhs).
     if \<not> m_has_val x \<and> m_has_val rhs
     then bind_a (move_geterr_out E) (\<lambda>tmp. seq_a destroy_m_unexpect
            (try_rethrow (construct T E (ctor_get CLRef T)) (move_geterr_back E tmp))) (x, rhs)
     else assign_common CLRef T E (x, rhs))"

text \<open>Moves.\<close>

definition assign_move_nothrow ::
    "'t cpp_type \<Rightarrow> 'e cpp_type \<Rightarrow> (('t, 'e) exp_pair, 'x, unit) act" where
  "assign_move_nothrow T E = noexcept_a (\<lambda>(x, rhs).
     if \<not> m_has_val x \<and> m_has_val rhs
     then seq_a destroy_m_unexpect (construct T E (ctor_get RRef T)) (x, rhs)
     else assign_common RRef T E (x, rhs))"

definition assign_move_throwing ::
    "'t cpp_type \<Rightarrow> 'e cpp_type \<Rightarrow> (('t, 'e) exp_pair, 'x, unit) act" where
  "assign_move_throwing T E = (\<lambda>(x, rhs).
     if \<not> m_has_val x \<and> m_has_val rhs
     then bind_a (move_geterr_out E) (\<lambda>tmp. seq_a destroy_m_unexpect
            (try_rethrow (construct T E (ctor_get RRef T)) (move_geterr_back E tmp))) (x, rhs)
     else assign_common RRef T E (x, rhs))"

text \<open>
  In a build without exceptions there is one overload of each; the one for moves hands
  \<^verbatim>\<open>assign_common\<close> its argument as an lvalue.
\<close>

definition assign_copy_noexceptions ::
    "'t cpp_type \<Rightarrow> 'e cpp_type \<Rightarrow> (('t, 'e) exp_pair, 'x, unit) act" where
  "assign_copy_noexceptions T E = noexcept_a (\<lambda>(x, rhs).
     if \<not> m_has_val x \<and> m_has_val rhs
     then seq_a destroy_m_unexpect (construct T E (ctor_get CLRef T)) (x, rhs)
     else assign_common CLRef T E (x, rhs))"

definition assign_move_noexceptions ::
    "'t cpp_type \<Rightarrow> 'e cpp_type \<Rightarrow> (('t, 'e) exp_pair, 'x, unit) act" where
  "assign_move_noexceptions T E = noexcept_a (\<lambda>(x, rhs).
     if \<not> m_has_val x \<and> m_has_val rhs
     then seq_a destroy_m_unexpect (construct T E (ctor_get RRef T)) (x, rhs)
     else assign_common LRef T E (x, rhs))"

section \<open>The void specialisation\<close>

definition construct_void :: "(('t, 'e, 'r) exp_state, 'x, unit) act" where
  "construct_void = (\<lambda>(x, r). Done (x\<lparr>m_has_val := True\<rparr>, r) ())"

definition construct_with_void :: "(('t, 'e, 'r) exp_state, 'x, unit) act" where
  "construct_with_void = (\<lambda>(x, r). Done (x\<lparr>m_has_val := True\<rparr>, r) ())"

definition construct_error_void ::
    "'t cpp_type \<Rightarrow> 'e cpp_type \<Rightarrow> (('t, 'e, 'r) exp_state, 'x, 'e unexpected) act \<Rightarrow>
     (('t, 'e, 'r) exp_state, 'x, unit) act" where
  "construct_error_void T E mk = noexcept_a (new_m_unexpect T E mk)"

definition assign_void ::
    "cat \<Rightarrow> 't cpp_type \<Rightarrow> 'e cpp_type \<Rightarrow> (('t, 'e) exp_pair, 'x, unit) act" where
  "assign_void c T E = noexcept_a (\<lambda>(x, rhs).
     if \<not> m_has_val x then
       (if m_has_val rhs then seq_a destroy_m_unexpect construct_void (x, rhs)
        else assign_geterr c E (x, rhs))
     else
       (if \<not> m_has_val rhs then construct_error_void T E (ctor_geterr c E) (x, rhs)
        else Done (x, rhs) ()))"

text \<open>The overload of \<^verbatim>\<open>assign\<close> that is called.\<close>

definition assign ::
    "bool \<Rightarrow> cat \<Rightarrow> 't cpp_type \<Rightarrow> 'e cpp_type \<Rightarrow> (('t, 'e) exp_pair, 'x, unit) act" where
  "assign exceptions_enabled c T E =
     (if is_void T then assign_void c T E
      else if \<not> exceptions_enabled
        then (if c = RRef then assign_move_noexceptions T E else assign_copy_noexceptions T E)
      else if c = RRef
        then (if nothrow_move_constructible T then assign_move_nothrow T E else assign_move_throwing T E)
      else if nothrow_copy_constructible T then assign_copy_nothrow T E
      else if nothrow_move_constructible T then assign_copy_nothrow_move T E
      else assign_copy_throwing T E)"

section \<open>Special members\<close>

text \<open>
  The constructors start from \<^verbatim>\<open>no_init\<close>; a trivial one copies the bytes. For \<^verbatim>\<open>void\<close> the
  functions of the specialisation are called.
\<close>

definition construct_from_rhs ::
    "cat \<Rightarrow> 't cpp_type \<Rightarrow> 'e cpp_type \<Rightarrow> (('t, 'e) exp_pair, 'x, unit) act" where
  "construct_from_rhs c T E = (\<lambda>(x, rhs).
     if m_has_val rhs
     then (if is_void T then construct_with_void else construct_with c T E) (x, rhs)
     else (if is_void T then construct_error_void T E (ctor_geterr c E)
           else construct_error T E (ctor_geterr c E)) (x, rhs))"

definition no_init_obj :: "('t, 'e) exp_obj" where
  "no_init_obj = \<lparr>m_union = No_init, m_has_val = False\<rparr>"

definition trivial_transfer :: "(('t, 'e) exp_pair, 'x, unit) act" where
  "trivial_transfer = (\<lambda>(x, rhs). Done (rhs, rhs) ())"

definition copy_base ::
    "'t cpp_type \<Rightarrow> 'e cpp_type \<Rightarrow> (('t, 'e) exp_pair, 'x, unit) act" where
  "copy_base T E = (if is_void_or T (trivially_copy_constructible T) \<and> trivially_copy_constructible E
     then trivial_transfer
     else (\<lambda>(x, rhs). construct_from_rhs CLRef T E (no_init_obj, rhs)))"

definition move_base ::
    "'t cpp_type \<Rightarrow> 'e cpp_type \<Rightarrow> (('t, 'e) exp_pair, 'x, unit) act" where
  "move_base T E = (if is_void_or T (trivially_move_constructible T) \<and> trivially_move_constructible E
     then trivial_transfer
     else noexcept_if (nothrow_move_constructible T)
            (\<lambda>(x, rhs). construct_from_rhs RRef T E (no_init_obj, rhs)))"

definition copy_assign_base ::
    "bool \<Rightarrow> 't cpp_type \<Rightarrow> 'e cpp_type \<Rightarrow> (('t, 'e) exp_pair, 'x, unit) act" where
  "copy_assign_base exceptions_enabled T E =
     (if is_void_or T (conjunction [trivially_copy_assignable T, trivially_copy_constructible T,
                                    trivially_destructible T])
         \<and> trivially_copy_assignable E \<and> trivially_copy_constructible E \<and> trivially_destructible E
      then trivial_transfer else assign exceptions_enabled CLRef T E)"

definition move_assign_base ::
    "bool \<Rightarrow> 't cpp_type \<Rightarrow> 'e cpp_type \<Rightarrow> (('t, 'e) exp_pair, 'x, unit) act" where
  "move_assign_base exceptions_enabled T E =
     (if is_void_or T (conjunction [trivially_destructible T, trivially_move_constructible T,
                                    trivially_move_assignable T])
         \<and> trivially_destructible E \<and> trivially_move_constructible E \<and> trivially_move_assignable E
      then trivial_transfer
      else noexcept_if (nothrow_move_constructible T \<and> nothrow_move_assignable T)
             (assign exceptions_enabled RRef T E))"

text \<open>Which special members a class has; a derived class has those that all its bases have.\<close>

record special_members =
  has_default_ctor :: bool
  has_copy_ctor :: bool
  has_move_ctor :: bool
  has_copy_assign :: bool
  has_move_assign :: bool

definition delete_ctor_base :: "'t cpp_type \<Rightarrow> 'e cpp_type \<Rightarrow> special_members" where
  "delete_ctor_base T E =
     (let EnableCopy = is_copy_constructible_or_void T \<and> copy_constructible E;
          EnableMove = is_move_constructible_or_void T \<and> move_constructible E
      in \<lparr>has_default_ctor = True, has_copy_ctor = EnableCopy, has_move_ctor = EnableMove,
          has_copy_assign = True, has_move_assign = True\<rparr>)"

definition delete_assign_base :: "'t cpp_type \<Rightarrow> 'e cpp_type \<Rightarrow> special_members" where
  "delete_assign_base T E =
     (let EnableCopy = is_copy_constructible_or_void T \<and> copy_constructible E
            \<and> is_copy_assignable_or_void T \<and> copy_assignable E;
          EnableMove = is_move_constructible_or_void T \<and> move_constructible E
            \<and> is_move_assignable_or_void T \<and> move_assignable E
      in \<lparr>has_default_ctor = True, has_copy_ctor = True, has_move_ctor = True,
          has_copy_assign = EnableCopy, has_move_assign = EnableMove\<rparr>)"

definition default_ctor_base :: "'t cpp_type \<Rightarrow> special_members" where
  "default_ctor_base T =
     \<lparr>has_default_ctor = default_constructible T \<or> is_void T, has_copy_ctor = True,
      has_move_ctor = True, has_copy_assign = True, has_move_assign = True\<rparr>"

definition derived_members :: "special_members list \<Rightarrow> special_members" where
  "derived_members bs =
     \<lparr>has_default_ctor = list_all has_default_ctor bs, has_copy_ctor = list_all has_copy_ctor bs,
      has_move_ctor = list_all has_move_ctor bs, has_copy_assign = list_all has_copy_assign bs,
      has_move_assign = list_all has_move_assign bs\<rparr>"

section \<open>Well-formed objects\<close>

text \<open>The flag agrees with the active member. With \<^verbatim>\<open>void\<close> a value has no member of its own.\<close>

definition exp_wf :: "'t cpp_type \<Rightarrow> ('t, 'e) exp_obj \<Rightarrow> bool" where
  "exp_wf T x = (case m_union x of
      No_init \<Rightarrow> is_void T \<and> m_has_val x
    | M_val _ \<Rightarrow> \<not> is_void T \<and> m_has_val x
    | M_unexpect _ \<Rightarrow> \<not> m_has_val x)"

text \<open>The value or the error that the object stands for.\<close>

definition exp_abs :: "('t, 'e) exp_obj \<Rightarrow> 'e + 't option" where
  "exp_abs x = (case m_union x of
      No_init \<Rightarrow> Inr None
    | M_val t \<Rightarrow> Inr (Some t)
    | M_unexpect u \<Rightarrow> Inl (m_val u))"

lemma exp_wf_cases:
  assumes "exp_wf T x"
  obtains (val) t where "x = \<lparr>m_union = M_val t, m_has_val = True\<rparr>" "\<not> is_void T"
  | (void) "x = \<lparr>m_union = No_init, m_has_val = True\<rparr>" "is_void T"
  | (err) u where "x = \<lparr>m_union = M_unexpect u, m_has_val = False\<rparr>"
  using assms by (cases x; cases "m_union x") (auto simp: exp_wf_def)

lemma exp_wf_simps [simp]:
  "exp_wf T \<lparr>m_union = M_val t, m_has_val = b\<rparr> \<longleftrightarrow> \<not> is_void T \<and> b"
  "exp_wf T \<lparr>m_union = No_init, m_has_val = b\<rparr> \<longleftrightarrow> is_void T \<and> b"
  "exp_wf T \<lparr>m_union = M_unexpect u, m_has_val = b\<rparr> \<longleftrightarrow> \<not> b"
  by (simp_all add: exp_wf_def)

lemma exp_abs_simps [simp]:
  "exp_abs \<lparr>m_union = M_val t, m_has_val = b\<rparr> = Inr (Some t)"
  "exp_abs \<lparr>m_union = No_init, m_has_val = b\<rparr> = Inr None"
  "exp_abs \<lparr>m_union = M_unexpect u, m_has_val = b\<rparr> = Inl (m_val u)"
  by (simp_all add: exp_abs_def)

lemma op_get_simps [simp]:
  "op_get \<lparr>m_union = M_val t, m_has_val = b\<rparr> = Some t"
  "op_get \<lparr>m_union = No_init, m_has_val = b\<rparr> = None"
  "op_get \<lparr>m_union = M_unexpect u, m_has_val = b\<rparr> = None"
  "op_geterr \<lparr>m_union = M_val t, m_has_val = b\<rparr> = None"
  "op_geterr \<lparr>m_union = No_init, m_has_val = b\<rparr> = None"
  "op_geterr \<lparr>m_union = M_unexpect u, m_has_val = b\<rparr> = Some u"
  by (simp_all add: op_get_def op_geterr_def)

section \<open>Assignments and special members\<close>

named_theorems exp_ops \<open>definitions that run an operation on a concrete object\<close>

lemmas exp_storage_ops [exp_ops] = destroy_m_val_def destroy_m_unexpect_def claim_storage_def
  new_m_val_def new_m_unexpect_def construct_def construct_error_def construct_with_def
  ctor_get_def ctor_geterr_def assign_get_def assign_geterr_def move_geterr_out_def
  move_geterr_back_def holds_nontrivial_def Let_def

lemmas exp_assign_ops = assign_common_def assign_copy_nothrow_def assign_copy_nothrow_move_def
  assign_copy_throwing_def assign_move_nothrow_def assign_move_throwing_def
  assign_copy_noexceptions_def assign_move_noexceptions_def assign_void_def
  construct_void_def construct_with_void_def construct_error_void_def

definition wf_pair :: "'t cpp_type \<Rightarrow> ('t, 'e) exp_pair \<Rightarrow> bool" where
  "wf_pair T s \<longleftrightarrow> exp_wf T (fst s) \<and> exp_wf T (snd s)"

lemma assign_common_ok:
  assumes "exp_wf T x" "exp_wf T y" "\<not> is_void T" "m_has_val x \<or> \<not> m_has_val y"
  shows "act_ok (\<lambda>s _. wf_pair T s) (wf_pair T) (assign_common c T E (x, y))"
  using assms by (elim exp_wf_cases)
    (auto simp: exp_ops assign_common_def wf_pair_def split: option.splits prod.splits)

lemma assign_ok:
  assumes "exp_wf T x" "exp_wf T y"
  shows "act_ok (\<lambda>s _. wf_pair T s) (wf_pair T) (assign exc c T E (x, y))"
proof (cases "is_void T")
  case True
  then show ?thesis using assms by (elim exp_wf_cases)
    (auto simp: exp_ops exp_assign_ops assign_def wf_pair_def split: option.splits prod.splits)
next
  case False
  note common = assign_common_ok [OF assms False]
  show ?thesis
  proof (cases "\<not> m_has_val x \<and> m_has_val y")
    case True
    then show ?thesis using assms False by (elim exp_wf_cases)
      (auto simp: exp_ops exp_assign_ops assign_def wf_pair_def split: option.splits prod.splits)
  next
    case hv: False
    then have "act_ok (\<lambda>s _. wf_pair T s) (wf_pair T) (assign_common c' T E (x, y))" for c'
      using assign_common_ok [OF assms False] by blast
    then show ?thesis using hv False
      by (auto simp: assign_def assign_copy_nothrow_def assign_copy_nothrow_move_def
        assign_copy_throwing_def assign_move_nothrow_def assign_move_throwing_def
        assign_copy_noexceptions_def assign_move_noexceptions_def
        simp del: act_simps intro!: act_ok_noexcept)
  qed
qed

text \<open>With types whose copies and moves succeed, the target takes the value of the source.\<close>

lemma regular_unexpected: "regular E \<Longrightarrow> regular (unexpected_type E)"
  by (auto simp: regular_def unexpected_type_def split: prod.splits)

definition takes_value ::
    "cat \<Rightarrow> 't cpp_type \<Rightarrow> ('t, 'e) exp_obj \<Rightarrow> ('t, 'e) exp_pair \<Rightarrow> bool" where
  "takes_value c T y s \<longleftrightarrow> wf_pair T s \<and> exp_abs (fst s) = exp_abs y \<and> (c \<noteq> RRef \<longrightarrow> snd s = y)
     \<and> m_has_val (snd s) = m_has_val y"

lemma assign_takes_value:
  assumes "exp_wf T x" "exp_wf T y" and reg: "regular T" "regular E"
  shows "done_ok (\<lambda>s _. takes_value c T y s) (assign exc c T E (x, y))"
proof -
  note [simp] = regular_eqs [OF reg(1)] regular_eqs [OF regular_unexpected [OF reg(2)]]
  show ?thesis
    using assms(1,2) by (elim exp_wf_cases)
      (auto simp: exp_ops exp_assign_ops assign_def wf_pair_def takes_value_def)
qed

lemma construct_from_rhs_ok:
  assumes "exp_wf T y"
  shows "act_ok (\<lambda>s _. wf_pair T s) R (construct_from_rhs c T E (no_init_obj, y))"
  using assms by (elim exp_wf_cases)
    (auto simp: exp_ops exp_assign_ops construct_from_rhs_def no_init_obj_def wf_pair_def
      split: option.splits prod.splits)

lemma construct_from_rhs_takes_value:
  assumes "exp_wf T y" and reg: "regular T" "regular E"
  shows "done_ok (\<lambda>s _. takes_value c T y s) (construct_from_rhs c T E (no_init_obj, y))"
proof -
  note [simp] = regular_eqs [OF reg(1)] regular_eqs [OF regular_unexpected [OF reg(2)]]
  show ?thesis
    using assms(1) by (elim exp_wf_cases)
      (auto simp: exp_ops exp_assign_ops construct_from_rhs_def no_init_obj_def wf_pair_def
        takes_value_def)
qed

lemma trivial_transfer_ok:
  "exp_wf T y \<Longrightarrow> act_ok (\<lambda>s _. wf_pair T s) R (trivial_transfer (x, y))"
  by (simp add: trivial_transfer_def wf_pair_def)

lemma trivial_transfer_takes_value:
  "exp_wf T y \<Longrightarrow> done_ok (\<lambda>s _. takes_value c T y s) (trivial_transfer (x, y))"
  by (simp add: trivial_transfer_def wf_pair_def takes_value_def)

lemma special_members_ok:
  assumes "exp_wf T x" "exp_wf T y"
  shows "act_ok (\<lambda>s _. wf_pair T s) (wf_pair T) (copy_base T E (x, y))"
    "act_ok (\<lambda>s _. wf_pair T s) (wf_pair T) (move_base T E (x, y))"
    "act_ok (\<lambda>s _. wf_pair T s) (wf_pair T) (copy_assign_base exc T E (x, y))"
    "act_ok (\<lambda>s _. wf_pair T s) (wf_pair T) (move_assign_base exc T E (x, y))"
  unfolding copy_base_def move_base_def copy_assign_base_def move_assign_base_def
  using assms
  by (simp_all del: act_simps add: trivial_transfer_ok construct_from_rhs_ok assign_ok
      act_ok_noexcept_if split: if_splits)

lemma special_members_take_value:
  assumes "exp_wf T x" "exp_wf T y" "regular T" "regular E"
  shows "done_ok (\<lambda>s _. takes_value CLRef T y s) (copy_base T E (x, y))"
    "done_ok (\<lambda>s _. takes_value RRef T y s) (move_base T E (x, y))"
    "done_ok (\<lambda>s _. takes_value CLRef T y s) (copy_assign_base exc T E (x, y))"
    "done_ok (\<lambda>s _. takes_value RRef T y s) (move_assign_base exc T E (x, y))"
  unfolding copy_base_def move_base_def copy_assign_base_def move_assign_base_def
  using assms
  by (simp_all del: act_simps add: trivial_transfer_takes_value construct_from_rhs_takes_value
      assign_takes_value split: if_splits)

section \<open>The destructor\<close>

text \<open>
  Whichever specialisation the types select, destroying a well-formed object calls exactly the
  destructor that is needed.
\<close>

lemma storage_dtor_ok:
  assumes "exp_wf T x"
  shows "done_ok (\<lambda>s _. \<not> holds_nontrivial T E (fst s)) (sb_dtor (storage_base T E) (x, r))"
  using assms by (elim exp_wf_cases)
    (auto simp: storage_base_defs destroy_m_val_def destroy_m_unexpect_def holds_nontrivial_def)

end
