(* ===== verification/Expected.thy ===== *)
theory Expected
  imports Expected_Base
begin

text \<open>
  The class \<^verbatim>\<open>tl::expected<T, E>\<close> of \<^verbatim>\<open>externals/include/expected.hpp\<close>: constructors,
  assignments, \<^verbatim>\<open>emplace\<close>, \<^verbatim>\<open>swap\<close>, observers, the comparison operators, and the
  functional operations \<^verbatim>\<open>and_then\<close>, \<^verbatim>\<open>map\<close>, \<^verbatim>\<open>map_error\<close> and \<^verbatim>\<open>or_else\<close> in all
  their overloads. What client code supplies (conversions, constructors, callables) is a
  parameter; each may throw, and each gives what is left of its argument.
\<close>

section \<open>Constructors\<close>

definition expected_special_members :: "'t cpp_type \<Rightarrow> 'e cpp_type \<Rightarrow> special_members" where
  "expected_special_members T E =
     derived_members [delete_ctor_base T E, delete_assign_base T E, default_ctor_base T]"

definition expected_default :: "'t cpp_type \<Rightarrow> 'e cpp_type \<Rightarrow> ('r, 'x, ('t, 'e) exp_obj) act" where
  "expected_default T E = sb_default (storage_base T E)"

definition expected_in_place ::
    "'t cpp_type \<Rightarrow> 'e cpp_type \<Rightarrow> ('r, 'x, 't) act \<Rightarrow> ('r, 'x, ('t, 'e) exp_obj) act" where
  "expected_in_place T E mk = sb_in_place (storage_base T E) mk"

text \<open>From \<^verbatim>\<open>unexpected<G>\<close>: the error is built from \<^verbatim>\<open>e.value()\<close>, by copy or by move.\<close>

definition expected_from_unexpected ::
    "cat \<Rightarrow> 't cpp_type \<Rightarrow> 'e cpp_type \<Rightarrow> ('e unexpected, 'x, ('t, 'e) exp_obj) act" where
  "expected_from_unexpected c T E = noexcept_if (c = RRef \<and> nothrow_move_constructible E)
     (sb_unexpect (storage_base T E)
       (\<lambda>u. case make_unexpected c E (unexpected_value u) of
          (Some r, e') \<Rightarrow> Done (Unexpected e') r
        | (None, e') \<Rightarrow> Thrown (Unexpected e') UserExn))"

definition expected_unexpect ::
    "'t cpp_type \<Rightarrow> 'e cpp_type \<Rightarrow> ('r, 'x, 'e unexpected) act \<Rightarrow> ('r, 'x, ('t, 'e) exp_obj) act" where
  "expected_unexpect T E mk = sb_unexpect (storage_base T E) mk"

text \<open>
  From an \<^verbatim>\<open>expected<U, G>\<close>: the base is default constructed first, then the value or the
  error is constructed in its storage.
\<close>

definition conv_get ::
    "('u \<Rightarrow> 't option \<times> 'u) \<Rightarrow> (('t, 'e, ('u, 'g) exp_obj) exp_state, 'x, 't) act" where
  "conv_get cT = (\<lambda>(x, rhs). case op_get rhs of
      None \<Rightarrow> Undefined InactiveMember
    | Some v \<Rightarrow> (case cT v of
        (Some t, v') \<Rightarrow> Done (x, rhs\<lparr>m_union := M_val v'\<rparr>) t
      | (None, v') \<Rightarrow> Thrown (x, rhs\<lparr>m_union := M_val v'\<rparr>) UserExn))"

definition conv_error ::
    "('g \<Rightarrow> 'e option \<times> 'g) \<Rightarrow> (('t, 'e, ('u, 'g) exp_obj) exp_state, 'x, 'e unexpected) act" where
  "conv_error cE = (\<lambda>(x, rhs). case op_geterr rhs of
      None \<Rightarrow> Undefined InactiveMember
    | Some u \<Rightarrow> (case cE (unexpected_value u) of
        (Some e, g') \<Rightarrow> Done (x, rhs\<lparr>m_union := M_unexpect (Unexpected g')\<rparr>) (Unexpected e)
      | (None, g') \<Rightarrow> Thrown (x, rhs\<lparr>m_union := M_unexpect (Unexpected g')\<rparr>) UserExn))"

definition expected_convert ::
    "'t cpp_type \<Rightarrow> 'e cpp_type \<Rightarrow> ('u \<Rightarrow> 't option \<times> 'u) \<Rightarrow> ('g \<Rightarrow> 'e option \<times> 'g) \<Rightarrow>
     (('t, 'e, ('u, 'g) exp_obj) exp_state, 'x, unit) act" where
  "expected_convert T E cT cE = bind_a (expected_default T E) (\<lambda>x0 (_, rhs).
     if m_has_val rhs then construct T E (conv_get cT) (x0, rhs)
     else construct_error T E (conv_error cE) (x0, rhs))"

definition expected_from_value ::
    "'t cpp_type \<Rightarrow> 'e cpp_type \<Rightarrow> ('u \<Rightarrow> 't option \<times> 'u) \<Rightarrow> ('u, 'x, ('t, 'e) exp_obj) act" where
  "expected_from_value T E cT = expected_in_place T E
     (\<lambda>v. case cT v of (Some t, v') \<Rightarrow> Done v' t | (None, v') \<Rightarrow> Thrown v' UserExn)"

section \<open>Assignment from a value or an error\<close>

text \<open>
  \<^verbatim>\<open>val() = std::forward<U>(v)\<close>, with the assignment \<open>aT\<close>, and \<^verbatim>\<open>T(std::forward<U>(v))\<close>, with
  the constructor \<open>cT\<close>.
\<close>

definition assign_val_arg ::
    "('t \<Rightarrow> 'u \<Rightarrow> bool \<times> 't \<times> 'u) \<Rightarrow> (('t, 'e, 'u) exp_state, 'x, unit) act" where
  "assign_val_arg aT = (\<lambda>(x, v). case op_get x of
      None \<Rightarrow> Undefined InactiveMember
    | Some l \<Rightarrow> (case aT l v of (ok, l', v') \<Rightarrow>
        (if ok then Done (x\<lparr>m_union := M_val l'\<rparr>, v') () else Thrown (x\<lparr>m_union := M_val l'\<rparr>, v') UserExn)))"

definition ctor_arg :: "('u \<Rightarrow> 't option \<times> 'u) \<Rightarrow> (('t, 'e, 'u) exp_state, 'x, 't) act" where
  "ctor_arg cT = (\<lambda>(x, v). case cT v of
      (Some t, v') \<Rightarrow> Done (x, v') t | (None, v') \<Rightarrow> Thrown (x, v') UserExn)"

definition assign_value_nothrow ::
    "'t cpp_type \<Rightarrow> 'e cpp_type \<Rightarrow> ('t \<Rightarrow> 'u \<Rightarrow> bool \<times> 't \<times> 'u) \<Rightarrow> ('u \<Rightarrow> 't option \<times> 'u) \<Rightarrow>
     (('t, 'e, 'u) exp_state, 'x, unit) act" where
  "assign_value_nothrow T E aT cT = (\<lambda>(x, v).
     if m_has_val x then assign_val_arg aT (x, v)
     else seq_a destroy_m_unexpect (new_m_val T E (ctor_arg cT)) (x, v))"

text \<open>The constructor of this overload is called on \<^verbatim>\<open>std::move(v)\<close>, whatever was passed.\<close>

definition assign_value_throwing ::
    "bool \<Rightarrow> 't cpp_type \<Rightarrow> 'e cpp_type \<Rightarrow> ('t \<Rightarrow> 'u \<Rightarrow> bool \<times> 't \<times> 'u) \<Rightarrow> ('u \<Rightarrow> 't option \<times> 'u) \<Rightarrow>
     (('t, 'e, 'u) exp_state, 'x, unit) act" where
  "assign_value_throwing exceptions_enabled T E aT moveT = (\<lambda>(x, v).
     if m_has_val x then assign_val_arg aT (x, v)
     else bind_a (move_geterr_out E) (\<lambda>tmp. seq_a destroy_m_unexpect
       (if exceptions_enabled
        then try_rethrow (new_m_val T E (ctor_arg moveT)) (move_geterr_back E tmp)
        else new_m_val T E (ctor_arg moveT))) (x, v))"

text \<open>\<^verbatim>\<open>destroy_val\<close>, which does nothing for \<^verbatim>\<open>void\<close>.\<close>

definition destroy_val :: "'t cpp_type \<Rightarrow> (('t, 'e, 'r) exp_state, 'x, unit) act" where
  "destroy_val T = (if is_void T then (\<lambda>s. Done s ()) else destroy_m_val)"

definition assign_err_arg ::
    "cat \<Rightarrow> 'e cpp_type \<Rightarrow> (('t, 'e, 'e unexpected) exp_state, 'x, unit) act" where
  "assign_err_arg c E = (\<lambda>(x, u). case op_geterr x of
      None \<Rightarrow> Undefined InactiveMember
    | Some l \<Rightarrow> (case assign_from c (unexpected_type E) l u of (ok, l', u') \<Rightarrow>
        (if ok then Done (x\<lparr>m_union := M_unexpect l'\<rparr>, u') ()
         else Thrown (x\<lparr>m_union := M_unexpect l'\<rparr>, u') UserExn)))"

definition ctor_err_arg ::
    "cat \<Rightarrow> 'e cpp_type \<Rightarrow> (('t, 'e, 'e unexpected) exp_state, 'x, 'e unexpected) act" where
  "ctor_err_arg c E = (\<lambda>(x, u). case init_from c (unexpected_type E) u of
      (Some t, u') \<Rightarrow> Done (x, u') t | (None, u') \<Rightarrow> Thrown (x, u') UserExn)"

definition assign_unexpected_copy ::
    "'t cpp_type \<Rightarrow> 'e cpp_type \<Rightarrow> (('t, 'e, 'e unexpected) exp_state, 'x, unit) act" where
  "assign_unexpected_copy T E = (\<lambda>(x, rhs).
     if \<not> m_has_val x then assign_err_arg CLRef E (x, rhs)
     else seq_a (destroy_val T) (new_m_unexpect T E (ctor_err_arg CLRef E)) (x, rhs))"

definition assign_unexpected_move ::
    "'t cpp_type \<Rightarrow> 'e cpp_type \<Rightarrow> (('t, 'e, 'e unexpected) exp_state, 'x, unit) act" where
  "assign_unexpected_move T E = noexcept_a (\<lambda>(x, rhs).
     if \<not> m_has_val x then assign_err_arg RRef E (x, rhs)
     else seq_a (destroy_val T) (new_m_unexpect T E (ctor_err_arg RRef E)) (x, rhs))"

section \<open>emplace\<close>

text \<open>\<^verbatim>\<open>val() = T(...)\<close>: a temporary that is moved from.\<close>

definition assign_temporary ::
    "'t cpp_type \<Rightarrow> (('t, 'e, 'r) exp_state, 'x, 't) act \<Rightarrow> (('t, 'e, 'r) exp_state, 'x, unit) act" where
  "assign_temporary T mk = bind_a mk (\<lambda>t (x, r). case op_get x of
      None \<Rightarrow> Undefined InactiveMember
    | Some l \<Rightarrow> (case move_assign T l t of (ok, l', t') \<Rightarrow>
        (if ok then Done (x\<lparr>m_union := M_val l'\<rparr>, r) () else Thrown (x\<lparr>m_union := M_val l'\<rparr>, r) UserExn)))"

definition emplace_nothrow ::
    "'t cpp_type \<Rightarrow> 'e cpp_type \<Rightarrow> (('t, 'e, 'r) exp_state, 'x, 't) act \<Rightarrow>
     (('t, 'e, 'r) exp_state, 'x, unit) act" where
  "emplace_nothrow T E mk = (\<lambda>(x, r).
     if m_has_val x then assign_temporary T mk (x, r)
     else seq_a destroy_m_unexpect (new_m_val T E mk) (x, r))"

definition emplace_throwing ::
    "bool \<Rightarrow> 't cpp_type \<Rightarrow> 'e cpp_type \<Rightarrow> (('t, 'e, 'r) exp_state, 'x, 't) act \<Rightarrow>
     (('t, 'e, 'r) exp_state, 'x, unit) act" where
  "emplace_throwing exceptions_enabled T E mk = (\<lambda>(x, r).
     if m_has_val x then assign_temporary T mk (x, r)
     else bind_a (move_geterr_out E) (\<lambda>tmp. seq_a destroy_m_unexpect
       (if exceptions_enabled
        then try_rethrow (new_m_val T E mk) (move_geterr_back E tmp)
        else new_m_val T E mk)) (x, r))"

text \<open>The overloads with an \<^verbatim>\<open>initializer_list\<close> name the temporary.\<close>

definition emplace_il_nothrow ::
    "'t cpp_type \<Rightarrow> 'e cpp_type \<Rightarrow> (('t, 'e, 'r) exp_state, 'x, 't) act \<Rightarrow>
     (('t, 'e, 'r) exp_state, 'x, unit) act" where
  "emplace_il_nothrow T E mk = (\<lambda>(x, r).
     if m_has_val x then assign_temporary T mk (x, r)
     else seq_a destroy_m_unexpect (new_m_val T E mk) (x, r))"

definition emplace_il_throwing ::
    "bool \<Rightarrow> 't cpp_type \<Rightarrow> 'e cpp_type \<Rightarrow> (('t, 'e, 'r) exp_state, 'x, 't) act \<Rightarrow>
     (('t, 'e, 'r) exp_state, 'x, unit) act" where
  "emplace_il_throwing exceptions_enabled T E mk = (\<lambda>(x, r).
     if m_has_val x then assign_temporary T mk (x, r)
     else bind_a (move_geterr_out E) (\<lambda>tmp. seq_a destroy_m_unexpect
       (if exceptions_enabled
        then try_rethrow (new_m_val T E mk) (move_geterr_back E tmp)
        else new_m_val T E mk)) (x, r))"

section \<open>swap\<close>

definition swap_vals :: "'t cpp_type \<Rightarrow> (('t, 'e) exp_pair, 'x, unit) act" where
  "swap_vals T = (\<lambda>(x, y). case (op_get x, op_get y) of
      (Some a, Some b) \<Rightarrow> (case std_swap T a b of (ok, a', b') \<Rightarrow>
        (let s = (x\<lparr>m_union := M_val a'\<rparr>, y\<lparr>m_union := M_val b'\<rparr>)
         in if ok then Done s () else Thrown s UserExn))
    | _ \<Rightarrow> Undefined InactiveMember)"

definition swap_errs :: "'e cpp_type \<Rightarrow> (('t, 'e) exp_pair, 'x, unit) act" where
  "swap_errs E = (\<lambda>(x, y). case (op_geterr x, op_geterr y) of
      (Some a, Some b) \<Rightarrow> (case std_swap (unexpected_type E) a b of (ok, a', b') \<Rightarrow>
        (let s = (x\<lparr>m_union := M_unexpect a'\<rparr>, y\<lparr>m_union := M_unexpect b'\<rparr>)
         in if ok then Done s () else Thrown s UserExn))
    | _ \<Rightarrow> Undefined InactiveMember)"

text \<open>
  \<^verbatim>\<open>::new (p.valptr()) T(q.val())\<close> and \<^verbatim>\<open>::new (errptr()) unexpected_type(std::move(temp))\<close>,
  which do not touch the flags; \<open>give_val\<close> is the first with \<open>q\<close> as \<^verbatim>\<open>*this\<close>.
\<close>

definition place_val :: "'t cpp_type \<Rightarrow> 'e cpp_type \<Rightarrow> ('t, 'e) exp_obj \<Rightarrow> ('t, 'e) exp_obj \<Rightarrow>
    (unit, 'x, ('t, 'e) exp_obj) outcome" where
  "place_val T E p q = (if holds_nontrivial T E p then Undefined LostObject else
     (case op_get q of
        None \<Rightarrow> Undefined InactiveMember
      | Some v \<Rightarrow> (case copy_ctor T v of
          None \<Rightarrow> Thrown () UserExn
        | Some t \<Rightarrow> Done () (p\<lparr>m_union := M_val t\<rparr>))))"

definition give_val :: "'t cpp_type \<Rightarrow> 'e cpp_type \<Rightarrow> (('t, 'e) exp_pair, 'x, unit) act" where
  "give_val T E = (\<lambda>(x, y). case place_val T E y x of
      Done _ y' \<Rightarrow> Done (x, y') ()
    | Thrown _ e \<Rightarrow> Thrown (x, y\<lparr>m_union := No_init\<rparr>) e
    | Undefined u \<Rightarrow> Undefined u
    | Terminated \<Rightarrow> Terminated)"

definition take_val :: "'t cpp_type \<Rightarrow> 'e cpp_type \<Rightarrow> (('t, 'e) exp_pair, 'x, unit) act" where
  "take_val T E = (\<lambda>(x, y). case place_val T E x y of
      Done _ x' \<Rightarrow> Done (x', y) ()
    | Thrown _ e \<Rightarrow> Thrown (x\<lparr>m_union := No_init\<rparr>, y) e
    | Undefined u \<Rightarrow> Undefined u
    | Terminated \<Rightarrow> Terminated)"

definition place_err ::
    "'t cpp_type \<Rightarrow> 'e cpp_type \<Rightarrow> 'e unexpected \<Rightarrow> (('t, 'e) exp_pair, 'x, unit) act" where
  "place_err T E tmp = seq_a (claim_storage T E) (\<lambda>(x, y).
     case fst (move_ctor (unexpected_type E) tmp) of
       None \<Rightarrow> Thrown (x, y) UserExn
     | Some u \<Rightarrow> Done (x\<lparr>m_union := M_unexpect u\<rparr>, y) ())"

definition swap_flags :: "(('t, 'e) exp_pair, 'x, unit) act" where
  "swap_flags = (\<lambda>(x, y). Done (x\<lparr>m_has_val := m_has_val y\<rparr>, y\<lparr>m_has_val := m_has_val x\<rparr>) ())"

text \<open>\<^verbatim>\<open>auto temp = std::move(rhs.err())\<close>\<close>

definition move_rhs_err_out :: "'e cpp_type \<Rightarrow> (('t, 'e) exp_pair, 'x, 'e unexpected) act" where
  "move_rhs_err_out E = (\<lambda>(x, y). case op_geterr y of
      None \<Rightarrow> Undefined InactiveMember
    | Some v \<Rightarrow> (case move_ctor (unexpected_type E) v of
        (Some t, v') \<Rightarrow> Done (x, y\<lparr>m_union := M_unexpect v'\<rparr>) t
      | (None, v') \<Rightarrow> Thrown (x, y\<lparr>m_union := M_unexpect v'\<rparr>) UserExn))"

definition expected_swap ::
    "bool \<Rightarrow> 't cpp_type \<Rightarrow> 'e cpp_type \<Rightarrow> (('t, 'e) exp_pair, 'x, unit) act" where
  "expected_swap nothrow T E = noexcept_if nothrow (\<lambda>(x, rhs).
     if m_has_val x \<and> m_has_val rhs then swap_vals T (x, rhs)
     else if \<not> m_has_val x \<and> m_has_val rhs then swap_errs E (x, rhs)
     else if m_has_val x then
       bind_a (move_rhs_err_out E) (\<lambda>temp.
         seq_a (give_val T E) (seq_a (place_err T E temp) swap_flags)) (x, rhs)
     else
       bind_a (move_geterr_out E) (\<lambda>temp.
         seq_a (take_val T E) (seq_a (place_err T E temp) swap_flags)) (x, rhs))"

section \<open>Observers\<close>

definition expected_deref :: "('t, 'e) exp_obj \<Rightarrow> ('s, 'x, 't) act" where
  "expected_deref x = (\<lambda>s. case op_get x of Some t \<Rightarrow> Done s t | None \<Rightarrow> Undefined InactiveMember)"

definition expected_has_value :: "('t, 'e) exp_obj \<Rightarrow> bool" where
  "expected_has_value x = m_has_val x"

text \<open>The exception object is built from a copy of the error, which is then moved into it.\<close>

definition bad_expected_access :: "'e cpp_type \<Rightarrow> 'e \<Rightarrow> 'e exn option" where
  "bad_expected_access E e = (case copy_ctor E e of
      None \<Rightarrow> None
    | Some e' \<Rightarrow> map_option Bad_expected_access (fst (move_ctor E e')))"

definition expected_value ::
    "bool \<Rightarrow> 'e cpp_type \<Rightarrow> (('t, 'e) exp_obj, 'e, 't) act" where
  "expected_value exceptions_enabled E = (\<lambda>x.
     if \<not> m_has_val x then
       (case op_geterr x of
          None \<Rightarrow> Undefined InactiveMember
        | Some u \<Rightarrow> (case bad_expected_access E (unexpected_value u) of
            None \<Rightarrow> Thrown x UserExn
          | Some b \<Rightarrow> throw_exception exceptions_enabled b x))
     else expected_deref x x)"

definition expected_error :: "('t, 'e) exp_obj \<Rightarrow> ('s, 'x, 'e) act" where
  "expected_error x = (\<lambda>s. case op_geterr x of
      Some u \<Rightarrow> Done s (unexpected_value u) | None \<Rightarrow> Undefined InactiveMember)"

text \<open>\<^verbatim>\<open>value_or\<close> copies or moves the value out; \<open>dflt\<close> is the conversion of its argument.\<close>

definition expected_value_or ::
    "cat \<Rightarrow> 't cpp_type \<Rightarrow> 't option \<Rightarrow> (('t, 'e) exp_obj, 'x, 't) act" where
  "expected_value_or c T dflt = (\<lambda>x.
     if m_has_val x then
       (case op_get x of
          None \<Rightarrow> Undefined InactiveMember
        | Some v \<Rightarrow> (case init_from c T v of
            (Some t, v') \<Rightarrow> Done (x\<lparr>m_union := M_val v'\<rparr>) t
          | (None, v') \<Rightarrow> Thrown (x\<lparr>m_union := M_val v'\<rparr>) UserExn))
     else (case dflt of Some t \<Rightarrow> Done x t | None \<Rightarrow> Thrown x UserExn))"

section \<open>Functional operations\<close>

text \<open>
  A callable takes the value (nothing, when \<^verbatim>\<open>T\<close> is \<^verbatim>\<open>void\<close>) and returns or throws; through a
  reference that is not \<^verbatim>\<open>const\<close> it may change the value it was given.
\<close>

definition invoke_val ::
    "cat \<Rightarrow> 't cpp_type \<Rightarrow> ('t option \<Rightarrow> 'r option \<times> 't) \<Rightarrow> (('t, 'e) exp_obj, 'x, 'r) act" where
  "invoke_val c T f = (\<lambda>x.
     if is_void T then (case fst (f None) of Some r \<Rightarrow> Done x r | None \<Rightarrow> Thrown x UserExn)
     else (case op_get x of
        None \<Rightarrow> Undefined InactiveMember
      | Some v \<Rightarrow> (case f (Some v) of (r, v') \<Rightarrow>
          (let x' = (if is_const_cat c then x else x\<lparr>m_union := M_val v'\<rparr>)
           in case r of Some a \<Rightarrow> Done x' a | None \<Rightarrow> Thrown x' UserExn))))"

definition invoke_err ::
    "cat \<Rightarrow> ('e \<Rightarrow> 'r option \<times> 'e) \<Rightarrow> (('t, 'e) exp_obj, 'x, 'r) act" where
  "invoke_err c f = (\<lambda>x. case op_geterr x of
      None \<Rightarrow> Undefined InactiveMember
    | Some u \<Rightarrow> (case f (unexpected_value u) of (r, e') \<Rightarrow>
        (let x' = (if is_const_cat c then x else x\<lparr>m_union := M_unexpect (Unexpected e')\<rparr>)
         in case r of Some a \<Rightarrow> Done x' a | None \<Rightarrow> Thrown x' UserExn)))"

text \<open>An \<^verbatim>\<open>unexpected\<close> from \<^verbatim>\<open>std::forward<Exp>(exp).error()\<close>, a value from \<^verbatim>\<open>*std::forward<Exp>(exp)\<close>.\<close>

definition forward_error :: "cat \<Rightarrow> 'e cpp_type \<Rightarrow> (('t, 'e) exp_obj, 'x, 'e unexpected) act" where
  "forward_error c E = (\<lambda>x. case op_geterr x of
      None \<Rightarrow> Undefined InactiveMember
    | Some u \<Rightarrow> (case make_unexpected c E (unexpected_value u) of
        (Some r, e') \<Rightarrow> Done (x\<lparr>m_union := M_unexpect (Unexpected e')\<rparr>) r
      | (None, e') \<Rightarrow> Thrown (x\<lparr>m_union := M_unexpect (Unexpected e')\<rparr>) UserExn))"

definition forward_value :: "cat \<Rightarrow> 't cpp_type \<Rightarrow> (('t, 'e) exp_obj, 'x, 't) act" where
  "forward_value c T = (\<lambda>x. case op_get x of
      None \<Rightarrow> Undefined InactiveMember
    | Some v \<Rightarrow> (case init_from c T v of
        (Some t, v') \<Rightarrow> Done (x\<lparr>m_union := M_val v'\<rparr>) t
      | (None, v') \<Rightarrow> Thrown (x\<lparr>m_union := M_val v'\<rparr>) UserExn))"

text \<open>A member of the result that is moved from a temporary.\<close>

definition move_temp :: "'u cpp_type \<Rightarrow> 'u \<Rightarrow> ('s, 'x, 'u) act" where
  "move_temp U r = (\<lambda>s. case fst (move_ctor U r) of Some u \<Rightarrow> Done s u | None \<Rightarrow> Thrown s UserExn)"

definition and_then_impl ::
    "cat \<Rightarrow> 't cpp_type \<Rightarrow> 'e cpp_type \<Rightarrow> 'u cpp_type \<Rightarrow> ('t option \<Rightarrow> ('u, 'e) exp_obj option \<times> 't) \<Rightarrow>
     (('t, 'e) exp_obj, 'x, ('u, 'e) exp_obj) act" where
  "and_then_impl c T E U f = (\<lambda>x.
     if m_has_val x then invoke_val c T f x
     else expected_unexpect U E (forward_error c E) x)"

definition expected_map_impl ::
    "cat \<Rightarrow> 't cpp_type \<Rightarrow> 'e cpp_type \<Rightarrow> 'u cpp_type \<Rightarrow> ('t option \<Rightarrow> 'u option \<times> 't) \<Rightarrow>
     (('t, 'e) exp_obj, 'x, ('u, 'e) exp_obj) act" where
  "expected_map_impl c T E U f = (\<lambda>x.
     if m_has_val x then
       (if is_void U then seq_a (invoke_val c T f) (expected_default U E) x
        else expected_in_place U E (bind_a (invoke_val c T f) (move_temp U)) x)
     else expected_unexpect U E (forward_error c E) x)"

text \<open>
  The variant for C++11 returns an \<^verbatim>\<open>unexpected\<close> from a callable without result, which the
  converting constructor then moves into the \<^verbatim>\<open>expected\<close>.
\<close>

definition expected_map_impl_cxx11 ::
    "cat \<Rightarrow> 't cpp_type \<Rightarrow> 'e cpp_type \<Rightarrow> 'u cpp_type \<Rightarrow> ('t option \<Rightarrow> 'u option \<times> 't) \<Rightarrow>
     (('t, 'e) exp_obj, 'x, ('u, 'e) exp_obj) act" where
  "expected_map_impl_cxx11 c T E U f = (\<lambda>x.
     if m_has_val x then
       (if is_void U then seq_a (invoke_val c T f) (expected_default U E) x
        else expected_in_place U E (bind_a (invoke_val c T f) (move_temp U)) x)
     else if is_void U then
       bind_a (forward_error c E) (\<lambda>u.
         expected_unexpect U E (bind_a (move_temp E (unexpected_value u)) (\<lambda>e. ret_a (Unexpected e)))) x
     else expected_unexpect U E (forward_error c E) x)"

text \<open>\<open>void_ret\<close> is \<^verbatim>\<open>monostate{}\<close> when the callable returns nothing.\<close>

definition map_error_impl ::
    "cat \<Rightarrow> 't cpp_type \<Rightarrow> 'e cpp_type \<Rightarrow> 'g cpp_type \<Rightarrow> 'g option \<Rightarrow> ('e \<Rightarrow> 'g option \<times> 'e) \<Rightarrow>
     (('t, 'e) exp_obj, 'x, ('t, 'g) exp_obj) act" where
  "map_error_impl c T E G void_ret f = (\<lambda>x.
     if m_has_val x then
       (if is_void T then expected_default T G x else expected_in_place T G (forward_value c T) x)
     else case void_ret of
       None \<Rightarrow> expected_unexpect T G
         (bind_a (bind_a (invoke_err c f) (move_temp G)) (\<lambda>g. ret_a (Unexpected g))) x
     | Some ms \<Rightarrow> seq_a (invoke_err c f)
         (expected_unexpect T G (bind_a (move_temp G ms) (\<lambda>g. ret_a (Unexpected g)))) x)"

text \<open>A new object from \<^verbatim>\<open>std::forward<Exp>(exp)\<close>.\<close>

definition forward_self ::
    "cat \<Rightarrow> 't cpp_type \<Rightarrow> 'e cpp_type \<Rightarrow> (('t, 'e) exp_obj, 'x, ('t, 'e) exp_obj) act" where
  "forward_self c T E = (\<lambda>x.
     case (if c = RRef then move_base T E else copy_base T E) (no_init_obj, x) of
       Done (y, x') _ \<Rightarrow> Done x' y
     | Thrown (y, x') e \<Rightarrow> Thrown x' e
     | Undefined u \<Rightarrow> Undefined u
     | Terminated \<Rightarrow> Terminated)"

text \<open>\<open>as_expected\<close> reads the result of the callable; it is \<open>None\<close> for a callable without result.\<close>

definition or_else_impl ::
    "cat \<Rightarrow> 't cpp_type \<Rightarrow> 'e cpp_type \<Rightarrow> ('r \<Rightarrow> ('t, 'e) exp_obj) option \<Rightarrow> ('e \<Rightarrow> 'r option \<times> 'e) \<Rightarrow>
     (('t, 'e) exp_obj, 'x, ('t, 'e) exp_obj) act" where
  "or_else_impl c T E as_expected f = (\<lambda>x.
     if m_has_val x then forward_self c T E x
     else case as_expected of
       Some as \<Rightarrow> bind_a (invoke_err c f) (\<lambda>r. ret_a (as r)) x
     | None \<Rightarrow> seq_a (invoke_err c f) (forward_self c T E) x)"

text \<open>The member functions, for every value category of \<^verbatim>\<open>*this\<close>.\<close>

definition expected_and_then where
  "expected_and_then c T E U f x = and_then_impl c T E U f x"

definition expected_map where
  "expected_map cxx14 c T E U f x =
     (if cxx14 then expected_map_impl c T E U f x else expected_map_impl_cxx11 c T E U f x)"

definition expected_map_error where
  "expected_map_error c T E G void_ret f x = map_error_impl c T E G void_ret f x"

definition expected_or_else where
  "expected_or_else c T E as_expected f x = or_else_impl c T E as_expected f x"

section \<open>Comparison\<close>

definition expected_eq :: "('t, 'e) exp_obj \<Rightarrow> ('t, 'e) exp_obj \<Rightarrow> bool option" where
  "expected_eq l r = (if m_has_val l \<noteq> m_has_val r then Some False
     else if \<not> m_has_val l then
       (case (op_geterr l, op_geterr r) of
          (Some a, Some b) \<Rightarrow> Some (unexpected_value a = unexpected_value b) | _ \<Rightarrow> None)
     else (case (op_get l, op_get r) of (Some a, Some b) \<Rightarrow> Some (a = b) | _ \<Rightarrow> None))"

definition expected_neq :: "('t, 'e) exp_obj \<Rightarrow> ('t, 'e) exp_obj \<Rightarrow> bool option" where
  "expected_neq l r = (if m_has_val l \<noteq> m_has_val r then Some True
     else if \<not> m_has_val l then
       (case (op_geterr l, op_geterr r) of
          (Some a, Some b) \<Rightarrow> Some (unexpected_value a \<noteq> unexpected_value b) | _ \<Rightarrow> None)
     else (case (op_get l, op_get r) of (Some a, Some b) \<Rightarrow> Some (a \<noteq> b) | _ \<Rightarrow> None))"

definition expected_eq_value :: "('t, 'e) exp_obj \<Rightarrow> 't \<Rightarrow> bool option" where
  "expected_eq_value x v = (if m_has_val x then map_option (\<lambda>t. t = v) (op_get x) else Some False)"

definition expected_neq_value :: "('t, 'e) exp_obj \<Rightarrow> 't \<Rightarrow> bool option" where
  "expected_neq_value x v = (if m_has_val x then map_option (\<lambda>t. t \<noteq> v) (op_get x) else Some True)"

definition expected_eq_unexpected :: "('t, 'e) exp_obj \<Rightarrow> 'e unexpected \<Rightarrow> bool option" where
  "expected_eq_unexpected x e = (if m_has_val x then Some False
     else map_option (\<lambda>u. unexpected_value u = unexpected_value e) (op_geterr x))"

definition expected_neq_unexpected :: "('t, 'e) exp_obj \<Rightarrow> 'e unexpected \<Rightarrow> bool option" where
  "expected_neq_unexpected x e = (if m_has_val x then Some True
     else map_option (\<lambda>u. unexpected_value u \<noteq> unexpected_value e) (op_geterr x))"

text \<open>The free function \<^verbatim>\<open>swap\<close>.\<close>

definition swap_expected ::
    "bool \<Rightarrow> 't cpp_type \<Rightarrow> 'e cpp_type \<Rightarrow> (('t, 'e) exp_pair, 'x, unit) act" where
  "swap_expected nothrow T E = expected_swap nothrow T E"

end
