(* ===== verification/Expected_Props.thy ===== *)
theory Expected_Props
  imports Expected
begin

text \<open>
  What \<^verbatim>\<open>tl::expected\<close> promises and what it keeps of it: copies and moves, the functional
  operations against the sum type, assignment of values and \<^verbatim>\<open>emplace\<close>, \<^verbatim>\<open>swap\<close>, the
  converting constructors, observers and comparisons.
\<close>

lemmas expected_defs = expected_default_def expected_in_place_def expected_unexpect_def
  expected_deref_def init_m_val_def init_m_unexpect_def value_init_def storage_base_defs

lemma storage_base_sel [simp]:
  "sb_in_place (storage_base T E) mk =
     (if is_void T then ret_a \<lparr>m_union = No_init, m_has_val = True\<rparr> else init_m_val mk)"
  "sb_unexpect (storage_base T E) mu = init_m_unexpect mu"
  "sb_default (storage_base T E) =
     (if is_void T then ret_a \<lparr>m_union = No_init, m_has_val = True\<rparr> else init_m_val (value_init T))"
  by (simp_all add: storage_base_defs)

section \<open>Copies and moves\<close>

text \<open>
  C28: copy and move construction and assignment of \<^verbatim>\<open>expected\<close> objects whose flags agree with
  their unions never touch an inactive member and never lose an object, whatever throws, and
  leave both objects well-formed also after an exception; if the copies and moves of the stored
  types succeed, the operation returns and the target has the value or the error of the source,
  which a copy leaves as it was.
\<close>

theorem expected_copies_and_moves:
  assumes "exp_wf T x" "exp_wf T y"
    and op: "(c, op) \<in> {(CLRef, copy_base T E), (RRef, move_base T E),
      (CLRef, copy_assign_base exc T E), (RRef, move_assign_base exc T E)}"
  shows "act_ok (\<lambda>s _. wf_pair T s) (wf_pair T) (op (x, y))
    \<and> (regular T \<and> regular E \<longrightarrow> done_ok (\<lambda>s _. takes_value c T y s) (op (x, y)))"
proof -
  have "act_ok (\<lambda>s _. wf_pair T s) (wf_pair T) (op (x, y))"
    using op special_members_ok [OF assms(1,2)] by fastforce
  moreover have "done_ok (\<lambda>s _. takes_value c T y s) (op (x, y))" if "regular T" "regular E"
    using op special_members_take_value [OF assms(1,2) that] by fastforce
  ultimately show ?thesis by blast
qed

definition sample_val :: "(nat, nat) exp_obj" where
  "sample_val = \<lparr>m_union = M_val 7, m_has_val = True\<rparr>"

definition sample_err :: "(nat, nat) exp_obj" where
  "sample_err = \<lparr>m_union = M_unexpect (Unexpected 3), m_has_val = False\<rparr>"

definition string_like :: "nat cpp_type" where
  "string_like = owning_type 0 (\<lambda>_. False)"

lemma string_like_regular: "regular string_like"
  by (simp add: string_like_def owning_type_regular)

lemmas sample_simps = sample_val_def sample_err_def string_like_def owning_type_def scalar_type_def

theorem expected_copies_and_moves_witness:
  "done_ok (\<lambda>s _. takes_value RRef string_like sample_val s)
     (move_assign_base True string_like string_like (sample_err, sample_val)
        :: ((nat, nat) exp_pair, nat, unit) outcome)"
proof -
  have "exp_wf string_like sample_err" "exp_wf string_like sample_val"
    by (simp_all add: exp_wf_def sample_simps)
  from expected_copies_and_moves [OF this,
      of RRef "move_assign_base True string_like string_like :: ((nat, nat) exp_pair, nat, unit) act"
        string_like True]
  show ?thesis by (simp add: string_like_regular)
qed

text \<open>
  The copy of a \<^verbatim>\<open>T\<close> whose copy constructor throws into an object that holds an error ends
  the program: the comment promises the strong exception guarantee, but \<^verbatim>\<open>construct\<close> and two of
  the overloads of \<^verbatim>\<open>assign\<close> are \<^verbatim>\<open>noexcept\<close>.
\<close>

lemma assign_throwing_copy_terminates:
  assumes "m_union x = M_unexpect u" "\<not> m_has_val x" "m_union y = M_val v" "m_has_val y"
    and "copy_ctor T v = None" "\<not> is_void T" "regular E"
  shows "assign True CLRef T E (x, y) = Terminated"
proof -
  have "x = \<lparr>m_union = M_unexpect u, m_has_val = False\<rparr>" "y = \<lparr>m_union = M_val v, m_has_val = True\<rparr>"
    using assms by simp_all
  then show ?thesis
    using assms(5,6) regular_eqs [OF regular_unexpected [OF \<open>regular E\<close>]]
    by (simp add: assign_def exp_assign_ops exp_ops init_from_def)
qed

section \<open>Functional operations\<close>

text \<open>The specification, on the sum type.\<close>

fun sum_bind :: "'e + 'a \<Rightarrow> ('a \<Rightarrow> 'e + 'b) \<Rightarrow> 'e + 'b" where
  "sum_bind (Inl e) f = Inl e"
| "sum_bind (Inr v) f = f v"

fun sum_else :: "'e + 'a \<Rightarrow> ('e \<Rightarrow> 'e + 'a) \<Rightarrow> 'e + 'a" where
  "sum_else (Inl e) f = f e"
| "sum_else (Inr v) f = Inr v"

lemmas functional_ops = expected_and_then_def expected_map_def expected_map_error_def
  expected_or_else_def and_then_impl_def expected_map_impl_def expected_map_impl_cxx11_def
  map_error_impl_def or_else_impl_def invoke_val_def invoke_err_def forward_error_def
  forward_value_def move_temp_def make_unexpected_def unexpected_value_def

lemma transfers_take_value:
  assumes "exp_wf T x" "regular T" "regular E"
  shows "done_ok (\<lambda>s _. exp_wf T (fst s) \<and> exp_abs (fst s) = exp_abs x)
    ((if c = RRef then move_base T E else copy_base T E) (no_init_obj, x))"
proof -
  have 1: "done_ok (\<lambda>s _. exp_wf T (fst s) \<and> exp_abs (fst s) = exp_abs x)
      (construct_from_rhs c' T E (no_init_obj, x))" for c'
    by (rule done_ok_mono [OF construct_from_rhs_takes_value [OF assms]])
      (simp add: takes_value_def wf_pair_def)
  have 2: "done_ok (\<lambda>s _. exp_wf T (fst s) \<and> exp_abs (fst s) = exp_abs x)
      (trivial_transfer (no_init_obj, x))"
    using assms(1) by (simp add: trivial_transfer_def)
  show ?thesis
    by (simp del: act_simps add: copy_base_def move_base_def 1 2)
qed

lemma done_ok_forward:
  "done_ok (\<lambda>s _. P (fst s)) m \<Longrightarrow> done_ok (\<lambda>_. P) (case m of
      Done (y, x') _ \<Rightarrow> Done x' y | Thrown (y, x') e \<Rightarrow> Thrown x' e
    | Undefined u \<Rightarrow> Undefined u | Terminated \<Rightarrow> Terminated)"
  by (cases m) auto

lemma forward_self_regular:
  assumes "exp_wf T x" "regular T" "regular E"
  shows "done_ok (\<lambda>x' y. exp_wf T y \<and> exp_abs y = exp_abs x) (forward_self c T E x)"
  unfolding forward_self_def by (rule done_ok_forward [OF transfers_take_value [OF assms]])

lemma and_then_refines:
  assumes x: "exp_wf T x" and E: "regular E"
    and f: "\<And>v. f v = (Some (f' v), left v)" "\<And>v. exp_wf U (f' v)"
  shows "done_ok (\<lambda>_ y. exp_wf U y \<and> exp_abs y = sum_bind (exp_abs x) (\<lambda>v. exp_abs (f' v)))
           (expected_and_then c T E U f x)"
  using x f by (elim exp_wf_cases)
    (simp_all add: regular_eqs [OF E] functional_ops expected_defs Let_def)

lemma map_refines:
  assumes x: "exp_wf T x" and reg: "regular E" "regular U"
    and f: "\<And>v. f v = (Some (f' v), left v)" and d: "default_ctor U \<noteq> None"
  shows "done_ok (\<lambda>_ y. exp_wf U y
           \<and> exp_abs y = map_sum id (\<lambda>v. if is_void U then None else Some (f' v)) (exp_abs x))
           (expected_map cxx14 c T E U f x)"
  using x f d by (elim exp_wf_cases)
    (auto simp: regular_eqs [OF reg(1)] regular_eqs [OF reg(2)] functional_ops expected_defs Let_def)

lemma map_error_refines:
  assumes x: "exp_wf T x" and reg: "regular T" "regular E" "regular G"
    and f: "\<And>e. f e = (Some (f' e), left e)"
  shows "done_ok (\<lambda>_ y. exp_wf T y \<and> exp_abs y = map_sum f' id (exp_abs x))
           (expected_map_error c T E G None f x)"
  using x f by (elim exp_wf_cases)
    (simp_all add: regular_eqs [OF reg(1)] regular_eqs [OF reg(2)] regular_eqs [OF reg(3)]
      functional_ops expected_defs Let_def)

lemma or_else_refines:
  assumes x: "exp_wf T x" and reg: "regular T" "regular E"
    and f: "\<And>e. f e = (Some (f' e), left e)" "\<And>e. exp_wf T (f' e)"
  shows "done_ok (\<lambda>_ y. exp_wf T y \<and> exp_abs y = sum_else (exp_abs x) (\<lambda>e. exp_abs (f' e)))
           (expected_or_else c T E (Some id) f x)"
  using x f forward_self_regular [OF x reg, of c]
  by (elim exp_wf_cases) (simp_all add: functional_ops Let_def)

text \<open>The same with a callable that returns nothing.\<close>

lemma map_error_void_refines:
  assumes x: "exp_wf T x" and reg: "regular T" "regular E" "regular G"
    and f: "\<And>e. f e = (Some (f' e), left e)"
  shows "done_ok (\<lambda>_ y. exp_wf T y \<and> exp_abs y = map_sum (\<lambda>_. monostate) id (exp_abs x))
           (expected_map_error c T E G (Some monostate) f x)"
  using x f by (elim exp_wf_cases)
    (simp_all add: regular_eqs [OF reg(1)] regular_eqs [OF reg(2)] regular_eqs [OF reg(3)]
      functional_ops expected_defs Let_def)

lemma done_ok_cong: "done_ok P m \<Longrightarrow> m' = m \<Longrightarrow> done_ok P m'"
  by simp

lemma or_else_void_refines:
  assumes x: "exp_wf T x" and reg: "regular T" "regular E"
    and f: "\<And>e. f e = (Some (f' e), left e)"
  shows "done_ok (\<lambda>_ y. exp_wf T y \<and> exp_abs y = sum_else (exp_abs x) (\<lambda>e. Inl (if is_const_cat c then e else left e)))
           (expected_or_else c T E None f x)"
  using x
proof (cases rule: exp_wf_cases)
  case (err u)
  let ?x = "if is_const_cat c then x else x\<lparr>m_union := M_unexpect (Unexpected (left (unexpected_value u)))\<rparr>"
  have wf: "exp_wf T ?x" using err by simp
  have "exp_abs ?x = sum_else (exp_abs x) (\<lambda>e. Inl (if is_const_cat c then e else left e))"
    using err by (cases u) (simp add: exp_abs_def unexpected_value_def)
  note self = forward_self_regular [OF wf reg, of c, unfolded this]
  show ?thesis
    by (rule self [THEN done_ok_cong]) (use err f in \<open>simp add: functional_ops Let_def\<close>)
qed (use forward_self_regular [OF x reg, of c] in \<open>simp_all add: functional_ops\<close>)

text \<open>
  C29: for stored types whose copies and moves succeed, and callables that return, the
  functional operations, on every value category of \<^verbatim>\<open>*this\<close>, for \<^verbatim>\<open>void\<close> and other value
  types, and in the C++11 and C++14 versions, are the operations of the sum type:
  \<^verbatim>\<open>and_then\<close> is its bind, \<^verbatim>\<open>map\<close> and \<^verbatim>\<open>map_error\<close> are its maps on either side, and
  \<^verbatim>\<open>or_else\<close> replaces an error. With a callable that returns \<^verbatim>\<open>void\<close>: \<^verbatim>\<open>map\<close> returns an
  \<^verbatim>\<open>expected<void, E>\<close> (the comments on it say \<^verbatim>\<open>expected<monostate, E>\<close>), \<^verbatim>\<open>map_error\<close> makes
  every error \<^verbatim>\<open>monostate\<close>, and \<^verbatim>\<open>or_else\<close> returns \<^verbatim>\<open>*this\<close> with the error that the callable has
  left, which is the old one when it was given a \<^verbatim>\<open>const\<close> reference.
\<close>

theorem expected_functional_ops_refine_sum:
  assumes "exp_wf T x" "regular T" "regular E" "regular U" "regular G" "default_ctor U \<noteq> None"
    and "\<And>v. f v = (Some (f' v), lf v)" "\<And>v. exp_wf U (f' v)"
    and "\<And>v. g v = (Some (g' v), lg v)"
    and "\<And>e. h e = (Some (h' e), lh e)"
    and "\<And>e. k e = (Some (k' e), lk e)" "\<And>e. exp_wf T (k' e)"
  shows "done_ok (\<lambda>_ y. exp_wf U y \<and> exp_abs y = sum_bind (exp_abs x) (\<lambda>v. exp_abs (f' v)))
           (expected_and_then c T E U f x)
    \<and> done_ok (\<lambda>_ y. exp_wf U y
           \<and> exp_abs y = map_sum id (\<lambda>v. if is_void U then None else Some (g' v)) (exp_abs x))
           (expected_map cxx14 c T E U g x)
    \<and> done_ok (\<lambda>_ y. exp_wf T y \<and> exp_abs y = map_sum h' id (exp_abs x))
           (expected_map_error c T E G None h x)
    \<and> done_ok (\<lambda>_ y. exp_wf T y \<and> exp_abs y = sum_else (exp_abs x) (\<lambda>e. exp_abs (k' e)))
           (expected_or_else c T E (Some id) k x)
    \<and> done_ok (\<lambda>_ y. exp_wf T y \<and> exp_abs y = map_sum (\<lambda>_. monostate) id (exp_abs x))
           (expected_map_error c T E G (Some monostate) h x)
    \<and> done_ok (\<lambda>_ y. exp_wf T y \<and> exp_abs y = sum_else (exp_abs x) (\<lambda>e. Inl (if is_const_cat c then e else lk e)))
           (expected_or_else c T E None k x)"
  by (intro conjI and_then_refines map_refines map_error_refines or_else_refines map_error_void_refines
      or_else_void_refines) (use assms in auto)

theorem expected_functional_ops_refine_sum_witness:
  "done_ok (\<lambda>_ y. exp_abs y = Inr (Some 8))
     (expected_map True RRef string_like string_like string_like
        (\<lambda>v. (Some (case v of None \<Rightarrow> 0 | Some n \<Rightarrow> Suc n), 0)) sample_val
        :: ((nat, nat) exp_obj, nat, (nat, nat) exp_obj) outcome)"
proof -
  have wf: "exp_wf string_like sample_val" "exp_wf string_like sample_err" "default_ctor string_like \<noteq> None"
    by (simp_all add: exp_wf_def sample_simps)
  have "done_ok (\<lambda>_ y. exp_wf string_like y
      \<and> exp_abs y = map_sum id (\<lambda>v. if is_void string_like then None
                     else Some (case v of None \<Rightarrow> 0 | Some n \<Rightarrow> Suc n)) (exp_abs sample_val))
     (expected_map True RRef string_like string_like string_like
        (\<lambda>v. (Some (case v of None \<Rightarrow> 0 | Some n \<Rightarrow> Suc n), 0)) sample_val
        :: ((nat, nat) exp_obj, nat, (nat, nat) exp_obj) outcome)"
    by (rule expected_functional_ops_refine_sum [of string_like sample_val string_like string_like
        string_like "\<lambda>v. (Some sample_err, 0)" "\<lambda>v. sample_err" "\<lambda>_. 0"
        "\<lambda>v. (Some (case v of None \<Rightarrow> 0 | Some n \<Rightarrow> Suc n), 0)"
        "\<lambda>v. case v of None \<Rightarrow> 0 | Some n \<Rightarrow> Suc n" "\<lambda>_. 0" "\<lambda>e. (Some e, 0)" "\<lambda>e. e" "\<lambda>_. 0"
        "\<lambda>e. (Some sample_val, 0)" "\<lambda>e. sample_val" "\<lambda>_. 0" RRef True,
        THEN conjunct2, THEN conjunct1]) (simp_all add: string_like_regular wf)
  then show ?thesis
    by (rule done_ok_mono) (simp add: sample_simps exp_abs_def)
qed

section \<open>Assigning a value, emplace\<close>

lemmas value_ops = assign_value_nothrow_def assign_value_throwing_def emplace_nothrow_def
  emplace_throwing_def emplace_il_nothrow_def emplace_il_throwing_def assign_val_arg_def ctor_arg_def
  assign_temporary_def

text \<open>
  \<^verbatim>\<open>emplace\<close> and the assignment of a value, in the overloads for a \<^verbatim>\<open>T\<close> whose
  constructor may throw. When the constructor returns, the object holds the new value. When it
  throws while the object holds an error, the handler assigns to the error that was destroyed
  just before, which is undefined: the strong guarantee that the temporary is for does not hold.
\<close>

theorem expected_emplace_throwing:
  assumes x: "exp_wf T x" "\<not> is_void T" and reg: "regular T" "regular E"
    and a: "\<And>l. aT l v = (case cT v of (Some t, v') \<Rightarrow> (True, t, v') | (None, v') \<Rightarrow> (False, l, v'))"
    and op: "op \<in> {emplace_throwing True T E (ctor_arg cT), emplace_il_throwing True T E (ctor_arg cT),
      assign_value_throwing True T E aT cT}"
  shows "case cT v of
      (Some t, v') \<Rightarrow> op (x, v) = Done (\<lparr>m_union = M_val t, m_has_val = True\<rparr>, v') ()
    | (None, v') \<Rightarrow> op (x, v) = (if m_has_val x then Thrown (x, v') UserExn else Undefined InactiveMember)"
  using x a op by (elim exp_wf_cases insertE)
    (auto simp: value_ops exp_ops regular_eqs [OF reg(1)] regular_eqs [OF regular_unexpected [OF reg(2)]]
      split: prod.splits option.splits)

theorem expected_emplace_throwing_witness:
  "emplace_throwing True string_like string_like (ctor_arg (\<lambda>n. (if n = 0 then None else Some n, n)))
     (sample_err, 0) = (Undefined InactiveMember :: ((nat, nat, nat) exp_state, nat, unit) outcome)"
proof -
  have "exp_wf string_like sample_err" "\<not> is_void string_like"
    by (simp_all add: exp_wf_def sample_simps)
  then show ?thesis
    using expected_emplace_throwing [of string_like sample_err string_like
        "\<lambda>l n. if n = 0 then (False, l, n) else (True, n, n)" 0 "\<lambda>n. (if n = 0 then None else Some n, n)"
        "emplace_throwing True string_like string_like (ctor_arg (\<lambda>n. (if n = 0 then None else Some n, n)))
          :: ((nat, nat, nat) exp_state, nat, unit) act"]
    by (simp add: string_like_regular) (simp add: sample_err_def)
qed

text \<open>The overloads for a constructor that cannot throw, and the assignment of an error.\<close>

lemma emplace_nothrow_ok:
  assumes "exp_wf T x" "\<not> is_void T" "regular T" "cT v = (Some t, v')"
  shows "emplace_nothrow T E (ctor_arg cT) (x, v) = Done (\<lparr>m_union = M_val t, m_has_val = True\<rparr>, v') ()"
    "emplace_il_nothrow T E (ctor_arg cT) (x, v) = Done (\<lparr>m_union = M_val t, m_has_val = True\<rparr>, v') ()"
  using assms(1,2,4) by (elim exp_wf_cases;
    simp add: value_ops exp_ops regular_eqs [OF assms(3)])+

lemma assign_unexpected_ok:
  assumes "exp_wf T x" "regular E"
  shows "done_ok (\<lambda>s _. exp_wf T (fst s) \<and> exp_abs (fst s) = Inl (m_val u) \<and> snd s = u)
      (assign_unexpected_copy T E (x, u))"
    "done_ok (\<lambda>s _. exp_wf T (fst s) \<and> exp_abs (fst s) = Inl (m_val u))
      (assign_unexpected_move T E (x, u))"
  using assms(1) by (elim exp_wf_cases;
    simp add: assign_unexpected_copy_def assign_unexpected_move_def assign_err_arg_def ctor_err_arg_def
      destroy_val_def exp_ops regular_eqs [OF regular_unexpected [OF assms(2)]])+

section \<open>swap\<close>

lemmas swap_ops = expected_swap_def swap_expected_def swap_vals_def swap_errs_def give_val_def take_val_def
  place_val_def place_err_def swap_flags_def move_rhs_err_out_def

text \<open>
  C32: \<^verbatim>\<open>swap\<close> exchanges two objects that both hold values. If \<^verbatim>\<open>*this\<close> holds a value and the
  argument an error it does so only for trivially destructible types, and otherwise loses an
  object. In the other two cases, an error against a value and two errors, its branches are
  exchanged and it is undefined.
\<close>

theorem expected_swap_outcome:
  assumes x: "exp_wf T x" "exp_wf T y" "\<not> is_void T" and reg: "regular T" "regular E"
  shows "if m_has_val x \<and> (m_has_val y \<or> trivially_destructible T \<and> trivially_destructible E)
    then expected_swap nothrow T E (x, y) = Done (y, x) ()
    else \<exists>u. expected_swap nothrow T E (x, y) = Undefined u"
  using x by (cases nothrow) (elim exp_wf_cases;
    simp add: swap_ops exp_ops regular_swap [OF reg(1)] regular_swap [OF regular_unexpected [OF reg(2)]]
      regular_eqs [OF reg(1)] regular_eqs [OF regular_unexpected [OF reg(2)]])+

theorem expected_swap_outcome_witness:
  "\<exists>u. expected_swap True (scalar_type 0) (scalar_type 0) (sample_err, sample_val)
     = (Undefined u :: ((nat, nat) exp_pair, nat, unit) outcome)"
proof -
  have "exp_wf (scalar_type 0) sample_err" "exp_wf (scalar_type 0) sample_val"
    "\<not> is_void (scalar_type (0::nat))"
    by (simp_all add: exp_wf_def sample_simps)
  from expected_swap_outcome [OF this scalar_type_regular scalar_type_regular, where nothrow = True]
  show ?thesis by (simp add: sample_err_def)
qed

section \<open>Converting constructors, observers, comparisons\<close>

text \<open>
  The converting constructors build \<^verbatim>\<open>T{}\<close> first and construct over it: the default value is
  lost unless its destructor is trivial.
\<close>

lemma expected_convert_loses_default:
  assumes "default_ctor T = Some d" "\<not> is_void T" "\<not> trivially_destructible T"
  shows "expected_convert T E cT cE (x, y) = Undefined LostObject"
  using assms by (simp add: expected_convert_def expected_defs exp_ops)

lemma expected_convert_ok:
  assumes "default_ctor T = Some d" "\<not> is_void T" "trivially_destructible T" "exp_wf U y" "\<not> is_void U"
    and "\<And>v. cT v = (Some (tT v), rT v)" "\<And>g. cE g = (Some (tE g), rE g)"
  shows "done_ok (\<lambda>s _. exp_wf T (fst s) \<and> exp_abs (fst s) = map_sum tE (map_option tT) (exp_abs y))
    (expected_convert T E cT cE (x, y))"
  using assms(4) assms(1-3,5-7) by (elim exp_wf_cases)
    (simp_all add: expected_convert_def expected_defs exp_ops conv_get_def conv_error_def
      unexpected_value_def)

lemma expected_value_outcome:
  assumes "exp_wf T x" "\<not> is_void T" "regular E"
  shows "expected_value exc E x = (case exp_abs x of
      Inr v \<Rightarrow> Done x (the v)
    | Inl e \<Rightarrow> if exc then Thrown x (Bad_expected_access e) else Undefined Unreachable)"
  using assms(1,2) by (elim exp_wf_cases)
    (simp_all add: expected_value_def expected_deref_def bad_expected_access_def throw_exception_def
      unexpected_value_def regular_eqs [OF assms(3)])

lemma expected_eq_iff:
  assumes "exp_wf T x" "exp_wf T y" "\<not> is_void T"
  shows "expected_eq x y = Some (exp_abs x = exp_abs y)" "expected_neq x y = Some (exp_abs x \<noteq> exp_abs y)"
  using assms by (elim exp_wf_cases; simp add: expected_eq_def expected_neq_def unexpected_value_def)+

text \<open>
  \<^verbatim>\<open>or_else\<close> with a callable that returns nothing, on an rvalue, returns the error after the
  callable was given it to move from.
\<close>

lemma or_else_void_returns_moved_error:
  "done_ok (\<lambda>_ y. exp_abs y = Inl 0)
     (expected_or_else RRef string_like string_like None (\<lambda>e. (Some e, 0)) sample_err
        :: ((nat, nat) exp_obj, nat, (nat, nat) exp_obj) outcome)"
  by (simp add: functional_ops forward_self_def move_base_def construct_from_rhs_def no_init_obj_def
      sample_simps exp_ops unexpected_type_def init_from_def is_void_or_def is_const_cat_def)

text \<open>The special members of \<^verbatim>\<open>expected\<close> are those that its two types allow.\<close>

lemma expected_special_members_iff:
  "has_copy_ctor (expected_special_members T E) \<longleftrightarrow>
     is_copy_constructible_or_void T \<and> copy_constructible E"
  "has_move_assign (expected_special_members T E) \<longleftrightarrow>
     is_move_constructible_or_void T \<and> move_constructible E
     \<and> is_move_assignable_or_void T \<and> move_assignable E"
  "has_default_ctor (expected_special_members T E) \<longleftrightarrow> default_constructible T \<or> is_void T"
  by (simp_all add: expected_special_members_def derived_members_def delete_ctor_base_def
      delete_assign_base_def default_ctor_base_def Let_def conj_assoc)

end
