(* ===== verification/Inplace_Function.thy ===== *)
theory Inplace_Function
  imports Cpp_Object
begin

text \<open>
  \<^verbatim>\<open>stdext::inplace_function\<close> (\<^verbatim>\<open>externals/include/inplace_function.h\<close>): a function object
  that stores its closure in its own bytes and a pointer to a table of the closure's operations.
  Closure types are names \<open>'k\<close> with their operations in \<open>classes\<close>; the storage remembers which
  object lives in it, so that an operation of the wrong table is a fault of the model.
\<close>

section \<open>Closures and storage\<close>

text \<open>A closure type; a call may throw and may change the closure, which is stored \<^verbatim>\<open>mutable\<close>.\<close>

record ('c, 'a, 'r) closure_class =
  cc_size :: nat
  cc_align :: nat
  cc_type :: "'c cpp_type"
  cc_call :: "'c \<Rightarrow> 'a \<Rightarrow> 'r option \<times> 'c"
  cc_nothrow_call :: bool

datatype ('k, 'c) slot = Raw | Live 'k 'c

datatype 'k vptr = Empty_vtable | Vtable 'k

type_synonym ('k, 'c, 'a, 'r) closures = "'k \<Rightarrow> ('c, 'a, 'r) closure_class"

text \<open>
  A table of operations: on the storage for a call and for the destructor, on destination and
  source for copies and moves.
\<close>

record ('k, 'c, 'a, 'r, 'x) vtable =
  invoke_ptr :: "'a \<Rightarrow> (('k, 'c) slot, 'x, 'r) act"
  copy_ptr :: "(('k, 'c) slot \<times> ('k, 'c) slot, 'x, unit) act"
  relocate_ptr :: "(('k, 'c) slot \<times> ('k, 'c) slot, 'x, unit) act"
  destructor_ptr :: "(('k, 'c) slot, 'x, unit) act"

definition empty_vtable :: "('k, 'c, 'a, 'r, 'x) vtable" where
  "empty_vtable = \<lparr>
     invoke_ptr = (\<lambda>args st. Thrown st Bad_function_call),
     copy_ptr = (\<lambda>s. Done s ()),
     relocate_ptr = (\<lambda>s. Done s ()),
     destructor_ptr = (\<lambda>st. Done st ())\<rparr>"

text \<open>Storage that a new closure takes over must not hold one whose destructor matters.\<close>

definition slot_free :: "('k, 'c, 'a, 'r) closures \<Rightarrow> ('k, 'c) slot \<Rightarrow> bool" where
  "slot_free K st = (case st of Raw \<Rightarrow> True | Live k c \<Rightarrow> trivially_destructible (cc_type (K k)))"

definition cast_slot :: "'k \<Rightarrow> ('k, 'c) slot \<Rightarrow> 'c option" where
  "cast_slot k st = (case st of Live k' c \<Rightarrow> if k' = k then Some c else None | Raw \<Rightarrow> None)"

definition closure_vtable :: "('k, 'c, 'a, 'r) closures \<Rightarrow> 'k \<Rightarrow> ('k, 'c, 'a, 'r, 'x) vtable" where
  "closure_vtable K k = \<lparr>
     invoke_ptr = (\<lambda>args. noexcept_if (cc_nothrow_call (K k)) (\<lambda>st. case cast_slot k st of
         None \<Rightarrow> Undefined DeadObject
       | Some c \<Rightarrow> (case cc_call (K k) c args of
           (Some r, c') \<Rightarrow> Done (Live k c') r
         | (None, c') \<Rightarrow> Thrown (Live k c') UserExn))),
     copy_ptr = noexcept_if (nothrow_copy_constructible (cc_type (K k))) (\<lambda>(dst, src).
       case cast_slot k src of
         None \<Rightarrow> Undefined DeadObject
       | Some c \<Rightarrow> if \<not> slot_free K dst then Undefined LostObject
           else (case copy_ctor (cc_type (K k)) c of
               Some c' \<Rightarrow> Done (Live k c', src) ()
             | None \<Rightarrow> Thrown (Raw, src) UserExn)),
     relocate_ptr = noexcept_if (nothrow_move_constructible (cc_type (K k))) (\<lambda>(dst, src).
       case cast_slot k src of
         None \<Rightarrow> Undefined DeadObject
       | Some c \<Rightarrow> if \<not> slot_free K dst then Undefined LostObject
           else (case move_ctor (cc_type (K k)) c of
               (Some c', rest) \<Rightarrow> Done (Live k c', Raw) ()
             | (None, rest) \<Rightarrow> Thrown (Raw, Live k rest) UserExn)),
     destructor_ptr = (\<lambda>st. case cast_slot k st of
         None \<Rightarrow> Undefined DeadObject | Some c \<Rightarrow> Done Raw ())\<rparr>"

definition vtable_of :: "('k, 'c, 'a, 'r) closures \<Rightarrow> 'k vptr \<Rightarrow> ('k, 'c, 'a, 'r, 'x) vtable" where
  "vtable_of K v = (case v of Empty_vtable \<Rightarrow> empty_vtable | Vtable k \<Rightarrow> closure_vtable K k)"

text \<open>The compile-time conditions: alignments, capacities and the conversion between them.\<close>

definition maybe_align :: "nat \<Rightarrow> nat \<times> nat \<Rightarrow> nat" where
  "maybe_align cap t = (if fst t \<le> cap then snd t else 1)"

text \<open>
  The alignment of \<^verbatim>\<open>aligned_storage_helper<Cap>\<close>: of those members that are not larger than the
  capacity; \<open>types\<close> lists their sizes and alignments on the platform.
\<close>

definition aligned_storage_helper :: "(nat \<times> nat) list \<Rightarrow> nat \<Rightarrow> nat" where
  "aligned_storage_helper types cap = fold max (map (maybe_align cap) types) 1"

definition is_valid_inplace_dst :: "nat \<Rightarrow> nat \<Rightarrow> nat \<Rightarrow> nat \<Rightarrow> bool" where
  "is_valid_inplace_dst dstCap dstAlign srcCap srcAlign \<longleftrightarrow> srcCap \<le> dstCap \<and> dstAlign mod srcAlign = 0"

definition closure_fits :: "nat \<Rightarrow> nat \<Rightarrow> ('c, 'a, 'r) closure_class \<Rightarrow> bool" where
  "closure_fits cap al C \<longleftrightarrow> copy_constructible (cc_type C) \<and> cc_size C \<le> cap \<and> al mod cc_align C = 0"

section \<open>The class\<close>

record ('k, 'c) inplace_function =
  vtable_ptr :: "'k vptr"
  storage :: "('k, 'c) slot"

definition if_default :: "('k, 'c) inplace_function" where
  "if_default = \<lparr>vtable_ptr = Empty_vtable, storage = Raw\<rparr>"

definition if_nullptr :: "('k, 'c) inplace_function" where
  "if_nullptr = \<lparr>vtable_ptr = Empty_vtable, storage = Raw\<rparr>"

text \<open>From a closure of type \<open>k\<close>; \<open>None\<close> is a closure that does not compile.\<close>

definition if_closure ::
    "nat \<Rightarrow> nat \<Rightarrow> ('k, 'c, 'a, 'r) closures \<Rightarrow> 'k \<Rightarrow> ('s, 'x, 'c) act \<Rightarrow>
     ('s, 'x, ('k, 'c) inplace_function) act option" where
  "if_closure cap al K k mk = (if closure_fits cap al (K k)
     then Some (bind_a mk (\<lambda>c. ret_a \<lparr>vtable_ptr = Vtable k, storage = Live k c\<rparr>))
     else None)"

type_synonym ('k, 'c) if_pair = "('k, 'c) inplace_function \<times> ('k, 'c) inplace_function"

text \<open>Running an operation on the two storages, and on the storage of \<^verbatim>\<open>*this\<close>.\<close>

definition on_storages ::
    "(('k, 'c) slot \<times> ('k, 'c) slot, 'x, unit) act \<Rightarrow> (('k, 'c) if_pair, 'x, unit) act" where
  "on_storages f = (\<lambda>(x, y). case f (storage x, storage y) of
      Done (a, b) _ \<Rightarrow> Done (x\<lparr>storage := a\<rparr>, y\<lparr>storage := b\<rparr>) ()
    | Thrown (a, b) e \<Rightarrow> Thrown (x\<lparr>storage := a\<rparr>, y\<lparr>storage := b\<rparr>) e
    | Undefined u \<Rightarrow> Undefined u
    | Terminated \<Rightarrow> Terminated)"

definition on_storage ::
    "(('k, 'c) slot, 'x, 'r) act \<Rightarrow> (('k, 'c) inplace_function, 'x, 'r) act" where
  "on_storage f = (\<lambda>x. case f (storage x) of
      Done a r \<Rightarrow> Done (x\<lparr>storage := a\<rparr>) r
    | Thrown a e \<Rightarrow> Thrown (x\<lparr>storage := a\<rparr>) e
    | Undefined u \<Rightarrow> Undefined u
    | Terminated \<Rightarrow> Terminated)"

definition on_this ::
    "(('k, 'c) inplace_function, 'x, 'r) act \<Rightarrow> (('k, 'c) if_pair, 'x, 'r) act" where
  "on_this f = (\<lambda>(x, y). case f x of
      Done x' r \<Rightarrow> Done (x', y) r | Thrown x' e \<Rightarrow> Thrown (x', y) e
    | Undefined u \<Rightarrow> Undefined u | Terminated \<Rightarrow> Terminated)"

text \<open>The constructors get raw storage; the object of the first component is the new one.\<close>

definition if_copy_ctor :: "('k, 'c, 'a, 'r) closures \<Rightarrow> (('k, 'c) if_pair, 'x, unit) act" where
  "if_copy_ctor K = (\<lambda>(_, other).
     on_storages (copy_ptr (vtable_of K (vtable_ptr other)))
       (\<lparr>vtable_ptr = vtable_ptr other, storage = Raw\<rparr>, other))"

definition if_move_ctor :: "('k, 'c, 'a, 'r) closures \<Rightarrow> (('k, 'c) if_pair, 'x, unit) act" where
  "if_move_ctor K = (\<lambda>(_, other).
     on_storages (relocate_ptr (vtable_of K (vtable_ptr other)))
       (\<lparr>vtable_ptr = vtable_ptr other, storage = Raw\<rparr>, other\<lparr>vtable_ptr := Empty_vtable\<rparr>))"

definition if_dtor :: "('k, 'c, 'a, 'r) closures \<Rightarrow> (('k, 'c) inplace_function, 'x, unit) act" where
  "if_dtor K = (\<lambda>x. on_storage (destructor_ptr (vtable_of K (vtable_ptr x))) x)"

definition if_assign_nullptr ::
    "('k, 'c, 'a, 'r) closures \<Rightarrow> (('k, 'c) inplace_function, 'x, unit) act" where
  "if_assign_nullptr K = noexcept_a (seq_a (\<lambda>x. on_storage (destructor_ptr (vtable_of K (vtable_ptr x))) x)
     (\<lambda>x. Done (x\<lparr>vtable_ptr := Empty_vtable\<rparr>) ()))"

text \<open>\<open>self\<close>: the argument is \<^verbatim>\<open>*this\<close>.\<close>

definition if_copy_assign ::
    "bool \<Rightarrow> ('k, 'c, 'a, 'r) closures \<Rightarrow> (('k, 'c) if_pair, 'x, unit) act" where
  "if_copy_assign self K = (\<lambda>(x, other).
     if self then Done (x, other) ()
     else seq_a (on_this (on_storage (destructor_ptr (vtable_of K (vtable_ptr x)))))
       (\<lambda>(x', other'). on_storages (copy_ptr (vtable_of K (vtable_ptr other')))
          (x'\<lparr>vtable_ptr := vtable_ptr other'\<rparr>, other')) (x, other))"

definition if_move_assign ::
    "bool \<Rightarrow> ('k, 'c, 'a, 'r) closures \<Rightarrow> (('k, 'c) if_pair, 'x, unit) act" where
  "if_move_assign self K = (\<lambda>(x, other).
     if self then Done (x, other) ()
     else seq_a (on_this (on_storage (destructor_ptr (vtable_of K (vtable_ptr x)))))
       (\<lambda>(x', other'). on_storages (relocate_ptr (vtable_of K (vtable_ptr other')))
          (x'\<lparr>vtable_ptr := vtable_ptr other'\<rparr>, other'\<lparr>vtable_ptr := Empty_vtable\<rparr>)) (x, other))"

definition if_call :: "('k, 'c, 'a, 'r) closures \<Rightarrow> 'a \<Rightarrow> (('k, 'c) inplace_function, 'x, 'r) act" where
  "if_call K args = (\<lambda>x. on_storage (invoke_ptr (vtable_of K (vtable_ptr x)) args) x)"

definition if_bool :: "('k, 'c) inplace_function \<Rightarrow> bool" where
  "if_bool x \<longleftrightarrow> vtable_ptr x \<noteq> Empty_vtable"

definition if_eq_nullptr :: "('k, 'c) inplace_function \<Rightarrow> bool" where
  "if_eq_nullptr x \<longleftrightarrow> \<not> if_bool x"

definition if_neq_nullptr :: "('k, 'c) inplace_function \<Rightarrow> bool" where
  "if_neq_nullptr x \<longleftrightarrow> if_bool x"

text \<open>The private constructor, and the conversions to another capacity that use it.\<close>

definition if_private_ctor ::
    "'k vptr \<Rightarrow> (('k, 'c) slot \<times> ('k, 'c) slot, 'x, unit) act \<Rightarrow> (('k, 'c) if_pair, 'x, unit) act" where
  "if_private_ctor v process = (\<lambda>(_, src). on_storages process (\<lparr>vtable_ptr = v, storage = Raw\<rparr>, src))"

definition if_convert_copy ::
    "nat \<times> nat \<Rightarrow> nat \<times> nat \<Rightarrow> ('k, 'c, 'a, 'r) closures \<Rightarrow> (('k, 'c) if_pair, 'x, unit) act option" where
  "if_convert_copy dst src K = (if is_valid_inplace_dst (fst dst) (snd dst) (fst src) (snd src)
     then Some (\<lambda>(n, x). if_private_ctor (vtable_ptr x) (copy_ptr (vtable_of K (vtable_ptr x))) (n, x))
     else None)"

definition if_convert_move ::
    "nat \<times> nat \<Rightarrow> nat \<times> nat \<Rightarrow> ('k, 'c, 'a, 'r) closures \<Rightarrow> (('k, 'c) if_pair, 'x, unit) act option" where
  "if_convert_move dst src K = (if is_valid_inplace_dst (fst dst) (snd dst) (fst src) (snd src)
     then Some (\<lambda>(n, x). if_private_ctor (vtable_ptr x) (relocate_ptr (vtable_of K (vtable_ptr x)))
                  (n, x\<lparr>vtable_ptr := Empty_vtable\<rparr>))
     else None)"

text \<open>
  \<^verbatim>\<open>swap\<close>, by way of a storage \<^verbatim>\<open>tmp\<close>. Each call relocates between two of the three storages;
  the state of the loop is the two objects and \<^verbatim>\<open>tmp\<close>.
\<close>

definition if_swap ::
    "bool \<Rightarrow> ('k, 'c, 'a, 'r) closures \<Rightarrow> (('k, 'c) if_pair, 'x, unit) act" where
  "if_swap self K = (\<lambda>(x, other).
     if self then Done (x, other) ()
     else (case relocate_ptr (vtable_of K (vtable_ptr x)) (Raw, storage x) of
         Done (tmp, sx) _ \<Rightarrow>
           (case relocate_ptr (vtable_of K (vtable_ptr other)) (sx, storage other) of
              Done (sx', so) _ \<Rightarrow>
                (case relocate_ptr (vtable_of K (vtable_ptr x)) (so, tmp) of
                   Done (so', tmp') _ \<Rightarrow>
                     Done (\<lparr>vtable_ptr = vtable_ptr other, storage = sx'\<rparr>,
                           \<lparr>vtable_ptr = vtable_ptr x, storage = so'\<rparr>) ()
                 | Thrown (so', tmp') e \<Rightarrow> Thrown (x\<lparr>storage := sx'\<rparr>, other\<lparr>storage := so'\<rparr>) e
                 | Undefined u \<Rightarrow> Undefined u
                 | Terminated \<Rightarrow> Terminated)
            | Thrown (sx', so) e \<Rightarrow> Thrown (x\<lparr>storage := sx'\<rparr>, other\<lparr>storage := so\<rparr>) e
            | Undefined u \<Rightarrow> Undefined u
            | Terminated \<Rightarrow> Terminated)
       | Thrown (tmp, sx) e \<Rightarrow> Thrown (x\<lparr>storage := sx\<rparr>, other) e
       | Undefined u \<Rightarrow> Undefined u
       | Terminated \<Rightarrow> Terminated))"

section \<open>What the operations do\<close>

text \<open>The table fits the storage; the content is what the object stands for.\<close>

definition if_wf :: "('k, 'c) inplace_function \<Rightarrow> bool" where
  "if_wf x = (case vtable_ptr x of
      Empty_vtable \<Rightarrow> storage x = Raw
    | Vtable k \<Rightarrow> (case storage x of Live k' c \<Rightarrow> k' = k | Raw \<Rightarrow> False))"

definition content :: "('k, 'c) inplace_function \<Rightarrow> ('k \<times> 'c) option" where
  "content x = (case storage x of Raw \<Rightarrow> None | Live k c \<Rightarrow> Some (k, c))"

lemma if_wf_cases:
  assumes "if_wf x"
  obtains (empty) "x = \<lparr>vtable_ptr = Empty_vtable, storage = Raw\<rparr>"
  | (live) k c where "x = \<lparr>vtable_ptr = Vtable k, storage = Live k c\<rparr>"
  using assms by (cases x; cases "vtable_ptr x"; cases "storage x") (auto simp: if_wf_def)

lemma if_wf_simps [simp]:
  "if_wf \<lparr>vtable_ptr = Empty_vtable, storage = st\<rparr> \<longleftrightarrow> st = Raw"
  "if_wf \<lparr>vtable_ptr = Vtable k, storage = Live k' c\<rparr> \<longleftrightarrow> k' = k"
  "\<not> if_wf \<lparr>vtable_ptr = Vtable k, storage = Raw\<rparr>"
  by (simp_all add: if_wf_def)

lemma content_simps [simp]:
  "content \<lparr>vtable_ptr = v, storage = Raw\<rparr> = None"
  "content \<lparr>vtable_ptr = v, storage = Live k c\<rparr> = Some (k, c)"
  by (simp_all add: content_def)

lemma cast_slot_simps [simp]:
  "cast_slot k Raw = None" "cast_slot k (Live k' c) = (if k' = k then Some c else None)"
  by (simp_all add: cast_slot_def)

lemma slot_free_Raw [simp]: "slot_free K Raw"
  by (simp add: slot_free_def)

lemmas if_ops = empty_vtable_def closure_vtable_def vtable_of_def on_storages_def on_storage_def on_this_def
  if_copy_ctor_def if_move_ctor_def if_dtor_def if_assign_nullptr_def if_copy_assign_def if_move_assign_def
  if_call_def if_private_ctor_def if_convert_copy_def if_convert_move_def if_swap_def

definition regular_classes :: "('k, 'c, 'a, 'r) closures \<Rightarrow> bool" where
  "regular_classes K \<longleftrightarrow> (\<forall>k. regular (cc_type (K k)))"

lemma regular_classes_eqs:
  assumes "regular_classes K"
  shows "copy_ctor (cc_type (K k)) c = Some c"
    "move_ctor (cc_type (K k)) c = (Some c, moved_from RRef (cc_type (K k)) c)"
  using regular_eqs(1,2) [of "cc_type (K k)"] assms by (simp_all add: regular_classes_def)

lemma noexcept_if_Done [simp]: "m s = Done s' a \<Longrightarrow> noexcept_if b m s = Done s' a"
  by (cases b) simp_all

text \<open>
  C33: with closures whose copies and moves succeed, the special members of
  \<^verbatim>\<open>inplace_function\<close> never use a dead closure or lose one: a copy has the content of its
  source, a move takes it and leaves the source empty, \<^verbatim>\<open>swap\<close> exchanges contents, and the
  destructor and the assignment of \<^verbatim>\<open>nullptr\<close> destroy the closure.
\<close>

theorem inplace_function_members:
  assumes x: "if_wf x" "if_wf y" and K: "regular_classes K"
  shows "done_ok (\<lambda>(x', y') _. if_wf x' \<and> content x' = content y \<and> y' = y) (if_copy_ctor K (n, y))
    \<and> done_ok (\<lambda>(x', y') _. if_wf x' \<and> content x' = content y \<and> y' = if_default) (if_move_ctor K (n, y))
    \<and> done_ok (\<lambda>(x', y') _. if_wf x' \<and> content x' = content y \<and> y' = y) (if_copy_assign False K (x, y))
    \<and> done_ok (\<lambda>(x', y') _. if_wf x' \<and> content x' = content y \<and> y' = if_default) (if_move_assign False K (x, y))
    \<and> if_swap False K (x, y) = Done (y, x) ()
    \<and> done_ok (\<lambda>x' _. content x' = None) (if_dtor K x)
    \<and> if_assign_nullptr K x = Done if_default ()"
  using x by (elim if_wf_cases)
    (simp_all add: if_ops if_default_def regular_classes_eqs [OF K])

text \<open>Two closure types with a number as state: a call adds to it; the second type's copies throw.\<close>

definition sample_classes :: "(bool, nat, nat, nat) closures" where
  "sample_classes b = \<lparr>cc_size = 8, cc_align = 8, cc_type = owning_type 0 (\<lambda>n. b \<and> n = 13),
     cc_call = (\<lambda>c a. (Some (c + a), c + a)), cc_nothrow_call = False\<rparr>"

definition calm_classes :: "(bool, nat, nat, nat) closures" where
  "calm_classes b = \<lparr>cc_size = 8, cc_align = 8, cc_type = owning_type 0 (\<lambda>n. False),
     cc_call = (\<lambda>c a. (Some (c + a), c + a)), cc_nothrow_call = False\<rparr>"

theorem inplace_function_members_witness:
  "if_swap False calm_classes
     (\<lparr>vtable_ptr = Vtable True, storage = Live True 4\<rparr>, if_default)
   = (Done (if_default, \<lparr>vtable_ptr = Vtable True, storage = Live True 4\<rparr>) ()
        :: ((bool, nat) if_pair, nat, unit) outcome)"
proof -
  have "regular_classes calm_classes"
    by (simp add: regular_classes_def calm_classes_def owning_type_regular)
  then show ?thesis
    by (intro inplace_function_members [THEN conjunct2, THEN conjunct2, THEN conjunct2, THEN conjunct2,
          THEN conjunct1]) (simp_all add: if_default_def)
qed

lemma if_call_outcome:
  assumes "if_wf x"
  shows "if_call K a x = (case content x of
      None \<Rightarrow> Thrown x Bad_function_call
    | Some (k, c) \<Rightarrow> (case cc_call (K k) c a of
        (Some r, c') \<Rightarrow> Done (x\<lparr>storage := Live k c'\<rparr>) r
      | (None, c') \<Rightarrow> if cc_nothrow_call (K k) then Terminated
          else Thrown (x\<lparr>storage := Live k c'\<rparr>) UserExn))"
  using assms by (elim if_wf_cases)
    (auto simp: if_ops noexcept_if_def split: prod.splits option.splits)

lemma if_bool_iff: "if_wf x \<Longrightarrow> if_bool x \<longleftrightarrow> content x \<noteq> None"
  by (elim if_wf_cases) (simp_all add: if_bool_def)

lemma if_convert_ok:
  assumes "if_wf y" "regular_classes K" "if_convert_move dst src K = Some f"
  shows "done_ok (\<lambda>(x', y') _. if_wf x' \<and> content x' = content y \<and> y' = if_default) (f (n, y))"
  using assms(1,3) by (elim if_wf_cases)
    (auto simp: if_ops if_default_def regular_classes_eqs [OF assms(2)] split: if_splits)

lemma is_valid_inplace_dst_trans:
  "is_valid_inplace_dst c1 a1 c2 a2 \<Longrightarrow> is_valid_inplace_dst c2 a2 c3 a3 \<Longrightarrow> is_valid_inplace_dst c1 a1 c3 a3"
  by (auto simp: is_valid_inplace_dst_def dvd_trans simp flip: dvd_eq_mod_eq_0)

text \<open>A closure that fits an object fits every object the first converts to.\<close>

lemma closure_fits_dst:
  "closure_fits c2 a2 C \<Longrightarrow> is_valid_inplace_dst c1 a1 c2 a2 \<Longrightarrow> closure_fits c1 a1 C"
  by (auto simp: closure_fits_def is_valid_inplace_dst_def dvd_trans simp flip: dvd_eq_mod_eq_0)

section \<open>Copies that throw\<close>

text \<open>
  the copy assignment destroys the old closure and takes over the table before it copies.
  When the copy throws, \<^verbatim>\<open>*this\<close> is left with the table of a closure that is not there, and its
  destructor, which is bound to run, is undefined.
\<close>

theorem inplace_copy_assign_throws:
  assumes x: "if_wf x" and y: "y = \<lparr>vtable_ptr = Vtable k, storage = Live k c\<rparr>"
    and c: "copy_ctor (cc_type (K k)) c = None" "\<not> nothrow_copy_constructible (cc_type (K k))"
  shows "\<exists>x'. if_copy_assign False K (x, y) = Thrown (x', y) UserExn \<and> if_dtor K x' = Undefined DeadObject"
  using x by (elim if_wf_cases) (simp_all add: y if_ops c)

theorem inplace_copy_assign_throws_witness:
  "\<exists>x'. if_copy_assign False sample_classes (if_default, \<lparr>vtable_ptr = Vtable True, storage = Live True 13\<rparr>)
     = (Thrown (x', \<lparr>vtable_ptr = Vtable True, storage = Live True 13\<rparr>) UserExn
          :: ((bool, nat) if_pair, nat, unit) outcome)
   \<and> if_dtor sample_classes x' = (Undefined DeadObject :: ((bool, nat) inplace_function, nat, unit) outcome)"
  by (rule inplace_copy_assign_throws) (simp_all add: if_default_def sample_classes_def owning_type_def)

text \<open>
  A move that throws leaves the closure in the storage of the source, whose table was already
  replaced by the empty one: it is never destroyed.
\<close>

lemma if_move_assign_throws:
  assumes "if_wf x" "move_ctor (cc_type (K k)) c = (None, rest)" "\<not> nothrow_move_constructible (cc_type (K k))"
  shows "\<exists>x'. if_move_assign False K (x, \<lparr>vtable_ptr = Vtable k, storage = Live k c\<rparr>)
     = Thrown (x', \<lparr>vtable_ptr = Empty_vtable, storage = Live k rest\<rparr>) UserExn"
  using assms(1) by (elim if_wf_cases) (simp_all add: if_ops assms(2,3))

end
