(* ===== verification/Mpmc_Queue.thy ===== *)
theory Mpmc_Queue
  imports Prelude
begin

text \<open>
  The bounded queue for many producers and many consumers of
  \<^verbatim>\<open>externals/include/mpmc_bounded_queue.h\<close>, on 64-bit positions. \<^verbatim>\<open>enqueue\<close> and \<^verbatim>\<open>dequeue\<close>
  are programs of one atomic access per step, so that any number of threads can be interleaved;
  memory is sequentially consistent. \<^verbatim>\<open>compare_exchange_weak\<close> may fail spuriously.
\<close>

unbundle bit_operations_syntax

section \<open>The queue\<close>

record 'a cell_t =
  cell_sequence :: u64
  cell_data :: 'a

record 'a mpmc =
  max_size :: u64
  buffer :: "'a cell_t list"
  buffer_mask :: u64
  enqueue_pos :: u64
  dequeue_pos :: u64

text \<open>The constructor; \<open>d\<close> is the default value of the elements.\<close>

definition pow2_size :: "u64 \<Rightarrow> bool" where
  "pow2_size n \<longleftrightarrow> 2 \<le> n \<and> n AND (n - 1) = 0"

definition new_mpmc :: "bool \<Rightarrow> 'a \<Rightarrow> u64 \<Rightarrow> 'a mpmc result" where
  "new_mpmc ndebug d buffer_size =
     (if \<not> pow2_size buffer_size \<and> \<not> ndebug then Inl AssertFailure
      else Inr \<lparr>max_size = buffer_size,
        buffer = map (\<lambda>i. \<lparr>cell_sequence = of_nat i, cell_data = d\<rparr>) [0..<unat buffer_size],
        buffer_mask = buffer_size - 1, enqueue_pos = 0, dequeue_pos = 0\<rparr>)"

text \<open>\<^verbatim>\<open>pos & buffer_mask_\<close>, and the signed difference of two positions.\<close>

definition cell_index :: "'a mpmc \<Rightarrow> u64 \<Rightarrow> nat" where
  "cell_index q pos = unat (pos AND buffer_mask q)"

definition dif :: "u64 \<Rightarrow> u64 \<Rightarrow> int" where
  "dif sq pos = sint sq - sint pos"

section \<open>Threads\<close>

text \<open>
  Where a thread is: before the load of a position, of the cell's sequence number, before the
  compare-and-exchange, the access to the data, the store of the sequence number; or returned.
\<close>

datatype 'a pc =
    Idle
  | E_load 'a | E_seq 'a u64 | E_cas 'a u64 | E_write 'a u64 | E_publish 'a u64 | E_ret bool
  | D_load | D_seq u64 | D_cas u64 | D_read u64 | D_release u64 'a | D_ret "'a option"

fun enqueue_step :: "bool \<Rightarrow> 'a pc \<Rightarrow> 'a mpmc \<Rightarrow> 'a pc \<times> 'a mpmc" where
  "enqueue_step weak (E_load x) q = (E_seq x (enqueue_pos q), q)"
| "enqueue_step weak (E_seq x pos) q =
     (let sq = cell_sequence (buffer q ! cell_index q pos); d = dif sq pos
      in if d = 0 then (E_cas x pos, q) else if d < 0 then (E_ret False, q) else (E_load x, q))"
| "enqueue_step weak (E_cas x pos) q =
     (if enqueue_pos q = pos \<and> \<not> weak then (E_write x pos, q\<lparr>enqueue_pos := pos + 1\<rparr>)
      else (E_seq x (enqueue_pos q), q))"
| "enqueue_step weak (E_write x pos) q =
     (E_publish x pos, q\<lparr>buffer := (buffer q)[cell_index q pos :=
        (buffer q ! cell_index q pos)\<lparr>cell_data := x\<rparr>]\<rparr>)"
| "enqueue_step weak (E_publish x pos) q =
     (E_ret True, q\<lparr>buffer := (buffer q)[cell_index q pos :=
        (buffer q ! cell_index q pos)\<lparr>cell_sequence := pos + 1\<rparr>]\<rparr>)"
| "enqueue_step weak p q = (p, q)"

fun dequeue_step :: "bool \<Rightarrow> 'a pc \<Rightarrow> 'a mpmc \<Rightarrow> 'a pc \<times> 'a mpmc" where
  "dequeue_step weak D_load q = (D_seq (dequeue_pos q), q)"
| "dequeue_step weak (D_seq pos) q =
     (let sq = cell_sequence (buffer q ! cell_index q pos); d = dif sq (pos + 1)
      in if d = 0 then (D_cas pos, q) else if d < 0 then (D_ret None, q) else (D_load, q))"
| "dequeue_step weak (D_cas pos) q =
     (if dequeue_pos q = pos \<and> \<not> weak then (D_read pos, q\<lparr>dequeue_pos := pos + 1\<rparr>)
      else (D_seq (dequeue_pos q), q))"
| "dequeue_step weak (D_read pos) q =
     (D_release pos (cell_data (buffer q ! cell_index q pos)), q)"
| "dequeue_step weak (D_release pos x) q =
     (D_ret (Some x), q\<lparr>buffer := (buffer q)[cell_index q pos :=
        (buffer q ! cell_index q pos)\<lparr>cell_sequence := pos + buffer_mask q + 1\<rparr>]\<rparr>)"
| "dequeue_step weak p q = (p, q)"

definition approx_size :: "'a mpmc \<Rightarrow> u64" where
  "approx_size q = (let first_pos = dequeue_pos q; last_pos = enqueue_pos q
     in if last_pos \<le> first_pos then 0
        else let sz = last_pos - first_pos in if sz < max_size q then sz else max_size q)"

section \<open>Interleaving\<close>

text \<open>
  Any number of threads on one queue. The history variables are the elements in the order in
  which their positions were claimed, and the dequeued elements with their positions.
\<close>

record 'a mpmc_sys =
  que :: "'a mpmc"
  thr :: "nat \<Rightarrow> 'a pc"
  claimed :: "'a list"
  taken :: "(nat \<times> 'a) list"

fun at_rest :: "'a pc \<Rightarrow> bool" where
  "at_rest Idle = True"
| "at_rest (E_ret _) = True"
| "at_rest (D_ret _) = True"
| "at_rest _ = False"

fun claim_log :: "'a pc \<Rightarrow> 'a pc \<Rightarrow> 'a list \<Rightarrow> 'a list" where
  "claim_log (E_cas x _) (E_write _ _) l = l @ [x]"
| "claim_log _ _ l = l"

fun take_log :: "'a pc \<Rightarrow> (nat \<times> 'a) list \<Rightarrow> (nat \<times> 'a) list" where
  "take_log (D_release pos x) l = l @ [(unat pos, x)]"
| "take_log _ l = l"

inductive mpmc_step :: "'a mpmc_sys \<Rightarrow> 'a mpmc_sys \<Rightarrow> bool" where
  call_enqueue: "at_rest (thr s i) \<Longrightarrow> mpmc_step s (s\<lparr>thr := (thr s)(i := E_load x)\<rparr>)"
| call_dequeue: "at_rest (thr s i) \<Longrightarrow> mpmc_step s (s\<lparr>thr := (thr s)(i := D_load)\<rparr>)"
| enqueue: "enqueue_step weak (thr s i) (que s) = (p, q) \<Longrightarrow>
    mpmc_step s (s\<lparr>que := q, thr := (thr s)(i := p), claimed := claim_log (thr s i) p (claimed s)\<rparr>)"
| dequeue: "dequeue_step weak (thr s i) (que s) = (p, q) \<Longrightarrow>
    mpmc_step s (s\<lparr>que := q, thr := (thr s)(i := p), taken := take_log (thr s i) (taken s)\<rparr>)"

definition mpmc_init :: "nat \<Rightarrow> 'a mpmc_sys \<Rightarrow> bool" where
  "mpmc_init n s \<longleftrightarrow> (\<exists>d. new_mpmc False d (of_nat n) = Inr (que s)) \<and> n < 2 ^ 62
     \<and> (\<forall>i. thr s i = Idle) \<and> claimed s = [] \<and> taken s = []"

text \<open>Positions stay below \<open>2 ^ 63\<close>, so that the signed differences do not overflow.\<close>

definition pos_left :: "nat \<Rightarrow> 'a mpmc_sys \<Rightarrow> bool" where
  "pos_left n s \<longleftrightarrow> length (claimed s) + n < 2 ^ 63"

section \<open>Words and positions\<close>

lemma and_pred_pow2:
  fixes n :: nat
  assumes "0 < n"
  shows "n AND (n - 1) = 0 \<longleftrightarrow> (\<exists>k. n = 2 ^ k)"
  using assms
proof (induction n rule: less_induct)
  case (less n)
  show ?case
  proof (cases "even n")
    case True
    then obtain m where n: "n = 2 * m" and m: "0 < m" using less.prems by (auto elim: evenE)
    have "n AND (n - 1) = 2 * (m AND (m - 1))"
    proof -
      have "n - 1 = 2 * (m - 1) + 1" using n m by simp
      then show ?thesis using n by (subst and_rec) simp
    qed
    then have "n AND (n - 1) = 0 \<longleftrightarrow> (\<exists>k. m = 2 ^ k)"
      using less.IH [of m] m n by simp
    also have "\<dots> \<longleftrightarrow> (\<exists>k. n = 2 ^ k)"
    proof
      assume "\<exists>k. m = 2 ^ k" then show "\<exists>k. n = 2 ^ k" using n by (metis power_Suc)
    next
      assume "\<exists>k. n = 2 ^ k"
      then obtain k where k: "n = 2 ^ k" by blast
      then have "k \<noteq> 0" using True by (auto intro: ccontr)
      then show "\<exists>k. m = 2 ^ k" using k n by (cases k) auto
    qed
    finally show ?thesis .
  next
    case False
    then obtain m where n: "n = Suc (2 * m)" by (auto elim: oddE)
    have "n AND (n - 1) = 2 * m" using n by (subst and_rec) simp
    moreover have "(\<exists>k. n = 2 ^ k) \<longleftrightarrow> m = 0"
    proof
      assume "\<exists>k. n = 2 ^ k"
      then obtain k where k: "n = 2 ^ k" by blast
      then have "k = 0" using False by (cases k) auto
      then show "m = 0" using k n by simp
    next
      assume "m = 0" then show "\<exists>k. n = 2 ^ k" using n by (intro exI [of _ 0]) simp
    qed
    ultimately show ?thesis by simp
  qed
qed

lemma pow2_size_iff:
  assumes "n < 2 ^ 64"
  shows "pow2_size (of_nat n) \<longleftrightarrow> (\<exists>k. n = 2 ^ k \<and> 1 \<le> k \<and> k < 64)"
proof (cases "2 \<le> n")
  case True
  have u: "unat (of_nat n :: u64) = n" using assms by (rule unat_of_nat_u64)
  have 1: "(2::u64) \<le> of_nat n" using True u by (simp add: word_le_nat_alt)
  then have "unat (of_nat n - 1 :: u64) = n - 1"
    using True u by (simp add: unat_sub word_le_nat_alt)
  then have "unat (of_nat n AND (of_nat n - 1) :: u64) = n AND (n - 1)"
    using u by (simp add: unsigned_and_eq)
  then have "pow2_size (of_nat n) \<longleftrightarrow> n AND (n - 1) = 0"
    using 1 by (simp add: pow2_size_def unat_eq_0 [symmetric] del: unat_eq_0)
  also have "\<dots> \<longleftrightarrow> (\<exists>k. n = 2 ^ k)" using True by (intro and_pred_pow2) simp
  also have "\<dots> \<longleftrightarrow> (\<exists>k. n = 2 ^ k \<and> 1 \<le> k \<and> k < 64)"
  proof
    assume "\<exists>k. n = 2 ^ k"
    then obtain k where k: "n = 2 ^ k" by blast
    then have "k < 64" using assms by (metis one_less_numeral_iff power_strict_increasing_iff semiring_norm(76))
    moreover have "1 \<le> k" using k True by (cases k) auto
    ultimately show "\<exists>k. n = 2 ^ k \<and> 1 \<le> k \<and> k < 64" using k by blast
  qed blast
  finally show ?thesis .
next
  case False
  then have "n = 0 \<or> n = 1" by auto
  moreover have "\<not> (\<exists>k. n = 2 ^ k \<and> 1 \<le> k \<and> k < 64)"
  proof
    assume "\<exists>k. n = 2 ^ k \<and> 1 \<le> k \<and> k < 64"
    then obtain k where "n = 2 ^ k" "1 \<le> k" by blast
    then have "2 ^ 1 \<le> n" by (metis one_le_numeral power_increasing)
    then show False using False by simp
  qed
  moreover have "\<not> (2::u64) \<le> 0" "\<not> (2::u64) \<le> 1" by (simp_all add: word_le_nat_alt)
  ultimately show ?thesis by (auto simp: pow2_size_def)
qed

lemma and_mask_mod:
  fixes w :: u64
  assumes "k < 64"
  shows "unat (w AND (2 ^ k - 1)) = unat w mod 2 ^ k"
proof -
  have "w AND (2 ^ k - 1) = take_bit k w"
    by (simp add: take_bit_eq_mask mask_eq_exp_minus_1)
  then have "unat (w AND (2 ^ k - 1)) = take_bit k (unat w)"
    by (simp only: unsigned_take_bit_eq)
  then show ?thesis by (simp add: take_bit_eq_mod)
qed

lemma sint_small: "unat (w :: u64) < 2 ^ 63 \<Longrightarrow> sint w = int (unat w)"
proof -
  assume "unat w < 2 ^ 63"
  then have "int (unat w) < int (2 ^ 63)" by (simp only: of_nat_less_iff)
  then have "uint w < 2 ^ 63" by simp
  then show ?thesis
    by (simp add: sint_uint signed_take_bit_int_eq_self order_trans [of _ 0])
qed

end
