(* ===== verification/Mpmc_Fifo.thy ===== *)
theory Mpmc_Fifo
  imports Mpmc_Queue
begin

text \<open>
  The invariant of the bounded queue under any interleaving: what each thread and each cell
  knows of the positions that were claimed. It makes the queue a FIFO: the element that a
  dequeue returns is the one whose position it claimed.
\<close>

section \<open>Positions as numbers\<close>

definition pos_e :: "'a mpmc_sys \<Rightarrow> nat" where "pos_e s = unat (enqueue_pos (que s))"
definition pos_d :: "'a mpmc_sys \<Rightarrow> nat" where "pos_d s = unat (dequeue_pos (que s))"

definition seqn :: "'a mpmc_sys \<Rightarrow> nat \<Rightarrow> nat" where
  "seqn s i = unat (cell_sequence (buffer (que s) ! i))"

definition cdat :: "'a mpmc_sys \<Rightarrow> nat \<Rightarrow> 'a" where
  "cdat s i = cell_data (buffer (que s) ! i)"

text \<open>The position a thread writes to, or reads from.\<close>

fun writes :: "'a pc \<Rightarrow> nat option" where
  "writes (E_write x p) = Some (unat p)"
| "writes (E_publish x p) = Some (unat p)"
| "writes _ = None"

fun reads :: "'a pc \<Rightarrow> nat option" where
  "reads (D_read p) = Some (unat p)"
| "reads (D_release p x) = Some (unat p)"
| "reads _ = None"

section \<open>The invariant\<close>

text \<open>What a thread knows: \<open>h\<close> and \<open>t\<close> are the positions of the next dequeue and enqueue.\<close>

fun pc_ok :: "nat \<Rightarrow> nat \<Rightarrow> nat \<Rightarrow> (nat \<Rightarrow> nat) \<Rightarrow> (nat \<Rightarrow> 'a) \<Rightarrow> 'a list \<Rightarrow> 'a pc \<Rightarrow> bool" where
  "pc_ok n h t sq dt cl (E_seq x p) = (unat p \<le> t)"
| "pc_ok n h t sq dt cl (E_cas x p) = (unat p \<le> t \<and> (unat p = t \<longrightarrow> sq (t mod n) = t))"
| "pc_ok n h t sq dt cl (E_write x p) =
     (h \<le> unat p \<and> unat p < t \<and> cl ! unat p = x \<and> sq (unat p mod n) = unat p)"
| "pc_ok n h t sq dt cl (E_publish x p) =
     (h \<le> unat p \<and> unat p < t \<and> cl ! unat p = x \<and> sq (unat p mod n) = unat p
      \<and> dt (unat p mod n) = x)"
| "pc_ok n h t sq dt cl (D_seq p) = (unat p \<le> h)"
| "pc_ok n h t sq dt cl (D_cas p) = (unat p \<le> h \<and> (unat p = h \<longrightarrow> sq (h mod n) = Suc h))"
| "pc_ok n h t sq dt cl (D_read p) =
     (unat p < h \<and> t \<le> unat p + n \<and> sq (unat p mod n) = Suc (unat p)
      \<and> dt (unat p mod n) = cl ! unat p)"
| "pc_ok n h t sq dt cl (D_release p x) =
     (unat p < h \<and> t \<le> unat p + n \<and> sq (unat p mod n) = Suc (unat p)
      \<and> dt (unat p mod n) = cl ! unat p \<and> x = cl ! unat p)"
| "pc_ok n h t sq dt cl _ = True"

text \<open>A cell whose last claimed position is \<open>p\<close>.\<close>

definition cell_ok :: "nat \<Rightarrow> nat \<Rightarrow> (nat \<Rightarrow> nat) \<Rightarrow> (nat \<Rightarrow> 'a) \<Rightarrow> 'a list \<Rightarrow> (nat \<Rightarrow> 'a pc) \<Rightarrow> nat \<Rightarrow> bool" where
  "cell_ok n h sq dt cl th p = (if h \<le> p
     then (sq (p mod n) = p \<and> (\<exists>i. writes (th i) = Some p))
        \<or> (sq (p mod n) = Suc p \<and> dt (p mod n) = cl ! p)
     else (sq (p mod n) = Suc p \<and> (\<exists>i. reads (th i) = Some p)) \<or> sq (p mod n) = p + n)"

definition shape_ok :: "nat \<Rightarrow> 'a mpmc_sys \<Rightarrow> bool" where
  "shape_ok n s \<longleftrightarrow> length (buffer (que s)) = n \<and> (\<exists>k. n = 2 ^ k \<and> 1 \<le> k \<and> k < 62)
     \<and> buffer_mask (que s) = of_nat n - 1 \<and> max_size (que s) = of_nat n"

definition fifo_ok :: "nat \<Rightarrow> nat \<Rightarrow> nat \<Rightarrow> (nat \<Rightarrow> nat) \<Rightarrow> (nat \<Rightarrow> 'a) \<Rightarrow> 'a list \<Rightarrow> (nat \<times> 'a) list \<Rightarrow>
    (nat \<Rightarrow> 'a pc) \<Rightarrow> bool" where
  "fifo_ok n h t sq dt cl tk th \<longleftrightarrow> t = length cl \<and> h \<le> t \<and> t \<le> h + n
     \<and> (\<forall>p<t. t \<le> p + n \<longrightarrow> cell_ok n h sq dt cl th p)
     \<and> (\<forall>p<n. t \<le> p \<longrightarrow> sq p = p)
     \<and> (\<forall>i. pc_ok n h t sq dt cl (th i))
     \<and> (\<forall>i j p. writes (th i) = Some p \<and> writes (th j) = Some p \<longrightarrow> i = j)
     \<and> (\<forall>i j p. reads (th i) = Some p \<and> reads (th j) = Some p \<longrightarrow> i = j)
     \<and> distinct (map fst tk)
     \<and> (\<forall>(p, x) \<in> set tk. p < h \<and> x = cl ! p \<and> (\<forall>i. reads (th i) \<noteq> Some p))"

definition mpmc_inv :: "nat \<Rightarrow> 'a mpmc_sys \<Rightarrow> bool" where
  "mpmc_inv n s \<longleftrightarrow> shape_ok n s
     \<and> fifo_ok n (pos_d s) (pos_e s) (seqn s) (cdat s) (claimed s) (taken s) (thr s)"

section \<open>What the steps keep\<close>

lemma window_mod_neq:
  fixes p q n t :: nat
  assumes "p < t" "t \<le> p + n" "q < t" "t \<le> q + n" "p \<noteq> q"
  shows "p mod n \<noteq> q mod n"
  using mod_window_eq [of p n q] mod_window_eq [of q n p] assms by (metis nat_le_linear less_le_trans)

text \<open>The cell that a thread relies on, and what it relies on of the data in it.\<close>

lemma pc_ok_frame:
  assumes "pc_ok n h t sq dt cl q"
    and "\<And>x p. q = E_cas x p \<Longrightarrow> unat p = t \<Longrightarrow> sq' (t mod n) = sq (t mod n)"
    and "\<And>p. q = D_cas p \<Longrightarrow> unat p = h \<Longrightarrow> sq' (h mod n) = sq (h mod n)"
    and "\<And>p. writes q = Some p \<Longrightarrow> sq' (p mod n) = sq (p mod n) \<and> dt' (p mod n) = dt (p mod n)"
    and "\<And>p. reads q = Some p \<Longrightarrow> sq' (p mod n) = sq (p mod n) \<and> dt' (p mod n) = dt (p mod n)"
  shows "pc_ok n h t sq' dt' cl q"
  using assms by (cases q) auto

lemma cell_ok_frame:
  assumes "cell_ok n h sq dt cl th p" "sq' (p mod n) = sq (p mod n)" "dt' (p mod n) = dt (p mod n)"
    and "cl' ! p = cl ! p"
    and "\<And>i. writes (th i) = Some p \<Longrightarrow> \<exists>j. writes (th' j) = Some p"
    and "\<And>i. reads (th i) = Some p \<Longrightarrow> \<exists>j. reads (th' j) = Some p"
  shows "cell_ok n h sq' dt' cl' th' p"
  using assms unfolding cell_ok_def by (metis (no_types))

lemma writes_ok:
  assumes "pc_ok n h t sq dt cl q" "writes q = Some p"
  shows "h \<le> p" "p < t" "sq (p mod n) = p"
  using assms by (cases q; auto)+

lemma reads_ok:
  assumes "pc_ok n h t sq dt cl q" "reads q = Some p"
  shows "p < h" "t \<le> p + n" "sq (p mod n) = Suc p" "dt (p mod n) = cl ! p"
  using assms by (cases q; auto)+

lemma fifo_okD:
  assumes "fifo_ok n h t sq dt cl tk th"
  shows "t = length cl" "h \<le> t" "t \<le> h + n"
    "\<And>p. p < t \<Longrightarrow> t \<le> p + n \<Longrightarrow> cell_ok n h sq dt cl th p"
    "\<And>p. p < n \<Longrightarrow> t \<le> p \<Longrightarrow> sq p = p"
    "\<And>i. pc_ok n h t sq dt cl (th i)"
    "\<And>i j p. writes (th i) = Some p \<Longrightarrow> writes (th j) = Some p \<Longrightarrow> i = j"
    "\<And>i j p. reads (th i) = Some p \<Longrightarrow> reads (th j) = Some p \<Longrightarrow> i = j"
    "distinct (map fst tk)"
    "\<And>p x. (p, x) \<in> set tk \<Longrightarrow> p < h \<and> x = cl ! p \<and> (\<forall>i. reads (th i) \<noteq> Some p)"
  using assms unfolding fifo_ok_def by auto

text \<open>The cell of the next position to claim is not one that a thread works on.\<close>

lemma free_cell:
  assumes "fifo_ok n h t sq dt cl tk th" "2 \<le> n" "sq (t mod n) = t"
  shows "t < h + n" "\<And>i. reads (th i) = Some p \<Longrightarrow> t \<noteq> p + n"
proof -
  note D = fifo_okD [OF assms(1)]
  show "t < h + n"
  proof (rule ccontr)
    assume "\<not> ?thesis"
    then have t: "t = h + n" using D(3) by simp
    then have "cell_ok n h sq dt cl th h" using D(4) [of h] assms(2) by simp
    then show False using assms(2,3) t by (auto simp: cell_ok_def)
  qed
  show "t \<noteq> p + n" if "reads (th i) = Some p" for i
    using reads_ok(3) [OF D(6) that] assms(2,3) by auto
qed

lemma filled_cell:
  assumes "fifo_ok n h t sq dt cl tk th" "2 \<le> n" "sq (h mod n) = Suc h"
  shows "h < t" "dt (h mod n) = cl ! h"
proof -
  note D = fifo_okD [OF assms(1)]
  have "h < t"
  proof (rule ccontr)
    assume "\<not> ?thesis"
    then have t: "t = h" using D(2) by simp
    show False
    proof (cases "h < n")
      case True
      then show False using D(5) [of h] t assms(3) by simp
    next
      case False
      then have "cell_ok n h sq dt cl th (h - n)" using D(4) [of "h - n"] t assms(2) by auto
      then show False
        using False assms(2,3) by (auto simp: cell_ok_def mod_if [of h n] le_mod_geq split: if_splits)
    qed
  qed
  moreover have "cell_ok n h sq dt cl th h" using D(3) D(4) [of h] calculation by blast
  ultimately show "h < t" "dt (h mod n) = cl ! h" using assms(3) by (auto simp: cell_ok_def)
qed

lemma fifo_ok_local:
  assumes F: "fifo_ok n h t sq dt cl tk th" and old: "writes (th i) = None" "reads (th i) = None"
    and new: "writes q = None" "reads q = None" and ok: "pc_ok n h t sq dt cl q"
  shows "fifo_ok n h t sq dt cl tk (th(i := q))"
proof -
  note D = fifo_okD [OF F]
  have "cell_ok n h sq dt cl (th(i := q)) p" if "cell_ok n h sq dt cl th p" for p
    using that old unfolding cell_ok_def
    by (metis fun_upd_other option.distinct(1))
  moreover have "pc_ok n h t sq dt cl ((th(i := q)) j)" for j
    using D(6) ok by simp
  ultimately show ?thesis
    using D new unfolding fifo_ok_def by (auto split: if_splits)
qed

lemma fifo_claim_e:
  assumes F: "fifo_ok n h t sq dt cl tk th" and n: "2 \<le> n"
    and th: "th i = E_cas x p" and p: "unat p = t"
  shows "fifo_ok n h (Suc t) sq dt (cl @ [x]) tk (th(i := E_write x p))"
proof -
  note D = fifo_okD [OF F]
  have sq: "sq (t mod n) = t" using D(6) [of i] th p by simp
  note free = free_cell [OF F n sq]
  have cells: "cell_ok n h sq dt (cl @ [x]) (th(i := E_write x p)) q" if "q < Suc t" "Suc t \<le> q + n" for q
  proof (cases "q = t")
    case True
    then show ?thesis using D(2) sq p by (auto simp: cell_ok_def intro: exI [of _ i])
  next
    case False
    then have c: "cell_ok n h sq dt cl th q" and len: "q < length cl"
      using D(1) D(4) [of q] that by simp_all
    have w: "writes (th j) = Some q \<Longrightarrow> \<exists>k. writes ((th(i := E_write x p)) k) = Some q"
      "reads (th j) = Some q \<Longrightarrow> \<exists>k. reads ((th(i := E_write x p)) k) = Some q" for j
      using th by (cases "j = i"; force intro: exI [of _ j])+
    show ?thesis
      by (rule cell_ok_frame [OF c]) (simp_all only: nth_append len if_True, (erule w)+)
  qed
  have pcs: "pc_ok n h (Suc t) sq dt (cl @ [x]) ((th(i := E_write x p)) j)" for j
  proof (cases "j = i")
    case True
    then show ?thesis using D(1,2) sq p by simp
  next
    case False
    have "t \<noteq> q + n" if "reads (th j) = Some q" for q using free(2) that by blast
    moreover have "q < length cl" if "reads (th j) = Some q" for q
      using reads_ok(1) [OF D(6) that] D(1,2) by simp
    ultimately show ?thesis using D(6) [of j] D(1) False
      by (cases "th j") (auto simp: nth_append le_Suc_eq)
  qed
  have "writes (th j) \<noteq> Some t" for j using writes_ok(2) [OF D(6), of j] by blast
  then show ?thesis
    unfolding fifo_ok_def using D(1-3,5,7-10) free(1) cells pcs th p
    by (auto simp: nth_append split: if_splits) fastforce+
qed

lemma fifo_write:
  assumes F: "fifo_ok n h t sq dt cl tk th" and th: "th i = E_write x p"
  shows "fifo_ok n h t sq (dt(unat p mod n := x)) cl tk (th(i := E_publish x p))"
proof -
  note D = fifo_okD [OF F]
  let ?dt = "dt(unat p mod n := x)" and ?th = "th(i := E_publish x p)"
  have p: "h \<le> unat p" "unat p < t" "cl ! unat p = x" "sq (unat p mod n) = unat p"
    using D(6) [of i] th by simp_all
  have win: "t \<le> unat p + n" using p(1) D(3) by simp
  have wr: "writes (?th j) = writes (th j)" "reads (?th j) = reads (th j)" for j
    using th by simp_all
  have cells: "cell_ok n h sq ?dt cl ?th q" if "q < t" "t \<le> q + n" for q
  proof (cases "q = unat p")
    case True
    then show ?thesis using p by (auto simp: cell_ok_def intro: exI [of _ i])
  next
    case False
    then show ?thesis
      using cell_ok_frame [OF D(4) [OF that]] window_mod_neq [OF that p(2) win] wr
      by (metis fun_upd_other)
  qed
  have pcs: "pc_ok n h t sq ?dt cl (?th j)" for j
  proof (cases "j = i")
    case True
    then show ?thesis using p by simp
  next
    case False
    have "q mod n \<noteq> unat p mod n" if w: "writes (th j) = Some q" for q
      using writes_ok [OF D(6) w] D(3,7) w th False window_mod_neq [of q t n "unat p"] p(2) win
      by (metis le_trans nat_add_left_cancel_le option.inject writes.simps(1) add.commute)
    moreover have "q mod n \<noteq> unat p mod n" if r: "reads (th j) = Some q" for q
      using reads_ok [OF D(6) r] window_mod_neq [of q t n "unat p"] p(1,2) win by fastforce
    ultimately show ?thesis
      using pc_ok_frame [OF D(6) [of j], of sq ?dt] False by simp
  qed
  show ?thesis
    unfolding fifo_ok_def using D(1-3,5,7-10) cells pcs by (auto simp: wr simp del: fun_upd_apply)
qed

lemma fifo_publish:
  assumes F: "fifo_ok n h t sq dt cl tk th" and th: "th i = E_publish x p"
  shows "fifo_ok n h t (sq(unat p mod n := Suc (unat p))) dt cl tk (th(i := E_ret True))"
proof -
  note D = fifo_okD [OF F]
  let ?sq = "sq(unat p mod n := Suc (unat p))" and ?th = "th(i := E_ret True)"
  have p: "h \<le> unat p" "unat p < t" "cl ! unat p = x" "sq (unat p mod n) = unat p"
    "dt (unat p mod n) = x" using D(6) [of i] th by simp_all
  have win: "t \<le> unat p + n" using p(1) D(3) by simp
  have oth: "writes (th j) = Some q \<Longrightarrow> q \<noteq> unat p \<Longrightarrow> j \<noteq> i" for j q using th by auto
  have rd: "reads (?th j) = reads (th j)" for j using th by simp
  have cells: "cell_ok n h ?sq dt cl ?th q" if "q < t" "t \<le> q + n" for q
  proof (cases "q = unat p")
    case True
    then show ?thesis using p by (simp add: cell_ok_def)
  next
    case False
    then have "writes (th j) = Some q \<Longrightarrow> \<exists>j. writes (?th j) = Some q" for j
      using oth by (metis fun_upd_other)
    then show ?thesis
      using cell_ok_frame [OF D(4) [OF that]] window_mod_neq [OF that p(2) win False] rd
      by (metis fun_upd_other)
  qed
  have pcs: "pc_ok n h t ?sq dt cl (?th j)" for j
  proof (cases "j = i")
    case False
    have "q mod n \<noteq> unat p mod n" if w: "writes (th j) = Some q" for q
      using writes_ok [OF D(6) w] D(3,7) w th False window_mod_neq [of q t n "unat p"] p(2) win
      by (metis le_trans nat_add_left_cancel_le option.inject writes.simps(2) add.commute)
    moreover have "q mod n \<noteq> unat p mod n" if r: "reads (th j) = Some q" for q
      using reads_ok [OF D(6) r] window_mod_neq [of q t n "unat p"] p(1,2) win by fastforce
    moreover have "t mod n \<noteq> unat p mod n" if "th j = E_cas y r" "unat r = t" for y r
      using D(6) [of j] that p(2,4) by auto
    moreover have "h mod n \<noteq> unat p mod n" if "th j = D_cas r" "unat r = h" for r
      using D(6) [of j] that p(1,2,4) mod_window_eq [of h n "unat p"] D(3) by auto
    ultimately show ?thesis
      using pc_ok_frame [OF D(6) [of j], of ?sq dt] False by simp
  qed simp
  have low: "?sq q = q" if "q < n" "t \<le> q" for q
    using D(5) [OF that] that p(2,4) by auto
  show ?thesis
    unfolding fifo_ok_def using D(1-3,7-10) cells pcs low
    by (auto simp: rd simp del: fun_upd_apply) (metis fun_upd_apply option.distinct(1) writes.simps(7))+
qed

lemma fifo_claim_d:
  assumes F: "fifo_ok n h t sq dt cl tk th" and n: "2 \<le> n"
    and th: "th i = D_cas p" and p: "unat p = h"
  shows "fifo_ok n (Suc h) t sq dt cl tk (th(i := D_read p))"
proof -
  note D = fifo_okD [OF F]
  let ?th = "th(i := D_read p)"
  have sq: "sq (h mod n) = Suc h" using D(6) [of i] th p by simp
  note full = filled_cell [OF F n sq]
  have cells: "cell_ok n (Suc h) sq dt cl ?th q" if "q < t" "t \<le> q + n" for q
  proof (cases "q = h")
    case True
    then show ?thesis using sq p by (auto simp: cell_ok_def intro: exI [of _ i])
  next
    case False
    have w: "writes (th j) = Some q \<Longrightarrow> \<exists>k. writes (?th k) = Some q"
      "reads (th j) = Some q \<Longrightarrow> \<exists>k. reads (?th k) = Some q" for j
      using th by (cases "j = i"; force intro: exI [of _ j])+
    have "cell_ok n h sq dt cl ?th q"
      by (rule cell_ok_frame [OF D(4) [OF that]]) (simp_all only:, (erule w)+)
    moreover have "Suc h \<le> q \<longleftrightarrow> h \<le> q" using False by auto
    ultimately show ?thesis by (simp only: cell_ok_def)
  qed
  have nw: "writes (th j) \<noteq> Some h" and nr: "reads (th j) \<noteq> Some h" for j
    using writes_ok(3) [OF D(6), of j h] reads_ok(1) [OF D(6), of j h] sq by auto
  have pcs: "pc_ok n (Suc h) t sq dt cl (?th j)" for j
  proof (cases "j = i")
    case True
    then show ?thesis using p sq full D(3) by simp
  next
    case False
    then show ?thesis using D(6) [of j] nw [of j] by (cases "th j") (auto simp: le_Suc_eq Suc_le_eq le_less)
  qed
  have wr: "writes (?th j) = writes (th j)" for j using th by simp
  have rd: "reads (?th j) = (if j = i then Some h else reads (th j))" for j using p by simp
  have tk: "(q, y) \<in> set tk \<Longrightarrow> q < Suc h" "(q, y) \<in> set tk \<Longrightarrow> y = cl ! q" "(h, y) \<notin> set tk"
    "(q, y) \<in> set tk \<Longrightarrow> reads (th j) \<noteq> Some q" for q y j
    using D(10) less_SucI by blast+
  show ?thesis
    unfolding fifo_ok_def wr rd using D(1,3,5,7-9) cells pcs full(1) nr tk
    by (auto simp: wr rd simp del: fun_upd_apply split: if_splits)
qed

lemma fifo_read:
  assumes F: "fifo_ok n h t sq dt cl tk th" and th: "th i = D_read p"
  shows "fifo_ok n h t sq dt cl tk (th(i := D_release p (dt (unat p mod n))))"
proof -
  note D = fifo_okD [OF F]
  let ?th = "th(i := D_release p (dt (unat p mod n)))"
  have wr: "writes (?th j) = writes (th j)" "reads (?th j) = reads (th j)" for j
    using th by simp_all
  have "cell_ok n h sq dt cl ?th q" if "q < t" "t \<le> q + n" for q
    by (rule cell_ok_frame [OF D(4) [OF that]]) (simp_all only: wr, blast+)
  moreover have "pc_ok n h t sq dt cl (?th j)" for j
    using D(6) [of j] D(6) [of i] th by auto
  ultimately show ?thesis
    unfolding fifo_ok_def wr using D(1-3,5,7-10) by (auto simp: wr simp del: fun_upd_apply)
qed

lemma fifo_release:
  assumes F: "fifo_ok n h t sq dt cl tk th" and th: "th i = D_release p x" and n: "2 \<le> n"
  shows "fifo_ok n h t (sq(unat p mod n := unat p + n)) dt cl (tk @ [(unat p, x)])
    (th(i := D_ret (Some x)))"
proof -
  note D = fifo_okD [OF F]
  let ?sq = "sq(unat p mod n := unat p + n)" and ?th = "th(i := D_ret (Some x))"
  have p: "unat p < h" "t \<le> unat p + n" "sq (unat p mod n) = Suc (unat p)" "x = cl ! unat p"
    using D(6) [of i] th by simp_all
  have pt: "unat p < t" using p(1) D(2) by simp
  have wr: "writes (?th j) = writes (th j)" for j using th by simp
  have rd: "reads (?th j) = (if j = i then None else reads (th j))" for j by simp
  have cells: "cell_ok n h ?sq dt cl ?th q" if "q < t" "t \<le> q + n" for q
  proof (cases "q = unat p")
    case True
    then show ?thesis using p by (simp add: cell_ok_def)
  next
    case False
    have w: "writes (th j) = Some q \<Longrightarrow> \<exists>k. writes (?th k) = Some q"
      "reads (th j) = Some q \<Longrightarrow> \<exists>k. reads (?th k) = Some q" for j
      using th False by (cases "j = i"; force intro: exI [of _ j])+
    have "q mod n \<noteq> unat p mod n" by (rule window_mod_neq [OF that pt p(2) False])
    then have "?sq (q mod n) = sq (q mod n)" by simp
    then show ?thesis
      by (rule cell_ok_frame [OF D(4) [OF that]]) (simp_all only:, (erule w)+)
  qed
  have pcs: "pc_ok n h t ?sq dt cl (?th j)" for j
  proof (cases "j = i")
    case False
    have "q mod n \<noteq> unat p mod n" if w: "writes (th j) = Some q" for q
      using writes_ok [OF D(6) w] D(3) window_mod_neq [of q t n "unat p"] p(1,2) pt by fastforce
    moreover have "q mod n \<noteq> unat p mod n" if r: "reads (th j) = Some q" for q
      using reads_ok [OF D(6) r] D(2) D(8) [OF r] th False window_mod_neq [of q t n "unat p"] p(2) pt
      by (metis less_le_trans reads.simps(2))
    moreover have "t mod n \<noteq> unat p mod n" if "th j = E_cas y r" "unat r = t" for y r
      using D(6) [of j] that p(2,3) n mod_window_eq [of "unat p" n t] pt by auto
    moreover have "h mod n \<noteq> unat p mod n" if "th j = D_cas r" "unat r = h" for r
      using D(6) [of j] that p(1,3) by auto
    ultimately show ?thesis
      using pc_ok_frame [OF D(6) [of j], of ?sq dt] False by simp
  qed simp
  have low: "?sq q = q" if "q < n" "t \<le> q" for q
    using D(5) [OF that] that p(3) pt by auto
  have new: "(unat p, y) \<notin> set tk" for y using D(10) [of "unat p" y] th by (metis reads.simps(2))
  have only: "reads (th j) \<noteq> Some (unat p)" if "j \<noteq> i" for j
    using D(8) [of j "unat p" i] th that by auto
  show ?thesis
    unfolding fifo_ok_def wr rd using D(1-3,7-10) cells pcs low new p(1,4) only
    by (auto simp del: fun_upd_apply simp: wr rd split: if_splits)
qed

section \<open>Steps of the system\<close>

lemma shape_index:
  assumes "shape_ok n s"
  shows "cell_index (que s) p = unat p mod n" "2 \<le> n" "n < 2 ^ 62"
proof -
  obtain k where k: "n = 2 ^ k" "1 \<le> k" "k < 62" using assms by (auto simp: shape_ok_def)
  then have "(of_nat n :: u64) = 2 ^ k" by simp
  then show "cell_index (que s) p = unat p mod n"
    using assms k and_mask_mod [of k p] by (simp add: cell_index_def shape_ok_def)
  show "2 \<le> n" using k(1,2) by (metis one_le_numeral power_increasing power_one_right)
  show "n < 2 ^ 62" using k power_strict_increasing [of k 62 "2::nat"] by simp
qed

lemma unat_plus_one: "unat (p :: u64) < 2 ^ 63 \<Longrightarrow> unat (p + 1) = Suc (unat p)"
  by (simp add: unat_plus_if_size word_size)

lemma unat_plus_nat: "unat (p :: u64) + n < 2 ^ 64 \<Longrightarrow> unat (p + of_nat n) = unat p + n"
  by (simp add: unat_plus_if_size word_size unat_of_nat_u64)

lemma dif_small:
  assumes "unat a < 2 ^ 63" "unat b < 2 ^ 63"
  shows "dif a b = int (unat a) - int (unat b)"
  using assms by (simp add: dif_def sint_small)

lemma dif_signs:
  assumes "unat a < 2 ^ 63" "unat b < 2 ^ 63"
  shows "dif a b = 0 \<longleftrightarrow> unat a = unat b" "dif a b < 0 \<longleftrightarrow> unat a < unat b"
  unfolding dif_small [OF assms] by linarith+

lemma seqn_upd:
  "length (buffer (que s)) = n \<Longrightarrow> c < n \<Longrightarrow>
   seqn (s\<lparr>que := (que s)\<lparr>buffer := (buffer (que s))[c := (buffer (que s) ! c)\<lparr>cell_sequence := v\<rparr>]\<rparr>\<rparr>)
     = (seqn s)(c := unat v)"
  "length (buffer (que s)) = n \<Longrightarrow> c < n \<Longrightarrow>
   cdat (s\<lparr>que := (que s)\<lparr>buffer := (buffer (que s))[c := (buffer (que s) ! c)\<lparr>cell_sequence := v\<rparr>]\<rparr>\<rparr>) = cdat s"
  "length (buffer (que s)) = n \<Longrightarrow> c < n \<Longrightarrow>
   seqn (s\<lparr>que := (que s)\<lparr>buffer := (buffer (que s))[c := (buffer (que s) ! c)\<lparr>cell_data := x\<rparr>]\<rparr>\<rparr>) = seqn s"
  "length (buffer (que s)) = n \<Longrightarrow> c < n \<Longrightarrow>
   cdat (s\<lparr>que := (que s)\<lparr>buffer := (buffer (que s))[c := (buffer (que s) ! c)\<lparr>cell_data := x\<rparr>]\<rparr>\<rparr>)
     = (cdat s)(c := x)"
  by (auto simp: seqn_def cdat_def fun_eq_iff nth_list_update)

lemma inv_positions:
  assumes "mpmc_inv n s" "pos_left n s"
  shows "pos_e s < 2 ^ 63" "pos_d s < 2 ^ 63" "c < n \<Longrightarrow> seqn s c < 2 ^ 63"
    "pc_ok n (pos_d s) (pos_e s) (seqn s) (cdat s) (claimed s) (thr s i)"
proof -
  have F: "fifo_ok n (pos_d s) (pos_e s) (seqn s) (cdat s) (claimed s) (taken s) (thr s)"
    and n: "2 \<le> n" and l: "length (claimed s) + n < 2 ^ 63"
    using assms shape_index(2) by (auto simp: mpmc_inv_def pos_left_def)
  note D = fifo_okD [OF F]
  show "pos_e s < 2 ^ 63" "pos_d s < 2 ^ 63" using D(1,2) l by simp_all
  show "pc_ok n (pos_d s) (pos_e s) (seqn s) (cdat s) (claimed s) (thr s i)" by (rule D(6))
  assume c: "c < n"
  show "seqn s c < 2 ^ 63"
  proof (cases "pos_e s \<le> c")
    case True
    then show ?thesis using D(5) [OF c] l c by simp
  next
    case False
    define p where "p = pos_e s - 1 - (pos_e s - 1 - c) mod n"
    have "p < pos_e s" "pos_e s \<le> p + n"
      using False c mod_less_divisor [of n "pos_e s - 1 - c"] unfolding p_def by linarith+
    moreover have "p mod n = c"
    proof -
      have "n * ((pos_e s - 1 - c) div n) + (pos_e s - 1 - c) mod n = pos_e s - 1 - c" by simp
      then have "p = c + n * ((pos_e s - 1 - c) div n)"
        using False unfolding p_def by linarith
      then show ?thesis using c by simp
    qed
    ultimately show ?thesis using D(4) [of p] D(1) l n by (auto simp: cell_ok_def split: if_splits)
  qed
qed

text \<open>One step of a thread, by the place it is at.\<close>

lemma mpmc_inv_local:
  assumes "mpmc_inv n s" "writes (thr s i) = None" "reads (thr s i) = None" "writes p = None" "reads p = None"
    and "pc_ok n (pos_d s) (pos_e s) (seqn s) (cdat s) (claimed s) p"
  shows "mpmc_inv n (s\<lparr>thr := (thr s)(i := p)\<rparr>)"
  using assms fifo_ok_local [of n "pos_d s" "pos_e s" "seqn s" "cdat s" "claimed s" "taken s" "thr s" i p]
  by (simp add: mpmc_inv_def shape_ok_def pos_d_def pos_e_def seqn_def [abs_def] cdat_def [abs_def])

lemma mpmc_invI:
  assumes "fifo_ok n h t sq dt cl tk th" "shape_ok n s"
    and "pos_d s = h" "pos_e s = t" "seqn s = sq" "cdat s = dt"
    and "claimed s = cl" "taken s = tk" "thr s = th"
  shows "mpmc_inv n s"
  using assms by (simp add: mpmc_inv_def)

lemma pos_only:
  "seqn (s\<lparr>que := (que s)\<lparr>enqueue_pos := p\<rparr>\<rparr>) = seqn s" "cdat (s\<lparr>que := (que s)\<lparr>enqueue_pos := p\<rparr>\<rparr>) = cdat s"
  "seqn (s\<lparr>que := (que s)\<lparr>dequeue_pos := p\<rparr>\<rparr>) = seqn s" "cdat (s\<lparr>que := (que s)\<lparr>dequeue_pos := p\<rparr>\<rparr>) = cdat s"
  "seqn (s\<lparr>thr := th\<rparr>) = seqn s" "cdat (s\<lparr>thr := th\<rparr>) = cdat s"
  "seqn (s\<lparr>claimed := cl\<rparr>) = seqn s" "cdat (s\<lparr>claimed := cl\<rparr>) = cdat s"
  "seqn (s\<lparr>taken := tk\<rparr>) = seqn s" "cdat (s\<lparr>taken := tk\<rparr>) = cdat s"
  by (simp_all add: seqn_def [abs_def] cdat_def [abs_def])

lemma enqueue_inv:
  assumes I: "mpmc_inv n s" and l: "pos_left n s"
    and st: "enqueue_step weak (thr s i) (que s) = (p, q)"
  shows "mpmc_inv n (s\<lparr>que := q, thr := (thr s)(i := p), claimed := claim_log (thr s i) p (claimed s)\<rparr>)"
proof -
  have sh: "shape_ok n s"
    and F: "fifo_ok n (pos_d s) (pos_e s) (seqn s) (cdat s) (claimed s) (taken s) (thr s)"
    using I by (simp_all add: mpmc_inv_def)
  note P = inv_positions [OF I l] and ix = shape_index [OF sh]
  have len: "length (buffer (que s)) = n" using sh by (simp add: shape_ok_def)
  have res: "p = fst (enqueue_step weak (thr s i) (que s))" "q = snd (enqueue_step weak (thr s i) (que s))"
    using st by simp_all
  note pc = P(4) [of i]
  show ?thesis
  proof (cases "thr s i")
    case (E_load x)
    then show ?thesis using st mpmc_inv_local [OF I, of i p] by (auto simp: pos_e_def)
  next
    case (E_seq x r)
    then have "unat r < 2 ^ 63" using pc P(1) by simp
    then have "dif (cell_sequence (buffer (que s) ! cell_index (que s) r)) r = 0
        \<longleftrightarrow> seqn s (unat r mod n) = unat r"
      using P(3) [of "unat r mod n"] ix(1,2) by (simp add: dif_signs seqn_def)
    then show ?thesis
      using st E_seq pc mpmc_inv_local [OF I, of i p] by (auto simp: Let_def split: if_splits) metis
  next
    case (E_cas x r)
    show ?thesis
    proof (cases "enqueue_pos (que s) = r \<and> \<not> weak")
      case True
      then have r: "unat r = pos_e s" by (simp add: pos_e_def)
      have pq: "p = E_write x r" "q = (que s)\<lparr>enqueue_pos := r + 1\<rparr>" using st E_cas True by auto
      show ?thesis
        by (rule mpmc_invI [OF fifo_claim_e [OF F ix(2) E_cas r, folded pq(1)]])
          (use sh r P(1) in \<open>simp_all add: E_cas pq shape_ok_def pos_e_def pos_d_def pos_only unat_plus_one\<close>)
    next
      case False
      then show ?thesis using st E_cas mpmc_inv_local [OF I, of i p] by (auto simp: pos_e_def)
    qed
  next
    case (E_write x r)
    then show ?thesis
      using st sh fifo_write [OF F E_write] seqn_upd(3,4) [OF len, of "unat r mod n"] ix(1,2)
      by (auto simp: mpmc_inv_def shape_ok_def pos_e_def pos_d_def seqn_def [abs_def] cdat_def [abs_def])
  next
    case (E_publish x r)
    then have "unat r < 2 ^ 63" using pc P(1) by simp
    then show ?thesis
      using E_publish st sh fifo_publish [OF F E_publish] seqn_upd(1,2) [OF len, of "unat r mod n"] ix(1,2)
      by (auto simp: mpmc_inv_def shape_ok_def pos_e_def pos_d_def seqn_def [abs_def] cdat_def [abs_def]
          unat_plus_one)
  qed (use I in \<open>simp_all add: res fun_upd_idem\<close>)
qed

lemma dequeue_inv:
  assumes I: "mpmc_inv n s" and l: "pos_left n s"
    and st: "dequeue_step weak (thr s i) (que s) = (p, q)"
  shows "mpmc_inv n (s\<lparr>que := q, thr := (thr s)(i := p), taken := take_log (thr s i) (taken s)\<rparr>)"
proof -
  have sh: "shape_ok n s"
    and F: "fifo_ok n (pos_d s) (pos_e s) (seqn s) (cdat s) (claimed s) (taken s) (thr s)"
    using I by (simp_all add: mpmc_inv_def)
  note P = inv_positions [OF I l] and ix = shape_index [OF sh]
  have len: "length (buffer (que s)) = n" using sh by (simp add: shape_ok_def)
  have de: "Suc (pos_d s) < 2 ^ 63"
    using fifo_okD(1,2) [OF F] l ix(2) by (simp add: pos_left_def)
  have res: "p = fst (dequeue_step weak (thr s i) (que s))" "q = snd (dequeue_step weak (thr s i) (que s))"
    using st by simp_all
  note pc = P(4) [of i]
  show ?thesis
  proof (cases "thr s i")
    case D_load
    then show ?thesis using st mpmc_inv_local [OF I, of i p] by (auto simp: pos_d_def)
  next
    case (D_seq r)
    then have "Suc (unat r) < 2 ^ 63" using pc de by simp
    then have "dif (cell_sequence (buffer (que s) ! cell_index (que s) r)) (r + 1) = 0
        \<longleftrightarrow> seqn s (unat r mod n) = Suc (unat r)"
      using P(3) [of "unat r mod n"] ix(1,2) by (simp add: dif_signs seqn_def unat_plus_one)
    then show ?thesis
      using st D_seq pc mpmc_inv_local [OF I, of i p] by (auto simp: Let_def split: if_splits) metis
  next
    case (D_cas r)
    show ?thesis
    proof (cases "dequeue_pos (que s) = r \<and> \<not> weak")
      case True
      then have r: "unat r = pos_d s" by (simp add: pos_d_def)
      have pq: "p = D_read r" "q = (que s)\<lparr>dequeue_pos := r + 1\<rparr>" using st D_cas True by auto
      show ?thesis
        by (rule mpmc_invI [OF fifo_claim_d [OF F ix(2) D_cas r, folded pq(1)]])
          (use sh r P(2) in \<open>simp_all add: D_cas pq shape_ok_def pos_e_def pos_d_def pos_only unat_plus_one\<close>)
    next
      case False
      then show ?thesis using st D_cas mpmc_inv_local [OF I, of i p] by (auto simp: pos_d_def)
    qed
  next
    case (D_read r)
    then show ?thesis
      using st sh fifo_read [OF F D_read] ix(1)
      by (auto simp: mpmc_inv_def shape_ok_def pos_e_def pos_d_def seqn_def [abs_def] cdat_def [abs_def])
  next
    case (D_release r x)
    then have "unat r + n < 2 ^ 63"
      using pc fifo_okD(1,2) [OF F] l by (simp add: pos_left_def)
    then have "unat (r + of_nat n) = unat r + n" by (simp add: unat_plus_nat)
    moreover have "r + buffer_mask (que s) + 1 = r + of_nat n" using sh by (simp add: shape_ok_def)
    ultimately have nx: "unat (r + buffer_mask (que s) + 1) = unat r + n" by (simp only:)
    show ?thesis
      using D_release st sh fifo_release [OF F D_release ix(2)] seqn_upd(1,2) [OF len, of "unat r mod n"]
        ix(1,2) nx
      by (auto simp: mpmc_inv_def shape_ok_def pos_e_def pos_d_def seqn_def [abs_def] cdat_def [abs_def])
  qed (use I in \<open>simp_all add: res fun_upd_idem\<close>)
qed

lemma mpmc_inv_init:
  assumes "mpmc_init n s"
  shows "mpmc_inv n s"
proof -
  obtain d where d: "new_mpmc False d (of_nat n) = Inr (que s)" and n: "n < 2 ^ 62"
    and rest: "\<forall>i. thr s i = Idle" "claimed s = []" "taken s = []"
    using assms by (auto simp: mpmc_init_def)
  have u: "unat (of_nat n :: u64) = n" using n by (simp add: unat_of_nat_u64)
  have p: "pow2_size (of_nat n)" using d by (auto simp: new_mpmc_def split: if_splits)
  then obtain k where k: "n = 2 ^ k" "1 \<le> k" using pow2_size_iff [of n] n by auto
  then have "k < 62" using n power_less_imp_less_exp [of "2::nat" k 62] by simp
  have q: "que s = \<lparr>max_size = of_nat n, buffer = map (\<lambda>i. \<lparr>cell_sequence = of_nat i, cell_data = d\<rparr>) [0..<n],
      buffer_mask = of_nat n - 1, enqueue_pos = 0, dequeue_pos = 0\<rparr>"
    using d p u by (auto simp: new_mpmc_def split: if_splits)
  have sh: "shape_ok n s" using k \<open>k < 62\<close> by (auto simp: q shape_ok_def)
  have "seqn s c = c" if "c < n" for c
    using that n by (simp add: q seqn_def unat_of_nat_u64)
  moreover have "pos_e s = 0" "pos_d s = 0" by (simp_all add: q pos_e_def pos_d_def)
  ultimately show ?thesis using sh rest by (simp add: mpmc_inv_def fifo_ok_def)
qed

interpretation mpmc_run: step_invariant "mpmc_init n" mpmc_step "pos_left n" "mpmc_inv n" for n
proof
  show "mpmc_inv n s" if "mpmc_init n s" for s :: "'a mpmc_sys" using that by (rule mpmc_inv_init)
  show "pos_left n s" if "mpmc_step s s'" "pos_left n s'" for s s' :: "'a mpmc_sys"
  proof -
    have "length l \<le> length (claim_log a b l)" for a b :: "'a pc" and l
      by (cases "(a, b, l)" rule: claim_log.cases) auto
    then have len: "\<And>a b :: 'a pc. length (claimed s) \<le> length (claim_log a b (claimed s))" by blast
    have "length (claimed s) \<le> length (claimed s')"
      using that(1) by cases (use len in simp_all)
    then show ?thesis using that(2) by (simp add: pos_left_def)
  qed
  show "mpmc_inv n s'" if "mpmc_step s s'" "pos_left n s" "mpmc_inv n s" for s s' :: "'a mpmc_sys"
    using that
  proof cases
    case (call_enqueue i x)
    then show ?thesis using that(3) mpmc_inv_local [of n s i "E_load x"] by (cases "thr s i") auto
  next
    case (call_dequeue i)
    then show ?thesis using that(3) mpmc_inv_local [of n s i D_load] by (cases "thr s i") auto
  next
    case (enqueue weak i p q)
    then show ?thesis using enqueue_inv that by blast
  next
    case (dequeue weak i p q)
    then show ?thesis using dequeue_inv that by blast
  qed
qed

section \<open>Nothing is lost\<close>

text \<open>Every position that was claimed for reading has been read, or is being read.\<close>

definition all_taken :: "'a mpmc_sys \<Rightarrow> bool" where
  "all_taken s \<longleftrightarrow> (\<forall>p<pos_d s. p \<in> fst ` set (taken s) \<or> (\<exists>i. reads (thr s i) = Some p))"

lemma enqueue_step_reads:
  "enqueue_step weak p q = (p', q') \<Longrightarrow> reads p' = reads p \<and> dequeue_pos q' = dequeue_pos q"
  by (cases p) (auto simp: Let_def split: if_splits)

lemma dequeue_step_reads:
  "dequeue_step weak p q = (p', q') \<Longrightarrow>
     (reads p' = reads p \<and> dequeue_pos q' = dequeue_pos q \<and> (\<forall>l. take_log p l = l))
   \<or> (\<exists>r. reads p = None \<and> reads p' = Some (unat r) \<and> dequeue_pos q = r \<and> dequeue_pos q' = r + 1
        \<and> (\<forall>l. take_log p l = l))
   \<or> (\<exists>r x. p = D_release r x \<and> dequeue_pos q' = dequeue_pos q)"
  by (cases p) (auto simp: Let_def split: if_splits)

lemma all_taken_upd:
  assumes "all_taken s" "pos_d s' = pos_d s" "thr s' = (thr s)(i := p)" "reads p = reads (thr s i)"
    and "taken s' = taken s"
  shows "all_taken s'"
proof -
  have "reads (thr s' j) = reads (thr s j)" for j using assms(3,4) by simp
  then show ?thesis using assms(1,2,5) by (simp add: all_taken_def)
qed

lemma all_taken_claim:
  assumes "all_taken s" "pos_d s' = Suc (pos_d s)" "thr s' = (thr s)(i := p)"
    and "reads (thr s i) = None" "reads p = Some (pos_d s)" "taken s' = taken s"
  shows "all_taken s'"
  unfolding all_taken_def
proof (intro allI impI)
  fix r assume "r < pos_d s'"
  then have "r = pos_d s \<or> r < pos_d s" using assms(2) by auto
  then show "r \<in> fst ` set (taken s') \<or> (\<exists>j. reads (thr s' j) = Some r)"
  proof
    assume "r = pos_d s" then show ?thesis using assms(3,5) by (metis fun_upd_same)
  next
    assume "r < pos_d s"
    then show ?thesis using assms(1,3,4,6) unfolding all_taken_def by (metis fun_upd_other option.distinct(1))
  qed
qed

lemma all_taken_release:
  assumes "all_taken s" "pos_d s' = pos_d s" "thr s i = D_release r x"
    and "thr s' = (thr s)(i := p)" "taken s' = taken s @ [(unat r, x)]"
  shows "all_taken s'"
  unfolding all_taken_def
proof (intro allI impI)
  fix k assume "k < pos_d s'"
  then have "k \<in> fst ` set (taken s) \<or> (\<exists>j. reads (thr s j) = Some k)"
    using assms(1,2) by (simp add: all_taken_def)
  then show "k \<in> fst ` set (taken s') \<or> (\<exists>j. reads (thr s' j) = Some k)"
  proof
    assume "\<exists>j. reads (thr s j) = Some k"
    then obtain j where j: "reads (thr s j) = Some k" by blast
    show ?thesis
    proof (cases "j = i")
      case True then show ?thesis using j assms(3,5) by simp
    next
      case False then show ?thesis using j assms(4) by (metis fun_upd_other)
    qed
  qed (use assms(5) in simp)
qed

lemma all_taken_step:
  assumes st: "mpmc_step s s'" and l: "pos_left n s" and I: "mpmc_inv n s" and A: "all_taken s"
  shows "all_taken s'"
  using st
proof cases
  case (call_enqueue i x)
  then show ?thesis using all_taken_upd [OF A] by (cases "thr s i") (auto simp: pos_d_def)
next
  case (call_dequeue i)
  then show ?thesis using all_taken_upd [OF A] by (cases "thr s i") (auto simp: pos_d_def)
next
  case (enqueue weak i p q)
  then show ?thesis using all_taken_upd [OF A] enqueue_step_reads [OF enqueue(2)] by (simp add: pos_d_def)
next
  case (dequeue weak i p q)
  from dequeue_step_reads [OF dequeue(2)] show ?thesis
  proof (elim disjE exE conjE)
    assume "reads p = reads (thr s i)" "dequeue_pos q = dequeue_pos (que s)" "\<forall>l. take_log (thr s i) l = l"
    then show ?thesis using all_taken_upd [OF A] dequeue(1) by (simp add: pos_d_def)
  next
    fix r assume r: "reads (thr s i) = None" "reads p = Some (unat r)" "dequeue_pos (que s) = r"
      "dequeue_pos q = r + 1" "\<forall>l. take_log (thr s i) l = l"
    then have "unat (r + 1) = Suc (unat r)"
      using inv_positions(2) [OF I l] by (simp add: pos_d_def unat_plus_one)
    then show ?thesis using r dequeue(1) by (intro all_taken_claim [OF A]) (simp_all add: pos_d_def)
  next
    fix r x assume "thr s i = D_release r x" "dequeue_pos q = dequeue_pos (que s)"
    then show ?thesis using dequeue(1) by (intro all_taken_release [OF A]) (simp_all add: pos_d_def)
  qed
qed

lemma mpmc_init_pos: "mpmc_init n s \<Longrightarrow> pos_d s = 0"
  by (auto simp: mpmc_init_def new_mpmc_def pos_d_def split: if_splits dest: arg_cong [where f = dequeue_pos])

interpretation mpmc_all: step_invariant "mpmc_init n" mpmc_step "pos_left n"
  "\<lambda>s. mpmc_inv n s \<and> all_taken s" for n
proof
  show "mpmc_inv n s \<and> all_taken s" if "mpmc_init n s" for s :: "'a mpmc_sys"
    using mpmc_inv_init [OF that] mpmc_init_pos [OF that] by (simp add: all_taken_def)
qed (use mpmc_run.ok_back mpmc_run.inv_step all_taken_step in blast)+

section \<open>The queue is a FIFO\<close>

text \<open>
  C17: in every execution of any number of threads, interleaved at the granularity of single
  accesses and with spurious failures of the compare-and-exchange, as long as fewer than
  \<open>2 ^ 63\<close> positions are used: no position is dequeued twice, what is dequeued at a position is
  what was enqueued there, at most as many elements as the capacity are between the two
  positions; and when all threads are at rest, exactly the first elements in the order of
  their positions have been dequeued, so that none is lost, duplicated or overtaken.
\<close>

theorem mpmc_is_fifo:
  assumes "mpmc_init n s0" "mpmc_step\<^sup>*\<^sup>* s0 s" "pos_left n s"
  shows "distinct (map fst (taken s))
    \<and> (\<forall>(p, x) \<in> set (taken s). p < pos_d s \<and> x = claimed s ! p)
    \<and> pos_d s \<le> length (claimed s) \<and> length (claimed s) \<le> pos_d s + n
    \<and> ((\<forall>i. at_rest (thr s i)) \<longrightarrow>
         set (taken s) = (\<lambda>p. (p, claimed s ! p)) ` {..<pos_d s} \<and> length (taken s) = pos_d s)"
proof -
  have inv: "mpmc_inv n s" "all_taken s" using mpmc_all.inv_run [OF assms] by auto
  then have F: "fifo_ok n (pos_d s) (pos_e s) (seqn s) (cdat s) (claimed s) (taken s) (thr s)"
    by (simp add: mpmc_inv_def)
  note D = fifo_okD [OF F]
  have rest: "set (taken s) = (\<lambda>p. (p, claimed s ! p)) ` {..<pos_d s} \<and> length (taken s) = pos_d s"
    if q: "\<forall>i. at_rest (thr s i)"
  proof -
    have "reads (thr s i) = None" for i using q [THEN spec, of i] by (cases "thr s i") auto
    then have *: "p \<in> fst ` set (taken s)" if "p < pos_d s" for p
      using inv(2) that by (simp add: all_taken_def)
    have in_taken: "p < pos_d s" "x = claimed s ! p" if "(p, x) \<in> set (taken s)" for p x
      using D(10) [OF that] by simp_all
    have all: "(p, claimed s ! p) \<in> set (taken s)" if "p < pos_d s" for p
    proof -
      from * [OF that] obtain x where "(p, x) \<in> set (taken s)" by auto
      with in_taken(2) [OF this] show ?thesis by simp
    qed
    have fst: "fst ` set (taken s) = {..<pos_d s}"
      using * in_taken(1) by (intro set_eqI iffI) auto
    have "set (taken s) = (\<lambda>p. (p, claimed s ! p)) ` {..<pos_d s}"
    proof (intro set_eqI iffI)
      fix e assume "e \<in> set (taken s)"
      then show "e \<in> (\<lambda>p. (p, claimed s ! p)) ` {..<pos_d s}"
        using in_taken [of "fst e" "snd e"] by (simp add: image_iff prod_eq_iff)
    qed (use all in auto)
    moreover have "length (taken s) = card (fst ` set (taken s))"
      using distinct_card [OF D(9)] by simp
    ultimately show ?thesis using fst by simp
  qed
  have "\<forall>(p, x) \<in> set (taken s). p < pos_d s \<and> x = claimed s ! p"
  proof clarify
    fix p x assume "(p, x) \<in> set (taken s)"
    then show "p < pos_d s \<and> x = claimed s ! p" using D(10) by simp
  qed
  then show ?thesis using D(1-3,9) rest by simp
qed

text \<open>Executions from a schedule, to run the model on concrete inputs.\<close>

datatype 'a turn = Call_e nat 'a | Call_d nat | Run_e nat | Run_d nat

fun do_turn :: "'a turn \<Rightarrow> 'a mpmc_sys \<Rightarrow> 'a mpmc_sys" where
  "do_turn (Call_e i x) s = (if at_rest (thr s i) then s\<lparr>thr := (thr s)(i := E_load x)\<rparr> else s)"
| "do_turn (Call_d i) s = (if at_rest (thr s i) then s\<lparr>thr := (thr s)(i := D_load)\<rparr> else s)"
| "do_turn (Run_e i) s = (let (p, q) = enqueue_step False (thr s i) (que s)
     in s\<lparr>que := q, thr := (thr s)(i := p), claimed := claim_log (thr s i) p (claimed s)\<rparr>)"
| "do_turn (Run_d i) s = (let (p, q) = dequeue_step False (thr s i) (que s)
     in s\<lparr>que := q, thr := (thr s)(i := p), taken := take_log (thr s i) (taken s)\<rparr>)"

lemma do_turns: "mpmc_step\<^sup>*\<^sup>* s (fold do_turn as s)"
proof (induction as arbitrary: s)
  case (Cons a as)
  have "mpmc_step\<^sup>*\<^sup>* s (do_turn a s)"
    by (cases a) (auto split: prod.splits intro: mpmc_step.intros)
  then show ?case using Cons.IH [of "do_turn a s"] by simp
qed simp

definition sample_queue :: "nat mpmc_sys" where
  "sample_queue = \<lparr>que = \<lparr>max_size = 2, buffer = [\<lparr>cell_sequence = 0, cell_data = 0\<rparr>, \<lparr>cell_sequence = 1, cell_data = 0\<rparr>],
     buffer_mask = 1, enqueue_pos = 0, dequeue_pos = 0\<rparr>, thr = (\<lambda>_. Idle), claimed = [], taken = []\<rparr>"

definition sample_turns :: "nat turn list" where
  "sample_turns = [Call_e 0 5, Call_e 1 6, Run_e 0, Run_e 1, Run_e 0, Run_e 1, Run_e 1, Run_e 0,
     Run_e 1, Run_e 1, Run_e 0, Run_e 0, Run_e 0, Run_e 0, Call_d 2, Run_d 2, Run_d 2, Run_d 2, Run_d 2, Run_d 2]"

lemma sample_queue_init: "mpmc_init 2 sample_queue"
proof -
  have "new_mpmc False 0 (of_nat 2) = Inr (que sample_queue)"
    by (simp add: new_mpmc_def pow2_size_def sample_queue_def upt_rec)
  then show ?thesis by (auto simp: mpmc_init_def sample_queue_def)
qed

lemma sample_run:
  "claimed (fold do_turn sample_turns sample_queue) = [6, 5]"
  "taken (fold do_turn sample_turns sample_queue) = [(0, 6)]"
  by (simp_all add: sample_turns_def sample_queue_def cell_index_def dif_def Let_def)

theorem mpmc_is_fifo_witness:
  "taken (fold do_turn sample_turns sample_queue) = [(0, 6)]
   \<and> 6 = claimed (fold do_turn sample_turns sample_queue) ! 0
   \<and> pos_d (fold do_turn sample_turns sample_queue) \<le> 2"
proof -
  have "pos_left 2 (fold do_turn sample_turns sample_queue)"
    by (simp add: pos_left_def sample_run)
  from mpmc_is_fifo [OF sample_queue_init do_turns this] show ?thesis
    by (auto simp: sample_run)
qed

section \<open>Answers without an element\<close>

text \<open>The cell of position \<open>p\<close> as the claims left it.\<close>

lemma cell_of_position:
  assumes F: "fifo_ok n h t sq dt cl tk th" and n: "0 < n" and p: "p < t"
  obtains r where "p \<le> r" "r < t" "t \<le> r + n" "r mod n = p mod n" "cell_ok n h sq dt cl th r"
proof -
  define r where "r = t - 1 - (t - 1 - p) mod n"
  have m: "n * ((t - 1 - p) div n) + (t - 1 - p) mod n = t - 1 - p" by simp
  have "(t - 1 - p) mod n < n" using n by simp
  then have r: "r < t" "t \<le> r + n" using p unfolding r_def by linarith+
  have eq: "r = p + n * ((t - 1 - p) div n)" using p m unfolding r_def by linarith
  then have "p \<le> r" "r mod n = p mod n" by simp_all
  with r fifo_okD(4) [OF F r] show thesis using that by blast
qed

lemma enqueue_refused:
  assumes I: "mpmc_inv n s" and l: "pos_left n s" and th: "thr s i = E_seq x p"
    and st: "enqueue_step weak (thr s i) (que s) = (E_ret False, q)"
  shows "n \<le> pos_e s \<and> (pos_e s = pos_d s + n \<or> (\<exists>j. reads (thr s j) = Some (pos_e s - n)))"
proof -
  have sh: "shape_ok n s"
    and F: "fifo_ok n (pos_d s) (pos_e s) (seqn s) (cdat s) (claimed s) (taken s) (thr s)"
    using I by (simp_all add: mpmc_inv_def)
  note D = fifo_okD [OF F] and P = inv_positions [OF I l] and ix = shape_index [OF sh]
  have p: "unat p \<le> pos_e s" using P(4) [of i] th by simp
  then have "unat p < 2 ^ 63" using P(1) by simp
  then have "seqn s (unat p mod n) < unat p"
    using st th P(3) [of "unat p mod n"] ix(1,2)
    by (auto simp: Let_def dif_signs seqn_def split: if_splits)
  note low = this
  have eq: "unat p = pos_e s"
  proof (rule ccontr)
    assume "unat p \<noteq> pos_e s"
    then have "unat p < pos_e s" using p by simp
    then obtain r where "unat p \<le> r" "r mod n = unat p mod n"
      "cell_ok n (pos_d s) (seqn s) (cdat s) (claimed s) (thr s) r"
      using cell_of_position [OF F, of "unat p"] ix(2) by (metis gr0I not_numeral_le_zero)
    then show False using low by (auto simp: cell_ok_def split: if_splits)
  qed
  have n: "n \<le> pos_e s"
  proof (rule ccontr)
    assume "\<not> n \<le> pos_e s"
    then show False using D(5) [of "pos_e s"] low eq by simp
  qed
  have "cell_ok n (pos_d s) (seqn s) (cdat s) (claimed s) (thr s) (pos_e s - n)"
    using D(4) [of "pos_e s - n"] n ix(2) by simp
  moreover have "(pos_e s - n) mod n = unat p mod n" using n eq by (simp add: le_mod_geq)
  ultimately show ?thesis using low eq n D(3) by (auto simp: cell_ok_def split: if_splits)
qed

lemma dequeue_refused:
  assumes I: "mpmc_inv n s" and l: "pos_left n s" and th: "thr s i = D_seq p"
    and st: "dequeue_step weak (thr s i) (que s) = (D_ret None, q)"
  shows "pos_d s = pos_e s \<or> (\<exists>j. writes (thr s j) = Some (pos_d s))"
proof -
  have sh: "shape_ok n s"
    and F: "fifo_ok n (pos_d s) (pos_e s) (seqn s) (cdat s) (claimed s) (taken s) (thr s)"
    using I by (simp_all add: mpmc_inv_def)
  note D = fifo_okD [OF F] and P = inv_positions [OF I l] and ix = shape_index [OF sh]
  have p: "unat p \<le> pos_d s" using P(4) [of i] th by simp
  moreover have "Suc (pos_d s) < 2 ^ 63" using D(1,2) l ix(2) by (simp add: pos_left_def)
  ultimately have "Suc (unat p) < 2 ^ 63" by simp
  then have "seqn s (unat p mod n) < Suc (unat p)"
    using st th P(3) [of "unat p mod n"] ix(1,2)
    by (auto simp: Let_def dif_signs seqn_def unat_plus_one split: if_splits)
  note low = this
  show ?thesis
  proof (rule ccontr)
    assume no: "\<not> ?thesis"
    then have "unat p < pos_e s" using p D(2) by simp
    then obtain r where r: "unat p \<le> r" "r < pos_e s" "pos_e s \<le> r + n" "r mod n = unat p mod n"
      "cell_ok n (pos_d s) (seqn s) (cdat s) (claimed s) (thr s) r"
      using cell_of_position [OF F, of "unat p"] ix(2) by (metis gr0I not_numeral_le_zero)
    then have "r = unat p" "pos_d s \<le> r" using low ix(2) by (auto simp: cell_ok_def split: if_splits)
    then show False using r low no p by (auto simp: cell_ok_def split: if_splits)
  qed
qed

text \<open>
  in every execution, \<^verbatim>\<open>enqueue\<close> answers that the queue is full only at a moment when as
  many elements as the capacity are in it, or when the dequeue of the oldest element that still
  occupies the cell is under way; and \<^verbatim>\<open>dequeue\<close> answers that it is empty only when it is, or
  when the enqueue of the next element is under way.
\<close>

theorem mpmc_answers_justified:
  assumes "mpmc_init n s0" "mpmc_step\<^sup>*\<^sup>* s0 s" "pos_left n s"
  shows "(thr s i = E_seq x p \<and> enqueue_step weak (thr s i) (que s) = (E_ret False, q) \<longrightarrow>
      n \<le> pos_e s \<and> (pos_e s = pos_d s + n \<or> (\<exists>j. reads (thr s j) = Some (pos_e s - n))))
    \<and> (thr s i = D_seq p \<and> dequeue_step weak (thr s i) (que s) = (D_ret None, q) \<longrightarrow>
      pos_d s = pos_e s \<or> (\<exists>j. writes (thr s j) = Some (pos_d s)))"
  using enqueue_refused [OF mpmc_run.inv_run [OF assms] assms(3), of i x p weak q]
    dequeue_refused [OF mpmc_run.inv_run [OF assms] assms(3), of i p weak q] by (metis (no_types))

lemma sample_empty:
  "thr (fold do_turn [Call_d 0, Run_d 0] sample_queue) 0 = D_seq 0"
  "que (fold do_turn [Call_d 0, Run_d 0] sample_queue) = que sample_queue"
  "dequeue_step False (D_seq 0) (que sample_queue) = (D_ret None, que sample_queue)"
  by (simp_all add: sample_queue_def cell_index_def dif_def Let_def)

theorem mpmc_answers_justified_witness:
  "dequeue_step False (D_seq 0) (que sample_queue) = (D_ret None, que sample_queue)
   \<and> (pos_d (fold do_turn [Call_d 0, Run_d 0] sample_queue) = pos_e (fold do_turn [Call_d 0, Run_d 0] sample_queue)
      \<or> (\<exists>j. writes (thr (fold do_turn [Call_d 0, Run_d 0] sample_queue) j)
            = Some (pos_d (fold do_turn [Call_d 0, Run_d 0] sample_queue))))"
proof -
  have "pos_left 2 (fold do_turn [Call_d 0, Run_d 0] sample_queue)"
    by (simp add: pos_left_def sample_queue_def)
  from mpmc_answers_justified [OF sample_queue_init do_turns this, of 0 _ 0 False "que sample_queue"]
  show ?thesis unfolding sample_empty using sample_empty(3) by simp
qed

section \<open>A thread that runs alone\<close>

text \<open>
  An enqueue that is not disturbed returns: a thread that has the current position either
  finds the queue full or claims the position and finishes in four more steps.
\<close>

lemma solo_enqueue:
  assumes I: "mpmc_inv n s" and l: "pos_left n s" and th: "thr s i = E_seq x (enqueue_pos (que s))"
  shows "fst (enqueue_step weak (thr s i) (que s)) \<in> {E_cas x (enqueue_pos (que s)), E_ret False}"
proof -
  have sh: "shape_ok n s"
    and F: "fifo_ok n (pos_d s) (pos_e s) (seqn s) (cdat s) (claimed s) (taken s) (thr s)"
    using I by (simp_all add: mpmc_inv_def)
  note D = fifo_okD [OF F] and P = inv_positions [OF I l] and ix = shape_index [OF sh]
  have "seqn s (pos_e s mod n) \<le> pos_e s"
  proof (cases "pos_e s < n")
    case True
    then show ?thesis using D(5) [of "pos_e s"] by simp
  next
    case False
    then have "cell_ok n (pos_d s) (seqn s) (cdat s) (claimed s) (thr s) (pos_e s - n)"
      using D(4) [of "pos_e s - n"] ix(2) by auto
    then show ?thesis using False ix(2) by (auto simp: cell_ok_def le_mod_geq split: if_splits)
  qed
  then show ?thesis
    using th P(1) P(3) [of "pos_e s mod n"] ix(1,2)
    by (auto simp: Let_def dif_signs seqn_def pos_e_def)
qed

lemma solo_finish:
  "enqueue_step False (E_cas x (enqueue_pos q)) q = (E_write x (enqueue_pos q), q\<lparr>enqueue_pos := enqueue_pos q + 1\<rparr>)"
  "fst (enqueue_step w (E_write x p) q) = E_publish x p" "fst (enqueue_step w (E_publish x p) q) = E_ret True"
  by simp_all

text \<open>Without concurrency \<^verbatim>\<open>approx_size\<close> is the number of elements.\<close>

lemma approx_size_exact:
  assumes I: "mpmc_inv n s" and l: "pos_left n s"
  shows "unat (approx_size (que s)) = pos_e s - pos_d s"
proof -
  have F: "fifo_ok n (pos_d s) (pos_e s) (seqn s) (cdat s) (claimed s) (taken s) (thr s)"
    and m: "max_size (que s) = of_nat n" and sh: "shape_ok n s"
    using I by (simp_all add: mpmc_inv_def shape_ok_def)
  note D = fifo_okD [OF F]
  have n: "unat (of_nat n :: u64) = n" using shape_index(3) [OF sh] by (simp add: unat_of_nat_u64)
  have le: "dequeue_pos (que s) \<le> enqueue_pos (que s)"
    using D(2) by (simp add: word_le_nat_alt pos_d_def pos_e_def)
  then have "unat (enqueue_pos (que s) - dequeue_pos (que s)) = pos_e s - pos_d s"
    by (simp add: unat_sub pos_d_def pos_e_def)
  then show ?thesis
    using D(2,3) n m le by (auto simp: approx_size_def Let_def word_less_nat_alt word_le_nat_alt pos_d_def pos_e_def)
qed

end
