(* ===== verification/Rw_Queue.thy ===== *)
theory Rw_Queue
  imports Mpmc_Queue
begin

text \<open>
  \<^verbatim>\<open>moodycamel::ReaderWriterQueue\<close>
  (\<^verbatim>\<open>externals/include/moodycamel/readerwriterqueue.h\<close>): a queue for one producer and one
  consumer, made of a ring of circular blocks. Blocks live in a heap whose addresses are the
  indices of a list. Every operation is modelled as a whole, between operations of the other
  thread; fences have no effect there. What \<^verbatim>\<open>malloc\<close> answers is a parameter.

  Faults of the model are failed assertions, slots out of range, elements that are not there,
  elements that are overwritten, and null pointers.
\<close>

datatype rw_fault = Rw_assert | Rw_bounds | Rw_dead | Rw_lost | Rw_null | Rw_bad_alloc

section \<open>Blocks\<close>

record 'a rwblock =
  bl_front :: u64
  bl_localTail :: u64
  bl_tail :: u64
  bl_localFront :: u64
  bl_next :: "nat option"
  bl_data :: "'a option list"
  bl_sizeMask :: u64

record 'a rwq =
  rw_blocks :: "'a rwblock list"
  frontBlock :: nat
  tailBlock :: nat
  largestBlockSize :: u64
  rw_enqueuing :: bool
  rw_dequeuing :: bool

definition new_block :: "u64 \<Rightarrow> 'a rwblock" where
  "new_block cap = \<lparr>bl_front = 0, bl_localTail = 0, bl_tail = 0, bl_localFront = 0, bl_next = None,
     bl_data = replicate (unat cap) None, bl_sizeMask = cap - 1\<rparr>"

text \<open>What \<^verbatim>\<open>make_block\<close> makes of the answer of \<^verbatim>\<open>malloc\<close>.\<close>

definition make_block :: "bool \<Rightarrow> u64 \<Rightarrow> 'a rwblock option" where
  "make_block malloc_ok cap = (if malloc_ok then Some (new_block cap) else None)"

text \<open>The next multiple of an alignment, and the next power of two.\<close>

definition align_for :: "u64 \<Rightarrow> u64 \<Rightarrow> u64" where
  "align_for alignment ptr = ptr + (alignment - ptr mod alignment) mod alignment"

text \<open>
  The memory of a block in \<^verbatim>\<open>make_block\<close>: how many bytes are allocated, and where in them, from
  address \<open>raw\<close>, the \<^verbatim>\<open>Block\<close> and its elements are, for their sizes and alignments.
\<close>

definition block_bytes :: "u64 \<Rightarrow> u64 \<Rightarrow> u64 \<Rightarrow> u64 \<Rightarrow> u64 \<Rightarrow> u64" where
  "block_bytes sizeof_Block alignof_Block sizeof_T alignof_T capacity =
     sizeof_Block + alignof_Block - 1 + (sizeof_T * capacity + alignof_T - 1)"

definition block_layout :: "u64 \<Rightarrow> u64 \<Rightarrow> u64 \<Rightarrow> u64 \<Rightarrow> u64 \<times> u64" where
  "block_layout sizeof_Block alignof_Block alignof_T raw =
     (let aligned = align_for alignof_Block raw in (aligned, align_for alignof_T (aligned + sizeof_Block)))"

definition smear :: "nat \<Rightarrow> u64 \<Rightarrow> u64" where
  "smear k x = x OR drop_bit k x"

definition ceilToPow2 :: "u64 \<Rightarrow> u64" where
  "ceilToPow2 x = fold smear [1, 2, 4, 8, 16, 32] (x - 1) + 1"

text \<open>The elements of a block: reading one, constructing one, destroying one.\<close>

definition slot_get :: "'a rwblock \<Rightarrow> u64 \<Rightarrow> rw_fault + 'a" where
  "slot_get b i = (if unat i < length (bl_data b)
     then (case bl_data b ! unat i of Some x \<Rightarrow> Inr x | None \<Rightarrow> Inl Rw_dead) else Inl Rw_bounds)"

definition slot_new :: "'a rwblock \<Rightarrow> u64 \<Rightarrow> 'a \<Rightarrow> rw_fault + 'a rwblock" where
  "slot_new b i x = (if unat i < length (bl_data b)
     then (case bl_data b ! unat i of
         None \<Rightarrow> Inr (b\<lparr>bl_data := (bl_data b)[unat i := Some x]\<rparr>)
       | Some _ \<Rightarrow> Inl Rw_lost)
     else Inl Rw_bounds)"

definition slot_destroy :: "'a rwblock \<Rightarrow> u64 \<Rightarrow> rw_fault + 'a rwblock" where
  "slot_destroy b i = (if unat i < length (bl_data b)
     then (case bl_data b ! unat i of
         Some x \<Rightarrow> Inr (b\<lparr>bl_data := (bl_data b)[unat i := None]\<rparr>)
       | None \<Rightarrow> Inl Rw_dead)
     else Inl Rw_bounds)"

definition inc :: "'a rwblock \<Rightarrow> u64 \<Rightarrow> u64" where
  "inc b i = (i + 1) AND bl_sizeMask b"

definition block_at :: "'a rwq \<Rightarrow> nat \<Rightarrow> rw_fault + 'a rwblock" where
  "block_at q a = (if a < length (rw_blocks q) then Inr (rw_blocks q ! a) else Inl Rw_null)"

definition put_block :: "nat \<Rightarrow> 'a rwblock \<Rightarrow> 'a rwq \<Rightarrow> 'a rwq" where
  "put_block a b q = q\<lparr>rw_blocks := (rw_blocks q)[a := b]\<rparr>"

definition the_next :: "'a rwblock \<Rightarrow> rw_fault + nat" where
  "the_next b = (case bl_next b of Some a \<Rightarrow> Inr a | None \<Rightarrow> Inl Rw_null)"

definition rw_assertion :: "bool \<Rightarrow> bool \<Rightarrow> rw_fault + unit" where
  "rw_assertion ndebug p = (if p \<or> ndebug then Inr () else Inl Rw_assert)"

text \<open>\<^verbatim>\<open>ReentrantGuard\<close>: the flag of the section, before and after the guarded code.\<close>

definition guard_enter :: "bool \<Rightarrow> bool \<Rightarrow> rw_fault + bool" where
  "guard_enter ndebug inSection = (if ndebug then Inr inSection
     else if inSection then Inl Rw_assert else Inr True)"

definition guard_leave :: "bool \<Rightarrow> bool \<Rightarrow> bool" where
  "guard_leave ndebug inSection = (if ndebug then inSection else False)"

definition guard_enqueuing :: "bool \<Rightarrow> ('a rwq \<Rightarrow> rw_fault + 'r \<times> 'a rwq) \<Rightarrow> 'a rwq \<Rightarrow> rw_fault + 'r \<times> 'a rwq" where
  "guard_enqueuing ndebug f q = bind_r (guard_enter ndebug (rw_enqueuing q)) (\<lambda>g.
     bind_r (f (q\<lparr>rw_enqueuing := g\<rparr>)) (\<lambda>(r, q').
       Inr (r, q'\<lparr>rw_enqueuing := guard_leave ndebug (rw_enqueuing q')\<rparr>)))"

definition guard_dequeuing :: "bool \<Rightarrow> ('a rwq \<Rightarrow> rw_fault + 'r \<times> 'a rwq) \<Rightarrow> 'a rwq \<Rightarrow> rw_fault + 'r \<times> 'a rwq" where
  "guard_dequeuing ndebug f q = bind_r (guard_enter ndebug (rw_dequeuing q)) (\<lambda>g.
     bind_r (f (q\<lparr>rw_dequeuing := g\<rparr>)) (\<lambda>(r, q').
       Inr (r, q'\<lparr>rw_dequeuing := guard_leave ndebug (rw_dequeuing q')\<rparr>)))"

section \<open>Construction\<close>

text \<open>
  The loop of the constructor that links \<open>n\<close> blocks into a ring: \<open>bs\<close> are the blocks made so
  far, at the addresses \<open>0 ..< length bs\<close>; the first is at address 0.
\<close>

fun link_blocks :: "(nat \<Rightarrow> bool) \<Rightarrow> u64 \<Rightarrow> nat \<Rightarrow> 'a rwblock list \<Rightarrow> rw_fault + 'a rwblock list" where
  "link_blocks malloc sz 0 bs = Inr bs"
| "link_blocks malloc sz (Suc n) bs = (case make_block (malloc (length bs)) sz of
     None \<Rightarrow> Inl Rw_bad_alloc
   | Some b \<Rightarrow> (let i = length bs;
         bs' = (if i = 0 then bs else bs[i - 1 := (bs ! (i - 1))\<lparr>bl_next := Some i\<rparr>])
       in link_blocks malloc sz n (bs' @ [b\<lparr>bl_next := Some 0\<rparr>])))"

definition new_rwq :: "bool \<Rightarrow> u64 \<Rightarrow> (nat \<Rightarrow> bool) \<Rightarrow> u64 \<Rightarrow> rw_fault + 'a rwq" where
  "new_rwq ndebug maxb malloc maxSize =
     bind_r (rw_assertion ndebug (0 < maxSize)) (\<lambda>_.
     bind_r (rw_assertion ndebug (maxb = ceilToPow2 maxb)) (\<lambda>_.
     bind_r (rw_assertion ndebug (2 \<le> maxb)) (\<lambda>_.
       let size0 = ceilToPow2 (maxSize + 1);
           mk = (\<lambda>bs sz. \<lparr>rw_blocks = bs, frontBlock = 0, tailBlock = 0, largestBlockSize = sz,
                   rw_enqueuing = False, rw_dequeuing = False\<rparr>)
       in if maxb * 2 < size0 then
            (let initialBlockCount = (maxSize + maxb * 2 - 3) div (maxb - 1)
             in bind_r (link_blocks malloc maxb (unat initialBlockCount) []) (\<lambda>bs. Inr (mk bs maxb)))
          else (case make_block (malloc 0) size0 of
              None \<Rightarrow> Inl Rw_bad_alloc
            | Some b \<Rightarrow> Inr (mk [b\<lparr>bl_next := Some 0\<rparr>] size0)))))"

section \<open>Enqueue\<close>

datatype AllocationMode = CanAlloc | CannotAlloc

text \<open>Room in block \<open>b\<close>, whose tail is about to become \<open>nextTail\<close>.\<close>

definition enqueue_here :: "nat \<Rightarrow> 'a rwblock \<Rightarrow> u64 \<Rightarrow> 'a \<Rightarrow> 'a rwq \<Rightarrow> rw_fault + bool \<times> 'a rwq" where
  "enqueue_here a b nextTail x q = bind_r (slot_new b (bl_tail b) x) (\<lambda>b'.
     Inr (True, put_block a (b'\<lparr>bl_tail := nextTail\<rparr>) q))"

text \<open>The free block ahead of the tail block.\<close>

definition enqueue_next :: "bool \<Rightarrow> nat \<Rightarrow> 'a \<Rightarrow> 'a rwq \<Rightarrow> rw_fault + bool \<times> 'a rwq" where
  "enqueue_next ndebug nb x q = bind_r (block_at q nb) (\<lambda>b.
     let b1 = b\<lparr>bl_localFront := bl_front b\<rparr>
     in bind_r (rw_assertion ndebug (bl_front b = bl_tail b)) (\<lambda>_.
        bind_r (slot_new b1 (bl_tail b) x) (\<lambda>b2.
          Inr (True, (put_block nb (b2\<lparr>bl_tail := inc b (bl_tail b)\<rparr>) q)\<lparr>tailBlock := nb\<rparr>))))"

text \<open>A new block after the tail block \<open>tb\<close>, which has become \<open>b\<close>.\<close>

definition enqueue_alloc :: "u64 \<Rightarrow> bool \<Rightarrow> bool \<Rightarrow> nat \<Rightarrow> 'a rwblock \<Rightarrow> 'a \<Rightarrow> 'a rwq \<Rightarrow> rw_fault + bool \<times> 'a rwq" where
  "enqueue_alloc maxb ndebug malloc_ok tb b x q =
     (let newSize = (if maxb \<le> largestBlockSize q then largestBlockSize q else largestBlockSize q * 2)
      in case make_block malloc_ok newSize of
           None \<Rightarrow> Inr (False, q)
         | Some nblk \<Rightarrow> bind_r (slot_new nblk 0 x) (\<lambda>n1.
             bind_r (rw_assertion ndebug (bl_front n1 = 0)) (\<lambda>_.
               let n2 = n1\<lparr>bl_tail := 1, bl_localTail := 1, bl_next := bl_next b\<rparr>;
                   a = length (rw_blocks q)
               in Inr (True, q\<lparr>largestBlockSize := newSize,
                     rw_blocks := (rw_blocks q)[tb := b\<lparr>bl_next := Some a\<rparr>] @ [n2], tailBlock := a\<rparr>))))"

definition inner_enqueue_body ::
    "u64 \<Rightarrow> bool \<Rightarrow> AllocationMode \<Rightarrow> bool \<Rightarrow> 'a \<Rightarrow> 'a rwq \<Rightarrow> rw_fault + bool \<times> 'a rwq" where
  "inner_enqueue_body maxb ndebug mode malloc_ok x q =
     bind_r (block_at q (tailBlock q)) (\<lambda>b.
       let nextTail = inc b (bl_tail b)
       in if nextTail \<noteq> bl_localFront b then enqueue_here (tailBlock q) b nextTail x q
          else let b1 = b\<lparr>bl_localFront := bl_front b\<rparr>; q1 = put_block (tailBlock q) b1 q
               in if nextTail \<noteq> bl_front b then enqueue_here (tailBlock q) b1 nextTail x q1
                  else bind_r (the_next b1) (\<lambda>nb.
                    if nb \<noteq> frontBlock q1 then enqueue_next ndebug nb x q1
                    else if mode = CanAlloc then enqueue_alloc maxb ndebug malloc_ok (tailBlock q1) b1 x q1
                    else Inr (False, q1)))"

definition inner_enqueue ::
    "u64 \<Rightarrow> bool \<Rightarrow> AllocationMode \<Rightarrow> bool \<Rightarrow> 'a \<Rightarrow> 'a rwq \<Rightarrow> rw_fault + bool \<times> 'a rwq" where
  "inner_enqueue maxb ndebug mode malloc_ok x =
     guard_enqueuing ndebug (inner_enqueue_body maxb ndebug mode malloc_ok x)"

definition try_enqueue :: "u64 \<Rightarrow> bool \<Rightarrow> 'a \<Rightarrow> 'a rwq \<Rightarrow> rw_fault + bool \<times> 'a rwq" where
  "try_enqueue maxb ndebug x = inner_enqueue maxb ndebug CannotAlloc False x"

definition rw_enqueue :: "u64 \<Rightarrow> bool \<Rightarrow> bool \<Rightarrow> 'a \<Rightarrow> 'a rwq \<Rightarrow> rw_fault + bool \<times> 'a rwq" where
  "rw_enqueue maxb ndebug malloc_ok x = inner_enqueue maxb ndebug CanAlloc malloc_ok x"

section \<open>Dequeue\<close>

text \<open>The element at the front of block \<open>b\<close> at \<open>a\<close> is moved out and destroyed.\<close>

definition take_front :: "nat \<Rightarrow> 'a rwblock \<Rightarrow> 'a rwq \<Rightarrow> rw_fault + 'a option \<times> 'a rwq" where
  "take_front a b q = bind_r (slot_get b (bl_front b)) (\<lambda>x.
     bind_r (slot_destroy b (bl_front b)) (\<lambda>b'.
       Inr (Some x, put_block a (b'\<lparr>bl_front := inc b (bl_front b)\<rparr>) q)))"

definition try_dequeue_body :: "bool \<Rightarrow> 'a rwq \<Rightarrow> rw_fault + 'a option \<times> 'a rwq" where
  "try_dequeue_body ndebug q =
     bind_r (block_at q (frontBlock q)) (\<lambda>b.
       if bl_front b \<noteq> bl_localTail b then take_front (frontBlock q) b q
       else let b1 = b\<lparr>bl_localTail := bl_tail b\<rparr>; q1 = put_block (frontBlock q) b1 q
            in if bl_front b \<noteq> bl_tail b then take_front (frontBlock q) b1 q1
               else if frontBlock q1 \<noteq> tailBlock q1 then
                 bind_r (block_at q1 (frontBlock q1)) (\<lambda>c.
                   let c1 = c\<lparr>bl_localTail := bl_tail c\<rparr>; q2 = put_block (frontBlock q1) c1 q1
                   in if bl_front c1 \<noteq> bl_tail c1 then take_front (frontBlock q1) c1 q2
                      else bind_r (the_next c1) (\<lambda>nb.
                        bind_r (block_at q2 nb) (\<lambda>d.
                          let d1 = d\<lparr>bl_localTail := bl_tail d\<rparr>; q3 = put_block nb d1 q2
                          in bind_r (rw_assertion ndebug (bl_front d \<noteq> bl_tail d)) (\<lambda>_.
                               take_front nb d1 (q3\<lparr>frontBlock := nb\<rparr>)))))
               else Inr (None, q1))"

definition try_dequeue :: "bool \<Rightarrow> 'a rwq \<Rightarrow> rw_fault + 'a option \<times> 'a rwq" where
  "try_dequeue ndebug = guard_dequeuing ndebug (try_dequeue_body ndebug)"

text \<open>\<^verbatim>\<open>peek\<close>: the element stays; the local copy of the tail is refreshed all the same.\<close>

definition look_front :: "'a rwblock \<Rightarrow> 'a rwq \<Rightarrow> rw_fault + 'a option \<times> 'a rwq" where
  "look_front b q = bind_r (slot_get b (bl_front b)) (\<lambda>x. Inr (Some x, q))"

definition peek_body :: "bool \<Rightarrow> 'a rwq \<Rightarrow> rw_fault + 'a option \<times> 'a rwq" where
  "peek_body ndebug q =
     bind_r (block_at q (frontBlock q)) (\<lambda>b.
       if bl_front b \<noteq> bl_localTail b then look_front b q
       else let b1 = b\<lparr>bl_localTail := bl_tail b\<rparr>; q1 = put_block (frontBlock q) b1 q
            in if bl_front b \<noteq> bl_tail b then look_front b1 q1
               else if frontBlock q1 \<noteq> tailBlock q1 then
                 bind_r (block_at q1 (frontBlock q1)) (\<lambda>c.
                   let c1 = c\<lparr>bl_localTail := bl_tail c\<rparr>; q2 = put_block (frontBlock q1) c1 q1
                   in if bl_front c1 \<noteq> bl_tail c1 then look_front c1 q2
                      else bind_r (the_next c1) (\<lambda>nb.
                        bind_r (block_at q2 nb) (\<lambda>d.
                          bind_r (rw_assertion ndebug (bl_front d \<noteq> bl_tail d)) (\<lambda>_. look_front d q2))))
               else Inr (None, q1))"

definition peek :: "bool \<Rightarrow> 'a rwq \<Rightarrow> rw_fault + 'a option \<times> 'a rwq" where
  "peek ndebug = guard_dequeuing ndebug (peek_body ndebug)"

definition drop_front :: "nat \<Rightarrow> 'a rwblock \<Rightarrow> 'a rwq \<Rightarrow> rw_fault + bool \<times> 'a rwq" where
  "drop_front a b q = bind_r (slot_destroy b (bl_front b)) (\<lambda>b'.
     Inr (True, put_block a (b'\<lparr>bl_front := inc b (bl_front b)\<rparr>) q))"

definition rw_pop_body :: "bool \<Rightarrow> 'a rwq \<Rightarrow> rw_fault + bool \<times> 'a rwq" where
  "rw_pop_body ndebug q =
     bind_r (block_at q (frontBlock q)) (\<lambda>b.
       if bl_front b \<noteq> bl_localTail b then drop_front (frontBlock q) b q
       else let b1 = b\<lparr>bl_localTail := bl_tail b\<rparr>; q1 = put_block (frontBlock q) b1 q
            in if bl_front b \<noteq> bl_tail b then drop_front (frontBlock q) b1 q1
               else if frontBlock q1 \<noteq> tailBlock q1 then
                 bind_r (block_at q1 (frontBlock q1)) (\<lambda>c.
                   let c1 = c\<lparr>bl_localTail := bl_tail c\<rparr>; q2 = put_block (frontBlock q1) c1 q1
                   in if bl_front c1 \<noteq> bl_tail c1 then drop_front (frontBlock q1) c1 q2
                      else bind_r (the_next c1) (\<lambda>nb.
                        bind_r (block_at q2 nb) (\<lambda>d.
                          let d1 = d\<lparr>bl_localTail := bl_tail d\<rparr>; q3 = put_block nb d1 q2
                          in bind_r (rw_assertion ndebug (bl_front d \<noteq> bl_tail d)) (\<lambda>_.
                               drop_front nb d1 (q3\<lparr>frontBlock := nb\<rparr>)))))
               else Inr (False, q1))"

definition rw_pop :: "bool \<Rightarrow> 'a rwq \<Rightarrow> rw_fault + bool \<times> 'a rwq" where
  "rw_pop ndebug = guard_dequeuing ndebug (rw_pop_body ndebug)"

section \<open>Size and destruction\<close>

text \<open>
  The \<^verbatim>\<open>do\<close> loops over the ring of blocks, from block \<open>a\<close> until the front block comes up
  again; a loop that never does has no value.
\<close>

partial_function (option) size_loop :: "'a rwq \<Rightarrow> nat \<Rightarrow> u64 \<Rightarrow> (rw_fault + u64) option" where
  "size_loop q a r = (case block_at q a of
      Inl e \<Rightarrow> Some (Inl e)
    | Inr b \<Rightarrow> (let r' = r + ((bl_tail b - bl_front b) AND bl_sizeMask b)
        in case the_next b of
             Inl e \<Rightarrow> Some (Inl e)
           | Inr nb \<Rightarrow> if nb \<noteq> frontBlock q then size_loop q nb r' else Some (Inr r')))"

definition size_approx :: "'a rwq \<Rightarrow> (rw_fault + u64) option" where
  "size_approx q = size_loop q (frontBlock q) 0"

text \<open>The destructor: the elements it destroys, in order, and the blocks it frees.\<close>

partial_function (option) destroy_elements ::
    "'a rwblock \<Rightarrow> u64 \<Rightarrow> 'a list \<Rightarrow> (rw_fault + 'a list) option" where
  "destroy_elements b i xs = (if i \<noteq> bl_tail b
     then (case slot_get b i of
         Inl e \<Rightarrow> Some (Inl e)
       | Inr x \<Rightarrow> destroy_elements b (inc b i) (xs @ [x]))
     else Some (Inr xs))"

partial_function (option) destroy_blocks ::
    "'a rwq \<Rightarrow> nat \<Rightarrow> 'a list \<Rightarrow> nat list \<Rightarrow> (rw_fault + 'a list \<times> nat list) option" where
  "destroy_blocks q a xs freed = (if a \<in> set freed then Some (Inl Rw_dead)
     else case block_at q a of
        Inl e \<Rightarrow> Some (Inl e)
      | Inr b \<Rightarrow> (case the_next b of
          Inl e \<Rightarrow> Some (Inl e)
        | Inr nb \<Rightarrow> (case destroy_elements b (bl_front b) xs of
            None \<Rightarrow> None
          | Some (Inl e) \<Rightarrow> Some (Inl e)
          | Some (Inr xs') \<Rightarrow>
              if nb \<noteq> frontBlock q then destroy_blocks q nb xs' (freed @ [a])
              else Some (Inr (xs', freed @ [a])))))"

definition delete_rwq :: "'a rwq \<Rightarrow> (rw_fault + 'a list \<times> nat list) option" where
  "delete_rwq q = destroy_blocks q (frontBlock q) [] []"

end
