(* ===== verification/Rw_Fifo.thy ===== *)
theory Rw_Fifo
  imports Rw_Queue
begin

text \<open>
  \<^verbatim>\<open>ReaderWriterQueue\<close> refines a FIFO list: what a block and the ring of blocks stand for,
  and what each operation does to it. The local copies of the indices that each thread keeps
  may lag behind, but only on the safe side.
\<close>

section \<open>One block\<close>

definition blk_rep :: "nat \<Rightarrow> 'a rwblock \<Rightarrow> 'a list \<Rightarrow> bool" where
  "blk_rep n b xs \<longleftrightarrow> length (bl_data b) = n \<and> (\<exists>k. n = 2 ^ k \<and> 1 \<le> k \<and> k < 62)
     \<and> bl_sizeMask b = of_nat n - 1 \<and> unat (bl_front b) < n \<and> length xs < n
     \<and> unat (bl_tail b) = (unat (bl_front b) + length xs) mod n
     \<and> (\<exists>a \<le> length xs. unat (bl_localTail b) = (unat (bl_front b) + a) mod n)
     \<and> (\<exists>c. c + length xs < n \<and> unat (bl_localFront b) = (unat (bl_tail b) + 1 + c) mod n)
     \<and> (\<forall>i<length xs. bl_data b ! ((unat (bl_front b) + i) mod n) = Some (xs ! i))
     \<and> (\<forall>j<n. bl_data b ! j \<noteq> None \<longrightarrow> (\<exists>i<length xs. j = (unat (bl_front b) + i) mod n))"

lemma blk_repD:
  assumes "blk_rep n b xs"
  shows "length (bl_data b) = n" "2 \<le> n" "n < 2 ^ 62" "unat (bl_front b) < n" "unat (bl_tail b) < n"
    "length xs < n" "unat (bl_tail b) = (unat (bl_front b) + length xs) mod n"
    "i < length xs \<Longrightarrow> bl_data b ! ((unat (bl_front b) + i) mod n) = Some (xs ! i)"
    "unat (inc b w) = Suc (unat w) mod n \<or> \<not> unat w < n"
proof -
  obtain k where k: "n = 2 ^ k" "1 \<le> k" "k < 62" using assms by (auto simp: blk_rep_def)
  show n2: "2 \<le> n" using k(1,2) by (metis one_le_numeral power_increasing power_one_right)
  show n62: "n < 2 ^ 62" using k power_strict_increasing [of k 62 "2::nat"] by simp
  show "length (bl_data b) = n" "unat (bl_front b) < n" "length xs < n"
    "unat (bl_tail b) = (unat (bl_front b) + length xs) mod n"
    using assms by (simp_all add: blk_rep_def)
  then show "unat (bl_tail b) < n" using n2 by simp
  show "i < length xs \<Longrightarrow> bl_data b ! ((unat (bl_front b) + i) mod n) = Some (xs ! i)"
    using assms by (simp add: blk_rep_def)
  have "(of_nat n :: u64) = 2 ^ k" using k by simp
  then have "unat (inc b w) = unat (w + 1) mod n"
    using assms k and_mask_mod [of k "w + 1"] by (simp add: inc_def blk_rep_def)
  moreover have "unat (w + 1) = Suc (unat w)" if "unat w < n"
    using that n62 by (simp add: unat_plus_if_size word_size)
  ultimately show "unat (inc b w) = Suc (unat w) mod n \<or> \<not> unat w < n" by auto
qed

lemma blk_occupied:
  assumes "blk_rep n b xs" "j < n" "bl_data b ! j \<noteq> None"
  obtains i where "i < length xs" "j = (unat (bl_front b) + i) mod n"
proof -
  have "\<forall>j<n. bl_data b ! j \<noteq> None \<longrightarrow> (\<exists>i<length xs. j = (unat (bl_front b) + i) mod n)"
    using assms(1) unfolding blk_rep_def by (elim conjE)
  then show ?thesis using assms(2,3) that by blast
qed

lemma mod_add_inj:
  fixes f i j n :: nat
  assumes "(f + i) mod n = (f + j) mod n" "i < n" "j < n"
  shows "i = j"
proof (cases "i \<le> j")
  case True
  then show ?thesis using assms mod_window_eq [of "f + i" n "f + j"] by simp
next
  case False
  then show ?thesis using assms mod_window_eq [of "f + j" n "f + i"] by simp
qed

lemma blk_inc:
  assumes "blk_rep n b xs"
  shows "unat (inc b (bl_tail b)) = (unat (bl_front b) + Suc (length xs)) mod n"
    "unat (inc b (bl_front b)) = Suc (unat (bl_front b)) mod n"
  using blk_repD(4,5,7,9) [OF assms] by (metis add_Suc_right mod_Suc_eq)+

text \<open>Empty and full.\<close>

lemma blk_empty_iff:
  assumes "blk_rep n b xs"
  shows "bl_front b = bl_tail b \<longleftrightarrow> xs = []"
proof -
  note D = blk_repD [OF assms]
  have "bl_front b = bl_tail b \<longleftrightarrow> (unat (bl_front b) + 0) mod n = (unat (bl_front b) + length xs) mod n"
    using D(4,7) by (simp add: word_unat_eq_iff)
  then show ?thesis using mod_add_inj [of "unat (bl_front b)" 0 n "length xs"] D(2,6) by auto
qed

lemma blk_full_iff:
  assumes "blk_rep n b xs"
  shows "inc b (bl_tail b) = bl_front b \<longleftrightarrow> Suc (length xs) = n"
proof -
  note D = blk_repD [OF assms]
  have "inc b (bl_tail b) = bl_front b \<longleftrightarrow>
      (unat (bl_front b) + Suc (length xs)) mod n = unat (bl_front b)"
    using blk_inc(1) [OF assms] by (simp add: word_unat_eq_iff)
  also have "\<dots> \<longleftrightarrow> Suc (length xs) = n"
  proof
    assume eq: "(unat (bl_front b) + Suc (length xs)) mod n = unat (bl_front b)"
    show "Suc (length xs) = n"
    proof (rule ccontr)
      assume "Suc (length xs) \<noteq> n"
      then have "Suc (length xs) < n" using D(6) by simp
      with eq D(4) mod_add_inj [of "unat (bl_front b)" "Suc (length xs)" n 0] show False by simp
    qed
  qed (use D(4) in simp)
  finally show ?thesis .
qed

text \<open>The shadow copies are safe, and can be refreshed.\<close>

lemma blk_refresh:
  assumes "blk_rep n b xs"
  shows "blk_rep n (b\<lparr>bl_localTail := bl_tail b\<rparr>) xs" "blk_rep n (b\<lparr>bl_localFront := bl_front b\<rparr>) xs"
proof -
  note D = blk_repD [OF assms]
  have "(unat (bl_tail b) + 1 + (n - 1 - length xs)) mod n = (unat (bl_front b) + n) mod n"
  proof -
    have "(unat (bl_tail b) + 1 + (n - 1 - length xs)) mod n
        = (unat (bl_front b) + length xs + 1 + (n - 1 - length xs)) mod n"
      unfolding D(7) by (metis add.assoc mod_add_left_eq)
    also have "unat (bl_front b) + length xs + 1 + (n - 1 - length xs) = unat (bl_front b) + n"
      using D(6) by simp
    finally show ?thesis .
  qed
  then have "\<exists>c. c + length xs < n \<and> unat (bl_front b) = (unat (bl_tail b) + 1 + c) mod n"
    using D(4,6) by (intro exI [of _ "n - 1 - length xs"]) simp
  then show "blk_rep n (b\<lparr>bl_localFront := bl_front b\<rparr>) xs" using assms by (simp add: blk_rep_def)
  show "blk_rep n (b\<lparr>bl_localTail := bl_tail b\<rparr>) xs"
    using assms unfolding blk_rep_def by auto
qed

lemma blk_localTail:
  assumes "blk_rep n b xs" "bl_front b \<noteq> bl_localTail b"
  shows "xs \<noteq> []"
proof
  assume "xs = []"
  then have "unat (bl_localTail b) = unat (bl_front b)"
    using assms(1) by (auto simp: blk_rep_def)
  then show False using assms(2) by (simp add: word_unat_eq_iff)
qed

text \<open>Adding at the tail, taking at the front.\<close>

lemma blk_push:
  assumes B: "blk_rep n b xs" and room: "inc b (bl_tail b) \<noteq> bl_localFront b"
  shows "slot_new b (bl_tail b) x = Inr (b\<lparr>bl_data := (bl_data b)[unat (bl_tail b) := Some x]\<rparr>)"
    "blk_rep n (b\<lparr>bl_data := (bl_data b)[unat (bl_tail b) := Some x], bl_tail := inc b (bl_tail b)\<rparr>) (xs @ [x])"
proof -
  note D = blk_repD [OF B]
  let ?f = "unat (bl_front b)" and ?t = "unat (bl_tail b)"
  obtain c where c: "c + length xs < n" "unat (bl_localFront b) = (?t + 1 + c) mod n"
    using B by (auto simp: blk_rep_def)
  have t': "unat (inc b (bl_tail b)) = Suc ?t mod n" using D(5,9) by metis
  have "c \<noteq> 0"
  proof
    assume "c = 0"
    then show False using room c(2) t' by (simp add: word_unat_eq_iff)
  qed
  then have len: "Suc (length xs) < n" using c(1) by simp
  have fresh: "?t \<noteq> (?f + i) mod n" if "i < length xs" for i
    using mod_add_inj [of ?f "length xs" n i] that D(6,7) by auto
  then have none: "bl_data b ! ?t = None"
    using B D(5) unfolding blk_rep_def by (metis (no_types))
  then show "slot_new b (bl_tail b) x = Inr (b\<lparr>bl_data := (bl_data b)[?t := Some x]\<rparr>)"
    using D(1,5) by (simp add: slot_new_def)
  have lf: "unat (bl_localFront b) = (unat (inc b (bl_tail b)) + 1 + (c - 1)) mod n"
    using c(2) \<open>c \<noteq> 0\<close> by (simp add: t' mod_simps)
  have "(bl_data b)[?t := Some x] ! ((?f + i) mod n) = Some ((xs @ [x]) ! i)" if "i < Suc (length xs)" for i
  proof (cases "i = length xs")
    case True
    then show ?thesis using D(1,5,7) by simp
  next
    case False
    then have "i < length xs" using that by simp
    then show ?thesis using fresh [of i] D(8) [of i] by (simp add: nth_append)
  qed
  moreover have "\<exists>i<Suc (length xs). j = (?f + i) mod n"
    if "j < n" "(bl_data b)[?t := Some x] ! j \<noteq> None" for j
  proof (cases "j = ?t")
    case True
    then show ?thesis using D(7) by auto
  next
    case False
    then have "bl_data b ! j \<noteq> None" using that by simp
    then show ?thesis using B that(1) unfolding blk_rep_def by (metis less_SucI)
  qed
  moreover have "unat (inc b (bl_tail b)) = (?f + Suc (length xs)) mod n" by (rule blk_inc(1) [OF B])
  moreover have "\<exists>a \<le> Suc (length xs). unat (bl_localTail b) = (?f + a) mod n"
    using B unfolding blk_rep_def by (metis le_SucI)
  ultimately show "blk_rep n (b\<lparr>bl_data := (bl_data b)[?t := Some x], bl_tail := inc b (bl_tail b)\<rparr>) (xs @ [x])"
    using B c(1) \<open>c \<noteq> 0\<close> len lf unfolding blk_rep_def
    by (auto intro!: exI [of _ "c - 1"])
qed

lemma blk_pop:
  assumes B: "blk_rep n b xs" and ne: "bl_front b \<noteq> bl_localTail b"
  shows "xs \<noteq> []" "slot_get b (bl_front b) = Inr (hd xs)"
    "slot_destroy b (bl_front b) = Inr (b\<lparr>bl_data := (bl_data b)[unat (bl_front b) := None]\<rparr>)"
    "blk_rep n (b\<lparr>bl_data := (bl_data b)[unat (bl_front b) := None], bl_front := inc b (bl_front b)\<rparr>) (tl xs)"
proof -
  note D = blk_repD [OF B]
  let ?f = "unat (bl_front b)" and ?t = "unat (bl_tail b)"
  show xs: "xs \<noteq> []" by (rule blk_localTail [OF B ne])
  have f0: "bl_data b ! ?f = Some (hd xs)"
    using D(4) D(8) [of 0] xs by (simp add: hd_conv_nth)
  then show "slot_get b (bl_front b) = Inr (hd xs)"
    "slot_destroy b (bl_front b) = Inr (b\<lparr>bl_data := (bl_data b)[?f := None]\<rparr>)"
    using D(1,4) by (simp_all add: slot_get_def slot_destroy_def)
  obtain a where a: "a \<le> length xs" "unat (bl_localTail b) = (?f + a) mod n"
    using B by (auto simp: blk_rep_def)
  have "a \<noteq> 0"
  proof
    assume "a = 0"
    then show False using ne a(2) D(4) by (simp add: word_unat_eq_iff)
  qed
  have f': "unat (inc b (bl_front b)) = Suc ?f mod n" by (rule blk_inc(2) [OF B])
  have shift: "(Suc ?f mod n + i) mod n = (?f + Suc i) mod n" for i by (simp add: mod_simps)
  have neq: "?f \<noteq> (?f + Suc i) mod n" if "i < length (tl xs)" for i
  proof -
    have "Suc i < n" using that D(6) by simp
    then show ?thesis using mod_add_inj [of ?f 0 n "Suc i"] D(4) by auto
  qed
  have data: "(bl_data b)[?f := None] ! ((Suc ?f mod n + i) mod n) = Some (tl xs ! i)" if "i < length (tl xs)" for i
    using neq [OF that] D(8) [of "Suc i"] that unfolding shift by (simp add: nth_tl)
  have only: "\<exists>i<length (tl xs). j = (Suc ?f mod n + i) mod n"
    if jn: "j < n" and occ: "(bl_data b)[?f := None] ! j \<noteq> None" for j
  proof -
    have "j \<noteq> ?f" using jn occ D(1) by auto
    then have "bl_data b ! j \<noteq> None" using occ by simp
    then obtain i where i: "i < length xs" "j = (?f + i) mod n" using blk_occupied [OF B jn] by metis
    then have "i \<noteq> 0" using \<open>j \<noteq> ?f\<close> D(4) by (auto intro: ccontr)
    then show ?thesis using i shift [of "i - 1"] by (intro exI [of _ "i - 1"]) auto
  qed
  have tail: "?t = (Suc ?f mod n + length (tl xs)) mod n" using xs D(7) by (simp add: shift)
  have lt: "\<exists>a \<le> length (tl xs). unat (bl_localTail b) = (Suc ?f mod n + a) mod n"
    using a \<open>a \<noteq> 0\<close> shift [of "a - 1"] by (intro exI [of _ "a - 1"]) auto
  have "length (tl xs) < n" using D(6) by simp
  have lf: "\<exists>c. c + length (tl xs) < n \<and> unat (bl_localFront b) = (?t + 1 + c) mod n"
    using B unfolding blk_rep_def by force
  show "blk_rep n (b\<lparr>bl_data := (bl_data b)[?f := None], bl_front := inc b (bl_front b)\<rparr>) (tl xs)"
    using B data only tail lt lf D(2) \<open>length (tl xs) < n\<close> unfolding blk_rep_def by (simp add: f')
qed

lemma blk_next [simp]: "blk_rep n (b\<lparr>bl_next := y\<rparr>) xs = blk_rep n b xs"
  by (simp add: blk_rep_def)

section \<open>The ring of blocks\<close>

text \<open>
  \<open>ring\<close> lists the addresses of the blocks in the order of \<^verbatim>\<open>next\<close>, and \<open>xss\<close> what each
  holds.
\<close>

definition ring_rep :: "'a rwblock list \<Rightarrow> nat list \<Rightarrow> 'a list list \<Rightarrow> bool" where
  "ring_rep bs ring xss \<longleftrightarrow> length xss = length ring \<and> distinct ring \<and> set ring = {..<length bs}
     \<and> (\<forall>i<length ring. bl_next (bs ! (ring ! i)) = Some (ring ! (Suc i mod length ring)))
     \<and> (\<forall>i<length ring. blk_rep (length (bl_data (bs ! (ring ! i)))) (bs ! (ring ! i)) (xss ! i))"

lemma ring_repD:
  assumes "ring_rep bs ring xss"
  shows "length xss = length ring" "distinct ring" "set ring = {..<length bs}" "length ring = length bs"
    "i < length ring \<Longrightarrow> ring ! i < length bs"
    "i < length ring \<Longrightarrow> bl_next (bs ! (ring ! i)) = Some (ring ! (Suc i mod length ring))"
    "i < length ring \<Longrightarrow> blk_rep (length (bl_data (bs ! (ring ! i)))) (bs ! (ring ! i)) (xss ! i)"
proof -
  show s: "length xss = length ring" "distinct ring" "set ring = {..<length bs}"
    "i < length ring \<Longrightarrow> bl_next (bs ! (ring ! i)) = Some (ring ! (Suc i mod length ring))"
    "i < length ring \<Longrightarrow> blk_rep (length (bl_data (bs ! (ring ! i)))) (bs ! (ring ! i)) (xss ! i)"
    using assms by (simp_all add: ring_rep_def)
  show "length ring = length bs" using distinct_card [OF s(2)] s(3) by simp
  show "i < length ring \<Longrightarrow> ring ! i < length bs" using s(3) nth_mem by fastforce
qed

lemma ring_put:
  assumes R: "ring_rep bs ring xss" and i: "i < length ring"
    and b: "bl_next b = bl_next (bs ! (ring ! i))" "blk_rep (length (bl_data b)) b ys"
  shows "ring_rep (bs[ring ! i := b]) ring (xss[i := ys])"
proof -
  note D = ring_repD [OF R]
  have nth: "bs[ring ! i := b] ! (ring ! l) = (if l = i then b else bs ! (ring ! l))" if "l < length ring" for l
    using that i D(2) D(5) [OF i] by (auto simp: nth_eq_iff_index_eq nth_list_update)
  show ?thesis
    unfolding ring_rep_def using D(1,2,3) D(6) D(7) b i by (auto simp: nth nth_list_update)
qed

lemma ring_rotate:
  assumes "ring_rep bs ring xss"
  shows "ring_rep bs (rotate1 ring) (rotate1 xss)"
proof -
  note D = ring_repD [OF assms]
  show ?thesis
  proof (cases "ring = []")
    case False
    then have lt: "Suc i mod length ring < length ring" for i by simp
    show ?thesis unfolding ring_rep_def using D(1,2,3) D(6) [OF lt] D(7) [OF lt] by (simp add: nth_rotate1 lt)
  qed (use assms D(1) in simp)
qed

lemma ring_append:
  assumes R: "ring_rep bs ring xss" and k: "Suc k = length ring"
    and b: "blk_rep (length (bl_data b)) b (xss ! k)"
    and new: "bl_next nb = Some (ring ! 0)" "blk_rep (length (bl_data nb)) nb ys"
  shows "ring_rep ((bs[ring ! k := b\<lparr>bl_next := Some (length bs)\<rparr>]) @ [nb]) (ring @ [length bs]) (xss @ [ys])"
proof -
  note D = ring_repD [OF R]
  let ?bs = "(bs[ring ! k := b\<lparr>bl_next := Some (length bs)\<rparr>]) @ [nb]"
  have old: "?bs ! (ring ! l) = (if l = k then b\<lparr>bl_next := Some (length bs)\<rparr> else bs ! (ring ! l))"
    if l: "l < length ring" for l
  proof -
    have "ring ! l = ring ! k \<longleftrightarrow> l = k" using l k D(2) by (simp add: nth_eq_iff_index_eq)
    then show ?thesis using D(5) [OF l] by (cases "l = k") (auto simp: nth_append)
  qed
  have "distinct (ring @ [length bs])" "set (ring @ [length bs]) = {..<length ?bs}"
    using D(2,3) by (simp_all add: lessThan_Suc)
  moreover have "bl_next (?bs ! ((ring @ [length bs]) ! l)) = Some ((ring @ [length bs]) ! (Suc l mod Suc (length ring)))
      \<and> blk_rep (length (bl_data (?bs ! ((ring @ [length bs]) ! l)))) (?bs ! ((ring @ [length bs]) ! l)) ((xss @ [ys]) ! l)"
    if ll: "l < Suc (length ring)" for l
  proof -
    consider "l = length ring" | "l = k" | "l < length ring" "Suc l < length ring" using ll k by linarith
    then show ?thesis
    proof cases
      case 1
      have "0 < length ring" using k by linarith
      then have "(ring @ [length bs]) ! (Suc l mod Suc (length ring)) = ring ! 0"
        "(ring @ [length bs]) ! l = length bs" "(xss @ [ys]) ! l = ys"
        using 1 D(1) by (simp_all add: nth_append)
      then show ?thesis using new by (simp add: nth_append)
    next
      case 2
      then have "l < length ring" "Suc l mod Suc (length ring) = length ring" using k by simp_all
      then have "(ring @ [length bs]) ! (Suc l mod Suc (length ring)) = length bs"
        "(ring @ [length bs]) ! l = ring ! k" "(xss @ [ys]) ! l = xss ! k" "?bs ! (ring ! k) = b\<lparr>bl_next := Some (length bs)\<rparr>"
        using 2 D(1) old [of k] by (simp_all add: nth_append)
      then show ?thesis using b by simp
    next
      case 3
      then have "(ring @ [length bs]) ! (Suc l mod Suc (length ring)) = ring ! (Suc l mod length ring)"
        "(ring @ [length bs]) ! l = ring ! l" "(xss @ [ys]) ! l = xss ! l" "?bs ! (ring ! l) = bs ! (ring ! l)"
        using k D(1) old [OF 3(1)] by (auto simp: nth_append)
      then show ?thesis using D(6) [OF 3(1)] D(7) [OF 3(1)] by simp
    qed
  qed
  ultimately show ?thesis unfolding ring_rep_def length_append_singleton D(1) by (intro conjI allI impI) auto
qed

text \<open>What the blocks hold in all.\<close>

lemma concat_snoc_at:
  assumes "k < length xss" "\<forall>i. k < i \<and> i < length xss \<longrightarrow> xss ! i = []"
  shows "concat (xss[k := xss ! k @ [x]]) = concat xss @ [x]"
proof -
  have "concat (drop (Suc k) xss) = []" using assms by (auto simp: in_set_conv_nth)
  moreover have "concat xss = concat (take k xss @ xss ! k # drop (Suc k) xss)"
    using assms(1) id_take_nth_drop by metis
  ultimately show ?thesis
    using assms(1) by (simp add: upd_conv_take_nth_drop del: concat_eq_Nil_conv)
qed

lemma concat_tl_at_0:
  assumes "xss \<noteq> []" "xss ! 0 \<noteq> []"
  shows "concat (xss[0 := tl (xss ! 0)]) = tl (concat xss)" "hd (concat xss) = hd (xss ! 0)" "concat xss \<noteq> []"
  using assms by (cases xss; simp)+

end
