(* ===== verification/Rw_Ops.thy ===== *)
theory Rw_Ops
  imports Rw_Fifo
begin

text \<open>
  The operations of \<^verbatim>\<open>ReaderWriterQueue\<close> on the ring of blocks: the producer appends, the
  consumer takes the head, and the queue keeps room for the number of elements it was
  constructed for.
\<close>

section \<open>The queue\<close>

definition sizes :: "'a rwblock list \<Rightarrow> nat list" where
  "sizes bs = map (\<lambda>b. length (bl_data b)) bs"

text \<open>
  The front block is the first of the ring and the tail block the \<open>k\<close>-th; those in between
  are full, those behind are free.
\<close>

definition ends :: "nat list \<Rightarrow> nat list \<Rightarrow> 'a list list \<Rightarrow> nat \<Rightarrow> bool" where
  "ends ns ring xss k \<longleftrightarrow> k < length ring \<and> (\<forall>i. 0 < i \<and> i \<le> k \<longrightarrow> xss ! i \<noteq> [])
     \<and> (\<forall>i. 0 < i \<and> i < k \<longrightarrow> Suc (length (xss ! i)) = ns ! (ring ! i))
     \<and> (\<forall>i. k < i \<and> i < length ring \<longrightarrow> xss ! i = [])"

text \<open>
  Blocks of these sizes hold \<open>m\<close> elements, also when one of several blocks is out of reach of
  the producer because the consumer is in it.
\<close>

definition spare :: "nat \<Rightarrow> nat list \<Rightarrow> bool" where
  "spare m ns \<longleftrightarrow> (if length ns = 1 then m < ns ! 0
     else \<forall>a<length ns. m \<le> (\<Sum>b\<in>{..<length ns} - {a}. ns ! b - 1))"

definition pool :: "nat \<Rightarrow> 'a rwq \<Rightarrow> bool" where
  "pool m q \<longleftrightarrow> spare m (sizes (rw_blocks q)) \<and> (\<exists>j. largestBlockSize q = 2 ^ j \<and> 1 \<le> j \<and> j < 62)
     \<and> (\<forall>n\<in>set (sizes (rw_blocks q)). n \<le> unat (largestBlockSize q))"

definition rwq_rep ::
    "nat \<Rightarrow> bool \<Rightarrow> bool \<Rightarrow> 'a rwq \<Rightarrow> nat list \<Rightarrow> 'a list list \<Rightarrow> nat \<Rightarrow> bool" where
  "rwq_rep m fe fd q ring xss k \<longleftrightarrow> ring_rep (rw_blocks q) ring xss \<and> ends (sizes (rw_blocks q)) ring xss k
     \<and> frontBlock q = ring ! 0 \<and> tailBlock q = ring ! k \<and> pool m q
     \<and> rw_enqueuing q = fe \<and> rw_dequeuing q = fd"

definition rwq_abs :: "nat \<Rightarrow> 'a rwq \<Rightarrow> 'a list \<Rightarrow> bool" where
  "rwq_abs m q zs \<longleftrightarrow> (\<exists>ring xss k. rwq_rep m False False q ring xss k \<and> concat xss = zs)"

lemma sizes_put:
  assumes "length (bl_data b) = length (bl_data (bs ! a))"
  shows "sizes (bs[a := b]) = sizes bs"
proof (cases "a < length bs")
  case True
  then show ?thesis using assms by (simp add: sizes_def map_update list_update_same_conv)
qed (simp add: sizes_def list_update_beyond)

lemma rwq_repD:
  assumes "rwq_rep m fe fd q ring xss k"
  shows "ring_rep (rw_blocks q) ring xss" "ends (sizes (rw_blocks q)) ring xss k" "frontBlock q = ring ! 0"
    "tailBlock q = ring ! k" "pool m q" "rw_enqueuing q = fe" "rw_dequeuing q = fd" "k < length ring"
    "0 < length ring" "ring ! 0 < length (rw_blocks q)" "ring ! k < length (rw_blocks q)"
    "length xss = length ring"
proof -
  show d: "ring_rep (rw_blocks q) ring xss" "ends (sizes (rw_blocks q)) ring xss k" "frontBlock q = ring ! 0"
    "tailBlock q = ring ! k" "pool m q" "rw_enqueuing q = fe" "rw_dequeuing q = fd"
    using assms by (simp_all add: rwq_rep_def)
  show k: "k < length ring" using d(2) by (simp add: ends_def)
  then show l: "0 < length ring" by linarith
  show "ring ! 0 < length (rw_blocks q)" "ring ! k < length (rw_blocks q)" "length xss = length ring"
    using ring_repD [OF d(1)] k l by simp_all
qed

lemma rep_put:
  assumes R: "rwq_rep m fe fd q ring xss k" and i: "i < length ring"
    and b: "bl_next b = bl_next (rw_blocks q ! (ring ! i))"
      "length (bl_data b) = length (bl_data (rw_blocks q ! (ring ! i)))" "blk_rep (length (bl_data b)) b ys"
    and e: "ends (sizes (rw_blocks q)) ring (xss[i := ys]) k'"
  shows "rwq_rep m fe fd ((put_block (ring ! i) b q)\<lparr>tailBlock := ring ! k'\<rparr>) ring (xss[i := ys]) k'"
proof -
  have "sizes ((rw_blocks q)[ring ! i := b]) = sizes (rw_blocks q)" by (rule sizes_put [OF b(2)])
  then show ?thesis
    using ring_put [OF rwq_repD(1) [OF R] i b(1,3)] e rwq_repD(3,5,6,7) [OF R]
    by (simp add: rwq_rep_def put_block_def pool_def)
qed

lemma rep_put_same:
  assumes R: "rwq_rep m fe fd q ring xss k" and i: "i < length ring"
    and b: "bl_next b = bl_next (rw_blocks q ! (ring ! i))"
      "length (bl_data b) = length (bl_data (rw_blocks q ! (ring ! i)))" "blk_rep (length (bl_data b)) b ys"
    and e: "ends (sizes (rw_blocks q)) ring (xss[i := ys]) k"
  shows "rwq_rep m fe fd (put_block (ring ! i) b q) ring (xss[i := ys]) k"
proof -
  have "(put_block (ring ! i) b q)\<lparr>tailBlock := ring ! k\<rparr> = put_block (ring ! i) b q"
    using rwq_repD(4) [OF R] by (simp add: put_block_def)
  then show ?thesis using rep_put [OF assms] by simp
qed

text \<open>Refreshing a local copy changes nothing.\<close>

lemma rep_refresh:
  assumes R: "rwq_rep m fe fd q ring xss k" and i: "i < length ring" and b: "b = rw_blocks q ! (ring ! i)"
  shows "rwq_rep m fe fd (put_block (ring ! i) (b\<lparr>bl_localFront := bl_front b\<rparr>) q) ring xss k"
    "rwq_rep m fe fd (put_block (ring ! i) (b\<lparr>bl_localTail := bl_tail b\<rparr>) q) ring xss k"
proof -
  have B: "blk_rep (length (bl_data b)) b (xss ! i)" using ring_repD(7) [OF rwq_repD(1) [OF R] i] b by simp
  have "ends (sizes (rw_blocks q)) ring (xss[i := xss ! i]) k" using rwq_repD(2) [OF R] by simp
  then show "rwq_rep m fe fd (put_block (ring ! i) (b\<lparr>bl_localFront := bl_front b\<rparr>) q) ring xss k"
    "rwq_rep m fe fd (put_block (ring ! i) (b\<lparr>bl_localTail := bl_tail b\<rparr>) q) ring xss k"
    using rep_put_same [OF R i, of "b\<lparr>bl_localFront := bl_front b\<rparr>" "xss ! i"]
      rep_put_same [OF R i, of "b\<lparr>bl_localTail := bl_tail b\<rparr>" "xss ! i"] b blk_refresh [OF B] by simp_all
qed

section \<open>The producer\<close>

definition room :: "'a list list \<Rightarrow> nat \<Rightarrow> 'a \<Rightarrow> 'a list list" where
  "room xss k x = xss[k := xss ! k @ [x]]"

lemma ends_tailD:
  assumes "ends ns ring xss k" "length xss = length ring"
  shows "concat (room xss k x) = concat xss @ [x]" "ends ns ring (room xss k x) k"
    "Suc k < length ring \<Longrightarrow> 0 < k \<Longrightarrow> Suc (length (xss ! k)) = ns ! (ring ! k) \<Longrightarrow> ends ns ring (room xss (Suc k) x) (Suc k)"
    "Suc k < length ring \<Longrightarrow> k = 0 \<Longrightarrow> ends ns ring (room xss (Suc k) x) (Suc k)"
    "Suc k < length ring \<Longrightarrow> concat (room xss (Suc k) x) = concat xss @ [x]"
proof -
  show "concat (room xss k x) = concat xss @ [x]"
    unfolding room_def using assms by (intro concat_snoc_at) (auto simp: ends_def)
  show "Suc k < length ring \<Longrightarrow> concat (room xss (Suc k) x) = concat xss @ [x]"
    unfolding room_def using assms by (intro concat_snoc_at) (auto simp: ends_def)
  show "ends ns ring (room xss k x) k"
    unfolding room_def using assms by (auto simp: ends_def nth_list_update)
  show "ends ns ring (room xss (Suc k) x) (Suc k)"
    if "Suc k < length ring" "0 < k" "Suc (length (xss ! k)) = ns ! (ring ! k)"
    unfolding room_def using assms that by (auto simp: ends_def nth_list_update less_Suc_eq le_Suc_eq)
  show "Suc k < length ring \<Longrightarrow> k = 0 \<Longrightarrow> ends ns ring (room xss (Suc k) x) (Suc k)"
    unfolding room_def using assms by (auto simp: ends_def nth_list_update)
qed

lemma enqueue_here_ok:
  assumes R: "rwq_rep m fe fd q ring xss k" and b: "b = rw_blocks q ! (ring ! k)"
    and free: "inc b (bl_tail b) \<noteq> bl_localFront b"
  shows "\<exists>q'. enqueue_here (ring ! k) b (inc b (bl_tail b)) x q = Inr (True, q')
      \<and> rwq_rep m fe fd q' ring (room xss k x) k"
proof -
  note D = rwq_repD [OF R]
  have B: "blk_rep (length (bl_data b)) b (xss ! k)" using ring_repD(7) [OF D(1,8)] b by simp
  note P = blk_push [OF B free, of x]
  have "rwq_rep m fe fd (put_block (ring ! k) (b\<lparr>bl_data := (bl_data b)[unat (bl_tail b) := Some x],
      bl_tail := inc b (bl_tail b)\<rparr>) q) ring (room xss k x) k"
    unfolding room_def
    using rep_put_same [OF R D(8), of "b\<lparr>bl_data := (bl_data b)[unat (bl_tail b) := Some x], bl_tail := inc b (bl_tail b)\<rparr>"
        "xss ! k @ [x]"] P(2) ends_tailD(2) [OF D(2,12)] b by (simp add: room_def)
  then show ?thesis by (simp add: enqueue_here_def P(1) bind_r_def)
qed

text \<open>A new block.\<close>

lemma blk_new:
  assumes "1 \<le> j" "j < 62"
  shows "blk_rep (2 ^ j) (new_block (2 ^ j)) []" "length (bl_data (new_block (2 ^ j))) = 2 ^ j"
proof -
  have u: "unat (2 ^ j :: u64) = 2 ^ j" using assms by (simp add: unat_exp_u64)
  then show "length (bl_data (new_block (2 ^ j))) = 2 ^ j" by (simp add: new_block_def)
  have "\<exists>c. c < (2::nat) ^ j \<and> 0 = Suc c mod 2 ^ j" by (intro exI [of _ "2 ^ j - 1"]) simp
  then show "blk_rep (2 ^ j) (new_block (2 ^ j)) []"
    using assms u unfolding blk_rep_def by (auto simp: new_block_def)
qed

lemma spare_grow:
  assumes "spare m ns" "ns \<noteq> []" "\<forall>n\<in>set ns. n \<le> n'"
  shows "spare m (ns @ [n'])"
proof -
  let ?f = "\<lambda>b. (ns @ [n']) ! b - 1"
  have old: "(\<Sum>b\<in>{..<length ns} - {a}. ?f b) = (\<Sum>b\<in>{..<length ns} - {a}. ns ! b - 1)" for a
    by (intro sum.cong) (auto simp: nth_append)
  have "m \<le> (\<Sum>b\<in>{..<Suc (length ns)} - {a}. ?f b)" if a: "a < Suc (length ns)" for a
  proof (cases "length ns = 1")
    case True
    then obtain n where n: "ns = [n]" by (auto simp: length_Suc_conv)
    have "{..<Suc (length ns)} - {a} = {1 - a}" using a n by (auto simp: less_Suc_eq)
    moreover have "m < n" "n \<le> n'" using assms n by (simp_all add: spare_def)
    ultimately show ?thesis using a n by (cases a) (auto simp: nth_append)
  next
    case False
    define c where "c = (if a = length ns then 0 else a)"
    have "m \<le> (\<Sum>b\<in>{..<length ns} - {c}. ns ! b - 1)"
      using assms(1,2) False a by (auto simp: spare_def c_def)
    also have "\<dots> \<le> (\<Sum>b\<in>{..<Suc (length ns)} - {a}. ?f b)"
      unfolding old [symmetric] by (intro sum_mono2) (auto simp: c_def split: if_splits)
    finally show ?thesis .
  qed
  then show ?thesis using assms(2) by (simp add: spare_def)
qed

lemma full_spare:
  assumes R: "rwq_rep m fe fd q ring xss k" and k: "Suc k = length ring"
    and full: "Suc (length (xss ! k)) = length (bl_data (rw_blocks q ! (ring ! k)))"
  shows "m \<le> length (concat xss)"
proof -
  note D = rwq_repD [OF R] and G = ring_repD [OF rwq_repD(1) [OF R]]
  let ?ns = "sizes (rw_blocks q)"
  have len: "length ?ns = length ring" using G(4) by (simp add: sizes_def)
  have at: "?ns ! (ring ! i) - 1 = length (xss ! i)" if "0 < i \<or> k = 0" "i < length ring" for i
  proof (cases "i = k")
    case True
    then show ?thesis using full D(11) by (simp add: sizes_def)
  next
    case False
    then have "0 < i \<and> i < k" using that k by linarith
    then have "Suc (length (xss ! i)) = ?ns ! (ring ! i)" using D(2) by (simp add: ends_def)
    then show ?thesis by linarith
  qed
  show ?thesis
  proof (cases "k = 0")
    case True
    then have l1: "length ring = 1" "length xss = 1" using k D(12) by simp_all
    then obtain xs where "xss = [xs]" by (auto simp: length_Suc_conv)
    moreover have "ring ! 0 = 0" using D(10) G(4) l1 by linarith
    moreover have "m < ?ns ! 0" using D(5) len l1 by (simp add: pool_def spare_def)
    ultimately show ?thesis using at [of 0] True l1 by simp
  next
    case False
    have ring: "ring = ring ! 0 # tl ring" and xss: "xss = xss ! 0 # tl xss"
      using D(9,12) by (cases ring; cases xss; simp)+
    have "ring ! 0 < length ?ns" using D(9) G(5) G(4) len by simp
    then have "m \<le> (\<Sum>b\<in>{..<length ?ns} - {ring ! 0}. ?ns ! b - 1)"
      using D(5) len k False by (auto simp: pool_def spare_def)
    also have "{..<length ?ns} - {ring ! 0} = set (tl ring)"
      using G(2,3,4) len ring by (metis Diff_insert_absorb distinct.simps(2) list.simps(15))
    also have "(\<Sum>b\<in>set (tl ring). ?ns ! b - 1) = sum_list (map (\<lambda>b. ?ns ! b - 1) (tl ring))"
      using G(2) by (simp add: sum_list_distinct_conv_sum_set distinct_tl)
    also have "map (\<lambda>b. ?ns ! b - 1) (tl ring) = map length (tl xss)"
      using D(12) at by (intro nth_equalityI) (auto simp: nth_tl)
    also have "sum_list (map length (tl xss)) \<le> length (concat xss)"
      by (subst xss) (simp add: length_concat)
    finally show ?thesis .
  qed
qed

lemma enqueue_next_ok:
  assumes R: "rwq_rep m fe fd q ring xss k" and k: "Suc k < length ring"
    and full: "Suc (length (xss ! k)) = length (bl_data (rw_blocks q ! (ring ! k)))"
  shows "\<exists>q'. enqueue_next ndebug (ring ! Suc k) x q = Inr (True, q')
      \<and> rwq_rep m fe fd q' ring (room xss (Suc k) x) (Suc k)"
proof -
  note D = rwq_repD [OF R]
  define b where "b = rw_blocks q ! (ring ! Suc k)"
  let ?b1 = "b\<lparr>bl_localFront := bl_front b\<rparr>"
  have nil: "xss ! Suc k = []" using D(2) k by (simp add: ends_def)
  have B: "blk_rep (length (bl_data b)) b []" using ring_repD(7) [OF D(1) k] nil b_def by simp
  have at: "block_at q (ring ! Suc k) = Inr b" using ring_repD(5) [OF D(1) k] by (simp add: block_at_def b_def)
  have eq: "bl_front b = bl_tail b" using blk_empty_iff [OF B] by simp
  have "inc ?b1 (bl_tail ?b1) \<noteq> bl_localFront ?b1"
    using blk_full_iff [OF B] blk_repD(2) [OF B] by (simp add: inc_def)
  note P = blk_push [OF blk_refresh(2) [OF B] this, of x]
  have "ends (sizes (rw_blocks q)) ring (room xss (Suc k) x) (Suc k)"
    using ends_tailD(3,4) [OF D(2,12) k] full D(11) by (cases "k = 0") (simp_all add: sizes_def)
  then have "rwq_rep m fe fd ((put_block (ring ! Suc k) (?b1\<lparr>bl_data := (bl_data b)[unat (bl_tail b) := Some x],
      bl_tail := inc b (bl_tail b)\<rparr>) q)\<lparr>tailBlock := ring ! Suc k\<rparr>) ring (room xss (Suc k) x) (Suc k)"
    using rep_put [OF R k, of "?b1\<lparr>bl_data := (bl_data b)[unat (bl_tail b) := Some x], bl_tail := inc b (bl_tail b)\<rparr>"
        "[x]" "Suc k"] P(2) by (simp add: room_def nil b_def inc_def)
  then show ?thesis
    using P(1) eq by (simp add: enqueue_next_def at rw_assertion_def Let_def inc_def)
qed

lemma new_size:
  assumes "largestBlockSize q = 2 ^ j" "1 \<le> j" "j < 62" "maxb = 2 ^ p" "p < 62"
  shows "\<exists>i. (if maxb \<le> largestBlockSize q then largestBlockSize q else largestBlockSize q * 2) = 2 ^ i
      \<and> j \<le> i \<and> i < 62"
proof -
  have "maxb \<le> largestBlockSize q \<longleftrightarrow> p \<le> j"
    using assms by (simp add: word_le_nat_alt unat_exp_u64)
  then show ?thesis using assms by (cases "p \<le> j") (auto intro: exI [of _ "Suc j"])
qed

lemma ends_grow:
  assumes e: "ends ns ring xss k" and len: "length xss = length ring" and k: "Suc k = length ring"
    and full: "Suc (length (xss ! k)) = ns ! (ring ! k)" and bd: "\<forall>a\<in>set ring. a < length ns"
  shows "ends (ns @ [n]) (ring @ [a]) (xss @ [[x]]) (Suc k)"
  unfolding ends_def
proof (intro conjI allI impI)
  fix i
  assume i: "0 < i \<and> i \<le> Suc k"
  show "(xss @ [[x]]) ! i \<noteq> []"
  proof (cases "i = Suc k")
    case False
    then have "i \<le> k" using i by simp
    then show ?thesis using e i k len by (simp add: ends_def nth_append)
  qed (use k len in \<open>simp add: nth_append\<close>)
next
  fix i
  assume i: "0 < i \<and> i < Suc k"
  then have il: "i < length ring" using k by simp
  have "Suc (length (xss ! i)) = ns ! (ring ! i)"
    using e i full by (cases "i = k") (simp_all add: ends_def)
  then show "Suc (length ((xss @ [[x]]) ! i)) = (ns @ [n]) ! ((ring @ [a]) ! i)"
    using il len bd by (simp add: nth_append)
qed (use k in auto)

lemma enqueue_alloc_ok:
  assumes R: "rwq_rep m fe fd q ring xss k" and k: "Suc k = length ring" and b: "b = rw_blocks q ! (ring ! k)"
    and full: "Suc (length (xss ! k)) = length (bl_data b)" and p: "maxb = 2 ^ p" "p < 62"
  shows "\<exists>q'. enqueue_alloc maxb ndebug True (ring ! k) b (x :: 'a) q = Inr (True, q')
      \<and> rwq_rep m fe fd q' (ring @ [length ring]) (xss @ [[x]]) (Suc k)"
proof -
  note D = rwq_repD [OF R] and G = ring_repD [OF rwq_repD(1) [OF R]]
  obtain j where j: "largestBlockSize q = 2 ^ j" "1 \<le> j" "j < 62" using D(5) by (auto simp: pool_def)
  obtain i where i: "(if maxb \<le> largestBlockSize q then largestBlockSize q else largestBlockSize q * 2) = 2 ^ i"
    "j \<le> i" "i < 62" using new_size [OF j p] by blast
  have "1 \<le> i" using i j by simp
  define n0 :: "'a rwblock" where "n0 = new_block (2 ^ i)"
  have N: "blk_rep (2 ^ i) n0 []" "length (bl_data n0) = 2 ^ i" and
    n0: "bl_tail n0 = 0" "bl_front n0 = 0" "bl_localFront n0 = 0"
    unfolding n0_def using blk_new [OF \<open>1 \<le> i\<close> i(3)] by (simp_all add: new_block_def)
  define nb where "nb = n0\<lparr>bl_data := (bl_data n0)[0 := Some x],
      bl_tail := 1, bl_localTail := 1, bl_next := bl_next b\<rparr>"
  have one: "inc n0 0 = 1"
    using blk_repD(9) [OF N(1), of 0] \<open>1 \<le> i\<close> by (simp add: word_unat_eq_iff)
  have free: "inc n0 (bl_tail n0) \<noteq> bl_localFront n0"
    using one n0 by simp
  note P = blk_push [OF N(1) free, of x]
  have B: "blk_rep (length (bl_data nb)) nb [x]" "length (bl_data nb) = 2 ^ i"
    using blk_refresh(1) [OF P(2)] N(2) one n0 by (simp_all add: nb_def)
  have nx: "bl_next nb = Some (ring ! 0)" using G(6) [OF D(8)] k b by (simp add: nb_def)
  have bk: "blk_rep (length (bl_data b)) b (xss ! k)" using G(7) [OF D(8)] b by simp
  let ?q = "q\<lparr>largestBlockSize := 2 ^ i,
      rw_blocks := ((rw_blocks q)[ring ! k := b\<lparr>bl_next := Some (length ring)\<rparr>]) @ [nb], tailBlock := length ring\<rparr>"
  have sz: "sizes (rw_blocks ?q) = sizes (rw_blocks q) @ [2 ^ i]"
    using sizes_put [of "b\<lparr>bl_next := Some (length ring)\<rparr>" "rw_blocks q" "ring ! k"] b B(2) by (simp add: sizes_def)
  have le: "\<forall>n\<in>set (sizes (rw_blocks q)). n \<le> 2 ^ i"
  proof
    fix n assume "n \<in> set (sizes (rw_blocks q))"
    then have "n \<le> unat (largestBlockSize q)" using D(5) by (simp add: pool_def)
    also have "\<dots> = 2 ^ j" using j by (simp add: unat_exp_u64)
    also have "\<dots> \<le> 2 ^ i" using i(2) by (simp add: power_increasing)
    finally show "n \<le> 2 ^ i" .
  qed
  have "sizes (rw_blocks q) \<noteq> []" using D(10) by (auto simp: sizes_def)
  then have "pool m ?q"
    unfolding pool_def sz using spare_grow [of m "sizes (rw_blocks q)" "2 ^ i"] D(5) le i(3) \<open>1 \<le> i\<close>
    by (auto simp: pool_def unat_exp_u64)
  moreover have "ends (sizes (rw_blocks ?q)) (ring @ [length ring]) (xss @ [[x]]) (Suc k)"
    unfolding sz using ends_grow [OF D(2,12) k] full D(11) G(3) b by (simp add: sizes_def)
  moreover have "ring_rep (rw_blocks ?q) (ring @ [length ring]) (xss @ [[x]])"
    using ring_append [OF D(1) k bk nx B(1)] G(4) by simp
  ultimately have "rwq_rep m fe fd ?q (ring @ [length ring]) (xss @ [[x]]) (Suc k)"
    using D(3,6,7,9) k by (simp add: rwq_rep_def nth_append)
  moreover have "enqueue_alloc maxb ndebug True (ring ! k) b x q = Inr (True, ?q)"
    using P(1) i(1) G(4) n0
    by (simp add: enqueue_alloc_def make_block_def n0_def [symmetric] rw_assertion_def nb_def Let_def)
  ultimately show ?thesis by blast
qed

text \<open>The whole operation.\<close>

lemma outcome:
  "f = Inr (r, q') \<Longrightarrow> rwq_rep m fe fd q' ring' xss' k' \<Longrightarrow> P r xss' \<Longrightarrow>
    \<exists>r q' ring' xss' k'. f = Inr (r, q') \<and> rwq_rep m fe fd q' ring' xss' k' \<and> P r xss'"
  by blast

lemma guard_enqueuing_ok:
  assumes "rwq_rep m False fd q ring xss k"
    and "\<And>q1. rwq_rep m (\<not> ndebug) fd q1 ring xss k \<Longrightarrow>
      \<exists>r q' ring' xss' k'. f q1 = Inr (r, q') \<and> rwq_rep m (\<not> ndebug) fd q' ring' xss' k' \<and> P r xss'"
  shows "\<exists>r q' ring' xss' k'. guard_enqueuing ndebug f q = Inr (r, q') \<and> rwq_rep m False fd q' ring' xss' k' \<and> P r xss'"
proof -
  let ?q1 = "q\<lparr>rw_enqueuing := \<not> ndebug\<rparr>"
  have "rwq_rep m (\<not> ndebug) fd ?q1 ring xss k" using assms(1) by (simp add: rwq_rep_def pool_def)
  then obtain r q' ring' xss' k' where f: "f ?q1 = Inr (r, q')"
    and q': "rwq_rep m (\<not> ndebug) fd q' ring' xss' k'" and P: "P r xss'" using assms(2) by blast
  have "guard_enqueuing ndebug f q = Inr (r, q'\<lparr>rw_enqueuing := False\<rparr>)"
    using f rwq_repD(6) [OF assms(1)] rwq_repD(6) [OF q'] 
    by (cases ndebug) (simp_all add: guard_enqueuing_def guard_enter_def guard_leave_def del: bind_r_eq_Inr)
  moreover have "rwq_rep m False fd (q'\<lparr>rw_enqueuing := False\<rparr>) ring' xss' k'"
    using q' by (simp add: rwq_rep_def pool_def)
  ultimately show ?thesis using P by blast
qed

lemma guard_dequeuing_ok:
  assumes "rwq_rep m fe False q ring xss k"
    and "\<And>q1. rwq_rep m fe (\<not> ndebug) q1 ring xss k \<Longrightarrow>
      \<exists>r q' ring' xss' k'. f q1 = Inr (r, q') \<and> rwq_rep m fe (\<not> ndebug) q' ring' xss' k' \<and> P r xss'"
  shows "\<exists>r q' ring' xss' k'. guard_dequeuing ndebug f q = Inr (r, q') \<and> rwq_rep m fe False q' ring' xss' k' \<and> P r xss'"
proof -
  let ?q1 = "q\<lparr>rw_dequeuing := \<not> ndebug\<rparr>"
  have "rwq_rep m fe (\<not> ndebug) ?q1 ring xss k" using assms(1) by (simp add: rwq_rep_def pool_def)
  then obtain r q' ring' xss' k' where f: "f ?q1 = Inr (r, q')"
    and q': "rwq_rep m fe (\<not> ndebug) q' ring' xss' k'" and P: "P r xss'" using assms(2) by blast
  have "guard_dequeuing ndebug f q = Inr (r, q'\<lparr>rw_dequeuing := False\<rparr>)"
    using f rwq_repD(7) [OF assms(1)] rwq_repD(7) [OF q'] 
    by (cases ndebug) (simp_all add: guard_dequeuing_def guard_enter_def guard_leave_def del: bind_r_eq_Inr)
  moreover have "rwq_rep m fe False (q'\<lparr>rw_dequeuing := False\<rparr>) ring' xss' k'"
    using q' by (simp add: rwq_rep_def pool_def)
  ultimately show ?thesis using P by blast
qed

text \<open>An enqueue fails only if it may not or cannot allocate and the queue holds \<open>m\<close> elements.\<close>

definition enqueued :: "nat \<Rightarrow> bool \<Rightarrow> 'a \<Rightarrow> 'a list \<Rightarrow> bool \<Rightarrow> 'a list \<Rightarrow> bool" where
  "enqueued m can x zs r zs' \<longleftrightarrow> (if r then zs' = zs @ [x] else zs' = zs \<and> \<not> can \<and> m \<le> length zs)"

lemma inner_enqueue_ok:
  assumes R0: "rwq_rep m False fd q ring xss k" and p: "maxb = 2 ^ p" "p < 62"
  shows "\<exists>r q' ring' xss' k'. inner_enqueue maxb ndebug mode malloc_ok x q = Inr (r, q')
      \<and> rwq_rep m False fd q' ring' xss' k' \<and> enqueued m (mode = CanAlloc \<and> malloc_ok) x (concat xss) r (concat xss')"
  unfolding inner_enqueue_def
proof (rule guard_enqueuing_ok [OF R0])
  fix q1 :: "'a rwq"
  assume R: "rwq_rep m (\<not> ndebug) fd q1 ring xss k"
  note D = rwq_repD [OF R] and E = ends_tailD [OF rwq_repD(2,12) [OF R]]
  define b where "b = rw_blocks q1 ! (ring ! k)"
  let ?b1 = "b\<lparr>bl_localFront := bl_front b\<rparr>" and ?q2 = "put_block (ring ! k) (b\<lparr>bl_localFront := bl_front b\<rparr>) q1"
  have at: "block_at q1 (tailBlock q1) = Inr b" using D(4,11) by (simp add: block_at_def b_def)
  have B: "blk_rep (length (bl_data b)) b (xss ! k)" using ring_repD(7) [OF D(1,8)] b_def by simp
  have R2: "rwq_rep m (\<not> ndebug) fd ?q2 ring xss k" by (rule rep_refresh(1) [OF R D(8) b_def])
  have b1: "?b1 = rw_blocks ?q2 ! (ring ! k)" using D(11) by (simp add: put_block_def)
  have bn: "bl_next b = Some (ring ! (Suc k mod length ring))" using ring_repD(6) [OF D(1,8)] b_def by simp
  have fin: "frontBlock ?q2 = ring ! 0" "tailBlock ?q2 = ring ! k" using rwq_repD(3,4) [OF R2] .
  consider (here) "inc b (bl_tail b) \<noteq> bl_localFront b"
    | (fresh) "inc b (bl_tail b) = bl_localFront b" "inc b (bl_tail b) \<noteq> bl_front b"
    | (nxt) "inc b (bl_tail b) = bl_localFront b" "inc b (bl_tail b) = bl_front b" "Suc k < length ring"
    | (alloc) "inc b (bl_tail b) = bl_localFront b" "inc b (bl_tail b) = bl_front b" "Suc k = length ring"
    using D(8) by linarith
  then show "\<exists>r q' ring' xss' k'. inner_enqueue_body maxb ndebug mode malloc_ok x q1 = Inr (r, q')
      \<and> rwq_rep m (\<not> ndebug) fd q' ring' xss' k' \<and> enqueued m (mode = CanAlloc \<and> malloc_ok) x (concat xss) r (concat xss')"
  proof cases
    case here
    obtain q' where q': "enqueue_here (ring ! k) b (inc b (bl_tail b)) x q1 = Inr (True, q')"
      "rwq_rep m (\<not> ndebug) fd q' ring (room xss k x) k" using enqueue_here_ok [OF R b_def here] by blast
    then have "inner_enqueue_body maxb ndebug mode malloc_ok x q1 = Inr (True, q')"
      using here D(4) by (simp add: inner_enqueue_body_def at [unfolded D(4)] Let_def del: bind_r_eq_Inr)
    then show ?thesis by (rule outcome [OF _ q'(2)]) (simp add: enqueued_def E(1))
  next
    case fresh
    have "inc ?b1 (bl_tail ?b1) \<noteq> bl_localFront ?b1" using fresh by (simp add: inc_def)
    then obtain q' where q': "enqueue_here (ring ! k) ?b1 (inc ?b1 (bl_tail ?b1)) x ?q2 = Inr (True, q')"
      "rwq_rep m (\<not> ndebug) fd q' ring (room xss k x) k" using enqueue_here_ok [OF R2 b1] by blast
    then have "inner_enqueue_body maxb ndebug mode malloc_ok x q1 = Inr (True, q')"
      using fresh D(4) by (simp add: inner_enqueue_body_def at [unfolded D(4)] Let_def inc_def del: bind_r_eq_Inr)
    then show ?thesis by (rule outcome [OF _ q'(2)]) (simp add: enqueued_def E(1))
  next
    case nxt
    have full: "Suc (length (xss ! k)) = length (bl_data (rw_blocks ?q2 ! (ring ! k)))"
      using blk_full_iff [OF B] nxt(2) b1 [symmetric] by simp
    obtain q' where q': "enqueue_next ndebug (ring ! Suc k) x ?q2 = Inr (True, q')"
      "rwq_rep m (\<not> ndebug) fd q' ring (room xss (Suc k) x) (Suc k)" using enqueue_next_ok [OF R2 nxt(3) full] by blast
    have "ring ! Suc k \<noteq> ring ! 0" using nxt(3) ring_repD(2) [OF D(1)] D(9) by (simp add: nth_eq_iff_index_eq)
    then have "inner_enqueue_body maxb ndebug mode malloc_ok x q1 = Inr (True, q')"
      using nxt D(4) q'(1) bn fin
      by (simp add: inner_enqueue_body_def at [unfolded D(4)] Let_def the_next_def del: bind_r_eq_Inr)
    then show ?thesis by (rule outcome [OF _ q'(2)]) (simp add: enqueued_def E(5) [OF nxt(3)])
  next
    case alloc
    have full: "Suc (length (xss ! k)) = length (bl_data ?b1)" using blk_full_iff [OF B] alloc(2) by simp
    have m: "m \<le> length (concat xss)" using full_spare [OF R2 alloc(3)] full b1 by simp
    have body: "inner_enqueue_body maxb ndebug mode malloc_ok x q1
        = (if mode = CanAlloc then enqueue_alloc maxb ndebug malloc_ok (ring ! k) ?b1 x ?q2 else Inr (False, ?q2))"
      using alloc D(4) bn fin
      by (simp add: inner_enqueue_body_def at [unfolded D(4)] Let_def the_next_def del: bind_r_eq_Inr)
    show ?thesis
    proof (cases "mode = CanAlloc \<and> malloc_ok")
      case True
      obtain q' where q': "enqueue_alloc maxb ndebug True (ring ! k) ?b1 x ?q2 = Inr (True, q')"
        "rwq_rep m (\<not> ndebug) fd q' (ring @ [length ring]) (xss @ [[x]]) (Suc k)"
        using enqueue_alloc_ok [OF R2 alloc(3) b1 full p] by blast
      have "inner_enqueue_body maxb ndebug mode malloc_ok x q1 = Inr (True, q')" using True q'(1) body by simp
      then show ?thesis by (rule outcome [OF _ q'(2)]) (simp add: enqueued_def)
    next
      case False
      then have "inner_enqueue_body maxb ndebug mode malloc_ok x q1 = Inr (False, ?q2)"
        by (auto simp: body enqueue_alloc_def make_block_def Let_def)
      then show ?thesis by (rule outcome [OF _ R2]) (use m False in \<open>simp add: enqueued_def\<close>)
    qed
  qed
qed

section \<open>The consumer\<close>

definition popped :: "'a list list \<Rightarrow> 'a list list" where
  "popped xss = xss[0 := tl (xss ! 0)]"

lemma take_ok:
  assumes R: "rwq_rep m fe fd q ring xss k" and b: "b = rw_blocks q ! (ring ! 0)"
    and ne: "bl_front b \<noteq> bl_localTail b"
  obtains q' where "take_front (ring ! 0) b q = Inr (Some (hd (concat xss)), q')"
    "drop_front (ring ! 0) b q = Inr (True, q')" "look_front b q = Inr (Some (hd (concat xss)), q)"
    "rwq_rep m fe fd q' ring (popped xss) k" "concat (popped xss) = tl (concat xss)" "concat xss \<noteq> []"
proof -
  note D = rwq_repD [OF R]
  have B: "blk_rep (length (bl_data b)) b (xss ! 0)" using ring_repD(7) [OF D(1,9)] b by simp
  note P = blk_pop [OF B ne]
  have "xss \<noteq> []" using D(9,12) by auto
  note C = concat_tl_at_0 [OF this P(1)]
  let ?q = "put_block (ring ! 0) (b\<lparr>bl_data := (bl_data b)[unat (bl_front b) := None], bl_front := inc b (bl_front b)\<rparr>) q"
  have "ends (sizes (rw_blocks q)) ring (popped xss) k"
    using D(2,12) by (auto simp: ends_def popped_def nth_list_update)
  then have "rwq_rep m fe fd ?q ring (popped xss) k"
    using rep_put_same [OF R D(9), of "b\<lparr>bl_data := (bl_data b)[unat (bl_front b) := None], bl_front := inc b (bl_front b)\<rparr>"
      "tl (xss ! 0)"] P(4) b by (simp add: popped_def)
  then show ?thesis
    using P(2,3) C by (intro that [of ?q])
      (simp_all add: take_front_def drop_front_def look_front_def popped_def del: bind_r_eq_Inr)
qed

lemma rep_rotate:
  assumes R: "rwq_rep m fe fd q ring xss k" and nil: "xss ! 0 = []" and k: "0 < k"
  shows "rwq_rep m fe fd (q\<lparr>frontBlock := ring ! 1\<rparr>) (rotate1 ring) (rotate1 xss) (k - 1)"
    "concat (rotate1 xss) = concat xss" "rotate1 ring ! 0 = ring ! 1" "rotate1 xss ! 0 = xss ! 1"
proof -
  note D = rwq_repD [OF R]
  have two: "Suc 0 < length ring" using k D(8) by simp
  have nth: "rotate1 ring ! i = ring ! (Suc i mod length ring)" "rotate1 xss ! i = xss ! (Suc i mod length ring)"
    if "i < length ring" for i using that D(12) by (simp_all add: nth_rotate1)
  then show first: "rotate1 ring ! 0 = ring ! 1" "rotate1 xss ! 0 = xss ! 1" using D(9) two by simp_all
  have "rotate1 ring ! (k - 1) = ring ! k" using nth(1) [of "k - 1"] k D(8) by simp
  moreover have "ends (sizes (rw_blocks q)) (rotate1 ring) (rotate1 xss) (k - 1)"
    unfolding ends_def
  proof (intro conjI allI impI)
    fix i assume "0 < i \<and> i \<le> k - 1"
    then have "Suc i \<le> k" "i < length ring" "Suc i mod length ring = Suc i" using D(8) by auto
    then show "rotate1 xss ! i \<noteq> []" using D(2) nth(2) by (simp add: ends_def)
  next
    fix i assume "0 < i \<and> i < k - 1"
    then have "Suc i < k" "i < length ring" "Suc i mod length ring = Suc i" using D(8) by auto
    then show "Suc (length (rotate1 xss ! i)) = sizes (rw_blocks q) ! (rotate1 ring ! i)"
      using D(2) nth by (simp add: ends_def)
  next
    fix i assume i: "k - 1 < i \<and> i < length (rotate1 ring)"
    then have "Suc i = length ring \<or> k < Suc i \<and> Suc i < length ring" using k by auto
    then show "rotate1 xss ! i = []" using i D(2) nth(2) nil by (auto simp: ends_def)
  qed (use k D(8) in simp)
  ultimately show "rwq_rep m fe fd (q\<lparr>frontBlock := ring ! 1\<rparr>) (rotate1 ring) (rotate1 xss) (k - 1)"
    using R ring_rotate [OF D(1)] first by (simp add: rwq_rep_def pool_def)
  show "concat (rotate1 xss) = concat xss" using nil D(9,12) by (cases xss) auto
qed

text \<open>The front block is empty and the tail block is further on: the next block has an element.\<close>

lemma advance:
  assumes R: "rwq_rep m fe fd q ring xss k" and nil: "xss ! 0 = []" and k: "0 < k"
    and d: "d = rw_blocks q ! (ring ! 1)"
  defines "d1 \<equiv> d\<lparr>bl_localTail := bl_tail d\<rparr>"
  obtains q' where "block_at q (ring ! 1) = Inr d" "bl_front d \<noteq> bl_tail d"
    "bl_next (rw_blocks q ! (ring ! 0)) = Some (ring ! 1)" "ring ! 0 \<noteq> ring ! k"
    "take_front (ring ! 1) d1 ((put_block (ring ! 1) d1 q)\<lparr>frontBlock := ring ! 1\<rparr>) = Inr (Some (hd (concat xss)), q')"
    "drop_front (ring ! 1) d1 ((put_block (ring ! 1) d1 q)\<lparr>frontBlock := ring ! 1\<rparr>) = Inr (True, q')"
    "look_front d q = Inr (Some (hd (concat xss)), q)"
    "rwq_rep m fe fd q' (rotate1 ring) (popped (rotate1 xss)) (k - 1)"
    "concat (popped (rotate1 xss)) = tl (concat xss)" "concat xss \<noteq> []"
proof -
  note D = rwq_repD [OF R]
  have two: "1 < length ring" using k D(8) by simp
  note lt = ring_repD(5) [OF D(1) two]
  have B: "blk_rep (length (bl_data d)) d (xss ! 1)" using ring_repD(7) [OF D(1) two] d by simp
  have ne1: "xss ! 1 \<noteq> []" using D(2) k by (simp add: ends_def)
  have ne: "bl_front d \<noteq> bl_tail d" using blk_empty_iff [OF B] ne1 by simp
  let ?q = "(put_block (ring ! 1) d1 q)\<lparr>frontBlock := ring ! 1\<rparr>"
  note R' = rep_rotate [OF rep_refresh(2) [OF R two d] nil k, folded d1_def]
  have d1: "d1 = rw_blocks ?q ! (rotate1 ring ! 0)" using lt R'(3) by (simp add: put_block_def)
  have "bl_front d1 \<noteq> bl_localTail d1" using ne by (simp add: d1_def)
  then obtain q' where q': "take_front (ring ! 1) d1 ?q = Inr (Some (hd (concat xss)), q')"
    "drop_front (ring ! 1) d1 ?q = Inr (True, q')" "look_front d1 ?q = Inr (Some (hd (concat xss)), ?q)"
    "rwq_rep m fe fd q' (rotate1 ring) (popped (rotate1 xss)) (k - 1)"
    "concat (popped (rotate1 xss)) = tl (concat xss)" "concat xss \<noteq> []"
    using take_ok [OF R'(1) d1] unfolding R'(2,3) by metis
  have "look_front d q = Inr (Some (hd (concat xss)), q)"
  proof -
    have "slot_get d1 = slot_get d" "bl_front d1 = bl_front d" by (auto simp: slot_get_def d1_def)
    then show ?thesis using q'(3) by (simp add: look_front_def)
  qed
  moreover have "bl_next (rw_blocks q ! (ring ! 0)) = Some (ring ! 1)" using ring_repD(6) [OF D(1,9)] two by simp
  moreover have "ring ! 0 \<noteq> ring ! k" using k D(8,9) ring_repD(2) [OF D(1)] by (simp add: nth_eq_iff_index_eq)
  moreover have "block_at q (ring ! 1) = Inr d" using lt d by (simp add: block_at_def)
  ultimately show ?thesis using that ne q' by blast
qed

text \<open>The whole operations.\<close>

lemma consumer_cases:
  assumes R: "rwq_rep m fe fd q ring xss k" and b: "b = rw_blocks q ! (ring ! 0)"
  obtains (here) "bl_front b \<noteq> bl_localTail b"
  | (fresh) "bl_front b = bl_localTail b" "bl_front b \<noteq> bl_tail b"
  | (empty) "bl_front b = bl_localTail b" "bl_front b = bl_tail b" "k = 0" "concat xss = []"
  | (ahead) "bl_front b = bl_localTail b" "bl_front b = bl_tail b" "xss ! 0 = []" "0 < k"
proof -
  note D = rwq_repD [OF R]
  have B: "blk_rep (length (bl_data b)) b (xss ! 0)" using ring_repD(7) [OF D(1,9)] b by simp
  have z: "bl_front b = bl_tail b \<longleftrightarrow> xss ! 0 = []" by (rule blk_empty_iff [OF B])
  have nil: "concat xss = []" if k0: "k = 0" and x0: "xss ! 0 = []"
  proof -
    have "xss ! i = []" if "i < length ring" for i using D(2) that k0 x0 by (cases i) (auto simp: ends_def)
    then show ?thesis using D(12) by (auto simp: in_set_conv_nth)
  qed
  show ?thesis
  proof (cases "bl_front b = bl_localTail b \<and> bl_front b = bl_tail b")
    case True
    then show ?thesis using z nil empty ahead by (cases "k = 0") blast+
  qed (use here fresh in blast)
qed

text \<open>
  \<^verbatim>\<open>try_dequeue\<close>, \<^verbatim>\<open>peek\<close> and \<^verbatim>\<open>pop\<close> find the front element in the same way: \<open>f\<close> is what
  they do in the front block, \<open>g\<close> in the next one, \<open>e\<close> if there is none.
\<close>

definition consume ::
    "(nat \<Rightarrow> 'a rwblock \<Rightarrow> 'a rwq \<Rightarrow> rw_fault + 'r \<times> 'a rwq) \<Rightarrow> (nat \<Rightarrow> 'a rwblock \<Rightarrow> 'a rwq \<Rightarrow> rw_fault + 'r \<times> 'a rwq)
     \<Rightarrow> 'r \<Rightarrow> 'a rwq \<Rightarrow> rw_fault + 'r \<times> 'a rwq" where
  "consume f g e q = bind_r (block_at q (frontBlock q)) (\<lambda>b.
     if bl_front b \<noteq> bl_localTail b then f (frontBlock q) b q
     else let b1 = b\<lparr>bl_localTail := bl_tail b\<rparr>; q1 = put_block (frontBlock q) b1 q
          in if bl_front b \<noteq> bl_tail b then f (frontBlock q) b1 q1
             else if frontBlock q1 \<noteq> tailBlock q1 then
               bind_r (block_at q1 (frontBlock q1)) (\<lambda>c.
                 let c1 = c\<lparr>bl_localTail := bl_tail c\<rparr>; q2 = put_block (frontBlock q1) c1 q1
                 in if bl_front c1 \<noteq> bl_tail c1 then f (frontBlock q1) c1 q2
                    else bind_r (the_next c1) (\<lambda>nb. bind_r (block_at q2 nb) (\<lambda>d. g nb d q2)))
             else Inr (e, q1))"

lemma consume_ok:
  assumes R: "rwq_rep m fe fd q ring xss k"
    and f: "\<And>q b. rwq_rep m fe fd q ring xss k \<Longrightarrow> b = rw_blocks q ! (ring ! 0) \<Longrightarrow> bl_front b \<noteq> bl_localTail b \<Longrightarrow>
      \<exists>r q' ring' xss' k'. f (ring ! 0) b q = Inr (r, q') \<and> rwq_rep m fe fd q' ring' xss' k' \<and> P r xss'"
    and g: "\<And>q d. rwq_rep m fe fd q ring xss k \<Longrightarrow> xss ! 0 = [] \<Longrightarrow> 0 < k \<Longrightarrow> d = rw_blocks q ! (ring ! 1) \<Longrightarrow>
      \<exists>r q' ring' xss' k'. g (ring ! 1) d q = Inr (r, q') \<and> rwq_rep m fe fd q' ring' xss' k' \<and> P r xss'"
    and e: "concat xss = [] \<Longrightarrow> P e xss"
  shows "\<exists>r q' ring' xss' k'. consume f g e q = Inr (r, q') \<and> rwq_rep m fe fd q' ring' xss' k' \<and> P r xss'"
proof -
  note D = rwq_repD [OF R]
  define b where "b = rw_blocks q ! (ring ! 0)"
  define b1 where "b1 = b\<lparr>bl_localTail := bl_tail b\<rparr>"
  define q2 where "q2 = put_block (ring ! 0) b1 q"
  have at: "block_at q (ring ! 0) = Inr b" "block_at q2 (ring ! 0) = Inr b1" and b1: "b1 = rw_blocks q2 ! (ring ! 0)"
    using D(10) by (simp_all add: block_at_def b_def q2_def put_block_def)
  have R2: "rwq_rep m fe fd q2 ring xss k" unfolding q2_def b1_def by (rule rep_refresh(2) [OF R D(9) b_def])
  have b1_simps: "bl_front b1 = bl_front b" "bl_tail b1 = bl_tail b" "b1\<lparr>bl_localTail := bl_tail b\<rparr> = b1"
    "put_block (ring ! 0) b1 q2 = q2" by (simp_all add: b1_def q2_def put_block_def)
  have body: "consume f g e q = (if bl_front b \<noteq> bl_localTail b then f (ring ! 0) b q
      else if bl_front b \<noteq> bl_tail b then f (ring ! 0) b1 q2
      else if ring ! 0 \<noteq> ring ! k then bind_r (the_next b1) (\<lambda>nb. bind_r (block_at q2 nb) (\<lambda>d. g nb d q2))
      else Inr (e, q2))"
    by (simp only: consume_def D(3) at bind_r_simps Let_def b1_def [symmetric] q2_def [symmetric]
        rwq_repD(3,4) [OF R2] b1_simps if_False cong: if_cong)
  from R b_def show ?thesis
  proof (cases rule: consumer_cases)
    case here
    then show ?thesis using f [OF R b_def here] by (simp only: body if_True simp_thms)
  next
    case fresh
    then have "bl_front b1 \<noteq> bl_localTail b1" by (simp add: b1_def)
    then show ?thesis using f [OF R2 b1] fresh by (simp only: body if_True if_False simp_thms)
  next
    case empty
    then have "consume f g e q = Inr (e, q2)" by (simp only: body simp_thms if_False)
    then show ?thesis by (rule outcome [OF _ R2]) (rule e [OF empty(4)])
  next
    case ahead
    define d where "d = rw_blocks q2 ! (ring ! 1)"
    from advance [OF R2 ahead(3,4) d_def] have d: "block_at q2 (ring ! 1) = Inr d"
      "bl_next (rw_blocks q2 ! (ring ! 0)) = Some (ring ! 1)" "ring ! 0 \<noteq> ring ! k" by metis+
    have "bl_next b1 = Some (ring ! 1)" using d(2) b1 by simp
    then have "consume f g e q = g (ring ! 1) d q2"
      using ahead(1,2) d(1,3) by (simp add: body the_next_def del: bind_r_eq_Inr)
    then show ?thesis using g [OF R2 ahead(3,4) d_def] by simp
  qed
qed

text \<open>The answers.\<close>

definition front_of :: "'a list \<Rightarrow> 'a option" where
  "front_of zs = (if zs = [] then None else Some (hd zs))"

lemma try_dequeue_ok:
  assumes R0: "rwq_rep m fe False q ring xss k"
  shows "\<exists>r q' ring' xss' k'. try_dequeue ndebug q = Inr (r, q') \<and> rwq_rep m fe False q' ring' xss' k'
      \<and> (r = front_of (concat xss) \<and> concat xss' = tl (concat xss))"
  unfolding try_dequeue_def
proof (rule guard_dequeuing_ok [OF R0])
  let ?g = "\<lambda>nb (d :: 'a rwblock) q. let d1 = d\<lparr>bl_localTail := bl_tail d\<rparr>; q3 = put_block nb d1 q
      in bind_r (rw_assertion ndebug (bl_front d \<noteq> bl_tail d)) (\<lambda>_. take_front nb d1 (q3\<lparr>frontBlock := nb\<rparr>))"
  have body: "try_dequeue_body ndebug q1 = consume take_front ?g None q1" for q1 :: "'a rwq"
    unfolding try_dequeue_body_def consume_def ..
  fix q1 :: "'a rwq"
  assume R: "rwq_rep m fe (\<not> ndebug) q1 ring xss k"
  show "\<exists>r q' ring' xss' k'. try_dequeue_body ndebug q1 = Inr (r, q') \<and> rwq_rep m fe (\<not> ndebug) q' ring' xss' k'
      \<and> (r = front_of (concat xss) \<and> concat xss' = tl (concat xss))"
    unfolding body
  proof (rule consume_ok [OF R], goal_cases)
    case (1 q b)
    then show ?case by (rule take_ok) (auto simp: front_of_def intro!: outcome)
  next
    case (2 q d)
    then show ?case by (rule advance) (auto simp: front_of_def rw_assertion_def Let_def intro!: outcome)
  qed (simp add: front_of_def del: concat_eq_Nil_conv)
qed

lemma rw_pop_ok:
  assumes R0: "rwq_rep m fe False q ring xss k"
  shows "\<exists>r q' ring' xss' k'. rw_pop ndebug q = Inr (r, q') \<and> rwq_rep m fe False q' ring' xss' k'
      \<and> (r = (concat xss \<noteq> []) \<and> concat xss' = tl (concat xss))"
  unfolding rw_pop_def
proof (rule guard_dequeuing_ok [OF R0])
  let ?g = "\<lambda>nb (d :: 'a rwblock) q. let d1 = d\<lparr>bl_localTail := bl_tail d\<rparr>; q3 = put_block nb d1 q
      in bind_r (rw_assertion ndebug (bl_front d \<noteq> bl_tail d)) (\<lambda>_. drop_front nb d1 (q3\<lparr>frontBlock := nb\<rparr>))"
  have body: "rw_pop_body ndebug q1 = consume drop_front ?g False q1" for q1 :: "'a rwq"
    unfolding rw_pop_body_def consume_def ..
  fix q1 :: "'a rwq"
  assume R: "rwq_rep m fe (\<not> ndebug) q1 ring xss k"
  show "\<exists>r q' ring' xss' k'. rw_pop_body ndebug q1 = Inr (r, q') \<and> rwq_rep m fe (\<not> ndebug) q' ring' xss' k'
      \<and> (r = (concat xss \<noteq> []) \<and> concat xss' = tl (concat xss))"
    unfolding body
  proof (rule consume_ok [OF R], goal_cases)
    case (1 q b)
    then show ?case by (rule take_ok) (auto intro!: outcome)
  next
    case (2 q d)
    then show ?case by (rule advance) (auto simp: rw_assertion_def Let_def intro!: outcome)
  qed (simp del: concat_eq_Nil_conv)
qed

lemma peek_ok:
  assumes R0: "rwq_rep m fe False q ring xss k"
  shows "\<exists>r q' ring' xss' k'. peek ndebug q = Inr (r, q') \<and> rwq_rep m fe False q' ring' xss' k'
      \<and> (r = front_of (concat xss) \<and> concat xss' = concat xss)"
  unfolding peek_def
proof (rule guard_dequeuing_ok [OF R0])
  let ?g = "\<lambda>nb :: nat. \<lambda>(d :: 'a rwblock) q.
      bind_r (rw_assertion ndebug (bl_front d \<noteq> bl_tail d)) (\<lambda>_. look_front d q)"
  have body: "peek_body ndebug q1 = consume (\<lambda>a. look_front) ?g None q1" for q1 :: "'a rwq"
    unfolding peek_body_def consume_def ..
  fix q1 :: "'a rwq"
  assume R: "rwq_rep m fe (\<not> ndebug) q1 ring xss k"
  show "\<exists>r q' ring' xss' k'. peek_body ndebug q1 = Inr (r, q') \<and> rwq_rep m fe (\<not> ndebug) q' ring' xss' k'
      \<and> (r = front_of (concat xss) \<and> concat xss' = concat xss)"
    unfolding body
  proof (rule consume_ok [OF R], goal_cases)
    case (1 q b)
    then show ?case by (rule take_ok) (use 1 in \<open>auto simp: front_of_def intro!: outcome\<close>)
  next
    case (2 q d)
    then show ?case by (rule advance) (use 2 in \<open>auto simp: front_of_def rw_assertion_def intro!: outcome\<close>)
  qed (simp add: front_of_def del: concat_eq_Nil_conv)
qed

end
