(* ===== verification/Rw_Props.thy ===== *)
theory Rw_Props
  imports Rw_Ops
begin

text \<open>
  The life of a \<^verbatim>\<open>ReaderWriterQueue\<close>: its construction, runs of operations, its size and its
  destruction.
\<close>

section \<open>The next power of two\<close>

lemma bit_smear_fold:
  assumes "\<And>i. bit x i \<longleftrightarrow> (\<exists>d<n. bit y (i + d))"
  shows "bit (smear n x) i \<longleftrightarrow> (\<exists>d<2 * n. bit y (i + d))"
proof -
  have "bit (smear n x) i \<longleftrightarrow> (\<exists>d<n. bit y (i + d)) \<or> (\<exists>d<n. bit y (n + i + d))"
    by (simp add: smear_def bit_or_iff bit_drop_bit_eq assms)
  also have "\<dots> \<longleftrightarrow> (\<exists>d<2 * n. bit y (i + d))" (is "?l \<longleftrightarrow> ?r")
  proof
    assume ?l
    then show ?r
    proof (elim disjE)
      assume "\<exists>d<n. bit y (i + d)"
      then obtain d where "d < n" "bit y (i + d)" by blast
      then show ?r by (intro exI [of _ d]) simp
    next
      assume "\<exists>d<n. bit y (n + i + d)"
      then obtain d where "d < n" "bit y (n + i + d)" by blast
      then show ?r by (intro exI [of _ "n + d"]) (simp add: ac_simps)
    qed
  next
    assume ?r
    then obtain d where d: "d < 2 * n" "bit y (i + d)" by blast
    show ?l
    proof (cases "d < n")
      case False
      then have "d - n < n" "n + i + (d - n) = i + d" using d(1) by simp_all
      then show ?l using d(2) by metis
    qed (use d in blast)
  qed
  finally show ?thesis .
qed

lemma bit_smeared: "bit (fold smear [1, 2, 4, 8, 16, 32] y) i \<longleftrightarrow> (\<exists>d<64. bit (y :: u64) (i + d))"
proof -
  have 0: "bit y i \<longleftrightarrow> (\<exists>d<1. bit y (i + d))" for i by simp
  have 1: "bit (smear 1 y) i \<longleftrightarrow> (\<exists>d<2. bit y (i + d))" for i
    using bit_smear_fold [of "y" 1 y i, OF 0] by simp
  have 2: "bit (smear 2 (smear 1 y)) i \<longleftrightarrow> (\<exists>d<4. bit y (i + d))" for i
    using bit_smear_fold [of "smear 1 y" 2 y i, OF 1] by simp
  have 3: "bit (smear 4 (smear 2 (smear 1 y))) i \<longleftrightarrow> (\<exists>d<8. bit y (i + d))" for i
    using bit_smear_fold [of "smear 2 (smear 1 y)" 4 y i, OF 2] by simp
  have 4: "bit (smear 8 (smear 4 (smear 2 (smear 1 y)))) i \<longleftrightarrow> (\<exists>d<16. bit y (i + d))" for i
    using bit_smear_fold [of "smear 4 (smear 2 (smear 1 y))" 8 y i, OF 3] by simp
  have 5: "bit (smear 16 (smear 8 (smear 4 (smear 2 (smear 1 y))))) i \<longleftrightarrow> (\<exists>d<32. bit y (i + d))" for i
    using bit_smear_fold [of "smear 8 (smear 4 (smear 2 (smear 1 y)))" 16 y i, OF 4] by simp
  have 6: "bit (smear 32 (smear 16 (smear 8 (smear 4 (smear 2 (smear 1 y)))))) i \<longleftrightarrow> (\<exists>d<64. bit y (i + d))" for i
    using bit_smear_fold [of "smear 16 (smear 8 (smear 4 (smear 2 (smear 1 y))))" 32 y i, OF 5] by simp
  show ?thesis using 6 by simp
qed

lemma bit_top:
  fixes y :: u64
  assumes "2 ^ h \<le> unat y" "unat y < 2 ^ Suc h"
  shows "bit y h" "h < i \<Longrightarrow> \<not> bit y i"
proof -
  have b: "bit y i \<longleftrightarrow> odd (unat y div 2 ^ i)" for i
  proof -
    have "bit (unat y) i \<longleftrightarrow> bit y i" by (simp add: bit_unsigned_iff)
    then show ?thesis by (simp add: bit_iff_odd)
  qed
  have "unat y div 2 ^ h = 1" using assms by (intro div_nat_eqI) simp_all
  then show "bit y h" by (simp add: b)
  assume "h < i"
  then have "(2::nat) ^ Suc h \<le> 2 ^ i" by (intro power_increasing) simp_all
  then show "\<not> bit y i" using assms by (simp add: b)
qed

text \<open>\<^verbatim>\<open>ceilToPow2\<close> is the least power of two that is not less.\<close>

lemma ceilToPow2_least:
  assumes "0 < unat x" "unat x \<le> 2 ^ 63"
  shows "\<exists>j<64. ceilToPow2 x = 2 ^ j \<and> unat x \<le> 2 ^ j \<and> (\<forall>i. unat x \<le> 2 ^ i \<longrightarrow> j \<le> i)"
proof (cases "unat x = 1")
  case True
  then have "x = 1" by (simp add: word_unat_eq_iff)
  then show ?thesis by (intro exI [of _ 0]) (simp add: ceilToPow2_def smear_def)
next
  case False
  have "x \<noteq> 0" using assms(1) by auto
  then have y: "unat (x - 1) = unat x - 1" by (rule unat_minus_one)
  define z where "z = fold smear [1, 2, 4, 8, 16, 32] (x - 1)"
  have "1 \<le> unat (x - 1)" using assms False y by linarith
  then obtain h where h: "2 ^ h \<le> unat (x - 1)" "unat (x - 1) < 2 ^ Suc h"
    using ex_power_ivl1 [of 2 "unat (x - 1)"] by auto
  have "2 ^ h < (2::nat) ^ 63" using h(1) y assms by simp
  then have h63: "h < 63" by (rule power_less_imp_less_exp [rotated]) simp
  note top = bit_top [OF h]
  have "bit z i \<longleftrightarrow> i \<le> h" for i
  proof
    assume "bit z i"
    then obtain d where "bit (x - 1) (i + d)" unfolding z_def bit_smeared by blast
    then show "i \<le> h" using top(2) [of "i + d"] by (metis add_leD1 not_le)
  next
    assume "i \<le> h"
    then show "bit z i"
      unfolding z_def bit_smeared using top(1) h63 by (intro exI [of _ "h - i"]) simp
  qed
  then have "z = mask (Suc h)" using h63 by (intro bit_word_eqI) (simp add: bit_mask_iff less_Suc_eq_le)
  then have "ceilToPow2 x = 2 ^ Suc h" unfolding ceilToPow2_def z_def [symmetric] by (simp add: mask_eq_exp_minus_1)
  moreover have "unat x \<le> 2 ^ Suc h" using h(2) y assms by simp
  moreover have "Suc h \<le> i" if "unat x \<le> 2 ^ i" for i
  proof -
    have "(2::nat) ^ h < 2 ^ i" using that h(1) y assms False by linarith
    then have "h < i" by (rule power_less_imp_less_exp [rotated]) simp
    then show ?thesis by simp
  qed
  ultimately show ?thesis using h63 by (intro exI [of _ "Suc h"]) auto
qed

section \<open>The memory of a block\<close>

lemma align_for_ok:
  assumes "0 < unat a" "unat ptr + unat a \<le> 2 ^ 64"
  shows "unat a dvd unat (align_for a ptr)" "unat ptr \<le> unat (align_for a ptr)"
    "unat (align_for a ptr) < unat ptr + unat a"
proof -
  let ?r = "unat ptr mod unat a"
  define d where "d = (unat a - ?r) mod unat a"
  have r: "?r < unat a" using assms(1) by simp
  have "unat (a - ptr mod a) = unat a - ?r"
    using r by (simp add: unat_sub word_le_nat_alt unat_mod less_imp_le)
  then have d: "unat ((a - ptr mod a) mod a) = d" by (simp add: unat_mod d_def)
  have da: "d < unat a" using assms(1) by (simp add: d_def)
  then have eq: "unat (align_for a ptr) = unat ptr + d"
    using assms(2) d by (simp add: align_for_def unat_plus_if_size word_size)
  then show "unat ptr \<le> unat (align_for a ptr)" "unat (align_for a ptr) < unat ptr + unat a" using da by simp_all
  have "(unat ptr + d) mod unat a = (?r + (unat a - ?r)) mod unat a" unfolding d_def by (simp add: mod_simps)
  then show "unat a dvd unat (align_for a ptr)" using r eq by (simp add: mod_eq_0_iff_dvd)
qed

text \<open>The block and its elements are aligned, do not overlap, and lie in the allocated bytes.\<close>

lemma block_layout_fits:
  assumes a: "0 < unat aB" "0 < unat aT"
    and fits: "unat raw + (unat sB + unat aB + (unat sT * unat cap + unat aT)) \<le> 2 ^ 64"
    and l: "block_layout sB aB aT raw = (blk, dat)"
  shows "unat aB dvd unat blk" "unat aT dvd unat dat" "unat raw \<le> unat blk" "unat blk + unat sB \<le> unat dat"
    "unat dat + unat sT * unat cap \<le> unat raw + unat (block_bytes sB aB sT aT cap)"
proof -
  have blk: "blk = align_for aB raw" and dat: "dat = align_for aT (blk + sB)"
    using l by (auto simp: block_layout_def Let_def)
  have B: "unat aB dvd unat blk" "unat raw \<le> unat blk" "unat blk < unat raw + unat aB"
    unfolding blk using align_for_ok [of aB raw] a fits by simp_all
  have u: "unat (blk + sB) = unat blk + unat sB" using B(3) fits a by (simp add: unat_plus_if_size word_size)
  have T: "unat aT dvd unat dat" "unat blk + unat sB \<le> unat dat" "unat dat < unat blk + unat sB + unat aT"
    unfolding dat using align_for_ok [of aT "blk + sB"] a fits B(3) u by simp_all
  have m: "unat (sT * cap) = unat sT * unat cap"
    using fits a by (simp add: unat_word_ariths)
  have "unat (block_bytes sB aB sT aT cap) = unat sB + unat aB - 1 + (unat sT * unat cap + unat aT - 1)"
  proof -
    have e: "unat (x + y - 1) = unat x + unat y - 1" if "0 < unat y" "unat x + unat y < 2 ^ 64" for x y :: u64
    proof -
      have "unat (x + y) = unat x + unat y" using that(2) by (simp add: unat_plus_if_size word_size)
      moreover from this that(1) have "x + y \<noteq> 0" by auto
      ultimately show ?thesis by (simp add: unat_minus_one)
    qed
    have "unat (sB + aB - 1) = unat sB + unat aB - 1" using fits a by (intro e) simp_all
    moreover have "unat (sT * cap + aT - 1) = unat sT * unat cap + unat aT - 1"
      using fits a m e [of aT "sT * cap"] by simp
    moreover have "unat (x + y) = unat x + unat y" if "unat x + unat y < 2 ^ 64" for x y :: u64
      using that by (simp add: unat_plus_if_size word_size)
    from this [of "sB + aB - 1" "sT * cap + aT - 1"]
    have "unat (sB + aB - 1 + (sT * cap + aT - 1)) = unat (sB + aB - 1) + unat (sT * cap + aT - 1)"
      using calculation fits a by linarith
    ultimately show ?thesis unfolding block_bytes_def by linarith
  qed
  then show "unat dat + unat sT * unat cap \<le> unat raw + unat (block_bytes sB aB sT aT cap)"
    using B(3) T(3) a by simp
  show "unat aB dvd unat blk" "unat aT dvd unat dat" "unat raw \<le> unat blk" "unat blk + unat sB \<le> unat dat"
    using B T by simp_all
qed

section \<open>Construction\<close>

text \<open>The ring of \<open>c\<close> new blocks.\<close>

definition fresh_ring :: "u64 \<Rightarrow> nat \<Rightarrow> 'a rwblock list" where
  "fresh_ring sz c = map (\<lambda>i. (new_block sz)\<lparr>bl_next := Some (Suc i mod c)\<rparr>) [0..<c]"

lemma fresh_ring_length [simp]: "length (fresh_ring sz c) = c" "fresh_ring sz 0 = []"
  by (simp_all add: fresh_ring_def)

lemma fresh_ring_Suc:
  "fresh_ring sz (Suc c) = (if c = 0 then [] else (fresh_ring sz c)[c - 1 := (fresh_ring sz c ! (c - 1))\<lparr>bl_next := Some c\<rparr>])
     @ [(new_block sz)\<lparr>bl_next := Some 0\<rparr>]"
proof (cases c)
  case (Suc d)
  have "Suc i mod Suc (Suc d) = Suc i" "Suc i mod Suc d = Suc i" if "i < d" for i using that by simp_all
  then show ?thesis
    using Suc by (intro nth_equalityI) (auto simp: fresh_ring_def nth_append nth_list_update less_Suc_eq)
qed (simp add: fresh_ring_def)

lemma link_blocks_ok:
  assumes "\<forall>i<c + n. malloc i"
  shows "link_blocks malloc sz n (fresh_ring sz c :: 'a rwblock list) = Inr (fresh_ring sz (c + n))"
  using assms
proof (induction n arbitrary: c)
  case (Suc n)
  have "link_blocks malloc sz (Suc n) (fresh_ring sz c :: 'a rwblock list) = link_blocks malloc sz n (fresh_ring sz (Suc c))"
    using Suc.prems by (cases "c = 0") (simp_all add: make_block_def fresh_ring_Suc Let_def)
  also have "\<dots> = Inr (fresh_ring sz (c + Suc n))" using Suc.IH [of "Suc c"] Suc.prems by simp
  finally show ?case .
qed simp

lemma link_blocks_fails:
  assumes "length bs \<le> i" "i < length bs + n" "\<not> malloc i"
  shows "link_blocks malloc sz n bs = Inl Rw_bad_alloc"
  using assms
proof (induction n arbitrary: bs)
  case (Suc n)
  show ?case
  proof (cases "malloc (length bs)")
    case True
    then have "Suc (length bs) \<le> i" using Suc.prems(1,3) by (metis Suc_leI le_neq_implies_less)
    then show ?thesis using Suc.prems True by (auto simp: make_block_def Let_def intro!: Suc.IH)
  qed (simp add: make_block_def)
qed simp

lemma fresh_rep:
  assumes j: "1 \<le> j" "j < 62" and c: "0 < c" and m: "spare m (replicate c (2 ^ j))"
  shows "rwq_rep m False False \<lparr>rw_blocks = fresh_ring (2 ^ j) c, frontBlock = 0, tailBlock = 0,
      largestBlockSize = 2 ^ j, rw_enqueuing = False, rw_dequeuing = False\<rparr> [0..<c] (replicate c []) 0"
proof -
  have N: "blk_rep (2 ^ j) (new_block (2 ^ j) :: 'a rwblock) []" "length (bl_data (new_block (2 ^ j) :: 'a rwblock)) = 2 ^ j"
    by (rule blk_new [OF j])+
  then have sz: "sizes (fresh_ring (2 ^ j) c :: 'a rwblock list) = replicate c (2 ^ j)"
    by (intro nth_equalityI) (simp_all add: sizes_def fresh_ring_def)
  have "ring_rep (fresh_ring (2 ^ j) c :: 'a rwblock list) [0..<c] (replicate c [])"
    using N c
    by (auto simp: ring_rep_def fresh_ring_def atLeast_upt)
  moreover have "ends (replicate c (2 ^ j)) [0..<c] (replicate c ([] :: 'a list)) 0"
    using c by (auto simp: ends_def)
  ultimately show ?thesis
    using j c m by (auto simp: rwq_rep_def pool_def sz unat_exp_u64)
qed

text \<open>How many blocks are needed.\<close>

lemma block_count:
  fixes M k :: nat
  assumes "2 \<le> M" "2 * M \<le> k"
  shows "k \<le> ((k + 2 * M - 3) div (M - 1) - 1) * (M - 1)" "2 \<le> (k + 2 * M - 3) div (M - 1)"
proof -
  let ?c = "(k + 2 * M - 3) div (M - 1)"
  have "k + 2 * M - 3 < ?c * (M - 1) + (M - 1)"
    using assms(1) by (metis add.commute div_mult_mod_eq mod_less_divisor nat_add_left_cancel_less zero_less_diff
        less_le_trans one_less_numeral_iff semiring_norm(76))
  then have "k + (M - 1) \<le> ?c * (M - 1)" using assms by linarith
  then show "k \<le> (?c - 1) * (M - 1)" by (simp add: diff_mult_distrib)
  have "2 * (M - 1) \<le> k + 2 * M - 3" using assms by linarith
  then show "2 \<le> ?c" using assms(1) by (simp add: less_eq_div_iff_mult_less_eq)
qed

lemma spare_replicate:
  assumes "if c = 1 then m < n else m \<le> (c - 1) * (n - 1)"
  shows "spare m (replicate c n)"
proof -
  have "(\<Sum>b\<in>{..<c} - {a}. replicate c n ! b - 1) = (c - 1) * (n - 1)" if "a < c" for a
  proof -
    have "(\<Sum>b\<in>{..<c} - {a}. replicate c n ! b - 1) = (\<Sum>b\<in>{..<c} - {a}. n - 1)"
      by (intro sum.cong) auto
    then show ?thesis using that by simp
  qed
  then show ?thesis using assms by (auto simp: spare_def split: if_splits)
qed

lemma new_rwq_ok:
  assumes p: "maxb = 2 ^ p" "1 \<le> p" "p < 60" and k: "0 < unat maxSize" "unat maxSize < 2 ^ 62"
    and alloc: "\<forall>i. malloc i"
  shows "\<exists>q :: 'a rwq. new_rwq ndebug maxb malloc maxSize = Inr q \<and> rwq_abs (unat maxSize) q []"
proof -
  let ?k = "unat maxSize" and ?M = "2 ^ p :: nat"
  have M: "unat maxb = ?M" "2 \<le> ?M" "?M < 2 ^ 60"
    using p power_increasing [of 1 p "2::nat"] power_strict_increasing [of p 60 "2::nat"] by (simp_all add: unat_exp_u64)
  have k1: "unat (maxSize + 1) = ?k + 1" using k by (simp add: unat_plus_if_size word_size)
  obtain j where j: "ceilToPow2 (maxSize + 1) = 2 ^ j" "?k + 1 \<le> 2 ^ j" "j < 64" "\<forall>i. ?k + 1 \<le> 2 ^ i \<longrightarrow> j \<le> i"
    using ceilToPow2_least [of "maxSize + 1"] k1 k by auto
  have "j \<le> 62" using j(4) k by simp
  have "1 \<le> j" using j(2) k by (cases j) auto
  obtain j' where "j' < 64" "ceilToPow2 maxb = 2 ^ j'" "unat maxb \<le> 2 ^ j'" "\<forall>i. unat maxb \<le> 2 ^ i \<longrightarrow> j' \<le> i"
    using ceilToPow2_least [of maxb] M by auto
  then have ceil: "ceilToPow2 maxb = maxb" using p M(1) by (metis le_antisym order_refl power_increasing_iff one_less_numeral_iff semiring_norm(76))
  have asserts: "rw_assertion ndebug (0 < maxSize) = Inr ()" "rw_assertion ndebug (maxb = ceilToPow2 maxb) = Inr ()"
    "rw_assertion ndebug (2 \<le> maxb) = Inr ()"
    using k M ceil by (simp_all add: rw_assertion_def word_less_nat_alt word_le_nat_alt)
  have twice: "unat (maxb * 2) = 2 * ?M" using M p by (simp add: unat_word_ariths)
  have cmp: "maxb * 2 < 2 ^ j \<longleftrightarrow> Suc p < j"
    using twice j(3) by (simp add: word_less_nat_alt unat_exp_u64 power_Suc [symmetric] del: power_Suc)
  show ?thesis
  proof (cases "Suc p < j")
    case True
    have "2 * ?M < ?k + 1"
    proof (rule ccontr)
      assume "\<not> 2 * ?M < ?k + 1"
      then have "?k + 1 \<le> 2 ^ Suc p" by simp
      then show False using j(4) True by (meson leD)
    qed
    then have big: "2 * ?M \<le> ?k" by simp
    define c where "c = (?k + 2 * ?M - 3) div (?M - 1)"
    have uc: "unat ((maxSize + maxb * 2 - 3) div (maxb - 1)) = c"
    proof -
      have "unat (maxSize + maxb * 2) = ?k + 2 * ?M" using twice k M by (simp add: unat_plus_if_size word_size)
      then have "unat (maxSize + maxb * 2 - 3) = ?k + 2 * ?M - 3"
        using M(2) k by (subst unat_sub) (simp_all add: word_le_nat_alt)
      moreover have "maxb \<noteq> 0" using M by auto
      then have "unat (maxb - 1) = ?M - 1" using M(1) by (simp add: unat_minus_one)
      ultimately show ?thesis by (simp add: unat_div c_def)
    qed
    note C = block_count [OF M(2) big, folded c_def]
    have "spare ?k (replicate c ?M)" using C by (intro spare_replicate) auto
    from fresh_rep [OF p(2) _ _ this] have "rwq_rep ?k False False \<lparr>rw_blocks = fresh_ring maxb c, frontBlock = 0, tailBlock = 0,
      largestBlockSize = maxb, rw_enqueuing = False, rw_dequeuing = False\<rparr> [0..<c] (replicate c ([] :: 'a list)) 0"
      using C p by simp
    moreover have "link_blocks malloc maxb c [] = Inr (fresh_ring maxb c :: 'a rwblock list)"
      using link_blocks_ok [of 0 c malloc maxb] alloc by simp
    ultimately show ?thesis
      using True j(1) cmp uc by (fastforce simp: new_rwq_def asserts rwq_abs_def)
  next
    case False
    have "fresh_ring (2 ^ j) 1 = [(new_block (2 ^ j) :: 'a rwblock)\<lparr>bl_next := Some 0\<rparr>]" by (simp add: fresh_ring_def)
    moreover have "spare ?k (replicate 1 (2 ^ j))" using j(2) by (intro spare_replicate) simp
    ultimately have R: "rwq_rep ?k False False \<lparr>rw_blocks = [(new_block (2 ^ j))\<lparr>bl_next := Some 0\<rparr>], frontBlock = 0,
      tailBlock = 0, largestBlockSize = 2 ^ j, rw_enqueuing = False, rw_dequeuing = False\<rparr> [0] [[] :: 'a list] 0"
      (is "rwq_rep _ _ _ ?q _ _ _")
      using fresh_rep [of j 1 ?k, where ?'a = 'a] \<open>1 \<le> j\<close> False p by simp
    have "rwq_abs ?k ?q []" unfolding rwq_abs_def by (rule exI, rule exI, rule exI, rule conjI, rule R) simp
    moreover have "new_rwq ndebug maxb malloc maxSize = Inr ?q"
      using False j(1) cmp alloc by (simp add: new_rwq_def asserts make_block_def Let_def)
    ultimately show ?thesis by blast
  qed
qed

text \<open>If an allocation fails, the constructor throws.\<close>

lemma new_rwq_bad_alloc:
  assumes "maxSize \<noteq> 0" "2 \<le> maxb" "ceilToPow2 maxb = maxb" "\<not> malloc 0" "ceilToPow2 (maxSize + 1) \<le> maxb * 2"
  shows "new_rwq ndebug maxb malloc maxSize = Inl Rw_bad_alloc"
  using assms by (auto simp: new_rwq_def rw_assertion_def make_block_def Let_def word_gt_0)

section \<open>Size and destruction\<close>

lemma and_diff_mask:
  fixes f t :: u64
  assumes n: "n = 2 ^ k" "k < 62" and f: "unat f < n" and l: "l < n" and t: "unat t = (unat f + l) mod n"
  shows "(t - f) AND (of_nat n - 1) = of_nat l"
proof -
  have n62: "n < 2 ^ 62" using n power_strict_increasing [of k 62 "2::nat"] by simp
  have *: "unat (t - f) mod n = l"
  proof (cases "unat f + l < n")
    case True
    then have "unat t = unat f + l" using t by simp
    then have "unat (t - f) = l" by (simp add: unat_sub word_le_nat_alt)
    then show ?thesis using l by simp
  next
    case False
    then have "unat t = unat f + l - n" using t f l by (simp add: mod_if)
    moreover have "unat f \<le> 2 ^ 64" using f n62 by simp
    ultimately have "unat (t - f) = 2 ^ 64 - n + l" using False f l n62
      by (simp add: unat_sub_if_size word_size) linarith
    moreover have "(2::nat) ^ 64 = n * 2 ^ (64 - k)" using n by (simp add: power_add [symmetric])
    ultimately have "unat (t - f) = n * (2 ^ (64 - k) - 1) + l" by (simp add: diff_mult_distrib2)
    then show ?thesis using l by simp
  qed
  have "unat ((t - f) AND (of_nat n - 1)) = l" using * and_mask_mod [of k "t - f"] n by simp
  moreover have "unat (of_nat l :: u64) = l" using l n62 by (intro unat_of_nat_u64) simp
  ultimately show ?thesis by (simp add: word_unat_eq_iff)
qed

lemma blk_count:
  assumes "blk_rep n b xs"
  shows "(bl_tail b - bl_front b) AND bl_sizeMask b = of_nat (length xs)"
proof -
  obtain k where k: "n = 2 ^ k" "k < 62" using assms by (auto simp: blk_rep_def)
  have "bl_sizeMask b = of_nat n - 1" using assms by (simp add: blk_rep_def)
  then show ?thesis using and_diff_mask [OF k blk_repD(4,6,7) [OF assms]] by simp
qed

text \<open>The loops go round the ring once.\<close>

lemma size_loop_ok:
  assumes R: "rwq_rep m fe fd q ring xss k" and i: "i < length ring"
  shows "size_loop q (ring ! i) r = Some (Inr (r + of_nat (length (concat (drop i xss)))))"
  using i
proof (induction "length ring - i" arbitrary: i r)
  case 0
  then show ?case by simp
next
  case (Suc n)
  note D = rwq_repD [OF R]
  note i = \<open>i < length ring\<close>
  let ?b = "rw_blocks q ! (ring ! i)"
  have at: "block_at q (ring ! i) = Inr ?b" using ring_repD(5) [OF D(1) i] by (simp add: block_at_def)
  have nx: "the_next ?b = Inr (ring ! (Suc i mod length ring))" using ring_repD(6) [OF D(1) i] by (simp add: the_next_def)
  have cnt: "(bl_tail ?b - bl_front ?b) AND bl_sizeMask ?b = of_nat (length (xss ! i))"
    by (rule blk_count [OF ring_repD(7) [OF D(1) i]])
  have drop: "drop i xss = xss ! i # drop (Suc i) xss" using i D(12) by (simp add: Cons_nth_drop_Suc)
  have loop: "size_loop q (ring ! i) r = (if ring ! (Suc i mod length ring) \<noteq> ring ! 0
      then size_loop q (ring ! (Suc i mod length ring)) (r + of_nat (length (xss ! i)))
      else Some (Inr (r + of_nat (length (xss ! i)))))"
    by (subst size_loop.simps) (simp add: at nx cnt D(3) Let_def)
  show ?case
  proof (cases "Suc i < length ring")
    case True
    then have "ring ! Suc i \<noteq> ring ! 0" using ring_repD(2) [OF D(1)] D(9) by (simp add: nth_eq_iff_index_eq)
    then show ?thesis using loop True Suc.hyps(1) [of "Suc i"] Suc.hyps(2) drop by (simp add: add.assoc)
  next
    case False
    then have "Suc i = length ring" using i by simp
    then show ?thesis using loop drop D(12) by simp
  qed
qed

lemma destroy_elements_ok:
  assumes B: "blk_rep n b xs" and i: "i \<le> length xs" and w: "unat w = (unat (bl_front b) + i) mod n"
  shows "destroy_elements b w zs = Some (Inr (zs @ drop i xs))"
  using i w
proof (induction "length xs - i" arbitrary: i w zs)
  case 0
  then have "w = bl_tail b" using blk_repD(7) [OF B] by (simp add: word_unat_eq_iff)
  then show ?case using 0 by (subst destroy_elements.simps) simp
next
  case (Suc d)
  note D = blk_repD [OF B]
  have i: "i < length xs" using Suc.hyps(2) by simp
  have ne: "w \<noteq> bl_tail b"
  proof
    assume "w = bl_tail b"
    then have "(unat (bl_front b) + i) mod n = (unat (bl_front b) + length xs) mod n" using Suc.prems(2) D(7) by simp
    then show False using mod_add_inj [of "unat (bl_front b)" i n "length xs"] i D(6) by simp
  qed
  have wn: "unat w < n" using Suc.prems(2) D(2) by simp
  then have get: "slot_get b w = Inr (xs ! i)"
    using D(8) [OF i] D(1) Suc.prems(2) by (simp add: slot_get_def)
  have "unat (inc b w) = (unat (bl_front b) + Suc i) mod n"
    using D(9) [of w] wn Suc.prems(2) by (simp add: mod_Suc_eq)
  then have "destroy_elements b (inc b w) (zs @ [xs ! i]) = Some (Inr ((zs @ [xs ! i]) @ drop (Suc i) xs))"
    using Suc.hyps i by (intro Suc.hyps(1)) simp_all
  then show ?case using i by (subst destroy_elements.simps) (simp add: ne get Cons_nth_drop_Suc)
qed

lemma destroy_blocks_ok:
  assumes R: "rwq_rep m fe fd q ring xss k" and i: "i < length ring"
  shows "destroy_blocks q (ring ! i) zs (take i ring) = Some (Inr (zs @ concat (drop i xss), ring))"
  using i
proof (induction "length ring - i" arbitrary: i zs)
  case 0
  then show ?case by simp
next
  case (Suc n)
  note D = rwq_repD [OF R]
  note i = \<open>i < length ring\<close>
  let ?b = "rw_blocks q ! (ring ! i)"
  note B = ring_repD(7) [OF D(1) i]
  have at: "block_at q (ring ! i) = Inr ?b" using ring_repD(5) [OF D(1) i] by (simp add: block_at_def)
  have nx: "the_next ?b = Inr (ring ! (Suc i mod length ring))" using ring_repD(6) [OF D(1) i] by (simp add: the_next_def)
  have el: "destroy_elements ?b (bl_front ?b) zs = Some (Inr (zs @ xss ! i))"
    using destroy_elements_ok [OF B, of 0 "bl_front ?b" zs] blk_repD(4) [OF B] by simp
  have fresh: "ring ! i \<notin> set (take i ring)"
    using ring_repD(2) [OF D(1)] i by (auto simp: in_set_conv_nth nth_eq_iff_index_eq)
  have drop: "drop i xss = xss ! i # drop (Suc i) xss" using i D(12) by (simp add: Cons_nth_drop_Suc)
  have loop: "destroy_blocks q (ring ! i) zs (take i ring) = (if ring ! (Suc i mod length ring) \<noteq> ring ! 0
      then destroy_blocks q (ring ! (Suc i mod length ring)) (zs @ xss ! i) (take (Suc i) ring)
      else Some (Inr (zs @ xss ! i, take (Suc i) ring)))"
    by (subst destroy_blocks.simps) (simp add: fresh at nx el D(3) take_Suc_conv_app_nth [OF i])
  show ?case
  proof (cases "Suc i < length ring")
    case True
    then have "ring ! Suc i \<noteq> ring ! 0" using ring_repD(2) [OF D(1)] D(9) by (simp add: nth_eq_iff_index_eq)
    then show ?thesis using loop True Suc.hyps(1) [of "Suc i"] Suc.hyps(2) drop by simp
  next
    case False
    then have "Suc i = length ring" using i by simp
    then show ?thesis using loop drop D(12) by simp
  qed
qed

lemma end_of_life:
  assumes "rwq_abs m q zs"
  shows "size_approx q = Some (Inr (of_nat (length zs)))"
    "\<exists>freed. delete_rwq q = Some (Inr (zs, freed)) \<and> distinct freed \<and> set freed = {..<length (rw_blocks q)}"
proof -
  obtain ring xss k where R: "rwq_rep m False False q ring xss k" and zs: "concat xss = zs"
    using assms by (auto simp: rwq_abs_def)
  note D = rwq_repD [OF R]
  show "size_approx q = Some (Inr (of_nat (length zs)))"
    using size_loop_ok [OF R D(9)] by (simp add: size_approx_def D(3) zs [symmetric])
  show "\<exists>freed. delete_rwq q = Some (Inr (zs, freed)) \<and> distinct freed \<and> set freed = {..<length (rw_blocks q)}"
    using destroy_blocks_ok [OF R D(9)] ring_repD(2,3) [OF D(1)] zs by (simp add: delete_rwq_def D(3))
qed

section \<open>Runs\<close>

text \<open>
  A run is a sequence of calls by the producer and by the consumer. An \<^verbatim>\<open>enqueue\<close> carries
  whether \<^verbatim>\<open>malloc\<close> succeeds, should it be called.
\<close>

datatype 'a rw_op = Try_enqueue 'a | Enqueue bool 'a | Try_dequeue | Peek | Pop

datatype 'a rw_answer = Success bool | Element "'a option"

fun rw_call :: "u64 \<Rightarrow> bool \<Rightarrow> 'a rw_op \<Rightarrow> 'a rwq \<Rightarrow> rw_fault + 'a rw_answer \<times> 'a rwq" where
  "rw_call maxb nd (Try_enqueue x) q = map_sum id (map_prod Success id) (try_enqueue maxb nd x q)"
| "rw_call maxb nd (Enqueue ok x) q = map_sum id (map_prod Success id) (rw_enqueue maxb nd ok x q)"
| "rw_call maxb nd Try_dequeue q = map_sum id (map_prod Element id) (try_dequeue nd q)"
| "rw_call maxb nd Peek q = map_sum id (map_prod Element id) (peek nd q)"
| "rw_call maxb nd Pop q = map_sum id (map_prod Success id) (rw_pop nd q)"

fun rw_run :: "u64 \<Rightarrow> bool \<Rightarrow> 'a rw_op list \<Rightarrow> 'a rwq \<Rightarrow> rw_fault + 'a rw_answer list \<times> 'a rwq" where
  "rw_run maxb nd [] q = Inr ([], q)"
| "rw_run maxb nd (c # cs) q = bind_r (rw_call maxb nd c q) (\<lambda>(a, q1).
     bind_r (rw_run maxb nd cs q1) (\<lambda>(as, q2). Inr (a # as, q2)))"

text \<open>
  The specification is a list: the contents after the calls, if the answers are right. An
  enqueue may be refused only if it cannot allocate and \<open>m\<close> elements are stored.
\<close>

fun fifo_step :: "nat \<Rightarrow> 'a rw_op \<Rightarrow> 'a rw_answer \<Rightarrow> 'a list \<Rightarrow> 'a list option" where
  "fifo_step m (Try_enqueue x) (Success True) zs = Some (zs @ [x])"
| "fifo_step m (Try_enqueue x) (Success False) zs = (if m \<le> length zs then Some zs else None)"
| "fifo_step m (Enqueue ok x) (Success True) zs = Some (zs @ [x])"
| "fifo_step m (Enqueue ok x) (Success False) zs = (if \<not> ok \<and> m \<le> length zs then Some zs else None)"
| "fifo_step m Try_dequeue (Element r) zs = (if r = front_of zs then Some (tl zs) else None)"
| "fifo_step m Peek (Element r) zs = (if r = front_of zs then Some zs else None)"
| "fifo_step m Pop (Success r) zs = (if r = (zs \<noteq> []) then Some (tl zs) else None)"
| "fifo_step m _ _ zs = None"

fun fifo_run :: "nat \<Rightarrow> 'a rw_op list \<Rightarrow> 'a rw_answer list \<Rightarrow> 'a list \<Rightarrow> 'a list option" where
  "fifo_run m [] [] zs = Some zs"
| "fifo_run m (c # cs) (a # as) zs = (case fifo_step m c a zs of None \<Rightarrow> None | Some zs1 \<Rightarrow> fifo_run m cs as zs1)"
| "fifo_run m _ _ zs = None"

lemma abs_outcome:
  assumes "\<exists>r q' ring' xss' k'. f = Inr (r, q') \<and> rwq_rep m False False q' ring' xss' k' \<and> P r (concat xss')"
  shows "\<exists>r q' zs'. f = Inr (r, q') \<and> rwq_abs m q' zs' \<and> P r zs'"
  using assms unfolding rwq_abs_def by blast

lemma rw_call_ok:
  assumes A: "rwq_abs m q zs" and p: "maxb = 2 ^ p" "p < 62"
  shows "\<exists>a q' zs'. rw_call maxb nd c q = Inr (a, q') \<and> rwq_abs m q' zs' \<and> fifo_step m c a zs = Some zs'"
proof -
  obtain ring xss k where R: "rwq_rep m False False q ring xss k" and zs: "concat xss = zs"
    using A by (auto simp: rwq_abs_def)
  note enq = abs_outcome [OF inner_enqueue_ok [OF R p, unfolded zs]]
  show ?thesis
  proof (cases c)
    case (Try_enqueue x)
    then show ?thesis using enq [of nd CannotAlloc False x]
      by (auto simp: try_enqueue_def enqueued_def split: if_splits)
  next
    case (Enqueue ok x)
    then show ?thesis using enq [of nd CanAlloc ok x]
      by (auto simp: rw_enqueue_def enqueued_def split: if_splits)
  next
    case Try_dequeue
    then show ?thesis using abs_outcome [OF try_dequeue_ok [OF R, unfolded zs], of nd] by auto
  next
    case Peek
    then show ?thesis using abs_outcome [OF peek_ok [OF R, unfolded zs], of nd] by auto
  next
    case Pop
    then show ?thesis using abs_outcome [OF rw_pop_ok [OF R, unfolded zs], of nd] by auto
  qed
qed

lemma rw_run_ok:
  assumes "rwq_abs m q zs" "maxb = 2 ^ p" "p < 62"
  shows "\<exists>as q' zs'. rw_run maxb nd cs q = Inr (as, q') \<and> rwq_abs m q' zs' \<and> fifo_run m cs as zs = Some zs'"
  using assms(1)
proof (induction cs arbitrary: q zs)
  case Nil
  then show ?case by (intro exI [of _ "[]"] exI [of _ q] exI [of _ zs]) simp
next
  case (Cons c cs)
  obtain a q1 zs1 where c: "rw_call maxb nd c q = Inr (a, q1)" "rwq_abs m q1 zs1" "fifo_step m c a zs = Some zs1"
    using rw_call_ok [OF Cons.prems assms(2,3)] by blast
  obtain as q' zs' where "rw_run maxb nd cs q1 = Inr (as, q')" "rwq_abs m q' zs'" "fifo_run m cs as zs1 = Some zs'"
    using Cons.IH [OF c(2)] by blast
  then show ?case using c by (intro exI [of _ "a # as"] exI [of _ q'] exI [of _ zs']) simp
qed

text \<open>
  C27: A \<^verbatim>\<open>ReaderWriterQueue\<close> constructed for \<open>maxSize\<close> elements is a FIFO queue. Whatever
  calls follow, none of them fails an assertion, touches a slot without an element, overwrites
  one, or leaves a block; the answers are those of a list; an enqueue is refused only if it
  may not or cannot allocate and the queue holds at least \<open>maxSize\<close> elements. At the end
  \<^verbatim>\<open>size_approx\<close> is the number of elements, and the destructor destroys exactly them, in
  order, and frees each block once.
\<close>

theorem rw_queue_is_fifo:
  fixes cs :: "'a rw_op list"
  assumes "maxb = 2 ^ p" "1 \<le> p" "p < 60" "0 < unat maxSize" "unat maxSize < 2 ^ 62" "\<forall>i. malloc i"
  shows "\<exists>q as q' zs. new_rwq nd maxb malloc maxSize = Inr q \<and> rw_run maxb nd cs q = Inr (as, q')
    \<and> fifo_run (unat maxSize) cs as [] = Some zs
    \<and> size_approx q' = Some (Inr (of_nat (length zs)))
    \<and> (\<exists>freed. delete_rwq q' = Some (Inr (zs, freed)) \<and> distinct freed \<and> set freed = {..<length (rw_blocks q')})"
proof -
  obtain q :: "'a rwq" where q: "new_rwq nd maxb malloc maxSize = Inr q" "rwq_abs (unat maxSize) q []"
    using new_rwq_ok [OF assms] by blast
  have "p < 62" using assms(3) by simp
  from rw_run_ok [OF q(2) assms(1) this] obtain as q' zs where
    run: "rw_run maxb nd cs q = Inr (as, q')" "rwq_abs (unat maxSize) q' zs" "fifo_run (unat maxSize) cs as [] = Some zs"
    by blast
  then show ?thesis using q(1) end_of_life [OF run(2)] by blast
qed

theorem rw_queue_is_fifo_witness:
  "\<exists>q as q' zs. new_rwq False 512 (\<lambda>_. True) 15 = Inr q
    \<and> rw_run 512 False [Enqueue True (7::nat), Try_enqueue 8, Peek, Try_dequeue, Pop, Pop] q = Inr (as, q')
    \<and> fifo_run 15 [Enqueue True (7::nat), Try_enqueue 8, Peek, Try_dequeue, Pop, Pop] as [] = Some zs
    \<and> size_approx q' = Some (Inr (of_nat (length zs)))
    \<and> (\<exists>freed. delete_rwq q' = Some (Inr (zs, freed)) \<and> distinct freed \<and> set freed = {..<length (rw_blocks q')})"
  using rw_queue_is_fifo [of "512" 9 15 "\<lambda>_. True" False "[Enqueue True (7::nat), Try_enqueue 8, Peek, Try_dequeue, Pop, Pop]"]
  by (simp del: rw_run.simps fifo_run.simps)

end
