(* ===== verification/Semaphore.thy ===== *)
theory Semaphore
  imports Rw_Queue
begin

text \<open>
  \<^verbatim>\<open>moodycamel::spsc_sema\<close> (\<^verbatim>\<open>externals/include/moodycamel/atomicops.h\<close>): the POSIX
  \<^verbatim>\<open>Semaphore\<close> over arbitrary system calls, and \<^verbatim>\<open>LightweightSemaphore\<close>, of one signalling and
  one waiting thread, as a step relation whose steps are single accesses to the count or single
  operations of the kernel's semaphore.
\<close>

section \<open>Atomic counters\<close>

text \<open>\<^verbatim>\<open>weak_atomic<ssize_t>\<close>: signed, 64 bits, wrapping.\<close>

definition wrap64 :: "int \<Rightarrow> int" where
  "wrap64 i = (i + 2 ^ 63) mod 2 ^ 64 - 2 ^ 63"

definition fetch_add :: "int \<Rightarrow> int \<Rightarrow> int \<times> int" where
  "fetch_add v k = (v, wrap64 (v + k))"

lemma wrap64_id [simp]: "- (2 ^ 63) \<le> i \<Longrightarrow> i < 2 ^ 63 \<Longrightarrow> wrap64 i = i"
  by (simp add: wrap64_def mod_pos_pos_trivial)

section \<open>The semaphore of the operating system\<close>

text \<open>
  A system call answers its result and the error number, and changes the state \<open>'s\<close> of the
  system. Interrupted calls are repeated, maybe for ever.
\<close>

datatype errno = EINTR | EAGAIN | ETIMEDOUT | EINVAL

type_synonym 's syscall = "'s \<Rightarrow> (int \<times> errno) \<times> 's"

partial_function (option) retry_eintr :: "'s syscall \<Rightarrow> 's \<Rightarrow> ((int \<times> errno) \<times> 's) option" where
  "retry_eintr sys s = (case sys s of ((rc, e), s') \<Rightarrow>
     if rc = -1 \<and> e = EINTR then retry_eintr sys s' else Some ((rc, e), s'))"

definition sema_wait :: "'s syscall \<Rightarrow> 's \<Rightarrow> 's option" where
  "sema_wait sem_wait s = map_option snd (retry_eintr sem_wait s)"

definition sema_try_wait :: "'s syscall \<Rightarrow> 's \<Rightarrow> (bool \<times> 's) option" where
  "sema_try_wait sem_trywait s =
     map_option (\<lambda>((rc, e), s'). (\<not> (rc = -1 \<and> e = EAGAIN), s')) (retry_eintr sem_trywait s)"

record timespec =
  tv_sec :: int
  tv_nsec :: int

definition deadline :: "timespec \<Rightarrow> u64 \<Rightarrow> timespec" where
  "deadline now usecs =
     (let ts = \<lparr>tv_sec = tv_sec now + uint (usecs div 1000000),
                tv_nsec = tv_nsec now + uint (usecs mod 1000000 * 1000)\<rparr>
      in if 1000000000 < tv_nsec ts
         then \<lparr>tv_sec = tv_sec ts + 1, tv_nsec = tv_nsec ts - 1000000000\<rparr> else ts)"

definition sema_timed_wait ::
    "('s \<Rightarrow> timespec) \<Rightarrow> (timespec \<Rightarrow> 's syscall) \<Rightarrow> u64 \<Rightarrow> 's \<Rightarrow> (bool \<times> 's) option" where
  "sema_timed_wait clock_gettime sem_timedwait usecs s =
     map_option (\<lambda>((rc, e), s'). (\<not> (rc = -1 \<and> e = ETIMEDOUT), s'))
       (retry_eintr (sem_timedwait (deadline (clock_gettime s) usecs)) s)"

function sema_signal :: "('s \<Rightarrow> 's) \<Rightarrow> int \<Rightarrow> 's \<Rightarrow> 's" where
  "sema_signal sem_post count s =
     (if 0 < count then sema_signal sem_post (count - 1) (sem_post s) else s)"
  by auto
termination by (relation "measure (\<lambda>(_, count, _). nat count)") auto

declare sema_signal.simps [simp del]

lemma sema_signal_pow: "sema_signal sem_post count s = (sem_post ^^ nat count) s"
proof (induction sem_post count s rule: sema_signal.induct)
  case (1 sem_post count s)
  show ?case
  proof (cases "0 < count")
    case True
    then have "nat count = Suc (nat (count - 1))" by simp
    then show ?thesis using 1 True by (subst sema_signal.simps) (simp add: funpow_swap1)
  qed (subst sema_signal.simps, simp)
qed

text \<open>The deadline is the present plus the timeout, but not always a valid \<^verbatim>\<open>timespec\<close>.\<close>

lemma deadline_time:
  assumes "0 \<le> tv_nsec now" "tv_nsec now < 1000000000"
  shows "tv_sec (deadline now usecs) * 1000000000 + tv_nsec (deadline now usecs)
      = tv_sec now * 1000000000 + tv_nsec now + uint usecs * 1000"
    "0 \<le> tv_nsec (deadline now usecs)" "tv_nsec (deadline now usecs) \<le> 1000000000"
    "tv_nsec (deadline now usecs) = 1000000000 \<longleftrightarrow> tv_nsec now + uint usecs mod 1000000 * 1000 = 1000000000"
proof -
  have m: "uint (usecs mod 1000000 * 1000) = uint usecs mod 1000000 * 1000"
    by (simp add: uint_word_ariths uint_mod_distrib)
  have d: "uint (usecs div 1000000) = uint usecs div 1000000" by (simp add: uint_div_distrib)
  let ?n = "uint usecs mod 1000000"
  have n: "0 \<le> ?n" "?n < 1000000" by simp_all
  have u: "uint usecs * 1000 = uint usecs div 1000000 * 1000000000 + ?n * 1000"
    using div_mult_mod_eq [of "uint usecs" 1000000] by linarith
  show "tv_sec (deadline now usecs) * 1000000000 + tv_nsec (deadline now usecs)
      = tv_sec now * 1000000000 + tv_nsec now + uint usecs * 1000"
    unfolding deadline_def Let_def m d u by (simp add: algebra_simps)
  show "0 \<le> tv_nsec (deadline now usecs)" "tv_nsec (deadline now usecs) \<le> 1000000000"
    "tv_nsec (deadline now usecs) = 1000000000 \<longleftrightarrow> tv_nsec now + uint usecs mod 1000000 * 1000 = 1000000000"
    unfolding deadline_def Let_def m d using assms n by (auto split: if_splits)
qed

text \<open>
  the test \<^verbatim>\<open>ts.tv_nsec > nsecs_in_1_sec\<close> in \<^verbatim>\<open>timed_wait\<close> lets a full second of
  nanoseconds through. \<^verbatim>\<open>sem_timedwait\<close> is documented to refuse such a time with
  \<^verbatim>\<open>EINVAL\<close> when it would have to wait. Then \<^verbatim>\<open>timed_wait\<close> reports success at once: no time
  has passed and nothing was taken from the semaphore.
\<close>

theorem timed_wait_accepts_einval:
  assumes doc: "\<And>ts s. \<not> (0 \<le> tv_nsec ts \<and> tv_nsec ts < 1000000000) \<Longrightarrow> avail s = (0 :: nat) \<Longrightarrow>
      sem_timedwait ts s = ((-1, EINVAL), s)"
    and now: "0 \<le> tv_nsec (clock s)" "tv_nsec (clock s) < 1000000000"
    and full: "tv_nsec (clock s) + uint usecs mod 1000000 * 1000 = 1000000000" and none: "avail s = 0"
  shows "sema_timed_wait clock sem_timedwait usecs s = Some (True, s)"
proof -
  have "tv_nsec (deadline (clock s) usecs) = 1000000000" using deadline_time(4) [OF now] full by simp
  then have "sem_timedwait (deadline (clock s) usecs) s = ((-1, EINVAL), s)" using doc none by simp
  then show ?thesis by (simp add: sema_timed_wait_def retry_eintr.simps)
qed

text \<open>
  The semaphore of the kernel: its state is the number of permits. \<open>fails\<close>: the call of
  \<^verbatim>\<open>sem_timedwait\<close> gives up, because the time is over, or because the time is not valid.
\<close>

definition valid_time :: "timespec \<Rightarrow> bool" where
  "valid_time ts \<longleftrightarrow> 0 \<le> tv_nsec ts \<and> tv_nsec ts < 1000000000"

definition kernel_timedwait :: "bool \<Rightarrow> timespec \<Rightarrow> nat syscall" where
  "kernel_timedwait fails ts n =
     (if fails then ((-1, if valid_time ts then ETIMEDOUT else EINVAL), n) else ((0, EAGAIN), n - 1))"

theorem timed_wait_accepts_einval_witness:
  "sema_timed_wait (\<lambda>_. \<lparr>tv_sec = 7, tv_nsec = 999000000\<rparr>)
     (\<lambda>ts n. kernel_timedwait (n = 0) ts n) 1000 0 = Some (True, 0)"
  by (rule timed_wait_accepts_einval [where avail = id]) (auto simp: kernel_timedwait_def valid_time_def)

text \<open>A valid deadline is waited for.\<close>

lemma timed_wait_valid:
  assumes "\<not> (rc = -1 \<and> e = EINTR)" "sem_timedwait (deadline (clock s) usecs) s = ((rc, e), s')"
  shows "sema_timed_wait clock sem_timedwait usecs s = Some (\<not> (rc = -1 \<and> e = ETIMEDOUT), s')"
  unfolding sema_timed_wait_def using assms by (subst retry_eintr.simps) auto

section \<open>The lightweight semaphore\<close>

record lws =
  m_count :: int
  m_sema :: nat

definition new_lws :: "bool \<Rightarrow> int \<Rightarrow> rw_fault + lws" where
  "new_lws ndebug initialCount = bind_r (rw_assertion ndebug (0 \<le> initialCount))
     (\<lambda>_. Inr \<lparr>m_count = initialCount, m_sema = 0\<rparr>)"

definition availableApprox :: "lws \<Rightarrow> int" where
  "availableApprox s = (if 0 < m_count s then m_count s else 0)"

text \<open>
  The code of \<^verbatim>\<open>signal\<close>: the addition to the count, then maybe the post. The code of the
  waiting thread: \<^verbatim>\<open>tryWait\<close> (\<open>T_try\<close>, \<open>T_take\<close>), \<^verbatim>\<open>wait\<close> with a timeout, negative for
  none (\<open>W_try\<close>, \<open>W_take\<close>), and \<^verbatim>\<open>waitWithPartialSpinning\<close> (the rest).
\<close>

datatype signal_pc = S_idle | S_add int | S_post

datatype wait_pc = W_idle | T_try | T_take | W_try int | W_take | W_spin nat int | W_dec int
  | W_block | W_timed int | W_restore | W_redec | W_try_sema | W_done bool

fun signal_step :: "bool \<Rightarrow> signal_pc \<Rightarrow> lws \<Rightarrow> rw_fault + signal_pc \<times> lws" where
  "signal_step ndebug (S_add k) s = bind_r (rw_assertion ndebug (0 \<le> k)) (\<lambda>_.
     let (old, new) = fetch_add (m_count s) k
     in bind_r (rw_assertion ndebug (-1 \<le> old)) (\<lambda>_.
          Inr (if old < 0 then S_post else S_idle, s\<lparr>m_count := new\<rparr>)))"
| "signal_step ndebug S_post s = Inr (S_idle, s\<lparr>m_sema := sema_signal Suc 1 (m_sema s)\<rparr>)"
| "signal_step ndebug S_idle s = Inr (S_idle, s)"

text \<open>
  A step of the waiting thread. \<open>now\<close> is what \<^verbatim>\<open>clock_gettime\<close> answers and \<open>fails\<close> whether
  \<^verbatim>\<open>sem_timedwait\<close> gives up, if the step calls them; the timeout of type \<^verbatim>\<open>int64_t\<close> is
  converted to \<^verbatim>\<open>uint64_t\<close>. A thread that is blocked, or not in a call, has no step.
\<close>

definition take_sema :: "lws \<Rightarrow> lws" where
  "take_sema s = s\<lparr>m_sema := m_sema s - 1\<rparr>"

definition add_count :: "int \<Rightarrow> lws \<Rightarrow> lws" where
  "add_count k s = s\<lparr>m_count := snd (fetch_add (m_count s) k)\<rparr>"

definition timed_wait_step :: "timespec \<Rightarrow> bool \<Rightarrow> int \<Rightarrow> lws \<Rightarrow> (wait_pc \<times> lws) option" where
  "timed_wait_step now fails timeout_usecs s =
     (if \<not> fails \<and> m_sema s = 0 then None
      else map_option (\<lambda>(r, n). (if r then W_done True else W_restore, s\<lparr>m_sema := n\<rparr>))
        (sema_timed_wait (\<lambda>_. now) (kernel_timedwait fails) (word_of_int timeout_usecs) (m_sema s)))"

fun wait_step :: "timespec \<Rightarrow> bool \<Rightarrow> wait_pc \<Rightarrow> lws \<Rightarrow> (wait_pc \<times> lws) option" where
  "wait_step now fails T_try s = Some (if 0 < m_count s then T_take else W_done False, s)"
| "wait_step now fails T_take s = Some (W_done True, add_count (-1) s)"
| "wait_step now fails (W_try t) s = Some (if 0 < m_count s then W_take else W_spin 10000 t, s)"
| "wait_step now fails W_take s = Some (W_done True, add_count (-1) s)"
| "wait_step now fails (W_spin 0 t) s = Some (W_dec t, s)"
| "wait_step now fails (W_spin (Suc n) t) s = Some (if 0 < m_count s then W_take else W_spin n t, s)"
| "wait_step now fails (W_dec t) s =
     Some (if 0 < m_count s then W_done True else if t < 0 then W_block else W_timed t, add_count (-1) s)"
| "wait_step now fails W_block s = (if 0 < m_sema s then Some (W_done True, take_sema s) else None)"
| "wait_step now fails (W_timed t) s = timed_wait_step now fails t s"
| "wait_step now fails W_restore s =
     Some (if m_count s < 0 then W_done False else W_redec, add_count 1 s)"
| "wait_step now fails W_redec s =
     Some (if 0 < m_count s then W_try_sema else W_restore, add_count (-1) s)"
| "wait_step now fails W_try_sema s =
     Some (if 0 < m_sema s then (W_done True, take_sema s) else (W_restore, s))"
| "wait_step now fails W_idle s = None"
| "wait_step now fails (W_done r) s = None"

lemma timed_wait_step_simp:
  "timed_wait_step now fails t s =
     (if fails then Some (if valid_time (deadline now (word_of_int t)) then W_restore else W_done True, s)
      else if 0 < m_sema s then Some (W_done True, take_sema s) else None)"
  by (auto simp: timed_wait_step_def sema_timed_wait_def retry_eintr.simps kernel_timedwait_def take_sema_def)

text \<open>
  The history variables: what was signalled, how many waits succeeded, and how often something
  was granted that no token stands for. The latter happens in two ways. A timed wait takes
  \<^verbatim>\<open>EINVAL\<close> for success: it returns although it took no permit and leaves the count lowered. And
  \<^verbatim>\<open>signal(0)\<close>, which the assertion in \<^verbatim>\<open>signal\<close> allows, posts a permit to a thread that waits.
\<close>

record sema_sys =
  lw :: lws
  sig :: signal_pc
  wai :: wait_pc
  sent :: int
  got :: int
  unbacked :: int

fun adds :: "signal_pc \<Rightarrow> int" where
  "adds (S_add k) = k"
| "adds _ = 0"

definition empty_post :: "signal_pc \<Rightarrow> lws \<Rightarrow> int" where
  "empty_post p l = (if p = S_add 0 \<and> m_count l < 0 then 1 else 0)"

fun einval_grant :: "timespec \<Rightarrow> bool \<Rightarrow> wait_pc \<Rightarrow> int" where
  "einval_grant now fails (W_timed t) = (if fails \<and> \<not> valid_time (deadline now (word_of_int t)) then 1 else 0)"
| "einval_grant now fails _ = 0"

definition signalled :: "sema_sys \<Rightarrow> signal_pc \<Rightarrow> lws \<Rightarrow> sema_sys" where
  "signalled s p l = s\<lparr>lw := l, sig := p, sent := sent s + adds (sig s),
     unbacked := unbacked s + empty_post (sig s) (lw s)\<rparr>"

definition waited :: "timespec \<Rightarrow> bool \<Rightarrow> sema_sys \<Rightarrow> wait_pc \<Rightarrow> lws \<Rightarrow> sema_sys" where
  "waited now fails s p l = s\<lparr>lw := l, wai := p, got := got s + (if p = W_done True then 1 else 0),
     unbacked := unbacked s + einval_grant now fails (wai s)\<rparr>"

inductive sema_run :: "bool \<Rightarrow> sema_sys \<Rightarrow> sema_sys \<Rightarrow> bool" for ndebug where
  run_signal: "signal_step ndebug (sig s) (lw s) = Inr (p, l) \<Longrightarrow> sema_run ndebug s (signalled s p l)"
| run_wait: "wait_step now fails (wai s) (lw s) = Some (p, l) \<Longrightarrow> sema_run ndebug s (waited now fails s p l)"

inductive sema_step :: "bool \<Rightarrow> sema_sys \<Rightarrow> sema_sys \<Rightarrow> bool" for ndebug where
  sema_step_run: "sema_run ndebug s s' \<Longrightarrow> sema_step ndebug s s'"
| call_signal: "sig s = S_idle \<Longrightarrow> 0 \<le> k \<Longrightarrow> sema_step ndebug s (s\<lparr>sig := S_add k\<rparr>)"
| call_wait: "wai s = W_idle \<or> wai s = W_done r \<Longrightarrow> p = T_try \<or> p = W_try t \<Longrightarrow>
    sema_step ndebug s (s\<lparr>wai := p\<rparr>)"

definition sema_init :: "sema_sys \<Rightarrow> bool" where
  "sema_init s \<longleftrightarrow> (\<exists>n nd. new_lws nd n = Inr (lw s) \<and> sent s = n \<and> 0 \<le> n) \<and> sig s = S_idle \<and> wai s = W_idle
     \<and> got s = 0 \<and> unbacked s = 0"

section \<open>The invariant\<close>

text \<open>
  The waiting thread has lowered the count and not yet been let in (\<open>lowered\<close>). The permits of
  the kernel's semaphore, with a post under way, and what the count is below zero, make up for
  the thread that waits and for what was granted without a token.
\<close>

fun lowered :: "wait_pc \<Rightarrow> bool" where
  "lowered W_block = True"
| "lowered (W_timed t) = True"
| "lowered W_restore = True"
| "lowered W_try_sema = True"
| "lowered _ = False"

fun expects :: "wait_pc \<Rightarrow> bool" where
  "expects T_take = True"
| "expects W_take = True"
| "expects W_redec = True"
| "expects _ = False"

definition posts :: "sema_sys \<Rightarrow> int" where
  "posts s = int (m_sema (lw s)) + (if sig s = S_post then 1 else 0)"

definition tokens :: "sema_sys \<Rightarrow> int" where
  "tokens s = sent s - got s"

definition waiting :: "wait_pc \<Rightarrow> int" where
  "waiting p = (if lowered p \<or> p = W_redec then 1 else 0)"

definition below :: "int \<Rightarrow> int" where
  "below c = (if c < 0 then - c else 0)"

definition sema_inv :: "sema_sys \<Rightarrow> bool" where
  "sema_inv s \<longleftrightarrow> 0 \<le> got s \<and> 0 \<le> unbacked s
     \<and> m_count (lw s) = tokens s - (if lowered (wai s) then 1 else 0)
     \<and> waiting (wai s) \<le> posts s + below (m_count (lw s))
     \<and> posts s + below (m_count (lw s)) \<le> waiting (wai s) + unbacked s
     \<and> (expects (wai s) \<longrightarrow> 1 \<le> m_count (lw s)) \<and> (wai s = W_try_sema \<longrightarrow> 0 \<le> m_count (lw s))
     \<and> 0 \<le> adds (sig s)"

definition sent_small :: "sema_sys \<Rightarrow> bool" where
  "sent_small s \<longleftrightarrow> sent s + adds (sig s) < 2 ^ 63 \<and> unbacked s < 2 ^ 62"

lemma sema_inv_count:
  assumes "sema_inv s" "sent_small s"
  shows "- 1 - unbacked s \<le> m_count (lw s)" "m_count (lw s) < 2 ^ 63" "- (2 ^ 62) \<le> m_count (lw s) + 1"
    "m_count (lw s) + adds (sig s) < 2 ^ 63" "got s \<le> sent s + unbacked s"
proof -
  have P: "0 \<le> posts s" by (simp add: posts_def)
  show lo: "- 1 - unbacked s \<le> m_count (lw s)"
    using assms(1) P by (auto simp: sema_inv_def waiting_def below_def split: if_splits)
  show "- (2 ^ 62) \<le> m_count (lw s) + 1" using lo assms(2) by (simp add: sent_small_def)
  have "m_count (lw s) \<le> sent s" "0 \<le> adds (sig s)" using assms(1) by (auto simp: sema_inv_def tokens_def split: if_splits)
  then show "m_count (lw s) < 2 ^ 63" "m_count (lw s) + adds (sig s) < 2 ^ 63"
    using assms(2) by (auto simp: sent_small_def)
  show "got s \<le> sent s + unbacked s"
    using assms(1) P by (auto simp: sema_inv_def waiting_def below_def tokens_def split: if_splits)
qed

lemma signal_inv:
  assumes I: "sema_inv s" and small: "sent_small s" and st: "signal_step ndebug (sig s) (lw s) = Inr (p, l)"
  shows "sema_inv (signalled s p l)"
proof (cases "sig s")
  case S_idle
  then show ?thesis using I st by (auto simp: signalled_def sema_inv_def tokens_def posts_def empty_post_def)
next
  case (S_add k)
  note C = sema_inv_count [OF I small]
  have k: "0 \<le> k" using I S_add by (simp add: sema_inv_def)
  have w: "wrap64 (m_count (lw s) + k) = m_count (lw s) + k" using C S_add k by (intro wrap64_id) simp_all
  have p: "p = (if m_count (lw s) < 0 then S_post else S_idle)" "l = (lw s)\<lparr>m_count := m_count (lw s) + k\<rparr>"
    using st S_add w by (auto simp: fetch_add_def rw_assertion_def split: if_splits)
  have wp: "waiting (wai s) \<le> 1" by (simp add: waiting_def)
  show ?thesis
    using I S_add k p wp unfolding sema_inv_def
    by (auto simp: signalled_def tokens_def posts_def empty_post_def below_def)
next
  case S_post
  then show ?thesis
    using I st by (auto simp: signalled_def sema_inv_def tokens_def posts_def sema_signal_pow empty_post_def)
qed

lemma wait_inv:
  assumes I: "sema_inv s" and small: "sent_small s" and st: "wait_step now fails (wai s) (lw s) = Some (p, l)"
  shows "sema_inv (waited now fails s p l)"
proof -
  note C = sema_inv_count [OF I small]
  have dec: "wrap64 (m_count (lw s) + -1) = m_count (lw s) - 1" using C by simp
  have inc: "wrap64 (m_count (lw s) + 1) = m_count (lw s) + 1" if "lowered (wai s)"
  proof -
    have "0 \<le> adds (sig s)" "m_count (lw s) + 1 \<le> sent s" using I that by (auto simp: sema_inv_def tokens_def)
    then show ?thesis using C small by (intro wrap64_id) (auto simp: sent_small_def)
  qed
  note defs = sema_inv_def tokens_def posts_def add_count_def take_sema_def fetch_add_def waited_def
    waiting_def below_def timed_wait_step_simp
  from st show ?thesis
    by (cases rule: wait_step.elims) (use I dec inc in \<open>auto simp: defs split: if_splits\<close>)
qed

lemma sema_run_inv: "sema_run ndebug s s' \<Longrightarrow> sent_small s \<Longrightarrow> sema_inv s \<Longrightarrow> sema_inv s'"
  by (induction rule: sema_run.induct) (rule signal_inv wait_inv; assumption)+

lemma sema_step_inv:
  assumes "sema_step ndebug s s'" "sent_small s" "sema_inv s"
  shows "sema_inv s'"
  using assms
proof (induction rule: sema_step.induct)
  case (sema_step_run s s')
  then show ?case using sema_run_inv by blast
next
  case (call_signal s k)
  then show ?case by (auto simp: sema_inv_def tokens_def posts_def split: if_splits)
next
  case (call_wait s r p t)
  then show ?case by (auto simp: sema_inv_def tokens_def posts_def waiting_def)
qed

lemma signal_step_adds: "signal_step ndebug p s = Inr (p', s') \<Longrightarrow> adds p' = 0"
  by (cases p) (auto simp: fetch_add_def)

lemma grants_not_negative: "0 \<le> empty_post p l" "0 \<le> einval_grant now fails w"
  by (simp_all add: empty_post_def) (cases w, simp_all)

lemma sema_run_unbacked: "sema_run ndebug s s' \<Longrightarrow> unbacked s \<le> unbacked s'"
  by (induction rule: sema_run.induct) (simp_all add: signalled_def waited_def grants_not_negative)

lemma sent_small_back:
  assumes "sema_run ndebug s s'" "sent_small s'"
  shows "sent_small s"
proof -
  have "sent s + adds (sig s) \<le> sent s' + adds (sig s')"
    using assms(1) by (induction rule: sema_run.induct) (auto simp: signalled_def waited_def dest: signal_step_adds)
  then show ?thesis using sema_run_unbacked [OF assms(1)] assms(2) by (simp add: sent_small_def)
qed

interpretation sema: step_invariant sema_init "sema_step ndebug" sent_small sema_inv for ndebug
proof
  show "sema_inv s" if "sema_init s" for s
  proof -
    have "lw s = \<lparr>m_count = sent s, m_sema = 0\<rparr>" using that by (auto simp: sema_init_def new_lws_def)
    then show ?thesis
      using that by (auto simp: sema_init_def sema_inv_def tokens_def posts_def waiting_def below_def)
  qed
  show "sent_small s" if "sema_step ndebug s s'" "sent_small s'" for s s'
    using that
  proof (induction rule: sema_step.induct)
    case (sema_step_run s s')
    then show ?case using sent_small_back by blast
  qed (auto simp: sent_small_def)
  show "sema_inv s'" if "sema_step ndebug s s'" "sent_small s" "sema_inv s" for s s'
    using that by (rule sema_step_inv)
qed

text \<open>While nothing was granted without a token, what the kernel holds is exact.\<close>

lemma sema_inv_exact:
  assumes I: "sema_inv s" and exact: "unbacked s = 0"
  shows "0 \<le> tokens s" "-1 \<le> m_count (lw s)" "m_sema (lw s) \<le> 1"
    "waiting (wai s) = 0 \<Longrightarrow> m_count (lw s) = tokens s \<and> m_sema (lw s) = 0"
    "\<exists>p l. signal_step ndebug (sig s) (lw s) = Inr (p, l)"
proof -
  have P: "int (m_sema (lw s)) \<le> posts s" by (simp add: posts_def)
  have w: "waiting (wai s) \<le> 1" "lowered (wai s) \<Longrightarrow> waiting (wai s) = 1" by (simp_all add: waiting_def)
  have e: "posts s + below (m_count (lw s)) = waiting (wai s)" using I exact unfolding sema_inv_def by linarith
  show "0 \<le> tokens s" "-1 \<le> m_count (lw s)" "m_sema (lw s) \<le> 1"
    using I P e w by (auto simp: sema_inv_def below_def waiting_def split: if_splits)
  then show "\<exists>p l. signal_step ndebug (sig s) (lw s) = Inr (p, l)"
    using I by (cases "sig s") (auto simp: rw_assertion_def fetch_add_def sema_inv_def)
  show "m_count (lw s) = tokens s \<and> m_sema (lw s) = 0" if "waiting (wai s) = 0"
    using I P e w that by (auto simp: sema_inv_def below_def split: if_splits)
qed


text \<open>A wait whose timeout expires just as the token is signalled.\<close>

definition sample_sema :: sema_sys where
  "sample_sema = \<lparr>lw = \<lparr>m_count = 0, m_sema = 0\<rparr>, sig = S_idle, wai = W_idle, sent = 0, got = 0, unbacked = 0\<rparr>"

datatype sema_turn = Signal int | Run_signal | Wait int | Run_wait timespec bool

fun sema_do :: "sema_turn \<Rightarrow> sema_sys \<Rightarrow> sema_sys" where
  "sema_do (Signal k) s = (if sig s = S_idle \<and> 0 \<le> k then s\<lparr>sig := S_add k\<rparr> else s)"
| "sema_do Run_signal s = (case signal_step False (sig s) (lw s) of Inl _ \<Rightarrow> s | Inr (p, l) \<Rightarrow> signalled s p l)"
| "sema_do (Wait t) s = (case wai s of W_idle \<Rightarrow> s\<lparr>wai := W_try t\<rparr> | W_done r \<Rightarrow> s\<lparr>wai := W_try t\<rparr> | _ \<Rightarrow> s)"
| "sema_do (Run_wait now fails) s = (case wait_step now fails (wai s) (lw s) of None \<Rightarrow> s
     | Some (p, l) \<Rightarrow> waited now fails s p l)"



lemma wait_step_taken:
  assumes "wait_step now fails w (lw s) = Some (p, l)" "einval_grant now fails w = 0" "p \<noteq> W_done True"
  shows "sema_run ndebug (s\<lparr>wai := w\<rparr>) (s\<lparr>lw := l, wai := p\<rparr>)"
  using assms run_wait [of now fails "s\<lparr>wai := w\<rparr>" p l ndebug] by (simp add: waited_def)

text \<open>The spinning ends, here without a token: the count is lowered and the thread blocks.\<close>

lemma spin_down:
  assumes "m_count (lw s) \<le> 0"
  shows "(sema_run ndebug)\<^sup>*\<^sup>* (s\<lparr>wai := W_spin n t\<rparr>) (s\<lparr>wai := W_dec t\<rparr>)"
proof (induction n)
  case 0
  show ?case using wait_step_taken [of _ _ "W_spin 0 t" s "W_dec t" "lw s" ndebug] by (simp add: r_into_rtranclp)
next
  case (Suc n)
  have "sema_run ndebug (s\<lparr>wai := W_spin (Suc n) t\<rparr>) (s\<lparr>wai := W_spin n t\<rparr>)"
    using assms wait_step_taken [of _ _ "W_spin (Suc n) t" s "W_spin n t" "lw s" ndebug] by simp
  then show ?case using Suc by (rule converse_rtranclp_into_rtranclp)
qed

lemma try_blocks:
  assumes c: "m_count (lw s) \<le> 0"
  shows "(sema_run ndebug)\<^sup>*\<^sup>* (s\<lparr>wai := W_try t\<rparr>)
      (s\<lparr>lw := add_count (-1) (lw s), wai := if t < 0 then W_block else W_timed t\<rparr>)"
proof -
  have "sema_run ndebug (s\<lparr>wai := W_try t\<rparr>) (s\<lparr>wai := W_spin 10000 t\<rparr>)"
    using c wait_step_taken [of _ _ "W_try t" s "W_spin 10000 t" "lw s" ndebug] by simp
  moreover note spin_down [OF c, of ndebug 10000 t]
  moreover have "sema_run ndebug (s\<lparr>wai := W_dec t\<rparr>)
      (s\<lparr>lw := add_count (-1) (lw s), wai := if t < 0 then W_block else W_timed t\<rparr>)"
    using c wait_step_taken [of _ _ "W_dec t" s "if t < 0 then W_block else W_timed t" "add_count (-1) (lw s)" ndebug]
    by simp
  ultimately show ?thesis by (meson converse_rtranclp_into_rtranclp rtranclp.rtrancl_into_rtrancl)
qed

lemma sema_runs: "(sema_run ndebug)\<^sup>*\<^sup>* s s' \<Longrightarrow> (sema_step ndebug)\<^sup>*\<^sup>* s s'"
  by (rule rtranclp_mono [THEN predicate2D]) (auto intro: sema_step_run)

lemma wait_blocks:
  assumes c: "m_count (lw s) \<le> 0" and w: "wai s = W_idle \<or> wai s = W_done r"
  shows "(sema_step ndebug)\<^sup>*\<^sup>* s
      (s\<lparr>lw := add_count (-1) (lw s), wai := if t < 0 then W_block else W_timed t\<rparr>)"
proof -
  have "sema_step ndebug s (s\<lparr>wai := W_try t\<rparr>)" using w by (rule call_wait) simp
  then show ?thesis using sema_runs [OF try_blocks [OF c]] by (rule converse_rtranclp_into_rtranclp)
qed

definition sample_clock :: timespec where
  "sample_clock = \<lparr>tv_sec = 7, tv_nsec = 999000000\<rparr>"




lemma sample_sema_init: "sema_init sample_sema"
  by (auto simp: sema_init_def sample_sema_def new_lws_def rw_assertion_def)


section \<open>What \<^verbatim>\<open>EINVAL\<close> does to the semaphore\<close>

lemma full_second_invalid:
  assumes now: "0 \<le> tv_nsec now" "tv_nsec now < 1000000000" and t: "0 \<le> t" "t < 2 ^ 63"
    and full: "tv_nsec now + t mod 1000000 * 1000 = 1000000000"
  shows "\<not> valid_time (deadline now (word_of_int t))"
proof -
  have "uint (word_of_int t :: u64) = t" using t by (simp add: uint_word_of_int)
  then show ?thesis using deadline_time(4) [OF now, of "word_of_int t"] full by (simp add: valid_time_def)
qed

text \<open>The timed wait of a thread that finds no token returns true and leaves the count at -1.\<close>

definition einval_state :: "sema_sys \<Rightarrow> sema_sys" where
  "einval_state s = s\<lparr>lw := add_count (-1) (lw s), wai := W_done True, got := got s + 1, unbacked := unbacked s + 1\<rparr>"

lemma einval_timed_step:
  assumes "\<not> valid_time (deadline now (word_of_int t))"
  shows "sema_run ndebug (s\<lparr>lw := add_count (-1) (lw s), wai := W_timed t\<rparr>) (einval_state s)"
  using assms run_wait [of now True "s\<lparr>lw := add_count (-1) (lw s), wai := W_timed t\<rparr>" "W_done True" "add_count (-1) (lw s)" ndebug]
  by (simp add: timed_wait_step_simp waited_def einval_state_def)

text \<open>
  C15: \<^verbatim>\<open>EINVAL\<close> breaks the semaphore. In every execution, whenever no token is left and
  the thread is not in a wait, a wait with a timeout that makes up a full second of nanoseconds
  with the time of the clock can succeed although no token was
  signalled. If the thread then waits again, it blocks with a count of -2, and whatever is
  signalled next, the assertion \<^verbatim>\<open>oldCount >= -1\<close> in \<^verbatim>\<open>signal\<close> fails.
\<close>

theorem timed_wait_breaks_semaphore:
  fixes now :: timespec
  assumes run: "sema_init s0" "(sema_step ndebug)\<^sup>*\<^sup>* s0 s" "sent_small s" "unbacked s = 0"
    and s: "got s = sent s" "wai s = W_idle \<or> wai s = W_done r"
    and now: "0 \<le> tv_nsec now" "tv_nsec now < 1000000000" and t: "0 \<le> t" "t < 2 ^ 63"
    and full: "tv_nsec now + t mod 1000000 * 1000 = 1000000000"
  shows "\<exists>s1 s2. (sema_step ndebug)\<^sup>*\<^sup>* s s1 \<and> wai s1 = W_done True \<and> sent s1 = sent s \<and> got s1 = sent s1 + 1
    \<and> (sema_step ndebug)\<^sup>*\<^sup>* s1 s2 \<and> wai s2 = W_block \<and> m_count (lw s2) = -2
    \<and> (0 \<le> k \<longrightarrow> signal_step False (S_add k) (lw s2) = Inl Rw_assert)"
proof -
  have I: "sema_inv s" by (rule sema.inv_run [OF run(1-3)])
  have "waiting (wai s) = 0" using s(2) by (auto simp: waiting_def)
  then have c: "m_count (lw s) = 0" using sema_inv_exact(4) [OF I run(4)] s(1) by (simp add: tokens_def)
  note e = full_second_invalid [OF now t full]
  have "(sema_step ndebug)\<^sup>*\<^sup>* s (s\<lparr>lw := add_count (-1) (lw s), wai := W_timed t\<rparr>)"
    using wait_blocks [of s r ndebug t] c s(2) t by simp
  moreover have "sema_step ndebug (s\<lparr>lw := add_count (-1) (lw s), wai := W_timed t\<rparr>) (einval_state s)"
    by (rule sema_step_run) (rule einval_timed_step [OF e])
  ultimately have 1: "(sema_step ndebug)\<^sup>*\<^sup>* s (einval_state s)" by (rule rtranclp.rtrancl_into_rtrancl)
  let ?s2 = "(einval_state s)\<lparr>lw := add_count (-1) (lw (einval_state s)), wai := W_block\<rparr>"
  have c1: "m_count (lw (einval_state s)) = -1" using c by (simp add: einval_state_def add_count_def fetch_add_def)
  then have c2: "m_count (lw ?s2) = -2" by (simp add: add_count_def fetch_add_def)
  have 2: "(sema_step ndebug)\<^sup>*\<^sup>* (einval_state s) ?s2"
    using wait_blocks [of "einval_state s" True ndebug "-1"] c1 by (simp add: einval_state_def)
  have "0 \<le> k \<longrightarrow> signal_step False (S_add k) (lw ?s2) = Inl Rw_assert"
    using c2 by (simp add: fetch_add_def rw_assertion_def)
  then show ?thesis using 1 2 c2 s(1) by (intro exI [of _ "einval_state s"] exI [of _ ?s2]) (simp add: einval_state_def)
qed

theorem timed_wait_breaks_semaphore_witness:
  "\<exists>s1 s2. (sema_step False)\<^sup>*\<^sup>* sample_sema s1 \<and> wai s1 = W_done True \<and> got s1 = sent s1 + 1
    \<and> (sema_step False)\<^sup>*\<^sup>* s1 s2 \<and> signal_step False (S_add 1) (lw s2) = Inl Rw_assert"
proof -
  have s: "sent_small sample_sema" "unbacked sample_sema = 0" "got sample_sema = sent sample_sema"
    "wai sample_sema = W_idle \<or> wai sample_sema = W_done True"
    by (simp_all add: sample_sema_def sent_small_def)
  show ?thesis
    using timed_wait_breaks_semaphore [OF sample_sema_init rtranclp.rtrancl_refl s, of sample_clock 1000 False 1]
    by (simp add: sample_clock_def) blast
qed

text \<open>
  Once the post has been made, the loop after an expired timeout ends: the waiting thread
  takes the token, in three of its own steps.
\<close>

lemma restore_ends:
  assumes I: "sema_inv s" and small: "sent_small s" and s: "wai s = W_restore" "got s < sent s" "sig s \<noteq> S_post"
  shows "wai (fold sema_do [Run_wait now b, Run_wait now b, Run_wait now b] s) = W_done True"
proof -
  have m: "0 < m_sema (lw s)" "m_count (lw s) = tokens s - 1" "1 \<le> tokens s"
    using I s by (auto simp: sema_inv_def posts_def tokens_def waiting_def below_def split: if_splits)
  have "tokens s < 2 ^ 63" using I small by (auto simp: sema_inv_def tokens_def sent_small_def)
  then show ?thesis using m s by (simp add: add_count_def fetch_add_def waited_def)
qed

text \<open>A signal of no tokens, which the assertion allows, wakes a blocked thread all the same.\<close>

lemma signal_zero_wakes:
  assumes "sig s = S_idle" "wai s = W_block" "lw s = \<lparr>m_count = -1, m_sema = 0\<rparr>"
  shows "wai (fold sema_do [Signal 0, Run_signal, Run_signal, Run_wait now b] s) = W_done True"
    "sent (fold sema_do [Signal 0, Run_signal, Run_signal, Run_wait now b] s) = sent s"
    "unbacked (fold sema_do [Signal 0, Run_signal, Run_signal, Run_wait now b] s) = unbacked s + 1"
  using assms by (simp_all add: fetch_add_def rw_assertion_def sema_signal_pow signalled_def waited_def empty_post_def)

end
