(* ===== verification/Blocking_Queue.thy ===== *)
theory Blocking_Queue
  imports Rw_Props Semaphore
begin

text \<open>
  \<^verbatim>\<open>BlockingReaderWriterQueue\<close> (\<^verbatim>\<open>externals/include/moodycamel/readerwriterqueue.h\<close>): a
  \<^verbatim>\<open>ReaderWriterQueue\<close> with a \<^verbatim>\<open>LightweightSemaphore\<close> that counts its elements. A step of the
  system is one operation of the inner queue or one step of the semaphore, by the producer or
  by the consumer.
\<close>

section \<open>Operations\<close>

text \<open>
  The producer: \<^verbatim>\<open>try_enqueue\<close> and \<^verbatim>\<open>enqueue\<close> (with the answer of \<^verbatim>\<open>malloc\<close>). The consumer:
  the calls that wait for the semaphore first.
\<close>

datatype 'a bq_enqueue = B_try_enqueue 'a | B_enqueue bool 'a

datatype bq_dequeue = B_try_dequeue | B_wait_dequeue | B_wait_dequeue_timed int | B_pop

fun bq_inner_enqueue :: "u64 \<Rightarrow> bool \<Rightarrow> 'a bq_enqueue \<Rightarrow> 'a rwq \<Rightarrow> rw_fault + bool \<times> 'a rwq" where
  "bq_inner_enqueue maxb ndebug (B_try_enqueue x) q = try_enqueue maxb ndebug x q"
| "bq_inner_enqueue maxb ndebug (B_enqueue malloc_ok x) q = rw_enqueue maxb ndebug malloc_ok x q"

text \<open>The call of the semaphore; \<^verbatim>\<open>wait()\<close> is a wait with a negative timeout.\<close>

fun bq_wait :: "bq_dequeue \<Rightarrow> wait_pc" where
  "bq_wait B_try_dequeue = T_try"
| "bq_wait B_wait_dequeue = W_try (-1)"
| "bq_wait (B_wait_dequeue_timed timeout_usecs) = W_try timeout_usecs"
| "bq_wait B_pop = T_try"

text \<open>After a successful wait: the element is taken, and the assertion is that there was one.\<close>

fun bq_take :: "bool \<Rightarrow> bq_dequeue \<Rightarrow> 'a rwq \<Rightarrow> rw_fault + 'a option \<times> 'a rwq" where
  "bq_take ndebug B_pop q = bind_r (rw_pop ndebug q) (\<lambda>(result, q').
     bind_r (rw_assertion ndebug result) (\<lambda>_. Inr (None, q')))"
| "bq_take ndebug d q = bind_r (try_dequeue ndebug q) (\<lambda>(r, q').
     bind_r (rw_assertion ndebug (r \<noteq> None)) (\<lambda>_. Inr (r, q')))"

record 'a bq_sys =
  inner :: "'a rwq"
  sema :: sema_sys
  dequeuing_call :: "bq_dequeue option"

definition bq_size_approx :: "'a bq_sys \<Rightarrow> int" where
  "bq_size_approx s = availableApprox (lw (sema s))"

inductive bq_step :: "u64 \<Rightarrow> bool \<Rightarrow> 'a bq_sys \<Rightarrow> 'a bq_sys \<Rightarrow> bool" for maxb ndebug where
  bq_enqueue: "sig (sema s) = S_idle \<Longrightarrow> bq_inner_enqueue maxb ndebug c (inner s) = Inr (r, q) \<Longrightarrow>
    bq_step maxb ndebug s (s\<lparr>inner := q, sema := (if r then (sema s)\<lparr>sig := S_add 1\<rparr> else sema s)\<rparr>)"
| bq_sema: "sema_run ndebug (sema s) t \<Longrightarrow> bq_step maxb ndebug s (s\<lparr>sema := t\<rparr>)"
| bq_dequeue: "dequeuing_call s = None \<Longrightarrow>
    bq_step maxb ndebug s (s\<lparr>dequeuing_call := Some d, sema := (sema s)\<lparr>wai := bq_wait d\<rparr>\<rparr>)"
| bq_success: "dequeuing_call s = Some d \<Longrightarrow> wai (sema s) = W_done True \<Longrightarrow> bq_take ndebug d (inner s) = Inr (r, q) \<Longrightarrow>
    bq_step maxb ndebug s (s\<lparr>inner := q, dequeuing_call := None, sema := (sema s)\<lparr>wai := W_idle\<rparr>\<rparr>)"
| bq_failure: "dequeuing_call s = Some d \<Longrightarrow> wai (sema s) = W_done False \<Longrightarrow>
    bq_step maxb ndebug s (s\<lparr>dequeuing_call := None, sema := (sema s)\<lparr>wai := W_idle\<rparr>\<rparr>)"
| bq_peek: "dequeuing_call s = None \<Longrightarrow> peek ndebug (inner s) = Inr (r, q) \<Longrightarrow>
    bq_step maxb ndebug s (s\<lparr>inner := q\<rparr>)"

definition new_bq :: "bool \<Rightarrow> u64 \<Rightarrow> (nat \<Rightarrow> bool) \<Rightarrow> u64 \<Rightarrow> rw_fault + 'a bq_sys" where
  "new_bq ndebug maxb malloc maxSize = bind_r (new_rwq ndebug maxb malloc maxSize) (\<lambda>q.
     bind_r (new_lws ndebug 0) (\<lambda>l.
       Inr \<lparr>inner = q, sema = \<lparr>lw = l, sig = S_idle, wai = W_idle, sent = 0, got = 0, unbacked = 0\<rparr>, dequeuing_call = None\<rparr>))"

section \<open>The invariant\<close>

text \<open>
  The elements of the inner queue are the tokens of the semaphore, one that is about to be
  signalled, and one that the consumer has been granted.
\<close>

definition bq_inv :: "nat \<Rightarrow> 'a bq_sys \<Rightarrow> bool" where
  "bq_inv m s \<longleftrightarrow> (\<exists>zs. rwq_abs m (inner s) zs
       \<and> int (length zs) = tokens (sema s) + adds (sig (sema s)) + (if wai (sema s) = W_done True then 1 else 0))
     \<and> sema_inv (sema s) \<and> unbacked (sema s) = 0 \<and> (dequeuing_call s = None \<longleftrightarrow> wai (sema s) = W_idle)"

lemma bq_inner_enqueue_ok:
  assumes "rwq_abs m q zs" "maxb = 2 ^ p" "p < 62"
  shows "\<exists>r q' zs'. bq_inner_enqueue maxb ndebug c q = Inr (r, q') \<and> rwq_abs m q' zs'
      \<and> length zs' = length zs + (if r then 1 else 0)"
proof -
  obtain ring xss k where R: "rwq_rep m False False q ring xss k" and zs: "concat xss = zs"
    using assms(1) by (auto simp: rwq_abs_def)
  note enq = abs_outcome [OF inner_enqueue_ok [OF R assms(2,3), unfolded zs]]
  show ?thesis
  proof (cases c)
    case (B_try_enqueue x)
    then show ?thesis using enq [of ndebug CannotAlloc False x]
      by (fastforce simp: try_enqueue_def enqueued_def split: if_splits)
  next
    case (B_enqueue ok x)
    then show ?thesis using enq [of ndebug CanAlloc ok x]
      by (fastforce simp: rw_enqueue_def enqueued_def split: if_splits)
  qed
qed

lemma bq_take_ok:
  assumes "rwq_abs m q zs" "zs \<noteq> []"
  shows "\<exists>r q'. bq_take ndebug d q = Inr (r, q') \<and> rwq_abs m q' (tl zs) \<and> (d \<noteq> B_pop \<longrightarrow> r = Some (hd zs))"
proof -
  obtain ring xss k where R: "rwq_rep m False False q ring xss k" and zs: "concat xss = zs"
    using assms(1) by (auto simp: rwq_abs_def)
  obtain r q' where d: "try_dequeue ndebug q = Inr (r, q')" "rwq_abs m q' (tl zs)" "r = Some (hd zs)"
    using abs_outcome [OF try_dequeue_ok [OF R, unfolded zs], of ndebug] assms(2) by (auto simp: front_of_def)
  obtain r2 q2 where e: "rw_pop ndebug q = Inr (r2, q2)" "rwq_abs m q2 (tl zs)" "r2"
    using abs_outcome [OF rw_pop_ok [OF R, unfolded zs], of ndebug] assms(2) by auto
  show ?thesis using d e by (cases d) (auto simp: rw_assertion_def)
qed

lemma wait_step_pc:
  assumes "wait_step now fails p l = Some (p', l')"
  shows "p \<noteq> W_idle" "p \<noteq> W_done r" "p' \<noteq> W_idle"
  using assms by (auto elim!: wait_step.elims simp: timed_wait_step_simp split: if_splits)

lemma bq_sema_inv:
  assumes I: "bq_inv m s" and run: "sema_run ndebug (sema s) t" and small: "sent_small (sema s)"
    and exact: "unbacked t = 0"
  shows "bq_inv m (s\<lparr>sema := t\<rparr>)"
proof -
  have "sema_inv t" using sema_run_inv [OF run small] I by (simp add: bq_inv_def)
  moreover have "tokens t + adds (sig t) + (if wai t = W_done True then 1 else 0)
      = tokens (sema s) + adds (sig (sema s)) + (if wai (sema s) = W_done True then 1 else 0)
      \<and> (wai t = W_idle \<longleftrightarrow> wai (sema s) = W_idle)"
    using run
  proof cases
    case (run_signal p l)
    then show ?thesis using signal_step_adds by (auto simp: tokens_def signalled_def)
  next
    case (run_wait now fails p l)
    then show ?thesis using wait_step_pc [OF run_wait(2)] by (auto simp: tokens_def waited_def)
  qed
  ultimately show ?thesis using I exact by (simp add: bq_inv_def)
qed

lemma bq_step_inv:
  assumes "bq_step maxb ndebug s s'" "sent_small (sema s)" "unbacked (sema s') = 0" "bq_inv m s" and p: "maxb = 2 ^ p" "p < 62"
  shows "bq_inv m s'"
  using assms(1-4)
proof (induction rule: bq_step.induct)
  case (bq_enqueue s c r q)
  then obtain zs where zs: "rwq_abs m (inner s) zs" "int (length zs) = tokens (sema s) + (if wai (sema s) = W_done True then 1 else 0)"
    by (auto simp: bq_inv_def)
  obtain zs' where zs': "rwq_abs m q zs'" "length zs' = length zs + (if r then 1 else 0)"
    using bq_inner_enqueue_ok [OF zs(1) p, of ndebug c] bq_enqueue(2) by auto
  have S: "sema_inv ((sema s)\<lparr>sig := S_add 1\<rparr>)"
    using bq_enqueue by (auto simp: bq_inv_def sema_inv_def tokens_def posts_def split: if_splits)
  show ?case
    using zs zs' S bq_enqueue by (auto simp: bq_inv_def tokens_def intro!: exI [of _ zs'])
next
  case (bq_sema s t)
  then show ?case by (intro bq_sema_inv) simp_all
next
  case (bq_dequeue s d)
  have "waiting (bq_wait d) = 0" "bq_wait d \<noteq> W_idle" "bq_wait d \<noteq> W_done True" "\<not> lowered (bq_wait d)" "\<not> expects (bq_wait d)" "bq_wait d \<noteq> W_try_sema"
    by (cases d; simp add: waiting_def)+
  then show ?case using bq_dequeue by (auto simp: bq_inv_def sema_inv_def tokens_def posts_def waiting_def)
next
  case (bq_success s d r q)
  then obtain zs where zs: "rwq_abs m (inner s) zs" "int (length zs) = tokens (sema s) + adds (sig (sema s)) + 1"
    by (auto simp: bq_inv_def)
  have S: "sema_inv (sema s)" using bq_success by (simp add: bq_inv_def)
  have "0 \<le> adds (sig (sema s))" "0 \<le> tokens (sema s)"
    using S bq_success sema_inv_exact(1) [OF S] by (simp_all add: sema_inv_def bq_inv_def)
  then have "0 < int (length zs)" using zs(2) by simp
  then have "zs \<noteq> []" by auto
  then have "rwq_abs m q (tl zs)" using bq_take_ok [OF zs(1), of ndebug d] bq_success(3) by auto
  moreover have "int (length (tl zs)) = tokens (sema s) + adds (sig (sema s))" using zs(2) \<open>zs \<noteq> []\<close> by (cases zs) auto
  moreover have "sema_inv ((sema s)\<lparr>wai := W_idle\<rparr>)" using S bq_success(2) by (auto simp: sema_inv_def tokens_def posts_def waiting_def)
  ultimately show ?case using bq_success by (auto simp: bq_inv_def tokens_def)
next
  case (bq_failure s d)
  then show ?case by (auto simp: bq_inv_def sema_inv_def tokens_def posts_def waiting_def)
next
  case (bq_peek s r q)
  then obtain zs where zs: "rwq_abs m (inner s) zs" "int (length zs) = tokens (sema s) + adds (sig (sema s))
      + (if wai (sema s) = W_done True then 1 else 0)" by (auto simp: bq_inv_def)
  then obtain ring xss k where R: "rwq_rep m False False (inner s) ring xss k" and c: "concat xss = zs"
    by (auto simp: rwq_abs_def)
  have "rwq_abs m q zs" using abs_outcome [OF peek_ok [OF R, unfolded c], of ndebug] bq_peek(2) by auto
  then show ?case using bq_peek(3-5) zs(2) unfolding bq_inv_def by (auto intro!: exI [of _ zs])
qed

definition bq_init :: "bool \<Rightarrow> nat \<Rightarrow> u64 \<Rightarrow> 'a bq_sys \<Rightarrow> bool" where
  "bq_init ndebug p maxSize s \<longleftrightarrow> 1 \<le> p \<and> p < 60 \<and> 0 < unat maxSize \<and> unat maxSize < 2 ^ 62
     \<and> new_bq ndebug (2 ^ p) (\<lambda>_. True) maxSize = Inr s"

text \<open>What is granted without a token is never taken back.\<close>

lemma bq_step_unbacked: "bq_step maxb ndebug s s' \<Longrightarrow> unbacked (sema s) \<le> unbacked (sema s')"
  by (induction rule: bq_step.induct) (auto dest: sema_run_unbacked)

lemma bq_sent_small_back: "bq_step maxb ndebug s s' \<Longrightarrow> sent_small (sema s') \<Longrightarrow> sent_small (sema s)"
proof (induction rule: bq_step.induct)
  case (bq_sema s t)
  then show ?case using sent_small_back by auto
qed (auto simp: sent_small_def split: if_splits)

lemma bq_init_inv:
  assumes "bq_init ndebug p maxSize (s :: 'a bq_sys)"
  shows "bq_inv (unat maxSize) s"
proof -
  obtain q :: "'a rwq" where q: "new_rwq ndebug (2 ^ p) (\<lambda>_. True) maxSize = Inr q" "rwq_abs (unat maxSize) q []"
    using assms new_rwq_ok [of "2 ^ p" p maxSize "\<lambda>_. True" ndebug] by (auto simp: bq_init_def)
  then have "s = \<lparr>inner = q, sema = \<lparr>lw = \<lparr>m_count = 0, m_sema = 0\<rparr>, sig = S_idle, wai = W_idle, sent = 0, got = 0, unbacked = 0\<rparr>,
      dequeuing_call = None\<rparr>"
    using assms by (auto simp: bq_init_def new_bq_def new_lws_def rw_assertion_def)
  then show ?thesis using q(2) by (auto simp: bq_inv_def sema_inv_def tokens_def posts_def waiting_def below_def)
qed

interpretation bq: step_invariant "bq_init ndebug p maxSize" "bq_step (2 ^ p) ndebug" "\<lambda>s. sent_small (sema s)"
  "\<lambda>s. 0 \<le> unbacked (sema s) \<and> (unbacked (sema s) = 0 \<longrightarrow> bq_inv (unat maxSize) s) \<and> p < 62" for ndebug p maxSize
proof
  show "0 \<le> unbacked (sema s) \<and> (unbacked (sema s) = 0 \<longrightarrow> bq_inv (unat maxSize) s) \<and> p < 62"
    if "bq_init ndebug p maxSize s" for s :: "'a bq_sys"
    using bq_init_inv [OF that] that by (simp add: bq_init_def bq_inv_def)
  show "sent_small (sema s)" if "bq_step (2 ^ p) ndebug s s'" "sent_small (sema s')" for s s' :: "'a bq_sys"
    using that by (rule bq_sent_small_back)
  show "0 \<le> unbacked (sema s') \<and> (unbacked (sema s') = 0 \<longrightarrow> bq_inv (unat maxSize) s') \<and> p < 62"
    if "bq_step (2 ^ p) ndebug s s'" "sent_small (sema s)"
      "0 \<le> unbacked (sema s) \<and> (unbacked (sema s) = 0 \<longrightarrow> bq_inv (unat maxSize) s) \<and> p < 62" for s s' :: "'a bq_sys"
    using bq_step_inv [OF that(1,2) _ _ refl] that(3) bq_step_unbacked [OF that(1)] by auto
qed

text \<open>
  C14: in every execution of a \<^verbatim>\<open>BlockingReaderWriterQueue\<close>, with the steps of the producer and of
  the consumer interleaved inside the semaphore and with timeouts that may expire at any
  moment, as long as no timed wait was answered \<^verbatim>\<open>EINVAL\<close> (the queue signals one token at a
  time, so nothing else is granted without one): a call that the semaphore lets through finds an
  element, the assertions in \<^verbatim>\<open>try_dequeue\<close>, \<^verbatim>\<open>wait_dequeue\<close>, \<^verbatim>\<open>wait_dequeue_timed\<close> and
  \<^verbatim>\<open>pop\<close> hold, and it takes the oldest element. No enqueue faults. When neither thread is in a
  call, \<^verbatim>\<open>size_approx\<close> is the number of elements in the inner queue.
\<close>

theorem blocking_queue_asserts_hold:
  assumes init: "bq_init ndebug p maxSize s0" and run: "(bq_step (2 ^ p) ndebug)\<^sup>*\<^sup>* s0 s"
    and small: "sent_small (sema s)" and no_einval: "unbacked (sema s) = 0"
  shows "(wai (sema s) = W_done True \<longrightarrow> (\<exists>z zs r q. rwq_abs (unat maxSize) (inner s) (z # zs)
        \<and> bq_take ndebug d (inner s) = Inr (r, q) \<and> rwq_abs (unat maxSize) q zs \<and> (d \<noteq> B_pop \<longrightarrow> r = Some z)))
    \<and> (\<exists>r q. bq_inner_enqueue (2 ^ p) ndebug c (inner s) = Inr (r, q))
    \<and> (sig (sema s) = S_idle \<and> dequeuing_call s = None \<longrightarrow>
        size_approx (inner s) = Some (Inr (of_int (bq_size_approx s))))"
proof -
  have I: "bq_inv (unat maxSize) s" and p: "p < 62" using bq.inv_run [OF init run small] no_einval by auto
  then obtain zs where zs: "rwq_abs (unat maxSize) (inner s) zs" "int (length zs) = tokens (sema s)
      + adds (sig (sema s)) + (if wai (sema s) = W_done True then 1 else 0)" and S: "sema_inv (sema s)"
    and call: "dequeuing_call s = None \<longleftrightarrow> wai (sema s) = W_idle"
    by (auto simp: bq_inv_def)
  have "0 \<le> adds (sig (sema s))" "0 \<le> tokens (sema s)"
    using S sema_inv_exact(1) [OF S no_einval] by (simp_all add: sema_inv_def)
  then have ne: "zs \<noteq> []" if "wai (sema s) = W_done True" using zs(2) that by auto
  have "\<exists>z zs r q. rwq_abs (unat maxSize) (inner s) (z # zs)
        \<and> bq_take ndebug d (inner s) = Inr (r, q) \<and> rwq_abs (unat maxSize) q zs \<and> (d \<noteq> B_pop \<longrightarrow> r = Some z)"
    if "wai (sema s) = W_done True"
    using bq_take_ok [OF zs(1) ne [OF that], of ndebug d] zs(1) ne [OF that] by (metis list.collapse)
  moreover have "\<exists>r q. bq_inner_enqueue (2 ^ p) ndebug c (inner s) = Inr (r, q)"
    using bq_inner_enqueue_ok [OF zs(1) refl p] by blast
  moreover have "size_approx (inner s) = Some (Inr (of_int (bq_size_approx s)))"
    if "sig (sema s) = S_idle" "dequeuing_call s = None"
  proof -
    have w: "wai (sema s) = W_idle" using that call by simp
    then have "m_count (lw (sema s)) = int (length zs)" using S zs(2) that by (simp add: sema_inv_def)
    then have "bq_size_approx s = int (length zs)" by (simp add: bq_size_approx_def availableApprox_def)
    then show ?thesis using end_of_life(1) [OF zs(1)] by simp
  qed
  ultimately show ?thesis by blast
qed

text \<open>A queue for one element; the producer stores 7 and the consumer is granted it.\<close>

definition sample_block :: "nat rwblock" where
  "sample_block = \<lparr>bl_front = 0, bl_localTail = 0, bl_tail = 0, bl_localFront = 0, bl_next = Some 0,
     bl_data = [None, None], bl_sizeMask = 1\<rparr>"

definition sample_inner :: "nat rwblock \<Rightarrow> nat rwq" where
  "sample_inner b = \<lparr>rw_blocks = [b], frontBlock = 0, tailBlock = 0, largestBlockSize = 2, rw_enqueuing = False,
     rw_dequeuing = False\<rparr>"

definition sample_bq :: "nat rwblock \<Rightarrow> sema_sys \<Rightarrow> bq_dequeue option \<Rightarrow> nat bq_sys" where
  "sample_bq b t d = \<lparr>inner = sample_inner b, sema = t, dequeuing_call = d\<rparr>"

definition stored_block :: "nat rwblock" where
  "stored_block = sample_block\<lparr>bl_tail := 1, bl_data := [Some 7, None]\<rparr>"

lemma sample_bq_init: "bq_init False 1 1 (sample_bq sample_block sample_sema None)"
proof -
  have c: "ceilToPow2 2 = 2" by (simp add: ceilToPow2_def smear_def)
  have r: "replicate 2 None = [None, None :: nat option]" by (simp add: numeral_2_eq_2)
  have "new_rwq False 2 (\<lambda>_. True) 1 = Inr (sample_inner sample_block)"
    by (simp add: new_rwq_def c rw_assertion_def make_block_def new_block_def sample_inner_def sample_block_def r)
  then show ?thesis
    by (simp add: bq_init_def new_bq_def new_lws_def rw_assertion_def sample_bq_def sample_sema_def)
qed

lemma sample_enqueue:
  "bq_inner_enqueue 2 False (B_enqueue True 7) (sample_inner sample_block) = Inr (True, sample_inner stored_block)"
  by (simp add: rw_enqueue_def inner_enqueue_def inner_enqueue_body_def guard_enqueuing_def guard_enter_def
      guard_leave_def block_at_def sample_inner_def sample_block_def stored_block_def inc_def enqueue_here_def
      slot_new_def put_block_def Let_def)

definition granted :: "nat bq_sys" where
  "granted = sample_bq stored_block (fold sema_do [Run_wait sample_clock False, Run_wait sample_clock False]
     ((sema_do Run_signal (sample_sema\<lparr>sig := S_add 1\<rparr>))\<lparr>wai := T_try\<rparr>)) (Some B_try_dequeue)"

lemma granted_sema:
  "sema granted = \<lparr>lw = \<lparr>m_count = 0, m_sema = 0\<rparr>, sig = S_idle, wai = W_done True, sent = 1, got = 1, unbacked = 0\<rparr>"
  by (simp add: granted_def sample_bq_def sample_sema_def fetch_add_def add_count_def rw_assertion_def signalled_def
      waited_def empty_post_def)

lemma bq_sema_runs:
  "(sema_run ndebug)\<^sup>*\<^sup>* t t' \<Longrightarrow> (bq_step maxb ndebug)\<^sup>*\<^sup>* (s\<lparr>sema := t\<rparr>) (s\<lparr>sema := t'\<rparr>)"
proof (induction rule: rtranclp_induct)
  case (step t1 t2)
  then show ?case using bq_sema [of ndebug "s\<lparr>sema := t1\<rparr>" t2 maxb] by (simp add: rtranclp.rtrancl_into_rtrancl)
qed simp

lemma granted_reachable: "(bq_step (2 ^ 1) False)\<^sup>*\<^sup>* (sample_bq sample_block sample_sema None) granted"
proof -
  let ?t1 = "sample_sema\<lparr>sig := S_add 1\<rparr>"
  let ?t2 = "sema_do Run_signal ?t1"
  let ?t3 = "?t2\<lparr>wai := T_try\<rparr>"
  let ?t4 = "sema_do (Run_wait sample_clock False) ?t3"
  have "bq_step (2 ^ 1) False (sample_bq sample_block sample_sema None) (sample_bq stored_block ?t1 None)"
    using bq_step.bq_enqueue [of "sample_bq sample_block sample_sema None" "2 ^ 1" False "B_enqueue True 7" True] sample_enqueue
    by (simp add: sample_bq_def sample_sema_def)
  moreover have "sema_run False ?t1 ?t2"
    using run_signal [of False ?t1] by (simp add: sample_sema_def fetch_add_def rw_assertion_def)
  then have "bq_step (2 ^ 1) False (sample_bq stored_block ?t1 None) (sample_bq stored_block ?t2 None)"
    using bq_sema [of False "sample_bq stored_block ?t1 None" ?t2] by (simp add: sample_bq_def)
  moreover have "bq_step (2 ^ 1) False (sample_bq stored_block ?t2 None) (sample_bq stored_block ?t3 (Some B_try_dequeue))"
    using bq_step.bq_dequeue [of "sample_bq stored_block ?t2 None" "2 ^ 1" False B_try_dequeue] by (simp add: sample_bq_def)
  moreover have "sema_run False ?t3 ?t4"
    using run_wait [of sample_clock False ?t3]
    by (simp add: sample_sema_def fetch_add_def rw_assertion_def signalled_def empty_post_def)
  moreover have "sema_run False ?t4 (sema_do (Run_wait sample_clock False) ?t4)"
    using run_wait [of sample_clock False ?t4 "W_done True" "add_count (-1) (lw ?t4)" False]
    by (simp add: sample_sema_def fetch_add_def rw_assertion_def signalled_def waited_def empty_post_def)
  ultimately have "(bq_step (2 ^ 1) False)\<^sup>*\<^sup>* (sample_bq sample_block sample_sema None) (sample_bq stored_block ?t3 (Some B_try_dequeue))"
    and "(sema_run False)\<^sup>*\<^sup>* ?t3 (sema_do (Run_wait sample_clock False) ?t4)"
    by (meson rtranclp.rtrancl_into_rtrancl rtranclp.rtrancl_refl)+
  moreover have "(bq_step (2 ^ 1) False)\<^sup>*\<^sup>* (sample_bq stored_block ?t3 (Some B_try_dequeue)) granted"
    using bq_sema_runs [OF calculation(2), of "2 ^ 1" "sample_bq stored_block ?t3 (Some B_try_dequeue)"]
    by (simp add: sample_bq_def granted_def)
  ultimately show ?thesis by simp
qed

theorem blocking_queue_asserts_hold_witness:
  "\<exists>z zs r q. rwq_abs 1 (inner granted) (z # zs) \<and> bq_take False B_try_dequeue (inner granted) = Inr (r, q)
     \<and> rwq_abs 1 q zs \<and> r = Some z"
proof -
  have "sent_small (sema granted)" "unbacked (sema granted) = 0" by (simp_all add: sent_small_def granted_sema)
  from blocking_queue_asserts_hold [OF sample_bq_init granted_reachable this, of B_try_dequeue]
  show ?thesis by (simp add: granted_sema)
qed

section \<open>What \<^verbatim>\<open>EINVAL\<close> does to the blocking queue\<close>

lemma bq_take_empty:
  assumes "rwq_abs m q []"
  shows "bq_take False (B_wait_dequeue_timed t) q = Inl Rw_assert"
    "\<exists>q'. bq_take True (B_wait_dequeue_timed t) q = Inr (None, q') \<and> rwq_abs m q' []"
proof -
  obtain ring xss k where R: "rwq_rep m False False q ring xss k" and zs: "concat xss = []"
    using assms by (auto simp: rwq_abs_def)
  have d: "\<exists>q'. try_dequeue ndebug q = Inr (None, q') \<and> rwq_abs m q' []" for ndebug
    using abs_outcome [OF try_dequeue_ok [OF R, unfolded zs], of ndebug] by (auto simp: front_of_def)
  show "bq_take False (B_wait_dequeue_timed t) q = Inl Rw_assert"
    using d [of False] by (auto simp: rw_assertion_def)
  show "\<exists>q'. bq_take True (B_wait_dequeue_timed t) q = Inr (None, q') \<and> rwq_abs m q' []"
    using d [of True] by (auto simp: rw_assertion_def)
qed

text \<open>
  C16: \<^verbatim>\<open>wait_dequeue_timed\<close> on an empty queue can fail its assertion. In every execution, whenever
  the queue is empty and neither thread is in a call, \<^verbatim>\<open>wait_dequeue_timed\<close> with a timeout that
  makes up a full second of nanoseconds with the time of the clock can be let through by the
  semaphore without an element: the assertion fails, and in a build with \<^verbatim>\<open>NDEBUG\<close> the call
  returns true and has written no element.
\<close>

theorem wait_dequeue_timed_can_fail:
  fixes now :: timespec
  assumes init: "bq_init ndebug p maxSize s0" and run: "(bq_step (2 ^ p) ndebug)\<^sup>*\<^sup>* s0 s"
    and small: "sent_small (sema s)" and first: "unbacked (sema s) = 0"
    and s: "rwq_abs (unat maxSize) (inner s) []" "sig (sema s) = S_idle" "dequeuing_call s = None"
    and now: "0 \<le> tv_nsec now" "tv_nsec now < 1000000000" and t: "0 \<le> t" "t < 2 ^ 63"
    and full: "tv_nsec now + t mod 1000000 * 1000 = 1000000000"
  shows "\<exists>s'. (bq_step (2 ^ p) ndebug)\<^sup>*\<^sup>* s s' \<and> dequeuing_call s' = Some (B_wait_dequeue_timed t)
    \<and> wai (sema s') = W_done True \<and> bq_take False (B_wait_dequeue_timed t) (inner s') = Inl Rw_assert
    \<and> (\<exists>q. bq_take True (B_wait_dequeue_timed t) (inner s') = Inr (None, q))"
proof -
  have I: "bq_inv (unat maxSize) s" using bq.inv_run [OF init run small] first by auto
  then have w: "wai (sema s) = W_idle" and S: "sema_inv (sema s)" using s(3) by (auto simp: bq_inv_def)
  obtain zs where zs: "rwq_abs (unat maxSize) (inner s) zs" "int (length zs) = tokens (sema s)"
    using I s(2) w by (auto simp: bq_inv_def)
  obtain freed freed' where "delete_rwq (inner s) = Some (Inr (zs, freed))"
    "delete_rwq (inner s) = Some (Inr ([], freed'))"
    using end_of_life(2) [OF zs(1)] end_of_life(2) [OF s(1)] by blast
  then have "zs = []" by simp
  then have c: "m_count (lw (sema s)) \<le> 0" using zs(2) S w by (simp add: sema_inv_def)
  let ?s1 = "s\<lparr>dequeuing_call := Some (B_wait_dequeue_timed t)\<rparr>"
  let ?t1 = "(sema s)\<lparr>wai := W_try t\<rparr>"
  have "bq_step (2 ^ p) ndebug s (?s1\<lparr>sema := ?t1\<rparr>)"
    using bq_step.bq_dequeue [OF s(3), of "2 ^ p" ndebug "B_wait_dequeue_timed t"] by simp
  moreover have "(sema_run ndebug)\<^sup>*\<^sup>* ?t1 (einval_state (sema s))"
    using try_blocks [OF c, of ndebug t] einval_timed_step [OF full_second_invalid [OF now t full], of ndebug "sema s"] t(1)
    by (simp add: rtranclp.rtrancl_into_rtrancl)
  then have "(bq_step (2 ^ p) ndebug)\<^sup>*\<^sup>* (?s1\<lparr>sema := ?t1\<rparr>) (?s1\<lparr>sema := einval_state (sema s)\<rparr>)"
    by (rule bq_sema_runs)
  ultimately have "(bq_step (2 ^ p) ndebug)\<^sup>*\<^sup>* s (?s1\<lparr>sema := einval_state (sema s)\<rparr>)"
    by (rule converse_rtranclp_into_rtranclp)
  then show ?thesis
    using bq_take_empty [OF s(1), of t]
    by (intro exI [of _ "?s1\<lparr>sema := einval_state (sema s)\<rparr>"]) (auto simp: einval_state_def)
qed

theorem wait_dequeue_timed_can_fail_witness:
  "\<exists>s'. (bq_step (2 ^ 1) False)\<^sup>*\<^sup>* (sample_bq sample_block sample_sema None) s' \<and> wai (sema s') = W_done True
    \<and> bq_take False (B_wait_dequeue_timed 1000) (inner s') = Inl Rw_assert"
proof -
  let ?s = "sample_bq sample_block sample_sema None"
  have s: "sent_small (sema ?s)" "unbacked (sema ?s) = 0" "sig (sema ?s) = S_idle" "dequeuing_call ?s = None"
    by (simp_all add: sample_bq_def sample_sema_def sent_small_def)
  have e: "rwq_abs (unat (1 :: u64)) (inner ?s) []"
    using bq_init_inv [OF sample_bq_init] by (auto simp: bq_inv_def sample_bq_def sample_sema_def tokens_def)
  show ?thesis
    using wait_dequeue_timed_can_fail [OF sample_bq_init rtranclp.rtrancl_refl s(1,2) e s(3,4), of sample_clock 1000]
    by (simp add: sample_clock_def) blast
qed

end
