(* ===== verification/Router.thy ===== *)
theory Router
  imports Prelude
begin

text \<open>
  The draft of the network router (\<^verbatim>\<open>lib/router/Broker.cpp\<close>, \<^verbatim>\<open>lib/router/Node.h\<close>): its
  data and the operations that have a body. What they call without a definition anywhere in the
  sources is a parameter: the predicate \<^verbatim>\<open>routes_to\<close>, the kind of a stream, \<^verbatim>\<open>clear_parent\<close>, and
  the insertion into the map of neighbours. A call on another node is an entry of a log.
\<close>

type_synonym NodeID = u32
type_synonym RStreamID = u32
type_synonym SubID = u32

datatype NeighbourKind = SELF | CHILD | PARENT | SIBLING

text \<open>\<open>'n\<close>: the address of a node; \<open>'d\<close>: a stream description; \<open>'h\<close>: an event handler.\<close>

record 'n Neighbour =
  nb_id :: NodeID
  nb_kind :: NeighbourKind
  nb_node :: 'n

record ('n, 'd, 'h) RStream =
  rs_src :: "'n Neighbour"
  rs_sub_id :: SubID
  rs_local_subscribers :: "'h list"
  rs_remote_subscribers :: "'n list"
  rs_stream_desc :: 'd
  rs_name :: string

record ('f, 'h) LocalSubscription =
  ls_filter :: 'f
  ls_handler :: 'h

text \<open>The maps of \<^verbatim>\<open>PImpl\<close>, in the order of their keys.\<close>

record ('n, 'd, 'h) RPImpl =
  my_id :: NodeID
  streams :: "(RStreamID \<times> ('n, 'd, 'h) RStream) list"
  neighbours :: "(NodeID \<times> 'n Neighbour) list"

datatype ('n, 'd) node_call =
  Advertise_remote_stream 'n NodeID RStreamID string 'd

definition new_router :: "NodeID \<Rightarrow> ('n, 'd, 'h) RPImpl" where
  "new_router nid = \<lparr>my_id = nid, streams = [], neighbours = []\<rparr>"

fun advertise_streams ::
    "(NeighbourKind \<Rightarrow> NeighbourKind \<Rightarrow> bool) \<Rightarrow> (('n, 'd, 'h) RStream \<Rightarrow> NeighbourKind) \<Rightarrow> NodeID \<Rightarrow>
     'n Neighbour \<Rightarrow> (RStreamID \<times> ('n, 'd, 'h) RStream) list \<Rightarrow> ('n, 'd) node_call list" where
  "advertise_streams routes_to kind me n [] = []"
| "advertise_streams routes_to kind me n ((sid, s) # ps) =
     (if routes_to (kind s) (nb_kind n)
      then [Advertise_remote_stream (nb_node n) me sid (rs_name s) (rs_stream_desc s)] else [])
     @ advertise_streams routes_to kind me n ps"

definition add_neighbour ::
    "(NeighbourKind \<Rightarrow> NeighbourKind \<Rightarrow> bool) \<Rightarrow> (('n, 'd, 'h) RStream \<Rightarrow> NeighbourKind) \<Rightarrow>
     ((NodeID \<times> 'n Neighbour) list \<Rightarrow> 'n Neighbour \<Rightarrow> (NodeID \<times> 'n Neighbour) list) \<Rightarrow>
     'n Neighbour \<Rightarrow> ('n, 'd, 'h) RPImpl \<Rightarrow> ('n, 'd) node_call list \<times> ('n, 'd, 'h) RPImpl" where
  "add_neighbour routes_to kind emplace n r =
     (advertise_streams routes_to kind (my_id r) n (streams r),
      r\<lparr>neighbours := emplace (neighbours r) n\<rparr>)"

definition set_parent ::
    "(NeighbourKind \<Rightarrow> NeighbourKind \<Rightarrow> bool) \<Rightarrow> (('n, 'd, 'h) RStream \<Rightarrow> NeighbourKind) \<Rightarrow>
     ((NodeID \<times> 'n Neighbour) list \<Rightarrow> 'n Neighbour \<Rightarrow> (NodeID \<times> 'n Neighbour) list) \<Rightarrow>
     (('n, 'd, 'h) RPImpl \<Rightarrow> ('n, 'd) node_call list \<times> ('n, 'd, 'h) RPImpl) \<Rightarrow>
     NodeID \<Rightarrow> 'n \<Rightarrow> ('n, 'd, 'h) RPImpl \<Rightarrow> ('n, 'd) node_call list \<times> ('n, 'd, 'h) RPImpl" where
  "set_parent routes_to kind emplace clear_parent nid node r =
     (let (calls, r1) = clear_parent r;
          (calls', r2) = add_neighbour routes_to kind emplace
            \<lparr>nb_id = nid, nb_kind = PARENT, nb_node = node\<rparr> r1
      in (calls @ calls', r2))"

text \<open>The streams that a new neighbour is told of, in the order of their ids.\<close>

lemma advertise_streams_eq:
  "advertise_streams routes_to kind me n ps =
     map (\<lambda>(sid, s). Advertise_remote_stream (nb_node n) me sid (rs_name s) (rs_stream_desc s))
       (filter (\<lambda>(sid, s). routes_to (kind s) (nb_kind n)) ps)"
  by (induction ps) auto

text \<open>Every stream that routes to the neighbour is advertised to it, once, and to it only.\<close>

lemma add_neighbour_advertises:
  assumes "distinct (map fst (streams r))" "add_neighbour routes_to kind emplace n r = (calls, r')"
  shows "distinct calls" "streams r' = streams r"
    "set calls = {Advertise_remote_stream (nb_node n) (my_id r) sid (rs_name s) (rs_stream_desc s) | sid s.
       (sid, s) \<in> set (streams r) \<and> routes_to (kind s) (nb_kind n)}"
proof -
  have calls: "calls = advertise_streams routes_to kind (my_id r) n (streams r)"
    and "r' = r\<lparr>neighbours := emplace (neighbours r) n\<rparr>"
    using assms(2) by (auto simp: add_neighbour_def)
  then show "streams r' = streams r" by simp
  show "set calls = {Advertise_remote_stream (nb_node n) (my_id r) sid (rs_name s) (rs_stream_desc s) | sid s.
       (sid, s) \<in> set (streams r) \<and> routes_to (kind s) (nb_kind n)}"
    by (force simp: calls advertise_streams_eq)
  show "distinct calls"
    using distinct_map [THEN iffD1, OF assms(1)] eq_key_imp_eq_value [OF assms(1)]
    by (auto simp: calls advertise_streams_eq distinct_map inj_on_def)
qed

end
