(* ===== verification/Cq_Free_List.thy ===== *)
theory Cq_Free_List
  imports Prelude
begin

text \<open>
  The lock-free free list of \<^verbatim>\<open>concurrentqueue.h\<close> (\<^verbatim>\<open>FreeListNode\<close>, \<^verbatim>\<open>FreeList\<close>).
  \<^verbatim>\<open>add\<close>, \<^verbatim>\<open>try_get\<close> and \<^verbatim>\<open>add_knowing_refcount_is_zero\<close> are programs of one atomic access
  per step, run by any number of threads in any order; memory is sequentially consistent. Nodes
  are addressed by numbers and are never freed while the list is in use.
\<close>

unbundle bit_operations_syntax

section \<open>The list and its nodes\<close>

record node =
  freeListRefs :: u32
  freeListNext :: "nat option"

definition new_node :: node where
  "new_node = \<lparr>freeListRefs = 0, freeListNext = None\<rparr>"

record free_list =
  freeListHead :: "nat option"
  nodes :: "nat \<Rightarrow> node"

definition REFS_MASK :: u32 where
  "REFS_MASK = 0x7FFFFFFF"

definition SHOULD_BE_ON_FREELIST :: u32 where
  "SHOULD_BE_ON_FREELIST = 0x80000000"

abbreviation refs :: "free_list \<Rightarrow> nat \<Rightarrow> u32" where
  "refs f n \<equiv> freeListRefs (nodes f n)"

definition put_refs :: "nat \<Rightarrow> u32 \<Rightarrow> free_list \<Rightarrow> free_list" where
  "put_refs n r f = f\<lparr>nodes := (nodes f)(n := (nodes f n)\<lparr>freeListRefs := r\<rparr>)\<rparr>"

definition put_next :: "nat \<Rightarrow> nat option \<Rightarrow> free_list \<Rightarrow> free_list" where
  "put_next n h f = f\<lparr>nodes := (nodes f)(n := (nodes f n)\<lparr>freeListNext := h\<rparr>)\<rparr>"

text \<open>The move constructor takes the head and leaves the other list empty; \<^verbatim>\<open>swap\<close> exchanges the heads.\<close>

definition move_free_list :: "nat option \<Rightarrow> nat option \<times> nat option" where
  "move_free_list other = (other, None)"

definition head_unsafe :: "free_list \<Rightarrow> nat option" where
  "head_unsafe f = freeListHead f"

section \<open>Threads\<close>

text \<open>
  Where a thread is. \<open>K_\<close>: in \<^verbatim>\<open>add_knowing_refcount_is_zero\<close> on a node, with the local \<^verbatim>\<open>head\<close>
  and where it returns to: out of \<^verbatim>\<open>add\<close>, or into the loop of \<^verbatim>\<open>try_get\<close> with its own
  \<^verbatim>\<open>head\<close>. \<open>G_\<close>: in \<^verbatim>\<open>try_get\<close>, before the load of the head, the test of the loop, the load of
  the count, the increment, the load of \<^verbatim>\<open>next\<close>, the exchange of the head, then either the assertion and
  the double decrement, or the decrement and the next round.
\<close>

datatype ret = To_caller | To_loop "nat option"

datatype fl_pc =
    Idle
  | A_add nat
  | K_load nat ret | K_next nat "nat option" ret | K_ref nat "nat option" ret
  | K_cas nat "nat option" ret | K_undo nat "nat option" ret
  | G_load | G_test "nat option" | G_refs nat | G_inc nat u32 | G_next nat | G_cas nat "nat option"
  | G_assert nat | G_sub nat | G_dec nat "nat option"
  | G_ret "nat option"
  | Failed

fun return_to :: "ret \<Rightarrow> fl_pc" where
  "return_to To_caller = Idle"
| "return_to (To_loop h) = G_test h"

definition add_step :: "nat \<Rightarrow> free_list \<Rightarrow> fl_pc \<times> free_list" where
  "add_step n f =
     (if refs f n = 0 then K_load n To_caller else Idle,
      put_refs n (refs f n + SHOULD_BE_ON_FREELIST) f)"

fun add_knowing_refcount_is_zero_step :: "fl_pc \<Rightarrow> free_list \<Rightarrow> fl_pc \<times> free_list" where
  "add_knowing_refcount_is_zero_step (K_load n k) f = (K_next n (freeListHead f) k, f)"
| "add_knowing_refcount_is_zero_step (K_next n h k) f = (K_ref n h k, put_next n h f)"
| "add_knowing_refcount_is_zero_step (K_ref n h k) f = (K_cas n h k, put_refs n 1 f)"
| "add_knowing_refcount_is_zero_step (K_cas n h k) f =
     (if freeListHead f = h then (return_to k, f\<lparr>freeListHead := Some n\<rparr>)
      else (K_undo n (freeListHead f) k, f))"
| "add_knowing_refcount_is_zero_step (K_undo n h k) f =
     (if refs f n = 1 then K_next n h k else return_to k,
      put_refs n (refs f n + (SHOULD_BE_ON_FREELIST - 1)) f)"
| "add_knowing_refcount_is_zero_step p f = (p, f)"

fun try_get_step :: "bool \<Rightarrow> fl_pc \<Rightarrow> free_list \<Rightarrow> fl_pc \<times> free_list" where
  "try_get_step ndebug G_load f = (G_test (freeListHead f), f)"
| "try_get_step ndebug (G_test None) f = (G_ret None, f)"
| "try_get_step ndebug (G_test (Some n)) f = (G_refs n, f)"
| "try_get_step ndebug (G_refs n) f =
     (if refs f n AND REFS_MASK = 0 then G_load else G_inc n (refs f n), f)"
| "try_get_step ndebug (G_inc n r) f =
     (if refs f n = r then (G_next n, put_refs n (r + 1) f) else (G_load, f))"
| "try_get_step ndebug (G_next n) f = (G_cas n (freeListNext (nodes f n)), f)"
| "try_get_step ndebug (G_cas n nx) f =
     (if freeListHead f = Some n then (G_assert n, f\<lparr>freeListHead := nx\<rparr>)
      else (G_dec n (freeListHead f), f))"
| "try_get_step ndebug (G_assert n) f =
     (if refs f n AND SHOULD_BE_ON_FREELIST = 0 \<or> ndebug then G_sub n else Failed, f)"
| "try_get_step ndebug (G_sub n) f = (G_ret (Some n), put_refs n (refs f n - 2) f)"
| "try_get_step ndebug (G_dec n h) f =
     (if refs f n = SHOULD_BE_ON_FREELIST + 1 then K_load n (To_loop h) else G_test h,
      put_refs n (refs f n - 1) f)"
| "try_get_step ndebug p f = (p, f)"

definition fl_step :: "bool \<Rightarrow> fl_pc \<Rightarrow> free_list \<Rightarrow> fl_pc \<times> free_list" where
  "fl_step ndebug p f =
     (case p of
        A_add n \<Rightarrow> add_step n f
      | K_load n k \<Rightarrow> add_knowing_refcount_is_zero_step p f
      | K_next n h k \<Rightarrow> add_knowing_refcount_is_zero_step p f
      | K_ref n h k \<Rightarrow> add_knowing_refcount_is_zero_step p f
      | K_cas n h k \<Rightarrow> add_knowing_refcount_is_zero_step p f
      | K_undo n h k \<Rightarrow> add_knowing_refcount_is_zero_step p f
      | _ \<Rightarrow> try_get_step ndebug p f)"

text \<open>
  The system: the list, the threads, and the nodes that the users of the list hold. A thread may
  add a node that it holds; a node that \<^verbatim>\<open>try_get\<close> returns is held from then on.
\<close>

record fl_sys =
  the_list :: free_list
  threads :: "fl_pc list"
  owned :: "nat set"

definition run_thread :: "bool \<Rightarrow> nat \<Rightarrow> fl_sys \<Rightarrow> fl_sys" where
  "run_thread ndebug i s =
     (let (p, f) = fl_step ndebug (threads s ! i) (the_list s) in
      s\<lparr>the_list := f, threads := (threads s)[i := p]\<rparr>)"

inductive fl_sys_step :: "bool \<Rightarrow> fl_sys \<Rightarrow> fl_sys \<Rightarrow> bool" for ndebug where
  Call_add: "i < length (threads s) \<Longrightarrow> threads s ! i = Idle \<Longrightarrow> n \<in> owned s \<Longrightarrow>
    fl_sys_step ndebug s (s\<lparr>threads := (threads s)[i := A_add n], owned := owned s - {n}\<rparr>)"
| Call_try_get: "i < length (threads s) \<Longrightarrow> threads s ! i = Idle \<Longrightarrow>
    fl_sys_step ndebug s (s\<lparr>threads := (threads s)[i := G_load]\<rparr>)"
| Run: "i < length (threads s) \<Longrightarrow> fl_sys_step ndebug s (run_thread ndebug i s)"
| Return: "i < length (threads s) \<Longrightarrow> threads s ! i = G_ret r \<Longrightarrow>
    fl_sys_step ndebug s (s\<lparr>threads := (threads s)[i := Idle], owned := owned s \<union> set_option r\<rparr>)"

inductive_cases fl_sys_stepE: "fl_sys_step ndebug s s'"

text \<open>At first the list is empty, no thread is in a call and the users hold every node.\<close>

definition fl_init :: "nat \<Rightarrow> fl_sys" where
  "fl_init k = \<lparr>the_list = \<lparr>freeListHead = None, nodes = \<lambda>_. new_node\<rparr>,
     threads = replicate k Idle, owned = UNIV\<rparr>"

section \<open>What a thread contributes to a node's count\<close>

text \<open>
  The references a thread holds on a node: its own, and after taking the node off the list also
  the list's one; while publishing a node, the one the list will have.
\<close>

fun weight :: "fl_pc \<Rightarrow> nat \<Rightarrow> nat" where
  "weight (K_cas n h k) m = of_bool (n = m)"
| "weight (K_undo n h k) m = of_bool (n = m)"
| "weight (G_next n) m = of_bool (n = m)"
| "weight (G_cas n nx) m = of_bool (n = m)"
| "weight (G_dec n h) m = of_bool (n = m)"
| "weight (G_assert n) m = 2 * of_bool (n = m)"
| "weight (G_sub n) m = 2 * of_bool (n = m)"
| "weight p m = 0"

text \<open>Whether the thread is the one that has the node in its hands.\<close>

fun hands :: "fl_pc \<Rightarrow> nat \<Rightarrow> nat" where
  "hands (A_add n) m = of_bool (n = m)"
| "hands (K_load n k) m = of_bool (n = m)"
| "hands (K_next n h k) m = of_bool (n = m)"
| "hands (K_ref n h k) m = of_bool (n = m)"
| "hands (K_cas n h k) m = of_bool (n = m)"
| "hands (K_undo n h k) m = of_bool (n = m)"
| "hands (G_assert n) m = of_bool (n = m)"
| "hands (G_sub n) m = of_bool (n = m)"
| "hands (G_ret (Some n)) m = of_bool (n = m)"
| "hands p m = 0"

text \<open>Whether the thread is about to publish the node, its count being zero and the flag set.\<close>

fun claims :: "fl_pc \<Rightarrow> nat \<Rightarrow> nat" where
  "claims (K_load n k) m = of_bool (n = m)"
| "claims (K_next n h k) m = of_bool (n = m)"
| "claims (K_ref n h k) m = of_bool (n = m)"
| "claims p m = 0"

definition total :: "(fl_pc \<Rightarrow> nat \<Rightarrow> nat) \<Rightarrow> fl_pc list \<Rightarrow> nat \<Rightarrow> nat" where
  "total c ts n = sum_list (map (\<lambda>p. c p n) ts)"

text \<open>What a thread knows of the links.\<close>

fun link_ok :: "(nat \<Rightarrow> nat option) \<Rightarrow> fl_pc \<Rightarrow> bool" where
  "link_ok nx (K_ref n h k) \<longleftrightarrow> nx n = h"
| "link_ok nx (K_cas n h k) \<longleftrightarrow> nx n = h"
| "link_ok nx (G_cas n h) \<longleftrightarrow> nx n = h"
| "link_ok nx (G_inc n r) \<longleftrightarrow> r AND REFS_MASK \<noteq> 0"
| "link_ok nx Failed \<longleftrightarrow> False"
| "link_ok nx p \<longleftrightarrow> True"

fun linked :: "(nat \<Rightarrow> nat option) \<Rightarrow> nat option \<Rightarrow> nat list \<Rightarrow> bool" where
  "linked nx p [] \<longleftrightarrow> p = None"
| "linked nx p (n # ns) \<longleftrightarrow> p = Some n \<and> linked nx (nx n) ns"

abbreviation nexts :: "free_list \<Rightarrow> nat \<Rightarrow> nat option" where
  "nexts f n \<equiv> freeListNext (nodes f n)"

text \<open>
  The invariant, for the list \<open>L\<close> and the set \<open>P\<close> of the nodes left to be added by the last
  thread that refers to them. Of a node: it is in exactly one place (with a user, on the list, left
  to be added, in the hands of a thread); its count is the sum of the references; the flag is
  set when it should be on the list but is not; a node about to be published has no
  references, and one left to be added has some.
\<close>

definition node_ok :: "bool \<Rightarrow> bool \<Rightarrow> bool \<Rightarrow> nat \<Rightarrow> nat \<Rightarrow> nat \<Rightarrow> u32 \<Rightarrow> bool" where
  "node_ok own on_list pending h w c r \<longleftrightarrow>
     of_bool own + of_bool on_list + of_bool pending + h = (1 :: nat) \<and>
     unat r = (if pending \<or> 0 < c then 2 ^ 31 else 0) + of_bool on_list + w \<and>
     (0 < c \<longrightarrow> w = 0) \<and> (pending \<longrightarrow> 0 < w)"

definition fl_inv :: "nat list \<Rightarrow> nat set \<Rightarrow> fl_sys \<Rightarrow> bool" where
  "fl_inv L P s \<longleftrightarrow>
     2 * length (threads s) + 2 < 2 ^ 31 \<and>
     linked (nexts (the_list s)) (freeListHead (the_list s)) L \<and> distinct L \<and>
     (\<forall>j<length (threads s). link_ok (nexts (the_list s)) (threads s ! j)) \<and>
     (\<forall>n. node_ok (n \<in> owned s) (n \<in> set L) (n \<in> P) (total hands (threads s) n)
        (total weight (threads s) n) (total claims (threads s) n) (refs (the_list s) n))"

section \<open>Counting\<close>

lemma total_split:
  assumes "i < length ts"
  obtains r where "total c ts n = r + c (ts ! i) n" and "total c (ts[i := p]) n = r + c p n"
proof -
  have "ts = take i ts @ ts ! i # drop (Suc i) ts" using assms by (simp add: id_take_nth_drop)
  then have "total c ts n = total c (take i ts @ ts ! i # drop (Suc i) ts) n" by simp
  moreover have "ts[i := p] = take i ts @ p # drop (Suc i) ts" using assms by (simp add: upd_conv_take_nth_drop)
  ultimately show thesis
    using that [of "total c (take i ts) n + total c (drop (Suc i) ts) n"] by (simp add: total_def)
qed

lemma total_two:
  assumes "i < length ts" and "j < length ts" and "i \<noteq> j"
  shows "c (ts ! i) n + c (ts ! j) n \<le> total c ts n"
proof -
  obtain r where r: "total c ts n = r + c (ts ! i) n" "total c (ts[i := ts ! j]) n = r + c (ts ! j) n"
    by (rule total_split [OF assms(1)])
  have "c (ts[i := ts ! j] ! i) n + c (ts[i := ts ! j] ! j) n \<le> total c (ts[i := ts ! j]) n"
  proof -
    let ?xs = "map (\<lambda>p. c p n) (ts[i := ts ! j])"
    have "sum (\<lambda>k. ?xs ! k) {i, j} \<le> sum (\<lambda>k. ?xs ! k) {0..<length ?xs}"
      by (rule sum_mono2) (use assms in auto)
    then show ?thesis using assms by (simp only: total_def sum_list_sum_nth) simp
  qed
  then show ?thesis using r assms by simp
qed

lemma total_one: "i < length ts \<Longrightarrow> c (ts ! i) n \<le> total c ts n"
  by (rule total_split [where c = c and n = n and p = "ts ! i"]) auto

lemma claims_le_hands: "claims p n \<le> hands p n"
  by (cases p) auto

lemma total_claims_le: "total claims ts n \<le> total hands ts n"
  by (induction ts) (simp_all add: total_def add_mono claims_le_hands)

lemma total_weight_le: "total weight ts n \<le> 2 * length ts"
proof (induction ts)
  case (Cons p ts)
  moreover have "weight p n \<le> 2" by (cases p) auto
  ultimately show ?case by (simp add: total_def)
qed (simp add: total_def)

section \<open>Counts as words\<close>

lemma unat_flag: "unat SHOULD_BE_ON_FREELIST = 2 ^ 31" "unat (SHOULD_BE_ON_FREELIST - 1) = 2 ^ 31 - 1"
  by (simp_all add: SHOULD_BE_ON_FREELIST_def)

lemma unat_add_u32: "unat r + unat (x :: u32) < 2 ^ 32 \<Longrightarrow> unat (r + x) = unat r + unat x"
  by (simp add: unat_word_ariths)

lemma unat_sub_u32: "unat (x :: u32) \<le> unat r \<Longrightarrow> unat (r - x) = unat r - unat x"
  by (simp add: unat_sub_if')

lemma refs_mask: "r AND REFS_MASK = 0 \<longleftrightarrow> unat r mod 2 ^ 31 = 0"
proof -
  have "REFS_MASK = mask 31" by (simp add: REFS_MASK_def mask_eq_exp_minus_1)
  then have "r AND REFS_MASK = take_bit 31 r" by (simp add: take_bit_eq_mask)
  moreover have "take_bit 31 r = 0 \<longleftrightarrow> unat (take_bit 31 r) = 0" by (simp add: unat_eq_zero)
  moreover have "unat (take_bit 31 r) = unat r mod 2 ^ 31"
    by (metis unsigned_take_bit_eq take_bit_eq_mod)
  ultimately show ?thesis by simp
qed

lemma refs_flag: "r AND SHOULD_BE_ON_FREELIST = 0 \<longleftrightarrow> unat r < 2 ^ 31"
proof -
  have flag: "SHOULD_BE_ON_FREELIST = 2 ^ 31" by (simp add: SHOULD_BE_ON_FREELIST_def)
  have "bit SHOULD_BE_ON_FREELIST k \<longleftrightarrow> k = 31" for k
    unfolding flag bit_exp_iff by (auto simp: possible_bit_def)
  then have bits: "bit (r AND SHOULD_BE_ON_FREELIST) k \<longleftrightarrow> k = 31 \<and> bit r 31" for k
    by (auto simp only: bit_and_iff)
  have "r AND SHOULD_BE_ON_FREELIST = 0" if "\<not> bit r 31"
    by (rule bit_word_eqI) (use that in \<open>simp only: bits bit_0\<close>, simp)
  moreover have "\<not> bit r 31" if "r AND SHOULD_BE_ON_FREELIST = 0"
    using bits [of 31] unfolding that by simp
  ultimately have "r AND SHOULD_BE_ON_FREELIST = 0 \<longleftrightarrow> \<not> bit r 31" by blast
  also have "\<dots> \<longleftrightarrow> \<not> bit (unat r) 31" by (simp add: bit_unsigned_iff)
  also have "\<dots> \<longleftrightarrow> even (unat r div 2 ^ 31)" by (simp add: bit_iff_odd)
  also have "\<dots> \<longleftrightarrow> unat r < 2 ^ 31"
  proof -
    have "unat r < 2 ^ LENGTH(32)" by (rule unsigned_less)
    then have "unat r div 2 ^ 31 < 2" by (simp add: less_mult_imp_div_less)
    then have "even (unat r div 2 ^ 31) \<longleftrightarrow> unat r div 2 ^ 31 = 0"
      by (cases "unat r div 2 ^ 31") auto
    then show ?thesis by (simp add: div_eq_0_iff)
  qed
  finally show ?thesis .
qed

section \<open>One step\<close>

text \<open>
  A step of thread \<open>i\<close> that touches node \<open>n\<close> only: what is left to show is the shape of the list and
  the condition of that node, the other threads contributing fixed amounts.
\<close>

lemma fl_inv_change:
  assumes inv: "fl_inv L P s" and i: "i < length (threads s)" and p: "threads s ! i = p"
    and shape: "linked (nexts f') (freeListHead f') L'" "distinct L'"
    and ok: "link_ok (nexts f') p'"
    and others: "\<And>j. j < length (threads s) \<Longrightarrow> j \<noteq> i \<Longrightarrow> link_ok (nexts (the_list s)) (threads s ! j) \<Longrightarrow>
      link_ok (nexts f') (threads s ! j)"
    and frame: "\<And>m. m \<noteq> n \<Longrightarrow> (m \<in> O' \<longleftrightarrow> m \<in> owned s) \<and> (m \<in> set L' \<longleftrightarrow> m \<in> set L) \<and> (m \<in> P' \<longleftrightarrow> m \<in> P) \<and>
      refs f' m = refs (the_list s) m \<and> hands p' m = hands p m \<and> weight p' m = weight p m \<and> claims p' m = claims p m"
    and here: "\<And>h w c. c \<le> h \<Longrightarrow> w + weight p n < 2 ^ 31 - 2 \<Longrightarrow>
      node_ok (n \<in> owned s) (n \<in> set L) (n \<in> P) (h + hands p n) (w + weight p n) (c + claims p n) (refs (the_list s) n) \<Longrightarrow>
      node_ok (n \<in> O') (n \<in> set L') (n \<in> P') (h + hands p' n) (w + weight p' n) (c + claims p' n) (refs f' n)"
  shows "fl_inv L' P' (s\<lparr>the_list := f', threads := (threads s)[i := p'], owned := O'\<rparr>)"
proof -
  have node: "node_ok (m \<in> O') (m \<in> set L') (m \<in> P') (total hands ((threads s)[i := p']) m)
      (total weight ((threads s)[i := p']) m) (total claims ((threads s)[i := p']) m) (refs f' m)" for m
  proof -
    obtain h where h: "total hands (threads s) m = h + hands p m" "total hands ((threads s)[i := p']) m = h + hands p' m"
      using total_split [OF i, where c = hands and n = m and p = p'] p by metis
    obtain w where w: "total weight (threads s) m = w + weight p m" "total weight ((threads s)[i := p']) m = w + weight p' m"
      using total_split [OF i, where c = weight and n = m and p = p'] p by metis
    obtain c where c: "total claims (threads s) m = c + claims p m" "total claims ((threads s)[i := p']) m = c + claims p' m"
      using total_split [OF i, where c = claims and n = m and p = p'] p by metis
    have "c \<le> h"
    proof -
      have "total claims ((threads s)[i := Idle]) m \<le> total hands ((threads s)[i := Idle]) m" by (rule total_claims_le)
      then show ?thesis
        using total_split [OF i, where c = hands and n = m and p = Idle] total_split [OF i, where c = claims and n = m and p = Idle] h(1) c(1) p
        by (metis add.right_neutral add_right_cancel claims.simps(4) hands.simps(10))
    qed
    have wl: "w + weight p m < 2 ^ 31 - 2"
      using total_weight_le [where ts = "threads s" and n = m] w(1) inv by (simp add: fl_inv_def)
    have nk: "node_ok (m \<in> owned s) (m \<in> set L) (m \<in> P) (h + hands p m) (w + weight p m) (c + claims p m) (refs (the_list s) m)"
      unfolding h(1) [symmetric] w(1) [symmetric] c(1) [symmetric] using inv by (simp add: fl_inv_def)
    show ?thesis
    proof (cases "m = n")
      case True
      then show ?thesis using here [of c h w] \<open>c \<le> h\<close> wl nk h(2) w(2) c(2) by simp
    next
      case False
      then show ?thesis using frame [of m] nk h(2) w(2) c(2) by simp
    qed
  qed
  have "link_ok (nexts f') ((threads s)[i := p'] ! j)" if "j < length (threads s)" for j
    using that others [of j] ok inv by (cases "j = i") (auto simp: fl_inv_def)
  then show ?thesis using inv shape node by (simp add: fl_inv_def)
qed


lemma put_refs_simps [simp]:
  "refs (put_refs n r f) m = (if m = n then r else refs f m)"
  "nexts (put_refs n r f) = nexts f" "nexts (put_refs n r f) m = nexts f m"
  "freeListHead (put_refs n r f) = freeListHead f"
  by (auto simp: put_refs_def)

lemma put_next_simps [simp]:
  "refs (put_next n h f) m = refs f m"
  "nexts (put_next n h f) = (nexts f)(n := h)" "nexts (put_next n h f) m = ((nexts f)(n := h)) m"
  "freeListHead (put_next n h f) = freeListHead f"
  by (auto simp: put_next_def)

lemma linked_frame:
  "n \<notin> set L \<Longrightarrow> linked (nx(n := h)) p L \<longleftrightarrow> linked nx p L"
  "n \<notin> set L \<Longrightarrow> linked (\<lambda>m. if m = n then h else nx m) p L \<longleftrightarrow> linked nx p L"
  by (induction L arbitrary: p) auto

text \<open>A step that changes the list's head only, or nothing: the node keeps its count.\<close>

lemma run_threadI:
  assumes "fl_step ndebug (threads s ! i) (the_list s) = (p', f')"
    and "fl_inv L' P' (s\<lparr>the_list := f', threads := (threads s)[i := p'], owned := owned s\<rparr>)"
  shows "\<exists>L P. fl_inv L P (run_thread ndebug i s)"
  using assms by (auto simp: run_thread_def)

lemmas fl_inv_shape = fl_inv_def [THEN iffD1, THEN conjunct2, THEN conjunct1]
  fl_inv_def [THEN iffD1, THEN conjunct2, THEN conjunct2, THEN conjunct1]

lemma fl_inv_link: "fl_inv L P s \<Longrightarrow> j < length (threads s) \<Longrightarrow> link_ok (nexts (the_list s)) (threads s ! j)"
  by (simp add: fl_inv_def)

lemma fl_inv_node: "fl_inv L P s \<Longrightarrow>
  node_ok (n \<in> owned s) (n \<in> set L) (n \<in> P) (total hands (threads s) n)
    (total weight (threads s) n) (total claims (threads s) n) (refs (the_list s) n)"
  by (simp add: fl_inv_def)

lemma fl_inv_hands: "fl_inv L P s \<Longrightarrow> i < length (threads s) \<Longrightarrow> 0 < hands (threads s ! i) n \<Longrightarrow>
    n \<notin> set L \<and> n \<notin> P \<and> n \<notin> owned s"
  using fl_inv_node [of L P s n] total_one [of i "threads s" hands n]
  by (auto simp: node_ok_def)

lemma quiet_step:
  assumes "fl_inv L P s" and "i < length (threads s)" and "threads s ! i = p"
    and "\<And>m. hands p' m = hands p m" and "\<And>m. weight p' m = weight p m" and "\<And>m. claims p' m = claims p m"
    and "link_ok (nexts (the_list s)) p'"
  shows "fl_inv L P (s\<lparr>the_list := the_list s, threads := (threads s)[i := p'], owned := owned s\<rparr>)"
  by (rule fl_inv_change [OF assms(1,2,3)]) (use assms fl_inv_shape [OF assms(1)] in auto)

lemma step_A_add:
  assumes inv: "fl_inv L P s" and i: "i < length (threads s)" and p: "threads s ! i = A_add n"
  shows "\<exists>L P. fl_inv L P (run_thread ndebug i s)"
proof (cases "refs (the_list s) n = 0")
  case True
  let ?f = "put_refs n SHOULD_BE_ON_FREELIST (the_list s)"
  have "fl_inv L P (s\<lparr>the_list := ?f, threads := (threads s)[i := K_load n To_caller], owned := owned s\<rparr>)"
    by (rule fl_inv_change [OF inv i p, where n = n])
      (use fl_inv_shape [OF inv] True in \<open>auto simp: node_ok_def unat_flag split: if_splits\<close>)
  then show ?thesis by (rule run_threadI [rotated]) (simp add: p fl_step_def add_step_def True)
next
  case False
  let ?f = "put_refs n (refs (the_list s) n + SHOULD_BE_ON_FREELIST) (the_list s)"
  have "0 < unat (refs (the_list s) n)" using False by (simp add: unat_gt_0)
  then have "fl_inv L (insert n P) (s\<lparr>the_list := ?f, threads := (threads s)[i := Idle], owned := owned s\<rparr>)"
    by (intro fl_inv_change [OF inv i p, where n = n])
      (use fl_inv_shape [OF inv] in \<open>auto simp: node_ok_def unat_add_u32 unat_flag split: if_splits\<close>)
  then show ?thesis by (rule run_threadI [rotated]) (simp add: p fl_step_def add_step_def False)
qed


lemma return_to_simps [simp]:
  "hands (return_to k) = (\<lambda>m. 0)" "weight (return_to k) = (\<lambda>m. 0)" "claims (return_to k) = (\<lambda>m. 0)"
  "link_ok nx (return_to k)"
  by (cases k; auto)+

lemma step_K_next:
  assumes inv: "fl_inv L P s" and i: "i < length (threads s)" and p: "threads s ! i = K_next n h k"
  shows "\<exists>L P. fl_inv L P (run_thread ndebug i s)"
proof -
  let ?f = "put_next n h (the_list s)"
  have n: "n \<notin> set L" using fl_inv_hands [OF inv i, of n] p by simp
  have others: "link_ok (nexts ?f) (threads s ! j)"
    if j: "j < length (threads s)" "j \<noteq> i" and ok: "link_ok (nexts (the_list s)) (threads s ! j)" for j
  proof -
    have "hands (threads s ! j) n = 0"
      using total_two [OF i j(1), of hands n] fl_inv_node [OF inv, of n] j p by (auto simp: node_ok_def)
    moreover have "weight (threads s ! j) n = 0"
      using total_one [OF i, of claims n] total_one [OF j(1), of weight n] fl_inv_node [OF inv, of n] p
      by (auto simp: node_ok_def)
    ultimately show ?thesis using ok by (cases "threads s ! j") auto
  qed
  have "fl_inv L P (s\<lparr>the_list := ?f, threads := (threads s)[i := K_ref n h k], owned := owned s\<rparr>)"
    by (rule fl_inv_change [OF inv i p, where n = n])
      (use fl_inv_shape [OF inv] n others in \<open>simp_all add: linked_frame\<close>)
  then show ?thesis by (rule run_threadI [rotated]) (simp add: p fl_step_def)
qed

lemma step_K_ref:
  assumes inv: "fl_inv L P s" and i: "i < length (threads s)" and p: "threads s ! i = K_ref n h k"
  shows "\<exists>L P. fl_inv L P (run_thread ndebug i s)"
proof -
  have "fl_inv L P (s\<lparr>the_list := put_refs n 1 (the_list s), threads := (threads s)[i := K_cas n h k], owned := owned s\<rparr>)"
    by (rule fl_inv_change [OF inv i p, where n = n])
      (use fl_inv_shape [OF inv] fl_inv_link [OF inv i] p in \<open>auto simp: node_ok_def split: if_splits\<close>)
  then show ?thesis by (rule run_threadI [rotated]) (simp add: p fl_step_def)
qed

lemma step_K_cas:
  assumes inv: "fl_inv L P s" and i: "i < length (threads s)" and p: "threads s ! i = K_cas n h k"
  shows "\<exists>L P. fl_inv L P (run_thread ndebug i s)"
proof (cases "freeListHead (the_list s) = h")
  case True
  let ?f = "(the_list s)\<lparr>freeListHead := Some n\<rparr>"
  have "n \<notin> set L" using fl_inv_hands [OF inv i, of n] p by simp
  moreover have "nexts (the_list s) n = h" using fl_inv_link [OF inv i] p by simp
  ultimately have "fl_inv (n # L) P (s\<lparr>the_list := ?f, threads := (threads s)[i := return_to k], owned := owned s\<rparr>)"
    by (intro fl_inv_change [OF inv i p, where n = n])
      (use fl_inv_shape [OF inv] True in \<open>auto simp: node_ok_def split: if_splits\<close>)
  then show ?thesis by (rule run_threadI [rotated]) (simp add: p fl_step_def True)
next
  case False
  let ?p = "K_undo n (freeListHead (the_list s)) k"
  have "fl_inv L P (s\<lparr>the_list := the_list s, threads := (threads s)[i := ?p], owned := owned s\<rparr>)"
    by (rule quiet_step [OF inv i p]) auto
  then show ?thesis by (rule run_threadI [rotated]) (simp add: p fl_step_def False)
qed

lemma step_K_undo:
  assumes inv: "fl_inv L P s" and i: "i < length (threads s)" and p: "threads s ! i = K_undo n h k"
  shows "\<exists>L P. fl_inv L P (run_thread ndebug i s)"
proof (cases "refs (the_list s) n = 1")
  case True
  let ?f = "put_refs n SHOULD_BE_ON_FREELIST (the_list s)"
  have "fl_inv L P (s\<lparr>the_list := ?f, threads := (threads s)[i := K_next n h k], owned := owned s\<rparr>)"
    by (rule fl_inv_change [OF inv i p, where n = n])
      (use fl_inv_shape [OF inv] True in \<open>auto simp: node_ok_def unat_flag split: if_splits\<close>)
  then show ?thesis by (rule run_threadI [rotated]) (simp add: p fl_step_def True)
next
  case False
  let ?f = "put_refs n (refs (the_list s) n + (SHOULD_BE_ON_FREELIST - 1)) (the_list s)"
  have "unat (refs (the_list s) n) \<noteq> 1"
    using False by (metis unat_1 word_unat_eq_iff)
  then have "fl_inv L (insert n P) (s\<lparr>the_list := ?f, threads := (threads s)[i := return_to k], owned := owned s\<rparr>)"
    by (intro fl_inv_change [OF inv i p, where n = n])
      (use fl_inv_shape [OF inv] in \<open>auto simp: node_ok_def unat_add_u32 unat_flag split: if_splits\<close>)
  then show ?thesis by (rule run_threadI [rotated]) (simp add: p fl_step_def False)
qed

lemma step_G_inc:
  assumes inv: "fl_inv L P s" and i: "i < length (threads s)" and p: "threads s ! i = G_inc n r"
  shows "\<exists>L P. fl_inv L P (run_thread ndebug i s)"
proof (cases "refs (the_list s) n = r")
  case True
  let ?f = "put_refs n (r + 1) (the_list s)"
  have "unat r mod 2 ^ 31 \<noteq> 0" using fl_inv_link [OF inv i] p by (simp add: refs_mask)
  then have "fl_inv L P (s\<lparr>the_list := ?f, threads := (threads s)[i := G_next n], owned := owned s\<rparr>)"
    by (intro fl_inv_change [OF inv i p, where n = n])
      (use fl_inv_shape [OF inv] True in \<open>auto simp: node_ok_def unat_add_u32 split: if_splits\<close>)
  then show ?thesis by (rule run_threadI [rotated]) (simp add: p fl_step_def True)
next
  case False
  have "fl_inv L P (s\<lparr>the_list := the_list s, threads := (threads s)[i := G_load], owned := owned s\<rparr>)"
    by (rule quiet_step [OF inv i p]) auto
  then show ?thesis by (rule run_threadI [rotated]) (simp add: p fl_step_def False)
qed

lemma step_G_cas:
  assumes inv: "fl_inv L P s" and i: "i < length (threads s)" and p: "threads s ! i = G_cas n nx"
  shows "\<exists>L P. fl_inv L P (run_thread ndebug i s)"
proof (cases "freeListHead (the_list s) = Some n")
  case True
  let ?f = "(the_list s)\<lparr>freeListHead := nx\<rparr>"
  obtain L' where L': "L = n # L'" using fl_inv_shape(1) [OF inv] True by (cases L) auto
  moreover have "nexts (the_list s) n = nx" using fl_inv_link [OF inv i] p by simp
  ultimately have "fl_inv L' P (s\<lparr>the_list := ?f, threads := (threads s)[i := G_assert n], owned := owned s\<rparr>)"
    by (intro fl_inv_change [OF inv i p, where n = n])
      (use fl_inv_shape [OF inv] in \<open>auto simp: node_ok_def split: if_splits\<close>)
  then show ?thesis by (rule run_threadI [rotated]) (simp add: p fl_step_def True)
next
  case False
  let ?p = "G_dec n (freeListHead (the_list s))"
  have "fl_inv L P (s\<lparr>the_list := the_list s, threads := (threads s)[i := ?p], owned := owned s\<rparr>)"
    by (rule quiet_step [OF inv i p]) auto
  then show ?thesis by (rule run_threadI [rotated]) (simp add: p fl_step_def False)
qed

lemma step_G_sub:
  assumes inv: "fl_inv L P s" and i: "i < length (threads s)" and p: "threads s ! i = G_sub n"
  shows "\<exists>L P. fl_inv L P (run_thread ndebug i s)"
proof -
  let ?f = "put_refs n (refs (the_list s) n - 2) (the_list s)"
  have "fl_inv L P (s\<lparr>the_list := ?f, threads := (threads s)[i := G_ret (Some n)], owned := owned s\<rparr>)"
    by (rule fl_inv_change [OF inv i p, where n = n])
      (use fl_inv_shape [OF inv] in \<open>auto simp: node_ok_def unat_sub_u32 split: if_splits\<close>)
  then show ?thesis by (rule run_threadI [rotated]) (simp add: p fl_step_def)
qed

text \<open>A node in the hands of a thread that has taken it off the list does not have the flag set.\<close>

lemma taken_unflagged:
  assumes "fl_inv L P s" and "i < length (threads s)" and "threads s ! i = G_assert n"
  shows "refs (the_list s) n AND SHOULD_BE_ON_FREELIST = 0"
proof -
  have h: "0 < total hands (threads s) n" and w: "0 < total weight (threads s) n"
    using total_one [OF assms(2), of hands n] total_one [OF assms(2), of weight n] assms(3) by auto
  have l: "total weight (threads s) n + 2 < 2 ^ 31"
    using total_weight_le [where ts = "threads s" and n = n] assms(1) by (simp add: fl_inv_def)
  have nk: "node_ok (n \<in> owned s) (n \<in> set L) (n \<in> P) (total hands (threads s) n)
    (total weight (threads s) n) (total claims (threads s) n) (refs (the_list s) n)"
    by (rule fl_inv_node [OF assms(1)])
  have "total claims (threads s) n = 0" using nk w unfolding node_ok_def by linarith
  moreover have "n \<notin> P" "n \<notin> set L" using nk h unfolding node_ok_def by auto
  ultimately have "unat (refs (the_list s) n) = total weight (threads s) n"
    using nk unfolding node_ok_def by simp
  then show ?thesis using l by (simp add: refs_flag)
qed

lemma step_G_dec:
  assumes inv: "fl_inv L P s" and i: "i < length (threads s)" and p: "threads s ! i = G_dec n h"
  shows "\<exists>L P. fl_inv L P (run_thread ndebug i s)"
proof (cases "refs (the_list s) n = SHOULD_BE_ON_FREELIST + 1")
  case True
  let ?f = "put_refs n SHOULD_BE_ON_FREELIST (the_list s)"
  have "unat (SHOULD_BE_ON_FREELIST + 1) = 2 ^ 31 + 1" by (simp add: SHOULD_BE_ON_FREELIST_def)
  then have "fl_inv L (P - {n}) (s\<lparr>the_list := ?f, threads := (threads s)[i := K_load n (To_loop h)], owned := owned s\<rparr>)"
    by (intro fl_inv_change [OF inv i p, where n = n])
      (use fl_inv_shape [OF inv] True in \<open>auto simp: node_ok_def unat_flag split: if_splits\<close>)
  then show ?thesis by (rule run_threadI [rotated]) (simp add: p fl_step_def True)
next
  case False
  let ?f = "put_refs n (refs (the_list s) n - 1) (the_list s)"
  have "unat (SHOULD_BE_ON_FREELIST + 1) = 2 ^ 31 + 1" by (simp add: SHOULD_BE_ON_FREELIST_def)
  then have "unat (refs (the_list s) n) \<noteq> 2 ^ 31 + 1" using False by (metis word_unat_eq_iff)
  then have "fl_inv L P (s\<lparr>the_list := ?f, threads := (threads s)[i := G_test h], owned := owned s\<rparr>)"
    by (intro fl_inv_change [OF inv i p, where n = n])
      (use fl_inv_shape [OF inv] in \<open>auto simp: node_ok_def unat_sub_u32 split: if_splits\<close>)
  then show ?thesis by (rule run_threadI [rotated]) (simp add: p fl_step_def False)
qed


lemma fl_run_quiet:
  assumes "fl_inv L P s" and "i < length (threads s)" and "fl_step ndebug (threads s ! i) (the_list s) = (p', the_list s)"
    and "\<And>m. hands p' m = hands (threads s ! i) m" and "\<And>m. weight p' m = weight (threads s ! i) m"
    and "\<And>m. claims p' m = claims (threads s ! i) m"
    and "link_ok (nexts (the_list s)) p'"
  shows "\<exists>L P. fl_inv L P (run_thread ndebug i s)"
  by (rule run_threadI [OF assms(3)]) (rule quiet_step [OF assms(1,2) refl assms(4-7)])

lemma fl_run_inv:
  assumes inv: "fl_inv L P s" and i: "i < length (threads s)"
  shows "\<exists>L P. fl_inv L P (run_thread ndebug i s)"
proof (cases "threads s ! i")
  case (G_test h)
  then show ?thesis using fl_run_quiet [OF inv i] by (cases h) (auto simp: fl_step_def)
next
  case (G_refs n)
  then show ?thesis
    using fl_run_quiet [OF inv i] by (cases "refs (the_list s) n AND REFS_MASK = 0") (auto simp: fl_step_def)
next
  case (G_assert n)
  then show ?thesis using fl_run_quiet [OF inv i] taken_unflagged [OF inv i] by (auto simp: fl_step_def)
next
  case Failed
  then show ?thesis using fl_inv_link [OF inv i] by simp
qed (use fl_run_quiet [OF inv i] step_A_add [OF inv i] step_K_next [OF inv i] step_K_ref [OF inv i]
      step_K_cas [OF inv i] step_K_undo [OF inv i] step_G_inc [OF inv i] step_G_cas [OF inv i]
      step_G_sub [OF inv i] step_G_dec [OF inv i] in \<open>auto simp: fl_step_def\<close>)

lemma call_add_inv:
  assumes inv: "fl_inv L P s" and i: "i < length (threads s)" and p: "threads s ! i = Idle" and "n \<in> owned s"
  shows "\<exists>L P. fl_inv L P (s\<lparr>threads := (threads s)[i := A_add n], owned := owned s - {n}\<rparr>)"
proof -
  have "fl_inv L P (s\<lparr>the_list := the_list s, threads := (threads s)[i := A_add n], owned := owned s - {n}\<rparr>)"
    by (rule fl_inv_change [OF inv i p, where n = n])
      (use fl_inv_shape [OF inv] \<open>n \<in> owned s\<close> in \<open>auto simp: node_ok_def\<close>)
  then show ?thesis by auto
qed

lemma return_inv:
  assumes inv: "fl_inv L P s" and i: "i < length (threads s)" and p: "threads s ! i = G_ret r"
  shows "\<exists>L P. fl_inv L P (s\<lparr>threads := (threads s)[i := Idle], owned := owned s \<union> set_option r\<rparr>)"
proof -
  have "fl_inv L P (s\<lparr>the_list := the_list s, threads := (threads s)[i := Idle], owned := owned s \<union> set_option r\<rparr>)"
  proof (cases r)
    case None
    then show ?thesis
      by (intro fl_inv_change [OF inv i p]) (use fl_inv_shape [OF inv] in \<open>auto simp: node_ok_def\<close>)
  next
    case (Some n)
    then show ?thesis
      by (intro fl_inv_change [OF inv i p, where n = n]) (use fl_inv_shape [OF inv] in \<open>auto simp: node_ok_def\<close>)
  qed
  then show ?thesis by auto
qed

lemma fl_sys_step_inv:
  assumes "fl_sys_step ndebug s s'" and "\<exists>L P. fl_inv L P s"
  shows "\<exists>L P. fl_inv L P s'"
  using assms
proof (cases rule: fl_sys_step.cases)
  case (Call_try_get i)
  from assms(2) obtain L P where inv: "fl_inv L P s" by blast
  have "fl_inv L P (s\<lparr>the_list := the_list s, threads := (threads s)[i := G_load], owned := owned s\<rparr>)"
    by (rule quiet_step [OF inv Call_try_get(2,3)]) auto
  then show ?thesis using Call_try_get by auto
qed (use assms(2) fl_run_inv call_add_inv return_inv in blast)+

lemma total_replicate [simp]: "total c (replicate k Idle) n = k * c Idle n"
  by (induction k) (auto simp: total_def)

lemma fl_init_inv: "2 * k + 2 < 2 ^ 31 \<Longrightarrow> fl_inv [] {} (fl_init k)"
  by (simp add: fl_inv_def fl_init_def node_ok_def new_node_def)

interpretation free_list_run: step_invariant "\<lambda>s. \<exists>k. s = fl_init k \<and> 2 * k + 2 < 2 ^ 31"
  "fl_sys_step ndebug" "\<lambda>_. True" "\<lambda>s. \<exists>L P. fl_inv L P s" for ndebug
  by unfold_locales (use fl_init_inv fl_sys_step_inv in blast)+

lemma fl_inv_idle:
  assumes inv: "fl_inv L P s" and "set (threads s) \<subseteq> {Idle}"
  shows "n \<in> set L \<or> n \<in> owned s"
proof -
  have "threads s = replicate (length (threads s)) Idle"
    using assms(2) by (metis replicate_length_same singletonD subsetD)
  then have "total c (threads s) m = 0" if "c Idle = (\<lambda>_. 0)" for c m
    using that total_replicate by (metis mult_0_right)
  from this [of hands] this [of weight]
  have "total hands (threads s) n = 0" "total weight (threads s) n = 0" by (auto simp: fun_eq_iff)
  then show ?thesis using fl_inv_node [OF inv, of n] by (cases "n \<in> set L"; cases "n \<in> owned s") (auto simp: node_ok_def)
qed

lemma fl_inv_unique:
  assumes inv: "fl_inv L P s" and "i < length (threads s)" "j < length (threads s)"
    and "0 < hands (threads s ! i) n" "0 < hands (threads s ! j) n"
  shows "j = i"
proof (rule ccontr)
  assume "j \<noteq> i"
  then have "hands (threads s ! i) n + hands (threads s ! j) n \<le> total hands (threads s) n"
    using total_two assms(2,3) by metis
  then show False using fl_inv_node [OF inv, of n] assms(4,5) unfolding node_ok_def by linarith
qed

text \<open>
  C26: The free list is safe for any number of threads (fewer than \<open>2 ^ 30 - 1\<close>) in any interleaving.
  No assertion fails; following the links from the head gives a list without repetition, none of
  whose nodes is with a user; when no call is under way, every node is on the list or
  with a user, so none is lost; and a node that \<^verbatim>\<open>try_get\<close> returns is not on the list, is held
  by no user and is returned to no other thread.
\<close>

theorem free_list_safe:
  assumes "2 * k + 2 < 2 ^ 31" and "(fl_sys_step ndebug)\<^sup>*\<^sup>* (fl_init k) s"
  shows "Failed \<notin> set (threads s) \<and>
    (\<exists>L. linked (nexts (the_list s)) (freeListHead (the_list s)) L \<and> distinct L \<and>
       set L \<inter> owned s = {} \<and>
       (set (threads s) \<subseteq> {Idle} \<longrightarrow> set L \<union> owned s = UNIV) \<and>
       (\<forall>i n. i < length (threads s) \<and> threads s ! i = G_ret (Some n) \<longrightarrow>
          n \<notin> set L \<and> n \<notin> owned s \<and>
          (\<forall>j. j < length (threads s) \<and> threads s ! j = G_ret (Some n) \<longrightarrow> j = i)))"
proof -
  obtain L P where inv: "fl_inv L P s"
    using free_list_run.inv_run [of "fl_init k" ndebug s] assms by blast
  have "Failed \<notin> set (threads s)"
    using fl_inv_link [OF inv] by (metis in_set_conv_nth link_ok.simps(5))
  moreover have "set L \<inter> owned s = {}"
  proof -
    have "\<not> (n \<in> set L \<and> n \<in> owned s)" for n
      using fl_inv_node [OF inv, of n] by (auto simp: node_ok_def)
    then show ?thesis by blast
  qed
  ultimately show ?thesis
    using fl_inv_shape [OF inv] fl_inv_idle [OF inv] fl_inv_hands [OF inv] fl_inv_unique [OF inv]
    by (intro conjI exI [of _ L]) auto
qed


section \<open>Concrete runs\<close>

text \<open>Turns of threads, each doing nothing when it is not possible.\<close>

datatype fl_turn = Add nat nat | Get nat | Go nat nat | Ret nat

fun fl_do :: "fl_turn \<Rightarrow> fl_sys \<Rightarrow> fl_sys" where
  "fl_do (Add i n) s =
     (if i < length (threads s) \<and> threads s ! i = Idle \<and> n \<in> owned s
      then s\<lparr>threads := (threads s)[i := A_add n], owned := owned s - {n}\<rparr> else s)"
| "fl_do (Get i) s =
     (if i < length (threads s) \<and> threads s ! i = Idle then s\<lparr>threads := (threads s)[i := G_load]\<rparr> else s)"
| "fl_do (Go i k) s = (if i < length (threads s) then (run_thread False i ^^ k) s else s)"
| "fl_do (Ret i) s =
     (if i < length (threads s)
      then case threads s ! i of
          G_ret r \<Rightarrow> s\<lparr>threads := (threads s)[i := Idle], owned := owned s \<union> set_option r\<rparr>
        | _ \<Rightarrow> s
      else s)"

lemma fl_go: "i < length (threads s) \<Longrightarrow> (fl_sys_step False)\<^sup>*\<^sup>* s ((run_thread False i ^^ k) s)"
proof (induction k)
  case (Suc k)
  have "length (threads ((run_thread False i ^^ k) s)) = length (threads s)"
    by (induction k) (auto simp: run_thread_def split: prod.splits)
  then have "fl_sys_step False ((run_thread False i ^^ k) s) ((run_thread False i ^^ Suc k) s)"
    using Suc.prems fl_sys_step.Run by simp
  then show ?case using Suc by (meson rtranclp.rtrancl_into_rtrancl)
qed simp

lemma fl_do_step: "(fl_sys_step False)\<^sup>*\<^sup>* s (fl_do a s)"
proof (cases a)
  case (Ret i)
  then show ?thesis by (auto split: fl_pc.splits intro: fl_sys_step.Return)
qed (auto intro: fl_sys_step.Call_add fl_sys_step.Call_try_get fl_go)

lemma fl_dos: "(fl_sys_step False)\<^sup>*\<^sup>* s (fold fl_do as s)"
proof (induction as arbitrary: s)
  case (Cons a as)
  then show ?case using fl_do_step [of s a] by (auto intro: rtranclp_trans)
qed simp

text \<open>
  Node 5 goes on the list; thread 1 reads its \<^verbatim>\<open>next\<close>; thread 2 takes the node and gives it back while
  thread 1 still refers to it, so that putting it on the list is left to thread 1.
\<close>

definition sample_run :: fl_sys where
  "sample_run = fold fl_do
     [Add 0 5, Go 0 5, Get 1, Go 1 5, Get 2, Go 2 8, Ret 2, Add 2 5, Go 2 1, Go 1 8, Ret 1] (fl_init 3)"

lemma sample_run_end:
  "threads sample_run = [Idle, Idle, Idle]" "owned sample_run = UNIV - {5}"
  "freeListHead (the_list sample_run) = Some 5" "nodes (the_list sample_run) 5 = \<lparr>freeListRefs = 1, freeListNext = None\<rparr>"
  unfolding sample_run_def fl_init_def
  by (simp_all add: numeral_eq_Suc run_thread_def fl_step_def add_step_def put_refs_def put_next_def new_node_def
    SHOULD_BE_ON_FREELIST_def REFS_MASK_def)


theorem free_list_safe_witness:
  "2 * 3 + 2 < (2 :: nat) ^ 31 \<and> (fl_sys_step False)\<^sup>*\<^sup>* (fl_init 3) sample_run \<and>
   Failed \<notin> set (threads sample_run) \<and>
   (\<exists>L. linked (nexts (the_list sample_run)) (freeListHead (the_list sample_run)) L \<and> distinct L \<and>
      set L \<union> owned sample_run = UNIV)"
proof -
  have r: "(fl_sys_step False)\<^sup>*\<^sup>* (fl_init 3) sample_run" unfolding sample_run_def by (rule fl_dos)
  have i: "set (threads sample_run) \<subseteq> {Idle}" by (simp add: sample_run_end)
  show ?thesis using free_list_safe [OF _ r] r i by auto
qed

section \<open>A thread on its own\<close>

text \<open>
  With no other thread in a call the free list is a stack: \<^verbatim>\<open>add\<close> pushes a node, \<^verbatim>\<open>try_get\<close> pops
  the last one, or returns null when the list is empty.
\<close>

abbreviation alone :: "bool \<Rightarrow> fl_pc \<times> free_list \<Rightarrow> fl_pc \<times> free_list" where
  "alone ndebug \<equiv> \<lambda>(p, f). fl_step ndebug p f"

definition stack :: "free_list \<Rightarrow> nat list \<Rightarrow> bool" where
  "stack f L \<longleftrightarrow> linked (nexts f) (freeListHead f) L \<and> distinct L \<and>
     (\<forall>n. refs f n = (if n \<in> set L then 1 else 0))"

lemma add_alone:
  assumes "stack f L" and "n \<notin> set L"
  shows "\<exists>f'. (alone ndebug ^^ 5) (A_add n, f) = (Idle, f') \<and> stack f' (n # L)"
proof -
  have "refs f n = 0" using assms by (simp add: stack_def)
  then show ?thesis using assms
    by (simp add: numeral_eq_Suc fl_step_def add_step_def stack_def linked_frame)
qed

lemma try_get_alone:
  assumes "stack f (n # L)"
  shows "\<exists>f'. (alone ndebug ^^ 8) (G_load, f) = (G_ret (Some n), f') \<and> stack f' L"
proof -
  have "refs f n = 1" "freeListHead f = Some n" using assms by (simp_all add: stack_def)
  then show ?thesis using assms
    by (simp add: numeral_eq_Suc fl_step_def stack_def REFS_MASK_def SHOULD_BE_ON_FREELIST_def)
qed

lemma try_get_alone_empty: "stack f [] \<Longrightarrow> (alone ndebug ^^ 2) (G_load, f) = (G_ret None, f)"
  by (simp add: numeral_eq_Suc fl_step_def stack_def)

end
