(* ===== verification/Cq_Util.thy ===== *)
theory Cq_Util
  imports Prelude
begin

text \<open>
  The helpers of \<^verbatim>\<open>externals/include/moodycamel/concurrentqueue.h\<close> (namespace
  \<^verbatim>\<open>details\<close>): the hash of a thread id, the comparison of indices that wrap around, the
  rounding to a power of two, and the chain of listeners a thread notifies when it exits.
  \<^verbatim>\<open>size_t\<close>, \<^verbatim>\<open>index_t\<close> and thread ids are 64 bits wide.
\<close>

unbundle bit_operations_syntax

section \<open>Thread id hash\<close>

text \<open>The finalizers of MurmurHash3, one \<^verbatim>\<open>h ^= h >> k\<close> or multiplication per step.\<close>

definition xorshift :: "nat \<Rightarrow> 'a::len word \<Rightarrow> 'a word" where
  "xorshift k h = h XOR drop_bit k h"

definition hash_32 :: "u32 \<Rightarrow> u32" where
  "hash_32 h =
     (let h = xorshift 16 h; h = h * 0x85ebca6b; h = xorshift 13 h; h = h * 0xc2b2ae35
      in h XOR drop_bit 16 h)"

definition hash_64 :: "u64 \<Rightarrow> u64" where
  "hash_64 h =
     (let h = xorshift 33 h; h = h * 0xff51afd7ed558ccd; h = xorshift 33 h; h = h * 0xc4ceb9fe1a85ec53
      in h XOR drop_bit 33 h)"

text \<open>\<^verbatim>\<open>prehash\<close> is the identity on this platform, where a thread id is an address.\<close>

definition hash_thread_id :: "u64 \<Rightarrow> u64" where
  "hash_thread_id i = hash_64 i"

section \<open>Indices that wrap around\<close>

definition circular_less_than :: "'a::len word \<Rightarrow> 'a word \<Rightarrow> bool" where
  "circular_less_than a b \<longleftrightarrow> a - b > push_bit (LENGTH('a) - 1) 1"

text \<open>
  \<^verbatim>\<open>ceil_to_pow_2\<close> on 64 bits: the loop runs for \<open>i = 1, 2, 4\<close>, shifting by \<open>i << 3\<close>.
\<close>

fun ceil_loop :: "nat \<Rightarrow> nat \<Rightarrow> u64 \<Rightarrow> u64" where
  "ceil_loop 0 i x = x"
| "ceil_loop (Suc fuel) i x = (if i < 8 then ceil_loop fuel (2 * i) (x OR drop_bit (8 * i) x) else x)"

definition ceil_to_pow_2 :: "u64 \<Rightarrow> u64" where
  "ceil_to_pow_2 x =
     (let x = x - 1; x = x OR drop_bit 1 x; x = x OR drop_bit 2 x; x = x OR drop_bit 4 x;
          x = ceil_loop 8 1 x
      in x + 1)"

text \<open>\<^verbatim>\<open>swap_relaxed\<close>: two loads and two stores through a temporary.\<close>

definition swap_relaxed :: "'a \<times> 'a \<Rightarrow> 'a \<times> 'a" where
  "swap_relaxed p = (let temp = fst p; p = (snd p, snd p); p = (fst p, temp) in p)"

section \<open>Thread exit notification\<close>

text \<open>
  A listener, and the chain of them that starts at the thread's \<^verbatim>\<open>tail\<close>; \<open>listeners\<close> are the
  objects in memory, by address. The loops over the chain are given fuel; a chain whose addresses
  are below the fuel ends before it runs out.
\<close>

record listener =
  callback :: nat
  userData :: nat
  listener_next :: "nat option"

record notifier =
  notifier_tail :: "nat option"
  listeners :: "nat \<Rightarrow> listener"

definition set_listener_next :: "nat \<Rightarrow> nat option \<Rightarrow> notifier \<Rightarrow> notifier" where
  "set_listener_next l nx s = s\<lparr>listeners := (listeners s)(l := (listeners s l)\<lparr>listener_next := nx\<rparr>)\<rparr>"

definition subscribe :: "nat \<Rightarrow> notifier \<Rightarrow> notifier" where
  "subscribe l s = (set_listener_next l (notifier_tail s) s)\<lparr>notifier_tail := Some l\<rparr>"

text \<open>\<open>prev\<close> is the address of the pointer to patch: the tail, or a listener's \<^verbatim>\<open>next\<close>.\<close>

definition patch :: "nat option \<Rightarrow> nat option \<Rightarrow> notifier \<Rightarrow> notifier" where
  "patch prev nx s = (case prev of None \<Rightarrow> s\<lparr>notifier_tail := nx\<rparr> | Some p \<Rightarrow> set_listener_next p nx s)"

fun unsubscribe_loop :: "nat \<Rightarrow> nat \<Rightarrow> nat option \<Rightarrow> nat option \<Rightarrow> notifier \<Rightarrow> notifier option" where
  "unsubscribe_loop 0 l prev ptr s = None"
| "unsubscribe_loop (Suc fuel) l prev None s = Some s"
| "unsubscribe_loop (Suc fuel) l prev (Some p) s =
     (if p = l then Some (patch prev (listener_next (listeners s p)) s)
      else unsubscribe_loop fuel l (Some p) (listener_next (listeners s p)) s)"

definition unsubscribe :: "nat \<Rightarrow> nat \<Rightarrow> notifier \<Rightarrow> notifier option" where
  "unsubscribe fuel l s = unsubscribe_loop fuel l None (notifier_tail s) s"

text \<open>The destructor calls the callbacks in the order of the chain.\<close>

fun notify_loop :: "nat \<Rightarrow> nat option \<Rightarrow> notifier \<Rightarrow> (nat \<times> nat) list option" where
  "notify_loop 0 ptr s = None"
| "notify_loop (Suc fuel) None s = Some []"
| "notify_loop (Suc fuel) (Some p) s =
     map_option ((#) (callback (listeners s p), userData (listeners s p)))
       (notify_loop fuel (listener_next (listeners s p)) s)"

definition thread_exit :: "nat \<Rightarrow> notifier \<Rightarrow> (nat \<times> nat) list option" where
  "thread_exit fuel s = notify_loop fuel (notifier_tail s) s"

section \<open>The hash is injective\<close>

lemma bit_xorshift: "bit (xorshift k h) i \<longleftrightarrow> bit h i \<noteq> bit h (i + k)"
  by (auto simp: xorshift_def bit_xor_iff bit_drop_bit_eq add.commute)

lemma xorshift_inj:
  fixes x y :: "'a::len word"
  assumes "0 < k" and "xorshift k x = xorshift k y"
  shows "x = y"
proof (rule bit_word_eqI)
  fix i :: nat
  show "bit x i = bit y i"
  proof (induction "LENGTH('a) - i" arbitrary: i rule: less_induct)
    case less
    show ?case
    proof (cases "i < LENGTH('a)")
      case True
      then have "bit x (i + k) = bit y (i + k)" using less \<open>0 < k\<close> by simp
      moreover have "bit (xorshift k x) i = bit (xorshift k y) i" by (simp add: assms(2))
      ultimately show ?thesis by (auto simp: bit_xorshift)
    next
      case False
      then show ?thesis using bit_imp_le_length by (metis not_le)
    qed
  qed
qed

lemma mult_inj:
  fixes c :: "'a::len word"
  assumes "c * d = 1" and "x * c = y * c"
  shows "x = y"
proof -
  have "x * (c * d) = y * (c * d)" using assms(2) by (metis mult.assoc)
  then show ?thesis by (simp add: assms(1))
qed

lemma hash_32_inj: "hash_32 x = hash_32 y \<Longrightarrow> x = y"
proof -
  have inv: "0x85ebca6b * 0xa5cb9243 = (1 :: u32)" "0xc2b2ae35 * 0x7ed1b41d = (1 :: u32)" by simp_all
  assume "hash_32 x = hash_32 y"
  then show ?thesis unfolding hash_32_def Let_def xorshift_def [symmetric]
    by (auto dest!: xorshift_inj [rotated] mult_inj [OF inv(1)] mult_inj [OF inv(2)])
qed

lemma hash_64_inj: "hash_64 x = hash_64 y \<Longrightarrow> x = y"
proof -
  have inv: "0xff51afd7ed558ccd * 0x4f74430c22a54005 = (1 :: u64)"
    "0xc4ceb9fe1a85ec53 * 0x9cb4b2f8129337db = (1 :: u64)" by simp_all
  assume "hash_64 x = hash_64 y"
  then show ?thesis unfolding hash_64_def Let_def xorshift_def [symmetric]
    by (auto dest!: xorshift_inj [rotated] mult_inj [OF inv(1)] mult_inj [OF inv(2)])
qed

text \<open>
  The hash of thread ids spreads the id over all bits and loses nothing: two threads have the same
  hash exactly when they have the same id, so two threads never collide on all 64 bits (and the
  32-bit variant has no collision either).
\<close>

theorem thread_hash_injective:
  "(hash_thread_id a = hash_thread_id b \<longleftrightarrow> a = b) \<and> (hash_32 c = hash_32 d \<longleftrightarrow> c = d)"
  using hash_64_inj hash_32_inj by (auto simp: hash_thread_id_def)

section \<open>The order of indices\<close>

lemma circular_less_than_u64: "circular_less_than a b \<longleftrightarrow> 2 ^ 63 < unat (a - b :: u64)"
  by (simp add: circular_less_than_def word_less_nat_alt)

text \<open>
  An index and one less than half the range ahead of it compare as they should, whatever
  the wrap-around; indices exactly half the range apart are incomparable.
\<close>

lemma circular_less_than_ahead:
  assumes "d < 2 ^ 63"
  shows "circular_less_than a (a + of_nat d :: u64) \<longleftrightarrow> 0 < d"
    and "\<not> circular_less_than (a + of_nat d :: u64) a"
proof -
  have d: "unat (of_nat d :: u64) = d" using assms by (simp add: unat_of_nat_u64)
  show "circular_less_than a (a + of_nat d :: u64) \<longleftrightarrow> 0 < d"
  proof (cases "d = 0")
    case False
    have "a - (a + of_nat d) = - (of_nat d :: u64)" by simp
    moreover have "unat (- (of_nat d :: u64)) = 2 ^ 64 - d"
    proof -
      have "(of_nat (2 ^ 64 - d) :: u64) = of_nat (2 ^ 64) - of_nat d"
        by (rule of_nat_diff) (use assms in simp)
      then have "- of_nat d = (of_nat (2 ^ 64 - d) :: u64)" by simp
      moreover have "unat (of_nat (2 ^ 64 - d) :: u64) = 2 ^ 64 - d"
        by (rule unat_of_nat_u64) (use False in simp)
      ultimately show ?thesis by simp
    qed
    ultimately show ?thesis using assms False by (simp add: circular_less_than_u64)
  qed (simp add: circular_less_than_u64)
  show "\<not> circular_less_than (a + of_nat d :: u64) a"
    using assms d by (simp add: circular_less_than_u64)
qed

text \<open>On plain numbers below half the range it is the usual order.\<close>

lemma circular_less_than_of_nat:
  assumes "m < 2 ^ 63" and "n < 2 ^ 63"
  shows "circular_less_than (of_nat m) (of_nat n :: u64) \<longleftrightarrow> m < n"
proof (cases "m \<le> n")
  case True
  then show ?thesis
    using circular_less_than_ahead(1) [of "n - m" "of_nat m"] assms
    by (simp flip: of_nat_add)
next
  case False
  then show ?thesis
    using circular_less_than_ahead(2) [of "m - n" "of_nat n"] assms
    by (simp flip: of_nat_add)
qed

section \<open>The chain of listeners\<close>

text \<open>The chain from a pointer is the list of its addresses.\<close>

fun chain :: "notifier \<Rightarrow> nat option \<Rightarrow> nat list \<Rightarrow> bool" where
  "chain s p [] \<longleftrightarrow> p = None"
| "chain s p (l # ls) \<longleftrightarrow> p = Some l \<and> chain s (listener_next (listeners s l)) ls"

lemma chain_frame:
  "l \<notin> set ls \<Longrightarrow> chain (set_listener_next l nx s) p ls \<longleftrightarrow> chain s p ls"
  by (induction ls arbitrary: p) (auto simp: set_listener_next_def)

lemma chain_tail [simp]: "chain (s\<lparr>notifier_tail := p'\<rparr>) p ls \<longleftrightarrow> chain s p ls"
  by (induction ls arbitrary: p) auto

lemma notifier_tail_set [simp]: "notifier_tail (set_listener_next l nx s) = notifier_tail s"
  by (simp add: set_listener_next_def)

lemma subscribe_chain:
  "chain s (notifier_tail s) ls \<Longrightarrow> l \<notin> set ls \<Longrightarrow>
     chain (subscribe l s) (notifier_tail (subscribe l s)) (l # ls)"
  by (simp add: subscribe_def chain_frame) (simp add: set_listener_next_def)

lemma chain_next:
  assumes "chain s p (xs @ l # ls)" and "xs \<noteq> []" and "distinct (xs @ l # ls)"
  shows "chain (set_listener_next (last xs) (listener_next (listeners s l)) s) p (xs @ ls)"
  using assms
proof (induction xs arbitrary: p)
  case (Cons x xs)
  show ?case
  proof (cases "xs = []")
    case True
    then show ?thesis using Cons.prems by (auto simp: chain_frame) (simp add: set_listener_next_def)
  next
    case False
    then have "last xs \<noteq> x" using Cons.prems(3) by auto
    then show ?thesis using Cons False by (simp add: set_listener_next_def)
  qed
qed simp

lemma unsubscribe_loop_chain:
  assumes "chain s ptr ls" and "length ls < fuel" and "chain s (notifier_tail s) (pre @ ls)"
    and "distinct (pre @ ls)" and "prev = (if pre = [] then None else Some (last pre))"
    and "l \<notin> set pre"
  shows "\<exists>s'. unsubscribe_loop fuel l prev ptr s = Some s' \<and>
           chain s' (notifier_tail s') (pre @ remove1 l ls)"
  using assms
proof (induction ls arbitrary: fuel prev ptr pre)
  case Nil
  then obtain f where "fuel = Suc f" by (cases fuel) auto
  then show ?case using Nil by auto
next
  case (Cons x xs)
  then obtain f where f: "fuel = Suc f" by (cases fuel) auto
  show ?case
  proof (cases "x = l")
    case True
    then show ?thesis using Cons.prems f chain_next [of s "notifier_tail s" pre x xs]
      by (cases "pre = []") (auto simp: patch_def)
  next
    case False
    have "\<exists>s'. unsubscribe_loop f l (Some x) (listener_next (listeners s x)) s = Some s' \<and>
        chain s' (notifier_tail s') ((pre @ [x]) @ remove1 l xs)"
      by (rule Cons.IH) (use Cons.prems f False in auto)
    then show ?thesis using Cons.prems f False by auto
  qed
qed

lemma notify_loop_chain:
  "chain s p ls \<Longrightarrow> length ls < fuel \<Longrightarrow>
     notify_loop fuel p s = Some (map (\<lambda>l. (callback (listeners s l), userData (listeners s l))) ls)"
proof (induction ls arbitrary: p fuel)
  case Nil
  then show ?case by (cases fuel) auto
next
  case (Cons x xs)
  then show ?case by (cases fuel) auto
qed

text \<open>
  Subscribing, unsubscribing and exiting act on the chain as on a list: a new listener is put in front,
  an unsubscribed one is taken out wherever it stands, and at exit each remaining listener is
  called back once, the latest first.
\<close>

lemma listeners_are_a_list:
  assumes "chain s (notifier_tail s) ls" and "distinct ls" and "length ls < fuel"
  shows "l \<notin> set ls \<Longrightarrow> chain (subscribe l s) (notifier_tail (subscribe l s)) (l # ls)"
    and "\<exists>s'. unsubscribe fuel l s = Some s' \<and> chain s' (notifier_tail s') (remove1 l ls)"
    and "thread_exit fuel s = Some (map (\<lambda>l. (callback (listeners s l), userData (listeners s l))) ls)"
  using subscribe_chain [OF assms(1)] unsubscribe_loop_chain [OF assms(1,3), of "[]"] assms
    notify_loop_chain [OF assms(1,3)]
  by (auto simp: unsubscribe_def thread_exit_def)

end
