(* ===== verification/Cq_Counters.thy ===== *)
theory Cq_Counters
  imports Cq_Util
begin

text \<open>
  The four counters of a producer of \<^verbatim>\<open>concurrentqueue.h\<close> (\<^verbatim>\<open>ProducerBase\<close>), by which one producing thread
  and any number of consuming threads agree on who gets which element. \<^verbatim>\<open>dequeue\<close> and
  \<^verbatim>\<open>dequeue_bulk\<close> of \<^verbatim>\<open>ExplicitProducer\<close> and \<^verbatim>\<open>ImplicitProducer\<close> share this protocol; here it
  is split into one atomic access per step, up to the point where the indices of the elements to take are
  known. Memory is sequentially consistent.
\<close>

section \<open>Counters and consumers\<close>

record counters =
  tailIndex :: u64
  headIndex :: u64
  dequeueOptimisticCount :: u64
  dequeueOvercommit :: u64

definition new_counters :: counters where
  "new_counters = \<lparr>tailIndex = 0, headIndex = 0, dequeueOptimisticCount = 0, dequeueOvercommit = 0\<rparr>"

definition producer_size_approx :: "counters \<Rightarrow> u64" where
  "producer_size_approx q =
     (if circular_less_than (headIndex q) (tailIndex q) then tailIndex q - headIndex q else 0)"

text \<open>
  Where a consumer is. \<open>D_\<close>: in \<^verbatim>\<open>dequeue\<close>, with the locals \<^verbatim>\<open>tail\<close>, \<^verbatim>\<open>overcommit\<close> and \<^verbatim>\<open>myDequeueCount\<close>;
  \<open>B_\<close>: in \<^verbatim>\<open>dequeue_bulk\<close>, with \<^verbatim>\<open>max\<close>, then \<^verbatim>\<open>desiredCount\<close> and \<^verbatim>\<open>actualCount\<close>. A consumer
  returns the first index it may take and the number of elements.
\<close>

datatype dq_pc =
    Idle
  | D_tail | D_over u64 | D_opt u64 u64 | D_take u64 | D_check u64 u64 | D_head | D_undo
  | B_tail u64 | B_over u64 u64 | B_opt u64 u64 u64 | B_take u64 u64 | B_check u64 u64 u64
  | B_undo u64 u64 | B_head u64 | B_fail u64
  | Got u64 u64
  | Failed

fun producer_dequeue_step :: "bool \<Rightarrow> dq_pc \<Rightarrow> counters \<Rightarrow> dq_pc \<times> counters" where
  "producer_dequeue_step ndebug D_tail q = (D_over (tailIndex q), q)"
| "producer_dequeue_step ndebug (D_over tail) q = (D_opt tail (dequeueOvercommit q), q)"
| "producer_dequeue_step ndebug (D_opt tail overcommit) q =
     (if circular_less_than (dequeueOptimisticCount q - overcommit) tail then D_take overcommit else Got 0 0, q)"
| "producer_dequeue_step ndebug (D_take overcommit) q =
     (D_check overcommit (dequeueOptimisticCount q), q\<lparr>dequeueOptimisticCount := dequeueOptimisticCount q + 1\<rparr>)"
| "producer_dequeue_step ndebug (D_check overcommit myDequeueCount) q =
     (if \<not> overcommit \<le> myDequeueCount \<and> \<not> ndebug then Failed
      else if circular_less_than (myDequeueCount - overcommit) (tailIndex q) then D_head else D_undo, q)"
| "producer_dequeue_step ndebug D_head q = (Got (headIndex q) 1, q\<lparr>headIndex := headIndex q + 1\<rparr>)"
| "producer_dequeue_step ndebug D_undo q = (Got 0 0, q\<lparr>dequeueOvercommit := dequeueOvercommit q + 1\<rparr>)"
| "producer_dequeue_step ndebug p q = (p, q)"

fun producer_dequeue_bulk_step :: "bool \<Rightarrow> dq_pc \<Rightarrow> counters \<Rightarrow> dq_pc \<times> counters" where
  "producer_dequeue_bulk_step ndebug (B_tail mx) q = (B_over mx (tailIndex q), q)"
| "producer_dequeue_bulk_step ndebug (B_over mx tail) q = (B_opt mx tail (dequeueOvercommit q), q)"
| "producer_dequeue_bulk_step ndebug (B_opt mx tail overcommit) q =
     (let desiredCount = tail - (dequeueOptimisticCount q - overcommit) in
      if circular_less_than 0 desiredCount
      then B_take (if desiredCount < mx then desiredCount else mx) overcommit else Got 0 0, q)"
| "producer_dequeue_bulk_step ndebug (B_take desiredCount overcommit) q =
     (B_check desiredCount overcommit (dequeueOptimisticCount q),
      q\<lparr>dequeueOptimisticCount := dequeueOptimisticCount q + desiredCount\<rparr>)"
| "producer_dequeue_bulk_step ndebug (B_check desiredCount overcommit myDequeueCount) q =
     (if \<not> overcommit \<le> myDequeueCount \<and> \<not> ndebug then Failed
      else let actualCount = tailIndex q - (myDequeueCount - overcommit) in
        if circular_less_than 0 actualCount
        then let actualCount = (if desiredCount < actualCount then desiredCount else actualCount) in
          if actualCount < desiredCount then B_undo desiredCount actualCount else B_head actualCount
        else B_fail desiredCount, q)"
| "producer_dequeue_bulk_step ndebug (B_undo desiredCount actualCount) q =
     (B_head actualCount, q\<lparr>dequeueOvercommit := dequeueOvercommit q + (desiredCount - actualCount)\<rparr>)"
| "producer_dequeue_bulk_step ndebug (B_head actualCount) q =
     (Got (headIndex q) actualCount, q\<lparr>headIndex := headIndex q + actualCount\<rparr>)"
| "producer_dequeue_bulk_step ndebug (B_fail desiredCount) q =
     (Got 0 0, q\<lparr>dequeueOvercommit := dequeueOvercommit q + desiredCount\<rparr>)"
| "producer_dequeue_bulk_step ndebug p q = (p, q)"

fun in_bulk :: "dq_pc \<Rightarrow> bool" where
  "in_bulk (B_tail mx) = True" | "in_bulk (B_over mx tail) = True" | "in_bulk (B_opt mx tail oc) = True"
| "in_bulk (B_take d oc) = True" | "in_bulk (B_check d oc my) = True" | "in_bulk (B_undo d a) = True"
| "in_bulk (B_head a) = True" | "in_bulk (B_fail d) = True" | "in_bulk p = False"

definition dq_step :: "bool \<Rightarrow> dq_pc \<Rightarrow> counters \<Rightarrow> dq_pc \<times> counters" where
  "dq_step ndebug p q = (if in_bulk p then producer_dequeue_bulk_step ndebug p q else producer_dequeue_step ndebug p q)"

text \<open>
  The system: the counters, the consumers, the ranges handed out so far in the order of
  the increments of \<^verbatim>\<open>headIndex\<close>, the number of elements asked for, and the number produced.
\<close>

record dq_sys =
  cnt :: counters
  consumers :: "dq_pc list"
  served :: "(nat \<times> nat) list"
  asked :: nat
  produced :: nat

definition served_by :: "dq_pc \<Rightarrow> counters \<Rightarrow> (nat \<times> nat) list" where
  "served_by p q = (case p of D_head \<Rightarrow> [(unat (headIndex q), 1)] | B_head a \<Rightarrow> [(unat (headIndex q), unat a)] | _ \<Rightarrow> [])"

definition run_consumer :: "bool \<Rightarrow> nat \<Rightarrow> dq_sys \<Rightarrow> dq_sys" where
  "run_consumer ndebug i s =
     (let (p, q) = dq_step ndebug (consumers s ! i) (cnt s) in
      s\<lparr>cnt := q, consumers := (consumers s)[i := p], served := served s @ served_by (consumers s ! i) (cnt s)\<rparr>)"

definition produce :: "nat \<Rightarrow> dq_sys \<Rightarrow> dq_sys" where
  "produce k s = s\<lparr>cnt := (cnt s)\<lparr>tailIndex := tailIndex (cnt s) + of_nat k\<rparr>, produced := produced s + k\<rparr>"

inductive dq_sys_step :: "bool \<Rightarrow> dq_sys \<Rightarrow> dq_sys \<Rightarrow> bool" for ndebug where
  Enqueue: "dq_sys_step ndebug s (produce k s)"
| Dequeue: "i < length (consumers s) \<Longrightarrow> consumers s ! i = Idle \<Longrightarrow>
    dq_sys_step ndebug s (s\<lparr>consumers := (consumers s)[i := D_tail], asked := asked s + 1\<rparr>)"
| Dequeue_bulk: "i < length (consumers s) \<Longrightarrow> consumers s ! i = Idle \<Longrightarrow>
    dq_sys_step ndebug s (s\<lparr>consumers := (consumers s)[i := B_tail mx], asked := asked s + unat mx\<rparr>)"
| Run: "i < length (consumers s) \<Longrightarrow> dq_sys_step ndebug s (run_consumer ndebug i s)"
| Return: "i < length (consumers s) \<Longrightarrow> consumers s ! i = Got f c \<Longrightarrow>
    dq_sys_step ndebug s (s\<lparr>consumers := (consumers s)[i := Idle]\<rparr>)"

definition dq_init :: "nat \<Rightarrow> dq_sys" where
  "dq_init k = \<lparr>cnt = new_counters, consumers = replicate k Idle, served = [], asked = 0, produced = 0\<rparr>"

definition dq_small :: "dq_sys \<Rightarrow> bool" where
  "dq_small s \<longleftrightarrow> asked s < 2 ^ 63 \<and> produced s < 2 ^ 63"

section \<open>Tickets\<close>

text \<open>
  The history of the increments of \<^verbatim>\<open>dequeueOptimisticCount\<close>: each is a ticket for \<open>want\<close> elements, taken
  after \<open>oc\<close> had been read from \<^verbatim>\<open>dequeueOvercommit\<close>; \<open>got\<close> elements have been promised to it,
  \<open>ret\<close> given back through \<^verbatim>\<open>dequeueOvercommit\<close>, and \<open>taken\<close> from \<^verbatim>\<open>headIndex\<close>. \<open>who\<close> is the consumer that still
  works with it.
\<close>

record ticket =
  who :: "nat option"
  want :: nat
  oc :: nat
  got :: nat
  ret :: nat
  taken :: nat

abbreviation sums :: "(ticket \<Rightarrow> nat) \<Rightarrow> ticket list \<Rightarrow> nat" where
  "sums f tk \<equiv> sum_list (map f tk)"

text \<open>A ticket, given the sums of the wants and the returns before it.\<close>

definition ticket_ok :: "nat \<Rightarrow> nat \<Rightarrow> nat \<Rightarrow> ticket \<Rightarrow> bool" where
  "ticket_ok tail w r t \<longleftrightarrow>
     oc t \<le> r \<and> got t + ret t \<le> want t \<and> taken t \<le> got t \<and>
     (0 < got t \<longrightarrow> w + got t \<le> tail + oc t) \<and>
     (who t = None \<longrightarrow> got t + ret t = want t \<and> taken t = got t)"

fun tickets_ok :: "nat \<Rightarrow> nat \<Rightarrow> nat \<Rightarrow> ticket list \<Rightarrow> bool" where
  "tickets_ok tail w r [] \<longleftrightarrow> True"
| "tickets_ok tail w r (t # tk) \<longleftrightarrow> ticket_ok tail w r t \<and> tickets_ok tail (w + want t) (r + ret t) tk"

text \<open>More elements than the producer has made are never promised.\<close>

lemma tickets_promise:
  "tickets_ok tail w r tk \<Longrightarrow> g + r \<le> w \<Longrightarrow> g \<le> tail \<Longrightarrow> g + sums got tk \<le> tail"
proof (induction tk arbitrary: g w r)
  case (Cons t tk)
  have "(g + got t) + sums got tk \<le> tail"
  proof (rule Cons.IH)
    show "tickets_ok tail (w + want t) (r + ret t) tk" using Cons.prems by simp
    show "g + got t + (r + ret t) \<le> w + want t" using Cons.prems by (auto simp: ticket_ok_def)
    show "g + got t \<le> tail" using Cons.prems by (cases "got t = 0") (auto simp: ticket_ok_def)
  qed
  then show ?case by (simp add: ac_simps)
qed simp

lemma tickets_bounds:
  "tickets_ok tail w r tk \<Longrightarrow> sums taken tk \<le> sums got tk \<and> sums got tk + sums ret tk \<le> sums want tk"
  by (induction tk arbitrary: w r) (fastforce simp: ticket_ok_def)+

lemma tickets_append:
  "tickets_ok tail w r (tk @ tk') \<longleftrightarrow>
     tickets_ok tail w r tk \<and> tickets_ok tail (w + sums want tk) (r + sums ret tk) tk'"
  by (induction tk arbitrary: w r) (auto simp: ac_simps)

lemma tickets_mono:
  "tickets_ok tail w r tk \<Longrightarrow> tail \<le> tail' \<Longrightarrow> r \<le> r' \<Longrightarrow> tickets_ok tail' w r' tk"
  by (induction tk arbitrary: w r r') (auto simp: ticket_ok_def)

lemma tickets_update:
  assumes ok: "tickets_ok tail w r tk" and k: "k < length tk"
    and same: "want t = want (tk ! k)" and more: "ret (tk ! k) \<le> ret t"
    and new: "ticket_ok tail (w + sums want (take k tk)) (r + sums ret (take k tk)) t"
  shows "tickets_ok tail w r (tk[k := t])"
proof -
  let ?a = "take k tk" and ?b = "drop (Suc k) tk"
  have "tk = ?a @ tk ! k # ?b" using k by (simp add: id_take_nth_drop)
  then have "tickets_ok tail w r (?a @ tk ! k # ?b)" using ok by simp
  then have "tickets_ok tail w r ?a" "tickets_ok tail (w + sums want ?a + want (tk ! k)) (r + sums ret ?a + ret (tk ! k)) ?b"
    by (simp_all add: tickets_append)
  then have "tickets_ok tail w r (?a @ t # ?b)"
    using new same more tickets_mono [of tail _ _ ?b tail] by (simp add: tickets_append)
  then show ?thesis using k by (simp add: upd_conv_take_nth_drop)
qed

lemma sums_update:
  assumes "k < length tk"
  shows "sums f (tk[k := t]) + f (tk ! k) = sums f tk + f t"
proof -
  let ?a = "take k tk" and ?b = "drop (Suc k) tk"
  have "tk = ?a @ tk ! k # ?b" using assms by (simp add: id_take_nth_drop)
  then have "sums f tk = sums f (?a @ tk ! k # ?b)" by simp
  then show ?thesis using assms by (simp add: upd_conv_take_nth_drop)
qed

lemma sums_take_update:
  assumes "k' < length tk" and "want t = want (tk ! k')"
  shows "sums want (take k (tk[k' := t])) = sums want (take k tk)"
proof -
  have "map want (tk[k' := t]) = map want tk"
    using assms by (simp add: map_update list_update_same_conv [where xs = "map want tk", simplified])
  then show ?thesis by (metis take_map)
qed


section \<open>The invariant\<close>

text \<open>What the ticket of a consumer looks like, given the sum of the wants before it.\<close>

fun shape :: "dq_pc \<Rightarrow> (nat \<Rightarrow> ticket \<Rightarrow> bool) option" where
  "shape (D_check c my) = Some (\<lambda>w t. w = unat my \<and> oc t = unat c \<and> want t = 1 \<and> got t = 0 \<and> ret t = 0 \<and> taken t = 0)"
| "shape D_head = Some (\<lambda>w t. want t = 1 \<and> got t = 1 \<and> ret t = 0 \<and> taken t = 0)"
| "shape D_undo = Some (\<lambda>w t. want t = 1 \<and> got t = 0 \<and> ret t = 0 \<and> taken t = 0)"
| "shape (B_check d c my) = Some (\<lambda>w t. w = unat my \<and> oc t = unat c \<and> want t = unat d \<and> got t = 0 \<and> ret t = 0 \<and> taken t = 0)"
| "shape (B_undo d a) = Some (\<lambda>w t. want t = unat d \<and> got t = unat a \<and> a < d \<and> ret t = 0 \<and> taken t = 0)"
| "shape (B_head a) = Some (\<lambda>w t. got t = unat a \<and> got t + ret t = want t \<and> taken t = 0)"
| "shape (B_fail d) = Some (\<lambda>w t. want t = unat d \<and> got t = 0 \<and> ret t = 0 \<and> taken t = 0)"
| "shape p = None"

text \<open>What a consumer without a ticket knows, and how much it may still ask for.\<close>

fun pre_ok :: "counters \<Rightarrow> dq_pc \<Rightarrow> bool" where
  "pre_ok q (D_opt tail c) \<longleftrightarrow> unat c \<le> unat (dequeueOvercommit q)"
| "pre_ok q (D_take c) \<longleftrightarrow> unat c \<le> unat (dequeueOvercommit q)"
| "pre_ok q (B_opt mx tail c) \<longleftrightarrow> unat c \<le> unat (dequeueOvercommit q)"
| "pre_ok q (B_take d c) \<longleftrightarrow> unat c \<le> unat (dequeueOvercommit q)"
| "pre_ok q Failed \<longleftrightarrow> False"
| "pre_ok q p \<longleftrightarrow> True"

fun budget :: "dq_pc \<Rightarrow> nat" where
  "budget D_tail = 1" | "budget (D_over tail) = 1" | "budget (D_opt tail c) = 1" | "budget (D_take c) = 1"
| "budget (B_tail mx) = unat mx" | "budget (B_over mx tail) = unat mx" | "budget (B_opt mx tail c) = unat mx"
| "budget (B_take d c) = unat d" | "budget p = 0"

definition holds_ticket :: "ticket list \<Rightarrow> nat \<Rightarrow> dq_pc \<Rightarrow> bool" where
  "holds_ticket tk i p =
     (case shape p of
        None \<Rightarrow> (\<forall>k<length tk. who (tk ! k) \<noteq> Some i)
      | Some Q \<Rightarrow> \<exists>k<length tk. who (tk ! k) = Some i \<and> Q (sums want (take k tk)) (tk ! k) \<and>
          (\<forall>k'<length tk. who (tk ! k') = Some i \<longrightarrow> k' = k))"

definition dq_inv :: "ticket list \<Rightarrow> dq_sys \<Rightarrow> bool" where
  "dq_inv tk s \<longleftrightarrow>
     unat (dequeueOptimisticCount (cnt s)) = sums want tk \<and>
     unat (dequeueOvercommit (cnt s)) = sums ret tk \<and>
     unat (headIndex (cnt s)) = sums taken tk \<and>
     unat (tailIndex (cnt s)) = produced s \<and>
     tickets_ok (produced s) 0 0 tk \<and>
     sums want tk + sum_list (map budget (consumers s)) \<le> asked s \<and>
     (\<forall>t\<in>set tk. \<forall>i. who t = Some i \<longrightarrow> i < length (consumers s)) \<and>
     (\<forall>i<length (consumers s). pre_ok (cnt s) (consumers s ! i) \<and> holds_ticket tk i (consumers s ! i)) \<and>
     concat (map (\<lambda>(f, c). [f..<f + c]) (served s)) = [0..<unat (headIndex (cnt s))]"

lemma circular_small:
  assumes "unat x < 2 ^ 63" and "unat y < 2 ^ 63"
  shows "circular_less_than x (y :: u64) \<longleftrightarrow> unat x < unat y"
  using circular_less_than_of_nat [OF assms] by simp

lemma circular_ahead:
  assumes "unat x < 2 ^ 63" and "unat y < 2 ^ 63"
  shows "circular_less_than 0 (y - x :: u64) \<longleftrightarrow> unat x < unat y"
proof -
  have "circular_less_than 0 (y - x) \<longleftrightarrow> circular_less_than x y" by (simp add: circular_less_than_def)
  then show ?thesis using circular_small [OF assms] by simp
qed

section \<open>One step\<close>

lemma budget_update:
  "i < length cs \<Longrightarrow> sum_list (map budget (cs[i := p])) + budget (cs ! i) = sum_list (map budget cs) + budget p"
proof -
  assume i: "i < length cs"
  have "cs = take i cs @ cs ! i # drop (Suc i) cs" using i by (simp add: id_take_nth_drop)
  then have "sum_list (map budget cs) = sum_list (map budget (take i cs @ cs ! i # drop (Suc i) cs))" by simp
  then show ?thesis using i by (simp add: upd_conv_take_nth_drop)
qed

text \<open>What a step of consumer \<open>i\<close> has to establish.\<close>

lemma dq_change:
  assumes inv: "dq_inv tk s" and i: "i < length (consumers s)"
    and q: "unat (dequeueOptimisticCount q') = sums want tk'" "unat (dequeueOvercommit q') = sums ret tk'"
      "unat (headIndex q') = sums taken tk'" "tailIndex q' = tailIndex (cnt s)"
    and ok: "tickets_ok (produced s) 0 0 tk'"
    and budget: "sums want tk' + budget p' + asked s \<le> sums want tk + budget (consumers s ! i) + asked'"
    and who: "\<forall>t\<in>set tk'. \<forall>j. who t = Some j \<longrightarrow> j < length (consumers s)"
    and pre: "pre_ok q' p'" "unat (dequeueOvercommit (cnt s)) \<le> unat (dequeueOvercommit q')"
    and self: "holds_ticket tk' i p'"
    and others: "\<And>j p. j \<noteq> i \<Longrightarrow> holds_ticket tk j p \<Longrightarrow> holds_ticket tk' j p"
    and served: "concat (map (\<lambda>(f, c). [f..<f + c]) served') = [0..<unat (headIndex q')]"
  shows "dq_inv tk' (s\<lparr>cnt := q', consumers := (consumers s)[i := p'], served := served', asked := asked'\<rparr>)"
proof -
  have "sums want tk' + sum_list (map budget ((consumers s)[i := p'])) \<le> asked'"
    using budget_update [OF i, of p'] inv budget unfolding dq_inv_def by linarith
  moreover have "pre_ok q' ((consumers s)[i := p'] ! j) \<and> holds_ticket tk' j ((consumers s)[i := p'] ! j)"
    if "j < length (consumers s)" for j
  proof (cases "j = i")
    case True
    then show ?thesis using i pre self by simp
  next
    case False
    moreover have "pre_ok (cnt s) (consumers s ! j)" "holds_ticket tk j (consumers s ! j)"
      using inv that by (simp_all add: dq_inv_def)
    ultimately show ?thesis using others [OF False] pre(2) by (cases "consumers s ! j") auto
  qed
  ultimately show ?thesis
    using inv q ok who served unfolding dq_inv_def by simp
qed

text \<open>Ticket \<open>k\<close> is the only one of consumer \<open>i\<close>.\<close>

definition the_ticket :: "ticket list \<Rightarrow> nat \<Rightarrow> nat \<Rightarrow> bool" where
  "the_ticket tk i k \<longleftrightarrow> k < length tk \<and> who (tk ! k) = Some i \<and> (\<forall>k'<length tk. who (tk ! k') = Some i \<longrightarrow> k' = k)"

lemma holds_Some:
  "shape p = Some Q \<Longrightarrow> holds_ticket tk i p \<longleftrightarrow> (\<exists>k. the_ticket tk i k \<and> Q (sums want (take k tk)) (tk ! k))"
  unfolding holds_ticket_def the_ticket_def by simp blast

lemma the_ticket_append: "the_ticket tk j k \<Longrightarrow> who t \<noteq> Some j \<Longrightarrow> the_ticket (tk @ [t]) j k"
  by (simp add: the_ticket_def nth_append less_Suc_eq)

lemma the_ticket_new: "\<forall>k<length tk. who (tk ! k) \<noteq> Some i \<Longrightarrow> who t = Some i \<Longrightarrow> the_ticket (tk @ [t]) i (length tk)"
  by (simp add: the_ticket_def nth_append less_Suc_eq)

lemma the_ticket_other:
  assumes j: "the_ticket tk j l" and i: "the_ticket tk i k" and t: "who t = Some i \<or> who t = None" and "j \<noteq> i"
  shows "the_ticket (tk[k := t]) j l \<and> l \<noteq> k"
proof -
  have w: "who (tk ! l) = Some j" "who (tk ! k) = Some i" "l < length tk"
    using j i unfolding the_ticket_def by blast+
  then have "l \<noteq> k" using \<open>j \<noteq> i\<close> by auto
  moreover have "k' = l" if "k' < length (tk[k := t])" "who (tk[k := t] ! k') = Some j" for k'
  proof (cases "k' = k")
    case True
    then show ?thesis using that t \<open>j \<noteq> i\<close> by auto
  next
    case False
    then have "k' < length tk" "who (tk ! k') = Some j" using that by simp_all
    then show ?thesis using j unfolding the_ticket_def by blast
  qed
  moreover have "l < length (tk[k := t])" "who (tk[k := t] ! l) = Some j" using w \<open>l \<noteq> k\<close> by simp_all
  ultimately show ?thesis unfolding the_ticket_def by blast
qed

lemma the_ticket_self: "the_ticket tk i k \<Longrightarrow> who t = Some i \<Longrightarrow> the_ticket (tk[k := t]) i k"
  by (auto simp: the_ticket_def nth_list_update)

lemma holds_append:
  assumes t: "who t \<noteq> Some j" and h: "holds_ticket tk j p"
  shows "holds_ticket (tk @ [t]) j p"
proof (cases "shape p")
  case None
  then have "who ((tk @ [t]) ! k) \<noteq> Some j" if "k < length (tk @ [t])" for k
    using that assms by (cases "k = length tk") (auto simp: holds_ticket_def nth_append)
  then show ?thesis using None by (simp add: holds_ticket_def)
next
  case (Some Q)
  then obtain k where "the_ticket tk j k" "Q (sums want (take k tk)) (tk ! k)" using h holds_Some by blast
  then have "the_ticket (tk @ [t]) j k \<and> Q (sums want (take k (tk @ [t]))) ((tk @ [t]) ! k)"
    using the_ticket_append [OF _ t] by (simp add: the_ticket_def nth_append)
  then show ?thesis using holds_Some [OF Some] by blast
qed

lemma holds_append_self:
  assumes "shape p = None" and "holds_ticket tk i p" and "who t = Some i" and "shape p' = Some Q" and "Q (sums want tk) t"
  shows "holds_ticket (tk @ [t]) i p'"
proof -
  have "\<forall>k<length tk. who (tk ! k) \<noteq> Some i" using assms(1,2) by (simp add: holds_ticket_def)
  then have "the_ticket (tk @ [t]) i (length tk) \<and>
      Q (sums want (take (length tk) (tk @ [t]))) ((tk @ [t]) ! length tk)"
    using assms(3,5) the_ticket_new by simp
  then show ?thesis using holds_Some [OF assms(4)] by blast
qed

lemma holds_update:
  assumes "holds_ticket tk j p" and "the_ticket tk i k" and "who t = Some i \<or> who t = None"
    and "want t = want (tk ! k)" and "j \<noteq> i"
  shows "holds_ticket (tk[k := t]) j p"
proof (cases "shape p")
  case None
  have "k < length tk" using assms(2) by (simp add: the_ticket_def)
  then show ?thesis using None assms by (auto simp: holds_ticket_def nth_list_update)
next
  case (Some Q)
  then obtain l where l: "the_ticket tk j l" "Q (sums want (take l tk)) (tk ! l)" using assms(1) holds_Some by blast
  have k: "k < length tk" using assms(2) by (simp add: the_ticket_def)
  have "the_ticket (tk[k := t]) j l" "l \<noteq> k" using the_ticket_other [OF l(1) assms(2,3,5)] by auto
  moreover have "Q (sums want (take l (tk[k := t]))) (tk[k := t] ! l)"
    unfolding sums_take_update [OF k assms(4)] using l(2) \<open>l \<noteq> k\<close> by simp
  ultimately show ?thesis using holds_Some [OF Some] by blast
qed

lemma holds_update_self:
  assumes "the_ticket tk i k" and "want t = want (tk ! k)"
    and "case shape p of None \<Rightarrow> who t = None | Some Q \<Rightarrow> who t = Some i \<and> Q (sums want (take k tk)) t"
  shows "holds_ticket (tk[k := t]) i p"
proof (cases "shape p")
  case None
  then show ?thesis using assms by (auto simp: holds_ticket_def the_ticket_def nth_list_update)
next
  case (Some Q)
  have k: "k < length tk" using assms(1) by (simp add: the_ticket_def)
  have "Q (sums want (take k (tk[k := t]))) (tk[k := t] ! k)"
    unfolding sums_take_update [OF k assms(2)] using assms(3) Some k by simp
  then show ?thesis using holds_Some [OF Some, of "tk[k := t]" i] the_ticket_self [OF assms(1), of t] assms(3) Some by force
qed

text \<open>Steps of a consumer without a ticket.\<close>

lemma dq_quiet:
  assumes inv: "dq_inv tk s" and i: "i < length (consumers s)" and "shape (consumers s ! i) = None" and "shape p = None"
    and "pre_ok (cnt s) p" and "budget p + asked s \<le> budget (consumers s ! i) + asked'"
  shows "dq_inv tk (s\<lparr>cnt := cnt s, consumers := (consumers s)[i := p], served := served s, asked := asked'\<rparr>)"
proof (rule dq_change [OF inv i])
  have "holds_ticket tk i (consumers s ! i)" using inv i by (simp add: dq_inv_def)
  then show "holds_ticket tk i p" using assms(3,4) by (simp add: holds_ticket_def)
qed (use inv assms in \<open>auto simp: dq_inv_def\<close>)

text \<open>The increment of the optimistic count: a new ticket.\<close>

lemma dq_new_ticket:
  fixes c d :: u64
  assumes inv: "dq_inv tk s" and small: "dq_small s" and i: "i < length (consumers s)"
    and "shape (consumers s ! i) = None" and b: "budget (consumers s ! i) = unat d" and c: "unat c \<le> unat (dequeueOvercommit (cnt s))"
    and Q: "shape p = Some Q" "budget p = 0" "pre_ok (cnt s) p"
    and q: "q' = (cnt s)\<lparr>dequeueOptimisticCount := dequeueOptimisticCount (cnt s) + d\<rparr>"
    and t: "t = \<lparr>who = Some i, want = unat d, oc = unat c, got = 0, ret = 0, taken = 0\<rparr>"
    and "Q (unat (dequeueOptimisticCount (cnt s))) t"
  shows "dq_inv (tk @ [t]) (s\<lparr>cnt := q', consumers := (consumers s)[i := p], served := served s, asked := asked s\<rparr>)"
proof (rule dq_change [OF inv i])
  have "sums want tk + unat d \<le> asked s"
  proof -
    have "budget (consumers s ! i) \<le> sum_list (map budget (consumers s))"
      using i by (simp add: member_le_sum_list)
    then show ?thesis using inv b unfolding dq_inv_def by linarith
  qed
  then show "unat (dequeueOptimisticCount q') = sums want (tk @ [t])"
    using inv small q t by (simp add: dq_inv_def dq_small_def unat_add_u64)
  show "tickets_ok (produced s) 0 0 (tk @ [t])"
    using inv c t by (simp add: dq_inv_def tickets_append ticket_ok_def)
  show "holds_ticket (tk @ [t]) i p"
  proof (rule holds_append_self [where p = "consumers s ! i"])
    show "Q (sums want tk) t" using assms(12) inv by (simp add: dq_inv_def)
  qed (use assms in \<open>auto simp: dq_inv_def\<close>)
  show "pre_ok q' p" using Q(3) q by (cases p) auto
  show "holds_ticket (tk @ [t]) j p'" if "j \<noteq> i" "holds_ticket tk j p'" for j p'
    by (rule holds_append) (use that t in auto)
qed (use inv i q t b Q in \<open>auto simp: dq_inv_def\<close>)

text \<open>A step of a consumer that has a ticket.\<close>

lemma dq_ticket:
  assumes inv: "dq_inv tk s" and small: "dq_small s" and i: "i < length (consumers s)" and p: "shape (consumers s ! i) = Some Q"
    and pre: "pre_ok q' p'" and b: "budget p' = 0"
    and step: "\<And>k t. t = tk ! k \<Longrightarrow> k < length tk \<Longrightarrow> Q (sums want (take k tk)) t \<Longrightarrow>
        ticket_ok (produced s) (sums want (take k tk)) (sums ret (take k tk)) t \<Longrightarrow> who t = Some i \<Longrightarrow>
        sums want (take k tk) + want t \<le> sums want tk \<Longrightarrow>
        \<exists>t'. want t' = want t \<and> ret t \<le> ret t' \<and> ticket_ok (produced s) (sums want (take k tk)) (sums ret (take k tk)) t' \<and>
          (case shape p' of None \<Rightarrow> who t' = None | Some Q' \<Rightarrow> who t' = Some i \<and> Q' (sums want (take k tk)) t') \<and>
          dequeueOptimisticCount q' = dequeueOptimisticCount (cnt s) \<and> tailIndex q' = tailIndex (cnt s) \<and>
          unat (dequeueOvercommit q') + ret t = unat (dequeueOvercommit (cnt s)) + ret t' \<and>
          unat (headIndex q') + taken t = unat (headIndex (cnt s)) + taken t'"
    and served: "concat (map (\<lambda>(f, c). [f..<f + c]) served') = [0..<unat (headIndex q')]"
  shows "\<exists>tk'. dq_inv tk' (s\<lparr>cnt := q', consumers := (consumers s)[i := p'], served := served', asked := asked s\<rparr>)"
proof -
  have "holds_ticket tk i (consumers s ! i)" using inv i by (simp add: dq_inv_def)
  then obtain k where tkt: "the_ticket tk i k" and Qk: "Q (sums want (take k tk)) (tk ! k)" using p holds_Some by blast
  then have k: "k < length tk" "who (tk ! k) = Some i" by (auto simp: the_ticket_def)
  have split: "tk = take k tk @ tk ! k # drop (Suc k) tk" using k(1) by (simp add: id_take_nth_drop)
  have ok: "tickets_ok (produced s) 0 0 tk" using inv by (simp add: dq_inv_def)
  then have tok: "ticket_ok (produced s) (sums want (take k tk)) (sums ret (take k tk)) (tk ! k)"
    by (subst (asm) split) (simp add: tickets_append)
  have "sums want tk = sums want (take k tk @ tk ! k # drop (Suc k) tk)" using split by simp
  then have le: "sums want (take k tk) + want (tk ! k) \<le> sums want tk" by simp
  from step [OF refl k(1) Qk tok k(2) le] obtain t' where t': "want t' = want (tk ! k)" "ret (tk ! k) \<le> ret t'"
    "ticket_ok (produced s) (sums want (take k tk)) (sums ret (take k tk)) t'"
    "case shape p' of None \<Rightarrow> who t' = None | Some Q' \<Rightarrow> who t' = Some i \<and> Q' (sums want (take k tk)) t'"
    "dequeueOptimisticCount q' = dequeueOptimisticCount (cnt s)" "tailIndex q' = tailIndex (cnt s)"
    "unat (dequeueOvercommit q') + ret (tk ! k) = unat (dequeueOvercommit (cnt s)) + ret t'"
    "unat (headIndex q') + taken (tk ! k) = unat (headIndex (cnt s)) + taken t'" by blast
  have w: "who t' = Some i \<or> who t' = None" using t'(4) by (auto split: option.splits)
  have sums: "sums want (tk[k := t']) = sums want tk"
    "sums ret (tk[k := t']) + ret (tk ! k) = sums ret tk + ret t'"
    "sums taken (tk[k := t']) + taken (tk ! k) = sums taken tk + taken t'"
    using sums_update [OF k(1), of want t'] sums_update [OF k(1), of ret t'] sums_update [OF k(1), of taken t'] t'(1) by simp_all
  have "dq_inv (tk[k := t']) (s\<lparr>cnt := q', consumers := (consumers s)[i := p'], served := served', asked := asked s\<rparr>)"
  proof (rule dq_change [OF inv i])
    show "unat (dequeueOptimisticCount q') = sums want (tk[k := t'])" using inv t'(5) sums(1) by (simp add: dq_inv_def)
    show "unat (dequeueOvercommit q') = sums ret (tk[k := t'])"
      using inv t'(7) sums(2) unfolding dq_inv_def by linarith
    show "unat (headIndex q') = sums taken (tk[k := t'])"
      using inv t'(8) sums(3) unfolding dq_inv_def by linarith
    show "tickets_ok (produced s) 0 0 (tk[k := t'])"
      by (rule tickets_update [OF ok k(1)]) (use t' in auto)
    show "sums want (tk[k := t']) + budget p' + asked s \<le> sums want tk + budget (consumers s ! i) + asked s"
      using sums(1) b by simp
    show "\<forall>t\<in>set (tk[k := t']). \<forall>j. who t = Some j \<longrightarrow> j < length (consumers s)"
    proof
      fix t assume "t \<in> set (tk[k := t'])"
      then have "t = t' \<or> t \<in> set tk" using set_update_subset_insert [of tk k t'] by blast
      then show "\<forall>j. who t = Some j \<longrightarrow> j < length (consumers s)" using inv w i by (auto simp: dq_inv_def)
    qed
    show "unat (dequeueOvercommit (cnt s)) \<le> unat (dequeueOvercommit q')" using t'(2,7) by linarith
    show "holds_ticket (tk[k := t']) i p'" by (rule holds_update_self [OF tkt t'(1,4)])
    show "holds_ticket (tk[k := t']) j p" if "j \<noteq> i" "holds_ticket tk j p" for j p
      by (rule holds_update [OF that(2) tkt w t'(1) that(1)])
  qed (use pre served t'(6) in auto)
  then show ?thesis by blast
qed


text \<open>What follows for the counters.\<close>

lemma dq_inv_bounds:
  assumes "dq_inv tk s" and "dq_small s"
  shows "unat (headIndex (cnt s)) \<le> sums got tk" "sums got tk \<le> unat (tailIndex (cnt s))"
    "sums want tk < 2 ^ 63" "sums got tk + sums ret tk \<le> sums want tk" "unat (tailIndex (cnt s)) < 2 ^ 63"
proof -
  have ok: "tickets_ok (produced s) 0 0 tk" using assms(1) by (simp add: dq_inv_def)
  show "unat (headIndex (cnt s)) \<le> sums got tk" "sums got tk + sums ret tk \<le> sums want tk"
    using tickets_bounds [OF ok] assms(1) by (simp_all add: dq_inv_def)
  show "sums got tk \<le> unat (tailIndex (cnt s))"
    using tickets_promise [OF ok, of 0] assms(1) by (simp add: dq_inv_def)
  show "sums want tk < 2 ^ 63" "unat (tailIndex (cnt s)) < 2 ^ 63"
    using assms unfolding dq_inv_def dq_small_def by linarith+
qed

lemma check_facts:
  assumes inv: "dq_inv tk s" and i: "i < length (consumers s)" and p: "shape (consumers s ! i) = Some Q"
    and Q: "\<And>w t. Q w t \<Longrightarrow> w = unat my \<and> oc t = unat c"
  shows "unat c \<le> unat my" "unat my \<le> sums want tk"
proof -
  obtain k where k: "the_ticket tk i k" "Q (sums want (take k tk)) (tk ! k)"
    using inv i p holds_Some by (metis dq_inv_def)
  have "tk = take k tk @ tk ! k # drop (Suc k) tk" using k(1) by (simp add: id_take_nth_drop the_ticket_def)
  moreover have "tickets_ok (produced s) 0 0 tk" using inv by (simp add: dq_inv_def)
  ultimately have ok: "tickets_ok (produced s) 0 0 (take k tk @ tk ! k # drop (Suc k) tk)"
    and sum: "sums want tk = sums want (take k tk @ tk ! k # drop (Suc k) tk)" by simp_all
  from ok have "oc (tk ! k) \<le> sums ret (take k tk)" "sums ret (take k tk) \<le> sums want (take k tk)"
    using tickets_bounds [of "produced s" 0 0 "take k tk"] by (auto simp: tickets_append ticket_ok_def)
  then show "unat c \<le> unat my" "unat my \<le> sums want tk" using Q [OF k(2)] sum by simp_all
qed

lemma run_consumerI:
  assumes "dq_step ndebug (consumers s ! i) (cnt s) = (p', q')"
    and "dq_inv tk' (s\<lparr>cnt := q', consumers := (consumers s)[i := p'],
           served := served s @ served_by (consumers s ! i) (cnt s), asked := asked s\<rparr>)"
  shows "\<exists>tk. dq_inv tk (run_consumer ndebug i s)"
  using assms by (auto simp: run_consumer_def)

lemma run_quiet:
  assumes inv: "dq_inv tk s" and i: "i < length (consumers s)" and st: "dq_step ndebug (consumers s ! i) (cnt s) = (p, cnt s)"
    and "served_by (consumers s ! i) (cnt s) = []" and "shape (consumers s ! i) = None" and "shape p = None"
    and "pre_ok (cnt s) p" and "budget p \<le> budget (consumers s ! i)"
  shows "\<exists>tk. dq_inv tk (run_consumer ndebug i s)"
  by (rule run_consumerI [OF st]) (use dq_quiet [OF inv i, of p "asked s"] assms in simp)

lemma run_take:
  assumes inv: "dq_inv tk s" and small: "dq_small s" and i: "i < length (consumers s)"
    and p: "consumers s ! i = D_take c \<or> consumers s ! i = B_take d c"
  shows "\<exists>tk. dq_inv tk (run_consumer ndebug i s)"
proof -
  have c: "unat c \<le> unat (dequeueOvercommit (cnt s))" using inv i p by (force simp: dq_inv_def)
  show ?thesis
  proof (cases "consumers s ! i = D_take c")
    case True
    let ?p = "D_check c (dequeueOptimisticCount (cnt s))"
    have "\<exists>tk. dq_inv tk (s\<lparr>cnt := (cnt s)\<lparr>dequeueOptimisticCount := dequeueOptimisticCount (cnt s) + 1\<rparr>,
        consumers := (consumers s)[i := ?p], served := served s, asked := asked s\<rparr>)"
      by (rule exI, rule dq_new_ticket [OF inv small i _ _ c shape.simps(1) _ _ refl refl]) (use True in auto)
    then show ?thesis using True run_consumerI [of ndebug s i] by (auto simp: dq_step_def served_by_def)
  next
    case False
    then have B: "consumers s ! i = B_take d c" using p by simp
    let ?p = "B_check d c (dequeueOptimisticCount (cnt s))"
    have "\<exists>tk. dq_inv tk (s\<lparr>cnt := (cnt s)\<lparr>dequeueOptimisticCount := dequeueOptimisticCount (cnt s) + d\<rparr>,
        consumers := (consumers s)[i := ?p], served := served s, asked := asked s\<rparr>)"
      by (rule exI, rule dq_new_ticket [OF inv small i _ _ c shape.simps(4) _ _ refl refl]) (use B in auto)
    then show ?thesis using B run_consumerI [of ndebug s i] by (auto simp: dq_step_def served_by_def)
  qed
qed

lemma run_ticket:
  assumes inv: "dq_inv tk s" and small: "dq_small s" and i: "i < length (consumers s)" and p: "shape (consumers s ! i) = Some Q"
    and st: "dq_step ndebug (consumers s ! i) (cnt s) = (p', q')" and pre: "pre_ok q' p'" "budget p' = 0"
    and step: "\<And>w r t. Q w t \<Longrightarrow> ticket_ok (produced s) w r t \<Longrightarrow> who t = Some i \<Longrightarrow> want t \<le> sums want tk \<Longrightarrow>
        \<exists>t'. want t' = want t \<and> ret t \<le> ret t' \<and> ticket_ok (produced s) w r t' \<and>
          (case shape p' of None \<Rightarrow> who t' = None | Some Q' \<Rightarrow> who t' = Some i \<and> Q' w t') \<and>
          dequeueOptimisticCount q' = dequeueOptimisticCount (cnt s) \<and> tailIndex q' = tailIndex (cnt s) \<and>
          unat (dequeueOvercommit q') + ret t = unat (dequeueOvercommit (cnt s)) + ret t' \<and>
          unat (headIndex q') + taken t = unat (headIndex (cnt s)) + taken t'"
    and served: "concat (map (\<lambda>(f, c). [f..<f + c]) (served s @ served_by (consumers s ! i) (cnt s))) = [0..<unat (headIndex q')]"
  shows "\<exists>tk. dq_inv tk (run_consumer ndebug i s)"
proof -
  have "\<exists>tk'. dq_inv tk' (s\<lparr>cnt := q', consumers := (consumers s)[i := p'],
      served := served s @ served_by (consumers s ! i) (cnt s), asked := asked s\<rparr>)"
    by (rule dq_ticket [OF inv small i p pre _ served]) (rule step; simp)
  then show ?thesis using run_consumerI [OF st] by blast
qed

lemma run_check:
  assumes inv: "dq_inv tk s" and small: "dq_small s" and i: "i < length (consumers s)" and p: "consumers s ! i = D_check c my"
  shows "\<exists>tk. dq_inv tk (run_consumer ndebug i s)"
proof -
  let ?Q = "\<lambda>w t. w = unat my \<and> oc t = unat c \<and> want t = 1 \<and> got t = 0 \<and> ret t = 0 \<and> taken t = 0"
  have Q: "shape (consumers s ! i) = Some ?Q" using p by simp
  have my: "unat c \<le> unat my" "unat my < 2 ^ 63"
    using check_facts [OF inv i Q, of my c] dq_inv_bounds(3) [OF inv small] by auto
  have test: "circular_less_than (my - c) (tailIndex (cnt s)) \<longleftrightarrow> unat my - unat c < produced s"
    using my dq_inv_bounds(5) [OF inv small] inv by (simp add: circular_small unat_sub_u64 dq_inv_def)
  have sv: "concat (map (\<lambda>(f, c). [f..<f + c]) (served s @ served_by (consumers s ! i) (cnt s))) = [0..<unat (headIndex (cnt s))]"
    using inv p by (simp add: dq_inv_def served_by_def)
  show ?thesis
  proof (cases "unat my - unat c < produced s")
    case True
    show ?thesis
      by (rule run_ticket [OF inv small i Q _ _ _ _ sv, of ndebug D_head])
        (use p my True test in \<open>auto simp: dq_step_def word_le_nat_alt ticket_ok_def intro!: exI [of _ "_\<lparr>got := 1\<rparr>"]\<close>)
  next
    case False
    show ?thesis
      by (rule run_ticket [OF inv small i Q _ _ _ _ sv, of ndebug D_undo])
        (use p my False test in \<open>auto simp: dq_step_def word_le_nat_alt\<close>)
  qed
qed


lemma run_bulk_check:
  assumes inv: "dq_inv tk s" and small: "dq_small s" and i: "i < length (consumers s)" and p: "consumers s ! i = B_check d c my"
  shows "\<exists>tk. dq_inv tk (run_consumer ndebug i s)"
proof -
  let ?Q = "\<lambda>w t. w = unat my \<and> oc t = unat c \<and> want t = unat d \<and> got t = 0 \<and> ret t = 0 \<and> taken t = 0"
  let ?a = "tailIndex (cnt s) - (my - c)"
  have Q: "shape (consumers s ! i) = Some ?Q" using p by simp
  have my: "unat c \<le> unat my" "unat my < 2 ^ 63"
    using check_facts [OF inv i Q, of my c] dq_inv_bounds(3) [OF inv small] by auto
  then have mc: "unat (my - c) = unat my - unat c" by (simp add: unat_sub_u64)
  have tail: "unat (tailIndex (cnt s)) = produced s" "produced s < 2 ^ 63"
    using inv small by (auto simp: dq_inv_def dq_small_def)
  have test: "circular_less_than 0 ?a \<longleftrightarrow> unat my - unat c < produced s"
    using my mc tail by (simp add: circular_ahead)
  have sv: "concat (map (\<lambda>(f, c). [f..<f + c]) (served s @ served_by (consumers s ! i) (cnt s))) = [0..<unat (headIndex (cnt s))]"
    using inv p by (simp add: dq_inv_def served_by_def)
  show ?thesis
  proof (cases "unat my - unat c < produced s")
    case True
    have a: "unat ?a = produced s - (unat my - unat c)" using True mc tail by (simp add: unat_sub_u64)
    show ?thesis
    proof (cases "?a < d")
      case True
      then show ?thesis
        by (intro run_ticket [OF inv small i Q _ _ _ _ sv, of ndebug "B_undo d ?a"])
          (use p my a test \<open>unat my - unat c < produced s\<close> in
            \<open>auto simp: dq_step_def word_le_nat_alt word_less_nat_alt Let_def ticket_ok_def intro!: exI [of _ "_\<lparr>got := unat ?a\<rparr>"]\<close>)
    next
      case False
      then have "(if d < ?a then d else ?a) = d" by auto
      then have "dq_step ndebug (consumers s ! i) (cnt s) = (B_head d, cnt s)"
        using p my test \<open>unat my - unat c < produced s\<close> by (simp add: dq_step_def word_le_nat_alt Let_def)
      with False show ?thesis
        by (intro run_ticket [OF inv small i Q _ _ _ _ sv, of ndebug "B_head d"])
          (use p my a test \<open>unat my - unat c < produced s\<close> in
            \<open>auto simp: dq_step_def word_le_nat_alt word_less_nat_alt Let_def ticket_ok_def intro!: exI [of _ "_\<lparr>got := unat d\<rparr>"]\<close>)
    qed
  next
    case False
    show ?thesis
      by (rule run_ticket [OF inv small i Q _ _ _ _ sv, of ndebug "B_fail d"])
        (use p my False test in \<open>auto simp: dq_step_def word_le_nat_alt\<close>)
  qed
qed

text \<open>The increments of the overcommit and of the head index.\<close>

lemma run_undo:
  assumes inv: "dq_inv tk s" and small: "dq_small s" and i: "i < length (consumers s)"
    and p: "consumers s ! i = D_undo \<or> consumers s ! i = B_fail d \<or> consumers s ! i = B_undo d a"
  shows "\<exists>tk. dq_inv tk (run_consumer ndebug i s)"
proof -
  have l: "unat (dequeueOvercommit (cnt s)) < 2 ^ 63"
    using dq_inv_bounds(3,4) [OF inv small] inv unfolding dq_inv_def by linarith
  have w: "n < 2 ^ 63" if "n \<le> sums want tk" for n using dq_inv_bounds(3) [OF inv small] that by linarith
  have sv: "concat (map (\<lambda>(f, c). [f..<f + c]) (served s @ served_by (consumers s ! i) (cnt s))) = [0..<unat (headIndex (cnt s))]"
    using inv p by (auto simp: dq_inv_def served_by_def)
  let ?q = "\<lambda>d. (cnt s)\<lparr>dequeueOvercommit := dequeueOvercommit (cnt s) + d\<rparr>"
  from p consider "consumers s ! i = D_undo" | "consumers s ! i = B_fail d" | "consumers s ! i = B_undo d a" by blast
  then show ?thesis
  proof cases
    case 1
    then show ?thesis
      by (intro run_ticket [OF inv small i shape.simps(3) [folded 1], of ndebug "Got 0 0" "?q 1"])
        (use sv l in \<open>auto simp: dq_step_def ticket_ok_def unat_add_u64 intro!: exI [of _ "_\<lparr>ret := 1, who := None\<rparr>"]\<close>)
  next
    case 2
    then show ?thesis
      by (intro run_ticket [OF inv small i shape.simps(7) [of d, folded 2], of ndebug "Got 0 0" "?q d"])
        (use sv l in \<open>auto simp: dq_step_def ticket_ok_def unat_add_u64 dest!: w intro!: exI [of _ "_\<lparr>ret := unat d, who := None\<rparr>"]\<close>)
  next
    case 3
    then show ?thesis
      by (intro run_ticket [OF inv small i shape.simps(5) [of d a, folded 3], of ndebug "B_head a" "?q (d - a)"])
        (use sv l in \<open>auto simp: dq_step_def ticket_ok_def unat_add_u64 unat_sub_u64 word_less_nat_alt dest!: w
           intro!: exI [of _ "_\<lparr>ret := unat d - unat a\<rparr>"]\<close>)
  qed
qed

lemma run_head:
  assumes inv: "dq_inv tk s" and small: "dq_small s" and i: "i < length (consumers s)"
    and p: "consumers s ! i = D_head \<or> consumers s ! i = B_head a"
  shows "\<exists>tk. dq_inv tk (run_consumer ndebug i s)"
proof -
  have l: "unat (headIndex (cnt s)) < 2 ^ 63" using dq_inv_bounds(1,2,5) [OF inv small] by linarith
  have w: "n < 2 ^ 63" if "n \<le> sums want tk" for n using dq_inv_bounds(3) [OF inv small] that by linarith
  have sv: "concat (map (\<lambda>(f, c). [f..<f + c]) (served s)) = [0..<unat (headIndex (cnt s))]"
    using inv by (auto simp: dq_inv_def)
  show ?thesis
  proof (cases "consumers s ! i = D_head")
    case True
    then show ?thesis
      by (intro run_ticket [OF inv small i shape.simps(2) [folded True], of ndebug "Got (headIndex (cnt s)) 1"
            "(cnt s)\<lparr>headIndex := headIndex (cnt s) + 1\<rparr>"])
        (use sv l in \<open>auto simp: dq_step_def served_by_def ticket_ok_def unat_add_u64 intro!: exI [of _ "_\<lparr>taken := 1, who := None\<rparr>"]\<close>)
  next
    case False
    then have B: "consumers s ! i = B_head a" using p by simp
    have "unat a \<le> sums want tk"
    proof -
      have "holds_ticket tk i (consumers s ! i)" using inv i by (simp add: dq_inv_def)
      then obtain k where k: "the_ticket tk i k" "got (tk ! k) = unat a" "got (tk ! k) + ret (tk ! k) = want (tk ! k)"
        using holds_Some [OF shape.simps(6) [of a, folded B]] by blast
      then have "want (tk ! k) \<in> set (map want tk)" by (simp add: the_ticket_def)
      then have "want (tk ! k) \<le> sums want tk" by (rule member_le_sum_list) simp
      then show ?thesis using k by linarith
    qed
    then have "unat a < 2 ^ 63" by (rule w)
    then have h: "unat (headIndex (cnt s) + a) = unat (headIndex (cnt s)) + unat a"
      using l by (simp add: unat_add_u64)
    moreover have "[0..<m] @ [m..<m + n] = [0..<m + n]" for m n :: nat by (simp flip: upt_add_eq_append)
    ultimately have "concat (map (\<lambda>(f, c). [f..<f + c]) (served s @ served_by (consumers s ! i) (cnt s))) =
        [0..<unat (headIndex (cnt s) + a)]"
      using sv B by (simp add: served_by_def)
    with h B show ?thesis
      by (intro run_ticket [OF inv small i shape.simps(6) [of a, folded B], of ndebug "Got (headIndex (cnt s)) a"
            "(cnt s)\<lparr>headIndex := headIndex (cnt s) + a\<rparr>"])
        (auto simp: dq_step_def ticket_ok_def intro!: exI [of _ "_\<lparr>taken := unat a, who := None\<rparr>"])
  qed
qed


lemma run_consumer_inv:
  assumes inv: "dq_inv tk s" and small: "dq_small s" and i: "i < length (consumers s)"
  shows "\<exists>tk. dq_inv tk (run_consumer ndebug i s)"
proof -
  have pre: "pre_ok (cnt s) (consumers s ! i)" using inv i by (simp add: dq_inv_def)
  show ?thesis
  proof (cases "consumers s ! i")
    case (D_opt tail c)
    then show ?thesis
      by (intro run_quiet [OF inv i, where p = "if _ then _ else _"]) (use pre in \<open>auto simp: dq_step_def served_by_def\<close>)
  next
    case (B_opt mx tail c)
    let ?d = "tail - (dequeueOptimisticCount (cnt s) - c)"
    have "(if ?d < mx then ?d else mx) \<le> mx" by auto
    then show ?thesis using B_opt pre
      by (intro run_quiet [OF inv i, where p = "if circular_less_than 0 ?d then B_take (if ?d < mx then ?d else mx) c else Got 0 0"])
        (simp_all add: dq_step_def served_by_def Let_def word_le_nat_alt)
  next
    case (D_over tail)
    then show ?thesis by (intro run_quiet [OF inv i]) (auto simp: dq_step_def served_by_def)
  next
    case (B_over mx tail)
    then show ?thesis by (intro run_quiet [OF inv i]) (auto simp: dq_step_def served_by_def)
  next
    case Failed
    then show ?thesis using pre by simp
  qed (use run_quiet [OF inv i] run_take [OF inv small i] run_check [OF inv small i] run_bulk_check [OF inv small i]
        run_undo [OF inv small i] run_head [OF inv small i] in \<open>auto simp: dq_step_def served_by_def\<close>)
qed

lemma produce_inv:
  assumes inv: "dq_inv tk s" and "dq_small (produce k s)"
  shows "dq_inv tk (produce k s)"
proof -
  have "produced s + k < 2 ^ 63" using assms(2) by (simp add: dq_small_def produce_def)
  then have "unat (tailIndex (cnt s) + of_nat k) = produced s + k"
    using inv by (simp add: dq_inv_def unat_add_u64 unat_of_nat_u64)
  moreover have "pre_ok (cnt (produce k s)) p = pre_ok (cnt s) p" for p by (cases p) (auto simp: produce_def)
  moreover have "tickets_ok (produced s + k) 0 0 tk"
    using tickets_mono inv by (metis dq_inv_def le_add1 order_refl)
  ultimately show ?thesis using inv unfolding dq_inv_def by (simp add: produce_def)
qed

lemma dq_sys_step_inv:
  assumes "dq_sys_step ndebug s s'" and "dq_small s'" and "\<exists>tk. dq_inv tk s" and "dq_small s"
  shows "\<exists>tk. dq_inv tk s'"
  using assms(1)
proof cases
  case (Dequeue i)
  from assms(3) obtain tk where inv: "dq_inv tk s" by blast
  have "dq_inv tk (s\<lparr>cnt := cnt s, consumers := (consumers s)[i := D_tail], served := served s, asked := asked s + 1\<rparr>)"
    by (rule dq_quiet [OF inv]) (use Dequeue in auto)
  then show ?thesis using Dequeue by auto
next
  case (Dequeue_bulk i mx)
  from assms(3) obtain tk where inv: "dq_inv tk s" by blast
  have "dq_inv tk (s\<lparr>cnt := cnt s, consumers := (consumers s)[i := B_tail mx], served := served s, asked := asked s + unat mx\<rparr>)"
    by (rule dq_quiet [OF inv]) (use Dequeue_bulk in auto)
  then show ?thesis using Dequeue_bulk by auto
next
  case (Return i f c)
  from assms(3) obtain tk where inv: "dq_inv tk s" by blast
  have "dq_inv tk (s\<lparr>cnt := cnt s, consumers := (consumers s)[i := Idle], served := served s, asked := asked s\<rparr>)"
    by (rule dq_quiet [OF inv]) (use Return in auto)
  then show ?thesis using Return by auto
next
  case (Enqueue k)
  then show ?thesis using assms(2,3) produce_inv by blast
next
  case (Run i)
  then show ?thesis using assms(3,4) run_consumer_inv by blast
qed


lemma dq_small_back: "dq_sys_step ndebug s s' \<Longrightarrow> dq_small s' \<Longrightarrow> dq_small s"
  by (cases rule: dq_sys_step.cases) (auto simp: dq_small_def produce_def run_consumer_def split: prod.splits)

lemma dq_init_inv: "dq_inv [] (dq_init k)"
proof -
  have "sum_list (map budget (replicate k Idle)) = 0" by (induction k) auto
  then show ?thesis by (simp add: dq_inv_def dq_init_def new_counters_def holds_ticket_def)
qed

interpretation dequeuers: step_invariant "\<lambda>s. \<exists>k. s = dq_init k" "dq_sys_step ndebug" dq_small
  "\<lambda>s. dq_small s \<longrightarrow> (\<exists>tk. dq_inv tk s)" for ndebug
  by unfold_locales (use dq_init_inv dq_small_back dq_sys_step_inv in blast)+

text \<open>What a consumer returns has been served to it.\<close>

definition got_served :: "dq_sys \<Rightarrow> bool" where
  "got_served s \<longleftrightarrow> (\<forall>f c. Got f c \<in> set (consumers s) \<longrightarrow> c = 0 \<or> (unat f, unat c) \<in> set (served s))"

lemma got_served_update:
  assumes "got_served s" and "\<And>f c. p = Got f c \<Longrightarrow> c = 0 \<or> (unat f, unat c) \<in> set (served s @ ys)"
    and "consumers s' = (consumers s)[i := p]" and "served s' = served s @ ys"
  shows "got_served s'"
  using assms set_update_subset_insert [of "consumers s" i p] unfolding got_served_def by (metis Un_iff insertE set_append subsetD)

lemma dq_step_got:
  "dq_step ndebug p q = (Got f c, q') \<Longrightarrow> p = Got f c \<or> c = 0 \<or> (unat f, unat c) \<in> set (served_by p q)"
  by (cases p) (auto simp: dq_step_def served_by_def Let_def split: if_splits)

lemma got_served_step:
  assumes "dq_sys_step ndebug s s'" and gs: "got_served s"
  shows "got_served s'"
  using assms(1)
proof cases
  case (Run i)
  obtain p q where st: "dq_step ndebug (consumers s ! i) (cnt s) = (p, q)" by fastforce
  show ?thesis
  proof (rule got_served_update [OF gs])
    show "consumers s' = (consumers s)[i := p]" "served s' = served s @ served_by (consumers s ! i) (cnt s)"
      using Run st by (auto simp: run_consumer_def)
    show "c = 0 \<or> (unat f, unat c) \<in> set (served s @ served_by (consumers s ! i) (cnt s))" if "p = Got f c" for f c
    proof -
      have "consumers s ! i \<in> set (consumers s)" using Run by simp
      then show ?thesis
        using dq_step_got [of ndebug "consumers s ! i" "cnt s" f c q] st that gs unfolding got_served_def by fastforce
    qed
  qed
next
  case (Enqueue k)
  then show ?thesis using gs by (simp add: got_served_def produce_def)
next
  case (Dequeue i)
  show ?thesis by (rule got_served_update [OF gs, where ys = "[]"]) (use Dequeue in auto)
next
  case (Dequeue_bulk i mx)
  show ?thesis by (rule got_served_update [OF gs, where ys = "[]"]) (use Dequeue_bulk in auto)
next
  case (Return i f c)
  show ?thesis by (rule got_served_update [OF gs, where ys = "[]"]) (use Return in auto)
qed

lemma got_served_run: "(dq_sys_step ndebug)\<^sup>*\<^sup>* (dq_init k) s \<Longrightarrow> got_served s"
proof (induction rule: rtranclp_induct)
  case base
  then show ?case by (simp add: got_served_def dq_init_def)
qed (rule got_served_step)

lemma all_idle_tickets:
  assumes inv: "dq_inv tk s" and idle: "set (consumers s) \<subseteq> {Idle}"
  shows "sums want tk = sums taken tk + sums ret tk"
proof -
  have "who t = None" if "t \<in> set tk" for t
  proof (rule ccontr)
    assume "who t \<noteq> None"
    then obtain i where i: "who t = Some i" by auto
    then have il: "i < length (consumers s)" using inv that by (auto simp: dq_inv_def)
    then have "consumers s ! i = Idle" using idle nth_mem by blast
    moreover have "holds_ticket tk i (consumers s ! i)" using inv il by (simp add: dq_inv_def)
    ultimately show False using that i by (auto simp: holds_ticket_def in_set_conv_nth)
  qed
  moreover have "tickets_ok (produced s) 0 0 tk" using inv by (simp add: dq_inv_def)
  ultimately show ?thesis
  proof -
    have "tickets_ok tail w r tk \<Longrightarrow> \<forall>t\<in>set tk. who t = None \<Longrightarrow> sums want tk = sums taken tk + sums ret tk" for tail w r
      by (induction tk arbitrary: w r) (fastforce simp: ticket_ok_def)+
    then show ?thesis using \<open>tickets_ok (produced s) 0 0 tk\<close> \<open>\<And>t. t \<in> set tk \<Longrightarrow> who t = None\<close> by blast
  qed
qed

text \<open>
  C25: One producer and any number of consumers that take single elements or several at a time, in any interleaving, as
  long as fewer than \<open>2 ^ 63\<close> elements are produced and asked for. No assertion fails. The indices handed out
  are, in order, exactly those below \<^verbatim>\<open>headIndex\<close>, so none is given twice and none is left
  out, and \<^verbatim>\<open>headIndex\<close> never passes \<^verbatim>\<open>tailIndex\<close>: only elements that have been produced are
  handed out. When no consumer is in a call, the optimistic count less the overcommit is
  the head index, so the next attempt succeeds exactly when the queue is not empty.
\<close>

theorem consumers_share_elements:
  assumes "(dq_sys_step ndebug)\<^sup>*\<^sup>* (dq_init k) s" and "dq_small s"
  shows "Failed \<notin> set (consumers s) \<and>
    concat (map (\<lambda>(f, c). [f..<f + c]) (served s)) = [0..<unat (headIndex (cnt s))] \<and>
    unat (headIndex (cnt s)) \<le> produced s \<and> unat (tailIndex (cnt s)) = produced s \<and>
    (\<forall>f c. Got f c \<in> set (consumers s) \<longrightarrow> c = 0 \<or> (unat f, unat c) \<in> set (served s)) \<and>
    (set (consumers s) \<subseteq> {Idle} \<longrightarrow>
       dequeueOptimisticCount (cnt s) - dequeueOvercommit (cnt s) = headIndex (cnt s))"
proof -
  obtain tk where inv: "dq_inv tk s" using dequeuers.inv_run [of "dq_init k" ndebug s] assms by blast
  have "Failed \<notin> set (consumers s)" using inv by (auto simp: dq_inv_def in_set_conv_nth)
  moreover have "dequeueOptimisticCount (cnt s) - dequeueOvercommit (cnt s) = headIndex (cnt s)" if "set (consumers s) \<subseteq> {Idle}"
  proof -
    have "unat (dequeueOptimisticCount (cnt s)) = unat (headIndex (cnt s)) + unat (dequeueOvercommit (cnt s))"
      using all_idle_tickets [OF inv that] inv by (simp add: dq_inv_def)
    then have "unat (dequeueOptimisticCount (cnt s) - dequeueOvercommit (cnt s)) = unat (headIndex (cnt s))"
      by (simp add: unat_sub_u64)
    then show ?thesis by (simp add: word_unat_eq_iff)
  qed
  moreover have "unat (headIndex (cnt s)) \<le> produced s" using dq_inv_bounds(1,2) [OF inv assms(2)] inv unfolding dq_inv_def by linarith
  ultimately show ?thesis
    using inv got_served_run [OF assms(1)] unfolding got_served_def by (simp add: dq_inv_def)
qed


section \<open>A concrete run\<close>

datatype dq_turn = Produce nat | Take nat | Take_bulk nat u64 | Go nat nat | Back nat

fun dq_do :: "dq_turn \<Rightarrow> dq_sys \<Rightarrow> dq_sys" where
  "dq_do (Produce k) s = produce k s"
| "dq_do (Take i) s =
     (if i < length (consumers s) \<and> consumers s ! i = Idle
      then s\<lparr>consumers := (consumers s)[i := D_tail], asked := asked s + 1\<rparr> else s)"
| "dq_do (Take_bulk i mx) s =
     (if i < length (consumers s) \<and> consumers s ! i = Idle
      then s\<lparr>consumers := (consumers s)[i := B_tail mx], asked := asked s + unat mx\<rparr> else s)"
| "dq_do (Go i k) s = (if i < length (consumers s) then (run_consumer False i ^^ k) s else s)"
| "dq_do (Back i) s =
     (if i < length (consumers s)
      then case consumers s ! i of Got f c \<Rightarrow> s\<lparr>consumers := (consumers s)[i := Idle]\<rparr> | _ \<Rightarrow> s else s)"

lemma dq_go: "i < length (consumers s) \<Longrightarrow> (dq_sys_step False)\<^sup>*\<^sup>* s ((run_consumer False i ^^ k) s)"
proof (induction k)
  case (Suc k)
  have "length (consumers ((run_consumer False i ^^ k) s)) = length (consumers s)"
    by (induction k) (auto simp: run_consumer_def split: prod.splits)
  then have "dq_sys_step False ((run_consumer False i ^^ k) s) ((run_consumer False i ^^ Suc k) s)"
    using Suc.prems dq_sys_step.Run by simp
  then show ?case using Suc by (meson rtranclp.rtrancl_into_rtrancl)
qed simp

lemma dq_do_step: "(dq_sys_step False)\<^sup>*\<^sup>* s (dq_do a s)"
proof (cases a)
  case (Back i)
  then show ?thesis by (auto split: dq_pc.splits intro: dq_sys_step.Return)
qed (auto intro: dq_sys_step.Enqueue dq_sys_step.Dequeue [simplified] dq_sys_step.Dequeue_bulk dq_go)

lemma dq_dos: "(dq_sys_step False)\<^sup>*\<^sup>* s (fold dq_do as s)"
proof (induction as arbitrary: s)
  case (Cons a as)
  then show ?case using dq_do_step [of s a] by (auto intro: rtranclp_trans)
qed simp

text \<open>
  Three elements; a bulk consumer and a single one both see them before either counts itself in. The single one
  comes first; the bulk one asks for three, gets two and gives one back.
\<close>

definition sample_share :: dq_sys where
  "sample_share = fold dq_do
     [Produce 3, Take 0, Take_bulk 1 8, Go 0 3, Go 1 3, Go 0 3, Go 1 4, Back 0, Back 1] (dq_init 2)"

lemma funpow_numeral_apply: "(f ^^ numeral k) x = (f ^^ pred_numeral k) (f x)"
  by (simp add: numeral_eq_Suc funpow_swap1)

lemma dq_init_2: "dq_init 2 = \<lparr>cnt = new_counters, consumers = [Idle, Idle], served = [], asked = 0, produced = 0\<rparr>"
  by (simp add: dq_init_def numeral_eq_Suc)

lemma sample_share_end:
  "consumers sample_share = [Idle, Idle]" "served sample_share = [(0, 1), (1, 2)]"
  "cnt sample_share = \<lparr>tailIndex = 3, headIndex = 3, dequeueOptimisticCount = 4, dequeueOvercommit = 1\<rparr>"
  "asked sample_share = 9" "produced sample_share = 3"
  unfolding sample_share_def dq_init_2
  by (simp_all add: funpow_numeral_apply produce_def run_consumer_def dq_step_def served_by_def new_counters_def circular_less_than_def)

theorem consumers_share_elements_witness:
  "(dq_sys_step False)\<^sup>*\<^sup>* (dq_init 2) sample_share \<and> dq_small sample_share \<and>
   Failed \<notin> set (consumers sample_share) \<and>
   concat (map (\<lambda>(f, c). [f..<f + c]) (served sample_share)) = [0..<unat (headIndex (cnt sample_share))] \<and>
   dequeueOptimisticCount (cnt sample_share) - dequeueOvercommit (cnt sample_share) = headIndex (cnt sample_share)"
proof -
  have r: "(dq_sys_step False)\<^sup>*\<^sup>* (dq_init 2) sample_share" unfolding sample_share_def by (rule dq_dos)
  have sm: "dq_small sample_share" by (simp add: dq_small_def sample_share_end)
  have i: "set (consumers sample_share) \<subseteq> {Idle}" by (simp add: sample_share_end)
  show ?thesis using consumers_share_elements [OF r sm] r sm i by blast
qed

end
