(* ===== verification/Cq_Block.thy ===== *)
theory Cq_Block
  imports Cq_Util
begin

text \<open>
  The blocks of \<^verbatim>\<open>concurrentqueue.h\<close> and the pool they come from: \<^verbatim>\<open>Block\<close> with its two ways of counting
  the elements that have been dequeued, and \<^verbatim>\<open>requisition_block\<close> with the initial pool, the free
  list and the heap. Operations are executed as a whole; the free list, which \<^verbatim>\<open>Cq_Free_List\<close>
  shows to be a stack for a thread on its own, is the list of its blocks.
\<close>

section \<open>Traits, faults, outcomes\<close>

record traits =
  BLOCK_SIZE :: u64
  EXPLICIT_BLOCK_EMPTY_COUNTER_THRESHOLD :: u64
  EXPLICIT_INITIAL_INDEX_SIZE :: u64
  IMPLICIT_INITIAL_INDEX_SIZE :: u64
  TRAITS_MAX_SUBQUEUE_SIZE :: u64
  INITIAL_IMPLICIT_PRODUCER_HASH_SIZE :: u64
  EXPLICIT_CONSUMER_CONSUMPTION_QUOTA_BEFORE_ROTATE :: u32

definition default_traits :: traits where
  "default_traits = \<lparr>BLOCK_SIZE = 32, EXPLICIT_BLOCK_EMPTY_COUNTER_THRESHOLD = 32,
     EXPLICIT_INITIAL_INDEX_SIZE = 32, IMPLICIT_INITIAL_INDEX_SIZE = 32, TRAITS_MAX_SUBQUEUE_SIZE = - 1,
     INITIAL_IMPLICIT_PRODUCER_HASH_SIZE = 32, EXPLICIT_CONSUMER_CONSUMPTION_QUOTA_BEFORE_ROTATE = 256\<rparr>"

definition MAX_SUBQUEUE_SIZE :: "traits \<Rightarrow> u64" where
  "MAX_SUBQUEUE_SIZE tr =
     (if (- 1) - TRAITS_MAX_SUBQUEUE_SIZE tr < BLOCK_SIZE tr then - 1
      else (TRAITS_MAX_SUBQUEUE_SIZE tr + (BLOCK_SIZE tr - 1)) div BLOCK_SIZE tr * BLOCK_SIZE tr)"

text \<open>The static assertions of the class.\<close>

definition pow2_above_1 :: "u64 \<Rightarrow> bool" where
  "pow2_above_1 n \<longleftrightarrow> n > 1 \<and> n AND (n - 1) = 0"

definition static_asserts :: "traits \<Rightarrow> bool" where
  "static_asserts tr \<longleftrightarrow> pow2_above_1 (BLOCK_SIZE tr) \<and> pow2_above_1 (EXPLICIT_BLOCK_EMPTY_COUNTER_THRESHOLD tr) \<and>
     pow2_above_1 (EXPLICIT_INITIAL_INDEX_SIZE tr) \<and> pow2_above_1 (IMPLICIT_INITIAL_INDEX_SIZE tr) \<and>
     INITIAL_IMPLICIT_PRODUCER_HASH_SIZE tr AND (INITIAL_IMPLICIT_PRODUCER_HASH_SIZE tr - 1) = 0"

text \<open>
  What can go wrong: a failing assertion, an index outside an array, an element slot used before
  construction or constructed twice, a null pointer, a block that has been freed, an index entry
  never written, a cast to the wrong type, a structure that does not end.
\<close>

datatype cq_fault = Cq_assert | Cq_bounds | Cq_raw | Cq_live | Cq_null | Cq_freed | Cq_unset | Cq_cast | Cq_endless

datatype cq_AllocationMode = CanAlloc | CannotAlloc

text \<open>How a call ends: it returns, or an exception of the element type passes through.\<close>

datatype 'r ends = Returns 'r | Throws

definition cq_assertion :: "bool \<Rightarrow> bool \<Rightarrow> cq_fault + unit" where
  "cq_assertion ndebug b = (if b \<or> ndebug then Inr () else Inl Cq_assert)"

section \<open>Block\<close>

datatype InnerQueueContext = implicit_context | explicit_context

record 'a block =
  elements :: "'a option list"
  block_next :: "nat option"
  elementsCompletelyDequeued :: u64
  emptyFlags :: "bool list"
  dynamicallyAllocated :: bool

text \<open>
  The constructor leaves the element slots and the flags uninitialised; the flags are set by \<^verbatim>\<open>reset_empty\<close> or
  \<^verbatim>\<open>set_all_empty\<close> before they are read, and stand for \<open>False\<close> here until then.
\<close>

definition new_cq_block :: "traits \<Rightarrow> 'a block" where
  "new_cq_block tr = \<lparr>elements = replicate (unat (BLOCK_SIZE tr)) None, block_next = None,
     elementsCompletelyDequeued = 0, emptyFlags = replicate (unat (BLOCK_SIZE tr)) False, dynamicallyAllocated = True\<rparr>"

definition by_flags :: "traits \<Rightarrow> InnerQueueContext \<Rightarrow> bool" where
  "by_flags tr context \<longleftrightarrow> context = explicit_context \<and> BLOCK_SIZE tr \<le> EXPLICIT_BLOCK_EMPTY_COUNTER_THRESHOLD tr"

text \<open>\<^verbatim>\<open>idx & (BLOCK_SIZE - 1)\<close>, and the first index of the block.\<close>

definition offset_in_block :: "traits \<Rightarrow> u64 \<Rightarrow> nat" where
  "offset_in_block tr idx = unat (idx AND (BLOCK_SIZE tr - 1))"

definition block_base :: "traits \<Rightarrow> u64 \<Rightarrow> u64" where
  "block_base tr idx = idx AND NOT (BLOCK_SIZE tr - 1)"

definition is_empty :: "bool \<Rightarrow> traits \<Rightarrow> InnerQueueContext \<Rightarrow> 'a block \<Rightarrow> cq_fault + bool" where
  "is_empty ndebug tr context b =
     (if by_flags tr context then Inr (list_all (\<lambda>f. f) (take (unat (BLOCK_SIZE tr)) (emptyFlags b)))
      else if elementsCompletelyDequeued b = BLOCK_SIZE tr then Inr True
      else bind_r (cq_assertion ndebug (elementsCompletelyDequeued b \<le> BLOCK_SIZE tr)) (\<lambda>_. Inr False))"

definition set_empty :: "bool \<Rightarrow> traits \<Rightarrow> InnerQueueContext \<Rightarrow> u64 \<Rightarrow> 'a block \<Rightarrow> cq_fault + bool \<times> 'a block" where
  "set_empty ndebug tr context i b =
     (if by_flags tr context
      then let k = unat (BLOCK_SIZE tr) - 1 - offset_in_block tr i in
        bind_r (cq_assertion ndebug (\<not> emptyFlags b ! k))
          (\<lambda>_. Inr (False, b\<lparr>emptyFlags := (emptyFlags b)[k := True]\<rparr>))
      else let prevVal = elementsCompletelyDequeued b in
        bind_r (cq_assertion ndebug (prevVal < BLOCK_SIZE tr))
          (\<lambda>_. Inr (prevVal = BLOCK_SIZE tr - 1, b\<lparr>elementsCompletelyDequeued := prevVal + 1\<rparr>)))"

text \<open>The loop of \<^verbatim>\<open>set_many_empty\<close> over the flags \<open>i\<close> to \<open>i + count - 1\<close>.\<close>

fun set_flags :: "bool \<Rightarrow> nat \<Rightarrow> nat \<Rightarrow> bool list \<Rightarrow> cq_fault + bool list" where
  "set_flags ndebug i 0 fs = Inr fs"
| "set_flags ndebug i (Suc count) fs =
     (if length fs \<le> i then Inl Cq_bounds
      else bind_r (cq_assertion ndebug (\<not> fs ! i)) (\<lambda>_. set_flags ndebug (Suc i) count (fs[i := True])))"

definition set_many_empty ::
    "bool \<Rightarrow> traits \<Rightarrow> InnerQueueContext \<Rightarrow> u64 \<Rightarrow> u64 \<Rightarrow> 'a block \<Rightarrow> cq_fault + bool \<times> 'a block" where
  "set_many_empty ndebug tr context i count b =
     (if by_flags tr context
      then let i = BLOCK_SIZE tr - 1 - (i AND (BLOCK_SIZE tr - 1)) - count + 1 in
        bind_r (set_flags ndebug (unat i) (unat count) (emptyFlags b)) (\<lambda>fs. Inr (False, b\<lparr>emptyFlags := fs\<rparr>))
      else let prevVal = elementsCompletelyDequeued b in
        bind_r (cq_assertion ndebug (prevVal + count \<le> BLOCK_SIZE tr))
          (\<lambda>_. Inr (prevVal + count = BLOCK_SIZE tr, b\<lparr>elementsCompletelyDequeued := prevVal + count\<rparr>)))"

definition set_all_empty :: "traits \<Rightarrow> InnerQueueContext \<Rightarrow> 'a block \<Rightarrow> 'a block" where
  "set_all_empty tr context b =
     (if by_flags tr context then b\<lparr>emptyFlags := replicate (unat (BLOCK_SIZE tr)) True\<rparr>
      else b\<lparr>elementsCompletelyDequeued := BLOCK_SIZE tr\<rparr>)"

definition reset_empty :: "traits \<Rightarrow> InnerQueueContext \<Rightarrow> 'a block \<Rightarrow> 'a block" where
  "reset_empty tr context b =
     (if by_flags tr context then b\<lparr>emptyFlags := replicate (unat (BLOCK_SIZE tr)) False\<rparr>
      else b\<lparr>elementsCompletelyDequeued := 0\<rparr>)"

text \<open>\<^verbatim>\<open>operator[]\<close>, used to construct, read and destroy an element.\<close>

definition construct_at :: "traits \<Rightarrow> u64 \<Rightarrow> 'a \<Rightarrow> 'a block \<Rightarrow> cq_fault + 'a block" where
  "construct_at tr idx x b =
     (let k = offset_in_block tr idx in
      if length (elements b) \<le> k then Inl Cq_bounds
      else if elements b ! k \<noteq> None then Inl Cq_live
      else Inr (b\<lparr>elements := (elements b)[k := Some x]\<rparr>))"

definition element_at :: "traits \<Rightarrow> u64 \<Rightarrow> 'a block \<Rightarrow> cq_fault + 'a" where
  "element_at tr idx b =
     (let k = offset_in_block tr idx in
      if length (elements b) \<le> k then Inl Cq_bounds
      else case elements b ! k of None \<Rightarrow> Inl Cq_raw | Some x \<Rightarrow> Inr x)"

definition destroy_at :: "traits \<Rightarrow> u64 \<Rightarrow> 'a block \<Rightarrow> cq_fault + 'a block" where
  "destroy_at tr idx b = bind_r (element_at tr idx b)
     (\<lambda>_. Inr (b\<lparr>elements := (elements b)[offset_in_block tr idx := None]\<rparr>))"

section \<open>The pool\<close>

text \<open>
  The part of the queue the producers share: the blocks in memory, by address (\<open>None\<close>: not
  allocated or freed), the initial pool (the blocks at addresses below its size), the free list, and the state of
  the allocator: the address it hands out next and how many requests it has seen. Which requests
  succeed is a parameter \<open>ok\<close> of the operations.
\<close>

record 'a pool =
  heap :: "nat \<Rightarrow> 'a block option"
  next_block :: nat
  mallocs :: nat
  initialBlockPoolIndex :: u64
  initialBlockPoolSize :: u64
  freeList :: "nat list"

definition cq_block_at :: "'a pool \<Rightarrow> nat \<Rightarrow> cq_fault + 'a block" where
  "cq_block_at p b = (case heap p b of None \<Rightarrow> Inl Cq_freed | Some blk \<Rightarrow> Inr blk)"

definition cq_put_block :: "nat \<Rightarrow> 'a block \<Rightarrow> 'a pool \<Rightarrow> 'a pool" where
  "cq_put_block b blk p = p\<lparr>heap := (heap p)(b \<mapsto> blk)\<rparr>"

text \<open>\<open>on_block\<close>: a call of a member function of the block at an address.\<close>

definition on_block :: "nat \<Rightarrow> ('a block \<Rightarrow> cq_fault + 'r \<times> 'a block) \<Rightarrow> 'a pool \<Rightarrow> cq_fault + 'r \<times> 'a pool" where
  "on_block b f p = bind_r (cq_block_at p b) (\<lambda>blk. bind_r (f blk) (\<lambda>(r, blk). Inr (r, cq_put_block b blk p)))"

definition create_block :: "traits \<Rightarrow> (nat \<Rightarrow> bool) \<Rightarrow> 'a pool \<Rightarrow> nat option \<times> 'a pool" where
  "create_block tr ok p =
     (if ok (mallocs p)
      then (Some (next_block p),
        p\<lparr>heap := (heap p)(next_block p \<mapsto> new_cq_block tr), next_block := next_block p + 1, mallocs := mallocs p + 1\<rparr>)
      else (None, p\<lparr>mallocs := mallocs p + 1\<rparr>))"

definition destroy_block :: "nat \<Rightarrow> 'a pool \<Rightarrow> cq_fault + 'a pool" where
  "destroy_block b p = bind_r (cq_block_at p b) (\<lambda>_. Inr (p\<lparr>heap := (heap p)(b := None)\<rparr>))"

definition populate_initial_block_list :: "traits \<Rightarrow> (nat \<Rightarrow> bool) \<Rightarrow> u64 \<Rightarrow> 'a pool" where
  "populate_initial_block_list tr ok blockCount =
     (let n = (if blockCount = 0 then 0 else if ok 0 then blockCount else 0) in
      \<lparr>heap = (\<lambda>b. if b < unat n then Some ((new_cq_block tr)\<lparr>dynamicallyAllocated := False\<rparr>) else None),
       next_block = unat n, mallocs = (if blockCount = 0 then 0 else 1),
       initialBlockPoolIndex = 0, initialBlockPoolSize = n, freeList = []\<rparr>)"

definition try_get_block_from_initial_pool :: "'a pool \<Rightarrow> nat option \<times> 'a pool" where
  "try_get_block_from_initial_pool p =
     (if initialBlockPoolIndex p \<ge> initialBlockPoolSize p then (None, p)
      else let index = initialBlockPoolIndex p; p = p\<lparr>initialBlockPoolIndex := index + 1\<rparr> in
        (if index < initialBlockPoolSize p then Some (unat index) else None, p))"

definition add_block_to_free_list :: "nat \<Rightarrow> 'a pool \<Rightarrow> 'a pool" where
  "add_block_to_free_list b p = p\<lparr>freeList := b # freeList p\<rparr>"

definition try_get_block_from_free_list :: "'a pool \<Rightarrow> nat option \<times> 'a pool" where
  "try_get_block_from_free_list p =
     (case freeList p of [] \<Rightarrow> (None, p) | b # bs \<Rightarrow> (Some b, p\<lparr>freeList := bs\<rparr>))"

text \<open>\<^verbatim>\<open>add_blocks_to_free_list\<close> follows the \<^verbatim>\<open>next\<close> pointers of the blocks.\<close>

fun add_blocks_to_free_list :: "nat \<Rightarrow> nat option \<Rightarrow> 'a pool \<Rightarrow> cq_fault + 'a pool" where
  "add_blocks_to_free_list 0 b p = Inl Cq_endless"
| "add_blocks_to_free_list (Suc fuel) None p = Inr p"
| "add_blocks_to_free_list (Suc fuel) (Some b) p =
     bind_r (cq_block_at p b) (\<lambda>blk. add_blocks_to_free_list fuel (block_next blk) (add_block_to_free_list b p))"

definition requisition_block :: "traits \<Rightarrow> (nat \<Rightarrow> bool) \<Rightarrow> cq_AllocationMode \<Rightarrow> 'a pool \<Rightarrow> nat option \<times> 'a pool" where
  "requisition_block tr ok canAlloc p =
     (case try_get_block_from_initial_pool p of
        (Some b, p) \<Rightarrow> (Some b, p)
      | (None, p) \<Rightarrow>
        (case try_get_block_from_free_list p of
           (Some b, p) \<Rightarrow> (Some b, p)
         | (None, p) \<Rightarrow> if canAlloc = CanAlloc then create_block tr ok p else (None, p)))"

end
