(* ===== verification/Cq_Explicit.thy ===== *)
theory Cq_Explicit
  imports Cq_Block
begin

text \<open>
  The sub-queue of a producer token, \<^verbatim>\<open>ExplicitProducer\<close> of \<^verbatim>\<open>concurrentqueue.h\<close>: a ring of blocks and a circular
  index that finds the block of an element. Every operation is executed as a whole.
\<close>

section \<open>State\<close>

text \<open>
  \<^verbatim>\<open>BlockIndexHeader\<close>: the entries hold the first index of a block and its address, and are
  uninitialised at first. \<open>headers\<close> is the chain of headers along \<^verbatim>\<open>prev\<close>, the latest first;
  \<^verbatim>\<open>blockIndex\<close>, \<^verbatim>\<open>pr_blockIndexRaw\<close> and \<^verbatim>\<open>pr_blockIndexEntries\<close> all refer to the latest one.
\<close>

record index_header =
  index_size :: u64
  index_front :: u64
  index_entries :: "(u64 \<times> nat) option list"

record explicit =
  x_tailIndex :: u64
  x_headIndex :: u64
  x_dequeueOptimisticCount :: u64
  x_dequeueOvercommit :: u64
  x_tailBlock :: "nat option"
  headers :: "index_header list"
  pr_blockIndexSlotsUsed :: u64
  pr_blockIndexSize :: u64
  pr_blockIndexFront :: u64

type_synonym 'a xstate = "explicit \<times> 'a pool"

section \<open>The block index\<close>

text \<open>The loop that copies the entries from slot \<open>i\<close> up to the front, at least one.\<close>

fun copy_entries :: "nat \<Rightarrow> u64 \<Rightarrow> u64 \<Rightarrow> u64 \<Rightarrow> (u64 \<times> nat) option list \<Rightarrow> cq_fault + (u64 \<times> nat) option list" where
  "copy_entries 0 msk front i es = Inl Cq_endless"
| "copy_entries (Suc fuel) msk front i es =
     (if length es \<le> unat i then Inl Cq_bounds
      else let i' = (i + 1) AND msk in
        if i' = front then Inr [es ! unat i]
        else bind_r (copy_entries fuel msk front i' es) (\<lambda>cs. Inr (es ! unat i # cs)))"

definition new_block_index :: "(nat \<Rightarrow> bool) \<Rightarrow> u64 \<Rightarrow> 'a xstate \<Rightarrow> cq_fault + bool \<times> 'a xstate" where
  "new_block_index ok numberOfFilledSlotsToExpose = (\<lambda>(e, p).
     (let prevBlockSizeMask = pr_blockIndexSize e - 1; p' = p\<lparr>mallocs := mallocs p + 1\<rparr> in
      if \<not> ok (mallocs p) then Inr (False, (e, p'))
      else let sz = push_bit 1 (pr_blockIndexSize e) in
        bind_r (if pr_blockIndexSlotsUsed e \<noteq> 0
                then case headers e of
                    [] \<Rightarrow> Inl Cq_null
                  | h # _ \<Rightarrow> copy_entries (length (index_entries h)) prevBlockSizeMask (pr_blockIndexFront e)
                      ((pr_blockIndexFront e - pr_blockIndexSlotsUsed e) AND prevBlockSizeMask) (index_entries h)
                else Inr [])
          (\<lambda>cs. Inr (True,
            (e\<lparr>pr_blockIndexSize := sz, pr_blockIndexFront := of_nat (length cs),
              headers := \<lparr>index_size = sz, index_front = numberOfFilledSlotsToExpose - 1,
                  index_entries = cs @ replicate (unat sz - length cs) None\<rparr> # headers e\<rparr>, p')))))"

text \<open>The constructor ignores a failed allocation of the index.\<close>

definition new_explicit :: "traits \<Rightarrow> (nat \<Rightarrow> bool) \<Rightarrow> 'a pool \<Rightarrow> cq_fault + 'a xstate" where
  "new_explicit tr ok p =
     (let sz = drop_bit 1 (EXPLICIT_INITIAL_INDEX_SIZE tr);
          poolBasedIndexSize = drop_bit 1 (ceil_to_pow_2 (initialBlockPoolSize p));
          sz = (if poolBasedIndexSize > sz then poolBasedIndexSize else sz) in
      bind_r (new_block_index ok 0
        (\<lparr>x_tailIndex = 0, x_headIndex = 0, x_dequeueOptimisticCount = 0, x_dequeueOvercommit = 0,
          x_tailBlock = None, headers = [], pr_blockIndexSlotsUsed = 0, pr_blockIndexSize = sz, pr_blockIndexFront = 0\<rparr>, p))
        (\<lambda>(_, s). Inr s))"

section \<open>Enqueue\<close>

text \<open>\<^verbatim>\<open>tailBlock->next\<close>, where there is a tail block.\<close>

definition block_after :: "'a pool \<Rightarrow> nat \<Rightarrow> cq_fault + nat" where
  "block_after p b = bind_r (cq_block_at p b) (\<lambda>blk. case block_next blk of None \<Rightarrow> Inl Cq_null | Some n \<Rightarrow> Inr n)"

definition ahead_is_empty :: "bool \<Rightarrow> traits \<Rightarrow> 'a xstate \<Rightarrow> cq_fault + bool" where
  "ahead_is_empty ndebug tr = (\<lambda>(e, p).
     (case x_tailBlock e of
        None \<Rightarrow> Inr False
      | Some tb \<Rightarrow> bind_r (block_after p tb) (\<lambda>n. bind_r (cq_block_at p n) (is_empty ndebug tr explicit_context))))"

text \<open>Whether the queue may not grow by another block starting at \<open>idx\<close>.\<close>

definition no_leeway :: "traits \<Rightarrow> u64 \<Rightarrow> u64 \<Rightarrow> bool" where
  "no_leeway tr head idx \<longleftrightarrow>
     \<not> circular_less_than head (idx + BLOCK_SIZE tr) \<or>
     (MAX_SUBQUEUE_SIZE tr \<noteq> - 1 \<and> (MAX_SUBQUEUE_SIZE tr = 0 \<or> MAX_SUBQUEUE_SIZE tr - BLOCK_SIZE tr < idx - head))"

text \<open>The new block goes into the ring after the tail block and becomes the tail block.\<close>

definition link_block :: "nat \<Rightarrow> 'a xstate \<Rightarrow> cq_fault + 'a xstate" where
  "link_block n = (\<lambda>(e, p).
     bind_r (cq_block_at p n) (\<lambda>blk.
       (case x_tailBlock e of
          None \<Rightarrow> Inr (e\<lparr>x_tailBlock := Some n\<rparr>, cq_put_block n (blk\<lparr>block_next := Some n\<rparr>) p)
        | Some tb \<Rightarrow>
          bind_r (cq_block_at p tb) (\<lambda>tblk.
            let p = cq_put_block n (blk\<lparr>block_next := block_next tblk\<rparr>) p in
            bind_r (cq_block_at p tb) (\<lambda>tblk.
              Inr (e\<lparr>x_tailBlock := Some n\<rparr>, cq_put_block tb (tblk\<lparr>block_next := Some n\<rparr>) p))))))"

text \<open>At the end of a block: the block ahead if it is empty, or a new one. \<open>False\<close>: cannot enqueue.\<close>

definition start_new_block ::
    "bool \<Rightarrow> traits \<Rightarrow> (nat \<Rightarrow> bool) \<Rightarrow> cq_AllocationMode \<Rightarrow> 'a xstate \<Rightarrow> cq_fault + bool \<times> 'a xstate" where
  "start_new_block ndebug tr ok allocMode s =
     (let currentTailIndex = x_tailIndex (fst s); head = x_headIndex (fst s) in
      bind_r (ahead_is_empty ndebug tr s) (\<lambda>reuse.
        if reuse
        then (case s of (e, p) \<Rightarrow>
          (case x_tailBlock e of
             None \<Rightarrow> Inl Cq_null
           | Some tb \<Rightarrow> bind_r (block_after p tb) (\<lambda>n.
               bind_r (on_block n (\<lambda>blk. Inr ((), reset_empty tr explicit_context blk)) p)
                 (\<lambda>(_, p). Inr (True, (e\<lparr>x_tailBlock := Some n\<rparr>, p))))))
        else bind_r (cq_assertion ndebug (\<not> circular_less_than currentTailIndex head)) (\<lambda>_.
          if no_leeway tr head currentTailIndex then Inr (False, s)
          else bind_r (if headers (fst s) = [] \<or> pr_blockIndexSlotsUsed (fst s) = pr_blockIndexSize (fst s)
              then if allocMode = CannotAlloc then Inr (False, s)
                else new_block_index ok (pr_blockIndexSlotsUsed (fst s)) s
              else Inr (True, s)) (\<lambda>(room, e, p).
            if \<not> room then Inr (False, (e, p))
            else case requisition_block tr ok allocMode p of
                (None, p) \<Rightarrow> Inr (False, (e, p))
              | (Some newBlock, p) \<Rightarrow>
                bind_r (on_block newBlock (\<lambda>blk. Inr ((), reset_empty tr explicit_context blk)) p) (\<lambda>(_, p).
                bind_r (link_block newBlock (e, p)) (\<lambda>(e, p).
                Inr (True, (e\<lparr>pr_blockIndexSlotsUsed := pr_blockIndexSlotsUsed e + 1\<rparr>, p))))))))"

text \<open>The entry of the tail block in the index.\<close>

definition write_entry :: "u64 \<Rightarrow> nat \<Rightarrow> explicit \<Rightarrow> cq_fault + explicit" where
  "write_entry base b e =
     (case headers e of
        [] \<Rightarrow> Inl Cq_null
      | h # hs \<Rightarrow>
        if length (index_entries h) \<le> unat (pr_blockIndexFront e) then Inl Cq_bounds
        else Inr (e\<lparr>headers := h\<lparr>index_entries := (index_entries h)[unat (pr_blockIndexFront e) := Some (base, b)]\<rparr> # hs\<rparr>))"

definition advance_front :: "explicit \<Rightarrow> explicit" where
  "advance_front e = e\<lparr>pr_blockIndexFront := (pr_blockIndexFront e + 1) AND (pr_blockIndexSize e - 1)\<rparr>"

definition publish_front :: "u64 \<Rightarrow> explicit \<Rightarrow> cq_fault + explicit" where
  "publish_front f e = (case headers e of [] \<Rightarrow> Inl Cq_null | h # hs \<Rightarrow> Inr (e\<lparr>headers := h\<lparr>index_front := f\<rparr> # hs\<rparr>))"

definition add_to_index :: "u64 \<Rightarrow> explicit \<Rightarrow> cq_fault + explicit" where
  "add_to_index base e =
     (case x_tailBlock e of
        None \<Rightarrow> Inl Cq_null
      | Some b \<Rightarrow> bind_r (write_entry base b e) (\<lambda>e. bind_r (publish_front (pr_blockIndexFront e) e) (\<lambda>e. Inr (advance_front e))))"

definition construct_in_tail :: "traits \<Rightarrow> u64 \<Rightarrow> 'a \<Rightarrow> 'a xstate \<Rightarrow> cq_fault + 'a xstate" where
  "construct_in_tail tr idx x = (\<lambda>(e, p).
     (case x_tailBlock e of
        None \<Rightarrow> Inl Cq_null
      | Some b \<Rightarrow> bind_r (on_block b (\<lambda>blk. bind_r (construct_at tr idx x blk) (\<lambda>blk. Inr ((), blk))) p)
          (\<lambda>(_, p). Inr (e, p))))"

text \<open>
  \<open>nothrow\<close>: whether the constructor of the element is \<^verbatim>\<open>noexcept\<close>; \<open>throws\<close>: the elements whose construction
  throws when it is not.
\<close>

definition explicit_enqueue ::
    "bool \<Rightarrow> traits \<Rightarrow> (nat \<Rightarrow> bool) \<Rightarrow> bool \<Rightarrow> ('a \<Rightarrow> bool) \<Rightarrow> cq_AllocationMode \<Rightarrow> 'a \<Rightarrow> 'a xstate \<Rightarrow>
     cq_fault + bool ends \<times> 'a xstate" where
  "explicit_enqueue ndebug tr ok nothrow throws allocMode x s =
     (let currentTailIndex = x_tailIndex (fst s); newTailIndex = 1 + currentTailIndex;
          thrown = (\<not> nothrow \<and> throws x) in
      if currentTailIndex AND (BLOCK_SIZE tr - 1) = 0
      then let startBlock = x_tailBlock (fst s); originalBlockIndexSlotsUsed = pr_blockIndexSlotsUsed (fst s) in
        bind_r (start_new_block ndebug tr ok allocMode s) (\<lambda>(started, e, p).
          if \<not> started then Inr (Returns False, (e, p))
          else if thrown
          then Inr (Throws, (e\<lparr>pr_blockIndexSlotsUsed := originalBlockIndexSlotsUsed,
              x_tailBlock := (if startBlock = None then x_tailBlock e else startBlock)\<rparr>, p))
          else if \<not> nothrow
          then bind_r (construct_in_tail tr currentTailIndex x (e, p)) (\<lambda>(e, p).
            bind_r (add_to_index currentTailIndex e) (\<lambda>e. Inr (Returns True, (e\<lparr>x_tailIndex := newTailIndex\<rparr>, p))))
          else bind_r (add_to_index currentTailIndex e) (\<lambda>e.
            bind_r (construct_in_tail tr currentTailIndex x (e, p)) (\<lambda>(e, p).
              Inr (Returns True, (e\<lparr>x_tailIndex := newTailIndex\<rparr>, p)))))
      else if thrown then Inr (Throws, s)
      else bind_r (construct_in_tail tr currentTailIndex x s) (\<lambda>(e, p).
        Inr (Returns True, (e\<lparr>x_tailIndex := newTailIndex\<rparr>, p))))"

section \<open>Dequeue\<close>

text \<open>
  The slot of the index for an element. \<^verbatim>\<open>static_cast<signed>(blockBaseIndex - headBase) / BLOCK_SIZE\<close> divides a signed
  number by a \<^verbatim>\<open>size_t\<close>, so that C++ converts it back and divides without sign.
\<close>

definition index_slot :: "traits \<Rightarrow> index_header \<Rightarrow> u64 \<Rightarrow> cq_fault + u64" where
  "index_slot tr h idx =
     (let localBlockIndexHead = index_front h in
      if length (index_entries h) \<le> unat localBlockIndexHead then Inl Cq_bounds
      else case index_entries h ! unat localBlockIndexHead of
          None \<Rightarrow> Inl Cq_unset
        | Some (headBase, _) \<Rightarrow>
          let offs = (block_base tr idx - headBase) div BLOCK_SIZE tr in
          Inr ((localBlockIndexHead + offs) AND (index_size h - 1)))"

definition entry_block :: "index_header \<Rightarrow> u64 \<Rightarrow> cq_fault + nat" where
  "entry_block h i =
     (if length (index_entries h) \<le> unat i then Inl Cq_bounds
      else case index_entries h ! unat i of None \<Rightarrow> Inl Cq_unset | Some (_, b) \<Rightarrow> Inr b)"

definition find_block :: "traits \<Rightarrow> explicit \<Rightarrow> u64 \<Rightarrow> cq_fault + nat" where
  "find_block tr e idx =
     (case headers e of
        [] \<Rightarrow> Inl Cq_null
      | h # _ \<Rightarrow> bind_r (index_slot tr h idx) (entry_block h))"

text \<open>\<open>throws\<close>: whether the assignment of the element to the caller's variable throws; it is destroyed all the same.\<close>

definition explicit_dequeue ::
    "bool \<Rightarrow> traits \<Rightarrow> ('a \<Rightarrow> bool) \<Rightarrow> 'a xstate \<Rightarrow> cq_fault + 'a option ends \<times> 'a xstate" where
  "explicit_dequeue ndebug tr throws = (\<lambda>(e, p).
     (let tail = x_tailIndex e; overcommit = x_dequeueOvercommit e in
      if \<not> circular_less_than (x_dequeueOptimisticCount e - overcommit) tail then Inr (Returns None, (e, p))
      else let myDequeueCount = x_dequeueOptimisticCount e;
               e = e\<lparr>x_dequeueOptimisticCount := myDequeueCount + 1\<rparr> in
        bind_r (cq_assertion ndebug (overcommit \<le> myDequeueCount)) (\<lambda>_.
          if circular_less_than (myDequeueCount - overcommit) (x_tailIndex e)
          then let idx = x_headIndex e; e = e\<lparr>x_headIndex := idx + 1\<rparr> in
            bind_r (find_block tr e idx) (\<lambda>b.
            bind_r (cq_block_at p b) (\<lambda>blk.
            bind_r (element_at tr idx blk) (\<lambda>x.
            bind_r (destroy_at tr idx blk) (\<lambda>blk.
            bind_r (set_empty ndebug tr explicit_context idx blk) (\<lambda>(_, blk).
              Inr (if throws x then Throws else Returns (Some x), (e, cq_put_block b blk p)))))))
          else Inr (Returns None, (e\<lparr>x_dequeueOvercommit := x_dequeueOvercommit e + 1\<rparr>, p)))))"


section \<open>Bulk enqueue\<close>

text \<open>
  The state of the allocation phase of \<^verbatim>\<open>enqueue_bulk\<close>: \<^verbatim>\<open>blockBaseDiff\<close>, \<^verbatim>\<open>currentTailIndex\<close>, \<^verbatim>\<open>firstAllocatedBlock\<close> and
  \<^verbatim>\<open>originalBlockIndexFront\<close>.
\<close>

record bulk =
  blockBaseDiff :: u64
  currentTail :: u64
  firstAllocatedBlock :: "nat option"
  originalFront :: u64

text \<open>The block becomes the tail block and gets its entry in the index.\<close>

definition bulk_tail_block :: "traits \<Rightarrow> nat \<Rightarrow> bulk \<Rightarrow> explicit \<Rightarrow> cq_fault + bulk \<times> explicit" where
  "bulk_tail_block tr n w e =
     (let e = e\<lparr>x_tailBlock := Some n\<rparr>;
          w = w\<lparr>firstAllocatedBlock := (if firstAllocatedBlock w = None then Some n else firstAllocatedBlock w)\<rparr> in
      bind_r (write_entry (currentTail w) n e) (\<lambda>e. Inr (w, advance_front e)))"

definition bulk_next :: "traits \<Rightarrow> bulk \<Rightarrow> bulk" where
  "bulk_next tr w = w\<lparr>blockBaseDiff := blockBaseDiff w - BLOCK_SIZE tr, currentTail := currentTail w + BLOCK_SIZE tr\<rparr>"

text \<open>First the empty blocks ahead.\<close>

fun bulk_reuse :: "nat \<Rightarrow> bool \<Rightarrow> traits \<Rightarrow> bulk \<Rightarrow> 'a xstate \<Rightarrow> cq_fault + bulk \<times> 'a xstate" where
  "bulk_reuse 0 ndebug tr w s = Inl Cq_endless"
| "bulk_reuse (Suc fuel) ndebug tr w (e, p) =
     (if blockBaseDiff w = 0 then Inr (w, (e, p))
      else case x_tailBlock e of
          None \<Rightarrow> Inr (w, (e, p))
        | Some tb \<Rightarrow> bind_r (block_after p tb) (\<lambda>n.
            if Some n = firstAllocatedBlock w then Inr (w, (e, p))
            else bind_r (bind_r (cq_block_at p n) (is_empty ndebug tr explicit_context)) (\<lambda>free.
              if \<not> free then Inr (w, (e, p))
              else bind_r (bulk_tail_block tr n (bulk_next tr w) e) (\<lambda>(w, e). bulk_reuse fuel ndebug tr w (e, p)))))"

text \<open>Then new blocks; \<open>None\<close>: no room or no memory.\<close>

fun bulk_alloc ::
    "nat \<Rightarrow> bool \<Rightarrow> traits \<Rightarrow> (nat \<Rightarrow> bool) \<Rightarrow> cq_AllocationMode \<Rightarrow> u64 \<Rightarrow> bulk \<Rightarrow> 'a xstate \<Rightarrow>
     cq_fault + bool \<times> bulk \<times> 'a xstate" where
  "bulk_alloc 0 ndebug tr ok allocMode originalSlots w s = Inl Cq_endless"
| "bulk_alloc (Suc fuel) ndebug tr ok allocMode originalSlots w (e, p) =
     (if blockBaseDiff w = 0 then Inr (True, w, (e, p))
      else let w = bulk_next tr w; head = x_headIndex e in
        bind_r (cq_assertion ndebug (\<not> circular_less_than (currentTail w) head)) (\<lambda>_.
          let full = no_leeway tr head (currentTail w) in
          bind_r (if headers e = [] \<or> pr_blockIndexSlotsUsed e = pr_blockIndexSize e \<or> full
              then if allocMode = CannotAlloc \<or> full then Inr (False, w, (e, p))
                else bind_r (new_block_index ok originalSlots (e, p)) (\<lambda>(made, s).
                  Inr (made, if made then w\<lparr>originalFront := originalSlots\<rparr> else w, s))
              else Inr (True, w, (e, p))) (\<lambda>(room, w, e, p).
            if \<not> room then Inr (False, w, (e, p))
            else case requisition_block tr ok allocMode p of
                (None, p) \<Rightarrow> Inr (False, w, (e, p))
              | (Some newBlock, p) \<Rightarrow>
                bind_r (on_block newBlock (\<lambda>blk. Inr ((), set_all_empty tr explicit_context blk)) p) (\<lambda>(_, p).
                bind_r (link_block newBlock (e, p)) (\<lambda>(e, p).
                bind_r (bulk_tail_block tr newBlock w (e\<lparr>pr_blockIndexSlotsUsed := pr_blockIndexSlotsUsed e + 1\<rparr>)) (\<lambda>(w, e).
                  bulk_alloc fuel ndebug tr ok allocMode originalSlots w (e, p)))))))"

text \<open>\<^verbatim>\<open>reset_empty\<close> on the blocks from one to another.\<close>

fun reset_blocks :: "nat \<Rightarrow> traits \<Rightarrow> nat \<Rightarrow> nat option \<Rightarrow> 'a pool \<Rightarrow> cq_fault + 'a pool" where
  "reset_blocks 0 tr b lastBlock p = Inl Cq_endless"
| "reset_blocks (Suc fuel) tr b lastBlock p =
     bind_r (on_block b (\<lambda>blk. Inr ((), reset_empty tr explicit_context blk)) p) (\<lambda>(_, p).
       if Some b = lastBlock then Inr p
       else bind_r (block_after p b) (\<lambda>n. reset_blocks fuel tr n lastBlock p))"

text \<open>Undoing a bulk operation; the blocks stay in the ring.\<close>

definition bulk_undo :: "nat option \<Rightarrow> u64 \<Rightarrow> bulk \<Rightarrow> explicit \<Rightarrow> explicit" where
  "bulk_undo startBlock originalSlots w e =
     e\<lparr>pr_blockIndexFront := originalFront w, pr_blockIndexSlotsUsed := originalSlots,
       x_tailBlock := (if startBlock = None then firstAllocatedBlock w else startBlock)\<rparr>"

text \<open>
  The elements of one block, from index \<open>i\<close>: those constructed, whether one threw, and the rest of the input.
\<close>

fun construct_run :: "nat \<Rightarrow> traits \<Rightarrow> ('a \<Rightarrow> bool) \<Rightarrow> nat option \<Rightarrow> u64 \<Rightarrow> u64 \<Rightarrow> 'a list \<Rightarrow> 'a pool \<Rightarrow>
    cq_fault + bool \<times> u64 \<times> 'a list \<times> 'a pool" where
  "construct_run 0 tr throws b i stop xs p = Inl Cq_endless"
| "construct_run (Suc fuel) tr throws b i stop xs p =
     (if i = stop then Inr (False, i, xs, p)
      else case (b, xs) of
          (None, _) \<Rightarrow> Inl Cq_null
        | (_, []) \<Rightarrow> Inl Cq_bounds
        | (Some a, x # xs) \<Rightarrow>
          if throws x then Inr (True, i, x # xs, p)
          else bind_r (on_block a (\<lambda>blk. bind_r (construct_at tr i x blk) (\<lambda>blk. Inr ((), blk))) p) (\<lambda>(_, p).
            construct_run fuel tr throws b (i + 1) stop xs p))"

definition stop_index :: "traits \<Rightarrow> u64 \<Rightarrow> u64 \<Rightarrow> u64" where
  "stop_index tr endAt i =
     (let stop = block_base tr i + BLOCK_SIZE tr in if circular_less_than endAt stop then endAt else stop)"

text \<open>Block by block up to the last one. The answer: whether an element threw, and the index and block reached.\<close>

fun construct_blocks :: "nat \<Rightarrow> bool \<Rightarrow> traits \<Rightarrow> ('a \<Rightarrow> bool) \<Rightarrow> nat option \<Rightarrow> u64 \<Rightarrow> nat option \<Rightarrow> u64 \<Rightarrow> 'a list \<Rightarrow> 'a pool \<Rightarrow>
    cq_fault + bool \<times> u64 \<times> nat option \<times> 'a pool" where
  "construct_blocks 0 ndebug tr throws endBlock newTail b i xs p = Inl Cq_endless"
| "construct_blocks (Suc fuel) ndebug tr throws endBlock newTail b i xs p =
     bind_r (construct_run (Suc (unat (BLOCK_SIZE tr))) tr throws b i (stop_index tr newTail i) xs p) (\<lambda>(thrown, i, xs, p).
       if thrown then Inr (True, i, b, p)
       else if b = endBlock
       then bind_r (cq_assertion ndebug (i = newTail)) (\<lambda>_. Inr (False, i, b, p))
       else case b of
           None \<Rightarrow> Inl Cq_null
         | Some a \<Rightarrow> bind_r (block_after p a) (\<lambda>n. construct_blocks fuel ndebug tr throws endBlock newTail (Some n) i xs p))"

text \<open>The destruction of the elements from \<open>i\<close> up to an index, in one block.\<close>

fun destroy_run :: "nat \<Rightarrow> traits \<Rightarrow> nat option \<Rightarrow> u64 \<Rightarrow> u64 \<Rightarrow> 'a pool \<Rightarrow> cq_fault + 'a pool" where
  "destroy_run 0 tr b i stop p = Inl Cq_endless"
| "destroy_run (Suc fuel) tr b i stop p =
     (if i = stop then Inr p
      else case b of
          None \<Rightarrow> Inl Cq_null
        | Some a \<Rightarrow> bind_r (on_block a (\<lambda>blk. bind_r (destroy_at tr i blk) (\<lambda>blk. Inr ((), blk))) p)
            (\<lambda>(_, p). destroy_run fuel tr b (i + 1) stop p))"

fun destroy_blocks_from :: "nat \<Rightarrow> traits \<Rightarrow> nat option \<Rightarrow> u64 \<Rightarrow> nat option \<Rightarrow> u64 \<Rightarrow> 'a pool \<Rightarrow> cq_fault + 'a pool" where
  "destroy_blocks_from 0 tr lastBlock constructedStop b i p = Inl Cq_endless"
| "destroy_blocks_from (Suc fuel) tr lastBlock constructedStop b i p =
     (let stop = stop_index tr constructedStop i in
      bind_r (destroy_run (Suc (unat (BLOCK_SIZE tr))) tr b i stop p) (\<lambda>p.
        if b = lastBlock then Inr p
        else case b of
            None \<Rightarrow> Inl Cq_null
          | Some a \<Rightarrow> bind_r (block_after p a) (\<lambda>n. destroy_blocks_from fuel tr lastBlock constructedStop (Some n) stop p)))"

text \<open>The second half of \<^verbatim>\<open>enqueue_bulk\<close>: filling the blocks.\<close>

definition bulk_fill ::
    "bool \<Rightarrow> traits \<Rightarrow> bool \<Rightarrow> ('a \<Rightarrow> bool) \<Rightarrow> 'a list \<Rightarrow> nat option \<Rightarrow> u64 \<Rightarrow> bulk \<Rightarrow> 'a xstate \<Rightarrow>
     cq_fault + bool ends \<times> 'a xstate" where
  "bulk_fill ndebug tr nothrow throws xs startBlock originalSlots w = (\<lambda>(e, p).
     (let start = x_tailIndex e; newTailIndex = start + of_nat (length xs); endBlock = x_tailBlock e;
          first = firstAllocatedBlock w; boundary = (start AND (BLOCK_SIZE tr - 1) = 0);
          b = (if boundary \<and> first \<noteq> None then first else startBlock) in
      bind_r (cq_assertion ndebug (\<not> boundary \<or> first \<noteq> None \<or> xs = [])) (\<lambda>_.
      bind_r (construct_blocks (length xs + 1) ndebug tr (\<lambda>x. \<not> nothrow \<and> throws x) endBlock newTailIndex b start xs p)
        (\<lambda>(thrown, i, lastBlock, p).
          if thrown
          then bind_r (destroy_blocks_from (length xs + 1) tr lastBlock i (if boundary then first else startBlock) start p)
            (\<lambda>p. Inr (Throws, (bulk_undo startBlock originalSlots w e, p)))
          else bind_r (if \<not> nothrow \<and> first \<noteq> None
              then publish_front ((pr_blockIndexFront e - 1) AND (pr_blockIndexSize e - 1)) e else Inr e) (\<lambda>e.
            Inr (Returns True, (e\<lparr>x_tailBlock := lastBlock, x_tailIndex := newTailIndex\<rparr>, p)))))))"

definition explicit_enqueue_bulk ::
    "bool \<Rightarrow> traits \<Rightarrow> (nat \<Rightarrow> bool) \<Rightarrow> bool \<Rightarrow> ('a \<Rightarrow> bool) \<Rightarrow> cq_AllocationMode \<Rightarrow> 'a list \<Rightarrow> 'a xstate \<Rightarrow>
     cq_fault + bool ends \<times> 'a xstate" where
  "explicit_enqueue_bulk ndebug tr ok nothrow throws allocMode xs s =
     (let start = x_tailIndex (fst s); count = of_nat (length xs); startBlock = x_tailBlock (fst s);
          originalSlots = pr_blockIndexSlotsUsed (fst s);
          w = \<lparr>blockBaseDiff = block_base tr (start + count - 1) - block_base tr (start - 1),
               currentTail = block_base tr (start - 1), firstAllocatedBlock = None,
               originalFront = pr_blockIndexFront (fst s)\<rparr>;
          fuel = length xs + 1 in
      if blockBaseDiff w > 0
      then bind_r (bulk_reuse fuel ndebug tr w s) (\<lambda>(w, s).
        bind_r (bulk_alloc fuel ndebug tr ok allocMode originalSlots w s) (\<lambda>(done, w, e, p).
          if \<not> done then Inr (Returns False, (bulk_undo startBlock originalSlots w e, p))
          else case firstAllocatedBlock w of
              None \<Rightarrow> Inl Cq_null
            | Some first \<Rightarrow>
              bind_r (reset_blocks fuel tr first (x_tailBlock e) p) (\<lambda>p.
              bind_r (if nothrow then publish_front ((pr_blockIndexFront e - 1) AND (pr_blockIndexSize e - 1)) e else Inr e) (\<lambda>e.
                bulk_fill ndebug tr nothrow throws xs startBlock originalSlots w (e, p)))))
      else bulk_fill ndebug tr nothrow throws xs startBlock originalSlots w s)"

section \<open>Bulk dequeue\<close>

text \<open>
  The elements from \<open>i\<close> up to \<open>stop\<close> of one block: each is assigned and destroyed; after an assignment that throws the
  rest is only destroyed. The answer: the elements delivered and whether one threw.
\<close>

fun take_run :: "nat \<Rightarrow> traits \<Rightarrow> ('a \<Rightarrow> bool) \<Rightarrow> bool \<Rightarrow> u64 \<Rightarrow> u64 \<Rightarrow> 'a block \<Rightarrow> cq_fault + 'a list \<times> bool \<times> 'a block" where
  "take_run 0 tr throws thrown i stop blk = Inl Cq_endless"
| "take_run (Suc fuel) tr throws thrown i stop blk =
     (if i = stop then Inr ([], thrown, blk)
      else bind_r (element_at tr i blk) (\<lambda>x.
        let thrown = (thrown \<or> throws x) in
        bind_r (destroy_at tr i blk) (\<lambda>blk.
        bind_r (take_run fuel tr throws thrown (i + 1) stop blk) (\<lambda>(xs, t, blk).
          Inr (if thrown then xs else x # xs, t, blk)))))"

fun take_blocks :: "nat \<Rightarrow> bool \<Rightarrow> traits \<Rightarrow> ('a \<Rightarrow> bool) \<Rightarrow> index_header \<Rightarrow> u64 \<Rightarrow> bool \<Rightarrow> u64 \<Rightarrow> u64 \<Rightarrow> 'a pool \<Rightarrow>
    cq_fault + 'a list \<times> bool \<times> 'a pool" where
  "take_blocks 0 ndebug tr throws h endAt thrown indexIndex i p = Inl Cq_endless"
| "take_blocks (Suc fuel) ndebug tr throws h endAt thrown indexIndex i p =
     (let endIndex = stop_index tr endAt i in
      bind_r (entry_block h indexIndex) (\<lambda>b.
      bind_r (cq_block_at p b) (\<lambda>blk.
      bind_r (take_run (Suc (unat (BLOCK_SIZE tr))) tr throws thrown i endIndex blk) (\<lambda>(xs, thrown, blk).
      bind_r (set_many_empty ndebug tr explicit_context i (endIndex - i) blk) (\<lambda>(_, blk).
        let p = cq_put_block b blk p in
        if endIndex = endAt then Inr (xs, thrown, p)
        else bind_r (take_blocks fuel ndebug tr throws h endAt thrown ((indexIndex + 1) AND (index_size h - 1)) endIndex p)
          (\<lambda>(ys, thrown, p). Inr (xs @ ys, thrown, p)))))))"

definition explicit_dequeue_bulk ::
    "bool \<Rightarrow> traits \<Rightarrow> ('a \<Rightarrow> bool) \<Rightarrow> u64 \<Rightarrow> 'a xstate \<Rightarrow> cq_fault + 'a list \<times> u64 ends \<times> 'a xstate" where
  "explicit_dequeue_bulk ndebug tr throws mx = (\<lambda>(e, p).
     (let overcommit = x_dequeueOvercommit e;
          desiredCount = x_tailIndex e - (x_dequeueOptimisticCount e - overcommit) in
      if \<not> circular_less_than 0 desiredCount then Inr ([], Returns 0, (e, p))
      else let desiredCount = (if desiredCount < mx then desiredCount else mx);
               myDequeueCount = x_dequeueOptimisticCount e;
               e = e\<lparr>x_dequeueOptimisticCount := myDequeueCount + desiredCount\<rparr> in
        bind_r (cq_assertion ndebug (overcommit \<le> myDequeueCount)) (\<lambda>_.
          let actualCount = x_tailIndex e - (myDequeueCount - overcommit) in
          if circular_less_than 0 actualCount
          then let actualCount = (if desiredCount < actualCount then desiredCount else actualCount);
                   e = (if actualCount < desiredCount
                        then e\<lparr>x_dequeueOvercommit := x_dequeueOvercommit e + (desiredCount - actualCount)\<rparr> else e);
                   firstIndex = x_headIndex e; e = e\<lparr>x_headIndex := firstIndex + actualCount\<rparr> in
            (case headers e of
               [] \<Rightarrow> Inl Cq_null
             | h # _ \<Rightarrow>
               bind_r (index_slot tr h firstIndex) (\<lambda>indexIndex.
               bind_r (take_blocks (unat actualCount + 1) ndebug tr throws h (firstIndex + actualCount) False indexIndex firstIndex p)
                 (\<lambda>(xs, thrown, p). Inr (xs, if thrown then Throws else Returns actualCount, (e, p)))))
          else Inr ([], Returns 0, (e\<lparr>x_dequeueOvercommit := x_dequeueOvercommit e + desiredCount\<rparr>, p)))))"

section \<open>Destruction\<close>

text \<open>The search for the block that is partly dequeued, from slot \<open>i\<close> of the index.\<close>

fun find_half :: "nat \<Rightarrow> traits \<Rightarrow> u64 \<Rightarrow> u64 \<Rightarrow> index_header \<Rightarrow> u64 \<Rightarrow> cq_fault + u64 \<times> nat" where
  "find_half 0 tr head sz h i = Inl Cq_endless"
| "find_half (Suc fuel) tr head sz h i =
     (if length (index_entries h) \<le> unat i then Inl Cq_bounds
      else case index_entries h ! unat i of
          None \<Rightarrow> Inl Cq_unset
        | Some (base, b) \<Rightarrow>
          if circular_less_than (base + BLOCK_SIZE tr) head then find_half fuel tr head sz h ((i + 1) AND (sz - 1))
          else Inr (base, b))"

definition half_dequeued :: "bool \<Rightarrow> traits \<Rightarrow> explicit \<Rightarrow> cq_fault + nat option" where
  "half_dequeued ndebug tr e =
     (if x_headIndex e AND (BLOCK_SIZE tr - 1) = 0 then Inr None
      else case headers e of
          [] \<Rightarrow> Inl Cq_null
        | h # _ \<Rightarrow>
          bind_r (find_half (length (index_entries h) + 1) tr (x_headIndex e) (pr_blockIndexSize e) h
              ((pr_blockIndexFront e - pr_blockIndexSlotsUsed e) AND (pr_blockIndexSize e - 1))) (\<lambda>(base, b).
            bind_r (cq_assertion ndebug (circular_less_than base (x_headIndex e))) (\<lambda>_. Inr (Some b))))"

text \<open>The elements left in a block: from its first one, or the head, to its last one, or the tail.\<close>

fun destroy_left_run :: "nat \<Rightarrow> traits \<Rightarrow> bool \<Rightarrow> u64 \<Rightarrow> u64 \<Rightarrow> 'a block \<Rightarrow> cq_fault + 'a block" where
  "destroy_left_run 0 tr is_tail lastValidIndex i blk = Inl Cq_endless"
| "destroy_left_run (Suc fuel) tr is_tail lastValidIndex i blk =
     (if i \<noteq> BLOCK_SIZE tr \<and> (\<not> is_tail \<or> i \<noteq> lastValidIndex)
      then bind_r (destroy_at tr i blk) (destroy_left_run fuel tr is_tail lastValidIndex (i + 1))
      else Inr blk)"

definition destroy_left :: "bool \<Rightarrow> traits \<Rightarrow> explicit \<Rightarrow> nat option \<Rightarrow> nat \<Rightarrow> 'a pool \<Rightarrow> cq_fault + 'a pool" where
  "destroy_left ndebug tr e half b p =
     bind_r (cq_block_at p b) (\<lambda>blk.
     bind_r (is_empty ndebug tr explicit_context blk) (\<lambda>free.
       if free then Inr p
       else let msk = BLOCK_SIZE tr - 1;
                i = (if Some b = half then x_headIndex e AND msk else 0);
                lastValidIndex = (if x_tailIndex e AND msk = 0 then BLOCK_SIZE tr else x_tailIndex e AND msk) in
         bind_r (destroy_left_run (Suc (unat (BLOCK_SIZE tr))) tr (Some b = x_tailBlock e) lastValidIndex i blk)
           (\<lambda>blk. Inr (cq_put_block b blk p))))"

fun destroy_ring :: "nat \<Rightarrow> bool \<Rightarrow> traits \<Rightarrow> explicit \<Rightarrow> nat option \<Rightarrow> nat \<Rightarrow> 'a pool \<Rightarrow> cq_fault + 'a pool" where
  "destroy_ring 0 ndebug tr e half b p = Inl Cq_endless"
| "destroy_ring (Suc fuel) ndebug tr e half b p =
     bind_r (block_after p b) (\<lambda>b.
     bind_r (destroy_left ndebug tr e half b p) (\<lambda>p.
       if Some b = x_tailBlock e then Inr p else destroy_ring fuel ndebug tr e half b p))"

fun release_ring :: "nat \<Rightarrow> nat \<Rightarrow> nat \<Rightarrow> 'a pool \<Rightarrow> cq_fault + 'a pool" where
  "release_ring 0 tb b p = Inl Cq_endless"
| "release_ring (Suc fuel) tb b p =
     bind_r (cq_block_at p b) (\<lambda>blk.
     bind_r (block_after p b) (\<lambda>n.
     bind_r (if dynamicallyAllocated blk then destroy_block b p else Inr (add_block_to_free_list b p)) (\<lambda>p.
       if n = tb then Inr p else release_ring fuel tb n p)))"

text \<open>\<open>fuel\<close> bounds the length of the ring. The headers of the index are freed with the producer.\<close>

definition delete_explicit :: "nat \<Rightarrow> bool \<Rightarrow> traits \<Rightarrow> 'a xstate \<Rightarrow> cq_fault + 'a pool" where
  "delete_explicit fuel ndebug tr = (\<lambda>(e, p).
     (case x_tailBlock e of
        None \<Rightarrow> Inr p
      | Some tb \<Rightarrow>
        bind_r (half_dequeued ndebug tr e) (\<lambda>half.
        bind_r (destroy_ring fuel ndebug tr e half tb p) (release_ring fuel tb tb))))"

end
