(* ===== verification/Cq_Index.thy ===== *)
theory Cq_Index
  imports Cq_Block Mpmc_Queue
begin

text \<open>
  Arithmetic of indices that wrap around, for blocks whose size is a power of two: offset and first index of a block,
  the order of indices near each other, and the slot of the circular block index.
\<close>

section \<open>Block sizes\<close>

text \<open>The block size is \<open>2 ^ b\<close>, as the static assertions demand, and not absurdly large.\<close>

definition block_bits :: "traits \<Rightarrow> nat \<Rightarrow> bool" where
  "block_bits tr b \<longleftrightarrow> BLOCK_SIZE tr = 2 ^ b \<and> 1 \<le> b \<and> b \<le> 32"

lemma block_bitsD:
  assumes "block_bits tr b"
  shows "unat (BLOCK_SIZE tr) = 2 ^ b" "BLOCK_SIZE tr = of_nat (2 ^ b)" "b < 64" "(2 :: nat) \<le> 2 ^ b"
proof -
  show "unat (BLOCK_SIZE tr) = 2 ^ b" "BLOCK_SIZE tr = of_nat (2 ^ b)" "b < 64"
    using assms by (simp_all add: block_bits_def unat_exp_u64)
  have "(2 :: nat) ^ 1 \<le> 2 ^ b" using assms unfolding block_bits_def by (intro power_increasing) auto
  then show "(2 :: nat) \<le> 2 ^ b" by simp
qed

lemma word_unat_inverse: "of_nat (unat w) = (w :: u64)"
  by simp

lemma unat_of_nat_mod: "unat (of_nat i :: u64) = i mod 2 ^ 64"
  by (simp add: unat_of_nat take_bit_eq_mod)

lemma of_nat_and_mask:
  assumes "k < 64"
  shows "of_nat i AND (2 ^ k - 1) = (of_nat (i mod 2 ^ k) :: u64)"
proof -
  have k: "(2 :: nat) ^ k dvd 2 ^ 64" by (rule le_imp_power_dvd) (use assms in simp)
  have lt: "i mod 2 ^ k < 2 ^ 64" using assms
    by (metis less_imp_le_nat less_le_trans mod_less_divisor one_le_numeral power_increasing zero_less_numeral zero_less_power)
  have "unat (of_nat i AND (2 ^ k - 1) :: u64) = unat (of_nat i :: u64) mod 2 ^ k"
    using assms by (rule and_mask_mod)
  also have "\<dots> = unat (of_nat (i mod 2 ^ k) :: u64)"
    using mod_mod_cancel [OF k, of i] lt by (simp add: unat_of_nat_mod)
  finally show ?thesis by (simp only: word_unat_eq_iff)
qed

lemma offset_of_nat: "block_bits tr b \<Longrightarrow> offset_in_block tr (of_nat i) = i mod 2 ^ b"
proof -
  assume b: "block_bits tr b"
  have "of_nat i AND (BLOCK_SIZE tr - 1) = (of_nat (i mod 2 ^ b) :: u64)"
    using b of_nat_and_mask [of b i] by (simp add: block_bits_def)
  moreover have "i mod 2 ^ b < 2 ^ 64"
  proof -
    have "i mod 2 ^ b < 2 ^ b" by simp
    also have "(2 :: nat) ^ b < 2 ^ 64" using block_bitsD(3) [OF b] by (intro power_strict_increasing) auto
    finally show ?thesis .
  qed
  ultimately show ?thesis unfolding offset_in_block_def by (simp only: unat_of_nat_u64)
qed

lemma boundary_of_nat: "block_bits tr b \<Longrightarrow> of_nat i AND (BLOCK_SIZE tr - 1) = 0 \<longleftrightarrow> i mod 2 ^ b = 0"
  using offset_of_nat [of tr b i] unat_eq_0 [of "of_nat i AND (BLOCK_SIZE tr - 1)"] by (simp add: offset_in_block_def)

lemma and_not_diff: "x AND NOT m = x - (x AND m)" for x m :: u64
proof -
  have "(x AND m) + (x AND NOT m) = (x AND m) OR (x AND NOT m)"
    by (rule disjunctive_add_eq_or) (simp add: bit_eq_iff bit_simps)
  also have "\<dots> = x" by (auto simp: bit_eq_iff bit_simps)
  finally show ?thesis by (simp add: algebra_simps)
qed

lemma base_of_nat: "block_bits tr b \<Longrightarrow> block_base tr (of_nat i) = of_nat (i div 2 ^ b * 2 ^ b)"
proof -
  assume b: "block_bits tr b"
  have "block_base tr (of_nat i) = of_nat i - of_nat (i mod 2 ^ b)"
    unfolding block_base_def and_not_diff using b of_nat_and_mask [of b i] by (simp add: block_bits_def)
  also have "\<dots> = of_nat (i - i mod 2 ^ b)" by (simp add: of_nat_diff)
  also have "i - i mod 2 ^ b = i div 2 ^ b * 2 ^ b" by (simp add: minus_mod_eq_div_mult)
  finally show ?thesis .
qed

section \<open>Order\<close>

lemma circular_near:
  assumes "m \<le> n" and "n - m < 2 ^ 63"
  shows "circular_less_than (of_nat m) (of_nat n :: u64) \<longleftrightarrow> m < n"
    and "\<not> circular_less_than (of_nat n) (of_nat m :: u64)"
proof -
  have "of_nat n = (of_nat m + of_nat (n - m) :: u64)" using assms(1) by (simp flip: of_nat_add)
  then show "circular_less_than (of_nat m) (of_nat n :: u64) \<longleftrightarrow> m < n"
    and "\<not> circular_less_than (of_nat n) (of_nat m :: u64)"
    using circular_less_than_ahead [OF assms(2), of "of_nat m"] assms(1) by auto
qed

lemma circular_zero:
  "circular_less_than 0 (y - x) \<longleftrightarrow> circular_less_than x (y :: u64)"
  by (simp add: circular_less_than_def)

section \<open>Slots of the circular index\<close>

text \<open>
  Going back from the front by a number of blocks: the difference of two block bases, divided without sign,
  and masked. It is right because the index has at most \<open>2 ^ (64 - b)\<close> slots.
\<close>

lemma index_slot_back:
  assumes b: "block_bits tr b" and sb: "s + b \<le> 64" and kj: "k \<le> j" and near: "(j - k) * 2 ^ b < 2 ^ 64" and s: "s < 64"
  shows "(of_nat ((j + c) mod 2 ^ s) + (of_nat (k * 2 ^ b) - of_nat (j * 2 ^ b)) div BLOCK_SIZE tr) AND (2 ^ s - 1) =
    (of_nat ((k + c) mod 2 ^ s) :: u64)"
proof -
  let ?d = "j - k"
  have B: "BLOCK_SIZE tr = of_nat (2 ^ b)" "unat (BLOCK_SIZE tr) = 2 ^ b" using block_bitsD [OF b] by auto
  have "(2 :: nat) ^ (64 - b) * 2 ^ b = 2 ^ 64" using sb by (simp flip: power_add)
  then have total: "(2 ^ (64 - b) - ?d) * 2 ^ b = 2 ^ 64 - ?d * 2 ^ b" by (simp add: diff_mult_distrib)
  have diff: "(of_nat (k * 2 ^ b) - of_nat (j * 2 ^ b) :: u64) = - of_nat (?d * 2 ^ b)"
    using kj by (simp add: of_nat_diff algebra_simps)
  have div: "(of_nat (k * 2 ^ b) - of_nat (j * 2 ^ b) :: u64) div BLOCK_SIZE tr = of_nat (2 ^ (64 - b) - ?d) \<or> ?d = 0"
  proof (cases "?d = 0")
    case False
    have "- (of_nat (?d * 2 ^ b) :: u64) = of_nat (2 ^ 64 - ?d * 2 ^ b)"
      using near by (simp add: of_nat_diff)
    moreover have "unat (of_nat (2 ^ 64 - ?d * 2 ^ b) :: u64) = 2 ^ 64 - ?d * 2 ^ b"
      by (rule unat_of_nat_u64) (use False in simp)
    ultimately have "unat ((of_nat (k * 2 ^ b) - of_nat (j * 2 ^ b) :: u64) div BLOCK_SIZE tr) = (2 ^ 64 - ?d * 2 ^ b) div 2 ^ b"
      unfolding diff by (simp add: unat_div B(2))
    also have "\<dots> = 2 ^ (64 - b) - ?d" unfolding total [symmetric] by simp
    finally have "of_nat (unat ((of_nat (k * 2 ^ b) - of_nat (j * 2 ^ b) :: u64) div BLOCK_SIZE tr)) =
        (of_nat (2 ^ (64 - b) - ?d) :: u64)" by (rule arg_cong)
    then show ?thesis by (simp only: word_unat_inverse simp_thms)
  qed simp
  have mod: "((j + c) mod 2 ^ s + (2 ^ (64 - b) - ?d)) mod 2 ^ s = (k + c) mod 2 ^ s"
  proof -
    have "?d * 2 ^ b < 2 ^ (64 - b) * 2 ^ b" using near \<open>2 ^ (64 - b) * 2 ^ b = 2 ^ 64\<close> by simp
    then have "?d \<le> 2 ^ (64 - b)" by (meson less_imp_le mult_less_cancel2)
    then have e: "j + c + (2 ^ (64 - b) - ?d) = k + c + 2 ^ (64 - b)" using kj by simp
    have "(2 :: nat) ^ s dvd 2 ^ (64 - b)" using sb by (intro le_imp_power_dvd) simp
    then have "(k + c + 2 ^ (64 - b)) mod 2 ^ s = (k + c) mod 2 ^ s" by (metis mod_add_right_eq add.right_neutral dvd_imp_mod_0)
    then show ?thesis by (metis e mod_add_left_eq)
  qed
  show ?thesis
  proof (cases "?d = 0")
    case True
    then have "k = j" using kj by simp
    then show ?thesis using of_nat_and_mask [OF s, of "(j + c) mod 2 ^ s"] by simp
  next
    case False
    then have "of_nat ((j + c) mod 2 ^ s) + (of_nat (k * 2 ^ b) - of_nat (j * 2 ^ b)) div BLOCK_SIZE tr =
        (of_nat ((j + c) mod 2 ^ s + (2 ^ (64 - b) - ?d)) :: u64)" using div by simp
    then show ?thesis using of_nat_and_mask [OF s, of "(j + c) mod 2 ^ s + (2 ^ (64 - b) - ?d)"] mod by simp
  qed
qed

end
