(* ===== verification/Cq_Pool.thy ===== *)
theory Cq_Pool
  imports Cq_Index
begin

text \<open>
  Laws of the pool and of single blocks: what a requisitioned block is like, and what a block that
  stands for a range of indices looks like before and after an element is added or taken.
\<close>

section \<open>The pool hands out unused blocks\<close>

definition free_blocks :: "'a pool \<Rightarrow> nat set" where
  "free_blocks p = {unat (initialBlockPoolIndex p)..<unat (initialBlockPoolSize p)} \<union> set (freeList p)"

definition raw_block :: "traits \<Rightarrow> 'a block \<Rightarrow> bool" where
  "raw_block tr blk \<longleftrightarrow> elements blk = replicate (unat (BLOCK_SIZE tr)) None \<and> length (emptyFlags blk) = unat (BLOCK_SIZE tr)"

definition pool_ok :: "traits \<Rightarrow> 'a pool \<Rightarrow> bool" where
  "pool_ok tr p \<longleftrightarrow>
     distinct (freeList p) \<and>
     {unat (initialBlockPoolIndex p)..<unat (initialBlockPoolSize p)} \<inter> set (freeList p) = {} \<and>
     (\<forall>b\<in>free_blocks p. \<exists>blk. heap p b = Some blk \<and> raw_block tr blk) \<and>
     (\<forall>b. next_block p \<le> b \<longrightarrow> heap p b = None)"

text \<open>Blocks outside a set \<open>R\<close> that are in use stay as they are, and stay in use.\<close>

definition frame :: "nat set \<Rightarrow> 'a pool \<Rightarrow> 'a pool \<Rightarrow> bool" where
  "frame R p p' \<longleftrightarrow>
     next_block p \<le> next_block p' \<and> initialBlockPoolSize p' = initialBlockPoolSize p \<and>
     (\<forall>b. b \<notin> R \<and> b \<notin> free_blocks p \<and> b < next_block p \<longrightarrow> heap p' b = heap p b \<and> b \<notin> free_blocks p')"

lemma pool_ok_free: "pool_ok tr p \<Longrightarrow> b \<in> free_blocks p \<Longrightarrow> b < next_block p"
  unfolding pool_ok_def by (metis leI option.distinct(1))

lemma frame_refl [simp]: "frame R p p"
  by (simp add: frame_def)

lemma frame_trans:
  assumes "frame R p p'" and "frame R' p' p''" and "R' \<subseteq> R \<union> free_blocks p \<union> {next_block p..}"
  shows "frame R p p''"
proof -
  have "b \<notin> R'" if "b \<notin> R" "b \<notin> free_blocks p" "b < next_block p" for b using that assms(3) by auto
  then show ?thesis using assms(1,2) unfolding frame_def by (metis le_trans less_le_trans)
qed

lemma raw_new: "raw_block tr (new_cq_block tr)"
  by (simp add: raw_block_def new_cq_block_def)

lemma populate_ok: "pool_ok tr (populate_initial_block_list tr ok n)"
  by (auto simp: pool_ok_def free_blocks_def populate_initial_block_list_def raw_block_def new_cq_block_def Let_def)

lemma initial_pool_ok:
  assumes "pool_ok tr p" and "try_get_block_from_initial_pool p = (r, p')"
  shows "pool_ok tr p' \<and> heap p' = heap p \<and> next_block p' = next_block p \<and>
    (case r of None \<Rightarrow> p' = p | Some b \<Rightarrow> b \<in> free_blocks p \<and> free_blocks p' = free_blocks p - {b})"
proof (cases "initialBlockPoolIndex p \<ge> initialBlockPoolSize p")
  case True
  then show ?thesis using assms by (auto simp: try_get_block_from_initial_pool_def)
next
  case False
  let ?i = "initialBlockPoolIndex p"
  have lt: "unat ?i < unat (initialBlockPoolSize p)" using False by (simp add: word_le_nat_alt)
  then have s: "unat (?i + 1) = Suc (unat ?i)"
  proof -
    have "unat (initialBlockPoolSize p) < 2 ^ LENGTH(64)" by (rule unsigned_less)
    then show ?thesis using lt by (subst unat_add_u64) simp_all
  qed
  have p': "p' = p\<lparr>initialBlockPoolIndex := ?i + 1\<rparr>" "r = Some (unat ?i)"
    using assms(2) False by (auto simp: try_get_block_from_initial_pool_def Let_def)
  have f: "unat ?i \<in> free_blocks p" "free_blocks p' = free_blocks p - {unat ?i}"
    using lt s p' assms(1) by (auto simp: free_blocks_def pool_ok_def)
  have "{Suc (unat ?i)..<unat (initialBlockPoolSize p)} \<subseteq> {unat ?i..<unat (initialBlockPoolSize p)}" by auto
  then have "{Suc (unat ?i)..<unat (initialBlockPoolSize p)} \<inter> set (freeList p) = {}"
    using assms(1) unfolding pool_ok_def by blast
  then have "pool_ok tr p'" using f(2) assms(1) p' s unfolding pool_ok_def by simp
  then show ?thesis using f p' by simp
qed

lemma free_list_ok:
  assumes "pool_ok tr p" and "try_get_block_from_free_list p = (r, p')"
  shows "pool_ok tr p' \<and> heap p' = heap p \<and> next_block p' = next_block p \<and>
    (case r of None \<Rightarrow> p' = p | Some b \<Rightarrow> b \<in> free_blocks p \<and> free_blocks p' = free_blocks p - {b})"
proof (cases "freeList p")
  case Nil
  then show ?thesis using assms by (auto simp: try_get_block_from_free_list_def)
next
  case (Cons b bs)
  then have p': "p' = p\<lparr>freeList := bs\<rparr>" "r = Some b"
    using assms(2) by (auto simp: try_get_block_from_free_list_def)
  then have f: "b \<in> free_blocks p" "free_blocks p' = free_blocks p - {b}"
    using Cons assms(1) by (auto simp: free_blocks_def pool_ok_def)
  then show ?thesis using assms(1) p' Cons unfolding pool_ok_def by auto
qed

lemma create_block_ok:
  assumes "pool_ok tr p" and "create_block tr ok p = (r, p')"
  shows "pool_ok tr p' \<and> free_blocks p' = free_blocks p \<and> next_block p \<le> next_block p' \<and>
    (case r of None \<Rightarrow> heap p' = heap p
     | Some b \<Rightarrow> b = next_block p \<and> heap p' = (heap p)(b \<mapsto> new_cq_block tr) \<and> b < next_block p')"
proof -
  have n: "next_block p \<notin> free_blocks p" using pool_ok_free [OF assms(1)] by blast
  show ?thesis
  proof (cases "ok (mallocs p)")
    case True
    then have p': "r = Some (next_block p)" "p' = p\<lparr>heap := (heap p)(next_block p \<mapsto> new_cq_block tr), next_block := next_block p + 1,
        mallocs := mallocs p + 1\<rparr>" using assms(2) by (auto simp: create_block_def)
    then have f: "free_blocks p' = free_blocks p" by (simp add: free_blocks_def)
    have "\<exists>blk. heap p' b = Some blk \<and> raw_block tr blk" if "b \<in> free_blocks p" for b
      using that n assms(1) p' unfolding pool_ok_def by auto
    then have "pool_ok tr p'" using assms(1) p' f unfolding pool_ok_def by auto
    then show ?thesis using p' f by simp
  next
    case False
    then show ?thesis using assms by (auto simp: create_block_def pool_ok_def free_blocks_def)
  qed
qed

text \<open>A requisitioned block is raw, was not in use, and is not free any more.\<close>

lemma requisition_ok:
  assumes ok: "pool_ok tr p" and req: "requisition_block tr oks m p = (r, p')"
  shows "pool_ok tr p' \<and> next_block p \<le> next_block p' \<and>
    (case r of
       None \<Rightarrow> heap p' = heap p \<and> free_blocks p' = free_blocks p
     | Some b \<Rightarrow> (b \<in> free_blocks p \<or> b = next_block p) \<and> free_blocks p' = free_blocks p - {b} \<and> b < next_block p' \<and>
         (\<exists>blk. heap p' b = Some blk \<and> raw_block tr blk) \<and> (\<forall>a. a \<noteq> b \<longrightarrow> heap p' a = heap p a))"
proof -
  have free: "\<exists>blk. heap q b = Some blk \<and> raw_block tr blk" "b < next_block q" if "pool_ok tr q" "b \<in> free_blocks q" for q :: "'a pool" and b
    using that pool_ok_free unfolding pool_ok_def by blast+
  obtain r1 p1 where i: "try_get_block_from_initial_pool p = (r1, p1)" by fastforce
  note i_ok = initial_pool_ok [OF ok i]
  show ?thesis
  proof (cases r1)
    case (Some b)
    then have "r = Some b" "p' = p1" using req i by (auto simp: requisition_block_def)
    then show ?thesis using i_ok Some free [OF ok, of b] by auto
  next
    case None
    then have p1: "p1 = p" using i_ok by simp
    obtain r2 p2 where f: "try_get_block_from_free_list p = (r2, p2)" by fastforce
    note f_ok = free_list_ok [OF ok f]
    show ?thesis
    proof (cases r2)
      case (Some b)
      then have "r = Some b" "p' = p2" using req i None p1 f by (auto simp: requisition_block_def)
      then show ?thesis using f_ok Some free [OF ok, of b] by auto
    next
      case N2: None
      then have p2: "p2 = p" using f_ok by simp
      have n: "next_block p \<notin> free_blocks p" using pool_ok_free [OF ok] by blast
      show ?thesis
      proof (cases "m = CanAlloc")
        case True
        then have "create_block tr oks p = (r, p')" using req i None p1 f N2 p2 by (simp add: requisition_block_def)
        from create_block_ok [OF ok this] show ?thesis using n raw_new by (cases r) auto
      next
        case False
        then have "r = None" "p' = p" using req i None p1 f N2 p2 by (auto simp: requisition_block_def)
        then show ?thesis using ok by simp
      qed
    qed
  qed
qed

lemma requisition_size: "requisition_block tr oks m p = (r, p') \<Longrightarrow> initialBlockPoolSize p' = initialBlockPoolSize p"
  by (auto simp: requisition_block_def try_get_block_from_initial_pool_def try_get_block_from_free_list_def create_block_def
      Let_def split: prod.splits option.splits if_splits list.splits)

lemma requisition_frame:
  assumes "pool_ok tr p" and "requisition_block tr oks m p = (r, p')"
  shows "frame R p p'"
proof -
  have "heap p' b = heap p b \<and> b \<notin> free_blocks p'" if "b \<notin> free_blocks p" "b < next_block p" for b
  proof (cases r)
    case None
    then show ?thesis using requisition_ok [OF assms] that by simp
  next
    case (Some a)
    then have "a \<in> free_blocks p \<or> a = next_block p" and f: "free_blocks p' = free_blocks p - {a}"
      and h: "\<forall>c. c \<noteq> a \<longrightarrow> heap p' c = heap p c" using requisition_ok [OF assms] by auto
    then have "b \<noteq> a" using that by auto
    then show ?thesis using f h that by simp
  qed
  then show ?thesis using requisition_ok [OF assms] requisition_size [OF assms(2)] unfolding frame_def by blast
qed

lemma requisition_fails:
  "requisition_block tr ok m p = (None, p') \<Longrightarrow> m = CannotAlloc \<or> \<not> ok (mallocs p)"
  by (cases m) (auto simp: requisition_block_def try_get_block_from_initial_pool_def try_get_block_from_free_list_def create_block_def
      Let_def split: prod.splits option.splits if_splits list.splits)

lemma put_block_simps [simp]:
  "heap (cq_put_block b blk p) = (heap p)(b \<mapsto> blk)" "free_blocks (cq_put_block b blk p) = free_blocks p"
  "next_block (cq_put_block b blk p) = next_block p" "initialBlockPoolSize (cq_put_block b blk p) = initialBlockPoolSize p"
  by (simp_all add: cq_put_block_def free_blocks_def)

lemma put_block_ok:
  "pool_ok tr p \<Longrightarrow> b \<notin> free_blocks p \<Longrightarrow> b < next_block p \<Longrightarrow> pool_ok tr (cq_put_block b blk p)"
  unfolding pool_ok_def by (auto simp: cq_put_block_def free_blocks_def)

lemma put_block_frame: "b \<in> R \<Longrightarrow> frame R p (cq_put_block b blk p)"
  by (auto simp: frame_def)


text \<open>The allocator's count of requests is nobody else's business.\<close>

lemma mallocs_simps [simp]:
  "free_blocks (p\<lparr>mallocs := m\<rparr>) = free_blocks p" "pool_ok tr (p\<lparr>mallocs := m\<rparr>) = pool_ok tr p"
  "frame R p (p\<lparr>mallocs := m\<rparr>)"
  by (simp_all add: free_blocks_def pool_ok_def frame_def)

text \<open>An owner of the blocks \<open>R\<close> works on them and may take more blocks, \<open>R'\<close> in all.\<close>

definition grows :: "nat set \<Rightarrow> nat set \<Rightarrow> 'a pool \<Rightarrow> 'a pool \<Rightarrow> bool" where
  "grows R R' p p' \<longleftrightarrow> frame R p p' \<and> R \<subseteq> R' \<and> R' \<subseteq> R \<union> free_blocks p \<union> {next_block p..}"

lemma grows_refl [simp]: "grows R R p p"
  by (auto simp: grows_def)

lemma frame_grows: "frame R p p' \<Longrightarrow> grows R R p p'"
  by (auto simp: grows_def)

lemma frame_free: "frame R p p' \<Longrightarrow> free_blocks p' \<subseteq> R \<union> free_blocks p \<union> {next_block p..}"
  unfolding frame_def by (metis UnI1 UnI2 atLeast_iff leI subsetI)

text \<open>The same for an owner that also gives blocks back.\<close>

definition moves :: "nat set \<Rightarrow> nat set \<Rightarrow> 'a pool \<Rightarrow> 'a pool \<Rightarrow> bool" where
  "moves R R' p p' \<longleftrightarrow> frame R p p' \<and> R' \<subseteq> R \<union> free_blocks p \<union> {next_block p..}"

lemma moves_refl [simp]: "moves R R p p"
  by (auto simp: moves_def)

lemma grows_moves: "grows R R' p p' \<Longrightarrow> moves R R' p p'"
  by (simp add: grows_def moves_def)

lemma frame_moves: "frame R p p' \<Longrightarrow> R' \<subseteq> R \<Longrightarrow> moves R R' p p'"
  by (auto simp: moves_def)

lemma moves_trans: "moves R R' p p' \<Longrightarrow> moves R' R'' p' p'' \<Longrightarrow> moves R R'' p p''"
proof -
  assume 1: "moves R R' p p'" and 2: "moves R' R'' p' p''"
  have "next_block p \<le> next_block p'" using 1 by (simp add: moves_def frame_def)
  then have n: "{next_block p'..} \<subseteq> {next_block p..}" by auto
  have f: "frame R p p'" "frame R' p' p''" "R' \<subseteq> R \<union> free_blocks p \<union> {next_block p..}"
    "R'' \<subseteq> R' \<union> free_blocks p' \<union> {next_block p'..}" using 1 2 by (simp_all add: moves_def)
  have "R'' \<subseteq> R \<union> free_blocks p \<union> {next_block p..}"
    by (rule order_trans [OF f(4)]) (intro Un_least f(3) frame_free [OF f(1)] order_trans [OF n] Un_upper2)
  then show ?thesis using frame_trans [OF f(1,2,3)] unfolding moves_def by simp
qed

lemma grows_trans: "grows R R' p p' \<Longrightarrow> grows R' R'' p' p'' \<Longrightarrow> grows R R'' p p''"
  using moves_trans [of R R' p p' R'' p''] by (auto simp: grows_def moves_def)

lemma moves_disjoint:
  "moves R R' p p' \<Longrightarrow> R \<inter> Q = {} \<Longrightarrow> Q \<inter> free_blocks p = {} \<Longrightarrow> Q \<subseteq> {..<next_block p} \<Longrightarrow> R' \<inter> Q = {}"
  unfolding moves_def by (auto simp: subset_iff disjoint_iff not_le[symmetric])

section \<open>A block as a range of indices\<close>

text \<open>
  Block number \<open>k\<close> of a sub-queue whose elements are \<open>el i\<close> for \<open>H \<le> i < T\<close>: the slots in that range hold
  their elements, the others are raw; the flags, stored back to front, or the counter, tell how many
  elements before \<open>H\<close> it had.
\<close>

definition dequeued_rep :: "traits \<Rightarrow> InnerQueueContext \<Rightarrow> nat \<Rightarrow> nat \<Rightarrow> nat \<Rightarrow> 'a block \<Rightarrow> bool" where
  "dequeued_rep tr ctx b H k blk \<longleftrightarrow>
     length (emptyFlags blk) = 2 ^ b \<and>
     (if by_flags tr ctx
      then \<forall>i<2 ^ b. emptyFlags blk ! (2 ^ b - 1 - i) \<longleftrightarrow> k * 2 ^ b + i < H
      else elementsCompletelyDequeued blk = of_nat (min (2 ^ b) (H - k * 2 ^ b)))"

definition block_rep :: "traits \<Rightarrow> InnerQueueContext \<Rightarrow> nat \<Rightarrow> (nat \<Rightarrow> 'a) \<Rightarrow> nat \<Rightarrow> nat \<Rightarrow> nat \<Rightarrow> 'a block \<Rightarrow> bool" where
  "block_rep tr ctx b el H T k blk \<longleftrightarrow>
     length (elements blk) = 2 ^ b \<and>
     (\<forall>i<2 ^ b. elements blk ! i = (if H \<le> k * 2 ^ b + i \<and> k * 2 ^ b + i < T then Some (el (k * 2 ^ b + i)) else None)) \<and>
     dequeued_rep tr ctx b H k blk"

lemma unat_upto_block: "block_bits tr b \<Longrightarrow> m \<le> 2 ^ b \<Longrightarrow> unat (of_nat m :: u64) = m"
proof -
  assume b: "block_bits tr b" and m: "m \<le> 2 ^ b"
  have "(2 :: nat) ^ b < 2 ^ 64" using block_bitsD(3) [OF b] by (intro power_strict_increasing) auto
  then show ?thesis using m by (intro unat_of_nat_u64) simp
qed

lemma is_empty_rep:
  assumes b: "block_bits tr b" and rep: "dequeued_rep tr ctx b H k blk"
  shows "is_empty ndebug tr ctx blk = Inr (k * 2 ^ b + 2 ^ b \<le> H)"
proof (cases "by_flags tr ctx")
  case True
  have "list_all (\<lambda>f. f) (emptyFlags blk) \<longleftrightarrow> (\<forall>i<2 ^ b. emptyFlags blk ! i)"
    using rep by (simp add: list_all_length dequeued_rep_def)
  also have "\<dots> \<longleftrightarrow> (\<forall>i<2 ^ b. emptyFlags blk ! (2 ^ b - 1 - i))"
  proof
    assume *: "\<forall>i<2 ^ b. emptyFlags blk ! (2 ^ b - 1 - i)"
    show "\<forall>i<2 ^ b. emptyFlags blk ! i"
    proof (intro allI impI)
      fix i :: nat assume i: "i < 2 ^ b"
      then have "2 ^ b - 1 - i < 2 ^ b" "2 ^ b - 1 - (2 ^ b - 1 - i) = i" by auto
      then show "emptyFlags blk ! i" using * by metis
    qed
  qed auto
  also have "\<dots> \<longleftrightarrow> (\<forall>i<2 ^ b. k * 2 ^ b + i < H)" using rep True by (simp add: dequeued_rep_def)
  also have "\<dots> \<longleftrightarrow> k * 2 ^ b + 2 ^ b \<le> H"
  proof
    assume "\<forall>i<2 ^ b. k * 2 ^ b + i < H"
    then have "k * 2 ^ b + (2 ^ b - 1) < H" by (rule allE [of _ "2 ^ b - 1"]) simp
    then show "k * 2 ^ b + 2 ^ b \<le> H" by simp
  qed auto
  finally show ?thesis using True rep block_bitsD(1) [OF b] by (simp add: is_empty_def dequeued_rep_def)
next
  case False
  let ?m = "min (2 ^ b) (H - k * 2 ^ b)"
  have c: "elementsCompletelyDequeued blk = of_nat ?m" "unat (of_nat ?m :: u64) = ?m"
    using rep False unat_upto_block [OF b, of ?m] by (simp_all add: dequeued_rep_def)
  have "elementsCompletelyDequeued blk = BLOCK_SIZE tr \<longleftrightarrow> ?m = 2 ^ b"
    using c block_bitsD(1) [OF b] by (metis word_unat_eq_iff)
  moreover have "elementsCompletelyDequeued blk \<le> BLOCK_SIZE tr"
    using c block_bitsD(1) [OF b] by (simp add: word_le_nat_alt)
  moreover have "?m = 2 ^ b \<longleftrightarrow> k * 2 ^ b + 2 ^ b \<le> H"
  proof -
    have "(0 :: nat) < 2 ^ b" by simp
    moreover have "min m (h - x) = m \<longleftrightarrow> x + m \<le> h" if "0 < m" for m h x :: nat using that by (auto simp: min_def)
    ultimately show ?thesis by blast
  qed
  ultimately show ?thesis using False by (auto simp: is_empty_def cq_assertion_def)
qed

lemma dequeued_rep_elements [simp]:
  "dequeued_rep tr ctx b H k (blk\<lparr>elements := es\<rparr>) = dequeued_rep tr ctx b H k blk"
  "dequeued_rep tr ctx b H k (blk\<lparr>block_next := n\<rparr>) = dequeued_rep tr ctx b H k blk"
  by (simp_all add: dequeued_rep_def)

lemma block_rep_next [simp]:
  "block_rep tr ctx b el H T k (blk\<lparr>block_next := n\<rparr>) = block_rep tr ctx b el H T k blk"
  by (simp add: block_rep_def)

text \<open>A raw block, or one all of whose elements are gone, becomes the block that starts at \<open>T\<close>.\<close>

lemma reset_rep:
  assumes b: "block_bits tr b" and raw: "length (elements blk) = 2 ^ b" "\<forall>i<2 ^ b. elements blk ! i = None"
    and f: "length (emptyFlags blk) = 2 ^ b" and "H \<le> k * 2 ^ b"
  shows "block_rep tr ctx b el H (k * 2 ^ b) k (reset_empty tr ctx blk)"
  using assms block_bitsD(1) [OF b] by (auto simp: block_rep_def dequeued_rep_def reset_empty_def)

lemma raw_blockD:
  "block_bits tr b \<Longrightarrow> raw_block tr blk \<Longrightarrow>
     length (elements blk) = 2 ^ b \<and> (\<forall>i<2 ^ b. elements blk ! i = None) \<and> length (emptyFlags blk) = 2 ^ b"
  using block_bitsD(1) by (fastforce simp: raw_block_def)

lemma empty_rep_raw:
  "block_rep tr ctx b el H T k blk \<Longrightarrow> k * 2 ^ b + 2 ^ b \<le> H \<Longrightarrow>
     length (elements blk) = 2 ^ b \<and> (\<forall>i<2 ^ b. elements blk ! i = None) \<and> length (emptyFlags blk) = 2 ^ b"
  by (auto simp: block_rep_def dequeued_rep_def)

text \<open>Constructing the element at \<open>T\<close>; the other blocks do not notice.\<close>

lemma construct_rep:
  assumes b: "block_bits tr b" and rep: "block_rep tr ctx b el H T (T div 2 ^ b) blk" and "H \<le> T"
  shows "\<exists>blk'. construct_at tr (of_nat T) x blk = Inr blk' \<and> block_next blk' = block_next blk \<and>
           dynamicallyAllocated blk' = dynamicallyAllocated blk \<and>
           block_rep tr ctx b (el(T := x)) H (Suc T) (T div 2 ^ b) blk'"
proof -
  let ?o = "T mod 2 ^ b" and ?k = "T div 2 ^ b"
  have T: "?k * 2 ^ b + ?o = T" by (rule div_mult_mod_eq)
  have o: "?o < 2 ^ b" by simp
  have off: "offset_in_block tr (of_nat T) = ?o" by (rule offset_of_nat [OF b])
  have "elements blk ! ?o = None" using rep o unfolding block_rep_def by (metis T less_irrefl)
  moreover have "block_rep tr ctx b (el(T := x)) H (Suc T) ?k (blk\<lparr>elements := (elements blk)[?o := Some x]\<rparr>)"
    unfolding block_rep_def
  proof (intro conjI allI impI)
    fix i :: nat assume i: "i < 2 ^ b"
    have "i = ?o \<longleftrightarrow> ?k * 2 ^ b + i = T" using T by (metis add_left_cancel)
    then show "elements (blk\<lparr>elements := (elements blk)[?o := Some x]\<rparr>) ! i =
        (if H \<le> ?k * 2 ^ b + i \<and> ?k * 2 ^ b + i < Suc T then Some ((el(T := x)) (?k * 2 ^ b + i)) else None)"
      using rep i \<open>H \<le> T\<close> unfolding block_rep_def by (cases "i = ?o") (auto simp: less_Suc_eq)
  qed (use rep in \<open>auto simp: block_rep_def\<close>)
  moreover have "length (elements blk) = 2 ^ b" using rep by (simp add: block_rep_def)
  ultimately show ?thesis using o off by (intro exI [of _ "blk\<lparr>elements := (elements blk)[?o := Some x]\<rparr>"]) (simp add: construct_at_def Let_def not_le)
qed

lemma block_rep_grow:
  assumes "block_rep tr ctx b el H T k blk" and "k \<noteq> T div 2 ^ b"
  shows "block_rep tr ctx b (el(T := x)) H (Suc T) k blk"
proof -
  have "k * 2 ^ b + i \<noteq> T" if "i < 2 ^ b" for i using that assms(2) by (auto simp: div_mult_self1)
  then show ?thesis using assms(1) unfolding block_rep_def by (auto simp: less_Suc_eq)
qed


section \<open>Taking elements from a block\<close>

lemma set_flags_ok:
  "i + n \<le> length fs \<Longrightarrow> (\<forall>j. i \<le> j \<and> j < i + n \<longrightarrow> \<not> fs ! j) \<Longrightarrow>
     \<exists>fs'. set_flags ndebug i n fs = Inr fs' \<and> length fs' = length fs \<and>
       (\<forall>j<length fs. fs' ! j \<longleftrightarrow> fs ! j \<or> (i \<le> j \<and> j < i + n))"
proof (induction n arbitrary: i fs)
  case (Suc n)
  have "\<exists>fs'. set_flags ndebug (Suc i) n (fs[i := True]) = Inr fs' \<and> length fs' = length (fs[i := True]) \<and>
      (\<forall>j<length (fs[i := True]). fs' ! j \<longleftrightarrow> fs[i := True] ! j \<or> (Suc i \<le> j \<and> j < Suc i + n))"
    by (rule Suc.IH) (use Suc.prems in auto)
  then obtain fs' where fs': "set_flags ndebug (Suc i) n (fs[i := True]) = Inr fs'" "length fs' = length fs"
    "\<forall>j<length fs. fs' ! j \<longleftrightarrow> fs[i := True] ! j \<or> (Suc i \<le> j \<and> j < Suc i + n)" by auto
  have "\<not> fs ! i" using Suc.prems(2) by simp
  then have "set_flags ndebug i (Suc n) fs = Inr fs'" using fs'(1) Suc.prems(1) by (simp add: cq_assertion_def)
  moreover have "fs' ! j \<longleftrightarrow> fs ! j \<or> (i \<le> j \<and> j < i + Suc n)" if "j < length fs" for j
    using fs'(3) that Suc.prems(1) by (cases "j = i") auto
  ultimately show ?case using fs'(2) by blast
qed auto

text \<open>\<^verbatim>\<open>set_many_empty\<close> for the elements from \<open>H\<close> to \<open>H + n\<close> of one block; it answers whether the block is now empty.\<close>

lemma set_many_empty_rep:
  assumes b: "block_bits tr b" and rep: "dequeued_rep tr ctx b H (H div 2 ^ b) blk" and n: "H mod 2 ^ b + n \<le> 2 ^ b"
  shows "\<exists>blk'. set_many_empty ndebug tr ctx (of_nat H) (of_nat n) blk =
      Inr (\<not> by_flags tr ctx \<and> H mod 2 ^ b + n = 2 ^ b, blk') \<and>
    dequeued_rep tr ctx b (H + n) (H div 2 ^ b) blk' \<and> elements blk' = elements blk \<and> block_next blk' = block_next blk \<and>
    dynamicallyAllocated blk' = dynamicallyAllocated blk"
proof -
  let ?o = "H mod 2 ^ b" and ?k = "H div 2 ^ b"
  have H: "?k * 2 ^ b + ?o = H" by (rule div_mult_mod_eq)
  have B: "BLOCK_SIZE tr = of_nat (2 ^ b)" "unat (BLOCK_SIZE tr) = 2 ^ b" using block_bitsD [OF b] by auto
  have n_u: "unat (of_nat n :: u64) = n" using unat_upto_block [OF b, of n] n by simp
  have len: "length (emptyFlags blk) = 2 ^ b" using rep by (simp add: dequeued_rep_def)
  show ?thesis
  proof (cases "by_flags tr ctx")
    case True
    have "of_nat H AND (BLOCK_SIZE tr - 1) = (of_nat ?o :: u64)"
      using of_nat_and_mask [OF block_bitsD(3) [OF b], of H] b by (simp add: block_bits_def)
    then have "BLOCK_SIZE tr - 1 - (of_nat H AND (BLOCK_SIZE tr - 1)) - of_nat n + 1 = (of_nat (2 ^ b - ?o - n) :: u64)"
      using n B(1) by (simp add: of_nat_diff)
    moreover have "unat (of_nat (2 ^ b - ?o - n) :: u64) = 2 ^ b - ?o - n"
      by (rule unat_upto_block [OF b]) simp
    ultimately have i: "unat (BLOCK_SIZE tr - 1 - (of_nat H AND (BLOCK_SIZE tr - 1)) - of_nat n + 1) = 2 ^ b - ?o - n" by simp
    have "\<not> emptyFlags blk ! j" if "2 ^ b - ?o - n \<le> j" "j < 2 ^ b - ?o - n + n" for j
    proof -
      have "emptyFlags blk ! (2 ^ b - 1 - (2 ^ b - 1 - j)) \<longleftrightarrow> ?k * 2 ^ b + (2 ^ b - 1 - j) < H"
        using rep True unfolding dequeued_rep_def by simp
      moreover have "2 ^ b - 1 - (2 ^ b - 1 - j) = j" "?o \<le> 2 ^ b - 1 - j" using that n by auto
      ultimately show ?thesis using H by simp
    qed
    with set_flags_ok [of "2 ^ b - ?o - n" n "emptyFlags blk" ndebug] n len obtain fs' where fs':
      "set_flags ndebug (2 ^ b - ?o - n) n (emptyFlags blk) = Inr fs'" "length fs' = 2 ^ b"
      "\<forall>j<2 ^ b. fs' ! j \<longleftrightarrow> emptyFlags blk ! j \<or> (2 ^ b - ?o - n \<le> j \<and> j < 2 ^ b - ?o - n + n)" by auto
    have "fs' ! (2 ^ b - 1 - i) \<longleftrightarrow> ?k * 2 ^ b + i < H + n" if "i < 2 ^ b" for i
    proof -
      have "emptyFlags blk ! (2 ^ b - 1 - i) \<longleftrightarrow> i < ?o"
        using rep True that H unfolding dequeued_rep_def by (metis nat_add_left_cancel_less)
      moreover have "fs' ! (2 ^ b - 1 - i) \<longleftrightarrow>
          emptyFlags blk ! (2 ^ b - 1 - i) \<or> (2 ^ b - ?o - n \<le> 2 ^ b - 1 - i \<and> 2 ^ b - 1 - i < 2 ^ b - ?o - n + n)"
        using fs'(3) by simp
      moreover have "(2 ^ b - ?o - n \<le> 2 ^ b - 1 - i \<and> 2 ^ b - 1 - i < 2 ^ b - ?o - n + n) \<longleftrightarrow> ?o \<le> i \<and> i < ?o + n"
        using that n by auto
      moreover have "?k * 2 ^ b + i < H + n \<longleftrightarrow> i < ?o + n" using H by linarith
      ultimately show ?thesis by auto
    qed
    then have "dequeued_rep tr ctx b (H + n) ?k (blk\<lparr>emptyFlags := fs'\<rparr>)"
      using True fs'(2) by (simp add: dequeued_rep_def)
    then show ?thesis using True fs'(1) i n_u by (auto simp: set_many_empty_def Let_def)
  next
    case False
    have c: "elementsCompletelyDequeued blk = of_nat ?o"
    proof -
      have "H - ?k * 2 ^ b = ?o" using H by linarith
      moreover have "min (2 ^ b) ?o = ?o" by (simp add: less_imp_le)
      ultimately show ?thesis using rep False by (simp add: dequeued_rep_def)
    qed
    then have s: "elementsCompletelyDequeued blk + of_nat n = of_nat (?o + n)" by simp
    have u: "unat (of_nat (?o + n) :: u64) = ?o + n" by (rule unat_upto_block [OF b n])
    have "H + n - ?k * 2 ^ b = ?o + n" using H by linarith
    then have "min (2 ^ b) (H + n - ?k * 2 ^ b) = ?o + n" using n by simp
    then have "dequeued_rep tr ctx b (H + n) ?k (blk\<lparr>elementsCompletelyDequeued := of_nat (?o + n)\<rparr>)"
      using rep False by (simp add: dequeued_rep_def)
    moreover have "of_nat (?o + n) \<le> BLOCK_SIZE tr" using u B n by (simp add: word_le_nat_alt)
    moreover have "of_nat (?o + n) = BLOCK_SIZE tr \<longleftrightarrow> ?o + n = 2 ^ b" using u B by (metis word_unat_eq_iff)
    ultimately show ?thesis using False s by (auto simp: set_many_empty_def Let_def cq_assertion_def)
  qed
qed

lemma set_empty_many:
  assumes b: "block_bits tr b" and rep: "dequeued_rep tr ctx b H (H div 2 ^ b) blk"
  shows "set_empty ndebug tr ctx (of_nat H) blk = set_many_empty ndebug tr ctx (of_nat H) 1 blk"
proof -
  let ?o = "H mod 2 ^ b"
  have B: "BLOCK_SIZE tr = of_nat (2 ^ b)" "unat (BLOCK_SIZE tr) = 2 ^ b" using block_bitsD [OF b] by auto
  have len: "length (emptyFlags blk) = 2 ^ b" using rep by (simp add: dequeued_rep_def)
  show ?thesis
  proof (cases "by_flags tr ctx")
    case True
    have "of_nat H AND (BLOCK_SIZE tr - 1) = (of_nat ?o :: u64)"
      using of_nat_and_mask [OF block_bitsD(3) [OF b], of H] b by (simp add: block_bits_def)
    then have "BLOCK_SIZE tr - 1 - (of_nat H AND (BLOCK_SIZE tr - 1)) - 1 + 1 = (of_nat (2 ^ b - 1 - ?o) :: u64)"
    proof -
      have "(of_nat (2 ^ b - 1 - ?o) :: u64) = of_nat (2 ^ b) - 1 - of_nat ?o"
        using mod_less_divisor [of "2 ^ b" H] by (simp add: of_nat_diff algebra_simps Suc_le_eq)
      then show ?thesis using B(1) \<open>of_nat H AND (BLOCK_SIZE tr - 1) = (of_nat ?o :: u64)\<close> by simp
    qed
    moreover have "unat (of_nat (2 ^ b - 1 - ?o) :: u64) = 2 ^ b - 1 - ?o"
      by (rule unat_upto_block [OF b]) simp
    moreover have "\<not> 2 ^ b \<le> 2 ^ b - Suc ?o" by (simp add: not_le)
    ultimately show ?thesis
      using True B len by (simp add: set_empty_def set_many_empty_def offset_of_nat [OF b] Let_def cq_assertion_def)
  next
    case False
    have "elementsCompletelyDequeued blk = of_nat ?o"
    proof -
      have "H - H div 2 ^ b * 2 ^ b = ?o" using div_mult_mod_eq [of H "2 ^ b"] by linarith
      moreover have "min (2 ^ b) ?o = ?o" by (simp add: less_imp_le)
      ultimately show ?thesis using rep False by (simp add: dequeued_rep_def)
    qed
    moreover have "unat (of_nat ?o :: u64) = ?o" "unat (of_nat ?o + 1 :: u64) = Suc ?o"
      using unat_upto_block [OF b, of ?o] unat_upto_block [OF b, of "Suc ?o"] mod_less_divisor [of "2 ^ b" H]
      by (simp_all add: less_imp_le Suc_le_eq add.commute)
    ultimately have "elementsCompletelyDequeued blk < BLOCK_SIZE tr" "elementsCompletelyDequeued blk + 1 \<le> BLOCK_SIZE tr"
      using B mod_less_divisor [of "2 ^ b" H] by (simp_all add: word_less_nat_alt word_le_nat_alt Suc_le_eq)
    moreover have "(x = y - 1) = (x + 1 = y)" for x y :: u64 by (auto simp: algebra_simps)
    ultimately show ?thesis using False by (simp add: set_empty_def set_many_empty_def Let_def cq_assertion_def)
  qed
qed


text \<open>
  A block in the middle of a bulk operation: the slots before \<open>i\<close> have been emptied, the flags or the
  counter still stand at \<open>H\<close>.
\<close>

definition slots_rep :: "nat \<Rightarrow> (nat \<Rightarrow> 'a) \<Rightarrow> nat \<Rightarrow> nat \<Rightarrow> nat \<Rightarrow> 'a block \<Rightarrow> bool" where
  "slots_rep b el H T k blk \<longleftrightarrow> length (elements blk) = 2 ^ b \<and>
     (\<forall>i<2 ^ b. elements blk ! i = (if H \<le> k * 2 ^ b + i \<and> k * 2 ^ b + i < T then Some (el (k * 2 ^ b + i)) else None))"

lemma block_rep_slots: "block_rep tr ctx b el H T k blk \<longleftrightarrow> slots_rep b el H T k blk \<and> dequeued_rep tr ctx b H k blk"
  by (auto simp: block_rep_def slots_rep_def)

lemma element_rep:
  assumes b: "block_bits tr b" and rep: "slots_rep b el H T (i div 2 ^ b) blk" and i: "H \<le> i" "i < T"
  shows "element_at tr (of_nat i) blk = Inr (el i)"
proof -
  let ?o = "i mod 2 ^ b"
  have "i div 2 ^ b * 2 ^ b + ?o = i" by (rule div_mult_mod_eq)
  moreover have "elements blk ! ?o = (if H \<le> i div 2 ^ b * 2 ^ b + ?o \<and> i div 2 ^ b * 2 ^ b + ?o < T
      then Some (el (i div 2 ^ b * 2 ^ b + ?o)) else None)"
    using rep unfolding slots_rep_def by simp
  ultimately have "elements blk ! ?o = Some (el i)" using i by simp
  moreover have "length (elements blk) = 2 ^ b" using rep by (simp add: slots_rep_def)
  ultimately show ?thesis by (simp add: element_at_def offset_of_nat [OF b] Let_def not_le)
qed

lemma destroy_rep:
  assumes b: "block_bits tr b" and rep: "slots_rep b el H T (H div 2 ^ b) blk" and "H < T"
  shows "\<exists>blk'. destroy_at tr (of_nat H) blk = Inr blk' \<and> slots_rep b el (Suc H) T (H div 2 ^ b) blk' \<and>
    emptyFlags blk' = emptyFlags blk \<and> elementsCompletelyDequeued blk' = elementsCompletelyDequeued blk \<and>
    block_next blk' = block_next blk \<and> dynamicallyAllocated blk' = dynamicallyAllocated blk"
proof -
  let ?o = "H mod 2 ^ b" and ?k = "H div 2 ^ b"
  have H: "?k * 2 ^ b + ?o = H" by (rule div_mult_mod_eq)
  have "slots_rep b el (Suc H) T ?k (blk\<lparr>elements := (elements blk)[?o := None]\<rparr>)"
    unfolding slots_rep_def
  proof (intro conjI allI impI)
    fix i :: nat assume i: "i < 2 ^ b"
    have "i = ?o \<longleftrightarrow> ?k * 2 ^ b + i = H" using H by (metis add_left_cancel)
    then show "elements (blk\<lparr>elements := (elements blk)[?o := None]\<rparr>) ! i =
        (if Suc H \<le> ?k * 2 ^ b + i \<and> ?k * 2 ^ b + i < T then Some (el (?k * 2 ^ b + i)) else None)"
      using rep i \<open>H < T\<close> unfolding slots_rep_def by (cases "i = ?o") auto
  qed (use rep in \<open>simp add: slots_rep_def\<close>)
  then show ?thesis
    using element_rep [OF b rep] \<open>H < T\<close> by (simp add: destroy_at_def offset_of_nat [OF b])
qed

lemma dequeued_rep_cong:
  "emptyFlags blk' = emptyFlags blk \<Longrightarrow> elementsCompletelyDequeued blk' = elementsCompletelyDequeued blk \<Longrightarrow>
     dequeued_rep tr ctx b H k blk' = dequeued_rep tr ctx b H k blk"
  by (simp add: dequeued_rep_def)

lemma slots_rep_cong: "elements blk' = elements blk \<Longrightarrow> slots_rep b el H T k blk' = slots_rep b el H T k blk"
  by (simp add: slots_rep_def)

text \<open>One element: read, destroyed, marked.\<close>

lemma take_one_rep:
  assumes b: "block_bits tr b" and rep: "block_rep tr ctx b el H T (H div 2 ^ b) blk" and "H < T"
  shows "\<exists>blk1 blk2. element_at tr (of_nat H) blk = Inr (el H) \<and> destroy_at tr (of_nat H) blk = Inr blk1 \<and>
    set_empty ndebug tr ctx (of_nat H) blk1 = Inr (\<not> by_flags tr ctx \<and> H mod 2 ^ b + 1 = 2 ^ b, blk2) \<and>
    block_rep tr ctx b el (Suc H) T (H div 2 ^ b) blk2 \<and> block_next blk2 = block_next blk \<and>
    dynamicallyAllocated blk2 = dynamicallyAllocated blk"
proof -
  have s: "slots_rep b el H T (H div 2 ^ b) blk" and d: "dequeued_rep tr ctx b H (H div 2 ^ b) blk"
    using rep by (auto simp: block_rep_slots)
  obtain blk1 where blk1: "destroy_at tr (of_nat H) blk = Inr blk1" "slots_rep b el (Suc H) T (H div 2 ^ b) blk1"
    "emptyFlags blk1 = emptyFlags blk" "elementsCompletelyDequeued blk1 = elementsCompletelyDequeued blk"
    "block_next blk1 = block_next blk" "dynamicallyAllocated blk1 = dynamicallyAllocated blk"
    using destroy_rep [OF b s \<open>H < T\<close>] by blast
  have d1: "dequeued_rep tr ctx b H (H div 2 ^ b) blk1" using d dequeued_rep_cong [OF blk1(3,4)] by blast
  have "H mod 2 ^ b + 1 \<le> 2 ^ b" by (simp add: Suc_le_eq)
  from set_many_empty_rep [OF b d1 this, of ndebug] obtain blk2 where blk2:
    "set_many_empty ndebug tr ctx (of_nat H) 1 blk1 = Inr (\<not> by_flags tr ctx \<and> H mod 2 ^ b + 1 = 2 ^ b, blk2)"
    "dequeued_rep tr ctx b (Suc H) (H div 2 ^ b) blk2" "elements blk2 = elements blk1" "block_next blk2 = block_next blk1"
    "dynamicallyAllocated blk2 = dynamicallyAllocated blk1" by auto
  have "block_rep tr ctx b el (Suc H) T (H div 2 ^ b) blk2"
    using blk1(2) blk2(2) slots_rep_cong [OF blk2(3)] by (auto simp: block_rep_slots)
  then show ?thesis
    using element_rep [OF b s order_refl \<open>H < T\<close>] blk1 blk2 set_empty_many [OF b d1, of ndebug] by auto
qed

text \<open>The other blocks do not notice.\<close>

lemma block_rep_shrink:
  assumes "block_rep tr ctx b el H T k blk" and "H \<le> H'" and "k * 2 ^ b + 2 ^ b \<le> H \<or> H' \<le> k * 2 ^ b"
  shows "block_rep tr ctx b el H' T k blk"
proof -
  have "(H \<le> k * 2 ^ b + i) = (H' \<le> k * 2 ^ b + i)" "(k * 2 ^ b + i < H) = (k * 2 ^ b + i < H')" if "i < 2 ^ b" for i
    using that assms(2,3) by auto
  moreover have "min (2 ^ b) (H - k * 2 ^ b) = min (2 ^ b) (H' - k * 2 ^ b)" using assms(2,3) by (auto simp: min_def)
  ultimately show ?thesis using assms(1) unfolding block_rep_def dequeued_rep_def by auto
qed

end
