(* ===== verification/Cq_Explicit_Fifo.thy ===== *)
theory Cq_Explicit_Fifo
  imports Cq_Explicit Cq_Pool
begin

text \<open>
  \<^verbatim>\<open>ExplicitProducer\<close> as a list: how a ring of blocks, a circular index and four counters that may have wrapped
  around stand for the elements of a sub-queue, and that \<^verbatim>\<open>enqueue\<close> and \<^verbatim>\<open>dequeue\<close> append to it and take from it.
\<close>

section \<open>Representation\<close>

text \<open>
  Indices are counted without wrapping: elements \<open>H \<le> i < T\<close> with values \<open>el i\<close>; block number \<open>k\<close> holds the indices
  from \<open>k * 2 ^ b\<close> on; the ring consists of the blocks \<open>lo \<le> k < t\<close>, block \<open>k\<close> at address
  \<open>blk k\<close>, each linked to the next and the last to the first.
\<close>

definition ring_block ::
    "traits \<Rightarrow> nat \<Rightarrow> (nat \<Rightarrow> 'a) \<Rightarrow> nat \<Rightarrow> nat \<Rightarrow> (nat \<Rightarrow> nat) \<Rightarrow> nat \<Rightarrow> nat \<Rightarrow> 'a pool \<Rightarrow> nat \<Rightarrow> bool" where
  "ring_block tr b el H T blk lo t p k \<longleftrightarrow> blk k \<notin> free_blocks p \<and> blk k < next_block p \<and>
     (\<exists>bl. heap p (blk k) = Some bl \<and> block_rep tr explicit_context b el H T k bl \<and>
        block_next bl = Some (if Suc k < t then blk (Suc k) else blk lo))"

definition xring_rep ::
    "traits \<Rightarrow> nat \<Rightarrow> (nat \<Rightarrow> 'a) \<Rightarrow> nat \<Rightarrow> nat \<Rightarrow> (nat \<Rightarrow> nat) \<Rightarrow> nat \<Rightarrow> nat \<Rightarrow> nat option \<Rightarrow> 'a pool \<Rightarrow> bool" where
  "xring_rep tr b el H T blk lo t tailb p \<longleftrightarrow>
     inj_on blk {lo..<t} \<and> (\<forall>k. lo \<le> k \<and> k < t \<longrightarrow> ring_block tr b el H T blk lo t p k) \<and>
     tailb = (if lo < t then Some (blk (t - 1)) else None) \<and> pool_ok tr p"

text \<open>
  The index has \<open>2 ^ s\<close> slots; the entry of block \<open>k\<close> is in slot \<open>(k + c) mod 2 ^ s\<close>; \<open>n\<close> slots are counted as used.
  Before the first index has been allocated, the recorded size is half of the size it will have.
\<close>

definition ix_rep :: "nat \<Rightarrow> (nat \<Rightarrow> nat) \<Rightarrow> nat \<Rightarrow> nat \<Rightarrow> nat \<Rightarrow> nat \<Rightarrow> nat \<Rightarrow> explicit \<Rightarrow> bool" where
  "ix_rep b blk lo t n c s e \<longleftrightarrow>
     pr_blockIndexSlotsUsed e = of_nat n \<and> n \<le> 2 ^ s \<and> s + b \<le> 64 \<and> 1 \<le> s \<and> t - lo \<le> n \<and>
     (case headers e of
        [] \<Rightarrow> n = 0 \<and> pr_blockIndexSize e = 2 ^ (s - 1) \<and> t = 0
      | h # _ \<Rightarrow>
          pr_blockIndexSize e = 2 ^ s \<and> index_size h = 2 ^ s \<and> length (index_entries h) = 2 ^ s \<and>
          pr_blockIndexFront e = of_nat ((t + c) mod 2 ^ s) \<and>
          (lo < t \<longrightarrow> index_front h = of_nat ((t - 1 + c) mod 2 ^ s)) \<and>
          (\<forall>k. lo \<le> k \<and> k < t \<longrightarrow> index_entries h ! ((k + c) mod 2 ^ s) = Some (of_nat (k * 2 ^ b), blk k)))"

definition xcounters :: "nat \<Rightarrow> nat \<Rightarrow> explicit \<Rightarrow> bool" where
  "xcounters H T e \<longleftrightarrow> x_tailIndex e = of_nat T \<and> x_headIndex e = of_nat H \<and>
     x_dequeueOptimisticCount e = of_nat H \<and> x_dequeueOvercommit e = 0"

definition xwindow :: "nat \<Rightarrow> nat \<Rightarrow> nat \<Rightarrow> nat \<Rightarrow> nat \<Rightarrow> bool" where
  "xwindow b H T lo t \<longleftrightarrow> H \<le> T \<and> T \<le> t * 2 ^ b \<and> t * 2 ^ b < T + 2 ^ b \<and> lo \<le> t \<and> lo * 2 ^ b \<le> H \<and>
     (lo = t \<longrightarrow> t = 0) \<and> (t - lo - 1) * 2 ^ b < 2 ^ 63 \<and> T - H < 2 ^ 63"

definition xrep :: "traits \<Rightarrow> nat \<Rightarrow> (nat \<Rightarrow> 'a) \<Rightarrow> nat \<Rightarrow> nat \<Rightarrow> nat set \<Rightarrow> 'a xstate \<Rightarrow> bool" where
  "xrep tr b el H T R s \<longleftrightarrow> (case s of (e, p) \<Rightarrow>
     (\<exists>blk lo t c z. xcounters H T e \<and> xwindow b H T lo t \<and> ix_rep b blk lo t (t - lo) c z e \<and>
        xring_rep tr b el H T blk lo t (x_tailBlock e) p \<and> R = blk ` {lo..<t}))"

lemma xrepI:
  "xcounters H T e \<Longrightarrow> xwindow b H T lo t \<Longrightarrow> ix_rep b blk lo t (t - lo) c z e \<Longrightarrow>
     xring_rep tr b el H T blk lo t (x_tailBlock e) p \<Longrightarrow> xrep tr b el H T (blk ` {lo..<t}) (e, p)"
  unfolding xrep_def by blast

section \<open>Arithmetic\<close>

lemma circular_iff:
  assumes "m \<le> n" and "n - m < 2 ^ 64"
  shows "circular_less_than (of_nat m) (of_nat n :: u64) \<longleftrightarrow> m < n \<and> n - m < 2 ^ 63"
proof (cases "n - m < 2 ^ 63")
  case True
  then show ?thesis using circular_near(1) [OF assms(1) True] by simp
next
  case False
  have "of_nat m - of_nat n = - (of_nat (n - m) :: u64)" using assms(1) by (simp add: of_nat_diff)
  also have "\<dots> = of_nat (2 ^ 64 - (n - m))"
  proof -
    have "(of_nat (2 ^ 64 - (n - m)) :: u64) = of_nat (2 ^ 64) - of_nat (n - m)" by (rule of_nat_diff) (use assms in simp)
    then show ?thesis by simp
  qed
  finally have "unat (of_nat m - of_nat n :: u64) = 2 ^ 64 - (n - m)"
    using unat_of_nat_u64 [of "2 ^ 64 - (n - m)"] False by simp
  then show ?thesis using False by (simp add: circular_less_than_u64)
qed

lemma mask_next:
  assumes "s < 64"
  shows "(of_nat ((k + c) mod 2 ^ s) + 1) AND (2 ^ s - 1) = (of_nat ((Suc k + c) mod 2 ^ s) :: u64)"
proof -
  have e: "(of_nat ((k + c) mod 2 ^ s) + 1 :: u64) = of_nat ((k + c) mod 2 ^ s + 1)" by simp
  show ?thesis unfolding e of_nat_and_mask [OF assms] by (simp add: mod_simps)
qed

lemma mask_back:
  assumes "s < 64" and "n \<le> t"
  shows "(of_nat ((t + c) mod 2 ^ s) - of_nat n) AND (2 ^ s - 1) = (of_nat ((t - n + c) mod 2 ^ s) :: u64)"
proof -
  let ?a = "(t + c) mod 2 ^ s" and ?q = "(t + c) div 2 ^ s" and ?N = "2 ^ 64 * n :: nat"
  have n: "n \<le> ?a + ?N" by (simp add: trans_le_add2)
  have "(of_nat (?a + ?N - n) :: u64) = of_nat (?a + ?N) - of_nat n" by (rule of_nat_diff [OF n])
  moreover have "(of_nat (2 ^ 64) :: u64) = 0" by simp
  then have "(of_nat ?N :: u64) = 0" by (simp only: of_nat_mult mult_zero_left)
  ultimately have e: "(of_nat ?a - of_nat n :: u64) = of_nat (?a + ?N - n)" by (simp only: of_nat_add add_0_right)
  have "t + c = ?q * 2 ^ s + ?a" by (rule div_mult_mod_eq [symmetric])
  then have "?a + ?N - n + ?q * 2 ^ s = t - n + c + ?N" using n assms(2) by linarith
  moreover have "?N mod 2 ^ s = 0"
  proof -
    have "(2 :: nat) ^ s dvd 2 ^ 64" by (rule le_imp_power_dvd) (use assms in simp)
    then show ?thesis by (intro dvd_imp_mod_0 dvd_mult2)
  qed
  ultimately have "(?a + ?N - n) mod 2 ^ s = (t - n + c) mod 2 ^ s"
    by (metis add.right_neutral mod_add_right_eq mod_mult_self1)
  then show ?thesis unfolding e of_nat_and_mask [OF assms(1)] by simp
qed

lemma unat_slot: "s < 64 \<Longrightarrow> unat (of_nat (k mod 2 ^ s) :: u64) = k mod 2 ^ s"
proof -
  assume "s < 64"
  then have "k mod 2 ^ s < 2 ^ 64"
    by (metis less_imp_le_nat less_le_trans mod_less_divisor one_le_numeral power_increasing zero_less_numeral zero_less_power)
  then show ?thesis by (rule unat_of_nat_u64)
qed

lemma slots_differ:
  fixes k t :: nat
  assumes "lo \<le> k" "k < t" "t - lo < 2 ^ s"
  shows "(k + c) mod 2 ^ s \<noteq> (t + c) mod 2 ^ s"
proof
  assume "(k + c) mod 2 ^ s = (t + c) mod 2 ^ s"
  moreover have "t + c < k + c + 2 ^ s" using assms by linarith
  ultimately have "k + c = t + c" using assms by (intro mod_window_eq [of "k + c" "2 ^ s" "t + c"]) auto
  then show False using assms by simp
qed

section \<open>The block index\<close>

lemma copy_entries_ok:
  assumes s: "s < 64" and len: "length es = 2 ^ s" and n: "t - k \<le> 2 ^ s" and "k < t" and fuel: "t - k \<le> fuel"
  shows "copy_entries fuel (2 ^ s - 1) (of_nat ((t + c) mod 2 ^ s)) (of_nat ((k + c) mod 2 ^ s)) es =
    Inr (map (\<lambda>j. es ! ((j + c) mod 2 ^ s)) [k..<t])"
  using n \<open>k < t\<close> fuel
proof (induction fuel arbitrary: k)
  case 0
  then show ?case by simp
next
  case (Suc fuel)
  have i: "unat (of_nat ((k + c) mod 2 ^ s) :: u64) = (k + c) mod 2 ^ s" by (rule unat_slot [OF s])
  have nx: "(of_nat ((k + c) mod 2 ^ s) + 1) AND (2 ^ s - 1) = (of_nat ((Suc k + c) mod 2 ^ s) :: u64)" by (rule mask_next [OF s])
  have split: "[k..<t] = k # [Suc k..<t]" using Suc.prems(2) by (rule upt_conv_Cons)
  show ?case
  proof (cases "Suc k = t")
    case True
    then show ?thesis using i nx len split by (simp add: Let_def not_le)
  next
    case False
    then have "Suc k < t" using Suc.prems(2) by simp
    then have "(Suc k + c) mod 2 ^ s \<noteq> (t + c) mod 2 ^ s"
      by (intro slots_differ [of "Suc k"]) (use Suc.prems in auto)
    then have "(of_nat ((Suc k + c) mod 2 ^ s) :: u64) \<noteq> of_nat ((t + c) mod 2 ^ s)"
      using unat_slot [OF s] by metis
    moreover have "copy_entries fuel (2 ^ s - 1) (of_nat ((t + c) mod 2 ^ s)) (of_nat ((Suc k + c) mod 2 ^ s)) es =
        Inr (map (\<lambda>j. es ! ((j + c) mod 2 ^ s)) [Suc k..<t])"
      by (rule Suc.IH) (use Suc.prems \<open>Suc k < t\<close> in auto)
    ultimately show ?thesis using i nx len split by (simp add: Let_def not_le)
  qed
qed

text \<open>Fields that the index operations do not touch.\<close>

definition same_queue :: "explicit \<Rightarrow> explicit \<Rightarrow> bool" where
  "same_queue e e' \<longleftrightarrow> x_tailIndex e' = x_tailIndex e \<and> x_headIndex e' = x_headIndex e \<and>
     x_dequeueOptimisticCount e' = x_dequeueOptimisticCount e \<and> x_dequeueOvercommit e' = x_dequeueOvercommit e \<and>
     x_tailBlock e' = x_tailBlock e"

lemma same_queue_counters: "same_queue e e' \<Longrightarrow> xcounters H T e' = xcounters H T e"
  by (simp add: same_queue_def xcounters_def)

lemma new_index_ok:
  assumes ix: "ix_rep b blk lo t (t - lo) c s e" and b: "1 \<le> b" and ok: "ok (mallocs p)" and lo: "lo \<le> t"
    and room: "headers e = [] \<or> Suc s + b \<le> 64"
  shows "\<exists>e' c' s'. new_block_index ok (pr_blockIndexSlotsUsed e) (e, p) = Inr (True, (e', p\<lparr>mallocs := mallocs p + 1\<rparr>)) \<and>
    ix_rep b blk lo t (t - lo) c' s' e' \<and> same_queue e e' \<and> headers e' \<noteq> [] \<and> t - lo < 2 ^ s'"
proof (cases "headers e")
  case Nil
  then have n: "t = 0" "pr_blockIndexSlotsUsed e = 0" "pr_blockIndexSize e = 2 ^ (s - 1)" "1 \<le> s" "s + b \<le> 64"
    using ix by (auto simp: ix_rep_def)
  have sz: "push_bit 1 (2 ^ (s - 1)) = (2 ^ s :: u64)" using n(4) by (cases s) (auto simp: push_bit_eq_mult)
  have "unat (2 ^ s :: u64) = 2 ^ s" using n(5) b by (intro unat_exp_u64) simp
  then show ?thesis
    using Nil n ok sz lo ix
    by (intro exI [of _ 0] exI [of _ s] exI) (auto simp: new_block_index_def Let_def ix_rep_def same_queue_def)
next
  case (Cons h hs)
  then have i: "pr_blockIndexSize e = 2 ^ s" "index_size h = 2 ^ s" "length (index_entries h) = 2 ^ s"
    "pr_blockIndexFront e = of_nat ((t + c) mod 2 ^ s)" "pr_blockIndexSlotsUsed e = of_nat (t - lo)" "t - lo \<le> 2 ^ s" "1 \<le> s"
    "\<And>k. lo \<le> k \<Longrightarrow> k < t \<Longrightarrow> index_entries h ! ((k + c) mod 2 ^ s) = Some (of_nat (k * 2 ^ b), blk k)"
    using ix by (auto simp: ix_rep_def)
  have s: "Suc s < 64 \<or> Suc s = 64 \<and> False" "Suc s + b \<le> 64" using room Cons b by auto
  then have s64: "s < 64" "Suc s < 64" by auto
  let ?cs = "map (\<lambda>j. index_entries h ! ((j + c) mod 2 ^ s)) [lo..<t]"
  have sz: "push_bit 1 (2 ^ s) = (2 ^ Suc s :: u64)" by (simp add: push_bit_eq_mult)
  have un: "unat (2 ^ Suc s :: u64) = 2 ^ Suc s" using s64 by (intro unat_exp_u64) simp
  have nu: "unat (of_nat (t - lo) :: u64) = t - lo"
  proof (rule unat_of_nat_u64)
    have "(2 :: nat) ^ s < 2 ^ 64" using s64(1) by (intro power_strict_increasing) auto
    then show "t - lo < 2 ^ 64" using i(6) by simp
  qed
  have copy: "(if pr_blockIndexSlotsUsed e \<noteq> 0
      then case headers e of
          [] \<Rightarrow> Inl Cq_null
        | h # _ \<Rightarrow> copy_entries (length (index_entries h)) (pr_blockIndexSize e - 1) (pr_blockIndexFront e)
            ((pr_blockIndexFront e - pr_blockIndexSlotsUsed e) AND (pr_blockIndexSize e - 1)) (index_entries h)
      else Inr []) = Inr ?cs"
  proof (cases "lo = t")
    case False
    then have "lo < t" using lo by simp
    moreover have "(of_nat ((t + c) mod 2 ^ s) - of_nat (t - lo)) AND (2 ^ s - 1) = (of_nat ((lo + c) mod 2 ^ s) :: u64)"
      using mask_back [OF s64(1), of "t - lo" t c] lo by simp
    moreover have "(of_nat (t - lo) :: u64) \<noteq> 0" using nu \<open>lo < t\<close> by (metis unat_0 zero_less_diff less_irrefl)
    ultimately show ?thesis using i copy_entries_ok [OF s64(1) i(3), of t lo "2 ^ s" c] Cons by simp
  qed (use i in simp)
  define c' where "c' = lo * (2 ^ Suc s - 1)"
  have slot: "(k + c') mod 2 ^ Suc s = k - lo" if "lo \<le> k" "k \<le> t" for k
  proof -
    have "k + c' = (k - lo) + 2 ^ Suc s * lo" using that by (simp add: c'_def algebra_simps diff_mult_distrib)
    moreover have "k - lo < 2 ^ Suc s"
    proof -
      have "k - lo \<le> 2 ^ s" using that i(6) by linarith
      also have "(2 :: nat) ^ s < 2 ^ Suc s" by simp
      finally show ?thesis .
    qed
    ultimately show ?thesis by simp
  qed
  let ?e = "e\<lparr>pr_blockIndexSize := 2 ^ Suc s, pr_blockIndexFront := of_nat (length ?cs),
      headers := \<lparr>index_size = 2 ^ Suc s, index_front = of_nat (t - lo) - 1,
        index_entries = ?cs @ replicate (2 ^ Suc s - length ?cs) None\<rparr> # headers e\<rparr>"
  have "new_block_index ok (pr_blockIndexSlotsUsed e) (e, p) =
      Inr (True, (e\<lparr>pr_blockIndexSize := push_bit 1 (pr_blockIndexSize e), pr_blockIndexFront := of_nat (length ?cs),
        headers := \<lparr>index_size = push_bit 1 (pr_blockIndexSize e), index_front = pr_blockIndexSlotsUsed e - 1,
          index_entries = ?cs @ replicate (unat (push_bit 1 (pr_blockIndexSize e)) - length ?cs) None\<rparr> # headers e\<rparr>,
        p\<lparr>mallocs := mallocs p + 1\<rparr>))"
    unfolding new_block_index_def Let_def using ok by (simp only: prod.case copy bind_r_simps if_True if_False simp_thms)
  then have "new_block_index ok (pr_blockIndexSlotsUsed e) (e, p) = Inr (True, (?e, p\<lparr>mallocs := mallocs p + 1\<rparr>))"
    unfolding i(1,5) sz un .
  moreover have "ix_rep b blk lo t (t - lo) c' (Suc s) ?e"
  proof -
    have "(?cs @ replicate (2 ^ Suc s - length ?cs) None) ! ((k + c') mod 2 ^ Suc s) = Some (of_nat (k * 2 ^ b), blk k)"
      if "lo \<le> k" "k < t" for k
    proof -
      have "k - lo < t - lo" using that by simp
      then show ?thesis using slot [of k] that i(8) [of k] by (simp add: nth_append)
    qed
    moreover have "(t + c') mod 2 ^ Suc s = t - lo" using slot [of t] lo by simp
    moreover have "(t - 1 + c') mod 2 ^ Suc s = t - 1 - lo" if "lo < t" using slot [of "t - 1"] that by simp
    moreover have "t - lo \<le> 2 ^ Suc s" using i(6) by simp
    ultimately show ?thesis using i(5) s by (auto simp: ix_rep_def of_nat_diff simp del: power_Suc)
  qed
  moreover have "t - lo < 2 ^ Suc s" using i(6) by (rule le_less_trans) simp
  ultimately show ?thesis by (intro exI [of _ ?e] exI [of _ c'] exI [of _ "Suc s"]) (simp add: same_queue_def)
qed

section \<open>The ring\<close>

lemma inj_on_append:
  assumes "inj_on f {lo..<t :: nat}" and "\<And>k. lo \<le> k \<Longrightarrow> k < t \<Longrightarrow> f k \<noteq> n"
  shows "inj_on (f(t := n)) {lo..<Suc t}"
proof (rule inj_onI)
  fix x y assume xy: "x \<in> {lo..<Suc t}" "y \<in> {lo..<Suc t}" "(f(t := n)) x = (f(t := n)) y"
  consider "x = t" "y = t" | "x = t" "y < t" | "x < t" "y = t" | "x < t" "y < t" using xy by (auto simp: less_Suc_eq)
  then show "x = y"
  proof cases
    case 4
    then show ?thesis using xy inj_onD [OF assms(1), of x y] by simp
  qed (use xy assms(2) [of x] assms(2) [of y] in auto)
qed

lemma ring_tail:
  assumes "xring_rep tr b el H T blk lo t tailb p" and "lo < t"
  shows "tailb = Some (blk (t - 1))" "block_after p (blk (t - 1)) = Inr (blk lo)"
proof -
  show "tailb = Some (blk (t - 1))" using assms by (simp add: xring_rep_def)
  have "ring_block tr b el H T blk lo t p (t - 1)" using assms by (simp add: xring_rep_def)
  then show "block_after p (blk (t - 1)) = Inr (blk lo)" using assms(2)
    by (auto simp: ring_block_def block_after_def cq_block_at_def)
qed

lemma ring_at:
  "xring_rep tr b el H T blk lo t tailb p \<Longrightarrow> lo \<le> k \<Longrightarrow> k < t \<Longrightarrow>
     \<exists>bl. heap p (blk k) = Some bl \<and> block_rep tr explicit_context b el H T k bl \<and>
       block_next bl = Some (if Suc k < t then blk (Suc k) else blk lo) \<and> blk k \<notin> free_blocks p \<and> blk k < next_block p"
  unfolding xring_rep_def ring_block_def by blast

lemma ring_last:
  assumes "xring_rep tr b el H T blk lo t tailb p" and "lo < t"
  shows "\<exists>bl. heap p (blk (t - 1)) = Some bl \<and> block_rep tr explicit_context b el H T (t - 1) bl \<and>
    block_next bl = Some (blk lo) \<and> blk (t - 1) \<notin> free_blocks p \<and> blk (t - 1) < next_block p"
proof -
  have "lo \<le> t - 1" "t - 1 < t" "\<not> Suc (t - 1) < t" using assms(2) by auto
  then show ?thesis using ring_at [OF assms(1), of "t - 1"] by simp
qed

lemma ahead_ok:
  assumes b: "block_bits tr b" and ring: "xring_rep tr b el H T blk lo t (x_tailBlock e) p" and "lo \<le> t"
  shows "ahead_is_empty ndebug tr (e, p) = Inr (lo < t \<and> lo * 2 ^ b + 2 ^ b \<le> H)"
proof (cases "lo < t")
  case True
  obtain bl where "heap p (blk lo) = Some bl" "block_rep tr explicit_context b el H T lo bl"
    using ring_at [OF ring order_refl True] by blast
  then show ?thesis using ring_tail [OF ring True] True is_empty_rep [OF b, of explicit_context H lo bl ndebug]
    by (simp add: ahead_is_empty_def cq_block_at_def block_rep_def)
next
  case False
  then show ?thesis using ring by (simp add: ahead_is_empty_def xring_rep_def)
qed

text \<open>The first block, empty, becomes the last one.\<close>

lemma ring_reuse:
  assumes b: "block_bits tr b" and ring: "xring_rep tr b el H T blk lo t tailb p" and lo: "lo < t"
    and free: "lo * 2 ^ b + 2 ^ b \<le> H" and HT: "H \<le> T" "T = t * 2 ^ b"
    and bl: "heap p (blk lo) = Some bl"
  shows "xring_rep tr b el H T (blk(t := blk lo)) (Suc lo) (Suc t) (Some (blk lo))
    (cq_put_block (blk lo) (reset_empty tr explicit_context bl) p)"
proof -
  have l: "block_rep tr explicit_context b el H T lo bl"
    "block_next bl = Some (if Suc lo < t then blk (Suc lo) else blk lo)" "blk lo \<notin> free_blocks p" "blk lo < next_block p"
    using ring_at [OF ring order_refl lo] bl by simp_all
  have inj: "inj_on blk {lo..<t}" using ring by (simp add: xring_rep_def)
  have ne: "blk k \<noteq> blk lo" if "lo < k" "k < t" for k
    using inj_onD [OF inj, of k lo] that by auto
  let ?r = "reset_empty tr explicit_context bl" and ?B = "blk(t := blk lo)"
  let ?p = "cq_put_block (blk lo) ?r p"
  have r: "block_rep tr explicit_context b el H T t ?r"
    using reset_rep [OF b, of bl H t explicit_context el] empty_rep_raw [OF l(1) free] HT by simp
  have rn: "block_next ?r = Some (?B (Suc lo))" using l(2) lo by (auto simp: reset_empty_def not_less less_Suc_eq_le)
  have "ring_block tr b el H T ?B (Suc lo) (Suc t) ?p t" using r rn l(3,4) by (simp add: ring_block_def)
  moreover have "ring_block tr b el H T ?B (Suc lo) (Suc t) ?p k" if k: "Suc lo \<le> k" "k < t" for k
  proof -
    obtain bk where bk: "heap p (blk k) = Some bk" "block_rep tr explicit_context b el H T k bk"
      "block_next bk = Some (if Suc k < t then blk (Suc k) else blk lo)" "blk k \<notin> free_blocks p" "blk k < next_block p"
      using ring_at [OF ring, of k] k by (meson less_imp_le_nat Suc_le_lessD)
    have "block_next bk = Some (?B (Suc k))" using bk(3) k by (cases "Suc k = t") simp_all
    then show ?thesis using bk(1,2,4,5) ne [of k] k by (simp add: ring_block_def)
  qed
  ultimately have "ring_block tr b el H T ?B (Suc lo) (Suc t) ?p k" if "Suc lo \<le> k" "k < Suc t" for k
    using that by (cases "k = t") simp_all
  moreover have "inj_on ?B {Suc lo..<Suc t}"
    by (rule inj_on_append) (use inj ne in \<open>auto intro: inj_on_subset\<close>)
  moreover have "pool_ok tr ?p" using ring l by (intro put_block_ok) (auto simp: xring_rep_def)
  ultimately show ?thesis using lo by (simp add: xring_rep_def)
qed

text \<open>A block that was not in use is linked in after the last one.\<close>

lemma link_ok:
  assumes b: "block_bits tr b" and ring: "xring_rep tr b el H T blk lo t (x_tailBlock e) p" and lo: "lo \<le> t"
    and HT: "H \<le> T" "T = t * 2 ^ b" and n: "heap p n = Some bl" "raw_block tr bl" "n \<notin> free_blocks p" "n < next_block p"
    and new: "n \<notin> blk ` {lo..<t}"
  shows "\<exists>p'. link_block n (e, cq_put_block n (reset_empty tr explicit_context bl) p) = Inr (e\<lparr>x_tailBlock := Some n\<rparr>, p') \<and>
    xring_rep tr b el H T (blk(t := n)) lo (Suc t) (Some n) p' \<and> frame (insert n (blk ` {lo..<t})) p p' \<and>
    mallocs p' = mallocs p \<and> next_block p' = next_block p \<and> free_blocks p' = free_blocks p"
proof -
  let ?r = "reset_empty tr explicit_context bl" and ?B = "blk(t := n)"
  have inj: "inj_on blk {lo..<t}" and pool: "pool_ok tr p" using ring by (simp_all add: xring_rep_def)
  have r: "block_rep tr explicit_context b el H T t ?r"
    using reset_rep [OF b, of bl H t explicit_context el] raw_blockD [OF b n(2)] HT by simp
  have inj': "inj_on ?B {lo..<Suc t}" by (rule inj_on_append [OF inj]) (use new in force)
  show ?thesis
  proof (cases "lo < t")
    case False
    then have tail: "x_tailBlock e = None" and lt: "lo = t" using ring lo by (auto simp: xring_rep_def)
    let ?p = "cq_put_block n (?r\<lparr>block_next := Some n\<rparr>) (cq_put_block n ?r p)"
    have "link_block n (e, cq_put_block n ?r p) = Inr (e\<lparr>x_tailBlock := Some n\<rparr>, ?p)"
      using tail by (simp add: link_block_def cq_block_at_def)
    moreover have "ring_block tr b el H T ?B lo (Suc t) ?p t" using r n lt by (simp add: ring_block_def)
    then have "\<forall>k. lo \<le> k \<and> k < Suc t \<longrightarrow> ring_block tr b el H T ?B lo (Suc t) ?p k" using lt by (metis less_Suc_eq_le le_antisym)
    moreover have "pool_ok tr ?p" using n by (intro put_block_ok pool) simp_all
    ultimately show ?thesis using inj' lt by (intro exI [of _ ?p]) (simp add: xring_rep_def frame_def cq_put_block_def free_blocks_def)
  next
    case True
    let ?l = "blk (t - 1)"
    obtain bt where bt: "heap p ?l = Some bt" "block_rep tr explicit_context b el H T (t - 1) bt"
      "block_next bt = Some (blk lo)" "?l \<notin> free_blocks p" "?l < next_block p"
      using ring_last [OF ring True] by blast
    have ln: "?l \<noteq> n" using new True by force
    define p' where "p' = cq_put_block ?l (bt\<lparr>block_next := Some n\<rparr>)
      (cq_put_block n (?r\<lparr>block_next := Some (blk lo)\<rparr>) (cq_put_block n ?r p))"
    have run: "link_block n (e, cq_put_block n ?r p) = Inr (e\<lparr>x_tailBlock := Some n\<rparr>, p')"
      using bt(1,3) ln ring_tail(1) [OF ring True] by (simp add: link_block_def cq_block_at_def p'_def Let_def)
    have k: "ring_block tr b el H T ?B lo (Suc t) p' k" if k: "lo \<le> k" "k < t" for k
    proof (cases "k = t - 1")
      case True
      then show ?thesis using bt(2,4,5) k by (simp add: ring_block_def p'_def)
    next
      case False
      obtain bk where bk: "heap p (blk k) = Some bk" "block_rep tr explicit_context b el H T k bk"
        "block_next bk = Some (if Suc k < t then blk (Suc k) else blk lo)" "blk k \<notin> free_blocks p" "blk k < next_block p"
        using ring_at [OF ring, of k] k by (meson less_imp_le_nat Suc_le_lessD)
      moreover have "blk k \<noteq> ?l" using inj_onD [OF inj, of k "t - 1"] False k by fastforce
      moreover have "blk k \<noteq> n" using new k by force
      moreover have "Suc k < t" using k False by linarith
      ultimately show ?thesis by (simp add: ring_block_def p'_def)
    qed
    have "ring_block tr b el H T ?B lo (Suc t) p' t" using r n(3,4) True ln by (simp add: ring_block_def p'_def)
    with k have "ring_block tr b el H T ?B lo (Suc t) p' k" if "lo \<le> k" "k < Suc t" for k
      using that by (cases "k = t") auto
    moreover have "pool_ok tr p'" unfolding p'_def using n bt(4,5) by (intro put_block_ok pool) auto
    ultimately have "xring_rep tr b el H T ?B lo (Suc t) (Some n) p'" using inj' lo by (simp add: xring_rep_def)
    moreover have "?l \<in> blk ` {lo..<t}" using True by auto
    then have "frame (insert n (blk ` {lo..<t})) p p'" by (auto simp: frame_def p'_def)
    ultimately show ?thesis using run by (intro exI [of _ p']) (simp add: p'_def cq_put_block_def free_blocks_def)
  qed
qed

text \<open>An element is constructed in the last block.\<close>

lemma construct_tail_ok:
  assumes b: "block_bits tr b" and ring: "xring_rep tr b el H T blk lo t (x_tailBlock e) p" and lo: "lo < t"
    and T: "T div 2 ^ b = t - 1" "H \<le> T"
  shows "\<exists>p'. construct_in_tail tr (of_nat T) x (e, p) = Inr (e, p') \<and>
    xring_rep tr b (el(T := x)) H (Suc T) blk lo t (x_tailBlock e) p' \<and> frame (blk ` {lo..<t}) p p' \<and>
    next_block p' = next_block p \<and> free_blocks p' = free_blocks p"
proof -
  let ?l = "blk (t - 1)"
  obtain bt where bt: "heap p ?l = Some bt" "block_rep tr explicit_context b el H T (t - 1) bt"
    "block_next bt = Some (blk lo)" "?l \<notin> free_blocks p" "?l < next_block p"
    using ring_last [OF ring lo] by blast
  obtain bt' where bt': "construct_at tr (of_nat T) x bt = Inr bt'" "block_next bt' = block_next bt"
    "block_rep tr explicit_context b (el(T := x)) H (Suc T) (t - 1) bt'"
    using construct_rep [OF b, of explicit_context el H T bt x] bt(2) T by auto
  let ?p = "cq_put_block ?l bt' p"
  have inj: "inj_on blk {lo..<t}" using ring by (simp add: xring_rep_def)
  have "ring_block tr b (el(T := x)) H (Suc T) blk lo t ?p k" if k: "lo \<le> k" "k < t" for k
  proof (cases "k = t - 1")
    case True
    then show ?thesis using bt bt' lo by (auto simp: ring_block_def)
  next
    case False
    obtain bk where bk: "heap p (blk k) = Some bk" "block_rep tr explicit_context b el H T k bk"
      "block_next bk = Some (if Suc k < t then blk (Suc k) else blk lo)" "blk k \<notin> free_blocks p" "blk k < next_block p"
      using ring_at [OF ring, of k] k by (meson less_imp_le_nat Suc_le_lessD)
    moreover have "blk k \<noteq> ?l" using inj_onD [OF inj, of k "t - 1"] False k by fastforce
    moreover have "block_rep tr explicit_context b (el(T := x)) H (Suc T) k bk"
      by (rule block_rep_grow [OF bk(2)]) (use T False in simp)
    ultimately show ?thesis using k False by (auto simp: ring_block_def)
  qed
  moreover have "pool_ok tr ?p" using ring bt by (intro put_block_ok) (auto simp: xring_rep_def)
  ultimately have "xring_rep tr b (el(T := x)) H (Suc T) blk lo t (x_tailBlock e) ?p"
    using ring by (simp add: xring_rep_def)
  moreover have "?l \<in> blk ` {lo..<t}" using lo by auto
  ultimately show ?thesis using bt(1) bt'(1) ring_tail(1) [OF ring lo]
    by (intro exI [of _ ?p]) (simp add: construct_in_tail_def on_block_def cq_block_at_def put_block_frame)
qed

section \<open>Enqueue\<close>

lemma add_index_ok:
  assumes ix: "ix_rep b blk lo t n c s e" and h: "headers e \<noteq> []" and n: "t - lo < n" and b: "1 \<le> b"
    and tail: "x_tailBlock e = Some a" and lo: "lo \<le> t"
  shows "\<exists>e'. add_to_index (of_nat (t * 2 ^ b)) e = Inr e' \<and> ix_rep b (blk(t := a)) lo (Suc t) n c s e' \<and> same_queue e e'"
proof -
  obtain g gs where g: "headers e = g # gs" using h by (cases "headers e") auto
  have i: "pr_blockIndexSize e = 2 ^ s" "index_size g = 2 ^ s" "length (index_entries g) = 2 ^ s"
    "pr_blockIndexFront e = of_nat ((t + c) mod 2 ^ s)" "pr_blockIndexSlotsUsed e = of_nat n" "n \<le> 2 ^ s" "1 \<le> s" "s + b \<le> 64"
    "\<And>k. lo \<le> k \<Longrightarrow> k < t \<Longrightarrow> index_entries g ! ((k + c) mod 2 ^ s) = Some (of_nat (k * 2 ^ b), blk k)"
    using ix g by (auto simp: ix_rep_def)
  have s: "s < 64" using i(8) b by simp
  let ?f = "(t + c) mod 2 ^ s"
  let ?es = "(index_entries g)[?f := Some (of_nat (t * 2 ^ b), a)]"
  let ?e = "e\<lparr>headers := g\<lparr>index_entries := ?es, index_front := of_nat ?f\<rparr> # gs, pr_blockIndexFront := of_nat ((Suc t + c) mod 2 ^ s)\<rparr>"
  have u: "unat (of_nat ?f :: u64) = ?f" by (rule unat_slot [OF s])
  have len: "\<not> length (index_entries g) \<le> ?f" using i(3) by (simp add: not_le)
  have "add_to_index (of_nat (t * 2 ^ b)) e = Inr ?e"
    unfolding add_to_index_def tail write_entry_def publish_front_def advance_front_def
    using g i(1,4) u len mask_next [OF s, of t c] by simp
  moreover have "ix_rep b (blk(t := a)) lo (Suc t) n c s ?e"
  proof -
    have "?es ! ((k + c) mod 2 ^ s) = Some (of_nat (k * 2 ^ b), (blk(t := a)) k)" if "lo \<le> k" "k < Suc t" for k
    proof (cases "k = t")
      case True
      then show ?thesis using i(3) by simp
    next
      case False
      then have "(k + c) mod 2 ^ s \<noteq> ?f" using that n i(6) by (intro slots_differ [of lo]) auto
      then show ?thesis using i(9) [of k] that False by simp
    qed
    then show ?thesis using i(1-3,5-8) n lo by (simp add: ix_rep_def)
  qed
  ultimately show ?thesis by (auto simp: same_queue_def)
qed

text \<open>The state after a block has been found for the next elements, before its entry is in the index.\<close>

definition xstarted :: "traits \<Rightarrow> nat \<Rightarrow> (nat \<Rightarrow> 'a) \<Rightarrow> nat \<Rightarrow> nat \<Rightarrow> nat set \<Rightarrow> 'a xstate \<Rightarrow> bool" where
  "xstarted tr b el H T R s \<longleftrightarrow> (case s of (e, p) \<Rightarrow>
     (\<exists>blk lo t c z. xcounters H T e \<and> ix_rep b blk lo t (Suc t - lo) c z e \<and> headers e \<noteq> [] \<and>
        xring_rep tr b el H T blk lo (Suc t) (x_tailBlock e) p \<and> R = blk ` {lo..<Suc t} \<and>
        H \<le> T \<and> T = t * 2 ^ b \<and> lo \<le> t \<and> lo * 2 ^ b \<le> H \<and> (t - lo) * 2 ^ b < 2 ^ 63))"

lemma boundary_window:
  assumes "xwindow b H T lo t" and "T mod 2 ^ b = 0"
  shows "T = t * 2 ^ b"
proof -
  have T: "T div 2 ^ b * 2 ^ b = T" using assms(2) by (metis add.right_neutral div_mult_mod_eq)
  moreover have "T \<le> t * 2 ^ b" "t * 2 ^ b < T + 2 ^ b" using assms(1) by (auto simp: xwindow_def)
  ultimately have "T div 2 ^ b * 2 ^ b \<le> t * 2 ^ b" "t * 2 ^ b < Suc (T div 2 ^ b) * 2 ^ b" by simp_all
  then have "T div 2 ^ b = t" unfolding mult_le_cancel2 mult_less_cancel2 by simp
  then show ?thesis using T by simp
qed

lemma inside_window:
  assumes "xwindow b H T lo t" and "T mod 2 ^ b \<noteq> 0"
  shows "T div 2 ^ b = t - 1" "lo < t" "Suc T \<le> t * 2 ^ b"
proof -
  have w: "T \<le> t * 2 ^ b" "t * 2 ^ b < T + 2 ^ b" "lo \<le> t" "lo = t \<longrightarrow> t = 0" using assms(1) by (auto simp: xwindow_def)
  have "T \<noteq> t * 2 ^ b" using assms(2) by auto
  then show s: "Suc T \<le> t * 2 ^ b" using w by simp
  then have t: "0 < t" by (cases t) auto
  then show "lo < t" using w by auto
  have "(t - 1) * 2 ^ b \<le> T" "T < Suc (t - 1) * 2 ^ b" using w s t by (simp_all add: diff_mult_distrib)
  then show "T div 2 ^ b = t - 1" by (simp add: div_nat_eqI mult.commute)
qed

lemma xcounters_same: "xcounters H T e \<Longrightarrow> same_queue e e' \<Longrightarrow> xcounters H T e'"
  by (simp add: same_queue_counters)

lemma ring_rep_mallocs [simp]:
  "xring_rep tr b el H T blk lo t tailb (p\<lparr>mallocs := m\<rparr>) = xring_rep tr b el H T blk lo t tailb p"
  by (simp add: xring_rep_def ring_block_def)

lemma ix_rep_mono:
  "ix_rep b blk lo t n c s e \<Longrightarrow> lo \<le> lo' \<Longrightarrow> ix_rep b blk lo' t n c s e"
  by (auto simp: ix_rep_def split: list.splits)

lemma ix_rep_upd: "ix_rep b (blk(t := a)) lo t n c s e = ix_rep b blk lo t n c s e"
  by (simp add: ix_rep_def split: list.split)

lemma ix_rep_other [simp]:
  "ix_rep b blk lo t n c s (e\<lparr>x_tailBlock := a\<rparr>) = ix_rep b blk lo t n c s e"
  "ix_rep b blk lo t n c s (e\<lparr>x_tailIndex := w\<rparr>) = ix_rep b blk lo t n c s e"
  "ix_rep b blk lo t n c s (e\<lparr>x_headIndex := w\<rparr>) = ix_rep b blk lo t n c s e"
  "ix_rep b blk lo t n c s (e\<lparr>x_dequeueOptimisticCount := w\<rparr>) = ix_rep b blk lo t n c s e"
  by (simp_all add: ix_rep_def split: list.split)

lemma xcounters_upd [simp]:
  "xcounters H T (e\<lparr>x_tailBlock := a\<rparr>) = xcounters H T e"
  "xcounters H T (e\<lparr>pr_blockIndexSlotsUsed := n\<rparr>) = xcounters H T e"
  by (simp_all add: xcounters_def)

text \<open>Blocks that somebody else works on.\<close>

lemma ring_rep_frame:
  assumes "xring_rep tr b el H T blk lo t tailb p" and "frame Q p p'" and "blk ` {lo..<t} \<inter> Q = {}" and "pool_ok tr p'"
  shows "xring_rep tr b el H T blk lo t tailb p'"
proof -
  have "ring_block tr b el H T blk lo t p' k" if k: "lo \<le> k" "k < t" for k
  proof -
    have "blk k \<in> blk ` {lo..<t}" using k by simp
    then have "blk k \<notin> Q" using assms(3) by blast
    moreover have r: "ring_block tr b el H T blk lo t p k" using assms(1) k by (simp add: xring_rep_def)
    then have "blk k \<notin> free_blocks p" "blk k < next_block p" by (simp_all add: ring_block_def)
    ultimately have "heap p' (blk k) = heap p (blk k)" "blk k \<notin> free_blocks p'" "blk k < next_block p'"
      using assms(2) unfolding frame_def by (blast, blast, meson less_le_trans)
    then show ?thesis using r by (simp add: ring_block_def)
  qed
  then show ?thesis using assms(1,4) by (simp add: xring_rep_def)
qed

text \<open>The block ahead is empty.\<close>

lemma start_reuse:
  assumes b: "block_bits tr b" and cnt: "xcounters H T e" and ix: "ix_rep b blk lo t (t - lo) c s e"
    and ring: "xring_rep tr b el H T blk lo t (x_tailBlock e) p" and w: "xwindow b H T lo t" and T: "T = t * 2 ^ b"
    and free: "lo < t" "lo * 2 ^ b + 2 ^ b \<le> H"
  shows "\<exists>e' p'. start_new_block ndebug tr ok m (e, p) = Inr (True, e', p') \<and>
    xstarted tr b el H T (blk ` {lo..<t}) (e', p') \<and> frame (blk ` {lo..<t}) p p'"
proof -
  obtain bl where bl: "heap p (blk lo) = Some bl" using ring_at [OF ring order_refl free(1)] by blast
  let ?p = "cq_put_block (blk lo) (reset_empty tr explicit_context bl) p" and ?e = "e\<lparr>x_tailBlock := Some (blk lo)\<rparr>"
  have "start_new_block ndebug tr ok m (e, p) = Inr (True, ?e, ?p)"
    using ahead_ok [OF b ring] free ring_tail [OF ring free(1)] bl
    by (simp add: start_new_block_def on_block_def cq_block_at_def)
  moreover have "xstarted tr b el H T (blk ` {lo..<t}) (?e, ?p)"
  proof -
    have "xring_rep tr b el H T (blk(t := blk lo)) (Suc lo) (Suc t) (x_tailBlock ?e) ?p"
      using ring_reuse [OF b ring free _ T bl] w by (simp add: xwindow_def)
    moreover have "ix_rep b (blk(t := blk lo)) (Suc lo) t (Suc t - Suc lo) c s ?e"
      using ix_rep_mono [OF ix, of "Suc lo"] by (simp add: ix_rep_upd)
    moreover have "headers ?e \<noteq> []" using ix free(1) by (auto simp: ix_rep_def)
    moreover have "blk ` {lo..<t} = (blk(t := blk lo)) ` {Suc lo..<Suc t}"
    proof -
      have "{lo..<t} = insert lo {Suc lo..<t}" "{Suc lo..<Suc t} = insert t {Suc lo..<t}"
        "{Suc lo..<t} \<inter> {x. x \<noteq> t} = {Suc lo..<t}" using free(1) by auto
      then show ?thesis by simp
    qed
    moreover have "(t - Suc lo) * 2 ^ b < 2 ^ 63" "H \<le> T" using w by (simp_all add: xwindow_def)
    ultimately show ?thesis using cnt T free unfolding xstarted_def
      by (intro case_prodI exI [of _ "blk(t := blk lo)"] exI [of _ "Suc lo"] exI [of _ t] exI [of _ c] exI [of _ s]) simp
  qed
  moreover have "frame (blk ` {lo..<t}) p ?p" by (rule put_block_frame) (use free in simp)
  ultimately show ?thesis by blast
qed

text \<open>Otherwise a new block, if there is room for it and memory: the index first.\<close>

lemma room_ok:
  assumes b: "block_bits tr b" and ix: "ix_rep b blk lo t (t - lo) c s e" and lo: "lo \<le> t" and near: "(t - lo) * 2 ^ b < 2 ^ 63"
  shows "\<exists>room e' p' c' s'.
    (if headers e = [] \<or> pr_blockIndexSlotsUsed e = pr_blockIndexSize e
     then if m = CannotAlloc then Inr (False, (e, p)) else new_block_index ok (pr_blockIndexSlotsUsed e) (e, p)
     else Inr (True, (e, p))) = Inr (room, e', p') \<and>
    p' = p\<lparr>mallocs := mallocs p'\<rparr> \<and> mallocs p \<le> mallocs p' \<and> same_queue e e' \<and> ix_rep b blk lo t (t - lo) c' s' e' \<and>
    (room \<longrightarrow> headers e' \<noteq> [] \<and> t - lo < 2 ^ s') \<and> (\<not> room \<longrightarrow> m = CannotAlloc \<or> \<not> ok (mallocs p))"
proof (cases "headers e = [] \<or> pr_blockIndexSlotsUsed e = pr_blockIndexSize e")
  case False
  then obtain h hs where h: "headers e = h # hs" by (cases "headers e") auto
  then have i: "pr_blockIndexSize e = 2 ^ s" "pr_blockIndexSlotsUsed e = of_nat (t - lo)" "t - lo \<le> 2 ^ s"
    using ix by (auto simp: ix_rep_def)
  then have "t - lo \<noteq> 2 ^ s" using False h by auto
  then have "t - lo < 2 ^ s" using i(3) by simp
  then show ?thesis using False h ix
    by (intro exI [of _ True] exI [of _ e] exI [of _ p] exI [of _ c] exI [of _ s]) (simp add: same_queue_def)
next
  case full: True
  show ?thesis
  proof (cases "m = CannotAlloc \<or> \<not> ok (mallocs p)")
    case True
    then show ?thesis using full ix
      by (intro exI [of _ False] exI [of _ e] exI [of _ "if m = CannotAlloc then p else p\<lparr>mallocs := mallocs p + 1\<rparr>"]
          exI [of _ c] exI [of _ s]) (auto simp: new_block_index_def same_queue_def)
  next
    case False
    have b1: "1 \<le> b" using b by (simp add: block_bits_def)
    have "Suc s + b \<le> 64" if ne: "headers e \<noteq> []"
    proof -
      obtain h hs where h: "headers e = h # hs" using ne by (cases "headers e") auto
      then have i: "pr_blockIndexSize e = 2 ^ s" "pr_blockIndexSlotsUsed e = of_nat (t - lo)" "t - lo \<le> 2 ^ s" "s + b \<le> 64"
        using ix by (auto simp: ix_rep_def)
      then have s: "s < 64" using b1 by simp
      have "(2 :: nat) ^ s < 2 ^ 64" using s by (intro power_strict_increasing) auto
      then have "unat (of_nat (t - lo) :: u64) = t - lo" using i(3) by (intro unat_of_nat_u64) simp
      moreover have "unat (2 ^ s :: u64) = 2 ^ s" using s by (rule unat_exp_u64)
      ultimately have "t - lo = 2 ^ s" using full h i(1,2) by (metis list.distinct(1))
      then have "(2 :: nat) ^ (s + b) < 2 ^ 63" using near by (simp add: power_add)
      then have "s + b < 63" by (rule power_less_imp_less_exp [rotated]) simp
      then show ?thesis by simp
    qed
    then have "headers e = [] \<or> Suc s + b \<le> 64" by blast
    from new_index_ok [OF ix b1 _ lo this, of ok p] False obtain e' c' s' where
      "new_block_index ok (pr_blockIndexSlotsUsed e) (e, p) = Inr (True, (e', p\<lparr>mallocs := mallocs p + 1\<rparr>))"
      "ix_rep b blk lo t (t - lo) c' s' e'" "same_queue e e'" "headers e' \<noteq> []" "t - lo < 2 ^ s'" by blast
    then show ?thesis using full False
      by (intro exI [of _ True] exI [of _ e'] exI [of _ "p\<lparr>mallocs := mallocs p + 1\<rparr>"] exI [of _ c'] exI [of _ s']) simp
  qed
qed

lemma leeway_near:
  assumes b: "block_bits tr b" and w: "xwindow b H T lo t" and T: "T = t * 2 ^ b"
    and used: "\<not> (lo < t \<and> lo * 2 ^ b + 2 ^ b \<le> H)" and room: "\<not> no_leeway tr (of_nat H) (of_nat T)"
  shows "(t - lo) * 2 ^ b < 2 ^ 63"
proof (cases "lo < t")
  case True
  have H: "H \<le> T" "T - H < 2 ^ 63" using w by (simp_all add: xwindow_def)
  have B: "(of_nat T + BLOCK_SIZE tr :: u64) = of_nat (T + 2 ^ b)" using block_bitsD(2) [OF b] by simp
  have "(2 :: nat) ^ b \<le> 2 ^ 32" using b unfolding block_bits_def by (intro power_increasing) auto
  then have "T + 2 ^ b - H < 2 ^ 64" using H by simp
  then have "T + 2 ^ b - H < 2 ^ 63"
    using room circular_iff [of H "T + 2 ^ b"] H(1) unfolding no_leeway_def B by auto
  moreover have "(t - lo) * 2 ^ b = T - lo * 2 ^ b" unfolding T by (rule diff_mult_distrib)
  ultimately show ?thesis using used True H(1) by linarith
next
  case False
  then show ?thesis by simp
qed

lemma start_new:
  assumes b: "block_bits tr b" and cnt: "xcounters H T e" and ix: "ix_rep b blk lo t (t - lo) c s e"
    and ring: "xring_rep tr b el H T blk lo t (x_tailBlock e) p" and w: "xwindow b H T lo t" and T: "T = t * 2 ^ b"
    and used: "\<not> (lo < t \<and> lo * 2 ^ b + 2 ^ b \<le> H)" and room: "\<not> no_leeway tr (of_nat H) (of_nat T)"
  shows "\<exists>r e' p'. start_new_block ndebug tr ok m (e, p) = Inr (r, e', p') \<and>
    (r \<longrightarrow> (\<exists>R'. xstarted tr b el H T R' (e', p') \<and> grows (blk ` {lo..<t}) R' p p')) \<and>
    (\<not> r \<longrightarrow> xrep tr b el H T (blk ` {lo..<t}) (e', p') \<and> frame (blk ` {lo..<t}) p p' \<and>
       (m = CannotAlloc \<or> (\<exists>i\<ge>mallocs p. \<not> ok i)))"
proof -
  let ?R = "blk ` {lo..<t}"
  have lo: "lo \<le> t" and HT: "H \<le> T" "T - H < 2 ^ 63" "lo * 2 ^ b \<le> H" using w by (simp_all add: xwindow_def)
  have near: "(t - lo) * 2 ^ b < 2 ^ 63" by (rule leeway_near [OF b w T used room])
  obtain room' e1 p1 c' s' where r: "(if headers e = [] \<or> pr_blockIndexSlotsUsed e = pr_blockIndexSize e
      then if m = CannotAlloc then Inr (False, (e, p)) else new_block_index ok (pr_blockIndexSlotsUsed e) (e, p)
      else Inr (True, (e, p))) = Inr (room', e1, p1)"
    and p1: "p1 = p\<lparr>mallocs := mallocs p1\<rparr>" "mallocs p \<le> mallocs p1" and e1: "same_queue e e1" "ix_rep b blk lo t (t - lo) c' s' e1"
    and yes: "room' \<Longrightarrow> headers e1 \<noteq> [] \<and> t - lo < 2 ^ s'" and no: "\<not> room' \<Longrightarrow> m = CannotAlloc \<or> \<not> ok (mallocs p)"
    using room_ok [OF b ix lo near, of m p ok] by blast
  have cnt1: "xcounters H T e1" using xcounters_same [OF cnt e1(1)] .
  have t1: "x_tailBlock e1 = x_tailBlock e" using e1(1) by (simp add: same_queue_def)
  have ring1: "xring_rep tr b el H T blk lo t (x_tailBlock e1) p1"
    unfolding t1 by (subst p1(1)) (simp add: ring)
  have f1: "frame ?R p p1" by (subst p1(1)) simp
  have x1: "xrep tr b el H T ?R (e1, p1)" unfolding xrep_def using cnt1 w e1(2) ring1 by blast
  have asrt: "cq_assertion ndebug (\<not> circular_less_than (of_nat T) (of_nat H :: u64)) = Inr ()"
    using circular_near(2) [OF HT(1,2)] by (simp add: cq_assertion_def)
  have c: "x_tailIndex e = of_nat T" "x_headIndex e = of_nat H" using cnt by (simp_all add: xcounters_def)
  have f: "(lo < t \<and> lo * 2 ^ b + 2 ^ b \<le> H) = False" "no_leeway tr (of_nat H) (of_nat T) = False" using used room by simp_all
  have run: "start_new_block ndebug tr ok m (e, p) =
      (if \<not> room' then Inr (False, (e1, p1))
       else case requisition_block tr ok m p1 of
           (None, p) \<Rightarrow> Inr (False, (e1, p))
         | (Some newBlock, p) \<Rightarrow>
           bind_r (on_block newBlock (\<lambda>blk. Inr ((), reset_empty tr explicit_context blk)) p) (\<lambda>(_, p).
           bind_r (link_block newBlock (e1, p)) (\<lambda>(e, p).
           Inr (True, (e\<lparr>pr_blockIndexSlotsUsed := pr_blockIndexSlotsUsed e + 1\<rparr>, p)))))"
    unfolding start_new_block_def Let_def ahead_ok [OF b ring lo] bind_r_simps fst_conv c f if_False asrt r prod.case ..
  show ?thesis
  proof (cases room')
    case False
    then show ?thesis using run x1 f1 no by auto
  next
    case True
    obtain q p2 where q: "requisition_block tr ok m p1 = (q, p2)" by fastforce
    have pool1: "pool_ok tr p1" using ring1 by (simp add: xring_rep_def)
    note rq = requisition_ok [OF pool1 q] and rf = requisition_frame [OF pool1 q, of ?R]
    show ?thesis
    proof (cases q)
      case None
      have "xring_rep tr b el H T blk lo t (x_tailBlock e1) p2"
        by (rule ring_rep_frame [OF ring1 requisition_frame [OF pool1 q, of "{}"]]) (use rq in auto)
      then have "xrep tr b el H T ?R (e1, p2)" unfolding xrep_def using cnt1 w e1(2) by blast
      moreover have "frame ?R p p2" using frame_trans [OF f1 rf] by blast
      ultimately show ?thesis using True run q None requisition_fails [of tr ok m p1 p2] p1(2) by auto
    next
      case (Some n)
      then have n: "n \<in> free_blocks p1 \<or> n = next_block p1" "n \<notin> free_blocks p2" "n < next_block p2" "pool_ok tr p2"
        and "\<exists>bl. heap p2 n = Some bl \<and> raw_block tr bl" using rq by auto
      then obtain bl where bl: "heap p2 n = Some bl" "raw_block tr bl" by blast
      have new: "n \<notin> ?R" using ring_at [OF ring1] n(1) by (force simp: image_iff)
      have ring2: "xring_rep tr b el H T blk lo t (x_tailBlock e1) p2"
        by (rule ring_rep_frame [OF ring1 requisition_frame [OF pool1 q, of "{}"]]) (use n in auto)
      obtain p3 where p3: "link_block n (e1, cq_put_block n (reset_empty tr explicit_context bl) p2) = Inr (e1\<lparr>x_tailBlock := Some n\<rparr>, p3)"
        "xring_rep tr b el H T (blk(t := n)) lo (Suc t) (Some n) p3" "frame (insert n ?R) p2 p3"
        using link_ok [OF b ring2 lo HT(1) T bl n(2,3) new] by blast
      let ?e = "e1\<lparr>x_tailBlock := Some n, pr_blockIndexSlotsUsed := pr_blockIndexSlotsUsed e1 + 1\<rparr>"
      have "start_new_block ndebug tr ok m (e, p) = Inr (True, ?e, p3)"
        using run True q Some bl p3(1) by (simp add: on_block_def cq_block_at_def)
      moreover have "xstarted tr b el H T (insert n ?R) (?e, p3)"
      proof -
        have "ix_rep b (blk(t := n)) lo t (Suc t - lo) c' s' ?e"
          using e1(2) yes [OF True] lo by (auto simp: ix_rep_def Suc_diff_le split: list.splits)
        moreover have "insert n ?R = (blk(t := n)) ` {lo..<Suc t}"
        proof -
          have "{lo..<Suc t} = insert t {lo..<t}" "{lo..<t} \<inter> {x. x \<noteq> t} = {lo..<t}" using lo by auto
          then show ?thesis by simp
        qed
        moreover have "xcounters H T ?e" using cnt1 by simp
        ultimately show ?thesis unfolding xstarted_def using yes [OF True] p3(2) HT T lo near
          by (intro case_prodI exI [of _ "blk(t := n)"] exI [of _ lo] exI [of _ t] exI [of _ c'] exI [of _ s']) simp
      qed
      moreover have "grows ?R (insert n ?R) p p3"
      proof -
        have "grows ?R ?R p p1" using f1 by (auto simp: grows_def)
        moreover have "grows ?R (insert n ?R) p1 p2" using rf n(1) by (auto simp: grows_def)
        moreover have "grows (insert n ?R) (insert n ?R) p2 p3" using p3(3) by (auto simp: grows_def)
        ultimately show ?thesis by (blast intro: grows_trans)
      qed
      ultimately show ?thesis by blast
    qed
  qed
qed

lemma start_ok:
  assumes b: "block_bits tr b" and rep: "xrep tr b el H T R (e, p)" and T: "T mod 2 ^ b = 0"
  shows "\<exists>r e' p'. start_new_block ndebug tr ok m (e, p) = Inr (r, e', p') \<and>
    (r \<longrightarrow> (\<exists>R'. xstarted tr b el H T R' (e', p') \<and> grows R R' p p')) \<and>
    (\<not> r \<longrightarrow> xrep tr b el H T R (e', p') \<and> frame R p p' \<and>
       (no_leeway tr (of_nat H) (of_nat T) \<or> m = CannotAlloc \<or> (\<exists>i\<ge>mallocs p. \<not> ok i)))"
proof -
  obtain blk lo t c s where x: "xcounters H T e" "xwindow b H T lo t" "ix_rep b blk lo t (t - lo) c s e"
    "xring_rep tr b el H T blk lo t (x_tailBlock e) p" "R = blk ` {lo..<t}" using rep by (auto simp: xrep_def)
  have Tt: "T = t * 2 ^ b" by (rule boundary_window [OF x(2) T])
  show ?thesis
  proof (cases "lo < t \<and> lo * 2 ^ b + 2 ^ b \<le> H")
    case True
    then obtain e' p' where "start_new_block ndebug tr ok m (e, p) = Inr (True, e', p')" "xstarted tr b el H T R (e', p')"
      "frame R p p'" using start_reuse [OF b x(1,3,4,2) Tt, of ndebug ok m] x(5) by blast
    then show ?thesis by (auto simp: grows_def)
  next
    case used: False
    show ?thesis
    proof (cases "no_leeway tr (of_nat H) (of_nat T)")
      case False
      then show ?thesis using start_new [OF b x(1,3,4,2) Tt used False, of ndebug ok m] x(5) by blast
    next
      case True
      have "\<not> circular_less_than (of_nat T) (of_nat H :: u64)"
        using x(2) by (intro circular_near(2)) (simp_all add: xwindow_def)
      moreover have "lo \<le> t" using x(2) by (simp add: xwindow_def)
      ultimately have "start_new_block ndebug tr ok m (e, p) = Inr (False, e, p)"
        using True x(1) used ahead_ok [OF b x(4), of ndebug]
        by (auto simp: start_new_block_def xcounters_def cq_assertion_def Let_def)
      then show ?thesis using True rep by auto
    qed
  qed
qed

text \<open>The element is constructed and the block's entry is written; neither minds the order.\<close>

lemma finish_ok:
  assumes b: "block_bits tr b" and st: "xstarted tr b el H T R (e, p)" and few: "Suc T - H < 2 ^ 63"
  shows "\<exists>e' p'. add_to_index (of_nat T) e = Inr e' \<and> construct_in_tail tr (of_nat T) x (e, p) = Inr (e, p') \<and>
    construct_in_tail tr (of_nat T) x (e', p) = Inr (e', p') \<and>
    xrep tr b (el(T := x)) H (Suc T) R (e'\<lparr>x_tailIndex := 1 + of_nat T\<rparr>, p') \<and> frame R p p'"
proof -
  obtain blk lo t c s where x: "xcounters H T e" "ix_rep b blk lo t (Suc t - lo) c s e" "headers e \<noteq> []"
    "xring_rep tr b el H T blk lo (Suc t) (x_tailBlock e) p" "R = blk ` {lo..<Suc t}"
    "H \<le> T" "T = t * 2 ^ b" "lo \<le> t" "lo * 2 ^ b \<le> H" "(t - lo) * 2 ^ b < 2 ^ 63"
    using st by (auto simp: xstarted_def)
  have b1: "1 \<le> b" using b by (simp add: block_bits_def)
  have tail: "x_tailBlock e = Some (blk t)" using x(4,8) by (simp add: xring_rep_def)
  have n: "t - lo < Suc t - lo" using x(8) by (simp add: Suc_diff_le)
  obtain e' where e': "add_to_index (of_nat T) e = Inr e'" "ix_rep b (blk(t := blk t)) lo (Suc t) (Suc t - lo) c s e'" "same_queue e e'"
    using add_index_ok [OF x(2,3) n b1 tail x(8)] x(7) by blast
  have lt: "lo < Suc t" and Tt: "T div 2 ^ b = Suc t - 1" using x(7,8) by simp_all
  obtain p' where p': "construct_in_tail tr (of_nat T) x (e, p) = Inr (e, p')"
    "xring_rep tr b (el(T := x)) H (Suc T) blk lo (Suc t) (x_tailBlock e) p'" "frame R p p'"
    using construct_tail_ok [OF b x(4) lt Tt x(6), of x] x(5) by blast
  have tail': "x_tailBlock e' = x_tailBlock e" using e'(3) by (simp add: same_queue_def)
  then have c': "construct_in_tail tr (of_nat T) x (e', p) = Inr (e', p')"
    using p'(1) tail by (auto simp: construct_in_tail_def)
  let ?e = "e'\<lparr>x_tailIndex := 1 + of_nat T\<rparr>"
  have "xcounters H (Suc T) ?e" using xcounters_same [OF x(1) e'(3)] by (simp add: xcounters_def)
  moreover have "xwindow b H (Suc T) lo (Suc t)"
  proof -
    have "Suc t * 2 ^ b < Suc T + 2 ^ b" "Suc T \<le> Suc t * 2 ^ b" using x(7) by simp_all
    then show ?thesis using x(6,8,9,10) few unfolding xwindow_def by simp
  qed
  moreover have "ix_rep b blk lo (Suc t) (Suc t - lo) c s ?e" using e'(2) by simp
  moreover have "xring_rep tr b (el(T := x)) H (Suc T) blk lo (Suc t) (x_tailBlock ?e) p'" using p'(2) tail' by simp
  ultimately have "xrep tr b (el(T := x)) H (Suc T) R (?e, p')" using x(5) unfolding xrep_def by blast
  then show ?thesis using e'(1) p'(1,3) c' by blast
qed

lemma explicit_enqueue_ok:
  assumes b: "block_bits tr b" and rep: "xrep tr b el H T R (e, p)" and few: "Suc T - H < 2 ^ 63"
    and fine: "nothrow \<or> \<not> throws x"
  shows "\<exists>r e' p'. explicit_enqueue ndebug tr ok nothrow throws m x (e, p) = Inr (Returns r, e', p') \<and>
    (r \<longrightarrow> (\<exists>R'. xrep tr b (el(T := x)) H (Suc T) R' (e', p') \<and> grows R R' p p')) \<and>
    (\<not> r \<longrightarrow> xrep tr b el H T R (e', p') \<and> frame R p p' \<and> T mod 2 ^ b = 0 \<and>
       (no_leeway tr (of_nat H) (of_nat T) \<or> m = CannotAlloc \<or> (\<exists>i\<ge>mallocs p. \<not> ok i)))"
proof -
  have T: "x_tailIndex e = of_nat T" using rep by (auto simp: xrep_def xcounters_def)
  have fine': "(\<not> nothrow \<and> throws x) = False" using fine by simp
  show ?thesis
  proof (cases "T mod 2 ^ b = 0")
    case True
    obtain r e1 p1 where st: "start_new_block ndebug tr ok m (e, p) = Inr (r, e1, p1)"
      and yes: "r \<longrightarrow> (\<exists>R'. xstarted tr b el H T R' (e1, p1) \<and> grows R R' p p1)"
      and no: "\<not> r \<longrightarrow> xrep tr b el H T R (e1, p1) \<and> frame R p p1 \<and>
        (no_leeway tr (of_nat H) (of_nat T) \<or> m = CannotAlloc \<or> (\<exists>i\<ge>mallocs p. \<not> ok i))"
      using start_ok [OF b rep True, of ndebug ok m] by blast
    have run: "explicit_enqueue ndebug tr ok nothrow throws m x (e, p) =
        (if \<not> r then Inr (Returns False, (e1, p1))
         else if \<not> nothrow
          then bind_r (construct_in_tail tr (of_nat T) x (e1, p1)) (\<lambda>(e, p).
            bind_r (add_to_index (of_nat T) e) (\<lambda>e. Inr (Returns True, (e\<lparr>x_tailIndex := 1 + of_nat T\<rparr>, p))))
          else bind_r (add_to_index (of_nat T) e1) (\<lambda>e.
            bind_r (construct_in_tail tr (of_nat T) x (e, p1)) (\<lambda>(e, p).
              Inr (Returns True, (e\<lparr>x_tailIndex := 1 + of_nat T\<rparr>, p)))))"
      using True unfolding explicit_enqueue_def Let_def fst_conv T boundary_of_nat [OF b] st bind_r_simps prod.case fine'
      by (simp only: if_True if_False simp_thms)
    show ?thesis
    proof (cases r)
      case False
      then show ?thesis using run no True by auto
    next
      case r: True
      then obtain R' where R': "xstarted tr b el H T R' (e1, p1)" "grows R R' p p1" using yes by blast
      obtain e' p' where f: "add_to_index (of_nat T) e1 = Inr e'" "construct_in_tail tr (of_nat T) x (e1, p1) = Inr (e1, p')"
        "construct_in_tail tr (of_nat T) x (e', p1) = Inr (e', p')"
        "xrep tr b (el(T := x)) H (Suc T) R' (e'\<lparr>x_tailIndex := 1 + of_nat T\<rparr>, p')" "frame R' p1 p'"
        using finish_ok [OF b R'(1) few, of x] by blast
      have "explicit_enqueue ndebug tr ok nothrow throws m x (e, p) = Inr (Returns True, e'\<lparr>x_tailIndex := 1 + of_nat T\<rparr>, p')"
        unfolding run using r f(1-3) by (cases nothrow) simp_all
      moreover have "grows R R' p p'" using R'(2) frame_grows [OF f(5)] by (rule grows_trans)
      ultimately show ?thesis using f(4) by blast
    qed
  next
    case False
    obtain blk lo t c s where x: "xcounters H T e" "xwindow b H T lo t" "ix_rep b blk lo t (t - lo) c s e"
      "xring_rep tr b el H T blk lo t (x_tailBlock e) p" "R = blk ` {lo..<t}" using rep by (auto simp: xrep_def)
    note w = inside_window [OF x(2) False]
    obtain p' where p': "construct_in_tail tr (of_nat T) x (e, p) = Inr (e, p')"
      "xring_rep tr b (el(T := x)) H (Suc T) blk lo t (x_tailBlock e) p'" "frame R p p'"
      using construct_tail_ok [OF b x(4) w(2,1), of x] x(2,5) by (auto simp: xwindow_def)
    let ?e = "e\<lparr>x_tailIndex := 1 + of_nat T\<rparr>"
    have "explicit_enqueue ndebug tr ok nothrow throws m x (e, p) = Inr (Returns True, ?e, p')"
      using False p'(1) unfolding explicit_enqueue_def Let_def fst_conv T boundary_of_nat [OF b] fine' by simp
    moreover have "xrep tr b (el(T := x)) H (Suc T) R (?e, p')"
    proof -
      have "xcounters H (Suc T) ?e" using x(1) by (simp add: xcounters_def)
      moreover have "xwindow b H (Suc T) lo t" using x(2) w(3) few unfolding xwindow_def by simp
      moreover have "ix_rep b blk lo t (t - lo) c s ?e" using x(3) by simp
      moreover have "xring_rep tr b (el(T := x)) H (Suc T) blk lo t (x_tailBlock ?e) p'" using p'(2) by simp
      ultimately show ?thesis unfolding x(5) by (rule xrepI)
    qed
    ultimately show ?thesis using p'(3) by (auto simp: grows_def)
  qed
qed

section \<open>Dequeue\<close>

lemma index_slot_ok:
  assumes b: "block_bits tr b" and ix: "ix_rep b blk lo t n c s e" and h: "headers e = h # hs"
    and k: "lo \<le> i div 2 ^ b" "i div 2 ^ b < t" and near: "(t - lo - 1) * 2 ^ b < 2 ^ 63"
  shows "index_slot tr h (of_nat i) = Inr (of_nat ((i div 2 ^ b + c) mod 2 ^ s))"
proof -
  have i: "index_size h = 2 ^ s" "length (index_entries h) = 2 ^ s" "index_front h = of_nat ((t - 1 + c) mod 2 ^ s)" "s + b \<le> 64"
    using ix h k by (auto simp: ix_rep_def)
  have "\<forall>k. lo \<le> k \<and> k < t \<longrightarrow> index_entries h ! ((k + c) mod 2 ^ s) = Some (of_nat (k * 2 ^ b), blk k)"
    using ix h by (simp add: ix_rep_def)
  then have last: "index_entries h ! ((t - 1 + c) mod 2 ^ s) = Some (of_nat ((t - 1) * 2 ^ b), blk (t - 1))"
    by (rule allE [of _ "t - 1"]) (use k in linarith)
  have s: "s < 64" using i(4) b by (simp add: block_bits_def)
  have "t - 1 - i div 2 ^ b \<le> t - lo - 1" using k by linarith
  then have "(t - 1 - i div 2 ^ b) * 2 ^ b \<le> (t - lo - 1) * 2 ^ b" by (rule mult_le_mono1)
  then have "(t - 1 - i div 2 ^ b) * 2 ^ b < 2 ^ 63" using near by (rule le_less_trans)
  then have "(t - 1 - i div 2 ^ b) * 2 ^ b < 2 ^ 64" by (rule less_trans) simp
  then have "(of_nat ((t - 1 + c) mod 2 ^ s) + (of_nat (i div 2 ^ b * 2 ^ b) - of_nat ((t - 1) * 2 ^ b)) div BLOCK_SIZE tr) AND (2 ^ s - 1) =
      (of_nat ((i div 2 ^ b + c) mod 2 ^ s) :: u64)"
    using k by (intro index_slot_back [OF b i(4) _ _ s]) simp_all
  moreover have "unat (of_nat ((t - 1 + c) mod 2 ^ s) :: u64) = (t - 1 + c) mod 2 ^ s" by (rule unat_slot [OF s])
  moreover have "\<not> 2 ^ s \<le> (t - 1 + c) mod 2 ^ s" by (simp add: not_le)
  ultimately show ?thesis unfolding index_slot_def Let_def i(1-3) base_of_nat [OF b] using last by (simp only: if_False option.case prod.case)
qed

lemma entry_block_ok:
  assumes ix: "ix_rep b blk lo t n c s e" and h: "headers e = h # hs" and k: "lo \<le> k" "k < t" and s: "s < 64"
  shows "entry_block h (of_nat ((k + c) mod 2 ^ s)) = Inr (blk k)"
proof -
  have "unat (of_nat ((k + c) mod 2 ^ s) :: u64) = (k + c) mod 2 ^ s" by (rule unat_slot [OF s])
  moreover have "length (index_entries h) = 2 ^ s" "index_entries h ! ((k + c) mod 2 ^ s) = Some (of_nat (k * 2 ^ b), blk k)"
    using ix h k by (auto simp: ix_rep_def)
  ultimately show ?thesis by (simp add: entry_block_def not_le)
qed

lemma ix_rep_header:
  assumes "ix_rep b blk lo t n c s e" and "lo < t" and "1 \<le> b"
  obtains h hs where "headers e = h # hs" "s < 64"
  using assms by (cases "headers e") (auto simp: ix_rep_def)

lemma window_block:
  assumes "xwindow b H T lo t" and "H \<le> i" and "i < T"
  shows "lo \<le> i div 2 ^ b" "i div 2 ^ b < t"
proof -
  have "lo * 2 ^ b \<le> i" "i < t * 2 ^ b" using assms by (auto simp: xwindow_def)
  then show "lo \<le> i div 2 ^ b" "i div 2 ^ b < t"
    by (simp_all add: less_eq_div_iff_mult_less_eq div_less_iff_less_mult)
qed

lemma ring_shrink:
  assumes ring: "xring_rep tr b el H T blk lo t tailb p" and k: "lo \<le> k" "k < t" and p: "heap p (blk k) = Some bk"
    and bk': "block_rep tr explicit_context b el H' T k bk'" "block_next bk' = block_next bk"
    and H: "H \<le> H'" "k * 2 ^ b \<le> H" "H' \<le> k * 2 ^ b + 2 ^ b"
  shows "xring_rep tr b el H' T blk lo t tailb (cq_put_block (blk k) bk' p)"
proof -
  let ?p = "cq_put_block (blk k) bk' p"
  have inj: "inj_on blk {lo..<t}" using ring by (simp add: xring_rep_def)
  have nk: "block_next bk = Some (if Suc k < t then blk (Suc k) else blk lo)" "blk k \<notin> free_blocks p" "blk k < next_block p"
    using ring_at [OF ring k] p by auto
  have "ring_block tr b el H' T blk lo t ?p j" if j: "lo \<le> j" "j < t" for j
  proof (cases "j = k")
    case True
    then show ?thesis using nk bk' by (simp add: ring_block_def)
  next
    case False
    obtain bj where bj: "heap p (blk j) = Some bj" "block_rep tr explicit_context b el H T j bj"
      "block_next bj = Some (if Suc j < t then blk (Suc j) else blk lo)" "blk j \<notin> free_blocks p" "blk j < next_block p"
      using ring_at [OF ring j] by blast
    have "blk j \<noteq> blk k" using inj_onD [OF inj, of j k] False j k by auto
    moreover have "j * 2 ^ b + 2 ^ b \<le> H \<or> H' \<le> j * 2 ^ b"
    proof (cases "j < k")
      case True
      then have "Suc j * 2 ^ b \<le> k * 2 ^ b" by (intro mult_le_mono1) simp
      then show ?thesis using H by simp
    next
      case False
      then have "Suc k * 2 ^ b \<le> j * 2 ^ b" using \<open>j \<noteq> k\<close> by (intro mult_le_mono1) simp
      then show ?thesis using H by simp
    qed
    then have "block_rep tr explicit_context b el H' T j bj" by (rule block_rep_shrink [OF bj(2) H(1)])
    ultimately show ?thesis using bj by (simp add: ring_block_def)
  qed
  moreover have "pool_ok tr ?p" using ring nk by (intro put_block_ok) (auto simp: xring_rep_def)
  ultimately show ?thesis using ring by (simp add: xring_rep_def)
qed

lemma xwindow_take: "xwindow b H T lo t \<Longrightarrow> H \<le> H' \<Longrightarrow> H' \<le> T \<Longrightarrow> xwindow b H' T lo t"
  unfolding xwindow_def by linarith

lemma explicit_dequeue_ok:
  assumes b: "block_bits tr b" and rep: "xrep tr b el H T R (e, p)" and ne: "H < T"
  shows "\<exists>e' p'. explicit_dequeue ndebug tr throws (e, p) =
      Inr (if throws (el H) then Throws else Returns (Some (el H)), e', p') \<and>
    xrep tr b el (Suc H) T R (e', p') \<and> frame R p p'"
proof -
  obtain blk lo t c s where x: "xcounters H T e" "xwindow b H T lo t" "ix_rep b blk lo t (t - lo) c s e"
    "xring_rep tr b el H T blk lo t (x_tailBlock e) p" "R = blk ` {lo..<t}" using rep by (auto simp: xrep_def)
  let ?k = "H div 2 ^ b"
  note k = window_block [OF x(2) order_refl ne]
  have b1: "1 \<le> b" and lt: "lo < t" using b k by (auto simp: block_bits_def)
  obtain h hs where h: "headers e = h # hs" and s: "s < 64" by (rule ix_rep_header [OF x(3) lt b1])
  have near: "(t - lo - 1) * 2 ^ b < 2 ^ 63" "T - H < 2 ^ 63" "H \<le> T" using x(2) by (auto simp: xwindow_def)
  let ?e = "e\<lparr>x_dequeueOptimisticCount := of_nat H + 1, x_headIndex := of_nat H + 1\<rparr>"
  have find: "find_block tr ?e (of_nat H) = Inr (blk ?k)"
    using index_slot_ok [OF b x(3) h k near(1)] entry_block_ok [OF x(3) h k s] h by (simp add: find_block_def)
  obtain bk where bk: "heap p (blk ?k) = Some bk" "block_rep tr explicit_context b el H T ?k bk"
    using ring_at [OF x(4) k] by blast
  obtain b1' b2 where t: "element_at tr (of_nat H) bk = Inr (el H)" "destroy_at tr (of_nat H) bk = Inr b1'"
    "set_empty ndebug tr explicit_context (of_nat H) b1' = Inr (\<not> by_flags tr explicit_context \<and> H mod 2 ^ b + 1 = 2 ^ b, b2)"
    "block_rep tr explicit_context b el (Suc H) T ?k b2" "block_next b2 = block_next bk"
    using take_one_rep [OF b bk(2) ne, of ndebug] by blast
  let ?p = "cq_put_block (blk ?k) b2 p"
  have "circular_less_than (of_nat H) (of_nat T :: u64)" using circular_near(1) [OF near(3,2)] ne by simp
  then have "explicit_dequeue ndebug tr throws (e, p) = Inr (if throws (el H) then Throws else Returns (Some (el H)), ?e, ?p)"
    using x(1) find bk(1) t(1-3) unfolding explicit_dequeue_def Let_def xcounters_def
    by (simp add: cq_assertion_def cq_block_at_def del: bind_r_eq_Inr)
  moreover have "xrep tr b el (Suc H) T R (?e, ?p)"
  proof -
    have "xcounters (Suc H) T ?e" using x(1) by (simp add: xcounters_def)
    moreover have "xring_rep tr b el (Suc H) T blk lo t (x_tailBlock ?e) ?p"
    proof -
      have "?k * 2 ^ b + H mod 2 ^ b = H" by (rule div_mult_mod_eq)
      moreover have "H mod 2 ^ b < 2 ^ b" by simp
      ultimately have "Suc H \<le> ?k * 2 ^ b + 2 ^ b" "?k * 2 ^ b \<le> H" by linarith+
      then show ?thesis using ring_shrink [OF x(4) k bk(1) t(4,5)] by simp
    qed
    moreover have "ix_rep b blk lo t (t - lo) c s ?e" using x(3) by simp
    moreover have "xwindow b (Suc H) T lo t" using xwindow_take [OF x(2)] ne by simp
    ultimately show ?thesis using x(5) unfolding xrep_def by blast
  qed
  moreover have "frame R p ?p" using x(5) k by (intro put_block_frame) auto
  ultimately show ?thesis by blast
qed

lemma explicit_dequeue_empty:
  assumes "xrep tr b el T T R (e, p)"
  shows "explicit_dequeue ndebug tr throws (e, p) = Inr (Returns None, e, p)"
  using assms circular_near(2) [of T T]
  by (auto simp: explicit_dequeue_def Let_def xrep_def xcounters_def)

end
