(* ===== verification/Cq_Subqueue.thy ===== *)
theory Cq_Subqueue
  imports Cq_Pool
begin

text \<open>
  What \<^verbatim>\<open>ConcurrentQueue\<close> asks of a sub-queue, as an interface: \<^verbatim>\<open>enqueue\<close>, \<^verbatim>\<open>dequeue\<close> and \<^verbatim>\<open>dequeue_bulk\<close> on a producer and
  the pool of blocks it shares with others. \<^verbatim>\<open>ExplicitProducer\<close> and \<^verbatim>\<open>ImplicitProducer\<close> both provide it. The client's side: runs of calls are
  runs of a list.
\<close>

section \<open>Calls and the specification\<close>

datatype 'a sqop = Sq_enqueue cq_AllocationMode 'a | Sq_dequeue | Sq_dequeue_bulk u64

datatype 'a sqanswer = Enqueued bool | Dequeued "'a option" | Dequeued_bulk "'a list"

type_synonym ('s, 'a) enq = "cq_AllocationMode \<Rightarrow> 'a \<Rightarrow> 's \<times> 'a pool \<Rightarrow> cq_fault + bool ends \<times> 's \<times> 'a pool"
type_synonym ('s, 'a) deq = "'s \<times> 'a pool \<Rightarrow> cq_fault + 'a option ends \<times> 's \<times> 'a pool"
type_synonym ('s, 'a) deqb = "u64 \<Rightarrow> 's \<times> 'a pool \<Rightarrow> cq_fault + 'a list \<times> u64 ends \<times> 's \<times> 'a pool"

definition sq_call :: "('s, 'a) enq \<Rightarrow> ('s, 'a) deq \<Rightarrow> ('s, 'a) deqb \<Rightarrow> 'a sqop \<Rightarrow> 's \<times> 'a pool \<Rightarrow>
    cq_fault + 'a sqanswer ends \<times> 's \<times> 'a pool" where
  "sq_call enq deq deqb c s =
     (case c of
        Sq_enqueue m x \<Rightarrow> bind_r (enq m x s)
          (\<lambda>(r, s). Inr (case r of Throws \<Rightarrow> Throws | Returns a \<Rightarrow> Returns (Enqueued a), s))
      | Sq_dequeue \<Rightarrow> bind_r (deq s)
          (\<lambda>(r, s). Inr (case r of Throws \<Rightarrow> Throws | Returns a \<Rightarrow> Returns (Dequeued a), s))
      | Sq_dequeue_bulk n \<Rightarrow> bind_r (deqb n s)
          (\<lambda>(xs, r, s). Inr (case r of Throws \<Rightarrow> Throws | Returns a \<Rightarrow> Returns (Dequeued_bulk (take (unat a) xs)), s)))"

primrec sq_run :: "('s, 'a) enq \<Rightarrow> ('s, 'a) deq \<Rightarrow> ('s, 'a) deqb \<Rightarrow> 'a sqop list \<Rightarrow> 's \<times> 'a pool \<Rightarrow>
    cq_fault + 'a sqanswer ends list \<times> 's \<times> 'a pool" where
  "sq_run enq deq deqb [] s = Inr ([], s)"
| "sq_run enq deq deqb (c # cs) s =
     bind_r (sq_call enq deq deqb c s) (\<lambda>(a, s). bind_r (sq_run enq deq deqb cs s) (\<lambda>(as, s). Inr (a # as, s)))"

text \<open>
  The specification: the queue is a list. An \<^verbatim>\<open>enqueue\<close> may be refused only if \<open>may_refuse\<close> allows it.
\<close>

fun fifo_answers :: "(cq_AllocationMode \<Rightarrow> bool) \<Rightarrow> 'a list \<Rightarrow> 'a sqop list \<Rightarrow> 'a sqanswer ends list \<Rightarrow> bool" where
  "fifo_answers may_refuse q [] as \<longleftrightarrow> as = []"
| "fifo_answers may_refuse q (Sq_enqueue m x # cs) (Returns (Enqueued True) # as) \<longleftrightarrow> fifo_answers may_refuse (q @ [x]) cs as"
| "fifo_answers may_refuse q (Sq_enqueue m x # cs) (Returns (Enqueued False) # as) \<longleftrightarrow> may_refuse m \<and> fifo_answers may_refuse q cs as"
| "fifo_answers may_refuse q (Sq_dequeue # cs) (Returns (Dequeued a) # as) \<longleftrightarrow>
     (case q of [] \<Rightarrow> a = None \<and> fifo_answers may_refuse [] cs as | x # q' \<Rightarrow> a = Some x \<and> fifo_answers may_refuse q' cs as)"
| "fifo_answers may_refuse q (Sq_dequeue_bulk n # cs) (Returns (Dequeued_bulk xs) # as) \<longleftrightarrow>
     xs = take (unat n) q \<and> fifo_answers may_refuse (drop (unat n) q) cs as"
| "fifo_answers may_refuse q (c # cs) as \<longleftrightarrow> False"

section \<open>The interface\<close>

text \<open>
  \<open>rep q R s\<close>: the sub-queue stands for the list \<open>q\<close> and owns the blocks \<open>R\<close> of the pool. The laws are asked for up to
  2 to the 62 elements.
\<close>

locale subqueue =
  fixes rep :: "'a list \<Rightarrow> nat set \<Rightarrow> 's \<times> 'a pool \<Rightarrow> bool"
    and enq :: "('s, 'a) enq" and deq :: "('s, 'a) deq" and deqb :: "('s, 'a) deqb"
    and may_refuse :: "cq_AllocationMode \<Rightarrow> bool"
  assumes enq_law: "rep q R (e, p) \<Longrightarrow> length q < 2 ^ 62 \<Longrightarrow>
      \<exists>r e' p' R'. enq m x (e, p) = Inr (Returns r, e', p') \<and> rep (if r then q @ [x] else q) R' (e', p') \<and> moves R R' p p' \<and>
        (\<not> r \<longrightarrow> may_refuse m)"
    and deq_law: "rep q R (e, p) \<Longrightarrow>
      \<exists>e' p' R'. deq (e, p) = Inr (Returns (case q of [] \<Rightarrow> None | x # _ \<Rightarrow> Some x), e', p') \<and> rep (tl q) R' (e', p') \<and> moves R R' p p'"
    and deqb_law: "rep q R (e, p) \<Longrightarrow>
      \<exists>e' p' R'. deqb n (e, p) = Inr (take (unat n) q, Returns (of_nat (min (unat n) (length q))), e', p') \<and>
        rep (drop (unat n) q) R' (e', p') \<and> moves R R' p p'"
    and short: "rep q R s \<Longrightarrow> length q < 2 ^ 63"
begin

lemma call_ok:
  assumes rep: "rep q R (e, p)" and few: "length q < 2 ^ 62"
  shows "\<exists>a e' p' q' R'. sq_call enq deq deqb c (e, p) = Inr (a, e', p') \<and> rep q' R' (e', p') \<and> moves R R' p p' \<and>
    length q' \<le> Suc (length q) \<and> (\<forall>cs as. fifo_answers may_refuse q (c # cs) (a # as) \<longleftrightarrow> fifo_answers may_refuse q' cs as)"
proof (cases c)
  case (Sq_enqueue m x)
  obtain r e' p' R' where r: "enq m x (e, p) = Inr (Returns r, e', p')" "rep (if r then q @ [x] else q) R' (e', p')" "moves R R' p p'"
    "\<not> r \<longrightarrow> may_refuse m" using enq_law [OF rep few] by blast
  then show ?thesis using Sq_enqueue
    by (intro exI [of _ "Returns (Enqueued r)"] exI [of _ e'] exI [of _ p'] exI [of _ "if r then q @ [x] else q"] exI [of _ R'])
      (cases r; simp add: sq_call_def)
next
  case Sq_dequeue
  obtain e' p' R' where r: "deq (e, p) = Inr (Returns (case q of [] \<Rightarrow> None | x # _ \<Rightarrow> Some x), e', p')" "rep (tl q) R' (e', p')"
    "moves R R' p p'" using deq_law [OF rep] by blast
  then show ?thesis using Sq_dequeue
    by (intro exI [of _ "Returns (Dequeued (case q of [] \<Rightarrow> None | x # _ \<Rightarrow> Some x))"] exI [of _ e'] exI [of _ p'] exI [of _ "tl q"] exI [of _ R'])
      (cases q; simp add: sq_call_def)
next
  case (Sq_dequeue_bulk n)
  obtain e' p' R' where r: "deqb n (e, p) = Inr (take (unat n) q, Returns (of_nat (min (unat n) (length q))), e', p')"
    "rep (drop (unat n) q) R' (e', p')" "moves R R' p p'" using deqb_law [OF rep] by blast
  have "min (unat n) (length q) < 2 ^ 64" using short [OF rep] by (simp add: min_less_iff_disj)
  then have "unat (of_nat (min (unat n) (length q)) :: u64) = min (unat n) (length q)" by (rule unat_of_nat_u64)
  moreover have "take (min (unat n) (length q)) (take (unat n) q) = take (unat n) q" by (simp add: min_def)
  ultimately have "sq_call enq deq deqb c (e, p) = Inr (Returns (Dequeued_bulk (take (unat n) q)), e', p')"
    unfolding sq_call_def Sq_dequeue_bulk by (simp only: sqop.case r(1) bind_r_simps prod.case ends.case)
  then show ?thesis using r(2,3) Sq_dequeue_bulk
    by (intro exI [of _ "Returns (Dequeued_bulk (take (unat n) q))"] exI [of _ e'] exI [of _ p'] exI [of _ "drop (unat n) q"] exI [of _ R'])
      simp
qed

lemma run_ok:
  "rep q R (e, p) \<Longrightarrow> length q + length cs < 2 ^ 62 \<Longrightarrow>
    \<exists>as s' q' R'. sq_run enq deq deqb cs (e, p) = Inr (as, s') \<and> fifo_answers may_refuse q cs as \<and> rep q' R' s' \<and> moves R R' p (snd s')"
proof (induction cs arbitrary: q R e p)
  case Nil
  then show ?case by (intro exI [of _ "[]"] exI [of _ "(e, p)"] exI [of _ q] exI [of _ R]) simp
next
  case (Cons c cs)
  have few: "length q < 2 ^ 62" using Cons.prems(2) by simp
  obtain a e' p' q' R' where c: "sq_call enq deq deqb c (e, p) = Inr (a, e', p')" "rep q' R' (e', p')" "moves R R' p p'"
    "length q' \<le> Suc (length q)"
    and spec: "\<And>cs as. fifo_answers may_refuse q (c # cs) (a # as) \<longleftrightarrow> fifo_answers may_refuse q' cs as"
    using call_ok [OF Cons.prems(1) few, of c] by blast
  have "length q' + length cs < 2 ^ 62" using c(4) Cons.prems(2) by simp
  from Cons.IH [OF c(2) this] obtain as s' q'' R'' where r: "sq_run enq deq deqb cs (e', p') = Inr (as, s')"
    "fifo_answers may_refuse q' cs as" "rep q'' R'' s'" "moves R' R'' p' (snd s')" by blast
  then have "sq_run enq deq deqb (c # cs) (e, p) = Inr (a # as, s')" "fifo_answers may_refuse q (c # cs) (a # as)"
    using c(1) spec by simp_all
  then show ?case using r(3) moves_trans [OF c(3) r(4)] by blast
qed

end

section \<open>Sub-queues that share a pool\<close>

text \<open>
  What the owner of several sub-queues relies on: each owns blocks that are in use, is not disturbed by work on other
  blocks, and knows its size.
\<close>

locale shared_subqueue = subqueue rep enq deq deqb may_refuse
  for rep :: "'a list \<Rightarrow> nat set \<Rightarrow> 's \<times> 'a pool \<Rightarrow> bool" and enq deq deqb may_refuse +
  fixes t :: traits and sz :: "'s \<Rightarrow> u64"
  assumes owns: "rep q R (e, p) \<Longrightarrow> pool_ok t p \<and> R \<inter> free_blocks p = {} \<and> R \<subseteq> {..<next_block p}"
    and others: "rep q R (e, p) \<Longrightarrow> frame Q p p' \<Longrightarrow> Q \<inter> R = {} \<Longrightarrow> pool_ok t p' \<Longrightarrow> rep q R (e, p')"
    and sz_law: "rep q R (e, p) \<Longrightarrow> sz e = of_nat (length q)"
begin

lemma undisturbed:
  assumes "rep q R (e, p)" and "moves Q Q' p p'" and "Q \<inter> R = {}" and "pool_ok t p'"
  shows "rep q R (e, p') \<and> Q' \<inter> R = {}"
  using others [OF assms(1) _ assms(3,4)] owns [OF assms(1)] moves_disjoint [OF assms(2,3)] assms(2)
  by (auto simp: moves_def Int_commute)

lemma nonempty_iff: "rep q R (e, p) \<Longrightarrow> 0 < sz e \<longleftrightarrow> q \<noteq> []"
proof -
  assume rep: "rep q R (e, p)"
  have "length q < 2 ^ 64" using short [OF rep] by simp
  then have "unat (sz e) = length q" using sz_law [OF rep] unat_of_nat_u64 by metis
  then show ?thesis by (simp add: word_less_nat_alt)
qed

end

end
