(* ===== verification/Cq_Explicit_Run.thy ===== *)
theory Cq_Explicit_Run
  imports Cq_Explicit_Fifo Cq_Subqueue Rw_Props
begin

text \<open>
  \<^verbatim>\<open>ExplicitProducer\<close> from its constructor on: taking many elements at once, and runs of operations as runs of a list.
\<close>

section \<open>Bulk dequeue\<close>

lemma of_nat_near_eq: "i \<le> j \<Longrightarrow> j - i < 2 ^ 64 \<Longrightarrow> of_nat i = (of_nat j :: u64) \<longleftrightarrow> i = j"
proof -
  assume ij: "i \<le> j" "j - i < 2 ^ 64"
  have "of_nat j = (of_nat i + of_nat (j - i) :: u64)" using ij(1) by (simp flip: of_nat_add)
  then have "of_nat i = (of_nat j :: u64) \<longleftrightarrow> (of_nat (j - i) :: u64) = 0" by simp
  also have "\<dots> \<longleftrightarrow> j - i = 0" unfolding unat_eq_0 [symmetric] unat_of_nat_u64 [OF ij(2)] ..
  finally show ?thesis using ij(1) by auto
qed

text \<open>What is delivered of the elements \<open>xs\<close> when some throw: those before the first one that does.\<close>

definition handed_over :: "('a \<Rightarrow> bool) \<Rightarrow> bool \<Rightarrow> 'a list \<Rightarrow> 'a list" where
  "handed_over throws thrown xs = (if thrown then [] else takeWhile (\<lambda>x. \<not> throws x) xs)"

lemma handed_over_append:
  "handed_over throws thrown xs @ handed_over throws (thrown \<or> list_ex throws xs) ys = handed_over throws thrown (xs @ ys)"
proof -
  have "takeWhile (\<lambda>x. \<not> throws x) xs @ (if list_ex throws xs then [] else takeWhile (\<lambda>x. \<not> throws x) ys) =
      takeWhile (\<lambda>x. \<not> throws x) (xs @ ys)" by (induction xs) auto
  then show ?thesis by (simp add: handed_over_def)
qed

lemma take_run_ok:
  assumes b: "block_bits tr b"
  shows "slots_rep b el i T k blk \<Longrightarrow> k * 2 ^ b \<le> i \<Longrightarrow> i \<le> j \<Longrightarrow> j \<le> k * 2 ^ b + 2 ^ b \<Longrightarrow> j \<le> T \<Longrightarrow> j - i < fuel \<Longrightarrow>
    \<exists>blk'. take_run fuel tr throws thrown (of_nat i) (of_nat j) blk =
      Inr (handed_over throws thrown (map el [i..<j]), thrown \<or> list_ex throws (map el [i..<j]), blk') \<and>
      slots_rep b el j T k blk' \<and> emptyFlags blk' = emptyFlags blk \<and>
      elementsCompletelyDequeued blk' = elementsCompletelyDequeued blk \<and> block_next blk' = block_next blk"
proof (induction fuel arbitrary: i blk thrown)
  case 0
  then show ?case by simp
next
  case (Suc fuel)
  have "(2 :: nat) ^ b < 2 ^ 64" using block_bitsD(3) [OF b] by (intro power_strict_increasing) auto
  then have eq: "of_nat i = (of_nat j :: u64) \<longleftrightarrow> i = j" using Suc.prems by (intro of_nat_near_eq) linarith+
  show ?case
  proof (cases "i = j")
    case True
    then show ?thesis using Suc.prems by (auto simp: handed_over_def)
  next
    case False
    then have ij: "i < j" "i < T" using Suc.prems by auto
    have k: "i div 2 ^ b = k" using Suc.prems ij by (intro div_nat_eqI) (auto simp: mult.commute)
    then have rep: "slots_rep b el i T (i div 2 ^ b) blk" using Suc.prems(1) by simp
    obtain blk1 where d: "destroy_at tr (of_nat i) blk = Inr blk1" "slots_rep b el (Suc i) T k blk1" "emptyFlags blk1 = emptyFlags blk"
      "elementsCompletelyDequeued blk1 = elementsCompletelyDequeued blk" "block_next blk1 = block_next blk"
      using destroy_rep [OF b rep ij(2)] k by blast
    have fu: "j - Suc i < fuel" using Suc.prems(6) ij by linarith
    have el: "element_at tr (of_nat i) blk = Inr (el i)" by (rule element_rep [OF b rep order_refl ij(2)])
    obtain blk' where r: "take_run fuel tr throws (thrown \<or> throws (el i)) (of_nat (Suc i)) (of_nat j) blk1 =
        Inr (handed_over throws (thrown \<or> throws (el i)) (map el [Suc i..<j]),
          (thrown \<or> throws (el i)) \<or> list_ex throws (map el [Suc i..<j]), blk')"
      "slots_rep b el j T k blk'" "emptyFlags blk' = emptyFlags blk1"
      "elementsCompletelyDequeued blk' = elementsCompletelyDequeued blk1" "block_next blk' = block_next blk1"
      using Suc.IH [OF d(2) _ _ Suc.prems(4,5) fu, of "thrown \<or> throws (el i)"] Suc.prems(2) ij by auto
    have split: "map el [i..<j] = el i # map el [Suc i..<j]" using ij(1) by (simp add: upt_conv_Cons)
    have "take_run (Suc fuel) tr throws thrown (of_nat i) (of_nat j) blk =
      Inr (handed_over throws thrown (map el [i..<j]), thrown \<or> list_ex throws (map el [i..<j]), blk')"
      using False eq el d(1) r(1) unfolding split by (auto simp: handed_over_def Let_def add.commute)
    then show ?thesis using r(2-5) d(3-5) by simp
  qed
qed

lemma stop_index_ok:
  assumes b: "block_bits tr b" and "i \<le> E" and "E - i < 2 ^ 63"
  shows "stop_index tr (of_nat E) (of_nat i) = of_nat (min E (i div 2 ^ b * 2 ^ b + 2 ^ b))"
proof -
  let ?S = "i div 2 ^ b * 2 ^ b + 2 ^ b"
  have i: "i div 2 ^ b * 2 ^ b + i mod 2 ^ b = i" "i mod 2 ^ b < 2 ^ b" by (simp_all add: div_mult_mod_eq)
  have S: "block_base tr (of_nat i) + BLOCK_SIZE tr = of_nat ?S" using base_of_nat [OF b, of i] block_bitsD(2) [OF b] by simp
  have b32: "(2 :: nat) ^ b \<le> 2 ^ 32" using b unfolding block_bits_def by (intro power_increasing) auto
  show ?thesis
  proof (cases "E < ?S")
    case True
    have "?S - E \<le> 2 ^ b" using i assms(2) by linarith
    then have "?S - E \<le> 2 ^ 32" using b32 by (rule order_trans)
    then have "?S - E < 2 ^ 63" by (rule le_less_trans) simp
    then have "circular_less_than (of_nat E) (of_nat ?S :: u64)" using True circular_near(1) [of E ?S] by simp
    then show ?thesis unfolding stop_index_def Let_def S using True by (simp only: if_True min_def less_imp_le)
  next
    case False
    have "?S \<le> E" "E - ?S < 2 ^ 63" using False i assms(3) by linarith+
    then have "\<not> circular_less_than (of_nat E) (of_nat ?S :: u64)" using circular_near(2) [of ?S E] by simp
    moreover have "min E ?S = ?S" using False by simp
    ultimately show ?thesis unfolding stop_index_def Let_def S by (simp only: if_False)
  qed
qed

text \<open>From index \<open>H\<close> up to \<open>E\<close>, block by block.\<close>

lemma take_blocks_ok:
  assumes b: "block_bits tr b" and ix: "ix_rep b blk lo t n c s e" and h: "headers e = h # hs" and s: "s < 64"
  shows "xwindow b H T lo t \<Longrightarrow> xring_rep tr b el H T blk lo t tailb p \<Longrightarrow> H \<le> E \<Longrightarrow> H < T \<Longrightarrow> E \<le> T \<Longrightarrow> E - H < fuel \<Longrightarrow>
    \<exists>p'. take_blocks fuel ndebug tr throws h (of_nat E) thrown (of_nat ((H div 2 ^ b + c) mod 2 ^ s)) (of_nat H) p =
      Inr (handed_over throws thrown (map el [H..<E]), thrown \<or> list_ex throws (map el [H..<E]), p') \<and>
      xring_rep tr b el E T blk lo t tailb p' \<and> frame (blk ` {lo..<t}) p p'"
proof (induction fuel arbitrary: H p thrown)
  case 0
  then show ?case by simp
next
  case (Suc fuel)
  let ?k = "H div 2 ^ b"
  let ?S = "min E (?k * 2 ^ b + 2 ^ b)"
  have H: "?k * 2 ^ b + H mod 2 ^ b = H" "H mod 2 ^ b < 2 ^ b" by (simp_all add: div_mult_mod_eq)
  have w: "E - H < 2 ^ 63" using Suc.prems by (auto simp: xwindow_def)
  have kB: "H < ?k * 2 ^ b + 2 ^ b" using H by linarith
  then have S: "H \<le> ?S" "?S \<le> E" "?S \<le> T" "?S \<le> ?k * 2 ^ b + 2 ^ b" using Suc.prems(3,5) by auto
  have b64: "(2 :: nat) ^ b < 2 ^ 64" using block_bitsD(3) [OF b] by (intro power_strict_increasing) auto
  have stop: "stop_index tr (of_nat E) (of_nat H) = of_nat ?S" by (rule stop_index_ok [OF b Suc.prems(3) w])
  have k: "lo \<le> ?k" "?k < t" using window_block [OF Suc.prems(1) order_refl Suc.prems(4)] by auto
  have entry: "entry_block h (of_nat ((?k + c) mod 2 ^ s)) = Inr (blk ?k)" by (rule entry_block_ok [OF ix h k s])
  obtain bk where bk: "heap p (blk ?k) = Some bk" "block_rep tr explicit_context b el H T ?k bk"
    using ring_at [OF Suc.prems(2) k] by blast
  then have sl: "slots_rep b el H T ?k bk" and dq: "dequeued_rep tr explicit_context b H ?k bk" by (simp_all add: block_rep_slots)
  have B: "unat (BLOCK_SIZE tr) = 2 ^ b" by (rule block_bitsD(1) [OF b])
  have kH: "?k * 2 ^ b \<le> H" and fu: "?S - H < Suc (2 ^ b)" using H S(4) by linarith+
  obtain b1 where b1: "take_run (Suc (2 ^ b)) tr throws thrown (of_nat H) (of_nat ?S) bk =
      Inr (handed_over throws thrown (map el [H..<?S]), thrown \<or> list_ex throws (map el [H..<?S]), b1)"
    "slots_rep b el ?S T ?k b1" "emptyFlags b1 = emptyFlags bk" "elementsCompletelyDequeued b1 = elementsCompletelyDequeued bk"
    "block_next b1 = block_next bk"
    using take_run_ok [OF b sl kH S(1,4,3) fu, of throws thrown] by blast
  have dq1: "dequeued_rep tr explicit_context b H ?k b1" using dq dequeued_rep_cong [OF b1(3,4)] by blast
  have "H mod 2 ^ b + (?S - H) \<le> 2 ^ b" using H S(1,4) by linarith
  from set_many_empty_rep [OF b dq1 this, of ndebug] obtain f b2 where b2:
    "set_many_empty ndebug tr explicit_context (of_nat H) (of_nat (?S - H)) b1 = Inr (f, b2)"
    "dequeued_rep tr explicit_context b (H + (?S - H)) ?k b2" "elements b2 = elements b1" "block_next b2 = block_next b1" by blast
  have HS: "H + (?S - H) = ?S" "(of_nat ?S - of_nat H :: u64) = of_nat (?S - H)" using S(1) by (simp_all add: of_nat_diff)
  have rep2: "block_rep tr explicit_context b el ?S T ?k b2"
    using b1(2) b2(2) slots_rep_cong [OF b2(3)] HS(1) by (simp add: block_rep_slots)
  let ?p = "cq_put_block (blk ?k) b2 p"
  have n2: "block_next b2 = block_next bk" using b1(5) b2(4) by simp
  have ring2: "xring_rep tr b el ?S T blk lo t tailb ?p"
    by (rule ring_shrink [OF Suc.prems(2) k bk(1) rep2 n2]) (use H S in linarith)+
  have fr: "frame (blk ` {lo..<t}) p ?p" using k by (intro put_block_frame) auto
  have step: "take_blocks (Suc fuel) ndebug tr throws h (of_nat E) thrown (of_nat ((?k + c) mod 2 ^ s)) (of_nat H) p =
      (if of_nat ?S = (of_nat E :: u64)
       then Inr (handed_over throws thrown (map el [H..<?S]), thrown \<or> list_ex throws (map el [H..<?S]), ?p)
       else bind_r (take_blocks fuel ndebug tr throws h (of_nat E) (thrown \<or> list_ex throws (map el [H..<?S]))
           ((of_nat ((?k + c) mod 2 ^ s) + 1) AND (index_size h - 1)) (of_nat ?S) ?p)
         (\<lambda>(ys, thr, p). Inr (handed_over throws thrown (map el [H..<?S]) @ ys, thr, p)))"
    unfolding take_blocks.simps Let_def stop entry bind_r_simps B cq_block_at_def bk(1) option.case b1(1) prod.case HS(2) b2(1) ..
  have "E - ?S \<le> E - H" using S(1) by (rule diff_le_mono2)
  then have "E - ?S < 2 ^ 63" using w by (rule le_less_trans)
  then have "E - ?S < 2 ^ 64" by (rule less_trans) simp
  then have eq: "of_nat ?S = (of_nat E :: u64) \<longleftrightarrow> ?S = E" using S(2) by (intro of_nat_near_eq)
  show ?case
  proof (cases "?S = E")
    case True
    then show ?thesis using step eq ring2 fr by auto
  next
    case False
    then have S': "?S = Suc ?k * 2 ^ b" "?S < E" using S by auto
    then have kS: "?S div 2 ^ b = Suc ?k" by simp
    have mask: "(of_nat ((?k + c) mod 2 ^ s) + 1) AND (index_size h - 1) = (of_nat ((?S div 2 ^ b + c) mod 2 ^ s) :: u64)"
      using mask_next [OF s, of ?k c] ix h unfolding kS by (simp add: ix_rep_def)
    have "H < ?S" using S'(1) kB by simp
    then have fu': "E - ?S < fuel" using Suc.prems(6) S(2) by linarith
    have "xwindow b ?S T lo t" using xwindow_take [OF Suc.prems(1)] S by simp
    from Suc.IH [OF this ring2 less_imp_le [OF S'(2)] less_le_trans [OF S'(2) Suc.prems(5)] Suc.prems(5) fu', of "thrown \<or> list_ex throws (map el [H..<?S])"] obtain p' where p':
      "take_blocks fuel ndebug tr throws h (of_nat E) (thrown \<or> list_ex throws (map el [H..<?S]))
          (of_nat ((?S div 2 ^ b + c) mod 2 ^ s)) (of_nat ?S) ?p =
        Inr (handed_over throws (thrown \<or> list_ex throws (map el [H..<?S])) (map el [?S..<E]),
          (thrown \<or> list_ex throws (map el [H..<?S])) \<or> list_ex throws (map el [?S..<E]), p')"
      "xring_rep tr b el E T blk lo t tailb p'" "frame (blk ` {lo..<t}) ?p p'"
      by blast
    have "map el [H..<E] = map el [H..<?S] @ map el [?S..<E]"
      using upt_add_eq_append [of H ?S "E - ?S"] S by (simp flip: map_append)
    then have "take_blocks (Suc fuel) ndebug tr throws h (of_nat E) thrown (of_nat ((?k + c) mod 2 ^ s)) (of_nat H) p =
        Inr (handed_over throws thrown (map el [H..<E]), thrown \<or> list_ex throws (map el [H..<E]), p')"
      unfolding step mask p'(1) using eq False handed_over_append [of throws thrown "map el [H..<?S]" "map el [?S..<E]"] by simp
    moreover have "frame (blk ` {lo..<t}) p p'" using frame_trans [OF fr p'(3)] by blast
    ultimately show ?thesis using p'(2) by blast
  qed
qed

text \<open>The number of elements that a bulk operation takes, as the code computes it.\<close>

lemma min_word:
  assumes d: "d < 2 ^ 63" and n: "n = min (unat mx) d"
  shows "(if of_nat d < mx then of_nat d else mx) = (of_nat n :: u64)" "n \<le> d" "unat (of_nat n :: u64) = n"
    "(if of_nat n < (of_nat d :: u64) then of_nat n else of_nat d) = (of_nat n :: u64)"
proof -
  have u: "unat (of_nat d :: u64) = d" using d by (intro unat_of_nat_u64) simp
  show "(if of_nat d < mx then of_nat d else mx) = (of_nat n :: u64)"
  proof (cases "of_nat d < mx")
    case True
    then have "n = d" using u n by (simp add: word_less_nat_alt)
    then show ?thesis using True by simp
  next
    case False
    then have "n = unat mx" using u n by (simp add: word_less_nat_alt not_less)
    then show ?thesis using False by simp
  qed
  show nd: "n \<le> d" using n by simp
  then show un: "unat (of_nat n :: u64) = n" using d by (intro unat_of_nat_u64) simp
  have "(of_nat n :: u64) \<le> of_nat d" using u un nd by (simp add: word_le_nat_alt)
  then show "(if of_nat n < (of_nat d :: u64) then of_nat n else of_nat d) = (of_nat n :: u64)" by auto
qed

text \<open>At most \<open>mx\<close> elements; all of them leave the queue, also when an assignment throws.\<close>

lemma explicit_dequeue_bulk_ok:
  assumes b: "block_bits tr b" and rep: "xrep tr b el H T R (e, p)" and n: "n = min (unat mx) (T - H)"
  shows "\<exists>e' p'. explicit_dequeue_bulk ndebug tr throws mx (e, p) =
      Inr (handed_over throws False (map el [H..<H + n]),
        if list_ex throws (map el [H..<H + n]) then Throws else Returns (of_nat n), e', p') \<and>
    xrep tr b el (H + n) T R (e', p') \<and> frame R p p'"
proof -
  obtain blk lo t c s where x: "xcounters H T e" "xwindow b H T lo t" "ix_rep b blk lo t (t - lo) c s e"
    "xring_rep tr b el H T blk lo t (x_tailBlock e) p" "R = blk ` {lo..<t}" using rep by (auto simp: xrep_def)
  have w: "H \<le> T" "T - H < 2 ^ 63" "(t - lo - 1) * 2 ^ b < 2 ^ 63" using x(2) by (simp_all add: xwindow_def)
  have d: "(of_nat T - of_nat H :: u64) = of_nat (T - H)" using w(1) by (simp add: of_nat_diff)
  have circ: "circular_less_than 0 (of_nat (T - H) :: u64) \<longleftrightarrow> H < T"
    using circular_zero [of "of_nat T" "of_nat H"] circular_near(1) [OF w(1,2)] d by simp
  show ?thesis
  proof (cases "H < T")
    case False
    then have "explicit_dequeue_bulk ndebug tr throws mx (e, p) = Inr ([], Returns 0, e, p)" "n = 0"
      using x(1) circ d n by (simp_all add: explicit_dequeue_bulk_def Let_def xcounters_def)
    then show ?thesis using rep by (auto simp: handed_over_def)
  next
    case True
    note k = window_block [OF x(2) order_refl True]
    have b1: "1 \<le> b" and lt: "lo < t" using b k by (auto simp: block_bits_def)
    obtain h hs where h: "headers e = h # hs" and s: "s < 64" by (rule ix_rep_header [OF x(3) lt b1])
    have nT: "n \<le> T - H" and un: "unat (of_nat n :: u64) = n"
      and m: "(if of_nat (T - H) < mx then of_nat (T - H) else mx) = of_nat n"
      and m': "(if of_nat n < (of_nat (T - H) :: u64) then of_nat n else of_nat (T - H)) = (of_nat n :: u64)"
      using min_word [OF w(2) n] by simp_all
    have le': "H \<le> H + n" "H + n \<le> T" "H + n - H < n + 1" using nT w(1) by simp_all
    obtain p' where p': "take_blocks (n + 1) ndebug tr throws h (of_nat (H + n)) False (of_nat ((H div 2 ^ b + c) mod 2 ^ s)) (of_nat H) p =
        Inr (handed_over throws False (map el [H..<H + n]), False \<or> list_ex throws (map el [H..<H + n]), p')"
      "xring_rep tr b el (H + n) T blk lo t (x_tailBlock e) p'" "frame R p p'"
      using take_blocks_ok [OF b x(3) h s x(2,4) le'(1) True le'(2,3), of ndebug throws False] x(5) by blast
    let ?e = "e\<lparr>x_dequeueOptimisticCount := of_nat H + of_nat n, x_headIndex := of_nat H + of_nat n\<rparr>"
    have c: "x_tailIndex e = of_nat T" "x_headIndex e = of_nat H" "x_dequeueOptimisticCount e = of_nat H" "x_dequeueOvercommit e = 0"
      using x(1) by (simp_all add: xcounters_def)
    have asrt: "cq_assertion ndebug (0 \<le> (of_nat H :: u64)) = Inr ()" by (simp add: cq_assertion_def)
    have sel: "x_tailIndex (e\<lparr>x_dequeueOptimisticCount := v\<rparr>) = x_tailIndex e"
      "x_headIndex (e\<lparr>x_dequeueOptimisticCount := v\<rparr>) = x_headIndex e"
      "headers (e\<lparr>x_dequeueOptimisticCount := v, x_headIndex := v'\<rparr>) = headers e" for v v' by simp_all
    have "explicit_dequeue_bulk ndebug tr throws mx (e, p) =
        Inr (handed_over throws False (map el [H..<H + n]),
          if list_ex throws (map el [H..<H + n]) then Throws else Returns (of_nat n), ?e, p')"
      unfolding explicit_dequeue_bulk_def Let_def
      by (simp only: prod.case c diff_zero d circ True simp_thms if_False if_True m asrt bind_r_simps sel m' less_irrefl h list.case
          index_slot_ok [OF b x(3) h k w(3)] un of_nat_add [symmetric] p'(1))
    moreover have "xrep tr b el (H + n) T R (?e, p')"
    proof -
      have "xcounters (H + n) T ?e" using c by (simp add: xcounters_def)
      moreover have "xwindow b (H + n) T lo t" using xwindow_take [OF x(2)] le' by simp
      moreover have "ix_rep b blk lo t (t - lo) c s ?e" using x(3) by simp
      moreover have "xring_rep tr b el (H + n) T blk lo t (x_tailBlock ?e) p'" using p'(2) by simp
      ultimately show ?thesis unfolding x(5) by (rule xrepI)
    qed
    ultimately show ?thesis using p'(3) by blast
  qed
qed

section \<open>The constructor\<close>

lemma ceil_to_pow_2_eq: "ceil_to_pow_2 x = ceilToPow2 x"
proof -
  have "ceil_loop 8 1 y = fold smear [8, 16, 32] y" for y by (simp add: numeral_eq_Suc smear_def)
  then show ?thesis by (simp add: ceil_to_pow_2_def ceilToPow2_def smear_def Let_def)
qed

text \<open>The index of the constructor has room for the blocks of the pool; it is too small for trouble if they fit in memory.\<close>

lemma new_explicit_ok:
  assumes b: "block_bits tr b" and pool: "pool_ok tr p" and i: "EXPLICIT_INITIAL_INDEX_SIZE tr = 2 ^ i" "1 \<le> i" "i + b \<le> 64"
    and fit: "unat (initialBlockPoolSize p) * 2 ^ b \<le> 2 ^ 63"
  shows "\<exists>e m. new_explicit tr ok p = Inr (e, p\<lparr>mallocs := m\<rparr>) \<and> xrep tr b el 0 0 {} (e, p\<lparr>mallocs := m\<rparr>)"
proof -
  let ?sz = "drop_bit 1 (EXPLICIT_INITIAL_INDEX_SIZE tr)" and ?ps = "drop_bit 1 (ceil_to_pow_2 (initialBlockPoolSize p))"
  have half: "drop_bit 1 (2 ^ j :: u64) = 2 ^ (j - 1)" if j: "1 \<le> j" "j < 64" for j
  proof -
    obtain l where "j = Suc l" using j(1) by (cases j) auto
    then show ?thesis using j unat_exp_u64 [of "Suc l"] unat_exp_u64 [of l] by (simp add: drop_bit_eq_div unat_div word_unat_eq_iff)
  qed
  have sz: "?sz = 2 ^ (i - 1)" using half [of i] i b by (simp add: block_bits_def)
  have ps: "?ps = 0 \<or> (\<exists>j. 1 \<le> j \<and> j + b \<le> 64 \<and> ?ps = 2 ^ (j - 1))"
  proof (cases "initialBlockPoolSize p = 0")
    case True
    have "ceil_to_pow_2 0 = 0" by code_simp
    then show ?thesis using True by simp
  next
    case False
    let ?P = "unat (initialBlockPoolSize p)"
    have e: "(2 :: nat) ^ 63 = 2 ^ (63 - b) * 2 ^ b" using b unfolding block_bits_def power_add [symmetric] by simp
    have P: "?P \<le> 2 ^ (63 - b)" using fit unfolding e mult_le_cancel2 by simp
    moreover have "(2 :: nat) ^ (63 - b) \<le> 2 ^ 63" by (rule power_increasing) auto
    ultimately have P63: "?P \<le> 2 ^ 63" by (rule order_trans)
    have "0 < ?P" using False by (simp add: unat_gt_0)
    then obtain j where j: "j < 64" "ceil_to_pow_2 (initialBlockPoolSize p) = 2 ^ j" "j \<le> 63 - b"
      using ceilToPow2_least [OF _ P63] P unfolding ceil_to_pow_2_eq by blast
    show ?thesis
    proof (cases "j = 0")
      case True
      then have "?ps = drop_bit 1 1" using j(2) by simp
      also have "\<dots> = (0 :: u64)" by (simp add: drop_bit_eq_div)
      finally show ?thesis by simp
    next
      case False
      then have "?ps = 2 ^ (j - 1)" using half [of j] j by simp
      moreover have "j + b \<le> 64" using j(3) b unfolding block_bits_def by linarith
      moreover have "1 \<le> j" using False by simp
      ultimately show ?thesis by blast
    qed
  qed
  have "\<exists>s. 1 \<le> s \<and> s + b \<le> 64 \<and> (if ?ps > ?sz then ?ps else ?sz) = 2 ^ (s - 1)"
    using ps
  proof
    assume "?ps = 0"
    then show ?thesis using sz i by auto
  next
    assume "\<exists>j. 1 \<le> j \<and> j + b \<le> 64 \<and> ?ps = 2 ^ (j - 1)"
    then obtain j where "1 \<le> j" "j + b \<le> 64" "?ps = 2 ^ (j - 1)" by blast
    then show ?thesis using sz i by (cases "?ps > ?sz") auto
  qed
  then obtain s where s: "1 \<le> s" "s + b \<le> 64" "(if ?ps > ?sz then ?ps else ?sz) = 2 ^ (s - 1)" by blast
  let ?e = "\<lparr>x_tailIndex = 0, x_headIndex = 0, x_dequeueOptimisticCount = 0, x_dequeueOvercommit = 0,
      x_tailBlock = None, headers = [], pr_blockIndexSlotsUsed = 0, pr_blockIndexSize = 2 ^ (s - 1), pr_blockIndexFront = 0\<rparr>"
  have rep: "xcounters 0 0 ?e" "xwindow b 0 0 0 0" "ix_rep b (\<lambda>_. 0) 0 0 (0 - 0) 0 s ?e"
    "xring_rep tr b el 0 0 (\<lambda>_. 0) 0 0 (x_tailBlock ?e) p"
    using s pool by (simp_all add: xcounters_def xwindow_def ix_rep_def xring_rep_def)
  have new: "new_explicit tr ok p = bind_r (new_block_index ok 0 (?e, p)) (\<lambda>(_, s). Inr s)"
    unfolding new_explicit_def Let_def s(3) ..
  show ?thesis
  proof (cases "ok (mallocs p)")
    case True
    have b1: "1 \<le> b" using b by (simp add: block_bits_def)
    obtain e' c' s' where e': "new_block_index ok 0 (?e, p) = Inr (True, (e', p\<lparr>mallocs := mallocs p + 1\<rparr>))"
      "ix_rep b (\<lambda>_. 0) 0 0 (0 - 0) c' s' e'" "same_queue ?e e'"
      using new_index_ok [OF rep(3) b1, of ok p] True by auto
    have "xring_rep tr b el 0 0 (\<lambda>_. 0) 0 0 (x_tailBlock e') (p\<lparr>mallocs := mallocs p + 1\<rparr>)"
      using rep(4) e'(3) by (simp add: same_queue_def)
    from xrepI [OF xcounters_same [OF rep(1) e'(3)] rep(2) e'(2) this] show ?thesis using new e'(1) by auto
  next
    case False
    then have "new_explicit tr ok p = Inr (?e, p\<lparr>mallocs := mallocs p + 1\<rparr>)" using new by (simp add: new_block_index_def)
    moreover have "xrep tr b el 0 0 {} (?e, p\<lparr>mallocs := mallocs p + 1\<rparr>)"
      using xrepI [OF rep(1-3), of tr el "p\<lparr>mallocs := mallocs p + 1\<rparr>"] rep(4) by simp
    ultimately show ?thesis by blast
  qed
qed

section \<open>A sub-queue\<close>

definition xqueue :: "traits \<Rightarrow> nat \<Rightarrow> 'a list \<Rightarrow> nat set \<Rightarrow> 'a xstate \<Rightarrow> bool" where
  "xqueue tr b q R s \<longleftrightarrow> block_bits tr b \<and> (\<exists>el H T. xrep tr b el H T R s \<and> q = map el [H..<T])"

definition may_refuse :: "traits \<Rightarrow> (nat \<Rightarrow> bool) \<Rightarrow> cq_AllocationMode \<Rightarrow> bool" where
  "may_refuse tr ok m \<longleftrightarrow> m = cq_AllocationMode.CannotAlloc \<or> MAX_SUBQUEUE_SIZE tr \<noteq> - 1 \<or> (\<exists>i. \<not> ok i)"

lemma leeway_few:
  assumes b: "block_bits tr b" and "MAX_SUBQUEUE_SIZE tr = - 1" and "H \<le> T" and few: "T - H < 2 ^ 62"
  shows "\<not> no_leeway tr (of_nat H) (of_nat T)"
proof -
  have b32: "(2 :: nat) ^ b \<le> 2 ^ 32" using b unfolding block_bits_def by (intro power_increasing) auto
  have "T + 2 ^ b - H = (T - H) + 2 ^ b" using assms(3) by simp
  also have "\<dots> < 2 ^ 62 + 2 ^ 32" using few b32 by (rule add_less_le_mono)
  also have "\<dots> < (2 ^ 63 :: nat)" by simp
  finally have near: "T + 2 ^ b - H < 2 ^ 63" .
  have "H < T + 2 ^ b" by (rule le_less_trans [OF assms(3)]) simp
  then have "circular_less_than (of_nat H) (of_nat (T + 2 ^ b) :: u64)"
    using circular_near(1) [OF _ near] by (simp only: less_imp_le)
  then show ?thesis using assms(2) block_bitsD(2) [OF b] by (simp add: no_leeway_def)
qed

lemma xrep_window: "xrep tr b el H T R s \<Longrightarrow> H \<le> T \<and> T - H < 2 ^ 63"
  by (auto simp: xrep_def xwindow_def split: prod.splits)

lemma xqueue_enqueue:
  assumes rep: "xqueue tr b q R (e, p)" and few: "length q < 2 ^ 62"
  shows "\<exists>r e' p' R'. explicit_enqueue ndebug tr ok True (\<lambda>_. False) m x (e, p) = Inr (Returns r, e', p') \<and>
    xqueue tr b (if r then q @ [x] else q) R' (e', p') \<and> moves R R' p p' \<and> (\<not> r \<longrightarrow> may_refuse tr ok m)"
proof -
  obtain el H T where b: "block_bits tr b" and x: "xrep tr b el H T R (e, p)" "q = map el [H..<T]" using rep by (auto simp: xqueue_def)
  have HT: "H \<le> T" using xrep_window [OF x(1)] by simp
  have few': "Suc T - H < 2 ^ 63" "T - H < 2 ^ 62" using few x(2) HT by simp_all
  obtain r e' p' where r: "explicit_enqueue ndebug tr ok True (\<lambda>_. False) m x (e, p) = Inr (Returns r, e', p')"
    and yes: "r \<longrightarrow> (\<exists>R'. xrep tr b (el(T := x)) H (Suc T) R' (e', p') \<and> grows R R' p p')"
    and no: "\<not> r \<longrightarrow> xrep tr b el H T R (e', p') \<and> frame R p p' \<and> T mod 2 ^ b = 0 \<and>
      (no_leeway tr (of_nat H) (of_nat T) \<or> m = cq_AllocationMode.CannotAlloc \<or> (\<exists>i\<ge>mallocs p. \<not> ok i))"
    using explicit_enqueue_ok [OF b x(1) few'(1) disjI1 [OF TrueI], of ndebug ok "\<lambda>_. False" m x] by (elim exE conjE) (rule that; assumption)
  show ?thesis
  proof (cases r)
    case True
    then obtain R' where R': "xrep tr b (el(T := x)) H (Suc T) R' (e', p')" "grows R R' p p'" using yes by blast
    have "map (el(T := x)) [H..<Suc T] = q @ [x]" using HT x(2) by simp
    then have "xqueue tr b (q @ [x]) R' (e', p')" using b R'(1) unfolding xqueue_def by metis
    then show ?thesis using r True grows_moves [OF R'(2)] by auto
  next
    case False
    have "may_refuse tr ok m" using no False leeway_few [OF b _ HT few'(2)] unfolding may_refuse_def by blast
    moreover have "xqueue tr b q R (e', p')" using no False b x(2) unfolding xqueue_def by blast
    ultimately show ?thesis using r False no frame_moves [of R p p' R] by auto
  qed
qed

lemma xqueue_dequeue:
  assumes rep: "xqueue tr b q R (e, p)"
  shows "\<exists>e' p' R'. explicit_dequeue ndebug tr (\<lambda>_. False) (e, p) = Inr (Returns (case q of [] \<Rightarrow> None | x # _ \<Rightarrow> Some x), e', p') \<and>
    xqueue tr b (tl q) R' (e', p') \<and> moves R R' p p'"
proof -
  obtain el H T where b: "block_bits tr b" and x: "xrep tr b el H T R (e, p)" "q = map el [H..<T]" using rep by (auto simp: xqueue_def)
  show ?thesis
  proof (cases "H < T")
    case True
    obtain e' p' where r: "explicit_dequeue ndebug tr (\<lambda>_. False) (e, p) = Inr (Returns (Some (el H)), e', p')"
      "xrep tr b el (Suc H) T R (e', p')" "frame R p p'" using explicit_dequeue_ok [OF b x(1) True, of ndebug "\<lambda>_. False"] by auto
    have "q = el H # map el [Suc H..<T]" using True x(2) by (simp add: upt_conv_Cons)
    moreover have "xqueue tr b (map el [Suc H..<T]) R (e', p')" using r(2) b unfolding xqueue_def by blast
    ultimately show ?thesis using r(1) frame_moves [OF r(3) order_refl] by auto
  next
    case False
    then have "H = T" using xrep_window [OF x(1)] by simp
    then have "explicit_dequeue ndebug tr (\<lambda>_. False) (e, p) = Inr (Returns None, e, p)" "q = []"
      using explicit_dequeue_empty x by auto
    then show ?thesis using rep by (intro exI [of _ e] exI [of _ p] exI [of _ R]) simp
  qed
qed

lemma take_window:
  assumes "H \<le> T"
  shows "take n (map el [H..<T]) = map el [H..<H + min n (T - H)]" "drop n (map el [H..<T]) = map el [H + min n (T - H)..<T]"
proof -
  have "take n [H..<T] = [H..<H + min n (T - H)]"
  proof (cases "n \<le> T - H")
    case True
    then show ?thesis using take_upt [of H n T] assms by simp
  next
    case False
    then show ?thesis using assms by simp
  qed
  then show "take n (map el [H..<T]) = map el [H..<H + min n (T - H)]" by (simp add: take_map)
  show "drop n (map el [H..<T]) = map el [H + min n (T - H)..<T]" by (simp add: drop_map min_def)
qed

lemma xqueue_dequeue_bulk:
  assumes rep: "xqueue tr b q R (e, p)"
  shows "\<exists>e' p' R'. explicit_dequeue_bulk ndebug tr (\<lambda>_. False) n (e, p) =
      Inr (take (unat n) q, Returns (of_nat (min (unat n) (length q))), e', p') \<and>
    xqueue tr b (drop (unat n) q) R' (e', p') \<and> moves R R' p p'"
proof -
  obtain el H T where b: "block_bits tr b" and x: "xrep tr b el H T R (e, p)" "q = map el [H..<T]" using rep by (auto simp: xqueue_def)
  have HT: "H \<le> T" using xrep_window [OF x(1)] by simp
  let ?n = "min (unat n) (T - H)"
  have h: "handed_over (\<lambda>_. False) False xs = xs" for xs :: "'a list" by (simp add: handed_over_def takeWhile_eq_all_conv)
  obtain e' p' where r: "explicit_dequeue_bulk ndebug tr (\<lambda>_. False) n (e, p) =
      Inr (map el [H..<H + ?n], Returns (of_nat ?n), e', p')"
    "xrep tr b el (H + ?n) T R (e', p')" "frame R p p'"
    using explicit_dequeue_bulk_ok [OF b x(1) refl, where mx = n and ndebug = ndebug and throws = "\<lambda>_. False"]
    by (auto simp: list_ex_iff h)
  have "xqueue tr b (drop (unat n) q) R (e', p')" unfolding x(2) take_window [OF HT] using r(2) b unfolding xqueue_def by blast
  moreover have t: "take (unat n) q = map el [H..<H + ?n]" unfolding x(2) by (rule take_window [OF HT])
  have l: "min (unat n) (length q) = ?n" using x(2) by simp
  have "explicit_dequeue_bulk ndebug tr (\<lambda>_. False) n (e, p) = Inr (take (unat n) q, Returns (of_nat (min (unat n) (length q))), e', p')"
    unfolding t l by (rule r(1))
  ultimately show ?thesis using frame_moves [OF r(3) order_refl] by blast
qed

interpretation xq: subqueue "xqueue tr b" "explicit_enqueue ndebug tr ok True (\<lambda>_. False)" "explicit_dequeue ndebug tr (\<lambda>_. False)"
  "explicit_dequeue_bulk ndebug tr (\<lambda>_. False)" "may_refuse tr ok"
proof
  fix q :: "'a list" and R e p m x n
  assume rep: "xqueue tr b q R (e, p)"
  show "length q < 2 ^ 62 \<Longrightarrow> \<exists>r e' p' R'. explicit_enqueue ndebug tr ok True (\<lambda>_. False) m x (e, p) = Inr (Returns r, e', p') \<and>
      xqueue tr b (if r then q @ [x] else q) R' (e', p') \<and> moves R R' p p' \<and> (\<not> r \<longrightarrow> may_refuse tr ok m)"
    by (rule xqueue_enqueue [OF rep])
  show "\<exists>e' p' R'. explicit_dequeue ndebug tr (\<lambda>_. False) (e, p) = Inr (Returns (case q of [] \<Rightarrow> None | x # _ \<Rightarrow> Some x), e', p') \<and>
      xqueue tr b (tl q) R' (e', p') \<and> moves R R' p p'" by (rule xqueue_dequeue [OF rep])
  show "\<exists>e' p' R'. explicit_dequeue_bulk ndebug tr (\<lambda>_. False) n (e, p) =
      Inr (take (unat n) q, Returns (of_nat (min (unat n) (length q))), e', p') \<and>
      xqueue tr b (drop (unat n) q) R' (e', p') \<and> moves R R' p p'" by (rule xqueue_dequeue_bulk [OF rep])
next
  fix q :: "'a list" and R s
  assume "xqueue tr b q R s"
  then obtain el H T where "xrep tr b el H T R s" "q = map el [H..<T]" by (auto simp: xqueue_def)
  then show "length q < 2 ^ 63" using xrep_window [of tr b el H T R s] by simp
qed

definition x_size :: "explicit \<Rightarrow> u64" where
  "x_size e = (if circular_less_than (x_headIndex e) (x_tailIndex e) then x_tailIndex e - x_headIndex e else 0)"

lemma window_size:
  assumes "H \<le> T" and "T - H < 2 ^ 63"
  shows "(if circular_less_than (of_nat H) (of_nat T :: u64) then of_nat T - of_nat H else 0) = (of_nat (T - H) :: u64)"
  using circular_near(1) [OF assms] assms(1) by (auto simp: of_nat_diff)

interpretation sxq: shared_subqueue "xqueue tr b" "explicit_enqueue ndebug tr ok True (\<lambda>_. False)" "explicit_dequeue ndebug tr (\<lambda>_. False)"
  "explicit_dequeue_bulk ndebug tr (\<lambda>_. False)" "may_refuse tr ok" tr x_size
proof
  fix q :: "'a list" and R e p
  assume "xqueue tr b q R (e, p)"
  then obtain el H T blk lo t c z where x: "block_bits tr b" "q = map el [H..<T]" "xcounters H T e" "xwindow b H T lo t"
    "ix_rep b blk lo t (t - lo) c z e" "xring_rep tr b el H T blk lo t (x_tailBlock e) p" "R = blk ` {lo..<t}"
    by (auto simp: xqueue_def xrep_def)
  have "ring_block tr b el H T blk lo t p k" if "lo \<le> k" "k < t" for k using x(6) that by (simp add: xring_rep_def)
  then show "pool_ok tr p \<and> R \<inter> free_blocks p = {} \<and> R \<subseteq> {..<next_block p}"
    using x(6,7) by (auto simp: xring_rep_def ring_block_def)
  show "xqueue tr b q R (e, p')" if "frame Q p p'" "Q \<inter> R = {}" "pool_ok tr p'" for Q p'
  proof -
    have "xring_rep tr b el H T blk lo t (x_tailBlock e) p'" by (rule ring_rep_frame [OF x(6) that(1) _ that(3)]) (use that(2) x(7) in auto)
    then have "xrep tr b el H T R (e, p')" unfolding x(7) by (rule xrepI [OF x(3-5)])
    then show ?thesis using x(1,2) unfolding xqueue_def by blast
  qed
  have l: "x_tailIndex e = of_nat T" "x_headIndex e = of_nat H" "length q = T - H" using x(2,3) by (simp_all add: xcounters_def)
  show "x_size e = of_nat (length q)" unfolding x_size_def l by (rule window_size) (use x(4) in \<open>simp_all add: xwindow_def\<close>)
qed

definition explicit_run :: "bool \<Rightarrow> traits \<Rightarrow> (nat \<Rightarrow> bool) \<Rightarrow> 'a sqop list \<Rightarrow> 'a xstate \<Rightarrow> cq_fault + 'a sqanswer ends list \<times> 'a xstate" where
  "explicit_run ndebug tr ok = sq_run (explicit_enqueue ndebug tr ok True (\<lambda>_. False)) (explicit_dequeue ndebug tr (\<lambda>_. False))
     (explicit_dequeue_bulk ndebug tr (\<lambda>_. False))"

text \<open>
  C21: A producer token's sub-queue, made on any state of the queue's pool, is a list: no sequence of \<^verbatim>\<open>enqueue\<close>,
  \<^verbatim>\<open>dequeue\<close> and \<^verbatim>\<open>dequeue_bulk\<close> runs into a fault or a failing assertion, elements come out once and in the order in which
  they went in, and an \<^verbatim>\<open>enqueue\<close> is refused only if it may not allocate, if an allocation fails or if the queue is
  limited by \<^verbatim>\<open>MAX_SUBQUEUE_SIZE\<close>. Blocks that other producers use are left alone. The block size is a power of two up to
  2 to the 32, the initial index fits the address space, and so does the initial pool.
\<close>

theorem explicit_producer_is_a_queue:
  assumes "block_bits tr b" and "EXPLICIT_INITIAL_INDEX_SIZE tr = 2 ^ i" and "1 \<le> i" and "i + b \<le> 64"
    and "pool_ok tr p" and "unat (initialBlockPoolSize p) * 2 ^ b \<le> 2 ^ 63" and "length cs < 2 ^ 62"
  shows "\<exists>as s' R. bind_r (new_explicit tr ok p) (explicit_run ndebug tr ok cs) = Inr (as, s') \<and>
    fifo_answers (may_refuse tr ok) [] cs as \<and> moves {} R p (snd s')"
proof -
  obtain e m where new: "new_explicit tr ok p = Inr (e, p\<lparr>mallocs := m\<rparr>)" "xrep tr b (\<lambda>_. undefined) 0 0 {} (e, p\<lparr>mallocs := m\<rparr>)"
    using new_explicit_ok [OF assms(1,5,2,3,4,6)] by blast
  have "xqueue tr b ([] :: 'a list) {} (e, p\<lparr>mallocs := m\<rparr>)"
    unfolding xqueue_def using assms(1) new(2) by (intro conjI exI [of _ "\<lambda>_. undefined"] exI [of _ 0]) simp_all
  then obtain as s' q' R where "explicit_run ndebug tr ok cs (e, p\<lparr>mallocs := m\<rparr>) = Inr (as, s')"
    "fifo_answers (may_refuse tr ok) [] cs as" "moves {} R (p\<lparr>mallocs := m\<rparr>) (snd s')"
    using xq.run_ok [of tr b "[]" "{}" e "p\<lparr>mallocs := m\<rparr>" cs ndebug ok] assms(7) unfolding explicit_run_def by auto
  moreover have "moves {} {} p (p\<lparr>mallocs := m\<rparr>)" by (rule frame_moves) simp_all
  ultimately show ?thesis using new(1) moves_trans by fastforce
qed

text \<open>Small blocks and a small index, for examples.\<close>

definition small_traits :: traits where
  "small_traits = \<lparr>BLOCK_SIZE = 2, EXPLICIT_BLOCK_EMPTY_COUNTER_THRESHOLD = 2,
     EXPLICIT_INITIAL_INDEX_SIZE = 2, IMPLICIT_INITIAL_INDEX_SIZE = 2, TRAITS_MAX_SUBQUEUE_SIZE = - 1,
     INITIAL_IMPLICIT_PRODUCER_HASH_SIZE = 2, EXPLICIT_CONSUMER_CONSUMPTION_QUOTA_BEFORE_ROTATE = 4\<rparr>"

theorem explicit_producer_is_a_queue_witness:
  "\<exists>as s' R. bind_r (new_explicit small_traits (\<lambda>_. True) (populate_initial_block_list small_traits (\<lambda>_. True) 2))
      (explicit_run False small_traits (\<lambda>_. True)
        [Sq_enqueue cq_AllocationMode.CanAlloc (5 :: nat), Sq_enqueue cq_AllocationMode.CannotAlloc 6, Sq_dequeue_bulk 4, Sq_dequeue]) = Inr (as, s') \<and>
    fifo_answers (may_refuse small_traits (\<lambda>_. True)) []
      [Sq_enqueue cq_AllocationMode.CanAlloc 5, Sq_enqueue cq_AllocationMode.CannotAlloc 6, Sq_dequeue_bulk 4, Sq_dequeue] as \<and>
    moves {} R (populate_initial_block_list small_traits (\<lambda>_. True) 2) (snd s')"
proof (rule explicit_producer_is_a_queue [of small_traits 1 1])
  show "block_bits small_traits 1" by (simp add: block_bits_def small_traits_def)
  show "EXPLICIT_INITIAL_INDEX_SIZE small_traits = 2 ^ 1" by (simp add: small_traits_def)
  show "pool_ok small_traits (populate_initial_block_list small_traits (\<lambda>_. True) 2)" by (rule populate_ok)
qed (simp_all add: populate_initial_block_list_def)

end
