(* ===== verification/Cq_Explicit_Faults.thy ===== *)
theory Cq_Explicit_Faults
  imports Cq_Explicit_Run
begin

text \<open>
  Where an \<^verbatim>\<open>ExplicitProducer\<close> loses track of its blocks, shown on concrete lives of a producer, from its
  constructor to its destructor.
\<close>

text \<open>Calls that may be refused or may throw: elements that throw are those with the call's flag.\<close>

datatype 'a xcall = Call_enqueue bool 'a | Call_try_enqueue_bulk "'a list" | Call_dequeue

definition xcall :: "bool \<Rightarrow> traits \<Rightarrow> 'a xcall \<Rightarrow> 'a xstate \<Rightarrow> cq_fault + 'a sqanswer ends \<times> 'a xstate" where
  "xcall ndebug tr c s =
     (let answer = (\<lambda>(r, s). Inr (case r of Throws \<Rightarrow> Throws | Returns a \<Rightarrow> Returns (Enqueued a), s)); ok = (\<lambda>_. True) in
      case c of
        Call_enqueue throws x \<Rightarrow>
          bind_r (explicit_enqueue ndebug tr ok (\<not> throws) (\<lambda>_. throws) cq_AllocationMode.CanAlloc x s) answer
      | Call_try_enqueue_bulk xs \<Rightarrow>
          bind_r (explicit_enqueue_bulk ndebug tr ok True (\<lambda>_. False) cq_AllocationMode.CannotAlloc xs s) answer
      | Call_dequeue \<Rightarrow> bind_r (explicit_dequeue ndebug tr (\<lambda>_. False) s)
          (\<lambda>(r, s). Inr (case r of Throws \<Rightarrow> Throws | Returns a \<Rightarrow> Returns (Dequeued a), s)))"

primrec xscript :: "bool \<Rightarrow> traits \<Rightarrow> 'a xcall list \<Rightarrow> 'a xstate \<Rightarrow> cq_fault + 'a sqanswer ends list \<times> 'a xstate" where
  "xscript ndebug tr [] s = Inr ([], s)"
| "xscript ndebug tr (c # cs) s =
     bind_r (xcall ndebug tr c s) (\<lambda>(a, s). bind_r (xscript ndebug tr cs s) (\<lambda>(as, s). Inr (a # as, s)))"

text \<open>The answers of the calls, and how the destructor ends; the pool has \<open>n\<close> blocks and the ring at most \<open>fuel\<close>.\<close>

definition xlife :: "bool \<Rightarrow> traits \<Rightarrow> u64 \<Rightarrow> nat \<Rightarrow> 'a xcall list \<Rightarrow> cq_fault + 'a sqanswer ends list \<times> (cq_fault + unit)" where
  "xlife ndebug tr n fuel cs =
     bind_r (new_explicit tr (\<lambda>_. True) (populate_initial_block_list tr (\<lambda>_. True) n)) (\<lambda>s.
     bind_r (xscript ndebug tr cs s) (\<lambda>(as, s). Inr (as, bind_r (delete_explicit fuel ndebug tr s) (\<lambda>_. Inr ()))))"

text \<open>
  A run, with blocks of two elements and a pool of two blocks, in which the sub-queue is no longer a queue after a
  \<^verbatim>\<open>try_enqueue_bulk\<close> that was refused half way. The block that the call had put into the ring stays there, but its slot in
  the index is not counted any more; when the block is used later, its entry overwrites the entry of a block in use, and
  \<^verbatim>\<open>dequeue\<close> returns the fifth element first. The destructor then destroys elements twice.
\<close>

lemma refused_bulk_breaks_queue:
  "xlife True small_traits 2 10
     [Call_enqueue False (1 :: nat), Call_enqueue False 2, Call_try_enqueue_bulk [11, 12, 13],
      Call_enqueue False 3, Call_enqueue False 4, Call_enqueue False 5, Call_enqueue False 6, Call_dequeue] =
   Inr ([Returns (Enqueued True), Returns (Enqueued True), Returns (Enqueued False), Returns (Enqueued True),
      Returns (Enqueued True), Returns (Enqueued True), Returns (Enqueued True), Returns (Dequeued (Some 5))], Inl Cq_raw)"
  by code_simp

text \<open>
  A run in which a refused \<^verbatim>\<open>try_enqueue_bulk\<close> that had only reused an empty block leaves the new base index in that block's entry, where
  the destructor starts its search for the block that is partly dequeued: it stops there at once, and
  destroys elements that were dequeued before.
\<close>

lemma refused_bulk_breaks_destructor:
  "xlife True small_traits 2 10
     [Call_enqueue False (1 :: nat), Call_enqueue False 2, Call_enqueue False 3, Call_enqueue False 4,
      Call_dequeue, Call_dequeue, Call_dequeue, Call_try_enqueue_bulk [11, 12, 13]] =
   Inr ([Returns (Enqueued True), Returns (Enqueued True), Returns (Enqueued True), Returns (Enqueued True),
      Returns (Dequeued (Some 1)), Returns (Dequeued (Some 2)), Returns (Dequeued (Some 3)), Returns (Enqueued False)], Inl Cq_raw)"
  by code_simp

text \<open>
  A run in which the constructor of an element that starts a block throws: that block stays in the ring marked as
  not empty, and the destructor of the producer destroys elements in it that were never constructed.
\<close>

lemma throwing_enqueue_breaks_destructor:
  "xlife True small_traits 2 10 [Call_enqueue False (1 :: nat), Call_enqueue False 2, Call_enqueue True 3] =
   Inr ([Returns (Enqueued True), Returns (Enqueued True), Throws], Inl Cq_raw)"
  by code_simp

end
