(* ===== verification/Cq_Implicit.thy ===== *)
theory Cq_Implicit
  imports Cq_Explicit
begin

text \<open>
  The sub-queue of a thread without a token, \<^verbatim>\<open>ImplicitProducer\<close> of \<^verbatim>\<open>concurrentqueue.h\<close>: blocks are returned to the
  pool as soon as they are empty, and an index of entries that survive its growth finds the block of an
  element. Every operation is executed as a whole.
\<close>

section \<open>State\<close>

text \<open>
  \<^verbatim>\<open>BlockIndexEntry\<close>: the value is uninitialised (\<open>None\<close>) when the entry is made, then a pointer that may be null.
  The headers refer to entries by address; entries are never freed before the producer is. \<open>i_headers\<close> is the
  chain along \<^verbatim>\<open>prev\<close>, the current one first.
\<close>

record ientry =
  entry_key :: u64
  entry_value :: "nat option option"

record iheader =
  ih_capacity :: u64
  ih_tail :: u64
  ih_index :: "nat list"

record implicit =
  i_tailIndex :: u64
  i_headIndex :: u64
  i_dequeueOptimisticCount :: u64
  i_dequeueOvercommit :: u64
  i_tailBlock :: "nat option"
  i_entries :: "ientry list"
  i_headers :: "iheader list"
  nextBlockIndexCapacity :: u64

type_synonym 'a istate = "implicit \<times> 'a pool"

definition INVALID_BLOCK_BASE :: u64 where
  "INVALID_BLOCK_BASE = 1"

section \<open>The block index\<close>

definition the_header :: "implicit \<Rightarrow> cq_fault + iheader" where
  "the_header i = (case i_headers i of [] \<Rightarrow> Inl Cq_null | h # _ \<Rightarrow> Inr h)"

definition index_at :: "iheader \<Rightarrow> u64 \<Rightarrow> cq_fault + nat" where
  "index_at h k = (if length (ih_index h) \<le> unat k then Inl Cq_bounds else Inr (ih_index h ! unat k))"

definition entry_at :: "implicit \<Rightarrow> nat \<Rightarrow> cq_fault + ientry" where
  "entry_at i a = (if length (i_entries i) \<le> a then Inl Cq_bounds else Inr (i_entries i ! a))"

definition store_key :: "nat \<Rightarrow> u64 \<Rightarrow> implicit \<Rightarrow> implicit" where
  "store_key a k i = i\<lparr>i_entries := (i_entries i)[a := (i_entries i ! a)\<lparr>entry_key := k\<rparr>]\<rparr>"

definition store_value :: "nat \<Rightarrow> nat option \<Rightarrow> implicit \<Rightarrow> implicit" where
  "store_value a v i = i\<lparr>i_entries := (i_entries i)[a := (i_entries i ! a)\<lparr>entry_value := Some v\<rparr>]\<rparr>"

definition set_index_tail :: "u64 \<Rightarrow> implicit \<Rightarrow> implicit" where
  "set_index_tail t i = (case i_headers i of [] \<Rightarrow> i | h # hs \<Rightarrow> i\<lparr>i_headers := h\<lparr>ih_tail := t\<rparr> # hs\<rparr>)"

text \<open>The loop of \<^verbatim>\<open>new_block_index\<close> over the old index, from the slot after its tail round to its tail.\<close>

fun copy_index :: "nat \<Rightarrow> iheader \<Rightarrow> u64 \<Rightarrow> cq_fault + nat list" where
  "copy_index 0 h prevPos = Inl Cq_endless"
| "copy_index (Suc fuel) h prevPos =
     (let prevPos = (prevPos + 1) AND (ih_capacity h - 1) in
      bind_r (index_at h prevPos) (\<lambda>a.
        if prevPos = ih_tail h then Inr [a] else bind_r (copy_index fuel h prevPos) (\<lambda>as. Inr (a # as))))"

definition implicit_new_block_index :: "bool \<Rightarrow> (nat \<Rightarrow> bool) \<Rightarrow> 'a istate \<Rightarrow> cq_fault + bool \<times> 'a istate" where
  "implicit_new_block_index ndebug ok = (\<lambda>(i, p).
     (let prevCapacity = (case i_headers i of [] \<Rightarrow> 0 | h # _ \<Rightarrow> ih_capacity h); capacity = nextBlockIndexCapacity i;
          entryCount = (if i_headers i = [] then capacity else prevCapacity); p' = p\<lparr>mallocs := mallocs p + 1\<rparr> in
      if \<not> ok (mallocs p) then Inr (False, (i, p'))
      else bind_r (case i_headers i of [] \<Rightarrow> Inr [] | h # _ \<Rightarrow> copy_index (length (ih_index h)) h (ih_tail h)) (\<lambda>old.
        bind_r (cq_assertion ndebug (of_nat (length old) = prevCapacity)) (\<lambda>_.
          if unat capacity < unat prevCapacity + unat entryCount then Inl Cq_bounds
          else let n = length (i_entries i) in
            Inr (True, (i\<lparr>
              i_entries := i_entries i @ replicate (unat entryCount) \<lparr>entry_key = INVALID_BLOCK_BASE, entry_value = None\<rparr>,
              i_headers := \<lparr>ih_capacity = capacity, ih_tail = (prevCapacity - 1) AND (capacity - 1),
                  ih_index = old @ [n..<n + unat entryCount]\<rparr> # i_headers i,
              nextBlockIndexCapacity := push_bit 1 capacity\<rparr>, p'))))))"

definition new_implicit :: "bool \<Rightarrow> traits \<Rightarrow> (nat \<Rightarrow> bool) \<Rightarrow> 'a pool \<Rightarrow> cq_fault + 'a istate" where
  "new_implicit ndebug tr ok p =
     bind_r (implicit_new_block_index ndebug ok
       (\<lparr>i_tailIndex = 0, i_headIndex = 0, i_dequeueOptimisticCount = 0, i_dequeueOvercommit = 0, i_tailBlock = None,
         i_entries = [], i_headers = [], nextBlockIndexCapacity = IMPLICIT_INITIAL_INDEX_SIZE tr\<rparr>, p))
       (\<lambda>(_, s). Inr s)"

text \<open>The address of the entry for a new block, if there is room for it.\<close>

definition insert_block_index_entry ::
    "bool \<Rightarrow> (nat \<Rightarrow> bool) \<Rightarrow> cq_AllocationMode \<Rightarrow> u64 \<Rightarrow> 'a istate \<Rightarrow> cq_fault + nat option \<times> 'a istate" where
  "insert_block_index_entry ndebug ok allocMode blockStartIndex = (\<lambda>(i, p).
     (case i_headers i of
        [] \<Rightarrow> Inr (None, (i, p))
      | h # _ \<Rightarrow>
        let newTail = (ih_tail h + 1) AND (ih_capacity h - 1) in
        bind_r (index_at h newTail) (\<lambda>a.
        bind_r (entry_at i a) (\<lambda>e.
          if entry_key e = INVALID_BLOCK_BASE \<or> entry_value e = Some None
          then Inr (Some a, (set_index_tail newTail (store_key a blockStartIndex i), p))
          else if allocMode = CannotAlloc then Inr (None, (i, p))
          else bind_r (implicit_new_block_index ndebug ok (i, p)) (\<lambda>(made, i, p).
            if \<not> made then Inr (None, (i, p))
            else bind_r (the_header i) (\<lambda>h.
              let newTail = (ih_tail h + 1) AND (ih_capacity h - 1) in
              bind_r (index_at h newTail) (\<lambda>a.
              bind_r (entry_at i a) (\<lambda>e.
              bind_r (cq_assertion ndebug (entry_key e = INVALID_BLOCK_BASE)) (\<lambda>_.
                Inr (Some a, (set_index_tail newTail (store_key a blockStartIndex i), p)))))))))))"

definition rewind_block_index_tail :: "implicit \<Rightarrow> cq_fault + implicit" where
  "rewind_block_index_tail i =
     bind_r (the_header i) (\<lambda>h. Inr (set_index_tail ((ih_tail h - 1) AND (ih_capacity h - 1)) i))"

definition get_block_index_index_for_index :: "bool \<Rightarrow> traits \<Rightarrow> implicit \<Rightarrow> u64 \<Rightarrow> cq_fault + u64" where
  "get_block_index_index_for_index ndebug tr i idx =
     (let idx = block_base tr idx in
      bind_r (the_header i) (\<lambda>h.
      bind_r (index_at h (ih_tail h)) (\<lambda>a.
      bind_r (entry_at i a) (\<lambda>e.
        let tailBase = entry_key e in
        bind_r (cq_assertion ndebug (tailBase \<noteq> INVALID_BLOCK_BASE)) (\<lambda>_.
          let offs = (idx - tailBase) div BLOCK_SIZE tr; k = (ih_tail h + offs) AND (ih_capacity h - 1) in
          bind_r (index_at h k) (\<lambda>a.
          bind_r (entry_at i a) (\<lambda>e.
          bind_r (cq_assertion ndebug (entry_key e = idx \<and> entry_value e \<noteq> None \<and> entry_value e \<noteq> Some None)) (\<lambda>_. Inr k))))))))"

definition get_block_index_entry_for_index :: "bool \<Rightarrow> traits \<Rightarrow> implicit \<Rightarrow> u64 \<Rightarrow> cq_fault + nat" where
  "get_block_index_entry_for_index ndebug tr i idx =
     bind_r (get_block_index_index_for_index ndebug tr i idx) (\<lambda>k. bind_r (the_header i) (\<lambda>h. index_at h k))"

text \<open>The block an entry points to, which is dereferenced.\<close>

definition value_of_entry :: "implicit \<Rightarrow> nat \<Rightarrow> cq_fault + nat" where
  "value_of_entry i a = bind_r (entry_at i a) (\<lambda>e.
     (case entry_value e of None \<Rightarrow> Inl Cq_unset | Some None \<Rightarrow> Inl Cq_null | Some (Some b) \<Rightarrow> Inr b))"

section \<open>Enqueue\<close>

definition construct_in :: "traits \<Rightarrow> nat option \<Rightarrow> u64 \<Rightarrow> 'a \<Rightarrow> 'a pool \<Rightarrow> cq_fault + 'a pool" where
  "construct_in tr b idx x p =
     (case b of
        None \<Rightarrow> Inl Cq_null
      | Some b \<Rightarrow> bind_r (on_block b (\<lambda>blk. bind_r (construct_at tr idx x blk) (\<lambda>blk. Inr ((), blk))) p) (\<lambda>(_, p). Inr p))"

text \<open>Giving up a new block: its entry is taken back.\<close>

definition rewind_entry :: "nat \<Rightarrow> implicit \<Rightarrow> cq_fault + implicit" where
  "rewind_entry a i = bind_r (rewind_block_index_tail i) (\<lambda>i. Inr (store_value a None i))"

text \<open>
  Whether the element is constructed before the block is published, as it is when that may throw, or
  afterwards, makes no difference to the state reached.
\<close>

definition implicit_enqueue ::
    "bool \<Rightarrow> traits \<Rightarrow> (nat \<Rightarrow> bool) \<Rightarrow> bool \<Rightarrow> ('a \<Rightarrow> bool) \<Rightarrow> cq_AllocationMode \<Rightarrow> 'a \<Rightarrow> 'a istate \<Rightarrow>
     cq_fault + bool ends \<times> 'a istate" where
  "implicit_enqueue ndebug tr ok nothrow throws allocMode x = (\<lambda>(i, p).
     (let currentTailIndex = i_tailIndex i; newTailIndex = 1 + currentTailIndex; head = i_headIndex i;
          thrown = (\<not> nothrow \<and> throws x) in
      if currentTailIndex AND (BLOCK_SIZE tr - 1) = 0
      then bind_r (cq_assertion ndebug (\<not> circular_less_than currentTailIndex head)) (\<lambda>_.
        if no_leeway tr head currentTailIndex then Inr (Returns False, (i, p))
        else bind_r (insert_block_index_entry ndebug ok allocMode currentTailIndex (i, p)) (\<lambda>(idxEntry, i, p).
          (case idxEntry of
             None \<Rightarrow> Inr (Returns False, (i, p))
           | Some a \<Rightarrow>
             (case requisition_block tr ok allocMode p of
                (None, p) \<Rightarrow> bind_r (rewind_entry a i) (\<lambda>i. Inr (Returns False, (i, p)))
              | (Some newBlock, p) \<Rightarrow>
                bind_r (on_block newBlock (\<lambda>blk. Inr ((), reset_empty tr implicit_context blk)) p) (\<lambda>(_, p).
                  if thrown
                  then bind_r (rewind_entry a i) (\<lambda>i. Inr (Throws, (i, add_block_to_free_list newBlock p)))
                  else bind_r (construct_in tr (Some newBlock) currentTailIndex x p) (\<lambda>p.
                    Inr (Returns True, ((store_value a (Some newBlock) i)\<lparr>i_tailBlock := Some newBlock,
                      i_tailIndex := newTailIndex\<rparr>, p))))))))
      else if thrown then Inr (Throws, (i, p))
      else bind_r (construct_in tr (i_tailBlock i) currentTailIndex x p) (\<lambda>p.
        Inr (Returns True, (i\<lparr>i_tailIndex := newTailIndex\<rparr>, p)))))"

section \<open>Dequeue\<close>

text \<open>A block found empty goes back to the pool.\<close>

definition release_if :: "bool \<Rightarrow> nat \<Rightarrow> nat \<Rightarrow> 'a istate \<Rightarrow> 'a istate" where
  "release_if emptied a b = (\<lambda>(i, p). if emptied then (store_value a None i, add_block_to_free_list b p) else (i, p))"

definition implicit_dequeue ::
    "bool \<Rightarrow> traits \<Rightarrow> ('a \<Rightarrow> bool) \<Rightarrow> 'a istate \<Rightarrow> cq_fault + 'a option ends \<times> 'a istate" where
  "implicit_dequeue ndebug tr throws = (\<lambda>(i, p).
     (let tail = i_tailIndex i; overcommit = i_dequeueOvercommit i in
      if \<not> circular_less_than (i_dequeueOptimisticCount i - overcommit) tail then Inr (Returns None, (i, p))
      else let myDequeueCount = i_dequeueOptimisticCount i;
               i = i\<lparr>i_dequeueOptimisticCount := myDequeueCount + 1\<rparr> in
        bind_r (cq_assertion ndebug (overcommit \<le> myDequeueCount)) (\<lambda>_.
          if circular_less_than (myDequeueCount - overcommit) (i_tailIndex i)
          then let idx = i_headIndex i; i = i\<lparr>i_headIndex := idx + 1\<rparr> in
            bind_r (get_block_index_entry_for_index ndebug tr i idx) (\<lambda>a.
            bind_r (value_of_entry i a) (\<lambda>b.
            bind_r (cq_block_at p b) (\<lambda>blk.
            bind_r (element_at tr idx blk) (\<lambda>x.
            bind_r (destroy_at tr idx blk) (\<lambda>blk.
            bind_r (set_empty ndebug tr implicit_context idx blk) (\<lambda>(emptied, blk).
              Inr (if throws x then Throws else Returns (Some x), release_if emptied a b (i, cq_put_block b blk p))))))))
          else Inr (Returns None, (i\<lparr>i_dequeueOvercommit := i_dequeueOvercommit i + 1\<rparr>, p)))))"

section \<open>Bulk enqueue\<close>

text \<open>The state of the allocation loop; the last block allocated is the tail block.\<close>

record ibulk =
  ib_blockBaseDiff :: u64
  ib_currentTail :: u64
  ib_firstAllocated :: "nat option"

text \<open>Taking back the entries of the blocks from one on, along their links.\<close>

fun rewind_blocks :: "nat \<Rightarrow> bool \<Rightarrow> traits \<Rightarrow> nat option \<Rightarrow> u64 \<Rightarrow> 'a istate \<Rightarrow> cq_fault + implicit" where
  "rewind_blocks 0 ndebug tr b base s = Inl Cq_endless"
| "rewind_blocks (Suc fuel) ndebug tr None base (i, p) = Inr i"
| "rewind_blocks (Suc fuel) ndebug tr (Some b) base (i, p) =
     (let base = base + BLOCK_SIZE tr in
      bind_r (get_block_index_entry_for_index ndebug tr i base) (\<lambda>a.
      bind_r (rewind_block_index_tail (store_value a None i)) (\<lambda>i.
      bind_r (cq_block_at p b) (\<lambda>blk. rewind_blocks fuel ndebug tr (block_next blk) base (i, p)))))"

definition ibulk_undo ::
    "nat \<Rightarrow> bool \<Rightarrow> traits \<Rightarrow> nat option \<Rightarrow> nat option \<Rightarrow> u64 \<Rightarrow> 'a istate \<Rightarrow> cq_fault + 'a istate" where
  "ibulk_undo fuel ndebug tr startBlock first start = (\<lambda>(i, p).
     bind_r (rewind_blocks fuel ndebug tr first (block_base tr (start - 1)) (i, p)) (\<lambda>i.
     bind_r (add_blocks_to_free_list fuel first p) (\<lambda>p. Inr (i\<lparr>i_tailBlock := startBlock\<rparr>, p))))"

text \<open>One block of the allocation loop; \<open>False\<close>: no room or no memory, and the entry for this block has been taken back.\<close>

definition ibulk_block ::
    "bool \<Rightarrow> traits \<Rightarrow> (nat \<Rightarrow> bool) \<Rightarrow> cq_AllocationMode \<Rightarrow> u64 \<Rightarrow> ibulk \<Rightarrow> 'a istate \<Rightarrow> cq_fault + bool \<times> ibulk \<times> 'a istate" where
  "ibulk_block ndebug tr ok allocMode start w = (\<lambda>(i, p).
     (let w = w\<lparr>ib_blockBaseDiff := ib_blockBaseDiff w - BLOCK_SIZE tr, ib_currentTail := ib_currentTail w + BLOCK_SIZE tr\<rparr>;
          head = i_headIndex i in
      bind_r (cq_assertion ndebug (\<not> circular_less_than (ib_currentTail w) head)) (\<lambda>_.
        if no_leeway tr head (ib_currentTail w) then Inr (False, w, (i, p))
        else bind_r (insert_block_index_entry ndebug ok allocMode (ib_currentTail w) (i, p)) (\<lambda>(idxEntry, i, p).
          (case idxEntry of
             None \<Rightarrow> Inr (False, w, (i, p))
           | Some a \<Rightarrow>
             (case requisition_block tr ok allocMode p of
                (None, p) \<Rightarrow> bind_r (rewind_entry a i) (\<lambda>i. Inr (False, w, (i, p)))
              | (Some newBlock, p) \<Rightarrow>
                bind_r (on_block newBlock (\<lambda>blk. Inr ((), (reset_empty tr implicit_context blk)\<lparr>block_next := None\<rparr>)) p) (\<lambda>(_, p).
                let i = store_value a (Some newBlock) i in
                bind_r (if start AND (BLOCK_SIZE tr - 1) \<noteq> 0 \<or> ib_firstAllocated w \<noteq> None
                    then (case i_tailBlock i of
                        None \<Rightarrow> Inl (if ndebug then Cq_null else Cq_assert)
                      | Some tb \<Rightarrow> bind_r (on_block tb (\<lambda>blk. Inr ((), blk\<lparr>block_next := Some newBlock\<rparr>)) p) (\<lambda>(_, p). Inr p))
                    else Inr p) (\<lambda>p.
                  Inr (True, w\<lparr>ib_firstAllocated := (if ib_firstAllocated w = None then Some newBlock else ib_firstAllocated w)\<rparr>,
                    (i\<lparr>i_tailBlock := Some newBlock\<rparr>, p))))))))))"

fun ibulk_alloc ::
    "nat \<Rightarrow> bool \<Rightarrow> traits \<Rightarrow> (nat \<Rightarrow> bool) \<Rightarrow> cq_AllocationMode \<Rightarrow> u64 \<Rightarrow> ibulk \<Rightarrow> 'a istate \<Rightarrow> cq_fault + bool \<times> ibulk \<times> 'a istate" where
  "ibulk_alloc 0 ndebug tr ok allocMode start w s = Inl Cq_endless"
| "ibulk_alloc (Suc fuel) ndebug tr ok allocMode start w s =
     (if ib_blockBaseDiff w = 0 then Inr (True, w, s)
      else bind_r (ibulk_block ndebug tr ok allocMode start w s) (\<lambda>(ok', w, s).
        if ok' then ibulk_alloc fuel ndebug tr ok allocMode start w s else Inr (False, w, s)))"

text \<open>The elements are constructed block by block, by the same loops as in an \<^verbatim>\<open>ExplicitProducer\<close>.\<close>

definition implicit_enqueue_bulk ::
    "bool \<Rightarrow> traits \<Rightarrow> (nat \<Rightarrow> bool) \<Rightarrow> bool \<Rightarrow> ('a \<Rightarrow> bool) \<Rightarrow> cq_AllocationMode \<Rightarrow> 'a list \<Rightarrow> 'a istate \<Rightarrow>
     cq_fault + bool ends \<times> 'a istate" where
  "implicit_enqueue_bulk ndebug tr ok nothrow throws allocMode xs s =
     (let start = i_tailIndex (fst s); count = of_nat (length xs); startBlock = i_tailBlock (fst s); fuel = length xs + 2;
          boundary = (start AND (BLOCK_SIZE tr - 1) = 0); newTailIndex = start + count;
          w = \<lparr>ib_blockBaseDiff = block_base tr (start + count - 1) - block_base tr (start - 1),
               ib_currentTail = block_base tr (start - 1), ib_firstAllocated = None\<rparr> in
      bind_r (ibulk_alloc fuel ndebug tr ok allocMode start w s) (\<lambda>(got, w, i, p).
        let first = ib_firstAllocated w in
        if \<not> got then bind_r (ibulk_undo fuel ndebug tr startBlock first start (i, p)) (\<lambda>s. Inr (Returns False, s))
        else bind_r (cq_assertion ndebug (\<not> boundary \<or> first \<noteq> None \<or> xs = [])) (\<lambda>_.
          bind_r (construct_blocks fuel ndebug tr (\<lambda>x. \<not> nothrow \<and> throws x) (i_tailBlock i) newTailIndex
              (if boundary \<and> first \<noteq> None then first else startBlock) start xs p) (\<lambda>(thrown, idx, lastBlock, p).
            if thrown
            then bind_r (destroy_blocks_from fuel tr lastBlock idx (if boundary then first else startBlock) start p) (\<lambda>p.
              bind_r (ibulk_undo fuel ndebug tr startBlock first start (i, p)) (\<lambda>s. Inr (Throws, s)))
            else Inr (Returns True, (i\<lparr>i_tailBlock := lastBlock, i_tailIndex := newTailIndex\<rparr>, p))))))"

section \<open>Bulk dequeue\<close>

fun itake_blocks :: "nat \<Rightarrow> bool \<Rightarrow> traits \<Rightarrow> ('a \<Rightarrow> bool) \<Rightarrow> u64 \<Rightarrow> bool \<Rightarrow> u64 \<Rightarrow> u64 \<Rightarrow> 'a istate \<Rightarrow>
    cq_fault + 'a list \<times> bool \<times> 'a istate" where
  "itake_blocks 0 ndebug tr throws endAt thrown indexIndex idx s = Inl Cq_endless"
| "itake_blocks (Suc fuel) ndebug tr throws endAt thrown indexIndex idx (i, p) =
     (let endIndex = stop_index tr endAt idx in
      bind_r (the_header i) (\<lambda>h.
      bind_r (index_at h indexIndex) (\<lambda>a.
      bind_r (value_of_entry i a) (\<lambda>b.
      bind_r (cq_block_at p b) (\<lambda>blk.
      bind_r (take_run (Suc (unat (BLOCK_SIZE tr))) tr throws thrown idx endIndex blk) (\<lambda>(xs, thrown, blk).
      bind_r (set_many_empty ndebug tr implicit_context idx (endIndex - idx) blk) (\<lambda>(emptied, blk).
        let s = release_if emptied a b (i, cq_put_block b blk p) in
        if endIndex = endAt then Inr (xs, thrown, s)
        else bind_r (itake_blocks fuel ndebug tr throws endAt thrown ((indexIndex + 1) AND (ih_capacity h - 1)) endIndex s)
          (\<lambda>(ys, thrown, s). Inr (xs @ ys, thrown, s)))))))))"

definition implicit_dequeue_bulk ::
    "bool \<Rightarrow> traits \<Rightarrow> ('a \<Rightarrow> bool) \<Rightarrow> u64 \<Rightarrow> 'a istate \<Rightarrow> cq_fault + 'a list \<times> u64 ends \<times> 'a istate" where
  "implicit_dequeue_bulk ndebug tr throws mx = (\<lambda>(i, p).
     (let overcommit = i_dequeueOvercommit i;
          desiredCount = i_tailIndex i - (i_dequeueOptimisticCount i - overcommit) in
      if \<not> circular_less_than 0 desiredCount then Inr ([], Returns 0, (i, p))
      else let desiredCount = (if desiredCount < mx then desiredCount else mx);
               myDequeueCount = i_dequeueOptimisticCount i;
               i = i\<lparr>i_dequeueOptimisticCount := myDequeueCount + desiredCount\<rparr> in
        bind_r (cq_assertion ndebug (overcommit \<le> myDequeueCount)) (\<lambda>_.
          let actualCount = i_tailIndex i - (myDequeueCount - overcommit) in
          if circular_less_than 0 actualCount
          then let actualCount = (if desiredCount < actualCount then desiredCount else actualCount);
                   i = (if actualCount < desiredCount
                        then i\<lparr>i_dequeueOvercommit := i_dequeueOvercommit i + (desiredCount - actualCount)\<rparr> else i);
                   firstIndex = i_headIndex i; i = i\<lparr>i_headIndex := firstIndex + actualCount\<rparr> in
            bind_r (get_block_index_index_for_index ndebug tr i firstIndex) (\<lambda>indexIndex.
            bind_r (itake_blocks (unat actualCount + 1) ndebug tr throws (firstIndex + actualCount) False indexIndex firstIndex (i, p))
              (\<lambda>(xs, thrown, s). Inr (xs, if thrown then Throws else Returns actualCount, s)))
          else Inr ([], Returns 0, (i\<lparr>i_dequeueOvercommit := i_dequeueOvercommit i + desiredCount\<rparr>, p)))))"

section \<open>Destruction\<close>

text \<open>The remaining elements; each block but the last one goes to the pool when the next one begins.\<close>

fun destroy_remaining :: "nat \<Rightarrow> bool \<Rightarrow> traits \<Rightarrow> implicit \<Rightarrow> u64 \<Rightarrow> nat option \<Rightarrow> 'a pool \<Rightarrow> cq_fault + 'a pool" where
  "destroy_remaining 0 ndebug tr i idx b p = Inl Cq_endless"
| "destroy_remaining (Suc fuel) ndebug tr i idx b p =
     (if idx = i_tailIndex i then Inr p
      else bind_r (if idx AND (BLOCK_SIZE tr - 1) = 0 \<or> b = None
          then let p = (case b of None \<Rightarrow> p | Some b \<Rightarrow> add_block_to_free_list b p) in
            bind_r (get_block_index_entry_for_index ndebug tr i idx) (\<lambda>a.
            bind_r (value_of_entry i a) (\<lambda>b. Inr (Some b, p)))
          else Inr (b, p)) (\<lambda>(b, p).
        (case b of
           None \<Rightarrow> Inl Cq_null
         | Some a \<Rightarrow> bind_r (on_block a (\<lambda>blk. bind_r (destroy_at tr idx blk) (\<lambda>blk. Inr ((), blk))) p)
             (\<lambda>(_, p). destroy_remaining fuel ndebug tr i (idx + 1) b p))))"

text \<open>The index is freed with the producer.\<close>

definition delete_implicit :: "bool \<Rightarrow> traits \<Rightarrow> 'a istate \<Rightarrow> cq_fault + 'a pool" where
  "delete_implicit ndebug tr = (\<lambda>(i, p).
     (let tail = i_tailIndex i; head = i_headIndex i in
      bind_r (cq_assertion ndebug (head = tail \<or> circular_less_than head tail)) (\<lambda>_.
      bind_r (destroy_remaining (unat (tail - head) + 1) ndebug tr i head None p) (\<lambda>p.
        Inr (case i_tailBlock i of
            None \<Rightarrow> p
          | Some tb \<Rightarrow> if head \<noteq> tail \<or> tail AND (BLOCK_SIZE tr - 1) \<noteq> 0 then add_block_to_free_list tb p else p)))))"

end
