(* ===== verification/Cq_Implicit_Fifo.thy ===== *)
theory Cq_Implicit_Fifo
  imports Cq_Implicit Cq_Explicit_Run
begin

text \<open>
  \<^verbatim>\<open>ImplicitProducer\<close> as a list: how blocks, the index of entries and four counters that may have wrapped around stand for
  the elements of a sub-queue, and that its operations are those of a list. It provides the interface
  of a sub-queue.
\<close>

section \<open>Representation\<close>

text \<open>
  As for an \<^verbatim>\<open>ExplicitProducer\<close>, indices are counted without wrapping. The blocks in use are those from \<open>lo\<close>, the block of
  the head, to before \<open>t\<close>. The index has \<open>2 ^ z\<close> slots, and block \<open>k\<close> has slot \<open>(k + c) mod 2 ^ z\<close>; the other slots
  are free.
\<close>

definition slot_entry :: "implicit \<Rightarrow> iheader \<Rightarrow> nat \<Rightarrow> ientry" where
  "slot_entry i h j = i_entries i ! (ih_index h ! j)"

definition entry_free :: "ientry \<Rightarrow> bool" where
  "entry_free e \<longleftrightarrow> entry_key e = INVALID_BLOCK_BASE \<or> entry_value e = Some None"

definition header_ok :: "nat \<Rightarrow> implicit \<Rightarrow> iheader \<Rightarrow> bool" where
  "header_ok z i h \<longleftrightarrow> ih_capacity h = 2 ^ z \<and> length (ih_index h) = 2 ^ z \<and> distinct (ih_index h) \<and>
     (\<forall>j<2 ^ z. ih_index h ! j < length (i_entries i)) \<and> nextBlockIndexCapacity i = 2 ^ Suc z"

definition slots_used :: "nat \<Rightarrow> (nat \<Rightarrow> nat) \<Rightarrow> nat \<Rightarrow> nat \<Rightarrow> nat \<Rightarrow> nat \<Rightarrow> implicit \<Rightarrow> iheader \<Rightarrow> bool" where
  "slots_used b blk lo t c z i h \<longleftrightarrow>
     (\<forall>k. lo \<le> k \<and> k < t \<longrightarrow> slot_entry i h ((k + c) mod 2 ^ z) = \<lparr>entry_key = of_nat (k * 2 ^ b), entry_value = Some (Some (blk k))\<rparr>)"

definition slots_free :: "nat set \<Rightarrow> nat \<Rightarrow> nat \<Rightarrow> nat \<Rightarrow> nat \<Rightarrow> implicit \<Rightarrow> iheader \<Rightarrow> bool" where
  "slots_free X lo t c z i h \<longleftrightarrow>
     (\<forall>j<2 ^ z. j \<notin> X \<and> (\<forall>k. lo \<le> k \<and> k < t \<longrightarrow> j \<noteq> (k + c) mod 2 ^ z) \<longrightarrow> entry_free (slot_entry i h j))"

definition iix_rep :: "nat \<Rightarrow> (nat \<Rightarrow> nat) \<Rightarrow> nat \<Rightarrow> nat \<Rightarrow> nat \<Rightarrow> nat \<Rightarrow> implicit \<Rightarrow> bool" where
  "iix_rep b blk lo t c z i \<longleftrightarrow>
     z + b \<le> 64 \<and> 1 \<le> z \<and> t - lo \<le> 2 ^ z \<and>
     (case i_headers i of
        [] \<Rightarrow> t = 0
      | h # _ \<Rightarrow> header_ok z i h \<and> ih_tail h = of_nat ((t + (c + (2 ^ z - 1))) mod 2 ^ z) \<and>
          slots_used b blk lo t c z i h \<and> slots_free {} lo t c z i h)"

text \<open>The entry for block \<open>t\<close>, at address \<open>a\<close>, has been claimed, but its value has not been stored yet.\<close>

definition claimed :: "nat \<Rightarrow> (nat \<Rightarrow> nat) \<Rightarrow> nat \<Rightarrow> nat \<Rightarrow> nat \<Rightarrow> nat \<Rightarrow> nat \<Rightarrow> implicit \<Rightarrow> bool" where
  "claimed b blk lo t c z a i \<longleftrightarrow>
     z + b \<le> 64 \<and> 1 \<le> z \<and> t - lo < 2 ^ z \<and>
     (\<exists>h hs. i_headers i = h # hs \<and> header_ok z i h \<and> ih_tail h = of_nat ((t + c) mod 2 ^ z) \<and>
        a = ih_index h ! ((t + c) mod 2 ^ z) \<and> entry_key (slot_entry i h ((t + c) mod 2 ^ z)) = of_nat (t * 2 ^ b) \<and>
        slots_used b blk lo t c z i h \<and> slots_free {(t + c) mod 2 ^ z} lo t c z i h)"

definition iblocks ::
    "traits \<Rightarrow> nat \<Rightarrow> (nat \<Rightarrow> 'a) \<Rightarrow> nat \<Rightarrow> nat \<Rightarrow> (nat \<Rightarrow> nat) \<Rightarrow> nat \<Rightarrow> nat \<Rightarrow> 'a pool \<Rightarrow> bool" where
  "iblocks tr b el H T blk lo t p \<longleftrightarrow> inj_on blk {lo..<t} \<and> pool_ok tr p \<and>
     (\<forall>k. lo \<le> k \<and> k < t \<longrightarrow> blk k \<notin> free_blocks p \<and> blk k < next_block p \<and>
        (\<exists>bl. heap p (blk k) = Some bl \<and> block_rep tr implicit_context b el H T k bl))"

text \<open>If the index could not be allocated by the constructor, there is none, ever: \<open>starved\<close>.\<close>

definition icounters :: "bool \<Rightarrow> nat \<Rightarrow> nat \<Rightarrow> implicit \<Rightarrow> bool" where
  "icounters starved H T i \<longleftrightarrow> i_tailIndex i = of_nat T \<and> i_headIndex i = of_nat H \<and>
     i_dequeueOptimisticCount i = of_nat H \<and> i_dequeueOvercommit i = 0 \<and> (i_headers i = [] \<longrightarrow> starved)"

definition iwindow :: "nat \<Rightarrow> nat \<Rightarrow> nat \<Rightarrow> nat \<Rightarrow> bool" where
  "iwindow b H T t \<longleftrightarrow> H \<le> T \<and> T \<le> t * 2 ^ b \<and> t * 2 ^ b < T + 2 ^ b \<and> T - H < 2 ^ 63"

definition irep :: "traits \<Rightarrow> bool \<Rightarrow> nat \<Rightarrow> (nat \<Rightarrow> 'a) \<Rightarrow> nat \<Rightarrow> nat \<Rightarrow> nat set \<Rightarrow> 'a istate \<Rightarrow> bool" where
  "irep tr st b el H T R s \<longleftrightarrow> (case s of (i, p) \<Rightarrow>
     (\<exists>blk t c z. icounters st H T i \<and> iwindow b H T t \<and> iix_rep b blk (H div 2 ^ b) t c z i \<and>
        iblocks tr b el H T blk (H div 2 ^ b) t p \<and> (T mod 2 ^ b \<noteq> 0 \<longrightarrow> i_tailBlock i = Some (blk (t - 1))) \<and>
        R = blk ` {H div 2 ^ b..<t}))"

lemma irepI:
  "icounters st H T i \<Longrightarrow> iwindow b H T t \<Longrightarrow> iix_rep b blk (H div 2 ^ b) t c z i \<Longrightarrow> iblocks tr b el H T blk (H div 2 ^ b) t p \<Longrightarrow>
     (T mod 2 ^ b \<noteq> 0 \<Longrightarrow> i_tailBlock i = Some (blk (t - 1))) \<Longrightarrow> irep tr st b el H T (blk ` {H div 2 ^ b..<t}) (i, p)"
  unfolding irep_def by blast

section \<open>The index\<close>

definition same_counters :: "implicit \<Rightarrow> implicit \<Rightarrow> bool" where
  "same_counters i i' \<longleftrightarrow> i_tailIndex i' = i_tailIndex i \<and> i_headIndex i' = i_headIndex i \<and>
     i_dequeueOptimisticCount i' = i_dequeueOptimisticCount i \<and> i_dequeueOvercommit i' = i_dequeueOvercommit i \<and>
     i_tailBlock i' = i_tailBlock i \<and> (i_headers i' = [] \<longleftrightarrow> i_headers i = [])"

lemma icounters_same: "icounters st H T i \<Longrightarrow> same_counters i i' \<Longrightarrow> icounters st H T i'"
  by (simp add: icounters_def same_counters_def)

lemma store_simps [simp]:
  "i_headers (store_key a k i) = i_headers i" "i_headers (store_value a v i) = i_headers i"
  "header_ok z (store_key a k i) h = header_ok z i h" "header_ok z (store_value a v i) h = header_ok z i h"
  "same_counters i (store_key a k i)" "same_counters i (store_value a v i)"
  by (simp_all add: store_key_def store_value_def header_ok_def same_counters_def)

lemma set_tail_simps [simp]:
  "i_headers i = h # hs \<Longrightarrow> i_headers (set_index_tail w i) = h\<lparr>ih_tail := w\<rparr> # hs"
  "header_ok z (set_index_tail w i) h = header_ok z i h" "header_ok z i (h\<lparr>ih_tail := w\<rparr>) = header_ok z i h"
  "slot_entry (set_index_tail w i) h j = slot_entry i h j" "slot_entry i (h\<lparr>ih_tail := w\<rparr>) j = slot_entry i h j"
  "same_counters i (set_index_tail w i)"
  by (simp_all add: set_index_tail_def header_ok_def slot_entry_def same_counters_def split: list.split)

lemma same_counters_trans: "same_counters i i' \<Longrightarrow> same_counters i' i'' \<Longrightarrow> same_counters i i''"
  by (simp add: same_counters_def)

lemma slots_cong:
  assumes "\<And>j. slot_entry i' h' j = slot_entry i h j"
  shows "slots_used b blk lo t c z i' h' = slots_used b blk lo t c z i h" "slots_free X lo t c z i' h' = slots_free X lo t c z i h"
  using assms by (simp_all add: slots_used_def slots_free_def)

lemma same_slot:
  assumes "lo \<le> j" "lo \<le> k" "j < lo + 2 ^ z \<and> k < lo + 2 ^ z" and "(j + c) mod 2 ^ z = (k + c) mod 2 ^ z"
  shows "j = (k :: nat)"
proof (rule ccontr)
  assume "j \<noteq> k"
  then consider "j < k" | "k < j" by linarith
  then show False by cases (use assms slots_differ [of lo j k z c] slots_differ [of lo k j z c] in \<open>auto simp: less_diff_conv2 add.commute\<close>)
qed

lemma slot_store:
  assumes "header_ok z i h" and "j < 2 ^ z" and "j' < 2 ^ z"
  shows "slot_entry (store_key (ih_index h ! j) k i) h j' = (if j' = j then (slot_entry i h j)\<lparr>entry_key := k\<rparr> else slot_entry i h j')"
    and "slot_entry (store_value (ih_index h ! j) v i) h j' = (if j' = j then (slot_entry i h j)\<lparr>entry_value := Some v\<rparr> else slot_entry i h j')"
  using assms by (auto simp: slot_entry_def store_key_def store_value_def header_ok_def nth_eq_iff_index_eq)

lemma slot_lookup:
  assumes "header_ok z i h" and "z < 64"
  shows "index_at h (of_nat (n mod 2 ^ z)) = Inr (ih_index h ! (n mod 2 ^ z))"
    and "entry_at i (ih_index h ! (n mod 2 ^ z)) = Inr (slot_entry i h (n mod 2 ^ z))"
proof -
  have n: "n mod 2 ^ z < 2 ^ z" by simp
  show "index_at h (of_nat (n mod 2 ^ z)) = Inr (ih_index h ! (n mod 2 ^ z))"
    using assms(1) n unat_slot [OF assms(2), of n] by (simp add: index_at_def header_ok_def not_le)
  have "ih_index h ! (n mod 2 ^ z) < length (i_entries i)" using assms(1) n by (simp add: header_ok_def)
  then show "entry_at i (ih_index h ! (n mod 2 ^ z)) = Inr (slot_entry i h (n mod 2 ^ z))"
    by (simp add: entry_at_def slot_entry_def)
qed

lemma tail_next:
  assumes "z < 64"
  shows "(of_nat ((t + (c + (2 ^ z - 1))) mod 2 ^ z) + 1) AND (2 ^ z - 1) = (of_nat ((t + c) mod 2 ^ z) :: u64)"
proof -
  have "Suc t + (c + (2 ^ z - 1)) = t + c + 2 ^ z" by simp
  then show ?thesis using mask_next [OF assms, of t "c + (2 ^ z - 1)"] by (metis mod_add_self2)
qed

lemma tail_prev:
  assumes "z < 64"
  shows "(of_nat ((t + c) mod 2 ^ z) - 1) AND (2 ^ z - 1) = (of_nat ((t + (c + (2 ^ z - 1))) mod 2 ^ z) :: u64)"
proof -
  have "(t + (c + (2 ^ z - 1)) + 1) mod 2 ^ z = (t + c) mod 2 ^ z"
  proof -
    have "t + (c + (2 ^ z - 1)) + 1 = t + c + 2 ^ z" by simp
    then show ?thesis by (metis mod_add_self2)
  qed
  then show ?thesis using mask_back [OF assms, of 1 "Suc t" "c + (2 ^ z - 1)"] by simp
qed

lemma base_not_invalid: "1 \<le> b \<Longrightarrow> of_nat (k * 2 ^ b) \<noteq> INVALID_BLOCK_BASE"
proof
  assume b: "1 \<le> b" and e: "of_nat (k * 2 ^ b) = INVALID_BLOCK_BASE"
  have "of_nat (k * 2 ^ b) = 2 * (of_nat k * 2 ^ (b - 1) :: u64)"
    using b by (cases b) (simp_all add: ac_simps)
  then have "even (of_nat (k * 2 ^ b) :: u64)" by (metis dvd_triv_left)
  moreover have "odd (of_nat (k * 2 ^ b) :: u64)" unfolding e by (simp add: INVALID_BLOCK_BASE_def)
  ultimately show False by blast
qed

text \<open>Growth: the old index is copied in its own order, from the slot after its tail.\<close>

lemma copy_index_ok:
  assumes z: "z < 64" and h: "ih_capacity h = 2 ^ z" "length (ih_index h) = 2 ^ z" "ih_tail h = of_nat ((n + c) mod 2 ^ z)"
  shows "m < n \<Longrightarrow> n - m \<le> 2 ^ z \<Longrightarrow> n - m \<le> fuel \<Longrightarrow>
    copy_index fuel h (of_nat ((m + c) mod 2 ^ z)) = Inr (map (\<lambda>j. ih_index h ! ((Suc j + c) mod 2 ^ z)) [m..<n])"
proof (induction fuel arbitrary: m)
  case 0
  then show ?case by simp
next
  case (Suc fuel)
  have nx: "(of_nat ((m + c) mod 2 ^ z) + 1) AND (2 ^ z - 1) = (of_nat ((Suc m + c) mod 2 ^ z) :: u64)" by (rule mask_next [OF z])
  have at: "index_at h (of_nat ((Suc m + c) mod 2 ^ z)) = Inr (ih_index h ! ((Suc m + c) mod 2 ^ z))"
    unfolding index_at_def unat_slot [OF z] h(2) by (simp add: not_le)
  have split: "[m..<n] = m # [Suc m..<n]" using Suc.prems(1) by (rule upt_conv_Cons)
  show ?case
  proof (cases "Suc m = n")
    case True
    then show ?thesis using at nx h(1,3) by (auto simp: Let_def)
  next
    case False
    then have m: "Suc m < n" using Suc.prems(1) by simp
    then have "(Suc m + c) mod 2 ^ z \<noteq> (n + c) mod 2 ^ z" by (intro slots_differ [of "Suc m"]) (use Suc.prems in auto)
    then have ne: "(of_nat ((Suc m + c) mod 2 ^ z) :: u64) \<noteq> of_nat ((n + c) mod 2 ^ z)" using unat_slot [OF z] by metis
    have r: "copy_index fuel h (of_nat ((Suc m + c) mod 2 ^ z)) = Inr (map (\<lambda>j. ih_index h ! ((Suc j + c) mod 2 ^ z)) [Suc m..<n])"
      by (rule Suc.IH) (use Suc.prems m in auto)
    show ?thesis unfolding copy_index.simps Let_def h(1,3) nx at bind_r_simps r split using ne by simp
  qed
qed

lemma grown_slot:
  assumes "lo \<le> k" and "k - lo < 2 ^ z"
  shows "(k + lo * (2 ^ z - 1)) mod 2 ^ z = k - (lo :: nat)"
proof -
  have "k + lo * (2 ^ z - 1) = (k - lo) + 2 ^ z * lo" using assms(1) by (simp add: algebra_simps diff_mult_distrib)
  then show ?thesis using assms(2) by simp
qed

lemma new_iindex_ok:
  assumes ix: "iix_rep b blk lo t c z i" and h: "i_headers i = h # hs" and t: "t = lo + 2 ^ z" and room: "Suc z + b \<le> 64" "1 \<le> b"
    and ok: "ok (mallocs p)"
  shows "\<exists>i' h' c'. implicit_new_block_index ndebug ok (i, p) = Inr (True, i', p\<lparr>mallocs := mallocs p + 1\<rparr>) \<and>
    iix_rep b blk lo t c' (Suc z) i' \<and> same_counters i i' \<and> i_headers i' = h' # h # hs \<and>
    entry_key (slot_entry i' h' ((t + c') mod 2 ^ Suc z)) = INVALID_BLOCK_BASE"
proof -
  let ?d = "c + (2 ^ z - 1)" and ?n = "length (i_entries i)" and ?c = "lo * (2 ^ Suc z - 1)"
  have x: "header_ok z i h" "ih_tail h = of_nat ((t + ?d) mod 2 ^ z)" "slots_used b blk lo t c z i h" "1 \<le> z"
    using ix h by (simp_all add: iix_rep_def)
  have z: "z < 64" "Suc z < 64" using room by simp_all
  have hk: "ih_capacity h = 2 ^ z" "length (ih_index h) = 2 ^ z" "distinct (ih_index h)" "nextBlockIndexCapacity i = 2 ^ Suc z"
    and hb: "\<And>j. j < 2 ^ z \<Longrightarrow> ih_index h ! j < ?n"
    using x(1) by (simp_all add: header_ok_def)
  have u: "unat (2 ^ z :: u64) = 2 ^ z" "unat (2 ^ Suc z :: u64) = 2 ^ Suc z" using z by (simp_all only: unat_exp_u64)
  have slot: "(Suc j + ?d) mod 2 ^ z = (j + c) mod 2 ^ z" for j
  proof -
    have "Suc j + ?d = j + c + 2 ^ z" by simp
    then show ?thesis by (metis mod_add_self2)
  qed
  have "t + ?d = lo + ?d + 2 ^ z" using t by simp
  then have "(t + ?d) mod 2 ^ z = (lo + ?d) mod 2 ^ z" by (metis mod_add_self2)
  then have copy: "copy_index (2 ^ z) h (ih_tail h) = Inr (map (\<lambda>j. ih_index h ! ((j + c) mod 2 ^ z)) [lo..<t])" (is "_ = Inr ?old")
    using copy_index_ok [OF z(1) hk(1,2) x(2), of lo "2 ^ z"] x(2) slot t by simp
  have len: "length ?old = 2 ^ z" using t by simp
  let ?h = "\<lparr>ih_capacity = 2 ^ Suc z, ih_tail = (2 ^ z - 1) AND (2 ^ Suc z - 1), ih_index = ?old @ [?n..<?n + 2 ^ z]\<rparr>"
  let ?i = "i\<lparr>i_entries := i_entries i @ replicate (2 ^ z) \<lparr>entry_key = INVALID_BLOCK_BASE, entry_value = None\<rparr>,
      i_headers := ?h # h # hs, nextBlockIndexCapacity := 2 ^ Suc (Suc z)\<rparr>"
  have "(of_nat (2 ^ z) :: u64) = 2 ^ z" by simp
  then have asrt: "cq_assertion ndebug (of_nat (length ?old) = (2 ^ z :: u64)) = Inr ()" unfolding len by (simp add: cq_assertion_def)
  have le: "\<not> (2 :: nat) ^ Suc z < 2 ^ z + 2 ^ z" by simp
  have pb: "push_bit 1 (2 ^ Suc z) = (2 ^ Suc (Suc z) :: u64)" by (simp add: push_bit_eq_mult)
  have run: "implicit_new_block_index ndebug ok (i, p) = Inr (True, ?i, p\<lparr>mallocs := mallocs p + 1\<rparr>)"
    unfolding implicit_new_block_index_def Let_def
    by (simp only: prod.case h list.case hk copy ok simp_thms if_False if_True bind_r_simps asrt u le list.distinct pb)
  have tl': "((2 ^ z - 1) AND (2 ^ Suc z - 1) :: u64) = of_nat (2 ^ z - 1)"
  proof -
    have "(of_nat (2 ^ z - 1) :: u64) = 2 ^ z - 1" by (simp add: of_nat_diff)
    moreover have "(2 ^ z - 1) mod 2 ^ Suc z = (2 ^ z - 1 :: nat)" by (rule mod_less) (simp add: less_imp_diff_less)
    ultimately show ?thesis using of_nat_and_mask [OF z(2), of "2 ^ z - 1"] by metis
  qed
  have old: "slot_entry ?i ?h (k - lo) = slot_entry i h ((k + c) mod 2 ^ z)" if "lo \<le> k" "k < t" for k
  proof -
    have "k - lo < 2 ^ z" "(k + c) mod 2 ^ z < 2 ^ z" using that t by auto
    then show ?thesis using that hb [of "(k + c) mod 2 ^ z"] t by (simp add: slot_entry_def nth_append)
  qed
  have new: "slot_entry ?i ?h j = \<lparr>entry_key = INVALID_BLOCK_BASE, entry_value = None\<rparr>" if "2 ^ z \<le> j" "j < 2 ^ Suc z" for j
  proof -
    have "j - 2 ^ z < 2 ^ z" using that by (simp add: less_diff_conv2)
    then show ?thesis using that t by (simp add: slot_entry_def nth_append)
  qed
  have in_range: "lo \<le> k \<Longrightarrow> k \<le> t \<Longrightarrow> (k + ?c) mod 2 ^ Suc z = k - lo" for k
  proof (rule grown_slot)
    assume "k \<le> t"
    then have "k - lo \<le> 2 ^ z" using t by simp
    also have "(2 :: nat) ^ z < 2 ^ Suc z" by simp
    finally show "k - lo < 2 ^ Suc z" .
  qed
  have used: "slots_used b blk lo t ?c (Suc z) ?i ?h"
    unfolding slots_used_def using in_range old x(3) by (auto simp: slots_used_def simp del: power_Suc)
  have free: "slots_free {} lo t ?c (Suc z) ?i ?h"
    unfolding slots_free_def
  proof (intro allI impI, elim conjE)
    fix j :: nat assume j: "j < 2 ^ Suc z" and nk: "\<forall>k. lo \<le> k \<and> k < t \<longrightarrow> j \<noteq> (k + ?c) mod 2 ^ Suc z"
    have "\<not> j < 2 ^ z"
    proof
      assume "j < 2 ^ z"
      then have "lo \<le> lo + j \<and> lo + j < t" using t by simp
      then show False using nk in_range [of "lo + j"] by (metis add_diff_cancel_left' less_imp_le)
    qed
    then show "entry_free (slot_entry ?i ?h j)" using new j by (simp add: entry_free_def)
  qed
  have hok: "header_ok (Suc z) ?i ?h"
  proof -
    have "inj_on (\<lambda>j. ih_index h ! ((j + c) mod 2 ^ z)) {lo..<t}"
    proof (rule inj_onI)
      fix j k assume jk: "j \<in> {lo..<t}" "k \<in> {lo..<t}" and e: "ih_index h ! ((j + c) mod 2 ^ z) = ih_index h ! ((k + c) mod 2 ^ z)"
      have e': "(j + c) mod 2 ^ z = (k + c) mod 2 ^ z" using e hk(2,3) by (simp add: nth_eq_iff_index_eq)
      show "j = k" by (rule same_slot [OF _ _ _ e']) (use jk t in auto)
    qed
    then have d: "distinct ?old" by (simp add: distinct_map)
    have s: "set ?old \<subseteq> {..<?n}" using hb by auto
    have "(?old @ [?n..<?n + 2 ^ z]) ! j < ?n + 2 ^ z" if "j < 2 ^ Suc z" for j
    proof -
      have "(?old @ [?n..<?n + 2 ^ z]) ! j \<in> set (?old @ [?n..<?n + 2 ^ z])" using that len by (intro nth_mem) simp
      then show ?thesis using s by auto
    qed
    then show ?thesis using d s len by (auto simp: header_ok_def)
  qed
  have tt: "(t + (?c + (2 ^ Suc z - 1))) mod 2 ^ Suc z = 2 ^ z - 1"
  proof -
    have "t + (?c + (2 ^ Suc z - 1)) = (t - 1 + ?c) + 2 ^ Suc z"
    proof -
      have "1 \<le> t" unfolding t by (rule trans_le_add2) simp
      moreover have "(1 :: nat) \<le> 2 ^ Suc z" by simp
      ultimately show ?thesis by linarith
    qed
    then have "(t + (?c + (2 ^ Suc z - 1))) mod 2 ^ Suc z = (t - 1 + ?c) mod 2 ^ Suc z" by (metis mod_add_self2)
    also have "\<dots> = t - 1 - lo"
    proof (rule in_range)
      have "lo < t" unfolding t by simp
      then show "lo \<le> t - 1" "t - 1 \<le> t" by simp_all
    qed
    finally show ?thesis using t by simp
  qed
  have "iix_rep b blk lo t ?c (Suc z) ?i"
    using room hok used free tl' tt t by (simp add: iix_rep_def del: power_Suc)
  moreover have "entry_key (slot_entry ?i ?h ((t + ?c) mod 2 ^ Suc z)) = INVALID_BLOCK_BASE"
    using in_range [of t] new [of "2 ^ z"] t by simp
  ultimately show ?thesis using run
    by (intro exI [of _ ?i] exI [of _ ?h] exI [of _ ?c]) (simp add: same_counters_def h)
qed

lemma claim_ok:
  assumes "i_headers i = h # hs" and hok: "header_ok z i h" and "slots_used b blk lo t c z i h" "slots_free {} lo t c z i h"
    and t: "t - lo < 2 ^ z" and "z + b \<le> 64" "1 \<le> z"
  shows "claimed b blk lo t c z (ih_index h ! ((t + c) mod 2 ^ z))
    (set_index_tail (of_nat ((t + c) mod 2 ^ z)) (store_key (ih_index h ! ((t + c) mod 2 ^ z)) (of_nat (t * 2 ^ b)) i))"
    (is "claimed _ _ _ _ _ _ ?a ?i")
proof -
  let ?h = "h\<lparr>ih_tail := of_nat ((t + c) mod 2 ^ z)\<rparr>" and ?j = "(t + c) mod 2 ^ z"
  have st: "slot_entry ?i ?h j = (if j = ?j then (slot_entry i h j)\<lparr>entry_key := of_nat (t * 2 ^ b)\<rparr> else slot_entry i h j)"
    if "j < 2 ^ z" for j using slot_store(1) [OF hok, of ?j j] that by simp
  have "slots_used b blk lo t c z ?i ?h"
    using assms(3) st slots_differ [OF _ _ t, of _ c] unfolding slots_used_def by simp
  moreover have "slots_free {?j} lo t c z ?i ?h" using assms(4) st unfolding slots_free_def by simp
  moreover have "entry_key (slot_entry ?i ?h ?j) = of_nat (t * 2 ^ b)" using st [of ?j] by (simp del: of_nat_mult)
  ultimately show ?thesis using assms
    unfolding claimed_def by (intro conjI exI [of _ ?h] exI [of _ hs]) (simp_all del: of_nat_mult)
qed

lemma full_or_free:
  assumes "slots_free {} lo t c z i h" and "t - lo \<le> 2 ^ z" and "lo \<le> t" and "\<not> entry_free (slot_entry i h ((t + c) mod 2 ^ z))"
  shows "t = lo + 2 ^ z"
proof (rule ccontr)
  assume "t \<noteq> lo + 2 ^ z"
  then have "t - lo < 2 ^ z" using assms(2,3) by linarith
  then have "\<forall>k. lo \<le> k \<and> k < t \<longrightarrow> (t + c) mod 2 ^ z \<noteq> (k + c) mod 2 ^ z" using slots_differ by metis
  then show False using assms(1,4) unfolding slots_free_def by simp
qed

lemma full_not_free:
  assumes "slots_used b blk lo t c z i h" and "1 \<le> b" and "t = lo + 2 ^ z"
  shows "\<not> entry_free (slot_entry i h ((t + c) mod 2 ^ z))"
proof -
  have "t + c = lo + c + 2 ^ z" using assms(3) by simp
  then have "(t + c) mod 2 ^ z = (lo + c) mod 2 ^ z" by (metis mod_add_self2)
  moreover have "slot_entry i h ((lo + c) mod 2 ^ z) = \<lparr>entry_key = of_nat (lo * 2 ^ b), entry_value = Some (Some (blk lo))\<rparr>"
    using assms(1,3) by (simp add: slots_used_def)
  ultimately show ?thesis using base_not_invalid [OF assms(2), of lo] by (simp add: entry_free_def del: of_nat_mult)
qed

lemma insert_entry_ok:
  assumes b: "block_bits tr b" and ix: "iix_rep b blk lo t c z i" and lo: "lo \<le> t" and near: "(t - lo) * 2 ^ b < 2 ^ 63"
  shows "\<exists>r i' m'. insert_block_index_entry ndebug ok m (of_nat (t * 2 ^ b)) (i, p) = Inr (r, i', p\<lparr>mallocs := m'\<rparr>) \<and> same_counters i i' \<and>
    (case r of
       None \<Rightarrow> iix_rep b blk lo t c z i' \<and> (m = cq_AllocationMode.CannotAlloc \<or> (\<exists>j. \<not> ok j) \<or> i_headers i = [])
     | Some a \<Rightarrow> \<exists>c' z'. claimed b blk lo t c' z' a i')"
proof (cases "i_headers i")
  case Nil
  then have "insert_block_index_entry ndebug ok m (of_nat (t * 2 ^ b)) (i, p) = Inr (None, i, p\<lparr>mallocs := mallocs p\<rparr>)"
    by (simp add: insert_block_index_entry_def)
  then show ?thesis using ix Nil by (intro exI [of _ None] exI [of _ i] exI [of _ "mallocs p"]) (simp add: same_counters_def)
next
  case (Cons h hs)
  let ?a = "\<lambda>h c z. ih_index h ! ((t + c) mod 2 ^ z)"
  let ?claim = "\<lambda>i h c z. set_index_tail (of_nat ((t + c) mod 2 ^ z)) (store_key (?a h c z) (of_nat (t * 2 ^ b)) i)"
  have x: "header_ok z i h" "ih_tail h = of_nat ((t + (c + (2 ^ z - 1))) mod 2 ^ z)" "slots_used b blk lo t c z i h"
    "slots_free {} lo t c z i h" "z + b \<le> 64" "1 \<le> z" "t - lo \<le> 2 ^ z"
    using ix Cons by (simp_all add: iix_rep_def)
  have b1: "1 \<le> b" using b by (simp add: block_bits_def)
  then have z: "z < 64" using x(5) by simp
  have cap: "ih_capacity h = 2 ^ z" using x(1) by (simp add: header_ok_def)
  let ?e = "slot_entry i h ((t + c) mod 2 ^ z)"
  have sc: "same_counters i (?claim i h c z)" for i h c z by (rule same_counters_trans [OF store_simps(5) set_tail_simps(6)])
  show ?thesis
  proof (cases "entry_free ?e")
    case True
    then have ne: "t \<noteq> lo + 2 ^ z" using full_not_free [OF x(3) b1] by blast
    then have lt: "t - lo < 2 ^ z" using x(7) lo by linarith
    have "insert_block_index_entry ndebug ok m (of_nat (t * 2 ^ b)) (i, p) = Inr (Some (?a h c z), ?claim i h c z, p\<lparr>mallocs := mallocs p\<rparr>)"
      using True unfolding insert_block_index_entry_def Let_def prod.case Cons list.case x(2) cap tail_next [OF z] slot_lookup [OF x(1) z]
        bind_r_simps entry_free_def by (simp del: of_nat_mult)
    moreover have "claimed b blk lo t c z (?a h c z) (?claim i h c z)" by (rule claim_ok [OF Cons x(1,3,4) lt x(5,6)])
    ultimately show ?thesis using sc by (intro exI [of _ "Some (?a h c z)"] exI [of _ "?claim i h c z"] exI [of _ "mallocs p"]) auto
  next
    case False
    then have t: "t = lo + 2 ^ z" using full_or_free [OF x(4,7) lo] by blast
    have nf: "(entry_key ?e = INVALID_BLOCK_BASE \<or> entry_value ?e = Some None) = False" using False by (simp add: entry_free_def)
    have step: "insert_block_index_entry ndebug ok m (of_nat (t * 2 ^ b)) (i, p) =
      (if m = cq_AllocationMode.CannotAlloc then Inr (None, i, p)
       else bind_r (implicit_new_block_index ndebug ok (i, p)) (\<lambda>(made, i, p).
            if \<not> made then Inr (None, (i, p))
            else bind_r (the_header i) (\<lambda>h.
              let newTail = (ih_tail h + 1) AND (ih_capacity h - 1) in
              bind_r (index_at h newTail) (\<lambda>a.
              bind_r (entry_at i a) (\<lambda>e.
              bind_r (cq_assertion ndebug (entry_key e = INVALID_BLOCK_BASE)) (\<lambda>_.
                Inr (Some a, (set_index_tail newTail (store_key a (of_nat (t * 2 ^ b)) i), p))))))))"
      unfolding insert_block_index_entry_def Let_def prod.case Cons list.case x(2) cap tail_next [OF z] slot_lookup [OF x(1) z]
        bind_r_simps nf if_False ..
    show ?thesis
    proof (cases "m = cq_AllocationMode.CannotAlloc \<or> \<not> ok (mallocs p)")
      case True
      then have "insert_block_index_entry ndebug ok m (of_nat (t * 2 ^ b)) (i, p) =
          Inr (None, i, p\<lparr>mallocs := if m = cq_AllocationMode.CannotAlloc then mallocs p else mallocs p + 1\<rparr>)"
        unfolding step by (auto simp: implicit_new_block_index_def)
      then show ?thesis using True ix
        by (intro exI [of _ None] exI [of _ i] exI [of _ "if m = cq_AllocationMode.CannotAlloc then mallocs p else mallocs p + 1"])
          (auto simp: same_counters_def)
    next
      case ok: False
      have "(2 :: nat) ^ (z + b) < 2 ^ 63" using near t by (simp add: power_add)
      then have "z + b < 63" by (rule power_less_imp_less_exp [rotated]) simp
      then have "Suc z + b \<le> 64" by simp
      from new_iindex_ok [OF ix Cons t this b1, of ok p ndebug] ok obtain i' h' c' where
        g: "implicit_new_block_index ndebug ok (i, p) = Inr (True, i', p\<lparr>mallocs := mallocs p + 1\<rparr>)"
        "iix_rep b blk lo t c' (Suc z) i'" "same_counters i i'" "i_headers i' = h' # h # hs"
        "entry_key (slot_entry i' h' ((t + c') mod 2 ^ Suc z)) = INVALID_BLOCK_BASE" by blast
      have x': "header_ok (Suc z) i' h'" "ih_tail h' = of_nat ((t + (c' + (2 ^ Suc z - 1))) mod 2 ^ Suc z)"
        "slots_used b blk lo t c' (Suc z) i' h'" "slots_free {} lo t c' (Suc z) i' h'" "Suc z + b \<le> 64" "1 \<le> Suc z"
        using g(2,4) by (simp_all add: iix_rep_def)
      have z': "Suc z < 64" using x'(5) b1 by simp
      have cap': "ih_capacity h' = 2 ^ Suc z" using x'(1) by (simp add: header_ok_def)
      have lt: "t - lo < 2 ^ Suc z" using t by simp
      have hd': "the_header i' = Inr h'" using g(4) by (simp add: the_header_def)
      have asrt: "cq_assertion ndebug True = Inr ()" by (simp add: cq_assertion_def)
      have "insert_block_index_entry ndebug ok m (of_nat (t * 2 ^ b)) (i, p) =
          Inr (Some (?a h' c' (Suc z)), ?claim i' h' c' (Suc z), p\<lparr>mallocs := mallocs p + 1\<rparr>)"
        unfolding step Let_def g(1) bind_r_simps prod.case hd' x'(2) cap' tail_next [OF z'] slot_lookup [OF x'(1) z'] g(5)
        using ok by (simp add: asrt del: of_nat_mult power_Suc)
      moreover have "claimed b blk lo t c' (Suc z) (?a h' c' (Suc z)) (?claim i' h' c' (Suc z))"
        by (rule claim_ok [OF g(4) x'(1,3,4) lt x'(5,6)])
      ultimately show ?thesis using same_counters_trans [OF g(3) sc]
        by (intro exI [of _ "Some (?a h' c' (Suc z))"] exI) (auto simp del: power_Suc)
    qed
  qed
qed

text \<open>The claimed entry gets its block, or is given up.\<close>

lemma commit_ok:
  assumes cl: "claimed b blk lo t c z a i" and lo: "lo \<le> t"
  shows "iix_rep b (blk(t := n)) lo (Suc t) c z (store_value a (Some n) i)"
proof -
  obtain h hs where x: "i_headers i = h # hs" "header_ok z i h" "ih_tail h = of_nat ((t + c) mod 2 ^ z)" "a = ih_index h ! ((t + c) mod 2 ^ z)"
    "entry_key (slot_entry i h ((t + c) mod 2 ^ z)) = of_nat (t * 2 ^ b)" "slots_used b blk lo t c z i h"
    "slots_free {(t + c) mod 2 ^ z} lo t c z i h" and w: "z + b \<le> 64" "1 \<le> z" "t - lo < 2 ^ z"
    using cl unfolding claimed_def by blast
  let ?i = "store_value a (Some n) i" and ?j = "(t + c) mod 2 ^ z"
  have st: "slot_entry ?i h j = (if j = ?j then \<lparr>entry_key = of_nat (t * 2 ^ b), entry_value = Some (Some n)\<rparr> else slot_entry i h j)"
    if "j < 2 ^ z" for j
    using slot_store(2) [OF x(2), of ?j j "Some n"] that x(5) unfolding x(4) by (cases "slot_entry i h ?j") (auto simp del: of_nat_mult)
  have "slots_used b (blk(t := n)) lo (Suc t) c z ?i h"
    unfolding slots_used_def
  proof (intro allI impI, elim conjE)
    fix k assume k: "lo \<le> k" "k < Suc t"
    show "slot_entry ?i h ((k + c) mod 2 ^ z) = \<lparr>entry_key = of_nat (k * 2 ^ b), entry_value = Some (Some ((blk(t := n)) k))\<rparr>"
    proof (cases "k = t")
      case False
      then have "k < t" using k by simp
      then show ?thesis using st [of "(k + c) mod 2 ^ z"] slots_differ [OF k(1) _ w(3), of c] x(6) k(1)
        by (simp add: slots_used_def del: of_nat_mult)
    qed (use st in \<open>simp del: of_nat_mult\<close>)
  qed
  moreover have "slots_free {} lo (Suc t) c z ?i h"
    using x(7) st lo unfolding slots_free_def by (auto simp: less_Suc_eq simp del: of_nat_mult)
  moreover have "(Suc t + (c + (2 ^ z - 1))) mod 2 ^ z = ?j"
  proof -
    have "Suc t + (c + (2 ^ z - 1)) = t + c + 2 ^ z" by simp
    then show ?thesis by (metis mod_add_self2)
  qed
  ultimately show ?thesis using x(1,2,3) w lo unfolding iix_rep_def by (simp add: Suc_le_eq)
qed

lemma rewind_ok:
  assumes cl: "claimed b blk lo t c z a i" and z: "z < 64"
  shows "\<exists>i'. rewind_entry a i = Inr i' \<and> iix_rep b blk lo t c z i' \<and> same_counters i i'"
proof -
  obtain h hs where x: "i_headers i = h # hs" "header_ok z i h" "ih_tail h = of_nat ((t + c) mod 2 ^ z)" "a = ih_index h ! ((t + c) mod 2 ^ z)"
    "slots_used b blk lo t c z i h" "slots_free {(t + c) mod 2 ^ z} lo t c z i h" and w: "z + b \<le> 64" "1 \<le> z" "t - lo < 2 ^ z"
    using cl unfolding claimed_def by blast
  define u :: u64 where "u = of_nat ((t + (c + (2 ^ z - 1))) mod 2 ^ z)"
  let ?j = "(t + c) mod 2 ^ z"
  let ?i = "store_value a None (set_index_tail u i)" and ?h = "h\<lparr>ih_tail := u\<rparr>"
  have cap: "ih_capacity h = 2 ^ z" using x(2) by (simp add: header_ok_def)
  have run: "rewind_entry a i = Inr ?i"
    unfolding rewind_entry_def rewind_block_index_tail_def the_header_def x(1) list.case bind_r_simps x(3) cap tail_prev [OF z] u_def ..
  have hok: "header_ok z (set_index_tail u i) ?h" using x(2) by simp
  have "slot_entry ?i ?h j = (if j = ?j then (slot_entry i h ?j)\<lparr>entry_value := Some None\<rparr> else slot_entry i h j)" if "j < 2 ^ z" for j
    using slot_store(2) [OF hok, of ?j j None] that unfolding x(4) by simp
  then have "slots_used b blk lo t c z ?i ?h" "slots_free {} lo t c z ?i ?h"
    using x(5,6) slots_differ [OF _ _ w(3), of _ c] unfolding slots_used_def slots_free_def by (auto simp: entry_free_def)
  then have "iix_rep b blk lo t c z ?i" using x(1,2) w u_def by (simp add: iix_rep_def)
  moreover have "same_counters i ?i" by (rule same_counters_trans [OF set_tail_simps(6) store_simps(6)])
  ultimately show ?thesis using run by blast
qed

text \<open>Finding the block of an element, and giving up the first block.\<close>

lemma lookup_ok:
  assumes b: "block_bits tr b" and ix: "iix_rep b blk lo t c z i" and k: "lo \<le> idx div 2 ^ b" "idx div 2 ^ b < t"
    and near: "(t - 1 - idx div 2 ^ b) * 2 ^ b < 2 ^ 64"
  shows "\<exists>h hs. i_headers i = h # hs \<and> header_ok z i h \<and> z < 64 \<and>
    get_block_index_index_for_index ndebug tr i (of_nat idx) = Inr (of_nat ((idx div 2 ^ b + c) mod 2 ^ z)) \<and>
    get_block_index_entry_for_index ndebug tr i (of_nat idx) = Inr (ih_index h ! ((idx div 2 ^ b + c) mod 2 ^ z))"
proof -
  let ?k = "idx div 2 ^ b"
  have "t \<noteq> 0" using k by simp
  then obtain h hs where h: "i_headers i = h # hs" using ix by (auto simp: iix_rep_def split: list.splits)
  then have x: "header_ok z i h" "ih_tail h = of_nat ((t + (c + (2 ^ z - 1))) mod 2 ^ z)" "slots_used b blk lo t c z i h" "z + b \<le> 64"
    using ix by (simp_all add: iix_rep_def)
  have b1: "1 \<le> b" using b by (simp add: block_bits_def)
  then have z: "z < 64" using x(4) by simp
  have cap: "ih_capacity h = 2 ^ z" using x(1) by (simp add: header_ok_def)
  have "t + (c + (2 ^ z - 1)) = t - 1 + c + 2 ^ z"
  proof -
    have "(1 :: nat) \<le> 2 ^ z" by simp
    then show ?thesis using k by linarith
  qed
  then have tail: "ih_tail h = of_nat ((t - 1 + c) mod 2 ^ z)" unfolding x(2) by (metis mod_add_self2)
  have se: "slot_entry i h ((j + c) mod 2 ^ z) = \<lparr>entry_key = of_nat (j * 2 ^ b), entry_value = Some (Some (blk j))\<rparr>" if "lo \<le> j" "j < t" for j
    using x(3) that by (simp add: slots_used_def)
  have s1: "slot_entry i h ((t - 1 + c) mod 2 ^ z) = \<lparr>entry_key = of_nat ((t - 1) * 2 ^ b), entry_value = Some (Some (blk (t - 1)))\<rparr>"
    and sk: "slot_entry i h ((?k + c) mod 2 ^ z) = \<lparr>entry_key = of_nat (?k * 2 ^ b), entry_value = Some (Some (blk ?k))\<rparr>"
    by (rule se; use k in linarith)+
  have asrt: "cq_assertion ndebug True = Inr ()" by (simp add: cq_assertion_def)
  have kt: "?k \<le> t - 1" using k by simp
  have hdr: "the_header i = Inr h" using h by (simp add: the_header_def)
  have inv: "(of_nat ((t - 1) * 2 ^ b) \<noteq> INVALID_BLOCK_BASE) = True" using base_not_invalid [OF b1, of "t - 1"] by blast
  have val: "(of_nat (?k * 2 ^ b) = (of_nat (?k * 2 ^ b) :: u64) \<and> Some (Some (blk ?k)) \<noteq> None \<and> Some (Some (blk ?k)) \<noteq> Some None) = True" by simp
  have idx: "get_block_index_index_for_index ndebug tr i (of_nat idx) = Inr (of_nat ((?k + c) mod 2 ^ z))"
    unfolding get_block_index_index_for_index_def Let_def base_of_nat [OF b] hdr bind_r_simps tail slot_lookup [OF x(1) z] s1 ientry.simps
      inv asrt cap index_slot_back [OF b x(4) kt near z] sk val ..
  have "get_block_index_entry_for_index ndebug tr i (of_nat idx) = Inr (ih_index h ! ((?k + c) mod 2 ^ z))"
    unfolding get_block_index_entry_for_index_def idx hdr bind_r_simps slot_lookup [OF x(1) z] ..
  then show ?thesis using h x(1) z idx by blast
qed

lemma value_ok:
  assumes "iix_rep b blk lo t c z i" and h: "i_headers i = h # hs" and "z < 64" and "lo \<le> k" "k < t"
  shows "value_of_entry i (ih_index h ! ((k + c) mod 2 ^ z)) = Inr (blk k)"
proof -
  have x: "header_ok z i h" "slots_used b blk lo t c z i h" using assms(1) h by (simp_all add: iix_rep_def)
  have "slot_entry i h ((k + c) mod 2 ^ z) = \<lparr>entry_key = of_nat (k * 2 ^ b), entry_value = Some (Some (blk k))\<rparr>"
    using x(2) assms(4,5) by (simp add: slots_used_def)
  then show ?thesis unfolding value_of_entry_def slot_lookup [OF x(1) assms(3)] bind_r_simps by simp
qed

lemma drop_first_ok:
  assumes ix: "iix_rep b blk lo t c z i" and h: "i_headers i = h # hs" and t: "lo < t"
  shows "iix_rep b blk (Suc lo) t c z (store_value (ih_index h ! ((lo + c) mod 2 ^ z)) None i)" (is "iix_rep _ _ _ _ _ _ ?i")
proof -
  have x: "header_ok z i h" "slots_used b blk lo t c z i h" "slots_free {} lo t c z i h" "t - lo \<le> 2 ^ z"
    using ix h by (simp_all add: iix_rep_def)
  let ?j = "(lo + c) mod 2 ^ z"
  have st: "slot_entry ?i h j = (if j = ?j then (slot_entry i h ?j)\<lparr>entry_value := Some None\<rparr> else slot_entry i h j)" if "j < 2 ^ z" for j
    using slot_store(2) [OF x(1), of ?j j None] that by simp
  have ne: "(k + c) mod 2 ^ z \<noteq> ?j" if "Suc lo \<le> k" "k < t" for k
  proof -
    have "k - lo < 2 ^ z" using that x(4) by linarith
    then have "(lo + c) mod 2 ^ z \<noteq> (k + c) mod 2 ^ z" using that by (intro slots_differ [OF order_refl]) auto
    then show ?thesis by simp
  qed
  have "slots_used b blk (Suc lo) t c z ?i h" using x(2) st ne unfolding slots_used_def by simp
  moreover have "slots_free {} (Suc lo) t c z ?i h"
    unfolding slots_free_def
  proof (intro allI impI, elim conjE)
    fix j :: nat assume j: "j < 2 ^ z" and nk: "\<forall>k. Suc lo \<le> k \<and> k < t \<longrightarrow> j \<noteq> (k + c) mod 2 ^ z"
    show "entry_free (slot_entry ?i h j)"
    proof (cases "j = ?j")
      case False
      then have "\<forall>k. lo \<le> k \<and> k < t \<longrightarrow> j \<noteq> (k + c) mod 2 ^ z" using nk by (metis Suc_leI le_neq_implies_less)
      then show ?thesis using x(3) j st [OF j] False unfolding slots_free_def by simp
    qed (use st [OF j] in \<open>simp add: entry_free_def\<close>)
  qed
  moreover have "t - Suc lo \<le> 2 ^ z" using x(4) by linarith
  ultimately show ?thesis using ix h by (simp add: iix_rep_def)
qed

lemma iix_rep_other [simp]:
  "iix_rep b blk lo t c z (i\<lparr>i_tailIndex := v\<rparr>) = iix_rep b blk lo t c z i"
  "iix_rep b blk lo t c z (i\<lparr>i_headIndex := v\<rparr>) = iix_rep b blk lo t c z i"
  "iix_rep b blk lo t c z (i\<lparr>i_dequeueOptimisticCount := v\<rparr>) = iix_rep b blk lo t c z i"
  "iix_rep b blk lo t c z (i\<lparr>i_tailBlock := a\<rparr>) = iix_rep b blk lo t c z i"
  by (simp_all add: iix_rep_def header_ok_def slots_used_def slots_free_def slot_entry_def split: list.split)

section \<open>Blocks\<close>

lemma give_back_size [simp]: "initialBlockPoolSize (add_block_to_free_list b p) = initialBlockPoolSize p"
  by (simp add: add_block_to_free_list_def)

lemma give_back_ok:
  assumes ok: "pool_ok tr p" and b: "b \<notin> free_blocks p" "heap p b = Some blk" "raw_block tr blk"
  shows "pool_ok tr (add_block_to_free_list b p)" "free_blocks (add_block_to_free_list b p) = insert b (free_blocks p)"
    "heap (add_block_to_free_list b p) = heap p" "next_block (add_block_to_free_list b p) = next_block p"
  using assms by (auto simp: pool_ok_def free_blocks_def add_block_to_free_list_def)

lemma empty_raw:
  assumes b: "block_bits tr b" and rep: "block_rep tr ctx b el H T k blk" and "k * 2 ^ b + 2 ^ b \<le> H"
  shows "raw_block tr blk"
proof -
  have "length (elements blk) = 2 ^ b" "\<forall>i<2 ^ b. elements blk ! i = None" "length (emptyFlags blk) = 2 ^ b"
    using empty_rep_raw [OF rep assms(3)] by simp_all
  then show ?thesis unfolding raw_block_def block_bitsD(1) [OF b] by (auto intro: nth_equalityI)
qed

lemma iblocks_at:
  assumes "iblocks tr b el H T blk lo t p" and "lo \<le> k" "k < t"
  obtains bl where "heap p (blk k) = Some bl" "block_rep tr implicit_context b el H T k bl" "blk k \<notin> free_blocks p" "blk k < next_block p"
  using assms unfolding iblocks_def by blast

text \<open>Elements up to \<open>S\<close> have been taken from the first block; it goes back to the pool if that was the rest of it.\<close>

lemma release_ok:
  assumes b: "block_bits tr b" and ib: "iblocks tr b el H T blk lo t p" and ix: "iix_rep b blk lo t c z i" and h: "i_headers i = h # hs"
    and lo: "lo = H div 2 ^ b" "lo < t" and S: "H \<le> S" "S \<le> lo * 2 ^ b + 2 ^ b" and rep: "block_rep tr implicit_context b el S T lo bl"
  shows "\<exists>i' p'. release_if (S = lo * 2 ^ b + 2 ^ b) (ih_index h ! ((lo + c) mod 2 ^ z)) (blk lo) (i, cq_put_block (blk lo) bl p) = (i', p') \<and>
    iix_rep b blk (S div 2 ^ b) t c z i' \<and> iblocks tr b el S T blk (S div 2 ^ b) t p' \<and> frame (blk ` {lo..<t}) p p' \<and> same_counters i i'"
proof -
  have x: "inj_on blk {lo..<t}" "pool_ok tr p" using ib by (simp_all add: iblocks_def)
  have own: "blk lo \<notin> free_blocks p" "blk lo < next_block p" using ib lo(2) unfolding iblocks_def by blast+
  have HB: "lo * 2 ^ b \<le> H" unfolding lo(1) by (rule div_times_less_eq_dividend)
  let ?p = "cq_put_block (blk lo) bl p"
  have okp: "pool_ok tr ?p" by (rule put_block_ok [OF x(2) own])
  have other: "\<exists>bl'. heap ?p (blk k) = Some bl' \<and> block_rep tr implicit_context b el S T k bl'" if k: "lo < k" "k < t" for k
  proof -
    have "Suc lo * 2 ^ b \<le> k * 2 ^ b" using k(1) by (intro mult_le_mono1) simp
    then have far: "S \<le> k * 2 ^ b" using S(2) by simp
    have ne: "blk k \<noteq> blk lo" using x(1) k lo(2) by (auto simp: inj_on_eq_iff)
    obtain bl' where "heap p (blk k) = Some bl'" "block_rep tr implicit_context b el H T k bl'"
      by (rule iblocks_at [OF ib less_imp_le [OF k(1)] k(2)])
    then show ?thesis using ne block_rep_shrink [OF _ S(1) disjI2 [OF far]] by auto
  qed
  have fr: "frame (blk ` {lo..<t}) p ?p" using lo(2) by (intro put_block_frame) auto
  show ?thesis
  proof (cases "S = lo * 2 ^ b + 2 ^ b")
    case True
    let ?p' = "add_block_to_free_list (blk lo) ?p" and ?i = "store_value (ih_index h ! ((lo + c) mod 2 ^ z)) None i"
    have raw: "raw_block tr bl" by (rule empty_raw [OF b rep]) (simp add: True)
    have g: "pool_ok tr ?p'" "free_blocks ?p' = insert (blk lo) (free_blocks p)" "heap ?p' = heap ?p" "next_block ?p' = next_block p"
      using give_back_ok [OF okp, of "blk lo" bl] own raw by simp_all
    have Sd: "S div 2 ^ b = Suc lo" unfolding True by simp
    have "iblocks tr b el S T blk (Suc lo) t ?p'"
      unfolding iblocks_def
    proof (intro conjI allI impI)
      show "inj_on blk {Suc lo..<t}" using x(1) by (rule inj_on_subset) auto
      show "pool_ok tr ?p'" by (rule g(1))
    next
      fix k assume "Suc lo \<le> k \<and> k < t"
      then have k: "lo < k" "k < t" "lo \<le> k" by simp_all
      have "blk k \<noteq> blk lo" using x(1) k lo(2) by (auto simp: inj_on_eq_iff)
      moreover have "blk k \<notin> free_blocks p" "blk k < next_block p" by (rule iblocks_at [OF ib k(3,2)]; assumption)+
      ultimately show "blk k \<notin> free_blocks ?p'" "blk k < next_block ?p'"
        "\<exists>bl'. heap ?p' (blk k) = Some bl' \<and> block_rep tr implicit_context b el S T k bl'"
        using g(2-4) other [OF k(1,2)] by simp_all
    qed
    moreover have "frame (blk ` {lo..<t}) p ?p'" using fr g(2-4) lo(2) by (auto simp: frame_def)
    ultimately show ?thesis using True Sd drop_first_ok [OF ix h lo(2)] by (simp add: release_if_def)
  next
    case False
    then have Sd: "S div 2 ^ b = lo" using HB S by (intro div_nat_eqI) (auto simp: mult.commute)
    have "iblocks tr b el S T blk lo t ?p"
      unfolding iblocks_def
    proof (intro conjI allI impI)
      fix k assume "lo \<le> k \<and> k < t"
      then have k: "lo \<le> k" "k < t" by simp_all
      show "blk k \<notin> free_blocks ?p" "blk k < next_block ?p" using iblocks_at [OF ib k] by (metis put_block_simps(2,3))+
      show "\<exists>bl'. heap ?p (blk k) = Some bl' \<and> block_rep tr implicit_context b el S T k bl'"
        using other [of k] rep k by (cases "k = lo") auto
    qed (use x(1) okp in simp_all)
    then show ?thesis using False Sd fr ix by (simp add: release_if_def same_counters_def)
  qed
qed

section \<open>Dequeue\<close>

lemma iwindow_take: "iwindow b H T t \<Longrightarrow> H \<le> S \<Longrightarrow> S \<le> T \<Longrightarrow> iwindow b S T t"
  by (auto simp: iwindow_def)

lemma iwindow_block:
  assumes w: "iwindow b H T t" and b: "block_bits tr b"
  shows "H < T \<Longrightarrow> H div 2 ^ b < t" "(t - 1 - H div 2 ^ b) * 2 ^ b < 2 ^ 64" "H div 2 ^ b \<le> t"
proof -
  let ?k = "H div 2 ^ b"
  have H: "?k * 2 ^ b + H mod 2 ^ b = H" "H mod 2 ^ b < 2 ^ b" by (simp_all add: div_mult_mod_eq)
  have w': "H \<le> T" "T \<le> t * 2 ^ b" "t * 2 ^ b < T + 2 ^ b" "T - H < 2 ^ 63" using w by (simp_all add: iwindow_def)
  show "H < T \<Longrightarrow> ?k < t" using w'(2) by (simp add: div_less_iff_less_mult)
  have "?k * 2 ^ b \<le> t * 2 ^ b" using H w'(1,2) by linarith
  then show "?k \<le> t" by simp
  have "(t - 1 - ?k) * 2 ^ b = t * 2 ^ b - 2 ^ b - ?k * 2 ^ b" by (simp add: diff_mult_distrib)
  also have "\<dots> \<le> T - H + 2 ^ b" using H w'(3) by linarith
  also have "\<dots> < 2 ^ 63 + 2 ^ 33"
  proof (rule add_less_le_mono [OF w'(4)])
    show "(2 :: nat) ^ b \<le> 2 ^ 33" using b unfolding block_bits_def by (intro power_increasing) auto
  qed
  also have "\<dots> < (2 ^ 64 :: nat)" by simp
  finally show "(t - 1 - ?k) * 2 ^ b < 2 ^ 64" .
qed

lemma icounters_take:
  assumes "icounters st H T i" and "same_counters (i\<lparr>i_dequeueOptimisticCount := of_nat S, i_headIndex := of_nat S\<rparr>) i'"
  shows "icounters st S T i'"
  using assms by (simp add: icounters_def same_counters_def)

lemma implicit_dequeue_ok:
  assumes b: "block_bits tr b" and rep: "irep tr st b el H T R (i, p)" and HT: "H < T"
  shows "\<exists>i' p' R'. implicit_dequeue ndebug tr throws (i, p) = Inr (if throws (el H) then Throws else Returns (Some (el H)), i', p') \<and>
    irep tr st b el (Suc H) T R' (i', p') \<and> frame R p p' \<and> R' \<subseteq> R"
proof -
  let ?lo = "H div 2 ^ b"
  obtain blk t c z where x: "icounters st H T i" "iwindow b H T t" "iix_rep b blk ?lo t c z i" "iblocks tr b el H T blk ?lo t p"
    "T mod 2 ^ b \<noteq> 0 \<longrightarrow> i_tailBlock i = Some (blk (t - 1))" "R = blk ` {?lo..<t}" using rep unfolding irep_def by auto
  let ?i = "i\<lparr>i_dequeueOptimisticCount := of_nat (Suc H), i_headIndex := of_nat (Suc H)\<rparr>"
  note k = iwindow_block [OF x(2) b]
  have lt: "?lo < t" by (rule k(1) [OF HT])
  have ix: "iix_rep b blk ?lo t c z ?i" using x(3) by simp
  obtain h hs where l: "i_headers ?i = h # hs" "z < 64"
    "get_block_index_entry_for_index ndebug tr ?i (of_nat H) = Inr (ih_index h ! ((?lo + c) mod 2 ^ z))"
    using lookup_ok [OF b ix order_refl lt k(2), of ndebug] by blast
  have v: "value_of_entry ?i (ih_index h ! ((?lo + c) mod 2 ^ z)) = Inr (blk ?lo)" by (rule value_ok [OF ix l(1,2) order_refl lt])
  obtain bl where bl: "heap p (blk ?lo) = Some bl" "block_rep tr implicit_context b el H T ?lo bl"
    by (rule iblocks_at [OF x(4) order_refl lt])
  have H: "?lo * 2 ^ b + H mod 2 ^ b = H" "H mod 2 ^ b < 2 ^ b" by (simp_all add: div_mult_mod_eq)
  have "(H mod 2 ^ b + 1 = 2 ^ b) = (Suc H = ?lo * 2 ^ b + 2 ^ b)" using H(1) by linarith
  then have em: "(\<not> by_flags tr implicit_context \<and> H mod 2 ^ b + 1 = 2 ^ b) = (Suc H = ?lo * 2 ^ b + 2 ^ b)"
    by (simp add: by_flags_def)
  obtain b1 b2 where tk: "element_at tr (of_nat H) bl = Inr (el H)" "destroy_at tr (of_nat H) bl = Inr b1"
    "set_empty ndebug tr implicit_context (of_nat H) b1 = Inr (Suc H = ?lo * 2 ^ b + 2 ^ b, b2)"
    "block_rep tr implicit_context b el (Suc H) T ?lo b2"
    using take_one_rep [OF b bl(2) HT, of ndebug] unfolding em by blast
  have S: "H \<le> Suc H" "Suc H \<le> ?lo * 2 ^ b + 2 ^ b" using H by linarith+
  obtain i' p' where r: "release_if (Suc H = ?lo * 2 ^ b + 2 ^ b) (ih_index h ! ((?lo + c) mod 2 ^ z)) (blk ?lo) (?i, cq_put_block (blk ?lo) b2 p) = (i', p')"
    "iix_rep b blk (Suc H div 2 ^ b) t c z i'" "iblocks tr b el (Suc H) T blk (Suc H div 2 ^ b) t p'" "frame (blk ` {?lo..<t}) p p'"
    "same_counters ?i i'"
    using release_ok [OF b x(4) ix l(1) refl lt S tk(4)] by blast
  have cn: "i_tailIndex i = of_nat T" "i_headIndex i = of_nat H" "i_dequeueOptimisticCount i = of_nat H" "i_dequeueOvercommit i = 0"
    using x(1) by (simp_all add: icounters_def)
  have circ: "circular_less_than (of_nat H) (of_nat T :: u64)" using circular_near(1) [of H T] x(2) HT by (simp add: iwindow_def)
  have asrt: "cq_assertion ndebug (0 \<le> (of_nat H :: u64)) = Inr ()" by (simp add: cq_assertion_def)
  have sel: "i_tailIndex (i\<lparr>i_dequeueOptimisticCount := w\<rparr>) = i_tailIndex i" "i_headIndex (i\<lparr>i_dequeueOptimisticCount := w\<rparr>) = i_headIndex i" for w
    by simp_all
  have suc: "(of_nat H + 1 :: u64) = of_nat (Suc H)" by (simp add: add.commute)
  have "implicit_dequeue ndebug tr throws (i, p) = Inr (if throws (el H) then Throws else Returns (Some (el H)), i', p')"
    unfolding implicit_dequeue_def Let_def prod.case cn diff_zero circ asrt bind_r_simps sel suc l(3) v cq_block_at_def bl(1) option.case tk(1-3) r(1)
    using circ by simp
  moreover have "irep tr st b el (Suc H) T (blk ` {Suc H div 2 ^ b..<t}) (i', p')"
    by (rule irepI [OF icounters_take [OF x(1) r(5)] iwindow_take [OF x(2)] r(2,3)]) (use HT x(5) r(5) in \<open>auto simp: same_counters_def\<close>)
  moreover have "blk ` {Suc H div 2 ^ b..<t} \<subseteq> R" unfolding x(6) by (intro image_mono) (auto intro: order_trans [OF div_le_mono [of H "Suc H"]])
  ultimately show ?thesis using r(4) unfolding x(6) by blast
qed

lemma implicit_dequeue_empty:
  assumes "irep tr st b el H T R (i, p)" and "H = T"
  shows "implicit_dequeue ndebug tr throws (i, p) = Inr (Returns None, i, p)"
proof -
  have "icounters st H T i" using assms(1) by (auto simp: irep_def)
  then show ?thesis using assms(2) circular_near(1) [of T T] by (simp add: implicit_dequeue_def icounters_def Let_def)
qed

section \<open>Bulk dequeue\<close>

lemma header_same: "i_headers i = h # hs \<Longrightarrow> i_headers (fst (release_if e a d (i, p))) = h # hs"
  by (simp add: release_if_def)

lemma itake_blocks_ok:
  assumes b: "block_bits tr b" and z: "z < 64"
  shows "iwindow b H T t \<Longrightarrow> iix_rep b blk (H div 2 ^ b) t c z i \<Longrightarrow> i_headers i = h # hs \<Longrightarrow>
      iblocks tr b el H T blk (H div 2 ^ b) t p \<Longrightarrow> H \<le> E \<Longrightarrow> H < T \<Longrightarrow> E \<le> T \<Longrightarrow> E - H < fuel \<Longrightarrow>
    \<exists>i' p'. itake_blocks fuel ndebug tr throws (of_nat E) thrown (of_nat ((H div 2 ^ b + c) mod 2 ^ z)) (of_nat H) (i, p) =
      Inr (handed_over throws thrown (map el [H..<E]), thrown \<or> list_ex throws (map el [H..<E]), i', p') \<and>
      iix_rep b blk (E div 2 ^ b) t c z i' \<and> iblocks tr b el E T blk (E div 2 ^ b) t p' \<and> frame (blk ` {H div 2 ^ b..<t}) p p' \<and>
      same_counters i i'"
proof (induction fuel arbitrary: H i p thrown)
  case 0
  then show ?case by simp
next
  case (Suc fuel)
  let ?k = "H div 2 ^ b"
  let ?S = "min E (?k * 2 ^ b + 2 ^ b)"
  have H: "?k * 2 ^ b + H mod 2 ^ b = H" "H mod 2 ^ b < 2 ^ b" by (simp_all add: div_mult_mod_eq)
  have w: "E - H < 2 ^ 63" using Suc.prems(1,7) by (auto simp: iwindow_def)
  have kB: "H < ?k * 2 ^ b + 2 ^ b" using H by linarith
  then have S: "H \<le> ?S" "?S \<le> E" "?S \<le> T" "?S \<le> ?k * 2 ^ b + 2 ^ b" using Suc.prems(5,7) by auto
  have stop: "stop_index tr (of_nat E) (of_nat H) = of_nat ?S" by (rule stop_index_ok [OF b Suc.prems(5) w])
  have lt: "?k < t" by (rule iwindow_block(1) [OF Suc.prems(1) b Suc.prems(6)])
  have hok: "header_ok z i h" using Suc.prems(2,3) by (simp add: iix_rep_def)
  have hdr: "the_header i = Inr h" using Suc.prems(3) by (simp add: the_header_def)
  have cap: "ih_capacity h = 2 ^ z" using hok by (simp add: header_ok_def)
  let ?a = "ih_index h ! ((?k + c) mod 2 ^ z)"
  have v: "value_of_entry i ?a = Inr (blk ?k)" by (rule value_ok [OF Suc.prems(2,3) z order_refl lt])
  obtain bk where bk: "heap p (blk ?k) = Some bk" "block_rep tr implicit_context b el H T ?k bk"
    by (rule iblocks_at [OF Suc.prems(4) order_refl lt])
  then have sl: "slots_rep b el H T ?k bk" and dq: "dequeued_rep tr implicit_context b H ?k bk" by (simp_all add: block_rep_slots)
  have B: "unat (BLOCK_SIZE tr) = 2 ^ b" by (rule block_bitsD(1) [OF b])
  have kH: "?k * 2 ^ b \<le> H" and fu: "?S - H < Suc (2 ^ b)" using H S(4) by linarith+
  obtain b1 where b1: "take_run (Suc (2 ^ b)) tr throws thrown (of_nat H) (of_nat ?S) bk =
      Inr (handed_over throws thrown (map el [H..<?S]), thrown \<or> list_ex throws (map el [H..<?S]), b1)"
    "slots_rep b el ?S T ?k b1" "emptyFlags b1 = emptyFlags bk" "elementsCompletelyDequeued b1 = elementsCompletelyDequeued bk"
    using take_run_ok [OF b sl kH S(1,4,3) fu, of throws thrown] by blast
  have dq1: "dequeued_rep tr implicit_context b H ?k b1" using dq dequeued_rep_cong [OF b1(3,4)] by blast
  have HS: "H + (?S - H) = ?S" "(of_nat ?S - of_nat H :: u64) = of_nat (?S - H)" using S(1) by (simp_all add: of_nat_diff)
  have "H mod 2 ^ b + (?S - H) = 2 ^ b \<longleftrightarrow> ?S = ?k * 2 ^ b + 2 ^ b" using H HS(1) by linarith
  then have em: "(\<not> by_flags tr implicit_context \<and> H mod 2 ^ b + (?S - H) = 2 ^ b) = (?S = ?k * 2 ^ b + 2 ^ b)"
    by (simp add: by_flags_def)
  have "H mod 2 ^ b + (?S - H) \<le> 2 ^ b" using H S(1,4) by linarith
  from set_many_empty_rep [OF b dq1 this, of ndebug] obtain b2 where b2:
    "set_many_empty ndebug tr implicit_context (of_nat H) (of_nat (?S - H)) b1 = Inr (?S = ?k * 2 ^ b + 2 ^ b, b2)"
    "dequeued_rep tr implicit_context b (H + (?S - H)) ?k b2" "elements b2 = elements b1" unfolding em by blast
  have rep2: "block_rep tr implicit_context b el ?S T ?k b2"
    using b1(2) b2(2) slots_rep_cong [OF b2(3)] HS(1) by (simp add: block_rep_slots)
  obtain i1 p1 where r: "release_if (?S = ?k * 2 ^ b + 2 ^ b) ?a (blk ?k) (i, cq_put_block (blk ?k) b2 p) = (i1, p1)"
    "iix_rep b blk (?S div 2 ^ b) t c z i1" "iblocks tr b el ?S T blk (?S div 2 ^ b) t p1" "frame (blk ` {?k..<t}) p p1" "same_counters i i1"
    using release_ok [OF b Suc.prems(4,2,3) refl lt S(1,4) rep2] by blast
  have h1: "i_headers i1 = h # hs"
    using header_same [OF Suc.prems(3), of "?S = ?k * 2 ^ b + 2 ^ b" ?a "blk ?k" "cq_put_block (blk ?k) b2 p"] r(1) by simp
  have step: "itake_blocks (Suc fuel) ndebug tr throws (of_nat E) thrown (of_nat ((?k + c) mod 2 ^ z)) (of_nat H) (i, p) =
      (if of_nat ?S = (of_nat E :: u64)
       then Inr (handed_over throws thrown (map el [H..<?S]), thrown \<or> list_ex throws (map el [H..<?S]), i1, p1)
       else bind_r (itake_blocks fuel ndebug tr throws (of_nat E) (thrown \<or> list_ex throws (map el [H..<?S]))
           (of_nat ((Suc ?k + c) mod 2 ^ z)) (of_nat ?S) (i1, p1))
         (\<lambda>(ys, thr, s). Inr (handed_over throws thrown (map el [H..<?S]) @ ys, thr, s)))"
    unfolding itake_blocks.simps Let_def stop hdr slot_lookup [OF hok z] v bind_r_simps B cq_block_at_def bk(1) option.case b1(1) prod.case
      HS(2) b2(1) r(1) cap mask_next [OF z] ..
  have "E - ?S \<le> E - H" using S(1) by (rule diff_le_mono2)
  then have "E - ?S < 2 ^ 63" using w by (rule le_less_trans)
  then have "E - ?S < 2 ^ 64" by (rule less_trans) simp
  then have eq: "of_nat ?S = (of_nat E :: u64) \<longleftrightarrow> ?S = E" using S(2) by (intro of_nat_near_eq)
  show ?case
  proof (cases "?S = E")
    case True
    then show ?thesis using step eq r(2-5) by auto
  next
    case False
    then have S': "?S = Suc ?k * 2 ^ b" "?S < E" using S by auto
    then have kS: "?S div 2 ^ b = Suc ?k" by simp
    have "H < ?S" using S'(1) kB by simp
    then have fu': "E - ?S < fuel" using Suc.prems(8) S(2) by linarith
    have w1: "iwindow b ?S T t" by (rule iwindow_take [OF Suc.prems(1) S(1,3)])
    from Suc.IH [OF w1 r(2) h1 r(3) less_imp_le [OF S'(2)] less_le_trans [OF S'(2) Suc.prems(7)] Suc.prems(7) fu', of "thrown \<or> list_ex throws (map el [H..<?S])"]
    obtain i' p' where p':
      "itake_blocks fuel ndebug tr throws (of_nat E) (thrown \<or> list_ex throws (map el [H..<?S]))
          (of_nat ((Suc ?k + c) mod 2 ^ z)) (of_nat ?S) (i1, p1) =
        Inr (handed_over throws (thrown \<or> list_ex throws (map el [H..<?S])) (map el [?S..<E]),
          (thrown \<or> list_ex throws (map el [H..<?S])) \<or> list_ex throws (map el [?S..<E]), i', p')"
      "iix_rep b blk (E div 2 ^ b) t c z i'" "iblocks tr b el E T blk (E div 2 ^ b) t p'" "frame (blk ` {Suc ?k..<t}) p1 p'"
      "same_counters i1 i'"
      unfolding kS by blast
    have "map el [H..<E] = map el [H..<?S] @ map el [?S..<E]"
      using upt_add_eq_append [of H ?S "E - ?S"] S by (simp flip: map_append)
    then have "itake_blocks (Suc fuel) ndebug tr throws (of_nat E) thrown (of_nat ((?k + c) mod 2 ^ z)) (of_nat H) (i, p) =
        Inr (handed_over throws thrown (map el [H..<E]), thrown \<or> list_ex throws (map el [H..<E]), i', p')"
      unfolding step p'(1) using eq False handed_over_append [of throws thrown "map el [H..<?S]" "map el [?S..<E]"] by simp
    moreover have "frame (blk ` {?k..<t}) p p'" by (rule frame_trans [OF r(4) p'(4)]) auto
    ultimately show ?thesis using p'(2,3) same_counters_trans [OF r(5) p'(5)] by blast
  qed
qed

lemma implicit_dequeue_bulk_ok:
  assumes b: "block_bits tr b" and rep: "irep tr st b el H T R (i, p)" and n: "n = min (unat mx) (T - H)"
  shows "\<exists>i' p' R'. implicit_dequeue_bulk ndebug tr throws mx (i, p) =
      Inr (handed_over throws False (map el [H..<H + n]),
        if list_ex throws (map el [H..<H + n]) then Throws else Returns (of_nat n), i', p') \<and>
    irep tr st b el (H + n) T R' (i', p') \<and> frame R p p' \<and> R' \<subseteq> R"
proof -
  let ?lo = "H div 2 ^ b"
  obtain blk t c z where x: "icounters st H T i" "iwindow b H T t" "iix_rep b blk ?lo t c z i" "iblocks tr b el H T blk ?lo t p"
    "T mod 2 ^ b \<noteq> 0 \<longrightarrow> i_tailBlock i = Some (blk (t - 1))" "R = blk ` {?lo..<t}" using rep unfolding irep_def by auto
  have w: "H \<le> T" "T - H < 2 ^ 63" using x(2) by (simp_all add: iwindow_def)
  have d: "(of_nat T - of_nat H :: u64) = of_nat (T - H)" using w(1) by (simp add: of_nat_diff)
  have circ: "circular_less_than 0 (of_nat (T - H) :: u64) \<longleftrightarrow> H < T"
    using circular_zero [of "of_nat T" "of_nat H"] circular_near(1) [OF w(1,2)] d by simp
  show ?thesis
  proof (cases "H < T")
    case False
    then have "implicit_dequeue_bulk ndebug tr throws mx (i, p) = Inr ([], Returns 0, i, p)" "n = 0"
      using x(1) circ d n by (simp_all add: implicit_dequeue_bulk_def Let_def icounters_def)
    then show ?thesis using rep by (auto simp: handed_over_def)
  next
    case True
    note k = iwindow_block [OF x(2) b]
    have lt: "?lo < t" by (rule k(1) [OF True])
    have m: "(if of_nat (T - H) < mx then of_nat (T - H) else mx) = of_nat n" "n \<le> T - H" "unat (of_nat n :: u64) = n"
      "(if of_nat n < (of_nat (T - H) :: u64) then of_nat n else of_nat (T - H)) = (of_nat n :: u64)"
      using min_word [OF w(2) n] by simp_all
    have le': "H \<le> H + n" "H + n \<le> T" "H + n - H < n + 1" using m(2) w(1) by simp_all
    let ?i = "i\<lparr>i_dequeueOptimisticCount := of_nat (H + n), i_headIndex := of_nat (H + n)\<rparr>"
    have ix: "iix_rep b blk ?lo t c z ?i" using x(3) by simp
    obtain h hs where l: "i_headers ?i = h # hs" "z < 64"
      "get_block_index_index_for_index ndebug tr ?i (of_nat H) = Inr (of_nat ((?lo + c) mod 2 ^ z))"
      using lookup_ok [OF b ix order_refl lt k(2), of ndebug] by blast
    obtain i' p' where p': "itake_blocks (n + 1) ndebug tr throws (of_nat (H + n)) False (of_nat ((?lo + c) mod 2 ^ z)) (of_nat H) (?i, p) =
        Inr (handed_over throws False (map el [H..<H + n]), False \<or> list_ex throws (map el [H..<H + n]), i', p')"
      "iix_rep b blk ((H + n) div 2 ^ b) t c z i'" "iblocks tr b el (H + n) T blk ((H + n) div 2 ^ b) t p'" "frame (blk ` {?lo..<t}) p p'"
      "same_counters ?i i'"
      using itake_blocks_ok [OF b l(2) x(2) ix l(1) x(4) le'(1) True le'(2,3), of ndebug throws False] by blast
    have cn: "i_tailIndex i = of_nat T" "i_headIndex i = of_nat H" "i_dequeueOptimisticCount i = of_nat H" "i_dequeueOvercommit i = 0"
      using x(1) by (simp_all add: icounters_def)
    have asrt: "cq_assertion ndebug (0 \<le> (of_nat H :: u64)) = Inr ()" by (simp add: cq_assertion_def)
    have sel: "i_tailIndex (i\<lparr>i_dequeueOptimisticCount := v\<rparr>) = i_tailIndex i"
      "i_headIndex (i\<lparr>i_dequeueOptimisticCount := v\<rparr>) = i_headIndex i" for v by simp_all
    have "implicit_dequeue_bulk ndebug tr throws mx (i, p) =
        Inr (handed_over throws False (map el [H..<H + n]),
          if list_ex throws (map el [H..<H + n]) then Throws else Returns (of_nat n), i', p')"
      unfolding implicit_dequeue_bulk_def Let_def
      by (simp only: prod.case cn diff_zero d circ True simp_thms if_False if_True m(1,3,4) asrt bind_r_simps sel less_irrefl
          of_nat_add [symmetric] l(3) p'(1))
    moreover have "irep tr st b el (H + n) T (blk ` {(H + n) div 2 ^ b..<t}) (i', p')"
      by (rule irepI [OF icounters_take [OF x(1) p'(5)] iwindow_take [OF x(2) le'(1,2)] p'(2,3)])
        (use x(5) p'(5) in \<open>auto simp: same_counters_def\<close>)
    moreover have "blk ` {(H + n) div 2 ^ b..<t} \<subseteq> R"
      unfolding x(6) by (intro image_mono) (auto intro: order_trans [OF div_le_mono [OF le'(1)]])
    ultimately show ?thesis using p'(4) unfolding x(6) by blast
  qed
qed

section \<open>Enqueue\<close>

lemma iwindow_inside:
  assumes w: "iwindow b H T t" and T: "T mod 2 ^ b \<noteq> 0" and few: "Suc T - H < 2 ^ 63"
  shows "T div 2 ^ b = t - 1" "T div 2 ^ b < t" "H div 2 ^ b \<le> T div 2 ^ b" "iwindow b H (Suc T) t"
proof -
  let ?k = "T div 2 ^ b"
  have k: "?k * 2 ^ b + T mod 2 ^ b = T" "T mod 2 ^ b < 2 ^ b" by (simp_all add: div_mult_mod_eq)
  have w': "H \<le> T" "T \<le> t * 2 ^ b" "t * 2 ^ b < T + 2 ^ b" using w by (simp_all add: iwindow_def)
  have "T \<noteq> t * 2 ^ b" using T by auto
  then have lt: "T < t * 2 ^ b" using w'(2) by simp
  then show kt: "?k < t" by (simp add: div_less_iff_less_mult)
  have "t * 2 ^ b < 2 ^ b + (2 ^ b + ?k * 2 ^ b)" using w'(3) k by linarith
  then have "t * 2 ^ b < Suc (Suc ?k) * 2 ^ b" by simp
  then have "t < Suc (Suc ?k)" by (rule mult_less_cancel2 [THEN iffD1, THEN conjunct2])
  then show "?k = t - 1" using kt by simp
  show "H div 2 ^ b \<le> ?k" using w'(1) by (rule div_le_mono)
  show "iwindow b H (Suc T) t" using w' lt few by (simp add: iwindow_def)
qed

lemma iwindow_boundary:
  assumes w: "iwindow b H T t" and T: "T mod 2 ^ b = 0" and few: "Suc T - H < 2 ^ 63" and b: "1 \<le> b"
  shows "T = t * 2 ^ b" "iwindow b H (Suc T) (Suc t)"
proof -
  have w': "H \<le> T" "T \<le> t * 2 ^ b" "t * 2 ^ b < T + 2 ^ b" using w by (simp_all add: iwindow_def)
  obtain q where q: "T = q * 2 ^ b" using T by (metis div_mult_mod_eq add.right_neutral)
  have "q \<le> t" "t * 2 ^ b < Suc q * 2 ^ b" using w'(2,3) q by simp_all
  then have "t = q" using mult_less_cancel2 [of t "2 ^ b" "Suc q"] by simp
  then show t: "T = t * 2 ^ b" using q by simp
  have "(2 :: nat) ^ 1 \<le> 2 ^ b" using b by (intro power_increasing) auto
  then show "iwindow b H (Suc T) (Suc t)" using w' few t by (simp add: iwindow_def)
qed

lemma iblocks_frame:
  assumes ib: "iblocks tr b el H T blk lo t p" and fr: "frame Q p p'" "Q \<inter> blk ` {lo..<t} = {}" and ok: "pool_ok tr p'"
  shows "iblocks tr b el H T blk lo t p'"
  unfolding iblocks_def
proof (intro conjI allI impI)
  fix k assume k: "lo \<le> k \<and> k < t"
  then obtain bl where bl: "heap p (blk k) = Some bl" "block_rep tr implicit_context b el H T k bl" "blk k \<notin> free_blocks p" "blk k < next_block p"
    using iblocks_at [OF ib] by blast
  moreover have "blk k \<notin> Q" using fr(2) k by auto
  ultimately have "heap p' (blk k) = heap p (blk k)" "blk k \<notin> free_blocks p'" "next_block p \<le> next_block p'" using fr(1) by (simp_all add: frame_def)
  then show "blk k \<notin> free_blocks p'" "blk k < next_block p'" "\<exists>bl. heap p' (blk k) = Some bl \<and> block_rep tr implicit_context b el H T k bl"
    using bl by auto
qed (use ib ok in \<open>simp_all add: iblocks_def\<close>)

lemma iblocks_construct:
  assumes b: "block_bits tr b" and ib: "iblocks tr b el H T blk lo t p" and k: "lo \<le> T div 2 ^ b" "T div 2 ^ b < t" and HT: "H \<le> T"
  shows "\<exists>p'. construct_in tr (Some (blk (T div 2 ^ b))) (of_nat T) x p = Inr p' \<and>
    iblocks tr b (el(T := x)) H (Suc T) blk lo t p' \<and> frame (blk ` {lo..<t}) p p'"
proof -
  let ?k = "T div 2 ^ b"
  obtain bl where bl: "heap p (blk ?k) = Some bl" "block_rep tr implicit_context b el H T ?k bl" "blk ?k \<notin> free_blocks p" "blk ?k < next_block p"
    by (rule iblocks_at [OF ib k])
  obtain bl' where bl': "construct_at tr (of_nat T) x bl = Inr bl'" "block_rep tr implicit_context b (el(T := x)) H (Suc T) ?k bl'"
    using construct_rep [OF b bl(2) HT, of x] by blast
  let ?p = "cq_put_block (blk ?k) bl' p"
  have inj: "inj_on blk {lo..<t}" and ok: "pool_ok tr p" using ib by (simp_all add: iblocks_def)
  have "construct_in tr (Some (blk ?k)) (of_nat T) x p = Inr ?p"
    using bl(1) bl'(1) by (simp add: construct_in_def on_block_def cq_block_at_def)
  moreover have "iblocks tr b (el(T := x)) H (Suc T) blk lo t ?p"
    unfolding iblocks_def
  proof (intro conjI allI impI)
    fix j assume "lo \<le> j \<and> j < t"
    then have j: "lo \<le> j" "j < t" by simp_all
    obtain bj where bj: "heap p (blk j) = Some bj" "block_rep tr implicit_context b el H T j bj" "blk j \<notin> free_blocks p" "blk j < next_block p"
      by (rule iblocks_at [OF ib j])
    show "blk j \<notin> free_blocks ?p" "blk j < next_block ?p" using bj(3,4) by simp_all
    show "\<exists>bl. heap ?p (blk j) = Some bl \<and> block_rep tr implicit_context b (el(T := x)) H (Suc T) j bl"
    proof (cases "j = ?k")
      case False
      then have "blk j \<noteq> blk ?k" using inj j k by (auto simp: inj_on_eq_iff)
      then show ?thesis using bj(1) block_rep_grow [OF bj(2) False] by auto
    qed (use bl'(2) in simp)
  qed (use inj put_block_ok [OF ok bl(3,4)] in simp_all)
  moreover have "frame (blk ` {lo..<t}) p ?p" using k by (intro put_block_frame) auto
  ultimately show ?thesis by blast
qed

lemma raw_reset: "raw_block tr blk \<Longrightarrow> raw_block tr (reset_empty tr implicit_context blk)"
  by (simp add: raw_block_def reset_empty_def by_flags_def)

text \<open>A new block joins; or is returned at once.\<close>

lemma iblocks_add:
  assumes b: "block_bits tr b" and ib: "iblocks tr b el H T blk lo t p" and T: "T = t * 2 ^ b" and HT: "H \<le> T"
    and req: "requisition_block tr ok m p = (Some n, p1)"
  shows "\<exists>p2. on_block n (\<lambda>blk. Inr ((), reset_empty tr implicit_context blk)) p1 = Inr ((), p2) \<and>
    iblocks tr b el H T (blk(t := n)) lo (Suc t) p2 \<and> frame {} p p2 \<and> n \<in> free_blocks p \<union> {next_block p..} \<and>
    pool_ok tr (add_block_to_free_list n p2) \<and> frame {} p (add_block_to_free_list n p2)"
proof -
  have okp: "pool_ok tr p" and inj: "inj_on blk {lo..<t}" using ib by (simp_all add: iblocks_def)
  have q: "pool_ok tr p1" "next_block p \<le> next_block p1" "n \<in> free_blocks p \<or> n = next_block p" "free_blocks p1 = free_blocks p - {n}"
    "n < next_block p1" "\<exists>bl. heap p1 n = Some bl \<and> raw_block tr bl" "\<forall>a. a \<noteq> n \<longrightarrow> heap p1 a = heap p a"
    using requisition_ok [OF okp req] by auto
  obtain bl where bl: "heap p1 n = Some bl" "raw_block tr bl" using q(6) by blast
  let ?bl = "reset_empty tr implicit_context bl" and ?p2 = "cq_put_block n (reset_empty tr implicit_context bl) p1"
  have nf: "n \<notin> free_blocks p1" using q(4) by simp
  have ok2: "pool_ok tr ?p2" by (rule put_block_ok [OF q(1) nf q(5)])
  have fr: "frame {} p ?p2" "frame {} p (add_block_to_free_list n ?p2)"
    using q give_back_ok(2-4) [OF ok2, of n ?bl] raw_reset [OF bl(2)] nf requisition_size [OF req] by (auto simp: frame_def)
  have new: "block_rep tr implicit_context b el H T t ?bl"
    unfolding T by (rule reset_rep [OF b]) (use raw_blockD [OF b bl(2)] HT T in auto)
  have ne: "blk k \<noteq> n" if "lo \<le> k" "k < t" for k
    using iblocks_at [OF ib that] q(3) by (metis less_irrefl)
  have "iblocks tr b el H T blk lo t ?p2" by (rule iblocks_frame [OF ib fr(1) Int_empty_left ok2])
  then have "iblocks tr b el H T (blk(t := n)) lo (Suc t) ?p2"
    using inj_on_append [OF inj ne] new nf q(5) unfolding iblocks_def by (auto simp: less_Suc_eq)
  moreover have "on_block n (\<lambda>blk. Inr ((), reset_empty tr implicit_context blk)) p1 = Inr ((), ?p2)"
    using bl(1) by (simp add: on_block_def cq_block_at_def)
  moreover have "pool_ok tr (add_block_to_free_list n ?p2)" by (rule give_back_ok(1) [OF ok2]) (use nf raw_reset [OF bl(2)] in auto)
  ultimately show ?thesis using fr q(3) by auto
qed

lemma ileeway_near:
  assumes b: "block_bits tr b" and HT: "H \<le> T" "T - H < 2 ^ 63" and T: "T = t * 2 ^ b" and room: "\<not> no_leeway tr (of_nat H) (of_nat T)"
  shows "(t - H div 2 ^ b) * 2 ^ b < 2 ^ 63"
proof -
  have B: "(of_nat T + BLOCK_SIZE tr :: u64) = of_nat (T + 2 ^ b)" using block_bitsD(2) [OF b] by simp
  have "(2 :: nat) ^ b \<le> 2 ^ 32" using b unfolding block_bits_def by (intro power_increasing) auto
  then have "T + 2 ^ b - H < 2 ^ 64" using HT by simp
  then have "T + 2 ^ b - H < 2 ^ 63" using room circular_iff [of H "T + 2 ^ b"] HT(1) unfolding no_leeway_def B by auto
  moreover have "(t - H div 2 ^ b) * 2 ^ b = T - H div 2 ^ b * 2 ^ b" unfolding T by (rule diff_mult_distrib)
  moreover have "H div 2 ^ b * 2 ^ b + H mod 2 ^ b = H" "H mod 2 ^ b < 2 ^ b" by (simp_all add: div_mult_mod_eq)
  ultimately show ?thesis using HT(1) by linarith
qed

lemma claimed_z: "claimed b blk lo t c z a i \<Longrightarrow> 1 \<le> b \<Longrightarrow> z < 64"
  by (auto simp: claimed_def)

text \<open>How an \<^verbatim>\<open>enqueue\<close> ends: the element is in; or it was refused, or its constructor threw, and the queue is as before.\<close>

definition enqueue_ends ::
    "traits \<Rightarrow> (nat \<Rightarrow> bool) \<Rightarrow> bool \<Rightarrow> bool \<Rightarrow> cq_AllocationMode \<Rightarrow> nat \<Rightarrow> (nat \<Rightarrow> 'a) \<Rightarrow> nat \<Rightarrow> nat \<Rightarrow> nat set \<Rightarrow> 'a \<Rightarrow> 'a pool \<Rightarrow>
     bool ends \<Rightarrow> 'a istate \<Rightarrow> bool" where
  "enqueue_ends tr ok st thrown m b el H T R x p r s \<longleftrightarrow>
     (case r of
        Throws \<Rightarrow> thrown \<and> irep tr st b el H T R s \<and> frame R p (snd s)
      | Returns True \<Rightarrow> \<not> thrown \<and> (\<exists>R'. irep tr st b (el(T := x)) H (Suc T) R' s \<and> moves R R' p (snd s))
      | Returns False \<Rightarrow> irep tr st b el H T R s \<and> frame R p (snd s) \<and> T mod 2 ^ b = 0 \<and>
          (no_leeway tr (of_nat H) (of_nat T) \<or> m = cq_AllocationMode.CannotAlloc \<or> (\<exists>j. \<not> ok j) \<or> st))"

lemma enqueue_inside:
  assumes b: "block_bits tr b" and rep: "irep tr st b el H T R (i, p)" and T: "T mod 2 ^ b \<noteq> 0" and few: "Suc T - H < 2 ^ 63"
  shows "\<exists>r s. implicit_enqueue ndebug tr ok nothrow throws m x (i, p) = Inr (r, s) \<and>
    enqueue_ends tr ok st (\<not> nothrow \<and> throws x) m b el H T R x p r s"
proof -
  let ?lo = "H div 2 ^ b"
  obtain blk t c z where w: "icounters st H T i" "iwindow b H T t" "iix_rep b blk ?lo t c z i" "iblocks tr b el H T blk ?lo t p"
    "T mod 2 ^ b \<noteq> 0 \<longrightarrow> i_tailBlock i = Some (blk (t - 1))" "R = blk ` {?lo..<t}" using rep unfolding irep_def by auto
  note k = iwindow_inside [OF w(2) T few]
  have HT: "H \<le> T" using w(2) by (simp add: iwindow_def)
  have ti: "i_tailIndex i = of_nat T" using w(1) by (simp add: icounters_def)
  have nb: "\<not> of_nat T AND (BLOCK_SIZE tr - 1) = 0" using boundary_of_nat [OF b, of T] T by simp
  have tb: "i_tailBlock i = Some (blk (T div 2 ^ b))" using w(5) T k(1) by simp
  have step: "implicit_enqueue ndebug tr ok nothrow throws m x (i, p) =
      (if \<not> nothrow \<and> throws x then Inr (Throws, (i, p))
       else bind_r (construct_in tr (Some (blk (T div 2 ^ b))) (of_nat T) x p) (\<lambda>p.
         Inr (Returns True, (i\<lparr>i_tailIndex := 1 + of_nat T\<rparr>, p))))"
    unfolding implicit_enqueue_def Let_def prod.case ti tb by (rule if_not_P [OF nb])
  show ?thesis
  proof (cases "\<not> nothrow \<and> throws x")
    case True
    then show ?thesis using step rep by (intro exI [of _ Throws] exI [of _ "(i, p)"]) (simp add: enqueue_ends_def)
  next
    case False
    obtain p' where p': "construct_in tr (Some (blk (T div 2 ^ b))) (of_nat T) x p = Inr p'"
      "iblocks tr b (el(T := x)) H (Suc T) blk ?lo t p'" "frame (blk ` {?lo..<t}) p p'"
      using iblocks_construct [OF b w(4) k(3,2) HT, of x] by blast
    let ?i = "i\<lparr>i_tailIndex := 1 + of_nat T\<rparr>"
    have "irep tr st b (el(T := x)) H (Suc T) R (?i, p')"
      unfolding w(6) by (rule irepI [OF _ k(4) _ p'(2)]) (use w(1,3) tb k(1) in \<open>simp_all add: icounters_def\<close>)
    then show ?thesis using step False p'(1) frame_moves [OF p'(3), of R] w(6)
      by (intro exI [of _ "Returns True"] exI [of _ "(?i, p')"]) (auto simp: enqueue_ends_def)
  qed
qed

lemma irep_keep:
  assumes "icounters st H T i" "same_counters i i'" "iwindow b H T t" "iix_rep b blk (H div 2 ^ b) t c z i'"
    "iblocks tr b el H T blk (H div 2 ^ b) t p" "frame {} p p'" "pool_ok tr p'" "T mod 2 ^ b \<noteq> 0 \<longrightarrow> i_tailBlock i = Some (blk (t - 1))"
  shows "irep tr st b el H T (blk ` {H div 2 ^ b..<t}) (i', p')"
  by (rule irepI [OF icounters_same [OF assms(1,2)] assms(3,4) iblocks_frame [OF assms(5,6) Int_empty_left assms(7)]])
    (use assms(2,8) in \<open>simp add: same_counters_def\<close>)

lemma frame_mono: "frame {} p p' \<Longrightarrow> frame R p p'"
  by (simp add: frame_def)

lemma enqueue_boundary:
  assumes b: "block_bits tr b" and rep: "irep tr st b el H T R (i, p)" and T: "T mod 2 ^ b = 0" and few: "Suc T - H < 2 ^ 63"
  shows "\<exists>r s. implicit_enqueue ndebug tr ok nothrow throws m x (i, p) = Inr (r, s) \<and>
    enqueue_ends tr ok st (\<not> nothrow \<and> throws x) m b el H T R x p r s"
proof -
  let ?lo = "H div 2 ^ b"
  obtain blk t c z where w: "icounters st H T i" "iwindow b H T t" "iix_rep b blk ?lo t c z i" "iblocks tr b el H T blk ?lo t p"
    "T mod 2 ^ b \<noteq> 0 \<longrightarrow> i_tailBlock i = Some (blk (t - 1))" "R = blk ` {?lo..<t}" using rep unfolding irep_def by auto
  have b1: "1 \<le> b" using b by (simp add: block_bits_def)
  note k = iwindow_boundary [OF w(2) T few b1]
  have HT: "H \<le> T" "T - H < 2 ^ 63" using w(2) by (simp_all add: iwindow_def)
  have okp: "pool_ok tr p" using w(4) by (simp add: iblocks_def)
  have lo: "?lo \<le> t" by (rule iwindow_block(3) [OF w(2) b])
  have cn: "i_tailIndex i = of_nat T" "i_headIndex i = of_nat H" using w(1) by (simp_all add: icounters_def)
  have at: "of_nat T AND (BLOCK_SIZE tr - 1) = 0" using boundary_of_nat [OF b, of T] T by simp
  have asrt: "cq_assertion ndebug (\<not> circular_less_than (of_nat T) (of_nat H :: u64)) = Inr ()"
    using circular_near(2) [OF HT] by (simp add: cq_assertion_def)
  let ?thrown = "\<not> nothrow \<and> throws x"
  have step: "implicit_enqueue ndebug tr ok nothrow throws m x (i, p) =
      (if no_leeway tr (of_nat H) (of_nat T) then Inr (Returns False, (i, p))
        else bind_r (insert_block_index_entry ndebug ok m (of_nat T) (i, p)) (\<lambda>(idxEntry, i, p).
          (case idxEntry of
             None \<Rightarrow> Inr (Returns False, (i, p))
           | Some a \<Rightarrow>
             (case requisition_block tr ok m p of
                (None, p) \<Rightarrow> bind_r (rewind_entry a i) (\<lambda>i. Inr (Returns False, (i, p)))
              | (Some newBlock, p) \<Rightarrow>
                bind_r (on_block newBlock (\<lambda>blk. Inr ((), reset_empty tr implicit_context blk)) p) (\<lambda>(_, p).
                  if ?thrown
                  then bind_r (rewind_entry a i) (\<lambda>i. Inr (Throws, (i, add_block_to_free_list newBlock p)))
                  else bind_r (construct_in tr (Some newBlock) (of_nat T) x p) (\<lambda>p.
                    Inr (Returns True, ((store_value a (Some newBlock) i)\<lparr>i_tailBlock := Some newBlock,
                      i_tailIndex := 1 + of_nat T\<rparr>, p))))))))"
    unfolding implicit_enqueue_def Let_def prod.case cn asrt bind_r_simps by (rule if_P [OF at])
  show ?thesis
  proof (cases "no_leeway tr (of_nat H) (of_nat T)")
    case True
    then show ?thesis using step rep T by (intro exI [of _ "Returns False"] exI [of _ "(i, p)"]) (simp add: enqueue_ends_def)
  next
    case room: False
    obtain r i1 m1 where ins: "insert_block_index_entry ndebug ok m (of_nat T) (i, p) = Inr (r, i1, p\<lparr>mallocs := m1\<rparr>)" "same_counters i i1"
      and rc: "case r of None \<Rightarrow> iix_rep b blk ?lo t c z i1 \<and> (m = cq_AllocationMode.CannotAlloc \<or> (\<exists>j. \<not> ok j) \<or> i_headers i = [])
        | Some a \<Rightarrow> \<exists>c' z'. claimed b blk ?lo t c' z' a i1"
      using insert_entry_ok [OF b w(3) lo ileeway_near [OF b HT k(1) room], of ndebug ok m p] unfolding k(1) by blast
    let ?p1 = "p\<lparr>mallocs := m1\<rparr>"
    have f1: "frame {} p ?p1" by simp
    have ib1: "iblocks tr b el H T blk ?lo t ?p1" by (rule iblocks_frame [OF w(4) f1 Int_empty_left]) (simp add: okp)
    show ?thesis
    proof (cases r)
      case None
      have "iix_rep b blk ?lo t c z i1" using rc None by simp
      then have "irep tr st b el H T R (i1, ?p1)" unfolding w(6)
        by (rule irep_keep [OF w(1) ins(2) w(2) _ w(4) f1]) (use okp w(5) in simp_all)
      moreover have "m = cq_AllocationMode.CannotAlloc \<or> (\<exists>j. \<not> ok j) \<or> st" using rc None w(1) by (auto simp: icounters_def)
      ultimately show ?thesis using step room ins(1) None T
        by (intro exI [of _ "Returns False"] exI [of _ "(i1, ?p1)"]) (simp add: enqueue_ends_def)
    next
      case (Some a)
      then obtain c' z' where cl: "claimed b blk ?lo t c' z' a i1" using rc by auto
      obtain i2 where rw: "rewind_entry a i1 = Inr i2" "iix_rep b blk ?lo t c' z' i2" "same_counters i1 i2"
        using rewind_ok [OF cl claimed_z [OF cl b1]] by blast
      note sc2 = same_counters_trans [OF ins(2) rw(3)]
      obtain q p2 where req: "requisition_block tr ok m ?p1 = (q, p2)" by fastforce
      show ?thesis
      proof (cases q)
        case None
        have "pool_ok tr p2" using requisition_ok [OF _ req] okp by simp
        moreover have f2: "frame {} p p2" using requisition_frame [OF _ req, of "{}"] okp frame_trans [OF f1, of "{}" p2] by simp
        ultimately have "irep tr st b el H T R (i2, p2)" unfolding w(6)
          by (intro irep_keep [OF w(1) sc2 w(2) rw(2) w(4)]) (use w(5) in simp_all)
        moreover have "m = cq_AllocationMode.CannotAlloc \<or> (\<exists>j. \<not> ok j)" using requisition_fails req None by blast
        ultimately show ?thesis using step room ins(1) Some req None rw(1) T frame_mono [OF f2]
          by (intro exI [of _ "Returns False"] exI [of _ "(i2, p2)"]) (auto simp: enqueue_ends_def)
      next
        case (Some n)
        obtain p3 where p3: "on_block n (\<lambda>blk. Inr ((), reset_empty tr implicit_context blk)) p2 = Inr ((), p3)"
          "iblocks tr b el H T (blk(t := n)) ?lo (Suc t) p3" "frame {} ?p1 p3" "n \<in> free_blocks ?p1 \<union> {next_block ?p1..}"
          "pool_ok tr (add_block_to_free_list n p3)" "frame {} ?p1 (add_block_to_free_list n p3)"
          using iblocks_add [OF b ib1 k(1) HT(1)] req Some by metis
        show ?thesis
        proof (cases ?thrown)
          case True
          have f: "frame {} p (add_block_to_free_list n p3)" using frame_trans [OF f1 p3(6)] by simp
          then have "irep tr st b el H T R (i2, add_block_to_free_list n p3)" unfolding w(6)
            by (intro irep_keep [OF w(1) sc2 w(2) rw(2) w(4) _ p3(5)]) (use w(5) in simp_all)
          then show ?thesis using step room ins(1) \<open>r = Some a\<close> req Some p3(1) True rw(1) frame_mono [OF f]
            by (intro exI [of _ Throws] exI [of _ "(i2, add_block_to_free_list n p3)"]) (auto simp: enqueue_ends_def)
        next
          case False
          have tk: "T div 2 ^ b = t" using k(1) by simp
          have nt: "(blk(t := n)) (T div 2 ^ b) = n" using tk by simp
          obtain p4 where p4: "construct_in tr (Some n) (of_nat T) x p3 = Inr p4"
            "iblocks tr b (el(T := x)) H (Suc T) (blk(t := n)) ?lo (Suc t) p4" "frame ((blk(t := n)) ` {?lo..<Suc t}) p3 p4"
            using iblocks_construct [OF b p3(2) _ _ HT(1), of x] lo unfolding nt tk by auto
          let ?i = "(store_value a (Some n) i1)\<lparr>i_tailBlock := Some n, i_tailIndex := 1 + of_nat T\<rparr>"
          have "iix_rep b (blk(t := n)) ?lo (Suc t) c' z' ?i" using commit_ok [OF cl lo, of n] by simp
          moreover have "icounters st H (Suc T) ?i"
            using icounters_same [OF w(1) same_counters_trans [OF ins(2) store_simps(6)], of a "Some n"] by (simp add: icounters_def)
          ultimately have "irep tr st b (el(T := x)) H (Suc T) ((blk(t := n)) ` {?lo..<Suc t}) (?i, p4)"
            by (intro irepI [OF _ k(2) _ p4(2)]) simp_all
          moreover have "moves R ((blk(t := n)) ` {?lo..<Suc t}) p p4"
          proof (rule moves_trans)
            have im: "(blk(t := n)) ` {?lo..<Suc t} \<subseteq> insert n R" unfolding w(6) by (auto simp: less_Suc_eq)
            show "moves R ((blk(t := n)) ` {?lo..<Suc t}) p p3"
              unfolding moves_def using frame_trans [OF f1 p3(3)] frame_mono [of p p3 R] im p3(4) by auto
            show "moves ((blk(t := n)) ` {?lo..<Suc t}) ((blk(t := n)) ` {?lo..<Suc t}) p3 p4" by (rule frame_moves [OF p4(3) order_refl])
          qed
          ultimately show ?thesis using step room ins(1) \<open>r = Some a\<close> req Some p3(1) False p4(1)
            by (intro exI [of _ "Returns True"] exI [of _ "(?i, p4)"]) (auto simp: enqueue_ends_def)
        qed
      qed
    qed
  qed
qed

lemma implicit_enqueue_ok:
  assumes b: "block_bits tr b" and rep: "irep tr st b el H T R (i, p)" and few: "Suc T - H < 2 ^ 63"
  shows "\<exists>r s. implicit_enqueue ndebug tr ok nothrow throws m x (i, p) = Inr (r, s) \<and>
    enqueue_ends tr ok st (\<not> nothrow \<and> throws x) m b el H T R x p r s"
  using enqueue_inside [OF b rep _ few] enqueue_boundary [OF b rep _ few] by blast

section \<open>The constructor\<close>

lemma new_implicit_ok:
  assumes b: "block_bits tr b" and ok: "pool_ok tr p" and z: "IMPLICIT_INITIAL_INDEX_SIZE tr = 2 ^ z" "1 \<le> z" "z + b \<le> 64"
  shows "\<exists>i. new_implicit ndebug tr oks p = Inr (i, p\<lparr>mallocs := mallocs p + 1\<rparr>) \<and>
    irep tr (\<not> oks (mallocs p)) b el 0 0 {} (i, p\<lparr>mallocs := mallocs p + 1\<rparr>)"
proof -
  let ?p = "p\<lparr>mallocs := mallocs p + 1\<rparr>"
  let ?i = "\<lparr>i_tailIndex = 0, i_headIndex = 0, i_dequeueOptimisticCount = 0, i_dequeueOvercommit = 0, i_tailBlock = None,
      i_entries = [], i_headers = [], nextBlockIndexCapacity = 2 ^ z\<rparr>"
  let ?h = "\<lparr>ih_capacity = 2 ^ z, ih_tail = (0 - 1) AND (2 ^ z - 1), ih_index = [0..<2 ^ z]\<rparr>"
  let ?i' = "?i\<lparr>i_entries := replicate (2 ^ z) \<lparr>entry_key = INVALID_BLOCK_BASE, entry_value = None\<rparr>, i_headers := [?h],
      nextBlockIndexCapacity := 2 ^ Suc z\<rparr>"
  have z64: "z < 64" using z(3) b by (simp add: block_bits_def)
  have u: "unat (2 ^ z :: u64) = 2 ^ z" by (rule unat_exp_u64 [OF z64])
  have run: "new_implicit ndebug tr oks p = Inr (if oks (mallocs p) then ?i' else ?i, ?p)"
    using u by (auto simp: new_implicit_def implicit_new_block_index_def z(1) cq_assertion_def push_bit_eq_mult Let_def)
  have ib: "iblocks tr b el 0 0 blk 0 0 ?p" for blk using ok by (simp add: iblocks_def)
  have w: "iwindow b 0 0 0" by (simp add: iwindow_def)
  have tl0: "((0 - 1) AND (2 ^ z - 1) :: u64) = of_nat (2 ^ z - 1)"
  proof -
    have "(of_nat 0 - of_nat 1 :: u64) AND (2 ^ z - 1) = of_nat ((2 ^ z - 1) mod 2 ^ z)"
      using mask_back [OF z64, of 1 1 "2 ^ z - 1"] by simp
    then show ?thesis by simp
  qed
  have "iix_rep b blk 0 0 0 z ?i'" for blk
    using z tl0 by (auto simp: iix_rep_def header_ok_def slots_used_def slots_free_def slot_entry_def entry_free_def)
  then have made: "irep tr (\<not> oks (mallocs p)) b el 0 0 (id ` {0 div 2 ^ b..<0}) (?i', ?p)"
    by (intro irepI [OF _ w _ , where c = 0 and z = z]) (use ib in \<open>simp_all add: icounters_def\<close>)
  have "iix_rep b blk 0 0 0 z ?i" for blk using z by (simp add: iix_rep_def)
  then have not_made: "irep tr (\<not> oks (mallocs p)) b el 0 0 (id ` {0 div 2 ^ b..<0}) (?i, ?p)" if "\<not> oks (mallocs p)"
    by (intro irepI [OF _ w _ , where c = 0 and z = z]) (use ib that in \<open>simp_all add: icounters_def\<close>)
  show ?thesis using run made not_made by (cases "oks (mallocs p)") auto
qed

section \<open>A sub-queue\<close>

definition iqueue :: "traits \<Rightarrow> (nat \<Rightarrow> bool) \<Rightarrow> nat \<Rightarrow> 'a list \<Rightarrow> nat set \<Rightarrow> 'a istate \<Rightarrow> bool" where
  "iqueue tr ok b q R s \<longleftrightarrow> block_bits tr b \<and> (\<exists>el H T. irep tr (\<exists>j. \<not> ok j) b el H T R s \<and> q = map el [H..<T])"

lemma irep_window: "irep tr st b el H T R s \<Longrightarrow> H \<le> T \<and> T - H < 2 ^ 63"
  by (auto simp: irep_def iwindow_def split: prod.splits)

lemma iqueue_enqueue:
  assumes rep: "iqueue tr ok b q R (i, p)" and few: "length q < 2 ^ 62"
  shows "\<exists>r s. implicit_enqueue ndebug tr ok nothrow throws m x (i, p) = Inr (r, s) \<and>
    (case r of
       Throws \<Rightarrow> \<not> nothrow \<and> throws x \<and> iqueue tr ok b q R s \<and> frame R p (snd s)
     | Returns True \<Rightarrow> \<exists>R'. iqueue tr ok b (q @ [x]) R' s \<and> moves R R' p (snd s)
     | Returns False \<Rightarrow> iqueue tr ok b q R s \<and> frame R p (snd s) \<and> may_refuse tr ok m)"
proof -
  obtain el H T where b: "block_bits tr b" and e: "irep tr (\<exists>j. \<not> ok j) b el H T R (i, p)" "q = map el [H..<T]"
    using rep by (auto simp: iqueue_def)
  have HT: "H \<le> T" using irep_window [OF e(1)] by simp
  have few': "Suc T - H < 2 ^ 63" "T - H < 2 ^ 62" using few e(2) HT by simp_all
  obtain r s where r: "implicit_enqueue ndebug tr ok nothrow throws m x (i, p) = Inr (r, s)"
    "enqueue_ends tr ok (\<exists>j. \<not> ok j) (\<not> nothrow \<and> throws x) m b el H T R x p r s"
    using implicit_enqueue_ok [OF b e(1) few'(1), of ndebug ok nothrow throws m x] by blast
  have q: "map (el(T := x)) [H..<Suc T] = q @ [x]" using HT e(2) by simp
  have yes: "iqueue tr ok b (q @ [x]) R' s" if "irep tr (\<exists>j. \<not> ok j) b (el(T := x)) H (Suc T) R' s" for R'
    using b that q unfolding iqueue_def by metis
  have no: "iqueue tr ok b q R s" if "irep tr (\<exists>j. \<not> ok j) b el H T R s" using b that e(2) unfolding iqueue_def by blast
  have "case r of
       Throws \<Rightarrow> \<not> nothrow \<and> throws x \<and> iqueue tr ok b q R s \<and> frame R p (snd s)
     | Returns True \<Rightarrow> \<exists>R'. iqueue tr ok b (q @ [x]) R' s \<and> moves R R' p (snd s)
     | Returns False \<Rightarrow> iqueue tr ok b q R s \<and> frame R p (snd s) \<and> may_refuse tr ok m"
    using r(2) yes no leeway_few [OF b _ HT few'(2)] unfolding enqueue_ends_def may_refuse_def
    by (auto split: ends.splits bool.splits)
  then show ?thesis using r(1) by blast
qed

lemma iqueue_dequeue:
  assumes rep: "iqueue tr ok b q R (i, p)"
  shows "\<exists>i' p' R'. implicit_dequeue ndebug tr throws (i, p) =
      Inr (case q of [] \<Rightarrow> Returns None | x # _ \<Rightarrow> if throws x then Throws else Returns (Some x), i', p') \<and>
    iqueue tr ok b (tl q) R' (i', p') \<and> moves R R' p p'"
proof -
  obtain el H T where b: "block_bits tr b" and e: "irep tr (\<exists>j. \<not> ok j) b el H T R (i, p)" "q = map el [H..<T]"
    using rep by (auto simp: iqueue_def)
  show ?thesis
  proof (cases "H < T")
    case True
    obtain i' p' R' where r: "implicit_dequeue ndebug tr throws (i, p) = Inr (if throws (el H) then Throws else Returns (Some (el H)), i', p')"
      "irep tr (\<exists>j. \<not> ok j) b el (Suc H) T R' (i', p')" "frame R p p'" "R' \<subseteq> R"
      using implicit_dequeue_ok [OF b e(1) True, of ndebug throws] by blast
    have "q = el H # map el [Suc H..<T]" using True e(2) by (simp add: upt_conv_Cons)
    moreover have "iqueue tr ok b (map el [Suc H..<T]) R' (i', p')" using r(2) b unfolding iqueue_def by blast
    ultimately show ?thesis using r(1) frame_moves [OF r(3,4)] by auto
  next
    case False
    then have "H = T" using irep_window [OF e(1)] by simp
    then have "implicit_dequeue ndebug tr throws (i, p) = Inr (Returns None, i, p)" "q = []" using implicit_dequeue_empty e by auto
    then show ?thesis using rep by (intro exI [of _ i] exI [of _ p] exI [of _ R]) simp
  qed
qed

lemma iqueue_dequeue_bulk:
  assumes rep: "iqueue tr ok b q R (i, p)"
  shows "\<exists>i' p' R'. implicit_dequeue_bulk ndebug tr (\<lambda>_. False) n (i, p) =
      Inr (take (unat n) q, Returns (of_nat (min (unat n) (length q))), i', p') \<and>
    iqueue tr ok b (drop (unat n) q) R' (i', p') \<and> moves R R' p p'"
proof -
  obtain el H T where b: "block_bits tr b" and e: "irep tr (\<exists>j. \<not> ok j) b el H T R (i, p)" "q = map el [H..<T]"
    using rep by (auto simp: iqueue_def)
  have HT: "H \<le> T" using irep_window [OF e(1)] by simp
  let ?n = "min (unat n) (T - H)"
  have h: "handed_over (\<lambda>_. False) False xs = xs" for xs :: "'a list" by (simp add: handed_over_def takeWhile_eq_all_conv)
  obtain i' p' R' where r: "implicit_dequeue_bulk ndebug tr (\<lambda>_. False) n (i, p) =
      Inr (map el [H..<H + ?n], Returns (of_nat ?n), i', p')"
    "irep tr (\<exists>j. \<not> ok j) b el (H + ?n) T R' (i', p')" "frame R p p'" "R' \<subseteq> R"
    using implicit_dequeue_bulk_ok [OF b e(1) refl, where mx = n and ndebug = ndebug and throws = "\<lambda>_. False"]
    by (auto simp: list_ex_iff h)
  have "iqueue tr ok b (drop (unat n) q) R' (i', p')" unfolding e(2) take_window [OF HT] using r(2) b unfolding iqueue_def by blast
  moreover have t: "take (unat n) q = map el [H..<H + ?n]" unfolding e(2) by (rule take_window [OF HT])
  have l: "min (unat n) (length q) = ?n" using e(2) by simp
  have "implicit_dequeue_bulk ndebug tr (\<lambda>_. False) n (i, p) = Inr (take (unat n) q, Returns (of_nat (min (unat n) (length q))), i', p')"
    unfolding t l by (rule r(1))
  ultimately show ?thesis using frame_moves [OF r(3,4)] by blast
qed

interpretation iq: subqueue "iqueue tr ok b" "implicit_enqueue ndebug tr ok True (\<lambda>_. False)" "implicit_dequeue ndebug tr (\<lambda>_. False)"
  "implicit_dequeue_bulk ndebug tr (\<lambda>_. False)" "may_refuse tr ok"
proof
  fix q :: "'a list" and R i p m x n
  assume rep: "iqueue tr ok b q R (i, p)"
  show "\<exists>r i' p' R'. implicit_enqueue ndebug tr ok True (\<lambda>_. False) m x (i, p) = Inr (Returns r, i', p') \<and>
      iqueue tr ok b (if r then q @ [x] else q) R' (i', p') \<and> moves R R' p p' \<and> (\<not> r \<longrightarrow> may_refuse tr ok m)" if few: "length q < 2 ^ 62"
  proof -
    obtain r i' p' where r: "implicit_enqueue ndebug tr ok True (\<lambda>_. False) m x (i, p) = Inr (r, i', p')"
      "case r of
         Throws \<Rightarrow> \<not> True \<and> False \<and> iqueue tr ok b q R (i', p') \<and> frame R p (snd (i', p'))
       | Returns True \<Rightarrow> \<exists>R'. iqueue tr ok b (q @ [x]) R' (i', p') \<and> moves R R' p (snd (i', p'))
       | Returns False \<Rightarrow> iqueue tr ok b q R (i', p') \<and> frame R p (snd (i', p')) \<and> may_refuse tr ok m"
      using iqueue_enqueue [OF rep few, of ndebug True "\<lambda>_. False" m x] by auto
    then obtain a where a: "r = Returns a" by (cases r) auto
    then show ?thesis using r frame_moves [of R p p' R] by (cases a) auto
  qed
  show "\<exists>i' p' R'. implicit_dequeue ndebug tr (\<lambda>_. False) (i, p) = Inr (Returns (case q of [] \<Rightarrow> None | x # _ \<Rightarrow> Some x), i', p') \<and>
      iqueue tr ok b (tl q) R' (i', p') \<and> moves R R' p p'"
    using iqueue_dequeue [OF rep, of ndebug "\<lambda>_. False"] by (cases q) simp_all
  show "\<exists>i' p' R'. implicit_dequeue_bulk ndebug tr (\<lambda>_. False) n (i, p) =
      Inr (take (unat n) q, Returns (of_nat (min (unat n) (length q))), i', p') \<and>
      iqueue tr ok b (drop (unat n) q) R' (i', p') \<and> moves R R' p p'" by (rule iqueue_dequeue_bulk [OF rep])
next
  fix q :: "'a list" and R s
  assume "iqueue tr ok b q R s"
  then obtain el H T where "irep tr (\<exists>j. \<not> ok j) b el H T R s" "q = map el [H..<T]" by (auto simp: iqueue_def)
  then show "length q < 2 ^ 63" using irep_window [of tr "\<exists>j. \<not> ok j" b el H T R s] by simp
qed

definition i_size :: "implicit \<Rightarrow> u64" where
  "i_size i = (if circular_less_than (i_headIndex i) (i_tailIndex i) then i_tailIndex i - i_headIndex i else 0)"

interpretation siq: shared_subqueue "iqueue tr ok b" "implicit_enqueue ndebug tr ok True (\<lambda>_. False)" "implicit_dequeue ndebug tr (\<lambda>_. False)"
  "implicit_dequeue_bulk ndebug tr (\<lambda>_. False)" "may_refuse tr ok" tr i_size
proof
  fix q :: "'a list" and R i p
  assume "iqueue tr ok b q R (i, p)"
  then obtain el H T blk t c z where x: "block_bits tr b" "q = map el [H..<T]" "icounters (\<exists>j. \<not> ok j) H T i" "iwindow b H T t"
    "iix_rep b blk (H div 2 ^ b) t c z i" "iblocks tr b el H T blk (H div 2 ^ b) t p"
    "T mod 2 ^ b \<noteq> 0 \<longrightarrow> i_tailBlock i = Some (blk (t - 1))" "R = blk ` {H div 2 ^ b..<t}"
    unfolding iqueue_def irep_def prod.case by blast
  show "pool_ok tr p \<and> R \<inter> free_blocks p = {} \<and> R \<subseteq> {..<next_block p}"
    using x(6,8) by (auto simp: iblocks_def)
  show "iqueue tr ok b q R (i, p')" if "frame Q p p'" "Q \<inter> R = {}" "pool_ok tr p'" for Q p'
  proof -
    have "iblocks tr b el H T blk (H div 2 ^ b) t p'" by (rule iblocks_frame [OF x(6) that(1) _ that(3)]) (use that(2) x(8) in simp)
    then have "irep tr (\<exists>j. \<not> ok j) b el H T R (i, p')" unfolding x(8) by (rule irepI [OF x(3-5) _ mp [OF x(7)]])
    then show ?thesis using x(1,2) unfolding iqueue_def by blast
  qed
  have l: "i_tailIndex i = of_nat T" "i_headIndex i = of_nat H" "length q = T - H" using x(2,3) by (simp_all add: icounters_def)
  show "i_size i = of_nat (length q)" unfolding i_size_def l by (rule window_size) (use x(4) in \<open>simp_all add: iwindow_def\<close>)
qed

definition implicit_run :: "bool \<Rightarrow> traits \<Rightarrow> (nat \<Rightarrow> bool) \<Rightarrow> 'a sqop list \<Rightarrow> 'a istate \<Rightarrow> cq_fault + 'a sqanswer ends list \<times> 'a istate" where
  "implicit_run ndebug tr ok = sq_run (implicit_enqueue ndebug tr ok True (\<lambda>_. False)) (implicit_dequeue ndebug tr (\<lambda>_. False))
     (implicit_dequeue_bulk ndebug tr (\<lambda>_. False))"

lemma irep_starved: "irep tr st b el H T R s \<Longrightarrow> st \<longrightarrow> st' \<Longrightarrow> irep tr st' b el H T R s"
  unfolding irep_def icounters_def by blast

text \<open>
  C22: The sub-queue of a thread without a token, made on any state of the queue's pool, is a list, as that of a producer
  token is: no sequence of \<^verbatim>\<open>enqueue\<close>, \<^verbatim>\<open>dequeue\<close> and \<^verbatim>\<open>dequeue_bulk\<close> runs into a fault or a failing assertion, elements come out
  once and in the order in which they went in, and an \<^verbatim>\<open>enqueue\<close> is refused only if it may not allocate, if an
  allocation fails or has failed, or if the queue is limited by \<^verbatim>\<open>MAX_SUBQUEUE_SIZE\<close>. Blocks that other producers use are left alone.
\<close>

theorem implicit_producer_is_a_queue:
  assumes "block_bits tr b" and "IMPLICIT_INITIAL_INDEX_SIZE tr = 2 ^ z" and "1 \<le> z" and "z + b \<le> 64"
    and "pool_ok tr p" and "length cs < 2 ^ 62"
  shows "\<exists>as s' R. bind_r (new_implicit ndebug tr ok p) (implicit_run ndebug tr ok cs) = Inr (as, s') \<and>
    fifo_answers (may_refuse tr ok) [] cs as \<and> moves {} R p (snd s')"
proof -
  let ?p = "p\<lparr>mallocs := mallocs p + 1\<rparr>"
  obtain i where new: "new_implicit ndebug tr ok p = Inr (i, ?p)" "irep tr (\<not> ok (mallocs p)) b (\<lambda>_. undefined) 0 0 {} (i, ?p)"
    using new_implicit_ok [OF assms(1,5,2,3,4)] by blast
  have "irep tr (\<exists>j. \<not> ok j) b (\<lambda>_. undefined) 0 0 {} (i, ?p)" by (rule irep_starved [OF new(2)]) blast
  then have "iqueue tr ok b ([] :: 'a list) {} (i, ?p)"
    unfolding iqueue_def using assms(1) by (intro conjI exI [of _ "\<lambda>_. undefined"] exI [of _ 0]) simp_all
  then obtain as s' q' R where "implicit_run ndebug tr ok cs (i, ?p) = Inr (as, s')"
    "fifo_answers (may_refuse tr ok) [] cs as" "moves {} R ?p (snd s')"
    using iq.run_ok [of tr ok b "[]" "{}" i ?p cs ndebug] assms(6) unfolding implicit_run_def by auto
  moreover have "moves {} {} p ?p" by (rule frame_moves) simp_all
  ultimately show ?thesis using new(1) moves_trans by fastforce
qed

theorem implicit_producer_is_a_queue_witness:
  "\<exists>as s' R. bind_r (new_implicit False small_traits (\<lambda>_. True) (populate_initial_block_list small_traits (\<lambda>_. True) 2))
      (implicit_run False small_traits (\<lambda>_. True)
        [Sq_enqueue cq_AllocationMode.CanAlloc (5 :: nat), Sq_enqueue cq_AllocationMode.CannotAlloc 6, Sq_dequeue_bulk 4, Sq_dequeue]) = Inr (as, s') \<and>
    fifo_answers (may_refuse small_traits (\<lambda>_. True)) []
      [Sq_enqueue cq_AllocationMode.CanAlloc 5, Sq_enqueue cq_AllocationMode.CannotAlloc 6, Sq_dequeue_bulk 4, Sq_dequeue] as \<and>
    moves {} R (populate_initial_block_list small_traits (\<lambda>_. True) 2) (snd s')"
proof (rule implicit_producer_is_a_queue [of small_traits 1 1])
  show "block_bits small_traits 1" by (simp add: block_bits_def small_traits_def)
  show "IMPLICIT_INITIAL_INDEX_SIZE small_traits = 2 ^ 1" by (simp add: small_traits_def)
  show "pool_ok small_traits (populate_initial_block_list small_traits (\<lambda>_. True) 2)" by (rule populate_ok)
qed simp_all

end
