(* ===== verification/Cq_Hash.thy ===== *)
theory Cq_Hash
  imports Cq_Implicit_Fifo
begin

text \<open>
  The hash tables of \<^verbatim>\<open>concurrentqueue.h\<close> that map threads to their implicit producers: open addressing with linear
  probing, in a chain of tables of which only the newest is extended. A table is a partial map, and every search
  ends.
\<close>

section \<open>Tables\<close>

record kvp =
  kvp_key :: u64
  kvp_value :: "nat option"

record hash_table =
  h_capacity :: u64
  h_entries :: "kvp list"

text \<open>A thread id is the address of a thread-local variable, so never null.\<close>

definition invalid_thread_id :: u64 where
  "invalid_thread_id = 0"

definition new_hash_table :: "u64 \<Rightarrow> hash_table" where
  "new_hash_table n = \<lparr>h_capacity = n, h_entries = replicate (unat n) \<lparr>kvp_key = invalid_thread_id, kvp_value = None\<rparr>\<rparr>"

definition kvp_at :: "hash_table \<Rightarrow> u64 \<Rightarrow> cq_fault + kvp" where
  "kvp_at h k = (if length (h_entries h) \<le> unat k then Inl Cq_bounds else Inr (h_entries h ! unat k))"

fun hash_find :: "nat \<Rightarrow> hash_table \<Rightarrow> u64 \<Rightarrow> u64 \<Rightarrow> cq_fault + nat option option" where
  "hash_find 0 h i idx = Inl Cq_endless"
| "hash_find (Suc fuel) h i idx =
     (let idx = idx AND (h_capacity h - 1) in
      bind_r (kvp_at h idx) (\<lambda>e.
        if kvp_key e = i then Inr (Some (kvp_value e))
        else if kvp_key e = invalid_thread_id then Inr None
        else hash_find fuel h i (idx + 1)))"

fun hash_insert :: "nat \<Rightarrow> hash_table \<Rightarrow> u64 \<Rightarrow> nat option \<Rightarrow> u64 \<Rightarrow> cq_fault + hash_table" where
  "hash_insert 0 h i v idx = Inl Cq_endless"
| "hash_insert (Suc fuel) h i v idx =
     (let idx = idx AND (h_capacity h - 1) in
      bind_r (kvp_at h idx) (\<lambda>e.
        if kvp_key e = invalid_thread_id
        then Inr (h\<lparr>h_entries := (h_entries h)[unat idx := \<lparr>kvp_key = i, kvp_value = v\<rparr>]\<rparr>)
        else hash_insert fuel h i v (idx + 1)))"

text \<open>A table has as many turns as slots: more are never needed.\<close>

definition find_in :: "hash_table \<Rightarrow> u64 \<Rightarrow> cq_fault + nat option option" where
  "find_in h i = hash_find (length (h_entries h)) h i (hash_thread_id i)"

definition insert_in :: "hash_table \<Rightarrow> u64 \<Rightarrow> nat option \<Rightarrow> cq_fault + hash_table" where
  "insert_in h i v = hash_insert (length (h_entries h)) h i v (hash_thread_id i)"

section \<open>The chain of tables\<close>

fun find_in_previous :: "hash_table list \<Rightarrow> u64 \<Rightarrow> cq_fault + nat option option" where
  "find_in_previous [] i = Inr None"
| "find_in_previous (h # hs) i =
     bind_r (find_in h i) (\<lambda>r. case r of Some v \<Rightarrow> Inr (Some v) | None \<Rightarrow> find_in_previous hs i)"

text \<open>Looking a thread up; if it is found in an older table only, it is added to the main one.\<close>

definition lookup_thread :: "hash_table list \<Rightarrow> u64 \<Rightarrow> cq_fault + nat option option \<times> hash_table list" where
  "lookup_thread hs i =
     (case hs of
        [] \<Rightarrow> Inr (None, [])
      | h # rest \<Rightarrow>
        bind_r (find_in h i) (\<lambda>r.
          case r of
            Some v \<Rightarrow> Inr (Some v, hs)
          | None \<Rightarrow>
            bind_r (find_in_previous rest i) (\<lambda>r.
              case r of
                None \<Rightarrow> Inr (None, hs)
              | Some v \<Rightarrow> bind_r (insert_in h i v) (\<lambda>h. Inr (Some v, h # rest)))))"

fun grow_capacity :: "nat \<Rightarrow> u64 \<Rightarrow> u64 \<Rightarrow> cq_fault + u64" where
  "grow_capacity 0 newCount newCapacity = Inl Cq_endless"
| "grow_capacity (Suc fuel) newCount newCapacity =
     (if newCount \<ge> drop_bit 1 newCapacity then grow_capacity fuel newCount (push_bit 1 newCapacity) else Inr newCapacity)"

text \<open>The answer \<open>False\<close>: there was no memory for a bigger table. The state counts the requests to the allocator.\<close>

definition resize_hash :: "(nat \<Rightarrow> bool) \<Rightarrow> u64 \<Rightarrow> hash_table list \<Rightarrow> nat \<Rightarrow> cq_fault + bool \<times> hash_table list \<times> nat" where
  "resize_hash ok newCount hs m =
     (case hs of
        [] \<Rightarrow> Inl Cq_null
      | h # _ \<Rightarrow>
        if newCount \<ge> drop_bit 1 (h_capacity h)
        then bind_r (grow_capacity 64 newCount (push_bit 1 (h_capacity h))) (\<lambda>newCapacity.
          if \<not> ok m then Inr (False, hs, m + 1) else Inr (True, new_hash_table newCapacity # hs, m + 1))
        else Inr (True, hs, m))"

section \<open>Linear probing\<close>

definition key_at :: "hash_table \<Rightarrow> nat \<Rightarrow> u64" where
  "key_at h j = kvp_key (h_entries h ! j)"

definition probe :: "nat \<Rightarrow> u64 \<Rightarrow> nat \<Rightarrow> nat" where
  "probe k i d = (d + unat (hash_thread_id i)) mod 2 ^ k"

definition wf_table :: "nat \<Rightarrow> hash_table \<Rightarrow> bool" where
  "wf_table k h \<longleftrightarrow> k < 64 \<and> h_capacity h = 2 ^ k \<and> length (h_entries h) = 2 ^ k \<and>
     (\<forall>i<2 ^ k. \<forall>j<2 ^ k. key_at h i = key_at h j \<and> key_at h i \<noteq> 0 \<longrightarrow> i = j) \<and>
     (\<forall>j<2 ^ k. key_at h j \<noteq> 0 \<longrightarrow> (\<exists>d<2 ^ k. j = probe k (key_at h j) d \<and> (\<forall>d'<d. key_at h (probe k (key_at h j) d') \<noteq> 0)))"

definition used :: "hash_table \<Rightarrow> nat set" where
  "used h = {j. j < length (h_entries h) \<and> key_at h j \<noteq> 0}"

definition in_table :: "hash_table \<Rightarrow> u64 \<Rightarrow> nat option \<Rightarrow> bool" where
  "in_table h i v \<longleftrightarrow> \<lparr>kvp_key = i, kvp_value = v\<rparr> \<in> set (h_entries h)"

lemma probe_less [simp]: "probe k i d < 2 ^ k"
  by (simp add: probe_def)

lemma probe_onto:
  assumes "j < 2 ^ k"
  shows "\<exists>d<2 ^ k. probe k i d = j"
proof -
  let ?c = "unat (hash_thread_id i) mod 2 ^ k"
  have c: "?c < 2 ^ k" by simp
  have "((j + (2 ^ k - ?c)) mod 2 ^ k + unat (hash_thread_id i)) mod 2 ^ k = (j + (2 ^ k - ?c) + ?c) mod 2 ^ k"
    by (simp only: mod_simps)
  also have "j + (2 ^ k - ?c) + ?c = j + 2 ^ k" using c by linarith
  also have "\<dots> mod 2 ^ k = j" using assms by simp
  finally show ?thesis unfolding probe_def by (intro exI [of _ "(j + (2 ^ k - ?c)) mod 2 ^ k"]) simp
qed

lemma probe_next:
  assumes "k < 64"
  shows "(of_nat (probe k i d) + 1) AND (2 ^ k - 1) = (of_nat (probe k i (Suc d)) :: u64)"
  unfolding probe_def by (rule mask_next [OF assms])

lemma probe_start:
  assumes "k < 64"
  shows "hash_thread_id i AND (2 ^ k - 1) = (of_nat (probe k i 0) :: u64)"
  using of_nat_and_mask [OF assms, of "unat (hash_thread_id i)"] by (simp add: probe_def)

lemma kvp_at_probe:
  assumes "wf_table k h"
  shows "kvp_at h (of_nat (probe k i d)) = Inr (h_entries h ! probe k i d)" "unat (of_nat (probe k i d) :: u64) = probe k i d"
proof -
  show u: "unat (of_nat (probe k i d) :: u64) = probe k i d" unfolding probe_def by (rule unat_slot) (use assms in \<open>simp add: wf_table_def\<close>)
  show "kvp_at h (of_nat (probe k i d)) = Inr (h_entries h ! probe k i d)"
    using assms by (simp add: kvp_at_def u wf_table_def not_le)
qed

lemma hash_find_ok:
  assumes wf: "wf_table k h" and i: "i \<noteq> 0"
    and stop: "key_at h (probe k i e) = i \<or> key_at h (probe k i e) = 0"
  shows "d \<le> e \<Longrightarrow> (\<And>d'. d \<le> d' \<Longrightarrow> d' < e \<Longrightarrow> key_at h (probe k i d') \<noteq> i \<and> key_at h (probe k i d') \<noteq> 0) \<Longrightarrow> e - d < fuel \<Longrightarrow>
    idx AND (2 ^ k - 1) = of_nat (probe k i d) \<Longrightarrow>
    hash_find fuel h i idx =
      Inr (if key_at h (probe k i e) = i then Some (kvp_value (h_entries h ! probe k i e)) else None)"
proof (induction fuel arbitrary: d idx)
  case 0
  then show ?case by simp
next
  case (Suc fuel)
  have k: "k < 64" "h_capacity h = 2 ^ k" using wf by (simp_all add: wf_table_def)
  have step: "hash_find (Suc fuel) h i idx =
      (if key_at h (probe k i d) = i then Inr (Some (kvp_value (h_entries h ! probe k i d)))
       else if key_at h (probe k i d) = 0 then Inr None else hash_find fuel h i (of_nat (probe k i d) + 1))"
    unfolding hash_find.simps Let_def k(2) Suc.prems(4) kvp_at_probe(1) [OF wf] bind_r_simps key_at_def invalid_thread_id_def ..
  show ?case
  proof (cases "d = e")
    case True
    then show ?thesis unfolding step using stop i by auto
  next
    case False
    then have "d < e" using Suc.prems(1) by simp
    then have "hash_find fuel h i (of_nat (probe k i d) + 1) =
        Inr (if key_at h (probe k i e) = i then Some (kvp_value (h_entries h ! probe k i e)) else None)"
      by (intro Suc.IH [of "Suc d"]) (use Suc.prems probe_next [OF k(1)] in auto)
    then show ?thesis unfolding step using Suc.prems(2) [of d] \<open>d < e\<close> by simp
  qed
qed

lemma hash_insert_at:
  assumes wf: "wf_table k h" and free: "key_at h (probe k i e) = 0"
  shows "d \<le> e \<Longrightarrow> (\<And>d'. d \<le> d' \<Longrightarrow> d' < e \<Longrightarrow> key_at h (probe k i d') \<noteq> 0) \<Longrightarrow> e - d < fuel \<Longrightarrow>
    idx AND (2 ^ k - 1) = of_nat (probe k i d) \<Longrightarrow>
    hash_insert fuel h i v idx = Inr (h\<lparr>h_entries := (h_entries h)[probe k i e := \<lparr>kvp_key = i, kvp_value = v\<rparr>]\<rparr>)"
proof (induction fuel arbitrary: d idx)
  case 0
  then show ?case by simp
next
  case (Suc fuel)
  have k: "k < 64" "h_capacity h = 2 ^ k" using wf by (simp_all add: wf_table_def)
  have step: "hash_insert (Suc fuel) h i v idx =
      (if key_at h (probe k i d) = 0 then Inr (h\<lparr>h_entries := (h_entries h)[probe k i d := \<lparr>kvp_key = i, kvp_value = v\<rparr>]\<rparr>)
       else hash_insert fuel h i v (of_nat (probe k i d) + 1))"
    unfolding hash_insert.simps Let_def k(2) Suc.prems(4) kvp_at_probe [OF wf] bind_r_simps key_at_def invalid_thread_id_def ..
  show ?case
  proof (cases "d = e")
    case True
    then show ?thesis unfolding step using free by simp
  next
    case False
    then have "d < e" using Suc.prems(1) by simp
    then have "hash_insert fuel h i v (of_nat (probe k i d) + 1) = Inr (h\<lparr>h_entries := (h_entries h)[probe k i e := \<lparr>kvp_key = i, kvp_value = v\<rparr>]\<rparr>)"
      by (intro Suc.IH [of "Suc d"]) (use Suc.prems probe_next [OF k(1)] in auto)
    then show ?thesis unfolding step using Suc.prems(2) [of d] \<open>d < e\<close> by simp
  qed
qed

text \<open>A table that is not full has a first free slot on the way of every thread.\<close>

lemma first_free:
  assumes wf: "wf_table k h" and room: "card (used h) < 2 ^ k"
  obtains e where "e < 2 ^ k" "key_at h (probe k i e) = 0" "\<And>d'. d' < e \<Longrightarrow> key_at h (probe k i d') \<noteq> 0"
proof -
  have len: "length (h_entries h) = 2 ^ k" using wf by (simp add: wf_table_def)
  have "\<exists>j<2 ^ k. key_at h j = 0"
  proof (rule ccontr)
    assume "\<not> ?thesis"
    then have "used h = {..<2 ^ k}" using len by (auto simp: used_def)
    then show False using room by simp
  qed
  then obtain d where d: "d < 2 ^ k" "key_at h (probe k i d) = 0" using probe_onto by metis
  let ?e = "LEAST d. key_at h (probe k i d) = 0"
  have "key_at h (probe k i ?e) = 0" by (rule LeastI [of _ d]) (rule d(2))
  moreover have "?e \<le> d" by (rule Least_le) (rule d(2))
  ultimately show ?thesis using d(1) not_less_Least by (intro that [of ?e]) auto
qed

lemma in_table_at:
  assumes wf: "wf_table k h" and v: "in_table h i v" "i \<noteq> 0"
  obtains d where "d < 2 ^ k" "h_entries h ! probe k i d = \<lparr>kvp_key = i, kvp_value = v\<rparr>"
    "\<And>d'. d' < d \<Longrightarrow> key_at h (probe k i d') \<noteq> 0 \<and> probe k i d' \<noteq> probe k i d"
proof -
  obtain j where j: "j < 2 ^ k" "h_entries h ! j = \<lparr>kvp_key = i, kvp_value = v\<rparr>"
    using wf v(1) by (auto simp: in_table_def in_set_conv_nth wf_table_def)
  then have kj: "key_at h j = i" by (simp add: key_at_def)
  then obtain d where d: "d < 2 ^ k" "j = probe k i d" "\<forall>d'<d. key_at h (probe k i d') \<noteq> 0"
    using wf v(2) j(1) unfolding wf_table_def by metis
  have "probe k i d' \<noteq> probe k i d" if "d' < d" for d'
    using slots_differ [of 0 d' d k "unat (hash_thread_id i)"] that d(1) by (simp add: probe_def)
  then show ?thesis using that [of d] d j(2) by blast
qed

lemma find_in_ok:
  assumes wf: "wf_table k h" and room: "card (used h) < 2 ^ k" and i: "i \<noteq> 0"
  shows "(\<forall>v. in_table h i v \<longrightarrow> find_in h i = Inr (Some v)) \<and> ((\<forall>v. \<not> in_table h i v) \<longrightarrow> find_in h i = Inr None)"
proof (intro conjI allI impI)
  have k: "k < 64" "length (h_entries h) = 2 ^ k" using wf by (simp_all add: wf_table_def)
  fix v assume v: "in_table h i v"
  obtain d where d: "d < 2 ^ k" "h_entries h ! probe k i d = \<lparr>kvp_key = i, kvp_value = v\<rparr>"
    "\<And>d'. d' < d \<Longrightarrow> key_at h (probe k i d') \<noteq> 0 \<and> probe k i d' \<noteq> probe k i d" using in_table_at [OF wf v i] by metis
  have kd: "key_at h (probe k i d) = i" using d(2) by (simp add: key_at_def)
  have "key_at h (probe k i d') \<noteq> i" if "d' < d" for d'
    using wf d(3) [OF that] kd i unfolding wf_table_def by (metis probe_less)
  then have "find_in h i = Inr (if key_at h (probe k i d) = i then Some (kvp_value (h_entries h ! probe k i d)) else None)"
    unfolding find_in_def k(2) by (intro hash_find_ok [OF wf i disjI1 [OF kd], of 0]) (use d probe_start [OF k(1)] in auto)
  then show "find_in h i = Inr (Some v)" using kd d(2) by simp
next
  have k: "k < 64" "length (h_entries h) = 2 ^ k" using wf by (simp_all add: wf_table_def)
  assume none: "\<forall>v. \<not> in_table h i v"
  have ne: "key_at h j \<noteq> i" if "j < 2 ^ k" for j
  proof
    assume "key_at h j = i"
    then have "h_entries h ! j = \<lparr>kvp_key = i, kvp_value = kvp_value (h_entries h ! j)\<rparr>" by (simp add: key_at_def)
    then show False using none that k(2) unfolding in_table_def by (metis nth_mem)
  qed
  obtain e where e: "e < 2 ^ k" "key_at h (probe k i e) = 0" "\<And>d'. d' < e \<Longrightarrow> key_at h (probe k i d') \<noteq> 0"
    using first_free [OF wf room] by metis
  have "find_in h i = Inr (if key_at h (probe k i e) = i then Some (kvp_value (h_entries h ! probe k i e)) else None)"
    unfolding find_in_def k(2) by (intro hash_find_ok [OF wf i disjI2 [OF e(2)], of 0]) (use e ne probe_start [OF k(1)] in auto)
  then show "find_in h i = Inr None" using e(2) i by simp
qed

lemma insert_in_ok:
  assumes wf: "wf_table k h" and room: "card (used h) < 2 ^ k" and i: "i \<noteq> 0" and new: "\<forall>w. \<not> in_table h i w"
  shows "\<exists>h'. insert_in h i v = Inr h' \<and> wf_table k h' \<and>
    (\<forall>j w. j \<noteq> 0 \<longrightarrow> in_table h' j w \<longleftrightarrow> (j = i \<and> w = v) \<or> in_table h j w)"
proof -
  have k: "k < 64" "length (h_entries h) = 2 ^ k" using wf by (simp_all add: wf_table_def)
  obtain e where e: "e < 2 ^ k" "key_at h (probe k i e) = 0" "\<And>d'. d' < e \<Longrightarrow> key_at h (probe k i d') \<noteq> 0"
    using first_free [OF wf room] by metis
  let ?j = "probe k i e" and ?e = "\<lparr>kvp_key = i, kvp_value = v\<rparr>"
  let ?h = "h\<lparr>h_entries := (h_entries h)[?j := ?e]\<rparr>"
  have run: "insert_in h i v = Inr ?h"
    unfolding insert_in_def k(2) by (rule hash_insert_at [OF wf e(2), of 0]) (use e probe_start [OF k(1)] in auto)
  have key: "key_at ?h j = (if j = ?j then i else key_at h j)" if "j < 2 ^ k" for j using that k(2) by (simp add: key_at_def)
  have ne: "key_at h j \<noteq> i" if "j < 2 ^ k" for j
  proof
    assume "key_at h j = i"
    then have "h_entries h ! j = \<lparr>kvp_key = i, kvp_value = kvp_value (h_entries h ! j)\<rparr>" by (simp add: key_at_def)
    then show False using new that k(2) unfolding in_table_def by (metis nth_mem)
  qed
  have grow: "key_at h (probe k i' d) \<noteq> 0 \<Longrightarrow> key_at ?h (probe k i' d) \<noteq> 0" for i' d using key [of "probe k i' d"] i by simp
  have "wf_table k ?h"
    unfolding wf_table_def
  proof (intro conjI allI impI)
    fix a b assume ab: "a < 2 ^ k" "b < 2 ^ k" and eq: "key_at ?h a = key_at ?h b \<and> key_at ?h a \<noteq> 0"
    have "key_at h a = key_at h b \<and> key_at h a \<noteq> 0 \<Longrightarrow> a = b" using wf ab unfolding wf_table_def by blast
    then show "a = b" using eq key [OF ab(1)] key [OF ab(2)] ne [OF ab(1)] ne [OF ab(2)] by (cases "a = ?j"; cases "b = ?j") auto
  next
    fix j assume j: "j < 2 ^ k" "key_at ?h j \<noteq> 0"
    show "\<exists>d<2 ^ k. j = probe k (key_at ?h j) d \<and> (\<forall>d'<d. key_at ?h (probe k (key_at ?h j) d') \<noteq> 0)"
    proof (cases "j = ?j")
      case True
      then have "key_at ?h j = i" using key [OF j(1)] by simp
      then show ?thesis using e(1,3) True grow by auto
    next
      case False
      then have kj: "key_at ?h j = key_at h j" using key [OF j(1)] by simp
      then obtain d where "d < 2 ^ k" "j = probe k (key_at h j) d" "\<forall>d'<d. key_at h (probe k (key_at h j) d') \<noteq> 0"
        using wf j unfolding wf_table_def by metis
      then show ?thesis unfolding kj using grow by blast
    qed
  qed (use wf in \<open>simp_all add: wf_table_def\<close>)
  moreover have "in_table ?h j w \<longleftrightarrow> (j = i \<and> w = v) \<or> in_table h j w" if "j \<noteq> 0" for j w
  proof
    assume "in_table ?h j w"
    then show "(j = i \<and> w = v) \<or> in_table h j w" unfolding in_table_def using set_update_subset_insert by fastforce
  next
    assume a: "(j = i \<and> w = v) \<or> in_table h j w"
    show "in_table ?h j w"
    proof (cases "j = i \<and> w = v")
      case True
      then show ?thesis using k(2) by (simp add: in_table_def set_update_memI)
    next
      case False
      then obtain n where n: "n < 2 ^ k" "h_entries h ! n = \<lparr>kvp_key = j, kvp_value = w\<rparr>"
        using a k(2) by (auto simp: in_table_def in_set_conv_nth)
      then have "n \<noteq> ?j" using e(2) that by (auto simp: key_at_def)
      then have "h_entries ?h ! n = \<lparr>kvp_key = j, kvp_value = w\<rparr>" using n by simp
      moreover have "n < length (h_entries ?h)" using n(1) k(2) by simp
      ultimately show ?thesis unfolding in_table_def by (metis nth_mem)
    qed
  qed
  ultimately show ?thesis using run by blast
qed

lemma new_table_ok:
  assumes "k < 64"
  shows "wf_table k (new_hash_table (2 ^ k))" "used (new_hash_table (2 ^ k)) = {}" "i \<noteq> 0 \<Longrightarrow> \<not> in_table (new_hash_table (2 ^ k)) i v"
  using unat_exp_u64 [OF assms] assms
  by (auto simp: wf_table_def used_def in_table_def new_hash_table_def key_at_def invalid_thread_id_def)

section \<open>The chain as a map\<close>

text \<open>
  \<open>reg\<close> maps the threads that have a producer to it: each is found in some table, and no table says otherwise. The
  newest table is less than half full.
\<close>

definition table_ok :: "(u64 \<Rightarrow> nat option) \<Rightarrow> hash_table \<Rightarrow> bool" where
  "table_ok reg h \<longleftrightarrow> (\<exists>k. wf_table k h \<and> card (used h) < 2 ^ k) \<and> (\<forall>i v. i \<noteq> 0 \<and> in_table h i v \<longrightarrow> v = reg i \<and> v \<noteq> None)"

definition tables_ok :: "(u64 \<Rightarrow> nat option) \<Rightarrow> hash_table list \<Rightarrow> bool" where
  "tables_ok reg hs \<longleftrightarrow> finite (dom reg) \<and> reg 0 = None \<and> (\<forall>h\<in>set hs. table_ok reg h) \<and>
     (\<forall>i a. reg i = Some a \<longrightarrow> (\<exists>h\<in>set hs. in_table h i (Some a)))"

definition hash_inv :: "(u64 \<Rightarrow> nat option) \<Rightarrow> hash_table list \<Rightarrow> u64 \<Rightarrow> bool" where
  "hash_inv reg hs count \<longleftrightarrow> tables_ok reg hs \<and> unat count = card (dom reg) \<and>
     (case hs of [] \<Rightarrow> False | h # _ \<Rightarrow> dom reg = {} \<or> card (dom reg) < unat (h_capacity h) div 2)"

lemma key_in_table: "j < length (h_entries h) \<Longrightarrow> in_table h (key_at h j) (kvp_value (h_entries h ! j))"
proof -
  assume "j < length (h_entries h)"
  then have "h_entries h ! j \<in> set (h_entries h)" by (rule nth_mem)
  then show ?thesis unfolding in_table_def key_at_def by (cases "h_entries h ! j" rule: kvp.cases) simp
qed

lemma used_le:
  assumes wf: "wf_table k h" and keys: "\<And>i v. i \<noteq> 0 \<Longrightarrow> in_table h i v \<Longrightarrow> i \<in> D" and "finite D"
  shows "card (used h) \<le> card D"
proof (rule card_inj_on_le)
  have len: "length (h_entries h) = 2 ^ k" using wf by (simp add: wf_table_def)
  show "inj_on (key_at h) (used h)" using wf len unfolding inj_on_def used_def wf_table_def by auto
  show "key_at h ` used h \<subseteq> D" using keys key_in_table by (auto simp: used_def)
  show "finite D" by (rule assms(3))
qed

lemma table_size:
  assumes wf: "wf_table k h"
  shows "unat (h_capacity h) = 2 ^ k" "drop_bit 1 (h_capacity h) = of_nat (2 ^ k div 2)" "unat (drop_bit 1 (h_capacity h)) = 2 ^ k div 2"
    "unat (drop_bit 2 (h_capacity h)) = 2 ^ k div 4"
proof -
  have k: "k < 64" "h_capacity h = 2 ^ k" using wf by (simp_all add: wf_table_def)
  show u: "unat (h_capacity h) = 2 ^ k" unfolding k(2) by (rule unat_exp_u64 [OF k(1)])
  show d: "unat (drop_bit 1 (h_capacity h)) = 2 ^ k div 2" by (simp only: unat_drop_bit_eq u) (simp add: drop_bit_eq_div)
  show "unat (drop_bit 2 (h_capacity h)) = 2 ^ k div 4" by (simp only: unat_drop_bit_eq u) (simp add: drop_bit_eq_div)
  show "drop_bit 1 (h_capacity h) = of_nat (2 ^ k div 2)" using d by (metis word_unat_inverse)
qed

lemma find_previous_ok:
  assumes "\<forall>h\<in>set hs. table_ok reg h" and i: "i \<noteq> 0"
  shows "find_in_previous hs i = Inr (if \<exists>h\<in>set hs. \<exists>v. in_table h i v then Some (reg i) else None)"
  using assms(1)
proof (induction hs)
  case (Cons h hs)
  then obtain k where k: "wf_table k h" "card (used h) < 2 ^ k" and v: "\<And>v. in_table h i v \<Longrightarrow> v = reg i"
    using i by (auto simp: table_ok_def)
  note f = find_in_ok [OF k i]
  show ?case
  proof (cases "\<exists>v. in_table h i v")
    case True
    then show ?thesis using f v by auto
  next
    case False
    then have "find_in h i = Inr None" using f by blast
    then show ?thesis using Cons False by simp
  qed
qed simp

lemma insert_main:
  assumes ok: "tables_ok reg (h # hs)" and i: "i \<noteq> 0" and a: "reg i = None \<or> reg i = Some a" and new: "\<forall>w. \<not> in_table h i w"
    and room: "card (dom (reg(i \<mapsto> a))) < unat (h_capacity h)"
  shows "\<exists>h'. insert_in h i (Some a) = Inr h' \<and> tables_ok (reg(i \<mapsto> a)) (h' # hs) \<and> h_capacity h' = h_capacity h"
proof -
  let ?reg = "reg(i \<mapsto> a)"
  have fin: "finite (dom reg)" and tab: "table_ok reg h" using ok by (simp_all add: tables_ok_def)
  then obtain k where k: "wf_table k h" "card (used h) < 2 ^ k" by (auto simp: table_ok_def)
  obtain h' where h': "insert_in h i (Some a) = Inr h'" "wf_table k h'"
    "\<And>j w. j \<noteq> 0 \<Longrightarrow> in_table h' j w \<longleftrightarrow> (j = i \<and> w = Some a) \<or> in_table h j w"
    using insert_in_ok [OF k i new, of "Some a"] by blast
  have keep: "table_ok ?reg g" if "g \<in> set hs" for g
  proof -
    have "table_ok reg g" using ok that by (simp add: tables_ok_def)
    moreover have "reg j = ?reg j" if "in_table g j v" "j \<noteq> 0" "table_ok reg g" for j v
      using that a by (cases "j = i") (auto simp: table_ok_def)
    ultimately show ?thesis unfolding table_ok_def by metis
  qed
  have old: "in_table h j v \<Longrightarrow> j \<noteq> 0 \<Longrightarrow> v = reg j \<and> v \<noteq> None \<and> j \<noteq> i" for j v using tab new by (auto simp: table_ok_def)
  have vals: "v = ?reg j \<and> v \<noteq> None" if "in_table h' j v" "j \<noteq> 0" for j v using h'(3) [OF that(2), of v] that old [of j v] by auto
  have dom: "\<And>j v. j \<noteq> 0 \<Longrightarrow> in_table h' j v \<Longrightarrow> j \<in> dom ?reg" using vals by blast
  have "card (used h') \<le> card (dom ?reg)" by (rule used_le [OF h'(2) dom]) (use fin in auto)
  moreover have "card (dom ?reg) < 2 ^ k" using room table_size(1) [OF k(1)] by simp
  ultimately have "card (used h') < 2 ^ k" by (rule le_less_trans)
  then have t': "table_ok ?reg h'" using h'(2) vals unfolding table_ok_def by blast
  have "\<exists>g\<in>set (h' # hs). in_table g j (Some c)" if rj: "?reg j = Some c" for j c
  proof (cases "j = i")
    case True
    then show ?thesis using h'(3) [OF i] rj by simp
  next
    case False
    then have "reg j = Some c" using rj by simp
    then obtain g where g: "g \<in> set (h # hs)" "in_table g j (Some c)" using ok unfolding tables_ok_def by blast
    have "j \<noteq> 0" using rj False ok by (auto simp: tables_ok_def)
    then show ?thesis using g h'(3) by auto
  qed
  then have "tables_ok ?reg (h' # hs)" using fin i ok t' keep by (auto simp: tables_ok_def)
  moreover have "h_capacity h' = h_capacity h" using h'(2) k(1) by (simp add: wf_table_def)
  ultimately show ?thesis using h'(1) by blast
qed

lemma lookup_thread_ok:
  assumes inv: "hash_inv reg hs count" and i: "i \<noteq> 0"
  shows "\<exists>hs'. lookup_thread hs i = Inr (map_option Some (reg i), hs') \<and> hash_inv reg hs' count \<and> (reg i = None \<longrightarrow> hs' = hs)"
proof -
  obtain h rest where hs: "hs = h # rest" using inv by (cases hs) (auto simp: hash_inv_def)
  have ok: "tables_ok reg (h # rest)" and cap: "dom reg = {} \<or> card (dom reg) < unat (h_capacity h) div 2" "unat count = card (dom reg)"
    using inv hs by (simp_all add: hash_inv_def)
  then obtain k where k: "wf_table k h" "card (used h) < 2 ^ k" and tab: "table_ok reg h" by (auto simp: tables_ok_def table_ok_def)
  have val: "in_table h i v \<Longrightarrow> v = reg i \<and> v \<noteq> None" for v using tab i by (auto simp: table_ok_def)
  note f = find_in_ok [OF k i]
  have all: "\<forall>h\<in>set rest. table_ok reg h" using ok by (simp add: tables_ok_def)
  show ?thesis
  proof (cases "\<exists>v. in_table h i v")
    case True
    then obtain a where "reg i = Some a" "find_in h i = Inr (Some (reg i))" using f val by fastforce
    then show ?thesis using hs inv by (simp add: lookup_thread_def)
  next
    case no: False
    then have nf: "find_in h i = Inr None" using f by blast
    show ?thesis
    proof (cases "reg i")
      case None
      have "\<not> (\<exists>g\<in>set rest. \<exists>v. in_table g i v)" using all i None unfolding table_ok_def by metis
      then have "find_in_previous rest i = Inr None" using find_previous_ok [OF all i] by simp
      then show ?thesis using hs inv nf None by (simp add: lookup_thread_def)
    next
      case (Some a)
      then have "\<exists>g\<in>set (h # rest). in_table g i (Some a)" using ok unfolding tables_ok_def by blast
      then have "\<exists>g\<in>set rest. \<exists>v. in_table g i v" using no by auto
      then have prev: "find_in_previous rest i = Inr (Some (Some a))" using find_previous_ok [OF all i] Some by simp
      have same: "reg(i \<mapsto> a) = reg" using Some by auto
      have "dom reg \<noteq> {}" using Some by auto
      then have lt: "card (dom reg) < unat (h_capacity h)" using cap(1) by linarith
      obtain h' where h': "insert_in h i (Some a) = Inr h'" "tables_ok reg (h' # rest)" "h_capacity h' = h_capacity h"
        using insert_main [OF ok i disjI2 [OF Some]] no lt unfolding same by blast
      have "hash_inv reg (h' # rest) count" using h'(2,3) cap by (simp add: hash_inv_def)
      moreover have "lookup_thread hs i = Inr (Some (Some a), h' # rest)" using hs nf prev h'(1) by (simp add: lookup_thread_def)
      ultimately show ?thesis using Some by simp
    qed
  qed
qed

text \<open>Less than 2 to the 62 threads: the capacity does not overflow, and the loop that doubles it ends.\<close>

lemma grow_capacity_ok:
  "unat n < 2 ^ 62 \<Longrightarrow> k \<le> 63 \<Longrightarrow> 64 - k \<le> fuel \<Longrightarrow>
    \<exists>k'\<le>63. grow_capacity fuel n (2 ^ k) = Inr (2 ^ k') \<and> unat n < 2 ^ k' div 2"
proof (induction fuel arbitrary: k)
  case 0
  then show ?case by simp
next
  case (Suc fuel)
  have u: "unat (2 ^ k :: u64) = 2 ^ k" by (rule unat_exp_u64) (use Suc.prems in simp)
  have half: "unat (drop_bit 1 (2 ^ k :: u64)) = 2 ^ k div 2" by (simp only: unat_drop_bit_eq u) (simp add: drop_bit_eq_div)
  show ?case
  proof (cases "n \<ge> drop_bit 1 (2 ^ k)")
    case True
    then have "(2 :: nat) ^ k div 2 \<le> unat n" using half by (simp add: word_le_nat_alt)
    then have "(2 :: nat) ^ k div 2 < 2 ^ 62" using Suc.prems(1) by simp
    then have "k \<noteq> 63" by auto
    then have k: "Suc k \<le> 63" "64 - Suc k \<le> fuel" using Suc.prems by simp_all
    have "push_bit 1 (2 ^ k) = (2 ^ Suc k :: u64)" by (simp add: push_bit_eq_mult)
    then show ?thesis using Suc.IH [OF Suc.prems(1) k] True by (simp del: power_Suc)
  next
    case False
    then have "unat n < 2 ^ k div 2" using half by (simp add: word_le_nat_alt)
    then show ?thesis using False Suc.prems(2) by auto
  qed
qed

lemma resize_ok:
  assumes inv: "hash_inv reg hs count" and few: "card (dom reg) + 1 < 2 ^ 62"
  shows "\<exists>made hs' m'. resize_hash ok (1 + count) hs m = Inr (made, hs', m') \<and>
    (if made then \<exists>h rest. hs' = h # rest \<and> tables_ok reg hs' \<and> card (dom reg) + 1 < unat (h_capacity h) div 2 else \<not> ok m \<and> hs' = hs)"
proof -
  obtain h rest where hs: "hs = h # rest" using inv by (cases hs) (auto simp: hash_inv_def)
  have ok: "tables_ok reg (h # rest)" and cnt: "unat count = card (dom reg)" using inv hs by (simp_all add: hash_inv_def)
  then obtain k where k: "wf_table k h" by (auto simp: tables_ok_def table_ok_def)
  note sz = table_size [OF k]
  have n: "unat (1 + count) = card (dom reg) + 1"
  proof -
    have "of_nat (unat count + 1) = 1 + count" by simp
    moreover have "unat count + 1 < 2 ^ 64" unfolding cnt by (rule less_trans [OF few]) simp
    ultimately show ?thesis using unat_of_nat_u64 [of "unat count + 1"] cnt by simp
  qed
  show ?thesis
  proof (cases "1 + count \<ge> drop_bit 1 (h_capacity h)")
    case False
    then have "card (dom reg) + 1 < unat (h_capacity h) div 2" using n sz(1,3) by (simp add: word_le_nat_alt)
    then show ?thesis using hs ok False by (intro exI [of _ True] exI [of _ hs] exI [of _ m]) (simp add: resize_hash_def)
  next
    case True
    then have "(2 :: nat) ^ k div 2 < 2 ^ 62" using n few sz(3) by (simp add: word_le_nat_alt)
    then have k62: "k \<le> 62"
    proof (cases k)
      case (Suc j)
      then have "(2 :: nat) ^ j < 2 ^ 62" using \<open>(2 :: nat) ^ k div 2 < 2 ^ 62\<close> by simp
      then have "j < 62" by (rule power_less_imp_less_exp [rotated]) simp
      then show ?thesis using Suc by simp
    qed simp
    have cap: "push_bit 1 (h_capacity h) = 2 ^ Suc k" using k by (simp add: wf_table_def push_bit_eq_mult)
    have lt: "unat (1 + count) < 2 ^ 62" using n few by simp
    have kk: "Suc k \<le> 63" "64 - Suc k \<le> 64" using k62 by simp_all
    obtain k' where k': "k' \<le> 63" "grow_capacity 64 (1 + count) (2 ^ Suc k) = Inr (2 ^ k')" "unat (1 + count) < 2 ^ k' div 2"
      using grow_capacity_ok [OF lt kk] by blast
    have run: "resize_hash ok (1 + count) hs m =
        (if \<not> ok m then Inr (False, hs, m + 1) else Inr (True, new_hash_table (2 ^ k') # hs, m + 1))"
      using True hs cap k'(2) by (simp add: resize_hash_def del: power_Suc)
    have k64: "k' < 64" using k'(1) by simp
    note new = new_table_ok [OF k64]
    have "table_ok reg (new_hash_table (2 ^ k'))" unfolding table_ok_def using new by auto
    then have "tables_ok reg (new_hash_table (2 ^ k') # hs)" using ok hs unfolding tables_ok_def by auto
    moreover have "card (dom reg) + 1 < unat (h_capacity (new_hash_table (2 ^ k'))) div 2"
      using k'(3) n table_size(1) [OF new(1)] by simp
    ultimately show ?thesis using run by (cases "ok m") auto
  qed
qed

end
