(* ===== verification/Cq_Queue.thy ===== *)
theory Cq_Queue
  imports Cq_Hash
begin

text \<open>
  \<^verbatim>\<open>ConcurrentQueue\<close> as its clients see it: the list of producers, tokens, the hash from threads to implicit
  producers, and the public operations, which choose a sub-queue and call it. Every operation is executed as a
  whole, in a build without \<^verbatim>\<open>MOODYCAMEL_CPP11_THREAD_LOCAL_SUPPORTED\<close>.
\<close>

section \<open>State\<close>

text \<open>A \<^verbatim>\<open>ProducerBase\<close> is one of the two kinds, as \<^verbatim>\<open>isExplicit\<close> says.\<close>

datatype sub_queue = Explicit_sub explicit | Implicit_sub implicit

definition is_explicit :: "sub_queue \<Rightarrow> bool" where
  "is_explicit s = (case s of Explicit_sub _ \<Rightarrow> True | Implicit_sub _ \<Rightarrow> False)"

record cq_producer =
  pr_sub :: sub_queue
  pr_inactive :: bool
  pr_token :: "nat option"

text \<open>
  Producers and producer tokens live at addresses. \<open>producerList\<close> holds the addresses of the producers from \<^verbatim>\<open>producerListTail\<close> along
  \<^verbatim>\<open>next\<close>: producers are only ever put in front. \<open>hashes\<close> is the chain of hash tables from \<^verbatim>\<open>implicitProducerHash\<close> along \<^verbatim>\<open>prev\<close>,
  \<open>ptokens\<close> the producer tokens of clients with their field \<^verbatim>\<open>producer\<close>.
\<close>

record 'a cqueue =
  prod_heap :: "nat \<Rightarrow> cq_producer option"
  next_producer :: nat
  producerList :: "nat list"
  producerCount :: u32
  q_pool :: "'a pool"
  hashes :: "hash_table list"
  implicitProducerHashCount :: u64
  nextExplicitConsumerId :: u32
  globalExplicitConsumerOffset :: u32
  ptokens :: "nat \<Rightarrow> nat option option"

record consumer_token =
  initialOffset :: u32
  lastKnownGlobalOffset :: u32
  itemsConsumedFromCurrent :: u32
  currentProducer :: "nat option"
  desiredProducer :: "nat option"

text \<open>How the queue is built and used: assertions, traits, which allocations succeed, which elements throw.\<close>

record 'a setting =
  s_ndebug :: bool
  s_traits :: traits
  malloc_ok :: "nat \<Rightarrow> bool"
  nothrow_ctor :: bool
  ctor_throws :: "'a \<Rightarrow> bool"
  assign_throws :: "'a \<Rightarrow> bool"

section \<open>ProducerBase\<close>

definition prod_at :: "'a cqueue \<Rightarrow> nat \<Rightarrow> cq_fault + cq_producer" where
  "prod_at q a = (case prod_heap q a of None \<Rightarrow> Inl Cq_freed | Some pr \<Rightarrow> Inr pr)"

definition put_prod :: "nat \<Rightarrow> cq_producer \<Rightarrow> 'a cqueue \<Rightarrow> 'a cqueue" where
  "put_prod a pr q = q\<lparr>prod_heap := (prod_heap q)(a \<mapsto> pr)\<rparr>"

text \<open>A call of a member function of the producer at an address.\<close>

definition on_producer ::
    "nat \<Rightarrow> (sub_queue \<times> 'a pool \<Rightarrow> cq_fault + 'r \<times> sub_queue \<times> 'a pool) \<Rightarrow> 'a cqueue \<Rightarrow> cq_fault + 'r \<times> 'a cqueue" where
  "on_producer a f q = bind_r (prod_at q a) (\<lambda>pr. bind_r (f (pr_sub pr, q_pool q)) (\<lambda>(r, s, p).
     Inr (r, put_prod a (pr\<lparr>pr_sub := s\<rparr>) (q\<lparr>q_pool := p\<rparr>))))"

definition as_explicit ::
    "('a xstate \<Rightarrow> cq_fault + 'r \<times> 'a xstate) \<Rightarrow> sub_queue \<times> 'a pool \<Rightarrow> cq_fault + 'r \<times> sub_queue \<times> 'a pool" where
  "as_explicit f = (\<lambda>(s, p). case s of
     Explicit_sub e \<Rightarrow> bind_r (f (e, p)) (\<lambda>(r, e, p). Inr (r, Explicit_sub e, p))
   | Implicit_sub i \<Rightarrow> Inl Cq_cast)"

definition as_implicit ::
    "('a istate \<Rightarrow> cq_fault + 'r \<times> 'a istate) \<Rightarrow> sub_queue \<times> 'a pool \<Rightarrow> cq_fault + 'r \<times> sub_queue \<times> 'a pool" where
  "as_implicit f = (\<lambda>(s, p). case s of
     Explicit_sub e \<Rightarrow> Inl Cq_cast
   | Implicit_sub i \<Rightarrow> bind_r (f (i, p)) (\<lambda>(r, i, p). Inr (r, Implicit_sub i, p)))"

definition pb_dequeue :: "'a setting \<Rightarrow> sub_queue \<times> 'a pool \<Rightarrow> cq_fault + 'a option ends \<times> sub_queue \<times> 'a pool" where
  "pb_dequeue S = (\<lambda>(s, p).
     if is_explicit s
     then as_explicit (explicit_dequeue (s_ndebug S) (s_traits S) (assign_throws S)) (s, p)
     else as_implicit (implicit_dequeue (s_ndebug S) (s_traits S) (assign_throws S)) (s, p))"

text \<open>The elements that were delivered, and the number returned.\<close>

definition pb_dequeue_bulk :: "'a setting \<Rightarrow> u64 \<Rightarrow> sub_queue \<times> 'a pool \<Rightarrow> cq_fault + ('a list \<times> u64 ends) \<times> sub_queue \<times> 'a pool" where
  "pb_dequeue_bulk S mx = (\<lambda>(s, p).
     if is_explicit s
     then as_explicit (\<lambda>s. bind_r (explicit_dequeue_bulk (s_ndebug S) (s_traits S) (assign_throws S) mx s) (\<lambda>(xs, r, s). Inr ((xs, r), s))) (s, p)
     else as_implicit (\<lambda>s. bind_r (implicit_dequeue_bulk (s_ndebug S) (s_traits S) (assign_throws S) mx s) (\<lambda>(xs, r, s). Inr ((xs, r), s))) (s, p))"

definition pb_size_approx :: "sub_queue \<Rightarrow> u64" where
  "pb_size_approx s =
     (let tail = (case s of Explicit_sub e \<Rightarrow> x_tailIndex e | Implicit_sub i \<Rightarrow> i_tailIndex i);
          head = (case s of Explicit_sub e \<Rightarrow> x_headIndex e | Implicit_sub i \<Rightarrow> i_headIndex i) in
      if circular_less_than head tail then tail - head else 0)"

section \<open>The producer list\<close>

text \<open>\<^verbatim>\<open>next_prod\<close>: the producer after one in the list.\<close>

fun next_in :: "nat \<Rightarrow> nat list \<Rightarrow> nat option" where
  "next_in a (b # c # cs) = (if a = b then Some c else next_in a (c # cs))"
| "next_in a _ = None"

definition add_producer :: "cq_producer \<Rightarrow> 'a cqueue \<Rightarrow> nat \<times> 'a cqueue" where
  "add_producer pr q =
     (let a = next_producer q in
      (a, put_prod a pr (q\<lparr>next_producer := a + 1, producerCount := producerCount q + 1, producerList := a # producerList q\<rparr>)))"

text \<open>\<^verbatim>\<open>create<ExplicitProducer>(this)\<close> and \<^verbatim>\<open>create<ImplicitProducer>(this)\<close>: memory for the object, then its constructor.\<close>

definition create_producer :: "'a setting \<Rightarrow> bool \<Rightarrow> 'a pool \<Rightarrow> cq_fault + sub_queue option \<times> 'a pool" where
  "create_producer S isExplicit p =
     (let p' = p\<lparr>mallocs := mallocs p + 1\<rparr> in
      if \<not> malloc_ok S (mallocs p) then Inr (None, p')
      else if isExplicit then bind_r (new_explicit (s_traits S) (malloc_ok S) p') (\<lambda>(e, p). Inr (Some (Explicit_sub e), p))
      else bind_r (new_implicit (s_ndebug S) (s_traits S) (malloc_ok S) p') (\<lambda>(i, p). Inr (Some (Implicit_sub i), p)))"

fun find_inactive :: "'a cqueue \<Rightarrow> bool \<Rightarrow> nat list \<Rightarrow> cq_fault + nat option" where
  "find_inactive q isExplicit [] = Inr None"
| "find_inactive q isExplicit (a # as) = bind_r (prod_at q a) (\<lambda>pr.
     if pr_inactive pr \<and> is_explicit (pr_sub pr) = isExplicit then Inr (Some a)
     else find_inactive q isExplicit as)"

text \<open>The producer, or null, and whether it was recycled.\<close>

definition recycle_or_create_producer :: "'a setting \<Rightarrow> bool \<Rightarrow> 'a cqueue \<Rightarrow> cq_fault + (nat option \<times> bool) \<times> 'a cqueue" where
  "recycle_or_create_producer S isExplicit q =
     bind_r (find_inactive q isExplicit (producerList q)) (\<lambda>r.
       case r of
         Some a \<Rightarrow> bind_r (prod_at q a) (\<lambda>pr. Inr ((Some a, True), put_prod a (pr\<lparr>pr_inactive := False\<rparr>) q))
       | None \<Rightarrow> bind_r (create_producer S isExplicit (q_pool q)) (\<lambda>(s, p).
           case s of
             None \<Rightarrow> Inr ((None, False), q\<lparr>q_pool := p\<rparr>)
           | Some s \<Rightarrow>
             let (a, q) = add_producer \<lparr>pr_sub = s, pr_inactive = False, pr_token = None\<rparr> (q\<lparr>q_pool := p\<rparr>) in
             Inr ((Some a, False), q)))"

section \<open>The hash\<close>

definition populate_initial_implicit_producer_hash :: "traits \<Rightarrow> hash_table list" where
  "populate_initial_implicit_producer_hash t =
     (if INITIAL_IMPLICIT_PRODUCER_HASH_SIZE t = 0 then [] else [new_hash_table (INITIAL_IMPLICIT_PRODUCER_HASH_SIZE t)])"

text \<open>
  The producer of a thread, or null. Run alone, a thread always gets the resize lock; if the table were too full
  nevertheless, it would wait forever.
\<close>

definition get_or_add_implicit_producer :: "'a setting \<Rightarrow> u64 \<Rightarrow> 'a cqueue \<Rightarrow> cq_fault + nat option \<times> 'a cqueue" where
  "get_or_add_implicit_producer S i q =
     bind_r (lookup_thread (hashes q) i) (\<lambda>(r, hs).
       case r of
         Some v \<Rightarrow> Inr (v, q\<lparr>hashes := hs\<rparr>)
       | None \<Rightarrow>
         let newCount = 1 + implicitProducerHashCount q; q = q\<lparr>implicitProducerHashCount := newCount\<rparr> in
         bind_r (resize_hash (malloc_ok S) newCount hs (mallocs (q_pool q))) (\<lambda>(made, hs, m).
           let q = q\<lparr>hashes := hs, q_pool := (q_pool q)\<lparr>mallocs := m\<rparr>\<rparr> in
           if \<not> made then Inr (None, q\<lparr>implicitProducerHashCount := implicitProducerHashCount q - 1\<rparr>)
           else case hs of
               [] \<Rightarrow> Inl Cq_null
             | h # rest \<Rightarrow>
               if newCount < drop_bit 1 (h_capacity h) + drop_bit 2 (h_capacity h)
               then bind_r (recycle_or_create_producer S False q) (\<lambda>((producer, recycled), q).
                 case producer of
                   None \<Rightarrow> Inr (None, q\<lparr>implicitProducerHashCount := implicitProducerHashCount q - 1\<rparr>)
                 | Some a \<Rightarrow>
                   let q = (if recycled then q\<lparr>implicitProducerHashCount := implicitProducerHashCount q - 1\<rparr> else q) in
                   bind_r (insert_in h i (Some a)) (\<lambda>h. Inr (Some a, q\<lparr>hashes := h # rest\<rparr>)))
               else Inl Cq_endless))"

section \<open>Construction\<close>

definition empty_queue :: "traits \<Rightarrow> 'a pool \<Rightarrow> 'a cqueue" where
  "empty_queue t p = \<lparr>prod_heap = (\<lambda>_. None), next_producer = 0, producerList = [], producerCount = 0, q_pool = p,
     hashes = populate_initial_implicit_producer_hash t, implicitProducerHashCount = 0, nextExplicitConsumerId = 0,
     globalExplicitConsumerOffset = 0, ptokens = (\<lambda>_. None)\<rparr>"

definition new_cqueue :: "'a setting \<Rightarrow> u64 \<Rightarrow> 'a cqueue" where
  "new_cqueue S capacity = empty_queue (s_traits S) (populate_initial_block_list (s_traits S) (malloc_ok S)
     (capacity div BLOCK_SIZE (s_traits S) + (if capacity AND (BLOCK_SIZE (s_traits S) - 1) = 0 then 0 else 1)))"

definition blocks_needed :: "traits \<Rightarrow> u64 \<Rightarrow> u64 \<Rightarrow> u64 \<Rightarrow> u64" where
  "blocks_needed t minCapacity maxExplicitProducers maxImplicitProducers =
     ((minCapacity + BLOCK_SIZE t - 1) div BLOCK_SIZE t - 1) * (maxExplicitProducers + 1) +
     2 * (maxExplicitProducers + maxImplicitProducers)"

definition new_cqueue_for :: "'a setting \<Rightarrow> u64 \<Rightarrow> u64 \<Rightarrow> u64 \<Rightarrow> 'a cqueue" where
  "new_cqueue_for S minCapacity maxExplicitProducers maxImplicitProducers =
     empty_queue (s_traits S) (populate_initial_block_list (s_traits S) (malloc_ok S)
       (blocks_needed (s_traits S) minCapacity maxExplicitProducers maxImplicitProducers))"

section \<open>Tokens\<close>

definition token_at :: "'a cqueue \<Rightarrow> nat \<Rightarrow> cq_fault + nat option" where
  "token_at q k = (case ptokens q k of None \<Rightarrow> Inl Cq_freed | Some a \<Rightarrow> Inr a)"

definition set_token :: "nat \<Rightarrow> nat option \<Rightarrow> 'a cqueue \<Rightarrow> 'a cqueue" where
  "set_token k a q = q\<lparr>ptokens := (ptokens q)(k \<mapsto> a)\<rparr>"

text \<open>\<^verbatim>\<open>producer->token = this\<close>, where there is a producer.\<close>

definition own_producer :: "nat option \<Rightarrow> nat \<Rightarrow> 'a cqueue \<Rightarrow> cq_fault + 'a cqueue" where
  "own_producer a k q = (case a of
     None \<Rightarrow> Inr q
   | Some a \<Rightarrow> bind_r (prod_at q a) (\<lambda>pr. Inr (put_prod a (pr\<lparr>pr_token := Some k\<rparr>) q)))"

definition new_producer_token :: "'a setting \<Rightarrow> nat \<Rightarrow> 'a cqueue \<Rightarrow> cq_fault + 'a cqueue" where
  "new_producer_token S k q =
     bind_r (recycle_or_create_producer S True q) (\<lambda>((a, _), q). own_producer a k (set_token k a q))"

definition valid :: "'a cqueue \<Rightarrow> nat \<Rightarrow> cq_fault + bool" where
  "valid q k = bind_r (token_at q k) (\<lambda>a. Inr (a \<noteq> None))"

definition move_producer_token :: "nat \<Rightarrow> nat \<Rightarrow> 'a cqueue \<Rightarrow> cq_fault + 'a cqueue" where
  "move_producer_token k other q = bind_r (token_at q other) (\<lambda>a. own_producer a k (set_token other None (set_token k a q)))"

definition swap_producer_tokens :: "nat \<Rightarrow> nat \<Rightarrow> 'a cqueue \<Rightarrow> cq_fault + 'a cqueue" where
  "swap_producer_tokens k other q =
     bind_r (token_at q k) (\<lambda>a. bind_r (token_at q other) (\<lambda>b.
       bind_r (own_producer b k (set_token other a (set_token k b q))) (own_producer a other)))"

definition delete_producer_token :: "nat \<Rightarrow> 'a cqueue \<Rightarrow> cq_fault + 'a cqueue" where
  "delete_producer_token k q =
     bind_r (token_at q k) (\<lambda>a.
       let q' = q\<lparr>ptokens := (ptokens q)(k := None)\<rparr> in
       case a of
         None \<Rightarrow> Inr q'
       | Some a \<Rightarrow> bind_r (prod_at q a) (\<lambda>pr. Inr (put_prod a (pr\<lparr>pr_token := None, pr_inactive := True\<rparr>) q')))"

definition new_consumer_token :: "'a cqueue \<Rightarrow> consumer_token \<times> 'a cqueue" where
  "new_consumer_token q =
     (\<lparr>initialOffset = nextExplicitConsumerId q, lastKnownGlobalOffset = - 1, itemsConsumedFromCurrent = 0,
       currentProducer = None, desiredProducer = None\<rparr>,
      q\<lparr>nextExplicitConsumerId := nextExplicitConsumerId q + 1\<rparr>)"

definition move_consumer_token :: "consumer_token \<Rightarrow> consumer_token" where
  "move_consumer_token other =
     \<lparr>initialOffset = initialOffset other, lastKnownGlobalOffset = lastKnownGlobalOffset other,
      itemsConsumedFromCurrent = itemsConsumedFromCurrent other, currentProducer = currentProducer other,
      desiredProducer = desiredProducer other\<rparr>"

definition swap_consumer_tokens :: "consumer_token \<times> consumer_token \<Rightarrow> consumer_token \<times> consumer_token" where
  "swap_consumer_tokens = (\<lambda>(ct, other).
     (ct\<lparr>initialOffset := initialOffset other, lastKnownGlobalOffset := lastKnownGlobalOffset other,
        itemsConsumedFromCurrent := itemsConsumedFromCurrent other, currentProducer := currentProducer other,
        desiredProducer := desiredProducer other\<rparr>,
      other\<lparr>initialOffset := initialOffset ct, lastKnownGlobalOffset := lastKnownGlobalOffset ct,
        itemsConsumedFromCurrent := itemsConsumedFromCurrent ct, currentProducer := currentProducer ct,
        desiredProducer := desiredProducer ct\<rparr>))"

section \<open>Enqueue\<close>

text \<open>\<^verbatim>\<open>enqueue\<close> and \<^verbatim>\<open>try_enqueue\<close> differ in the mode; with a token, and by a thread without one.\<close>

definition cq_enqueue_token :: "'a setting \<Rightarrow> cq_AllocationMode \<Rightarrow> nat \<Rightarrow> 'a \<Rightarrow> 'a cqueue \<Rightarrow> cq_fault + bool ends \<times> 'a cqueue" where
  "cq_enqueue_token S m k x q =
     bind_r (token_at q k) (\<lambda>a. case a of
       None \<Rightarrow> Inl Cq_null
     | Some a \<Rightarrow> on_producer a (as_explicit (explicit_enqueue (s_ndebug S) (s_traits S) (malloc_ok S) (nothrow_ctor S) (ctor_throws S) m x)) q)"

definition cq_inner_enqueue :: "'a setting \<Rightarrow> cq_AllocationMode \<Rightarrow> u64 \<Rightarrow> 'a \<Rightarrow> 'a cqueue \<Rightarrow> cq_fault + bool ends \<times> 'a cqueue" where
  "cq_inner_enqueue S m i x q =
     bind_r (get_or_add_implicit_producer S i q) (\<lambda>(a, q). case a of
       None \<Rightarrow> Inr (Returns False, q)
     | Some a \<Rightarrow> on_producer a (as_implicit (implicit_enqueue (s_ndebug S) (s_traits S) (malloc_ok S) (nothrow_ctor S) (ctor_throws S) m x)) q)"

definition cq_enqueue :: "'a setting \<Rightarrow> cq_AllocationMode \<Rightarrow> u64 \<Rightarrow> 'a \<Rightarrow> 'a cqueue \<Rightarrow> cq_fault + bool ends \<times> 'a cqueue" where
  "cq_enqueue S m i x q =
     (if INITIAL_IMPLICIT_PRODUCER_HASH_SIZE (s_traits S) = 0 then Inr (Returns False, q) else cq_inner_enqueue S m i x q)"

definition cq_enqueue_bulk_token :: "'a setting \<Rightarrow> cq_AllocationMode \<Rightarrow> nat \<Rightarrow> 'a list \<Rightarrow> 'a cqueue \<Rightarrow> cq_fault + bool ends \<times> 'a cqueue" where
  "cq_enqueue_bulk_token S m k xs q =
     bind_r (token_at q k) (\<lambda>a. case a of
       None \<Rightarrow> Inl Cq_null
     | Some a \<Rightarrow> on_producer a (as_explicit (explicit_enqueue_bulk (s_ndebug S) (s_traits S) (malloc_ok S) (nothrow_ctor S) (ctor_throws S) m xs)) q)"

definition inner_enqueue_bulk :: "'a setting \<Rightarrow> cq_AllocationMode \<Rightarrow> u64 \<Rightarrow> 'a list \<Rightarrow> 'a cqueue \<Rightarrow> cq_fault + bool ends \<times> 'a cqueue" where
  "inner_enqueue_bulk S m i xs q =
     bind_r (get_or_add_implicit_producer S i q) (\<lambda>(a, q). case a of
       None \<Rightarrow> Inr (Returns False, q)
     | Some a \<Rightarrow> on_producer a (as_implicit (implicit_enqueue_bulk (s_ndebug S) (s_traits S) (malloc_ok S) (nothrow_ctor S) (ctor_throws S) m xs)) q)"

definition cq_enqueue_bulk :: "'a setting \<Rightarrow> cq_AllocationMode \<Rightarrow> u64 \<Rightarrow> 'a list \<Rightarrow> 'a cqueue \<Rightarrow> cq_fault + bool ends \<times> 'a cqueue" where
  "cq_enqueue_bulk S m i xs q =
     (if INITIAL_IMPLICIT_PRODUCER_HASH_SIZE (s_traits S) = 0 then Inr (Returns False, q) else inner_enqueue_bulk S m i xs q)"

section \<open>Dequeue\<close>

text \<open>The first loop of \<^verbatim>\<open>try_dequeue\<close>: the largest of the first three sub-queues that are not empty.\<close>

fun best_of :: "'a cqueue \<Rightarrow> nat list \<Rightarrow> u64 \<Rightarrow> nat option \<Rightarrow> u64 \<Rightarrow> cq_fault + u64 \<times> nat option" where
  "best_of q [] nonEmptyCount best bestSize = Inr (nonEmptyCount, best)"
| "best_of q (a # as) nonEmptyCount best bestSize =
     (if \<not> nonEmptyCount < 3 then Inr (nonEmptyCount, best)
      else bind_r (prod_at q a) (\<lambda>pr.
        let sz = pb_size_approx (pr_sub pr) in
        if sz > 0
        then if sz > bestSize then best_of q as (nonEmptyCount + 1) (Some a) sz else best_of q as (nonEmptyCount + 1) best bestSize
        else best_of q as nonEmptyCount best bestSize))"

text \<open>The loop that tries one sub-queue after the other, except one.\<close>

fun dequeue_first :: "'a setting \<Rightarrow> nat option \<Rightarrow> nat list \<Rightarrow> 'a cqueue \<Rightarrow> cq_fault + 'a option ends \<times> 'a cqueue" where
  "dequeue_first S except [] q = Inr (Returns None, q)"
| "dequeue_first S except (a # as) q =
     (if Some a = except then dequeue_first S except as q
      else bind_r (on_producer a (pb_dequeue S) q) (\<lambda>(r, q). if r = Returns None then dequeue_first S except as q else Inr (r, q)))"

definition cq_try_dequeue :: "'a setting \<Rightarrow> 'a cqueue \<Rightarrow> cq_fault + 'a option ends \<times> 'a cqueue" where
  "cq_try_dequeue S q =
     bind_r (best_of q (producerList q) 0 None 0) (\<lambda>(nonEmptyCount, best).
       if nonEmptyCount > 0
       then (case best of
           None \<Rightarrow> Inl Cq_null
         | Some a \<Rightarrow> bind_r (on_producer a (pb_dequeue S) q) (\<lambda>(r, q).
             if r = Returns None then dequeue_first S best (producerList q) q else Inr (r, q)))
       else Inr (Returns None, q))"

definition try_dequeue_non_interleaved :: "'a setting \<Rightarrow> 'a cqueue \<Rightarrow> cq_fault + 'a option ends \<times> 'a cqueue" where
  "try_dequeue_non_interleaved S q = dequeue_first S None (producerList q) q"

fun dequeue_bulk_all :: "'a setting \<Rightarrow> u64 \<Rightarrow> u64 \<Rightarrow> nat list \<Rightarrow> 'a cqueue \<Rightarrow> cq_fault + ('a list \<times> u64 ends) \<times> 'a cqueue" where
  "dequeue_bulk_all S mx count [] q = Inr (([], Returns count), q)"
| "dequeue_bulk_all S mx count (a # as) q =
     bind_r (on_producer a (pb_dequeue_bulk S (mx - count)) q) (\<lambda>((xs, r), q).
       case r of
         Throws \<Rightarrow> Inr ((xs, Throws), q)
       | Returns n \<Rightarrow>
         if count + n = mx then Inr ((xs, Returns (count + n)), q)
         else bind_r (dequeue_bulk_all S mx (count + n) as q) (\<lambda>((ys, r), q). Inr ((xs @ ys, r), q)))"

definition cq_try_dequeue_bulk :: "'a setting \<Rightarrow> u64 \<Rightarrow> 'a cqueue \<Rightarrow> cq_fault + ('a list \<times> u64 ends) \<times> 'a cqueue" where
  "cq_try_dequeue_bulk S mx q = dequeue_bulk_all S mx 0 (producerList q) q"

definition try_dequeue_from_producer :: "'a setting \<Rightarrow> nat \<Rightarrow> 'a cqueue \<Rightarrow> cq_fault + 'a option ends \<times> 'a cqueue" where
  "try_dequeue_from_producer S k q =
     bind_r (token_at q k) (\<lambda>a. case a of
       None \<Rightarrow> Inl Cq_null
     | Some a \<Rightarrow> on_producer a (as_explicit (explicit_dequeue (s_ndebug S) (s_traits S) (assign_throws S))) q)"

definition try_dequeue_bulk_from_producer :: "'a setting \<Rightarrow> nat \<Rightarrow> u64 \<Rightarrow> 'a cqueue \<Rightarrow> cq_fault + ('a list \<times> u64 ends) \<times> 'a cqueue" where
  "try_dequeue_bulk_from_producer S k mx q =
     bind_r (token_at q k) (\<lambda>a. case a of
       None \<Rightarrow> Inl Cq_null
     | Some a \<Rightarrow> on_producer a (as_explicit (\<lambda>s. bind_r (explicit_dequeue_bulk (s_ndebug S) (s_traits S) (assign_throws S) mx s)
         (\<lambda>(xs, r, s). Inr ((xs, r), s)))) q)"

fun sum_sizes :: "'a cqueue \<Rightarrow> nat list \<Rightarrow> u64 \<Rightarrow> cq_fault + u64" where
  "sum_sizes q [] sz = Inr sz"
| "sum_sizes q (a # as) sz = bind_r (prod_at q a) (\<lambda>pr. sum_sizes q as (sz + pb_size_approx (pr_sub pr)))"

definition cq_size_approx :: "'a cqueue \<Rightarrow> cq_fault + u64" where
  "cq_size_approx q = sum_sizes q (producerList q) 0"

section \<open>Consumer tokens\<close>

text \<open>\<^verbatim>\<open>next_prod\<close>, and the tail of the list after its end.\<close>

definition next_or_tail :: "'a cqueue \<Rightarrow> nat \<Rightarrow> cq_fault + nat" where
  "next_or_tail q a = bind_r (prod_at q a) (\<lambda>_.
     case next_in a (producerList q) of
       Some b \<Rightarrow> Inr b
     | None \<Rightarrow> (case producerList q of [] \<Rightarrow> Inl Cq_null | b # _ \<Rightarrow> Inr b))"

fun rotate_producer :: "nat \<Rightarrow> 'a cqueue \<Rightarrow> nat \<Rightarrow> cq_fault + nat" where
  "rotate_producer 0 q a = Inr a"
| "rotate_producer (Suc n) q a = bind_r (next_or_tail q a) (rotate_producer n q)"

text \<open>Dividing by a count of producers that has wrapped around to zero is a fault.\<close>

definition update_current_producer_after_rotation :: "consumer_token \<Rightarrow> 'a cqueue \<Rightarrow> cq_fault + bool \<times> consumer_token" where
  "update_current_producer_after_rotation ct q =
     (case (desiredProducer ct, producerList q) of
        (None, []) \<Rightarrow> Inr (False, ct)
      | _ \<Rightarrow>
        let prodCount = producerCount q; globalOffset = globalExplicitConsumerOffset q in
        if prodCount = 0 then Inl Cq_bounds
        else bind_r (case (desiredProducer ct, producerList q) of
            (Some d, _) \<Rightarrow> Inr d
          | (None, []) \<Rightarrow> Inl Cq_null
          | (None, tail # _) \<Rightarrow> rotate_producer (unat (prodCount - 1 - (initialOffset ct mod prodCount))) q tail) (\<lambda>d.
        let delta = globalOffset - lastKnownGlobalOffset ct; delta = (if delta \<ge> prodCount then delta mod prodCount else delta) in
        bind_r (rotate_producer (unat delta) q d) (\<lambda>d.
          Inr (True, ct\<lparr>desiredProducer := Some d, lastKnownGlobalOffset := globalOffset, currentProducer := Some d,
            itemsConsumedFromCurrent := 0\<rparr>))))"

definition refresh_token :: "consumer_token \<Rightarrow> 'a cqueue \<Rightarrow> cq_fault + bool \<times> consumer_token" where
  "refresh_token ct q =
     (if desiredProducer ct = None \<or> lastKnownGlobalOffset ct \<noteq> globalExplicitConsumerOffset q
      then update_current_producer_after_rotation ct q else Inr (True, ct))"

definition current_producer :: "consumer_token \<Rightarrow> cq_fault + nat" where
  "current_producer ct = (case currentProducer ct of None \<Rightarrow> Inl Cq_null | Some a \<Rightarrow> Inr a)"

fun dequeue_round :: "nat \<Rightarrow> 'a setting \<Rightarrow> nat \<Rightarrow> consumer_token \<Rightarrow> 'a cqueue \<Rightarrow> cq_fault + 'a option ends \<times> consumer_token \<times> 'a cqueue" where
  "dequeue_round 0 S ptr ct q = Inl Cq_endless"
| "dequeue_round (Suc fuel) S ptr ct q =
     (if Some ptr = currentProducer ct then Inr (Returns None, ct, q)
      else bind_r (on_producer ptr (pb_dequeue S) q) (\<lambda>(r, q).
        case r of
          Throws \<Rightarrow> Inr (Throws, ct, q)
        | Returns (Some x) \<Rightarrow> Inr (Returns (Some x), ct\<lparr>currentProducer := Some ptr, itemsConsumedFromCurrent := 1\<rparr>, q)
        | Returns None \<Rightarrow> bind_r (next_or_tail q ptr) (\<lambda>ptr. dequeue_round fuel S ptr ct q)))"

definition cq_try_dequeue_token :: "'a setting \<Rightarrow> consumer_token \<Rightarrow> 'a cqueue \<Rightarrow> cq_fault + 'a option ends \<times> consumer_token \<times> 'a cqueue" where
  "cq_try_dequeue_token S ct q =
     bind_r (refresh_token ct q) (\<lambda>(ready, ct).
       if \<not> ready then Inr (Returns None, ct, q)
       else bind_r (current_producer ct) (\<lambda>c. bind_r (on_producer c (pb_dequeue S) q) (\<lambda>(r, q).
         case r of
           Throws \<Rightarrow> Inr (Throws, ct, q)
         | Returns (Some x) \<Rightarrow>
           let n = itemsConsumedFromCurrent ct + 1 in
           Inr (Returns (Some x), ct\<lparr>itemsConsumedFromCurrent := n\<rparr>,
             if n = EXPLICIT_CONSUMER_CONSUMPTION_QUOTA_BEFORE_ROTATE (s_traits S)
             then q\<lparr>globalExplicitConsumerOffset := globalExplicitConsumerOffset q + 1\<rparr> else q)
         | Returns None \<Rightarrow> bind_r (next_or_tail q c) (\<lambda>ptr. dequeue_round (length (producerList q) + 1) S ptr ct q))))"

fun dequeue_bulk_round ::
    "nat \<Rightarrow> 'a setting \<Rightarrow> u64 \<Rightarrow> u64 \<Rightarrow> nat \<Rightarrow> consumer_token \<Rightarrow> 'a cqueue \<Rightarrow> cq_fault + ('a list \<times> u64 ends) \<times> consumer_token \<times> 'a cqueue" where
  "dequeue_bulk_round 0 S mx count ptr ct q = Inl Cq_endless"
| "dequeue_bulk_round (Suc fuel) S mx count ptr ct q =
     (if Some ptr = currentProducer ct then Inr (([], Returns count), ct, q)
      else bind_r (on_producer ptr (pb_dequeue_bulk S mx) q) (\<lambda>((xs, r), q).
        case r of
          Throws \<Rightarrow> Inr ((xs, Throws), ct, q)
        | Returns dequeued \<Rightarrow>
          let count = count + dequeued;
              ct = (if dequeued \<noteq> 0 then ct\<lparr>currentProducer := Some ptr, itemsConsumedFromCurrent := ucast dequeued\<rparr> else ct) in
          if dequeued = mx then Inr ((xs, Returns count), ct, q)
          else bind_r (next_or_tail q ptr) (\<lambda>ptr.
            bind_r (dequeue_bulk_round fuel S (mx - dequeued) count ptr ct q) (\<lambda>((ys, r), ct, q). Inr ((xs @ ys, r), ct, q)))))"

definition cq_try_dequeue_bulk_token ::
    "'a setting \<Rightarrow> consumer_token \<Rightarrow> u64 \<Rightarrow> 'a cqueue \<Rightarrow> cq_fault + ('a list \<times> u64 ends) \<times> consumer_token \<times> 'a cqueue" where
  "cq_try_dequeue_bulk_token S ct mx q =
     bind_r (refresh_token ct q) (\<lambda>(ready, ct).
       if \<not> ready then Inr (([], Returns 0), ct, q)
       else bind_r (current_producer ct) (\<lambda>c. bind_r (on_producer c (pb_dequeue_bulk S mx) q) (\<lambda>((xs, r), q).
         case r of
           Throws \<Rightarrow> Inr ((xs, Throws), ct, q)
         | Returns count \<Rightarrow>
           let ct = ct\<lparr>itemsConsumedFromCurrent := itemsConsumedFromCurrent ct + ucast count\<rparr> in
           if count = mx
           then Inr ((xs, Returns mx), ct,
             if itemsConsumedFromCurrent ct \<ge> EXPLICIT_CONSUMER_CONSUMPTION_QUOTA_BEFORE_ROTATE (s_traits S)
             then q\<lparr>globalExplicitConsumerOffset := globalExplicitConsumerOffset q + 1\<rparr> else q)
           else bind_r (next_or_tail q c) (\<lambda>ptr.
             bind_r (dequeue_bulk_round ((length (producerList q) + 1) * (length (producerList q) + 1)) S (mx - count) count ptr ct q)
               (\<lambda>((ys, r), ct, q). Inr ((xs @ ys, r), ct, q))))))"

section \<open>Destruction\<close>

text \<open>The producers, each with the token that points to it; then the blocks: those of the free list that were allocated one by one, and the initial pool.\<close>

fun delete_producers :: "bool \<Rightarrow> traits \<Rightarrow> nat list \<Rightarrow> 'a cqueue \<Rightarrow> cq_fault + 'a cqueue" where
  "delete_producers nd t [] q = Inr q"
| "delete_producers nd t (a # as) q = bind_r (prod_at q a) (\<lambda>pr.
     let q = (case pr_token pr of None \<Rightarrow> q | Some k \<Rightarrow> set_token k None q) in
     bind_r (case pr_sub pr of
         Explicit_sub e \<Rightarrow> delete_explicit (Suc (next_block (q_pool q))) nd t (e, q_pool q)
       | Implicit_sub i \<Rightarrow> delete_implicit nd t (i, q_pool q)) (\<lambda>p.
       delete_producers nd t as (q\<lparr>prod_heap := (prod_heap q)(a := None), q_pool := p\<rparr>)))"

fun delete_free_blocks :: "nat list \<Rightarrow> 'a pool \<Rightarrow> cq_fault + 'a pool" where
  "delete_free_blocks [] p = Inr p"
| "delete_free_blocks (b # bs) p = bind_r (cq_block_at p b) (\<lambda>blk.
     bind_r (if dynamicallyAllocated blk then destroy_block b p else Inr p) (delete_free_blocks bs))"

definition delete_cqueue :: "bool \<Rightarrow> traits \<Rightarrow> 'a cqueue \<Rightarrow> cq_fault + 'a cqueue" where
  "delete_cqueue nd t q =
     bind_r (delete_producers nd t (producerList q) q) (\<lambda>q.
     bind_r (delete_free_blocks (freeList (q_pool q)) (q_pool q)) (\<lambda>p.
       Inr (q\<lparr>q_pool := p\<lparr>heap := (\<lambda>b. if b < unat (initialBlockPoolSize p) then None else heap p b)\<rparr>, hashes := []\<rparr>)))"

end
