(* ===== verification/Cq_Queue_Fifo.thy ===== *)
theory Cq_Queue_Fifo
  imports Cq_Queue
begin

text \<open>
  \<^verbatim>\<open>ConcurrentQueue\<close> as a collection of lists, one for each producer: the invariant that ties sub-queues, pool, hash and
  tokens together, and what the public operations do to the lists.
\<close>

section \<open>A sub-queue of either kind\<close>

text \<open>A setting in which no element throws, and whose traits satisfy the static assertions without being absurdly large.\<close>

definition setting_ok :: "'a setting \<Rightarrow> nat \<Rightarrow> bool" where
  "setting_ok S b \<longleftrightarrow> block_bits (s_traits S) b \<and>
     (\<exists>i. EXPLICIT_INITIAL_INDEX_SIZE (s_traits S) = 2 ^ i \<and> 1 \<le> i \<and> i + b \<le> 64) \<and>
     (\<exists>i. IMPLICIT_INITIAL_INDEX_SIZE (s_traits S) = 2 ^ i \<and> 1 \<le> i \<and> i + b \<le> 64) \<and>
     (\<exists>i<64. INITIAL_IMPLICIT_PRODUCER_HASH_SIZE (s_traits S) = 2 ^ i) \<and>
     nothrow_ctor S \<and> ctor_throws S = (\<lambda>_. False) \<and> assign_throws S = (\<lambda>_. False)"

definition sub_rep :: "'a setting \<Rightarrow> nat \<Rightarrow> 'a list \<Rightarrow> nat set \<Rightarrow> sub_queue \<Rightarrow> 'a pool \<Rightarrow> bool" where
  "sub_rep S b xs R s p = (case s of
     Explicit_sub e \<Rightarrow> xqueue (s_traits S) b xs R (e, p)
   | Implicit_sub i \<Rightarrow> iqueue (s_traits S) (malloc_ok S) b xs R (i, p))"

text \<open>The outcome of a call of the sub-queue: the new list may depend on the answer.\<close>

definition sub_call ::
    "'a setting \<Rightarrow> nat \<Rightarrow> ('r \<Rightarrow> 'a list) \<Rightarrow> ('r \<Rightarrow> bool) \<Rightarrow> nat set \<Rightarrow> (sub_queue \<times> 'a pool \<Rightarrow> cq_fault + 'r \<times> sub_queue \<times> 'a pool) \<Rightarrow>
     sub_queue \<Rightarrow> 'a pool \<Rightarrow> bool" where
  "sub_call S b g P R f s p \<longleftrightarrow> (\<exists>r s' p' R'. f (s, p) = Inr (r, s', p') \<and> sub_rep S b (g r) R' s' p' \<and> moves R R' p p' \<and>
     is_explicit s' = is_explicit s \<and> P r)"

lemma sub_callI:
  "f (s, p) = Inr (r, s', p') \<Longrightarrow> sub_rep S b (g r) R' s' p' \<Longrightarrow> moves R R' p p' \<Longrightarrow> is_explicit s' = is_explicit s \<Longrightarrow> P r \<Longrightarrow>
     sub_call S b g P R f s p"
  unfolding sub_call_def by blast

lemma sub_dequeue:
  assumes "setting_ok S b" and rep: "sub_rep S b xs R s p"
  shows "sub_call S b (\<lambda>_. tl xs) (\<lambda>r. r = Returns (case xs of [] \<Rightarrow> None | x # _ \<Rightarrow> Some x)) R (pb_dequeue S) s p"
proof -
  have at: "assign_throws S = (\<lambda>_. False)" using assms(1) by (simp add: setting_ok_def)
  show ?thesis
  proof (cases s)
    case (Explicit_sub e)
    obtain e' p' R' where "explicit_dequeue (s_ndebug S) (s_traits S) (\<lambda>_. False) (e, p) =
        Inr (Returns (case xs of [] \<Rightarrow> None | x # _ \<Rightarrow> Some x), e', p')" "xqueue (s_traits S) b (tl xs) R' (e', p')" "moves R R' p p'"
      using xq.deq_law [of "s_traits S" b xs R e p "s_ndebug S"] rep Explicit_sub by (auto simp: sub_rep_def)
    then show ?thesis
      by (intro sub_callI [where s' = "Explicit_sub e'" and R' = R' and p' = p'])
        (simp_all add: pb_dequeue_def as_explicit_def is_explicit_def sub_rep_def Explicit_sub at)
  next
    case (Implicit_sub i)
    obtain i' p' R' where "implicit_dequeue (s_ndebug S) (s_traits S) (\<lambda>_. False) (i, p) =
        Inr (Returns (case xs of [] \<Rightarrow> None | x # _ \<Rightarrow> Some x), i', p')" "iqueue (s_traits S) (malloc_ok S) b (tl xs) R' (i', p')" "moves R R' p p'"
      using iq.deq_law [of "s_traits S" "malloc_ok S" b xs R i p "s_ndebug S"] rep Implicit_sub by (auto simp: sub_rep_def)
    then show ?thesis
      by (intro sub_callI [where s' = "Implicit_sub i'" and R' = R' and p' = p'])
        (simp_all add: pb_dequeue_def as_implicit_def is_explicit_def sub_rep_def Implicit_sub at)
  qed
qed

lemma sub_dequeue_bulk:
  assumes "setting_ok S b" and rep: "sub_rep S b xs R s p"
  shows "sub_call S b (\<lambda>_. drop (unat n) xs) (\<lambda>r. r = (take (unat n) xs, Returns (of_nat (min (unat n) (length xs))))) R (pb_dequeue_bulk S n) s p"
proof -
  have at: "assign_throws S = (\<lambda>_. False)" using assms(1) by (simp add: setting_ok_def)
  show ?thesis
  proof (cases s)
    case (Explicit_sub e)
    obtain e' p' R' where "explicit_dequeue_bulk (s_ndebug S) (s_traits S) (\<lambda>_. False) n (e, p) =
        Inr (take (unat n) xs, Returns (of_nat (min (unat n) (length xs))), e', p')" "xqueue (s_traits S) b (drop (unat n) xs) R' (e', p')"
      "moves R R' p p'"
      using xq.deqb_law [of "s_traits S" b xs R e p "s_ndebug S" n] rep Explicit_sub by (auto simp: sub_rep_def)
    then show ?thesis
      by (intro sub_callI [where s' = "Explicit_sub e'" and R' = R' and p' = p'])
        (simp_all add: pb_dequeue_bulk_def as_explicit_def is_explicit_def sub_rep_def Explicit_sub at)
  next
    case (Implicit_sub i)
    obtain i' p' R' where "implicit_dequeue_bulk (s_ndebug S) (s_traits S) (\<lambda>_. False) n (i, p) =
        Inr (take (unat n) xs, Returns (of_nat (min (unat n) (length xs))), i', p')"
      "iqueue (s_traits S) (malloc_ok S) b (drop (unat n) xs) R' (i', p')" "moves R R' p p'"
      using iq.deqb_law [of "s_traits S" "malloc_ok S" b xs R i p "s_ndebug S" n] rep Implicit_sub by (auto simp: sub_rep_def)
    then show ?thesis
      by (intro sub_callI [where s' = "Implicit_sub i'" and R' = R' and p' = p'])
        (simp_all add: pb_dequeue_bulk_def as_implicit_def is_explicit_def sub_rep_def Implicit_sub at)
  qed
qed

text \<open>What an \<^verbatim>\<open>enqueue\<close> may answer.\<close>

definition enqueue_answer :: "'a setting \<Rightarrow> cq_AllocationMode \<Rightarrow> bool ends \<Rightarrow> bool" where
  "enqueue_answer S m r \<longleftrightarrow> r = Returns True \<or> r = Returns False \<and> may_refuse (s_traits S) (malloc_ok S) m"

lemma sub_enqueue_explicit:
  assumes "setting_ok S b" and rep: "sub_rep S b xs R s p" and "is_explicit s" and few: "length xs < 2 ^ 62"
  shows "sub_call S b (\<lambda>r. if r = Returns True then xs @ [x] else xs) (enqueue_answer S m) R
    (as_explicit (explicit_enqueue (s_ndebug S) (s_traits S) (malloc_ok S) (nothrow_ctor S) (ctor_throws S) m x)) s p"
proof -
  have ct: "nothrow_ctor S = True" "ctor_throws S = (\<lambda>_. False)" using assms(1) by (simp_all add: setting_ok_def)
  obtain e where e: "s = Explicit_sub e" using assms(3) by (cases s) (auto simp: is_explicit_def)
  obtain r e' p' R' where "explicit_enqueue (s_ndebug S) (s_traits S) (malloc_ok S) True (\<lambda>_. False) m x (e, p) = Inr (Returns r, e', p')"
    "xqueue (s_traits S) b (if r then xs @ [x] else xs) R' (e', p')" "moves R R' p p'" "\<not> r \<longrightarrow> may_refuse (s_traits S) (malloc_ok S) m"
    using xq.enq_law [of "s_traits S" b xs R e p "s_ndebug S" "malloc_ok S" m x] rep e few by (auto simp: sub_rep_def)
  then show ?thesis unfolding ct
    by (intro sub_callI [where s' = "Explicit_sub e'" and R' = R' and p' = p' and r = "Returns r"])
      (auto simp: as_explicit_def is_explicit_def sub_rep_def e enqueue_answer_def)
qed

lemma sub_enqueue_implicit:
  assumes "setting_ok S b" and rep: "sub_rep S b xs R s p" and "\<not> is_explicit s" and few: "length xs < 2 ^ 62"
  shows "sub_call S b (\<lambda>r. if r = Returns True then xs @ [x] else xs) (enqueue_answer S m) R
    (as_implicit (implicit_enqueue (s_ndebug S) (s_traits S) (malloc_ok S) (nothrow_ctor S) (ctor_throws S) m x)) s p"
proof -
  have ct: "nothrow_ctor S = True" "ctor_throws S = (\<lambda>_. False)" using assms(1) by (simp_all add: setting_ok_def)
  obtain i where i: "s = Implicit_sub i" using assms(3) by (cases s) (auto simp: is_explicit_def)
  obtain r i' p' R' where "implicit_enqueue (s_ndebug S) (s_traits S) (malloc_ok S) True (\<lambda>_. False) m x (i, p) = Inr (Returns r, i', p')"
    "iqueue (s_traits S) (malloc_ok S) b (if r then xs @ [x] else xs) R' (i', p')" "moves R R' p p'" "\<not> r \<longrightarrow> may_refuse (s_traits S) (malloc_ok S) m"
    using iq.enq_law [of "s_traits S" "malloc_ok S" b xs R i p "s_ndebug S" m x] rep i few by (auto simp: sub_rep_def)
  then show ?thesis unfolding ct
    by (intro sub_callI [where s' = "Implicit_sub i'" and R' = R' and p' = p' and r = "Returns r"])
      (auto simp: as_implicit_def is_explicit_def sub_rep_def i enqueue_answer_def)
qed

lemma sub_owns: "sub_rep S b xs R s p \<Longrightarrow> pool_ok (s_traits S) p"
  using sxq.owns siq.owns unfolding sub_rep_def by (cases s) fastforce+

lemma sub_short: "sub_rep S b xs R s p \<Longrightarrow> length xs < 2 ^ 63"
  using xq.short iq.short unfolding sub_rep_def by (cases s) fastforce+

lemma sub_undisturbed:
  assumes "sub_rep S b xs R s p" and "moves Q Q' p p'" and "Q \<inter> R = {}" and "pool_ok (s_traits S) p'"
  shows "sub_rep S b xs R s p' \<and> Q' \<inter> R = {}"
  using assms sxq.undisturbed [of "s_traits S" b xs R _ p Q Q' p'] siq.undisturbed [of "s_traits S" "malloc_ok S" b xs R _ p Q Q' p']
  unfolding sub_rep_def by (cases s) auto

lemma sub_nonempty: "sub_rep S b xs R s p \<Longrightarrow> 0 < pb_size_approx s \<longleftrightarrow> xs \<noteq> []"
  using sxq.nonempty_iff [of "s_traits S" b xs R _ p] siq.nonempty_iff [of "s_traits S" "malloc_ok S" b xs R _ p]
  unfolding sub_rep_def by (cases s) (auto simp: pb_size_approx_def x_size_def i_size_def Let_def)

lemma sub_size: "sub_rep S b xs R s p \<Longrightarrow> pb_size_approx s = of_nat (length xs)"
  using sxq.sz_law [of "s_traits S" b xs R _ p] siq.sz_law [of "s_traits S" "malloc_ok S" b xs R _ p]
  unfolding sub_rep_def by (cases s) (auto simp: pb_size_approx_def x_size_def i_size_def Let_def)

section \<open>The invariant\<close>

text \<open>
  \<open>Q\<close> maps the address of each producer to the list its sub-queue stands for; \<open>Rs\<close> to the blocks it owns. Of the rest of a
  producer only its kind, whether it is inactive, and its token matter: its \<open>producer_shape\<close>.
\<close>

definition producer_shape :: "'a cqueue \<Rightarrow> nat \<Rightarrow> (bool \<times> bool \<times> nat option) option" where
  "producer_shape q a = map_option (\<lambda>pr. (is_explicit (pr_sub pr), pr_inactive pr, pr_token pr)) (prod_heap q a)"

definition subs_ok :: "'a setting \<Rightarrow> nat \<Rightarrow> (nat \<Rightarrow> 'a list option) \<Rightarrow> (nat \<Rightarrow> nat set) \<Rightarrow> 'a cqueue \<Rightarrow> bool" where
  "subs_ok S b Q Rs q \<longleftrightarrow> pool_ok (s_traits S) (q_pool q) \<and> unat (initialBlockPoolSize (q_pool q)) * 2 ^ b \<le> 2 ^ 63 \<and>
     dom Q = dom (prod_heap q) \<and>
     (\<forall>a pr xs. prod_heap q a = Some pr \<and> Q a = Some xs \<longrightarrow> sub_rep S b xs (Rs a) (pr_sub pr) (q_pool q)) \<and>
     (\<forall>a c. a \<in> dom Q \<and> c \<in> dom Q \<and> a \<noteq> c \<longrightarrow> Rs a \<inter> Rs c = {})"

definition list_ok :: "'a cqueue \<Rightarrow> bool" where
  "list_ok q \<longleftrightarrow> distinct (producerList q) \<and> set (producerList q) = dom (producer_shape q) \<and> (\<forall>a\<in>dom (producer_shape q). a < next_producer q) \<and>
     producerCount q = of_nat (length (producerList q))"

text \<open>Each registered thread has its own implicit producer, which is active; each valid token its own explicit one.\<close>

definition links_ok :: "(u64 \<Rightarrow> nat option) \<Rightarrow> 'a cqueue \<Rightarrow> bool" where
  "links_ok reg q \<longleftrightarrow> hash_inv reg (hashes q) (implicitProducerHashCount q) \<and> inj_on reg (dom reg) \<and>
     (\<forall>i a. reg i = Some a \<longrightarrow> (\<exists>n k. producer_shape q a = Some (False, n, k))) \<and>
     (\<forall>a k. producer_shape q a \<noteq> Some (False, True, k)) \<and>
     (\<forall>k a. ptokens q k = Some (Some a) \<longrightarrow> producer_shape q a = Some (True, False, Some k))"

definition cq_inv :: "'a setting \<Rightarrow> nat \<Rightarrow> (nat \<Rightarrow> 'a list option) \<Rightarrow> (u64 \<Rightarrow> nat option) \<Rightarrow> 'a cqueue \<Rightarrow> bool" where
  "cq_inv S b Q reg q \<longleftrightarrow> list_ok q \<and> links_ok reg q \<and> (\<exists>Rs. subs_ok S b Q Rs q)"

lemma dom_shape: "dom (producer_shape q) = dom (prod_heap q)"
  by (auto simp: producer_shape_def)

lemma thread_shape: "links_ok reg q \<Longrightarrow> reg i = Some a \<Longrightarrow> \<exists>n k. producer_shape q a = Some (False, n, k)"
  by (simp add: links_ok_def)

lemma token_shape: "links_ok reg q \<Longrightarrow> ptokens q k = Some (Some a) \<Longrightarrow> producer_shape q a = Some (True, False, Some k)"
  by (simp add: links_ok_def)

text \<open>The parts of the state that a call of a sub-queue leaves alone.\<close>

definition same_links :: "'a cqueue \<Rightarrow> 'a cqueue \<Rightarrow> bool" where
  "same_links q q' \<longleftrightarrow> producer_shape q' = producer_shape q \<and> producerList q' = producerList q \<and> next_producer q' = next_producer q \<and> producerCount q' = producerCount q \<and>
     hashes q' = hashes q \<and> implicitProducerHashCount q' = implicitProducerHashCount q \<and> ptokens q' = ptokens q"

lemma same_links_refl [simp]: "same_links q q"
  by (simp add: same_links_def)

lemma same_links_trans: "same_links q q' \<Longrightarrow> same_links q' q'' \<Longrightarrow> same_links q q''"
  by (simp add: same_links_def)

lemma same_links_inv: "same_links q q' \<Longrightarrow> list_ok q \<and> links_ok reg q \<Longrightarrow> list_ok q' \<and> links_ok reg q'"
  unfolding same_links_def list_ok_def links_ok_def by (elim conjE) (simp only: simp_thms)

lemma on_producer_ok:
  assumes subs: "subs_ok S b Q Rs q" and pr: "prod_heap q a = Some pr" and xs: "Q a = Some xs"
    and call: "sub_call S b g P (Rs a) f (pr_sub pr) (q_pool q)"
  shows "\<exists>r q' Rs'. on_producer a f q = Inr (r, q') \<and> subs_ok S b (Q(a \<mapsto> g r)) Rs' q' \<and> same_links q q' \<and> P r"
proof -
  obtain r s' p' R' where r: "f (pr_sub pr, q_pool q) = Inr (r, s', p')" "sub_rep S b (g r) R' s' p'" "moves (Rs a) R' (q_pool q) p'"
    "is_explicit s' = is_explicit (pr_sub pr)" "P r" using call unfolding sub_call_def by blast
  let ?q = "put_prod a (pr\<lparr>pr_sub := s'\<rparr>) (q\<lparr>q_pool := p'\<rparr>)" and ?Q = "Q(a \<mapsto> g r)" and ?Rs = "Rs(a := R')"
  have run: "on_producer a f q = Inr (r, ?q)" using pr r(1) by (simp add: on_producer_def prod_at_def)
  have ok: "pool_ok (s_traits S) p'" by (rule sub_owns [OF r(2)])
  have dom: "dom Q = dom (prod_heap q)" using subs by (simp add: subs_ok_def)
  have other: "sub_rep S b ys (Rs c) (pr_sub pc) p' \<and> R' \<inter> Rs c = {}"
    if c: "c \<noteq> a" "prod_heap q c = Some pc" "Q c = Some ys" for c pc ys
  proof (rule sub_undisturbed [OF _ r(3) _ ok])
    show "sub_rep S b ys (Rs c) (pr_sub pc) (q_pool q)" using subs c by (simp add: subs_ok_def)
    show "Rs a \<inter> Rs c = {}" using subs c xs unfolding subs_ok_def by (metis domI)
  qed
  have disj: "R' \<inter> Rs c = {}" if "c \<noteq> a" "c \<in> dom Q" for c using other that dom by blast
  have "subs_ok S b ?Q ?Rs ?q"
    unfolding subs_ok_def
  proof (intro conjI allI impI)
    show "unat (initialBlockPoolSize (q_pool ?q)) * 2 ^ b \<le> 2 ^ 63" using subs r(3) by (simp add: subs_ok_def put_prod_def moves_def frame_def)
  next
    fix c pc ys assume c: "prod_heap ?q c = Some pc \<and> ?Q c = Some ys"
    show "sub_rep S b ys (?Rs c) (pr_sub pc) (q_pool ?q)"
      using c r(2) other [of c pc ys] by (cases "c = a") (auto simp: put_prod_def)
  next
    fix c d assume cd: "c \<in> dom ?Q \<and> d \<in> dom ?Q \<and> c \<noteq> d"
    show "?Rs c \<inter> ?Rs d = {}"
    proof (cases "c = a")
      case True
      then show ?thesis using cd disj [of d] by auto
    next
      case False
      show ?thesis
      proof (cases "d = a")
        case True
        then show ?thesis using False cd disj [of c] by auto
      next
        case d: False
        then have "c \<in> dom Q" "d \<in> dom Q" using cd False by auto
        then show ?thesis using subs cd False d unfolding subs_ok_def by simp
      qed
    qed
  qed (use dom ok xs in \<open>auto simp: put_prod_def\<close>)
  moreover have "same_links q ?q" using pr r(4) by (auto simp: same_links_def put_prod_def producer_shape_def fun_eq_iff)
  ultimately show ?thesis using run r(5) by blast
qed

text \<open>The same for the invariant; the call is one that sub-queues of this kind answer.\<close>

lemma inv_call:
  assumes inv: "cq_inv S b Q reg q" and xs: "Q a = Some xs"
    and call: "\<And>pr R. prod_heap q a = Some pr \<Longrightarrow> sub_rep S b xs R (pr_sub pr) (q_pool q) \<Longrightarrow> sub_call S b g P R f (pr_sub pr) (q_pool q)"
  shows "\<exists>r q'. on_producer a f q = Inr (r, q') \<and> cq_inv S b (Q(a \<mapsto> g r)) reg q' \<and> same_links q q' \<and> P r"
proof -
  obtain Rs where subs: "subs_ok S b Q Rs q" and l: "list_ok q \<and> links_ok reg q" using inv by (auto simp: cq_inv_def)
  then obtain pr where pr: "prod_heap q a = Some pr" using xs unfolding subs_ok_def by (metis domD domI)
  then have "sub_rep S b xs (Rs a) (pr_sub pr) (q_pool q)" using subs xs by (simp add: subs_ok_def)
  from on_producer_ok [OF subs pr xs call [OF pr this]] obtain r q' Rs' where
    "on_producer a f q = Inr (r, q')" "subs_ok S b (Q(a \<mapsto> g r)) Rs' q'" "same_links q q'" "P r" by blast
  then show ?thesis using same_links_inv [of q q' reg] l unfolding cq_inv_def by blast
qed

section \<open>Dequeue\<close>

text \<open>Taking elements: from the front of one list after the other.\<close>

inductive takes :: "(nat \<Rightarrow> 'a list option) \<Rightarrow> 'a list \<Rightarrow> (nat \<Rightarrow> 'a list option) \<Rightarrow> bool" where
  takes_none: "takes Q [] Q"
| takes_more: "takes Q xs Q' \<Longrightarrow> Q' a = Some (ys @ zs) \<Longrightarrow> takes Q (xs @ ys) (Q'(a \<mapsto> zs))"

lemma takes_one: "Q a = Some (ys @ zs) \<Longrightarrow> takes Q ys (Q(a \<mapsto> zs))"
  using takes_more [OF takes_none, of Q a ys zs] by simp

lemma takes_trans: "takes Q' ys Q'' \<Longrightarrow> takes Q xs Q' \<Longrightarrow> takes Q (xs @ ys) Q''"
proof (induction rule: takes.induct)
  case (takes_more Q' ys Q'' a us vs)
  then show ?case using takes.takes_more [of Q "xs @ ys" Q'' a us vs] by (simp del: fun_upd_apply)
qed simp

lemma takes_dom: "takes Q xs Q' \<Longrightarrow> dom Q' = dom Q"
proof (induction rule: takes.induct)
  case (takes_more Q xs Q' a ys zs)
  then have "a \<in> dom Q" by blast
  then show ?case using takes_more.IH by (simp add: insert_absorb del: fun_upd_apply)
qed simp

definition all_empty :: "(nat \<Rightarrow> 'a list option) \<Rightarrow> bool" where
  "all_empty Q \<longleftrightarrow> (\<forall>xs\<in>ran Q. xs = [])"

lemma inv_dequeue:
  assumes "setting_ok S b" and inv: "cq_inv S b Q reg q" and xs: "Q a = Some xs"
  shows "\<exists>q'. on_producer a (pb_dequeue S) q = Inr (Returns (case xs of [] \<Rightarrow> None | x # _ \<Rightarrow> Some x), q') \<and>
    cq_inv S b (Q(a \<mapsto> tl xs)) reg q' \<and> same_links q q'"
  using inv_call [OF inv xs sub_dequeue [OF assms(1)]] by blast

lemma inv_dequeue_bulk:
  assumes "setting_ok S b" and inv: "cq_inv S b Q reg q" and xs: "Q a = Some xs"
  shows "\<exists>q'. on_producer a (pb_dequeue_bulk S n) q = Inr ((take (unat n) xs, Returns (of_nat (min (unat n) (length xs)))), q') \<and>
    cq_inv S b (Q(a \<mapsto> drop (unat n) xs)) reg q' \<and> same_links q q'"
  using inv_call [OF inv xs sub_dequeue_bulk [OF assms(1)]] by blast

lemma inv_producers: "cq_inv S b Q reg q \<Longrightarrow> set (producerList q) = dom Q"
  by (auto simp: cq_inv_def list_ok_def subs_ok_def dom_shape)

lemma inv_sub:
  assumes "cq_inv S b Q reg q" and "a \<in> dom Q"
  obtains pr xs R where "prod_heap q a = Some pr" "Q a = Some xs" "sub_rep S b xs R (pr_sub pr) (q_pool q)"
proof -
  obtain Rs where subs: "subs_ok S b Q Rs q" using assms(1) by (auto simp: cq_inv_def)
  obtain xs where xs: "Q a = Some xs" using assms(2) by blast
  have "dom Q = dom (prod_heap q)" using subs by (simp add: subs_ok_def)
  then obtain pr where pr: "prod_heap q a = Some pr" using assms(2) by blast
  have "sub_rep S b xs (Rs a) (pr_sub pr) (q_pool q)" using subs pr xs by (simp add: subs_ok_def)
  then show ?thesis using that pr xs by blast
qed

text \<open>The outcome of looking for one element.\<close>

definition one_taken :: "(nat \<Rightarrow> 'a list option) \<Rightarrow> 'a option \<Rightarrow> (nat \<Rightarrow> 'a list option) \<Rightarrow> bool" where
  "one_taken Q r Q' \<longleftrightarrow> (case r of None \<Rightarrow> all_empty Q \<and> Q' = Q | Some x \<Rightarrow> takes Q [x] Q')"

lemma dequeue_first_ok:
  assumes ok: "setting_ok S b"
  shows "cq_inv S b Q reg q \<Longrightarrow> set as \<subseteq> dom Q \<Longrightarrow>
    \<exists>r q' Q'. dequeue_first S None as q = Inr (Returns r, q') \<and> cq_inv S b Q' reg q' \<and> same_links q q' \<and>
      (case r of None \<Rightarrow> Q' = Q \<and> (\<forall>a\<in>set as. Q a = Some []) | Some x \<Rightarrow> takes Q [x] Q')"
proof (induction as arbitrary: q)
  case Nil
  then show ?case by (intro exI [of _ None] exI [of _ q] exI [of _ Q]) simp
next
  case (Cons a as)
  then obtain xs where xs: "Q a = Some xs" by auto
  obtain q1 where q1: "on_producer a (pb_dequeue S) q = Inr (Returns (case xs of [] \<Rightarrow> None | x # _ \<Rightarrow> Some x), q1)"
    "cq_inv S b (Q(a \<mapsto> tl xs)) reg q1" "same_links q q1" using inv_dequeue [OF ok Cons.prems(1) xs] by blast
  show ?case
  proof (cases xs)
    case Nil
    then have "Q(a \<mapsto> tl xs) = Q" using xs by auto
    then obtain r q' Q' where "dequeue_first S None as q1 = Inr (Returns r, q')" "cq_inv S b Q' reg q'" "same_links q1 q'"
      "case r of None \<Rightarrow> Q' = Q \<and> (\<forall>a\<in>set as. Q a = Some []) | Some x \<Rightarrow> takes Q [x] Q'"
      using Cons.IH [of q1] Cons.prems(2) q1(2) by auto
    then show ?thesis using q1(1) Nil xs same_links_trans [OF q1(3), of q']
      by (intro exI [of _ r] exI [of _ q'] exI [of _ Q']) (auto split: option.splits)
  next
    case C: (Cons x ys)
    then have "takes Q [x] (Q(a \<mapsto> tl xs))" using takes_one [of Q a "[x]" ys] xs by simp
    then show ?thesis using q1 C by (intro exI [of _ "Some x"] exI [of _ q1] exI [of _ "Q(a \<mapsto> tl xs)"]) (simp del: fun_upd_apply)
  qed
qed

lemma all_empty_list: "cq_inv S b Q reg q \<Longrightarrow> \<forall>a\<in>set (producerList q). Q a = Some [] \<Longrightarrow> all_empty Q"
proof -
  assume inv: "cq_inv S b Q reg q" and none: "\<forall>a\<in>set (producerList q). Q a = Some []"
  have "xs = []" if "Q a = Some xs" for a xs using bspec [OF none, of a] that domI [of Q a xs] inv_producers [OF inv] by simp
  then show ?thesis by (auto simp: all_empty_def ran_def)
qed

lemma non_interleaved_ok:
  assumes "setting_ok S b" and inv: "cq_inv S b Q reg q"
  shows "\<exists>r q' Q'. try_dequeue_non_interleaved S q = Inr (Returns r, q') \<and> cq_inv S b Q' reg q' \<and> same_links q q' \<and> one_taken Q r Q'"
proof -
  obtain r q' Q' where r: "dequeue_first S None (producerList q) q = Inr (Returns r, q')" "cq_inv S b Q' reg q'" "same_links q q'"
    "case r of None \<Rightarrow> Q' = Q \<and> (\<forall>a\<in>set (producerList q). Q a = Some []) | Some x \<Rightarrow> takes Q [x] Q'"
    using dequeue_first_ok [OF assms] inv_producers [OF inv] by blast
  then have "one_taken Q r Q'" using all_empty_list [OF inv] by (auto simp: one_taken_def split: option.splits)
  then show ?thesis using r(1-3) unfolding try_dequeue_non_interleaved_def by blast
qed

text \<open>The best of the first three: one that is not empty, if there is one.\<close>

lemma best_of_ok:
  assumes inv: "cq_inv S b Q reg q"
  shows "set as \<subseteq> dom Q \<Longrightarrow> n \<le> 3 \<Longrightarrow>
    (n = 0 \<and> best = None \<and> sz = 0 \<or> 0 < n \<and> (\<exists>a xs. best = Some a \<and> Q a = Some xs \<and> xs \<noteq> [])) \<Longrightarrow>
    \<exists>n' best'. best_of q as n best sz = Inr (n', best') \<and>
      (n' = 0 \<and> n = 0 \<and> (\<forall>a\<in>set as. Q a = Some []) \<or> n' \<noteq> 0 \<and> (\<exists>a xs. best' = Some a \<and> Q a = Some xs \<and> xs \<noteq> []))"
proof (induction as arbitrary: n best sz)
  case Nil
  then show ?case by auto
next
  case (Cons a as)
  obtain pr xs R where a: "prod_heap q a = Some pr" "Q a = Some xs" "sub_rep S b xs R (pr_sub pr) (q_pool q)"
    by (rule inv_sub [OF inv, of a]) (use Cons.prems(1) in auto)
  note ne = sub_nonempty [OF a(3)]
  show ?case
  proof (cases "n < 3")
    case False
    then have "0 < n" by (simp add: word_less_nat_alt)
    then show ?thesis using False Cons.prems(3) by auto
  next
    case True
    have n1: "n + 1 \<le> 3" "n + 1 \<noteq> 0"
    proof -
      have "unat n < 3" using True by (simp add: word_less_nat_alt)
      then have "unat (n + 1) = unat n + 1" using unat_of_nat_u64 [of "unat n + 1"] by (simp add: add.commute)
      then show "n + 1 \<le> 3" "n + 1 \<noteq> 0" using \<open>unat n < 3\<close> by (auto simp: word_le_nat_alt unat_eq_0 [symmetric] simp del: unat_eq_0)
    qed
    have sub: "set as \<subseteq> dom Q" using Cons.prems(1) by simp
    show ?thesis
    proof (cases "xs = []")
      case e: True
      then have "\<not> 0 < pb_size_approx (pr_sub pr)" using ne by simp
      then show ?thesis using Cons.IH [OF sub Cons.prems(2,3)] True a(1,2) e by (auto simp: prod_at_def Let_def)
    next
      case f: False
      let ?new = "sz < pb_size_approx (pr_sub pr)"
      have "?new \<or> 0 < n" using f ne Cons.prems(3) by auto
      then have good: "n + 1 = 0 \<and> (if ?new then Some a else best) = None \<and> (if ?new then pb_size_approx (pr_sub pr) else sz) = 0 \<or>
          0 < n + 1 \<and> (\<exists>c xs. (if ?new then Some a else best) = Some c \<and> Q c = Some xs \<and> xs \<noteq> [])"
        using Cons.prems(3) a(2) f n1(2) by (auto simp: word_gt_0)
      obtain n' best' where r: "best_of q as (n + 1) (if ?new then Some a else best) (if ?new then pb_size_approx (pr_sub pr) else sz) = Inr (n', best')"
        "n' = 0 \<and> n + 1 = 0 \<and> (\<forall>a\<in>set as. Q a = Some []) \<or> n' \<noteq> 0 \<and> (\<exists>a xs. best' = Some a \<and> Q a = Some xs \<and> xs \<noteq> [])"
        using Cons.IH [OF sub n1(1) good] by blast
      then have "best_of q (a # as) n best sz = Inr (n', best')" using True a(1) f ne by (auto simp: prod_at_def Let_def)
      then show ?thesis using r(2) n1(2) by auto
    qed
  qed
qed

lemma cq_try_dequeue_ok:
  assumes ok: "setting_ok S b" and inv: "cq_inv S b Q reg q"
  shows "\<exists>r q' Q'. cq_try_dequeue S q = Inr (Returns r, q') \<and> cq_inv S b Q' reg q' \<and> same_links q q' \<and> one_taken Q r Q'"
proof -
  obtain n best where n: "best_of q (producerList q) 0 None 0 = Inr (n, best)"
    "n = 0 \<and> (\<forall>a\<in>set (producerList q). Q a = Some []) \<or> n \<noteq> 0 \<and> (\<exists>a xs. best = Some a \<and> Q a = Some xs \<and> xs \<noteq> [])"
    using best_of_ok [OF inv, of "producerList q" 0 None 0] inv_producers [OF inv] by auto
  show ?thesis
  proof (cases "n = 0")
    case True
    then have "one_taken Q None Q" using n(2) all_empty_list [OF inv] by (simp add: one_taken_def)
    then show ?thesis using n(1) True inv by (intro exI [of _ None] exI [of _ q] exI [of _ Q]) (simp add: cq_try_dequeue_def)
  next
    case False
    then obtain a xs where a: "best = Some a" "Q a = Some xs" "xs \<noteq> []" using n(2) by auto
    obtain x ys where x: "xs = x # ys" using a(3) by (cases xs) auto
    obtain q1 where q1: "on_producer a (pb_dequeue S) q = Inr (Returns (Some x), q1)" "cq_inv S b (Q(a \<mapsto> ys)) reg q1" "same_links q q1"
      using inv_dequeue [OF ok inv a(2)] x by auto
    have "one_taken Q (Some x) (Q(a \<mapsto> ys))" using takes_one [of Q a "[x]" ys] a(2) x by (simp add: one_taken_def)
    then show ?thesis using q1 n(1) False a(1)
      by (intro exI [of _ "Some x"] exI [of _ q1] exI [of _ "Q(a \<mapsto> ys)"]) (simp add: cq_try_dequeue_def word_gt_0 del: fun_upd_apply)
  qed
qed

section \<open>Making a producer\<close>

lemma subs_pool: "subs_ok S b Q Rs q \<Longrightarrow> pool_ok (s_traits S) (q_pool q) \<and> unat (initialBlockPoolSize (q_pool q)) * 2 ^ b \<le> 2 ^ 63"
  by (simp add: subs_ok_def)

lemma pool_mallocs: "pool_ok t p \<Longrightarrow> pool_ok t (p\<lparr>mallocs := m\<rparr>)" "moves R R p (p\<lparr>mallocs := m\<rparr>)"
  by (auto simp: pool_ok_def moves_def frame_def free_blocks_def)

lemma sub_mallocs: "sub_rep S b xs R s p \<Longrightarrow> sub_rep S b xs R s (p\<lparr>mallocs := m\<rparr>)"
  using sub_undisturbed [OF _ pool_mallocs(2) [of "{}" p m]] pool_mallocs(1) sub_owns by blast

lemma subs_mallocs: "subs_ok S b Q Rs q \<Longrightarrow> subs_ok S b Q Rs (q\<lparr>q_pool := (q_pool q)\<lparr>mallocs := m\<rparr>\<rparr>)"
  by (simp add: subs_ok_def pool_mallocs(1) sub_mallocs)

lemma create_ok:
  assumes "setting_ok S b" and pool: "pool_ok (s_traits S) p" and fit: "unat (initialBlockPoolSize p) * 2 ^ b \<le> 2 ^ 63"
  shows "\<exists>s m. create_producer S isExplicit p = Inr (s, p\<lparr>mallocs := m\<rparr>) \<and>
    (case s of None \<Rightarrow> \<not> malloc_ok S (mallocs p) | Some s \<Rightarrow> is_explicit s = isExplicit \<and> sub_rep S b [] {} s (p\<lparr>mallocs := m\<rparr>))"
proof -
  let ?p = "p\<lparr>mallocs := mallocs p + 1\<rparr>"
  have b: "block_bits (s_traits S) b" using assms(1) by (simp add: setting_ok_def)
  note ok = pool_mallocs(1) [OF pool, of "mallocs p + 1"]
  show ?thesis
  proof (cases "malloc_ok S (mallocs p)")
    case False
    then show ?thesis by (intro exI [of _ None] exI [of _ "mallocs p + 1"]) (simp add: create_producer_def)
  next
    case m: True
    show ?thesis
    proof (cases isExplicit)
      case True
      obtain i where i: "EXPLICIT_INITIAL_INDEX_SIZE (s_traits S) = 2 ^ i" "1 \<le> i" "i + b \<le> 64" using assms(1) by (auto simp: setting_ok_def)
      have fit': "unat (initialBlockPoolSize ?p) * 2 ^ b \<le> 2 ^ 63" using fit by simp
      obtain e n where e: "new_explicit (s_traits S) (malloc_ok S) ?p = Inr (e, ?p\<lparr>mallocs := n\<rparr>)"
        "xrep (s_traits S) b undefined 0 0 {} (e, ?p\<lparr>mallocs := n\<rparr>)" using new_explicit_ok [OF b ok i fit'] by blast
      then have "xqueue (s_traits S) b [] {} (e, p\<lparr>mallocs := n\<rparr>)" unfolding xqueue_def
        by (intro conjI b exI [of _ undefined] exI [of _ 0]) simp_all
      then show ?thesis using m True e(1)
        by (intro exI [of _ "Some (Explicit_sub e)"] exI [of _ n]) (simp add: create_producer_def is_explicit_def sub_rep_def)
    next
      case False
      obtain z where z: "IMPLICIT_INITIAL_INDEX_SIZE (s_traits S) = 2 ^ z" "1 \<le> z" "z + b \<le> 64" using assms(1) by (auto simp: setting_ok_def)
      obtain i where i: "new_implicit (s_ndebug S) (s_traits S) (malloc_ok S) ?p = Inr (i, ?p\<lparr>mallocs := mallocs ?p + 1\<rparr>)"
        "irep (s_traits S) (\<not> malloc_ok S (mallocs ?p)) b undefined 0 0 {} (i, ?p\<lparr>mallocs := mallocs ?p + 1\<rparr>)"
        using new_implicit_ok [OF b ok z] by blast
      have "irep (s_traits S) (\<exists>j. \<not> malloc_ok S j) b undefined 0 0 {} (i, p\<lparr>mallocs := mallocs p + 2\<rparr>)"
        using irep_starved [OF i(2), of "\<exists>j. \<not> malloc_ok S j"] by (simp add: exI [of _ "mallocs p + 1"])
      then have "iqueue (s_traits S) (malloc_ok S) b [] {} (i, p\<lparr>mallocs := mallocs p + 2\<rparr>)" unfolding iqueue_def
        by (intro conjI b exI [of _ undefined] exI [of _ 0]) simp_all
      then show ?thesis using m False i(1)
        by (intro exI [of _ "Some (Implicit_sub i)"] exI [of _ "mallocs p + 2"]) (simp add: create_producer_def is_explicit_def sub_rep_def)
    qed
  qed
qed

lemma find_inactive_ok:
  "set as \<subseteq> dom (prod_heap q) \<Longrightarrow> \<exists>r. find_inactive q isExplicit as = Inr r \<and>
     (case r of None \<Rightarrow> True | Some a \<Rightarrow> \<exists>k. producer_shape q a = Some (isExplicit, True, k))"
proof (induction as)
  case (Cons a as)
  then obtain pr where pr: "prod_heap q a = Some pr" by auto
  show ?case
  proof (cases "pr_inactive pr \<and> is_explicit (pr_sub pr) = isExplicit")
    case True
    then show ?thesis using pr by (intro exI [of _ "Some a"]) (simp add: prod_at_def producer_shape_def)
  next
    case False
    then show ?thesis using Cons pr by (auto simp: prod_at_def)
  qed
qed simp

text \<open>What \<^verbatim>\<open>recycle_or_create_producer\<close> leaves: the lists, with a new empty one perhaps, and the producers.\<close>

definition made_producer ::
    "'a setting \<Rightarrow> bool \<Rightarrow> (nat \<Rightarrow> 'a list option) \<Rightarrow> 'a cqueue \<Rightarrow> nat option \<times> bool \<Rightarrow> (nat \<Rightarrow> 'a list option) \<Rightarrow> 'a cqueue \<Rightarrow> bool" where
  "made_producer S isExplicit Q q r Q' q' \<longleftrightarrow>
     hashes q' = hashes q \<and> implicitProducerHashCount q' = implicitProducerHashCount q \<and> ptokens q' = ptokens q \<and>
     (case r of
        (None, recycled) \<Rightarrow> \<not> recycled \<and> (\<exists>j. \<not> malloc_ok S j) \<and> Q' = Q \<and> producer_shape q' = producer_shape q
      | (Some a, True) \<Rightarrow> Q' = Q \<and> a \<in> dom Q \<and> (\<exists>k. producer_shape q a = Some (isExplicit, True, k) \<and> producer_shape q' = (producer_shape q)(a \<mapsto> (isExplicit, False, k)))
      | (Some a, False) \<Rightarrow> Q' = Q(a \<mapsto> []) \<and> a \<notin> dom Q \<and> producer_shape q' = (producer_shape q)(a \<mapsto> (isExplicit, False, None)))"

lemma put_shape:
  "producer_shape (put_prod a pr q) = (producer_shape q)(a \<mapsto> (is_explicit (pr_sub pr), pr_inactive pr, pr_token pr))"
  by (auto simp: put_prod_def producer_shape_def)

text \<open>Changing the marks of a producer.\<close>

lemma put_marks:
  assumes "prod_heap q a = Some pr" and "pr_sub pr' = pr_sub pr"
  shows "subs_ok S b Q Rs q \<Longrightarrow> subs_ok S b Q Rs (put_prod a pr' q)" "list_ok q \<Longrightarrow> list_ok (put_prod a pr' q)"
  using assms by (auto simp: subs_ok_def list_ok_def put_prod_def dom_shape split: if_splits)

lemma add_producer_ok:
  assumes subs: "subs_ok S b Q Rs q" and list: "list_ok q" and rep: "sub_rep S b [] {} s (q_pool q)"
    and r: "add_producer \<lparr>pr_sub = s, pr_inactive = False, pr_token = None\<rparr> q = (a, q')"
  shows "subs_ok S b (Q(a \<mapsto> [])) (Rs(a := {})) q' \<and> list_ok q' \<and> a \<notin> dom Q \<and> producer_shape q' = (producer_shape q)(a \<mapsto> (is_explicit s, False, None)) \<and>
    hashes q' = hashes q \<and> implicitProducerHashCount q' = implicitProducerHashCount q \<and> ptokens q' = ptokens q"
proof -
  have a: "a = next_producer q" using r by (simp add: add_producer_def Let_def)
  have dom: "dom Q = dom (prod_heap q)" "dom (producer_shape q) = dom (prod_heap q)" using subs dom_shape [of q] by (simp_all add: subs_ok_def)
  have new: "a \<notin> dom Q" using list dom a by (auto simp: list_ok_def)
  have sh: "producer_shape q' = (producer_shape q)(a \<mapsto> (is_explicit s, False, None))"
    using r by (auto simp: add_producer_def Let_def put_prod_def producer_shape_def)
  have "list_ok q'" using list new dom r a unfolding list_ok_def sh by (auto simp: add_producer_def Let_def put_prod_def less_Suc_eq)
  moreover have "subs_ok S b (Q(a \<mapsto> [])) (Rs(a := {})) q'"
    using subs rep r a new unfolding subs_ok_def by (auto simp: add_producer_def Let_def put_prod_def)
  ultimately show ?thesis using new sh r by (auto simp: add_producer_def Let_def put_prod_def)
qed

lemma recycle_or_create_ok:
  assumes ok: "setting_ok S b" and subs: "subs_ok S b Q Rs q" and list: "list_ok q"
  shows "\<exists>r q' Rs' Q'. recycle_or_create_producer S isExplicit q = Inr (r, q') \<and> subs_ok S b Q' Rs' q' \<and> list_ok q' \<and>
    made_producer S isExplicit Q q r Q' q'"
proof -
  have dom: "dom Q = dom (prod_heap q)" using subs by (simp add: subs_ok_def)
  have "set (producerList q) \<subseteq> dom (prod_heap q)" using list by (simp add: list_ok_def dom_shape)
  from find_inactive_ok [OF this] obtain r where r: "find_inactive q isExplicit (producerList q) = Inr r"
    "case r of None \<Rightarrow> True | Some a \<Rightarrow> \<exists>k. producer_shape q a = Some (isExplicit, True, k)" by blast
  show ?thesis
  proof (cases r)
    case (Some a)
    then obtain k where k: "producer_shape q a = Some (isExplicit, True, k)" using r(2) by auto
    then obtain pr where pr: "prod_heap q a = Some pr" "is_explicit (pr_sub pr) = isExplicit" "pr_token pr = k"
      by (auto simp: producer_shape_def)
    let ?q = "put_prod a (pr\<lparr>pr_inactive := False\<rparr>) q"
    have run: "recycle_or_create_producer S isExplicit q = Inr ((Some a, True), ?q)"
      using r(1) Some pr(1) by (simp add: recycle_or_create_producer_def prod_at_def)
    have "made_producer S isExplicit Q q (Some a, True) Q ?q"
      using k pr dom by (auto simp: made_producer_def put_shape) (auto simp: put_prod_def)
    moreover have "subs_ok S b Q Rs ?q" "list_ok ?q" using put_marks [OF pr(1), of "pr\<lparr>pr_inactive := False\<rparr>"] subs list by simp_all
    ultimately show ?thesis using run by blast
  next
    case None
    obtain s m where s: "create_producer S isExplicit (q_pool q) = Inr (s, (q_pool q)\<lparr>mallocs := m\<rparr>)"
      "case s of None \<Rightarrow> \<not> malloc_ok S (mallocs (q_pool q)) | Some s \<Rightarrow> is_explicit s = isExplicit \<and> sub_rep S b [] {} s ((q_pool q)\<lparr>mallocs := m\<rparr>)"
      using create_ok [OF ok] subs_pool [OF subs] by blast
    let ?q = "q\<lparr>q_pool := (q_pool q)\<lparr>mallocs := m\<rparr>\<rparr>"
    have subs': "subs_ok S b Q Rs ?q" by (rule subs_mallocs [OF subs])
    have sh: "producer_shape ?q = producer_shape q" by (auto simp: producer_shape_def)
    then have list': "list_ok ?q" using list by (simp add: list_ok_def)
    show ?thesis
    proof (cases s)
      case n: None
      then have "recycle_or_create_producer S isExplicit q = Inr ((None, False), ?q)"
        using r(1) None s(1) by (simp add: recycle_or_create_producer_def)
      moreover have "made_producer S isExplicit Q q (None, False) Q ?q" using s(2) n sh by (auto simp: made_producer_def)
      ultimately show ?thesis using subs' list' by blast
    next
      case e: (Some s')
      obtain a q' where a: "add_producer \<lparr>pr_sub = s', pr_inactive = False, pr_token = None\<rparr> ?q = (a, q')" by (metis surj_pair)
      then have run: "recycle_or_create_producer S isExplicit q = Inr ((Some a, False), q')"
        using r(1) None s(1) e by (simp add: recycle_or_create_producer_def)
      have rep: "sub_rep S b [] {} s' (q_pool ?q)" using s(2) e by simp
      note add = add_producer_ok [OF subs' list' rep a]
      then have "made_producer S isExplicit Q q (Some a, False) (Q(a \<mapsto> [])) q'"
        using s(2) e sh by (auto simp: made_producer_def)
      then show ?thesis using run add by blast
    qed
  qed
qed

section \<open>The producer of a thread\<close>

lemma shape_upd [simp]:
  "producer_shape (q\<lparr>hashes := hs\<rparr>) = producer_shape q" "producer_shape (q\<lparr>implicitProducerHashCount := c\<rparr>) = producer_shape q" "producer_shape (q\<lparr>q_pool := p\<rparr>) = producer_shape q"
  "producer_shape (q\<lparr>ptokens := ts\<rparr>) = producer_shape q" "producer_shape (q\<lparr>globalExplicitConsumerOffset := o1\<rparr>) = producer_shape q" "producer_shape (q\<lparr>nextExplicitConsumerId := n\<rparr>) = producer_shape q"
  by (simp_all add: producer_shape_def fun_eq_iff)

lemma subs_upd [simp]:
  "subs_ok S b Q Rs (q\<lparr>hashes := hs\<rparr>) = subs_ok S b Q Rs q" "subs_ok S b Q Rs (q\<lparr>implicitProducerHashCount := c\<rparr>) = subs_ok S b Q Rs q"
  "subs_ok S b Q Rs (q\<lparr>ptokens := ts\<rparr>) = subs_ok S b Q Rs q"
  by (simp_all add: subs_ok_def)

lemma list_upd [simp]:
  "list_ok (q\<lparr>hashes := hs\<rparr>) = list_ok q" "list_ok (q\<lparr>implicitProducerHashCount := c\<rparr>) = list_ok q" "list_ok (q\<lparr>q_pool := p\<rparr>) = list_ok q"
  "list_ok (q\<lparr>ptokens := ts\<rparr>) = list_ok q"
  by (simp_all add: list_ok_def)

lemma room_left:
  assumes wf: "wf_table k h" and lt: "unat n < 2 ^ k div 2"
  shows "n < drop_bit 1 (h_capacity h) + drop_bit 2 (h_capacity h)"
proof -
  note sz = table_size [OF wf]
  have k: "k < 64" using wf by (simp add: wf_table_def)
  have "(2 :: nat) ^ k \<le> 2 ^ 63" using k by (intro power_increasing) simp_all
  then have "(2 :: nat) ^ k div 2 + 2 ^ k div 4 < 2 ^ 64" by simp
  then have "unat (drop_bit 1 (h_capacity h) + drop_bit 2 (h_capacity h)) = 2 ^ k div 2 + 2 ^ k div 4"
    using sz(3,4) by (simp add: unat_word_ariths)
  then show ?thesis using lt by (simp add: word_less_nat_alt)
qed

text \<open>The outcome: a thread that has a producer gets it; any other gets a new one, unless there is no memory.\<close>

definition own_lane ::
    "'a setting \<Rightarrow> u64 \<Rightarrow> (nat \<Rightarrow> 'a list option) \<Rightarrow> (u64 \<Rightarrow> nat option) \<Rightarrow> nat option \<Rightarrow> (nat \<Rightarrow> 'a list option) \<Rightarrow> (u64 \<Rightarrow> nat option) \<Rightarrow> bool" where
  "own_lane S i Q reg r Q' reg' \<longleftrightarrow>
     (case (reg i, r) of
        (Some a, _) \<Rightarrow> r = Some a \<and> Q' = Q \<and> reg' = reg
      | (None, None) \<Rightarrow> (\<exists>j. \<not> malloc_ok S j) \<and> Q' = Q \<and> reg' = reg
      | (None, Some a) \<Rightarrow> a \<notin> dom Q \<and> Q' = Q(a \<mapsto> []) \<and> reg' = reg(i \<mapsto> a))"

lemma links_new:
  assumes links: "links_ok reg q" and new: "a \<notin> dom (producer_shape q)" and sh: "producer_shape q' = (producer_shape q)(a \<mapsto> (False, False, None))"
    and toks: "ptokens q' = ptokens q" and hash: "hash_inv (reg(i \<mapsto> a)) (hashes q') (implicitProducerHashCount q')"
  shows "links_ok (reg(i \<mapsto> a)) q'"
proof -
  have old: "c \<noteq> a" if "reg j = Some c" for j c using links that new unfolding links_ok_def by blast
  have tok: "c \<noteq> a" if "ptokens q k = Some (Some c)" for k c using links that new unfolding links_ok_def by blast
  have na: "reg j \<noteq> Some a" for j using old by blast
  have "inj_on (reg(i \<mapsto> a)) (dom (reg(i \<mapsto> a)))"
    unfolding inj_on_def using links na by (auto simp: links_ok_def inj_on_def split: if_splits)
  moreover have "\<exists>n k. producer_shape q' c = Some (False, n, k)" if "(reg(i \<mapsto> a)) j = Some c" for j c
    using that sh links old by (auto simp: links_ok_def split: if_splits)
  moreover have "producer_shape q' c \<noteq> Some (False, True, k)" for c k using sh links by (simp add: links_ok_def)
  moreover have "producer_shape q' c = Some (True, False, Some k)" if "ptokens q' k = Some (Some c)" for k c
    using that sh toks links tok by (auto simp: links_ok_def)
  ultimately show ?thesis using hash unfolding links_ok_def by blast
qed

lemma inv_hashes:
  assumes inv: "cq_inv S b Q reg q" and hash: "hash_inv reg hs c"
  shows "cq_inv S b Q reg (q\<lparr>hashes := hs, implicitProducerHashCount := c, q_pool := (q_pool q)\<lparr>mallocs := m\<rparr>\<rparr>)"
proof -
  obtain Rs where "list_ok q" "links_ok reg q" "subs_ok S b Q Rs q" using inv by (auto simp: cq_inv_def)
  moreover from this have "subs_ok S b Q Rs (q\<lparr>hashes := hs, implicitProducerHashCount := c, q_pool := (q_pool q)\<lparr>mallocs := m\<rparr>\<rparr>)"
    using subs_mallocs [of S b Q Rs "q\<lparr>hashes := hs, implicitProducerHashCount := c\<rparr>" m] by simp
  ultimately show ?thesis using hash unfolding cq_inv_def links_ok_def by auto
qed

text \<open>The second half of \<^verbatim>\<open>get_or_add_implicit_producer\<close>: the thread is new, and the main table has room.\<close>

lemma register_ok:
  assumes ok: "setting_ok S b" and inv: "cq_inv S b Q reg (q\<lparr>implicitProducerHashCount := c\<rparr>)" and i: "i \<noteq> 0" and new: "reg i = None"
    and hs: "hashes q = h # rest" and c: "implicitProducerHashCount q = 1 + c" "unat (1 + c) = card (dom reg) + 1"
    and room: "card (dom reg) + 1 < unat (h_capacity h) div 2"
  shows "\<exists>r rec q' Q' reg'. recycle_or_create_producer S False q = Inr ((r, rec), q') \<and>
    (case r of
       None \<Rightarrow> cq_inv S b Q reg (q'\<lparr>implicitProducerHashCount := implicitProducerHashCount q' - 1\<rparr>) \<and> ptokens q' = ptokens q \<and> (\<exists>j. \<not> malloc_ok S j)
     | Some a \<Rightarrow> \<not> rec \<and> a \<notin> dom Q \<and> (\<exists>h'. insert_in h i (Some a) = Inr h' \<and> ptokens q' = ptokens q \<and>
         cq_inv S b (Q(a \<mapsto> [])) (reg(i \<mapsto> a)) (q'\<lparr>hashes := h' # rest\<rparr>)))"
proof -
  obtain Rs where list: "list_ok q" and links: "links_ok reg (q\<lparr>implicitProducerHashCount := c\<rparr>)" and subs: "subs_ok S b Q Rs q"
    using inv by (auto simp: cq_inv_def)
  obtain r q' Rs' Q' where r: "recycle_or_create_producer S False q = Inr (r, q')" "subs_ok S b Q' Rs' q'" "list_ok q'" "made_producer S False Q q r Q' q'"
    using recycle_or_create_ok [OF ok subs list] by blast
  have tabs: "tables_ok reg (h # rest)" using links hs by (simp add: links_ok_def hash_inv_def)
  have dom: "dom (producer_shape q) = dom Q" using subs by (simp add: dom_shape subs_ok_def)
  note made = r(4) [unfolded made_producer_def]
  obtain a rec where ar: "r = (a, rec)" by (cases r)
  show ?thesis
  proof (cases a)
    case None
    then have "links_ok reg (q'\<lparr>implicitProducerHashCount := c\<rparr>)" using links made ar by (simp add: links_ok_def)
    moreover have "Q' = Q" "implicitProducerHashCount q' - 1 = c" using made ar None c(1) by simp_all
    ultimately show ?thesis using r ar None made unfolding cq_inv_def
      by (intro exI [of _ None] exI [of _ rec] exI [of _ q'] exI [of _ Q] exI [of _ reg]) (simp add: exI [of _ Rs'])
  next
    case (Some a')
    have rec: "\<not> rec"
    proof
      assume rec
      then obtain k where "producer_shape q a' = Some (False, True, k)" using made ar Some by auto
      then show False using links by (auto simp: links_ok_def)
    qed
    then have m: "Q' = Q(a' \<mapsto> [])" "a' \<notin> dom Q" "producer_shape q' = (producer_shape q)(a' \<mapsto> (False, False, None))" "hashes q' = hashes q"
      "implicitProducerHashCount q' = 1 + c" "ptokens q' = ptokens q" using made ar Some c(1) by simp_all
    have fin: "finite (dom reg)" using tabs by (simp add: tables_ok_def)
    have card: "card (dom (reg(i \<mapsto> a'))) = card (dom reg) + 1" using fin new by (simp add: domIff)
    have "table_ok reg h" using tabs by (simp add: tables_ok_def)
    then have "\<forall>w. \<not> in_table h i w" unfolding table_ok_def using i new by blast
    moreover have "card (dom (reg(i \<mapsto> a'))) < unat (h_capacity h)" using card room by linarith
    ultimately obtain h' where h': "insert_in h i (Some a') = Inr h'" "tables_ok (reg(i \<mapsto> a')) (h' # rest)" "h_capacity h' = h_capacity h"
      using insert_main [OF tabs i disjI1 [OF new]] by blast
    let ?q = "q'\<lparr>hashes := h' # rest\<rparr>"
    have "hash_inv (reg(i \<mapsto> a')) (h' # rest) (1 + c)" using h'(2,3) card room c(2) by (simp add: hash_inv_def del: fun_upd_apply)
    then have "links_ok (reg(i \<mapsto> a')) ?q"
      using links_new [OF links, of a' ?q i] m dom by simp
    then have "cq_inv S b (Q(a' \<mapsto> [])) (reg(i \<mapsto> a')) ?q" using r(2,3) m(1) unfolding cq_inv_def by auto
    then show ?thesis using r(1) ar Some rec m h'(1)
      by (intro exI [of _ a] exI [of _ rec] exI [of _ q'] exI [of _ Q'] exI [of _ reg]) (simp del: fun_upd_apply)
  qed
qed

lemma get_or_add_ok:
  assumes ok: "setting_ok S b" and inv: "cq_inv S b Q reg q" and i: "i \<noteq> 0" and few: "card (dom reg) + 1 < 2 ^ 62"
  shows "\<exists>r q' Q' reg'. get_or_add_implicit_producer S i q = Inr (r, q') \<and> cq_inv S b Q' reg' q' \<and> ptokens q' = ptokens q \<and>
    own_lane S i Q reg r Q' reg'"
proof -
  let ?c = "implicitProducerHashCount q" and ?m = "mallocs (q_pool q)"
  have hash: "hash_inv reg (hashes q) ?c" using inv by (simp add: cq_inv_def links_ok_def)
  obtain hs' where look: "lookup_thread (hashes q) i = Inr (map_option Some (reg i), hs')" "hash_inv reg hs' ?c" "reg i = None \<longrightarrow> hs' = hashes q"
    using lookup_thread_ok [OF hash i] by metis
  show ?thesis
  proof (cases "reg i")
    case (Some a)
    then have "get_or_add_implicit_producer S i q = Inr (Some a, q\<lparr>hashes := hs'\<rparr>)" using look(1) by (simp add: get_or_add_implicit_producer_def)
    moreover have "cq_inv S b Q reg (q\<lparr>hashes := hs'\<rparr>)" using inv_hashes [OF inv look(2), of ?m] by simp
    moreover have "own_lane S i Q reg (Some a) Q reg" using Some by (simp add: own_lane_def)
    ultimately show ?thesis
      by (intro exI [of _ "Some a"] exI [of _ "q\<lparr>hashes := hs'\<rparr>"] exI [of _ Q] exI [of _ reg]) simp
  next
    case None
    have l: "lookup_thread (hashes q) i = Inr (None, hashes q)" using look None by simp
    obtain made hs1 m1 where rs: "resize_hash (malloc_ok S) (1 + ?c) (hashes q) ?m = Inr (made, hs1, m1)"
      and res: "if made then \<exists>h rest. hs1 = h # rest \<and> tables_ok reg hs1 \<and> card (dom reg) + 1 < unat (h_capacity h) div 2
        else \<not> malloc_ok S ?m \<and> hs1 = hashes q" using resize_ok [OF hash few] by blast
    let ?q = "q\<lparr>implicitProducerHashCount := 1 + ?c, hashes := hs1, q_pool := (q_pool q)\<lparr>mallocs := m1\<rparr>\<rparr>"
    have h1: "hash_inv reg hs1 ?c" using hash res by (cases made) (auto simp: hash_inv_def)
    have inv1: "cq_inv S b Q reg (?q\<lparr>implicitProducerHashCount := ?c\<rparr>)" using inv_hashes [OF inv h1, of m1] by simp
    show ?thesis
    proof (cases made)
      case False
      then have "get_or_add_implicit_producer S i q = Inr (None, ?q\<lparr>implicitProducerHashCount := ?c\<rparr>)"
        using l rs by (simp add: get_or_add_implicit_producer_def)
      moreover have "own_lane S i Q reg None Q reg" using None res False by (auto simp: own_lane_def)
      ultimately show ?thesis using inv1
        by (intro exI [of _ None] exI [of _ "?q\<lparr>implicitProducerHashCount := ?c\<rparr>"] exI [of _ Q] exI [of _ reg]) simp
    next
      case True
      then obtain h rest where h: "hs1 = h # rest" "tables_ok reg hs1" "card (dom reg) + 1 < unat (h_capacity h) div 2" using res by auto
      obtain k where k: "wf_table k h" using h(1,2) by (auto simp: tables_ok_def table_ok_def)
      have n: "unat (1 + ?c) = card (dom reg) + 1"
      proof -
        have "card (dom reg) + 1 < 2 ^ 64" by (rule less_trans [OF few]) simp
        then show ?thesis using unat_of_nat_u64 [of "unat ?c + 1"] hash by (simp add: hash_inv_def)
      qed
      have lt: "1 + ?c < drop_bit 1 (h_capacity h) + drop_bit 2 (h_capacity h)"
        by (rule room_left [OF k]) (use n h(3) table_size(1) [OF k] in simp)
      obtain r rec q' where r: "recycle_or_create_producer S False ?q = Inr ((r, rec), q')"
        and out: "case r of
            None \<Rightarrow> cq_inv S b Q reg (q'\<lparr>implicitProducerHashCount := implicitProducerHashCount q' - 1\<rparr>) \<and> ptokens q' = ptokens ?q \<and> (\<exists>j. \<not> malloc_ok S j)
          | Some a \<Rightarrow> \<not> rec \<and> a \<notin> dom Q \<and> (\<exists>h'. insert_in h i (Some a) = Inr h' \<and> ptokens q' = ptokens ?q \<and>
              cq_inv S b (Q(a \<mapsto> [])) (reg(i \<mapsto> a)) (q'\<lparr>hashes := h' # rest\<rparr>))"
        using register_ok [OF ok inv1 i None, of h rest] h(1,3) n by auto
      show ?thesis
      proof (cases r)
        case no: None
        have "get_or_add_implicit_producer S i q = Inr (None, q'\<lparr>implicitProducerHashCount := implicitProducerHashCount q' - 1\<rparr>)"
          using l rs True h(1) lt r no by (simp add: get_or_add_implicit_producer_def)
        moreover have "own_lane S i Q reg None Q reg" using None out no by (simp add: own_lane_def)
        ultimately show ?thesis using out no by (auto intro!: exI [of _ Q])
      next
        case (Some a)
        then obtain h' where a: "\<not> rec" "a \<notin> dom Q" "insert_in h i (Some a) = Inr h'" "ptokens q' = ptokens q"
          "cq_inv S b (Q(a \<mapsto> [])) (reg(i \<mapsto> a)) (q'\<lparr>hashes := h' # rest\<rparr>)" using out by auto
        have "get_or_add_implicit_producer S i q = Inr (Some a, q'\<lparr>hashes := h' # rest\<rparr>)"
          using l rs True h(1) lt r Some a(1,3) by (simp add: get_or_add_implicit_producer_def)
        moreover have "own_lane S i Q reg (Some a) (Q(a \<mapsto> [])) (reg(i \<mapsto> a))" using None a(2) by (simp add: own_lane_def)
        ultimately show ?thesis using a(4,5)
          by (intro exI [of _ "Some a"] exI [of _ "q'\<lparr>hashes := h' # rest\<rparr>"] exI [of _ "Q(a \<mapsto> [])"] exI [of _ "reg(i \<mapsto> a)"])
            (simp del: fun_upd_apply)
      qed
    qed
  qed
qed

section \<open>Enqueue\<close>

lemma shape_kind: "producer_shape q a = Some (e, n, k) \<Longrightarrow> prod_heap q a = Some pr \<Longrightarrow> is_explicit (pr_sub pr) = e"
  by (simp add: producer_shape_def)

text \<open>The answer of an \<^verbatim>\<open>enqueue\<close> into a given list.\<close>

definition appended :: "'a setting \<Rightarrow> cq_AllocationMode \<Rightarrow> nat \<Rightarrow> 'a \<Rightarrow> (nat \<Rightarrow> 'a list option) \<Rightarrow> bool \<Rightarrow> (nat \<Rightarrow> 'a list option) \<Rightarrow> bool" where
  "appended S m a x Q r Q' \<longleftrightarrow> (if r then \<exists>xs. Q a = Some xs \<and> Q' = Q(a \<mapsto> xs @ [x]) else may_refuse (s_traits S) (malloc_ok S) m \<and> Q' = Q)"

lemma appended_ends:
  assumes "enqueue_answer S m r" and "Q a = Some xs" and "cq_inv S b (Q(a \<mapsto> (if r = Returns True then xs @ [x] else xs))) reg q'"
  shows "\<exists>r' Q'. r = Returns r' \<and> cq_inv S b Q' reg q' \<and> appended S m a x Q r' Q'"
proof (cases "r = Returns True")
  case True
  then show ?thesis using assms by (intro exI [of _ True] exI [of _ "Q(a \<mapsto> xs @ [x])"]) (auto simp: appended_def)
next
  case False
  moreover have "Q(a \<mapsto> xs) = Q" using assms(2) by auto
  ultimately show ?thesis using assms by (intro exI [of _ False] exI [of _ Q]) (auto simp: appended_def enqueue_answer_def)
qed

lemma inv_enqueue_explicit:
  assumes ok: "setting_ok S b" and inv: "cq_inv S b Q reg q" and xs: "Q a = Some xs" and kind: "producer_shape q a = Some (True, n, k)" and few: "length xs < 2 ^ 62"
  shows "\<exists>r q' Q'. on_producer a (as_explicit (explicit_enqueue (s_ndebug S) (s_traits S) (malloc_ok S) (nothrow_ctor S) (ctor_throws S) m x)) q =
      Inr (Returns r, q') \<and> cq_inv S b Q' reg q' \<and> same_links q q' \<and> appended S m a x Q r Q'"
proof -
  obtain r q' where r: "on_producer a (as_explicit (explicit_enqueue (s_ndebug S) (s_traits S) (malloc_ok S) (nothrow_ctor S) (ctor_throws S) m x)) q =
      Inr (r, q')" "cq_inv S b (Q(a \<mapsto> (if r = Returns True then xs @ [x] else xs))) reg q'" "same_links q q'" "enqueue_answer S m r"
    using inv_call [OF inv xs sub_enqueue_explicit [OF ok _ _ few]] shape_kind [OF kind] by blast
  then show ?thesis using appended_ends [OF r(4) xs r(2)] by auto
qed

lemma inv_enqueue_implicit:
  assumes ok: "setting_ok S b" and inv: "cq_inv S b Q reg q" and xs: "Q a = Some xs" and kind: "producer_shape q a = Some (False, n, k)" and few: "length xs < 2 ^ 62"
  shows "\<exists>r q' Q'. on_producer a (as_implicit (implicit_enqueue (s_ndebug S) (s_traits S) (malloc_ok S) (nothrow_ctor S) (ctor_throws S) m x)) q =
      Inr (Returns r, q') \<and> cq_inv S b Q' reg q' \<and> same_links q q' \<and> appended S m a x Q r Q'"
proof -
  obtain r q' where r: "on_producer a (as_implicit (implicit_enqueue (s_ndebug S) (s_traits S) (malloc_ok S) (nothrow_ctor S) (ctor_throws S) m x)) q =
      Inr (r, q')" "cq_inv S b (Q(a \<mapsto> (if r = Returns True then xs @ [x] else xs))) reg q'" "same_links q q'" "enqueue_answer S m r"
    using inv_call [OF inv xs sub_enqueue_implicit [OF ok _ _ few]] shape_kind [OF kind] by blast
  then show ?thesis using appended_ends [OF r(4) xs r(2)] by auto
qed

lemma inv_dom: "cq_inv S b Q reg q \<Longrightarrow> dom (producer_shape q) = dom Q"
  by (auto simp: cq_inv_def subs_ok_def dom_shape)

lemma inv_thread:
  assumes inv: "cq_inv S b Q reg q" and "reg i = Some a"
  obtains xs n k where "Q a = Some xs" "producer_shape q a = Some (False, n, k)"
proof -
  obtain n k where sh: "producer_shape q a = Some (False, n, k)" using assms unfolding cq_inv_def links_ok_def by blast
  then have "a \<in> dom Q" using inv_dom [OF inv] by blast
  then show ?thesis using that sh by blast
qed

lemma enqueue_ok:
  assumes ok: "setting_ok S b" and inv: "cq_inv S b Q reg q" and i: "i \<noteq> 0" and few: "card (dom reg) + 1 < 2 ^ 62" "\<forall>xs\<in>ran Q. length xs < 2 ^ 62"
  shows "\<exists>r q' lane Q1 Q' reg'. cq_enqueue S m i x q = Inr (Returns r, q') \<and> cq_inv S b Q' reg' q' \<and> ptokens q' = ptokens q \<and>
    own_lane S i Q reg lane Q1 reg' \<and> (case lane of None \<Rightarrow> \<not> r \<and> Q' = Q1 | Some a \<Rightarrow> appended S m a x Q1 r Q')"
proof -
  obtain j where "j < 64" "INITIAL_IMPLICIT_PRODUCER_HASH_SIZE (s_traits S) = 2 ^ j" using ok by (auto simp: setting_ok_def)
  then have "INITIAL_IMPLICIT_PRODUCER_HASH_SIZE (s_traits S) \<noteq> 0" by simp
  then have run: "cq_enqueue S m i x q = cq_inner_enqueue S m i x q" by (simp add: cq_enqueue_def)
  obtain lane q1 Q1 reg1 where g: "get_or_add_implicit_producer S i q = Inr (lane, q1)" "cq_inv S b Q1 reg1 q1" "ptokens q1 = ptokens q"
    "own_lane S i Q reg lane Q1 reg1" using get_or_add_ok [OF ok inv i few(1)] by blast
  show ?thesis
  proof (cases lane)
    case None
    then have "cq_enqueue S m i x q = Inr (Returns False, q1)" using g(1) run by (simp add: cq_inner_enqueue_def)
    then show ?thesis using g(2-4) None
      by (intro exI [of _ False] exI [of _ q1] exI [of _ lane] exI [of _ Q1] exI [of _ reg1]) simp
  next
    case (Some a)
    then have "reg1 i = Some a" using g(4) by (auto simp: own_lane_def split: option.splits)
    then obtain xs n k where a: "Q1 a = Some xs" "producer_shape q1 a = Some (False, n, k)" using inv_thread [OF g(2)] by metis
    have "xs = [] \<or> Q a = Some xs" using g(4) a(1) Some by (auto simp: own_lane_def split: option.splits)
    then have lt: "length xs < 2 ^ 62" using few(2) by (auto simp: ran_def)
    obtain r q' Q' where r: "on_producer a (as_implicit (implicit_enqueue (s_ndebug S) (s_traits S) (malloc_ok S) (nothrow_ctor S) (ctor_throws S) m x)) q1 =
        Inr (Returns r, q')" "cq_inv S b Q' reg1 q'" "same_links q1 q'" "appended S m a x Q1 r Q'"
      using inv_enqueue_implicit [OF ok g(2) a lt] by blast
    then have "cq_enqueue S m i x q = Inr (Returns r, q')" using g(1) run Some by (simp add: cq_inner_enqueue_def)
    moreover have "ptokens q' = ptokens q" using r(3) g(3) by (simp add: same_links_def)
    ultimately show ?thesis using r(2,4) g(4) Some
      by (intro exI [of _ r] exI [of _ q'] exI [of _ lane] exI [of _ Q1] exI [of _ Q'] exI [of _ reg1]) simp
  qed
qed

lemma inv_token:
  assumes inv: "cq_inv S b Q reg q" and "ptokens q k = Some (Some a)"
  obtains xs where "Q a = Some xs" "producer_shape q a = Some (True, False, Some k)"
proof -
  have sh: "producer_shape q a = Some (True, False, Some k)" using assms by (auto simp: cq_inv_def links_ok_def)
  then have "a \<in> dom Q" using inv_dom [OF inv] by blast
  then show ?thesis using that sh by blast
qed

lemma enqueue_token_ok:
  assumes ok: "setting_ok S b" and inv: "cq_inv S b Q reg q" and k: "ptokens q k = Some (Some a)" and few: "\<forall>xs\<in>ran Q. length xs < 2 ^ 62"
  shows "\<exists>r q' Q'. cq_enqueue_token S m k x q = Inr (Returns r, q') \<and> cq_inv S b Q' reg q' \<and> ptokens q' = ptokens q \<and> appended S m a x Q r Q'"
proof -
  obtain xs where xs: "Q a = Some xs" "producer_shape q a = Some (True, False, Some k)" using inv_token [OF inv k] by metis
  then have lt: "length xs < 2 ^ 62" using few by (auto simp: ran_def)
  show ?thesis using inv_enqueue_explicit [OF ok inv xs lt, of m x] k by (auto simp: cq_enqueue_token_def token_at_def same_links_def)
qed

section \<open>Dequeue in bulk\<close>

lemma takes_empty: "takes Q xs Q' \<Longrightarrow> Q a = Some [] \<Longrightarrow> Q' a = Some []"
  by (induction rule: takes.induct) auto

definition many_taken :: "nat \<Rightarrow> (nat \<Rightarrow> 'a list option) \<Rightarrow> 'a list \<Rightarrow> (nat \<Rightarrow> 'a list option) \<Rightarrow> bool" where
  "many_taken n Q xs Q' \<longleftrightarrow> takes Q xs Q' \<and> length xs \<le> n \<and> (length xs < n \<longrightarrow> all_empty Q')"

lemma take_word:
  fixes n :: u64
  shows "unat (of_nat (min (unat n) l) :: u64) = min (unat n) l"
proof (rule unat_of_nat_u64)
  have "unat n < 2 ^ 64" using unsigned_less [of n] by simp
  then show "min (unat n) l < 2 ^ 64" by simp
qed

lemma dequeue_bulk_all_ok:
  assumes ok: "setting_ok S b"
  shows "cq_inv S b Q reg q \<Longrightarrow> set as \<subseteq> dom Q \<Longrightarrow> count \<le> mx \<Longrightarrow>
    \<exists>xs q' Q'. dequeue_bulk_all S mx count as q = Inr ((xs, Returns (count + of_nat (length xs))), q') \<and> cq_inv S b Q' reg q' \<and> same_links q q' \<and>
      takes Q xs Q' \<and> length xs \<le> unat (mx - count) \<and> (length xs < unat (mx - count) \<longrightarrow> (\<forall>a\<in>set as. Q' a = Some []))"
proof (induction as arbitrary: q Q count)
  case Nil
  then show ?case by (intro exI [of _ "[]"] exI [of _ q] exI [of _ Q]) (simp add: takes_none)
next
  case (Cons a as)
  let ?n = "mx - count"
  obtain xs where xs: "Q a = Some xs" using Cons.prems(2) by auto
  let ?k = "min (unat ?n) (length xs)" and ?Q = "Q(a \<mapsto> drop (unat ?n) xs)"
  obtain q1 where q1: "on_producer a (pb_dequeue_bulk S ?n) q = Inr ((take (unat ?n) xs, Returns (of_nat ?k)), q1)"
    "cq_inv S b ?Q reg q1" "same_links q q1" using inv_dequeue_bulk [OF ok Cons.prems(1) xs] by blast
  have t1: "takes Q (take (unat ?n) xs) ?Q" using takes_one [of Q a "take (unat ?n) xs"] xs by simp
  have len: "length (take (unat ?n) xs) = ?k" by (simp add: min.commute)
  have le: "of_nat ?k \<le> ?n" using take_word [of ?n "length xs"] by (simp add: word_le_nat_alt)
  have eq: "count + of_nat ?k = mx \<longleftrightarrow> of_nat ?k = ?n" by (auto simp: algebra_simps)
  show ?case
  proof (cases "of_nat ?k = ?n")
    case True
    then have k: "?k = unat ?n" using take_word [of ?n "length xs"] by metis
    have "dequeue_bulk_all S mx count (a # as) q = Inr ((take (unat ?n) xs, Returns (count + of_nat ?k)), q1)"
      using q1(1) True eq by simp
    then show ?thesis using q1(2,3) t1 len k
      by (intro exI [of _ "take (unat ?n) xs"] exI [of _ q1] exI [of _ ?Q]) (simp del: fun_upd_apply)
  next
    case False
    have k: "?k = length xs" "length xs < unat ?n"
    proof -
      have "?k \<noteq> unat ?n" using False by (metis word_unat_inverse)
      then show "?k = length xs" "length xs < unat ?n" by simp_all
    qed
    have u: "unat (mx - (count + of_nat ?k)) = unat ?n - ?k"
    proof -
      have "mx - (count + of_nat ?k) = ?n - of_nat ?k" by simp
      then show ?thesis using le take_word [of ?n "length xs"] by (simp only: unat_sub)
    qed
    have "unat mx = unat ?n + unat count" using Cons.prems(3) by (simp add: unat_sub word_le_nat_alt)
    then have "count + of_nat ?k \<le> mx"
      using u k take_word [of ?n "length xs"] unsigned_less [of mx] by (simp add: word_le_nat_alt unat_word_ariths)
    moreover have "set as \<subseteq> dom ?Q" using Cons.prems(2) by auto
    ultimately obtain ys q' Q' where r: "dequeue_bulk_all S mx (count + of_nat ?k) as q1 = Inr ((ys, Returns (count + of_nat ?k + of_nat (length ys))), q')"
      "cq_inv S b Q' reg q'" "same_links q1 q'" "takes ?Q ys Q'" "length ys \<le> unat ?n - ?k" "length ys < unat ?n - ?k \<longrightarrow> (\<forall>a\<in>set as. Q' a = Some [])"
      using Cons.IH [OF q1(2), of "count + of_nat ?k"] unfolding u by blast
    have all: "take (unat ?n) xs = xs" using k by simp
    have "Q' a = Some []" by (rule takes_empty [OF r(4)]) (use k in simp)
    moreover have "dequeue_bulk_all S mx count (a # as) q = Inr ((xs @ ys, Returns (count + of_nat (length (xs @ ys)))), q')"
      using q1(1) False eq r(1) k all by (simp add: add.assoc)
    moreover have "takes Q (xs @ ys) Q'" using takes_trans [OF r(4) t1] all by simp
    ultimately show ?thesis using r(2,5,6) k same_links_trans [OF q1(3) r(3)]
      by (intro exI [of _ "xs @ ys"] exI [of _ q'] exI [of _ Q']) auto
  qed
qed

lemma try_dequeue_bulk_ok:
  assumes ok: "setting_ok S b" and inv: "cq_inv S b Q reg q"
  shows "\<exists>xs q' Q'. cq_try_dequeue_bulk S n q = Inr ((xs, Returns (of_nat (length xs))), q') \<and> cq_inv S b Q' reg q' \<and> same_links q q' \<and>
    many_taken (unat n) Q xs Q'"
proof -
  obtain xs q' Q' where r: "dequeue_bulk_all S n 0 (producerList q) q = Inr ((xs, Returns (of_nat (length xs))), q')" "cq_inv S b Q' reg q'"
    "same_links q q'" "takes Q xs Q'" "length xs \<le> unat n" "length xs < unat n \<longrightarrow> (\<forall>a\<in>set (producerList q). Q' a = Some [])"
    using dequeue_bulk_all_ok [OF ok inv, of "producerList q" 0 n] inv_producers [OF inv] by auto
  have "producerList q' = producerList q" using r(3) by (simp add: same_links_def)
  then have "many_taken (unat n) Q xs Q'" using r(4-6) all_empty_list [OF r(2)] by (auto simp: many_taken_def)
  then show ?thesis using r(1-3) unfolding cq_try_dequeue_bulk_def by blast
qed

text \<open>\<^verbatim>\<open>size_approx\<close> is exact when nobody else is at work.\<close>

lemma sum_sizes_ok:
  assumes inv: "cq_inv S b Q reg q"
  shows "set as \<subseteq> dom Q \<Longrightarrow> sum_sizes q as n = Inr (n + of_nat (\<Sum>a\<leftarrow>as. length (the (Q a))))"
proof (induction as arbitrary: n)
  case (Cons a as)
  obtain pr xs R where a: "prod_heap q a = Some pr" "Q a = Some xs" "sub_rep S b xs R (pr_sub pr) (q_pool q)"
    by (rule inv_sub [OF inv, of a]) (use Cons.prems in auto)
  then show ?case using Cons sub_size [OF a(3)] by (simp add: prod_at_def add.assoc)
qed simp

lemma size_ok:
  assumes inv: "cq_inv S b Q reg q"
  shows "cq_size_approx q = Inr (of_nat (\<Sum>a\<in>dom Q. length (the (Q a))))"
proof -
  have "distinct (producerList q)" using inv by (simp add: cq_inv_def list_ok_def)
  then have "(\<Sum>a\<leftarrow>producerList q. length (the (Q a))) = (\<Sum>a\<in>dom Q. length (the (Q a)))"
    using inv_producers [OF inv] by (metis sum_list_distinct_conv_sum_set)
  then show ?thesis unfolding cq_size_approx_def using sum_sizes_ok [OF inv, of "producerList q" 0] inv_producers [OF inv] by simp
qed

section \<open>Producer tokens\<close>

text \<open>Forgetting tokens is harmless.\<close>

lemma inv_forget:
  assumes "cq_inv S b Q reg q" and "\<And>j a. ts j = Some (Some a) \<Longrightarrow> ptokens q j = Some (Some a)"
  shows "cq_inv S b Q reg (q\<lparr>ptokens := ts\<rparr>)"
  using assms unfolding cq_inv_def links_ok_def by auto

lemma put_prod_upd: "ptokens (put_prod a pr q) = ptokens q" "put_prod a pr (q\<lparr>ptokens := ts\<rparr>) = (put_prod a pr q)\<lparr>ptokens := ts\<rparr>"
  "hashes (put_prod a pr q) = hashes q" "implicitProducerHashCount (put_prod a pr q) = implicitProducerHashCount q"
  by (simp_all add: put_prod_def)

text \<open>Changing the marks of an explicit producer, and the tokens with them.\<close>

lemma remark_ok:
  assumes inv: "cq_inv S b Q reg (q\<lparr>ptokens := ts\<rparr>)" and pr: "prod_heap q a = Some pr" and sh: "producer_shape q a = Some (True, n, t)"
    and pr': "pr_sub pr' = pr_sub pr" and ts: "\<And>j c. ts' j = Some (Some c) \<Longrightarrow> (if c = a then pr_token pr' = Some j \<and> \<not> pr_inactive pr' else ts j = Some (Some c))"
  shows "cq_inv S b Q reg ((put_prod a pr' q)\<lparr>ptokens := ts'\<rparr>)"
proof -
  obtain Rs where l: "list_ok q" "links_ok reg (q\<lparr>ptokens := ts\<rparr>)" "subs_ok S b Q Rs q" using inv by (auto simp: cq_inv_def)
  have sh': "producer_shape (put_prod a pr' q) = (producer_shape q)(a \<mapsto> (True, pr_inactive pr', pr_token pr'))"
    using shape_kind [OF sh pr] pr' by (simp add: put_shape)
  have reg: "c \<noteq> a" if "reg i = Some c" for i c using thread_shape [OF l(2) that] sh by auto
  have "\<exists>n k. producer_shape (put_prod a pr' q) c = Some (False, n, k)" if "reg i = Some c" for i c
    using l(2) reg [OF that] that unfolding sh' by (auto simp: links_ok_def)
  moreover have "producer_shape (put_prod a pr' q) c \<noteq> Some (False, True, k)" for c k using l(2) unfolding sh' by (auto simp: links_ok_def)
  moreover have "producer_shape (put_prod a pr' q) c = Some (True, False, Some j)" if "ts' j = Some (Some c)" for j c
    using ts [OF that] l(2) unfolding sh' by (auto simp: links_ok_def)
  ultimately have "links_ok reg ((put_prod a pr' q)\<lparr>ptokens := ts'\<rparr>)" using l(2) by (simp add: links_ok_def put_prod_upd)
  moreover have "list_ok (put_prod a pr' q)" "subs_ok S b Q Rs (put_prod a pr' q)" using put_marks [OF pr pr'] l(1,3) by simp_all
  ultimately show ?thesis unfolding cq_inv_def by auto
qed

lemma own_ok:
  assumes inv: "cq_inv S b Q reg (q\<lparr>ptokens := ts\<rparr>)" and sh: "producer_shape q a = Some (True, False, t)" and ts: "\<And>j. ts j = Some (Some a) \<Longrightarrow> j = k"
  shows "\<exists>q'. own_producer (Some a) k q = Inr q' \<and> cq_inv S b Q reg (q'\<lparr>ptokens := ts(k \<mapsto> Some a)\<rparr>) \<and> ptokens q' = ptokens q \<and>
    producer_shape q' = (producer_shape q)(a \<mapsto> (True, False, Some k))"
proof -
  obtain pr where pr: "prod_heap q a = Some pr" "is_explicit (pr_sub pr)" "\<not> pr_inactive pr" using sh by (auto simp: producer_shape_def)
  let ?pr = "pr\<lparr>pr_token := Some k\<rparr>"
  have "own_producer (Some a) k q = Inr (put_prod a ?pr q)" using pr(1) by (simp add: own_producer_def prod_at_def)
  moreover have "cq_inv S b Q reg ((put_prod a ?pr q)\<lparr>ptokens := ts(k \<mapsto> Some a)\<rparr>)"
    by (rule remark_ok [OF inv pr(1) sh]) (use pr(3) ts in \<open>auto split: if_splits\<close>)
  ultimately show ?thesis using pr(2,3) by (auto simp: put_prod_upd put_shape)
qed

definition token_made ::
    "'a setting \<Rightarrow> nat \<Rightarrow> (nat \<Rightarrow> 'a list option) \<Rightarrow> (u64 \<Rightarrow> nat option) \<Rightarrow> (nat \<Rightarrow> nat option option) \<Rightarrow>
     nat option \<Rightarrow> (nat \<Rightarrow> 'a list option) \<Rightarrow> bool" where
  "token_made S k Q reg ts r Q' \<longleftrightarrow>
     (case r of
        None \<Rightarrow> (\<exists>j. \<not> malloc_ok S j) \<and> Q' = Q
      | Some a \<Rightarrow> if a \<in> dom Q then Q' = Q \<and> (\<forall>j. ts j \<noteq> Some (Some a)) \<and> a \<notin> ran reg else Q' = Q(a \<mapsto> []))"

lemma new_token_ok:
  assumes ok: "setting_ok S b" and inv: "cq_inv S b Q reg q"
  shows "\<exists>r q' Q'. new_producer_token S k q = Inr q' \<and> cq_inv S b Q' reg q' \<and> ptokens q' = (ptokens q)(k \<mapsto> r) \<and> token_made S k Q reg (ptokens q) r Q'"
proof -
  obtain Rs where list: "list_ok q" and links: "links_ok reg q" and subs: "subs_ok S b Q Rs q" using inv by (auto simp: cq_inv_def)
  obtain r q1 Rs' Q' where r: "recycle_or_create_producer S True q = Inr (r, q1)" "subs_ok S b Q' Rs' q1" "list_ok q1" "made_producer S True Q q r Q' q1"
    using recycle_or_create_ok [OF ok subs list] by blast
  obtain a rec where ar: "r = (a, rec)" by (cases r)
  note made = r(4) [unfolded made_producer_def ar]
  have toks: "ptokens q1 = ptokens q" using made by simp
  show ?thesis
  proof (cases a)
    case None
    then have "links_ok reg q1" "Q' = Q" using links made by (simp_all add: links_ok_def)
    then have "cq_inv S b Q reg q1" using r(2,3) by (auto simp: cq_inv_def)
    then have "cq_inv S b Q reg (q1\<lparr>ptokens := (ptokens q)(k \<mapsto> None)\<rparr>)" by (rule inv_forget) (use toks in \<open>auto split: if_splits\<close>)
    moreover have "new_producer_token S k q = Inr (q1\<lparr>ptokens := (ptokens q)(k \<mapsto> None)\<rparr>)"
      using r(1) ar None toks by (simp add: new_producer_token_def own_producer_def set_token_def)
    ultimately show ?thesis using made None
      by (intro exI [of _ None] exI [of _ "q1\<lparr>ptokens := (ptokens q)(k \<mapsto> None)\<rparr>"] exI [of _ Q]) (simp add: token_made_def)
  next
    case (Some c)
    have free: "ptokens q j \<noteq> Some (Some c)" "reg i \<noteq> Some c" for i j
    proof -
      have "producer_shape q c = None \<or> (\<exists>k. producer_shape q c = Some (True, True, k))"
        using made Some inv_dom [OF inv] by (cases rec) (auto simp: domIff)
      then show "ptokens q j \<noteq> Some (Some c)" "reg i \<noteq> Some c"
        using token_shape [OF links, of j c] thread_shape [OF links, of i c] by auto
    qed
    obtain t where sh: "producer_shape q1 = (producer_shape q)(c \<mapsto> (True, False, t))" using made Some by (cases rec) auto
    have "links_ok reg q1" using links made free unfolding links_ok_def sh by (cases rec) auto
    then have inv1: "cq_inv S b Q' reg q1" using r(2,3) by (auto simp: cq_inv_def)
    let ?q = "set_token k (Some c) q1"
    have "cq_inv S b Q' reg (q1\<lparr>ptokens := (ptokens q)(k := None)\<rparr>)" by (rule inv_forget [OF inv1]) (use toks in \<open>auto split: if_splits\<close>)
    then have inv2: "cq_inv S b Q' reg (?q\<lparr>ptokens := (ptokens q)(k := None)\<rparr>)" by (simp add: set_token_def)
    have shc: "producer_shape ?q c = Some (True, False, t)" using sh by (simp add: set_token_def)
    have only: "j = k" if "((ptokens q)(k := None)) j = Some (Some c)" for j using that free(1) [of j] by (simp split: if_splits)
    obtain q' where q': "own_producer (Some c) k ?q = Inr q'" "cq_inv S b Q' reg (q'\<lparr>ptokens := ((ptokens q)(k := None))(k \<mapsto> Some c)\<rparr>)"
      "ptokens q' = ptokens ?q" using own_ok [OF inv2 shc only] by blast
    have pt: "ptokens q' = (ptokens q)(k \<mapsto> Some c)" using q'(3) toks by (simp add: set_token_def)
    then have "cq_inv S b Q' reg q'" using q'(2) by (metis cqueue.surjective cqueue.update_convs(10) fun_upd_upd)
    moreover have "new_producer_token S k q = Inr q'" using r(1) ar Some q'(1) by (simp add: new_producer_token_def)
    moreover have "token_made S k Q reg (ptokens q) (Some c) Q'"
      using made Some free by (cases rec) (auto simp: token_made_def ran_def)
    ultimately show ?thesis using pt by blast
  qed
qed

text \<open>The two other ways in which tokens change hands, and their end.\<close>

lemma token_unique:
  assumes "cq_inv S b Q reg q" and "ptokens q k = Some (Some a)" and "ptokens q j = Some (Some a)"
  shows "j = k"
proof -
  have "links_ok reg q" using assms(1) by (simp add: cq_inv_def)
  then show ?thesis using token_shape [of reg q k a] token_shape [of reg q j a] assms(2,3) by simp
qed

lemma own_option:
  assumes inv: "cq_inv S b Q reg (q\<lparr>ptokens := ts\<rparr>)" and a: "\<And>c. a = Some c \<Longrightarrow> (\<exists>t. producer_shape q c = Some (True, False, t)) \<and> (\<forall>j. ts j = Some (Some c) \<longrightarrow> j = k)"
  shows "\<exists>q'. own_producer a k q = Inr q' \<and> cq_inv S b Q reg (q'\<lparr>ptokens := ts(k \<mapsto> a)\<rparr>) \<and> ptokens q' = ptokens q \<and>
    (\<forall>c t. producer_shape q c = Some (True, False, t) \<longrightarrow> (\<exists>t. producer_shape q' c = Some (True, False, t)))"
proof (cases a)
  case None
  have "cq_inv S b Q reg ((q\<lparr>ptokens := ts\<rparr>)\<lparr>ptokens := ts(k \<mapsto> a)\<rparr>)" by (rule inv_forget [OF inv]) (use None in \<open>auto split: if_splits\<close>)
  then show ?thesis using None by (intro exI [of _ q]) (simp add: own_producer_def)
next
  case (Some c)
  then obtain t where t: "producer_shape q c = Some (True, False, t)" "\<And>j. ts j = Some (Some c) \<Longrightarrow> j = k" using a by blast
  show ?thesis using own_ok [OF inv t] Some by auto
qed

lemma same_tokens: "ptokens q = ts \<Longrightarrow> q\<lparr>ptokens := ts\<rparr> = q"
  by simp

lemma move_token_ok:
  assumes inv: "cq_inv S b Q reg q" and k: "ptokens q k = None" and other: "ptokens q other = Some a"
  shows "\<exists>q'. move_producer_token k other q = Inr q' \<and> cq_inv S b Q reg q' \<and> ptokens q' = (ptokens q)(k \<mapsto> a, other \<mapsto> None)"
proof -
  let ?q = "set_token other None (set_token k a q)" and ?ts = "(ptokens q)(other \<mapsto> None)"
  have links: "links_ok reg q" using inv by (simp add: cq_inv_def)
  have ne: "k \<noteq> other" using k other by auto
  have "cq_inv S b Q reg (q\<lparr>ptokens := ?ts\<rparr>)" by (rule inv_forget [OF inv]) (auto split: if_splits)
  then have inv1: "cq_inv S b Q reg (?q\<lparr>ptokens := ?ts\<rparr>)" by (simp add: set_token_def)
  have own: "(\<exists>t. producer_shape ?q c = Some (True, False, t)) \<and> (\<forall>j. ?ts j = Some (Some c) \<longrightarrow> j = k)" if c: "a = Some c" for c
  proof (intro conjI allI impI)
    show "\<exists>t. producer_shape ?q c = Some (True, False, t)" using token_shape [OF links, of other c] other c by (simp add: set_token_def)
    show "j = k" if "?ts j = Some (Some c)" for j using token_unique [OF inv, of other c j] other c that by (simp split: if_splits)
  qed
  obtain q' where q': "own_producer a k ?q = Inr q'" "cq_inv S b Q reg (q'\<lparr>ptokens := ?ts(k \<mapsto> a)\<rparr>)" "ptokens q' = ptokens ?q"
    using own_option [OF inv1 own] by blast
  have pt: "ptokens q' = (ptokens q)(k \<mapsto> a, other \<mapsto> None)" using q'(3) by (simp add: set_token_def)
  have "?ts(k \<mapsto> a) = (ptokens q)(k \<mapsto> a, other \<mapsto> None)" using ne by (rule fun_upd_twist [symmetric])
  then have "cq_inv S b Q reg q'" using q'(2) same_tokens [OF pt] by simp
  then show ?thesis using q'(1) other pt by (simp add: move_producer_token_def token_at_def)
qed

lemma swap_tokens_ok:
  assumes inv: "cq_inv S b Q reg q" and k: "ptokens q k = Some a" and other: "ptokens q other = Some c"
  shows "\<exists>q'. swap_producer_tokens k other q = Inr q' \<and> cq_inv S b Q reg q' \<and> ptokens q' = (ptokens q)(k \<mapsto> c, other \<mapsto> a)"
proof -
  let ?q = "set_token other a (set_token k c q)" and ?ts = "(ptokens q)(k \<mapsto> None, other \<mapsto> None)"
  have links: "links_ok reg q" using inv by (simp add: cq_inv_def)
  have "cq_inv S b Q reg (q\<lparr>ptokens := ?ts\<rparr>)" by (rule inv_forget [OF inv]) (auto split: if_splits)
  then have inv1: "cq_inv S b Q reg (?q\<lparr>ptokens := ?ts\<rparr>)" by (simp add: set_token_def)
  have own: "(\<exists>t. producer_shape ?q d = Some (True, False, t)) \<and> (\<forall>j. ?ts j = Some (Some d) \<longrightarrow> j = k)" if d: "c = Some d" for d
  proof (intro conjI allI impI)
    show "\<exists>t. producer_shape ?q d = Some (True, False, t)" using token_shape [OF links, of other d] other d by (simp add: set_token_def)
    show "j = k" if "?ts j = Some (Some d)" for j using token_unique [OF inv, of other d j] other d that by (simp split: if_splits)
  qed
  obtain q1 where q1: "own_producer c k ?q = Inr q1" "cq_inv S b Q reg (q1\<lparr>ptokens := ?ts(k \<mapsto> c)\<rparr>)" "ptokens q1 = ptokens ?q"
    "\<And>d t. producer_shape ?q d = Some (True, False, t) \<Longrightarrow> \<exists>t. producer_shape q1 d = Some (True, False, t)"
    using own_option [OF inv1 own] by blast
  have own': "(\<exists>t. producer_shape q1 d = Some (True, False, t)) \<and> (\<forall>j. (?ts(k \<mapsto> c)) j = Some (Some d) \<longrightarrow> j = other)" if d: "a = Some d" for d
  proof (intro conjI allI impI)
    have "producer_shape ?q d = Some (True, False, Some k)" using token_shape [OF links, of k d] k d by (simp add: set_token_def)
    then show "\<exists>t. producer_shape q1 d = Some (True, False, t)" by (rule q1(4))
    show "j = other" if "(?ts(k \<mapsto> c)) j = Some (Some d)" for j
      using token_unique [OF inv, of k d j] token_unique [OF inv, of k d other] other k d that by (simp split: if_splits)
  qed
  obtain q' where q': "own_producer a other q1 = Inr q'" "cq_inv S b Q reg (q'\<lparr>ptokens := ?ts(k \<mapsto> c, other \<mapsto> a)\<rparr>)" "ptokens q' = ptokens q1"
    using own_option [OF q1(2) own'] by blast
  have pt: "ptokens q' = (ptokens q)(k \<mapsto> c, other \<mapsto> a)" using q'(3) q1(3) by (simp add: set_token_def)
  have "?ts(k \<mapsto> c, other \<mapsto> a) = (ptokens q)(k \<mapsto> c, other \<mapsto> a)" by auto
  then have "cq_inv S b Q reg q'" using q'(2) same_tokens [OF pt] by simp
  then show ?thesis using q1(1) q'(1) k other pt by (simp add: swap_producer_tokens_def token_at_def)
qed

lemma delete_token_ok:
  assumes inv: "cq_inv S b Q reg q" and k: "ptokens q k = Some a"
  shows "\<exists>q'. delete_producer_token k q = Inr q' \<and> cq_inv S b Q reg q' \<and> ptokens q' = (ptokens q)(k := None)"
proof (cases a)
  case None
  have "cq_inv S b Q reg (q\<lparr>ptokens := (ptokens q)(k := None)\<rparr>)" by (rule inv_forget [OF inv]) (auto split: if_splits)
  then show ?thesis using k None by (simp add: delete_producer_token_def token_at_def)
next
  case (Some c)
  have "links_ok reg q" using inv by (simp add: cq_inv_def)
  then have sh: "producer_shape q c = Some (True, False, Some k)" using token_shape k Some by simp
  then obtain pr where pr: "prod_heap q c = Some pr" by (auto simp: producer_shape_def)
  let ?q = "put_prod c (pr\<lparr>pr_token := None, pr_inactive := True\<rparr>) (q\<lparr>ptokens := (ptokens q)(k := None)\<rparr>)"
  have run: "delete_producer_token k q = Inr ?q" using k Some pr by (simp add: delete_producer_token_def token_at_def prod_at_def)
  have "cq_inv S b Q reg ((put_prod c (pr\<lparr>pr_token := None, pr_inactive := True\<rparr>) q)\<lparr>ptokens := (ptokens q)(k := None)\<rparr>)"
  proof (rule remark_ok [OF _ pr sh])
    show "cq_inv S b Q reg (q\<lparr>ptokens := ptokens q\<rparr>)" using inv by simp
    fix j d assume j: "((ptokens q)(k := None)) j = Some (Some d)"
    then have "d \<noteq> c" using token_unique [OF inv, of k c j] k Some by (auto split: if_splits)
    then show "if d = c then pr_token (pr\<lparr>pr_token := None, pr_inactive := True\<rparr>) = Some j \<and> \<not> pr_inactive (pr\<lparr>pr_token := None, pr_inactive := True\<rparr>)
      else ptokens q j = Some (Some d)" using j by (simp split: if_splits)
  qed simp
  then show ?thesis using run by (simp add: put_prod_upd)
qed

end
