(* ===== verification/Cq_Consumer.thy ===== *)
theory Cq_Consumer
  imports Cq_Queue_Fifo
begin

text \<open>
  Consumer tokens of \<^verbatim>\<open>ConcurrentQueue\<close>: the rotation among producers always names one of them, the walk around the
  list of producers ends, and a dequeue with a token misses no element.
\<close>

section \<open>Around the list of producers\<close>

lemma next_in_nth:
  "distinct xs \<Longrightarrow> j < length xs \<Longrightarrow> next_in (xs ! j) xs = (if Suc j < length xs then Some (xs ! Suc j) else None)"
proof (induction xs arbitrary: j)
  case (Cons b cs)
  show ?case
  proof (cases cs)
    case Nil
    then show ?thesis using Cons.prems by simp
  next
    case C: (Cons c ds)
    show ?thesis
    proof (cases j)
      case 0
      then show ?thesis using C by simp
    next
      case (Suc i)
      then have "i < length cs" using Cons.prems(2) by simp
      then have "cs ! i \<noteq> b" using Cons.prems(1) nth_mem by fastforce
      then show ?thesis using Cons.IH [of i] Cons.prems(1) \<open>i < length cs\<close> Suc C by simp
    qed
  qed
qed simp

lemma next_or_tail_ok:
  assumes list: "list_ok q" and j: "j < length (producerList q)"
  shows "next_or_tail q (producerList q ! j) = Inr (producerList q ! (Suc j mod length (producerList q)))"
proof -
  let ?l = "producerList q"
  have "?l ! j \<in> dom (prod_heap q)" using list j unfolding list_ok_def dom_shape by (metis nth_mem)
  then obtain pr where pr: "prod_at q (?l ! j) = Inr pr" by (auto simp: prod_at_def)
  have n: "next_in (?l ! j) ?l = (if Suc j < length ?l then Some (?l ! Suc j) else None)"
    by (rule next_in_nth [OF _ j]) (use list in \<open>simp add: list_ok_def\<close>)
  show ?thesis
  proof (cases "Suc j < length ?l")
    case True
    then show ?thesis using n pr by (simp add: next_or_tail_def)
  next
    case False
    then have "Suc j = length ?l" using j by simp
    then have "Suc j mod length ?l = 0" by simp
    then show ?thesis using n pr False j by (cases ?l) (simp_all add: next_or_tail_def)
  qed
qed

lemma next_or_tail_in:
  assumes "list_ok q" and "a \<in> set (producerList q)"
  shows "\<exists>c\<in>set (producerList q). next_or_tail q a = Inr c"
proof -
  obtain j where j: "j < length (producerList q)" "a = producerList q ! j" using assms(2) by (auto simp: in_set_conv_nth)
  then have "Suc j mod length (producerList q) < length (producerList q)" by (intro mod_less_divisor) linarith
  then show ?thesis using next_or_tail_ok [OF assms(1) j(1)] j(2) by (metis nth_mem)
qed

lemma rotate_ok:
  assumes "list_ok q"
  shows "a \<in> set (producerList q) \<Longrightarrow> \<exists>c\<in>set (producerList q). rotate_producer n q a = Inr c"
proof (induction n arbitrary: a)
  case (Suc n)
  obtain c where "c \<in> set (producerList q)" "next_or_tail q a = Inr c" using next_or_tail_in [OF assms Suc.prems] by blast
  then show ?case using Suc.IH by simp
qed simp

text \<open>A token has seen no producer yet, or it names two.\<close>

definition consumer_ok :: "nat list \<Rightarrow> consumer_token \<Rightarrow> bool" where
  "consumer_ok ps ct \<longleftrightarrow>
     (case (desiredProducer ct, currentProducer ct) of
        (None, None) \<Rightarrow> True | (Some d, Some c) \<Rightarrow> d \<in> set ps \<and> c \<in> set ps | _ \<Rightarrow> False)"

lemma refresh_ok:
  assumes list: "list_ok q" and few: "length (producerList q) < 2 ^ 32" and ct: "consumer_ok (producerList q) ct"
  shows "\<exists>ready ct'. refresh_token ct q = Inr (ready, ct') \<and> consumer_ok (producerList q) ct' \<and>
    (if ready then currentProducer ct' \<noteq> None else producerList q = [])"
proof -
  let ?l = "producerList q"
  have count: "unat (producerCount q) = length ?l" using list few by (simp add: list_ok_def unat_of_nat)
  consider (skip) "desiredProducer ct \<noteq> None" "lastKnownGlobalOffset ct = globalExplicitConsumerOffset q"
    | (empty) "desiredProducer ct = None" "?l = []"
    | (rotate) "desiredProducer ct = None \<or> lastKnownGlobalOffset ct \<noteq> globalExplicitConsumerOffset q" "\<not> (desiredProducer ct = None \<and> ?l = [])"
    by metis
  then show ?thesis
  proof cases
    case skip
    then show ?thesis using ct by (auto simp: refresh_token_def consumer_ok_def split: option.splits)
  next
    case empty
    then have "refresh_token ct q = Inr (False, ct)" by (simp add: refresh_token_def update_current_producer_after_rotation_def)
    then show ?thesis using ct empty(2) by (intro exI [of _ False] exI [of _ ct]) simp
  next
    case rotate
    have ne: "?l \<noteq> []" using rotate(2) ct by (auto simp: consumer_ok_def split: option.splits)
    then have pc: "producerCount q \<noteq> 0" using count by auto
    have "\<exists>d\<in>set ?l. (case (desiredProducer ct, ?l) of
            (Some d, _) \<Rightarrow> Inr d
          | (None, []) \<Rightarrow> Inl Cq_null
          | (None, tail # _) \<Rightarrow> rotate_producer (unat (producerCount q - 1 - (initialOffset ct mod producerCount q))) q tail) = Inr d"
    proof (cases "desiredProducer ct")
      case None
      obtain tail rest where l: "?l = tail # rest" using ne by (cases ?l) auto
      then have "tail \<in> set ?l" by simp
      from rotate_ok [OF list this] show ?thesis using None l by auto
    next
      case (Some d)
      then show ?thesis using ct by (auto simp: consumer_ok_def split: option.splits)
    qed
    then obtain d where d: "d \<in> set ?l" "(case (desiredProducer ct, ?l) of
            (Some d, _) \<Rightarrow> Inr d
          | (None, []) \<Rightarrow> Inl Cq_null
          | (None, tail # _) \<Rightarrow> rotate_producer (unat (producerCount q - 1 - (initialOffset ct mod producerCount q))) q tail) = Inr d" by blast
    let ?delta = "globalExplicitConsumerOffset q - lastKnownGlobalOffset ct"
    obtain e where e: "e \<in> set ?l" "rotate_producer (unat (if ?delta \<ge> producerCount q then ?delta mod producerCount q else ?delta)) q d = Inr e"
      using rotate_ok [OF list d(1)] by blast
    let ?ct = "ct\<lparr>desiredProducer := Some e, lastKnownGlobalOffset := globalExplicitConsumerOffset q, currentProducer := Some e, itemsConsumedFromCurrent := 0\<rparr>"
    have "update_current_producer_after_rotation ct q =
        (let prodCount = producerCount q; globalOffset = globalExplicitConsumerOffset q in
        if prodCount = 0 then Inl Cq_bounds
        else bind_r (case (desiredProducer ct, producerList q) of
            (Some d, _) \<Rightarrow> Inr d
          | (None, []) \<Rightarrow> Inl Cq_null
          | (None, tail # _) \<Rightarrow> rotate_producer (unat (prodCount - 1 - (initialOffset ct mod prodCount))) q tail) (\<lambda>d.
        let delta = globalOffset - lastKnownGlobalOffset ct; delta = (if delta \<ge> prodCount then delta mod prodCount else delta) in
        bind_r (rotate_producer (unat delta) q d) (\<lambda>d.
          Inr (True, ct\<lparr>desiredProducer := Some d, lastKnownGlobalOffset := globalOffset, currentProducer := Some d,
            itemsConsumedFromCurrent := 0\<rparr>))))"
      using ne unfolding update_current_producer_after_rotation_def by (auto split: option.splits list.splits)
    then have "refresh_token ct q = Inr (True, ?ct)"
      using rotate(1) pc d(2) e(2) by (simp only: refresh_token_def Let_def if_True if_False bind_r_simps)
    then show ?thesis using e(1) by (auto simp: consumer_ok_def)
  qed
qed

lemma inv_offset:
  assumes "cq_inv S b Q reg q"
  shows "cq_inv S b Q reg (q\<lparr>globalExplicitConsumerOffset := n\<rparr>)" "cq_inv S b Q reg (q\<lparr>nextExplicitConsumerId := m\<rparr>)"
proof -
  have "subs_ok S b Q Rs (q\<lparr>globalExplicitConsumerOffset := n\<rparr>) = subs_ok S b Q Rs q"
    "subs_ok S b Q Rs (q\<lparr>nextExplicitConsumerId := m\<rparr>) = subs_ok S b Q Rs q" for Rs by (simp_all add: subs_ok_def)
  then show "cq_inv S b Q reg (q\<lparr>globalExplicitConsumerOffset := n\<rparr>)" "cq_inv S b Q reg (q\<lparr>nextExplicitConsumerId := m\<rparr>)"
    using assms by (simp_all add: cq_inv_def list_ok_def links_ok_def)
qed

section \<open>One element\<close>

lemma around_all: "0 < n \<Longrightarrow> c < n \<Longrightarrow> j < n \<Longrightarrow> \<exists>d<n. (c + d) mod n = (j :: nat)"
  by (cases "c \<le> j") (intro exI [of _ "j - c"], simp, intro exI [of _ "n + j - c"], simp)

lemma around_else: "c < n \<Longrightarrow> 0 < d \<Longrightarrow> d < n \<Longrightarrow> (c + d) mod n \<noteq> (c :: nat)"
  by (cases "c + d < n") (auto simp: mod_if)

lemma dequeue_round_ok:
  assumes ok: "setting_ok S b" and c: "c < length ps" "currentProducer ct = Some (ps ! c)"
  shows "cq_inv S b Q reg q \<Longrightarrow> producerList q = ps \<Longrightarrow> 0 < d \<Longrightarrow> d \<le> length ps \<Longrightarrow>
    (\<forall>d'<d. Q (ps ! ((c + d') mod length ps)) = Some []) \<Longrightarrow> length ps - d < fuel \<Longrightarrow>
    \<exists>r ct' q' Q'. dequeue_round fuel S (ps ! ((c + d) mod length ps)) ct q = Inr (Returns r, ct', q') \<and> cq_inv S b Q' reg q' \<and> same_links q q' \<and>
      one_taken Q r Q' \<and> desiredProducer ct' = desiredProducer ct \<and> (\<exists>a\<in>set ps. currentProducer ct' = Some a)"
proof (induction fuel arbitrary: d q)
  case 0
  then show ?case by simp
next
  case (Suc fuel)
  let ?n = "length ps" and ?ptr = "ps ! ((c + d) mod length ps)"
  have n: "0 < ?n" using c(1) by linarith
  have dist: "distinct ps" using Suc.prems(1,2) by (simp add: cq_inv_def list_ok_def)
  have ptr: "(c + d) mod ?n < ?n" "?ptr \<in> set ps" using n by simp_all
  show ?case
  proof (cases "d = ?n")
    case True
    then have "?ptr = ps ! c" using c(1) by simp
    then have run: "dequeue_round (Suc fuel) S ?ptr ct q = Inr (Returns None, ct, q)" using c(2) by simp
    have "Q a = Some []" if a: "a \<in> set ps" for a
    proof -
      obtain j where j: "j < ?n" "a = ps ! j" using a by (auto simp: in_set_conv_nth)
      then obtain d' where "d' < ?n" "(c + d') mod ?n = j" using around_all [OF n c(1)] by blast
      then show ?thesis using Suc.prems(5) True j by blast
    qed
    then have "one_taken Q None Q" using all_empty_list [OF Suc.prems(1)] Suc.prems(2) by (simp add: one_taken_def)
    then show ?thesis using run Suc.prems(1) c
      by (intro exI [of _ None] exI [of _ ct] exI [of _ q] exI [of _ Q]) (simp del: dequeue_round.simps)
  next
    case False
    then have d: "d < ?n" using Suc.prems(4) by simp
    have "(c + d) mod ?n \<noteq> c" by (rule around_else [OF c(1) Suc.prems(3) d])
    then have ne: "?ptr \<noteq> ps ! c" using dist ptr(1) c(1) by (simp add: nth_eq_iff_index_eq)
    have "?ptr \<in> dom Q" using ptr(2) inv_producers [OF Suc.prems(1)] Suc.prems(2) by simp
    then obtain xs where xs: "Q ?ptr = Some xs" by blast
    obtain q1 where q1: "on_producer ?ptr (pb_dequeue S) q = Inr (Returns (case xs of [] \<Rightarrow> None | x # _ \<Rightarrow> Some x), q1)"
      "cq_inv S b (Q(?ptr \<mapsto> tl xs)) reg q1" "same_links q q1" using inv_dequeue [OF ok Suc.prems(1) xs] by blast
    have ps1: "producerList q1 = ps" using q1(3) Suc.prems(2) by (simp add: same_links_def)
    show ?thesis
    proof (cases xs)
      case Nil
      then have same: "Q(?ptr \<mapsto> tl xs) = Q" using xs by auto
      have "list_ok q1" using q1(2) by (simp add: cq_inv_def)
      then have nx: "next_or_tail q1 ?ptr = Inr (ps ! ((c + Suc d) mod ?n))"
        using next_or_tail_ok [of q1 "(c + d) mod ?n"] ps1 ptr(1) by (simp add: mod_Suc_eq)
      have seen: "\<forall>d'<Suc d. Q (ps ! ((c + d') mod ?n)) = Some []" using Suc.prems(5) xs Nil by (simp add: less_Suc_eq)
      have "\<exists>r ct' q' Q'. dequeue_round fuel S (ps ! ((c + Suc d) mod ?n)) ct q1 = Inr (Returns r, ct', q') \<and> cq_inv S b Q' reg q' \<and> same_links q1 q' \<and>
          one_taken Q r Q' \<and> desiredProducer ct' = desiredProducer ct \<and> (\<exists>a\<in>set ps. currentProducer ct' = Some a)"
        by (rule Suc.IH [OF _ ps1 _ _ seen]) (use q1(2) same d Suc.prems(6) in simp_all)
      then obtain r ct' q' Q' where r: "dequeue_round fuel S (ps ! ((c + Suc d) mod ?n)) ct q1 = Inr (Returns r, ct', q')" "cq_inv S b Q' reg q'"
        "same_links q1 q'" "one_taken Q r Q'" "desiredProducer ct' = desiredProducer ct" "\<exists>a\<in>set ps. currentProducer ct' = Some a" by blast
      have "dequeue_round (Suc fuel) S ?ptr ct q = Inr (Returns r, ct', q')" using ne c(2) q1(1) nx r(1) Nil by simp
      then show ?thesis using r(2-6) same_links_trans [OF q1(3) r(3)] by blast
    next
      case (Cons x ys)
      let ?ct = "ct\<lparr>currentProducer := Some ?ptr, itemsConsumedFromCurrent := 1\<rparr>"
      have "dequeue_round (Suc fuel) S ?ptr ct q = Inr (Returns (Some x), ?ct, q1)" using ne c(2) q1(1) Cons by simp
      moreover have "one_taken Q (Some x) (Q(?ptr \<mapsto> tl xs))" using takes_one [of Q ?ptr "[x]" ys] xs Cons by (simp add: one_taken_def)
      moreover have "\<exists>a\<in>set ps. currentProducer ?ct = Some a" using ptr(2) by simp
      moreover have "desiredProducer ?ct = desiredProducer ct" by simp
      ultimately show ?thesis using q1(2,3) by blast
    qed
  qed
qed

text \<open>An element is found if there is one, whatever the token says.\<close>

lemma try_dequeue_token_ok:
  assumes ok: "setting_ok S b" and inv: "cq_inv S b Q reg q" and few: "length (producerList q) < 2 ^ 32" and ct: "consumer_ok (producerList q) ct"
  shows "\<exists>r ct' q' Q'. cq_try_dequeue_token S ct q = Inr (Returns r, ct', q') \<and> cq_inv S b Q' reg q' \<and> same_links q q' \<and>
    one_taken Q r Q' \<and> consumer_ok (producerList q) ct'"
proof -
  let ?l = "producerList q"
  have list: "list_ok q" using inv by (simp add: cq_inv_def)
  obtain ready ct1 where f: "refresh_token ct q = Inr (ready, ct1)" "consumer_ok ?l ct1" "if ready then currentProducer ct1 \<noteq> None else ?l = []"
    using refresh_ok [OF list few ct] by blast
  show ?thesis
  proof (cases ready)
    case False
    then have "cq_try_dequeue_token S ct q = Inr (Returns None, ct1, q)" using f(1) by (simp add: cq_try_dequeue_token_def)
    moreover have "one_taken Q None Q" using all_empty_list [OF inv] f(3) False by (simp add: one_taken_def)
    ultimately show ?thesis using inv f(2) same_links_refl by blast
  next
    case True
    then obtain a d where a: "currentProducer ct1 = Some a" "desiredProducer ct1 = Some d" "a \<in> set ?l" "d \<in> set ?l"
      using f(2,3) by (auto simp: consumer_ok_def split: option.splits)
    then obtain xs where xs: "Q a = Some xs" using inv_producers [OF inv] by blast
    obtain q1 where q1: "on_producer a (pb_dequeue S) q = Inr (Returns (case xs of [] \<Rightarrow> None | x # _ \<Rightarrow> Some x), q1)"
      "cq_inv S b (Q(a \<mapsto> tl xs)) reg q1" "same_links q q1" using inv_dequeue [OF ok inv xs] by blast
    have l1: "producerList q1 = ?l" using q1(3) by (simp add: same_links_def)
    show ?thesis
    proof (cases xs)
      case Nil
      then have same: "Q(a \<mapsto> tl xs) = Q" using xs by auto
      obtain c where c: "c < length ?l" "a = ?l ! c" using a(3) by (auto simp: in_set_conv_nth)
      have "list_ok q1" using q1(2) by (simp add: cq_inv_def)
      then have nx: "next_or_tail q1 a = Inr (?l ! ((c + 1) mod length ?l))" using next_or_tail_ok [of q1 c] l1 c by simp
      have "\<exists>r ct' q' Q'. dequeue_round (length ?l + 1) S (?l ! ((c + 1) mod length ?l)) ct1 q1 = Inr (Returns r, ct', q') \<and> cq_inv S b Q' reg q' \<and>
          same_links q1 q' \<and> one_taken Q r Q' \<and> desiredProducer ct' = desiredProducer ct1 \<and> (\<exists>a\<in>set ?l. currentProducer ct' = Some a)"
        by (rule dequeue_round_ok [OF ok c(1) _ _ l1]) (use a(1) c xs q1(2) same Nil in auto)
      then obtain r ct' q' Q' where r: "dequeue_round (length ?l + 1) S (?l ! ((c + 1) mod length ?l)) ct1 q1 = Inr (Returns r, ct', q')"
        "cq_inv S b Q' reg q'" "same_links q1 q'" "one_taken Q r Q'" "desiredProducer ct' = Some d" "\<exists>a\<in>set ?l. currentProducer ct' = Some a"
        using a(2) by auto
      have "cq_try_dequeue_token S ct q = Inr (Returns r, ct', q')"
        using f(1) True a(1) q1(1) Nil nx r(1) l1 by (simp add: cq_try_dequeue_token_def current_producer_def del: dequeue_round.simps)
      moreover have "consumer_ok ?l ct'" using r(5,6) a(4) by (auto simp: consumer_ok_def)
      ultimately show ?thesis using r(2,4) same_links_trans [OF q1(3) r(3)] by blast
    next
      case (Cons x ys)
      let ?ct = "ct1\<lparr>itemsConsumedFromCurrent := itemsConsumedFromCurrent ct1 + 1\<rparr>"
      let ?q = "if itemsConsumedFromCurrent ct1 + 1 = EXPLICIT_CONSUMER_CONSUMPTION_QUOTA_BEFORE_ROTATE (s_traits S)
        then q1\<lparr>globalExplicitConsumerOffset := globalExplicitConsumerOffset q1 + 1\<rparr> else q1"
      have "cq_try_dequeue_token S ct q = Inr (Returns (Some x), ?ct, ?q)"
        using f(1) True a(1) q1(1) Cons by (simp add: cq_try_dequeue_token_def current_producer_def)
      moreover have "cq_inv S b (Q(a \<mapsto> tl xs)) reg ?q" using inv_offset [OF q1(2)] q1(2) by simp
      moreover have "same_links q ?q" using q1(3) by (simp add: same_links_def)
      moreover have "one_taken Q (Some x) (Q(a \<mapsto> tl xs))" using takes_one [of Q a "[x]" ys] xs Cons by (simp add: one_taken_def)
      moreover have "consumer_ok ?l ?ct" using f(2) by (simp add: consumer_ok_def)
      ultimately show ?thesis by blast
    qed
  qed
qed

section \<open>Many elements\<close>

text \<open>
  The walk around may start again from each producer that had something: the producers that are not empty become
  fewer each time.
\<close>

definition busy :: "nat list \<Rightarrow> (nat \<Rightarrow> 'a list option) \<Rightarrow> nat" where
  "busy ps Q = card {a \<in> set ps. Q a \<noteq> Some []}"

lemma busy_emptied: "a \<in> set ps \<Longrightarrow> Q a \<noteq> Some [] \<Longrightarrow> busy ps (Q(a \<mapsto> [])) < busy ps Q"
  unfolding busy_def by (rule psubset_card_mono) auto

lemma busy_le: "busy ps Q \<le> length ps"
  unfolding busy_def using card_mono [of "set ps" "{a \<in> set ps. Q a \<noteq> Some []}"] card_length [of ps] by auto

lemma many_more:
  assumes "takes Q xs Q1" and "length xs \<le> n" and "many_taken (n - length xs) Q1 ys Q'"
  shows "many_taken n Q (xs @ ys) Q'"
  using assms takes_trans [of Q1 ys Q' Q xs] by (auto simp: many_taken_def)

text \<open>Taking at most so many from one producer: all that was asked for, or the producer is empty now.\<close>

lemma bulk_from_one:
  assumes ok: "setting_ok S b" and inv: "cq_inv S b Q reg q" and xs: "Q a = Some xs"
  shows "\<exists>ys k q'. on_producer a (pb_dequeue_bulk S n) q = Inr ((ys, Returns k), q') \<and> same_links q q' \<and> unat k = length ys \<and> k = of_nat (length ys) \<and>
    (if k = n then \<exists>Q'. cq_inv S b Q' reg q' \<and> takes Q ys Q' \<and> length ys = unat n
     else cq_inv S b (Q(a \<mapsto> [])) reg q' \<and> takes Q ys (Q(a \<mapsto> [])) \<and> ys = xs \<and> length ys < unat n \<and> unat (n - k) = unat n - length ys)"
proof -
  let ?k = "of_nat (min (unat n) (length xs)) :: u64" and ?Q = "Q(a \<mapsto> drop (unat n) xs)" and ?ys = "take (unat n) xs"
  obtain q' where q': "on_producer a (pb_dequeue_bulk S n) q = Inr ((?ys, Returns ?k), q')" "cq_inv S b ?Q reg q'" "same_links q q'"
    using inv_dequeue_bulk [OF ok inv xs] by blast
  have k: "unat ?k = length ?ys" using take_word [of n "length xs"] by (simp add: min.commute)
  then have k2: "?k = of_nat (length ?ys)" by (metis word_unat_inverse)
  have t: "takes Q ?ys ?Q" using takes_one [of Q a ?ys] xs by simp
  show ?thesis
  proof (cases "?k = n")
    case True
    then show ?thesis using q' k k2 t by (intro exI [of _ ?ys] exI [of _ ?k] exI [of _ q']) auto
  next
    case False
    then have "unat ?k \<noteq> unat n" by (metis word_unat_inverse)
    then have lt: "length xs < unat n" using k by simp
    have "?k \<le> n" using lt k by (simp add: word_le_nat_alt)
    then have "unat (n - ?k) = unat n - unat ?k" by (rule unat_sub)
    then show ?thesis using q' k k2 t lt False by (intro exI [of _ ?ys] exI [of _ ?k] exI [of _ q']) (simp del: fun_upd_apply)
  qed
qed

lemma dequeue_bulk_round_ok:
  assumes ok: "setting_ok S b"
  shows "cq_inv S b Q reg q \<Longrightarrow> producerList q = ps \<Longrightarrow> c < length ps \<Longrightarrow> currentProducer ct = Some (ps ! c) \<Longrightarrow> 0 < d \<Longrightarrow> d \<le> length ps \<Longrightarrow>
    (\<forall>d'<d. Q (ps ! ((c + d') mod length ps)) = Some []) \<Longrightarrow> busy ps Q * length ps + (length ps - d) < fuel \<Longrightarrow>
    \<exists>xs ct' q' Q'. dequeue_bulk_round fuel S mx count (ps ! ((c + d) mod length ps)) ct q = Inr ((xs, Returns (count + of_nat (length xs))), ct', q') \<and>
      cq_inv S b Q' reg q' \<and> same_links q q' \<and> many_taken (unat mx) Q xs Q' \<and> desiredProducer ct' = desiredProducer ct \<and>
      (\<exists>a\<in>set ps. currentProducer ct' = Some a)"
proof (induction fuel arbitrary: c d q Q ct mx count)
  case 0
  then show ?case by simp
next
  case (Suc fuel)
  let ?n = "length ps" and ?c = "(c + d) mod length ps"
  let ?ptr = "ps ! ?c"
  have n: "0 < ?n" using Suc.prems(3) by linarith
  have dist: "distinct ps" using Suc.prems(1,2) by (simp add: cq_inv_def list_ok_def)
  have ptr: "?c < ?n" "?ptr \<in> set ps" using n by simp_all
  show ?case
  proof (cases "d = ?n")
    case True
    then have "?ptr = ps ! c" using Suc.prems(3) by simp
    then have run: "dequeue_bulk_round (Suc fuel) S mx count ?ptr ct q = Inr (([], Returns count), ct, q)" using Suc.prems(4) by simp
    have "Q a = Some []" if a: "a \<in> set ps" for a
    proof -
      obtain j where j: "j < ?n" "a = ps ! j" using a by (auto simp: in_set_conv_nth)
      then obtain d' where "d' < ?n" "(c + d') mod ?n = j" using around_all [OF n Suc.prems(3)] by blast
      then show ?thesis using Suc.prems(7) True j by blast
    qed
    then have "many_taken (unat mx) Q [] Q" using all_empty_list [OF Suc.prems(1)] Suc.prems(2) by (simp add: many_taken_def takes_none)
    then show ?thesis using run Suc.prems(1,3,4)
      by (intro exI [of _ "[]"] exI [of _ ct] exI [of _ q] exI [of _ Q]) (simp del: dequeue_bulk_round.simps)
  next
    case False
    then have d: "d < ?n" using Suc.prems(6) by simp
    have "?c \<noteq> c" by (rule around_else [OF Suc.prems(3,5) d])
    then have ne: "?ptr \<noteq> ps ! c" using dist ptr(1) Suc.prems(3) by (simp add: nth_eq_iff_index_eq)
    have "?ptr \<in> dom Q" using ptr(2) inv_producers [OF Suc.prems(1)] Suc.prems(2) by simp
    then obtain xs where xs: "Q ?ptr = Some xs" by blast
    obtain ys k q1 where o1: "on_producer ?ptr (pb_dequeue_bulk S mx) q = Inr ((ys, Returns k), q1)" "same_links q q1" "unat k = length ys"
        "k = of_nat (length ys)"
      and out: "if k = mx then \<exists>Q'. cq_inv S b Q' reg q1 \<and> takes Q ys Q' \<and> length ys = unat mx
        else cq_inv S b (Q(?ptr \<mapsto> [])) reg q1 \<and> takes Q ys (Q(?ptr \<mapsto> [])) \<and> ys = xs \<and> length ys < unat mx \<and> unat (mx - k) = unat mx - length ys"
      using bulk_from_one [OF ok Suc.prems(1) xs, of mx] by blast
    let ?ct = "if k \<noteq> 0 then ct\<lparr>currentProducer := Some ?ptr, itemsConsumedFromCurrent := ucast k\<rparr> else ct"
    have cur: "\<exists>a\<in>set ps. currentProducer ?ct = Some a" using ptr(2) Suc.prems(3,4) by auto
    have ps1: "producerList q1 = ps" using o1(2) Suc.prems(2) by (simp add: same_links_def)
    show ?thesis
    proof (cases "k = mx")
      case True
      then obtain Q' where Q': "cq_inv S b Q' reg q1" "takes Q ys Q'" "length ys = unat mx" using out by auto
      have "dequeue_bulk_round (Suc fuel) S mx count ?ptr ct q = Inr ((ys, Returns (count + of_nat (length ys))), ?ct, q1)"
        using ne Suc.prems(4) o1(1,4) True by (simp add: Let_def)
      moreover have "many_taken (unat mx) Q ys Q'" using Q'(2,3) by (simp add: many_taken_def)
      moreover have "desiredProducer ?ct = desiredProducer ct" by simp
      ultimately show ?thesis using Q'(1) o1(2) cur by blast
    next
      case less: False
      then have out': "cq_inv S b (Q(?ptr \<mapsto> [])) reg q1" "takes Q ys (Q(?ptr \<mapsto> []))" "ys = xs" "length ys < unat mx"
        "unat (mx - k) = unat mx - length ys" using out by auto
      have "list_ok q1" using out'(1) by (simp add: cq_inv_def)
      then have nx: "next_or_tail q1 ?ptr = Inr (ps ! ((?c + 1) mod ?n))" using next_or_tail_ok [of q1 ?c] ps1 ptr(1) by simp
      let ?goal = "\<exists>zs ct' q' Q'. dequeue_bulk_round fuel S (mx - k) (count + k) (ps ! ((?c + 1) mod ?n)) ?ct q1 =
          Inr ((zs, Returns (count + k + of_nat (length zs))), ct', q') \<and> cq_inv S b Q' reg q' \<and> same_links q1 q' \<and>
          many_taken (unat (mx - k)) (Q(?ptr \<mapsto> [])) zs Q' \<and> desiredProducer ct' = desiredProducer ?ct \<and> (\<exists>a\<in>set ps. currentProducer ct' = Some a)"
      have ?goal
      proof (cases "xs = []")
        case True
        then have same: "Q(?ptr \<mapsto> []) = Q" "k = 0" using xs o1(4) out'(3) by auto
        have seen: "\<forall>d'<Suc d. Q (ps ! ((c + d') mod ?n)) = Some []" using Suc.prems(7) xs True by (simp add: less_Suc_eq)
        have eq: "(?c + 1) mod ?n = (c + Suc d) mod ?n" by (simp add: mod_Suc_eq)
        have inv1: "cq_inv S b Q reg q1" using out'(1) unfolding same(1) .
        have fu: "busy ps Q * ?n + (?n - Suc d) < fuel" using Suc.prems(8) d by linarith
        show ?thesis unfolding eq same(1)
          using Suc.IH [OF inv1 ps1 Suc.prems(3,4) _ _ seen fu, of "mx - k" "count + k"] d same(2) by simp
      next
        case full: False
        then have "k \<noteq> 0" using o1(3) out'(3) by auto
        then have cur1: "currentProducer ?ct = Some (ps ! ?c)" by simp
        have seen: "\<forall>d'<1. (Q(?ptr \<mapsto> [])) (ps ! ((?c + d') mod ?n)) = Some []" by simp
        have "busy ps (Q(?ptr \<mapsto> [])) < busy ps Q" by (rule busy_emptied) (use ptr(2) xs full in auto)
        then have "(busy ps (Q(?ptr \<mapsto> [])) + 1) * ?n \<le> busy ps Q * ?n" by (intro mult_le_mono1) simp
        then have "busy ps (Q(?ptr \<mapsto> [])) * ?n + ?n \<le> busy ps Q * ?n" by simp
        then have fu: "busy ps (Q(?ptr \<mapsto> [])) * ?n + (?n - 1) < fuel" using Suc.prems(8) n by linarith
        show ?thesis by (rule Suc.IH [OF out'(1) ps1 ptr(1) cur1 _ _ seen fu]) (use n in linarith)+
      qed
      then obtain zs ct' q' Q' where z: "dequeue_bulk_round fuel S (mx - k) (count + k) (ps ! ((?c + 1) mod ?n)) ?ct q1 =
          Inr ((zs, Returns (count + k + of_nat (length zs))), ct', q')" "cq_inv S b Q' reg q'" "same_links q1 q'"
          "many_taken (unat (mx - k)) (Q(?ptr \<mapsto> [])) zs Q'" "desiredProducer ct' = desiredProducer ?ct" "\<exists>a\<in>set ps. currentProducer ct' = Some a"
        by blast
      have "dequeue_bulk_round (Suc fuel) S mx count ?ptr ct q = Inr ((ys @ zs, Returns (count + k + of_nat (length zs))), ct', q')"
        using ne Suc.prems(4) o1(1) less nx z(1) by (simp add: Let_def)
      moreover have "count + k + of_nat (length zs) = count + of_nat (length (ys @ zs))" using o1(4) by simp
      moreover have "many_taken (unat mx) Q (ys @ zs) Q'" using many_more [OF out'(2), of "unat mx"] out'(4,5) z(4) by simp
      moreover have "desiredProducer ct' = desiredProducer ct" using z(5) by simp
      ultimately show ?thesis using z(2,6) same_links_trans [OF o1(2) z(3)] by metis
    qed
  qed
qed

lemma try_dequeue_bulk_token_ok:
  assumes ok: "setting_ok S b" and inv: "cq_inv S b Q reg q" and few: "length (producerList q) < 2 ^ 32" and ct: "consumer_ok (producerList q) ct"
  shows "\<exists>xs ct' q' Q'. cq_try_dequeue_bulk_token S ct n q = Inr ((xs, Returns (of_nat (length xs))), ct', q') \<and> cq_inv S b Q' reg q' \<and>
    same_links q q' \<and> many_taken (unat n) Q xs Q' \<and> consumer_ok (producerList q) ct'"
proof -
  let ?l = "producerList q"
  have list: "list_ok q" using inv by (simp add: cq_inv_def)
  obtain ready ct1 where f: "refresh_token ct q = Inr (ready, ct1)" "consumer_ok ?l ct1" "if ready then currentProducer ct1 \<noteq> None else ?l = []"
    using refresh_ok [OF list few ct] by blast
  show ?thesis
  proof (cases ready)
    case False
    then have "cq_try_dequeue_bulk_token S ct n q = Inr (([], Returns 0), ct1, q)" using f(1) by (simp add: cq_try_dequeue_bulk_token_def)
    moreover have "many_taken (unat n) Q [] Q" using all_empty_list [OF inv] f(3) False by (simp add: many_taken_def takes_none)
    ultimately show ?thesis using inv f(2) by (intro exI [of _ "[]"] exI [of _ ct1] exI [of _ q] exI [of _ Q]) simp
  next
    case True
    then obtain a d where a: "currentProducer ct1 = Some a" "desiredProducer ct1 = Some d" "a \<in> set ?l" "d \<in> set ?l"
      using f(2,3) by (auto simp: consumer_ok_def split: option.splits)
    then obtain xs where xs: "Q a = Some xs" using inv_producers [OF inv] by blast
    obtain ys k q1 where o1: "on_producer a (pb_dequeue_bulk S n) q = Inr ((ys, Returns k), q1)" "same_links q q1" "unat k = length ys"
        "k = of_nat (length ys)"
      and out: "if k = n then \<exists>Q'. cq_inv S b Q' reg q1 \<and> takes Q ys Q' \<and> length ys = unat n
        else cq_inv S b (Q(a \<mapsto> [])) reg q1 \<and> takes Q ys (Q(a \<mapsto> [])) \<and> ys = xs \<and> length ys < unat n \<and> unat (n - k) = unat n - length ys"
      using bulk_from_one [OF ok inv xs, of n] by blast
    have l1: "producerList q1 = ?l" using o1(2) by (simp add: same_links_def)
    let ?ct = "ct1\<lparr>itemsConsumedFromCurrent := itemsConsumedFromCurrent ct1 + ucast k\<rparr>"
    have ct2: "consumer_ok ?l ?ct" "currentProducer ?ct = Some a" "desiredProducer ?ct = Some d" using f(2) a by (simp_all add: consumer_ok_def)
    show ?thesis
    proof (cases "k = n")
      case all: True
      then obtain Q' where Q': "cq_inv S b Q' reg q1" "takes Q ys Q'" "length ys = unat n" using out by auto
      let ?q = "if itemsConsumedFromCurrent ?ct \<ge> EXPLICIT_CONSUMER_CONSUMPTION_QUOTA_BEFORE_ROTATE (s_traits S)
        then q1\<lparr>globalExplicitConsumerOffset := globalExplicitConsumerOffset q1 + 1\<rparr> else q1"
      have "cq_try_dequeue_bulk_token S ct n q = Inr ((ys, Returns (of_nat (length ys))), ?ct, ?q)"
        using f(1) True a(1) o1(1,4) all by (simp add: cq_try_dequeue_bulk_token_def current_producer_def Let_def)
      moreover have "cq_inv S b Q' reg ?q" using inv_offset(1) [OF Q'(1)] Q'(1) by simp
      moreover have "same_links q ?q" using o1(2) by (simp add: same_links_def)
      moreover have "many_taken (unat n) Q ys Q'" using Q'(2,3) by (simp add: many_taken_def)
      ultimately show ?thesis using ct2(1) by blast
    next
      case False
      then have out': "cq_inv S b (Q(a \<mapsto> [])) reg q1" "takes Q ys (Q(a \<mapsto> []))" "length ys < unat n" "unat (n - k) = unat n - length ys"
        using out by auto
      let ?Q = "Q(a \<mapsto> [])" and ?fuel = "(length ?l + 1) * (length ?l + 1)"
      obtain c where c: "c < length ?l" "a = ?l ! c" using a(3) by (auto simp: in_set_conv_nth)
      have "list_ok q1" using out'(1) by (simp add: cq_inv_def)
      then have nx: "next_or_tail q1 a = Inr (?l ! ((c + 1) mod length ?l))" using next_or_tail_ok [of q1 c] l1 c by simp
      have cur: "currentProducer ?ct = Some (?l ! c)" using ct2(2) c(2) by simp
      have seen: "\<forall>d'<1. ?Q (?l ! ((c + d') mod length ?l)) = Some []" using c by simp
      have "busy ?l ?Q * length ?l \<le> length ?l * length ?l" by (intro mult_le_mono1 busy_le)
      moreover have "?fuel = length ?l * length ?l + 2 * length ?l + 1" by simp
      ultimately have fu: "busy ?l ?Q * length ?l + (length ?l - 1) < ?fuel" by linarith
      have "\<exists>zs ct' q' Q'. dequeue_bulk_round ?fuel S (n - k) k (?l ! ((c + 1) mod length ?l)) ?ct q1 =
          Inr ((zs, Returns (k + of_nat (length zs))), ct', q') \<and> cq_inv S b Q' reg q' \<and> same_links q1 q' \<and>
          many_taken (unat (n - k)) ?Q zs Q' \<and> desiredProducer ct' = desiredProducer ?ct \<and> (\<exists>a\<in>set ?l. currentProducer ct' = Some a)"
        by (rule dequeue_bulk_round_ok [OF ok out'(1) l1 c(1) cur _ _ seen fu]) (use c(1) in linarith)+
      then obtain zs ct' q' Q' where z: "dequeue_bulk_round ?fuel S (n - k) k (?l ! ((c + 1) mod length ?l)) ?ct q1 =
          Inr ((zs, Returns (k + of_nat (length zs))), ct', q')" "cq_inv S b Q' reg q'" "same_links q1 q'"
          "many_taken (unat (n - k)) ?Q zs Q'" "desiredProducer ct' = Some d" "\<exists>a\<in>set ?l. currentProducer ct' = Some a"
        using ct2(3) by auto
      have "cq_try_dequeue_bulk_token S ct n q = Inr ((ys @ zs, Returns (k + of_nat (length zs))), ct', q')"
        unfolding cq_try_dequeue_bulk_token_def f(1) bind_r_simps prod.case
        using True a(1) o1(1) False nx z(1) l1 by (simp add: current_producer_def Let_def del: dequeue_bulk_round.simps)
      moreover have "k + of_nat (length zs) = of_nat (length (ys @ zs))" using o1(4) by simp
      moreover have "many_taken (unat n) Q (ys @ zs) Q'" using many_more [OF out'(2), of "unat n"] out'(3,4) z(4) by simp
      moreover have "consumer_ok ?l ct'" using z(5,6) a(4) by (auto simp: consumer_ok_def)
      ultimately show ?thesis using z(2) same_links_trans [OF o1(2) z(3)] by metis
    qed
  qed
qed

end
