(* ===== verification/Cq_Queue_Run.thy ===== *)
theory Cq_Queue_Run
  imports Cq_Consumer
begin

text \<open>
  Whole runs of \<^verbatim>\<open>ConcurrentQueue\<close>: threads and tokens that enqueue, consumers with and without tokens that dequeue,
  tokens that are made, moved, swapped and destroyed. The specification is a collection of lists and a step relation on it.
\<close>

section \<open>Calls\<close>

datatype 'a cq_op =
    Q_enqueue cq_AllocationMode u64 'a
  | Q_enqueue_token cq_AllocationMode nat 'a
  | Q_try_dequeue
  | Q_non_interleaved
  | Q_try_dequeue_bulk u64
  | Q_dequeue_from nat
  | Q_dequeue_bulk_from nat u64
  | Q_size_approx
  | Q_new_token nat
  | Q_move_token nat nat
  | Q_swap_tokens nat nat
  | Q_delete_token nat
  | Q_new_consumer nat
  | Q_dequeue_token nat
  | Q_dequeue_bulk_token nat u64

datatype 'a cq_answer = A_bool bool | A_item "'a option" | A_items "'a list" u64 | A_size u64 | A_done | A_threw | A_skipped

type_synonym 'a cq_world = "'a cqueue \<times> (nat \<Rightarrow> consumer_token option)"

text \<open>
  What a client may do: a thread has an id, a producer token is valid when it is used, a new token is made where there is none.
  Calls against these rules are not made; the answer says so.
\<close>

definition allowed :: "(nat \<Rightarrow> nat option option) \<Rightarrow> (nat \<Rightarrow> bool) \<Rightarrow> 'a cq_op \<Rightarrow> bool" where
  "allowed ts there c = (case c of
     Q_enqueue m i x \<Rightarrow> i \<noteq> 0
   | Q_enqueue_token m k x \<Rightarrow> ts k \<noteq> None \<and> ts k \<noteq> Some None
   | Q_dequeue_from k \<Rightarrow> ts k \<noteq> None \<and> ts k \<noteq> Some None
   | Q_dequeue_bulk_from k n \<Rightarrow> ts k \<noteq> None \<and> ts k \<noteq> Some None
   | Q_new_token k \<Rightarrow> ts k = None
   | Q_move_token k other \<Rightarrow> ts k = None \<and> ts other \<noteq> None
   | Q_swap_tokens k other \<Rightarrow> ts k \<noteq> None \<and> ts other \<noteq> None
   | Q_delete_token k \<Rightarrow> ts k \<noteq> None
   | Q_new_consumer j \<Rightarrow> \<not> there j
   | Q_dequeue_token j \<Rightarrow> there j
   | Q_dequeue_bulk_token j n \<Rightarrow> there j
   | _ \<Rightarrow> True)"

definition ends_answer :: "('r \<Rightarrow> 'a cq_answer) \<Rightarrow> 'r ends \<Rightarrow> 'a cq_answer" where
  "ends_answer f r = (case r of Throws \<Rightarrow> A_threw | Returns a \<Rightarrow> f a)"

lemma ends_answer_simps [simp]: "ends_answer f Throws = A_threw" "ends_answer f (Returns a) = f a"
  by (simp_all add: ends_answer_def)

definition cq_call :: "'a setting \<Rightarrow> 'a cq_op \<Rightarrow> 'a cq_world \<Rightarrow> cq_fault + 'a cq_answer \<times> 'a cq_world" where
  "cq_call S c = (\<lambda>(q, cts).
     if \<not> allowed (ptokens q) (\<lambda>j. cts j \<noteq> None) c then Inr (A_skipped, q, cts)
     else case c of
       Q_enqueue m i x \<Rightarrow> bind_r (cq_enqueue S m i x q) (\<lambda>(r, q). Inr (ends_answer A_bool r, q, cts))
     | Q_enqueue_token m k x \<Rightarrow> bind_r (cq_enqueue_token S m k x q) (\<lambda>(r, q). Inr (ends_answer A_bool r, q, cts))
     | Q_try_dequeue \<Rightarrow> bind_r (cq_try_dequeue S q) (\<lambda>(r, q). Inr (ends_answer A_item r, q, cts))
     | Q_non_interleaved \<Rightarrow> bind_r (try_dequeue_non_interleaved S q) (\<lambda>(r, q). Inr (ends_answer A_item r, q, cts))
     | Q_try_dequeue_bulk n \<Rightarrow> bind_r (cq_try_dequeue_bulk S n q) (\<lambda>((xs, r), q). Inr (ends_answer (A_items xs) r, q, cts))
     | Q_dequeue_from k \<Rightarrow> bind_r (try_dequeue_from_producer S k q) (\<lambda>(r, q). Inr (ends_answer A_item r, q, cts))
     | Q_dequeue_bulk_from k n \<Rightarrow> bind_r (try_dequeue_bulk_from_producer S k n q) (\<lambda>((xs, r), q). Inr (ends_answer (A_items xs) r, q, cts))
     | Q_size_approx \<Rightarrow> bind_r (cq_size_approx q) (\<lambda>n. Inr (A_size n, q, cts))
     | Q_new_token k \<Rightarrow> bind_r (new_producer_token S k q) (\<lambda>q. Inr (A_done, q, cts))
     | Q_move_token k other \<Rightarrow> bind_r (move_producer_token k other q) (\<lambda>q. Inr (A_done, q, cts))
     | Q_swap_tokens k other \<Rightarrow> bind_r (swap_producer_tokens k other q) (\<lambda>q. Inr (A_done, q, cts))
     | Q_delete_token k \<Rightarrow> bind_r (delete_producer_token k q) (\<lambda>q. Inr (A_done, q, cts))
     | Q_new_consumer j \<Rightarrow> (case new_consumer_token q of (ct, q) \<Rightarrow> Inr (A_done, q, cts(j \<mapsto> ct)))
     | Q_dequeue_token j \<Rightarrow> bind_r (cq_try_dequeue_token S (the (cts j)) q) (\<lambda>(r, ct, q). Inr (ends_answer A_item r, q, cts(j \<mapsto> ct)))
     | Q_dequeue_bulk_token j n \<Rightarrow>
         bind_r (cq_try_dequeue_bulk_token S (the (cts j)) n q) (\<lambda>((xs, r), ct, q). Inr (ends_answer (A_items xs) r, q, cts(j \<mapsto> ct))))"

primrec cq_run :: "'a setting \<Rightarrow> 'a cq_op list \<Rightarrow> 'a cq_world \<Rightarrow> cq_fault + 'a cq_answer list \<times> 'a cq_world" where
  "cq_run S [] w = Inr ([], w)"
| "cq_run S (c # cs) w = bind_r (cq_call S c w) (\<lambda>(a, w). bind_r (cq_run S cs w) (\<lambda>(as, w). Inr (a # as, w)))"

section \<open>The specification\<close>

text \<open>
  The lists, the list of each thread, the list of each token if it is valid, and the consumers. A thread enqueues at the end of its own
  list always; a new thread gets a new list. A token that is made gets a new list, or one that no token and no thread has.
\<close>

type_synonym 'a cq_abs = "(nat \<Rightarrow> 'a list option) \<times> (u64 \<Rightarrow> nat option) \<times> (nat \<Rightarrow> nat option option) \<times> nat set"

inductive cq_step :: "'a setting \<Rightarrow> 'a cq_abs \<Rightarrow> 'a cq_op \<Rightarrow> 'a cq_answer \<Rightarrow> 'a cq_abs \<Rightarrow> bool" for S :: "'a setting" where
  step_enqueue: "i \<noteq> 0 \<Longrightarrow> own_lane S i Q reg (Some a) Q1 reg' \<Longrightarrow> appended S m a x Q1 r Q' \<Longrightarrow>
    cq_step S (Q, reg, ts, C) (Q_enqueue m i x) (A_bool r) (Q', reg', ts, C)"
| step_no_producer: "i \<noteq> 0 \<Longrightarrow> own_lane S i Q reg None Q' reg' \<Longrightarrow>
    cq_step S (Q, reg, ts, C) (Q_enqueue m i x) (A_bool False) (Q', reg', ts, C)"
| step_enqueue_token: "ts k = Some (Some a) \<Longrightarrow> appended S m a x Q r Q' \<Longrightarrow>
    cq_step S (Q, reg, ts, C) (Q_enqueue_token m k x) (A_bool r) (Q', reg, ts, C)"
| step_dequeue: "one_taken Q r Q' \<Longrightarrow> c = Q_try_dequeue \<or> c = Q_non_interleaved \<or> (\<exists>j\<in>C. c = Q_dequeue_token j) \<Longrightarrow>
    cq_step S (Q, reg, ts, C) c (A_item r) (Q', reg, ts, C)"
| step_bulk: "many_taken (unat n) Q xs Q' \<Longrightarrow> c = Q_try_dequeue_bulk n \<or> (\<exists>j\<in>C. c = Q_dequeue_bulk_token j n) \<Longrightarrow>
    cq_step S (Q, reg, ts, C) c (A_items xs (of_nat (length xs))) (Q', reg, ts, C)"
| step_from: "ts k = Some (Some a) \<Longrightarrow> Q a = Some xs \<Longrightarrow>
    cq_step S (Q, reg, ts, C) (Q_dequeue_from k) (A_item (case xs of [] \<Rightarrow> None | x # _ \<Rightarrow> Some x)) (Q(a \<mapsto> tl xs), reg, ts, C)"
| step_bulk_from: "ts k = Some (Some a) \<Longrightarrow> Q a = Some (xs @ ys) \<Longrightarrow> length xs = min (unat n) (length (xs @ ys)) \<Longrightarrow>
    cq_step S (Q, reg, ts, C) (Q_dequeue_bulk_from k n) (A_items xs (of_nat (length xs))) (Q(a \<mapsto> ys), reg, ts, C)"
| step_size: "cq_step S (Q, reg, ts, C) Q_size_approx (A_size (of_nat (\<Sum>a\<in>dom Q. length (the (Q a))))) (Q, reg, ts, C)"
| step_new_token: "ts k = None \<Longrightarrow> token_made S k Q reg ts r Q' \<Longrightarrow>
    cq_step S (Q, reg, ts, C) (Q_new_token k) A_done (Q', reg, ts(k \<mapsto> r), C)"
| step_move_token: "ts k = None \<Longrightarrow> ts other = Some a \<Longrightarrow>
    cq_step S (Q, reg, ts, C) (Q_move_token k other) A_done (Q, reg, ts(k \<mapsto> a, other \<mapsto> None), C)"
| step_swap_tokens: "ts k = Some a \<Longrightarrow> ts other = Some c \<Longrightarrow>
    cq_step S (Q, reg, ts, C) (Q_swap_tokens k other) A_done (Q, reg, ts(k \<mapsto> c, other \<mapsto> a), C)"
| step_delete_token: "ts k = Some a \<Longrightarrow> cq_step S (Q, reg, ts, C) (Q_delete_token k) A_done (Q, reg, ts(k := None), C)"
| step_new_consumer: "j \<notin> C \<Longrightarrow> cq_step S (Q, reg, ts, C) (Q_new_consumer j) A_done (Q, reg, ts, insert j C)"
| step_skip: "\<not> allowed ts (\<lambda>j. j \<in> C) c \<Longrightarrow> cq_step S (Q, reg, ts, C) c A_skipped (Q, reg, ts, C)"

inductive cq_steps :: "'a setting \<Rightarrow> 'a cq_abs \<Rightarrow> 'a cq_op list \<Rightarrow> 'a cq_answer list \<Rightarrow> 'a cq_abs \<Rightarrow> bool" for S :: "'a setting" where
  steps_none: "cq_steps S A [] [] A"
| steps_more: "cq_step S A c a A' \<Longrightarrow> cq_steps S A' cs as A'' \<Longrightarrow> cq_steps S A (c # cs) (a # as) A''"

section \<open>Every call is a step\<close>

definition cq_rep :: "'a setting \<Rightarrow> nat \<Rightarrow> 'a cq_abs \<Rightarrow> 'a cq_world \<Rightarrow> bool" where
  "cq_rep S b = (\<lambda>(Q, reg, ts, C) (q, cts). cq_inv S b Q reg q \<and> ptokens q = ts \<and> dom cts = C \<and> (\<forall>ct\<in>ran cts. consumer_ok (producerList q) ct))"

definition goes :: "'a setting \<Rightarrow> nat \<Rightarrow> 'a cq_abs \<Rightarrow> 'a cq_op \<Rightarrow> 'a cq_world \<Rightarrow> bool" where
  "goes S b A c w \<longleftrightarrow> (\<exists>a w' A'. cq_call S c w = Inr (a, w') \<and> cq_step S A c a A' \<and> cq_rep S b A' w')"

lemma cq_consumers_stay:
  assumes "cq_inv S b Q reg q" and "cq_inv S b Q' reg' q'" and "dom Q \<subseteq> dom Q'" and "consumer_ok (producerList q) ct"
  shows "consumer_ok (producerList q') ct"
  using assms(3,4) inv_producers [OF assms(1)] inv_producers [OF assms(2)] by (auto simp: consumer_ok_def split: option.splits)

lemma goesI:
  assumes w: "cq_rep S b (Q, reg, ts, C) (q, cts)" and run: "cq_call S c (q, cts) = Inr (a, q', cts)" and step: "cq_step S (Q, reg, ts, C) c a (Q', reg', ts', C)"
    and inv: "cq_inv S b Q' reg' q'" and "ptokens q' = ts'" and grow: "dom Q \<subseteq> dom Q'"
  shows "goes S b (Q, reg, ts, C) c (q, cts)"
proof -
  have "cq_rep S b (Q', reg', ts', C) (q', cts)"
    using w inv assms(5) cq_consumers_stay [OF _ inv grow] by (auto simp: cq_rep_def)
  then show ?thesis using run step unfolding goes_def by blast
qed

lemma goes_consumerI:
  assumes w: "cq_rep S b (Q, reg, ts, C) (q, cts)" and run: "cq_call S c (q, cts) = Inr (a, q', cts(j \<mapsto> ct'))"
    and step: "cq_step S (Q, reg, ts, C) c a (Q', reg, ts, insert j C)"
    and inv: "cq_inv S b Q' reg q'" and same: "producerList q' = producerList q" "ptokens q' = ptokens q" and ct: "consumer_ok (producerList q) ct'"
  shows "goes S b (Q, reg, ts, C) c (q, cts)"
proof -
  have "\<forall>ct\<in>ran (cts(j \<mapsto> ct')). consumer_ok (producerList q') ct" using w ct same by (auto simp: cq_rep_def ran_def split: if_splits)
  then have "cq_rep S b (Q', reg, ts, insert j C) (q', cts(j \<mapsto> ct'))" using w inv same by (auto simp: cq_rep_def)
  then show ?thesis using run step unfolding goes_def by blast
qed

lemma appended_dom: "appended S m a x Q r Q' \<Longrightarrow> dom Q' = dom Q"
  by (cases r) (auto simp: appended_def split: if_splits)

lemma own_lane_dom: "own_lane S i Q reg r Q' reg' \<Longrightarrow> dom Q \<subseteq> dom Q'"
  by (auto simp: own_lane_def split: option.splits)

lemma one_taken_dom: "one_taken Q r Q' \<Longrightarrow> dom Q' = dom Q"
  by (auto simp: one_taken_def takes_dom split: option.splits)

lemma many_taken_dom: "many_taken n Q xs Q' \<Longrightarrow> dom Q' = dom Q"
  using takes_dom [of Q xs Q'] by (simp add: many_taken_def)

lemma token_made_dom: "token_made S k Q reg ts r Q' \<Longrightarrow> dom Q \<subseteq> dom Q'"
  by (auto simp: token_made_def split: option.splits if_splits)

lemma goes_enqueue:
  assumes ok: "setting_ok S b" and w: "cq_rep S b (Q, reg, ts, C) (q, cts)" and few: "card (dom reg) + 1 < 2 ^ 62" "\<forall>xs\<in>ran Q. length xs < 2 ^ 62"
    and i: "i \<noteq> 0"
  shows "goes S b (Q, reg, ts, C) (Q_enqueue m i x) (q, cts)"
proof -
  have inv: "cq_inv S b Q reg q" and ts: "ptokens q = ts" using w by (simp_all add: cq_rep_def)
  obtain r q' lane Q1 Q' reg' where r: "cq_enqueue S m i x q = Inr (Returns r, q')" "cq_inv S b Q' reg' q'" "ptokens q' = ptokens q"
    "own_lane S i Q reg lane Q1 reg'" "case lane of None \<Rightarrow> \<not> r \<and> Q' = Q1 | Some a \<Rightarrow> appended S m a x Q1 r Q'"
    using enqueue_ok [OF ok inv i few] by blast
  have run: "cq_call S (Q_enqueue m i x) (q, cts) = Inr (A_bool r, q', cts)" using r(1) i by (simp add: cq_call_def allowed_def)
  have "cq_step S (Q, reg, ts, C) (Q_enqueue m i x) (A_bool r) (Q', reg', ts, C) \<and> dom Q \<subseteq> dom Q'"
  proof (cases lane)
    case None
    then show ?thesis using r(4,5) step_no_producer [OF i] own_lane_dom [OF r(4)] by simp
  next
    case (Some a)
    then have "appended S m a x Q1 r Q'" using r(5) by simp
    then show ?thesis using r(4) Some step_enqueue [OF i] appended_dom [of S m a x Q1 r Q'] own_lane_dom [OF r(4)] by simp
  qed
  then show ?thesis using goesI [OF w run] r(2,3) ts by blast
qed

lemma goes_enqueue_token:
  assumes ok: "setting_ok S b" and w: "cq_rep S b (Q, reg, ts, C) (q, cts)" and few: "\<forall>xs\<in>ran Q. length xs < 2 ^ 62" and k: "ts k = Some (Some a)"
  shows "goes S b (Q, reg, ts, C) (Q_enqueue_token m k x) (q, cts)"
proof -
  have inv: "cq_inv S b Q reg q" and ts: "ptokens q = ts" using w by (simp_all add: cq_rep_def)
  then obtain r q' Q' where r: "cq_enqueue_token S m k x q = Inr (Returns r, q')" "cq_inv S b Q' reg q'" "ptokens q' = ptokens q" "appended S m a x Q r Q'"
    using enqueue_token_ok [OF ok inv _ few] k by blast
  have "cq_call S (Q_enqueue_token m k x) (q, cts) = Inr (A_bool r, q', cts)" using r(1) k ts by (simp add: cq_call_def allowed_def)
  then show ?thesis by (rule goesI [OF w]) (use r ts k appended_dom [OF r(4)] in \<open>auto intro: step_enqueue_token\<close>)
qed

lemma goes_dequeue:
  assumes ok: "setting_ok S b" and w: "cq_rep S b (Q, reg, ts, C) (q, cts)"
  shows "goes S b (Q, reg, ts, C) Q_try_dequeue (q, cts)" "goes S b (Q, reg, ts, C) Q_non_interleaved (q, cts)"
    "goes S b (Q, reg, ts, C) (Q_try_dequeue_bulk n) (q, cts)"
proof -
  have inv: "cq_inv S b Q reg q" and ts: "ptokens q = ts" using w by (simp_all add: cq_rep_def)
  obtain r q' Q' where r: "cq_try_dequeue S q = Inr (Returns r, q')" "cq_inv S b Q' reg q'" "same_links q q'" "one_taken Q r Q'"
    using cq_try_dequeue_ok [OF ok inv] by blast
  then have run: "cq_call S Q_try_dequeue (q, cts) = Inr (A_item r, q', cts)" by (simp add: cq_call_def allowed_def)
  show "goes S b (Q, reg, ts, C) Q_try_dequeue (q, cts)"
    by (rule goesI [OF w run step_dequeue [OF r(4)] r(2)]) (use r(3) ts one_taken_dom [OF r(4)] in \<open>simp_all add: same_links_def\<close>)
next
  have inv: "cq_inv S b Q reg q" and ts: "ptokens q = ts" using w by (simp_all add: cq_rep_def)
  obtain r q' Q' where r: "try_dequeue_non_interleaved S q = Inr (Returns r, q')" "cq_inv S b Q' reg q'" "same_links q q'" "one_taken Q r Q'"
    using non_interleaved_ok [OF ok inv] by blast
  then have run: "cq_call S Q_non_interleaved (q, cts) = Inr (A_item r, q', cts)" by (simp add: cq_call_def allowed_def)
  show "goes S b (Q, reg, ts, C) Q_non_interleaved (q, cts)"
    by (rule goesI [OF w run step_dequeue [OF r(4)] r(2)]) (use r(3) ts one_taken_dom [OF r(4)] in \<open>simp_all add: same_links_def\<close>)
next
  have inv: "cq_inv S b Q reg q" and ts: "ptokens q = ts" using w by (simp_all add: cq_rep_def)
  obtain xs q' Q' where r: "cq_try_dequeue_bulk S n q = Inr ((xs, Returns (of_nat (length xs))), q')" "cq_inv S b Q' reg q'" "same_links q q'"
    "many_taken (unat n) Q xs Q'" using try_dequeue_bulk_ok [OF ok inv] by blast
  then have run: "cq_call S (Q_try_dequeue_bulk n) (q, cts) = Inr (A_items xs (of_nat (length xs)), q', cts)" by (simp add: cq_call_def allowed_def)
  show "goes S b (Q, reg, ts, C) (Q_try_dequeue_bulk n) (q, cts)"
    by (rule goesI [OF w run step_bulk [OF r(4)] r(2)]) (use r(3) ts many_taken_dom [OF r(4)] in \<open>simp_all add: same_links_def\<close>)
qed

text \<open>Dequeue from the producer of a token: the explicit part of \<^verbatim>\<open>ProducerBase\<close>.\<close>

lemma from_explicit:
  assumes "prod_heap q a = Some pr" and "is_explicit (pr_sub pr)"
  shows "on_producer a (as_explicit (explicit_dequeue (s_ndebug S) (s_traits S) (assign_throws S))) q = on_producer a (pb_dequeue S) q"
    "on_producer a (as_explicit (\<lambda>s. bind_r (explicit_dequeue_bulk (s_ndebug S) (s_traits S) (assign_throws S) n s) (\<lambda>(xs, r, s). Inr ((xs, r), s)))) q =
      on_producer a (pb_dequeue_bulk S n) q"
  using assms by (simp_all add: on_producer_def prod_at_def pb_dequeue_def pb_dequeue_bulk_def)

lemma goes_from:
  assumes ok: "setting_ok S b" and w: "cq_rep S b (Q, reg, ts, C) (q, cts)" and k: "ts k = Some (Some a)"
  shows "goes S b (Q, reg, ts, C) (Q_dequeue_from k) (q, cts)" "goes S b (Q, reg, ts, C) (Q_dequeue_bulk_from k n) (q, cts)"
proof -
  have inv: "cq_inv S b Q reg q" and ts: "ptokens q = ts" using w by (simp_all add: cq_rep_def)
  obtain xs where xs: "Q a = Some xs" "producer_shape q a = Some (True, False, Some k)" using inv_token [OF inv] k ts by metis
  then obtain pr where pr: "prod_heap q a = Some pr" "is_explicit (pr_sub pr)" by (auto simp: producer_shape_def)
  obtain q' where r: "on_producer a (pb_dequeue S) q = Inr (Returns (case xs of [] \<Rightarrow> None | x # _ \<Rightarrow> Some x), q')" "cq_inv S b (Q(a \<mapsto> tl xs)) reg q'"
    "same_links q q'" using inv_dequeue [OF ok inv xs(1)] by blast
  have run: "cq_call S (Q_dequeue_from k) (q, cts) = Inr (A_item (case xs of [] \<Rightarrow> None | x # _ \<Rightarrow> Some x), q', cts)"
    using k ts r(1) from_explicit(1) [OF pr] by (simp add: cq_call_def allowed_def try_dequeue_from_producer_def token_at_def)
  show "goes S b (Q, reg, ts, C) (Q_dequeue_from k) (q, cts)"
    by (rule goesI [OF w run step_from [where a = a and xs = xs] r(2)]) (use r(3) ts k xs(1) in \<open>auto simp: same_links_def\<close>)
  obtain q' where r: "on_producer a (pb_dequeue_bulk S n) q = Inr ((take (unat n) xs, Returns (of_nat (min (unat n) (length xs)))), q')"
    "cq_inv S b (Q(a \<mapsto> drop (unat n) xs)) reg q'" "same_links q q'" using inv_dequeue_bulk [OF ok inv xs(1)] by blast
  have len: "min (unat n) (length xs) = length (take (unat n) xs)" by (simp add: min.commute)
  have run: "cq_call S (Q_dequeue_bulk_from k n) (q, cts) = Inr (A_items (take (unat n) xs) (of_nat (length (take (unat n) xs))), q', cts)"
    using k ts r(1) from_explicit(2) [OF pr] unfolding len
    by (simp add: cq_call_def allowed_def try_dequeue_bulk_from_producer_def token_at_def del: length_take)
  show "goes S b (Q, reg, ts, C) (Q_dequeue_bulk_from k n) (q, cts)"
    by (rule goesI [OF w run step_bulk_from [where a = a and ys = "drop (unat n) xs"] r(2)]) (use r(3) ts k xs(1) in \<open>auto simp: same_links_def\<close>)
qed

lemma goes_tokens:
  assumes ok: "setting_ok S b" and w: "cq_rep S b (Q, reg, ts, C) (q, cts)"
  shows "ts k = None \<Longrightarrow> goes S b (Q, reg, ts, C) (Q_new_token k) (q, cts)"
    "ts k = None \<Longrightarrow> ts other = Some a \<Longrightarrow> goes S b (Q, reg, ts, C) (Q_move_token k other) (q, cts)"
    "ts k = Some c \<Longrightarrow> ts other = Some a \<Longrightarrow> goes S b (Q, reg, ts, C) (Q_swap_tokens k other) (q, cts)"
    "ts k = Some c \<Longrightarrow> goes S b (Q, reg, ts, C) (Q_delete_token k) (q, cts)"
proof -
  have inv: "cq_inv S b Q reg q" and ts: "ptokens q = ts" using w by (simp_all add: cq_rep_def)
  {
    assume k: "ts k = None"
    obtain r q' Q' where r: "new_producer_token S k q = Inr q'" "cq_inv S b Q' reg q'" "ptokens q' = (ptokens q)(k \<mapsto> r)" "token_made S k Q reg (ptokens q) r Q'"
      using new_token_ok [OF ok inv] by blast
    then have run: "cq_call S (Q_new_token k) (q, cts) = Inr (A_done, q', cts)" using k ts by (simp add: cq_call_def allowed_def)
    show "goes S b (Q, reg, ts, C) (Q_new_token k) (q, cts)"
      by (rule goesI [OF w run step_new_token [where ts = ts and k = k, OF k] r(2)]) (use r(3,4) ts token_made_dom [OF r(4)] in auto)
  }
  {
    assume k: "ts k = None" "ts other = Some a"
    obtain q' where r: "move_producer_token k other q = Inr q'" "cq_inv S b Q reg q'" "ptokens q' = (ptokens q)(k \<mapsto> a, other \<mapsto> None)"
      using move_token_ok [OF inv] k ts by blast
    then have run: "cq_call S (Q_move_token k other) (q, cts) = Inr (A_done, q', cts)" using k ts by (simp add: cq_call_def allowed_def)
    show "goes S b (Q, reg, ts, C) (Q_move_token k other) (q, cts)"
      by (rule goesI [OF w run step_move_token [where ts = ts and k = k, OF k] r(2)]) (use r(3) ts in simp_all)
  }
  {
    assume k: "ts k = Some c" "ts other = Some a"
    obtain q' where r: "swap_producer_tokens k other q = Inr q'" "cq_inv S b Q reg q'" "ptokens q' = (ptokens q)(k \<mapsto> a, other \<mapsto> c)"
      using swap_tokens_ok [OF inv] k ts by blast
    then have run: "cq_call S (Q_swap_tokens k other) (q, cts) = Inr (A_done, q', cts)" using k ts by (simp add: cq_call_def allowed_def)
    show "goes S b (Q, reg, ts, C) (Q_swap_tokens k other) (q, cts)"
      by (rule goesI [OF w run step_swap_tokens [where ts = ts and k = k, OF k] r(2)]) (use r(3) ts in simp_all)
  }
  {
    assume k: "ts k = Some c"
    obtain q' where r: "delete_producer_token k q = Inr q'" "cq_inv S b Q reg q'" "ptokens q' = (ptokens q)(k := None)"
      using delete_token_ok [OF inv] k ts by blast
    then have run: "cq_call S (Q_delete_token k) (q, cts) = Inr (A_done, q', cts)" using k ts by (simp add: cq_call_def allowed_def)
    show "goes S b (Q, reg, ts, C) (Q_delete_token k) (q, cts)"
      by (rule goesI [OF w run step_delete_token [where ts = ts and k = k, OF k] r(2)]) (use r(3) ts in simp_all)
  }
qed

lemma goes_consumers:
  assumes ok: "setting_ok S b" and w: "cq_rep S b (Q, reg, ts, C) (q, cts)" and few: "card (dom Q) < 2 ^ 32"
  shows "j \<notin> C \<Longrightarrow> goes S b (Q, reg, ts, C) (Q_new_consumer j) (q, cts)"
    "j \<in> C \<Longrightarrow> goes S b (Q, reg, ts, C) (Q_dequeue_token j) (q, cts)"
    "j \<in> C \<Longrightarrow> goes S b (Q, reg, ts, C) (Q_dequeue_bulk_token j n) (q, cts)"
proof -
  have inv: "cq_inv S b Q reg q" and ts: "ptokens q = ts" and C: "dom cts = C" using w by (simp_all add: cq_rep_def)
  have "distinct (producerList q)" using inv by (simp add: cq_inv_def list_ok_def)
  then have len: "length (producerList q) < 2 ^ 32" using few inv_producers [OF inv] distinct_card by metis
  have ct: "j \<in> C \<Longrightarrow> \<exists>ct. cts j = Some ct \<and> consumer_ok (producerList q) ct" for j using w by (auto simp: cq_rep_def ran_def)
  have ins: "j \<in> C \<Longrightarrow> insert j C = C" for j by auto
  {
    assume j: "j \<notin> C"
    let ?ct = "fst (new_consumer_token q)" and ?q = "q\<lparr>nextExplicitConsumerId := nextExplicitConsumerId q + 1\<rparr>"
    have run: "cq_call S (Q_new_consumer j) (q, cts) = Inr (A_done, ?q, cts(j \<mapsto> ?ct))" using j C by (auto simp: cq_call_def allowed_def new_consumer_token_def)
    show "goes S b (Q, reg, ts, C) (Q_new_consumer j) (q, cts)"
      by (rule goes_consumerI [OF w run step_new_consumer [OF j] inv_offset(2) [OF inv]]) (simp_all add: consumer_ok_def new_consumer_token_def)
  }
  {
    assume j: "j \<in> C"
    obtain c where c: "cts j = Some c" "consumer_ok (producerList q) c" using ct [OF j] by blast
    obtain r ct' q' Q' where r: "cq_try_dequeue_token S c q = Inr (Returns r, ct', q')" "cq_inv S b Q' reg q'" "same_links q q'" "one_taken Q r Q'"
      "consumer_ok (producerList q) ct'" using try_dequeue_token_ok [OF ok inv len c(2)] by blast
    have run: "cq_call S (Q_dequeue_token j) (q, cts) = Inr (A_item r, q', cts(j \<mapsto> ct'))" using j C c(1) r(1) by (simp add: cq_call_def allowed_def)
    have step: "cq_step S (Q, reg, ts, C) (Q_dequeue_token j) (A_item r) (Q', reg, ts, insert j C)" unfolding ins [OF j]
      by (rule step_dequeue [OF r(4)]) (use j in auto)
    show "goes S b (Q, reg, ts, C) (Q_dequeue_token j) (q, cts)"
      by (rule goes_consumerI [OF w run step r(2)]) (use r(3,5) in \<open>simp_all add: same_links_def\<close>)
  }
  {
    assume j: "j \<in> C"
    obtain c where c: "cts j = Some c" "consumer_ok (producerList q) c" using ct [OF j] by blast
    obtain xs ct' q' Q' where r: "cq_try_dequeue_bulk_token S c n q = Inr ((xs, Returns (of_nat (length xs))), ct', q')" "cq_inv S b Q' reg q'"
      "same_links q q'" "many_taken (unat n) Q xs Q'" "consumer_ok (producerList q) ct'" using try_dequeue_bulk_token_ok [OF ok inv len c(2)] by blast
    have run: "cq_call S (Q_dequeue_bulk_token j n) (q, cts) = Inr (A_items xs (of_nat (length xs)), q', cts(j \<mapsto> ct'))"
      using j C c(1) r(1) by (simp add: cq_call_def allowed_def)
    have step: "cq_step S (Q, reg, ts, C) (Q_dequeue_bulk_token j n) (A_items xs (of_nat (length xs))) (Q', reg, ts, insert j C)" unfolding ins [OF j]
      by (rule step_bulk [OF r(4)]) (use j in auto)
    show "goes S b (Q, reg, ts, C) (Q_dequeue_bulk_token j n) (q, cts)"
      by (rule goes_consumerI [OF w run step r(2)]) (use r(3,5) in \<open>simp_all add: same_links_def\<close>)
  }
qed

lemma call_goes:
  assumes ok: "setting_ok S b" and w: "cq_rep S b (Q, reg, ts, C) (q, cts)"
    and few: "card (dom reg) + 1 < 2 ^ 62" "\<forall>xs\<in>ran Q. length xs < 2 ^ 62" "card (dom Q) < 2 ^ 32"
  shows "goes S b (Q, reg, ts, C) c (q, cts)"
proof (cases "allowed ts (\<lambda>j. j \<in> C) c")
  case False
  moreover have "(\<lambda>j. cts j \<noteq> None) = (\<lambda>j. j \<in> C)" using w by (auto simp: cq_rep_def)
  ultimately have run: "cq_call S c (q, cts) = Inr (A_skipped, q, cts)" using w unfolding cq_call_def by (simp only: prod.case cq_rep_def if_True not_False_eq_True)
  show ?thesis by (rule goesI [OF w run step_skip [OF False]]) (use w in \<open>simp_all add: cq_rep_def\<close>)
next
  case True
  show ?thesis
  proof (cases c)
    case (Q_enqueue m i x)
    then show ?thesis using goes_enqueue [OF ok w few(1,2)] True by (simp add: allowed_def)
  next
    case (Q_enqueue_token m k x)
    then show ?thesis using goes_enqueue_token [OF ok w few(2)] True by (auto simp: allowed_def)
  next
    case (Q_dequeue_from k)
    then show ?thesis using goes_from(1) [OF ok w] True by (auto simp: allowed_def)
  next
    case (Q_dequeue_bulk_from k n)
    then show ?thesis using goes_from(2) [OF ok w] True by (auto simp: allowed_def)
  next
    case Q_size_approx
    have run: "cq_call S Q_size_approx (q, cts) = Inr (A_size (of_nat (\<Sum>a\<in>dom Q. length (the (Q a)))), q, cts)"
      using size_ok [of S b Q reg q] w by (simp add: cq_call_def allowed_def cq_rep_def)
    show ?thesis unfolding Q_size_approx by (rule goesI [OF w run step_size]) (use w in \<open>simp_all add: cq_rep_def\<close>)
  next
    case (Q_new_token k)
    then show ?thesis using goes_tokens(1) [OF ok w] True by (simp add: allowed_def)
  next
    case (Q_move_token k other)
    then show ?thesis using goes_tokens(2) [OF ok w] True by (auto simp: allowed_def)
  next
    case (Q_swap_tokens k other)
    then show ?thesis using goes_tokens(3) [OF ok w] True by (auto simp: allowed_def)
  next
    case (Q_delete_token k)
    then show ?thesis using goes_tokens(4) [OF ok w] True by (auto simp: allowed_def)
  next
    case (Q_new_consumer j)
    then show ?thesis using goes_consumers(1) [OF ok w few(3)] True by (simp add: allowed_def)
  next
    case (Q_dequeue_token j)
    then show ?thesis using goes_consumers(2) [OF ok w few(3)] True by (simp add: allowed_def)
  next
    case (Q_dequeue_bulk_token j n)
    then show ?thesis using goes_consumers(3) [OF ok w few(3)] True by (simp add: allowed_def)
  qed (use goes_dequeue [OF ok w] in simp_all)
qed

section \<open>Whole runs\<close>

text \<open>How much a run can need: a list for each thread and for each token made, and as many elements as calls.\<close>

definition op_threads :: "'a cq_op \<Rightarrow> u64 set" where
  "op_threads c = (case c of Q_enqueue m i x \<Rightarrow> {i} | _ \<Rightarrow> {})"

definition makes_token :: "'a cq_op \<Rightarrow> bool" where
  "makes_token c = (case c of Q_new_token k \<Rightarrow> True | _ \<Rightarrow> False)"

definition small :: "u64 set \<Rightarrow> nat \<Rightarrow> nat \<Rightarrow> (nat \<Rightarrow> 'a list option) \<Rightarrow> (u64 \<Rightarrow> nat option) \<Rightarrow> bool" where
  "small T t n Q reg \<longleftrightarrow> finite (dom Q) \<and> dom reg \<subseteq> T \<and> card (dom Q) \<le> card (dom reg) + t \<and> (\<forall>xs\<in>ran Q. length xs \<le> n)"

lemma small_more: "small T t n Q reg \<Longrightarrow> t \<le> t' \<Longrightarrow> n \<le> n' \<Longrightarrow> small T t' n' Q reg"
  unfolding small_def by fastforce

lemma small_own:
  assumes "small T t n Q reg" and own: "own_lane S i Q reg r Q' reg'" and i: "i \<in> T" and T: "finite T"
  shows "small T t n Q' reg'"
proof (cases "reg i = None \<and> r \<noteq> None")
  case False
  then have "Q' = Q" "reg' = reg" using own by (auto simp: own_lane_def split: option.splits)
  then show ?thesis using assms(1) by simp
next
  case True
  then obtain a where a: "a \<notin> dom Q" "Q' = Q(a \<mapsto> [])" "reg' = reg(i \<mapsto> a)" "i \<notin> dom reg" using own by (auto simp: own_lane_def split: option.splits)
  have sm: "finite (dom Q)" "dom reg \<subseteq> T" "card (dom Q) \<le> card (dom reg) + t" "\<forall>xs\<in>ran Q. length xs \<le> n" using assms(1) by (simp_all add: small_def)
  have fin: "finite (dom reg)" using sm(2) T by (rule finite_subset)
  have "card (dom Q') = card (dom Q) + 1" "card (dom reg') = card (dom reg) + 1" using a sm(1) fin by simp_all
  moreover have "ran Q' \<subseteq> insert [] (ran Q)" using a(2) by (auto simp: ran_def split: if_splits)
  ultimately show ?thesis using sm a i by (auto simp: small_def)
qed

lemma small_appended:
  assumes "small T t n Q reg" and "appended S m a x Q r Q'"
  shows "small T t (n + 1) Q' reg"
proof -
  have "length xs \<le> n + 1" if xs: "xs \<in> ran Q'" for xs
  proof -
    obtain c where c: "Q' c = Some xs" using xs by (auto simp: ran_def)
    have "xs \<in> ran Q \<or> (\<exists>ys\<in>ran Q. xs = ys @ [x])" using assms(2) c by (auto simp: appended_def ran_def split: if_splits)
    then show ?thesis using assms(1) by (auto simp: small_def)
  qed
  then show ?thesis using assms(1) appended_dom [OF assms(2)] by (simp add: small_def)
qed

lemma small_takes:
  assumes "takes Q xs Q'"
  shows "small T t n Q reg \<Longrightarrow> small T t n Q' reg"
  using assms
proof (induction rule: takes.induct)
  case (takes_more Q xs Q' a ys zs)
  then have sm: "small T t n Q' reg" by simp
  have dom: "dom (Q'(a \<mapsto> zs)) = dom Q'" using takes_more.hyps(2) by (auto simp: insert_absorb)
  have "length (ys @ zs) \<le> n" using sm takes_more.hyps(2) unfolding small_def by (metis ranI)
  moreover have "ran (Q'(a \<mapsto> zs)) \<subseteq> insert zs (ran Q')" by (auto simp: ran_def split: if_splits)
  ultimately show ?case using sm unfolding small_def dom by auto
qed

lemma small_token:
  assumes "small T t n Q reg" and "token_made S k Q reg ts r Q'"
  shows "small T (t + 1) n Q' reg"
proof -
  have "Q' = Q \<or> (\<exists>a. a \<notin> dom Q \<and> Q' = Q(a \<mapsto> []))" using assms(2) by (auto simp: token_made_def split: option.splits if_splits)
  then show ?thesis
  proof
    assume "\<exists>a. a \<notin> dom Q \<and> Q' = Q(a \<mapsto> [])"
    then obtain a where a: "a \<notin> dom Q" "Q' = Q(a \<mapsto> [])" by blast
    then have "card (dom Q') = card (dom Q) + 1" using assms(1) by (simp add: small_def)
    moreover have "ran Q' \<subseteq> insert [] (ran Q)" using a(2) by (auto simp: ran_def split: if_splits)
    ultimately show ?thesis using assms(1) a by (auto simp: small_def)
  qed (use small_more [OF assms(1)] in simp)
qed

lemma small_step: "small T t n Q reg \<Longrightarrow> small T (t + (if p then 1 else 0)) (n + 1) Q reg"
  by (erule small_more) simp_all

lemma step_small:
  assumes "cq_step S A c a A'" and "small T t n (fst A) (fst (snd A))" and "op_threads c \<subseteq> T" and "finite T"
  shows "small T (t + (if makes_token c then 1 else 0)) (n + 1) (fst A') (fst (snd A'))"
  using assms
proof (cases rule: cq_step.cases)
  case (step_enqueue i Q reg d Q1 reg' m x r Q' ts C)
  then have "small T t n Q1 reg'" using small_own assms by (auto simp: op_threads_def)
  then have "small T t (n + 1) Q' reg'" by (rule small_appended [OF _ step_enqueue(7)])
  then show ?thesis using step_enqueue by (auto simp: makes_token_def)
next
  case (step_no_producer i Q reg Q' reg' ts C m x)
  then have "small T t n Q' reg'" using small_own assms by (auto simp: op_threads_def)
  from small_step [OF this, of "makes_token c"] show ?thesis using step_no_producer by simp
next
  case (step_enqueue_token ts k a m x Q r Q' reg C)
  then show ?thesis using small_appended assms(2) by (auto simp: makes_token_def)
next
  case (step_dequeue Q r Q' C reg ts)
  have "takes Q [] Q \<and> Q' = Q \<or> (\<exists>x. takes Q [x] Q')" using step_dequeue by (auto simp: one_taken_def takes_none split: option.splits)
  then have "small T t n Q' reg" using small_takes assms(2) step_dequeue by auto
  from small_step [OF this, of "makes_token c"] show ?thesis using step_dequeue by simp
next
  case (step_bulk n' Q xs Q' C reg ts)
  then have "small T t n Q' reg" using small_takes assms(2) by (auto simp: many_taken_def)
  from small_step [OF this, of "makes_token c"] show ?thesis using step_bulk by simp
next
  case (step_from ts k d Q xs reg C)
  have "take 1 xs @ tl xs = xs" by (cases xs) simp_all
  then have "takes Q (take 1 xs) (Q(d \<mapsto> tl xs))" using takes_one [of Q d "take 1 xs" "tl xs"] step_from(6) by simp
  then have "small T t n (Q(d \<mapsto> tl xs)) reg" by (rule small_takes) (use assms(2) step_from(1) in simp)
  from small_step [OF this, of "makes_token c"] show ?thesis using step_from by (simp del: fun_upd_apply)
next
  case (step_bulk_from ts k d Q xs ys n' reg C)
  have "takes Q xs (Q(d \<mapsto> ys))" by (rule takes_one) (rule step_bulk_from(6))
  then have "small T t n (Q(d \<mapsto> ys)) reg" by (rule small_takes) (use assms(2) step_bulk_from(1) in simp)
  from small_step [OF this, of "makes_token c"] show ?thesis using step_bulk_from(1-4) by (simp del: fun_upd_apply)
next
  case (step_new_token ts k Q reg r Q' C)
  then have "small T (t + 1) n Q' reg" using small_token assms(2) by auto
  from small_step [OF this, of False] show ?thesis using step_new_token by (simp add: makes_token_def)
qed (use small_step [OF assms(2), of "makes_token c"] in simp_all)

lemma run_goes:
  assumes ok: "setting_ok S b" and T: "finite T"
  shows "cq_rep S b A w \<Longrightarrow> small T t n (fst A) (fst (snd A)) \<Longrightarrow> (\<Union>c\<in>set cs. op_threads c) \<subseteq> T \<Longrightarrow>
    card T + t + length (filter makes_token cs) < 2 ^ 32 \<Longrightarrow> n + length cs < 2 ^ 62 \<Longrightarrow>
    \<exists>as w' A'. cq_run S cs w = Inr (as, w') \<and> cq_steps S A cs as A' \<and> cq_rep S b A' w'"
proof (induction cs arbitrary: A w t n)
  case Nil
  then show ?case using steps_none by (intro exI [of _ "[]"] exI [of _ w] exI [of _ A]) simp
next
  case (Cons c cs)
  obtain Q reg ts C q cts where A: "A = (Q, reg, ts, C)" and w: "w = (q, cts)" by (cases A; cases w) auto
  have sm: "small T t n Q reg" using Cons.prems(2) A by simp
  then have "card (dom reg) \<le> card T" using T unfolding small_def by (intro card_mono) simp_all
  then have few: "card (dom reg) + 1 < 2 ^ 62" "card (dom Q) < 2 ^ 32" using sm Cons.prems(4) unfolding small_def by simp_all
  have lens: "\<forall>xs\<in>ran Q. length xs < 2 ^ 62" using sm Cons.prems(5) unfolding small_def by fastforce
  have "goes S b A c w" unfolding A w by (rule call_goes [OF ok _ few(1) lens few(2)]) (use Cons.prems(1) A w in simp)
  then obtain a w1 A1 where r: "cq_call S c w = Inr (a, w1)" "cq_step S A c a A1" "cq_rep S b A1 w1" unfolding goes_def by blast
  have sm1: "small T (t + (if makes_token c then 1 else 0)) (n + 1) (fst A1) (fst (snd A1))"
    by (rule step_small [OF r(2) Cons.prems(2) _ T]) (use Cons.prems(3) in simp)
  obtain as w' A' where rest: "cq_run S cs w1 = Inr (as, w')" "cq_steps S A1 cs as A'" "cq_rep S b A' w'"
    using Cons.IH [OF r(3) sm1] Cons.prems(3-5) by (auto split: if_splits)
  then have "cq_run S (c # cs) w = Inr (a # as, w')" using r(1) by simp
  then show ?case using steps_more [OF r(2) rest(2)] rest(3) by blast
qed

text \<open>The constructor.\<close>

lemma blocks_fit:
  fixes capacity :: u64
  assumes b: "1 \<le> b" "b \<le> 32" and cap: "capacity \<le> 2 ^ 63"
  shows "unat (capacity div 2 ^ b + (if capacity AND (2 ^ b - 1) = 0 then 0 else 1)) * 2 ^ b \<le> 2 ^ 63"
proof -
  have ub: "unat (2 ^ b :: u64) = 2 ^ b" by (rule unat_exp_u64) (use b in simp)
  have "unat (2 ^ 63 :: u64) = 2 ^ 63" by (rule unat_exp_u64) simp
  then have c: "unat capacity \<le> 2 ^ 63" using cap unfolding word_le_nat_alt by simp
  have d: "unat (capacity div 2 ^ b) = unat capacity div 2 ^ b" using ub by (simp add: unat_div)
  have e: "(2 :: nat) ^ (63 - b) * 2 ^ b = 2 ^ 63" using b by (simp flip: power_add)
  have m: "capacity AND (2 ^ b - 1) = of_nat (unat capacity mod 2 ^ b)" using of_nat_and_mask [of b "unat capacity"] b by simp
  show ?thesis
  proof (cases "unat capacity mod 2 ^ b = 0")
    case True
    then have "unat capacity div 2 ^ b * 2 ^ b = unat capacity" by (simp add: dvd_eq_mod_eq_0)
    then show ?thesis using c d m True by simp
  next
    case False
    then have "unat capacity \<noteq> 2 ^ 63" by (metis e mod_mult_self2_is_0)
    then have "unat capacity < 2 ^ (63 - b) * 2 ^ b" using c e by simp
    then have lt: "unat capacity div 2 ^ b < 2 ^ (63 - b)" by (rule less_mult_imp_div_less)
    have p: "(2 :: nat) ^ (63 - b) \<le> 2 ^ 63" by (rule power_increasing) simp_all
    have "unat (of_nat (unat capacity mod 2 ^ b) :: u64) = unat capacity mod 2 ^ b"
      by (rule unat_of_nat_u64) (rule le_less_trans [OF mod_less_eq_dividend], use c in simp)
    then have "capacity AND (2 ^ b - 1) \<noteq> 0" using m False by (metis unat_0)
    then have n: "capacity div 2 ^ b + (if capacity AND (2 ^ b - 1) = 0 then 0 else 1) = capacity div 2 ^ b + 1" by simp
    have "unat (capacity div 2 ^ b) + 1 < 2 ^ 64" unfolding d using less_le_trans [OF lt p] by simp
    then have inc: "unat (capacity div 2 ^ b + 1) = unat capacity div 2 ^ b + 1"
      unfolding d [symmetric] using unat_of_nat_u64 [of "unat (capacity div 2 ^ b) + 1"] by (simp add: add.commute)
    have "(unat capacity div 2 ^ b + 1) * 2 ^ b \<le> 2 ^ (63 - b) * 2 ^ b" by (rule mult_le_mono1) (use lt in simp)
    then show ?thesis unfolding n inc e .
  qed
qed

lemma new_queue_ok:
  assumes ok: "setting_ok S b" and cap: "capacity \<le> 2 ^ 63"
  shows "cq_inv S b (\<lambda>_. None) (\<lambda>_. None) (new_cqueue S capacity)"
proof -
  let ?t = "s_traits S"
  let ?n = "capacity div BLOCK_SIZE ?t + (if capacity AND (BLOCK_SIZE ?t - 1) = 0 then 0 else 1)"
  let ?p = "populate_initial_block_list ?t (malloc_ok S) ?n :: 'a pool"
  have b: "BLOCK_SIZE ?t = 2 ^ b" "1 \<le> b" "b \<le> 32" using ok by (simp_all add: setting_ok_def block_bits_def)
  have "unat ?n * 2 ^ b \<le> 2 ^ 63" unfolding b(1) by (rule blocks_fit [OF b(2,3) cap])
  then have fit: "unat (initialBlockPoolSize ?p) * 2 ^ b \<le> 2 ^ 63" by (simp add: populate_initial_block_list_def Let_def)
  obtain i where i: "i < 64" "INITIAL_IMPLICIT_PRODUCER_HASH_SIZE ?t = 2 ^ i" using ok by (auto simp: setting_ok_def)
  then have h: "populate_initial_implicit_producer_hash ?t = [new_hash_table (2 ^ i)]" by (simp add: populate_initial_implicit_producer_hash_def)
  have "hash_inv (\<lambda>_. None) [new_hash_table (2 ^ i)] 0"
    using new_table_ok [OF i(1)] by (auto simp: hash_inv_def tables_ok_def table_ok_def)
  then show ?thesis using fit populate_ok [of ?t "malloc_ok S" ?n]
    by (auto simp: cq_inv_def new_cqueue_def empty_queue_def list_ok_def links_ok_def subs_ok_def producer_shape_def h dom_def)
qed

lemma new_run_goes:
  assumes "setting_ok S b" and "capacity \<le> 2 ^ 63" and "length cs < 2 ^ 62"
    and "card (\<Union>c\<in>set cs. op_threads c) + length (filter makes_token cs) < 2 ^ 32"
  shows "\<exists>as w' A'. cq_run S cs (new_cqueue S capacity, \<lambda>_. None) = Inr (as, w') \<and>
    cq_steps S (\<lambda>_. None, \<lambda>_. None, \<lambda>_. None, {}) cs as A' \<and> cq_rep S b A' w'"
proof (rule run_goes [OF assms(1), of "\<Union>c\<in>set cs. op_threads c" _ _ 0 0])
  show "finite (\<Union>c\<in>set cs. op_threads c)" by (auto simp: op_threads_def split: cq_op.splits)
  show "cq_rep S b (\<lambda>_. None, \<lambda>_. None, \<lambda>_. None, {}) (new_cqueue S capacity, \<lambda>_. None)"
    using new_queue_ok [OF assms(1,2)] by (simp add: cq_rep_def new_cqueue_def empty_queue_def)
qed (use assms in \<open>simp_all add: small_def\<close>)

text \<open>
  C18: The queue is what its documentation says: a collection of lists, one for each thread that enqueues without a token and one
  for each producer token. Whatever calls clients make, in whatever order, no call runs into a fault, a failing assertion
  or an endless loop, and each answers as the step relation \<open>cq_step\<close> allows: an element goes to the end of the list of its
  thread or token, and is refused only without memory, without the permission to allocate, or beyond \<^verbatim>\<open>MAX_SUBQUEUE_SIZE\<close>; a dequeue, with a
  consumer token or without, takes from the front of a list and comes back empty-handed only if all lists are empty; a bulk dequeue
  delivers less than asked for only if the lists are empty afterwards; \<^verbatim>\<open>size_approx\<close> is exact; tokens stay with their lists when they
  are moved and swapped, and the list of a destroyed token is kept and given to a later one. The bounds: less than 2 to the 62 calls, and less
  than 2 to the 32 producers, whose number is a \<^verbatim>\<open>uint32_t\<close>. Elements do not throw, and calls are executed one after the other.
\<close>

theorem concurrent_queue_is_lists:
  assumes "setting_ok S b" and "capacity \<le> 2 ^ 63" and "length cs < 2 ^ 62"
    and "card (\<Union>c\<in>set cs. op_threads c) + length (filter makes_token cs) < 2 ^ 32"
  shows "\<exists>as w' A'. cq_run S cs (new_cqueue S capacity, \<lambda>_. None) = Inr (as, w') \<and>
    cq_steps S (\<lambda>_. None, \<lambda>_. None, \<lambda>_. None, {}) cs as A' \<and> cq_rep S b A' w'"
  using new_run_goes [OF assms] .

text \<open>Threads 8 and 16, a token, and a consumer token, on a queue with small blocks.\<close>

definition small_setting :: "nat setting" where
  "small_setting = \<lparr>s_ndebug = False, s_traits = small_traits, malloc_ok = (\<lambda>_. True), nothrow_ctor = True,
     ctor_throws = (\<lambda>_. False), assign_throws = (\<lambda>_. False)\<rparr>"

definition small_run :: "nat cq_op list" where
  "small_run = [Q_enqueue cq_AllocationMode.CanAlloc 8 1, Q_new_token 0, Q_enqueue_token cq_AllocationMode.CanAlloc 0 2,
     Q_enqueue cq_AllocationMode.CanAlloc 16 3, Q_new_consumer 0, Q_dequeue_token 0, Q_size_approx, Q_try_dequeue_bulk 5, Q_try_dequeue]"

lemma small_setting_ok: "setting_ok small_setting 1"
  unfolding setting_ok_def small_setting_def small_traits_def block_bits_def
  by (intro conjI exI [of _ 1]) simp_all

lemma small_run_small: "length small_run < 2 ^ 62" "card (\<Union>c\<in>set small_run. op_threads c) + length (filter makes_token small_run) < 2 ^ 32"
  by (simp_all add: small_run_def op_threads_def makes_token_def card_insert_if)

theorem concurrent_queue_is_lists_witness:
  "\<exists>as w' A'. cq_run small_setting small_run (new_cqueue small_setting 4, \<lambda>_. None) = Inr (as, w') \<and>
    cq_steps small_setting (\<lambda>_. None, \<lambda>_. None, \<lambda>_. None, {}) small_run as A' \<and> cq_rep small_setting 1 A' w'"
  by (rule concurrent_queue_is_lists [OF small_setting_ok _ small_run_small]) simp

section \<open>Rotation\<close>

text \<open>
  A consumer token stays with its producer until the global offset is raised, by itself or by another consumer; then all
  tokens move on. When a call raises the offset is decided by the count of elements taken from the current producer and the quota.
\<close>

abbreviation quota :: "'a setting \<Rightarrow> u32" where
  "quota S \<equiv> EXPLICIT_CONSUMER_CONSUMPTION_QUOTA_BEFORE_ROTATE (s_traits S)"

text \<open>A token that has a producer and has seen the last rotation.\<close>

definition settled :: "consumer_token \<Rightarrow> 'a cqueue \<Rightarrow> nat \<Rightarrow> bool" where
  "settled ct q a \<longleftrightarrow> desiredProducer ct \<noteq> None \<and> lastKnownGlobalOffset ct = globalExplicitConsumerOffset q \<and> currentProducer ct = Some a"

primrec dequeue_many :: "nat \<Rightarrow> 'a setting \<Rightarrow> consumer_token \<Rightarrow> 'a cqueue \<Rightarrow> cq_fault + 'a list \<times> consumer_token \<times> 'a cqueue" where
  "dequeue_many 0 S ct q = Inr ([], ct, q)"
| "dequeue_many (Suc n) S ct q = bind_r (cq_try_dequeue_token S ct q) (\<lambda>(r, ct, q).
     case r of Returns (Some x) \<Rightarrow> bind_r (dequeue_many n S ct q) (\<lambda>(xs, ct, q). Inr (x # xs, ct, q)) | _ \<Rightarrow> Inr ([], ct, q))"

lemma settled_refresh: "settled ct q a \<Longrightarrow> refresh_token ct q = Inr (True, ct) \<and> current_producer ct = Inr a"
  by (auto simp: settled_def refresh_token_def current_producer_def)

lemma on_producer_offset: "on_producer a f q = Inr (r, q') \<Longrightarrow> globalExplicitConsumerOffset q' = globalExplicitConsumerOffset q"
  by (auto simp: on_producer_def put_prod_def)

lemma bulk_round_offset:
  "dequeue_bulk_round fuel S mx count ptr ct q = Inr (r, ct', q') \<Longrightarrow> globalExplicitConsumerOffset q' = globalExplicitConsumerOffset q"
proof (induction fuel S mx count ptr ct q arbitrary: r ct' q' rule: dequeue_bulk_round.induct)
  case (2 fuel S mx count ptr ct q)
  show ?case
  proof (cases "Some ptr = currentProducer ct")
    case True
    then show ?thesis using 2(2) by simp
  next
    case False
    then obtain xs k q1 where o1: "on_producer ptr (pb_dequeue_bulk S mx) q = Inr ((xs, k), q1)" using 2(2) by auto
    note off = on_producer_offset [OF o1]
    show ?thesis
    proof (cases k)
      case Throws
      then show ?thesis using 2(2) False o1 off by simp
    next
      case (Returns n)
      show ?thesis
      proof (cases "n = mx")
        case True
        then show ?thesis using 2(2) False o1 off Returns by (auto simp: Let_def)
      next
        case less: False
        then obtain p r1 where "next_or_tail q1 ptr = Inr p" "dequeue_bulk_round fuel S (mx - n) (count + n) p
            (if n \<noteq> 0 then ct\<lparr>currentProducer := Some ptr, itemsConsumedFromCurrent := ucast n\<rparr> else ct) q1 = Inr (r1, ct', q')"
          using 2(2) False o1 Returns by (auto simp: Let_def)
        then show ?thesis using 2(1) [OF False refl refl refl less] off by simp
      qed
    qed
  qed
qed simp

lemma token_dequeue_step:
  assumes ok: "setting_ok S b" and inv: "cq_inv S b Q reg q" and st: "settled ct q a" and xs: "Q a = Some (x # ys)"
  shows "\<exists>q'. cq_try_dequeue_token S ct q = Inr (Returns (Some x), ct\<lparr>itemsConsumedFromCurrent := itemsConsumedFromCurrent ct + 1\<rparr>, q') \<and>
    cq_inv S b (Q(a \<mapsto> ys)) reg q' \<and>
    globalExplicitConsumerOffset q' = globalExplicitConsumerOffset q + (if itemsConsumedFromCurrent ct + 1 = quota S then 1 else 0)"
proof -
  obtain q1 where q1: "on_producer a (pb_dequeue S) q = Inr (Returns (Some x), q1)" "cq_inv S b (Q(a \<mapsto> ys)) reg q1"
    using inv_dequeue [OF ok inv xs] by auto
  show ?thesis using settled_refresh [OF st] q1 on_producer_offset [OF q1(1)] inv_offset(1) [OF q1(2)]
    by (auto simp: cq_try_dequeue_token_def Let_def)
qed

lemma token_bulk_full:
  assumes ok: "setting_ok S b" and inv: "cq_inv S b Q reg q" and st: "settled ct q a" and xs: "Q a = Some xs" and mx: "unat mx \<le> length xs"
  shows "\<exists>q'. cq_try_dequeue_bulk_token S ct mx q =
      Inr ((take (unat mx) xs, Returns mx), ct\<lparr>itemsConsumedFromCurrent := itemsConsumedFromCurrent ct + ucast mx\<rparr>, q') \<and>
    globalExplicitConsumerOffset q' = globalExplicitConsumerOffset q + (if quota S \<le> itemsConsumedFromCurrent ct + ucast mx then 1 else 0)"
proof -
  obtain q1 where q1: "on_producer a (pb_dequeue_bulk S mx) q = Inr ((take (unat mx) xs, Returns mx), q1)"
    using inv_dequeue_bulk [OF ok inv xs, of mx] mx by auto
  show ?thesis using settled_refresh [OF st] q1 on_producer_offset [OF q1] by (simp add: cq_try_dequeue_bulk_token_def Let_def)
qed

text \<open>The walk around a list of empty producers.\<close>

lemma bulk_round_empty:
  assumes ok: "setting_ok S b" and c: "c < length ps" "currentProducer ct = Some (ps ! c)" and empty: "\<forall>a\<in>set ps. Q a = Some []" and mx: "mx \<noteq> 0"
  shows "cq_inv S b Q reg q \<Longrightarrow> producerList q = ps \<Longrightarrow> 0 < d \<Longrightarrow> d \<le> length ps \<Longrightarrow> length ps - d < fuel \<Longrightarrow>
    \<exists>q'. dequeue_bulk_round fuel S mx count (ps ! ((c + d) mod length ps)) ct q = Inr (([], Returns count), ct, q')"
proof (induction fuel arbitrary: d q)
  case 0
  then show ?case by simp
next
  case (Suc fuel)
  let ?n = "length ps" and ?ptr = "ps ! ((c + d) mod length ps)"
  have "0 < ?n" using c(1) by linarith
  then have ptr: "(c + d) mod ?n < ?n" "?ptr \<in> set ps" by simp_all
  show ?case
  proof (cases "d = ?n")
    case True
    then show ?thesis using c by simp
  next
    case False
    then have d: "d < ?n" using Suc.prems(4) by simp
    have "distinct ps" using Suc.prems(1,2) by (simp add: cq_inv_def list_ok_def)
    then have ne: "?ptr \<noteq> ps ! c" using around_else [OF c(1) Suc.prems(3) d] ptr(1) c(1) by (simp add: nth_eq_iff_index_eq)
    have e: "Q ?ptr = Some []" using empty ptr(2) by blast
    then have same: "Q(?ptr \<mapsto> []) = Q" by auto
    obtain q1 where q1: "on_producer ?ptr (pb_dequeue_bulk S mx) q = Inr (([], Returns 0), q1)" "cq_inv S b (Q(?ptr \<mapsto> [])) reg q1" "same_links q q1"
      using inv_dequeue_bulk [OF ok Suc.prems(1) e, of mx] by auto
    have ps1: "producerList q1 = ps" and inv1: "cq_inv S b Q reg q1" using q1(2,3) Suc.prems(2) same by (simp_all add: same_links_def)
    then have nx: "next_or_tail q1 ?ptr = Inr (ps ! ((c + Suc d) mod ?n))"
      using next_or_tail_ok [of q1 "(c + d) mod ?n"] ptr(1) by (simp add: cq_inv_def mod_Suc_eq)
    obtain q' where "dequeue_bulk_round fuel S mx count (ps ! ((c + Suc d) mod ?n)) ct q1 = Inr (([], Returns count), ct, q')"
      using Suc.IH [OF inv1 ps1, of "Suc d"] d Suc.prems(5) by (auto simp: less_Suc_eq_le Suc_diff_Suc [symmetric] simp del: add_Suc_right)
    then show ?thesis using ne c(2) q1(1) nx mx by (simp add: Let_def)
  qed
qed

lemma ucast_count: "(ucast (of_nat n :: u64) :: u32) = of_nat n"
  by (simp add: unsigned_of_nat) (transfer, simp add: of_nat_take_bit take_bit_take_bit)

lemma token_bulk_short:
  assumes ok: "setting_ok S b" and inv: "cq_inv S b Q reg q" and st: "settled ct q a" and xs: "Q a = Some xs" and mx: "length xs < unat mx"
    and run: "cq_try_dequeue_bulk_token S ct mx q = Inr (r, ct', q')"
  shows "globalExplicitConsumerOffset q' = globalExplicitConsumerOffset q"
    "(\<forall>c\<in>dom Q - {a}. Q c = Some []) \<Longrightarrow> r = (xs, Returns (of_nat (length xs))) \<and>
       ct' = ct\<lparr>itemsConsumedFromCurrent := itemsConsumedFromCurrent ct + of_nat (length xs)\<rparr>"
proof -
  let ?l = "producerList q" and ?k = "of_nat (length xs) :: u64"
  let ?ct = "ct\<lparr>itemsConsumedFromCurrent := itemsConsumedFromCurrent ct + ucast ?k\<rparr>"
  obtain q1 where q1: "on_producer a (pb_dequeue_bulk S mx) q = Inr ((xs, Returns ?k), q1)" "cq_inv S b (Q(a \<mapsto> [])) reg q1" "same_links q q1"
    using inv_dequeue_bulk [OF ok inv xs, of mx] mx by auto
  have k: "unat ?k = length xs" using less_trans [OF mx unsigned_less [of mx]] by (intro unat_of_nat_u64) simp
  then have ne: "?k \<noteq> mx" using mx by auto
  obtain c where c: "c < length ?l" "a = ?l ! c" using inv_producers [OF inv] xs by (metis domI in_set_conv_nth)
  have l1: "producerList q1 = ?l" using q1(3) by (simp add: same_links_def)
  have "list_ok q1" using q1(2) by (simp add: cq_inv_def)
  then have nx: "next_or_tail q1 a = Inr (?l ! ((c + 1) mod length ?l))" using next_or_tail_ok [of q1 c] l1 c by simp
  have eq: "cq_try_dequeue_bulk_token S ct mx q =
      bind_r (dequeue_bulk_round ((length ?l + 1) * (length ?l + 1)) S (mx - ?k) ?k (?l ! ((c + 1) mod length ?l)) ?ct q1)
        (\<lambda>((ys, r), ct, q). Inr ((xs @ ys, r), ct, q))"
    unfolding cq_try_dequeue_bulk_token_def using settled_refresh [OF st] q1(1) ne nx l1
    by (simp add: Let_def del: dequeue_bulk_round.simps)
  show "globalExplicitConsumerOffset q' = globalExplicitConsumerOffset q"
  proof -
    obtain r1 where "dequeue_bulk_round ((length ?l + 1) * (length ?l + 1)) S (mx - ?k) ?k (?l ! ((c + 1) mod length ?l)) ?ct q1 = Inr (r1, ct', q')"
      using run [unfolded eq] by (auto simp del: dequeue_bulk_round.simps)
    from bulk_round_offset [OF this] show ?thesis using on_producer_offset [OF q1(1)] by simp
  qed
  assume "\<forall>c\<in>dom Q - {a}. Q c = Some []"
  then have empty: "\<forall>c\<in>set ?l. (Q(a \<mapsto> [])) c = Some []" using inv_producers [OF inv] by auto
  have cur: "currentProducer ?ct = Some (?l ! c)" using st c(2) by (simp add: settled_def)
  have "\<exists>q'. dequeue_bulk_round ((length ?l + 1) * (length ?l + 1)) S (mx - ?k) ?k (?l ! ((c + 1) mod length ?l)) ?ct q1 = Inr (([], Returns ?k), ?ct, q')"
    by (rule bulk_round_empty [OF ok c(1) cur empty _ q1(2) l1]) (use c(1) ne in auto)
  then show "r = (xs, Returns (of_nat (length xs))) \<and> ct' = ct\<lparr>itemsConsumedFromCurrent := itemsConsumedFromCurrent ct + of_nat (length xs)\<rparr>"
    using eq run by (auto simp: ucast_count simp del: dequeue_bulk_round.simps)
qed

lemma token_beyond_quota:
  assumes ok: "setting_ok S b"
  shows "cq_inv S b Q reg q \<Longrightarrow> settled ct q a \<Longrightarrow> Q a = Some xs \<Longrightarrow> quota S \<le> itemsConsumedFromCurrent ct \<Longrightarrow>
    unat (itemsConsumedFromCurrent ct) + n < 2 ^ 32 \<Longrightarrow> n \<le> length xs \<Longrightarrow>
    \<exists>ct' q'. dequeue_many n S ct q = Inr (take n xs, ct', q') \<and> cq_inv S b (Q(a \<mapsto> drop n xs)) reg q' \<and> settled ct' q' a \<and>
      globalExplicitConsumerOffset q' = globalExplicitConsumerOffset q"
proof (induction n arbitrary: Q q ct xs)
  case 0
  then have "Q(a \<mapsto> xs) = Q" by auto
  then show ?case using 0 by simp
next
  case (Suc n)
  obtain x ys where xs: "xs = x # ys" using Suc.prems(6) by (cases xs) auto
  let ?ct = "ct\<lparr>itemsConsumedFromCurrent := itemsConsumedFromCurrent ct + 1\<rparr>"
  have c: "unat (itemsConsumedFromCurrent ct + 1) = unat (itemsConsumedFromCurrent ct) + 1"
    using Suc.prems(5) by (subst unat_word_ariths) simp
  have q: "unat (quota S) \<le> unat (itemsConsumedFromCurrent ct)" using Suc.prems(4) by (simp add: word_le_nat_alt)
  then have "itemsConsumedFromCurrent ct + 1 \<noteq> quota S" using c by auto
  then obtain q1 where q1: "cq_try_dequeue_token S ct q = Inr (Returns (Some x), ?ct, q1)" "cq_inv S b (Q(a \<mapsto> ys)) reg q1"
    "globalExplicitConsumerOffset q1 = globalExplicitConsumerOffset q"
    using token_dequeue_step [OF ok Suc.prems(1,2)] Suc.prems(3) xs by auto
  have st: "settled ?ct q1 a" using Suc.prems(2) q1(3) by (simp add: settled_def)
  have "\<exists>ct' q'. dequeue_many n S ?ct q1 = Inr (take n ys, ct', q') \<and> cq_inv S b ((Q(a \<mapsto> ys))(a \<mapsto> drop n ys)) reg q' \<and> settled ct' q' a \<and>
      globalExplicitConsumerOffset q' = globalExplicitConsumerOffset q1"
    by (rule Suc.IH [OF q1(2) st]) (use Suc.prems(5,6) xs c q in \<open>simp_all add: word_le_nat_alt\<close>)
  then show ?case using q1 xs by (auto simp del: fun_upd_apply)
qed

text \<open>
  C24: when a consumer token makes the consumers rotate. For a token that has seen the last rotation and whose producer has
  the list \<open>xs\<close>: \<^verbatim>\<open>try_dequeue\<close> takes the first element and raises the global offset if the count of elements taken from the
  producer then equals the quota; a bulk dequeue that \<open>xs\<close> can satisfy raises it if the count then is at least the quota; a bulk dequeue that
  \<open>xs\<close> cannot satisfy never raises it, and if the other lists are empty it just adds to the count. So the count may pass the quota unseen; from then on
  \<^verbatim>\<open>try_dequeue\<close> takes elements of the same producer, as many as it has and however many others wait, and no consumer rotates,
  as long as the count does not wrap around (a later bulk dequeue that is satisfied rotates again).
\<close>

theorem consumer_rotation:
  assumes "setting_ok S b" and "cq_inv S b Q reg q" and "settled ct q a" and "Q a = Some xs"
  shows "(xs = x # ys \<longrightarrow> (\<exists>q'. cq_try_dequeue_token S ct q =
        Inr (Returns (Some x), ct\<lparr>itemsConsumedFromCurrent := itemsConsumedFromCurrent ct + 1\<rparr>, q') \<and>
        globalExplicitConsumerOffset q' = globalExplicitConsumerOffset q + (if itemsConsumedFromCurrent ct + 1 = quota S then 1 else 0)))
    \<and> (unat mx \<le> length xs \<longrightarrow> (\<exists>q'. cq_try_dequeue_bulk_token S ct mx q =
        Inr ((take (unat mx) xs, Returns mx), ct\<lparr>itemsConsumedFromCurrent := itemsConsumedFromCurrent ct + ucast mx\<rparr>, q') \<and>
        globalExplicitConsumerOffset q' = globalExplicitConsumerOffset q + (if quota S \<le> itemsConsumedFromCurrent ct + ucast mx then 1 else 0)))
    \<and> (length xs < unat mx \<longrightarrow> cq_try_dequeue_bulk_token S ct mx q = Inr (r, ct', q1) \<longrightarrow>
        globalExplicitConsumerOffset q1 = globalExplicitConsumerOffset q \<and>
        ((\<forall>c\<in>dom Q - {a}. Q c = Some []) \<longrightarrow> r = (xs, Returns (of_nat (length xs))) \<and>
          ct' = ct\<lparr>itemsConsumedFromCurrent := itemsConsumedFromCurrent ct + of_nat (length xs)\<rparr>))
    \<and> (quota S \<le> itemsConsumedFromCurrent ct \<and> unat (itemsConsumedFromCurrent ct) + n < 2 ^ 32 \<and> n \<le> length xs \<longrightarrow>
        (\<exists>ct' q'. dequeue_many n S ct q = Inr (take n xs, ct', q') \<and> cq_inv S b (Q(a \<mapsto> drop n xs)) reg q' \<and> settled ct' q' a \<and>
          globalExplicitConsumerOffset q' = globalExplicitConsumerOffset q))"
proof -
  have "\<exists>q'. cq_try_dequeue_token S ct q =
        Inr (Returns (Some x), ct\<lparr>itemsConsumedFromCurrent := itemsConsumedFromCurrent ct + 1\<rparr>, q') \<and>
        globalExplicitConsumerOffset q' = globalExplicitConsumerOffset q + (if itemsConsumedFromCurrent ct + 1 = quota S then 1 else 0)"
    if "xs = x # ys"
    using token_dequeue_step [OF assms(1-3), of x ys] assms(4) that by blast
  then show ?thesis
    using token_bulk_full [OF assms, of mx] token_bulk_short [OF assms, of mx r ct' q1]
      token_beyond_quota [OF assms(1) assms(2-4), of n] by blast
qed

text \<open>
  A quota of two, passed by a bulk dequeue of three that got two: the token then takes three more elements in a row of thread 8, while an
  element of thread 16 waits.
\<close>

definition quota_setting :: "nat setting" where
  "quota_setting = small_setting\<lparr>s_traits := small_traits\<lparr>EXPLICIT_CONSUMER_CONSUMPTION_QUOTA_BEFORE_ROTATE := 2\<rparr>\<rparr>"

definition quota_run :: "nat cq_op list" where
  "quota_run = [Q_enqueue cq_AllocationMode.CanAlloc 8 1, Q_enqueue cq_AllocationMode.CanAlloc 8 2, Q_new_consumer 0, Q_dequeue_bulk_token 0 3,
     Q_enqueue cq_AllocationMode.CanAlloc 16 100, Q_enqueue cq_AllocationMode.CanAlloc 8 3, Q_enqueue cq_AllocationMode.CanAlloc 8 4,
     Q_enqueue cq_AllocationMode.CanAlloc 8 5]"

definition quota_world :: "nat cq_world" where
  "quota_world = snd (projr (cq_run quota_setting quota_run (new_cqueue quota_setting 4, \<lambda>_. None)))"

definition quota_token :: consumer_token where
  "quota_token = the (snd quota_world 0)"

lemma quota_token_settled: "settled quota_token (fst quota_world) 0"
  by code_simp

lemma quota_token_count: "itemsConsumedFromCurrent quota_token = 2"
  by code_simp

lemma quota_lane: "map_sum id fst (on_producer 0 (pb_dequeue_bulk quota_setting 10) (fst quota_world)) = Inr ([3, 4, 5], Returns 3)"
  by code_simp

lemma quota_waiting: "map_sum id fst (on_producer 1 (pb_dequeue_bulk quota_setting 10) (fst quota_world)) = Inr ([100], Returns 1)"
  by code_simp

lemma quota_goes: "\<exists>A. cq_rep quota_setting 1 A quota_world"
proof -
  have "setting_ok quota_setting 1"
    unfolding setting_ok_def quota_setting_def small_setting_def small_traits_def block_bits_def
    by (intro conjI exI [of _ 1]) simp_all
  then have "\<exists>as w' A'. cq_run quota_setting quota_run (new_cqueue quota_setting 4, \<lambda>_. None) = Inr (as, w') \<and>
      cq_steps quota_setting (\<lambda>_. None, \<lambda>_. None, \<lambda>_. None, {}) quota_run as A' \<and> cq_rep quota_setting 1 A' w'"
    by (rule new_run_goes) (simp_all add: quota_run_def op_threads_def makes_token_def card_insert_if)
  then obtain as w' A' where "cq_run quota_setting quota_run (new_cqueue quota_setting 4, \<lambda>_. None) = Inr (as, w')"
    "cq_rep quota_setting 1 A' w'" by blast
  then show ?thesis by (intro exI [of _ A']) (simp add: quota_world_def)
qed

theorem consumer_rotation_witness:
  "(\<exists>q'. cq_try_dequeue_token quota_setting quota_token (fst quota_world) =
        Inr (Returns (Some 3), quota_token\<lparr>itemsConsumedFromCurrent := 3\<rparr>, q') \<and>
      globalExplicitConsumerOffset q' = globalExplicitConsumerOffset (fst quota_world))
   \<and> (\<exists>q'. cq_try_dequeue_bulk_token quota_setting quota_token 2 (fst quota_world) =
        Inr (([3, 4], Returns 2), quota_token\<lparr>itemsConsumedFromCurrent := 4\<rparr>, q') \<and>
      globalExplicitConsumerOffset q' = globalExplicitConsumerOffset (fst quota_world) + 1)
   \<and> (\<exists>ct' q'. dequeue_many 3 quota_setting quota_token (fst quota_world) = Inr ([3, 4, 5], ct', q') \<and>
      globalExplicitConsumerOffset q' = globalExplicitConsumerOffset (fst quota_world))"
proof -
  have ok: "setting_ok quota_setting 1"
    unfolding setting_ok_def quota_setting_def small_setting_def small_traits_def block_bits_def
    by (intro conjI exI [of _ 1]) simp_all
  obtain A where A: "cq_rep quota_setting 1 A quota_world" using quota_goes by blast
  then have inv: "cq_inv quota_setting 1 (fst A) (fst (snd A)) (fst quota_world)"
    by (simp add: cq_rep_def split_beta)
  have "0 \<in> set (producerList (fst quota_world))" by code_simp
  then obtain xs where xs: "fst A 0 = Some xs" using inv_producers [OF inv] by blast
  have "take 10 xs = [3, 4, 5]"
    using inv_dequeue_bulk [OF ok inv xs, of 10] quota_lane by auto
  then have "xs = [3, 4, 5]" by (cases "length xs < 10") (auto dest: arg_cong [of _ _ length])
  moreover have "quota quota_setting = 2" by (simp add: quota_setting_def)
  ultimately show ?thesis
    using consumer_rotation [OF ok inv quota_token_settled xs, of 3 "[4, 5]" 2 _ _ _ 3]
    by (auto simp: quota_token_count)
qed

end
