(* ===== verification/Cq_Order.thy ===== *)
theory Cq_Order
  imports Cq_Queue_Run "HOL-Library.Multiset" "HOL-Library.Sublist"
begin

text \<open>
  What a client of \<^verbatim>\<open>ConcurrentQueue\<close> may rely on, derived from the step relation: no element is lost or delivered twice, and
  elements of one thread come out in the order in which they went in.
\<close>

section \<open>Elements that went in and came out\<close>

definition went_in :: "'a cq_op \<Rightarrow> 'a cq_answer \<Rightarrow> 'a list" where
  "went_in c a = (case a of
     A_bool r \<Rightarrow> if r then (case c of Q_enqueue m i x \<Rightarrow> [x] | Q_enqueue_token m k x \<Rightarrow> [x] | _ \<Rightarrow> []) else []
   | _ \<Rightarrow> [])"

definition came_out :: "'a cq_answer \<Rightarrow> 'a list" where
  "came_out a = (case a of A_item (Some x) \<Rightarrow> [x] | A_items xs n \<Rightarrow> xs | _ \<Rightarrow> [])"

fun accepted :: "'a cq_op list \<Rightarrow> 'a cq_answer list \<Rightarrow> 'a list" where
  "accepted (c # cs) (a # as) = went_in c a @ accepted cs as"
| "accepted _ _ = []"

definition cq_delivered :: "'a cq_answer list \<Rightarrow> 'a list" where
  "cq_delivered as = concat (map came_out as)"

lemma went_in_simps [simp]:
  "went_in (Q_enqueue m i x) (A_bool r) = (if r then [x] else [])" "went_in (Q_enqueue_token m k x) (A_bool r) = (if r then [x] else [])"
  "went_in c (A_item y) = []" "went_in c (A_items ys n) = []" "went_in c (A_size n) = []" "went_in c A_done = []" "went_in c A_skipped = []"
  by (simp_all add: went_in_def)

lemma came_out_simps [simp]:
  "came_out (A_bool r) = []" "came_out (A_item y) = (case y of None \<Rightarrow> [] | Some x \<Rightarrow> [x])" "came_out (A_items xs n) = xs"
  "came_out (A_size n) = []" "came_out A_done = []" "came_out A_skipped = []"
  by (simp_all add: came_out_def split: option.splits)

text \<open>Every step takes from the lists and then adds at most one element to one of them: first the elements as a whole.\<close>

definition contents :: "(nat \<Rightarrow> 'a list option) \<Rightarrow> 'a multiset" where
  "contents Q = (\<Sum>a\<in>dom Q. mset (the (Q a)))"

lemma contents_upd:
  assumes "finite (dom Q)"
  shows "contents (Q(a \<mapsto> ys)) + (case Q a of None \<Rightarrow> {#} | Some xs \<Rightarrow> mset xs) = contents Q + mset ys"
proof -
  let ?g = "\<lambda>c. mset (the ((Q(a \<mapsto> ys)) c))"
  have "contents (Q(a \<mapsto> ys)) = (\<Sum>c\<in>insert a (dom Q). ?g c)" by (simp add: contents_def)
  also have "\<dots> = mset ys + (\<Sum>c\<in>dom Q - {a}. ?g c)" using assms by (simp add: sum.insert_remove)
  also have "(\<Sum>c\<in>dom Q - {a}. ?g c) = (\<Sum>c\<in>dom Q - {a}. mset (the (Q c)))" by (rule sum.cong) simp_all
  finally have new: "contents (Q(a \<mapsto> ys)) = mset ys + (\<Sum>c\<in>dom Q - {a}. mset (the (Q c)))" .
  show ?thesis
  proof (cases "Q a")
    case None
    then have "dom Q - {a} = dom Q" by auto
    then show ?thesis using new None by (simp add: contents_def)
  next
    case (Some xs)
    then have "a \<in> dom Q" by auto
    then have "contents Q = mset xs + (\<Sum>c\<in>dom Q - {a}. mset (the (Q c)))" using assms Some sum.remove [of "dom Q" a "\<lambda>c. mset (the (Q c))"] by (simp add: contents_def)
    then show ?thesis using new Some by simp
  qed
qed

lemma contents_old: "finite (dom Q) \<Longrightarrow> Q a = Some xs \<Longrightarrow> contents (Q(a \<mapsto> ys)) + mset xs = contents Q + mset ys"
  using contents_upd [of Q a ys] by (simp del: fun_upd_apply)

lemma contents_new: "finite (dom Q) \<Longrightarrow> Q a = None \<Longrightarrow> contents (Q(a \<mapsto> ys)) = contents Q + mset ys"
  using contents_upd [of Q a ys] by (simp del: fun_upd_apply)

lemma contents_take: "finite (dom Q) \<Longrightarrow> Q a = Some (xs @ ys) \<Longrightarrow> contents (Q(a \<mapsto> ys)) + mset xs = contents Q"
  using contents_old [of Q a "xs @ ys" ys] by (simp del: fun_upd_apply add: add.assoc [symmetric])

lemma takes_contents: "takes Q xs Q' \<Longrightarrow> finite (dom Q) \<Longrightarrow> contents Q' + mset xs = contents Q"
proof (induction rule: takes.induct)
  case (takes_more Q xs Q' a ys zs)
  have "finite (dom Q')" using takes_more.prems takes_dom [OF takes_more.hyps(1)] by simp
  from contents_take [OF this takes_more.hyps(2)] have "contents (Q'(a \<mapsto> zs)) + mset ys + mset xs = contents Q' + mset xs" by (simp del: fun_upd_apply)
  then show ?case using takes_more by (simp add: ac_simps del: fun_upd_apply)
qed simp

lemma own_lane_contents: "own_lane S i Q reg r Q' reg' \<Longrightarrow> finite (dom Q) \<Longrightarrow> contents Q' = contents Q \<and> finite (dom Q')"
  by (auto simp: own_lane_def domIff contents_new simp del: fun_upd_apply split: option.splits)

lemma appended_contents:
  assumes "appended S m a x Q r Q'" and "finite (dom Q)"
  shows "contents Q' = contents Q + mset (if r then [x] else [])"
proof (cases r)
  case True
  then obtain xs where xs: "Q a = Some xs" "Q' = Q(a \<mapsto> xs @ [x])" using assms(1) by (auto simp: appended_def)
  have "contents Q' + mset xs = (contents Q + {#x#}) + mset xs" using contents_old [OF assms(2) xs(1), of "xs @ [x]"] xs(2) by (simp del: fun_upd_apply)
  then show ?thesis using True by (simp only: add_right_cancel) simp
qed (use assms in \<open>simp add: appended_def\<close>)

lemma token_made_contents: "token_made S k Q reg ts r Q' \<Longrightarrow> finite (dom Q) \<Longrightarrow> contents Q' = contents Q \<and> finite (dom Q')"
  by (auto simp: token_made_def domIff contents_new simp del: fun_upd_apply split: option.splits if_splits)

lemma one_taken_contents: "one_taken Q r Q' \<Longrightarrow> finite (dom Q) \<Longrightarrow> contents Q' + mset (came_out (A_item r)) = contents Q"
  by (cases r) (auto simp: one_taken_def dest: takes_contents)

lemma step_conserves:
  assumes "cq_step S A c a A'" and "finite (dom (fst A))"
  shows "contents (fst A') + mset (came_out a) = contents (fst A) + mset (went_in c a) \<and> finite (dom (fst A'))"
  using assms
proof (cases rule: cq_step.cases)
  case (step_enqueue i Q reg d Q1 reg' m x r Q' ts C)
  have "contents Q1 = contents Q" "finite (dom Q1)" using own_lane_contents [OF step_enqueue(6)] assms(2) step_enqueue(1) by simp_all
  then show ?thesis using appended_contents [OF step_enqueue(7)] appended_dom [OF step_enqueue(7)] step_enqueue(1-4) by simp
next
  case (step_no_producer i Q reg Q' reg' ts C m x)
  then show ?thesis using own_lane_contents [OF step_no_producer(6)] assms(2) by simp
next
  case (step_enqueue_token ts k d m x Q r Q' reg C)
  then show ?thesis using appended_contents [OF step_enqueue_token(6)] appended_dom [OF step_enqueue_token(6)] assms(2) by simp
next
  case (step_dequeue Q r Q' C reg ts)
  then show ?thesis using one_taken_contents [OF step_dequeue(4)] one_taken_dom [OF step_dequeue(4)] assms(2) by simp
next
  case (step_bulk n Q xs Q' C reg ts)
  then show ?thesis using takes_contents [of Q xs Q'] many_taken_dom [OF step_bulk(4)] assms(2) by (simp add: many_taken_def)
next
  case (step_from ts k d Q xs reg C)
  have "take 1 xs @ tl xs = xs" by (cases xs) simp_all
  moreover have "came_out a = take 1 xs" using step_from(3) by (cases xs) simp_all
  ultimately show ?thesis using contents_take [of Q d "take 1 xs" "tl xs"] step_from(1-4,6) assms(2) by (simp del: fun_upd_apply)
next
  case (step_bulk_from ts k d Q xs ys n reg C)
  have fin: "finite (dom Q)" using assms(2) step_bulk_from(1) by simp
  from contents_take [OF fin step_bulk_from(6)] show ?thesis using fin step_bulk_from(1-4) by (simp del: fun_upd_apply)
next
  case (step_new_token ts k Q reg r Q' C)
  then show ?thesis using token_made_contents [OF step_new_token(6)] assms(2) by simp
qed simp_all

lemma steps_conserve:
  "cq_steps S A cs as A' \<Longrightarrow> finite (dom (fst A)) \<Longrightarrow> contents (fst A') + mset (cq_delivered as) = contents (fst A) + mset (accepted cs as)"
proof (induction rule: cq_steps.induct)
  case (steps_more A c a A' cs as A'')
  from step_conserves [OF steps_more.hyps(1) steps_more.prems]
  have "contents (fst A') + mset (came_out a) = contents (fst A) + mset (went_in c a)" "finite (dom (fst A'))" by simp_all
  then have "contents (fst A'') + mset (cq_delivered as) + mset (came_out a) = contents (fst A) + mset (went_in c a) + mset (accepted cs as)"
    using steps_more.IH by (simp add: ac_simps)
  then show ?case by (simp add: cq_delivered_def ac_simps)
qed (simp add: cq_delivered_def)

text \<open>The number that \<^verbatim>\<open>size_approx\<close> gives is that of the elements that are still there.\<close>

lemma contents_size: "size (contents Q) = (\<Sum>a\<in>dom Q. length (the (Q a)))"
  by (simp add: contents_def)

text \<open>
  C20: The queue neither loses nor invents nor duplicates elements. After any run of calls, what was delivered is part of what was
  accepted, each element at most as often, and \<^verbatim>\<open>size_approx\<close> counts exactly the rest.
\<close>

theorem no_element_lost:
  assumes "setting_ok S b" and "capacity \<le> 2 ^ 63" and "length cs < 2 ^ 62"
    and "card (\<Union>c\<in>set cs. op_threads c) + length (filter makes_token cs) < 2 ^ 32"
  shows "\<exists>as q cts. cq_run S cs (new_cqueue S capacity, \<lambda>_. None) = Inr (as, q, cts) \<and> mset (cq_delivered as) \<subseteq># mset (accepted cs as) \<and>
    cq_size_approx q = Inr (of_nat (size (mset (accepted cs as) - mset (cq_delivered as))))"
proof -
  obtain as q cts Q reg ts C where r: "cq_run S cs (new_cqueue S capacity, \<lambda>_. None) = Inr (as, q, cts)"
    "cq_steps S (\<lambda>_. None, \<lambda>_. None, \<lambda>_. None, {}) cs as (Q, reg, ts, C)" "cq_rep S b (Q, reg, ts, C) (q, cts)"
    using new_run_goes [OF assms] by (metis prod_cases3 surj_pair)
  have sum: "contents Q + mset (cq_delivered as) = mset (accepted cs as)" using steps_conserve [OF r(2)] by (simp add: contents_def)
  have "cq_size_approx q = Inr (of_nat (size (contents Q)))" using size_ok [of S b Q reg q] r(3) by (simp add: cq_rep_def contents_size)
  then show ?thesis using r(1) sum [symmetric] by (intro exI [of _ as] exI [of _ q] exI [of _ cts]) simp
qed

theorem no_element_lost_witness:
  "\<exists>as q cts. cq_run small_setting small_run (new_cqueue small_setting 4, \<lambda>_. None) = Inr (as, q, cts) \<and>
    mset (cq_delivered as) \<subseteq># mset (accepted small_run as) \<and>
    cq_size_approx q = Inr (of_nat (size (mset (accepted small_run as) - mset (cq_delivered as))))"
  by (rule no_element_lost [OF small_setting_ok _ small_run_small]) simp

section \<open>The order of the elements of one thread\<close>

text \<open>
  Elements that only one thread enqueues: they are in its list only, and come out in the order of that list. The list of
  a thread that is not registered is empty.
\<close>

definition lane :: "(nat \<Rightarrow> 'a list option) \<Rightarrow> (u64 \<Rightarrow> nat option) \<Rightarrow> u64 \<Rightarrow> 'a list" where
  "lane Q reg i = (case reg i of None \<Rightarrow> [] | Some a \<Rightarrow> the (Q a))"

definition private_to :: "('a \<Rightarrow> bool) \<Rightarrow> u64 \<Rightarrow> (nat \<Rightarrow> 'a list option) \<Rightarrow> (u64 \<Rightarrow> nat option) \<Rightarrow> bool" where
  "private_to P i Q reg \<longleftrightarrow> ran reg \<subseteq> dom Q \<and> (\<forall>a xs. Q a = Some xs \<and> reg i \<noteq> Some a \<longrightarrow> filter P xs = [])"

definition enqueued_by :: "('a \<Rightarrow> bool) \<Rightarrow> u64 \<Rightarrow> 'a cq_op \<Rightarrow> bool" where
  "enqueued_by P i c = (case c of Q_enqueue m j x \<Rightarrow> P x \<longrightarrow> j = i | Q_enqueue_token m k x \<Rightarrow> \<not> P x | _ \<Rightarrow> True)"

lemma private_take:
  assumes "private_to P i Q reg" and "Q a = Some (xs @ ys)"
  shows "private_to P i (Q(a \<mapsto> ys)) reg \<and> filter P xs @ filter P (lane (Q(a \<mapsto> ys)) reg i) = filter P (lane Q reg i)"
proof (cases "reg i = Some a")
  case True
  then show ?thesis using assms by (auto simp: private_to_def lane_def)
next
  case False
  then have "filter P (xs @ ys) = []" using assms unfolding private_to_def by blast
  then show ?thesis using assms False by (auto simp: private_to_def lane_def split: option.splits)
qed

lemma private_takes:
  "takes Q xs Q' \<Longrightarrow> private_to P i Q reg \<Longrightarrow> private_to P i Q' reg \<and> filter P xs @ filter P (lane Q' reg i) = filter P (lane Q reg i)"
proof (induction rule: takes.induct)
  case (takes_more Q xs Q' a ys zs)
  then show ?case using private_take [of P i Q' reg a ys zs] by (simp del: fun_upd_apply)
qed simp

lemma private_new:
  assumes "private_to P i Q reg" and "a \<notin> dom Q"
  shows "private_to P i (Q(a \<mapsto> [])) reg" "reg j = None \<Longrightarrow> private_to P i (Q(a \<mapsto> [])) (reg(j \<mapsto> a))" "lane (Q(a \<mapsto> [])) reg i = lane Q reg i"
    "reg j = None \<Longrightarrow> lane (Q(a \<mapsto> [])) (reg(j \<mapsto> a)) i = lane Q reg i"
proof -
  have ne: "reg l \<noteq> Some a" for l using assms by (auto simp: private_to_def ran_def)
  show "private_to P i (Q(a \<mapsto> [])) reg" "reg j = None \<Longrightarrow> private_to P i (Q(a \<mapsto> [])) (reg(j \<mapsto> a))"
    using assms ne by (auto simp: private_to_def ran_def split: if_splits)
  show "lane (Q(a \<mapsto> [])) reg i = lane Q reg i" "reg j = None \<Longrightarrow> lane (Q(a \<mapsto> [])) (reg(j \<mapsto> a)) i = lane Q reg i"
    using ne [of i] by (auto simp: lane_def split: option.splits)
qed

lemma private_own:
  assumes "private_to P i Q reg" and "own_lane S j Q reg r Q' reg'"
  shows "private_to P i Q' reg' \<and> lane Q' reg' i = lane Q reg i \<and> (\<forall>a. r = Some a \<longrightarrow> reg' j = Some a)"
proof (cases "reg j = None \<and> r \<noteq> None")
  case False
  then show ?thesis using assms by (auto simp: own_lane_def split: option.splits)
next
  case True
  then obtain a where "r = Some a" "a \<notin> dom Q" "Q' = Q(a \<mapsto> [])" "reg' = reg(j \<mapsto> a)" "reg j = None" using assms(2) by (auto simp: own_lane_def)
  then show ?thesis using private_new(2,4) [OF assms(1)] by simp
qed

lemma private_appended:
  assumes "private_to P i Q reg" and "appended S m a x Q r Q'" and "P x \<longrightarrow> reg i = Some a"
  shows "private_to P i Q' reg \<and> filter P (lane Q' reg i) = filter P (lane Q reg i @ (if r then [x] else []))"
proof (cases r)
  case True
  then obtain xs where xs: "Q a = Some xs" "Q' = Q(a \<mapsto> xs @ [x])" using assms(2) by (auto simp: appended_def)
  show ?thesis
  proof (cases "reg i = Some a")
    case own: True
    then show ?thesis using assms(1) xs True by (auto simp: private_to_def lane_def)
  next
    case False
    then have "\<not> P x" "filter P xs = []" using assms(1,3) xs(1) by (simp_all add: private_to_def)
    moreover have "lane Q' reg i = lane Q reg i" using False xs(2) by (simp add: lane_def split: option.splits)
    ultimately show ?thesis using assms(1) xs True by (auto simp: private_to_def)
  qed
qed (use assms in \<open>simp add: appended_def\<close>)

lemma private_token:
  assumes "private_to P i Q reg" and "token_made S k Q reg ts r Q'"
  shows "private_to P i Q' reg \<and> lane Q' reg i = lane Q reg i"
proof -
  have "Q' = Q \<or> (\<exists>a. a \<notin> dom Q \<and> Q' = Q(a \<mapsto> []))" using assms(2) by (auto simp: token_made_def split: option.splits if_splits)
  then show ?thesis using assms(1) private_new(1,3) [OF assms(1)] by blast
qed

lemma one_takes: "one_taken Q r Q' \<Longrightarrow> takes Q (came_out (A_item r)) Q'"
  by (cases r) (auto simp: one_taken_def takes_none)

lemma step_order:
  assumes "cq_step S A c a A'" and "private_to P i (fst A) (fst (snd A))" and "enqueued_by P i c"
  shows "private_to P i (fst A') (fst (snd A')) \<and>
    filter P (came_out a) @ filter P (lane (fst A') (fst (snd A')) i) = filter P (lane (fst A) (fst (snd A)) i) @ filter P (went_in c a)"
  using assms
proof (cases rule: cq_step.cases)
  case (step_enqueue j Q reg d Q1 reg' m x r Q' ts C)
  have own: "private_to P i Q1 reg'" "lane Q1 reg' i = lane Q reg i" "reg' j = Some d"
    using private_own [OF _ step_enqueue(6), of P i] assms(2) step_enqueue(1) by simp_all
  have "P x \<longrightarrow> reg' i = Some d" using own(3) assms(3) step_enqueue(2) by (auto simp: enqueued_by_def)
  from private_appended [OF own(1) step_enqueue(7) this] show ?thesis using own(2) step_enqueue(1-4) by simp
next
  case (step_no_producer j Q reg Q' reg' ts C m x)
  then show ?thesis using private_own [OF _ step_no_producer(6), of P i] assms(2) by simp
next
  case (step_enqueue_token ts k d m x Q r Q' reg C)
  have "P x \<longrightarrow> reg i = Some d" using assms(3) step_enqueue_token(2) by (simp add: enqueued_by_def)
  moreover have "private_to P i Q reg" using assms(2) step_enqueue_token(1) by simp
  ultimately show ?thesis using private_appended [of P i Q reg S m d x r Q'] step_enqueue_token(1-4,6) by simp
next
  case (step_dequeue Q r Q' C reg ts)
  then show ?thesis using private_takes [OF one_takes [OF step_dequeue(4)], of P i reg] assms(2) by simp
next
  case (step_bulk n Q xs Q' C reg ts)
  then show ?thesis using private_takes [of Q xs Q' P i reg] assms(2) by (simp add: many_taken_def)
next
  case (step_from ts k d Q xs reg C)
  have "take 1 xs @ tl xs = xs" by (cases xs) simp_all
  moreover have "came_out a = take 1 xs" using step_from(3) by (cases xs) simp_all
  ultimately show ?thesis using private_take [of P i Q reg d "take 1 xs" "tl xs"] step_from(1-4,6) assms(2) by (simp del: fun_upd_apply)
next
  case (step_bulk_from ts k d Q xs ys n reg C)
  show ?thesis using private_take [of P i Q reg d xs ys] step_bulk_from(1-4,6) assms(2) by (simp del: fun_upd_apply)
next
  case (step_new_token ts k Q reg r Q' C)
  then show ?thesis using private_token [OF _ step_new_token(6), of P i] assms(2) by simp
qed simp_all

lemma steps_order:
  "cq_steps S A cs as A' \<Longrightarrow> private_to P i (fst A) (fst (snd A)) \<Longrightarrow> (\<And>c. c \<in> set cs \<Longrightarrow> enqueued_by P i c) \<Longrightarrow>
    filter P (cq_delivered as) @ filter P (lane (fst A') (fst (snd A')) i) = filter P (lane (fst A) (fst (snd A)) i) @ filter P (accepted cs as)"
proof (induction rule: cq_steps.induct)
  case (steps_more A c a A' cs as A'')
  have "enqueued_by P i c" using steps_more.prems(2) by simp
  note st = step_order [OF steps_more.hyps(1) steps_more.prems(1) this]
  then have "filter P (cq_delivered as) @ filter P (lane (fst A'') (fst (snd A'')) i) = filter P (lane (fst A') (fst (snd A')) i) @ filter P (accepted cs as)"
    using steps_more.IH steps_more.prems(2) by simp
  then show ?case using st by (simp add: cq_delivered_def)
qed (simp add: cq_delivered_def)

text \<open>
  C19: The elements of one thread come out in the order in which it enqueued them, whoever dequeues them, in bulk or not, and
  whatever other threads do. Take any property of elements that only elements enqueued by one thread have: those that have it
  come out as a prefix of the sequence in which they went in.
\<close>

theorem elements_of_a_thread_in_order:
  assumes "setting_ok S b" and "capacity \<le> 2 ^ 63" and "length cs < 2 ^ 62"
    and "card (\<Union>c\<in>set cs. op_threads c) + length (filter makes_token cs) < 2 ^ 32"
    and "\<And>c. c \<in> set cs \<Longrightarrow> enqueued_by P i c"
  shows "\<exists>as w. cq_run S cs (new_cqueue S capacity, \<lambda>_. None) = Inr (as, w) \<and> prefix (filter P (cq_delivered as)) (filter P (accepted cs as))"
proof -
  obtain as w A where r: "cq_run S cs (new_cqueue S capacity, \<lambda>_. None) = Inr (as, w)" "cq_steps S (\<lambda>_. None, \<lambda>_. None, \<lambda>_. None, {}) cs as A"
    using new_run_goes [OF assms(1-4)] by blast
  have "filter P (cq_delivered as) @ filter P (lane (fst A) (fst (snd A)) i) = filter P (accepted cs as)"
    using steps_order [OF r(2), of P i] assms(5) by (simp add: private_to_def lane_def)
  then show ?thesis using r(1) by (metis prefixI)
qed

text \<open>Thread 8 enqueues odd numbers, thread 16 and a token even ones.\<close>

definition order_run :: "nat cq_op list" where
  "order_run = [Q_enqueue cq_AllocationMode.CanAlloc 8 1, Q_enqueue cq_AllocationMode.CanAlloc 16 2, Q_enqueue cq_AllocationMode.CanAlloc 8 3, Q_new_token 0,
     Q_enqueue_token cq_AllocationMode.CanAlloc 0 4, Q_enqueue cq_AllocationMode.CanAlloc 8 5, Q_try_dequeue, Q_try_dequeue_bulk 4]"

theorem elements_of_a_thread_in_order_witness:
  "\<exists>as w. cq_run small_setting order_run (new_cqueue small_setting 4, \<lambda>_. None) = Inr (as, w) \<and>
    prefix (filter odd (cq_delivered as)) (filter odd (accepted order_run as))"
proof (rule elements_of_a_thread_in_order [OF small_setting_ok, where i = 8])
  show "card (\<Union>c\<in>set order_run. op_threads c) + length (filter makes_token order_run) < 2 ^ 32"
    by (simp add: order_run_def op_threads_def makes_token_def card_insert_if)
  show "\<And>c. c \<in> set order_run \<Longrightarrow> enqueued_by odd 8 c" by (auto simp: order_run_def enqueued_by_def)
qed (simp_all add: order_run_def)

end
