(* ===== verification/Cq_Swap.thy ===== *)
theory Cq_Swap
  imports Cq_Queue_Fifo
begin

text \<open>
  Moving and swapping whole queues. The first hash table of a queue is a member of the queue, so the chains of tables of two queues are
  exchanged by exchanging what the first tables hold and redirecting the pointers to them.
\<close>

section \<open>Hash tables in memory\<close>

text \<open>The initial table of this queue and of the other one, and tables that were allocated.\<close>

datatype hash_ref = Initial bool | Allocated nat

record hash_node =
  nd_capacity :: u64
  nd_entries :: "kvp list"
  nd_prev :: "hash_ref option"

record hash_pair =
  nodes :: "hash_ref \<Rightarrow> hash_node"
  this_hash :: hash_ref
  other_hash :: hash_ref
  this_count :: u64
  other_count :: u64

definition set_prev :: "hash_ref \<Rightarrow> hash_ref \<Rightarrow> (hash_ref \<Rightarrow> hash_node) \<Rightarrow> hash_ref \<Rightarrow> hash_node" where
  "set_prev r own N = N(r := (N r)\<lparr>nd_prev := Some own\<rparr>)"

fun find_before :: "nat \<Rightarrow> (hash_ref \<Rightarrow> hash_node) \<Rightarrow> hash_ref \<Rightarrow> hash_ref \<Rightarrow> cq_fault + hash_ref" where
  "find_before 0 N target hash = Inl Cq_endless"
| "find_before (Suc fuel) N target hash =
     (if nd_prev (N hash) = Some target then Inr hash
      else case nd_prev (N hash) of None \<Rightarrow> Inl Cq_null | Some prev \<Rightarrow> find_before fuel N target prev)"

text \<open>One of the two conditionals: the chain that ends in the other queue's table shall end in its own.\<close>

definition adopt_chain :: "nat \<Rightarrow> hash_ref \<Rightarrow> hash_ref \<Rightarrow> hash_ref \<Rightarrow> (hash_ref \<Rightarrow> hash_node) \<Rightarrow> cq_fault + hash_ref \<times> (hash_ref \<Rightarrow> hash_node)" where
  "adopt_chain fuel own foreign hash N =
     (if hash = foreign then Inr (own, N)
      else bind_r (find_before fuel N foreign hash) (\<lambda>r. Inr (hash, set_prev r own N)))"

definition swap_entries :: "(hash_ref \<Rightarrow> hash_node) \<Rightarrow> hash_ref \<Rightarrow> hash_node" where
  "swap_entries N = N(Initial True := (N (Initial True))\<lparr>nd_entries := nd_entries (N (Initial False))\<rparr>,
     Initial False := (N (Initial False))\<lparr>nd_entries := nd_entries (N (Initial True))\<rparr>)"

definition swap_implicit_producer_hashes :: "nat \<Rightarrow> hash_pair \<Rightarrow> cq_fault + hash_pair" where
  "swap_implicit_producer_hashes fuel p =
     bind_r (adopt_chain fuel (Initial True) (Initial False) (other_hash p) (swap_entries (nodes p))) (\<lambda>(h, N).
     bind_r (adopt_chain fuel (Initial False) (Initial True) (this_hash p) N) (\<lambda>(h', N).
       Inr \<lparr>nodes = N, this_hash = h, other_hash = h', this_count = other_count p, other_count = this_count p\<rparr>))"

section \<open>Moving and swapping\<close>

text \<open>
  All members are exchanged, the hash tables as above; the producers get a new parent, which here is the queue they are called on, and tokens go with
  their producers.
\<close>

definition swap_internal :: "'a cqueue \<times> 'a cqueue \<Rightarrow> 'a cqueue \<times> 'a cqueue" where
  "swap_internal = (\<lambda>(q, other).
     (q\<lparr>prod_heap := prod_heap other, next_producer := next_producer other, producerList := producerList other, producerCount := producerCount other,
        q_pool := q_pool other, nextExplicitConsumerId := nextExplicitConsumerId other,
        globalExplicitConsumerOffset := globalExplicitConsumerOffset other, hashes := hashes other,
        implicitProducerHashCount := implicitProducerHashCount other, ptokens := ptokens other\<rparr>,
      other\<lparr>prod_heap := prod_heap q, next_producer := next_producer q, producerList := producerList q, producerCount := producerCount q,
        q_pool := q_pool q, nextExplicitConsumerId := nextExplicitConsumerId q,
        globalExplicitConsumerOffset := globalExplicitConsumerOffset q, hashes := hashes q,
        implicitProducerHashCount := implicitProducerHashCount q, ptokens := ptokens q\<rparr>))"

text \<open>The new queue takes everything; the old one is left without blocks and with an empty hash.\<close>

definition move_cqueue :: "traits \<Rightarrow> 'a cqueue \<Rightarrow> 'a cqueue \<times> 'a cqueue" where
  "move_cqueue t other =
     (other, empty_queue t \<lparr>heap = (\<lambda>_. None), next_block = 0, mallocs = mallocs (q_pool other), initialBlockPoolIndex = 0,
        initialBlockPoolSize = 0, freeList = []\<rparr>)"

section \<open>The chains are exchanged\<close>

text \<open>The tables from one on, each reached once, down to the initial table of a queue.\<close>

inductive hash_chain :: "(hash_ref \<Rightarrow> hash_node) \<Rightarrow> bool \<Rightarrow> hash_ref \<Rightarrow> hash_ref list \<Rightarrow> bool" for N :: "hash_ref \<Rightarrow> hash_node" and own :: bool where
  chain_end: "nd_prev (N (Initial own)) = None \<Longrightarrow> hash_chain N own (Initial own) [Initial own]"
| chain_more: "nd_prev (N (Allocated k)) = Some r \<Longrightarrow> hash_chain N own r rs \<Longrightarrow> Allocated k \<notin> set rs \<Longrightarrow>
    hash_chain N own (Allocated k) (Allocated k # rs)"

definition tables :: "(hash_ref \<Rightarrow> hash_node) \<Rightarrow> hash_ref list \<Rightarrow> hash_table list" where
  "tables N rs = map (\<lambda>r. \<lparr>h_capacity = nd_capacity (N r), h_entries = nd_entries (N r)\<rparr>) rs"

lemma chain_form: "hash_chain N own h rs \<Longrightarrow> \<exists>as. rs = map Allocated as @ [Initial own] \<and> distinct as \<and> h = hd rs \<and> nd_prev (N (Initial own)) = None"
proof (induction rule: hash_chain.induct)
  case chain_end
  then show ?case by (intro exI [of _ "[]"]) simp
next
  case (chain_more k r rs)
  then obtain as where "rs = map Allocated as @ [Initial own]" "distinct as" "r = hd rs" "nd_prev (N (Initial own)) = None" by blast
  then show ?case using chain_more.hyps(3) by (intro exI [of _ "k # as"]) auto
qed

text \<open>A chain depends on the tables it goes through only.\<close>

lemma chain_cong: "hash_chain N own h rs \<Longrightarrow> (\<And>r. r \<in> set rs \<Longrightarrow> nd_prev (N' r) = nd_prev (N r)) \<Longrightarrow> hash_chain N' own h rs"
proof (induction rule: hash_chain.induct)
  case chain_end
  then show ?case by (intro hash_chain.chain_end) simp
next
  case (chain_more k r rs)
  then show ?case by (intro hash_chain.chain_more [of _ k r]) auto
qed

text \<open>The search finds the last allocated table, and the chain then ends in the other initial table.\<close>

lemma adopt_ok:
  assumes "hash_chain N own h (map Allocated as @ [Initial own])" and "length as < fuel" and "nd_prev (N (Initial (\<not> own))) = None"
  shows "\<exists>h' N'. adopt_chain fuel (Initial (\<not> own)) (Initial own) h N = Inr (h', N') \<and> hash_chain N' (\<not> own) h' (map Allocated as @ [Initial (\<not> own)]) \<and>
    (\<forall>r. r \<notin> Allocated ` set as \<longrightarrow> N' r = N r) \<and> (\<forall>r. nd_capacity (N' r) = nd_capacity (N r) \<and> nd_entries (N' r) = nd_entries (N r))"
  using assms
proof (induction as arbitrary: h fuel)
  case Nil
  then have "h = Initial own" using chain_form [OF Nil(1)] by simp
  moreover have "hash_chain N (\<not> own) (Initial (\<not> own)) [Initial (\<not> own)]" by (rule chain_end) (rule Nil(3))
  ultimately show ?case by (intro exI [of _ "Initial (\<not> own)"] exI [of _ N]) (simp add: adopt_chain_def)
next
  case (Cons k as)
  obtain fuel' where fuel: "fuel = Suc fuel'" using Cons.prems(2) by (cases fuel) auto
  obtain r where h: "h = Allocated k" and r: "nd_prev (N (Allocated k)) = Some r" "hash_chain N own r (map Allocated as @ [Initial own])"
    "Allocated k \<notin> set (map Allocated as @ [Initial own])" using Cons.prems(1) by (cases rule: hash_chain.cases) auto
  have new: "k \<notin> set as" using r(3) by auto
  show ?case
  proof (cases as)
    case Nil
    then have ri: "r = Initial own" using chain_form [OF r(2)] by simp
    let ?N = "set_prev (Allocated k) (Initial (\<not> own)) N"
    have run: "adopt_chain fuel (Initial (\<not> own)) (Initial own) h N = Inr (h, ?N)"
      using h r(1) ri fuel by (simp add: adopt_chain_def)
    have "hash_chain ?N (\<not> own) (Initial (\<not> own)) [Initial (\<not> own)]" by (rule chain_end) (use Cons.prems(3) in \<open>simp add: set_prev_def\<close>)
    then have "hash_chain ?N (\<not> own) h (map Allocated (k # as) @ [Initial (\<not> own)])" unfolding h Nil
      by (simp add: set_prev_def chain_more)
    moreover have "(\<forall>r. r \<notin> Allocated ` set (k # as) \<longrightarrow> ?N r = N r) \<and> (\<forall>r. nd_capacity (?N r) = nd_capacity (N r) \<and> nd_entries (?N r) = nd_entries (N r))"
      by (simp add: set_prev_def)
    ultimately show ?thesis using run by blast
  next
    case (Cons l bs)
    then have rl: "r = Allocated l" using chain_form [OF r(2)] by auto
    obtain h' N' where ih: "adopt_chain fuel' (Initial (\<not> own)) (Initial own) r N = Inr (h', N')"
      "hash_chain N' (\<not> own) h' (map Allocated as @ [Initial (\<not> own)])" "\<forall>r. r \<notin> Allocated ` set as \<longrightarrow> N' r = N r"
      "\<forall>r. nd_capacity (N' r) = nd_capacity (N r) \<and> nd_entries (N' r) = nd_entries (N r)"
      using Cons.IH [OF r(2), of fuel'] Cons.prems(2,3) fuel by auto
    have h': "h' = r" using ih(1) rl by (auto simp: adopt_chain_def bind_r_def split: sum.splits)
    have run: "adopt_chain fuel (Initial (\<not> own)) (Initial own) h N = Inr (h, N')"
      using ih(1) h r(1) rl fuel h' by (auto simp: adopt_chain_def bind_r_def split: sum.splits)
    have "N' (Allocated k) = N (Allocated k)" using ih(3) new by auto
    then have "hash_chain N' (\<not> own) h (map Allocated (k # as) @ [Initial (\<not> own)])"
      using chain_more [of N' k r "\<not> own" "map Allocated as @ [Initial (\<not> own)]"] ih(2) h' h r(1) new by auto
    then show ?thesis using run ih(3,4) by (intro exI [of _ h] exI [of _ N']) auto
  qed
qed

lemma swap_entries_simps [simp]:
  "nd_prev (swap_entries N r) = nd_prev (N r)" "nd_capacity (swap_entries N r) = nd_capacity (N r)"
  "nd_entries (swap_entries N (Initial i)) = nd_entries (N (Initial (\<not> i)))" "nd_entries (swap_entries N (Allocated k)) = nd_entries (N (Allocated k))"
  by (cases i; simp add: swap_entries_def)+

text \<open>
  C23: \<^verbatim>\<open>swap_implicit_producer_hashes\<close> exchanges the hashes of two queues. Both loops that look for the last allocated table end, no null pointer is followed,
  and afterwards each queue's chain of tables ends in the table that is a member of that queue and holds, table by table, what the
  chain of the other queue held.
\<close>

theorem hash_chains_swapped:
  assumes this_chain: "hash_chain (nodes p) True (this_hash p) rs" and other_chain: "hash_chain (nodes p) False (other_hash p) ss"
    and "set rs \<inter> set ss = {}" and "nd_capacity (nodes p (Initial True)) = nd_capacity (nodes p (Initial False))"
    and "length rs \<le> fuel" and "length ss \<le> fuel"
  shows "\<exists>p' rs' ss'. swap_implicit_producer_hashes fuel p = Inr p' \<and> hash_chain (nodes p') True (this_hash p') rs' \<and>
    hash_chain (nodes p') False (other_hash p') ss' \<and> tables (nodes p') rs' = tables (nodes p) ss \<and> tables (nodes p') ss' = tables (nodes p) rs \<and>
    this_count p' = other_count p \<and> other_count p' = this_count p"
proof -
  let ?N = "nodes p" and ?N1 = "swap_entries (nodes p)"
  obtain as where as: "rs = map Allocated as @ [Initial True]" "nd_prev (?N (Initial True)) = None" using chain_form [OF this_chain] by blast
  obtain bs where bs: "ss = map Allocated bs @ [Initial False]" "nd_prev (?N (Initial False)) = None" using chain_form [OF other_chain] by blast
  have disj: "set as \<inter> set bs = {}" using assms(3) as(1) bs(1) by auto
  have c1: "hash_chain ?N1 False (other_hash p) (map Allocated bs @ [Initial False])" using chain_cong [OF other_chain] bs(1) by simp
  obtain h N2 where a1: "adopt_chain fuel (Initial True) (Initial False) (other_hash p) ?N1 = Inr (h, N2)"
    "hash_chain N2 True h (map Allocated bs @ [Initial True])" "\<forall>r. r \<notin> Allocated ` set bs \<longrightarrow> N2 r = ?N1 r"
    "\<forall>r. nd_capacity (N2 r) = nd_capacity (?N1 r) \<and> nd_entries (N2 r) = nd_entries (?N1 r)"
    using adopt_ok [OF c1, of fuel] bs(1) as(2) assms(6) by auto
  have keep: "nd_prev (N2 r) = nd_prev (?N r)" if "r \<notin> Allocated ` set bs" for r using a1(3) that by simp
  have c2: "hash_chain N2 True (this_hash p) (map Allocated as @ [Initial True])"
    by (rule chain_cong [OF this_chain [unfolded as(1)]], rule keep) (use disj in auto)
  have "nd_prev (N2 (Initial False)) = None" using keep [of "Initial False"] bs(2) by auto
  then obtain h' N3 where a2: "adopt_chain fuel (Initial False) (Initial True) (this_hash p) N2 = Inr (h', N3)"
    "hash_chain N3 False h' (map Allocated as @ [Initial False])" "\<forall>r. r \<notin> Allocated ` set as \<longrightarrow> N3 r = N2 r"
    "\<forall>r. nd_capacity (N3 r) = nd_capacity (N2 r) \<and> nd_entries (N3 r) = nd_entries (N2 r)"
    using adopt_ok [OF c2, of fuel] as(1) assms(5) by auto
  have c3: "hash_chain N3 True h (map Allocated bs @ [Initial True])"
    by (rule chain_cong [OF a1(2)], rule arg_cong [of _ _ nd_prev], rule a2(3) [rule_format]) (use disj in auto)
  have run: "swap_implicit_producer_hashes fuel p =
      Inr \<lparr>nodes = N3, this_hash = h, other_hash = h', this_count = other_count p, other_count = this_count p\<rparr>"
    using a1(1) a2(1) by (simp add: swap_implicit_producer_hashes_def)
  have "tables N3 (map Allocated bs @ [Initial True]) = tables ?N ss" "tables N3 (map Allocated as @ [Initial False]) = tables ?N rs"
    using a1(4) a2(4) as(1) bs(1) assms(4) by (simp_all add: tables_def)
  then show ?thesis using run c3 a2(2) by (intro exI) (auto intro!: exI)
qed

text \<open>This queue has two tables, the other one only its own.\<close>

definition two_hashes :: hash_pair where
  "two_hashes = \<lparr>nodes = (\<lambda>r. case r of
       Initial True \<Rightarrow> \<lparr>nd_capacity = 2, nd_entries = [\<lparr>kvp_key = 8, kvp_value = Some 0\<rparr>, \<lparr>kvp_key = 0, kvp_value = None\<rparr>], nd_prev = None\<rparr>
     | Initial False \<Rightarrow> \<lparr>nd_capacity = 2, nd_entries = [\<lparr>kvp_key = 0, kvp_value = None\<rparr>, \<lparr>kvp_key = 0, kvp_value = None\<rparr>], nd_prev = None\<rparr>
     | Allocated k \<Rightarrow> \<lparr>nd_capacity = 4, nd_entries = replicate 4 \<lparr>kvp_key = 0, kvp_value = None\<rparr>, nd_prev = Some (Initial True)\<rparr>),
     this_hash = Allocated 0, other_hash = Initial False, this_count = 1, other_count = 0\<rparr>"

theorem hash_chains_swapped_witness:
  "\<exists>p' rs' ss'. swap_implicit_producer_hashes 2 two_hashes = Inr p' \<and> hash_chain (nodes p') True (this_hash p') rs' \<and>
    hash_chain (nodes p') False (other_hash p') ss' \<and> tables (nodes p') rs' = tables (nodes two_hashes) [Initial False] \<and>
    tables (nodes p') ss' = tables (nodes two_hashes) [Allocated 0, Initial True] \<and>
    this_count p' = other_count two_hashes \<and> other_count p' = this_count two_hashes"
proof (rule hash_chains_swapped)
  have "hash_chain (nodes two_hashes) True (Initial True) [Initial True]" by (rule chain_end) (simp add: two_hashes_def)
  then have "hash_chain (nodes two_hashes) True (Allocated 0) [Allocated 0, Initial True]" by (intro chain_more) (simp_all add: two_hashes_def)
  then show "hash_chain (nodes two_hashes) True (this_hash two_hashes) [Allocated 0, Initial True]" by (simp add: two_hashes_def)
  have "hash_chain (nodes two_hashes) False (Initial False) [Initial False]" by (rule chain_end) (simp add: two_hashes_def)
  then show "hash_chain (nodes two_hashes) False (other_hash two_hashes) [Initial False]" by (simp add: two_hashes_def)
qed (simp_all add: two_hashes_def)

section \<open>A queue that was moved from\<close>

lemma empty_pool_ok: "pool_ok t \<lparr>heap = (\<lambda>_. None), next_block = 0, mallocs = m, initialBlockPoolIndex = 0, initialBlockPoolSize = 0, freeList = []\<rparr>"
  by (simp add: pool_ok_def free_blocks_def)

text \<open>The new queue stands for what the old one stood for, and the old one for no lists at all: it can be used again.\<close>

lemma moved_from_usable:
  assumes ok: "setting_ok S b" and inv: "cq_inv S b Q reg q"
  shows "cq_inv S b Q reg (fst (move_cqueue (s_traits S) q))" "cq_inv S b (\<lambda>_. None) (\<lambda>_. None) (snd (move_cqueue (s_traits S) q))"
proof -
  show "cq_inv S b Q reg (fst (move_cqueue (s_traits S) q))" using inv by (simp add: move_cqueue_def)
  obtain i where i: "i < 64" "INITIAL_IMPLICIT_PRODUCER_HASH_SIZE (s_traits S) = 2 ^ i" using ok by (auto simp: setting_ok_def)
  then have h: "populate_initial_implicit_producer_hash (s_traits S) = [new_hash_table (2 ^ i)]" by (simp add: populate_initial_implicit_producer_hash_def)
  have "hash_inv (\<lambda>_. None) [new_hash_table (2 ^ i)] 0"
    using new_table_ok [OF i(1)] by (auto simp: hash_inv_def tables_ok_def table_ok_def)
  then show "cq_inv S b (\<lambda>_. None) (\<lambda>_. None) (snd (move_cqueue (s_traits S) q))"
    by (auto simp: move_cqueue_def cq_inv_def empty_queue_def list_ok_def links_ok_def subs_ok_def producer_shape_def h dom_def empty_pool_ok)
qed

lemma swap_internal_swaps: "swap_internal (q, other) = (other, q)"
  by (cases q; cases other) (simp add: swap_internal_def)

end
