(* ===== verification/Spec2Isabelle.thy ===== *)
theory Spec2Isabelle
  imports Ring_Interleaving Broker_Spec Broker_Destructor Broker_Moments Broker_Ids Main_Program Utils
    Expected_Props Inplace_Function Mpmc_Fifo Blocking_Queue Router Cq_Free_List Cq_Counters
    Cq_Explicit_Faults Cq_Order Cq_Swap
begin

text \<open>
  \<^bold>\<open>Keryx\<close> is a small C++ library for typed event streams. Its parts, under
  \<^verbatim>\<open>src/\<close>, are an in-process broker (\<^verbatim>\<open>lib/broker\<close>), a ring buffer for one writer
  and many readers (\<^verbatim>\<open>lib/ring_buffer\<close>), utilities (\<^verbatim>\<open>lib/utils\<close>), the benchmark
  program (\<^verbatim>\<open>main.cpp\<close>, \<^verbatim>\<open>benchmarks\<close>) and the draft of a network router
  (\<^verbatim>\<open>lib/router\<close>). The repository also holds header-only libraries under
  \<^verbatim>\<open>externals/include\<close>: \<^verbatim>\<open>expected.hpp\<close>, \<^verbatim>\<open>inplace_function.h\<close>, a bounded queue
  (\<^verbatim>\<open>mpmc_bounded_queue.h\<close>), and the queues and semaphores of \<^verbatim>\<open>moodycamel\<close>.

  \<^bold>\<open>How the parts interact.\<close> Client code makes \<^verbatim>\<open>Producer<Stream>\<close> and
  \<^verbatim>\<open>Consumer<Stream>\<close> objects. Their constructors, methods and destructors only queue
  actions on an \<^verbatim>\<open>OldBroker\<close>; \<^verbatim>\<open>OldBroker::do_work\<close> executes the queue, keeps the
  vectors of \<^verbatim>\<open>ProducerImpl\<close> and \<^verbatim>\<open>ConsumerImpl\<close> objects, and calls the handlers of
  the consumers, which are client code again and may queue more. The ring buffer is used
  by no other part. The broker declares its \<^verbatim>\<open>EventPtrOrError\<close> as an \<^verbatim>\<open>expected\<close>; the other
  libraries are not used by the program as it is, and are modelled for themselves.

  \<^bold>\<open>Theories.\<close>
  \<^item> \<^verbatim>\<open>Prelude\<close>: machine integers, run-time faults as values, loops that may fault, and
    the interfaces (locales) of loops under a frame (\<open>framed_loop\<close>), of loops that write a
    log (\<open>logging_loop\<close>) and of step relations with an invariant (\<open>step_invariant\<close>).
  \<^item> \<^verbatim>\<open>Ring_Buffer\<close>: \<^verbatim>\<open>Slot\<close>, \<^verbatim>\<open>RingBuffer\<close> and \<^verbatim>\<open>write\<close> on 32-bit
    counters, in builds with and without \<^verbatim>\<open>NDEBUG\<close>. The invariant \<open>rb_inv\<close> says that the
    slots are the last lap of the log of all written pieces; \<open>slot_window\<close> is the
    interface of that window.
  \<^item> \<^verbatim>\<open>Ring_Reader\<close>: \<^verbatim>\<open>ReadResult\<close>, \<^verbatim>\<open>RingBufferReader\<close> and
    \<^verbatim>\<open>read_next\<close>, as a refinement of a reader of the log (\<open>log_read\<close>). Its
    \<^verbatim>\<open>for(;;)\<close> loop is a \<^verbatim>\<open>partial_function (option)\<close>, so that not returning is the value
    \<open>None\<close>; the theorems state that it returns, and where it does not.
  \<^item> \<^verbatim>\<open>Ring_Interleaving\<close>: the writer and any number of readers as a step relation whose
    steps are one atomic store or load of a slot's header, or the copy of one byte. Memory is
    sequentially consistent: that is the order of the header's atomics in the code, and is an
    assumption for the data bytes, which the code copies with plain \<^verbatim>\<open>memcpy\<close>.
  \<^item> \<^verbatim>\<open>Broker_Types\<close>, \<^verbatim>\<open>Old_Broker\<close>: the data and the operations of the broker, of
    \<^verbatim>\<open>ProducerImpl\<close> and of the client's objects. A client program (\<open>client\<close>) is a tree of
    calls that may depend on what earlier calls returned; a handler is a function from a
    notification to a client program. Objects live in heaps of addresses that are not reused,
    so that using a destroyed object is the fault \<open>UseAfterFree\<close>.
  \<^item> \<^verbatim>\<open>Broker_Invariant\<close>, \<^verbatim>\<open>Broker_Safety\<close>, \<^verbatim>\<open>Broker_Run\<close>: ownership,
    lifetime, typing and routing as an invariant that every client program, handler call and
    action keeps, lifted to all executions (\<open>broker_reachable\<close>).
  \<^item> \<^verbatim>\<open>Broker_Moments\<close>: the moments inside an action, between the calls of its handlers and of
    the client code in them, as a step relation on lists of tasks (\<open>moment_step\<close>) that is shown to
    perform exactly the executions of the broker.
  \<^item> \<^verbatim>\<open>Broker_Delivery\<close>, \<^verbatim>\<open>Broker_Protocol\<close>: who is told what by each action, and the
    order of the notifications between one producer and one consumer.
  \<^item> \<^verbatim>\<open>Broker_Work\<close>: when \<^verbatim>\<open>do_work\<close> returns, and when it does not.
  \<^item> \<^verbatim>\<open>Broker_Spec\<close>: a specification of the broker with neither heaps nor caches, and that
    \<^verbatim>\<open>do_work\<close> refines it when handlers are passive.
  \<^item> \<^verbatim>\<open>Broker_Ids\<close>: the 64-bit stream ids.
  \<^item> \<^verbatim>\<open>Broker_Destructor\<close>, \<^verbatim>\<open>Main_Program\<close>: the destructor of the broker, and the
    program of \<^verbatim>\<open>main.cpp\<close> around it.
  \<^item> \<^verbatim>\<open>Utils\<close>: the smart-pointer allocation of \<^verbatim>\<open>allocators.h\<close> over an arbitrary
    memory resource, the allocation benchmarks, and \<^verbatim>\<open>mp_utils.h\<close>.
  \<^item> \<^verbatim>\<open>Router\<close>: the data of the router's draft and its operations that have a body, with the names
    that it uses without a definition as parameters.
  \<^item> \<^verbatim>\<open>Cpp_Object\<close>: C++ values with their special members, which may throw, as a record of
    operations (\<open>cpp_type\<close>), and operations as outcomes: done, thrown, terminated, undefined.
  \<^item> \<^verbatim>\<open>Expected_Storage\<close>, \<^verbatim>\<open>Expected_Base\<close>, \<^verbatim>\<open>Expected\<close>, \<^verbatim>\<open>Expected_Props\<close>:
    \<^verbatim>\<open>tl::expected\<close>, from the specialisations of its storage to its functional operations.
  \<^item> \<^verbatim>\<open>Inplace_Function\<close>: \<^verbatim>\<open>stdext::inplace_function\<close> over tables of closure operations.
  \<^item> \<^verbatim>\<open>Mpmc_Queue\<close>, \<^verbatim>\<open>Mpmc_Fifo\<close>: \<^verbatim>\<open>mpmc_bounded_queue\<close> as a step relation of any number of
    threads whose steps are single atomic accesses, and its invariant.
  \<^item> \<^verbatim>\<open>Rw_Queue\<close>, \<^verbatim>\<open>Rw_Fifo\<close>, \<^verbatim>\<open>Rw_Ops\<close>, \<^verbatim>\<open>Rw_Props\<close>: \<^verbatim>\<open>ReaderWriterQueue\<close>, with
    each operation executed as a whole; one block, the ring of blocks, the operations, and runs
    from construction to destruction.
  \<^item> \<^verbatim>\<open>Semaphore\<close>: the POSIX \<^verbatim>\<open>Semaphore\<close> over arbitrary system calls and
    \<^verbatim>\<open>LightweightSemaphore\<close> as a step relation of a signalling and a waiting thread over a kernel
    semaphore, which refuses a deadline that is not in normal form with \<^verbatim>\<open>EINVAL\<close>; the field \<open>unbacked\<close> of the
    state counts, for the statements only, the waits that were let through without a token of their own.
  \<^item> \<^verbatim>\<open>Blocking_Queue\<close>: \<^verbatim>\<open>BlockingReaderWriterQueue\<close>, the composition of the two.
  \<^item> \<^verbatim>\<open>Cq_Util\<close>, \<^verbatim>\<open>Cq_Free_List\<close>, \<^verbatim>\<open>Cq_Counters\<close>: of \<^verbatim>\<open>concurrentqueue.h\<close>, the helpers of namespace
    \<^verbatim>\<open>details\<close>; \<^verbatim>\<open>FreeList\<close> with its reference counts, and the counters by which consumers share the
    elements of one sub-queue, both as step relations of any number of threads whose steps are
    single atomic accesses.
  \<^item> \<^verbatim>\<open>Cq_Block\<close>, \<^verbatim>\<open>Cq_Pool\<close>, \<^verbatim>\<open>Cq_Index\<close>: blocks, the pool they come from and go back to, and the arithmetic
    of the index of blocks on 64-bit indices that wrap around.
  \<^item> \<^verbatim>\<open>Cq_Subqueue\<close>: the interface of a sub-queue (locale \<open>subqueue\<close>): a representation, enqueue, dequeue and
    bulk dequeue with the laws that make every run of calls a run of a list.
  \<^item> \<^verbatim>\<open>Cq_Explicit\<close>, \<^verbatim>\<open>Cq_Explicit_Fifo\<close>, \<^verbatim>\<open>Cq_Explicit_Run\<close>, \<^verbatim>\<open>Cq_Explicit_Faults\<close>: \<^verbatim>\<open>ExplicitProducer\<close> with each
    operation executed as a whole; its ring of blocks and its index as a list; the interface; and examples of
    runs in which the code goes wrong.
  \<^item> \<^verbatim>\<open>Cq_Implicit\<close>, \<^verbatim>\<open>Cq_Implicit_Fifo\<close>: \<^verbatim>\<open>ImplicitProducer\<close> in the same way, with the index of entries that survive
    its growth.
  \<^item> \<^verbatim>\<open>Cq_Hash\<close>: the hash tables from threads to implicit producers, with linear probing and growth, as a map.
  \<^item> \<^verbatim>\<open>Cq_Queue\<close>: \<^verbatim>\<open>ConcurrentQueue\<close> itself: the list of producers, producer and consumer tokens, and the public operations,
    which choose a sub-queue and call it, each executed as a whole. \<^verbatim>\<open>Cq_Queue_Fifo\<close>: the invariant \<open>cq_inv\<close> over all sub-queues,
    which share one pool (locale \<open>shared_subqueue\<close>, interpreted by both kinds), the hash and the tokens, and what the
    operations do to it. \<^verbatim>\<open>Cq_Consumer\<close>: consumer tokens and their walk around the producers.
  \<^item> \<^verbatim>\<open>Cq_Queue_Run\<close>: runs of calls of clients, and their specification as a step relation \<open>cq_step\<close> on a collection of lists;
    \<^verbatim>\<open>Cq_Order\<close>: what follows for the elements. \<^verbatim>\<open>Cq_Swap\<close>: moving and swapping queues, and the pointers
    between hash tables that are members of a queue.

  \<^bold>\<open>What is shown.\<close> For the broker: no execution of client code and \<^verbatim>\<open>do_work\<close> uses a
  destroyed object; the consumers cached in a producer are exactly the matching ones; events
  reach exactly them, once, in order, well typed, and are freed; a destroyed consumer is silent
  at once, also in the middle of an action and of the handler that destroys it; each producer-consumer pair follows the protocol of start, events, stop;
  \<^verbatim>\<open>do_work\<close> returns if handlers keep to a budget, and implements a specification without heaps
  and caches if they are passive; stream ids are unique until the counter
  goes round; the destructor is safe exactly when no producer has consumers, which the
  \<^verbatim>\<open>publish\<close> benchmark violates. For the ring buffer: what is written is read back;
  readers that race with the writer only ever get untorn pieces in order, and each read ends;
  between fragments the ring under racing readers is the one that \<^verbatim>\<open>write\<close> makes on its own;
  and the precise situations in which a reader gets a spurious loss, misses a piece, or hangs.
  For \<^verbatim>\<open>expected\<close> and \<^verbatim>\<open>inplace_function\<close>: what is constructed is destroyed exactly once and
  values are transferred, also when something throws, and the cases where the code fails this.
  For the queues: \<^verbatim>\<open>mpmc_bounded_queue\<close> loses, duplicates and reorders nothing, under every
  interleaving; \<^verbatim>\<open>ReaderWriterQueue\<close> is a list that accepts at least the number of elements it
  was made for, never faults, and is destroyed completely; the semaphore loses no wakeup and
  grants no more than was signalled, but for one for each timed wait whose deadline the kernel refuses and for
  each signal of zero tokens to a waiting thread; a wait let through in the first way lets a later signal fail its
  assertion. The blocking queue finds an element whenever its semaphore lets it through, as long as no
  deadline was refused; otherwise its timed dequeue can fail. For
  \<^verbatim>\<open>concurrentqueue.h\<close>: the free list never hands a block out twice and loses none, and consumers that
  race for the elements of a sub-queue get each of them exactly once, under every interleaving; the
  sub-queue of a token is a list over whatever state of the pool, as long as nobody enqueues in bulk and
  no constructor of an element throws (there are runs in which it returns wrong elements or destroys elements
  twice after that); that of a thread without a token is a list, also when constructors throw. The whole queue, as
  long as nothing throws and nobody enqueues in bulk, is a collection of lists, one for each thread and token: every call ends
  without a fault, each thread has its own list, elements of a thread come out in order, none is lost or delivered twice, a
  dequeue finds an element if there is one, sizes are exact; a consumer token
  makes the others rotate when a single dequeue brings it to its quota, and not when a bulk dequeue has taken it past it.

  \<^bold>\<open>Bounds.\<close> Ring theorems ask for less than 2 to the 32 pieces in all (the code's sequence
  numbers wrap to the value that means an empty slot, which is a theorem of its own) and less
  than 2 to the 32 slots. The theorems on \<^verbatim>\<open>mpmc_bounded_queue\<close> and on the semaphore ask for
  less than 2 to the 63 positions or tokens in all, because the code takes signed differences, and those on the
  semaphore for less than 2 to the 62 waits let through without a token.
  Those on \<^verbatim>\<open>ReaderWriterQueue\<close> ask for a maximal block size of at most 2 to the 59 and a
  \<^verbatim>\<open>maxSize\<close> below 2 to the 62, so that sizes do not overflow. Those on the free list ask for less than 2 to the 30 threads (the
  count shares a word with a flag), those on the counters for less than 2 to the 63 elements, and those on
  sub-queues for less than 2 to the 62 elements and a block size of 2 to the \<open>b\<close> with \<open>b\<close> at most 32. The loops over
  rings and lists of blocks in \<^verbatim>\<open>Cq_Explicit\<close> and \<^verbatim>\<open>Cq_Implicit\<close> take a bound on their number of turns, and the value
  \<open>Cq_endless\<close> when it does not suffice: the operations themselves pass a number computed from their arguments,
  and the theorems that exclude every fault show that it is enough. The same holds for the hash (as many turns as slots, 64 doublings)
  and for the walks of consumer tokens; exchanging hashes takes the number of turns as a parameter, which has to be the number of
  tables. Runs of the whole queue ask for less than 2 to the 62 calls and less than 2 to the 32 producers, because the code counts
  producers in 32 bits.

  \<^bold>\<open>What is not modelled.\<close> Bulk enqueue and the destructor of \<^verbatim>\<open>ConcurrentQueue\<close> are defined, but runs with
  them are not shown to be correct, which for bulk enqueue they are not always. The build of \<^verbatim>\<open>concurrentqueue.h\<close> that is notified of the exit of threads, but for
  the notification itself. Interleaving inside the
  operations of the queue and of a sub-queue, apart from its counters and the free list. The debug builds of
  \<^verbatim>\<open>concurrentqueue.h\<close>. The interleaving of the two threads inside an operation of \<^verbatim>\<open>ReaderWriterQueue\<close>,
  and memory orders weaker than sequential consistency everywhere. The semaphores for Windows
  and Mach. The operations of the router that are declared without a body. Allocation
  failure inside the broker. Client handlers that call \<^verbatim>\<open>do_work\<close> recursively or throw, and
  filters that are not pure functions. The closure objects inside \<^verbatim>\<open>std::function\<close>: when a
  handler destroys its own consumer, the assignment in \<^verbatim>\<open>OldBroker::destroy_consumer\<close> also
  destroys the closure that is running, so that such a handler must not touch its captures
  afterwards. Threads in the broker, which has none.
\<close>

end
